(* ===== verification/KPrelude.thy ===== *)
theory KPrelude
  imports Main "HOL-Library.Word" "HOL-Library.Monad_Syntax"
begin

text \<open>
  Shared vocabulary of the development: the C integer types of the i386 kernel and their
  wrap-around, array accesses that may fail, the errno values the modelled system calls
  return, and generic lemmas on lists and options.

  The kernel's \<^verbatim>\<open>unsigned long\<close> and \<^verbatim>\<open>unsigned int\<close> are natural numbers below
  \<open>2 ^ 32\<close>, and its \<^verbatim>\<open>int\<close>, \<^verbatim>\<open>long\<close> and \<^verbatim>\<open>short\<close> are integers; the reduction to the type's
  width is written out (\<open>u32add\<close>, \<open>s16\<close>, \<dots>) wherever the source's arithmetic can leave the
  range. Flag words and bitmaps, where the code works bit by bit, are \<^typ>\<open>32 word\<close>.

  A read or a write outside an array is undefined behaviour in C. It is the value
  \<^const>\<open>None\<close> of the operations below, so that a theorem that an operation returns
  \<^const>\<open>Some\<close> is also a theorem that it stays inside its arrays.
\<close>

unbundle bit_operations_syntax

named_theorems arr_simps \<open>facts about array reads and writes\<close>
named_theorems wrap_simps \<open>machine arithmetic inside its range\<close>

section \<open>Machine integers\<close>

type_synonym u32 = "32 word"

definition u16 :: "int \<Rightarrow> int" where
  "u16 x = x mod 65536"

definition s8 :: "int \<Rightarrow> int" where
  "s8 x = (x + 128) mod 256 - 128"

definition s16 :: "int \<Rightarrow> int" where
  "s16 x = (x + 32768) mod 65536 - 32768"

definition s32 :: "int \<Rightarrow> int" where
  "s32 x = (x + 2147483648) mod 4294967296 - 2147483648"

definition u32add :: "nat \<Rightarrow> nat \<Rightarrow> nat" where
  "u32add a b = (a + b) mod 4294967296"

definition u32sub :: "nat \<Rightarrow> nat \<Rightarrow> nat" where
  "u32sub a b = (a + 4294967296 - b) mod 4294967296"

text \<open>C's integer division truncates towards zero.\<close>

definition cdiv :: "int \<Rightarrow> int \<Rightarrow> int" where
  "cdiv a b = sgn a * sgn b * (\<bar>a\<bar> div \<bar>b\<bar>)"

lemma u16_id [wrap_simps]: "0 \<le> x \<Longrightarrow> x < 65536 \<Longrightarrow> u16 x = x"
  by (simp add: u16_def)

lemma s8_id [wrap_simps]: "- 128 \<le> x \<Longrightarrow> x < 128 \<Longrightarrow> s8 x = x"
  by (simp add: s8_def)

lemma s16_id [wrap_simps]: "- 32768 \<le> x \<Longrightarrow> x < 32768 \<Longrightarrow> s16 x = x"
  by (simp add: s16_def)

lemma s32_id [wrap_simps]: "- 2147483648 \<le> x \<Longrightarrow> x < 2147483648 \<Longrightarrow> s32 x = x"
  by (simp add: s32_def)

lemma u16_range: "0 \<le> u16 x" "u16 x < 65536"
  by (simp_all add: u16_def)

lemma s16_range: "- 32768 \<le> s16 x" "s16 x < 32768"
  by (simp_all add: s16_def)

lemma s16_add_cong: "s16 (s16 x + y) = s16 (x + y)"
proof -
  have "((x + 32768) mod 65536 - 32768 + y + 32768) mod 65536 = (x + y + 32768) mod 65536"
    by (simp add: mod_simps algebra_simps)
  then show ?thesis by (simp add: s16_def)
qed

lemma u16_add_cong: "u16 (u16 x + y) = u16 (x + y)"
  by (simp add: u16_def mod_simps)

lemma u32add_id [wrap_simps]: "a + b < 4294967296 \<Longrightarrow> u32add a b = a + b"
  by (simp add: u32add_def)

lemma u32add_Suc [wrap_simps]: "Suc a < 4294967296 \<Longrightarrow> u32add a (Suc 0) = Suc a"
  by (simp add: u32add_def)

lemma u32sub_id [wrap_simps]:
  assumes "b \<le> a" "a < 4294967296"
  shows "u32sub a b = a - b"
proof -
  from assms(1) have "u32sub a b = (a - b + 4294967296) mod 4294967296"
    unfolding u32sub_def by (metis add.commute diff_add_assoc2)
  also have "\<dots> = (a - b) mod 4294967296" by (rule mod_add_self2)
  also have "\<dots> = a - b" using assms(2) by (intro mod_less) linarith
  finally show ?thesis .
qed

lemma cdiv_pos [wrap_simps]: "0 \<le> a \<Longrightarrow> 0 < b \<Longrightarrow> cdiv a b = a div b"
  by (simp add: cdiv_def sgn_if)

text \<open>A flag test of the source, bit by bit.\<close>

lemma and_nonzero_iff:
  fixes w v :: u32
  shows "w AND v \<noteq> 0 \<longleftrightarrow> (\<exists>i<32. bit w i \<and> bit v i)"
proof -
  have "w AND v = 0 \<longleftrightarrow> (\<forall>i<32. \<not> (bit w i \<and> bit v i))"
    by (auto simp: bit_eq_iff bit_and_iff dest: bit_imp_le_length)
  then show ?thesis by blast
qed

section \<open>Arrays\<close>

definition rd :: "'a list \<Rightarrow> nat \<Rightarrow> 'a option" where
  "rd xs i = (if i < length xs then Some (xs ! i) else None)"

definition wr :: "'a list \<Rightarrow> nat \<Rightarrow> 'a \<Rightarrow> 'a list option" where
  "wr xs i v = (if i < length xs then Some (xs[i := v]) else None)"

lemma rd_Some_iff [arr_simps]: "rd xs i = Some v \<longleftrightarrow> i < length xs \<and> xs ! i = v"
  by (auto simp: rd_def)

lemma rd_in [arr_simps]: "i < length xs \<Longrightarrow> rd xs i = Some (xs ! i)"
  by (simp add: rd_def)

lemma wr_Some_iff [arr_simps]: "wr xs i v = Some ys \<longleftrightarrow> i < length xs \<and> ys = xs[i := v]"
  by (auto simp: wr_def)

lemma wr_in [arr_simps]: "i < length xs \<Longrightarrow> wr xs i v = Some (xs[i := v])"
  by (simp add: wr_def)

lemma nth_upd [arr_simps]: "j < length xs \<Longrightarrow> xs[i := v] ! j = (if j = i then v else xs ! j)"
  by simp

section \<open>Error numbers\<close>

datatype errno =
  EPERM | ENOENT | ESRCH | EINTR | E2BIG | EBADF | EAGAIN | ENOMEM | EACCES | EFAULT | EEXIST
  | EINVAL | EFBIG | ENOSPC | ERANGE | ENOMSG | EIDRM | EDEADLK | ENOLCK | EOVERFLOW | ENOSYS | EDOM

section \<open>Lists\<close>

lemma sum_list_update_nat:
  fixes xs :: "nat list"
  shows "i < length xs \<Longrightarrow> sum_list (xs[i := v]) + xs ! i = sum_list xs + v"
proof (induction xs arbitrary: i)
  case Nil
  then show ?case by simp
next
  case (Cons x xs)
  then show ?case by (cases i) auto
qed

lemma sum_list_update_int:
  fixes xs :: "int list"
  shows "i < length xs \<Longrightarrow> sum_list (xs[i := v]) = sum_list xs + v - xs ! i"
proof (induction xs arbitrary: i)
  case Nil
  then show ?case by simp
next
  case (Cons x xs)
  then show ?case by (cases i) auto
qed

lemma distinct_remove1_set: "distinct xs \<Longrightarrow> set (remove1 x xs) = set xs - {x}"
  by (rule set_remove1_eq)

lemma takeWhile_split: "\<forall>x\<in>set xs. P x \<Longrightarrow> \<forall>y\<in>set ys. \<not> P y \<Longrightarrow> takeWhile P (xs @ ys) = xs"
  by (cases ys) (simp_all add: takeWhile_append2)

section \<open>Facilities\<close>

text \<open>
  What the facilities of the kernel have in common: states after initialization, steps (system calls, wake-ups, the clock) and an
  invariant. Every state that is reached satisfies the invariant, and a call that returns under the invariant returns in every such state.
\<close>

locale facility =
  fixes boot :: "'s \<Rightarrow> bool" and step :: "'s \<Rightarrow> 's \<Rightarrow> bool" and inv :: "'s \<Rightarrow> bool"
  assumes at_boot: "boot s \<Longrightarrow> inv s"
    and kept: "step s t \<Longrightarrow> inv s \<Longrightarrow> inv t"
begin

lemma runs_keep: "step\<^sup>*\<^sup>* s t \<Longrightarrow> inv s \<Longrightarrow> inv t"
  by (induction rule: rtranclp_induct) (auto intro: kept)

lemma reached: "step\<^sup>*\<^sup>* s t \<Longrightarrow> boot s \<Longrightarrow> inv t"
  by (rule runs_keep) (auto intro: at_boot)

lemma call_returns: "(\<And>s. inv s \<Longrightarrow> call s \<noteq> None) \<Longrightarrow> step\<^sup>*\<^sup>* s t \<Longrightarrow> boot s \<Longrightarrow> call t \<noteq> None"
  by (blast dest: reached)

end

end
