(* ===== verification/KBitmap.thy ===== *)
theory KBitmap
  imports KPrelude
begin

text \<open>
  Bitmaps, \<^verbatim>\<open>uts/i386/os/bitmap.c\<close> and the macros of \<^verbatim>\<open>uts/i386/sys/bitmap.h\<close>: a bitmap is an
  array of 32-bit words, bit \<open>i\<close> living in word \<open>i div 32\<close> at position \<open>i mod 32\<close>. The
  dispatcher keeps its map of active queues in one and finds the highest active queue with
  \<open>bt_gethighbit\<close>, whose hand-written binary search over the word is modelled decision by
  decision.
\<close>

type_synonym bitmap = "u32 list"

section \<open>The macros of bitmap.h\<close>

definition bt_biw :: "nat \<Rightarrow> u32" where
  "bt_biw i = push_bit (i mod 32) 1"

definition bt_test :: "bitmap \<Rightarrow> nat \<Rightarrow> bool option" where
  "bt_test m i = do { w \<leftarrow> rd m (i div 32); Some (w AND bt_biw i \<noteq> 0) }"

definition bt_set :: "bitmap \<Rightarrow> nat \<Rightarrow> bitmap option" where
  "bt_set m i = do { w \<leftarrow> rd m (i div 32); wr m (i div 32) (w OR bt_biw i) }"

definition bt_clear :: "bitmap \<Rightarrow> nat \<Rightarrow> bitmap option" where
  "bt_clear m i = do { w \<leftarrow> rd m (i div 32); wr m (i div 32) (w AND NOT (bt_biw i)) }"

section \<open>bt\_availbit\<close>

text \<open>
  \<^verbatim>\<open>index_t\<close> is \<^verbatim>\<open>short\<close>: the word index of the first loop and the value returned are
  reduced to 16 bits, and a negative word index is an access outside the map.
\<close>

function bt_availword :: "bitmap \<Rightarrow> int \<Rightarrow> int \<Rightarrow> int option" where
  "bt_availword m wx maxword =
     (if wx > maxword then Some wx
      else if wx < 0 then None
      else do {
        w \<leftarrow> rd m (nat wx);
        if w \<noteq> NOT 0 then Some wx
        else bt_availword m (if wx = 32767 then - 32768 else wx + 1) maxword
      })"
  by pat_completeness auto
termination
  by (relation "measure (\<lambda>(m, wx, maxword). if wx < 0 then 0 else Suc (nat (int (length m) - wx)))")
     (auto simp: rd_Some_iff)

function bt_availinword :: "u32 \<Rightarrow> u32 \<Rightarrow> int \<Rightarrow> int \<Rightarrow> int option" where
  "bt_availinword word bmask bx maxbit =
     (if bx > maxbit then None
      else if word AND bmask = 0 then Some bx
      else bt_availinword word (push_bit 1 bmask) (bx + 1) maxbit)"
  by pat_completeness auto
termination
  by (relation "measure (\<lambda>(word, bmask, bx, maxbit). nat (maxbit + 1 - bx))") auto

definition bt_availbit :: "bitmap \<Rightarrow> nat \<Rightarrow> int option" where
  "bt_availbit m nbits =
     (let nbits' = u32sub nbits 1; maxword = s16 (int (nbits' div 32)) in
      do {
        wx \<leftarrow> bt_availword m 0 maxword;
        if wx \<le> maxword then do {
          word \<leftarrow> rd m (nat wx);
          let maxbit = (if wx = maxword then int (nbits' mod 32) else 31);
          case bt_availinword word 1 0 maxbit of
            Some bx \<Rightarrow> Some (s16 (32 * wx + bx))
          | None \<Rightarrow> Some (- 1)
        } else Some (- 1)
      })"

section \<open>bt\_gethighbit\<close>

text \<open>The binary search over one nonzero word.\<close>

definition bt_highinword :: "u32 \<Rightarrow> nat" where
  "bt_highinword word =
    (if word AND 0xffff0000 \<noteq> 0 then
       if word AND 0xff000000 \<noteq> 0 then
         if word AND 0xf0000000 \<noteq> 0 then
           if word AND 0xc0000000 \<noteq> 0 then
             if word AND 0x80000000 \<noteq> 0 then 31 else 30
           else if word AND 0x20000000 \<noteq> 0 then 29 else 28
         else if word AND 0x0c000000 \<noteq> 0 then
           if word AND 0x08000000 \<noteq> 0 then 27 else 26
         else if word AND 0x02000000 \<noteq> 0 then 25 else 24
       else if word AND 0x00f00000 \<noteq> 0 then
         if word AND 0x00c00000 \<noteq> 0 then
           if word AND 0x00800000 \<noteq> 0 then 23 else 22
         else if word AND 0x00200000 \<noteq> 0 then 21 else 20
       else if word AND 0x000c0000 \<noteq> 0 then
         if word AND 0x00080000 \<noteq> 0 then 19 else 18
       else if word AND 0x00020000 \<noteq> 0 then 17 else 16
     else if word AND 0x0000ff00 \<noteq> 0 then
       if word AND 0x0000f000 \<noteq> 0 then
         if word AND 0x0000c000 \<noteq> 0 then
           if word AND 0x00008000 \<noteq> 0 then 15 else 14
         else if word AND 0x00002000 \<noteq> 0 then 13 else 12
       else if word AND 0x00000c00 \<noteq> 0 then
         if word AND 0x00000800 \<noteq> 0 then 11 else 10
       else if word AND 0x00000200 \<noteq> 0 then 9 else 8
     else if word AND 0x000000f0 \<noteq> 0 then
       if word AND 0x000000c0 \<noteq> 0 then
         if word AND 0x00000080 \<noteq> 0 then 7 else 6
       else if word AND 0x00000020 \<noteq> 0 then 5 else 4
     else if word AND 0x0000000c \<noteq> 0 then
       if word AND 0x00000008 \<noteq> 0 then 3 else 2
     else if word AND 0x00000002 \<noteq> 0 then 1 else 0)"

text \<open>The loop downwards over the words, then the search; \<open>- 1\<close> when every word is zero.\<close>

fun bt_gethighbit :: "bitmap \<Rightarrow> nat \<Rightarrow> int option" where
  "bt_gethighbit m 0 = do {
     word \<leftarrow> rd m 0;
     if word = 0 then Some (- 1) else Some (int (bt_highinword word)) }"
| "bt_gethighbit m (Suc wx) = do {
     word \<leftarrow> rd m (Suc wx);
     if word = 0 then bt_gethighbit m wx
     else Some (int (32 * Suc wx + bt_highinword word)) }"

section \<open>bt\_range\<close>

function bt_scan :: "bool \<Rightarrow> bitmap \<Rightarrow> nat \<Rightarrow> nat \<Rightarrow> nat option" where
  "bt_scan v m inx nbits =
     (if inx < nbits then do {
        b \<leftarrow> bt_test m inx;
        if b = v then Some inx else bt_scan v m (Suc inx) nbits }
      else Some inx)"
  by pat_completeness auto
termination
  by (relation "measure (\<lambda>(v, m, inx, nbits). nbits - inx)") auto

text \<open>The result is the return value with the new contents of \<^verbatim>\<open>*pos1\<close> and \<^verbatim>\<open>*pos2\<close>.\<close>

definition bt_range :: "bitmap \<Rightarrow> nat \<Rightarrow> nat \<Rightarrow> nat \<Rightarrow> (nat \<times> nat \<times> nat) option" where
  "bt_range m pos1 pos2 nbits = do {
     inx \<leftarrow> bt_scan True m pos1 nbits;
     if inx = nbits then Some (0, pos1, pos2)
     else do {
       inx2 \<leftarrow> bt_scan False m inx nbits;
       Some (1, inx, u32sub inx2 1)
     }
   }"

section \<open>The set of bits a map holds\<close>

definition bits_of :: "bitmap \<Rightarrow> nat set" where
  "bits_of m = {i. i div 32 < length m \<and> bit (m ! (i div 32)) (i mod 32)}"

lemma bit_biw_iff: "bit (bt_biw i) j \<longleftrightarrow> j = i mod 32"
  by (auto simp: bt_biw_def bit_simps)

lemma and_biw_iff: "w AND bt_biw i \<noteq> 0 \<longleftrightarrow> bit w (i mod 32)"
  by (auto simp: and_nonzero_iff bit_biw_iff)

lemma bits_of_iff: "i div 32 < length m \<Longrightarrow> i \<in> bits_of m \<longleftrightarrow> bit (m ! (i div 32)) (i mod 32)"
  by (simp add: bits_of_def)

lemma bt_test_spec [arr_simps]: "i div 32 < length m \<Longrightarrow> bt_test m i = Some (i \<in> bits_of m)"
  by (simp add: bt_test_def rd_in and_biw_iff bits_of_def)

lemma bt_set_Some: "i div 32 < length m \<Longrightarrow> \<exists>m'. bt_set m i = Some m'"
  by (simp add: bt_set_def rd_in wr_in)

lemma bt_clear_Some: "i div 32 < length m \<Longrightarrow> \<exists>m'. bt_clear m i = Some m'"
  by (simp add: bt_clear_def rd_in wr_in)

lemma bt_length:
  "bt_set m i = Some m' \<Longrightarrow> length m' = length m"
  "bt_clear m i = Some m' \<Longrightarrow> length m' = length m"
  by (auto simp: bt_set_def bt_clear_def rd_Some_iff wr_Some_iff bind_eq_Some_conv)

lemma same_bit_iff: "(j div 32 = i div 32 \<and> j mod 32 = i mod 32) \<longleftrightarrow> j = (i::nat)"
  by (metis div_mult_mod_eq)

lemma bits_of_update:
  assumes "i div 32 < length m" and "\<And>j. j < 32 \<Longrightarrow> j \<noteq> i mod 32 \<Longrightarrow> bit w j \<longleftrightarrow> bit (m ! (i div 32)) j"
  shows "bits_of (m[i div 32 := w]) = (if bit w (i mod 32) then insert i (bits_of m) else bits_of m - {i})"
proof (rule set_eqI)
  fix j
  show "j \<in> bits_of (m[i div 32 := w]) \<longleftrightarrow>
      j \<in> (if bit w (i mod 32) then insert i (bits_of m) else bits_of m - {i})"
    using assms same_bit_iff [of j i]
    by (cases "j div 32 = i div 32") (auto simp: bits_of_def nth_list_update)
qed

lemma bits_of_set: "bt_set m i = Some m' \<Longrightarrow> bits_of m' = insert i (bits_of m)"
  by (auto simp: bt_set_def rd_Some_iff wr_Some_iff bind_eq_Some_conv bits_of_update
      bit_or_iff bit_biw_iff)

lemma bits_of_clear: "bt_clear m i = Some m' \<Longrightarrow> bits_of m' = bits_of m - {i}"
  by (auto simp: bt_clear_def rd_Some_iff wr_Some_iff bind_eq_Some_conv bits_of_update
      bit_and_iff bit_not_iff bit_biw_iff)

lemma bits_of_finite: "finite (bits_of m)"
proof (rule finite_subset)
  show "bits_of m \<subseteq> {..<32 * length m}" by (auto simp: bits_of_def)
qed simp

lemma bits_of_code [code]:
  "bits_of m = set (filter (\<lambda>i. bit (m ! (i div 32)) (i mod 32)) [0..<32 * length m])"
  by (auto simp: bits_of_def)

section \<open>The search in one word\<close>

lemma and_range_iff:
  fixes w :: u32
  shows "w AND push_bit k (mask n) \<noteq> 0 \<longleftrightarrow> (\<exists>i<32. k \<le> i \<and> i < k + n \<and> bit w i)"
  unfolding and_nonzero_iff by (rule ex_cong) (auto simp: bit_simps)

text \<open>The highest set bit of \<open>w\<close> lies in the interval from \<open>lo\<close> up to, not including, \<open>hi\<close>.\<close>

definition high_in :: "u32 \<Rightarrow> nat \<Rightarrow> nat \<Rightarrow> bool" where
  "high_in w lo hi \<longleftrightarrow> (\<exists>i. lo \<le> i \<and> i < hi \<and> bit w i) \<and> (\<forall>i\<ge>hi. \<not> bit w i)"

definition is_high :: "u32 \<Rightarrow> nat \<Rightarrow> bool" where
  "is_high w b \<longleftrightarrow> bit w b \<and> (\<forall>i>b. \<not> bit w i)"

lemma high_in_leaf: "high_in w b hi \<Longrightarrow> hi = Suc b \<Longrightarrow> is_high w b"
  unfolding high_in_def is_high_def by (metis Suc_leI less_Suc_eq_le nat_less_le)

lemma high_in_if:
  assumes "high_in w lo hi" "hi = mid + n" "hi \<le> 32"
    and "high_in w mid hi \<Longrightarrow> is_high w a" "high_in w lo mid \<Longrightarrow> is_high w b"
  shows "is_high w (if w AND push_bit mid (mask n) \<noteq> 0 then a else b)"
proof (cases "w AND push_bit mid (mask n) \<noteq> 0")
  case True
  then have "high_in w mid hi"
    using assms(1,2) unfolding and_range_iff high_in_def by auto
  with True assms(4) show ?thesis by simp
next
  case False
  then have "\<not> (\<exists>i<32. mid \<le> i \<and> i < mid + n \<and> bit w i)"
    by (simp add: and_range_iff)
  then have "\<not> bit w i" if "mid \<le> i" for i
    using assms(1-3) that unfolding high_in_def by (meson bit_imp_le_length not_le order_less_le_trans)
  moreover obtain i where "lo \<le> i" "bit w i" using assms(1) unfolding high_in_def by blast
  ultimately have "high_in w lo mid"
    unfolding high_in_def by (meson not_le)
  with False assms(5) show ?thesis by simp
qed

lemma high_in_start: "w \<noteq> 0 \<Longrightarrow> high_in w 0 32"
  using and_nonzero_iff [of w "- 1"] by (auto simp: high_in_def dest: bit_imp_le_length)

lemma search_masks:
  "(0xffff0000 :: u32) = push_bit 16 (mask 16)" "(0xff000000 :: u32) = push_bit 24 (mask 8)"
  "(0xf0000000 :: u32) = push_bit 28 (mask 4)" "(0xc0000000 :: u32) = push_bit 30 (mask 2)"
  "(0x80000000 :: u32) = push_bit 31 (mask 1)" "(0x20000000 :: u32) = push_bit 29 (mask 1)"
  "(0x0c000000 :: u32) = push_bit 26 (mask 2)" "(0x08000000 :: u32) = push_bit 27 (mask 1)"
  "(0x02000000 :: u32) = push_bit 25 (mask 1)" "(0x00f00000 :: u32) = push_bit 20 (mask 4)"
  "(0x00c00000 :: u32) = push_bit 22 (mask 2)" "(0x00800000 :: u32) = push_bit 23 (mask 1)"
  "(0x00200000 :: u32) = push_bit 21 (mask 1)" "(0x000c0000 :: u32) = push_bit 18 (mask 2)"
  "(0x00080000 :: u32) = push_bit 19 (mask 1)" "(0x00020000 :: u32) = push_bit 17 (mask 1)"
  "(0x0000ff00 :: u32) = push_bit 8 (mask 8)" "(0x0000f000 :: u32) = push_bit 12 (mask 4)"
  "(0x0000c000 :: u32) = push_bit 14 (mask 2)" "(0x00008000 :: u32) = push_bit 15 (mask 1)"
  "(0x00002000 :: u32) = push_bit 13 (mask 1)" "(0x00000c00 :: u32) = push_bit 10 (mask 2)"
  "(0x00000800 :: u32) = push_bit 11 (mask 1)" "(0x00000200 :: u32) = push_bit 9 (mask 1)"
  "(0x000000f0 :: u32) = push_bit 4 (mask 4)" "(0x000000c0 :: u32) = push_bit 6 (mask 2)"
  "(0x00000080 :: u32) = push_bit 7 (mask 1)" "(0x00000020 :: u32) = push_bit 5 (mask 1)"
  "(0x0000000c :: u32) = push_bit 2 (mask 2)" "(0x00000008 :: u32) = push_bit 3 (mask 1)"
  "(0x00000002 :: u32) = push_bit 1 (mask 1)"
  by (simp_all add: mask_eq_exp_minus_1 push_bit_eq_mult)

lemma bt_highinword_is_high: "w \<noteq> 0 \<Longrightarrow> is_high w (bt_highinword w)"
  unfolding bt_highinword_def search_masks
  by (drule high_in_start) ((erule high_in_leaf, simp) | (erule high_in_if, simp, simp))+

section \<open>The search over the map\<close>

definition bits_upto :: "bitmap \<Rightarrow> nat \<Rightarrow> nat set" where
  "bits_upto m wx = {i \<in> bits_of m. i div 32 \<le> wx}"

lemma finite_bits_upto: "finite (bits_upto m wx)"
  by (simp add: bits_upto_def bits_of_finite)

lemma bits_upto_Suc_zero: "wx < length m \<Longrightarrow> m ! wx = 0 \<Longrightarrow> wx = Suc k \<Longrightarrow> bits_upto m wx = bits_upto m k"
  by (auto simp: bits_upto_def bits_of_def le_Suc_eq)

lemma Max_bits_upto:
  assumes "wx < length m" "m ! wx \<noteq> 0"
  shows "bits_upto m wx \<noteq> {}" "Max (bits_upto m wx) = 32 * wx + bt_highinword (m ! wx)"
proof -
  let ?h = "bt_highinword (m ! wx)"
  have h: "bit (m ! wx) ?h" "\<And>i. ?h < i \<Longrightarrow> \<not> bit (m ! wx) i"
    using bt_highinword_is_high [OF assms(2)] by (auto simp: is_high_def)
  then have "?h < 32" by (auto dest: bit_imp_le_length)
  with h(1) assms(1) have mem: "32 * wx + ?h \<in> bits_upto m wx"
    by (simp add: bits_upto_def bits_of_def)
  then show "bits_upto m wx \<noteq> {}" by blast
  have "i \<le> 32 * wx + ?h" if "i \<in> bits_upto m wx" for i
  proof (cases "i div 32 = wx")
    case True
    with that have "bit (m ! wx) (i mod 32)" by (simp add: bits_upto_def bits_of_def)
    with h(2) have "i mod 32 \<le> ?h" by (meson not_le)
    with True show ?thesis by (metis add_left_mono mult_div_mod_eq)
  next
    case False
    with that have "i div 32 < wx" by (simp add: bits_upto_def)
    then show ?thesis by linarith
  qed
  with mem show "Max (bits_upto m wx) = 32 * wx + ?h"
    by (intro Max_eqI finite_bits_upto) auto
qed

definition high_of :: "nat set \<Rightarrow> int" where
  "high_of S = (if S = {} then - 1 else int (Max S))"

lemma bt_gethighbit_high_of:
  "wx < length m \<Longrightarrow> bt_gethighbit m wx = Some (high_of (bits_upto m wx))"
proof (induction m wx rule: bt_gethighbit.induct)
  case (1 m)
  show ?case
  proof (cases "m ! 0 = 0")
    case True
    then have "\<not> bit (m ! (i div 32)) (i mod 32)" if "i div 32 \<le> 0" for i
      using that by (metis bit_0_eq bot_apply bot_bool_def le_zero_eq)
    then have "bits_upto m 0 = {}"
      unfolding bits_upto_def bits_of_def by blast
    with 1 True show ?thesis by (simp add: rd_in high_of_def)
  next
    case False
    with 1 Max_bits_upto [of 0 m] show ?thesis by (simp add: rd_in high_of_def)
  qed
next
  case (2 m wx)
  show ?case
  proof (cases "m ! Suc wx = 0")
    case True
    with 2 bits_upto_Suc_zero [of "Suc wx" m wx] show ?thesis by (simp add: rd_in)
  next
    case False
    with 2 Max_bits_upto [of "Suc wx" m] show ?thesis by (simp add: rd_in high_of_def)
  qed
qed

section \<open>An indexed set as its clients see it\<close>

text \<open>
  What a client of the bitmap relies on: a set of indices below a capacity, updated one index at
  a time, whose highest member can be asked for below an upper bound. The lemmas proved from it
  keep a cached highest member up to date, which is what the dispatcher does with
  \<^verbatim>\<open>maxrunpri\<close>.
\<close>

locale indexed_set =
  fixes setb clearb :: "'m \<Rightarrow> nat \<Rightarrow> 'm option"
    and highb :: "'m \<Rightarrow> nat \<Rightarrow> int option"
    and members :: "'m \<Rightarrow> nat set"
    and cap :: "'m \<Rightarrow> nat"
  assumes finite_members: "finite (members m)"
    and set_ok: "i < cap m \<Longrightarrow> \<exists>m'. setb m i = Some m' \<and> members m' = insert i (members m) \<and> cap m' = cap m"
    and clear_ok: "i < cap m \<Longrightarrow> \<exists>m'. clearb m i = Some m' \<and> members m' = members m - {i} \<and> cap m' = cap m"
    and high_ok: "i < cap m \<Longrightarrow> \<forall>j\<in>members m. j \<le> i \<Longrightarrow> highb m i = Some (high_of (members m))"
begin

definition tracks :: "'m \<Rightarrow> int \<Rightarrow> bool" where
  "tracks m mx \<longleftrightarrow> mx = high_of (members m)"

lemma tracks_bound: "tracks m mx \<Longrightarrow> j \<in> members m \<Longrightarrow> int j \<le> mx"
  by (auto simp: tracks_def high_of_def finite_members intro: Max_ge)

lemma tracks_set:
  assumes "tracks m mx" "setb m i = Some m'" "i < cap m"
  shows "tracks m' (if int i > mx then int i else mx)"
proof -
  have mem: "members m' = insert i (members m)" using set_ok [OF assms(3)] assms(2) by auto
  show ?thesis
  proof (cases "members m = {}")
    case True
    with mem assms(1) show ?thesis by (simp add: tracks_def high_of_def)
  next
    case False
    then have "high_of (members m') = int (max i (Max (members m)))" "mx = int (Max (members m))"
      using mem assms(1) finite_members [of m] by (simp_all add: tracks_def high_of_def)
    then show ?thesis by (simp add: tracks_def max_def)
  qed
qed

lemma tracks_clear_other:
  assumes "tracks m mx" "clearb m i = Some m'" "i < cap m" "int i \<noteq> mx" "members m \<noteq> {}"
  shows "tracks m' mx"
proof -
  have mem: "members m' = members m - {i}" using clear_ok [OF assms(3)] assms(2) by auto
  have mx: "mx = int (Max (members m))" using assms(1,5) by (simp add: tracks_def high_of_def)
  with assms(4,5) finite_members [of m] have "Max (members m) \<in> members m'"
    unfolding mem by (auto intro: Max_in)
  moreover have "\<forall>j\<in>members m'. j \<le> Max (members m)"
    unfolding mem using finite_members [of m] by auto
  ultimately have "Max (members m') = Max (members m)" "members m' \<noteq> {}"
    using finite_members [of m'] by (auto intro!: Max_eqI)
  with mx show ?thesis by (simp add: tracks_def high_of_def)
qed

lemma tracks_clear_high:
  assumes "tracks m mx" "clearb m i = Some m'" "i < cap m" "int i = mx"
  shows "highb m' i = Some (high_of (members m')) \<and> tracks m' (high_of (members m'))"
proof -
  have mem: "members m' = members m - {i}" "cap m' = cap m" using clear_ok [OF assms(3)] assms(2) by auto
  have "\<forall>j\<in>members m'. j \<le> i"
    using tracks_bound [OF assms(1)] assms(4) unfolding mem by fastforce
  with high_ok [of i m'] assms(3) mem(2) show ?thesis by (simp add: tracks_def)
qed

end

definition bt_high_from :: "bitmap \<Rightarrow> nat \<Rightarrow> int option" where
  "bt_high_from m i = bt_gethighbit m (i div 32)"

interpretation bm: indexed_set bt_set bt_clear bt_high_from bits_of "\<lambda>m. 32 * length m"
proof
  fix m :: bitmap and i :: nat
  show "finite (bits_of m)" by (rule bits_of_finite)
  assume i: "i < 32 * length m"
  then have i32: "i div 32 < length m" by linarith
  from bt_set_Some [OF i32] show "\<exists>m'. bt_set m i = Some m' \<and> bits_of m' = insert i (bits_of m) \<and> 32 * length m' = 32 * length m"
    using bits_of_set bt_length(1) by metis
  from bt_clear_Some [OF i32] show "\<exists>m'. bt_clear m i = Some m' \<and> bits_of m' = bits_of m - {i} \<and> 32 * length m' = 32 * length m"
    using bits_of_clear bt_length(2) by metis
  assume "\<forall>j\<in>bits_of m. j \<le> i"
  then have "bits_upto m (i div 32) = bits_of m"
    by (auto simp: bits_upto_def intro: div_le_mono)
  with bt_gethighbit_high_of [OF i32] show "bt_high_from m i = Some (high_of (bits_of m))"
    by (simp add: bt_high_from_def)
qed

section \<open>The first clear bit\<close>

declare bt_availword.simps [simp del] bt_availinword.simps [simp del] bt_scan.simps [simp del]

lemma bt_availword_spec:
  assumes "0 \<le> wx" "wx \<le> maxword + 1" "maxword < int (length m)" "maxword < 32767"
  shows "\<exists>r. bt_availword m wx maxword = Some r \<and> wx \<le> r \<and> r \<le> maxword + 1
    \<and> (\<forall>k. wx \<le> k \<and> k < r \<longrightarrow> m ! nat k = NOT 0) \<and> (r \<le> maxword \<longrightarrow> m ! nat r \<noteq> NOT 0)"
  using assms
proof (induction m wx maxword rule: bt_availword.induct)
  case (1 m wx maxword)
  consider "wx > maxword" | "wx \<le> maxword" "m ! nat wx \<noteq> NOT 0" | "wx \<le> maxword" "m ! nat wx = NOT 0"
    by linarith
  then show ?case
  proof cases
    case 1
    with "1.prems" show ?thesis by (auto simp: bt_availword.simps)
  next
    case 2
    with "1.prems" show ?thesis by (auto simp: bt_availword.simps [of m wx] rd_in)
  next
    case 3
    with "1.prems" have rd: "rd m (nat wx) = Some (NOT 0)" by (simp add: rd_in)
    have "\<exists>r. bt_availword m (wx + 1) maxword = Some r \<and> wx + 1 \<le> r \<and> r \<le> maxword + 1
        \<and> (\<forall>k. wx + 1 \<le> k \<and> k < r \<longrightarrow> m ! nat k = NOT 0) \<and> (r \<le> maxword \<longrightarrow> m ! nat r \<noteq> NOT 0)"
      using "1.IH" [OF _ _ rd] "1.prems" 3 by simp
    then obtain r where r: "bt_availword m (wx + 1) maxword = Some r" "wx + 1 \<le> r" "r \<le> maxword + 1"
        "\<forall>k. wx + 1 \<le> k \<and> k < r \<longrightarrow> m ! nat k = NOT 0" "r \<le> maxword \<longrightarrow> m ! nat r \<noteq> NOT 0"
      by blast
    have "bt_availword m wx maxword = Some r"
      using r(1) rd "1.prems" 3 by (simp add: bt_availword.simps [of m wx])
    moreover have "\<forall>k. wx \<le> k \<and> k < r \<longrightarrow> m ! nat k = NOT 0"
      using r(4) 3(2) by (metis add1_zle_eq order_le_less)
    ultimately show ?thesis using r(2,3,5) by (intro exI [of _ r]) simp
  qed
qed

lemma and_shifted_one: "(w :: u32) AND push_bit n 1 = 0 \<longleftrightarrow> \<not> (n < 32 \<and> bit w n)"
  using and_nonzero_iff [of w "push_bit n 1"] by (auto simp: bit_simps)

lemma bt_availinword_spec:
  assumes "0 \<le> bx" "maxbit < 32"
  shows "case bt_availinword w (push_bit (nat bx) 1) bx maxbit of
      None \<Rightarrow> \<forall>k. bx \<le> k \<and> k \<le> maxbit \<longrightarrow> bit w (nat k)
    | Some b \<Rightarrow> bx \<le> b \<and> b \<le> maxbit \<and> \<not> bit w (nat b) \<and> (\<forall>k. bx \<le> k \<and> k < b \<longrightarrow> bit w (nat k))"
  using assms
proof (induction w "push_bit (nat bx) 1 :: u32" bx maxbit rule: bt_availinword.induct)
  case (1 w bx maxbit)
  have shift: "push_bit 1 (push_bit (nat bx) 1) = (push_bit (nat (bx + 1)) 1 :: u32)"
    using "1.prems"(1) by (simp add: nat_add_distrib)
  consider "bx > maxbit" | "bx \<le> maxbit" "\<not> bit w (nat bx)" | "bx \<le> maxbit" "bit w (nat bx)"
    by linarith
  then show ?case
  proof cases
    case 1
    then show ?thesis by (auto simp: bt_availinword.simps [of w _ bx])
  next
    case 2
    then have "w AND push_bit (nat bx) 1 = 0" by (simp only: and_shifted_one) simp
    with 2 have "bt_availinword w (push_bit (nat bx) 1) bx maxbit = Some bx"
      by (simp add: bt_availinword.simps [of w _ bx])
    with 2 show ?thesis by auto
  next
    case 3
    with "1.prems" have go: "\<not> bx > maxbit" "\<not> w AND push_bit (nat bx) 1 = 0"
      unfolding and_shifted_one by auto
    have split: "bx \<le> k \<longleftrightarrow> k = bx \<or> bx + 1 \<le> k" for k by linarith
    have step: "bt_availinword w (push_bit (nat bx) 1) bx maxbit
        = bt_availinword w (push_bit (nat (bx + 1)) 1) (bx + 1) maxbit"
      using go shift by (simp add: bt_availinword.simps [of w _ bx])
    show ?thesis
      using "1.hyps" [OF go shift] "1.prems" 3(2) unfolding step split
      by (auto split: option.splits)
  qed
qed

lemma first_clear_hit:
  assumes "wx < length m" "b < 32" "\<And>i. i div 32 < wx \<Longrightarrow> i \<in> bits_of m"
    and "\<not> bit (m ! wx) b" "\<And>k. k < b \<Longrightarrow> bit (m ! wx) k" "32 * wx + b < nbits"
  shows "\<not> {..<nbits} \<subseteq> bits_of m" "(LEAST i. i < nbits \<and> i \<notin> bits_of m) = 32 * wx + b"
proof -
  have out: "32 * wx + b \<notin> bits_of m" using assms(2,4) by (simp add: bits_of_def)
  with assms(6) show "\<not> {..<nbits} \<subseteq> bits_of m" by blast
  show "(LEAST i. i < nbits \<and> i \<notin> bits_of m) = 32 * wx + b"
  proof (rule Least_equality)
    show "32 * wx + b < nbits \<and> 32 * wx + b \<notin> bits_of m" using out assms(6) by simp
    fix i assume "i < nbits \<and> i \<notin> bits_of m"
    then have i: "i div 32 \<ge> wx" "i div 32 = wx \<Longrightarrow> \<not> bit (m ! wx) (i mod 32)"
      using assms(1,3) by (auto simp: bits_of_def simp del: less_eq_div_iff_mult_less_eq intro: leI)
    show "32 * wx + b \<le> i"
    proof (cases "i div 32 = wx")
      case True
      with i(2) assms(5) have "b \<le> i mod 32" by (meson not_le)
      with True show ?thesis by (metis add_left_mono mult_div_mod_eq)
    next
      case False
      with i(1) have "wx < i div 32" by linarith
      with assms(2) show ?thesis by linarith
    qed
  qed
qed

lemma no_clear_bit:
  assumes "n div 32 < length m" "\<And>i. i div 32 < n div 32 \<Longrightarrow> i \<in> bits_of m"
    and "\<And>k. k \<le> n mod 32 \<Longrightarrow> bit (m ! (n div 32)) k"
  shows "{..<Suc n} \<subseteq> bits_of m"
proof
  fix i assume "i \<in> {..<Suc n}"
  then have i: "i \<le> n" "i div 32 \<le> n div 32" by (auto intro: div_le_mono)
  show "i \<in> bits_of m"
  proof (cases "i div 32 = n div 32")
    case True
    with i(1) have "i mod 32 \<le> n mod 32" by (metis add_le_cancel_left mult_div_mod_eq)
    with True assms(1,3) show ?thesis by (simp add: bits_of_def)
  next
    case False
    with i(2) show ?thesis by (intro assms(2)) linarith
  qed
qed

text \<open>What the two loops of \<^verbatim>\<open>bt_availbit\<close> compute together, before the conversion to \<^verbatim>\<open>short\<close>.\<close>

lemma bt_availword_full:
  assumes "bt_availword m 0 mw = Some r" "0 \<le> mw" "mw < int (length m)" "mw < 32767"
  shows "0 \<le> r \<and> r \<le> mw + 1 \<and> (\<forall>i. int (i div 32) < r \<longrightarrow> i \<in> bits_of m) \<and> (r \<le> mw \<longrightarrow> m ! nat r \<noteq> NOT 0)"
proof -
  from bt_availword_spec [of 0 mw m] assms
  have r: "0 \<le> r" "r \<le> mw + 1" "\<And>k. 0 \<le> k \<Longrightarrow> k < r \<Longrightarrow> m ! nat k = NOT 0" "r \<le> mw \<longrightarrow> m ! nat r \<noteq> NOT 0"
    by auto
  have "i \<in> bits_of m" if "int (i div 32) < r" for i
    using r(3) [of "int (i div 32)"] r(2) assms(3) that by (simp add: bits_of_def)
  with r show ?thesis by blast
qed

lemma all_bits_NOT_0: "(\<And>k. k < 32 \<Longrightarrow> bit (w :: u32) k) \<Longrightarrow> w = NOT 0"
  by (rule bit_word_eqI) (simp add: bit_not_iff)

lemma bt_availinword_None:
  assumes "bt_availinword w 1 0 mb = None" "mb < 32" "0 \<le> mb" "k \<le> nat mb"
  shows "bit w k"
  using bt_availinword_spec [of 0 mb w] assms by (auto dest: spec [of _ "int k"])

lemma bt_availinword_Some:
  assumes "bt_availinword w 1 0 mb = Some b" "mb < 32"
  shows "0 \<le> b" "b \<le> mb" "\<not> bit w (nat b)" "k < nat b \<Longrightarrow> bit w k"
  using bt_availinword_spec [of 0 mb w] assms by (auto dest: spec [of _ "int k"])

text \<open>
  \<^verbatim>\<open>bt_availbit\<close> on a map that holds \<^verbatim>\<open>nbits\<close> bits, of which there are at most 32768 (the
  range of the \<^verbatim>\<open>short\<close> it returns), stays inside the map and returns \<open>- 1\<close> exactly when all the
  bits are on, and otherwise the least index whose bit is off.
\<close>

theorem bt_availbit_correct:
  assumes "0 < nbits" "nbits \<le> 32768" "nbits \<le> 32 * length m"
  shows "bt_availbit m nbits =
    Some (if {..<nbits} \<subseteq> bits_of m then - 1 else int (LEAST i. i < nbits \<and> i \<notin> bits_of m))"
proof -
  let ?n = "nbits - 1" and ?mw = "int ((nbits - 1) div 32)"
  have n: "u32sub nbits 1 = ?n" using assms by (intro u32sub_id) auto
  have mw: "s16 (int (?n div 32)) = ?mw" using assms by (intro s16_id) auto
  have mwl: "?mw < int (length m)" "?mw < 32767" using assms by linarith+
  obtain r where r: "bt_availword m 0 ?mw = Some r"
    using bt_availword_spec [of 0 ?mw m] mwl by auto
  with bt_availword_full [OF r] mwl have rr: "0 \<le> r" "r \<le> ?mw + 1"
      "\<And>i. int (i div 32) < r \<Longrightarrow> i \<in> bits_of m" "r \<le> ?mw \<Longrightarrow> m ! nat r \<noteq> NOT 0" by auto
  define mb where "mb = (if r = ?mw then int (?n mod 32) else 31)"
  have mb: "mb < 32" "0 \<le> mb" by (auto simp: mb_def)
  consider (all) "r > ?mw" | (none) "r \<le> ?mw" "bt_availinword (m ! nat r) 1 0 mb = None"
    | (some) b where "r \<le> ?mw" "bt_availinword (m ! nat r) 1 0 mb = Some b" by fastforce
  then show ?thesis
  proof cases
    case all
    then have "{..<nbits} \<subseteq> bits_of m"
      using rr(3) assms(1) by (auto intro!: rr(3) simp: div_le_mono zless_nat_eq_int_zless)
    with all r show ?thesis unfolding bt_availbit_def n mw Let_def by simp
  next
    case none
    then have bits: "bit (m ! nat r) k" if "k \<le> nat mb" for k
      using bt_availinword_None mb that by blast
    with rr(4) [OF none(1)] all_bits_NOT_0 [of "m ! nat r"] have req: "r = ?mw"
      by (force simp: mb_def split: if_splits)
    with bits no_clear_bit [of ?n m] rr(3) mwl assms(1) have "{..<nbits} \<subseteq> bits_of m"
      by (simp add: mb_def)
    with none r rr(1) mwl show ?thesis
      unfolding bt_availbit_def n mw Let_def mb_def by (simp add: rd_in)
  next
    case some
    note b = bt_availinword_Some [OF some(2) mb(1)]
    have bound: "nat b \<le> (if nat r = ?n div 32 then ?n mod 32 else 31)" "nat r \<le> ?n div 32"
      using some(1) b(1,2) rr(1) by (auto simp: mb_def split: if_splits)
    have "32 * nat r + nat b \<le> 32 * (?n div 32) + ?n mod 32"
    proof (cases "nat r = ?n div 32")
      case True
      with bound have "nat b \<le> ?n mod 32" by simp
      with True show ?thesis by (metis add_left_mono)
    next
      case False
      with bound have "Suc (nat r) \<le> ?n div 32" "nat b \<le> 31" by simp_all
      then show ?thesis by linarith
    qed
    also have "\<dots> < nbits" using assms(1) by simp
    finally have lt: "32 * nat r + nat b < nbits" .
    have below: "i \<in> bits_of m" if "i div 32 < nat r" for i using that by (intro rr(3)) linarith
    have "nat r < length m" "nat b < 32" using some(1) mwl(1) b(1,2) mb(1) by linarith+
    note hit = first_clear_hit [OF this below b(3,4) lt, simplified]
    have "s16 (32 * r + b) = 32 * r + b" using lt b(1) rr(1) assms(2) by (intro s16_id) auto
    with some r rr(1) b(1) mwl hit show ?thesis
      unfolding bt_availbit_def n mw Let_def mb_def by (simp add: rd_in)
  qed
qed


theorem bt_availbit_correct_witness:
  "bt_availbit [NOT 0, 0x0000000b] 40 = Some 34 \<and>
   (LEAST i. i < 40 \<and> i \<notin> bits_of [NOT 0, 0x0000000b]) = 34"
proof -
  have "bt_availbit [NOT 0, 0x0000000b] 40 = Some 34"
    by (simp add: bt_availbit_def bt_availword.simps bt_availinword.simps rd_def u32sub_def s16_def)
  with bt_availbit_correct [of 40 "[NOT 0, 0x0000000b]"] show ?thesis
    by (simp split: if_splits)
qed

section \<open>Runs of bits\<close>

lemma bt_scan_spec:
  assumes "inx \<le> nbits" "nbits \<le> 32 * length m"
  shows "\<exists>r. bt_scan v m inx nbits = Some r \<and> inx \<le> r \<and> r \<le> nbits
    \<and> (\<forall>i. inx \<le> i \<and> i < r \<longrightarrow> (i \<in> bits_of m) \<noteq> v) \<and> (r < nbits \<longrightarrow> (r \<in> bits_of m) = v)"
  using assms
proof (induction v m inx nbits rule: bt_scan.induct)
  case (1 v m inx nbits)
  show ?case
  proof (cases "inx < nbits \<and> (inx \<in> bits_of m) \<noteq> v")
    case True
    then have t: "bt_test m inx = Some (inx \<in> bits_of m)"
      using "1.prems"(2) by (intro bt_test_spec) linarith
    have split: "inx \<le> i \<longleftrightarrow> i = inx \<or> Suc inx \<le> i" for i by linarith
    have "bt_scan v m inx nbits = bt_scan v m (Suc inx) nbits"
      using True t by (simp add: bt_scan.simps [of v m inx])
    moreover from "1.IH" [OF _ t] True "1.prems"
    obtain r where "bt_scan v m (Suc inx) nbits = Some r" "Suc inx \<le> r" "r \<le> nbits"
        "\<forall>i. Suc inx \<le> i \<and> i < r \<longrightarrow> (i \<in> bits_of m) \<noteq> v" "r < nbits \<longrightarrow> (r \<in> bits_of m) = v"
      by auto
    ultimately show ?thesis using True unfolding split by (intro exI [of _ r]) auto
  next
    case False
    then have "bt_scan v m inx nbits = Some inx"
      using "1.prems" by (auto simp: bt_scan.simps [of v m inx] bt_test_spec)
    with False "1.prems" show ?thesis by auto
  qed
qed

text \<open>
  \<^verbatim>\<open>bt_range\<close> started at or below \<^verbatim>\<open>nbits\<close> stays inside the map. It returns 0, and leaves
  both positions alone, exactly when no bit from \<^verbatim>\<open>*pos1\<close> on is on; otherwise it returns 1 and
  the positions bound the first maximal run of bits that are on.
\<close>

theorem bt_range_correct:
  assumes "p1 \<le> nbits" "nbits \<le> 32 * length m" "nbits < 4294967296"
  shows "\<exists>ret q1 q2. bt_range m p1 p2 nbits = Some (ret, q1, q2) \<and>
    (ret = 0 \<and> q1 = p1 \<and> q2 = p2 \<and> {p1..<nbits} \<inter> bits_of m = {}
     \<or> ret = 1 \<and> p1 \<le> q1 \<and> q1 \<le> q2 \<and> q2 < nbits \<and> {p1..<q1} \<inter> bits_of m = {}
       \<and> {q1..q2} \<subseteq> bits_of m \<and> (Suc q2 < nbits \<longrightarrow> Suc q2 \<notin> bits_of m))"
proof -
  obtain i where i: "bt_scan True m p1 nbits = Some i" "p1 \<le> i" "i \<le> nbits"
      "\<forall>k. p1 \<le> k \<and> k < i \<longrightarrow> k \<notin> bits_of m" "i < nbits \<longrightarrow> i \<in> bits_of m"
    using bt_scan_spec [OF assms(1,2), of True] by auto
  show ?thesis
  proof (cases "i = nbits")
    case True
    with i show ?thesis by (auto simp: bt_range_def)
  next
    case False
    with i(3,5) have lt: "i < nbits" "i \<in> bits_of m" by auto
    obtain j where j: "bt_scan False m i nbits = Some j" "i \<le> j" "j \<le> nbits"
        "\<forall>k. i \<le> k \<and> k < j \<longrightarrow> k \<in> bits_of m" "j < nbits \<longrightarrow> j \<notin> bits_of m"
      using bt_scan_spec [of i nbits m False] lt(1) assms(2) by auto
    have "i < j"
      using j(2,5) lt by (metis order_le_less)
    moreover have "u32sub j 1 = j - 1" using \<open>i < j\<close> j(3) assms(3) by (intro u32sub_id) auto
    ultimately show ?thesis using False i(1,2,4) j lt
      by (auto simp: bt_range_def Suc_le_eq less_Suc_eq_le dest: less_le_trans)
  qed
qed

theorem bt_range_correct_witness:
  "bt_range [0x0000000f, 0x000003f0] 4 0 64 = Some (1, 36, 41) \<and>
   {36..41} \<subseteq> bits_of [0x0000000f, 0x000003f0]"
proof -
  have "bt_range [0x0000000f, 0x000003f0] 4 0 64 = Some (1, 36, 41)"
    by (simp add: bt_range_def bt_scan.simps rd_def u32sub_def bt_test_def bt_biw_def)
  with bt_range_correct [of 4 64 "[0x0000000f, 0x000003f0]" 0] show ?thesis by auto
qed

text \<open>
  On any map and any start word inside it, \<^verbatim>\<open>bt_gethighbit\<close> reads inside the map and returns
  the index of the highest bit that is on in that word or a lower one, and \<open>- 1\<close> when there is
  none; so the unrolled binary search is right for every word value.
\<close>

theorem bt_gethighbit_correct:
  assumes "wx < length m"
  shows "bt_gethighbit m wx = Some (let S = {i \<in> bits_of m. i < 32 * Suc wx} in
    if S = {} then - 1 else int (Max S))"
proof -
  have "{i \<in> bits_of m. i < 32 * Suc wx} = bits_upto m wx"
    by (auto simp: bits_upto_def less_mult_imp_div_less mult.commute)
  with bt_gethighbit_high_of [OF assms] show ?thesis by (simp add: Let_def high_of_def)
qed

theorem bt_gethighbit_correct_witness:
  "bt_gethighbit [0x00000010, 0] (Suc 0) = Some 4 \<and>
   Max {i \<in> bits_of [0x00000010, 0]. i < 32 * Suc (Suc 0)} = 4"
proof -
  have "bt_gethighbit [0x00000010, 0] (Suc 0) = Some 4"
    by (simp add: rd_def bt_highinword_def)
  with bt_gethighbit_correct [of "Suc 0" "[0x00000010, 0]"] show ?thesis
    by (auto simp: Let_def split: if_splits)
qed

end
