(* ===== verification/KChain.thy ===== *)
theory KChain
  imports KPrelude
begin

text \<open>
  Singly linked lists in the kernel's memory. A structure is known by its address, a link field is
  a function from addresses to the address it holds, and \<^const>\<open>None\<close> is the null pointer.
  \<open>seg nxt p xs q\<close> says that following \<open>nxt\<close> from \<open>p\<close> visits the structures \<open>xs\<close> in this order and
  then arrives at \<open>q\<close>; \<open>chain\<close> is the segment that ends in the null pointer. The dispatcher queues
  (\<^verbatim>\<open>p_link\<close>) and the message queues (\<^verbatim>\<open>msg_next\<close>) are chains.
\<close>

primrec seg :: "('a \<Rightarrow> 'a option) \<Rightarrow> 'a option \<Rightarrow> 'a list \<Rightarrow> 'a option \<Rightarrow> bool" where
  "seg nxt p [] q \<longleftrightarrow> p = q"
| "seg nxt p (x # xs) q \<longleftrightarrow> p = Some x \<and> seg nxt (nxt x) xs q"

definition chain :: "('a \<Rightarrow> 'a option) \<Rightarrow> 'a option \<Rightarrow> 'a list \<Rightarrow> bool" where
  "chain nxt p xs \<longleftrightarrow> seg nxt p xs None"

named_theorems chain_simps \<open>facts about linked lists\<close>

lemma seg_append [chain_simps]: "seg nxt p (xs @ ys) r \<longleftrightarrow> (\<exists>q. seg nxt p xs q \<and> seg nxt q ys r)"
  by (induction xs arbitrary: p) auto

lemma seg_upd [chain_simps]: "a \<notin> set xs \<Longrightarrow> seg (nxt(a := v)) p xs q \<longleftrightarrow> seg nxt p xs q"
  by (induction xs arbitrary: p) auto

lemma chain_upd [chain_simps]: "a \<notin> set xs \<Longrightarrow> chain (nxt(a := v)) p xs \<longleftrightarrow> chain nxt p xs"
  by (simp add: chain_def seg_upd)

lemma chain_Nil [chain_simps]: "chain nxt p [] \<longleftrightarrow> p = None"
  by (simp add: chain_def)

lemma chain_Cons [chain_simps]: "chain nxt p (x # xs) \<longleftrightarrow> p = Some x \<and> chain nxt (nxt x) xs"
  by (simp add: chain_def)

lemma chain_append [chain_simps]: "chain nxt p (xs @ ys) \<longleftrightarrow> (\<exists>q. seg nxt p xs q \<and> chain nxt q ys)"
  by (simp add: chain_def seg_append)

lemma chain_None [chain_simps]: "chain nxt None xs \<longleftrightarrow> xs = []"
  by (cases xs) (auto simp: chain_simps)

lemma chain_cong: "(\<And>x. x \<in> set xs \<Longrightarrow> nxt x = nxt' x) \<Longrightarrow> chain nxt p xs \<longleftrightarrow> chain nxt' p xs"
proof (induction xs arbitrary: p)
  case Nil
  then show ?case by (simp add: chain_simps)
next
  case (Cons x xs)
  then show ?case by (auto simp: chain_simps)
qed

lemma chain_unique: "chain nxt p xs \<Longrightarrow> chain nxt p ys \<Longrightarrow> xs = ys"
proof (induction xs arbitrary: p ys)
  case Nil
  then show ?case by (simp add: chain_simps)
next
  case (Cons x xs)
  then show ?case by (cases ys) (auto simp: chain_simps)
qed

lemma chain_suffix: "chain nxt p (xs @ x # ys) \<Longrightarrow> chain nxt (Some x) (x # ys)"
  by (auto simp: chain_simps)

lemma chain_distinct:
  assumes "chain nxt p xs"
  shows "distinct xs"
proof (rule ccontr)
  assume "\<not> distinct xs"
  then obtain as x bs cs where xs: "xs = as @ [x] @ bs @ [x] @ cs" using not_distinct_decomp by blast
  with assms have "chain nxt (Some x) (x # bs @ [x] @ cs)" "chain nxt (Some x) (x # cs)"
    using chain_suffix [of nxt p as x "bs @ [x] @ cs"] chain_suffix [of nxt p "as @ [x] @ bs" x cs]
    by simp_all
  then have "x # bs @ [x] @ cs = x # cs" by (rule chain_unique)
  then have "length (x # bs @ [x] @ cs) = length (x # cs)" by (rule arg_cong)
  then show False by simp
qed

text \<open>The pointer to the last structure of a chain, as the queue headers keep it.\<close>

definition last_of :: "'a list \<Rightarrow> 'a option" where
  "last_of xs = (if xs = [] then None else Some (last xs))"

lemma last_of_simps [chain_simps]:
  "last_of [] = None" "last_of (xs @ [x]) = Some x" "last_of [x] = Some x"
  "ys \<noteq> [] \<Longrightarrow> last_of (xs @ ys) = last_of ys" "ys \<noteq> [] \<Longrightarrow> last_of (x # ys) = last_of ys"
  by (auto simp: last_of_def)

lemma last_of_None [chain_simps]: "last_of xs = None \<longleftrightarrow> xs = []"
  by (simp add: last_of_def)

lemma last_of_Some: "last_of xs = Some l \<Longrightarrow> \<exists>ys. xs = ys @ [l]"
  by (auto simp: last_of_def split: if_splits) (metis append_butlast_last_id)

section \<open>Splicing\<close>

lemma chain_push_back:
  assumes "chain nxt p xs" "x \<notin> set xs"
  shows "chain (nxt(x := None)) (Some x) [x]"
    and "xs = ys @ [l] \<Longrightarrow> chain (nxt(x := None, l := Some x)) p (xs @ [x])"
proof -
  show "chain (nxt(x := None)) (Some x) [x]" by (simp add: chain_simps)
  assume xs: "xs = ys @ [l]"
  with assms chain_distinct [OF assms(1)] show "chain (nxt(x := None, l := Some x)) p (xs @ [x])"
    by (auto simp: chain_simps)
qed

lemma chain_push_front:
  assumes "chain nxt p xs" "x \<notin> set xs"
  shows "chain (nxt(x := p)) (Some x) (x # xs)"
  using assms by (simp add: chain_simps)

lemma chain_unlink:
  assumes "chain nxt p (xs @ [a, x] @ ys)"
  shows "chain (nxt(a := nxt x)) p (xs @ [a] @ ys)"
  using assms chain_distinct [OF assms] by (auto simp: chain_simps)

lemma chain_pop: "chain nxt p (x # xs) \<Longrightarrow> p = Some x \<and> chain nxt (nxt x) xs"
  by (simp add: chain_simps)

lemma chain_next_None: "chain nxt p (xs @ x # ys) \<Longrightarrow> nxt x = None \<longleftrightarrow> ys = []"
  by (cases ys) (auto simp: chain_simps)

end
