(* ===== verification/KDisp.thy ===== *)
theory KDisp
  imports KBitmap KChain "HOL-Library.Multiset"
begin

text \<open>
  The process dispatcher, \<^verbatim>\<open>uts/i386/disp/disp.c\<close>: one queue of runnable processes per global
  priority, linked through \<^verbatim>\<open>p_link\<close>, a count per queue of the processes that may run (loaded and
  not held by \<^verbatim>\<open>/proc\<close>, or system processes), a bitmap of the queues whose count is not zero, and
  \<^verbatim>\<open>maxrunpri\<close>, the highest of them. The queues are modelled at the level of the pointers the
  source keeps, and shown to implement one list of processes per priority.

  A process is known by the address of its \<^verbatim>\<open>proc_t\<close>, a natural number. Interrupt priority levels
  (\<^verbatim>\<open>splhi\<close>) make each operation one atomic step; they are not represented.
\<close>

section \<open>Data\<close>

datatype pstat = SSLEEP | SRUN | SZOMB | SSTOP | SIDL | SONPROC | SXBRK

type_synonym procp = nat

record proc_t =
  p_stat :: pstat
  p_pri :: int
  p_flag :: u32
  p_link :: "procp option"

record dispq_t =
  dq_first :: "procp option"
  dq_last :: "procp option"
  dq_sruncnt :: int

record disp =
  procs :: "procp \<Rightarrow> proc_t"
  dispq :: "dispq_t list"
  dqactmap :: bitmap
  srunprocs :: int
  maxrunpri :: int
  curproc :: procp
  curpri :: int
  runrun :: int
  kprunrun :: int
  npwakecnt :: int
  old_curproc :: procp
  oldproc :: "procp option"
  pswitch :: int

abbreviation SSYS :: u32 where "SSYS \<equiv> 0x00000001"
abbreviation SLOAD :: u32 where "SLOAD \<equiv> 0x00000010"
abbreviation SLOCK :: u32 where "SLOCK \<equiv> 0x00000020"
abbreviation SPROCIO :: u32 where "SPROCIO \<equiv> 0x00000400"
abbreviation SUSWAP :: u32 where "SUSWAP \<equiv> 0x00040000"
abbreviation SSWLOCKS :: u32 where "SSWLOCKS \<equiv> 0x10000000"

section \<open>Operations\<close>

definition ird :: "'a list \<Rightarrow> int \<Rightarrow> 'a option" where
  "ird xs i = (if 0 \<le> i then rd xs (nat i) else None)"

definition setlink :: "disp \<Rightarrow> procp \<Rightarrow> procp option \<Rightarrow> disp" where
  "setlink d p v = d\<lparr>procs := (procs d)(p := (procs d p)\<lparr>p_link := v\<rparr>)\<rparr>"

definition setdq :: "disp \<Rightarrow> int \<Rightarrow> (dispq_t \<Rightarrow> dispq_t) \<Rightarrow> disp" where
  "setdq d i f = d\<lparr>dispq := (dispq d)[nat i := f (dispq d ! nat i)]\<rparr>"

text \<open>The test \<^verbatim>\<open>(p_flag & (SLOAD|SPROCIO)) == SLOAD || (p_flag & SSYS)\<close> of the source.\<close>

definition schedulable :: "proc_t \<Rightarrow> bool" where
  "schedulable p \<longleftrightarrow> p_flag p AND (SLOAD OR SPROCIO) = SLOAD \<or> p_flag p AND SSYS \<noteq> 0"

text \<open>
  Queue headers and bitmap for \<open>maxglobpri + 1\<close> priorities, zeroed, as \<^verbatim>\<open>dispinit\<close> allocates
  them; \<open>cls\<close> is the list of the highest global priorities the class initializers returned.
\<close>

definition dispinit :: "int list \<Rightarrow> disp \<Rightarrow> disp" where
  "dispinit cls d =
    (let maxglobpri = fold (\<lambda>cl m. if cl > m then cl else m) cls (- 1); nglobpris = maxglobpri + 1 in
     d\<lparr>dispq := replicate (nat nglobpris) \<lparr>dq_first = None, dq_last = None, dq_sruncnt = 0\<rparr>,
       dqactmap := replicate (nat (nglobpris div 32 + 1)) 0,
       srunprocs := 0, maxrunpri := - 1\<rparr>)"

definition dq_sruninc :: "disp \<Rightarrow> int \<Rightarrow> disp option" where
  "dq_sruninc d pri = do {
     dq \<leftarrow> ird (dispq d) pri;
     let d = setdq (d\<lparr>srunprocs := srunprocs d + 1\<rparr>) pri (dq_sruncnt_update (\<lambda>n. n + 1));
     if dq_sruncnt dq + 1 = 1 then do {
       m \<leftarrow> bt_set (dqactmap d) (nat pri);
       Some (d\<lparr>dqactmap := m, maxrunpri := (if pri > maxrunpri d then pri else maxrunpri d)\<rparr>) }
     else Some d }"

definition dq_srundec :: "disp \<Rightarrow> int \<Rightarrow> disp option" where
  "dq_srundec d pri = do {
     dq \<leftarrow> ird (dispq d) pri;
     let d = setdq (d\<lparr>srunprocs := srunprocs d - 1\<rparr>) pri (dq_sruncnt_update (\<lambda>n. n - 1));
     if dq_sruncnt dq - 1 = 0 then do {
       m \<leftarrow> bt_clear (dqactmap d) (nat pri);
       if srunprocs d = 0 then Some (d\<lparr>dqactmap := m, maxrunpri := - 1\<rparr>)
       else if pri = maxrunpri d then do {
         x \<leftarrow> bt_gethighbit m (nat (maxrunpri d) div 32);
         Some (d\<lparr>dqactmap := m, maxrunpri := x\<rparr>) }
       else Some (d\<lparr>dqactmap := m\<rparr>) }
     else Some d }"

text \<open>
  \<^verbatim>\<open>setbackdq\<close> and \<^verbatim>\<open>setfrontdq\<close> end in a copy of the body of \<^verbatim>\<open>dq_sruninc\<close>, and \<^verbatim>\<open>dispdeq\<close> in a
  copy of the body of \<^verbatim>\<open>dq_srundec\<close>; the model calls the two functions there.
\<close>

definition setbackdq :: "disp \<Rightarrow> procp \<Rightarrow> disp option" where
  "setbackdq d pp = do {
     let ppri = p_pri (procs d pp);
     dq \<leftarrow> ird (dispq d) ppri;
     let d = (case dq_last dq of
         None \<Rightarrow> setdq (setlink d pp None) ppri (\<lambda>q. q\<lparr>dq_first := Some pp, dq_last := Some pp\<rparr>)
       | Some l \<Rightarrow> setdq (setlink (setlink d pp None) l (Some pp)) ppri (\<lambda>q. q\<lparr>dq_last := Some pp\<rparr>));
     if schedulable (procs d pp) then dq_sruninc d ppri else Some d }"

definition setfrontdq :: "disp \<Rightarrow> procp \<Rightarrow> disp option" where
  "setfrontdq d pp = do {
     let ppri = p_pri (procs d pp);
     dq \<leftarrow> ird (dispq d) ppri;
     let d = (case dq_first dq of
         None \<Rightarrow> setdq (setlink d pp None) ppri (\<lambda>q. q\<lparr>dq_first := Some pp, dq_last := Some pp\<rparr>)
       | Some f \<Rightarrow> setdq (setlink d pp (Some f)) ppri (\<lambda>q. q\<lparr>dq_first := Some pp\<rparr>));
     if schedulable (procs d pp) then dq_sruninc d ppri else Some d }"

text \<open>
  The search loop of \<^verbatim>\<open>dispdeq\<close>, from the process \<open>rp\<close> with predecessor \<open>prp\<close>. On a list with a
  cycle that misses \<open>pp\<close> it does not return.
\<close>

partial_function (option) dq_find ::
  "(procp \<Rightarrow> procp option) \<Rightarrow> procp \<Rightarrow> procp option \<Rightarrow> procp option \<Rightarrow> (procp option \<times> procp option) option"
  where
  "dq_find nxt pp prp rp =
     (case rp of None \<Rightarrow> Some (prp, None)
      | Some r \<Rightarrow> if r = pp then Some (prp, rp) else dq_find nxt pp rp (nxt r))"

text \<open>Taking the process \<open>p\<close> with predecessor \<open>prp\<close> off queue \<open>ppri\<close>.\<close>

definition dq_unlink :: "disp \<Rightarrow> int \<Rightarrow> procp option \<Rightarrow> procp \<Rightarrow> disp" where
  "dq_unlink d ppri prp p =
    (let nx = p_link (procs d p) in
     case prp of
       None \<Rightarrow> setdq d ppri (\<lambda>q. q\<lparr>dq_first := nx, dq_last := (if nx = None then None else dq_last q)\<rparr>)
     | Some r \<Rightarrow> setdq (setlink d r nx) ppri (\<lambda>q. q\<lparr>dq_last := (if nx = None then Some r else dq_last q)\<rparr>))"

definition dispdeq :: "disp \<Rightarrow> procp \<Rightarrow> (bool \<times> disp) option" where
  "dispdeq d pp = do {
     let ppri = p_pri (procs d pp);
     dq \<leftarrow> ird (dispq d) ppri;
     (prp, rp) \<leftarrow> dq_find (\<lambda>p. p_link (procs d p)) pp None (dq_first dq);
     case rp of None \<Rightarrow> Some (False, d)
     | Some r \<Rightarrow> do {
         let d = dq_unlink d ppri prp r;
         d \<leftarrow> if schedulable (procs d r) then dq_srundec d ppri else Some d;
         Some (True, d) } }"

text \<open>
  The loop of \<^verbatim>\<open>pswtch\<close> that skips the processes that may not run; \<open>rp\<close> is the last one skipped.
  The end of the queue is a null pointer dereference.
\<close>

partial_function (option) dq_firstrun ::
  "(procp \<Rightarrow> proc_t) \<Rightarrow> procp option \<Rightarrow> procp option \<Rightarrow> (procp option \<times> procp) option" where
  "dq_firstrun ps rp pp =
     (case pp of None \<Rightarrow> None
      | Some p \<Rightarrow> if schedulable (ps p) then Some (rp, p)
                 else dq_firstrun ps (Some p) (p_link (ps p)))"

text \<open>
  The wait of \<^verbatim>\<open>pswtch\<close> for a runnable process. What interrupt handlers and \<^verbatim>\<open>runqueues\<close> do to the
  dispatcher while it waits is not in this file: each is a function of the state, and \<open>env\<close> is the
  sequence of them, tagged with the branch the loop takes (true: \<^verbatim>\<open>qrunflag\<close> was set and
  \<^verbatim>\<open>runqueues\<close> ran; false: \<^verbatim>\<open>idle\<close> ran). When they end with no process made runnable the
  processor idles for ever.
\<close>

fun pswtch_wait :: "(bool \<times> (disp \<Rightarrow> disp)) list \<Rightarrow> procp \<Rightarrow> disp \<Rightarrow> disp option" where
  "pswtch_wait env sched d =
     (if maxrunpri d = - 1 then
        (case env of [] \<Rightarrow> None
         | (q, f) # env' \<Rightarrow>
             if q then pswtch_wait env' sched (f d)
             else pswtch_wait env' sched (f (d\<lparr>curpri := 0, curproc := sched\<rparr>)))
      else Some d)"

declare pswtch_wait.simps [simp del]

text \<open>The counters of \<^verbatim>\<open>pswtch\<close>, for the queue \<open>pri\<close> that is \<^verbatim>\<open>maxrunpri\<close>.\<close>

definition pswtch_dec :: "disp \<Rightarrow> int \<Rightarrow> disp option" where
  "pswtch_dec d pri = do {
     dq \<leftarrow> ird (dispq d) pri;
     let d = setdq (d\<lparr>srunprocs := srunprocs d - 1\<rparr>) pri (dq_sruncnt_update (\<lambda>n. n - 1));
     if dq_sruncnt dq - 1 = 0 then do {
       m \<leftarrow> bt_clear (dqactmap d) (nat pri);
       x \<leftarrow> if srunprocs d = 0 then Some (- 1) else bt_gethighbit m (nat pri div 32);
       Some (d\<lparr>dqactmap := m, maxrunpri := x\<rparr>) }
     else Some d }"

text \<open>The part of \<^verbatim>\<open>pswtch\<close> after the wait: pick the process, take it off its queue and run it.\<close>

definition pswtch_pick :: "disp \<Rightarrow> disp option" where
  "pswtch_pick d = do {
     let d = d\<lparr>runrun := 0, kprunrun := 0, npwakecnt := 0\<rparr>;
     let pri = maxrunpri d;
     dq \<leftarrow> ird (dispq d) pri;
     (rp, p) \<leftarrow> dq_firstrun (procs d) None (dq_first dq);
     let d = dq_unlink d pri (if dq_first dq = Some p then None else rp) p;
     d \<leftarrow> pswtch_dec d pri;
     Some (d\<lparr>procs := (procs d)(p := (procs d p)\<lparr>p_stat := SONPROC\<rparr>),
             curpri := p_pri (procs d p), curproc := p\<rparr>) }"

text \<open>The part before the wait: the process that gives up the processor.\<close>

definition pswtch_start :: "disp \<Rightarrow> disp" where
  "pswtch_start d =
    (let pp = curproc d;
         d = d\<lparr>pswitch := pswitch d + 1, old_curproc := pp\<rparr> in
     case p_stat (procs d pp) of
         SZOMB \<Rightarrow> d\<lparr>oldproc := Some pp\<rparr>
       | SONPROC \<Rightarrow> d\<lparr>procs := (procs d)(pp := (procs d pp)\<lparr>p_stat := SRUN\<rparr>)\<rparr>
       | _ \<Rightarrow> d)"

definition pswtch :: "(bool \<times> (disp \<Rightarrow> disp)) list \<Rightarrow> procp \<Rightarrow> disp \<Rightarrow> disp option" where
  "pswtch env sched d = do {
     let d = pswtch_start d;
     d \<leftarrow> pswtch_wait env sched d;
     pswtch_pick d }"

text \<open>Class lookup by name.\<close>

fun getcid_from :: "nat \<Rightarrow> string list \<Rightarrow> string \<Rightarrow> errno + nat" where
  "getcid_from i [] clname = Inl EINVAL"
| "getcid_from i (cl # cls) clname = (if cl = clname then Inr i else getcid_from (Suc i) cls clname)"

definition getcid :: "string list \<Rightarrow> string \<Rightarrow> errno + nat" where
  "getcid class clname = getcid_from 0 class clname"

section \<open>The abstract dispatcher and the invariant\<close>

text \<open>
  The abstract state is a list of processes per priority. \<open>queues\<close> relates it to the linked lists;
  \<open>counts\<close> says that the counters, the bitmap and \<^verbatim>\<open>maxrunpri\<close> describe \<open>c i\<close> schedulable processes
  at each priority \<open>i\<close>; \<open>disp_ok\<close> joins them.
\<close>

abbreviation npri :: "disp \<Rightarrow> nat" where
  "npri d \<equiv> length (dispq d)"

abbreviation lnk :: "disp \<Rightarrow> procp \<Rightarrow> procp option" where
  "lnk d p \<equiv> p_link (procs d p)"

definition queues :: "disp \<Rightarrow> (nat \<Rightarrow> procp list) \<Rightarrow> bool" where
  "queues d Q \<longleftrightarrow>
     (\<forall>i<npri d. chain (lnk d) (dq_first (dispq d ! i)) (Q i) \<and> dq_last (dispq d ! i) = last_of (Q i))
     \<and> (\<forall>i. \<forall>p\<in>set (Q i). p_pri (procs d p) = int i \<and> i < npri d)"

definition counts :: "disp \<Rightarrow> (nat \<Rightarrow> nat) \<Rightarrow> bool" where
  "counts d c \<longleftrightarrow> npri d \<le> 32 * length (dqactmap d)
     \<and> (\<forall>i<npri d. dq_sruncnt (dispq d ! i) = int (c i))
     \<and> bits_of (dqactmap d) = {i. i < npri d \<and> 0 < c i}
     \<and> srunprocs d = int (\<Sum>i<npri d. c i)
     \<and> maxrunpri d = high_of (bits_of (dqactmap d))"

definition runnable :: "disp \<Rightarrow> (nat \<Rightarrow> procp list) \<Rightarrow> nat \<Rightarrow> nat" where
  "runnable d Q i = length (filter (\<lambda>p. schedulable (procs d p)) (Q i))"

definition disp_ok :: "disp \<Rightarrow> (nat \<Rightarrow> procp list) \<Rightarrow> bool" where
  "disp_ok d Q \<longleftrightarrow> queues d Q \<and> counts d (runnable d Q)"

definition onq :: "(nat \<Rightarrow> procp list) \<Rightarrow> procp \<Rightarrow> bool" where
  "onq Q p \<longleftrightarrow> (\<exists>i. p \<in> set (Q i))"

named_theorems disp_simps \<open>field projections of the dispatcher's updates\<close>

lemma setlink_simps [disp_simps]:
  "procs (setlink d p v) = (procs d)(p := (procs d p)\<lparr>p_link := v\<rparr>)"
  "dispq (setlink d p v) = dispq d" "dqactmap (setlink d p v) = dqactmap d"
  "srunprocs (setlink d p v) = srunprocs d" "maxrunpri (setlink d p v) = maxrunpri d"
  by (simp_all add: setlink_def)

lemma setdq_simps [disp_simps]:
  "procs (setdq d i f) = procs d" "dispq (setdq d i f) = (dispq d)[nat i := f (dispq d ! nat i)]"
  "dqactmap (setdq d i f) = dqactmap d" "srunprocs (setdq d i f) = srunprocs d"
  "maxrunpri (setdq d i f) = maxrunpri d"
  by (simp_all add: setdq_def)

lemma ird_nth [disp_simps]: "i < length xs \<Longrightarrow> ird xs (int i) = Some (xs ! i)"
  by (simp add: ird_def rd_in)

lemma ird_Some_iff: "ird xs i = Some v \<longleftrightarrow> (\<exists>k. i = int k \<and> k < length xs \<and> v = xs ! k)"
proof (cases i)
  case (nonneg n)
  then show ?thesis by (auto simp: ird_def rd_def)
next
  case (neg n)
  then show ?thesis by (auto simp: ird_def)
qed

lemma queues_distinct:
  assumes "queues d Q"
  shows "distinct (Q i)"
proof (cases "i < npri d")
  case True
  with assms show ?thesis using chain_distinct by (fastforce simp: queues_def)
next
  case False
  with assms have "p \<notin> set (Q i)" for p unfolding queues_def by blast
  then show ?thesis by (cases "Q i") auto
qed

lemma queues_onq: "queues d Q \<Longrightarrow> p \<in> set (Q i) \<Longrightarrow> p_pri (procs d p) = int i \<and> i < npri d"
  by (auto simp: queues_def)

lemma queues_onq_iff: "queues d Q \<Longrightarrow> p_pri (procs d p) = int i \<Longrightarrow> onq Q p \<longleftrightarrow> p \<in> set (Q i)"
  by (auto simp: onq_def dest: queues_onq)

section \<open>The counters\<close>

lemma countsD:
  assumes "counts d c"
  shows "npri d \<le> 32 * length (dqactmap d)" "i < npri d \<Longrightarrow> dq_sruncnt (dispq d ! i) = int (c i)"
    "bits_of (dqactmap d) = {i. i < npri d \<and> 0 < c i}" "srunprocs d = int (\<Sum>i<npri d. c i)"
    "maxrunpri d = high_of (bits_of (dqactmap d))"
  using assms by (simp_all add: counts_def)

lemma counts_cong:
  "counts d c \<Longrightarrow> (\<And>i. i < npri d \<Longrightarrow> c i = c' i) \<Longrightarrow> counts d c'"
  by (simp add: counts_def cong: conj_cong)

lemma sum_upd:
  fixes c :: "nat \<Rightarrow> nat"
  assumes "i < n"
  shows "(\<Sum>j<n. (c(i := v)) j) + c i = (\<Sum>j<n. c j) + v"
proof -
  have "(\<Sum>j<n. (c(i := v)) j) = v + (\<Sum>j\<in>{..<n} - {i}. (c(i := v)) j)"
    using assms by (subst sum.remove [of _ i]) auto
  also have "(\<Sum>j\<in>{..<n} - {i}. (c(i := v)) j) = (\<Sum>j\<in>{..<n} - {i}. c j)" by (rule sum.cong) auto
  finally show ?thesis using assms by (simp add: sum.remove [of "{..<n}" i c])
qed

text \<open>What the counter operations leave alone.\<close>

definition same_links :: "disp \<Rightarrow> disp \<Rightarrow> bool" where
  "same_links d d' \<longleftrightarrow> procs d' = procs d \<and> npri d' = npri d
     \<and> (\<forall>i<npri d. dq_first (dispq d' ! i) = dq_first (dispq d ! i)
          \<and> dq_last (dispq d' ! i) = dq_last (dispq d ! i))
     \<and> curproc d' = curproc d \<and> curpri d' = curpri d \<and> runrun d' = runrun d
     \<and> kprunrun d' = kprunrun d \<and> npwakecnt d' = npwakecnt d"

lemma same_links_trans: "same_links d d' \<Longrightarrow> same_links d' d'' \<Longrightarrow> same_links d d''"
  by (simp add: same_links_def)

lemma queues_same_links: "same_links d d' \<Longrightarrow> queues d' Q \<longleftrightarrow> queues d Q"
  by (simp add: same_links_def queues_def)

lemma nth_dq_update: "i < npri d \<Longrightarrow> ((dispq d)[j := v]) ! i = (if i = j then v else dispq d ! i)"
  by simp

lemma dq_sruninc_spec:
  assumes "counts d c" "i < npri d"
  shows "\<exists>d'. dq_sruninc d (int i) = Some d' \<and> counts d' (c(i := c i + 1)) \<and> same_links d d'"
proof -
  note c = countsD [OF assms(1)]
  have cap: "i div 32 < length (dqactmap d)" using c(1) assms(2) by linarith
  have sum: "int (\<Sum>j<npri d. (c(i := c i + 1)) j) = srunprocs d + 1"
    using sum_upd [OF assms(2), of c "c i + 1"] c(4) by linarith
  let ?d = "setdq (d\<lparr>srunprocs := srunprocs d + 1\<rparr>) (int i) (dq_sruncnt_update (\<lambda>n. n + 1))"
  have links: "same_links d ?d"
    using assms(2) by (auto simp: same_links_def setdq_def nth_list_update)
  have cnt: "\<forall>j<npri ?d. dq_sruncnt (dispq ?d ! j) = int ((c(i := c i + 1)) j)"
    using assms(2) c(2) by (auto simp: setdq_def nth_list_update)
  show ?thesis
  proof (cases "c i = 0")
    case True
    from bt_set_Some [OF cap] obtain m where m: "bt_set (dqactmap d) i = Some m" by blast
    have bits: "bits_of m = insert i (bits_of (dqactmap d))" "length m = length (dqactmap d)"
      using bits_of_set [OF m] bt_length(1) [OF m] by simp_all
    let ?x = "if int i > maxrunpri d then int i else maxrunpri d"
    have "bm.tracks m ?x"
      using bm.tracks_set [of "dqactmap d" "maxrunpri d" i m] m c(1,5) assms(2)
      by (simp add: bm.tracks_def)
    then have tr: "?x = high_of (bits_of m)" by (simp add: bm.tracks_def)
    have run: "dq_sruninc d (int i) = Some (?d\<lparr>dqactmap := m, maxrunpri := ?x\<rparr>)"
      using True assms(2) c(2) m by (simp add: dq_sruninc_def Let_def disp_simps)
    have "bits_of m = {j. j < npri d \<and> 0 < (c(i := c i + 1)) j}"
      using bits(1) c(3) assms(2) by auto
    then have "counts (?d\<lparr>dqactmap := m, maxrunpri := ?x\<rparr>) (c(i := c i + 1))"
      using cnt c(1) bits(2) tr sum unfolding counts_def by (simp add: setdq_def)
    moreover have "same_links d (?d\<lparr>dqactmap := m, maxrunpri := ?x\<rparr>)"
      using links by (simp add: same_links_def)
    ultimately show ?thesis using run by blast
  next
    case False
    have run: "dq_sruninc d (int i) = Some ?d"
      using False assms(2) c(2) by (simp add: dq_sruninc_def Let_def disp_simps)
    have "{j. j < npri d \<and> 0 < (c(i := c i + 1)) j} = {j. j < npri d \<and> 0 < c j}"
      using False by auto
    then have "counts ?d (c(i := c i + 1))"
      using cnt c sum unfolding counts_def by (simp add: setdq_def)
    with run links show ?thesis by blast
  qed
qed

lemma srundec_bitmap:
  assumes "counts d c" "i < npri d" "c i = 1"
  shows "\<exists>m x. bt_clear (dqactmap d) i = Some m \<and> x = high_of (bits_of m)
     \<and> bits_of m = {j. j < npri d \<and> 0 < (c(i := c i - 1)) j} \<and> length m = length (dqactmap d)
     \<and> (srunprocs d - 1 = 0 \<longrightarrow> x = - 1)
     \<and> (int i = maxrunpri d \<longrightarrow> bt_gethighbit m (i div 32) = Some x)
     \<and> (srunprocs d - 1 \<noteq> 0 \<and> int i \<noteq> maxrunpri d \<longrightarrow> x = maxrunpri d)"
proof -
  note c = countsD [OF assms(1)]
  have cap: "i < 32 * length (dqactmap d)" "i div 32 < length (dqactmap d)"
    using c(1) assms(2) by linarith+
  from bt_clear_Some [OF cap(2)] obtain m where m: "bt_clear (dqactmap d) i = Some m" by blast
  have bits: "bits_of m = bits_of (dqactmap d) - {i}" "length m = length (dqactmap d)"
    using bits_of_clear [OF m] bt_length(2) [OF m] by simp_all
  have tr: "bm.tracks (dqactmap d) (maxrunpri d)" using c(5) by (simp add: bm.tracks_def)
  have eq: "bits_of m = {j. j < npri d \<and> 0 < (c(i := c i - 1)) j}"
    using bits(1) c(3) assms(2,3) by auto
  have "high_of (bits_of m) = - 1" if "srunprocs d - 1 = 0"
  proof -
    have "(\<Sum>j<npri d. (c(i := c i - 1)) j) = 0"
      using sum_upd [OF assms(2), of c "c i - 1"] assms(3) c(4) that by linarith
    then have "bits_of m = {}" unfolding eq by simp
    then show ?thesis by (simp add: high_of_def)
  qed
  moreover have "bt_gethighbit m (i div 32) = Some (high_of (bits_of m))" if "int i = maxrunpri d"
    using bm.tracks_clear_high [OF tr m cap(1) that] by (simp add: bt_high_from_def)
  moreover have "high_of (bits_of m) = maxrunpri d" if "int i \<noteq> maxrunpri d"
  proof -
    have "bits_of (dqactmap d) \<noteq> {}" using c(3) assms(2,3) by auto
    with bm.tracks_clear_other [OF tr m cap(1) that] show ?thesis by (simp add: bm.tracks_def)
  qed
  ultimately show ?thesis using m eq bits(2) by blast
qed

lemma dq_srundec_spec:
  assumes "counts d c" "i < npri d" "0 < c i"
  shows "\<exists>d'. dq_srundec d (int i) = Some d' \<and> counts d' (c(i := c i - 1)) \<and> same_links d d'"
proof -
  note c = countsD [OF assms(1)]
  have sum: "int (\<Sum>j<npri d. (c(i := c i - 1)) j) = srunprocs d - 1"
    using sum_upd [OF assms(2), of c "c i - 1"] c(4) assms(3) by linarith
  let ?d = "setdq (d\<lparr>srunprocs := srunprocs d - 1\<rparr>) (int i) (dq_sruncnt_update (\<lambda>n. n - 1))"
  have links: "same_links d ?d"
    using assms(2) by (auto simp: same_links_def setdq_def nth_list_update)
  have cnt: "\<forall>j<npri ?d. dq_sruncnt (dispq ?d ! j) = int ((c(i := c i - 1)) j)"
    using assms(2,3) c(2) by (auto simp: setdq_def nth_list_update)
  show ?thesis
  proof (cases "c i = 1")
    case True
    from srundec_bitmap [OF assms(1,2) True] obtain m x
      where m: "bt_clear (dqactmap d) i = Some m" "x = high_of (bits_of m)"
        "bits_of m = {j. j < npri d \<and> 0 < (c(i := c i - 1)) j}" "length m = length (dqactmap d)"
        "srunprocs d - 1 = 0 \<longrightarrow> x = - 1" "int i = maxrunpri d \<longrightarrow> bt_gethighbit m (i div 32) = Some x"
        "srunprocs d - 1 \<noteq> 0 \<and> int i \<noteq> maxrunpri d \<longrightarrow> x = maxrunpri d"
      by blast
    have "bt_gethighbit m (nat (maxrunpri d) div 32) = Some x" if "int i = maxrunpri d"
      using m(6) that by (metis nat_int)
    then have "dq_srundec d (int i) = Some (?d\<lparr>dqactmap := m, maxrunpri := x\<rparr>)"
      using True assms(2) c(2) m(1,5,7) by (auto simp: dq_srundec_def Let_def disp_simps)
    moreover have "counts (?d\<lparr>dqactmap := m, maxrunpri := x\<rparr>) (c(i := c i - 1))"
      using cnt c(1) m sum unfolding counts_def by (simp add: setdq_def)
    moreover have "same_links d (?d\<lparr>dqactmap := m, maxrunpri := x\<rparr>)"
      using links by (simp add: same_links_def)
    ultimately show ?thesis by blast
  next
    case False
    have run: "dq_srundec d (int i) = Some ?d"
      using False assms(2) c(2) by (simp add: dq_srundec_def Let_def disp_simps)
    have "{j. j < npri d \<and> 0 < (c(i := c i - 1)) j} = {j. j < npri d \<and> 0 < c j}"
      using False assms(3) by auto
    then have "counts ?d (c(i := c i - 1))"
      using cnt c sum unfolding counts_def by (simp add: setdq_def)
    with run links show ?thesis by blast
  qed
qed

section \<open>The queues\<close>

text \<open>The operations on the queues change only the links, the queue headers and the counters.\<close>

definition same_frame :: "disp \<Rightarrow> disp \<Rightarrow> bool" where
  "same_frame d d' \<longleftrightarrow> npri d' = npri d
     \<and> (\<forall>p. (procs d' p)\<lparr>p_link := None\<rparr> = (procs d p)\<lparr>p_link := None\<rparr>)
     \<and> curproc d' = curproc d \<and> curpri d' = curpri d \<and> runrun d' = runrun d
     \<and> kprunrun d' = kprunrun d \<and> npwakecnt d' = npwakecnt d"

lemma same_frame_refl [simp]: "same_frame d d"
  by (simp add: same_frame_def)

lemma same_frame_trans: "same_frame d d' \<Longrightarrow> same_frame d' d'' \<Longrightarrow> same_frame d d''"
  by (simp add: same_frame_def)

lemma same_links_frame: "same_links d d' \<Longrightarrow> same_frame d d'"
  by (simp add: same_links_def same_frame_def)

lemma same_frame_setlink: "same_frame d (setlink d p v)"
  by (auto simp: same_frame_def setlink_def)

lemma same_frame_setdq: "same_frame d (setdq d i f)"
  by (auto simp: same_frame_def setdq_def)

lemma proc_eqI:
  "(a::proc_t)\<lparr>p_link := None\<rparr> = b\<lparr>p_link := None\<rparr> \<Longrightarrow> p_stat a = p_stat b \<and> p_pri a = p_pri b \<and> p_flag a = p_flag b"
  by (cases a, cases b) simp

lemma same_frameD:
  assumes "same_frame d d'"
  shows "p_stat (procs d' p) = p_stat (procs d p)" "p_pri (procs d' p) = p_pri (procs d p)"
    "p_flag (procs d' p) = p_flag (procs d p)" "npri d' = npri d" "curproc d' = curproc d"
    "curpri d' = curpri d" "runrun d' = runrun d" "kprunrun d' = kprunrun d"
    "npwakecnt d' = npwakecnt d"
  using assms proc_eqI [of "procs d' p" "procs d p"] by (simp_all add: same_frame_def)

lemma schedulable_link [simp]: "schedulable (p\<lparr>p_link := v\<rparr>) = schedulable p"
  by (simp add: schedulable_def)

lemma schedulable_stat [simp]: "schedulable (p\<lparr>p_stat := v\<rparr>) = schedulable p"
  by (simp add: schedulable_def)

lemma same_frame_schedulable: "same_frame d d' \<Longrightarrow> schedulable (procs d' p) = schedulable (procs d p)"
  by (simp add: schedulable_def same_frameD)

lemma runnable_frame: "same_frame d d' \<Longrightarrow> runnable d' Q = runnable d Q"
  by (simp add: runnable_def fun_eq_iff same_frame_schedulable)

lemma counts_same: "counts d c \<Longrightarrow> dqactmap d' = dqactmap d \<Longrightarrow> srunprocs d' = srunprocs d \<Longrightarrow>
    maxrunpri d' = maxrunpri d \<Longrightarrow> npri d' = npri d \<Longrightarrow>
    (\<And>i. i < npri d \<Longrightarrow> dq_sruncnt (dispq d' ! i) = dq_sruncnt (dispq d ! i)) \<Longrightarrow> counts d' c"
  by (simp add: counts_def)

lemma lnk_setlink: "lnk (setlink d p v) = (lnk d)(p := v)"
  by (auto simp: setlink_def)

text \<open>A change of the links and headers of one queue, with the others left alone.\<close>

lemma queues_change:
  assumes "queues d Q" "same_frame d d'" "i < npri d"
    and "chain (lnk d') (dq_first (dispq d' ! i)) xs" "dq_last (dispq d' ! i) = last_of xs"
    and "\<And>p. p \<in> set xs \<Longrightarrow> p_pri (procs d p) = int i"
    and "\<And>p. p_pri (procs d p) \<noteq> int i \<Longrightarrow> lnk d' p = lnk d p"
    and "\<And>j. j < npri d \<Longrightarrow> j \<noteq> i \<Longrightarrow> dispq d' ! j = dispq d ! j"
  shows "queues d' (Q(i := xs))"
proof -
  have "chain (lnk d') (dq_first (dispq d ! j)) (Q j)" if "j < npri d" "j \<noteq> i" for j
  proof -
    have "chain (lnk d) (dq_first (dispq d ! j)) (Q j)" using assms(1) that(1) by (simp add: queues_def)
    moreover have "lnk d p = lnk d' p" if "p \<in> set (Q j)" for p
      using assms(7) [of p] queues_onq [OF assms(1) that] \<open>j \<noteq> i\<close> by simp
    ultimately show ?thesis using chain_cong [of "Q j" "lnk d" "lnk d'"] by blast
  qed
  then show ?thesis
    using assms same_frameD [OF assms(2)] unfolding queues_def by auto
qed

lemma runnable_insert:
  assumes "mset xs = add_mset p (mset (Q i))"
  shows "runnable d (Q(i := xs)) =
    (if schedulable (procs d p) then (runnable d Q)(i := runnable d Q i + 1) else runnable d Q)"
proof
  fix j
  have "length (filter P xs) = length (filter P (p # Q i))" for P
    using assms by (metis mset.simps(2) mset_filter size_mset)
  then show "runnable d (Q(i := xs)) j =
      (if schedulable (procs d p) then (runnable d Q)(i := runnable d Q i + 1) else runnable d Q) j"
    by (simp add: runnable_def)
qed

text \<open>The common end of the two insertions.\<close>

lemma enqueue_counts:
  assumes "queues d' (Q(i := xs))" "counts d' (runnable d' Q)" "i < npri d'"
    and "mset xs = add_mset p (mset (Q i))"
  shows "\<exists>d''. (if schedulable (procs d' p) then dq_sruninc d' (int i) else Some d') = Some d''
     \<and> disp_ok d'' (Q(i := xs)) \<and> same_frame d' d''"
proof -
  note ins = runnable_insert [of xs p Q i, OF assms(4)]
  show ?thesis
  proof (cases "schedulable (procs d' p)")
    case True
    from dq_sruninc_spec [OF assms(2,3)] obtain d''
      where d'': "dq_sruninc d' (int i) = Some d''"
        "counts d'' ((runnable d' Q)(i := runnable d' Q i + 1))" "same_links d' d''" by blast
    with assms(1) True show ?thesis
      by (auto simp: disp_ok_def queues_same_links ins same_frame_schedulable [OF same_links_frame]
          runnable_frame [OF same_links_frame] intro: same_links_frame)
  next
    case False
    with assms show ?thesis by (simp add: disp_ok_def ins)
  qed
qed

lemma disp_okD:
  assumes "disp_ok d Q"
  shows "queues d Q" "counts d (runnable d Q)"
    and "i < npri d \<Longrightarrow> chain (lnk d) (dq_first (dispq d ! i)) (Q i)"
    and "i < npri d \<Longrightarrow> dq_last (dispq d ! i) = last_of (Q i)"
  using assms by (simp_all add: disp_ok_def queues_def)

lemma setbackdq_spec:
  assumes "disp_ok d Q" "p_pri (procs d p) = int i" "i < npri d" "\<not> onq Q p"
  shows "\<exists>d'. setbackdq d p = Some d' \<and> disp_ok d' (Q(i := Q i @ [p])) \<and> same_frame d d'"
proof -
  note ok = disp_okD [OF assms(1)]
  have new: "p \<notin> set (Q i)" using assms(4) by (auto simp: onq_def)
  define d1 where "d1 = (case dq_last (dispq d ! i) of
      None \<Rightarrow> setdq (setlink d p None) (int i) (\<lambda>q. q\<lparr>dq_first := Some p, dq_last := Some p\<rparr>)
    | Some l \<Rightarrow> setdq (setlink (setlink d p None) l (Some p)) (int i) (\<lambda>q. q\<lparr>dq_last := Some p\<rparr>))"
  have frame: "same_frame d d1"
    unfolding d1_def by (auto simp: same_frame_def setlink_def setdq_def split: option.split)
  have q1: "queues d1 (Q(i := Q i @ [p]))"
  proof (cases "Q i = []")
    case True
    then have d1: "d1 = setdq (setlink d p None) (int i) (\<lambda>q. q\<lparr>dq_first := Some p, dq_last := Some p\<rparr>)"
      using ok(4) [OF assms(3)] by (simp add: d1_def chain_simps)
    show ?thesis
      using assms(2,3) True
      by (intro queues_change [OF ok(1) frame assms(3)]) (auto simp: d1 disp_simps chain_simps)
  next
    case False
    then obtain ys l where ys: "Q i = ys @ [l]" by (metis append_butlast_last_id)
    then have d1: "d1 = setdq (setlink (setlink d p None) l (Some p)) (int i) (\<lambda>q. q\<lparr>dq_last := Some p\<rparr>)"
      using ok(4) [OF assms(3)] by (simp add: d1_def chain_simps)
    have lnk: "lnk d1 = (lnk d)(p := None, l := Some p)" unfolding d1 by (auto simp: disp_simps)
    have pris: "p_pri (procs d x) = int i" if "x \<in> set (Q i)" for x using queues_onq [OF ok(1) that] by simp
    show ?thesis
    proof (rule queues_change [OF ok(1) frame assms(3)])
      show "chain (lnk d1) (dq_first (dispq d1 ! i)) (Q i @ [p])"
        using chain_push_back(2) [OF ok(3) [OF assms(3)] new ys] assms(3) unfolding lnk
        by (simp add: d1 disp_simps)
      show "lnk d1 x = lnk d x" if "p_pri (procs d x) \<noteq> int i" for x
        using that assms(2) pris [of l] ys fun_cong [OF lnk, of x] by auto
    qed (use assms(2,3) pris in \<open>auto simp: d1 disp_simps chain_simps\<close>)
  qed
  have c1: "counts d1 (runnable d1 Q)" unfolding runnable_frame [OF frame]
    by (rule counts_same [OF ok(2)])
      (use assms(3) in \<open>auto simp: d1_def disp_simps nth_list_update split: option.split\<close>)
  have "setbackdq d p = (if schedulable (procs d1 p) then dq_sruninc d1 (int i) else Some d1)"
    using assms(2,3) by (simp add: setbackdq_def disp_simps d1_def Let_def)
  with enqueue_counts [OF q1 c1, of p] same_frameD(4) [OF frame] assms(3) show ?thesis
    using same_frame_trans [OF frame] by auto
qed

lemma setfrontdq_spec:
  assumes "disp_ok d Q" "p_pri (procs d p) = int i" "i < npri d" "\<not> onq Q p"
  shows "\<exists>d'. setfrontdq d p = Some d' \<and> disp_ok d' (Q(i := p # Q i)) \<and> same_frame d d'"
proof -
  note ok = disp_okD [OF assms(1)]
  have new: "p \<notin> set (Q i)" using assms(4) by (auto simp: onq_def)
  define d1 where "d1 = (case dq_first (dispq d ! i) of
      None \<Rightarrow> setdq (setlink d p None) (int i) (\<lambda>q. q\<lparr>dq_first := Some p, dq_last := Some p\<rparr>)
    | Some f \<Rightarrow> setdq (setlink d p (Some f)) (int i) (\<lambda>q. q\<lparr>dq_first := Some p\<rparr>))"
  have frame: "same_frame d d1"
    unfolding d1_def by (auto simp: same_frame_def setlink_def setdq_def split: option.split)
  have lnk: "lnk d1 = (lnk d)(p := dq_first (dispq d ! i))"
    by (auto simp: d1_def disp_simps split: option.split)
  have hd: "dq_first (dispq d1 ! i) = Some p"
    using assms(3) by (auto simp: d1_def disp_simps split: option.split)
  have tl: "dq_last (dispq d1 ! i) = last_of (p # Q i)"
    using assms(3) ok(3,4) [OF assms(3)]
    by (cases "Q i") (auto simp: d1_def disp_simps chain_simps)
  have pris: "p_pri (procs d x) = int i" if "x \<in> set (Q i)" for x using queues_onq [OF ok(1) that] by simp
  have q1: "queues d1 (Q(i := p # Q i))"
  proof (rule queues_change [OF ok(1) frame assms(3)])
    show "chain (lnk d1) (dq_first (dispq d1 ! i)) (p # Q i)"
      using chain_push_front [OF ok(3) [OF assms(3)] new] unfolding lnk hd .
    show "lnk d1 x = lnk d x" if "p_pri (procs d x) \<noteq> int i" for x
      using that assms(2) fun_cong [OF lnk, of x] by auto
    show "dispq d1 ! j = dispq d ! j" if "j < npri d" "j \<noteq> i" for j
      using that by (simp add: d1_def disp_simps split: option.split)
  qed (use assms(2) tl pris in auto)
  have c1: "counts d1 (runnable d1 Q)" unfolding runnable_frame [OF frame]
    by (rule counts_same [OF ok(2)])
      (use assms(3) in \<open>auto simp: d1_def disp_simps nth_list_update split: option.split\<close>)
  have "setfrontdq d p = (if schedulable (procs d1 p) then dq_sruninc d1 (int i) else Some d1)"
    using assms(2,3) by (simp add: setfrontdq_def disp_simps d1_def Let_def)
  with enqueue_counts [OF q1 c1, of p] same_frameD(4) [OF frame] assms(3) show ?thesis
    using same_frame_trans [OF frame] by auto
qed

lemma dq_find_hit:
  assumes "chain nxt rp (as @ p # bs)"
  shows "dq_find nxt p prp rp = Some (if as = [] then prp else last_of as, Some p)"
  using assms
proof (induction as arbitrary: prp rp)
  case Nil
  then show ?case by (simp add: chain_simps dq_find.simps)
next
  case (Cons a as)
  have "a \<noteq> p" using chain_distinct [OF Cons.prems] by auto
  moreover have "chain nxt (nxt a) (as @ p # bs)" "rp = Some a" using Cons.prems by (simp_all add: chain_simps)
  ultimately show ?case
    using Cons.IH [of "nxt a" "Some a"] by (subst dq_find.simps) (auto simp: last_of_def)
qed

lemma dq_find_miss:
  "chain nxt rp xs \<Longrightarrow> p \<notin> set xs \<Longrightarrow> \<exists>r. dq_find nxt p prp rp = Some (r, None)"
proof (induction xs arbitrary: prp rp)
  case Nil
  then show ?case by (simp add: chain_simps dq_find.simps)
next
  case (Cons a xs)
  then have "chain nxt (nxt a) xs" "rp = Some a" "a \<noteq> p" "p \<notin> set xs" by (auto simp: chain_simps)
  then show ?case using Cons.IH [of "nxt a" "Some a"] by (subst dq_find.simps) simp
qed

lemma dq_unlink_frame:
  "same_frame d (dq_unlink d pri prp p)" "dqactmap (dq_unlink d pri prp p) = dqactmap d"
  "srunprocs (dq_unlink d pri prp p) = srunprocs d" "maxrunpri (dq_unlink d pri prp p) = maxrunpri d"
  "i < npri d \<Longrightarrow> dq_sruncnt (dispq (dq_unlink d pri prp p) ! i) = dq_sruncnt (dispq d ! i)"
  by (auto simp: dq_unlink_def same_frame_def setlink_def setdq_def Let_def nth_dq_update split: option.split)

lemma dq_unlink_queues:
  assumes "queues d Q" "i < npri d" "Q i = as @ p # bs"
  shows "queues (dq_unlink d (int i) (last_of as) p) (Q(i := as @ bs))"
proof -
  let ?d = "dq_unlink d (int i) (last_of as) p"
  have ch: "chain (lnk d) (dq_first (dispq d ! i)) (as @ p # bs)" "dq_last (dispq d ! i) = last_of (as @ p # bs)"
    using assms by (auto simp: queues_def)
  have nx: "lnk d p = None \<longleftrightarrow> bs = []" using chain_next_None [OF ch(1)] .
  have pris: "p_pri (procs d x) = int i" if "x \<in> set (as @ p # bs)" for x
    using queues_onq [OF assms(1), of x i] that assms(3) by simp
  show ?thesis
  proof (cases "as = []")
    case True
    have d: "dq_unlink d (int i) None p =
        setdq d (int i) (\<lambda>q. q\<lparr>dq_first := lnk d p, dq_last := (if lnk d p = None then None else dq_last q)\<rparr>)"
      by (simp add: dq_unlink_def Let_def)
    show ?thesis
      using ch nx pris assms(2) True
      by (intro queues_change [OF assms(1) dq_unlink_frame(1) assms(2)])
        (auto simp: d disp_simps chain_simps)
  next
    case False
    then obtain ys a where ys: "as = ys @ [a]" by (metis append_butlast_last_id)
    then have d: "?d = setdq (setlink d a (lnk d p)) (int i)
        (\<lambda>q. q\<lparr>dq_last := (if lnk d p = None then Some a else dq_last q)\<rparr>)"
      by (simp add: dq_unlink_def chain_simps Let_def)
    have lnk: "lnk ?d = (lnk d)(a := lnk d p)" unfolding d by (auto simp: disp_simps)
    have "chain (lnk ?d) (dq_first (dispq d ! i)) (as @ bs)"
      using chain_unlink [of "lnk d" _ ys a p bs] ch(1) unfolding lnk unfolding ys by simp
    moreover have "lnk ?d x = lnk d x" if "p_pri (procs d x) \<noteq> int i" for x
      using that pris [of a] fun_cong [OF lnk, of x] ys by auto
    moreover have "dq_first (dispq ?d ! i) = dq_first (dispq d ! i)" "dq_last (dispq ?d ! i) = last_of (as @ bs)"
      using assms(2) ch(2) nx unfolding d by (auto simp: disp_simps chain_simps ys)
    moreover have "dispq ?d ! j = dispq d ! j" if "j < npri d" "j \<noteq> i" for j
      using that unfolding d by (simp add: disp_simps)
    ultimately show ?thesis
      using pris by (intro queues_change [OF assms(1) dq_unlink_frame(1) assms(2)]) auto
  qed
qed

lemma runnable_remove:
  assumes "Q i = as @ p # bs"
  shows "schedulable (procs d p) \<Longrightarrow> runnable d (Q(i := as @ bs)) = (runnable d Q)(i := runnable d Q i - 1)"
    and "schedulable (procs d p) \<Longrightarrow> 0 < runnable d Q i"
    and "\<not> schedulable (procs d p) \<Longrightarrow> runnable d (Q(i := as @ bs)) = runnable d Q"
  using assms by (auto simp: runnable_def fun_eq_iff)

lemma unlink_counts:
  assumes "disp_ok d Q" "i < npri d" "Q i = as @ p # bs" and d': "d' = dq_unlink d (int i) (last_of as) p"
  shows "queues d' (Q(i := as @ bs))" "counts d' (runnable d' Q)" "same_frame d d'" "npri d' = npri d"
proof -
  note ok = disp_okD [OF assms(1)]
  show fr: "same_frame d d'" unfolding d' by (rule dq_unlink_frame(1))
  show "queues d' (Q(i := as @ bs))" unfolding d' by (rule dq_unlink_queues [OF ok(1) assms(2,3)])
  show "npri d' = npri d" by (rule same_frameD(4) [OF fr])
  then show "counts d' (runnable d' Q)" unfolding runnable_frame [OF fr]
    by (intro counts_same [OF ok(2)]) (simp_all add: d' dq_unlink_frame)
qed

lemma dispdeq_spec:
  assumes "disp_ok d Q" "p_pri (procs d p) = int i" "i < npri d"
  shows "\<exists>d'. dispdeq d p = Some (onq Q p, d') \<and> disp_ok d' (Q(i := remove1 p (Q i))) \<and> same_frame d d'"
proof (cases "p \<in> set (Q i)")
  case True
  note ok = disp_okD [OF assms(1)]
  obtain as bs where split: "Q i = as @ p # bs" "p \<notin> set as" using True by (meson split_list_first)
  let ?d = "dq_unlink d (int i) (last_of as) p" and ?Q = "Q(i := as @ bs)"
  note u = unlink_counts [OF assms(1,3) split(1) refl]
  have find: "dq_find (lnk d) p None (dq_first (dispq d ! i)) = Some (last_of as, Some p)"
    using dq_find_hit [of "lnk d" _ as p bs None] ok(3) [OF assms(3)] split(1) by (simp add: last_of_def)
  have rm: "remove1 p (Q i) = as @ bs" using split by (simp add: remove1_append)
  have on: "onq Q p" using True by (auto simp: onq_def)
  have "\<exists>d'. (if schedulable (procs ?d p) then dq_srundec ?d (int i) else Some ?d) = Some d' \<and> disp_ok d' ?Q \<and> same_frame ?d d'"
  proof (cases "schedulable (procs ?d p)")
    case sch: True
    from dq_srundec_spec [OF u(2) _ runnable_remove(2) [where Q=Q, OF split(1) sch]] assms(3) u(4) obtain d'
      where d': "dq_srundec ?d (int i) = Some d'" "counts d' ((runnable ?d Q)(i := runnable ?d Q i - 1))" "same_links ?d d'"
      by auto
    have "disp_ok d' ?Q"
      using d' u(1) runnable_remove(1) [where Q=Q, OF split(1) sch] same_links_frame [OF d'(3)]
      by (simp add: disp_ok_def queues_same_links runnable_frame)
    then show ?thesis using sch d'(1) same_links_frame [OF d'(3)] by simp
  next
    case False
    then show ?thesis using u runnable_remove(3) [where Q=Q, OF split(1) False] by (simp add: disp_ok_def)
  qed
  then show ?thesis
    using assms(2,3) find on u(3) same_frame_trans
    by (auto simp: dispdeq_def disp_simps Let_def rm)
next
  case False
  note ok = disp_okD [OF assms(1)]
  have off: "\<not> onq Q p" using False queues_onq_iff [OF ok(1) assms(2)] by simp
  have same: "Q(i := remove1 p (Q i)) = Q" using False by (simp add: remove1_idem)
  obtain r where "dq_find (lnk d) p None (dq_first (dispq d ! i)) = Some (r, None)"
    using dq_find_miss [OF ok(3) [OF assms(3)] False] by blast
  then show ?thesis using assms off unfolding same by (simp add: dispdeq_def disp_simps)
qed

section \<open>Choosing the next process\<close>

lemma dq_firstrun_spec:
  assumes "chain (\<lambda>p. p_link (ps p)) pp (as @ p # bs)" "schedulable (ps p)"
    and "\<forall>x\<in>set as. \<not> schedulable (ps x)"
  shows "dq_firstrun ps rp pp = Some (if as = [] then rp else last_of as, p)"
  using assms
proof (induction as arbitrary: rp pp)
  case Nil
  then show ?case by (simp add: chain_simps dq_firstrun.simps)
next
  case (Cons a as)
  then have "chain (\<lambda>p. p_link (ps p)) (p_link (ps a)) (as @ p # bs)" "pp = Some a" "\<not> schedulable (ps a)"
    by (simp_all add: chain_simps)
  then show ?case
    using Cons.IH [of "p_link (ps a)" "Some a"] Cons.prems by (subst dq_firstrun.simps) (auto simp: last_of_def)
qed

lemma maxrunpri_queue:
  assumes "disp_ok d Q" "maxrunpri d \<noteq> - 1"
  obtains i as p bs where "maxrunpri d = int i" "i < npri d" "Q i = as @ p # bs"
    "schedulable (procs d p)" "\<forall>x\<in>set as. \<not> schedulable (procs d x)"
    "\<forall>j>i. \<forall>x\<in>set (Q j). \<not> schedulable (procs d x)"
proof -
  note ok = disp_okD [OF assms(1)] and c = countsD [OF disp_okD(2) [OF assms(1)]]
  let ?B = "bits_of (dqactmap d)"
  have ne: "?B \<noteq> {}" using assms(2) c(5) by (auto simp: high_of_def)
  define i where "i = Max ?B"
  have i: "maxrunpri d = int i" "i \<in> ?B" "\<And>j. j \<in> ?B \<Longrightarrow> j \<le> i"
    using ne c(5) bits_of_finite [of "dqactmap d"] by (auto simp: i_def high_of_def intro: Max_in)
  then have lt: "i < npri d" and pos: "0 < runnable d Q i" using c(3) by auto
  from pos obtain x where "x \<in> set (Q i)" "schedulable (procs d x)" by (auto simp: runnable_def filter_empty_conv)
  then obtain as p bs where split: "Q i = as @ p # bs" "schedulable (procs d p)" "\<forall>x\<in>set as. \<not> schedulable (procs d x)"
    using split_list_first_prop [of "Q i" "\<lambda>x. schedulable (procs d x)"] by blast
  have "\<not> schedulable (procs d x)" if "j > i" "x \<in> set (Q j)" for j x
  proof
    assume "schedulable (procs d x)"
    with that(2) have "0 < runnable d Q j" by (auto simp: runnable_def filter_empty_conv)
    moreover have "j < npri d" using queues_onq [OF ok(1) that(2)] by simp
    ultimately have "j \<in> ?B" using c(3) by simp
    with i(3) that(1) show False by fastforce
  qed
  with that i(1) lt split show ?thesis by blast
qed

text \<open>The count update of \<^verbatim>\<open>pswtch\<close> is \<^verbatim>\<open>dq_srundec\<close> at \<^verbatim>\<open>maxrunpri\<close>.\<close>

lemma pswtch_dec_eq: "pswtch_dec d (maxrunpri d) = dq_srundec d (maxrunpri d)"
  by (cases "srunprocs d = 1") (simp_all add: pswtch_dec_def dq_srundec_def disp_simps Let_def cong: if_cong)

lemma queues_stat: "queues (d\<lparr>procs := (procs d)(p := (procs d p)\<lparr>p_stat := v\<rparr>)\<rparr>) Q = queues d Q"
proof -
  have "lnk (d\<lparr>procs := (procs d)(p := (procs d p)\<lparr>p_stat := v\<rparr>)\<rparr>) = lnk d" by auto
  then show ?thesis by (simp only: queues_def) auto
qed

lemma disp_ok_stat: "disp_ok (d\<lparr>procs := (procs d)(p := (procs d p)\<lparr>p_stat := v\<rparr>)\<rparr>) Q = disp_ok d Q"
proof -
  have "runnable (d\<lparr>procs := (procs d)(p := (procs d p)\<lparr>p_stat := v\<rparr>)\<rparr>) Q = runnable d Q"
    by (auto simp: runnable_def fun_eq_iff intro!: arg_cong [where f = length] filter_cong)
  then show ?thesis by (simp add: disp_ok_def queues_stat counts_def)
qed

lemma disp_ok_flags: "disp_ok (d\<lparr>runrun := a, kprunrun := b, npwakecnt := c\<rparr>) Q = disp_ok d Q"
    "disp_ok (d\<lparr>curpri := x, curproc := y\<rparr>) Q = disp_ok d Q" "disp_ok (d\<lparr>runrun := a\<rparr>) Q = disp_ok d Q"
    "disp_ok (d\<lparr>curpri := x\<rparr>) Q = disp_ok d Q"
    "disp_ok (d\<lparr>pswitch := n, old_curproc := y\<rparr>) Q = disp_ok d Q" "disp_ok (d\<lparr>oldproc := z\<rparr>) Q = disp_ok d Q"
  by (simp_all add: disp_ok_def queues_def counts_def runnable_def)

lemma pswtch_pick_spec:
  assumes "disp_ok d Q" "maxrunpri d = int i" "i < npri d" "Q i = as @ p # bs"
    and "schedulable (procs d p)" "\<forall>x\<in>set as. \<not> schedulable (procs d x)"
  shows "\<exists>d'. pswtch_pick d = Some d' \<and> disp_ok d' (Q(i := as @ bs)) \<and> curproc d' = p \<and> curpri d' = int i
     \<and> p_stat (procs d' p) = SONPROC \<and> (\<forall>q. q \<noteq> p \<longrightarrow> p_stat (procs d' q) = p_stat (procs d q))
     \<and> (\<forall>q. p_flag (procs d' q) = p_flag (procs d q) \<and> p_pri (procs d' q) = p_pri (procs d q))
     \<and> runrun d' = 0 \<and> kprunrun d' = 0 \<and> npwakecnt d' = 0 \<and> npri d' = npri d"
proof -
  let ?d = "d\<lparr>runrun := 0, kprunrun := 0, npwakecnt := 0\<rparr>"
  have ok0: "disp_ok ?d Q" using assms(1) by (simp add: disp_ok_flags)
  note ok = disp_okD [OF ok0]
  let ?u = "dq_unlink ?d (int i) (last_of as) p" and ?Q = "Q(i := as @ bs)"
  have i: "i < npri ?d" using assms(3) by simp
  note u = unlink_counts [OF ok0 i assms(4) refl]
  have sch: "schedulable (procs ?u p)" using same_frame_schedulable [OF u(3)] assms(5) by simp
  obtain d' where d': "dq_srundec ?u (int i) = Some d'" "counts d' ((runnable ?u Q)(i := runnable ?u Q i - 1))" "same_links ?u d'"
    using dq_srundec_spec [OF u(2) _ runnable_remove(2) [where Q=Q, OF assms(4) sch]] assms(3) u(4) by auto
  have fr: "same_frame ?d d'" using same_frame_trans [OF u(3) same_links_frame [OF d'(3)]] .
  have okd: "disp_ok d' ?Q"
    using d' u(1) runnable_remove(1) [where Q=Q, OF assms(4) sch] same_links_frame [OF d'(3)]
    by (simp add: disp_ok_def queues_same_links runnable_frame)
  have ch: "chain (lnk ?d) (dq_first (dispq d ! i)) (as @ p # bs)" using ok(3) [OF i] assms(4) by simp
  have first: "dq_firstrun (procs d) None (dq_first (dispq d ! i)) = Some (last_of as, p)"
    using dq_firstrun_spec [of "procs d" _ as p bs None] ch assms(5,6) by (simp add: last_of_def)
  have pred: "(if dq_first (dispq d ! i) = Some p then None else last_of as) = last_of as"
    using ch chain_distinct [OF ch] by (cases as) (auto simp: chain_simps)
  have mx: "maxrunpri ?u = int i" using assms(2) by (simp add: dq_unlink_frame)
  have run: "pswtch_pick d = Some (d'\<lparr>procs := (procs d')(p := (procs d' p)\<lparr>p_stat := SONPROC\<rparr>),
      curpri := p_pri (procs d' p), curproc := p\<rparr>)"
    using d'(1) pswtch_dec_eq [of ?u] mx i assms(2) first
    unfolding pswtch_pick_def Let_def by (simp add: disp_simps pred)
  have pri: "p_pri (procs d' p) = int i"
    using same_frameD(2) [OF fr] queues_onq [OF ok(1), of p i] assms(4) by simp
  have "disp_ok (d'\<lparr>procs := (procs d')(p := (procs d' p)\<lparr>p_stat := SONPROC\<rparr>), curpri := int i, curproc := p\<rparr>) ?Q"
    using okd disp_ok_stat [of d' p SONPROC] disp_ok_flags(2) by simp
  with run pri same_frameD [OF fr] show ?thesis by auto
qed

lemma pswtch_start_ok:
  assumes "disp_ok d Q"
  shows "disp_ok (pswtch_start d) Q" "maxrunpri (pswtch_start d) = maxrunpri d" "npri (pswtch_start d) = npri d"
    "p_pri (procs (pswtch_start d) q) = p_pri (procs d q)" "p_flag (procs (pswtch_start d) q) = p_flag (procs d q)"
    "p_stat (procs d (curproc d)) = SONPROC \<Longrightarrow> p_stat (procs (pswtch_start d) (curproc d)) = SRUN"
proof -
  let ?d = "d\<lparr>pswitch := pswitch d + 1, old_curproc := curproc d\<rparr>"
  have "disp_ok ?d Q" using assms by (simp add: disp_ok_flags)
  with disp_ok_stat [of ?d "curproc d" SRUN Q] show "disp_ok (pswtch_start d) Q"
    by (auto simp: pswtch_start_def Let_def disp_ok_flags disp_ok_stat split: pstat.split)
qed (auto simp: pswtch_start_def Let_def split: pstat.split)

lemma pswtch_spec:
  assumes "disp_ok d Q" "maxrunpri d \<noteq> - 1"
  shows "\<exists>d' i as p bs. pswtch env sched d = Some d' \<and> Q i = as @ p # bs \<and> schedulable (procs d p)
     \<and> (\<forall>x\<in>set as. \<not> schedulable (procs d x)) \<and> (\<forall>j>i. \<forall>x\<in>set (Q j). \<not> schedulable (procs d x))
     \<and> disp_ok d' (Q(i := as @ bs)) \<and> curproc d' = p \<and> curpri d' = int i \<and> p_stat (procs d' p) = SONPROC
     \<and> (p_stat (procs d (curproc d)) = SONPROC \<and> curproc d \<noteq> p \<longrightarrow> p_stat (procs d' (curproc d)) = SRUN)
     \<and> runrun d' = 0 \<and> kprunrun d' = 0 \<and> npwakecnt d' = 0
     \<and> npri d' = npri d \<and> (\<forall>q. p_pri (procs d' q) = p_pri (procs d q) \<and> p_flag (procs d' q) = p_flag (procs d q))"
proof -
  define d1 where "d1 = pswtch_start d"
  note st0 = pswtch_start_ok [OF assms(1), folded d1_def]
  have ok1: "disp_ok d1 Q" and fr: "npri d1 = npri d" "p_pri (procs d1 q) = p_pri (procs d q)" "p_flag (procs d1 q) = p_flag (procs d q)"
    and same: "maxrunpri d1 = maxrunpri d" "schedulable (procs d1 x) = schedulable (procs d x)"
    and st: "p_stat (procs d (curproc d)) = SONPROC \<longrightarrow> p_stat (procs d1 (curproc d)) = SRUN" for q x
    using st0 by (simp_all add: schedulable_def)
  have "pswtch_wait env sched d1 = Some d1" using assms(2) same by (subst pswtch_wait.simps) simp
  then have run: "pswtch env sched d = pswtch_pick d1"
    by (simp add: pswtch_def Let_def d1_def)
  from maxrunpri_queue [OF ok1] assms(2) same(1) obtain i as p bs
    where sel: "maxrunpri d1 = int i" "i < npri d1" "Q i = as @ p # bs" "schedulable (procs d1 p)"
      "\<forall>x\<in>set as. \<not> schedulable (procs d1 x)" "\<forall>j>i. \<forall>x\<in>set (Q j). \<not> schedulable (procs d1 x)" by metis
  from pswtch_pick_spec [OF ok1 sel(1-5)] obtain d' where d': "pswtch_pick d1 = Some d'"
      "disp_ok d' (Q(i := as @ bs))" "curproc d' = p" "curpri d' = int i" "p_stat (procs d' p) = SONPROC"
      "\<forall>q. q \<noteq> p \<longrightarrow> p_stat (procs d' q) = p_stat (procs d1 q)"
      "runrun d' = 0" "kprunrun d' = 0" "npwakecnt d' = 0" "npri d' = npri d1"
      "\<forall>q. p_flag (procs d' q) = p_flag (procs d1 q) \<and> p_pri (procs d' q) = p_pri (procs d1 q)" by blast
  show ?thesis
    by (rule exI [of _ d'], rule exI [of _ i], rule exI [of _ as], rule exI [of _ p], rule exI [of _ bs])
      (use d' sel st in \<open>simp add: run same(2) fr\<close>)
qed

section \<open>Initialization and changes of the flags\<close>

lemma fold_max: "fold (\<lambda>cl m. if cl > m then cl else m) cls (x::int) \<ge> x"
proof (induction cls arbitrary: x)
  case Nil
  then show ?case by simp
next
  case (Cons a cls)
  show ?case using Cons.IH [of x] Cons.IH [of a] by auto
qed

lemma dispinit_spec: "disp_ok (dispinit cls d) (\<lambda>_. [])"
proof -
  let ?m = "fold (\<lambda>cl m. if cl > m then cl else m) cls (- 1)"
  have m: "?m \<ge> - 1" by (rule fold_max)
  have "nat (?m + 1) \<le> 32 * nat ((?m + 1) div 32 + 1)" using m by linarith
  moreover have "bits_of (replicate k 0) = {}" for k by (auto simp: bits_of_def)
  ultimately show ?thesis
    by (auto simp: disp_ok_def queues_def counts_def runnable_def dispinit_def Let_def high_of_def chain_simps)
qed

text \<open>
  A process on a queue whose flags change: the caller stores the new flags and then calls
  \<^verbatim>\<open>dq_sruninc\<close> or \<^verbatim>\<open>dq_srundec\<close> with the priority of the process.
\<close>

definition set_flag :: "disp \<Rightarrow> procp \<Rightarrow> u32 \<Rightarrow> disp" where
  "set_flag d p f = d\<lparr>procs := (procs d)(p := (procs d p)\<lparr>p_flag := f\<rparr>)\<rparr>"

lemma queues_flag: "queues (set_flag d p f) Q = queues d Q"
proof -
  have "lnk (set_flag d p f) = lnk d" by (auto simp: set_flag_def)
  then show ?thesis by (simp only: queues_def) (auto simp: set_flag_def)
qed

lemma runnable_flag:
  assumes "distinct (Q i)" "p \<in> set (Q i)" "\<And>j. j \<noteq> i \<Longrightarrow> p \<notin> set (Q j)"
  shows "runnable (set_flag d p f) Q = (runnable d Q)(i := runnable d (Q(i := remove1 p (Q i))) i
      + (if schedulable ((procs d p)\<lparr>p_flag := f\<rparr>) then 1 else 0))"
proof
  fix j
  have other: "filter (\<lambda>x. schedulable (procs (set_flag d p f) x)) xs = filter (\<lambda>x. schedulable (procs d x)) xs"
    if "p \<notin> set xs" for xs
    using that by (intro filter_cong) (auto simp: set_flag_def)
  obtain as bs where sp: "Q i = as @ p # bs" "p \<notin> set as" using assms(2) by (meson split_list_first)
  then have "p \<notin> set bs" "remove1 p (Q i) = as @ bs" using assms(1) by (auto simp: remove1_append)
  then show "runnable (set_flag d p f) Q j = ((runnable d Q)(i := runnable d (Q(i := remove1 p (Q i))) i
      + (if schedulable ((procs d p)\<lparr>p_flag := f\<rparr>) then 1 else 0))) j"
    using sp other [of as] other [of bs] other [of "Q j"] assms(3) [of j]
    by (auto simp: runnable_def) (simp_all add: set_flag_def)
qed

lemma flag_change_runnable:
  assumes "disp_ok d Q" "p \<in> set (Q i)"
  shows "schedulable ((procs d p)\<lparr>p_flag := f\<rparr>) \<Longrightarrow> \<not> schedulable (procs d p) \<Longrightarrow>
      runnable (set_flag d p f) Q = (runnable d Q)(i := runnable d Q i + 1)"
    and "\<not> schedulable ((procs d p)\<lparr>p_flag := f\<rparr>) \<Longrightarrow> schedulable (procs d p) \<Longrightarrow>
      runnable (set_flag d p f) Q = (runnable d Q)(i := runnable d Q i - 1) \<and> 0 < runnable d Q i"
proof -
  note q = disp_okD(1) [OF assms(1)]
  have only: "p \<notin> set (Q j)" if "j \<noteq> i" for j
    using queues_onq [OF q, of p j] queues_onq [OF q assms(2)] that by auto
  obtain as bs where sp: "Q i = as @ p # bs" "p \<notin> set as" using assms(2) by (meson split_list_first)
  then have rm: "remove1 p (Q i) = as @ bs" by (simp add: remove1_append)
  note rf = runnable_flag [of Q i p d f, OF queues_distinct [OF q] assms(2) only, unfolded rm]
  show "schedulable ((procs d p)\<lparr>p_flag := f\<rparr>) \<Longrightarrow> \<not> schedulable (procs d p) \<Longrightarrow>
      runnable (set_flag d p f) Q = (runnable d Q)(i := runnable d Q i + 1)"
    using rf runnable_remove(3) [where Q = Q, OF sp(1), of d] by simp
  show "\<not> schedulable ((procs d p)\<lparr>p_flag := f\<rparr>) \<Longrightarrow> schedulable (procs d p) \<Longrightarrow>
      runnable (set_flag d p f) Q = (runnable d Q)(i := runnable d Q i - 1) \<and> 0 < runnable d Q i"
    using rf runnable_remove(1,2) [where Q = Q, OF sp(1), of d] by simp
qed

section \<open>The dispatcher as the scheduling classes see it\<close>

text \<open>
  A scheduling class calls the queue operations and stores priorities into processes. It relies on
  this: the state stands for one list of processes per priority; insertion and removal act on the
  list of the process's current priority; and a priority may be stored into a process that is not
  on a queue. The lemma on moving a process is what every requeueing in the classes needs.
\<close>

definition set_pri :: "disp \<Rightarrow> procp \<Rightarrow> int \<Rightarrow> disp" where
  "set_pri d p v = d\<lparr>procs := (procs d)(p := (procs d p)\<lparr>p_pri := v\<rparr>)\<rparr>"

locale dispatcher =
  fixes setback setfront :: "'d \<Rightarrow> procp \<Rightarrow> 'd option"
    and deq :: "'d \<Rightarrow> procp \<Rightarrow> (bool \<times> 'd) option"
    and setpri :: "'d \<Rightarrow> procp \<Rightarrow> int \<Rightarrow> 'd"
    and pri :: "'d \<Rightarrow> procp \<Rightarrow> int"
    and levels :: "'d \<Rightarrow> nat"
    and frame :: "'d \<Rightarrow> 'd \<Rightarrow> bool"
    and rep :: "'d \<Rightarrow> (nat \<Rightarrow> procp list) \<Rightarrow> bool"
  assumes setback_ok: "rep d Q \<Longrightarrow> pri d p = int i \<Longrightarrow> i < levels d \<Longrightarrow> \<not> onq Q p \<Longrightarrow>
      \<exists>d'. setback d p = Some d' \<and> rep d' (Q(i := Q i @ [p])) \<and> frame d d'"
    and setfront_ok: "rep d Q \<Longrightarrow> pri d p = int i \<Longrightarrow> i < levels d \<Longrightarrow> \<not> onq Q p \<Longrightarrow>
      \<exists>d'. setfront d p = Some d' \<and> rep d' (Q(i := p # Q i)) \<and> frame d d'"
    and deq_ok: "rep d Q \<Longrightarrow> pri d p = int i \<Longrightarrow> i < levels d \<Longrightarrow>
      \<exists>d'. deq d p = Some (onq Q p, d') \<and> rep d' (Q(i := remove1 p (Q i))) \<and> frame d d'"
    and setpri_ok: "rep d Q \<Longrightarrow> \<not> onq Q p \<Longrightarrow> rep (setpri d p v) Q"
    and setpri_pri: "pri (setpri d p v) = (pri d)(p := v)" "levels (setpri d p v) = levels d"
    and frame_pri: "frame d d' \<Longrightarrow> pri d' p = pri d p" "frame d d' \<Longrightarrow> levels d' = levels d"
    and rep_pri: "rep d Q \<Longrightarrow> p \<in> set (Q i) \<Longrightarrow> pri d p = int i"
    and rep_distinct: "rep d Q \<Longrightarrow> distinct (Q i)"
begin

lemma removed_off:
  assumes "rep d Q" "pri d p = int i"
  shows "\<not> onq (Q(i := remove1 p (Q i))) p"
  using rep_pri [OF assms(1), of p] rep_distinct [OF assms(1), of i] assms(2)
  by (auto simp: onq_def split: if_splits)

text \<open>Take a process off its queue and give it the priority \<open>j\<close>; it can then be inserted.\<close>

lemma deq_setpri:
  assumes "rep d Q" "pri d p = int i" "i < levels d"
  shows "\<exists>d'. deq d p = Some (onq Q p, d') \<and> frame d d' \<and> rep (setpri d' p v) (Q(i := remove1 p (Q i)))
    \<and> \<not> onq (Q(i := remove1 p (Q i))) p \<and> pri (setpri d' p v) p = v \<and> levels (setpri d' p v) = levels d"
proof -
  from deq_ok [OF assms] obtain d'
    where d': "deq d p = Some (onq Q p, d')" "rep d' (Q(i := remove1 p (Q i)))" "frame d d'" by blast
  then show ?thesis
    using setpri_ok removed_off [OF assms(1,2)] frame_pri(2) by (intro exI [of _ d']) (simp add: setpri_pri)
qed

lemma not_onq_removed: "rep d Q \<Longrightarrow> pri d p = int i \<Longrightarrow> \<not> onq Q p \<Longrightarrow> Q(i := remove1 p (Q i)) = Q"
  by (auto simp: onq_def remove1_idem)

end

lemma lnk_set_pri: "lnk (set_pri d p v) = lnk d"
  by (auto simp: set_pri_def)

lemma set_pri_simps [disp_simps]:
  "dispq (set_pri d p v) = dispq d" "dqactmap (set_pri d p v) = dqactmap d"
  "srunprocs (set_pri d p v) = srunprocs d" "maxrunpri (set_pri d p v) = maxrunpri d"
  "p_pri (procs (set_pri d p v) q) = (if q = p then v else p_pri (procs d q))"
  "schedulable (procs (set_pri d p v) q) = schedulable (procs d q)"
  by (simp_all add: set_pri_def schedulable_def)

lemma disp_ok_set_pri: "disp_ok d Q \<Longrightarrow> \<not> onq Q p \<Longrightarrow> disp_ok (set_pri d p v) Q"
  unfolding disp_ok_def queues_def counts_def lnk_set_pri
  by (auto simp: disp_simps runnable_def onq_def)

interpretation dq: dispatcher setbackdq setfrontdq dispdeq set_pri "\<lambda>d p. p_pri (procs d p)" npri same_frame disp_ok
proof
  show "p_pri (procs d p) = int i" if "disp_ok d Q" "p \<in> set (Q i)" for d Q p i
    using queues_onq [OF disp_okD(1) [OF that(1)] that(2)] by simp
  show "distinct (Q i)" if "disp_ok d Q" for d Q i
    using queues_distinct [OF disp_okD(1) [OF that]] .
qed (simp_all add: setbackdq_spec setfrontdq_spec dispdeq_spec disp_ok_set_pri disp_simps same_frameD fun_eq_iff)

section \<open>Properties\<close>

definition idle_proc :: "procp \<Rightarrow> proc_t" where
  "idle_proc p = \<lparr>p_stat = SRUN, p_pri = int (p mod 2), p_flag = SLOAD, p_link = None\<rparr>"

definition example_disp :: disp where
  "example_disp = dispinit [0, 1]
     \<lparr>procs = idle_proc, dispq = [], dqactmap = [], srunprocs = 0, maxrunpri = 0, curproc = 0, curpri = 0,
      runrun = 0, kprunrun = 0, npwakecnt = 0, old_curproc = 0, oldproc = None, pswitch = 0\<rparr>"

lemma example_disp_ok: "disp_ok example_disp (\<lambda>_. [])" "npri example_disp = 2" "procs example_disp = idle_proc"
  "curproc example_disp = 0"
proof -
  show "disp_ok example_disp (\<lambda>_. [])" unfolding example_disp_def by (rule dispinit_spec)
qed (simp_all add: example_disp_def dispinit_def Let_def)

text \<open>
  \<^verbatim>\<open>dispinit\<close> leaves every dispatcher queue empty, with counters, bitmap and \<^verbatim>\<open>maxrunpri\<close> in
  agreement, whatever the highest priorities the classes ask for, and the bitmap has a bit for
  every queue.
\<close>

theorem dispinit_establishes:
  "disp_ok (dispinit cls d) (\<lambda>_. []) \<and> npri (dispinit cls d) \<le> 32 * length (dqactmap (dispinit cls d))
   \<and> maxrunpri (dispinit cls d) = - 1"
  using dispinit_spec [of cls d] countsD(1) [OF disp_okD(2) [OF dispinit_spec]]
  by (simp add: dispinit_def Let_def)

text \<open>
  C29: inserting a process that is on no queue, with a priority that has a queue, implements
  appending it to the list of its priority (\<^verbatim>\<open>setbackdq\<close>) or putting it in front (\<^verbatim>\<open>setfrontdq\<close>):
  the links, the queue header, the counters, the bitmap and \<^verbatim>\<open>maxrunpri\<close> of the result represent
  the new lists, no array is overrun, and nothing else of the processes or the scheduling flags
  changes.
\<close>

theorem setdq_refines:
  assumes "disp_ok d Q" "p_pri (procs d p) = int i" "i < npri d" "\<not> onq Q p"
  shows "(\<exists>d'. setbackdq d p = Some d' \<and> disp_ok d' (Q(i := Q i @ [p])) \<and> same_frame d d')
     \<and> (\<exists>d'. setfrontdq d p = Some d' \<and> disp_ok d' (Q(i := p # Q i)) \<and> same_frame d d')"
  using dq.setback_ok [OF assms] dq.setfront_ok [OF assms] by blast

theorem setdq_refines_witness:
  "\<exists>d'. setbackdq example_disp 1 = Some d' \<and> disp_ok d' ((\<lambda>_. [])(1 := [1]))"
  using setdq_refines [OF example_disp_ok(1), of 1 1] by (auto simp: example_disp_ok idle_proc_def onq_def)

text \<open>
  C28: \<^verbatim>\<open>dispdeq\<close> returns for every process with a valid priority (its search loop ends), reports
  whether the process was on a queue, and implements the removal of the process from the list of
  its priority.
\<close>

theorem dispdeq_refines:
  assumes "disp_ok d Q" "p_pri (procs d p) = int i" "i < npri d"
  shows "\<exists>d'. dispdeq d p = Some (onq Q p, d') \<and> disp_ok d' (Q(i := remove1 p (Q i)))
     \<and> \<not> onq (Q(i := remove1 p (Q i))) p \<and> same_frame d d'"
  using dq.deq_ok [OF assms] dq.removed_off [OF assms(1,2)] by blast

theorem dispdeq_refines_witness:
  "\<exists>d d'. setbackdq example_disp 1 = Some d \<and> dispdeq d 1 = Some (True, d') \<and> disp_ok d' (\<lambda>_. [])"
proof -
  obtain d where d: "setbackdq example_disp 1 = Some d" "disp_ok d ((\<lambda>_. [])(1 := [1]))" "same_frame example_disp d"
    using dq.setback_ok [OF example_disp_ok(1), of 1 1] by (auto simp: example_disp_ok idle_proc_def onq_def)
  have "p_pri (procs d 1) = int 1" "1 < npri d"
    using same_frameD(2,4) [OF d(3)] by (simp_all add: example_disp_ok idle_proc_def)
  from dispdeq_refines [OF d(2) this] d(1) show ?thesis by (auto simp: onq_def fun_upd_idem)
qed

text \<open>
  C13: when some queued process may run, \<^verbatim>\<open>pswtch\<close> returns and gives the processor to the first
  process of the highest non-empty priority that may run: no queued process that may run has a
  higher priority, the processes it passed over may not run, the chosen one is taken off its queue
  and is \<^verbatim>\<open>SONPROC\<close>, \<^verbatim>\<open>curpri\<close> is its priority, the preemption flags are cleared and the
  invariant holds again. The process that gave up the processor is \<^verbatim>\<open>SRUN\<close> if it was running and
  another one was chosen.
\<close>

theorem pswtch_runs_highest:
  assumes "disp_ok d Q" "maxrunpri d \<noteq> - 1"
  shows "\<exists>d' i as p bs. pswtch env sched d = Some d' \<and> Q i = as @ p # bs \<and> schedulable (procs d p)
     \<and> (\<forall>x\<in>set as. \<not> schedulable (procs d x)) \<and> (\<forall>j>i. \<forall>x\<in>set (Q j). \<not> schedulable (procs d x))
     \<and> disp_ok d' (Q(i := as @ bs)) \<and> curproc d' = p \<and> curpri d' = int i \<and> p_stat (procs d' p) = SONPROC
     \<and> (p_stat (procs d (curproc d)) = SONPROC \<and> curproc d \<noteq> p \<longrightarrow> p_stat (procs d' (curproc d)) = SRUN)
     \<and> runrun d' = 0 \<and> kprunrun d' = 0 \<and> npwakecnt d' = 0"
  using pswtch_spec [OF assms, of env sched] by blast

theorem pswtch_runs_highest_witness:
  "\<exists>d d'. setbackdq example_disp 1 = Some d \<and> pswtch [] 0 d = Some d' \<and> curproc d' = 1 \<and> curpri d' = 1"
proof -
  obtain d where d: "setbackdq example_disp 1 = Some d" "disp_ok d ((\<lambda>_. [])(1 := [1]))" "same_frame example_disp d"
    using dq.setback_ok [OF example_disp_ok(1), of 1 1] by (auto simp: example_disp_ok idle_proc_def onq_def)
  have "schedulable (procs d 1)"
    using same_frame_schedulable [OF d(3)] by (simp add: example_disp_ok idle_proc_def schedulable_def)
  then have "1 \<in> bits_of (dqactmap d)"
    using countsD(3) [OF disp_okD(2) [OF d(2)]] same_frameD(4) [OF d(3)] by (simp add: runnable_def example_disp_ok)
  then have "maxrunpri d \<noteq> - 1"
    using countsD(5) [OF disp_okD(2) [OF d(2)]] by (auto simp: high_of_def)
  from pswtch_runs_highest [OF d(2) this, of "[]" 0]
  obtain d' i as p bs where "pswtch [] 0 d = Some d'" "((\<lambda>_. [])(1 := [1])) i = as @ p # bs"
    "curproc d' = p" "curpri d' = int i" by blast
  then show ?thesis using d(1) by (auto simp: Cons_eq_append_conv split: if_splits)
qed

text \<open>
  When a queued process becomes schedulable by a change of its flags, the caller's
  \<^verbatim>\<open>dq_sruninc\<close> with the priority of the process restores the agreement of counters, bitmap and
  \<^verbatim>\<open>maxrunpri\<close> with the queues, and when it stops being schedulable \<^verbatim>\<open>dq_srundec\<close> does.
\<close>

theorem dq_srun_flag_change:
  assumes "disp_ok d Q" "p \<in> set (Q i)" "schedulable ((procs d p)\<lparr>p_flag := f\<rparr>) \<noteq> schedulable (procs d p)"
  shows "\<exists>d'. (if schedulable (procs d p) then dq_srundec (set_flag d p f) (p_pri (procs d p))
               else dq_sruninc (set_flag d p f) (p_pri (procs d p))) = Some d' \<and> disp_ok d' Q"
proof -
  note ok = disp_okD [OF assms(1)]
  have i: "p_pri (procs d p) = int i" "i < npri (set_flag d p f)"
    using queues_onq [OF ok(1) assms(2)] by (simp_all add: set_flag_def)
  have q: "queues (set_flag d p f) Q" using ok(1) by (simp add: queues_flag)
  have c: "counts (set_flag d p f) (runnable d Q)" using ok(2) by (simp add: counts_def set_flag_def)
  have fin: "disp_ok d' Q" if "same_links (set_flag d p f) d'" "counts d' (runnable (set_flag d p f) Q)" for d'
    using that q runnable_frame [OF same_links_frame [OF that(1)]] by (simp add: disp_ok_def queues_same_links)
  show ?thesis
  proof (cases "schedulable (procs d p)")
    case True
    with assms(3) flag_change_runnable(2) [OF assms(1,2), of f] dq_srundec_spec [OF c i(2)] i(1) fin
    show ?thesis by auto
  next
    case False
    with assms(3) flag_change_runnable(1) [OF assms(1,2), of f] dq_sruninc_spec [OF c i(2)] i(1) fin
    show ?thesis by auto
  qed
qed

theorem dq_srun_flag_change_witness:
  "\<exists>d d'. setbackdq example_disp 1 = Some d \<and> dq_srundec (set_flag d 1 0) 1 = Some d'
     \<and> disp_ok d' ((\<lambda>_. [])(1 := [1]))"
proof -
  obtain d where d: "setbackdq example_disp 1 = Some d" "disp_ok d ((\<lambda>_. [])(1 := [1]))" "same_frame example_disp d"
    using dq.setback_ok [OF example_disp_ok(1), of 1 1] by (auto simp: example_disp_ok idle_proc_def onq_def)
  have "schedulable (procs d 1)" "p_pri (procs d 1) = 1"
    using same_frame_schedulable [OF d(3)] same_frameD(2) [OF d(3)]
    by (simp_all add: example_disp_ok idle_proc_def schedulable_def)
  then show ?thesis
    using dq_srun_flag_change [OF d(2), of 1 1 0] d(1) by (auto simp: schedulable_def)
qed

end
