(* ===== verification/KQueue.thy ===== *)
theory KQueue
  imports KDisp
begin

text \<open>
  What the scheduling classes share as clients of the dispatcher: moving a process from its queue to
  the back of the queue of a new priority, and an account of which processes' priorities an operation
  may change and to which values.
\<close>

section \<open>Moving a process between queues\<close>

definition pri_ok :: "disp \<Rightarrow> procp \<Rightarrow> bool" where
  "pri_ok d p \<longleftrightarrow> 0 \<le> p_pri (procs d p) \<and> p_pri (procs d p) < int (npri d)"

definition removed :: "(nat \<Rightarrow> procp list) \<Rightarrow> procp \<Rightarrow> nat \<Rightarrow> procp list" where
  "removed Q p = (\<lambda>i. remove1 p (Q i))"

definition requeue :: "(nat \<Rightarrow> procp list) \<Rightarrow> procp \<Rightarrow> nat \<Rightarrow> nat \<Rightarrow> procp list" where
  "requeue Q p j = (removed Q p)(j := removed Q p j @ [p])"

lemma removed_id: "\<not> onq Q p \<Longrightarrow> removed Q p = Q"
  by (auto simp: removed_def onq_def fun_eq_iff remove1_idem)

lemma dispdeq_removed:
  assumes "disp_ok d Q" "pri_ok d p"
  shows "\<exists>d'. dispdeq d p = Some (onq Q p, d') \<and> disp_ok d' (removed Q p) \<and> \<not> onq (removed Q p) p \<and> same_frame d d'"
proof -
  obtain i where i: "p_pri (procs d p) = int i" "i < npri d"
    using assms(2) unfolding pri_ok_def by (metis nonneg_int_cases of_nat_less_iff)
  have "p \<notin> set (Q j)" if "j \<noteq> i" for j using dq.rep_pri [OF assms(1), of p j] i(1) that by auto
  then have "Q(i := remove1 p (Q i)) = removed Q p" by (auto simp: removed_def fun_eq_iff remove1_idem)
  with dq.deq_ok [OF assms(1) i] dq.removed_off [OF assms(1) i(1)] show ?thesis by metis
qed

lemma setbackdq_at:
  assumes "disp_ok d Q" "\<not> onq Q p" "p_pri (procs d p) = g" "0 \<le> g" "g < int (npri d)"
  shows "\<exists>d'. setbackdq d p = Some d' \<and> disp_ok d' (Q(nat g := Q (nat g) @ [p])) \<and> same_frame d d'"
  using dq.setback_ok [OF assms(1), of p "nat g"] assms by simp

lemma setfrontdq_at:
  assumes "disp_ok d Q" "\<not> onq Q p" "p_pri (procs d p) = g" "0 \<le> g" "g < int (npri d)"
  shows "\<exists>d'. setfrontdq d p = Some d' \<and> disp_ok d' (Q(nat g := p # Q (nat g))) \<and> same_frame d d'"
  using dq.setfront_ok [OF assms(1), of p "nat g"] assms by simp

lemma pri_ok_frame: "same_frame d d' \<Longrightarrow> pri_ok d' q \<longleftrightarrow> pri_ok d q"
  by (simp add: pri_ok_def same_frameD)

lemma pri_ok_set_pri: "pri_ok d q \<Longrightarrow> 0 \<le> g \<Longrightarrow> g < int (npri d) \<Longrightarrow> pri_ok (set_pri d p g) q"
  by (simp add: pri_ok_def disp_simps)

lemma pri_ok_simps [simp]: "pri_ok (d\<lparr>curpri := x\<rparr>) q = pri_ok d q" "pri_ok (d\<lparr>runrun := y\<rparr>) q = pri_ok d q"
  by (simp_all add: pri_ok_def)

text \<open>
  Taking a process off its queue, storing the priority \<open>g\<close> in it, and putting it on the back of its
  new queue. \<open>f\<close> is the store, together with any change of \<^verbatim>\<open>curpri\<close>, \<^verbatim>\<open>runrun\<close> and \<^verbatim>\<open>kprunrun\<close>.
\<close>

definition stores_pri :: "(disp \<Rightarrow> disp) \<Rightarrow> procp \<Rightarrow> int \<Rightarrow> bool" where
  "stores_pri f p g \<longleftrightarrow> (\<forall>d. (f d)\<lparr>curpri := 0, runrun := 0, kprunrun := 0\<rparr> = (set_pri d p g)\<lparr>curpri := 0, runrun := 0, kprunrun := 0\<rparr>)"

lemma disp_ok_kprunrun: "disp_ok (d\<lparr>kprunrun := b\<rparr>) Q = disp_ok d Q"
  by (simp add: disp_ok_def queues_def counts_def runnable_def)

lemma stores_priD:
  assumes "stores_pri f p g"
  shows "disp_ok (f d) Q = disp_ok (set_pri d p g) Q" "procs (f d) = procs (set_pri d p g)" "npri (f d) = npri d"
proof -
  have eq: "(f d)\<lparr>curpri := 0, runrun := 0, kprunrun := 0\<rparr> = (set_pri d p g)\<lparr>curpri := 0, runrun := 0, kprunrun := 0\<rparr>"
    using assms by (simp add: stores_pri_def)
  show "disp_ok (f d) Q = disp_ok (set_pri d p g) Q"
    using arg_cong [OF eq, of "\<lambda>x. disp_ok x Q"] by (simp add: disp_ok_flags disp_ok_kprunrun)
  show "procs (f d) = procs (set_pri d p g)" using arg_cong [OF eq, of procs] by simp
  show "npri (f d) = npri d" using arg_cong [OF eq, of npri] by (simp add: disp_simps)
qed

lemma requeue_ok:
  assumes "disp_ok d Q" "pri_ok d p" "0 \<le> g" "g < int (npri d)" "\<And>f. f \<in> F \<Longrightarrow> stores_pri f p g"
  shows "\<exists>d1. dispdeq d p = Some (onq Q p, d1) \<and> same_frame d d1 \<and> (\<forall>f\<in>F. disp_ok (f d1) (removed Q p)
     \<and> (\<exists>d3. setbackdq (f d1) p = Some d3 \<and> disp_ok d3 (requeue Q p (nat g)) \<and> same_frame (f d1) d3))"
proof -
  obtain d1 where d1: "dispdeq d p = Some (onq Q p, d1)" "disp_ok d1 (removed Q p)" "\<not> onq (removed Q p) p" "same_frame d d1"
    using dispdeq_removed [OF assms(1,2)] by blast
  have "disp_ok (f d1) (removed Q p)
     \<and> (\<exists>d3. setbackdq (f d1) p = Some d3 \<and> disp_ok d3 (requeue Q p (nat g)) \<and> same_frame (f d1) d3)" if "f \<in> F" for f
  proof -
    note st = stores_priD [OF assms(5) [OF that], of d1]
    have ok: "disp_ok (f d1) (removed Q p)" using st(1) disp_ok_set_pri [OF d1(2,3)] by simp
    have "p_pri (procs (f d1) p) = g" "g < int (npri (f d1))"
      using st(2,3) assms(4) same_frameD(4) [OF d1(4)] by (simp_all add: disp_simps)
    from setbackdq_at [OF ok d1(3) this(1) assms(3) this(2)] ok show ?thesis by (simp add: requeue_def)
  qed
  with d1 show ?thesis by blast
qed

lemma pri_ok_stored:
  assumes "stores_pri f p g" "same_frame d d1" "0 \<le> g" "g < int (npri d)" "pri_ok d q"
  shows "pri_ok (f d1) q"
  using assms stores_priD(2,3) [OF assms(1), of d1] same_frameD(2,4) [OF assms(2)]
  by (simp add: pri_ok_def disp_simps)

lemma disp_ok_pri_off: "disp_ok d Q \<Longrightarrow> \<not> onq Q p \<Longrightarrow> stores_pri f p g \<Longrightarrow> disp_ok (f d) Q"
  using stores_priD(1) disp_ok_set_pri by blast

lemma stores_pri_frame:
  assumes "stores_pri f p g" "curproc (f d) = curproc d"
  shows "p_stat (procs (f d) q) = p_stat (procs d q)" "p_flag (procs (f d) q) = p_flag (procs d q)"
  using stores_priD(2) [OF assms(1), of d] by (simp_all add: set_pri_def)

lemma onq_requeue: "onq Q p \<Longrightarrow> onq (requeue Q p j) q \<longleftrightarrow> onq Q q"
  by (cases "q = p") (auto simp: onq_def requeue_def removed_def)

definition off_queue :: "disp \<Rightarrow> procp \<Rightarrow> bool" where
  "off_queue d p \<longleftrightarrow> (\<forall>Q. disp_ok d Q \<longrightarrow> \<not> onq Q p)"

section \<open>Which priorities an operation changes\<close>

text \<open>
  \<open>moves S R d d'\<close>: from \<open>d\<close> to \<open>d'\<close> only processes of \<open>S\<close> change their priority, to values of \<open>R\<close>;
  states, flags, the number of queues and the running process stay.
\<close>

definition moves :: "procp set \<Rightarrow> int set \<Rightarrow> disp \<Rightarrow> disp \<Rightarrow> bool" where
  "moves S R d d' \<longleftrightarrow> npri d' = npri d \<and> curproc d' = curproc d
     \<and> (\<forall>q. p_stat (procs d' q) = p_stat (procs d q) \<and> p_flag (procs d' q) = p_flag (procs d q)
          \<and> (p_pri (procs d' q) = p_pri (procs d q) \<or> q \<in> S \<and> p_pri (procs d' q) \<in> R))"

lemma moves_refl [simp]: "moves S R d d"
  by (simp add: moves_def)

lemma moves_trans: "moves S R d d' \<Longrightarrow> moves S R d' d'' \<Longrightarrow> moves S R d d''"
  unfolding moves_def by metis

lemma moves_mono: "moves S R d d' \<Longrightarrow> S \<subseteq> S' \<Longrightarrow> R \<subseteq> R' \<Longrightarrow> moves S' R' d d'"
  unfolding moves_def by blast

lemma same_frame_moves: "same_frame d d' \<Longrightarrow> moves S R d d'"
  by (simp add: moves_def same_frameD)

lemma moves_set_pri: "p \<in> S \<Longrightarrow> g \<in> R \<Longrightarrow> moves S R d (set_pri d p g)"
  by (auto simp: moves_def set_pri_def)

lemma moves_flags [simp]:
  "moves S R d (d'\<lparr>runrun := x\<rparr>) = moves S R d d'" "moves S R d (d'\<lparr>kprunrun := x\<rparr>) = moves S R d d'"
  "moves S R d (d'\<lparr>curpri := y\<rparr>) = moves S R d d'"
  by (simp_all add: moves_def)

lemma moves_pri_ok:
  assumes "moves S R d d'" "\<forall>g\<in>R. 0 \<le> g \<and> g < int (npri d)" "pri_ok d q"
  shows "pri_ok d' q"
  using assms by (auto simp: moves_def pri_ok_def) metis+

text \<open>The queue operations change no priority.\<close>

lemma frame_counts: "same_frame d (d\<lparr>srunprocs := n\<rparr>)" "same_frame d (d\<lparr>dqactmap := m, maxrunpri := x\<rparr>)"
    "same_frame d (d\<lparr>dqactmap := m\<rparr>)"
  by (simp_all add: same_frame_def)

lemma dq_sruninc_frame:
  assumes "dq_sruninc d i = Some d'"
  shows "same_frame d d'"
proof -
  define e where "e = setdq (d\<lparr>srunprocs := srunprocs d + 1\<rparr>) i (dq_sruncnt_update (\<lambda>n. n + 1))"
  have e: "same_frame d e" unfolding e_def using same_frame_trans [OF frame_counts(1) same_frame_setdq] .
  have "d' = e \<or> (\<exists>m x. d' = e\<lparr>dqactmap := m, maxrunpri := x\<rparr>) \<or> (\<exists>m. d' = e\<lparr>dqactmap := m\<rparr>)"
    using assms unfolding dq_sruninc_def Let_def e_def [symmetric]
    by (auto simp: bind_eq_Some_conv split: if_split_asm)
  then show ?thesis using e same_frame_trans [OF e frame_counts(2)] same_frame_trans [OF e frame_counts(3)] by auto
qed

lemma dq_srundec_frame:
  assumes "dq_srundec d i = Some d'"
  shows "same_frame d d'"
proof -
  define e where "e = setdq (d\<lparr>srunprocs := srunprocs d - 1\<rparr>) i (dq_sruncnt_update (\<lambda>n. n - 1))"
  have e: "same_frame d e" unfolding e_def using same_frame_trans [OF frame_counts(1) same_frame_setdq] .
  have "d' = e \<or> (\<exists>m x. d' = e\<lparr>dqactmap := m, maxrunpri := x\<rparr>) \<or> (\<exists>m. d' = e\<lparr>dqactmap := m\<rparr>)"
    using assms unfolding dq_srundec_def Let_def e_def [symmetric]
    by (auto simp: bind_eq_Some_conv split: if_split_asm)
  then show ?thesis using e same_frame_trans [OF e frame_counts(2)] same_frame_trans [OF e frame_counts(3)] by auto
qed

lemma frame_enqueue:
  assumes "same_frame d e" "(if b then dq_sruninc e i else Some e) = Some d'"
  shows "same_frame d d'"
  using assms same_frame_trans [OF assms(1) dq_sruninc_frame] by (cases b) auto

lemma setbackdq_frame:
  assumes "setbackdq d p = Some d'"
  shows "same_frame d d'"
proof -
  from assms obtain dq where dq: "ird (dispq d) (p_pri (procs d p)) = Some dq" by (auto simp: setbackdq_def Let_def bind_eq_Some_conv)
  define e where "e = (case dq_last dq of
      None \<Rightarrow> setdq (setlink d p None) (p_pri (procs d p)) (\<lambda>q. q\<lparr>dq_first := Some p, dq_last := Some p\<rparr>)
    | Some l \<Rightarrow> setdq (setlink (setlink d p None) l (Some p)) (p_pri (procs d p)) (\<lambda>q. q\<lparr>dq_last := Some p\<rparr>))"
  have "same_frame d e"
    unfolding e_def by (auto simp: same_frame_def setlink_def setdq_def split: option.split)
  moreover have "(if schedulable (procs e p) then dq_sruninc e (p_pri (procs d p)) else Some e) = Some d'"
    using assms dq unfolding setbackdq_def Let_def by (cases "schedulable (procs e p)") (simp_all add: e_def [symmetric])
  ultimately show ?thesis by (rule frame_enqueue)
qed

lemma setfrontdq_frame:
  assumes "setfrontdq d p = Some d'"
  shows "same_frame d d'"
proof -
  from assms obtain dq where dq: "ird (dispq d) (p_pri (procs d p)) = Some dq" by (auto simp: setfrontdq_def Let_def bind_eq_Some_conv)
  define e where "e = (case dq_first dq of
      None \<Rightarrow> setdq (setlink d p None) (p_pri (procs d p)) (\<lambda>q. q\<lparr>dq_first := Some p, dq_last := Some p\<rparr>)
    | Some f \<Rightarrow> setdq (setlink d p (Some f)) (p_pri (procs d p)) (\<lambda>q. q\<lparr>dq_first := Some p\<rparr>))"
  have "same_frame d e"
    unfolding e_def by (auto simp: same_frame_def setlink_def setdq_def split: option.split)
  moreover have "(if schedulable (procs e p) then dq_sruninc e (p_pri (procs d p)) else Some e) = Some d'"
    using assms dq unfolding setfrontdq_def Let_def by (cases "schedulable (procs e p)") (simp_all add: e_def [symmetric])
  ultimately show ?thesis by (rule frame_enqueue)
qed

lemma dispdeq_frame: "dispdeq d p = Some (b, d') \<Longrightarrow> same_frame d d'"
  by (auto simp: dispdeq_def Let_def bind_eq_Some_conv split: option.splits if_splits
    dest!: dq_srundec_frame intro: same_frame_trans dq_unlink_frame)

lemmas queue_moves = same_frame_moves [OF setbackdq_frame] same_frame_moves [OF setfrontdq_frame] same_frame_moves [OF dispdeq_frame]

end
