(* ===== verification/KCred.thy ===== *)
theory KCred
  imports KPrelude "HOL-Library.Multiset"
begin

text \<open>
  Credentials, \<^verbatim>\<open>uts/i386/os/cred.c\<close>, and the permission structures of the System V IPC facilities,
  \<^verbatim>\<open>uts/i386/os/ipc.c\<close>: allocation and reference counting of credential structures, the super-user,
  group and process permission tests, the access check \<^verbatim>\<open>ipcaccess\<close> and the key lookup \<^verbatim>\<open>ipcget\<close>.
\<close>

section \<open>Credentials\<close>

record cred =
  cr_ref :: int
  cr_ngroups :: nat
  cr_uid :: int
  cr_gid :: int
  cr_ruid :: int
  cr_rgid :: int
  cr_suid :: int
  cr_sgid :: int
  cr_groups :: "int list"

type_synonym credp = nat

text \<open>
  The allocator's state: the structures by address, the free list (linked in the source through the
  first word of the free structures) and the number in use. The address \<^verbatim>\<open>kmem_alloc\<close> returns when
  the free list is empty is an argument of the operations that allocate.
\<close>

record credtab =
  creds :: "credp \<Rightarrow> cred"
  crfreelist :: "credp list"
  cractive :: int

definition cred_init :: "credtab \<Rightarrow> credtab" where
  "cred_init t = t\<lparr>cractive := 0, crfreelist := []\<rparr>"

text \<open>\<^verbatim>\<open>struct_zero\<close> clears the fixed part of the structure, which holds the first group only.\<close>

definition cr_zero :: "cred \<Rightarrow> cred" where
  "cr_zero c = \<lparr>cr_ref = 0, cr_ngroups = 0, cr_uid = 0, cr_gid = 0, cr_ruid = 0, cr_rgid = 0,
     cr_suid = 0, cr_sgid = 0, cr_groups = (case cr_groups c of [] \<Rightarrow> [] | _ # gs \<Rightarrow> 0 # gs)\<rparr>"

definition crhold :: "credtab \<Rightarrow> credp \<Rightarrow> credtab" where
  "crhold t c = t\<lparr>creds := (creds t)(c := (creds t c)\<lparr>cr_ref := u16 (cr_ref (creds t c) + 1)\<rparr>)\<rparr>"

definition crget :: "credp \<Rightarrow> credtab \<Rightarrow> credp \<times> credtab" where
  "crget new t =
    (let (c, t) = (case crfreelist t of
           f # fs \<Rightarrow> (f, t\<lparr>crfreelist := fs\<rparr>)
         | [] \<Rightarrow> (new, t));
         t = t\<lparr>creds := (creds t)(c := cr_zero (creds t c))\<rparr>;
         t = crhold t c
     in (c, t\<lparr>cractive := cractive t + 1\<rparr>))"

definition crfree :: "credtab \<Rightarrow> credp \<Rightarrow> credtab" where
  "crfree t c =
    (let r = u16 (cr_ref (creds t c) - 1);
         t = t\<lparr>creds := (creds t)(c := (creds t c)\<lparr>cr_ref := r\<rparr>)\<rparr>
     in if r \<noteq> 0 then t else t\<lparr>crfreelist := c # crfreelist t, cractive := cractive t - 1\<rparr>)"

definition crcopy :: "credp \<Rightarrow> credtab \<Rightarrow> credp \<Rightarrow> credp \<times> credtab" where
  "crcopy new t cr =
    (let (newcr, t) = crget new t;
         t = t\<lparr>creds := (creds t)(newcr := creds t cr)\<rparr>;
         t = crfree t cr
     in (newcr, t\<lparr>creds := (creds t)(newcr := (creds t newcr)\<lparr>cr_ref := 1\<rparr>)\<rparr>))"

definition crdup :: "credp \<Rightarrow> credtab \<Rightarrow> credp \<Rightarrow> credp \<times> credtab" where
  "crdup new t cr =
    (let (newcr, t) = crget new t;
         t = t\<lparr>creds := (creds t)(newcr := creds t cr)\<rparr>
     in (newcr, t\<lparr>creds := (creds t)(newcr := (creds t newcr)\<lparr>cr_ref := 1\<rparr>)\<rparr>))"

text \<open>
  \<^verbatim>\<open>suser\<close> answers the question and sets an accounting flag in the caller's user block;
  \<open>suser_acflag\<close> is that effect (\<^verbatim>\<open>ASU\<close> is 2). The callers modelled elsewhere use the answer only.
\<close>

definition suser :: "cred \<Rightarrow> bool" where
  "suser cr \<longleftrightarrow> cr_uid cr = 0"

definition suser_acflag :: "cred \<Rightarrow> u32 \<Rightarrow> u32" where
  "suser_acflag cr acflag = (if cr_uid cr = 0 then acflag OR 2 else acflag)"

text \<open>The loop over the supplementary groups, with \<open>n\<close> of them left.\<close>

fun groupscan :: "int \<Rightarrow> int list \<Rightarrow> nat \<Rightarrow> bool option" where
  "groupscan gid gp 0 = Some False"
| "groupscan gid [] (Suc n) = None"
| "groupscan gid (g # gp) (Suc n) = (if g = gid then Some True else groupscan gid gp n)"

definition groupmember :: "int \<Rightarrow> cred \<Rightarrow> bool option" where
  "groupmember gid cr =
    (if gid = cr_gid cr then Some True else groupscan gid (cr_groups cr) (cr_ngroups cr))"

definition hasprocperm :: "cred \<Rightarrow> cred \<Rightarrow> bool" where
  "hasprocperm tcr scr \<longleftrightarrow> cr_uid scr = 0 \<or> cr_uid scr = cr_ruid tcr \<or> cr_ruid scr = cr_ruid tcr
     \<or> cr_uid scr = cr_suid tcr \<or> cr_ruid scr = cr_suid tcr"

section \<open>IPC permissions\<close>

record ipc_perm =
  uid :: int
  gid :: int
  cuid :: int
  cgid :: int
  mode :: u32
  seq :: nat
  key :: int

abbreviation IPC_ALLOC :: u32 where "IPC_ALLOC \<equiv> 0x8000"
abbreviation IPC_CREAT :: u32 where "IPC_CREAT \<equiv> 0x200"
abbreviation IPC_EXCL :: u32 where "IPC_EXCL \<equiv> 0x400"
abbreviation IPC_NOWAIT :: u32 where "IPC_NOWAIT \<equiv> 0x800"

definition ipcaccess :: "ipc_perm \<Rightarrow> u32 \<Rightarrow> cred \<Rightarrow> errno option option" where
  "ipcaccess p md cr =
    (if cr_uid cr = 0 then Some None
     else do {
       md \<leftarrow> (if cr_uid cr \<noteq> uid p \<and> cr_uid cr \<noteq> cuid p then do {
                let md = drop_bit 3 md;
                g \<leftarrow> groupmember (gid p) cr;
                if g then Some md
                else do { h \<leftarrow> groupmember (cgid p) cr; Some (if h then md else drop_bit 3 md) } }
              else Some md);
       Some (if md AND mode p \<noteq> 0 then None else Some EACCES) })"

text \<open>
  \<^verbatim>\<open>ipcget\<close>: the first loop looks for an entry that is not allocated, the second for the key,
  remembering the first entry not allocated in \<open>a\<close>. A result is the status word and the index of the
  entry.
\<close>

fun ipc_free :: "nat \<Rightarrow> ipc_perm list \<Rightarrow> nat option" where
  "ipc_free i [] = None"
| "ipc_free i (b # bs) = (if mode b AND IPC_ALLOC \<noteq> 0 then ipc_free (Suc i) bs else Some i)"

datatype ipc_found = Fail errno | Found nat | NotFound "nat option"

fun ipc_lookup :: "int \<Rightarrow> u32 \<Rightarrow> nat \<Rightarrow> nat option \<Rightarrow> ipc_perm list \<Rightarrow> ipc_found" where
  "ipc_lookup k flag i a [] = NotFound a"
| "ipc_lookup k flag i a (b # bs) =
    (if mode b AND IPC_ALLOC \<noteq> 0 then
       if key b = k then
         if flag AND (IPC_CREAT OR IPC_EXCL) = IPC_CREAT OR IPC_EXCL then Fail EEXIST
         else if flag AND 0x1ff AND NOT (mode b) \<noteq> 0 then Fail EACCES
         else Found i
       else ipc_lookup k flag (Suc i) a bs
     else ipc_lookup k flag (Suc i) (if a = None then Some i else a) bs)"

definition ipc_init :: "int \<Rightarrow> u32 \<Rightarrow> cred \<Rightarrow> ipc_perm \<Rightarrow> ipc_perm" where
  "ipc_init k flag cr b = b\<lparr>mode := IPC_ALLOC OR (flag AND 0x1ff), key := k,
     cuid := cr_uid cr, uid := cr_uid cr, cgid := cr_gid cr, gid := cr_gid cr\<rparr>"

definition ipcget :: "int \<Rightarrow> u32 \<Rightarrow> cred \<Rightarrow> ipc_perm list \<Rightarrow> errno + (bool \<times> nat \<times> ipc_perm list)" where
  "ipcget k flag cr tab =
    (if k = 0 then
       (case ipc_free 0 tab of None \<Rightarrow> Inl ENOSPC
        | Some i \<Rightarrow> Inr (True, i, tab[i := ipc_init k flag cr (tab ! i)]))
     else
       (case ipc_lookup k flag 0 None tab of
          Fail e \<Rightarrow> Inl e
        | Found i \<Rightarrow> Inr (False, i, tab)
        | NotFound a \<Rightarrow>
            if flag AND IPC_CREAT = 0 then Inl ENOENT
            else (case a of None \<Rightarrow> Inl ENOSPC
                  | Some i \<Rightarrow> Inr (True, i, tab[i := ipc_init k flag cr (tab ! i)]))))"

text \<open>What the system calls of the IPC facilities use of the calling process, and their limits.\<close>

record ucall =
  u_slot :: nat
  u_pid :: int
  u_cred :: cred

abbreviation MAXUID :: int where "MAXUID \<equiv> 60002"
abbreviation INT16_MAX :: int where "INT16_MAX \<equiv> 32767"

section \<open>Reference counts\<close>

text \<open>
  \<open>H\<close> is the multiset of references held to credential structures, one element per pointer that has
  been counted. The invariant ties the reference counts, the free list and the active count to it.
\<close>

definition cr_inv :: "credtab \<Rightarrow> credp multiset \<Rightarrow> bool" where
  "cr_inv t H \<longleftrightarrow> (\<forall>c\<in>set_mset H. cr_ref (creds t c) = int (count H c) \<and> count H c < 65536)
     \<and> distinct (crfreelist t) \<and> set (crfreelist t) \<inter> set_mset H = {} \<and> cractive t = int (card (set_mset H))"

lemma cr_invD:
  assumes "cr_inv t H"
  shows "c \<in># H \<Longrightarrow> cr_ref (creds t c) = int (count H c)" "count H c < 65536" "distinct (crfreelist t)"
    "set (crfreelist t) \<inter> set_mset H = {}" "cractive t = int (card (set_mset H))"
  using assms by (cases "c \<in># H"; simp add: cr_inv_def not_in_iff)+

text \<open>\<open>fresh_cred t H new\<close>: the address is one the allocator may return.\<close>

definition fresh_cred :: "credtab \<Rightarrow> credp multiset \<Rightarrow> credp \<Rightarrow> bool" where
  "fresh_cred t H new \<longleftrightarrow> new \<notin># H \<and> new \<notin> set (crfreelist t)"

lemma crget_spec:
  assumes "cr_inv t H" "fresh_cred t H new" "crget new t = (c, t')"
  shows "c \<notin># H" "cr_inv t' (add_mset c H)" "\<And>x. x \<noteq> c \<Longrightarrow> creds t' x = creds t x" "cr_ref (creds t' c) = 1"
proof -
  note inv = cr_invD [OF assms(1)]
  obtain fs where c: "c \<notin># H" "crfreelist t' = fs" "distinct fs" "set fs \<inter> set_mset H = {}" "c \<notin> set fs"
      "creds t' = (creds t)(c := (cr_zero (creds t c))\<lparr>cr_ref := 1\<rparr>)" "cractive t' = cractive t + 1"
    using assms(2,3) inv(3,4)
    by (cases "crfreelist t") (auto simp: crget_def crhold_def fresh_cred_def cr_zero_def u16_def Let_def)
  show "c \<notin># H" "\<And>x. x \<noteq> c \<Longrightarrow> creds t' x = creds t x" "cr_ref (creds t' c) = 1" using c(1,6) by simp_all
  show "cr_inv t' (add_mset c H)"
    using c inv assms(1) by (auto simp: cr_inv_def not_in_iff)
qed

lemma crhold_spec:
  assumes "cr_inv t H" "c \<in># H" "count H c < 65535"
  shows "cr_inv (crhold t c) (add_mset c H)"
  using assms by (auto simp: cr_inv_def crhold_def u16_def insert_absorb)

lemma crfree_spec:
  assumes "cr_inv t H" "c \<in># H"
  shows "cr_inv (crfree t c) (H - {#c#})"
    and "\<And>x. creds (crfree t c) x = (if x = c then (creds t c)\<lparr>cr_ref := int (count H c) - 1\<rparr> else creds t x)"
    and "c \<in> set (crfreelist (crfree t c)) \<longleftrightarrow> count H c = 1"
proof -
  note inv = cr_invD [OF assms(1)]
  have pos: "0 < count H c" using assms(2) by (simp add: count_greater_zero_iff)
  have r: "u16 (cr_ref (creds t c) - 1) = int (count H c) - 1"
    using inv(1) [OF assms(2)] inv(2) [of c] pos by (simp add: u16_def)
  have zero: "int (count H c) - 1 = 0 \<longleftrightarrow> count H c = 1" by linarith
  have two: "count H c \<noteq> 1 \<Longrightarrow> Suc 0 < count H c" using pos by linarith
  have set: "set_mset (H - {#c#}) = (if count H c = 1 then set_mset H - {c} else set_mset H)"
  proof (rule set_eqI)
    fix x
    show "x \<in> set_mset (H - {#c#}) \<longleftrightarrow> x \<in> (if count H c = 1 then set_mset H - {c} else set_mset H)"
      using two assms(2) by (cases "x = c"; cases "count H c = 1") (simp_all add: in_diff_count)
  qed
  show "\<And>x. creds (crfree t c) x = (if x = c then (creds t c)\<lparr>cr_ref := int (count H c) - 1\<rparr> else creds t x)"
    by (simp add: crfree_def Let_def r)
  show "c \<in> set (crfreelist (crfree t c)) \<longleftrightarrow> count H c = 1"
    using inv(4) assms(2) by (auto simp: crfree_def Let_def r zero)
  have off: "c \<notin> set (crfreelist t)" using inv(4) assms(2) by blast
  have cd: "card (set_mset H - {c}) = card (set_mset H) - 1" "0 < card (set_mset H)"
    using assms(2) by (auto simp: card_gt_0_iff)
  show "cr_inv (crfree t c) (H - {#c#})"
  proof (cases "count H c = 1")
    case True
    then have "crfree t c = t\<lparr>creds := (creds t)(c := (creds t c)\<lparr>cr_ref := 0\<rparr>),
        crfreelist := c # crfreelist t, cractive := cractive t - 1\<rparr>"
      by (simp add: crfree_def Let_def r)
    with True inv off cd show ?thesis unfolding cr_inv_def set by auto
  next
    case False
    then have "crfree t c = t\<lparr>creds := (creds t)(c := (creds t c)\<lparr>cr_ref := int (count H c) - 1\<rparr>)\<rparr>"
      by (simp add: crfree_def Let_def r)
    moreover have "count (H - {#c#}) x < 65536" for x using inv(2) [of x] by simp
    ultimately show ?thesis using False inv pos unfolding cr_inv_def set by auto
  qed
qed

section \<open>Permissions\<close>

lemma groupscan_spec: "n \<le> length gp \<Longrightarrow> groupscan g gp n = Some (g \<in> set (take n gp))"
  by (induction g gp n rule: groupscan.induct) auto

lemma groupmember_spec:
  "cr_ngroups cr \<le> length (cr_groups cr) \<Longrightarrow>
   groupmember g cr = Some (g = cr_gid cr \<or> g \<in> set (take (cr_ngroups cr) (cr_groups cr)))"
  by (auto simp: groupmember_def groupscan_spec)

definition in_group :: "int \<Rightarrow> cred \<Rightarrow> bool" where
  "in_group g cr \<longleftrightarrow> g = cr_gid cr \<or> g \<in> set (take (cr_ngroups cr) (cr_groups cr))"

definition cred_ok :: "cred \<Rightarrow> bool" where
  "cred_ok cr \<longleftrightarrow> cr_ngroups cr \<le> length (cr_groups cr)"

lemma ipcaccess_total: "cred_ok cr \<Longrightarrow> \<exists>e. ipcaccess p m cr = Some e"
  by (simp add: ipcaccess_def cred_ok_def groupmember_spec Let_def)

text \<open>The permission class of a requester: 0 the owner or creator, 1 a member of a group, 2 others.\<close>

definition perm_class :: "ipc_perm \<Rightarrow> cred \<Rightarrow> nat" where
  "perm_class p cr =
    (if cr_uid cr = uid p \<or> cr_uid cr = cuid p then 0
     else if in_group (gid p) cr \<or> in_group (cgid p) cr then 1 else 2)"

lemma and_single_bit: "push_bit n (1 :: u32) AND w = 0 \<longleftrightarrow> \<not> (n < 32 \<and> bit w n)"
  using and_nonzero_iff [of "push_bit n 1" w] by (auto simp: bit_simps)

lemma drop_push: "3 \<le> n \<Longrightarrow> n < 32 \<Longrightarrow> drop_bit 3 (push_bit n (1 :: u32)) = push_bit (n - 3) 1"
  by (rule bit_eqI) (auto simp: bit_simps)

lemma ipcaccess_class:
  assumes "cr_ngroups cr \<le> length (cr_groups cr)" "6 \<le> n" "n < 32"
  shows "ipcaccess p (push_bit n 1) cr =
    Some (if cr_uid cr = 0 \<or> bit (mode p) (n - 3 * perm_class p cr) then None else Some EACCES)"
proof (cases "cr_uid cr = 0")
  case True
  then show ?thesis by (simp add: ipcaccess_def)
next
  case False
  have gm: "groupmember g cr = Some (in_group g cr)" for g
    using groupmember_spec [OF assms(1)] by (simp add: in_group_def)
  have "ipcaccess p (push_bit n 1) cr =
      Some (if push_bit (n - 3 * perm_class p cr) 1 AND mode p \<noteq> 0 then None else Some EACCES)"
    using False drop_push [of n] drop_push [of "n - 3"] assms(2,3)
    by (auto simp: ipcaccess_def gm perm_class_def Let_def simp del: push_bit_of_1)
  moreover have "n - 3 * perm_class p cr < 32" using assms(3) by linarith
  ultimately show ?thesis using False by (simp add: and_single_bit del: push_bit_of_1)
qed

section \<open>Keys\<close>

definition allocd :: "ipc_perm \<Rightarrow> bool" where
  "allocd b \<longleftrightarrow> mode b AND IPC_ALLOC \<noteq> 0"

text \<open>Two allocated entries of a table never have the same key, private keys apart.\<close>

definition keys_unique :: "ipc_perm list \<Rightarrow> bool" where
  "keys_unique tab \<longleftrightarrow> (\<forall>i<length tab. \<forall>j<length tab.
     i \<noteq> j \<and> allocd (tab ! i) \<and> allocd (tab ! j) \<and> key (tab ! i) \<noteq> 0 \<longrightarrow> key (tab ! i) \<noteq> key (tab ! j))"

lemma ipc_free_None: "ipc_free i tab = None \<longleftrightarrow> (\<forall>b\<in>set tab. allocd b)"
  by (induction i tab rule: ipc_free.induct) (auto simp: allocd_def)

lemma ipc_free_Some: "ipc_free i tab = Some k \<Longrightarrow> \<exists>n. k = i + n \<and> n < length tab \<and> \<not> allocd (tab ! n)"
proof (induction i tab rule: ipc_free.induct)
  case (1 i)
  then show ?case by simp
next
  case (2 i b bs)
  show ?case
  proof (cases "allocd b")
    case True
    with 2 obtain n where "k = Suc i + n" "n < length bs" "\<not> allocd (bs ! n)" by (auto simp: allocd_def)
    then show ?thesis by (intro exI [of _ "Suc n"]) simp
  next
    case False
    with "2.prems" show ?thesis by (intro exI [of _ 0]) (simp add: allocd_def)
  qed
qed

definition has_key :: "int \<Rightarrow> ipc_perm list \<Rightarrow> bool" where
  "has_key k tab \<longleftrightarrow> (\<exists>b\<in>set tab. allocd b \<and> key b = k)"

text \<open>What the search for a key finds, by the first allocated entry that has it.\<close>

lemma ipc_lookup_hit:
  assumes "ys = xs @ b # zs" "allocd b" "key b = k" "\<not> has_key k xs"
  shows "ipc_lookup k flag i a ys =
    (if flag AND (IPC_CREAT OR IPC_EXCL) = IPC_CREAT OR IPC_EXCL then Fail EEXIST
     else if flag AND 0x1ff AND NOT (mode b) \<noteq> 0 then Fail EACCES else Found (i + length xs))"
  using assms
proof (induction xs arbitrary: ys i a)
  case Nil
  then show ?case by (simp add: allocd_def)
next
  case (Cons x xs)
  then show ?case by (auto simp: has_key_def allocd_def)
qed

lemma ipc_lookup_miss:
  "\<not> has_key k tab \<Longrightarrow> ipc_lookup k flag i a tab = NotFound (if a = None then ipc_free i tab else a)"
  by (induction k flag i a tab rule: ipc_lookup.induct) (auto simp: has_key_def allocd_def)

lemma has_key_split:
  assumes "has_key k tab"
  obtains xs b zs where "tab = xs @ b # zs" "allocd b" "key b = k" "\<not> has_key k xs"
  using split_list_first_prop [of tab "\<lambda>b. allocd b \<and> key b = k"] assms unfolding has_key_def by blast

lemma allocd_init: "allocd (ipc_init k flag cr b)"
proof -
  have "bit (IPC_ALLOC OR (flag AND 0x1ff)) 15" by (simp add: bit_or_iff)
  moreover have "bit (IPC_ALLOC :: u32) 15" by simp
  ultimately have "(IPC_ALLOC OR (flag AND 0x1ff)) AND IPC_ALLOC \<noteq> 0"
    by (subst and_nonzero_iff) (intro exI [of _ 15], simp)
  then show ?thesis by (simp add: allocd_def ipc_init_def)
qed

lemma ipc_init_sel [simp]:
  "key (ipc_init k flag cr b) = k" "uid (ipc_init k flag cr b) = cr_uid cr" "cuid (ipc_init k flag cr b) = cr_uid cr"
  by (simp_all add: ipc_init_def)

lemma keys_unique_init:
  assumes "keys_unique tab" "i < length tab" "k = 0 \<or> \<not> has_key k tab"
  shows "keys_unique (tab[i := ipc_init k flag cr (tab ! i)])"
proof -
  have "key (tab ! j) \<noteq> k" if "k \<noteq> 0" "j < length tab" "allocd (tab ! j)" for j
    using assms(3) that by (auto simp: has_key_def)
  with assms(1) show ?thesis
    unfolding keys_unique_def by (simp add: nth_upd) (auto simp: ipc_init_def)
qed

section \<open>Properties\<close>

lemma crcopy_spec:
  assumes "cr_inv t H" "fresh_cred t H new" "cr \<in># H" "crcopy new t cr = (newcr, t')"
  shows "newcr \<notin># H \<and> cr_inv t' (add_mset newcr (H - {#cr#}))
     \<and> creds t' newcr = (creds t cr)\<lparr>cr_ref := 1\<rparr>
     \<and> (cr \<in> set (crfreelist t') \<longleftrightarrow> count H cr = 1)
     \<and> (\<forall>x. x \<noteq> newcr \<and> x \<noteq> cr \<longrightarrow> creds t' x = creds t x)"
proof -
  obtain t1 where get: "crget new t = (newcr, t1)" using assms(4) by (auto simp: crcopy_def Let_def split: prod.splits)
  note g = crget_spec [OF assms(1,2) get]
  have ne: "cr \<noteq> newcr" using g(1) assms(3) by blast
  let ?t2 = "t1\<lparr>creds := (creds t1)(newcr := creds t1 cr)\<rparr>"
  let ?t2' = "t1\<lparr>creds := (creds t1)(newcr := (creds t1 cr)\<lparr>cr_ref := 1\<rparr>)\<rparr>"
  have cnt: "count (add_mset newcr H) newcr = 1" using g(1) by (simp add: not_in_iff)
  have inv2: "cr_inv ?t2' (add_mset newcr H)"
    using g(2) cnt unfolding cr_inv_def by auto
  have t': "t' = (crfree ?t2 cr)\<lparr>creds := (creds (crfree ?t2 cr))(newcr := (creds (crfree ?t2 cr) newcr)\<lparr>cr_ref := 1\<rparr>)\<rparr>"
    using assms(4) get by (simp add: crcopy_def Let_def)
  also have "\<dots> = crfree ?t2' cr" using ne by (simp add: crfree_def Let_def fun_upd_twist)
  finally have t'2: "t' = crfree ?t2' cr" .
  have mem: "cr \<in># add_mset newcr H" using assms(3) by simp
  note f = crfree_spec [OF inv2 mem]
  have "add_mset newcr H - {#cr#} = add_mset newcr (H - {#cr#})" using ne by simp
  with f g ne show ?thesis unfolding t'2 by auto
qed

lemma crdup_spec:
  assumes "cr_inv t H" "fresh_cred t H new" "cr \<in># H" "crdup new t cr = (newcr, t')"
  shows "newcr \<notin># H \<and> cr_inv t' (add_mset newcr H) \<and> creds t' newcr = (creds t cr)\<lparr>cr_ref := 1\<rparr>
     \<and> (\<forall>x. x \<noteq> newcr \<longrightarrow> creds t' x = creds t x)"
proof -
  obtain t1 where get: "crget new t = (newcr, t1)" using assms(4) by (auto simp: crdup_def Let_def split: prod.splits)
  note g = crget_spec [OF assms(1,2) get]
  have t': "t' = t1\<lparr>creds := (creds t1)(newcr := (creds t1 cr)\<lparr>cr_ref := 1\<rparr>)\<rparr>"
    using assms(4) get by (simp add: crdup_def Let_def)
  have ne: "cr \<noteq> newcr" using g(1) assms(3) by blast
  have cnt: "count (add_mset newcr H) newcr = 1" using g(1) by (simp add: not_in_iff)
  have "cr_inv t' (add_mset newcr H)" using g(2) cnt unfolding t' cr_inv_def by auto
  with g ne show ?thesis unfolding t' by auto
qed

text \<open>
  C32: the counts of the credential structures follow the references held to them, through every
  operation that makes or drops one. With \<open>H\<close> the references held: \<^verbatim>\<open>crget\<close> returns a structure to
  which no reference is held, with count 1, so one reference more; \<^verbatim>\<open>crhold\<close> counts one reference
  more to a structure in use; \<^verbatim>\<open>crfree\<close> counts one less and puts the structure on the free list
  exactly when it was the last; \<^verbatim>\<open>crcopy\<close> gives up the caller's reference to the old structure and
  returns an unreferenced one with the old contents and count 1; \<^verbatim>\<open>crdup\<close> does the same and keeps the
  old reference. In each case the other structures are untouched, the free list holds no structure
  with a reference, and the number in use is the number of structures referenced. The address
  \<^verbatim>\<open>kmem_alloc\<close> may return is one that is neither in use nor on the free list; a structure has fewer
  than 65535 references when one is added, which is what the 16-bit count can hold.
\<close>

theorem cred_refcounts:
  assumes "cr_inv t H" "fresh_cred t H new"
  shows "(\<forall>c t'. crget new t = (c, t') \<longrightarrow>
            c \<notin># H \<and> cr_ref (creds t' c) = 1 \<and> cr_inv t' (add_mset c H)
            \<and> (\<forall>x. x \<noteq> c \<longrightarrow> creds t' x = creds t x))
       \<and> (\<forall>c. c \<in># H \<and> count H c < 65535 \<longrightarrow>
            cr_inv (crhold t c) (add_mset c H) \<and> (\<forall>x. x \<noteq> c \<longrightarrow> creds (crhold t c) x = creds t x))
       \<and> (\<forall>c. c \<in># H \<longrightarrow>
            cr_inv (crfree t c) (H - {#c#}) \<and> (c \<in> set (crfreelist (crfree t c)) \<longleftrightarrow> count H c = 1)
            \<and> (\<forall>x. x \<noteq> c \<longrightarrow> creds (crfree t c) x = creds t x))
       \<and> (\<forall>cr newcr t'. cr \<in># H \<and> crcopy new t cr = (newcr, t') \<longrightarrow>
            newcr \<notin># H \<and> cr_inv t' (add_mset newcr (H - {#cr#}))
            \<and> creds t' newcr = (creds t cr)\<lparr>cr_ref := 1\<rparr> \<and> (cr \<in> set (crfreelist t') \<longleftrightarrow> count H cr = 1)
            \<and> (\<forall>x. x \<noteq> newcr \<and> x \<noteq> cr \<longrightarrow> creds t' x = creds t x))
       \<and> (\<forall>cr newcr t'. cr \<in># H \<and> crdup new t cr = (newcr, t') \<longrightarrow>
            newcr \<notin># H \<and> cr_inv t' (add_mset newcr H) \<and> creds t' newcr = (creds t cr)\<lparr>cr_ref := 1\<rparr>
            \<and> (\<forall>x. x \<noteq> newcr \<longrightarrow> creds t' x = creds t x))"
proof (intro conjI allI impI; (elim conjE)?)
  fix c t' x assume get: "crget new t = (c, t')"
  note g = crget_spec [OF assms get]
  show "c \<notin># H" "cr_ref (creds t' c) = 1" "cr_inv t' (add_mset c H)" using g by blast+
  show "x \<noteq> c \<Longrightarrow> creds t' x = creds t x" by (rule g(3))
next
  fix c x assume "c \<in># H" "count H c < 65535"
  then show "cr_inv (crhold t c) (add_mset c H)" by (rule crhold_spec [OF assms(1)])
  show "x \<noteq> c \<Longrightarrow> creds (crhold t c) x = creds t x" by (simp add: crhold_def)
next
  fix c x assume c: "c \<in># H"
  note f = crfree_spec [OF assms(1) c]
  show "cr_inv (crfree t c) (H - {#c#})" "c \<in> set (crfreelist (crfree t c)) \<longleftrightarrow> count H c = 1" by (rule f)+
  show "x \<noteq> c \<Longrightarrow> creds (crfree t c) x = creds t x" by (simp add: f(2))
qed (use crcopy_spec [OF assms] crdup_spec [OF assms] in blast)+

definition example_cred :: "int \<Rightarrow> cred" where
  "example_cred u = \<lparr>cr_ref = 1, cr_ngroups = 1, cr_uid = u, cr_gid = 20, cr_ruid = u, cr_rgid = 20,
     cr_suid = u, cr_sgid = 20, cr_groups = [7, 0]\<rparr>"

definition example_credtab :: credtab where
  "example_credtab = \<lparr>creds = (\<lambda>_. example_cred 101), crfreelist = [4], cractive = 1\<rparr>"

theorem cred_refcounts_witness:
  "(\<exists>t'. crget 9 example_credtab = (4, t') \<and> cr_ref (creds t' 4) = 1 \<and> cr_inv t' {#3, 4#})
   \<and> (\<exists>t'. crcopy 9 example_credtab 3 = (4, t') \<and> creds t' 4 = example_cred 101 \<and> 3 \<in> set (crfreelist t'))"
proof -
  have inv: "cr_inv example_credtab {#3#}" "fresh_cred example_credtab {#3#} 9"
    by (auto simp: cr_inv_def fresh_cred_def example_credtab_def example_cred_def)
  note all = cred_refcounts [OF inv]
  obtain t1 t2 where t: "crget 9 example_credtab = (4, t1)" "crcopy 9 example_credtab 3 = (4, t2)"
    by (simp add: crcopy_def crget_def example_credtab_def Let_def crhold_def)
  have "{#3, 4::nat#} = add_mset 4 {#3#}" by simp
  then have "cr_ref (creds t1 4) = 1 \<and> cr_inv t1 {#3, 4#}" using all t(1) by metis
  moreover have "creds t2 4 = (creds example_credtab 3)\<lparr>cr_ref := 1\<rparr> \<and> 3 \<in> set (crfreelist t2)"
    using all t(2) by auto
  ultimately show ?thesis using t by (simp add: example_credtab_def example_cred_def)
qed

text \<open>
  For a single permission bit of the owner class or above (as \<^verbatim>\<open>SEM_A\<close>, \<^verbatim>\<open>MSG_R\<close>), \<^verbatim>\<open>ipcaccess\<close>
  grants access exactly to the super-user and to those whose class has the bit: the owner or creator
  the bit itself, members of the owner's or creator's group the bit three places lower, everyone else
  the bit six places lower. A requester in a more specific class never falls back on another class.
\<close>

theorem ipcaccess_correct:
  assumes "cr_ngroups cr \<le> length (cr_groups cr)" "6 \<le> n" "n < 32"
  shows "ipcaccess p (push_bit n 1) cr =
    Some (if cr_uid cr = 0 \<or> bit (mode p) (n - 3 * perm_class p cr) then None else Some EACCES)"
  by (rule ipcaccess_class [OF assms])

theorem ipcaccess_correct_witness:
  "ipcaccess \<lparr>uid = 5, gid = 7, cuid = 5, cgid = 7, mode = 0x81a0, seq = 0, key = 1\<rparr> (push_bit 8 1) (example_cred 101) = Some None"
  using ipcaccess_correct [of "example_cred 101" 8 "\<lparr>uid = 5, gid = 7, cuid = 5, cgid = 7, mode = 0x81a0, seq = 0, key = 1\<rparr>"]
  by (simp add: example_cred_def perm_class_def in_group_def)

lemma keys_unique_upd:
  assumes "keys_unique tab" "\<not> allocd d"
  shows "keys_unique (tab[k := d])"
  using assms unfolding keys_unique_def by (auto simp: nth_upd split: if_splits)

lemma ipcget_spec:
  assumes "keys_unique tab"
  shows "case ipcget k flag cr tab of
      Inr (created, i, tab') \<Rightarrow>
        i < length tab \<and> keys_unique tab' \<and> length tab' = length tab \<and> allocd (tab' ! i) \<and> key (tab' ! i) = k
        \<and> (\<forall>j. j \<noteq> i \<longrightarrow> tab' ! j = tab ! j)
        \<and> seq (tab' ! i) = seq (tab ! i)
        \<and> (created \<longrightarrow> \<not> allocd (tab ! i) \<and> uid (tab' ! i) = cr_uid cr \<and> cuid (tab' ! i) = cr_uid cr
             \<and> (k = 0 \<or> \<not> has_key k tab \<and> flag AND IPC_CREAT \<noteq> 0))
        \<and> (\<not> created \<longrightarrow> tab' = tab \<and> k \<noteq> 0 \<and> flag AND 0x1ff AND NOT (mode (tab ! i)) = 0)
    | Inl e \<Rightarrow> (e = ENOSPC \<and> (\<forall>b\<in>set tab. allocd b))
        \<or> (e = ENOENT \<and> k \<noteq> 0 \<and> \<not> has_key k tab \<and> flag AND IPC_CREAT = 0)
        \<or> (e = EEXIST \<and> has_key k tab \<and> flag AND (IPC_CREAT OR IPC_EXCL) = IPC_CREAT OR IPC_EXCL)
        \<or> (e = EACCES \<and> has_key k tab)"
proof -
  have created: "i < length tab \<and> keys_unique tab' \<and> length tab' = length tab \<and> allocd (tab' ! i) \<and> key (tab' ! i) = k
        \<and> (\<forall>j. j \<noteq> i \<longrightarrow> tab' ! j = tab ! j) \<and> \<not> allocd (tab ! i)
        \<and> uid (tab' ! i) = cr_uid cr \<and> cuid (tab' ! i) = cr_uid cr \<and> seq (tab' ! i) = seq (tab ! i)"
    if "ipc_free 0 tab = Some i" "tab' = tab[i := ipc_init k flag cr (tab ! i)]" "k = 0 \<or> \<not> has_key k tab" for i tab'
    using ipc_free_Some [OF that(1)] keys_unique_init [OF assms, of i k flag cr] that allocd_init
    by (auto simp: ipc_init_def)
  show ?thesis
  proof (cases "k \<noteq> 0 \<and> has_key k tab")
    case True
    then obtain xs b zs where sp: "tab = xs @ b # zs" "allocd b" "key b = k" "\<not> has_key k xs" using has_key_split by blast
    with ipc_lookup_hit [OF sp, of flag 0 None] True assms show ?thesis
      by (simp add: ipcget_def nth_append)
  next
    case False
    then have nk: "k = 0 \<or> \<not> has_key k tab" by blast
    have "ipcget k flag cr tab = (if k \<noteq> 0 \<and> flag AND IPC_CREAT = 0 then Inl ENOENT
        else case ipc_free 0 tab of None \<Rightarrow> Inl ENOSPC
             | Some i \<Rightarrow> Inr (True, i, tab[i := ipc_init k flag cr (tab ! i)]))"
      using nk ipc_lookup_miss [of k tab flag 0 None] by (auto simp: ipcget_def)
    then show ?thesis
      using nk created [OF _ refl nk] ipc_free_None [of 0 tab] by (cases "ipc_free 0 tab") (auto simp: allocd_init)
  qed
qed

text \<open>
  \<^verbatim>\<open>ipcget\<close> on a table whose allocated entries have different keys (private keys apart). It
  returns the entry that has the key, or a new one in a free slot, with the caller as owner and
  creator, and the keys are still different; every other entry is unchanged. It creates an entry only
  for a private key, or for a key that no entry has when \<^verbatim>\<open>IPC_CREAT\<close> is given. Each error is returned
  for its reason.
\<close>

theorem ipcget_correct:
  assumes "keys_unique tab"
  shows "case ipcget k flag cr tab of
      Inr (created, i, tab') \<Rightarrow>
        i < length tab \<and> keys_unique tab' \<and> length tab' = length tab \<and> allocd (tab' ! i) \<and> key (tab' ! i) = k
        \<and> (\<forall>j. j \<noteq> i \<longrightarrow> tab' ! j = tab ! j)
        \<and> (created \<longrightarrow> \<not> allocd (tab ! i) \<and> uid (tab' ! i) = cr_uid cr \<and> cuid (tab' ! i) = cr_uid cr
             \<and> (k = 0 \<or> \<not> has_key k tab \<and> flag AND IPC_CREAT \<noteq> 0))
        \<and> (\<not> created \<longrightarrow> tab' = tab \<and> k \<noteq> 0 \<and> flag AND 0x1ff AND NOT (mode (tab ! i)) = 0)
    | Inl e \<Rightarrow> (e = ENOSPC \<and> (\<forall>b\<in>set tab. allocd b))
        \<or> (e = ENOENT \<and> k \<noteq> 0 \<and> \<not> has_key k tab \<and> flag AND IPC_CREAT = 0)
        \<or> (e = EEXIST \<and> has_key k tab \<and> flag AND (IPC_CREAT OR IPC_EXCL) = IPC_CREAT OR IPC_EXCL)
        \<or> (e = EACCES \<and> has_key k tab)"
  using ipcget_spec [OF assms, of k flag cr] by (auto split: sum.splits prod.splits)

theorem ipcget_correct_witness:
  "\<exists>tab'. ipcget 42 0x3b6 (example_cred 101) [\<lparr>uid = 0, gid = 0, cuid = 0, cgid = 0, mode = 0, seq = 3, key = 0\<rparr>]
     = Inr (True, 0, tab') \<and> keys_unique tab' \<and> allocd (tab' ! 0) \<and> key (tab' ! 0) = 42"
  using ipcget_correct [of "[\<lparr>uid = 0, gid = 0, cuid = 0, cgid = 0, mode = 0, seq = 3, key = 0\<rparr>]" 42 "0x3b6" "example_cred 101"]
  by (simp add: keys_unique_def ipcget_def)

end
