(* ===== verification/KTs.thy ===== *)
theory KTs
  imports KQueue KCred
begin

text \<open>
  The time-sharing scheduling class, \<^verbatim>\<open>uts/i386/disp/ts.c\<close>, with the tables the kernel ships in
  \<^verbatim>\<open>uts/i386/master.d/ts/space.c\<close>. A time-sharing process has a \<^verbatim>\<open>tsproc_t\<close>, known by its address;
  the class keeps the structures on a doubly linked list, modelled as the list of their addresses.
  The members \<^verbatim>\<open>ts_pstatp\<close>, \<^verbatim>\<open>ts_pprip\<close> and \<^verbatim>\<open>ts_pflagp\<close> always point into the \<^verbatim>\<open>proc_t\<close> that
  \<^verbatim>\<open>ts_procp\<close> points to and are not represented; the memory allocator's answer is an argument of the
  operations that allocate. The class is a client of the dispatcher and uses only the interface
  \<open>dispatcher\<close>.
\<close>

section \<open>Data\<close>

type_synonym tsp = nat

record tsdpent =
  ts_globpri :: int
  ts_quantum :: int
  ts_tqexp :: int
  ts_slpret :: int
  ts_maxwait :: int
  ts_lwait :: int

record tsproc =
  ts_timeleft :: int
  ts_cpupri :: int
  ts_uprilim :: int
  ts_upri :: int
  ts_umdpri :: int
  ts_nice :: int
  ts_flags :: u32
  ts_dispwait :: int
  ts_procp :: procp

record tsparms =
  par_uprilim :: int
  par_upri :: int

record tsys =
  dsp :: disp
  tsprocs :: "tsp \<Rightarrow> tsproc"
  ts_plist :: "tsp list"
  ts_dptbl :: "tsdpent list"
  ts_kmdpris :: "int list"
  ts_maxupri :: int
  ts_maxumdpri :: int
  ts_maxkmdpri :: int
  ts_maxglobpri :: int
  ts_cid :: int
  tspexists :: bool
  ts_timeouts :: nat

abbreviation TSKPRI :: u32 where "TSKPRI \<equiv> 0x01"
abbreviation TSBACKQ :: u32 where "TSBACKQ \<equiv> 0x02"
abbreviation TSFORK :: u32 where "TSFORK \<equiv> 0x04"

abbreviation TS_NOCHANGE :: int where "TS_NOCHANGE \<equiv> - 32768"
abbreviation NZERO :: int where "NZERO \<equiv> 20"

definition tsmedumdpri :: "tsys \<Rightarrow> int" where
  "tsmedumdpri s = ts_maxumdpri s div 2"

definition upd_ts :: "tsys \<Rightarrow> tsp \<Rightarrow> (tsproc \<Rightarrow> tsproc) \<Rightarrow> tsys" where
  "upd_ts s t f = s\<lparr>tsprocs := (tsprocs s)(t := f (tsprocs s t))\<rparr>"

definition upd_dsp :: "tsys \<Rightarrow> (disp \<Rightarrow> disp) \<Rightarrow> tsys" where
  "upd_dsp s f = s\<lparr>dsp := f (dsp s)\<rparr>"

definition ts_proc :: "tsys \<Rightarrow> tsp \<Rightarrow> proc_t" where
  "ts_proc s t = procs (dsp s) (ts_procp (tsprocs s t))"

text \<open>The macro \<^verbatim>\<open>TS_NEWUMDPRI\<close>; the sum is stored in a \<^verbatim>\<open>short\<close> before it is compared.\<close>

definition TS_NEWUMDPRI :: "tsys \<Rightarrow> tsproc \<Rightarrow> tsproc" where
  "TS_NEWUMDPRI s p = (let u = s16 (ts_cpupri p + ts_upri p) in
     p\<lparr>ts_umdpri := (if u > ts_maxumdpri s then ts_maxumdpri s else if u < 0 then 0 else u)\<rparr>)"

section \<open>Class initialization and administration\<close>

definition ts_init :: "tsys \<Rightarrow> int \<Rightarrow> (int \<times> tsys) option" where
  "ts_init s cid = do {
     k \<leftarrow> ird (ts_kmdpris s) (ts_maxkmdpri s);
     e \<leftarrow> ird (ts_dptbl s) (ts_maxumdpri s);
     let g = max k (ts_globpri e);
     Some (g, s\<lparr>ts_maxglobpri := g, ts_cid := cid, ts_plist := []\<rparr>) }"

text \<open>
  \<^verbatim>\<open>ts_admin\<close>. The arguments stand for the user's memory: \<open>adm\<close> is the \<^verbatim>\<open>tsadmin_t\<close> that \<^verbatim>\<open>copyin\<close>
  reads (command and number of entries), \<open>utbl\<close> the table it reads, both \<^const>\<open>None\<close> for a fault;
  \<open>out1\<close> and \<open>out2\<close> say whether the first and second \<^verbatim>\<open>copyout\<close> succeed. The results are what is
  copied out, the number of entries and the table, and the new state. An entry has 16 bytes.
\<close>

definition dpent_bad :: "tsys \<Rightarrow> tsdpent \<Rightarrow> bool" where
  "dpent_bad s e \<longleftrightarrow> ts_quantum e \<le> 0
     \<or> ts_tqexp e > ts_maxumdpri s \<or> ts_tqexp e < 0
     \<or> ts_slpret e > ts_maxumdpri s \<or> ts_slpret e < 0
     \<or> ts_maxwait e < 0
     \<or> ts_lwait e > ts_maxumdpri s \<or> ts_lwait e < 0"

definition dpent_set :: "tsdpent \<Rightarrow> tsdpent \<Rightarrow> tsdpent" where
  "dpent_set old new = new\<lparr>ts_globpri := ts_globpri old\<rparr>"

fun dptbl_set :: "tsdpent list \<Rightarrow> tsdpent list \<Rightarrow> tsdpent list option" where
  "dptbl_set tbl [] = Some tbl"
| "dptbl_set [] (e # es) = None"
| "dptbl_set (d # tbl) (e # es) = do { r \<leftarrow> dptbl_set tbl es; Some (dpent_set d e # r) }"

datatype dpout = NoOut | OutSize int | OutTbl int "tsdpent list"

definition ts_admin ::
  "tsys \<Rightarrow> (int \<times> int) option \<Rightarrow> tsdpent list option \<Rightarrow> bool \<Rightarrow> bool \<Rightarrow> cred \<Rightarrow> (errno + (dpout \<times> tsys)) option" where
  "ts_admin s adm utbl out1 out2 reqcr =
    (case adm of None \<Rightarrow> Some (Inl EFAULT)
     | Some (cmd, ndpents) \<Rightarrow>
       let tsdpsz = (ts_maxumdpri s + 1) * 16 in
       if cmd = 1 then
         if out1 then Some (Inr (OutSize (s16 (ts_maxumdpri s + 1)), s)) else Some (Inl EFAULT)
       else if cmd = 2 then
         let sz = (ndpents * 16) mod 4294967296; userdpsz = min sz tsdpsz; n = userdpsz div 16 in
         if \<not> out1 then Some (Inl EFAULT)
         else if out2 then Some (Inr (OutTbl n (take (nat n) (ts_dptbl s)), s)) else Some (Inl EFAULT)
       else if cmd = 3 then
         if \<not> suser reqcr then Some (Inl EPERM)
         else if (ndpents * 16) mod 4294967296 \<noteq> tsdpsz then Some (Inl EINVAL)
         else (case utbl of None \<Rightarrow> Some (Inl EFAULT)
               | Some tmp \<Rightarrow>
                   if list_ex (dpent_bad s) tmp then Some (Inl EINVAL)
                   else do { tbl \<leftarrow> dptbl_set (ts_dptbl s) tmp; Some (Inr (NoOut, s\<lparr>ts_dptbl := tbl\<rparr>)) })
       else Some (Inl EINVAL))"

section \<open>Entering and leaving the class\<close>

text \<open>
  The code that gives a process its user mode priority, the same in \<^verbatim>\<open>ts_enterclass\<close> and
  \<^verbatim>\<open>ts_parmsset\<close>: the running process keeps running only while nothing of equal or higher priority
  is waiting; another process is moved to the queue of its new priority.
\<close>

definition ts_setumdpri :: "tsys \<Rightarrow> tsp \<Rightarrow> tsys option" where
  "ts_setumdpri s t = do {
     let p = ts_procp (tsprocs s t);
     e \<leftarrow> ird (ts_dptbl s) (ts_umdpri (tsprocs s t));
     if p = curproc (dsp s) then do {
       let s = upd_dsp s (\<lambda>d. (set_pri d p (ts_globpri e))\<lparr>curpri := ts_globpri e\<rparr>);
       if curpri (dsp s) > maxrunpri (dsp s) then
         Some (upd_ts s t (\<lambda>x. x\<lparr>ts_timeleft := ts_quantum e\<rparr>))
       else
         Some (upd_dsp (upd_ts s t (\<lambda>x. x\<lparr>ts_flags := ts_flags x OR TSBACKQ\<rparr>)) (\<lambda>d. d\<lparr>runrun := runrun d + 1\<rparr>)) }
     else do {
       (wasonq, d) \<leftarrow> dispdeq (dsp s) p;
       let s = s\<lparr>dsp := set_pri d p (ts_globpri e)\<rparr>;
       if wasonq then do {
         let s = (if ts_globpri e > curpri (dsp s) then upd_dsp s (\<lambda>d. d\<lparr>runrun := runrun d + 1\<rparr>) else s);
         let s = upd_ts s t (\<lambda>x. x\<lparr>ts_timeleft := ts_quantum e\<rparr>);
         d \<leftarrow> setbackdq (dsp s) p;
         Some (s\<lparr>dsp := d\<rparr>) }
       else Some (upd_ts s t (\<lambda>x. x\<lparr>ts_flags := ts_flags x OR TSBACKQ\<rparr>)) } }"

text \<open>
  \<open>new\<close> is the address the allocator returns, \<^const>\<open>None\<close> when it fails; \<open>reqcr\<close> is the requester's
  credential, \<^const>\<open>None\<close> for a null pointer.
\<close>

definition ts_enterclass ::
  "tsys \<Rightarrow> tsparms option \<Rightarrow> procp \<Rightarrow> tsp option \<Rightarrow> cred option \<Rightarrow> (errno + tsys) option" where
  "ts_enterclass s parms pp new reqcr =
    (case new of None \<Rightarrow> Some (Inl ENOMEM)
     | Some t \<Rightarrow>
       let p = tsprocs s t;
           init = (case parms of
               None \<Rightarrow> Inr (p\<lparr>ts_uprilim := 0, ts_upri := 0, ts_nice := 20,
                           ts_umdpri := tsmedumdpri s, ts_cpupri := tsmedumdpri s\<rparr>)
             | Some pa \<Rightarrow>
                 let reqlim = (if par_uprilim pa = TS_NOCHANGE then 0 else par_uprilim pa) in
                 if reqcr \<noteq> None \<and> reqlim > 0 \<and> \<not> suser (the reqcr) then Inl EPERM
                 else
                   let requpri = (if par_upri pa = TS_NOCHANGE then reqlim
                                  else if par_upri pa > reqlim then reqlim else par_upri pa) in
                   Inr (TS_NEWUMDPRI s (p\<lparr>ts_uprilim := reqlim, ts_upri := requpri,
                          ts_nice := s8 (20 - cdiv (20 * requpri) (ts_maxupri s)),
                          ts_cpupri := tsmedumdpri s\<rparr>))) in
       case init of Inl e \<Rightarrow> Some (Inl e)
       | Inr p \<Rightarrow> do {
           let s = s\<lparr>tsprocs := (tsprocs s)(t := p\<lparr>ts_dispwait := 0, ts_flags := 0, ts_procp := pp\<rparr>),
                     ts_plist := t # ts_plist s\<rparr>;
           s \<leftarrow> ts_setumdpri s t;
           Some (Inr (if tspexists s then s else s\<lparr>ts_timeouts := ts_timeouts s + 1, tspexists := True\<rparr>)) })"

definition ts_exitclass :: "tsys \<Rightarrow> tsp \<Rightarrow> tsys" where
  "ts_exitclass s t = s\<lparr>ts_plist := remove1 t (ts_plist s)\<rparr>"

definition ts_fork :: "tsys \<Rightarrow> tsp \<Rightarrow> procp \<Rightarrow> tsp \<Rightarrow> tsys option" where
  "ts_fork s pt cprocp ct = do {
     let p = tsprocs s pt;
     e \<leftarrow> ird (ts_dptbl s) (ts_umdpri p);
     Some (s\<lparr>tsprocs := (tsprocs s)(ct :=
         \<lparr>ts_timeleft = ts_quantum e, ts_cpupri = ts_cpupri p, ts_uprilim = ts_uprilim p, ts_upri = ts_upri p,
          ts_umdpri = ts_umdpri p, ts_nice = ts_nice p, ts_flags = ts_flags p AND NOT TSBACKQ,
          ts_dispwait = 0, ts_procp = cprocp\<rparr>),
       ts_plist := ct # ts_plist s\<rparr>) }"

definition ts_forkret :: "tsys \<Rightarrow> tsp \<Rightarrow> tsp option \<Rightarrow> tsys option" where
  "ts_forkret s ct pt = do {
     d \<leftarrow> setbackdq (dsp s) (ts_procp (tsprocs s ct));
     let s = s\<lparr>dsp := d\<rparr>;
     case pt of None \<Rightarrow> Some s
     | Some t \<Rightarrow> Some (upd_dsp (upd_ts s t (\<lambda>x. x\<lparr>ts_flags := ts_flags x OR (TSBACKQ OR TSFORK)\<rparr>))
                        (\<lambda>d. d\<lparr>runrun := runrun d + 1\<rparr>)) }"

section \<open>Parameters\<close>

definition ts_getclinfo :: "tsys \<Rightarrow> int" where
  "ts_getclinfo s = ts_maxupri s"

definition ts_getglobpri :: "tsys \<Rightarrow> tsparms \<Rightarrow> int option" where
  "ts_getglobpri s pa =
    (let tspri = tsmedumdpri s + par_upri pa;
         tspri = (if tspri > ts_maxumdpri s then ts_maxumdpri s else if tspri < 0 then 0 else tspri)
     in map_option ts_globpri (ird (ts_dptbl s) tspri))"

definition ts_parmsget :: "tsys \<Rightarrow> tsp \<Rightarrow> tsparms" where
  "ts_parmsget s t = \<lparr>par_uprilim = ts_uprilim (tsprocs s t), par_upri = ts_upri (tsprocs s t)\<rparr>"

definition ts_parmsin :: "tsys \<Rightarrow> tsparms \<Rightarrow> cred option \<Rightarrow> int \<Rightarrow> tsp \<Rightarrow> errno option" where
  "ts_parmsin s pa reqcr targcid t =
    (if (par_uprilim pa > ts_maxupri s \<or> par_uprilim pa < - ts_maxupri s) \<and> par_uprilim pa \<noteq> TS_NOCHANGE
     then Some EINVAL
     else if (par_upri pa > ts_maxupri s \<or> par_upri pa < - ts_maxupri s) \<and> par_upri pa \<noteq> TS_NOCHANGE
     then Some EINVAL
     else case reqcr of None \<Rightarrow> None
       | Some cr \<Rightarrow>
           if par_uprilim pa = TS_NOCHANGE then None
           else if targcid = ts_cid s then
             if par_uprilim pa > ts_uprilim (tsprocs s t) \<and> \<not> suser cr then Some EPERM else None
           else if par_uprilim pa > 0 \<and> \<not> suser cr then Some EPERM else None)"

definition ts_parmsset :: "tsys \<Rightarrow> tsparms \<Rightarrow> tsp \<Rightarrow> cred option \<Rightarrow> (errno + tsys) option" where
  "ts_parmsset s pa t reqcr =
    (let p = tsprocs s t;
         reqlim = (if par_uprilim pa = TS_NOCHANGE then ts_uprilim p else par_uprilim pa);
         requpri = (if par_upri pa = TS_NOCHANGE then ts_upri p else par_upri pa);
         requpri = (if requpri > reqlim then reqlim else requpri) in
     if reqcr \<noteq> None \<and> reqlim > ts_uprilim p \<and> \<not> suser (the reqcr) then Some (Inl EPERM)
     else do {
       let s = upd_ts s t (\<lambda>x. TS_NEWUMDPRI s (x\<lparr>ts_uprilim := reqlim, ts_upri := requpri\<rparr>));
       let nice = s8 (20 - cdiv (par_upri pa * 20) (ts_maxupri s));
       let s = upd_ts s t (\<lambda>x. x\<lparr>ts_nice := (if nice = 40 then 39 else nice)\<rparr>);
       if ts_flags (tsprocs s t) AND TSKPRI \<noteq> 0 then Some (Inr s)
       else do {
         s \<leftarrow> ts_setumdpri (upd_ts s t (\<lambda>x. x\<lparr>ts_dispwait := 0\<rparr>)) t;
         Some (Inr s) } })"

definition ts_proccmp :: "tsys \<Rightarrow> tsp \<Rightarrow> tsp \<Rightarrow> int" where
  "ts_proccmp s t1 t2 = ts_upri (tsprocs s t1) - ts_upri (tsprocs s t2)"

text \<open>\<open>incr\<close> is the increment; the result is the new nice value less \<^verbatim>\<open>NZERO\<close>.\<close>

definition ts_donice :: "tsys \<Rightarrow> tsp \<Rightarrow> int \<Rightarrow> (int \<times> tsys) option" where
  "ts_donice s t incr =
    (let incr = (if incr > 2 * NZERO - 1 then 2 * NZERO - 1 else incr);
         newnice = s32 (ts_nice (tsprocs s t) + incr);
         newnice = (if newnice \<ge> 2 * NZERO then 2 * NZERO - 1 else if newnice < 0 then 0 else newnice);
         upri = s16 (cdiv (- ((newnice - NZERO) * ts_maxupri s)) NZERO) in
     do {
       r \<leftarrow> ts_parmsset s \<lparr>par_uprilim = upri, par_upri = upri\<rparr> t None;
       let s = (case r of Inl _ \<Rightarrow> s | Inr s' \<Rightarrow> s');
       Some (newnice - NZERO, upd_ts s t (\<lambda>x. x\<lparr>ts_nice := s8 newnice\<rparr>)) })"

section \<open>Scheduling events\<close>

definition ts_preempt :: "tsys \<Rightarrow> tsp \<Rightarrow> tsys option" where
  "ts_preempt s t =
    (let fl = ts_flags (tsprocs s t) AND (TSBACKQ OR TSKPRI OR TSFORK);
         setb = (\<lambda>s. do { d \<leftarrow> setbackdq (dsp s) (ts_procp (tsprocs s t)); Some (s\<lparr>dsp := d\<rparr>) }) in
     if fl = TSBACKQ then do {
       e \<leftarrow> ird (ts_dptbl s) (ts_umdpri (tsprocs s t));
       setb (upd_ts s t (\<lambda>x. x\<lparr>ts_timeleft := ts_quantum e, ts_dispwait := 0,
                                 ts_flags := ts_flags x AND NOT TSBACKQ\<rparr>)) }
     else if fl = TSBACKQ OR TSKPRI then
       setb (upd_ts s t (\<lambda>x. x\<lparr>ts_flags := ts_flags x AND NOT TSBACKQ\<rparr>))
     else if fl = TSBACKQ OR TSFORK then
       setb (upd_ts s t (\<lambda>x. x\<lparr>ts_dispwait := 0, ts_flags := ts_flags x AND NOT (TSBACKQ OR TSFORK)\<rparr>))
     else do { d \<leftarrow> setfrontdq (dsp s) (ts_procp (tsprocs s t)); Some (s\<lparr>dsp := d\<rparr>) })"

definition ts_setrun :: "tsys \<Rightarrow> tsp \<Rightarrow> tsys option" where
  "ts_setrun s t = do {
     s \<leftarrow> (if ts_flags (tsprocs s t) AND TSKPRI = 0 then do {
            e \<leftarrow> ird (ts_dptbl s) (ts_umdpri (tsprocs s t));
            Some (upd_ts s t (\<lambda>x. x\<lparr>ts_timeleft := ts_quantum e, ts_dispwait := 0\<rparr>)) }
          else Some s);
     let s = upd_ts s t (\<lambda>x. x\<lparr>ts_flags := ts_flags x AND NOT (TSBACKQ OR TSFORK)\<rparr>);
     d \<leftarrow> setbackdq (dsp s) (ts_procp (tsprocs s t));
     Some (s\<lparr>dsp := d\<rparr>) }"

text \<open>\<open>disp\<close> is the priority argument of the sleep; \<^verbatim>\<open>PMASK\<close> keeps its low seven bits.\<close>

definition ts_sleep :: "tsys \<Rightarrow> tsp \<Rightarrow> int \<Rightarrow> tsys option" where
  "ts_sleep s t disp = do {
     let s = upd_ts s t (\<lambda>x. x\<lparr>ts_flags := ts_flags x OR TSKPRI\<rparr>);
     k \<leftarrow> ird (ts_kmdpris s) (ts_maxkmdpri s - disp mod 128);
     Some (upd_dsp s (\<lambda>d. set_pri d (ts_procp (tsprocs s t)) k)) }"

definition ts_wakeup :: "tsys \<Rightarrow> tsp \<Rightarrow> tsys option" where
  "ts_wakeup s t = do {
     let s = upd_ts s t (\<lambda>x. x\<lparr>ts_flags := ts_flags x AND NOT (TSBACKQ OR TSFORK)\<rparr>);
     d \<leftarrow> setbackdq (dsp s) (ts_procp (tsprocs s t));
     Some (s\<lparr>dsp := d\<rparr>) }"

definition ts_tick :: "tsys \<Rightarrow> tsp \<Rightarrow> tsys option" where
  "ts_tick s t =
    (if ts_flags (tsprocs s t) AND TSKPRI \<noteq> 0 then Some s
     else do {
       let s = upd_ts s t (\<lambda>x. x\<lparr>ts_timeleft := s32 (ts_timeleft x - 1)\<rparr>);
       if ts_timeleft (tsprocs s t) = 0 then do {
         let p = ts_procp (tsprocs s t);
         (wasonq, d) \<leftarrow> dispdeq (dsp s) p;
         e0 \<leftarrow> ird (ts_dptbl s) (ts_cpupri (tsprocs s t));
         let s = upd_ts (s\<lparr>dsp := d\<rparr>) t (\<lambda>x. TS_NEWUMDPRI s (x\<lparr>ts_cpupri := ts_tqexp e0\<rparr>));
         e \<leftarrow> ird (ts_dptbl s) (ts_umdpri (tsprocs s t));
         let s = upd_dsp s (\<lambda>d. (set_pri d p (ts_globpri e))\<lparr>curpri := ts_globpri e\<rparr>);
         let s = upd_ts s t (\<lambda>x. x\<lparr>ts_dispwait := 0\<rparr>);
         s \<leftarrow> (if wasonq then do {
                let s = upd_ts s t (\<lambda>x. x\<lparr>ts_timeleft := ts_quantum e\<rparr>);
                d \<leftarrow> setbackdq (dsp s) p;
                Some (s\<lparr>dsp := d\<rparr>) }
              else Some (upd_ts s t (\<lambda>x. x\<lparr>ts_flags := ts_flags x OR TSBACKQ\<rparr>)));
         Some (upd_dsp s (\<lambda>d. d\<lparr>runrun := runrun d + 1\<rparr>)) }
       else Some s })"

definition ts_trapret :: "tsys \<Rightarrow> tsp \<Rightarrow> tsys option" where
  "ts_trapret s t =
    (if ts_flags (tsprocs s t) AND TSKPRI = 0 then Some s
     else do {
       e0 \<leftarrow> ird (ts_dptbl s) (ts_cpupri (tsprocs s t));
       let s = upd_ts s t (\<lambda>x. (TS_NEWUMDPRI s (x\<lparr>ts_cpupri := ts_slpret e0\<rparr>))\<lparr>ts_flags := ts_flags x AND NOT TSKPRI\<rparr>);
       e \<leftarrow> ird (ts_dptbl s) (ts_umdpri (tsprocs s t));
       let s = upd_dsp s (\<lambda>d. (set_pri d (ts_procp (tsprocs s t)) (ts_globpri e))\<lparr>curpri := ts_globpri e\<rparr>);
       let s = upd_ts s t (\<lambda>x. x\<lparr>ts_timeleft := ts_quantum e, ts_dispwait := 0\<rparr>);
       Some (if npwakecnt (dsp s) = 0 \<and> curpri (dsp s) < maxrunpri (dsp s)
             then upd_dsp s (\<lambda>d. d\<lparr>runrun := runrun d + 1\<rparr>) else s) })"

text \<open>One step of the loop of \<^verbatim>\<open>ts_update\<close>, and the loop over the list.\<close>

definition ts_update1 :: "tsys \<Rightarrow> tsp \<Rightarrow> tsys option" where
  "ts_update1 s t =
    (if ts_flags (tsprocs s t) AND TSKPRI \<noteq> 0 then Some s
     else if p_stat (ts_proc s t) \<noteq> SRUN \<and> p_stat (ts_proc s t) \<noteq> SONPROC
             \<or> p_flag (ts_proc s t) AND SPROCIO \<noteq> 0 then Some s
     else do {
       let s = upd_ts s t (\<lambda>x. x\<lparr>ts_dispwait := s16 (ts_dispwait x + 1)\<rparr>);
       e0 \<leftarrow> ird (ts_dptbl s) (ts_umdpri (tsprocs s t));
       if ts_dispwait (tsprocs s t) \<le> ts_maxwait e0 then Some s
       else do {
         e1 \<leftarrow> ird (ts_dptbl s) (ts_cpupri (tsprocs s t));
         let s = upd_ts s t (\<lambda>x. (TS_NEWUMDPRI s (x\<lparr>ts_cpupri := ts_lwait e1\<rparr>))\<lparr>ts_dispwait := 0\<rparr>);
         let p = ts_procp (tsprocs s t);
         (wasonq, d) \<leftarrow> dispdeq (dsp s) p;
         e \<leftarrow> ird (ts_dptbl s) (ts_umdpri (tsprocs s t));
         let s = s\<lparr>dsp := (if p = curproc d then (set_pri d p (ts_globpri e))\<lparr>curpri := ts_globpri e\<rparr>
                           else set_pri d p (ts_globpri e))\<rparr>;
         if wasonq then do {
           let s = upd_ts s t (\<lambda>x. x\<lparr>ts_timeleft := ts_quantum e\<rparr>);
           d \<leftarrow> setbackdq (dsp s) p;
           Some (s\<lparr>dsp := d\<rparr>) }
         else Some (upd_ts s t (\<lambda>x. x\<lparr>ts_flags := ts_flags x OR TSBACKQ\<rparr>)) } })"

fun ts_update_list :: "tsys \<Rightarrow> tsp list \<Rightarrow> tsys option" where
  "ts_update_list s [] = Some s"
| "ts_update_list s (t # ts) = do { s \<leftarrow> ts_update1 s t; ts_update_list s ts }"

definition ts_update :: "tsys \<Rightarrow> tsys option" where
  "ts_update s = do {
     s \<leftarrow> ts_update_list s (ts_plist s);
     Some (upd_dsp (s\<lparr>ts_timeouts := ts_timeouts s + 1\<rparr>) (\<lambda>d. d\<lparr>runrun := runrun d + 1\<rparr>)) }"

section \<open>Nominations for swapping\<close>

fun ts_swapin_list :: "tsys \<Rightarrow> tsp list \<Rightarrow> int \<Rightarrow> tsp \<Rightarrow> bool \<Rightarrow> int \<times> tsp \<times> bool" where
  "ts_swapin_list s [] maxpri ret runflag = (maxpri, ret, runflag)"
| "ts_swapin_list s (t # ts) maxpri ret runflag =
    (if p_flag (ts_proc s t) AND SUSWAP \<noteq> 0 then ts_swapin_list s ts maxpri ret runflag
     else if p_stat (ts_proc s t) = SRUN then
       if p_flag (ts_proc s t) AND SLOAD = 0 then
         if p_pri (ts_proc s t) > maxpri then ts_swapin_list s ts (p_pri (ts_proc s t)) t runflag
         else ts_swapin_list s ts maxpri ret runflag
       else ts_swapin_list s ts maxpri ret True
     else ts_swapin_list s ts maxpri ret runflag)"

text \<open>\<^verbatim>\<open>retpp\<close> is not initialized; \<open>garbage\<close> is its value, never used.\<close>

definition ts_swapin :: "tsys \<Rightarrow> tsp \<Rightarrow> procp option \<times> bool" where
  "ts_swapin s garbage =
    (let (maxpri, ret, runflag) = ts_swapin_list s (ts_plist s) (- 1) garbage False in
     (if maxpri = - 1 then None else Some (ts_procp (tsprocs s ret)), runflag))"

fun ts_swapout_list :: "tsys \<Rightarrow> procp \<Rightarrow> tsp list \<Rightarrow> int \<Rightarrow> int \<Rightarrow> tsp option \<Rightarrow> tsp option" where
  "ts_swapout_list s jl [] minspri minrpri ret = ret"
| "ts_swapout_list s jl (t # ts) minspri minrpri ret =
    (let p = ts_proc s t in
     if p_stat p = SZOMB then ts_swapout_list s jl ts minspri minrpri ret
     else if p_flag p AND (SLOAD OR SSYS OR SLOCK OR SUSWAP OR SPROCIO OR SSWLOCKS) \<noteq> SLOAD
     then ts_swapout_list s jl ts minspri minrpri ret
     else if ts_procp (tsprocs s t) = jl then ts_swapout_list s jl ts minspri minrpri ret
     else if (p_stat p = SSLEEP \<or> p_stat p = SSTOP) \<and> p_pri p < minspri
     then ts_swapout_list s jl ts (p_pri p) minrpri (Some t)
     else if ret = None \<and> p_stat p = SRUN \<and> p_pri p < minrpri
     then ts_swapout_list s jl ts minspri (p_pri p) (Some t)
     else ts_swapout_list s jl ts minspri minrpri ret)"

definition ts_swapout :: "tsys \<Rightarrow> procp \<Rightarrow> procp option" where
  "ts_swapout s jl =
    map_option (\<lambda>t. ts_procp (tsprocs s t))
      (ts_swapout_list s jl (ts_plist s) (ts_maxglobpri s + 1) (ts_maxglobpri s + 1) None)"

text \<open>
  \<^verbatim>\<open>preempt\<close> of a time-sharing process (without the 80386 errata workaround): the class places the
  running process on a queue, and the processor is given away.
\<close>

definition preempt :: "(bool \<times> (disp \<Rightarrow> disp)) list \<Rightarrow> procp \<Rightarrow> tsys \<Rightarrow> tsp \<Rightarrow> tsys option" where
  "preempt env sched s t = do {
     s \<leftarrow> ts_preempt s t;
     d \<leftarrow> pswtch env sched (dsp s);
     Some (s\<lparr>dsp := d\<rparr>) }"

section \<open>The shipped tables\<close>

definition dptbl_rows :: "(int \<times> int \<times> int \<times> int \<times> int \<times> int) list" where
  "dptbl_rows =
    [(0,100,0,10,5,10), (1,100,0,11,5,11), (2,100,1,12,5,12), (3,100,1,13,5,13), (4,100,2,14,5,14),
     (5,100,2,15,5,15), (6,100,3,16,5,16), (7,100,3,17,5,17), (8,100,4,18,5,18), (9,100,4,19,5,19),
     (10,80,5,20,5,20), (11,80,5,21,5,21), (12,80,6,22,5,22), (13,80,6,23,5,23), (14,80,7,24,5,24),
     (15,80,7,25,5,25), (16,80,8,26,5,26), (17,80,8,27,5,27), (18,80,9,28,5,28), (19,80,9,29,5,29),
     (20,60,10,30,5,30), (21,60,11,31,5,31), (22,60,12,32,5,32), (23,60,13,33,5,33), (24,60,14,34,5,34),
     (25,60,15,35,5,35), (26,60,16,36,5,36), (27,60,17,37,5,37), (28,60,18,38,5,38), (29,60,19,39,5,39),
     (30,40,20,40,5,40), (31,40,21,41,5,41), (32,40,22,42,5,42), (33,40,23,43,5,43), (34,40,24,44,5,44),
     (35,40,25,45,5,45), (36,40,26,46,5,46), (37,40,27,47,5,47), (38,40,28,48,5,48), (39,40,29,49,5,49),
     (40,20,30,50,5,50), (41,20,31,50,5,50), (42,20,32,51,5,51), (43,20,33,51,5,51), (44,20,34,52,5,52),
     (45,20,35,52,5,52), (46,20,36,53,5,53), (47,20,37,53,5,53), (48,20,38,54,5,54), (49,20,39,54,5,54),
     (50,10,40,55,5,55), (51,10,41,55,5,55), (52,10,42,56,5,56), (53,10,43,56,5,56), (54,10,44,57,5,57),
     (55,10,45,57,5,57), (56,10,46,58,5,58), (57,10,47,58,5,58), (58,10,48,59,5,59), (59,10,49,59,5,59)]"

definition space_dptbl :: "tsdpent list" where
  "space_dptbl = map (\<lambda>(g, q, tq, sl, mw, lw). \<lparr>ts_globpri = g, ts_quantum = q, ts_tqexp = tq,
     ts_slpret = sl, ts_maxwait = mw, ts_lwait = lw\<rparr>) dptbl_rows"

definition space_kmdpris :: "int list" where
  "space_kmdpris = map int [60..<100]"

section \<open>The class invariant\<close>

text \<open>
  \<open>ts_cfg\<close> is what the tables must satisfy for the class never to index outside them: priorities a
  table entry refers to are rows of the table, and every global priority has a dispatcher queue.
  \<open>tsproc_ok\<close> says that a process's user priority is in the configured range and at most its limit,
  that its user mode priority is the sum of its system and user components, cut to the table, and
  that its global priority has a queue.
\<close>

definition dpent_ok :: "tsys \<Rightarrow> tsdpent \<Rightarrow> bool" where
  "dpent_ok s e \<longleftrightarrow> \<not> dpent_bad s e \<and> 0 \<le> ts_globpri e \<and> ts_globpri e < int (npri (dsp s))"

definition ts_cfg :: "tsys \<Rightarrow> bool" where
  "ts_cfg s \<longleftrightarrow> 0 \<le> ts_maxumdpri s \<and> int (length (ts_dptbl s)) = ts_maxumdpri s + 1
     \<and> 0 \<le> ts_maxkmdpri s \<and> int (length (ts_kmdpris s)) = ts_maxkmdpri s + 1
     \<and> 0 < ts_maxupri s \<and> ts_maxumdpri s + ts_maxupri s \<le> 32767
     \<and> (\<forall>e\<in>set (ts_dptbl s). dpent_ok s e) \<and> (\<forall>k\<in>set (ts_kmdpris s). 0 \<le> k \<and> k < int (npri (dsp s)))"

definition clamp :: "int \<Rightarrow> int \<Rightarrow> int" where
  "clamp m u = (if u > m then m else if u < 0 then 0 else u)"

definition tsproc_ok :: "tsys \<Rightarrow> tsproc \<Rightarrow> bool" where
  "tsproc_ok s p \<longleftrightarrow> 0 \<le> ts_cpupri p \<and> ts_cpupri p \<le> ts_maxumdpri s
     \<and> - ts_maxupri s \<le> ts_upri p \<and> ts_upri p \<le> ts_uprilim p \<and> ts_uprilim p \<le> ts_maxupri s
     \<and> ts_umdpri p = clamp (ts_maxumdpri s) (ts_cpupri p + ts_upri p)
     \<and> pri_ok (dsp s) (ts_procp p)"

definition ts_inv :: "tsys \<Rightarrow> (nat \<Rightarrow> procp list) \<Rightarrow> bool" where
  "ts_inv s Q \<longleftrightarrow> disp_ok (dsp s) Q \<and> ts_cfg s \<and> (\<forall>t\<in>set (ts_plist s). tsproc_ok s (tsprocs s t))"

definition dpe :: "tsys \<Rightarrow> int \<Rightarrow> tsdpent" where
  "dpe s k = ts_dptbl s ! nat k"

lemma clamp_range: "0 \<le> m \<Longrightarrow> 0 \<le> clamp m u \<and> clamp m u \<le> m"
  by (simp add: clamp_def)

lemma ts_cfgD:
  assumes "ts_cfg s"
  shows "0 \<le> ts_maxumdpri s" "0 < ts_maxupri s" "ts_maxumdpri s + ts_maxupri s \<le> 32767"
    and "0 \<le> k \<Longrightarrow> k \<le> ts_maxumdpri s \<Longrightarrow> ird (ts_dptbl s) k = Some (dpe s k) \<and> dpent_ok s (dpe s k)"
    and "0 \<le> k \<Longrightarrow> k \<le> ts_maxkmdpri s \<Longrightarrow>
      \<exists>x. ird (ts_kmdpris s) k = Some x \<and> x = ts_kmdpris s ! nat k \<and> 0 \<le> x \<and> x < int (npri (dsp s))"
proof -
  show "0 \<le> ts_maxumdpri s" "0 < ts_maxupri s" "ts_maxumdpri s + ts_maxupri s \<le> 32767"
    using assms by (simp_all add: ts_cfg_def)
  show "ird (ts_dptbl s) k = Some (dpe s k) \<and> dpent_ok s (dpe s k)" if "0 \<le> k" "k \<le> ts_maxumdpri s"
  proof -
    have "nat k < length (ts_dptbl s)" using assms that unfolding ts_cfg_def by linarith
    with assms that show ?thesis by (simp add: ird_def rd_in dpe_def ts_cfg_def)
  qed
  show "\<exists>x. ird (ts_kmdpris s) k = Some x \<and> x = ts_kmdpris s ! nat k \<and> 0 \<le> x \<and> x < int (npri (dsp s))"
    if "0 \<le> k" "k \<le> ts_maxkmdpri s"
  proof -
    have "nat k < length (ts_kmdpris s)" using assms that unfolding ts_cfg_def by linarith
    with assms that show ?thesis by (simp add: ird_def rd_in ts_cfg_def)
  qed
qed

lemma dpent_okD:
  "dpent_ok s e \<Longrightarrow> 0 \<le> ts_globpri e \<and> ts_globpri e < int (npri (dsp s)) \<and> 0 < ts_quantum e
     \<and> 0 \<le> ts_tqexp e \<and> ts_tqexp e \<le> ts_maxumdpri s \<and> 0 \<le> ts_slpret e \<and> ts_slpret e \<le> ts_maxumdpri s
     \<and> 0 \<le> ts_lwait e \<and> ts_lwait e \<le> ts_maxumdpri s \<and> 0 \<le> ts_maxwait e"
  by (simp add: dpent_ok_def dpent_bad_def)

lemma newumdpri_clamp:
  assumes "ts_cfg s" "0 \<le> ts_cpupri p" "ts_cpupri p \<le> ts_maxumdpri s" "- ts_maxupri s \<le> ts_upri p" "ts_upri p \<le> ts_maxupri s"
  shows "TS_NEWUMDPRI s p = p\<lparr>ts_umdpri := clamp (ts_maxumdpri s) (ts_cpupri p + ts_upri p)\<rparr>"
proof -
  have "s16 (ts_cpupri p + ts_upri p) = ts_cpupri p + ts_upri p"
    using assms ts_cfgD(1-3) [OF assms(1)] by (intro s16_id) linarith+
  then show ?thesis by (simp add: TS_NEWUMDPRI_def clamp_def Let_def)
qed

lemma ts_invD:
  assumes "ts_inv s Q"
  shows "disp_ok (dsp s) Q" "ts_cfg s" "t \<in> set (ts_plist s) \<Longrightarrow> tsproc_ok s (tsprocs s t)"
  using assms by (simp_all add: ts_inv_def)

lemma tsproc_okD:
  assumes "ts_cfg s" "tsproc_ok s p"
  shows "0 \<le> ts_cpupri p" "ts_cpupri p \<le> ts_maxumdpri s" "- ts_maxupri s \<le> ts_upri p" "ts_upri p \<le> ts_maxupri s"
    "ts_umdpri p = clamp (ts_maxumdpri s) (ts_cpupri p + ts_upri p)" "0 \<le> ts_umdpri p" "ts_umdpri p \<le> ts_maxumdpri s"
    "pri_ok (dsp s) (ts_procp p)" "ts_upri p \<le> ts_uprilim p" "ts_uprilim p \<le> ts_maxupri s"
  using assms clamp_range [OF ts_cfgD(1) [OF assms(1)]] by (auto simp: tsproc_ok_def)

lemma newumdpri_same [simp]: "TS_NEWUMDPRI (upd_ts s t f) = TS_NEWUMDPRI s" "TS_NEWUMDPRI (s\<lparr>dsp := d\<rparr>) = TS_NEWUMDPRI s"
    "TS_NEWUMDPRI (s\<lparr>tsprocs := x\<rparr>) = TS_NEWUMDPRI s"
  by (simp_all add: fun_eq_iff TS_NEWUMDPRI_def upd_ts_def Let_def cong: if_cong)

text \<open>How the invariant survives a change of one process and of the dispatcher.\<close>

lemma ts_inv_change:
  assumes "ts_inv s Q" "disp_ok d' Q'" "npri d' = npri (dsp s)"
    and "\<And>q. pri_ok (dsp s) q \<Longrightarrow> pri_ok d' q"
    and "t \<in> set (ts_plist s) \<Longrightarrow> tsproc_ok (s\<lparr>dsp := d'\<rparr>) x"
  shows "ts_inv (s\<lparr>dsp := d', tsprocs := (tsprocs s)(t := x)\<rparr>) Q'"
  using assms unfolding ts_inv_def ts_cfg_def tsproc_ok_def dpent_ok_def dpent_bad_def by auto

section \<open>Time slices\<close>

lemma ts_tick_kernel: "ts_flags (tsprocs s t) AND TSKPRI \<noteq> 0 \<Longrightarrow> ts_tick s t = Some s"
  by (simp add: ts_tick_def)

lemma ts_tick_running:
  "ts_flags (tsprocs s t) AND TSKPRI = 0 \<Longrightarrow> s32 (ts_timeleft (tsprocs s t) - 1) \<noteq> 0 \<Longrightarrow>
   ts_tick s t = Some (upd_ts s t (\<lambda>x. x\<lparr>ts_timeleft := s32 (ts_timeleft x - 1)\<rparr>))"
  by (simp add: ts_tick_def upd_ts_def Let_def)

text \<open>The process as the class sees it after a new system component \<open>c\<close> of its priority.\<close>

definition repri :: "tsys \<Rightarrow> int \<Rightarrow> tsproc \<Rightarrow> tsproc" where
  "repri s c x = x\<lparr>ts_cpupri := c, ts_umdpri := clamp (ts_maxumdpri s) (c + ts_upri x), ts_dispwait := 0\<rparr>"

lemma repri_sel [simp]: "ts_cpupri (repri s c x) = c" "ts_upri (repri s c x) = ts_upri x"
  "ts_umdpri (repri s c x) = clamp (ts_maxumdpri s) (c + ts_upri x)" "ts_procp (repri s c x) = ts_procp x"
  "ts_flags (repri s c x) = ts_flags x" "ts_timeleft (repri s c x) = ts_timeleft x" "ts_nice (repri s c x) = ts_nice x"
  "ts_uprilim (repri s c x) = ts_uprilim x"
  by (simp_all add: repri_def)

lemma ts_tick_expired_ok:
  assumes "ts_inv s Q" "t \<in> set (ts_plist s)" "ts_flags (tsprocs s t) AND TSKPRI = 0"
    and zero: "s32 (ts_timeleft (tsprocs s t) - 1) = 0"
  defines "x \<equiv> repri s (ts_tqexp (dpe s (ts_cpupri (tsprocs s t)))) (tsprocs s t)"
  defines "e \<equiv> dpe s (ts_umdpri x)" and "p \<equiv> ts_procp (tsprocs s t)"
  shows "\<exists>d. ts_tick s t = Some (s\<lparr>dsp := d, tsprocs := (tsprocs s)(t :=
        if onq Q p then x\<lparr>ts_timeleft := ts_quantum e\<rparr>
        else x\<lparr>ts_timeleft := 0, ts_flags := ts_flags x OR TSBACKQ\<rparr>)\<rparr>)
      \<and> ts_inv (s\<lparr>dsp := d, tsprocs := (tsprocs s)(t :=
        if onq Q p then x\<lparr>ts_timeleft := ts_quantum e\<rparr>
        else x\<lparr>ts_timeleft := 0, ts_flags := ts_flags x OR TSBACKQ\<rparr>)\<rparr>)
        (if onq Q p then requeue Q p (nat (ts_globpri e)) else Q)
      \<and> p_pri (procs d p) = ts_globpri e \<and> curpri d = ts_globpri e \<and> runrun d = runrun (dsp s) + 1
      \<and> (\<forall>q. q \<noteq> p \<longrightarrow> p_pri (procs d q) = p_pri (procs (dsp s) q))"
proof -
  note inv = ts_invD [OF assms(1)]
  note pok = tsproc_okD [OF inv(2) inv(3) [OF assms(2)]]
  note e0 = ts_cfgD(4) [OF inv(2) pok(1,2)]
  note c = dpent_okD [OF conjunct2 [OF e0]]
  let ?c = "ts_tqexp (dpe s (ts_cpupri (tsprocs s t)))"
  have xu: "0 \<le> ts_umdpri x" "ts_umdpri x \<le> ts_maxumdpri s"
    using clamp_range [OF ts_cfgD(1) [OF inv(2)]] by (simp_all add: x_def)
  have e: "ird (ts_dptbl s) (ts_umdpri x) = Some e" "dpent_ok s e"
    unfolding e_def using ts_cfgD(4) [OF inv(2) xu] by simp_all
  note g = dpent_okD [OF e(2)]
  let ?f = "\<lambda>d. (set_pri d p (ts_globpri e))\<lparr>curpri := ts_globpri e\<rparr>"
  have st: "stores_pri ?f p (ts_globpri e)" by (simp add: stores_pri_def)
  have poks: "pri_ok (dsp s) p" using pok(8) by (simp add: p_def)
  obtain d1 where d1: "dispdeq (dsp s) p = Some (onq Q p, d1)" "same_frame (dsp s) d1"
      "disp_ok (?f d1) (removed Q p)"
      "\<exists>d3. setbackdq (?f d1) p = Some d3 \<and> disp_ok d3 (requeue Q p (nat (ts_globpri e))) \<and> same_frame (?f d1) d3"
    using requeue_ok [OF inv(1) poks, of "ts_globpri e" "{?f}"] g st by auto
  have nu: "TS_NEWUMDPRI s ((tsprocs s t)\<lparr>ts_timeleft := 0, ts_cpupri := ?c\<rparr>) =
      (tsprocs s t)\<lparr>ts_timeleft := 0, ts_cpupri := ?c, ts_umdpri := ts_umdpri x\<rparr>"
    using newumdpri_clamp [OF inv(2), of "(tsprocs s t)\<lparr>ts_timeleft := 0, ts_cpupri := ?c\<rparr>"] c pok
    by (simp add: x_def)
  have pk: "\<And>q. pri_ok (dsp s) q \<Longrightarrow> pri_ok (?f d1) q" using pri_ok_stored [OF st d1(2)] g by blast
  have np: "npri d1 = npri (dsp s)" using same_frameD(4) [OF d1(2)] .
  have pri: "p_pri (procs (?f d1) p) = ts_globpri e" "curpri (?f d1) = ts_globpri e" "runrun (?f d1) = runrun (dsp s)"
      "q \<noteq> p \<Longrightarrow> p_pri (procs (?f d1) q) = p_pri (procs (dsp s) q)" for q
    using same_frameD [OF d1(2)] by (simp_all add: disp_simps) (simp add: set_pri_def)
  have xok: "tsproc_ok (s\<lparr>dsp := d'\<rparr>) y" if "pri_ok d' p" "ts_cpupri y = ts_cpupri x" "ts_upri y = ts_upri x"
    "ts_umdpri y = ts_umdpri x" "ts_procp y = p" "ts_uprilim y = ts_uprilim x" for d' y
    using that c pok by (simp add: tsproc_ok_def x_def p_def)
  show ?thesis
  proof (cases "onq Q p")
    case True
    from d1(4) obtain d3 where d3: "setbackdq (?f d1) p = Some d3"
      "disp_ok d3 (requeue Q p (nat (ts_globpri e)))" "same_frame (?f d1) d3" by blast
    let ?d = "d3\<lparr>runrun := runrun d3 + 1\<rparr>" and ?x = "x\<lparr>ts_timeleft := ts_quantum e\<rparr>"
    have run: "ts_tick s t = Some (s\<lparr>dsp := ?d, tsprocs := (tsprocs s)(t := ?x)\<rparr>)"
      using assms(3) zero d1(1) True e0 nu e(1) d3(1)
      by (simp add: ts_tick_def upd_ts_def upd_dsp_def Let_def x_def repri_def p_def)
    have "ts_inv (s\<lparr>dsp := ?d, tsprocs := (tsprocs s)(t := ?x)\<rparr>) (requeue Q p (nat (ts_globpri e)))"
      using d3 pk np same_frameD(4) [OF d3(3)] poks
      by (intro ts_inv_change [OF assms(1)] xok)
        (simp_all add: disp_ok_flags pri_ok_frame disp_simps x_def p_def)
    with run True pri same_frameD [OF d3(3)] show ?thesis by auto
  next
    case False
    let ?d = "(?f d1)\<lparr>runrun := runrun (?f d1) + 1\<rparr>" and ?x = "x\<lparr>ts_timeleft := 0, ts_flags := ts_flags x OR TSBACKQ\<rparr>"
    have run: "ts_tick s t = Some (s\<lparr>dsp := ?d, tsprocs := (tsprocs s)(t := ?x)\<rparr>)"
      using assms(3) zero d1(1) False e0 nu e(1)
      by (simp add: ts_tick_def upd_ts_def upd_dsp_def Let_def x_def repri_def p_def)
        (intro tsys.equality, simp_all add: fun_eq_iff)
    have "ts_inv (s\<lparr>dsp := ?d, tsprocs := (tsprocs s)(t := ?x)\<rparr>) Q"
      using d1(3) pk np False poks
      by (intro ts_inv_change [OF assms(1)] xok)
        (simp_all add: disp_ok_flags removed_id disp_simps x_def p_def)
    with run False pri show ?thesis by auto
  qed
qed

section \<open>Waking, preemption and sleep\<close>

definition same_core :: "tsproc \<Rightarrow> tsproc \<Rightarrow> bool" where
  "same_core x y \<longleftrightarrow> ts_cpupri x = ts_cpupri y \<and> ts_upri x = ts_upri y \<and> ts_umdpri x = ts_umdpri y \<and> ts_procp x = ts_procp y
     \<and> ts_uprilim x = ts_uprilim y"

lemma tsproc_ok_core: "same_core x y \<Longrightarrow> tsproc_ok s y \<Longrightarrow> pri_ok d (ts_procp y) \<Longrightarrow> tsproc_ok (s\<lparr>dsp := d\<rparr>) x"
  by (simp add: same_core_def tsproc_ok_def)

abbreviation pri_of :: "tsys \<Rightarrow> tsp \<Rightarrow> int" where
  "pri_of s t \<equiv> p_pri (procs (dsp s) (ts_procp (tsprocs s t)))"

definition at_back :: "(nat \<Rightarrow> procp list) \<Rightarrow> tsys \<Rightarrow> tsp \<Rightarrow> nat \<Rightarrow> procp list" where
  "at_back Q s t = Q(nat (pri_of s t) := Q (nat (pri_of s t)) @ [ts_procp (tsprocs s t)])"

definition at_front :: "(nat \<Rightarrow> procp list) \<Rightarrow> tsys \<Rightarrow> tsp \<Rightarrow> nat \<Rightarrow> procp list" where
  "at_front Q s t = Q(nat (pri_of s t) := ts_procp (tsprocs s t) # Q (nat (pri_of s t)))"

lemma ts_enqueue_ok:
  assumes "ts_inv s Q" "t \<in> set (ts_plist s)" "\<not> onq Q (ts_procp (tsprocs s t))" "same_core x (tsprocs s t)"
  shows "\<exists>d. setbackdq (dsp s) (ts_procp (tsprocs s t)) = Some d \<and> same_frame (dsp s) d
      \<and> ts_inv (s\<lparr>dsp := d, tsprocs := (tsprocs s)(t := x)\<rparr>) (at_back Q s t)"
    and "\<exists>d. setfrontdq (dsp s) (ts_procp (tsprocs s t)) = Some d \<and> same_frame (dsp s) d
      \<and> ts_inv (s\<lparr>dsp := d, tsprocs := (tsprocs s)(t := x)\<rparr>) (at_front Q s t)"
proof -
  note inv = ts_invD [OF assms(1)]
  note ok = inv(3) [OF assms(2)]
  have pk: "pri_ok (dsp s) (ts_procp (tsprocs s t))" using ok by (simp add: tsproc_ok_def)
  then have r: "0 \<le> pri_of s t" "pri_of s t < int (npri (dsp s))" by (simp_all add: pri_ok_def)
  have fin: "ts_inv (s\<lparr>dsp := d, tsprocs := (tsprocs s)(t := x)\<rparr>) Q'"
    if "same_frame (dsp s) d" "disp_ok d Q'" for d Q'
    using that pk tsproc_ok_core [OF assms(4) ok] same_frameD(4) [OF that(1)]
    by (intro ts_inv_change [OF assms(1)]) (simp_all add: pri_ok_frame)
  show "\<exists>d. setbackdq (dsp s) (ts_procp (tsprocs s t)) = Some d \<and> same_frame (dsp s) d
      \<and> ts_inv (s\<lparr>dsp := d, tsprocs := (tsprocs s)(t := x)\<rparr>) (at_back Q s t)"
    using setbackdq_at [OF inv(1) assms(3) refl r] fin unfolding at_back_def by blast
  show "\<exists>d. setfrontdq (dsp s) (ts_procp (tsprocs s t)) = Some d \<and> same_frame (dsp s) d
      \<and> ts_inv (s\<lparr>dsp := d, tsprocs := (tsprocs s)(t := x)\<rparr>) (at_front Q s t)"
    using setfrontdq_at [OF inv(1) assms(3) refl r] fin unfolding at_front_def by blast
qed

lemma ts_quantum_ok:
  assumes "ts_inv s Q" "t \<in> set (ts_plist s)"
  shows "ird (ts_dptbl s) (ts_umdpri (tsprocs s t)) = Some (dpe s (ts_umdpri (tsprocs s t)))"
    "0 < ts_quantum (dpe s (ts_umdpri (tsprocs s t)))"
  using ts_cfgD(4) [OF ts_invD(2) [OF assms(1)] tsproc_okD(6,7) [OF ts_invD(2,3) [OF assms(1)]]] assms(2)
  by (auto dest: dpent_okD)

lemma ts_wakeup_ok:
  assumes "ts_inv s Q" "t \<in> set (ts_plist s)" "\<not> onq Q (ts_procp (tsprocs s t))"
  defines "x \<equiv> (tsprocs s t)\<lparr>ts_flags := ts_flags (tsprocs s t) AND NOT (TSBACKQ OR TSFORK)\<rparr>"
  shows "\<exists>d. ts_wakeup s t = Some (s\<lparr>dsp := d, tsprocs := (tsprocs s)(t := x)\<rparr>)
      \<and> ts_inv (s\<lparr>dsp := d, tsprocs := (tsprocs s)(t := x)\<rparr>) (at_back Q s t) \<and> same_frame (dsp s) d"
proof -
  have core: "same_core x (tsprocs s t)" by (simp add: x_def same_core_def)
  obtain d where d: "setbackdq (dsp s) (ts_procp (tsprocs s t)) = Some d" "same_frame (dsp s) d"
      "ts_inv (s\<lparr>dsp := d, tsprocs := (tsprocs s)(t := x)\<rparr>) (at_back Q s t)"
    using ts_enqueue_ok(1) [OF assms(1-3) core] by blast
  then have "ts_wakeup s t = Some (s\<lparr>dsp := d, tsprocs := (tsprocs s)(t := x)\<rparr>)"
    by (simp add: ts_wakeup_def upd_ts_def Let_def x_def)
  with d show ?thesis by blast
qed

lemma ts_setrun_ok:
  assumes "ts_inv s Q" "t \<in> set (ts_plist s)" "\<not> onq Q (ts_procp (tsprocs s t))"
  defines "x \<equiv> (if ts_flags (tsprocs s t) AND TSKPRI = 0
      then (tsprocs s t)\<lparr>ts_timeleft := ts_quantum (dpe s (ts_umdpri (tsprocs s t))), ts_dispwait := 0\<rparr> else tsprocs s t)
        \<lparr>ts_flags := ts_flags (tsprocs s t) AND NOT (TSBACKQ OR TSFORK)\<rparr>"
  shows "\<exists>d. ts_setrun s t = Some (s\<lparr>dsp := d, tsprocs := (tsprocs s)(t := x)\<rparr>)
      \<and> ts_inv (s\<lparr>dsp := d, tsprocs := (tsprocs s)(t := x)\<rparr>) (at_back Q s t) \<and> same_frame (dsp s) d"
proof -
  have core: "same_core x (tsprocs s t)" by (auto simp: x_def same_core_def)
  obtain d where d: "setbackdq (dsp s) (ts_procp (tsprocs s t)) = Some d" "same_frame (dsp s) d"
      "ts_inv (s\<lparr>dsp := d, tsprocs := (tsprocs s)(t := x)\<rparr>) (at_back Q s t)"
    using ts_enqueue_ok(1) [OF assms(1-3) core] by blast
  then have "ts_setrun s t = Some (s\<lparr>dsp := d, tsprocs := (tsprocs s)(t := x)\<rparr>)"
    using ts_quantum_ok(1) [OF assms(1,2)] by (simp add: ts_setrun_def upd_ts_def Let_def x_def)
  with d show ?thesis by blast
qed

text \<open>What \<^verbatim>\<open>ts_preempt\<close> makes of the process, and whether it goes to the back of its queue.\<close>

definition preempt_flags :: "tsproc \<Rightarrow> u32" where
  "preempt_flags x = ts_flags x AND (TSBACKQ OR TSKPRI OR TSFORK)"

definition preempted :: "tsys \<Rightarrow> tsproc \<Rightarrow> tsproc" where
  "preempted s x =
    (if preempt_flags x = TSBACKQ then x\<lparr>ts_timeleft := ts_quantum (dpe s (ts_umdpri x)), ts_dispwait := 0,
        ts_flags := ts_flags x AND NOT TSBACKQ\<rparr>
     else if preempt_flags x = TSBACKQ OR TSKPRI then x\<lparr>ts_flags := ts_flags x AND NOT TSBACKQ\<rparr>
     else if preempt_flags x = TSBACKQ OR TSFORK then x\<lparr>ts_dispwait := 0, ts_flags := ts_flags x AND NOT (TSBACKQ OR TSFORK)\<rparr>
     else x)"

definition goes_back :: "tsproc \<Rightarrow> bool" where
  "goes_back x \<longleftrightarrow> preempt_flags x \<in> {TSBACKQ, TSBACKQ OR TSKPRI, TSBACKQ OR TSFORK}"

lemma ts_preempt_ok:
  assumes "ts_inv s Q" "t \<in> set (ts_plist s)" "\<not> onq Q (ts_procp (tsprocs s t))"
  shows "\<exists>d. ts_preempt s t = Some (s\<lparr>dsp := d, tsprocs := (tsprocs s)(t := preempted s (tsprocs s t))\<rparr>)
      \<and> ts_inv (s\<lparr>dsp := d, tsprocs := (tsprocs s)(t := preempted s (tsprocs s t))\<rparr>)
          (if goes_back (tsprocs s t) then at_back Q s t else at_front Q s t) \<and> same_frame (dsp s) d"
proof -
  let ?x = "preempted s (tsprocs s t)"
  have core: "same_core ?x (tsprocs s t)" by (auto simp: preempted_def same_core_def)
  show ?thesis
  proof (cases "goes_back (tsprocs s t)")
    case True
    obtain d where d: "setbackdq (dsp s) (ts_procp (tsprocs s t)) = Some d" "same_frame (dsp s) d"
        "ts_inv (s\<lparr>dsp := d, tsprocs := (tsprocs s)(t := ?x)\<rparr>) (at_back Q s t)"
      using ts_enqueue_ok(1) [OF assms core] by blast
    have "ts_preempt s t = Some (s\<lparr>dsp := d, tsprocs := (tsprocs s)(t := ?x)\<rparr>)"
      using True d(1) ts_quantum_ok(1) [OF assms(1,2)]
      by (auto simp: ts_preempt_def upd_ts_def Let_def preempted_def preempt_flags_def goes_back_def)
    with True d show ?thesis by auto
  next
    case False
    obtain d where d: "setfrontdq (dsp s) (ts_procp (tsprocs s t)) = Some d" "same_frame (dsp s) d"
        "ts_inv (s\<lparr>dsp := d, tsprocs := (tsprocs s)(t := ?x)\<rparr>) (at_front Q s t)"
      using ts_enqueue_ok(2) [OF assms core] by blast
    have "ts_preempt s t = Some (s\<lparr>dsp := d\<rparr>)" "?x = tsprocs s t"
      using False d(1) by (simp_all add: ts_preempt_def Let_def preempted_def preempt_flags_def goes_back_def)
    with False d show ?thesis by auto
  qed
qed

lemma ts_sleep_ok:
  assumes "ts_inv s Q" "t \<in> set (ts_plist s)" "\<not> onq Q (ts_procp (tsprocs s t))" "disp mod 128 \<le> ts_maxkmdpri s"
  shows "\<exists>s'. ts_sleep s t disp = Some s' \<and> ts_inv s' Q \<and> ts_flags (tsprocs s' t) AND TSKPRI \<noteq> 0
      \<and> pri_of s' t = ts_kmdpris s ! nat (ts_maxkmdpri s - disp mod 128)"
proof -
  note inv = ts_invD [OF assms(1)]
  let ?p = "ts_procp (tsprocs s t)" and ?x = "(tsprocs s t)\<lparr>ts_flags := ts_flags (tsprocs s t) OR TSKPRI\<rparr>"
  have "0 \<le> ts_maxkmdpri s - disp mod 128" "ts_maxkmdpri s - disp mod 128 \<le> ts_maxkmdpri s"
    using assms(4) by simp_all
  from ts_cfgD(5) [OF inv(2) this] obtain k where k: "ird (ts_kmdpris s) (ts_maxkmdpri s - disp mod 128) = Some k"
      "k = ts_kmdpris s ! nat (ts_maxkmdpri s - disp mod 128)" "0 \<le> k" "k < int (npri (dsp s))" by blast
  let ?d = "set_pri (dsp s) ?p k"
  have run: "ts_sleep s t disp = Some (s\<lparr>dsp := ?d, tsprocs := (tsprocs s)(t := ?x)\<rparr>)"
    using k(1) by (simp add: ts_sleep_def upd_ts_def upd_dsp_def Let_def)
  have core: "same_core ?x (tsprocs s t)" by (simp add: same_core_def)
  have "ts_inv (s\<lparr>dsp := ?d, tsprocs := (tsprocs s)(t := ?x)\<rparr>) Q"
    using disp_ok_set_pri [OF inv(1) assms(3)] pri_ok_set_pri k(3,4) tsproc_ok_core [OF core inv(3) [OF assms(2)]]
      inv(3) [OF assms(2)]
    by (intro ts_inv_change [OF assms(1)]) (simp_all add: disp_simps tsproc_ok_def)
  moreover have "bit (ts_flags (tsprocs s t) OR TSKPRI) 0" by (simp add: bit_or_iff)
  then have "(ts_flags (tsprocs s t) OR TSKPRI) AND TSKPRI \<noteq> 0" unfolding and_nonzero_iff by (intro exI [of _ 0]) simp
  ultimately show ?thesis using run k(2) by (auto simp: disp_simps)
qed

lemma ts_trapret_ok:
  assumes "ts_inv s Q" "t \<in> set (ts_plist s)" "\<not> onq Q (ts_procp (tsprocs s t))" "ts_flags (tsprocs s t) AND TSKPRI \<noteq> 0"
  defines "x \<equiv> repri s (ts_slpret (dpe s (ts_cpupri (tsprocs s t)))) (tsprocs s t)"
  defines "e \<equiv> dpe s (ts_umdpri x)"
  shows "\<exists>s'. ts_trapret s t = Some s' \<and> ts_inv s' Q
      \<and> tsprocs s' t = x\<lparr>ts_flags := ts_flags x AND NOT TSKPRI, ts_timeleft := ts_quantum e\<rparr>
      \<and> pri_of s' t = ts_globpri e \<and> curpri (dsp s') = ts_globpri e
      \<and> runrun (dsp s') = runrun (dsp s) + (if npwakecnt (dsp s) = 0 \<and> ts_globpri e < maxrunpri (dsp s) then 1 else 0)"
proof -
  note inv = ts_invD [OF assms(1)]
  note pok = tsproc_okD [OF inv(2) inv(3) [OF assms(2)]]
  note e0 = ts_cfgD(4) [OF inv(2) pok(1,2)]
  note c = dpent_okD [OF conjunct2 [OF e0]]
  let ?c = "ts_slpret (dpe s (ts_cpupri (tsprocs s t)))" and ?p = "ts_procp (tsprocs s t)"
  have xu: "0 \<le> ts_umdpri x" "ts_umdpri x \<le> ts_maxumdpri s"
    using clamp_range [OF ts_cfgD(1) [OF inv(2)]] by (simp_all add: x_def)
  have e: "ird (ts_dptbl s) (ts_umdpri x) = Some e" "dpent_ok s e"
    unfolding e_def using ts_cfgD(4) [OF inv(2) xu] by simp_all
  note g = dpent_okD [OF e(2)]
  have nu: "TS_NEWUMDPRI s ((tsprocs s t)\<lparr>ts_cpupri := ?c\<rparr>) = (tsprocs s t)\<lparr>ts_cpupri := ?c, ts_umdpri := ts_umdpri x\<rparr>"
    using newumdpri_clamp [OF inv(2), of "(tsprocs s t)\<lparr>ts_cpupri := ?c\<rparr>"] c pok by (simp add: x_def)
  let ?r = "\<lambda>d. if npwakecnt d = 0 \<and> curpri d < maxrunpri d then d\<lparr>runrun := runrun d + 1\<rparr> else d"
  let ?d = "?r ((set_pri (dsp s) ?p (ts_globpri e))\<lparr>curpri := ts_globpri e\<rparr>)"
  let ?x = "x\<lparr>ts_flags := ts_flags x AND NOT TSKPRI, ts_timeleft := ts_quantum e\<rparr>"
  have run: "ts_trapret s t = Some (s\<lparr>dsp := ?d, tsprocs := (tsprocs s)(t := ?x)\<rparr>)"
    using assms(4) e0 nu e(1)
    by (simp add: ts_trapret_def upd_ts_def upd_dsp_def Let_def x_def repri_def)
      (intro conjI impI tsys.equality, simp_all add: fun_eq_iff)
  have "ts_inv (s\<lparr>dsp := ?d, tsprocs := (tsprocs s)(t := ?x)\<rparr>) Q"
    using disp_ok_set_pri [OF inv(1) assms(3)] pri_ok_set_pri g c pok
    by (intro ts_inv_change [OF assms(1)]) (simp_all add: disp_simps disp_ok_flags tsproc_ok_def x_def)
  with run show ?thesis by (auto simp: disp_simps set_pri_def x_def)
qed

section \<open>Aging\<close>

text \<open>What the loop of \<^verbatim>\<open>ts_update\<close> leaves alone.\<close>

definition ts_frame :: "tsys \<Rightarrow> tsys \<Rightarrow> bool" where
  "ts_frame s s' \<longleftrightarrow> ts_plist s' = ts_plist s \<and> ts_dptbl s' = ts_dptbl s \<and> ts_maxumdpri s' = ts_maxumdpri s
     \<and> ts_maxupri s' = ts_maxupri s \<and> curproc (dsp s') = curproc (dsp s)
     \<and> (\<forall>u. ts_procp (tsprocs s' u) = ts_procp (tsprocs s u) \<and> ts_upri (tsprocs s' u) = ts_upri (tsprocs s u))
     \<and> (\<forall>q. p_stat (procs (dsp s') q) = p_stat (procs (dsp s) q) \<and> p_flag (procs (dsp s') q) = p_flag (procs (dsp s) q))"

lemma ts_frame_refl [simp]: "ts_frame s s"
  by (simp add: ts_frame_def)

lemma ts_frame_trans: "ts_frame s s' \<Longrightarrow> ts_frame s' s'' \<Longrightarrow> ts_frame s s''"
  by (simp add: ts_frame_def)

text \<open>The processes the loop considers: at a user mode priority, runnable or running, and not held.\<close>

definition ages :: "tsys \<Rightarrow> tsp \<Rightarrow> bool" where
  "ages s t \<longleftrightarrow> ts_flags (tsprocs s t) AND TSKPRI = 0 \<and> p_stat (ts_proc s t) \<in> {SRUN, SONPROC}
     \<and> p_flag (ts_proc s t) AND SPROCIO = 0"

lemma ts_update1_idle: "\<not> ages s t \<Longrightarrow> ts_update1 s t = Some s"
  by (auto simp: ts_update1_def ages_def)

lemma ts_update1_waiting:
  assumes "ts_inv s Q" "t \<in> set (ts_plist s)" "ages s t"
    and "s16 (ts_dispwait (tsprocs s t) + 1) \<le> ts_maxwait (dpe s (ts_umdpri (tsprocs s t)))"
  shows "ts_update1 s t = Some (upd_ts s t (\<lambda>x. x\<lparr>ts_dispwait := s16 (ts_dispwait x + 1)\<rparr>))"
  using assms ts_quantum_ok(1) [OF assms(1,2)] by (auto simp: ts_update1_def ages_def upd_ts_def Let_def ts_proc_def)

lemma ts_update1_boost:
  assumes "ts_inv s Q" "t \<in> set (ts_plist s)" "ages s t"
    and "s16 (ts_dispwait (tsprocs s t) + 1) > ts_maxwait (dpe s (ts_umdpri (tsprocs s t)))"
  defines "x \<equiv> repri s (ts_lwait (dpe s (ts_cpupri (tsprocs s t)))) (tsprocs s t)"
  defines "e \<equiv> dpe s (ts_umdpri x)" and "p \<equiv> ts_procp (tsprocs s t)"
  shows "\<exists>s'. ts_update1 s t = Some s' \<and> ts_inv s' (if onq Q p then requeue Q p (nat (ts_globpri e)) else Q)
     \<and> ts_frame s s' \<and> tsprocs s' t = (if onq Q p then x\<lparr>ts_timeleft := ts_quantum e\<rparr> else x\<lparr>ts_flags := ts_flags x OR TSBACKQ\<rparr>)
     \<and> pri_of s' t = ts_globpri e"
proof -
  note inv = ts_invD [OF assms(1)]
  note pok = tsproc_okD [OF inv(2) inv(3) [OF assms(2)]]
  note e0 = ts_cfgD(4) [OF inv(2) pok(1,2)]
  note c = dpent_okD [OF conjunct2 [OF e0]]
  let ?c = "ts_lwait (dpe s (ts_cpupri (tsprocs s t)))" and ?w = "s16 (ts_dispwait (tsprocs s t) + 1)"
  have xu: "0 \<le> ts_umdpri x" "ts_umdpri x \<le> ts_maxumdpri s"
    using clamp_range [OF ts_cfgD(1) [OF inv(2)]] by (simp_all add: x_def)
  have e: "ird (ts_dptbl s) (ts_umdpri x) = Some e" "dpent_ok s e"
    unfolding e_def using ts_cfgD(4) [OF inv(2) xu] by simp_all
  note g = dpent_okD [OF e(2)]
  have nu: "TS_NEWUMDPRI s ((tsprocs s t)\<lparr>ts_dispwait := w, ts_cpupri := ?c\<rparr>) =
      (tsprocs s t)\<lparr>ts_dispwait := w, ts_cpupri := ?c, ts_umdpri := ts_umdpri x\<rparr>" for w
    using newumdpri_clamp [OF inv(2), of "(tsprocs s t)\<lparr>ts_dispwait := w, ts_cpupri := ?c\<rparr>"] c pok
    by (simp add: x_def)
  let ?f = "\<lambda>d. if p = curproc d then (set_pri d p (ts_globpri e))\<lparr>curpri := ts_globpri e\<rparr> else set_pri d p (ts_globpri e)"
  have st: "stores_pri ?f p (ts_globpri e)" by (simp add: stores_pri_def)
  have poks: "pri_ok (dsp s) p" using pok(8) by (simp add: p_def)
  obtain d1 where d1: "dispdeq (dsp s) p = Some (onq Q p, d1)" "same_frame (dsp s) d1"
      "disp_ok (?f d1) (removed Q p)"
      "\<exists>d3. setbackdq (?f d1) p = Some d3 \<and> disp_ok d3 (requeue Q p (nat (ts_globpri e))) \<and> same_frame (?f d1) d3"
    using requeue_ok [OF inv(1) poks, of "ts_globpri e" "{?f}"] g st by auto
  have pk: "\<And>q. pri_ok (dsp s) q \<Longrightarrow> pri_ok (?f d1) q" using pri_ok_stored [OF st d1(2)] g by blast
  have np: "npri (?f d1) = npri (dsp s)" using same_frameD(4) [OF d1(2)] by (simp add: disp_simps)
  have cp: "curproc (?f d1) = curproc d1" "curproc d1 = curproc (dsp s)"
    using same_frameD(5) [OF d1(2)] by (simp_all add: set_pri_def)
  have fl: "p_stat (procs (?f d1) q) = p_stat (procs (dsp s) q)" "p_flag (procs (?f d1) q) = p_flag (procs (dsp s) q)" for q
    using stores_pri_frame [OF st cp(1)] same_frameD [OF d1(2)] by simp_all
  have pri: "p_pri (procs (?f d1) p) = ts_globpri e" by (simp add: disp_simps) 
  have xok: "tsproc_ok (s\<lparr>dsp := d'\<rparr>) y" if "pri_ok d' p" "same_core y x" for d' y
    using that c pok by (simp add: tsproc_ok_def x_def p_def same_core_def)
  have big: "ts_flags (tsprocs s t) AND TSKPRI = 0" "(p_stat (ts_proc s t) \<noteq> SRUN \<and> p_stat (ts_proc s t) \<noteq> SONPROC
      \<or> p_flag (ts_proc s t) AND SPROCIO \<noteq> 0) = False" "\<not> ?w \<le> ts_maxwait (dpe s (ts_umdpri (tsprocs s t)))"
    using assms(3,4) by (auto simp: ages_def)
  show ?thesis
  proof (cases "onq Q p")
    case True
    from d1(4) obtain d3 where d3: "setbackdq (?f d1) p = Some d3"
      "disp_ok d3 (requeue Q p (nat (ts_globpri e)))" "same_frame (?f d1) d3" by blast
    let ?x = "x\<lparr>ts_timeleft := ts_quantum e\<rparr>"
    let ?s = "s\<lparr>dsp := d3, tsprocs := (tsprocs s)(t := ?x)\<rparr>"
    have run: "ts_update1 s t = Some ?s"
      using big d1(1) True e0 nu e(1) d3(1) ts_quantum_ok(1) [OF assms(1,2)]
      by (cases "p = curproc d1") (auto simp: ts_update1_def upd_ts_def Let_def x_def repri_def p_def)
    have "ts_inv ?s (requeue Q p (nat (ts_globpri e)))"
      using d3 pk np same_frameD(4) [OF d3(3)] poks
      by (intro ts_inv_change [OF assms(1)] xok) (simp_all add: pri_ok_frame same_core_def)
    moreover have "ts_frame s ?s"
      using same_frameD [OF d3(3)] cp fl by (simp add: ts_frame_def x_def)
    moreover have "pri_of ?s t = ts_globpri e" using pri same_frameD(2) [OF d3(3)] by (simp add: x_def p_def)
    ultimately show ?thesis using run True by simp
  next
    case False
    let ?x = "x\<lparr>ts_flags := ts_flags x OR TSBACKQ\<rparr>"
    let ?s = "s\<lparr>dsp := ?f d1, tsprocs := (tsprocs s)(t := ?x)\<rparr>"
    have run: "ts_update1 s t = Some ?s"
      using big d1(1) False e0 nu e(1) ts_quantum_ok(1) [OF assms(1,2)]
      by (cases "p = curproc d1") (auto simp: ts_update1_def upd_ts_def Let_def x_def repri_def p_def)
    have "ts_inv ?s Q"
      using d1(3) pk np False poks
      by (intro ts_inv_change [OF assms(1)] xok) (simp_all add: removed_id same_core_def)
    moreover have "ts_frame s ?s" using cp fl by (simp add: ts_frame_def x_def)
    moreover have "pri_of ?s t = ts_globpri e" using pri by (simp add: x_def p_def)
    ultimately show ?thesis using run False by simp
  qed
qed

lemma ts_inv_core:
  assumes "ts_inv s Q" "same_core x (tsprocs s t)"
  shows "ts_inv (s\<lparr>tsprocs := (tsprocs s)(t := x)\<rparr>) Q"
proof -
  have "t \<in> set (ts_plist s) \<Longrightarrow> tsproc_ok (s\<lparr>dsp := dsp s\<rparr>) x"
    using tsproc_ok_core [OF assms(2), of s "dsp s"] ts_invD(3) [OF assms(1)] by (simp add: tsproc_ok_def)
  from ts_inv_change [OF assms(1) ts_invD(1) [OF assms(1)] refl _ this] show ?thesis by simp
qed

lemma ts_update1_ok:
  assumes "ts_inv s Q" "t \<in> set (ts_plist s)"
  shows "\<exists>s' Q'. ts_update1 s t = Some s' \<and> ts_inv s' Q' \<and> ts_frame s s' \<and> (\<forall>q. onq Q' q \<longleftrightarrow> onq Q q)"
proof -
  consider "\<not> ages s t" | "ages s t" "s16 (ts_dispwait (tsprocs s t) + 1) \<le> ts_maxwait (dpe s (ts_umdpri (tsprocs s t)))"
    | "ages s t" "s16 (ts_dispwait (tsprocs s t) + 1) > ts_maxwait (dpe s (ts_umdpri (tsprocs s t)))" by linarith
  then show ?thesis
  proof cases
    case 1
    then show ?thesis using assms(1) ts_frame_refl by (auto simp: ts_update1_idle)
  next
    case 2
    let ?x = "(tsprocs s t)\<lparr>ts_dispwait := s16 (ts_dispwait (tsprocs s t) + 1)\<rparr>"
    have "ts_inv (s\<lparr>tsprocs := (tsprocs s)(t := ?x)\<rparr>) Q"
      by (rule ts_inv_core [OF assms(1)]) (simp add: same_core_def)
    then show ?thesis
      using ts_update1_waiting [OF assms 2] by (auto simp: upd_ts_def ts_frame_def intro!: exI [of _ Q])
  next
    case 3
    let ?p = "ts_procp (tsprocs s t)"
    from ts_update1_boost [OF assms 3] obtain s' j where "ts_update1 s t = Some s'"
        "ts_inv s' (if onq Q ?p then requeue Q ?p j else Q)" "ts_frame s s'" by blast
    then show ?thesis by (intro exI [of _ s'] exI [of _ "if onq Q ?p then requeue Q ?p j else Q"]) (auto simp: onq_requeue)
  qed
qed

lemma ts_update_list_ok:
  "ts_inv s Q \<Longrightarrow> set ts \<subseteq> set (ts_plist s) \<Longrightarrow>
   \<exists>s' Q'. ts_update_list s ts = Some s' \<and> ts_inv s' Q' \<and> ts_frame s s' \<and> (\<forall>q. onq Q' q \<longleftrightarrow> onq Q q)"
proof (induction ts arbitrary: s Q)
  case Nil
  then show ?case by auto
next
  case (Cons t ts)
  then obtain s1 Q1 where s1: "ts_update1 s t = Some s1" "ts_inv s1 Q1" "ts_frame s s1" "\<forall>q. onq Q1 q \<longleftrightarrow> onq Q q"
    using ts_update1_ok [of s Q t] by auto
  with Cons.prems(2) have "set ts \<subseteq> set (ts_plist s1)" by (simp add: ts_frame_def)
  from Cons.IH [OF s1(2) this] s1 show ?case using ts_frame_trans by fastforce
qed

section \<open>Parameters and class changes\<close>

lemma ts_setumdpri_ok:
  assumes "ts_inv s Q" "t \<in> set (ts_plist s)" "ts_procp (tsprocs s t) = curproc (dsp s) \<Longrightarrow> \<not> onq Q (ts_procp (tsprocs s t))"
  defines "p \<equiv> ts_procp (tsprocs s t)" and "e \<equiv> dpe s (ts_umdpri (tsprocs s t))"
  shows "\<exists>d x. ts_setumdpri s t = Some (s\<lparr>dsp := d, tsprocs := (tsprocs s)(t := x)\<rparr>)
      \<and> ts_inv (s\<lparr>dsp := d, tsprocs := (tsprocs s)(t := x)\<rparr>) (if onq Q p then requeue Q p (nat (ts_globpri e)) else Q)
      \<and> same_core x (tsprocs s t) \<and> ts_nice x = ts_nice (tsprocs s t) \<and> p_pri (procs d p) = ts_globpri e"
proof -
  note inv = ts_invD [OF assms(1)]
  note pok = tsproc_okD [OF inv(2) inv(3) [OF assms(2)]]
  have e: "ird (ts_dptbl s) (ts_umdpri (tsprocs s t)) = Some e" "dpent_ok s e"
    unfolding e_def using ts_cfgD(4) [OF inv(2) pok(6,7)] by simp_all
  note g = dpent_okD [OF e(2)]
  have poks: "pri_ok (dsp s) p" using pok(8) by (simp add: p_def)
  have fin: "ts_inv (s\<lparr>dsp := d, tsprocs := (tsprocs s)(t := x)\<rparr>) Q'"
    if "disp_ok d Q'" "npri d = npri (dsp s)" "\<And>q. pri_ok (dsp s) q \<Longrightarrow> pri_ok d q" "same_core x (tsprocs s t)" for d x Q'
    using that poks tsproc_ok_core [OF that(4) inv(3) [OF assms(2)]] unfolding p_def
    by (intro ts_inv_change [OF assms(1)]) auto
  show ?thesis
  proof (cases "p = curproc (dsp s)")
    case True
    then have off: "\<not> onq Q p" using assms(3) by (simp add: p_def)
    let ?b = "(set_pri (dsp s) p (ts_globpri e))\<lparr>curpri := ts_globpri e\<rparr>"
    let ?hi = "ts_globpri e > maxrunpri (dsp s)"
    define d where "d = (if ?hi then ?b else ?b\<lparr>runrun := runrun ?b + 1\<rparr>)"
    define x where "x = (if ?hi then (tsprocs s t)\<lparr>ts_timeleft := ts_quantum e\<rparr>
        else (tsprocs s t)\<lparr>ts_flags := ts_flags (tsprocs s t) OR TSBACKQ\<rparr>)"
    have run: "ts_setumdpri s t = Some (s\<lparr>dsp := d, tsprocs := (tsprocs s)(t := x)\<rparr>)"
      using True e(1) by (auto simp: ts_setumdpri_def upd_ts_def upd_dsp_def Let_def p_def d_def x_def disp_simps)
    have dok: "disp_ok d Q" "npri d = npri (dsp s)" "p_pri (procs d p) = ts_globpri e"
      using disp_ok_set_pri [OF inv(1) off] by (auto simp: d_def disp_ok_flags disp_simps)
    moreover have "\<And>q. pri_ok (dsp s) q \<Longrightarrow> pri_ok d q" using pri_ok_set_pri g by (auto simp: d_def)
    moreover have core: "same_core x (tsprocs s t)" "ts_nice x = ts_nice (tsprocs s t)" by (auto simp: x_def same_core_def)
    ultimately have "ts_inv (s\<lparr>dsp := d, tsprocs := (tsprocs s)(t := x)\<rparr>) Q" by (intro fin)
    with run off dok(3) core show ?thesis by auto
  next
    case False
    let ?f = "\<lambda>d. set_pri d p (ts_globpri e)"
    let ?r = "\<lambda>d. if ts_globpri e > curpri (?f d) then (?f d)\<lparr>runrun := runrun (?f d) + 1\<rparr> else ?f d"
    have st: "stores_pri ?f p (ts_globpri e)" "stores_pri ?r p (ts_globpri e)" by (auto simp: stores_pri_def)
    obtain d1 where d1: "dispdeq (dsp s) p = Some (onq Q p, d1)" "same_frame (dsp s) d1" "disp_ok (?f d1) (removed Q p)"
        "\<exists>d3. setbackdq (?r d1) p = Some d3 \<and> disp_ok d3 (requeue Q p (nat (ts_globpri e))) \<and> same_frame (?r d1) d3"
      using requeue_ok [OF inv(1) poks, of "ts_globpri e" "{?f, ?r}"] g st by auto
    note np = stores_priD(3) [OF st(1), of d1] stores_priD(3) [OF st(2), of d1] same_frameD(4) [OF d1(2)]
    have pk: "pri_ok (dsp s) q \<Longrightarrow> pri_ok (?f d1) q" "pri_ok (dsp s) q \<Longrightarrow> pri_ok (?r d1) q" for q
      using pri_ok_stored [OF st(1) d1(2)] pri_ok_stored [OF st(2) d1(2)] g by blast+
    have pri: "p_pri (procs (?f d1) p) = ts_globpri e" "p_pri (procs (?r d1) p) = ts_globpri e"
      using stores_priD(2) [OF st(2), of d1] by (simp_all add: disp_simps)
    show ?thesis
    proof (cases "onq Q p")
      case True
      from d1(4) obtain d3 where d3: "setbackdq (?r d1) p = Some d3"
        "disp_ok d3 (requeue Q p (nat (ts_globpri e)))" "same_frame (?r d1) d3" by blast
      let ?x = "(tsprocs s t)\<lparr>ts_timeleft := ts_quantum e\<rparr>"
      have core: "same_core ?x (tsprocs s t)" by (simp add: same_core_def)
      have "ts_setumdpri s t = Some (s\<lparr>dsp := d3, tsprocs := (tsprocs s)(t := ?x)\<rparr>)"
        using False True e(1) d1(1) d3(1)
        by (auto simp: ts_setumdpri_def upd_ts_def upd_dsp_def Let_def p_def split: if_splits)
      moreover have "ts_inv (s\<lparr>dsp := d3, tsprocs := (tsprocs s)(t := ?x)\<rparr>) (requeue Q p (nat (ts_globpri e)))"
        using d3(2) np same_frameD(4) [OF d3(3)] pk(2) core by (intro fin) (simp_all add: pri_ok_frame [OF d3(3)])
      ultimately show ?thesis using True core pri(2) same_frameD(2) [OF d3(3), of p]
        by (intro exI [of _ d3] exI [of _ ?x]) simp
    next
      case off: False
      let ?x = "(tsprocs s t)\<lparr>ts_flags := ts_flags (tsprocs s t) OR TSBACKQ\<rparr>"
      have core: "same_core ?x (tsprocs s t)" by (simp add: same_core_def)
      have "ts_setumdpri s t = Some (s\<lparr>dsp := ?f d1, tsprocs := (tsprocs s)(t := ?x)\<rparr>)"
        using False off e(1) d1(1) by (auto simp: ts_setumdpri_def upd_ts_def upd_dsp_def Let_def p_def)
      moreover have "ts_inv (s\<lparr>dsp := ?f d1, tsprocs := (tsprocs s)(t := ?x)\<rparr>) Q"
        using d1(3) np pk(1) core removed_id [OF off] by (intro fin) simp_all
      ultimately show ?thesis using off core pri(1) by (intro exI [of _ "?f d1"] exI [of _ ?x]) simp
    qed
  qed
qed

definition parms_valid :: "tsys \<Rightarrow> tsparms \<Rightarrow> bool" where
  "parms_valid s pa \<longleftrightarrow>
     (par_uprilim pa = TS_NOCHANGE \<or> - ts_maxupri s \<le> par_uprilim pa \<and> par_uprilim pa \<le> ts_maxupri s)
     \<and> (par_upri pa = TS_NOCHANGE \<or> - ts_maxupri s \<le> par_upri pa \<and> par_upri pa \<le> ts_maxupri s)"

lemma ts_parmsin_valid: "ts_parmsin s pa cr cid t = None \<Longrightarrow> parms_valid s pa"
  by (auto simp: ts_parmsin_def parms_valid_def split: if_splits)

text \<open>The limit and the user priority a request leads to.\<close>

definition new_lim :: "tsproc \<Rightarrow> tsparms \<Rightarrow> int" where
  "new_lim x pa = (if par_uprilim pa = TS_NOCHANGE then ts_uprilim x else par_uprilim pa)"

definition new_upri :: "tsproc \<Rightarrow> tsparms \<Rightarrow> int" where
  "new_upri x pa = min (if par_upri pa = TS_NOCHANGE then ts_upri x else par_upri pa) (new_lim x pa)"

lemma new_upri_range:
  assumes "ts_cfg s" "tsproc_ok s x" "parms_valid s pa"
  shows "- ts_maxupri s \<le> new_upri x pa" "new_upri x pa \<le> new_lim x pa" "new_lim x pa \<le> ts_maxupri s"
  using tsproc_okD(3,9,10) [OF assms(1,2)] assms(3) by (auto simp: new_upri_def new_lim_def parms_valid_def)

definition curproc_off :: "tsys \<Rightarrow> (nat \<Rightarrow> procp list) \<Rightarrow> bool" where
  "curproc_off s Q \<longleftrightarrow> \<not> onq Q (curproc (dsp s))"

lemma ts_setumdpri_obtain:
  assumes "ts_inv s Q" "t \<in> set (ts_plist s)" "curproc_off s Q"
  obtains s' Q' where "ts_setumdpri s t = Some s'" "ts_inv s' Q'" "\<forall>q. onq Q' q \<longleftrightarrow> onq Q q"
    "same_core (tsprocs s' t) (tsprocs s t)" "ts_nice (tsprocs s' t) = ts_nice (tsprocs s t)"
    "p_pri (procs (dsp s') (ts_procp (tsprocs s t))) = ts_globpri (dpe s (ts_umdpri (tsprocs s t)))"
    "ts_plist s' = ts_plist s" "tspexists s' = tspexists s"
proof -
  let ?p = "ts_procp (tsprocs s t)"
  have off: "?p = curproc (dsp s) \<Longrightarrow> \<not> onq Q ?p" using assms(3) by (auto simp: curproc_off_def)
  let ?Q = "if onq Q ?p then requeue Q ?p (nat (ts_globpri (dpe s (ts_umdpri (tsprocs s t))))) else Q"
  from ts_setumdpri_ok [OF assms(1,2) off] obtain d z
    where res: "ts_setumdpri s t = Some (s\<lparr>dsp := d, tsprocs := (tsprocs s)(t := z)\<rparr>)"
      "ts_inv (s\<lparr>dsp := d, tsprocs := (tsprocs s)(t := z)\<rparr>) ?Q" "same_core z (tsprocs s t)"
      "ts_nice z = ts_nice (tsprocs s t)" "p_pri (procs d ?p) = ts_globpri (dpe s (ts_umdpri (tsprocs s t)))" by blast
  show ?thesis by (rule that [OF res(1,2)]) (use res in \<open>simp_all add: onq_requeue\<close>)
qed

lemma ts_parmsset_ok:
  assumes "ts_inv s Q" "t \<in> set (ts_plist s)" "parms_valid s pa" "curproc_off s Q"
    and perm: "\<And>cr. reqcr = Some cr \<Longrightarrow> new_lim (tsprocs s t) pa \<le> ts_uprilim (tsprocs s t) \<or> suser cr"
  shows "\<exists>s' Q'. ts_parmsset s pa t reqcr = Some (Inr s') \<and> ts_inv s' Q' \<and> (\<forall>q. onq Q' q \<longleftrightarrow> onq Q q)
     \<and> ts_uprilim (tsprocs s' t) = new_lim (tsprocs s t) pa \<and> ts_upri (tsprocs s' t) = new_upri (tsprocs s t) pa
     \<and> ts_cpupri (tsprocs s' t) = ts_cpupri (tsprocs s t) \<and> ts_plist s' = ts_plist s
     \<and> (ts_flags (tsprocs s t) AND TSKPRI = 0 \<longrightarrow> pri_of s' t = ts_globpri (dpe s (ts_umdpri (tsprocs s' t))))"
proof -
  note inv = ts_invD [OF assms(1)]
  note ok = inv(3) [OF assms(2)]
  note pok = tsproc_okD [OF inv(2) ok] and rng = new_upri_range [OF inv(2) ok assms(3)]
  let ?p = "tsprocs s t"
  define n where "n = (let nice = s8 (20 - cdiv (par_upri pa * 20) (ts_maxupri s)) in if nice = 40 then 39 else nice)"
  define x where "x = ?p\<lparr>ts_uprilim := new_lim ?p pa, ts_upri := new_upri ?p pa,
      ts_umdpri := clamp (ts_maxumdpri s) (ts_cpupri ?p + new_upri ?p pa), ts_nice := n\<rparr>"
  let ?s = "s\<lparr>tsprocs := (tsprocs s)(t := x)\<rparr>"
  have "TS_NEWUMDPRI s (?p\<lparr>ts_uprilim := new_lim ?p pa, ts_upri := new_upri ?p pa\<rparr>) =
      ?p\<lparr>ts_uprilim := new_lim ?p pa, ts_upri := new_upri ?p pa, ts_umdpri := clamp (ts_maxumdpri s) (ts_cpupri ?p + new_upri ?p pa)\<rparr>"
    using newumdpri_clamp [OF inv(2), of "?p\<lparr>ts_uprilim := new_lim ?p pa, ts_upri := new_upri ?p pa\<rparr>"] pok rng by simp
  moreover have "\<not> (reqcr \<noteq> None \<and> new_lim ?p pa > ts_uprilim ?p \<and> \<not> suser (the reqcr))"
    using perm by fastforce
  moreover have "(if (if par_upri pa = TS_NOCHANGE then ts_upri ?p else par_upri pa) > new_lim ?p pa then new_lim ?p pa
      else (if par_upri pa = TS_NOCHANGE then ts_upri ?p else par_upri pa)) = new_upri ?p pa"
    by (simp add: new_upri_def)
  ultimately have run: "ts_parmsset s pa t reqcr = (if ts_flags ?p AND TSKPRI \<noteq> 0 then Some (Inr ?s)
      else do { s' \<leftarrow> ts_setumdpri (s\<lparr>tsprocs := (tsprocs s)(t := x\<lparr>ts_dispwait := 0\<rparr>)\<rparr>) t; Some (Inr s') })"
    by (auto simp: ts_parmsset_def new_lim_def [symmetric] upd_ts_def Let_def x_def n_def)
  have xok: "tsproc_ok (s\<lparr>dsp := dsp s\<rparr>) y" if "same_core y x" for y
    using that pok rng by (simp add: tsproc_ok_def x_def same_core_def)
  have inv1: "ts_inv (s\<lparr>tsprocs := (tsprocs s)(t := y)\<rparr>) Q" if "same_core y x" for y
    using ts_inv_change [OF assms(1) inv(1) refl _ xok [OF that]] by simp
  show ?thesis
  proof (cases "ts_flags ?p AND TSKPRI = 0")
    case False
    then show ?thesis using run inv1 [of x] by (auto simp: same_core_def x_def)
  next
    case True
    let ?y = "x\<lparr>ts_dispwait := 0\<rparr>"
    let ?s1 = "s\<lparr>tsprocs := (tsprocs s)(t := ?y)\<rparr>"
    have i1: "ts_inv ?s1 Q" by (rule inv1) (simp add: same_core_def)
    have off: "curproc_off ?s1 Q" using assms(4) by (simp add: curproc_off_def)
    have mem: "t \<in> set (ts_plist ?s1)" using assms(2) by simp
    from ts_setumdpri_obtain [OF i1 mem off] obtain s' Q' where res: "ts_setumdpri ?s1 t = Some s'" "ts_inv s' Q'"
        "\<forall>q. onq Q' q \<longleftrightarrow> onq Q q" "same_core (tsprocs s' t) (tsprocs ?s1 t)" "ts_plist s' = ts_plist ?s1"
        "p_pri (procs (dsp s') (ts_procp (tsprocs ?s1 t))) = ts_globpri (dpe ?s1 (ts_umdpri (tsprocs ?s1 t)))" by blast
    with run True show ?thesis
      by (intro exI [of _ s'] exI [of _ Q']) (simp add: same_core_def x_def dpe_def)
  qed
qed

lemma ts_parmsset_eperm:
  assumes "reqcr = Some cr" "new_lim (tsprocs s t) pa > ts_uprilim (tsprocs s t)" "\<not> suser cr"
  shows "ts_parmsset s pa t reqcr = Some (Inl EPERM)"
  using assms by (simp add: ts_parmsset_def new_lim_def Let_def)

lemma parms_enter_range:
  assumes "ts_cfg s" "parms_valid s pa"
  defines "lim \<equiv> (if par_uprilim pa = TS_NOCHANGE then 0 else par_uprilim pa)"
  defines "upri \<equiv> (if par_upri pa = TS_NOCHANGE then lim else if par_upri pa > lim then lim else par_upri pa)"
  shows "- ts_maxupri s \<le> upri" "upri \<le> lim" "lim \<le> ts_maxupri s"
  using ts_cfgD(2) [OF assms(1)] assms(2) by (auto simp: parms_valid_def lim_def upri_def)

lemma tsmed_range: "ts_cfg s \<Longrightarrow> 0 \<le> tsmedumdpri s \<and> tsmedumdpri s \<le> ts_maxumdpri s"
  using ts_cfgD(1) [of s] by (simp add: tsmedumdpri_def)

lemma ts_inv_add:
  assumes "ts_inv s Q" "tsproc_ok s x"
  shows "ts_inv (s\<lparr>tsprocs := (tsprocs s)(t := x), ts_plist := t # ts_plist s\<rparr>) Q"
  using assms unfolding ts_inv_def ts_cfg_def tsproc_ok_def dpent_ok_def dpent_bad_def by auto

lemma ts_inv_timeout: "ts_inv (s\<lparr>ts_timeouts := n, tspexists := b\<rparr>) Q = ts_inv s Q"
  by (simp add: ts_inv_def ts_cfg_def tsproc_ok_def dpent_ok_def dpent_bad_def)

text \<open>The structure \<^verbatim>\<open>ts_enterclass\<close> sets up before it assigns the priority.\<close>

definition enter_proc :: "tsys \<Rightarrow> tsparms option \<Rightarrow> procp \<Rightarrow> tsp \<Rightarrow> tsproc" where
  "enter_proc s parms pp t =
    (case parms of
       None \<Rightarrow> (tsprocs s t)\<lparr>ts_uprilim := 0, ts_upri := 0, ts_nice := 20,
                ts_umdpri := tsmedumdpri s, ts_cpupri := tsmedumdpri s\<rparr>
     | Some pa \<Rightarrow>
         let lim = (if par_uprilim pa = TS_NOCHANGE then 0 else par_uprilim pa);
             upri = (if par_upri pa = TS_NOCHANGE then lim else if par_upri pa > lim then lim else par_upri pa)
         in TS_NEWUMDPRI s ((tsprocs s t)\<lparr>ts_uprilim := lim, ts_upri := upri,
              ts_nice := s8 (20 - cdiv (20 * upri) (ts_maxupri s)), ts_cpupri := tsmedumdpri s\<rparr>))
    \<lparr>ts_dispwait := 0, ts_flags := 0, ts_procp := pp\<rparr>"

lemma enter_proc_ok:
  assumes "ts_cfg s" "\<And>pa. parms = Some pa \<Longrightarrow> parms_valid s pa" "pri_ok (dsp s) pp"
  shows "tsproc_ok s (enter_proc s parms pp t)"
proof (cases parms)
  case None
  then show ?thesis
    using tsmed_range [OF assms(1)] ts_cfgD(2) [OF assms(1)] assms(3)
    by (simp add: enter_proc_def tsproc_ok_def clamp_def)
next
  case (Some pa)
  note rng = parms_enter_range [OF assms(1) assms(2) [OF Some]]
  show ?thesis
    using Some rng tsmed_range [OF assms(1)] assms(3)
      newumdpri_clamp [OF assms(1), of "(tsprocs s t)\<lparr>ts_uprilim := (if par_uprilim pa = TS_NOCHANGE then 0 else par_uprilim pa),
        ts_upri := (if par_upri pa = TS_NOCHANGE then (if par_uprilim pa = TS_NOCHANGE then 0 else par_uprilim pa)
          else if par_upri pa > (if par_uprilim pa = TS_NOCHANGE then 0 else par_uprilim pa)
            then (if par_uprilim pa = TS_NOCHANGE then 0 else par_uprilim pa) else par_upri pa),
        ts_nice := n, ts_cpupri := tsmedumdpri s\<rparr>" for n]
    by (simp add: enter_proc_def tsproc_ok_def Let_def del: if_split)
qed

lemma ts_enterclass_ok:
  assumes "ts_inv s Q" "t \<notin> set (ts_plist s)" "\<And>pa. parms = Some pa \<Longrightarrow> parms_valid s pa" "pri_ok (dsp s) pp"
    and "curproc_off s Q" "reqcr = None \<or> parms = None"
  shows "\<exists>s' Q'. ts_enterclass s parms pp (Some t) reqcr = Some (Inr s') \<and> ts_inv s' Q'
     \<and> (\<forall>q. onq Q' q \<longleftrightarrow> onq Q q) \<and> ts_plist s' = t # ts_plist s \<and> ts_procp (tsprocs s' t) = pp
     \<and> p_pri (procs (dsp s') pp) = ts_globpri (dpe s (ts_umdpri (tsprocs s' t)))
     \<and> same_core (tsprocs s' t) (enter_proc s parms pp t)"
proof -
  let ?x = "enter_proc s parms pp t"
  let ?s = "s\<lparr>tsprocs := (tsprocs s)(t := ?x), ts_plist := t # ts_plist s\<rparr>"
  have run: "ts_enterclass s parms pp (Some t) reqcr = do { s' \<leftarrow> ts_setumdpri ?s t;
      Some (Inr (if tspexists s' then s' else s'\<lparr>ts_timeouts := ts_timeouts s' + 1, tspexists := True\<rparr>)) }"
    using assms(6) by (cases parms) (auto simp: ts_enterclass_def enter_proc_def Let_def)
  have i1: "ts_inv ?s Q"
    by (rule ts_inv_add [OF assms(1) enter_proc_ok [OF ts_invD(2) [OF assms(1)] assms(3,4)]])
  have pp: "ts_procp ?x = pp" by (simp add: enter_proc_def split: option.split)
  have off: "curproc_off ?s Q" using assms(5) by (simp add: curproc_off_def)
  have mem: "t \<in> set (ts_plist ?s)" by simp
  from ts_setumdpri_obtain [OF i1 mem off] obtain s' Q' where res: "ts_setumdpri ?s t = Some s'" "ts_inv s' Q'"
      "\<forall>q. onq Q' q \<longleftrightarrow> onq Q q" "same_core (tsprocs s' t) (tsprocs ?s t)" "ts_plist s' = ts_plist ?s"
      "p_pri (procs (dsp s') (ts_procp (tsprocs ?s t))) = ts_globpri (dpe ?s (ts_umdpri (tsprocs ?s t)))" by blast
  then show ?thesis
    using run pp
    by (intro exI [of _ "if tspexists s' then s' else s'\<lparr>ts_timeouts := ts_timeouts s' + 1, tspexists := True\<rparr>"] exI [of _ Q'])
      (auto simp: same_core_def ts_inv_timeout dpe_def)
qed

text \<open>The credentials matter only for the one check: a requester that is not the super-user asks for a positive limit.\<close>

definition ts_enter_denied :: "tsparms \<Rightarrow> cred option \<Rightarrow> bool" where
  "ts_enter_denied pa reqcr \<longleftrightarrow> reqcr \<noteq> None \<and> (if par_uprilim pa = TS_NOCHANGE then 0 else par_uprilim pa) > 0 \<and> \<not> suser (the reqcr)"

lemma ts_enterclass_perm:
  "ts_enter_denied pa reqcr \<Longrightarrow> ts_enterclass s (Some pa) pp (Some t) reqcr = Some (Inl EPERM)"
  "\<not> ts_enter_denied pa reqcr \<Longrightarrow> ts_enterclass s (Some pa) pp (Some t) reqcr = ts_enterclass s (Some pa) pp (Some t) None"
  unfolding ts_enterclass_def ts_enter_denied_def Let_def option.case by (simp_all only: if_P if_not_P) simp_all

lemma ts_fork_ok:
  assumes "ts_inv s Q" "pt \<in> set (ts_plist s)" "pri_ok (dsp s) cp"
  shows "\<exists>s'. ts_fork s pt cp ct = Some s' \<and> ts_inv s' Q \<and> ts_plist s' = ct # ts_plist s \<and> dsp s' = dsp s
     \<and> ts_umdpri (tsprocs s' ct) = ts_umdpri (tsprocs s pt) \<and> ts_procp (tsprocs s' ct) = cp"
proof -
  note inv = ts_invD [OF assms(1)]
  let ?p = "tsprocs s pt"
  let ?x = "\<lparr>ts_timeleft = ts_quantum (dpe s (ts_umdpri ?p)), ts_cpupri = ts_cpupri ?p, ts_uprilim = ts_uprilim ?p, ts_upri = ts_upri ?p,
          ts_umdpri = ts_umdpri ?p, ts_nice = ts_nice ?p, ts_flags = ts_flags ?p AND NOT TSBACKQ, ts_dispwait = 0, ts_procp = cp\<rparr>"
  have "ts_fork s pt cp ct = Some (s\<lparr>tsprocs := (tsprocs s)(ct := ?x), ts_plist := ct # ts_plist s\<rparr>)"
    using ts_quantum_ok(1) [OF assms(1,2)] by (simp add: ts_fork_def Let_def)
  moreover have "tsproc_ok s ?x" using inv(3) [OF assms(2)] assms(3) by (simp add: tsproc_ok_def)
  ultimately show ?thesis using ts_inv_add [OF assms(1)] by simp
qed

lemma ts_forkret_ok:
  assumes "ts_inv s Q" "ct \<in> set (ts_plist s)" "\<not> onq Q (ts_procp (tsprocs s ct))"
  shows "\<exists>s'. ts_forkret s ct pt = Some s' \<and> ts_inv s' (at_back Q s ct)"
proof -
  obtain d where d: "setbackdq (dsp s) (ts_procp (tsprocs s ct)) = Some d"
      "ts_inv (s\<lparr>dsp := d, tsprocs := (tsprocs s)(ct := tsprocs s ct)\<rparr>) (at_back Q s ct)"
    using ts_enqueue_ok(1) [OF assms, of "tsprocs s ct"] by (auto simp: same_core_def)
  have i: "ts_inv (s\<lparr>dsp := d\<rparr>) (at_back Q s ct)" using d(2) by simp
  show ?thesis
  proof (cases pt)
    case None
    with d(1) i show ?thesis by (simp add: ts_forkret_def)
  next
    case (Some t)
    let ?s = "s\<lparr>dsp := d\<lparr>runrun := runrun d + 1\<rparr>\<rparr>"
      and ?x = "(tsprocs s t)\<lparr>ts_flags := ts_flags (tsprocs s t) OR (TSBACKQ OR TSFORK)\<rparr>"
    have "ts_inv ?s (at_back Q s ct)"
      using i unfolding ts_inv_def ts_cfg_def tsproc_ok_def dpent_ok_def dpent_bad_def by (simp add: disp_ok_flags)
    then have "ts_inv (?s\<lparr>tsprocs := (tsprocs ?s)(t := ?x)\<rparr>) (at_back Q s ct)"
      by (rule ts_inv_core) (simp add: same_core_def)
    moreover have "ts_forkret s ct pt = Some (?s\<lparr>tsprocs := (tsprocs ?s)(t := ?x)\<rparr>)"
      using Some d(1) by (simp add: ts_forkret_def upd_ts_def upd_dsp_def)
    ultimately show ?thesis by blast
  qed
qed

lemma ts_exitclass_ok: "ts_inv s Q \<Longrightarrow> ts_inv (ts_exitclass s t) Q"
  using set_remove1_subset [of t "ts_plist s"]
  by (auto simp: ts_exitclass_def ts_inv_def ts_cfg_def tsproc_ok_def dpent_ok_def dpent_bad_def)

lemma dptbl_set_map2: "length tbl = length es \<Longrightarrow> dptbl_set tbl es = Some (map2 dpent_set tbl es)"
  by (induction tbl es rule: dptbl_set.induct) auto

lemma ts_admin_ok:
  assumes "ts_inv s Q" "\<And>tmp. utbl = Some tmp \<Longrightarrow> int (length tmp) = ts_maxumdpri s + 1"
  shows "\<exists>r. ts_admin s adm utbl out1 out2 cr = Some r \<and> (\<forall>out s'. r = Inr (out, s') \<longrightarrow> ts_inv s' Q \<and> (s' \<noteq> s \<longrightarrow> suser cr))"
proof -
  note inv = ts_invD [OF assms(1)]
  have len: "int (length (ts_dptbl s)) = ts_maxumdpri s + 1" using inv(2) by (simp add: ts_cfg_def)
  have set: "\<exists>tbl. dptbl_set (ts_dptbl s) tmp = Some tbl \<and> ts_inv (s\<lparr>ts_dptbl := tbl\<rparr>) Q"
    if "utbl = Some tmp" "\<not> list_ex (dpent_bad s) tmp" for tmp
  proof -
    let ?tbl = "map2 dpent_set (ts_dptbl s) tmp"
    have l: "length tmp = length (ts_dptbl s)" using assms(2) [OF that(1)] len by linarith
    have "dpent_ok s e" if "e \<in> set ?tbl" for e
    proof -
      from that obtain o' n where e: "e = dpent_set o' n" "o' \<in> set (ts_dptbl s)" "n \<in> set tmp"
        by (auto dest: set_zip_leftD set_zip_rightD)
      then have "dpent_ok s o'" "\<not> dpent_bad s n" using inv(2) \<open>\<not> list_ex _ _\<close> by (auto simp: ts_cfg_def list_ex_iff)
      then show ?thesis by (simp add: e(1) dpent_ok_def dpent_bad_def dpent_set_def)
    qed
    then have "ts_inv (s\<lparr>ts_dptbl := ?tbl\<rparr>) Q"
      using assms(1) l unfolding ts_inv_def ts_cfg_def tsproc_ok_def dpent_ok_def dpent_bad_def by simp
    then show ?thesis using dptbl_set_map2 [of "ts_dptbl s" tmp] l by simp
  qed
  show ?thesis
    using assms(1) set by (cases utbl) (auto simp: ts_admin_def Let_def split: option.split)
qed

section \<open>Ticks and the periodic update as a whole\<close>

lemma ts_tick_ok:
  assumes "ts_inv s Q" "t \<in> set (ts_plist s)"
  shows "\<exists>s' Q'. ts_tick s t = Some s' \<and> ts_inv s' Q'"
proof -
  consider "ts_flags (tsprocs s t) AND TSKPRI \<noteq> 0"
    | "ts_flags (tsprocs s t) AND TSKPRI = 0" "s32 (ts_timeleft (tsprocs s t) - 1) = 0"
    | "ts_flags (tsprocs s t) AND TSKPRI = 0" "s32 (ts_timeleft (tsprocs s t) - 1) \<noteq> 0" by blast
  then show ?thesis
  proof cases
    case 1
    then show ?thesis using ts_tick_kernel assms(1) by blast
  next
    case 2
    then show ?thesis using ts_tick_expired_ok [OF assms(1,2) 2] by blast
  next
    case 3
    from ts_tick_running [OF 3] show ?thesis
      using ts_inv_core [OF assms(1), of "(tsprocs s t)\<lparr>ts_timeleft := s32 (ts_timeleft (tsprocs s t) - 1)\<rparr>" t]
      by (auto simp: upd_ts_def same_core_def)
  qed
qed

lemma ts_update_ok:
  assumes "ts_inv s Q"
  shows "\<exists>s' Q'. ts_update s = Some s' \<and> ts_inv s' Q' \<and> (\<forall>q. onq Q' q \<longleftrightarrow> onq Q q)
     \<and> ts_timeouts s' = ts_timeouts s + 1 \<and> ts_plist s' = ts_plist s"
proof -
  have keeps: "ts_update1 s t = Some s' \<Longrightarrow> ts_timeouts s' = ts_timeouts s" for s s' t
    by (auto simp: ts_update1_def upd_ts_def Let_def bind_eq_Some_conv split: if_splits prod.splits)
  have keepl: "ts_update_list s ts = Some s' \<Longrightarrow> ts_timeouts s' = ts_timeouts s" for s s' ts
  proof (induction ts arbitrary: s)
    case Nil
    then show ?case by simp
  next
    case (Cons t ts)
    then show ?case using keeps by (fastforce simp: bind_eq_Some_conv)
  qed
  obtain s1 Q1 where s1: "ts_update_list s (ts_plist s) = Some s1" "ts_inv s1 Q1" "ts_frame s s1" "\<forall>q. onq Q1 q \<longleftrightarrow> onq Q q"
    using ts_update_list_ok [OF assms order_refl] by blast
  let ?s = "upd_dsp (s1\<lparr>ts_timeouts := ts_timeouts s1 + 1\<rparr>) (\<lambda>d. d\<lparr>runrun := runrun d + 1\<rparr>)"
  have "ts_inv ?s Q1"
    using s1(2) unfolding ts_inv_def ts_cfg_def tsproc_ok_def dpent_ok_def dpent_bad_def upd_dsp_def by (simp add: disp_ok_flags)
  moreover have "ts_update s = Some ?s" using s1(1) by (simp add: ts_update_def)
  ultimately show ?thesis using s1 keepl [OF s1(1)] by (intro exI [of _ ?s] exI [of _ Q1]) (simp add: upd_dsp_def ts_frame_def)
qed

section \<open>Nominations\<close>

definition swapin_cand :: "tsys \<Rightarrow> tsp \<Rightarrow> bool" where
  "swapin_cand s t \<longleftrightarrow> p_flag (ts_proc s t) AND SUSWAP = 0 \<and> p_stat (ts_proc s t) = SRUN \<and> p_flag (ts_proc s t) AND SLOAD = 0"

definition swapin_loaded :: "tsys \<Rightarrow> tsp \<Rightarrow> bool" where
  "swapin_loaded s t \<longleftrightarrow> p_flag (ts_proc s t) AND SUSWAP = 0 \<and> p_stat (ts_proc s t) = SRUN \<and> p_flag (ts_proc s t) AND SLOAD \<noteq> 0"

lemma ts_swapin_list_Cons:
  "ts_swapin_list s (t # ts) m r f =
    (if swapin_cand s t \<and> p_pri (ts_proc s t) > m then ts_swapin_list s ts (p_pri (ts_proc s t)) t f
     else ts_swapin_list s ts m r (f \<or> swapin_loaded s t))"
  by (auto simp: swapin_cand_def swapin_loaded_def)

lemma ts_swapin_list_spec:
  "ts_swapin_list s ts m r f = (m', r', f') \<Longrightarrow> m \<le> m'
     \<and> (\<forall>t\<in>set ts. swapin_cand s t \<longrightarrow> p_pri (ts_proc s t) \<le> m')
     \<and> (m' = m \<and> r' = r \<or> m' > m \<and> r' \<in> set ts \<and> swapin_cand s r' \<and> p_pri (ts_proc s r') = m')
     \<and> (f' \<longleftrightarrow> f \<or> (\<exists>t\<in>set ts. swapin_loaded s t))"
proof (induction ts arbitrary: m r f)
  case Nil
  then show ?case by simp
next
  case (Cons t ts)
  have excl: "swapin_cand s t \<Longrightarrow> \<not> swapin_loaded s t" by (simp add: swapin_cand_def swapin_loaded_def)
  show ?case
  proof (cases "swapin_cand s t \<and> p_pri (ts_proc s t) > m")
    case True
    with Cons.prems have "ts_swapin_list s ts (p_pri (ts_proc s t)) t f = (m', r', f')"
      by (simp add: ts_swapin_list_Cons del: ts_swapin_list.simps)
    from Cons.IH [OF this] True excl show ?thesis by auto
  next
    case False
    with Cons.prems have "ts_swapin_list s ts m r (f \<or> swapin_loaded s t) = (m', r', f')"
      by (auto simp: ts_swapin_list_Cons simp del: ts_swapin_list.simps)
    from Cons.IH [OF this] False show ?thesis by auto
  qed
qed

section \<open>Properties\<close>

definition ts_boot :: tsys where
  "ts_boot = \<lparr>dsp = dispinit [99] example_disp,
     tsprocs = (\<lambda>_. \<lparr>ts_timeleft = 1, ts_cpupri = 29, ts_uprilim = 0, ts_upri = 0, ts_umdpri = 29, ts_nice = 20,
       ts_flags = 0, ts_dispwait = 5, ts_procp = 1\<rparr>),
     ts_plist = [], ts_dptbl = space_dptbl, ts_kmdpris = space_kmdpris, ts_maxupri = 20, ts_maxumdpri = 59,
     ts_maxkmdpri = 39, ts_maxglobpri = 99, ts_cid = 1, tspexists = False, ts_timeouts = 0\<rparr>"

lemma example_dispinit: "npri (dispinit [99] d) = 100" "procs (dispinit [99] d) = procs d" "curproc (dispinit [99] d) = curproc d"
  "npwakecnt (dispinit [99] d) = npwakecnt d" "runrun (dispinit [99] d) = runrun d"
  by (simp_all add: dispinit_def Let_def)

lemma ts_boot_inv: "ts_inv ts_boot (\<lambda>_. [])"
proof -
  have "disp_ok (dsp ts_boot) (\<lambda>_. [])" unfolding ts_boot_def by (simp add: dispinit_spec)
  moreover have "ts_cfg ts_boot"
    by (simp add: ts_cfg_def ts_boot_def example_dispinit space_dptbl_def dptbl_rows_def space_kmdpris_def dpent_ok_def dpent_bad_def)
  ultimately show ?thesis by (simp add: ts_inv_def) (simp add: ts_boot_def)
qed

definition ts_example :: tsys where
  "ts_example = ts_boot\<lparr>tsprocs := (tsprocs ts_boot)(7 := tsprocs ts_boot 7), ts_plist := [7]\<rparr>"

lemma ts_example_inv: "ts_inv ts_example (\<lambda>_. [])"
proof -
  have "tsproc_ok ts_boot (tsprocs ts_boot 7)"
    by (simp add: tsproc_ok_def ts_boot_def clamp_def pri_ok_def example_dispinit example_disp_ok idle_proc_def)
  from ts_inv_add [OF ts_boot_inv this, of 7] show ?thesis by (simp add: ts_example_def) (simp add: ts_boot_def)
qed

lemma ts_example_sel: "ts_plist ts_example = [7]" "tsprocs ts_example t = tsprocs ts_boot t" "dsp ts_example = dsp ts_boot"
  "ts_dptbl ts_example = space_dptbl" "ts_maxumdpri ts_example = 59" "ts_maxupri ts_example = 20" "ts_uprilim (tsprocs ts_boot t) = 0"
  "ts_flags (tsprocs ts_boot t) = 0" "ts_timeleft (tsprocs ts_boot t) = 1" "ts_cpupri (tsprocs ts_boot t) = 29"
  "ts_upri (tsprocs ts_boot t) = 0" "ts_procp (tsprocs ts_boot t) = 1" "curproc (dsp ts_boot) = 0"
  by (simp_all add: ts_example_def ts_boot_def example_dispinit example_disp_ok)

text \<open>
  C30: when the last tick of a time slice is used up at a user mode priority, \<^verbatim>\<open>ts_tick\<close> gives the
  process the priority the table prescribes for expiry, computed from the system component
  \<^verbatim>\<open>ts_tqexp\<close> and the process's user priority cut to the table, stores the global priority in the
  process and in \<^verbatim>\<open>curpri\<close> and asks for preemption; a process on a queue is moved to the back of the
  queue of its new priority with a full quantum, one that is not is marked \<^verbatim>\<open>TSBACKQ\<close>; the dispatcher
  and class invariants hold after it.
\<close>

theorem ts_tick_expiry:
  assumes "ts_inv s Q" "t \<in> set (ts_plist s)" "ts_flags (tsprocs s t) AND TSKPRI = 0" "ts_timeleft (tsprocs s t) = 1"
  defines "p \<equiv> ts_procp (tsprocs s t)"
  defines "c \<equiv> ts_tqexp (ts_dptbl s ! nat (ts_cpupri (tsprocs s t)))"
  defines "e \<equiv> ts_dptbl s ! nat (min (ts_maxumdpri s) (max 0 (c + ts_upri (tsprocs s t))))"
  shows "\<exists>s'. ts_tick s t = Some s' \<and> ts_inv s' (if onq Q p then requeue Q p (nat (ts_globpri e)) else Q)
     \<and> ts_cpupri (tsprocs s' t) = c \<and> p_pri (procs (dsp s') p) = ts_globpri e \<and> curpri (dsp s') = ts_globpri e
     \<and> runrun (dsp s') = runrun (dsp s) + 1
     \<and> (if onq Q p then ts_timeleft (tsprocs s' t) = ts_quantum e
        else ts_flags (tsprocs s' t) = ts_flags (tsprocs s t) OR TSBACKQ)"
proof -
  have "clamp (ts_maxumdpri s) u = min (ts_maxumdpri s) (max 0 u)" for u
    using ts_cfgD(1) [OF ts_invD(2) [OF assms(1)]] by (auto simp: clamp_def)
  then have e: "dpe s (clamp (ts_maxumdpri s) (c + ts_upri (tsprocs s t))) = e" by (simp add: e_def dpe_def)
  have c: "ts_tqexp (dpe s (ts_cpupri (tsprocs s t))) = c" by (simp add: c_def dpe_def)
  have "s32 (ts_timeleft (tsprocs s t) - 1) = 0" using assms(4) by (simp add: s32_def)
  from ts_tick_expired_ok [OF assms(1-3) this, unfolded c] show ?thesis
    by (auto simp: e p_def)
qed

theorem ts_tick_expiry_witness:
  "\<exists>s'. ts_tick ts_example 7 = Some s' \<and> ts_cpupri (tsprocs s' 7) = 19 \<and> p_pri (procs (dsp s') 1) = 19"
  using ts_tick_expiry [OF ts_example_inv, of 7]
  by (auto simp: ts_example_sel onq_def space_dptbl_def dptbl_rows_def)

text \<open>
  The once-a-second \<^verbatim>\<open>ts_update\<close> always completes, whatever the list and the queues: it indexes
  only inside the tables, keeps the dispatcher and class invariants, neither loses a process from the
  queues nor adds one, and schedules exactly one next call.
\<close>

theorem ts_update_total:
  assumes "ts_inv s Q"
  shows "\<exists>s' Q'. ts_update s = Some s' \<and> ts_inv s' Q' \<and> (\<forall>q. onq Q' q \<longleftrightarrow> onq Q q)
     \<and> ts_timeouts s' = ts_timeouts s + 1 \<and> ts_plist s' = ts_plist s"
  by (rule ts_update_ok [OF assms])

theorem ts_update_total_witness:
  "\<exists>s' Q'. ts_update ts_example = Some s' \<and> ts_inv s' Q' \<and> ts_plist s' = [7]"
  using ts_update_total [OF ts_example_inv] by (auto simp: ts_example_sel)

text \<open>
  Parameters that passed \<^verbatim>\<open>ts_parmsin\<close> for this process are accepted by \<^verbatim>\<open>ts_parmsset\<close> with the
  same credentials, which sets the limit to the requested one and the user priority to the requested
  one or the limit, whichever is lower, keeps the invariants and loses no queued process; a requester
  that is not the super-user never raises the limit.
\<close>

theorem ts_parmsset_limit:
  assumes "ts_inv s Q" "t \<in> set (ts_plist s)" "\<not> onq Q (curproc (dsp s))"
    and "ts_parmsin s pa (Some cr) (ts_cid s) t = None"
  shows "\<exists>s' Q'. ts_parmsset s pa t (Some cr) = Some (Inr s') \<and> ts_inv s' Q' \<and> (\<forall>q. onq Q' q \<longleftrightarrow> onq Q q)
     \<and> ts_uprilim (tsprocs s' t) = (if par_uprilim pa = TS_NOCHANGE then ts_uprilim (tsprocs s t) else par_uprilim pa)
     \<and> ts_upri (tsprocs s' t) = min (if par_upri pa = TS_NOCHANGE then ts_upri (tsprocs s t) else par_upri pa)
         (ts_uprilim (tsprocs s' t))
     \<and> (cr_uid cr \<noteq> 0 \<longrightarrow> ts_uprilim (tsprocs s' t) \<le> ts_uprilim (tsprocs s t))"
proof -
  have perm: "new_lim (tsprocs s t) pa \<le> ts_uprilim (tsprocs s t) \<or> suser cr"
    using assms(4) by (auto simp: ts_parmsin_def new_lim_def split: if_splits)
  have off: "curproc_off s Q" using assms(3) by (simp add: curproc_off_def)
  from ts_parmsset_ok [OF assms(1,2) ts_parmsin_valid [OF assms(4)] off, of "Some cr"] perm
  obtain s' Q' where "ts_parmsset s pa t (Some cr) = Some (Inr s')" "ts_inv s' Q'" "\<forall>q. onq Q' q \<longleftrightarrow> onq Q q"
      "ts_uprilim (tsprocs s' t) = new_lim (tsprocs s t) pa" "ts_upri (tsprocs s' t) = new_upri (tsprocs s t) pa" by auto
  with perm show ?thesis
    by (intro exI [of _ s'] exI [of _ Q']) (auto simp: new_lim_def new_upri_def suser_def)
qed

theorem ts_parmsset_limit_witness:
  "\<exists>s'. ts_parmsset ts_example \<lparr>par_uprilim = - 3, par_upri = 5\<rparr> 7 (Some (example_cred 101)) = Some (Inr s')
     \<and> ts_uprilim (tsprocs s' 7) = - 3 \<and> ts_upri (tsprocs s' 7) = - 3"
proof -
  have "ts_parmsin ts_example \<lparr>par_uprilim = - 3, par_upri = 5\<rparr> (Some (example_cred 101)) (ts_cid ts_example) 7 = None"
    by (simp add: ts_parmsin_def ts_example_sel)
  from ts_parmsset_limit [OF ts_example_inv _ _ this] show ?thesis by (auto simp: ts_example_sel onq_def)
qed

text \<open>
  \<^verbatim>\<open>ts_admin\<close> does what its comment promises: whatever table the super-user supplies, after the
  call the parameter table is still one with which the class never indexes outside its arrays, and
  the read-only global priorities are unchanged; nobody else changes the table.
\<close>

theorem ts_admin_keeps_tables:
  assumes "ts_inv s Q" "\<And>tmp. utbl = Some tmp \<Longrightarrow> int (length tmp) = ts_maxumdpri s + 1"
  shows "\<exists>r. ts_admin s adm utbl out1 out2 cr = Some r
     \<and> (\<forall>out s'. r = Inr (out, s') \<longrightarrow> ts_inv s' Q \<and> (s' \<noteq> s \<longrightarrow> suser cr) \<and> map ts_globpri (ts_dptbl s') = map ts_globpri (ts_dptbl s))"
proof -
  obtain r where r: "ts_admin s adm utbl out1 out2 cr = Some r"
      "\<forall>out s'. r = Inr (out, s') \<longrightarrow> ts_inv s' Q \<and> (s' \<noteq> s \<longrightarrow> suser cr)"
    using ts_admin_ok [OF assms(1), of utbl adm out1 out2 cr] assms(2) by blast
  have glob: "dptbl_set tbl es = Some tbl' \<Longrightarrow> map ts_globpri tbl' = map ts_globpri tbl" for tbl es tbl'
    by (induction tbl es arbitrary: tbl' rule: dptbl_set.induct) (auto simp: dpent_set_def bind_eq_Some_conv)
  have "map ts_globpri (ts_dptbl s') = map ts_globpri (ts_dptbl s)" if "r = Inr (out, s')" for out s'
    using r(1) that glob
    by (auto simp: ts_admin_def Let_def bind_eq_Some_conv split: option.splits if_splits prod.splits)
  with r show ?thesis by blast
qed

theorem ts_admin_keeps_tables_witness:
  "\<exists>s'. ts_admin ts_example (Some (3, 60)) (Some (replicate 60 \<lparr>ts_globpri = 7, ts_quantum = 3, ts_tqexp = 0, ts_slpret = 59,
      ts_maxwait = 0, ts_lwait = 59\<rparr>)) True True (example_cred 0) = Some (Inr (NoOut, s')) \<and> ts_inv s' (\<lambda>_. [])"
proof -
  let ?e = "\<lparr>ts_globpri = 7, ts_quantum = 3, ts_tqexp = 0, ts_slpret = 59, ts_maxwait = 0, ts_lwait = 59\<rparr>"
  have l: "length space_dptbl = 60" by (simp add: space_dptbl_def dptbl_rows_def)
  have "\<exists>s'. ts_admin ts_example (Some (3, 60)) (Some (replicate 60 ?e)) True True (example_cred 0) = Some (Inr (NoOut, s'))"
    using dptbl_set_map2 [of space_dptbl "replicate 60 ?e"] l
    by (simp add: ts_admin_def ts_example_sel Let_def suser_def example_cred_def list_ex_iff dpent_bad_def)
  with ts_admin_keeps_tables [OF ts_example_inv, of "Some (replicate 60 ?e)" "Some (3, 60)" True True "example_cred 0"]
  show ?thesis by (auto simp: ts_example_sel)
qed

text \<open>
  \<^verbatim>\<open>ts_swapin\<close> nominates a process exactly when some runnable, unloaded process whose user block is
  not being swapped has a valid priority, and then one of the highest priority among them; its flag
  says whether a loaded one is runnable.
\<close>

theorem ts_swapin_highest:
  assumes "\<forall>t\<in>set (ts_plist s). 0 \<le> p_pri (ts_proc s t)"
  shows "case ts_swapin s garbage of (nominee, runflag) \<Rightarrow>
     (case nominee of
        None \<Rightarrow> \<not> (\<exists>t\<in>set (ts_plist s). swapin_cand s t)
      | Some p \<Rightarrow> \<exists>t\<in>set (ts_plist s). ts_procp (tsprocs s t) = p \<and> swapin_cand s t
          \<and> (\<forall>u\<in>set (ts_plist s). swapin_cand s u \<longrightarrow> p_pri (ts_proc s u) \<le> p_pri (ts_proc s t)))
     \<and> (runflag \<longleftrightarrow> (\<exists>t\<in>set (ts_plist s). swapin_loaded s t))"
proof -
  obtain m r f where res: "ts_swapin_list s (ts_plist s) (- 1) garbage False = (m, r, f)" by (cases "ts_swapin_list s (ts_plist s) (- 1) garbage False")
  note spec = ts_swapin_list_spec [OF res]
  have bound: "swapin_cand s t \<Longrightarrow> p_pri (ts_proc s t) \<le> m" if "t \<in> set (ts_plist s)" for t using spec that by blast
  have flag: "f \<longleftrightarrow> (\<exists>t\<in>set (ts_plist s). swapin_loaded s t)" using spec by blast
  show ?thesis
  proof (cases "m = - 1")
    case True
    have "\<not> swapin_cand s t" if "t \<in> set (ts_plist s)" for t
      using bound [OF that] bspec [OF assms that] True by force
    with True flag show ?thesis by (simp add: ts_swapin_def res)
  next
    case False
    then have "r \<in> set (ts_plist s)" "swapin_cand s r" "p_pri (ts_proc s r) = m" using spec by blast+
    with False flag bound show ?thesis by (auto simp: ts_swapin_def res)
  qed
qed

theorem ts_swapin_highest_witness:
  "ts_swapin (upd_dsp ts_example (\<lambda>d. set_flag d 1 0)) 0 = (Some 1, False)"
proof -
  let ?s = "upd_dsp ts_example (\<lambda>d. set_flag d 1 0)"
  have sel: "ts_plist ?s = [7]" "ts_proc ?s 7 = \<lparr>p_stat = SRUN, p_pri = 1, p_flag = 0, p_link = None\<rparr>" "ts_procp (tsprocs ?s 7) = 1"
    by (simp_all add: upd_dsp_def ts_example_sel ts_proc_def set_flag_def) (simp add: ts_boot_def example_dispinit example_disp_ok idle_proc_def)
  with ts_swapin_highest [of ?s 0] show ?thesis
    by (auto simp: swapin_cand_def swapin_loaded_def split: prod.splits option.splits)
qed

definition swapout_cand :: "tsys \<Rightarrow> procp \<Rightarrow> tsp \<Rightarrow> bool" where
  "swapout_cand s jl t \<longleftrightarrow> p_stat (ts_proc s t) \<noteq> SZOMB \<and> ts_procp (tsprocs s t) \<noteq> jl
     \<and> p_flag (ts_proc s t) AND (SLOAD OR SSYS OR SLOCK OR SUSWAP OR SPROCIO OR SSWLOCKS) = SLOAD"

definition swapout_asleep :: "tsys \<Rightarrow> procp \<Rightarrow> tsp \<Rightarrow> bool" where
  "swapout_asleep s jl t \<longleftrightarrow> swapout_cand s jl t \<and> p_stat (ts_proc s t) \<in> {SSLEEP, SSTOP}"

definition swapout_runs :: "tsys \<Rightarrow> procp \<Rightarrow> tsp \<Rightarrow> bool" where
  "swapout_runs s jl t \<longleftrightarrow> swapout_cand s jl t \<and> p_stat (ts_proc s t) = SRUN"

lemma ts_swapout_list_Cons:
  "ts_swapout_list s jl (t # ts) ms mr ret =
    (if swapout_asleep s jl t \<and> p_pri (ts_proc s t) < ms then ts_swapout_list s jl ts (p_pri (ts_proc s t)) mr (Some t)
     else if ret = None \<and> swapout_runs s jl t \<and> p_pri (ts_proc s t) < mr
     then ts_swapout_list s jl ts ms (p_pri (ts_proc s t)) (Some t)
     else ts_swapout_list s jl ts ms mr ret)"
  by (auto simp: swapout_cand_def swapout_asleep_def swapout_runs_def Let_def)

lemma ts_swapout_list_spec:
  "(if \<exists>t\<in>set ts. swapout_asleep s jl t \<and> p_pri (ts_proc s t) < ms
    then \<exists>t\<in>set ts. ts_swapout_list s jl ts ms mr ret = Some t \<and> swapout_asleep s jl t \<and> p_pri (ts_proc s t) < ms
       \<and> (\<forall>u\<in>set ts. swapout_asleep s jl u \<longrightarrow> p_pri (ts_proc s t) \<le> p_pri (ts_proc s u))
    else ts_swapout_list s jl ts ms mr ret =
      (if ret \<noteq> None then ret else find (\<lambda>t. swapout_runs s jl t \<and> p_pri (ts_proc s t) < mr) ts))"
proof (induction ts arbitrary: ms mr ret)
  case Nil
  then show ?case by simp
next
  case (Cons t ts)
  note eq = ts_swapout_list_Cons [of s jl t ts ms mr ret]
  let ?p = "p_pri (ts_proc s t)"
  consider (a) "swapout_asleep s jl t" "?p < ms" | (b) "\<not> (swapout_asleep s jl t \<and> ?p < ms)" "ret = None" "swapout_runs s jl t" "?p < mr"
    | (c) "\<not> (swapout_asleep s jl t \<and> ?p < ms)" "\<not> (ret = None \<and> swapout_runs s jl t \<and> ?p < mr)" by blast
  then show ?case
  proof cases
    case a
    then have e: "ts_swapout_list s jl (t # ts) ms mr ret = ts_swapout_list s jl ts ?p mr (Some t)" using eq by simp
    show ?thesis using Cons.IH [of ?p mr "Some t"] a unfolding e by (auto split: if_splits)
  next
    case b
    then have e: "ts_swapout_list s jl (t # ts) ms mr ret = ts_swapout_list s jl ts ms ?p (Some t)" by (subst eq) auto
    have "\<not> swapout_asleep s jl t" using b(3) by (simp add: swapout_asleep_def swapout_runs_def)
    then show ?thesis using Cons.IH [of ms ?p "Some t"] b unfolding e by (auto split: if_splits)
  next
    case c
    then have e: "ts_swapout_list s jl (t # ts) ms mr ret = ts_swapout_list s jl ts ms mr ret" using eq by auto
    show ?thesis
    proof (cases "\<exists>t\<in>set ts. swapout_asleep s jl t \<and> p_pri (ts_proc s t) < ms")
      case True
      with Cons.IH [of ms mr ret] obtain u where "u \<in> set ts" "ts_swapout_list s jl ts ms mr ret = Some u" "swapout_asleep s jl u"
          "p_pri (ts_proc s u) < ms" "\<forall>v\<in>set ts. swapout_asleep s jl v \<longrightarrow> p_pri (ts_proc s u) \<le> p_pri (ts_proc s v)" by auto
      with c(1) True show ?thesis unfolding e by (auto intro!: bexI [of _ u])
    next
      case False
      with Cons.IH [of ms mr ret] c show ?thesis unfolding e by auto
    qed
  qed
qed

text \<open>
  \<^verbatim>\<open>ts_swapout\<close> nominates, among the loaded processes that may be swapped, a sleeping or stopped one
  of the lowest priority when there is one. When there is none it nominates the first runnable one on
  the class's list, whatever its priority; its comment promises the runnable one of the lowest
  priority.
\<close>

theorem ts_swapout_nominates:
  assumes "\<forall>t\<in>set (ts_plist s). p_pri (ts_proc s t) \<le> ts_maxglobpri s"
  shows "if \<exists>t\<in>set (ts_plist s). swapout_asleep s jl t
    then \<exists>t\<in>set (ts_plist s). ts_swapout s jl = Some (ts_procp (tsprocs s t)) \<and> swapout_asleep s jl t
       \<and> (\<forall>u\<in>set (ts_plist s). swapout_asleep s jl u \<longrightarrow> p_pri (ts_proc s t) \<le> p_pri (ts_proc s u))
    else ts_swapout s jl = map_option (\<lambda>t. ts_procp (tsprocs s t)) (find (swapout_runs s jl) (ts_plist s))"
proof -
  have lt: "p_pri (ts_proc s t) < ts_maxglobpri s + 1" if "t \<in> set (ts_plist s)" for t using bspec [OF assms that] by simp
  have ex: "(\<exists>t\<in>set (ts_plist s). swapout_asleep s jl t \<and> p_pri (ts_proc s t) < ts_maxglobpri s + 1)
      \<longleftrightarrow> (\<exists>t\<in>set (ts_plist s). swapout_asleep s jl t)" using lt by auto
  have fnd: "find (\<lambda>t. swapout_runs s jl t \<and> p_pri (ts_proc s t) < ts_maxglobpri s + 1) (ts_plist s) = find (swapout_runs s jl) (ts_plist s)"
    by (rule find_cong) (use lt in auto)
  from ts_swapout_list_spec [of "ts_plist s" s jl "ts_maxglobpri s + 1" "ts_maxglobpri s + 1" None]
  show ?thesis unfolding ex fnd ts_swapout_def by (auto split: if_splits)
qed

text \<open>A state with two loaded, runnable processes: 1, of priority 1, and 6, of priority 0.\<close>

definition ts_example2 :: tsys where
  "ts_example2 = ts_example\<lparr>tsprocs := (tsprocs ts_example)(8 := (tsprocs ts_example 8)\<lparr>ts_procp := 6\<rparr>), ts_plist := [7, 8]\<rparr>"

lemma ts_example2_sel: "ts_plist ts_example2 = [7, 8]" "ts_procp (tsprocs ts_example2 7) = 1" "ts_procp (tsprocs ts_example2 8) = 6"
  "ts_proc ts_example2 7 = \<lparr>p_stat = SRUN, p_pri = 1, p_flag = SLOAD, p_link = None\<rparr>"
  "ts_proc ts_example2 8 = \<lparr>p_stat = SRUN, p_pri = 0, p_flag = SLOAD, p_link = None\<rparr>" "ts_maxglobpri ts_example2 = 99"
  by (simp_all add: ts_example2_def ts_example_def ts_boot_def ts_proc_def example_dispinit example_disp_ok idle_proc_def)

theorem ts_swapout_nominates_witness: "ts_swapout ts_example2 0 = Some 1"
  using ts_swapout_nominates [of ts_example2 0]
  by (auto simp: ts_example2_sel swapout_asleep_def swapout_runs_def swapout_cand_def)

text \<open>
  The finding on \<^verbatim>\<open>ts_parmsset\<close>: it computes the nice value from the request and not from the user
  priority it assigns. A request that leaves the user priority alone (\<^verbatim>\<open>TS_NOCHANGE\<close>) gives a process of
  user priority 10 (nice 10 by the same formula) the nice value 20.
\<close>

theorem ts_parmsset_nice_stale:
  "\<exists>s s'. ts_maxupri s = 20 \<and> ts_upri (tsprocs s 7) = 10 \<and> ts_nice (tsprocs s 7) = 10
     \<and> ts_parmsset s \<lparr>par_uprilim = TS_NOCHANGE, par_upri = TS_NOCHANGE\<rparr> 7 None = Some (Inr s')
     \<and> ts_upri (tsprocs s' 7) = 10 \<and> ts_nice (tsprocs s' 7) = 20"
proof -
  let ?s = "upd_ts ts_example 7 (\<lambda>x. x\<lparr>ts_uprilim := 10, ts_upri := 10, ts_nice := 10, ts_flags := TSKPRI\<rparr>)"
  show ?thesis
    by (rule exI [of _ ?s]) (simp add: ts_parmsset_def upd_ts_def Let_def TS_NEWUMDPRI_def cdiv_def s8_def ts_example_sel)
qed

text \<open>
  The finding on \<^verbatim>\<open>ts_enterclass\<close>: it does not cut the nice value, as \<^verbatim>\<open>ts_parmsset\<close> does, so a process
  that enters the class with the lowest user priority has the nice value 40, outside the range 0 to 39.
\<close>

theorem ts_enterclass_nice_40:
  "\<exists>s s'. ts_inv s (\<lambda>_. []) \<and> parms_valid s \<lparr>par_uprilim = - 20, par_upri = - 20\<rparr>
     \<and> ts_enterclass s (Some \<lparr>par_uprilim = - 20, par_upri = - 20\<rparr>) 1 (Some 8) None = Some (Inr s') \<and> ts_nice (tsprocs s' 8) = 40"
proof -
  let ?pa = "\<lparr>par_uprilim = - 20, par_upri = - 20\<rparr>"
  let ?x = "enter_proc ts_example (Some ?pa) 1 8"
  let ?s = "ts_example\<lparr>tsprocs := (tsprocs ts_example)(8 := ?x), ts_plist := 8 # ts_plist ts_example\<rparr>"
  have pv: "parms_valid ts_example ?pa" by (simp add: parms_valid_def ts_example_sel)
  have pk: "pri_ok (dsp ts_example) 1" by (simp add: ts_example_sel pri_ok_def ts_boot_def example_dispinit example_disp_ok idle_proc_def)
  have nice: "ts_nice ?x = 40" by (simp add: enter_proc_def ts_example_sel TS_NEWUMDPRI_def Let_def cdiv_def s8_def)
  have "tsproc_ok ts_example ?x" by (rule enter_proc_ok [OF ts_invD(2) [OF ts_example_inv] _ pk]) (use pv in simp)
  from ts_inv_add [OF ts_example_inv this, of 8] have i: "ts_inv ?s (\<lambda>_. [])" by simp
  have off: "curproc_off ?s (\<lambda>_. [])" by (simp add: curproc_off_def onq_def)
  from ts_setumdpri_obtain [OF i _ off, of 8] obtain s1 where "ts_setumdpri ?s 8 = Some s1" "ts_nice (tsprocs s1 8) = ts_nice ?x"
    by auto
  then have "\<exists>s'. ts_enterclass ts_example (Some ?pa) 1 (Some 8) None = Some (Inr s') \<and> ts_nice (tsprocs s' 8) = 40"
    using nice by (auto simp: ts_enterclass_def enter_proc_def Let_def)
  then show ?thesis using ts_example_inv pv by blast
qed


end
