(* ===== verification/KDl.thy ===== *)
theory KDl
  imports KPrelude
begin

text \<open>
  Double-long (64 bit) arithmetic on two 32-bit words, which the kernel uses where a product of times
  does not fit in a long: \<^verbatim>\<open>ladd\<close>, \<^verbatim>\<open>lsub\<close>, \<^verbatim>\<open>lshiftl\<close> and \<^verbatim>\<open>lsign\<close> (assembler routines in
  \<^verbatim>\<open>uts/i386/io\<close>), \<^verbatim>\<open>lmul\<close> (\<^verbatim>\<open>io/lmul.c\<close>) and \<^verbatim>\<open>ldivide\<close> (\<^verbatim>\<open>io/ldivide.c\<close>). They are shown to
  compute the arithmetic of the natural numbers the pairs of words denote.
\<close>

section \<open>Operations\<close>

record dl =
  dl_lop :: u32
  dl_hop :: u32

definition dl_zero :: dl where
  "dl_zero = \<lparr>dl_lop = 0, dl_hop = 0\<rparr>"

text \<open>\<^verbatim>\<open>addl\<close> sets the carry that \<^verbatim>\<open>adcl\<close> adds; \<^verbatim>\<open>subl\<close> the borrow that \<^verbatim>\<open>sbbl\<close> subtracts.\<close>

definition ladd :: "dl \<Rightarrow> dl \<Rightarrow> dl" where
  "ladd l r = (let lo = dl_lop l + dl_lop r; carry = (if lo < dl_lop l then 1 else 0) in
     \<lparr>dl_lop = lo, dl_hop = dl_hop l + dl_hop r + carry\<rparr>)"

definition lsub :: "dl \<Rightarrow> dl \<Rightarrow> dl" where
  "lsub l r = (let borrow = (if dl_lop l < dl_lop r then 1 else 0) in
     \<lparr>dl_lop = dl_lop l - dl_lop r, dl_hop = dl_hop l - dl_hop r - borrow\<rparr>)"

definition lsign :: "dl \<Rightarrow> bool" where
  "lsign d \<longleftrightarrow> bit (dl_hop d) 31"

text \<open>One turn of the loops of \<^verbatim>\<open>lshiftl\<close>: \<^verbatim>\<open>shll\<close> and \<^verbatim>\<open>rcll\<close> to the left, \<^verbatim>\<open>sarl\<close> and \<^verbatim>\<open>rcrl\<close> to the right.\<close>

definition shl1 :: "dl \<Rightarrow> dl" where
  "shl1 d = \<lparr>dl_lop = push_bit 1 (dl_lop d),
     dl_hop = push_bit 1 (dl_hop d) OR (if bit (dl_lop d) 31 then 1 else 0)\<rparr>"

definition sar1 :: "dl \<Rightarrow> dl" where
  "sar1 d = \<lparr>dl_lop = drop_bit 1 (dl_lop d) OR (if bit (dl_hop d) 0 then 0x80000000 else 0),
     dl_hop = signed_drop_bit 1 (dl_hop d)\<rparr>"

definition lshiftl :: "dl \<Rightarrow> int \<Rightarrow> dl" where
  "lshiftl d cnt = (if 0 \<le> cnt then (shl1 ^^ nat cnt) d else (sar1 ^^ nat (- cnt)) d)"

text \<open>Multiplication by shifting and adding, one bit of \<open>rop\<close> per turn.\<close>

definition lmul_step :: "dl \<Rightarrow> dl \<Rightarrow> nat \<Rightarrow> dl \<Rightarrow> dl" where
  "lmul_step lop rop jj ans =
     (if dl_lop (lshiftl rop (- int jj)) AND 1 = 0 then ans
      else let tmp = lshiftl lop (int jj) in ladd ans (tmp\<lparr>dl_hop := dl_hop tmp AND 0x7fffffff\<rparr>))"

definition lmul :: "dl \<Rightarrow> dl \<Rightarrow> dl" where
  "lmul lop rop = fold (lmul_step lop rop) [0..<64] dl_zero"

text \<open>Restoring division, one bit of \<open>lop\<close> per turn.\<close>

record divst =
  dv_lop :: dl
  dv_div :: dl
  dv_ans :: dl

definition ldivide_step :: "dl \<Rightarrow> nat \<Rightarrow> divst \<Rightarrow> divst" where
  "ldivide_step rop cnt s =
     (let dv = lshiftl (dv_div s) 1; lop = lshiftl (dv_lop s) 1;
          dv = (if lsign lop then dv\<lparr>dl_lop := dl_lop dv OR 1\<rparr> else dv);
          tmp = lsub dv rop; ans = lshiftl (dv_ans s) 1 in
      if lsign tmp then \<lparr>dv_lop = lop, dv_div = dv, dv_ans = ans\<rparr>
      else \<lparr>dv_lop = lop, dv_div = tmp, dv_ans = ans\<lparr>dl_lop := dl_lop ans OR 1\<rparr>\<rparr>)"

definition ldivide :: "dl \<Rightarrow> dl \<Rightarrow> dl" where
  "ldivide lop rop =
     (let lop = (if lsign lop then lsub dl_zero lop else lop);
          rop = (if lsign rop then lsub dl_zero rop else rop) in
      dv_ans (fold (ldivide_step rop) [0..<63] \<lparr>dv_lop = lop, dv_div = dl_zero, dv_ans = dl_zero\<rparr>))"

section \<open>The number a double long denotes\<close>

abbreviation (input) TWO32 :: nat where "TWO32 \<equiv> 4294967296"
abbreviation (input) TWO63 :: nat where "TWO63 \<equiv> 9223372036854775808"
abbreviation (input) TWO64 :: nat where "TWO64 \<equiv> 18446744073709551616"

definition dln :: "dl \<Rightarrow> nat" where
  "dln d = unat (dl_hop d) * TWO32 + unat (dl_lop d)"

lemma u32_lt: "unat (w :: u32) < TWO32"
proof -
  have "unat w < 2 ^ LENGTH(32)" by (rule unsigned_less)
  then show ?thesis by simp
qed

text \<open>Two words joined: the quotient and the remainder by \<open>2 ^ 32\<close>.\<close>

lemma two_words: "x mod TWO64 = (x div TWO32 mod TWO32) * TWO32 + x mod TWO32"
  using mod_mult2_eq [of x TWO32 TWO32] by simp

lemma dln_eqI:
  assumes "unat (dl_lop d) = x mod TWO32" "unat (dl_hop d) = x div TWO32 mod TWO32"
  shows "dln d = x mod TWO64"
  using assms two_words [of x] by (simp add: dln_def)

lemma dln_lop: "unat (dl_lop d) = dln d mod TWO32"
  using u32_lt [of "dl_lop d"] by (simp add: dln_def)

lemma dln_hop: "unat (dl_hop d) = dln d div TWO32"
  using u32_lt [of "dl_lop d"] by (simp add: dln_def)

lemma dln_lt: "dln d < TWO64"
  using u32_lt [of "dl_hop d"] u32_lt [of "dl_lop d"] by (simp add: dln_def)

lemma dln_zero [simp]: "dln dl_zero = 0"
  by (simp add: dln_def dl_zero_def)

lemma unat_plus32: "unat (a + b :: u32) = (unat a + unat b) mod TWO32"
  by (simp add: unat_word_ariths)

lemma unat_times32: "unat (a * b :: u32) = (unat a * unat b) mod TWO32"
  by (simp add: unat_word_ariths)

lemma dln_ladd: "dln (ladd l r) = (dln l + dln r) mod TWO64"
proof (rule dln_eqI)
  let ?a = "unat (dl_lop l)" and ?b = "unat (dl_lop r)" and ?c = "unat (dl_hop l)" and ?d = "unat (dl_hop r)"
  have ab: "?a < TWO32" "?b < TWO32" by (rule u32_lt)+
  have sum: "dln l + dln r = (?a + ?b) + (?c + ?d) * TWO32" by (simp add: dln_def algebra_simps)
  show "unat (dl_lop (ladd l r)) = (dln l + dln r) mod TWO32"
    unfolding sum mod_mult_self1 by (simp add: ladd_def Let_def unat_plus32)
  have carry: "(if dl_lop l + dl_lop r < dl_lop l then 1 else 0) = (?a + ?b) div TWO32"
  proof (cases "TWO32 \<le> ?a + ?b")
    case True
    then have "(?a + ?b) mod TWO32 = ?a + ?b - TWO32" "(?a + ?b) div TWO32 = 1"
      using ab by (simp_all add: mod_if div_if)
    with ab True show ?thesis by (simp add: word_less_nat_alt unat_plus32)
  next
    case False
    then show ?thesis by (simp add: word_less_nat_alt unat_plus32)
  qed
  have "unat (dl_hop (ladd l r)) = (?c + ?d + (if dl_lop l + dl_lop r < dl_lop l then 1 else 0)) mod TWO32"
    by (simp add: ladd_def Let_def unat_plus32 mod_simps)
  also have "\<dots> = (dln l + dln r) div TWO32 mod TWO32"
    unfolding carry sum using div_mult_self1 [of TWO32 "?a + ?b" "?c + ?d"] by (simp only: add.commute)
  finally show "unat (dl_hop (ladd l r)) = (dln l + dln r) div TWO32 mod TWO32" .
qed

lemma unat_minus32: "unat (a - b :: u32) = (if unat b \<le> unat a then unat a - unat b else unat a + TWO32 - unat b)"
proof -
  have "unat a = (unat (a - b) + unat b) mod TWO32" using unat_plus32 [of "a - b" b] by simp
  then show ?thesis using u32_lt [of a] u32_lt [of b] u32_lt [of "a - b"] by (auto simp: mod_if split: if_splits)
qed

text \<open>Subtraction is what addition undoes.\<close>

lemma ladd_lsub: "ladd (lsub l r) r = l"
proof -
  let ?x = "dl_lop l" and ?y = "dl_lop r"
  have "?x < ?y \<longleftrightarrow> ?x < ?x - ?y"
    using u32_lt [of ?x] u32_lt [of ?y] by (auto simp: word_less_nat_alt unat_minus32)
  then show ?thesis by (simp add: ladd_def lsub_def Let_def)
qed

lemma dln_lsub: "dln (lsub l r) = (if dln r \<le> dln l then dln l - dln r else dln l + TWO64 - dln r)"
proof -
  have "(dln (lsub l r) + dln r) mod TWO64 = dln l"
    using dln_ladd [of "lsub l r" r] by (simp add: ladd_lsub)
  then show ?thesis
    using dln_lt [of l] dln_lt [of r] dln_lt [of "lsub l r"] by (auto simp: mod_if split: if_splits)
qed

lemma lsign_dln: "lsign d \<longleftrightarrow> TWO63 \<le> dln d"
proof -
  have "bit (dl_hop d) 31 \<longleftrightarrow> odd (unat (dl_hop d) div 2 ^ 31)"
    using bit_unsigned_iff [where 'a = nat, of "dl_hop d" 31] by (simp add: bit_iff_odd)
  also have "\<dots> \<longleftrightarrow> 2 ^ 31 \<le> unat (dl_hop d)"
    using u32_lt [of "dl_hop d"] by (auto simp: div_if)
  also have "\<dots> \<longleftrightarrow> TWO63 \<le> dln d"
  proof -
    have p: "(2 :: nat) ^ 31 = 2147483648" by simp
    show ?thesis unfolding dln_def p using u32_lt [of "dl_lop d"] by (intro iffI) linarith+
  qed
  finally show ?thesis by (simp add: lsign_def)
qed

section \<open>Shifts\<close>

lemma u32_bit31: "bit w 31 \<longleftrightarrow> 2147483648 \<le> unat (w :: u32)"
  using lsign_dln [of "\<lparr>dl_lop = 0, dl_hop = w\<rparr>"] by (simp add: lsign_def dln_def)

lemma u32_bit0: "bit w 0 \<longleftrightarrow> odd (unat (w :: u32))"
  using bit_unsigned_iff [where 'a = nat, of w 0] by (simp add: bit_iff_odd)

lemma or_disjoint: "x AND y = 0 \<Longrightarrow> x OR y = x + (y :: u32)"
  by (rule disjunctive_add [symmetric]) (metis bit_0_eq bit_and_iff bot_apply bot_bool_def)

lemma u32_or_one: "even (unat x) \<Longrightarrow> unat (x OR 1 :: u32) = unat x + 1"
proof -
  assume e: "even (unat x)"
  have "x AND 1 = 0" using e u32_bit0 [of x] by (simp add: and_one_eq mod2_eq_if bit_0)
  then have "x OR 1 = x + 1" by (rule or_disjoint)
  moreover have "unat x + 1 < TWO32" using u32_lt [of x] e by presburger
  ultimately show ?thesis by (simp add: unat_plus32)
qed

lemma dln_shl1: "dln (shl1 d) = (2 * dln d) mod TWO64"
proof (rule dln_eqI)
  let ?a = "unat (dl_lop d)" and ?c = "unat (dl_hop d)"
  have dbl: "unat (push_bit 1 w :: u32) = (2 * unat w) mod TWO32" "push_bit 1 w = w * 2" for w :: u32
    using unat_times32 [of w 2] by (simp_all add: push_bit_eq_mult mult.commute)
  have sum: "2 * dln d = 2 * ?a + 2 * ?c * TWO32" by (simp add: dln_def)
  show "unat (dl_lop (shl1 d)) = 2 * dln d mod TWO32"
    unfolding sum mod_mult_self1 using dbl(1) [of "dl_lop d"] by (simp add: shl1_def)
  have carry: "(if bit (dl_lop d) 31 then 1 else 0) = 2 * ?a div TWO32"
    using u32_lt [of "dl_lop d"] by (auto simp: u32_bit31 div_if)
  have ev: "even ((2 * ?c) mod TWO32)" by (rule dvd_mod) simp_all
  have "unat (dl_hop (shl1 d)) = (2 * ?c) mod TWO32 + (if bit (dl_lop d) 31 then 1 else 0)"
    using u32_or_one [of "push_bit 1 (dl_hop d)"] ev dbl(1) [of "dl_hop d"] by (simp add: shl1_def)
  also have "\<dots> = (2 * ?a div TWO32 + 2 * ?c) mod TWO32"
  proof -
    obtain k where "(2 * ?c) mod TWO32 = 2 * k" using ev by (rule evenE)
    moreover have "(2 * ?c) mod TWO32 < TWO32" by simp
    ultimately have "k < 2147483648" by linarith
    note \<open>(2 * ?c) mod TWO32 = 2 * k\<close> this
    moreover have "2 * ?a div TWO32 \<le> 1" using u32_lt [of "dl_lop d"] by (auto simp: div_if)
    ultimately have "(2 * ?c) mod TWO32 + 2 * ?a div TWO32 < TWO32" by linarith
    then show ?thesis
      unfolding carry mod_add_right_eq [of "2 * ?a div TWO32" "2 * ?c" TWO32, symmetric] by simp
  qed
  finally show "unat (dl_hop (shl1 d)) = 2 * dln d div TWO32 mod TWO32"
    unfolding sum using div_mult_self1 [of TWO32 "2 * ?a" "2 * ?c"] by (simp only: add.commute)
qed

lemma dln_sar1:
  assumes "dln d < TWO63"
  shows "dln (sar1 d) = dln d div 2"
proof -
  let ?a = "unat (dl_lop d)" and ?c = "unat (dl_hop d)"
  have nb: "\<not> bit (dl_hop d) 31" using assms lsign_dln [of d] by (simp add: lsign_def)
  have half: "unat (drop_bit 1 w :: u32) = unat w div 2" for w
    by (simp add: drop_bit_eq_div unat_div)
  have hi: "signed_drop_bit 1 (dl_hop d) = drop_bit 1 (dl_hop d)"
  proof (rule bit_word_eqI)
    fix n assume "n < LENGTH(32)"
    then consider "n < 31" | "n = 31" by fastforce
    then show "bit (signed_drop_bit 1 (dl_hop d)) n \<longleftrightarrow> bit (drop_bit 1 (dl_hop d)) n"
      using nb by cases (auto simp: bit_simps dest: bit_imp_le_length)
  qed
  have lo: "unat (drop_bit 1 (dl_lop d) OR (if bit (dl_hop d) 0 then 0x80000000 else 0)) = ?a div 2 + (?c mod 2) * 2147483648"
  proof (cases "bit (dl_hop d) 0")
    case True
    have "drop_bit 1 (dl_lop d) AND 0x80000000 = 0"
    proof (rule bit_word_eqI)
      fix n assume n: "n < LENGTH(32)"
      have "(0x80000000 :: u32) = 2 ^ 31" by simp
      then have "bit (0x80000000 :: u32) n \<longleftrightarrow> n = 31" using n by (simp only: bit_exp_iff) auto
      then show "bit (drop_bit 1 (dl_lop d) AND 0x80000000) n \<longleftrightarrow> bit (0 :: u32) n"
        by (auto simp only: bit_and_iff bit_drop_bit_eq o_apply bit_0_eq bot_apply dest!: bit_imp_le_length) simp_all
    qed
    from or_disjoint [OF this] have "unat (drop_bit 1 (dl_lop d) OR 0x80000000) = (?a div 2 + 2147483648) mod TWO32"
      using half [of "dl_lop d"] by (simp add: unat_plus32)
    moreover have "?c mod 2 = 1" using True by (simp add: u32_bit0 odd_iff_mod_2_eq_one)
    ultimately show ?thesis using True u32_lt [of "dl_lop d"] by simp
  next
    case False
    then have "?c mod 2 = 0" by (simp add: u32_bit0)
    with False show ?thesis using half [of "dl_lop d"] by simp
  qed
  have "dln (sar1 d) = ?c div 2 * TWO32 + (?a div 2 + (?c mod 2) * 2147483648)"
    by (simp only: dln_def sar1_def hi lo half dl.select_convs)
  also have "\<dots> = ?c div 2 * 2 * 2147483648 + ?c mod 2 * 2147483648 + ?a div 2" by simp
  also have "\<dots> = (?c div 2 * 2 + ?c mod 2) * 2147483648 + ?a div 2" by (simp only: distrib_right)
  also have "\<dots> = ?c * 2147483648 + ?a div 2" by (simp only: div_mult_mod_eq)
  also have "\<dots> = (?a + 2 * (?c * 2147483648)) div 2" by (simp add: div_mult_self2)
  finally show ?thesis by (simp add: dln_def)
qed

lemma dln_shl: "dln ((shl1 ^^ n) d) = (2 ^ n * dln d) mod TWO64"
proof (induction n)
  case 0
  then show ?case using dln_lt [of d] by simp
next
  case (Suc n)
  then show ?case by (simp add: dln_shl1 mod_simps mult.assoc)
qed

lemma dln_sar: "dln d < TWO63 \<Longrightarrow> dln ((sar1 ^^ n) d) = dln d div 2 ^ n"
proof (induction n)
  case 0
  then show ?case by simp
next
  case (Suc n)
  then have "dln ((sar1 ^^ n) d) < TWO63" using div_le_dividend [of "dln d" "2 ^ n"] by (metis le_less_trans)
  with Suc have "dln ((sar1 ^^ Suc n) d) = dln d div 2 ^ n div 2" by (simp add: dln_sar1)
  then show ?case by (simp only: div_mult2_eq [symmetric] power_Suc2)
qed

lemma dln_lshiftl: "dln (lshiftl d (int n)) = (2 ^ n * dln d) mod TWO64"
  and dln_lshiftl1: "dln (lshiftl d 1) = (2 * dln d) mod TWO64"
  and dln_rshiftl: "dln d < TWO63 \<Longrightarrow> dln (lshiftl d (- int n)) = dln d div 2 ^ n"
  using dln_shl [of n d] dln_shl1 [of d] dln_sar [of d n] by (auto simp: lshiftl_def)

lemma dln_or_one: "even (dln d) \<Longrightarrow> dln (d\<lparr>dl_lop := dl_lop d OR 1\<rparr>) = dln d + 1"
  using u32_or_one [of "dl_lop d"] by (simp add: dln_def)

lemma dln_mask: "dln (d\<lparr>dl_hop := dl_hop d AND 0x7fffffff\<rparr>) = dln d mod TWO63"
proof -
  have "dl_hop d AND 0x7fffffff = take_bit 31 (dl_hop d)"
    by (simp add: take_bit_eq_mask mask_eq_exp_minus_1)
  moreover have "unat (take_bit 31 (dl_hop d)) = unat (dl_hop d) mod 2147483648"
    by (simp only: unsigned_take_bit_eq) (simp add: take_bit_eq_mod)
  ultimately have "unat (dl_hop d AND 0x7fffffff) = unat (dl_hop d) mod 2147483648" by simp
  moreover have "dln d mod TWO63 = (dln d div TWO32 mod 2147483648) * TWO32 + dln d mod TWO32"
    using mod_mult2_eq [of "dln d" TWO32 2147483648] by simp
  ultimately show ?thesis by (simp add: dln_def [of "d\<lparr>dl_hop := _\<rparr>"] dln_lop dln_hop)
qed

section \<open>Multiplication\<close>

lemma dln_odd: "dl_lop d AND 1 = 0 \<longleftrightarrow> even (dln d)"
proof -
  have "dl_lop d AND 1 = 0 \<longleftrightarrow> even (unat (dl_lop d))"
    using u32_bit0 [of "dl_lop d"] by (simp add: and_one_eq mod2_eq_if bit_0)
  then show ?thesis by (simp add: dln_def)
qed

lemma mod_pow_Suc: "(r :: nat) mod 2 ^ Suc j = r mod 2 ^ j + 2 ^ j * (r div 2 ^ j mod 2)"
  using mod_mult2_eq [of r "2 ^ j" 2] by (simp add: mult.commute)

text \<open>After \<open>j\<close> turns the answer is the product with the low \<open>j\<close> bits of \<open>rop\<close>.\<close>

lemma lmul_loop:
  assumes "dln r < TWO63" "dln l * dln r < TWO63"
  shows "dln (fold (lmul_step l r) [0..<j] dl_zero) = dln l * (dln r mod 2 ^ j)"
proof (induction j)
  case 0
  then show ?case by simp
next
  case (Suc j)
  let ?ans = "fold (lmul_step l r) [0..<j] dl_zero"
  have bitj: "dl_lop (lshiftl r (- int j)) AND 1 = 0 \<longleftrightarrow> even (dln r div 2 ^ j)"
    by (simp add: dln_odd dln_rshiftl [OF assms(1)])
  show ?case
  proof (cases "even (dln r div 2 ^ j)")
    case True
    then show ?thesis using Suc bitj by (simp add: lmul_step_def mod_pow_Suc del: power_Suc)
  next
    case False
    then have one: "dln r div 2 ^ j mod 2 = 1" by (simp add: odd_iff_mod_2_eq_one)
    then have "2 ^ j \<le> dln r" by (metis div_less linorder_not_le mod_0 zero_neq_one)
    then have "dln l * 2 ^ j \<le> dln l * dln r" by (rule mult_le_mono2)
    then have small: "2 ^ j * dln l < TWO63"
      unfolding mult.commute [of "2 ^ j" "dln l"] using assms(2) by (rule le_less_trans)
    have "dln r mod 2 ^ Suc j \<le> dln r" by simp
    then have "dln l * (dln r mod 2 ^ Suc j) \<le> dln l * dln r" by (rule mult_le_mono2)
    with assms(2) have tot: "dln l * (dln r mod 2 ^ j) + 2 ^ j * dln l < TWO63"
      using one by (simp add: mod_pow_Suc distrib_left mult.commute del: power_Suc)
    have "dln (lshiftl l (int j)) = 2 ^ j * dln l" using small by (simp add: dln_lshiftl)
    with small have "dln ((lshiftl l (int j))\<lparr>dl_hop := dl_hop (lshiftl l (int j)) AND 0x7fffffff\<rparr>) = 2 ^ j * dln l"
      by (simp only: dln_mask mod_less)
    moreover have "lmul_step l r j ans = ladd ans ((lshiftl l (int j))\<lparr>dl_hop := dl_hop (lshiftl l (int j)) AND 0x7fffffff\<rparr>)" for ans
      using bitj False by (simp add: lmul_step_def Let_def)
    ultimately have "dln (lmul_step l r j ?ans) = dln l * (dln r mod 2 ^ j) + 2 ^ j * dln l"
      using tot Suc by (simp add: dln_ladd)
    then show ?thesis using one by (simp add: mod_pow_Suc distrib_left mult.commute del: power_Suc)
  qed
qed

section \<open>Division\<close>

text \<open>After \<open>c\<close> turns the top \<open>c\<close> of the 63 bits of the dividend have been divided.\<close>

definition div_inv :: "nat \<Rightarrow> nat \<Rightarrow> nat \<Rightarrow> divst \<Rightarrow> bool" where
  "div_inv L R c s \<longleftrightarrow> dln (dv_lop s) = (2 ^ c * L) mod TWO64
     \<and> dln (dv_div s) = L div 2 ^ (63 - c) mod R \<and> dln (dv_ans s) = L div 2 ^ (63 - c) div R"

lemma next_bit: "TWO63 \<le> (2 ^ Suc c * L) mod TWO64 \<longleftrightarrow> odd (L div 2 ^ (62 - c))" if "c < 63" for L c :: nat
proof -
  let ?x = "(2 ^ Suc c * L) mod TWO64"
  have "TWO63 \<le> ?x \<longleftrightarrow> odd (?x div 2 ^ 63)" by (auto simp: div_if)
  also have "\<dots> \<longleftrightarrow> bit (take_bit 64 (push_bit (Suc c) L)) 63"
    by (simp add: bit_iff_odd take_bit_eq_mod push_bit_eq_mult mult.commute)
  also have "\<dots> \<longleftrightarrow> bit L (62 - c)" 
    unfolding bit_take_bit_iff bit_push_bit_iff using that by auto
  finally show ?thesis by (simp add: bit_iff_odd)
qed

lemma divide_next:
  fixes x R b :: nat
  assumes "0 < R" "b \<le> 1"
  defines "y \<equiv> 2 * (x mod R) + b"
  shows "(2 * x + b) mod R = (if y < R then y else y - R)" "(2 * x + b) div R = 2 * (x div R) + (if y < R then 0 else 1)"
proof -
  have x: "2 * x + b = 2 * (x div R) * R + y" 
  proof -
    have "2 * (x div R * R + x mod R) + b = 2 * (x div R) * R + y" by (simp only: y_def distrib_left mult.assoc add.assoc)
    then show ?thesis by (simp only: div_mult_mod_eq)
  qed
  have "x mod R < R" using assms(1) by simp
  then have y: "y < 2 * R" using assms(2) by (simp add: y_def)
  have "y mod R = (if y < R then y else y - R)" "y div R = (if y < R then 0 else 1)"
    using y assms(1) by (auto simp: mod_if div_if)
  then show "(2 * x + b) mod R = (if y < R then y else y - R)" "(2 * x + b) div R = 2 * (x div R) + (if y < R then 0 else 1)"
    unfolding x using assms(1) by simp_all
qed

lemma ldivide_step_inv:
  assumes "div_inv L R c s" "c < 63" "L < TWO63" "0 < R" "R \<le> 4611686018427387904" "dln rop = R"
  shows "div_inv L R (Suc c) (ldivide_step rop c s)"
proof -
  let ?x = "L div 2 ^ (63 - c)" and ?y = "L div 2 ^ (62 - c)"
  let ?lop = "lshiftl (dv_lop s) 1" and ?d0 = "lshiftl (dv_div s) 1" and ?a0 = "lshiftl (dv_ans s) 1"
  define D where "D = (if lsign ?lop then ?d0\<lparr>dl_lop := dl_lop ?d0 OR 1\<rparr> else ?d0)"
  define b :: nat where "b = (if odd ?y then 1 else 0)"
  define y where "y = 2 * (?x mod R) + b"
  note inv = assms(1) [unfolded div_inv_def]
  have "63 - c = Suc (62 - c)" using assms(2) by simp
  then have x: "?x = ?y div 2" by (simp only: power_Suc2 div_mult2_eq)
  have xy: "?y = 2 * ?x + b" unfolding x b_def by (cases "odd ?y") simp_all
  have b1: "b \<le> 1" by (simp add: b_def)
  have lop: "dln ?lop = (2 ^ Suc c * L) mod TWO64"
    using inv by (simp add: dln_lshiftl1 mod_simps mult.assoc)
  then have sg: "lsign ?lop \<longleftrightarrow> b = 1" using next_bit [OF assms(2), of L] by (simp add: lsign_dln b_def)
  have "?x mod R < R" using assms(4) by simp
  then have ylt: "y < 2 * R" using b1 by (simp add: y_def)
  have d0: "dln ?d0 = 2 * (?x mod R)" using inv ylt assms(5) by (simp add: dln_lshiftl1 y_def)
  then have d1: "dln D = y" using dln_or_one [of ?d0] sg b1 by (auto simp: y_def D_def)
  have ts: "lsign (lsub D rop) \<longleftrightarrow> y < R"
    unfolding lsign_dln dln_lsub d1 assms(6) using ylt assms(5) by auto
  have "?x div R \<le> L" using div_le_dividend [of ?x R] div_le_dividend [of L "2 ^ (63 - c)"] by (rule le_trans)
  then have "2 * (?x div R) < TWO64" using assms(3) by linarith
  then have a0: "dln ?a0 = 2 * (?x div R)" using inv by (simp add: dln_lshiftl1)
  have step: "ldivide_step rop c s =
      (if y < R then \<lparr>dv_lop = ?lop, dv_div = D, dv_ans = ?a0\<rparr>
       else \<lparr>dv_lop = ?lop, dv_div = lsub D rop, dv_ans = ?a0\<lparr>dl_lop := dl_lop ?a0 OR 1\<rparr>\<rparr>)"
    using ts by (simp add: ldivide_step_def Let_def D_def)
  have s1: "63 - Suc c = 62 - c" by simp
  note nxt = divide_next [OF assms(4) b1, of ?x, folded y_def xy]
  show ?thesis
  proof (cases "y < R")
    case True
    with step lop d1 a0 nxt show ?thesis by (simp add: div_inv_def s1)
  next
    case False
    have "dln (lsub D rop) = y - R" using False assms(6) by (simp only: dln_lsub d1) simp
    moreover have "dln (?a0\<lparr>dl_lop := dl_lop ?a0 OR 1\<rparr>) = 2 * (?x div R) + 1" using dln_or_one [of ?a0] a0 by simp
    ultimately show ?thesis using False step lop nxt by (simp add: div_inv_def s1)
  qed
qed

lemma ldivide_loop:
  assumes "L < TWO63" "0 < R" "R \<le> 4611686018427387904" "dln rop = R" "dln lop = L" "c \<le> 63"
  shows "div_inv L R c (fold (ldivide_step rop) [0..<c] \<lparr>dv_lop = lop, dv_div = dl_zero, dv_ans = dl_zero\<rparr>)"
  using assms(6)
proof (induction c)
  case 0
  then show ?case using assms(1,2,5) dln_lt [of lop] by (simp add: div_inv_def)
next
  case (Suc c)
  then have "div_inv L R c (fold (ldivide_step rop) [0..<c] \<lparr>dv_lop = lop, dv_div = dl_zero, dv_ans = dl_zero\<rparr>)" "c < 63" by simp_all
  from ldivide_step_inv [OF this assms(1-4)] show ?case by simp
qed

lemma ldivide_dln:
  assumes "dln l < TWO63" "0 < dln r" "dln r \<le> 4611686018427387904"
  shows "dln (ldivide l r) = dln l div dln r"
proof -
  have "\<not> lsign l" "\<not> lsign r" using assms by (simp_all add: lsign_dln)
  moreover have "div_inv (dln l) (dln r) 63 (fold (ldivide_step r) [0..<63] \<lparr>dv_lop = l, dv_div = dl_zero, dv_ans = dl_zero\<rparr>)"
    using assms by (intro ldivide_loop) simp_all
  ultimately show ?thesis by (simp add: ldivide_def div_inv_def)
qed

lemma lmul_dln: "dln r < TWO63 \<Longrightarrow> dln l * dln r < TWO63 \<Longrightarrow> dln (lmul l r) = dln l * dln r"
  using lmul_loop [of r l 64] dln_lt [of r] by (simp add: lmul_def)

section \<open>Properties\<close>

text \<open>
  C12: \<^verbatim>\<open>lmul\<close> is multiplication and \<^verbatim>\<open>ldivide\<close> is division: for operands that are not negative, the 64
  turns of shifting and adding give the product whenever it fits in 63 bits, and the 63 turns of the
  restoring division give the quotient, rounded down, for every divisor from 1 to \<open>2 ^ 62\<close>.
\<close>

theorem lmul_ldivide_correct:
  "(dln r < 2 ^ 63 \<and> dln l * dln r < 2 ^ 63 \<longrightarrow> dln (lmul l r) = dln l * dln r)
   \<and> (dln l < 2 ^ 63 \<and> 0 < dln r \<and> dln r \<le> 2 ^ 62 \<longrightarrow> dln (ldivide l r) = dln l div dln r)"
  using lmul_dln [of r l] ldivide_dln [of l r] by simp

theorem lmul_ldivide_correct_witness:
  "dln (lmul \<lparr>dl_lop = 99, dl_hop = 0\<rparr> \<lparr>dl_lop = 1000000000, dl_hop = 0\<rparr>) = 99000000000
   \<and> dln (ldivide \<lparr>dl_lop = 215752192, dl_hop = 23\<rparr> \<lparr>dl_lop = 100, dl_hop = 0\<rparr>) = 990000000"
  using lmul_ldivide_correct [of "\<lparr>dl_lop = 1000000000, dl_hop = 0\<rparr>" "\<lparr>dl_lop = 99, dl_hop = 0\<rparr>"]
    lmul_ldivide_correct [of "\<lparr>dl_lop = 100, dl_hop = 0\<rparr>" "\<lparr>dl_lop = 215752192, dl_hop = 23\<rparr>"]
  by (simp add: dln_def)

end
