(* ===== verification/KHrt.thy ===== *)
theory KHrt
  imports KDl
begin

text \<open>
  Conversion of times between resolutions, from \<^verbatim>\<open>uts/i386/io/hrtimers.c\<close>: \<^verbatim>\<open>hrt_checkres\<close>,
  \<^verbatim>\<open>hrt_newres\<close>, \<^verbatim>\<open>hrt_convert\<close> and \<^verbatim>\<open>hrt_tohz\<close>. The members of \<^verbatim>\<open>hrtime_t\<close> and the variables of type
  \<^verbatim>\<open>long\<close> and \<^verbatim>\<open>ulong\<close> are 32-bit words: in every comparison, product and quotient of these routines
  one operand is unsigned, so all of them are unsigned in C. A division by zero traps and is the
  value \<^const>\<open>None\<close>. A routine that changes the structure it is given returns it beside its error code.
\<close>

section \<open>Operations\<close>

record hrtime =
  hrt_secs :: u32
  hrt_rem :: u32
  hrt_res :: u32

abbreviation (input) HRT_TRUNC :: int where "HRT_TRUNC \<equiv> 0"
abbreviation (input) HRT_RND :: int where "HRT_RND \<equiv> 1"
abbreviation (input) HRT_RNDUP :: int where "HRT_RNDUP \<equiv> 2"
abbreviation (input) NANOSEC :: u32 where "NANOSEC \<equiv> 1000000000"
abbreviation (input) HZ :: u32 where "HZ \<equiv> 100"

definition hrt_checkres :: "u32 \<Rightarrow> errno option" where
  "hrt_checkres res = (if res \<le> 0 \<or> res > NANOSEC then Some ERANGE else None)"

text \<open>
  \<^verbatim>\<open>hrt_newres\<close> in its three parts. The first brings the remainder below one second; the second
  computes in single precision, with \<^const>\<open>None\<close> where the source goes on to the third, which
  computes in double precision.
\<close>

definition hrt_normal :: "hrtime \<Rightarrow> hrtime option" where
  "hrt_normal h =
    (if hrt_rem h \<ge> hrt_res h then
       (if hrt_res h = 0 then None
        else Some (h\<lparr>hrt_secs := hrt_secs h + hrt_rem h div hrt_res h, hrt_rem := hrt_rem h mod hrt_res h\<rparr>))
     else Some h)"

definition hrt_single :: "hrtime \<Rightarrow> u32 \<Rightarrow> int \<Rightarrow> (errno option \<times> hrtime) option" where
  "hrt_single h new_res rnd =
    (let interval = hrt_rem h; numerator = interval * new_res in
     if numerator div new_res \<noteq> interval then None
     else
       let result = numerator div hrt_res h;
           up = (if result + 1 - 1 = result then (None, h\<lparr>hrt_res := new_res, hrt_rem := result + 1\<rparr>) else (Some ERANGE, h));
           same = (None, h\<lparr>hrt_res := new_res, hrt_rem := result\<rparr>) in
       if rnd = HRT_RND then
         let modulus = numerator - result * hrt_res h; twomodulus = 2 * modulus in
         if twomodulus div 2 = modulus then
           if twomodulus \<ge> hrt_res h then Some up else Some same
         else None
       else if rnd = HRT_RNDUP then
         if result * hrt_res h \<noteq> numerator then Some up else Some same
       else Some same)"

definition hrt_double :: "hrtime \<Rightarrow> u32 \<Rightarrow> int \<Rightarrow> errno option \<times> hrtime" where
  "hrt_double h new_res rnd =
    (let dint = \<lparr>dl_lop = hrt_rem h, dl_hop = 0\<rparr>;
         dto_res = \<lparr>dl_lop = new_res, dl_hop = 0\<rparr>;
         prod = lmul dint dto_res;
         prod = (if rnd = HRT_RND then ladd prod \<lparr>dl_lop = hrt_res h div 2, dl_hop = 0\<rparr>
                 else if rnd = HRT_RNDUP then ladd prod \<lparr>dl_lop = hrt_res h - 1, dl_hop = 0\<rparr>
                 else prod);
         dfrom_res = \<lparr>dl_lop = hrt_res h, dl_hop = 0\<rparr>;
         quot = ldivide prod dfrom_res in
     if dl_hop quot \<noteq> 0 then (Some ERANGE, h)
     else (None, h\<lparr>hrt_res := new_res, hrt_rem := dl_lop quot\<rparr>))"

definition hrt_newres :: "hrtime \<Rightarrow> u32 \<Rightarrow> int \<Rightarrow> (errno option \<times> hrtime) option" where
  "hrt_newres h new_res rnd =
    (case hrt_checkres new_res of
       Some e \<Rightarrow> Some (Some e, h)
     | None \<Rightarrow> do {
         h \<leftarrow> hrt_normal h;
         if hrt_rem h = 0 then Some (None, h\<lparr>hrt_res := new_res\<rparr>)
         else (case hrt_single h new_res rnd of
                 Some r \<Rightarrow> Some r
               | None \<Rightarrow> Some (hrt_double h new_res rnd)) })"

definition hrt_convert :: "hrtime \<Rightarrow> u32 option" where
  "hrt_convert h =
    (let product = hrt_secs h * hrt_res h in
     if hrt_res h = 0 then None
     else if product div hrt_res h = hrt_secs h then
       let sum = product + hrt_rem h in
       if sum - hrt_rem h = product then Some sum else Some (- 1)
     else Some (- 1))"

definition hrt_tohz :: "hrtime \<Rightarrow> int \<Rightarrow> (errno option \<times> hrtime) option" where
  "hrt_tohz h rnd = do {
     (e, h) \<leftarrow> hrt_newres h HZ rnd;
     case e of Some e \<Rightarrow> Some (Some e, h)
     | None \<Rightarrow> do {
         result \<leftarrow> hrt_convert h;
         if result = - 1 then Some (Some EDOM, h)
         else Some (None, h\<lparr>hrt_secs := 0, hrt_rem := result\<rparr>) } }"

section \<open>Exact rounding\<close>

text \<open>The quotient \<open>n / r\<close> of natural numbers, rounded the three ways of \<^verbatim>\<open>sys/hrtcntl.h\<close>.\<close>

definition rounded :: "int \<Rightarrow> nat \<Rightarrow> nat \<Rightarrow> nat" where
  "rounded rnd n r =
    (if rnd = HRT_RND then (2 * n + r) div (2 * r)
     else if rnd = HRT_RNDUP then (n + r - 1) div r
     else n div r)"

text \<open>Bounds: rounding loses or adds less than one unit, half a unit for \<^verbatim>\<open>HRT_RND\<close>.\<close>

lemma rounded_bounds:
  assumes "0 < r"
  shows "rnd \<noteq> HRT_RND \<Longrightarrow> rnd \<noteq> HRT_RNDUP \<Longrightarrow> rounded rnd n r * r \<le> n \<and> n < (rounded rnd n r + 1) * r"
    and "rnd = HRT_RNDUP \<Longrightarrow> n \<le> rounded rnd n r * r \<and> rounded rnd n r * r < n + r"
    and "rnd = HRT_RND \<Longrightarrow> 2 * n < (2 * rounded rnd n r + 1) * r \<and> 2 * (rounded rnd n r * r) \<le> 2 * n + r"
proof -
  have fl: "m div k * k \<le> m \<and> m < (m div k + 1) * k" if "0 < k" for m k :: nat
    using that dividend_less_div_times [of k m] by (simp add: div_times_less_eq_dividend algebra_simps)
  show "rounded rnd n r * r \<le> n \<and> n < (rounded rnd n r + 1) * r" if "rnd \<noteq> HRT_RND" "rnd \<noteq> HRT_RNDUP"
    using fl [OF assms, of n] that by (simp add: rounded_def)
  show "n \<le> rounded rnd n r * r \<and> rounded rnd n r * r < n + r" if "rnd = HRT_RNDUP"
  proof -
    have eq: "rounded rnd n r = (n + r - 1) div r" by (simp add: rounded_def that)
    have "(n + r - 1) div r * r \<le> n + r - 1" "n + r - 1 < (n + r - 1) div r * r + r"
      using fl [OF assms, of "n + r - 1"] by (simp_all only: distrib_right mult_1)
    then show ?thesis unfolding eq using assms by (intro conjI) linarith+
  qed
  show "2 * n < (2 * rounded rnd n r + 1) * r \<and> 2 * (rounded rnd n r * r) \<le> 2 * n + r" if "rnd = HRT_RND"
    using fl [of "2 * r" "2 * n + r"] that assms by (auto simp: rounded_def algebra_simps)
qed

text \<open>The two ways in which the code rounds to the nearest, and the two in which it rounds up.\<close>

lemma div_off:
  fixes n r :: nat
  assumes "0 < r"
  obtains q m where "n = q * r + m" "m < r" "n div r = q" "n mod r = m"
proof (rule that [of "n div r" "n mod r"])
  show "n = n div r * r + n mod r" by (simp only: div_mult_mod_eq)
qed (use assms in simp_all)

lemma div_is: "q * r \<le> a \<Longrightarrow> a < (q + 1) * r \<Longrightarrow> a div r = (q :: nat)"
  by (rule div_nat_eqI) (simp_all add: mult.commute)

lemma round_near:
  assumes "0 < (r :: nat)"
  shows "(n + r div 2) div r = (2 * n + r) div (2 * r)"
    and "(2 * n + r) div (2 * r) = n div r + (if r \<le> 2 * (n mod r) then 1 else 0)"
proof -
  obtain q m where n: "n = q * r + m" "m < r" "n div r = q" "n mod r = m" by (rule div_off [OF assms])
  show e: "(2 * n + r) div (2 * r) = n div r + (if r \<le> 2 * (n mod r) then 1 else 0)"
    unfolding n(3,4) using n(2) by (intro div_is) (auto simp: n(1) distrib_right)
  have "(n + r div 2) div r = q + (if r \<le> 2 * m then 1 else 0)"
    using n(2) by (intro div_is) (auto simp: n(1) distrib_right)
  then show "(n + r div 2) div r = (2 * n + r) div (2 * r)" by (simp only: e n(3,4))
qed

lemma round_up:
  assumes "0 < (r :: nat)"
  shows "(n + r - 1) div r = n div r + (if n mod r = 0 then 0 else 1)"
proof -
  obtain q m where n: "n = q * r + m" "m < r" "n div r = q" "n mod r = m" by (rule div_off [OF assms])
  then show ?thesis using assms by (intro div_is) (auto simp: distrib_right)
qed

lemma rounded_eq:
  assumes "0 < r"
  shows "rounded rnd n r = (if rnd = HRT_RND then n div r + (if r \<le> 2 * (n mod r) then 1 else 0)
     else if rnd = HRT_RNDUP then n div r + (if n mod r = 0 then 0 else 1) else n div r)"
  using round_near(2) [OF assms] round_up [OF assms] by (simp only: rounded_def)

lemma rounded_le:
  assumes "0 < r" "i < r"
  shows "rounded rnd (i * n) r \<le> n"
proof -
  show ?thesis
  proof (cases n)
    case 0
    then show ?thesis using assms by (simp add: rounded_def)
  next
    case (Suc k)
    then have "i * n < r * n" using assms by (intro mult_strict_right_mono) simp_all
    then have "i * n div r < n" using assms by (simp add: less_mult_imp_div_less mult.commute)
    then show ?thesis by (simp add: rounded_eq [OF assms(1)])
  qed
qed

section \<open>Single and double precision\<close>

lemma unat_eq: "a = b \<longleftrightarrow> unat a = unat (b :: u32)"
  by (simp add: word_unat_eq_iff)

text \<open>The check of the product: dividing it by one factor gives the other exactly when it did not overflow.\<close>

lemma mul_check:
  fixes i n :: u32
  assumes "n \<noteq> 0"
  shows "i * n div n = i \<longleftrightarrow> unat i * unat n < TWO32"
proof
  assume "unat i * unat n < TWO32"
  then have "unat (i * n div n) = unat i" using assms by (simp add: unat_div unat_times32 unat_eq_0)
  then show "i * n div n = i" by (simp only: unat_eq)
next
  assume h: "i * n div n = i"
  have n0: "0 < unat n" using assms by (simp add: unat_gt_0)
  have "unat i * unat n \<le> (unat i * unat n) mod TWO32"
  proof -
    have "unat i = (unat i * unat n) mod TWO32 div unat n" 
      using arg_cong [OF h, of unat] by (simp add: unat_div unat_times32)
    then show ?thesis using div_times_less_eq_dividend [of "(unat i * unat n) mod TWO32" "unat n"] by simp
  qed
  also have "\<dots> < TWO32" by simp
  finally show "unat i * unat n < TWO32" .
qed

lemma hrt_single_overflow:
  assumes "new_res \<noteq> 0" "unat (hrt_rem h) * unat new_res \<ge> TWO32"
  shows "hrt_single h new_res rnd = None"
  using mul_check [OF assms(1), of "hrt_rem h"] assms(2) by (simp add: hrt_single_def Let_def)

lemma hrt_single_exact:
  assumes "hrt_rem h < hrt_res h" "new_res \<noteq> 0" "hrt_single h new_res rnd = Some r"
  shows "r = (None, h\<lparr>hrt_res := new_res,
     hrt_rem := word_of_nat (rounded rnd (unat (hrt_rem h) * unat new_res) (unat (hrt_res h)))\<rparr>)"
proof -
  let ?N = "unat (hrt_rem h) * unat new_res" and ?R = "unat (hrt_res h)"
  let ?num = "hrt_rem h * new_res" and ?r = "hrt_res h"
  have R: "0 < ?R" using assms(1) by (simp add: word_less_nat_alt)
  have N: "?N < TWO32" using hrt_single_overflow [OF assms(2), of h rnd] assms(3) by force
  then have num: "unat ?num = ?N" by (simp add: unat_times32)
  have res: "unat (?num div ?r) = ?N div ?R" by (simp add: unat_div num)
  have bk: "unat (?num div ?r * ?r) = ?N div ?R * ?R"
    using le_less_trans [OF div_times_less_eq_dividend N] by (simp add: unat_times32 res)
  have md: "unat (?num - ?num div ?r * ?r) = ?N mod ?R"
    unfolding minus_div_mult_eq_mod by (simp add: unat_mod num)
  have ex: "?num div ?r * ?r = ?num \<longleftrightarrow> ?N mod ?R = 0"
    unfolding unat_eq [of "?num div ?r * ?r"] bk num using div_mult_mod_eq [of ?N ?R] by linarith
  have w: "?num div ?r = word_of_nat (?N div ?R)" "?num div ?r + 1 = word_of_nat (?N div ?R + 1)"
    by (simp_all flip: res)
  have dbl: "2 * m div 2 = m \<Longrightarrow> unat (2 * m) = 2 * unat m" for m :: u32
    using mul_check [of 2 m] by (simp add: mult.commute unat_times32)
  show ?thesis
  proof (cases "rnd = HRT_RND")
    case True
    let ?m = "?num - ?num div ?r * ?r"
    have "2 * ?m div 2 = ?m" using assms(3) True by (auto simp: hrt_single_def Let_def split: if_splits)
    then have "unat (2 * ?m) = 2 * (?N mod ?R)" using dbl [of ?m] md by (simp only:)
    then have "2 * ?m \<ge> ?r \<longleftrightarrow> ?R \<le> 2 * (?N mod ?R)" by (simp add: word_le_nat_alt)
    then show ?thesis
      using assms(3) True w by (auto simp: hrt_single_def Let_def rounded_eq [OF R] split: if_splits)
  next
    case False
    then show ?thesis
      using assms(3) ex w by (auto simp: hrt_single_def Let_def rounded_eq [OF R] split: if_splits)
  qed
qed

lemma hrt_double_exact:
  assumes "hrt_rem h < hrt_res h" "unat new_res \<le> 1000000000"
  shows "hrt_double h new_res rnd = (None, h\<lparr>hrt_res := new_res,
     hrt_rem := word_of_nat (rounded rnd (unat (hrt_rem h) * unat new_res) (unat (hrt_res h)))\<rparr>)"
proof -
  let ?N = "unat (hrt_rem h) * unat new_res" and ?R = "unat (hrt_res h)"
  let ?dl = "\<lambda>w. \<lparr>dl_lop = w, dl_hop = 0 :: u32\<rparr>"
  have dl: "dln (?dl w) = unat w" for w by (simp add: dln_def)
  have i: "unat (hrt_rem h) < ?R" using assms(1) by (simp add: word_less_nat_alt)
  then have R: "0 < ?R" "?R < TWO32" using u32_lt by auto
  have "?N \<le> TWO32 * 1000000000" using assms(2) u32_lt [of "hrt_rem h"] by (intro mult_le_mono) simp_all
  then have N: "?N + TWO32 < TWO63" by simp
  have pr: "dln (lmul (?dl (hrt_rem h)) (?dl new_res)) = ?N"
    using lmul_dln [of "?dl new_res" "?dl (hrt_rem h)"] N assms(2) by (simp add: dl)
  define prod where "prod = (let prod = lmul (?dl (hrt_rem h)) (?dl new_res) in
      if rnd = HRT_RND then ladd prod (?dl (hrt_res h div 2))
      else if rnd = HRT_RNDUP then ladd prod (?dl (hrt_res h - 1)) else prod)"
  have half: "unat (hrt_res h div 2) = ?R div 2" by (simp add: unat_div)
  have one: "unat (hrt_res h - 1) = ?R - 1" using R by (simp add: unat_minus32)
  have prod: "dln prod = ?N + (if rnd = HRT_RND then ?R div 2 else if rnd = HRT_RNDUP then ?R - 1 else 0)"
    using N R by (auto simp: prod_def Let_def dln_ladd pr dl half one)
  have "dln prod < TWO63" using prod N R by auto
  then have "dln (ldivide prod (?dl (hrt_res h))) = dln prod div ?R"
    using ldivide_dln [of prod "?dl (hrt_res h)"] R by (simp add: dl)
  also have "\<dots> = rounded rnd ?N ?R" using R by (simp add: prod rounded_def round_near(1))
  finally have q: "dln (ldivide prod (?dl (hrt_res h))) = rounded rnd ?N ?R" .
  have small: "rounded rnd ?N ?R \<le> unat new_res" using rounded_le [OF R(1) i] .
  then have lt: "rounded rnd ?N ?R < TWO32" using assms(2) by linarith
  have hop: "dl_hop (ldivide prod (?dl (hrt_res h))) = 0"
    using dln_hop [of "ldivide prod (?dl (hrt_res h))"] q lt by (simp add: unat_eq)
  have "dl_lop (ldivide prod (?dl (hrt_res h))) = word_of_nat (rounded rnd ?N ?R)"
    using dln_lop [of "ldivide prod (?dl (hrt_res h))"] q lt by (simp add: unat_eq unat_of_nat take_bit_eq_mod)
  with hop show ?thesis by (simp add: hrt_double_def Let_def prod_def [unfolded Let_def, symmetric])
qed

section \<open>Properties\<close>

text \<open>The time after the remainder has been brought below one second.\<close>

definition normal :: "hrtime \<Rightarrow> hrtime" where
  "normal h = h\<lparr>hrt_secs := hrt_secs h + hrt_rem h div hrt_res h, hrt_rem := hrt_rem h mod hrt_res h\<rparr>"

lemma hrt_normal_eq: "hrt_res h \<noteq> 0 \<Longrightarrow> hrt_normal h = Some (normal h)"
proof (cases "hrt_rem h \<ge> hrt_res h")
  case False
  then have lt: "unat (hrt_rem h) < unat (hrt_res h)" by (simp add: word_le_nat_alt)
  then have "hrt_rem h div hrt_res h = 0" "hrt_rem h mod hrt_res h = hrt_rem h"
    unfolding unat_eq by (simp_all add: unat_div unat_mod)
  with False show ?thesis by (simp add: hrt_normal_def normal_def)
qed (simp add: hrt_normal_def normal_def)

lemma normal_lt: "hrt_res h \<noteq> 0 \<Longrightarrow> hrt_rem (normal h) < hrt_res h"
  by (simp add: normal_def word_less_nat_alt unat_mod unat_gt_0)

lemma hrt_newres_le:
  assumes "hrt_res h \<noteq> 0"
  shows "rounded rnd (unat (hrt_rem h) mod unat (hrt_res h) * n) (unat (hrt_res h)) \<le> n"
proof -
  have "unat (hrt_rem h) mod unat (hrt_res h) < unat (hrt_res h)" "0 < unat (hrt_res h)" using assms by (simp_all add: unat_gt_0)
  then show ?thesis by (intro rounded_le)
qed

lemma hrt_newres_ok:
  assumes "hrt_res h \<noteq> 0" "new_res \<noteq> 0" "new_res \<le> NANOSEC"
  shows "hrt_newres h new_res rnd = Some (None, \<lparr>hrt_secs = hrt_secs h + hrt_rem h div hrt_res h,
      hrt_rem = word_of_nat (rounded rnd (unat (hrt_rem h) mod unat (hrt_res h) * unat new_res) (unat (hrt_res h))),
      hrt_res = new_res\<rparr>)"
proof -
  let ?rem = "rounded rnd (unat (hrt_rem h) mod unat (hrt_res h) * unat new_res) (unat (hrt_res h))"
  have n: "unat new_res \<le> 1000000000" using assms(3) by (simp add: word_le_nat_alt)
  have i: "unat (hrt_rem (normal h)) = unat (hrt_rem h) mod unat (hrt_res h)" by (simp add: normal_def unat_mod)
  have sel: "hrt_res (normal h) = hrt_res h" "hrt_secs (normal h) = hrt_secs h + hrt_rem h div hrt_res h" by (simp_all add: normal_def)
  have lt: "hrt_rem (normal h) < hrt_res (normal h)" using normal_lt [OF assms(1)] sel by simp
  have ok: "hrt_checkres new_res = None" using assms(2,3) by (auto simp: hrt_checkres_def word_le_nat_alt word_less_nat_alt unat_gt_0)
  let ?r = "(None :: errno option, (normal h)\<lparr>hrt_res := new_res, hrt_rem := word_of_nat ?rem\<rparr>)"
  have "hrt_newres h new_res rnd = Some ?r"
  proof (cases "hrt_rem (normal h) = 0")
    case True
    then have "unat (hrt_rem h) mod unat (hrt_res h) = 0" using i by simp
    moreover have R: "0 < unat (hrt_res h)" using assms(1) by (simp add: unat_gt_0)
    ultimately have "?rem = 0" by (simp add: rounded_eq [OF R])
    with True ok show ?thesis by (simp add: hrt_newres_def hrt_normal_eq [OF assms(1)])
  next
    case False
    have "hrt_single (normal h) new_res rnd = Some r \<Longrightarrow> r = ?r" for r
      using hrt_single_exact [OF lt assms(2)] by (simp add: sel i)
    moreover have "hrt_double (normal h) new_res rnd = ?r"
      using hrt_double_exact [OF lt n] by (simp add: sel i)
    ultimately show ?thesis
      using False ok by (cases "hrt_single (normal h) new_res rnd") (simp_all add: hrt_newres_def hrt_normal_eq [OF assms(1)])
  qed
  then show ?thesis by (simp add: normal_def)
qed

lemma hrt_convert_eq:
  assumes "hrt_res h \<noteq> 0"
  shows "hrt_convert h = Some (if unat (hrt_secs h) * unat (hrt_res h) < TWO32 then hrt_secs h * hrt_res h + hrt_rem h else - 1)"
  using mul_check [OF assms, of "hrt_secs h"] assms by (simp add: hrt_convert_def Let_def)

lemma hrt_tohz_ok:
  fixes h :: hrtime and rnd :: int
  assumes "hrt_res h \<noteq> 0"
  defines "secs \<equiv> hrt_secs h + hrt_rem h div hrt_res h"
    and "frac \<equiv> rounded rnd (unat (hrt_rem h) mod unat (hrt_res h) * 100) (unat (hrt_res h))"
  shows "hrt_tohz h rnd = Some
    (if unat secs * 100 \<ge> TWO32 \<or> (unat secs * 100 + frac) mod TWO32 = TWO32 - 1
     then (Some EDOM, \<lparr>hrt_secs = secs, hrt_rem = word_of_nat frac, hrt_res = 100\<rparr>)
     else (None, \<lparr>hrt_secs = 0, hrt_rem = word_of_nat (unat secs * 100 + frac), hrt_res = 100\<rparr>))"
proof -
  let ?h = "\<lparr>hrt_secs = secs, hrt_rem = word_of_nat frac, hrt_res = (100 :: u32)\<rparr>"
  have nr: "hrt_newres h HZ rnd = Some (None, ?h)"
    using hrt_newres_ok [OF assms(1), of HZ rnd] by (simp add: secs_def frac_def)
  have cv: "hrt_convert ?h = Some (if unat secs * 100 < TWO32 then secs * 100 + word_of_nat frac else - 1)"
    using hrt_convert_eq [of ?h] by simp
  have w: "secs * 100 + word_of_nat frac = word_of_nat (unat secs * 100 + frac)" by simp
  have m1: "word_of_nat n = (- 1 :: u32) \<longleftrightarrow> n mod TWO32 = TWO32 - 1" for n
    
  proof -
    have "unat (- 1 :: u32) = TWO32 - 1" by (simp add: unsigned_minus_1_eq_mask mask_eq_exp_minus_1)
    then show ?thesis by (simp add: unat_eq [of "word_of_nat n"] unat_of_nat take_bit_eq_mod)
  qed
  show ?thesis
    unfolding hrt_tohz_def nr using m1 [of "unat secs * 100 + frac"] by (auto simp: cv simp flip: w)
qed

text \<open>
  C11: \<^verbatim>\<open>hrt_newres\<close> rounds exactly. For every time of a resolution that is not zero and every legal
  new resolution, in single or in double precision, the new remainder is the old one, less its whole
  seconds, times the new resolution over the old, rounded down, up, or to the nearest as \<open>rnd\<close> says;
  whole seconds are carried into the seconds; and the error \<^verbatim>\<open>ERANGE\<close> that its comment announces for a
  quotient too big for a long never comes, because the remainder is at most the new resolution.
\<close>

theorem hrt_newres_exact:
  fixes h :: hrtime and rnd :: int
  assumes "hrt_res h \<noteq> 0" "new_res \<noteq> 0" "new_res \<le> NANOSEC"
  defines "rem \<equiv> rounded rnd (unat (hrt_rem h) mod unat (hrt_res h) * unat new_res) (unat (hrt_res h))"
  shows "hrt_newres h new_res rnd = Some (None, \<lparr>hrt_secs = hrt_secs h + hrt_rem h div hrt_res h,
      hrt_rem = word_of_nat rem, hrt_res = new_res\<rparr>) \<and> rem \<le> unat new_res"
  using hrt_newres_ok [OF assms(1-3), of rnd] hrt_newres_le [OF assms(1), of rnd "unat new_res"] by (simp add: rem_def)

theorem hrt_newres_exact_witness:
  "hrt_newres \<lparr>hrt_secs = 3, hrt_rem = 250, hrt_res = 100\<rparr> NANOSEC HRT_TRUNC =
     Some (None, \<lparr>hrt_secs = 5, hrt_rem = 500000000, hrt_res = NANOSEC\<rparr>)
   \<and> hrt_newres \<lparr>hrt_secs = 0, hrt_rem = 15000001, hrt_res = NANOSEC\<rparr> 100 HRT_RND =
     Some (None, \<lparr>hrt_secs = 0, hrt_rem = 2, hrt_res = 100\<rparr>)"
  using hrt_newres_exact [of "\<lparr>hrt_secs = 3, hrt_rem = 250, hrt_res = 100\<rparr>" NANOSEC HRT_TRUNC]
    hrt_newres_exact [of "\<lparr>hrt_secs = 0, hrt_rem = 15000001, hrt_res = NANOSEC\<rparr>" 100 HRT_RND]
  by (simp add: rounded_def)

text \<open>
  \<^verbatim>\<open>hrt_tohz\<close> gives the number of clock ticks of a time, its fraction rounded as asked, when that
  number and the seconds fit in 32 bits and the number is not \<open>2 ^ 32 - 1\<close>; and reports \<^verbatim>\<open>EDOM\<close> when already
  the ticks of the whole seconds do not fit.
\<close>

theorem hrt_tohz_exact:
  fixes h :: hrtime and rnd :: int
  assumes "hrt_res h \<noteq> 0"
  defines "secs \<equiv> unat (hrt_secs h) + unat (hrt_rem h) div unat (hrt_res h)"
    and "frac \<equiv> rounded rnd (unat (hrt_rem h) mod unat (hrt_res h) * 100) (unat (hrt_res h))"
  shows "(secs * 100 + frac < 2 ^ 32 - 1 \<longrightarrow>
      hrt_tohz h rnd = Some (None, \<lparr>hrt_secs = 0, hrt_rem = word_of_nat (secs * 100 + frac), hrt_res = 100\<rparr>))
    \<and> (secs < 2 ^ 32 \<and> secs * 100 \<ge> 2 ^ 32 \<longrightarrow> map_option fst (hrt_tohz h rnd) = Some (Some EDOM))"
proof -
  let ?w = "hrt_secs h + hrt_rem h div hrt_res h"
  have w: "unat ?w = secs" if "secs < 2 ^ 32" using that by (simp add: secs_def unat_plus32 unat_div)
  have res: "hrt_tohz h rnd = Some (if unat ?w * 100 \<ge> TWO32 \<or> (unat ?w * 100 + frac) mod TWO32 = TWO32 - 1
     then (Some EDOM, \<lparr>hrt_secs = ?w, hrt_rem = word_of_nat frac, hrt_res = 100\<rparr>)
     else (None, \<lparr>hrt_secs = 0, hrt_rem = word_of_nat (unat ?w * 100 + frac), hrt_res = 100\<rparr>))"
    unfolding frac_def by (rule hrt_tohz_ok [OF assms(1)])
  show ?thesis
  proof (intro conjI impI; (elim conjE)?)
    assume h: "secs * 100 + frac < 2 ^ 32 - 1"
    then have "unat ?w = secs" by (intro w) simp
    with h res show "hrt_tohz h rnd = Some (None, \<lparr>hrt_secs = 0, hrt_rem = word_of_nat (secs * 100 + frac), hrt_res = 100\<rparr>)"
      by (simp del: of_nat_add of_nat_mult)
  next
    assume h: "secs < 2 ^ 32" "2 ^ 32 \<le> secs * 100"
    with w res show "map_option fst (hrt_tohz h rnd) = Some (Some EDOM)" by simp
  qed
qed

theorem hrt_tohz_exact_witness:
  "hrt_tohz \<lparr>hrt_secs = 2, hrt_rem = 10000001, hrt_res = NANOSEC\<rparr> HRT_RNDUP = Some (None, \<lparr>hrt_secs = 0, hrt_rem = 202, hrt_res = 100\<rparr>)
   \<and> map_option fst (hrt_tohz \<lparr>hrt_secs = 100000000, hrt_rem = 0, hrt_res = NANOSEC\<rparr> HRT_RNDUP) = Some (Some EDOM)"
  using hrt_tohz_exact [of "\<lparr>hrt_secs = 2, hrt_rem = 10000001, hrt_res = NANOSEC\<rparr>" HRT_RNDUP]
    hrt_tohz_exact [of "\<lparr>hrt_secs = 100000000, hrt_rem = 0, hrt_res = NANOSEC\<rparr>" HRT_RNDUP]
  by (simp add: rounded_def)

text \<open>
  The finding on \<^verbatim>\<open>hrt_convert\<close>: its second overflow check, \<^verbatim>\<open>sum - htp->hrt_rem == product\<close>, holds for every
  sum, because subtraction undoes addition also when it wraps, and its first is an unsigned one. So an
  interval of 42949672.96 seconds is converted to 0 ticks, one of 42949672.94 seconds to -2 (the code of an
  infinite quantum in the real-time class) and one of 30000000 seconds to a negative number, none with
  \<^verbatim>\<open>EDOM\<close>.
\<close>

theorem hrt_tohz_wraps:
  "hrt_tohz \<lparr>hrt_secs = 42949672, hrt_rem = 960000000, hrt_res = NANOSEC\<rparr> HRT_RNDUP =
     Some (None, \<lparr>hrt_secs = 0, hrt_rem = 0, hrt_res = 100\<rparr>)
   \<and> hrt_tohz \<lparr>hrt_secs = 42949672, hrt_rem = 940000000, hrt_res = NANOSEC\<rparr> HRT_RNDUP =
     Some (None, \<lparr>hrt_secs = 0, hrt_rem = - 2, hrt_res = 100\<rparr>)
   \<and> (\<exists>r. hrt_tohz \<lparr>hrt_secs = 30000000, hrt_rem = 0, hrt_res = NANOSEC\<rparr> HRT_RNDUP = Some (None, r) \<and> sint (hrt_rem r) = - 1294967296)"
  using hrt_tohz_ok [of "\<lparr>hrt_secs = 42949672, hrt_rem = 960000000, hrt_res = NANOSEC\<rparr>" HRT_RNDUP]
    hrt_tohz_ok [of "\<lparr>hrt_secs = 42949672, hrt_rem = 940000000, hrt_res = NANOSEC\<rparr>" HRT_RNDUP]
    hrt_tohz_ok [of "\<lparr>hrt_secs = 30000000, hrt_rem = 0, hrt_res = NANOSEC\<rparr>" HRT_RNDUP]
  by (simp add: rounded_def)

end
