(* ===== verification/KRt.thy ===== *)
theory KRt
  imports KQueue KCred KHrt
begin

text \<open>
  The real-time scheduling class, \<^verbatim>\<open>uts/i386/disp/rt.c\<close>, with the table the kernel ships in
  \<^verbatim>\<open>uts/i386/master.d/rt/space.c\<close>. As in the time-sharing class the structures \<^verbatim>\<open>rtproc_t\<close> are known by
  their addresses and the class's list is the list of them; the pointers into the \<^verbatim>\<open>proc_t\<close> are not
  represented, and the answers of the memory allocator are arguments. A process of this class has a
  fixed priority, and a time quantum that is a number of ticks, converted from and to seconds and
  nanoseconds by the routines of \<open>KHrt\<close>.
\<close>

section \<open>Data\<close>

type_synonym rtp = nat

record rtdpent =
  rt_globpri :: int
  rt_quantum :: int

record rtproc =
  rt_pquantum :: int
  rt_timeleft :: int
  rt_pri :: int
  rt_flags :: u32
  rt_procp :: procp

text \<open>The parameters as the kernel keeps them and as the user passes them.\<close>

record rtkparms =
  rk_pri :: int
  rk_tqntm :: int

record rtparms =
  rp_pri :: int
  rp_tqsecs :: u32
  rp_tqnsecs :: int

record rtsys =
  rdsp :: disp
  rtprocs :: "rtp \<Rightarrow> rtproc"
  rt_plist :: "rtp list"
  rt_dptbl :: "rtdpent list"
  rt_maxpri :: int
  rt_cid :: int

abbreviation RTRAN :: u32 where "RTRAN \<equiv> 0x0001"
abbreviation RTBACKQ :: u32 where "RTBACKQ \<equiv> 0x0002"

abbreviation (input) RT_NOCHANGE :: int where "RT_NOCHANGE \<equiv> - 1"
abbreviation (input) RT_TQINF :: int where "RT_TQINF \<equiv> - 2"
abbreviation (input) RT_TQDEF :: int where "RT_TQDEF \<equiv> - 3"

definition upd_rt :: "rtsys \<Rightarrow> rtp \<Rightarrow> (rtproc \<Rightarrow> rtproc) \<Rightarrow> rtsys" where
  "upd_rt s t f = s\<lparr>rtprocs := (rtprocs s)(t := f (rtprocs s t))\<rparr>"

definition upd_rdsp :: "rtsys \<Rightarrow> (disp \<Rightarrow> disp) \<Rightarrow> rtsys" where
  "upd_rdsp s f = s\<lparr>rdsp := f (rdsp s)\<rparr>"

definition rt_proc :: "rtsys \<Rightarrow> rtp \<Rightarrow> proc_t" where
  "rt_proc s t = procs (rdsp s) (rt_procp (rtprocs s t))"

text \<open>\<^verbatim>\<open>runrun++; kprunrun++\<close>: preempt also in the kernel.\<close>

definition kpreempt :: "disp \<Rightarrow> disp" where
  "kpreempt d = d\<lparr>runrun := runrun d + 1, kprunrun := kprunrun d + 1\<rparr>"

section \<open>Class initialization and administration\<close>

definition rt_init :: "rtsys \<Rightarrow> int \<Rightarrow> (int \<times> rtsys) option" where
  "rt_init s cid = do {
     e \<leftarrow> ird (rt_dptbl s) (rt_maxpri s);
     Some (rt_globpri e, s\<lparr>rt_cid := cid, rt_plist := []\<rparr>) }"

text \<open>The arguments and results are those of \<^verbatim>\<open>ts_admin\<close>; an entry has 8 bytes.\<close>

definition rtdpent_bad :: "rtdpent \<Rightarrow> bool" where
  "rtdpent_bad e \<longleftrightarrow> rt_quantum e \<le> 0 \<and> rt_quantum e \<noteq> RT_TQINF"

fun rtdptbl_set :: "rtdpent list \<Rightarrow> rtdpent list \<Rightarrow> rtdpent list option" where
  "rtdptbl_set tbl [] = Some tbl"
| "rtdptbl_set [] (e # es) = None"
| "rtdptbl_set (d # tbl) (e # es) = do { r \<leftarrow> rtdptbl_set tbl es; Some (d\<lparr>rt_quantum := rt_quantum e\<rparr> # r) }"

datatype rtdpout = RtNoOut | RtOutSize int | RtOutTbl int "rtdpent list"

definition rt_admin ::
  "rtsys \<Rightarrow> (int \<times> int) option \<Rightarrow> rtdpent list option \<Rightarrow> bool \<Rightarrow> bool \<Rightarrow> cred \<Rightarrow> (errno + (rtdpout \<times> rtsys)) option" where
  "rt_admin s adm utbl out1 out2 reqcr =
    (case adm of None \<Rightarrow> Some (Inl EFAULT)
     | Some (cmd, ndpents) \<Rightarrow>
       let rtdpsz = (rt_maxpri s + 1) * 8 in
       if cmd = 1 then
         if out1 then Some (Inr (RtOutSize (s16 (rt_maxpri s + 1)), s)) else Some (Inl EFAULT)
       else if cmd = 2 then
         let sz = (ndpents * 8) mod 4294967296; userdpsz = min sz rtdpsz; n = userdpsz div 8 in
         if \<not> out1 then Some (Inl EFAULT)
         else if out2 then Some (Inr (RtOutTbl n (take (nat n) (rt_dptbl s)), s)) else Some (Inl EFAULT)
       else if cmd = 3 then
         if \<not> suser reqcr then Some (Inl EPERM)
         else if (ndpents * 8) mod 4294967296 \<noteq> rtdpsz then Some (Inl EINVAL)
         else (case utbl of None \<Rightarrow> Some (Inl EFAULT)
               | Some tmp \<Rightarrow>
                   if list_ex rtdpent_bad tmp then Some (Inl EINVAL)
                   else do { tbl \<leftarrow> rtdptbl_set (rt_dptbl s) tmp; Some (Inr (RtNoOut, s\<lparr>rt_dptbl := tbl\<rparr>)) })
       else Some (Inl EINVAL))"

section \<open>Entering and leaving the class\<close>

text \<open>
  The code that moves a process to the priority of its class structure, in \<^verbatim>\<open>rt_enterclass\<close>
  (\<open>enter\<close> true) and \<^verbatim>\<open>rt_parmsset\<close>: a process that keeps the processor or its place on a queue gets a full
  quantum only when it enters the class.
\<close>

definition rt_setpri :: "bool \<Rightarrow> rtsys \<Rightarrow> rtp \<Rightarrow> rtsys option" where
  "rt_setpri enter s t = do {
     let p = rt_procp (rtprocs s t);
     let fill = (\<lambda>s. if enter then upd_rt s t (\<lambda>x. x\<lparr>rt_timeleft := rt_pquantum x\<rparr>) else s);
     let toback = (\<lambda>s. upd_rt s t (\<lambda>x. x\<lparr>rt_flags := rt_flags x OR RTBACKQ\<rparr>));
     if p = curproc (rdsp s) then do {
       e \<leftarrow> ird (rt_dptbl s) (rt_pri (rtprocs s t));
       let s = upd_rdsp s (\<lambda>d. (set_pri d p (rt_globpri e))\<lparr>curpri := rt_globpri e\<rparr>);
       if curpri (rdsp s) > maxrunpri (rdsp s) then Some (fill s)
       else Some (upd_rdsp (toback s) kpreempt) }
     else do {
       (wasonq, d) \<leftarrow> dispdeq (rdsp s) p;
       e \<leftarrow> ird (rt_dptbl s) (rt_pri (rtprocs s t));
       let s = s\<lparr>rdsp := set_pri d p (rt_globpri e)\<rparr>;
       if wasonq then do {
         let s = (if rt_globpri e > curpri (rdsp s) then upd_rdsp s kpreempt else s);
         let s = fill s;
         d \<leftarrow> setbackdq (rdsp s) p;
         Some (s\<lparr>rdsp := d\<rparr>) }
       else Some (toback s) } }"

text \<open>
  A process that is not in core is brought in before it may enter the class. \<open>memlow\<close> and \<open>swapok\<close> are the answers of
  \<^verbatim>\<open>memlow\<close> and \<^verbatim>\<open>swapinub\<close>. The lock of the user block is not represented.
\<close>

definition rt_load :: "rtsys \<Rightarrow> procp \<Rightarrow> bool \<Rightarrow> bool \<Rightarrow> (errno + rtsys) option" where
  "rt_load s pp memlow swapok =
    (let p = procs (rdsp s) pp in
     if p_flag p AND SLOAD = 0 then
       if memlow then Some (Inl ENOMEM)
       else if p_flag p AND SUSWAP \<noteq> 0 then Some (Inl EAGAIN)
       else if \<not> swapok then Some (Inl ENOMEM)
       else do {
         let d = set_flag (rdsp s) pp (p_flag p OR SLOAD);
         d \<leftarrow> if p_stat p = SRUN \<and> p_flag p AND (SLOAD OR SPROCIO) = 0 then dq_sruninc d (p_pri p) else Some d;
         Some (Inr (s\<lparr>rdsp := d\<rparr>)) }
     else Some (Inr s))"

text \<open>The structure set up from the parameters. A quantum the user leaves open is that of the table.\<close>

definition rt_newproc :: "rtsys \<Rightarrow> rtkparms option \<Rightarrow> procp \<Rightarrow> rtproc \<Rightarrow> rtproc option" where
  "rt_newproc s parms pp x = do {
     x \<leftarrow> (case parms of
         None \<Rightarrow> do { e \<leftarrow> ird (rt_dptbl s) 0; Some (x\<lparr>rt_pri := 0, rt_pquantum := rt_quantum e\<rparr>) }
       | Some k \<Rightarrow>
           let x = x\<lparr>rt_pri := (if rk_pri k = RT_NOCHANGE then 0 else rk_pri k)\<rparr> in
           if rk_tqntm k = RT_TQINF then Some (x\<lparr>rt_pquantum := RT_TQINF\<rparr>)
           else if rk_tqntm k = RT_TQDEF \<or> rk_tqntm k = RT_NOCHANGE then
             do { e \<leftarrow> ird (rt_dptbl s) (rt_pri x); Some (x\<lparr>rt_pquantum := rt_quantum e\<rparr>) }
           else Some (x\<lparr>rt_pquantum := rk_tqntm k\<rparr>));
     Some (x\<lparr>rt_flags := 0, rt_procp := pp\<rparr>) }"

text \<open>
  The result is the error code, if any, and the state: a process that was loaded stays loaded when
  the allocation fails.
\<close>

definition rt_enterclass ::
  "rtsys \<Rightarrow> rtkparms option \<Rightarrow> procp \<Rightarrow> bool \<Rightarrow> bool \<Rightarrow> rtp option \<Rightarrow> cred option \<Rightarrow> (errno option \<times> rtsys) option" where
  "rt_enterclass s parms pp memlow swapok new reqcr =
    (if reqcr \<noteq> None \<and> \<not> suser (the reqcr) then Some (Some EPERM, s)
     else do {
       r \<leftarrow> rt_load s pp memlow swapok;
       case r of Inl e \<Rightarrow> Some (Some e, s)
       | Inr s \<Rightarrow>
         (case new of None \<Rightarrow> Some (Some ENOMEM, s)
          | Some t \<Rightarrow> do {
              x \<leftarrow> rt_newproc s parms pp (rtprocs s t);
              let s = s\<lparr>rtprocs := (rtprocs s)(t := x), rt_plist := t # rt_plist s\<rparr>;
              s \<leftarrow> rt_setpri True s t;
              Some (None, s) }) })"

definition rt_exitclass :: "rtsys \<Rightarrow> rtp \<Rightarrow> rtsys" where
  "rt_exitclass s t = s\<lparr>rt_plist := remove1 t (rt_plist s)\<rparr>"

definition rt_fork :: "rtsys \<Rightarrow> rtp \<Rightarrow> procp \<Rightarrow> rtp \<Rightarrow> rtsys" where
  "rt_fork s pt cprocp ct =
    (let p = rtprocs s pt in
     s\<lparr>rtprocs := (rtprocs s)(ct := \<lparr>rt_pquantum = rt_pquantum p, rt_timeleft = rt_pquantum p, rt_pri = rt_pri p,
          rt_flags = rt_flags p AND NOT RTBACKQ, rt_procp = cprocp\<rparr>),
       rt_plist := ct # rt_plist s\<rparr>)"

definition rt_forkret :: "rtsys \<Rightarrow> rtp \<Rightarrow> rtsys option" where
  "rt_forkret s ct = do { d \<leftarrow> setbackdq (rdsp s) (rt_procp (rtprocs s ct)); Some (s\<lparr>rdsp := d\<rparr>) }"

section \<open>Parameters\<close>

definition rt_getclinfo :: "rtsys \<Rightarrow> int" where
  "rt_getclinfo s = rt_maxpri s"

definition rt_getglobpri :: "rtsys \<Rightarrow> rtkparms \<Rightarrow> int option" where
  "rt_getglobpri s k = map_option rt_globpri (ird (rt_dptbl s) (rk_pri k))"

definition rt_parmsget :: "rtsys \<Rightarrow> rtp \<Rightarrow> rtkparms" where
  "rt_parmsget s t = \<lparr>rk_pri = rt_pri (rtprocs s t), rk_tqntm = rt_pquantum (rtprocs s t)\<rparr>"

text \<open>
  \<^verbatim>\<open>rt_parmsin\<close> overwrites the user's parameters in the buffer with the kernel's; the result is the
  new contents. \<open>reqcr\<close> is \<^const>\<open>None\<close> when no permission check is asked for.
\<close>

definition rt_parmsin ::
  "rtsys \<Rightarrow> rtparms \<Rightarrow> int \<Rightarrow> cred option \<Rightarrow> int \<Rightarrow> (errno + rtkparms) option" where
  "rt_parmsin s prm reqpcid reqcr targpcid =
    (if (rp_pri prm < 0 \<or> rp_pri prm > rt_maxpri s) \<and> rp_pri prm \<noteq> RT_NOCHANGE then Some (Inl EINVAL)
     else if rp_tqsecs prm = 0 \<and> rp_tqnsecs prm = 0 \<or> rp_tqnsecs prm \<ge> 1000000000 then Some (Inl EINVAL)
     else do {
       q \<leftarrow> (if rp_tqnsecs prm \<ge> 0 then do {
              (e, h) \<leftarrow> hrt_tohz \<lparr>hrt_secs = rp_tqsecs prm, hrt_rem = word_of_int (rp_tqnsecs prm), hrt_res = NANOSEC\<rparr> HRT_RNDUP;
              Some (case e of Some e \<Rightarrow> Inl e | None \<Rightarrow> Inr (sint (hrt_rem h))) }
            else Some (if rp_tqnsecs prm \<noteq> RT_NOCHANGE \<and> rp_tqnsecs prm \<noteq> RT_TQINF \<and> rp_tqnsecs prm \<noteq> RT_TQDEF
                       then Inl EINVAL else Inr (rp_tqnsecs prm)));
       case q of Inl e \<Rightarrow> Some (Inl e)
       | Inr tq \<Rightarrow>
         let k = \<lparr>rk_pri = rp_pri prm, rk_tqntm = tq\<rparr> in
         Some (case reqcr of None \<Rightarrow> Inr k
           | Some cr \<Rightarrow>
               if targpcid = rt_cid s then
                 if reqpcid \<noteq> rt_cid s \<and> \<not> suser cr then Inl EPERM else Inr k
               else if \<not> suser cr then Inl EPERM else Inr k) })"

definition rt_parmsout :: "rtkparms \<Rightarrow> (errno + rtparms) option" where
  "rt_parmsout k =
    (if rk_tqntm k < 0 then Some (Inr \<lparr>rp_pri = rk_pri k, rp_tqsecs = 0, rp_tqnsecs = rk_tqntm k\<rparr>)
     else do {
       (e, h) \<leftarrow> hrt_newres \<lparr>hrt_secs = 0, hrt_rem = word_of_int (rk_tqntm k), hrt_res = HZ\<rparr> NANOSEC HRT_TRUNC;
       Some (case e of Some e \<Rightarrow> Inl e
         | None \<Rightarrow> Inr \<lparr>rp_pri = rk_pri k, rp_tqsecs = hrt_secs h, rp_tqnsecs = sint (hrt_rem h)\<rparr>) })"

definition rt_parmsset :: "rtsys \<Rightarrow> rtkparms \<Rightarrow> rtp \<Rightarrow> int \<Rightarrow> cred option \<Rightarrow> (errno + rtsys) option" where
  "rt_parmsset s k t reqpcid reqcr =
    (if reqcr \<noteq> None \<and> reqpcid \<noteq> rt_cid s \<and> \<not> suser (the reqcr) then Some (Inl EPERM)
     else do {
       s \<leftarrow> (if rk_pri k \<noteq> RT_NOCHANGE then rt_setpri False (upd_rt s t (\<lambda>x. x\<lparr>rt_pri := rk_pri k\<rparr>)) t else Some s);
       if rk_tqntm k = RT_TQINF then Some (Inr (upd_rt s t (\<lambda>x. x\<lparr>rt_pquantum := RT_TQINF\<rparr>)))
       else if rk_tqntm k = RT_TQDEF then do {
         e \<leftarrow> ird (rt_dptbl s) (rt_pri (rtprocs s t));
         Some (Inr (upd_rt s t (\<lambda>x. x\<lparr>rt_pquantum := rt_quantum e, rt_timeleft := rt_quantum e\<rparr>))) }
       else if rk_tqntm k \<noteq> RT_NOCHANGE then
         Some (Inr (upd_rt s t (\<lambda>x. x\<lparr>rt_pquantum := rk_tqntm k, rt_timeleft := rk_tqntm k\<rparr>)))
       else Some (Inr s) })"

definition rt_proccmp :: "rtsys \<Rightarrow> rtp \<Rightarrow> rtp \<Rightarrow> int" where
  "rt_proccmp s t1 t2 = rt_pri (rtprocs s t1) - rt_pri (rtprocs s t2)"

section \<open>Scheduling events\<close>

definition rt_preempt :: "rtsys \<Rightarrow> rtp \<Rightarrow> rtsys option" where
  "rt_preempt s t =
    (let p = rt_procp (rtprocs s t);
         s = (if p = curproc (rdsp s) then upd_rt s t (\<lambda>x. x\<lparr>rt_flags := rt_flags x OR RTRAN\<rparr>) else s) in
     if rt_flags (rtprocs s t) AND RTBACKQ \<noteq> 0 then do {
       let s = upd_rt s t (\<lambda>x. x\<lparr>rt_timeleft := rt_pquantum x, rt_flags := rt_flags x AND NOT RTBACKQ\<rparr>);
       d \<leftarrow> setbackdq (rdsp s) p;
       Some (s\<lparr>rdsp := d\<rparr>) }
     else do { d \<leftarrow> setfrontdq (rdsp s) p; Some (s\<lparr>rdsp := d\<rparr>) })"

text \<open>The common body of \<^verbatim>\<open>rt_setrun\<close> and \<^verbatim>\<open>rt_wakeup\<close>.\<close>

definition rt_enqueue :: "rtsys \<Rightarrow> rtp \<Rightarrow> rtsys option" where
  "rt_enqueue s t = do {
     let p = rt_procp (rtprocs s t);
     let s = upd_rt s t (\<lambda>x. x\<lparr>rt_timeleft := rt_pquantum x, rt_flags := rt_flags x AND NOT RTBACKQ\<rparr>);
     d \<leftarrow> setbackdq (rdsp s) p;
     Some (s\<lparr>rdsp := (if p_pri (procs d p) > curpri d then kpreempt d else d)\<rparr>) }"

definition rt_setrun :: "rtsys \<Rightarrow> rtp \<Rightarrow> rtsys option" where
  "rt_setrun s t = rt_enqueue s t"

definition rt_wakeup :: "rtsys \<Rightarrow> rtp \<Rightarrow> rtsys option" where
  "rt_wakeup s t = rt_enqueue s t"

definition rt_sleep :: "rtsys \<Rightarrow> rtp \<Rightarrow> rtsys" where
  "rt_sleep s t = upd_rt s t (\<lambda>x. x\<lparr>rt_flags := rt_flags x OR RTRAN\<rparr>)"

definition rt_stop :: "rtsys \<Rightarrow> rtp \<Rightarrow> rtsys" where
  "rt_stop s t =
    (if rt_procp (rtprocs s t) = curproc (rdsp s) then upd_rt s t (\<lambda>x. x\<lparr>rt_flags := rt_flags x OR RTRAN\<rparr>) else s)"

definition rt_tick :: "rtsys \<Rightarrow> rtp \<Rightarrow> rtsys" where
  "rt_tick s t =
    (if rt_pquantum (rtprocs s t) \<noteq> RT_TQINF then
       let s = upd_rt s t (\<lambda>x. x\<lparr>rt_timeleft := s32 (rt_timeleft x - 1)\<rparr>) in
       if rt_timeleft (rtprocs s t) = 0
       then upd_rdsp (upd_rt s t (\<lambda>x. x\<lparr>rt_flags := rt_flags x OR RTBACKQ\<rparr>)) kpreempt
       else s
     else s)"

section \<open>Nominations for swapping\<close>

fun rt_swapin_list :: "rtsys \<Rightarrow> rtp list \<Rightarrow> bool" where
  "rt_swapin_list s [] = False"
| "rt_swapin_list s (t # ts) = (if p_stat (rt_proc s t) = SRUN then True else rt_swapin_list s ts)"

definition rt_swapin :: "rtsys \<Rightarrow> procp option \<times> bool" where
  "rt_swapin s = (None, rt_swapin_list s (rt_plist s))"

text \<open>\<open>minpripp\<close> is not initialized; \<open>ret\<close> starts with any value, which is not used.\<close>

fun rt_swapout_list :: "rtsys \<Rightarrow> rtp list \<Rightarrow> int \<Rightarrow> rtp \<Rightarrow> int \<times> rtp" where
  "rt_swapout_list s [] minpri ret = (minpri, ret)"
| "rt_swapout_list s (t # ts) minpri ret =
    (if p_stat (rt_proc s t) = SZOMB \<or> p_stat (rt_proc s t) = SIDL then rt_swapout_list s ts minpri ret
     else if rt_flags (rtprocs s t) AND RTRAN = 0 then rt_swapout_list s ts minpri ret
     else if p_flag (rt_proc s t) AND (SSYS OR SLOCK OR SPROCIO OR SSWLOCKS) \<noteq> 0 then rt_swapout_list s ts minpri ret
     else if rt_pri (rtprocs s t) < minpri then rt_swapout_list s ts (rt_pri (rtprocs s t)) t
     else rt_swapout_list s ts minpri ret)"

definition rt_swapout :: "rtsys \<Rightarrow> rtp \<Rightarrow> procp option \<times> rtsys" where
  "rt_swapout s garbage =
    (let (minpri, ret) = rt_swapout_list s (rt_plist s) (rt_maxpri s + 1) garbage in
     if minpri = rt_maxpri s + 1 then (None, s)
     else (Some (rt_procp (rtprocs s ret)), upd_rt s ret (\<lambda>x. x\<lparr>rt_flags := rt_flags x AND NOT RTRAN\<rparr>)))"

section \<open>The shipped table\<close>

definition space_rtdptbl :: "rtdpent list" where
  "space_rtdptbl = map (\<lambda>i. \<lparr>rt_globpri = 100 + int i, rt_quantum = [100, 80, 60, 40, 20, 10] ! (i div 10)\<rparr>) [0..<60]"

end
