(* ===== verification/KRtInv.thy ===== *)
theory KRtInv
  imports KRt
begin

text \<open>
  The invariant of the real-time class, and one lemma per operation of \<open>KRt\<close>: the operation returns,
  keeps the dispatcher's and the class's invariant, changes only the priority of the process it is
  about, and has the effect its comment promises.
\<close>

section \<open>The invariant\<close>

text \<open>
  The table has a row for every priority of the class, its global priorities have dispatcher queues
  and its quanta are positive or infinite; every process of the class has a priority of the class, and
  the global priority the table gives for it; no two class structures stand for the same process.
\<close>

definition rt_cfg :: "rtsys \<Rightarrow> bool" where
  "rt_cfg s \<longleftrightarrow> 0 \<le> rt_maxpri s \<and> int (length (rt_dptbl s)) = rt_maxpri s + 1
     \<and> (\<forall>e\<in>set (rt_dptbl s). 0 \<le> rt_globpri e \<and> rt_globpri e < int (npri (rdsp s)) \<and> \<not> rtdpent_bad e)"

definition rdpe :: "rtsys \<Rightarrow> int \<Rightarrow> rtdpent" where
  "rdpe s k = rt_dptbl s ! nat k"

definition rtproc_ok :: "rtsys \<Rightarrow> rtproc \<Rightarrow> bool" where
  "rtproc_ok s x \<longleftrightarrow> 0 \<le> rt_pri x \<and> rt_pri x \<le> rt_maxpri s
     \<and> p_pri (procs (rdsp s) (rt_procp x)) = rt_globpri (rdpe s (rt_pri x))"

definition rt_list_ok :: "rtsys \<Rightarrow> bool" where
  "rt_list_ok s \<longleftrightarrow> distinct (rt_plist s) \<and> inj_on (\<lambda>t. rt_procp (rtprocs s t)) (set (rt_plist s))"

definition rt_inv :: "rtsys \<Rightarrow> (nat \<Rightarrow> procp list) \<Rightarrow> bool" where
  "rt_inv s Q \<longleftrightarrow> disp_ok (rdsp s) Q \<and> rt_cfg s \<and> rt_list_ok s \<and> (\<forall>t\<in>set (rt_plist s). rtproc_ok s (rtprocs s t))"

text \<open>The invariant while the priority of \<open>t\<close> is being changed.\<close>

definition rt_inv_but :: "rtp \<Rightarrow> rtsys \<Rightarrow> (nat \<Rightarrow> procp list) \<Rightarrow> bool" where
  "rt_inv_but t s Q \<longleftrightarrow> disp_ok (rdsp s) Q \<and> rt_cfg s \<and> rt_list_ok s \<and> t \<in> set (rt_plist s)
     \<and> (\<forall>u\<in>set (rt_plist s) - {t}. rtproc_ok s (rtprocs s u))
     \<and> 0 \<le> rt_pri (rtprocs s t) \<and> rt_pri (rtprocs s t) \<le> rt_maxpri s \<and> pri_ok (rdsp s) (rt_procp (rtprocs s t))"

lemma rt_cfgD:
  assumes "rt_cfg s" "0 \<le> k" "k \<le> rt_maxpri s"
  shows "ird (rt_dptbl s) k = Some (rdpe s k)" "0 \<le> rt_globpri (rdpe s k)" "rt_globpri (rdpe s k) < int (npri (rdsp s))"
    "rt_quantum (rdpe s k) = RT_TQINF \<or> 0 < rt_quantum (rdpe s k)"
proof -
  have k: "nat k < length (rt_dptbl s)" using assms unfolding rt_cfg_def by linarith
  then have e: "rdpe s k \<in> set (rt_dptbl s)" by (simp add: rdpe_def)
  show "ird (rt_dptbl s) k = Some (rdpe s k)" using k assms(2) by (simp add: ird_def rd_in rdpe_def)
  show "0 \<le> rt_globpri (rdpe s k)" "rt_globpri (rdpe s k) < int (npri (rdsp s))"
    "rt_quantum (rdpe s k) = RT_TQINF \<or> 0 < rt_quantum (rdpe s k)"
    using e assms(1) by (auto simp: rt_cfg_def rtdpent_bad_def)
qed

lemma rt_invD:
  assumes "rt_inv s Q"
  shows "disp_ok (rdsp s) Q" "rt_cfg s" "rt_list_ok s" "t \<in> set (rt_plist s) \<Longrightarrow> rtproc_ok s (rtprocs s t)"
  using assms by (simp_all add: rt_inv_def)

lemma rtproc_okD:
  assumes "rt_cfg s" "rtproc_ok s x"
  shows "0 \<le> rt_pri x" "rt_pri x \<le> rt_maxpri s" "p_pri (procs (rdsp s) (rt_procp x)) = rt_globpri (rdpe s (rt_pri x))"
    "pri_ok (rdsp s) (rt_procp x)"
  using assms rt_cfgD(2,3) [OF assms(1)] by (simp_all add: rtproc_ok_def pri_ok_def)

lemma rdpe_simps [simp]: "rdpe (s\<lparr>rdsp := d\<rparr>) = rdpe s" "rdpe (s\<lparr>rtprocs := f\<rparr>) = rdpe s" "rdpe (s\<lparr>rt_plist := l\<rparr>) = rdpe s"
  by (simp_all add: rdpe_def fun_eq_iff)

lemma rtproc_ok_simps [simp]: "rtproc_ok (s\<lparr>rtprocs := f\<rparr>) x = rtproc_ok s x" "rtproc_ok (s\<lparr>rt_plist := l\<rparr>) x = rtproc_ok s x"
  by (simp_all add: rtproc_ok_def)

lemma rt_cfg_simps [simp]: "rt_cfg (s\<lparr>rtprocs := f\<rparr>) = rt_cfg s" "rt_cfg (s\<lparr>rt_plist := l\<rparr>) = rt_cfg s"
  by (simp_all add: rt_cfg_def)

lemma rt_cfg_dsp: "npri d = npri (rdsp s) \<Longrightarrow> rt_cfg (s\<lparr>rdsp := d\<rparr>) = rt_cfg s"
  by (simp add: rt_cfg_def)

lemma rt_list_ok_upd: "rt_procp x = rt_procp (rtprocs s t) \<Longrightarrow> rt_list_ok (s\<lparr>rdsp := d, rtprocs := (rtprocs s)(t := x)\<rparr>) = rt_list_ok s"
  by (auto simp: rt_list_ok_def inj_on_def)

lemma rt_listD: "rt_list_ok s \<Longrightarrow> t \<in> set (rt_plist s) \<Longrightarrow> u \<in> set (rt_plist s) \<Longrightarrow> u \<noteq> t \<Longrightarrow>
    rt_procp (rtprocs s u) \<noteq> rt_procp (rtprocs s t)"
  by (auto simp: rt_list_ok_def inj_on_def)

text \<open>A process of the class moved to its priority: the invariant holds again.\<close>

lemma rt_but_finish:
  assumes "rt_inv_but t s Q" "disp_ok d Q'" "moves {rt_procp (rtprocs s t)} R (rdsp s) d"
    and "rt_procp x = rt_procp (rtprocs s t)" "rt_pri x = rt_pri (rtprocs s t)"
    and "p_pri (procs d (rt_procp x)) = rt_globpri (rdpe s (rt_pri x))"
  shows "rt_inv (s\<lparr>rdsp := d, rtprocs := (rtprocs s)(t := x)\<rparr>) Q'"
proof -
  note but = assms(1) [unfolded rt_inv_but_def]
  have np: "npri d = npri (rdsp s)" using assms(3) by (simp add: moves_def)
  let ?s = "s\<lparr>rdsp := d, rtprocs := (rtprocs s)(t := x)\<rparr>"
  have "rtproc_ok ?s (rtprocs ?s u)" if u: "u \<in> set (rt_plist s)" for u
  proof (cases "u = t")
    case True
    then show ?thesis using but assms(4-6) by (simp add: rtproc_ok_def)
  next
    case False
    then have "rt_procp (rtprocs s u) \<noteq> rt_procp (rtprocs s t)" using rt_listD but u by blast
    then have "p_pri (procs d (rt_procp (rtprocs s u))) = p_pri (procs (rdsp s) (rt_procp (rtprocs s u)))"
      using assms(3) by (auto simp: moves_def)
    with False but u show ?thesis by (simp add: rtproc_ok_def)
  qed
  moreover have "rt_list_ok ?s" using but rt_list_ok_upd [OF assms(4)] by simp
  ultimately show ?thesis using assms(2) but by (simp add: rt_inv_def rt_cfg_dsp [OF np])
qed

lemma rt_inv_but_of:
  assumes "rt_inv s Q" "t \<in> set (rt_plist s)" "rt_procp x = rt_procp (rtprocs s t)" "0 \<le> rt_pri x" "rt_pri x \<le> rt_maxpri s"
  shows "rt_inv_but t (s\<lparr>rtprocs := (rtprocs s)(t := x)\<rparr>) Q"
  using assms rt_invD [OF assms(1)] rtproc_okD(4) [OF rt_invD(2,4) [OF assms(1)]] rt_list_ok_upd [OF assms(3), of "rdsp s"]
  by (simp add: rt_inv_but_def)

definition same_rt :: "rtproc \<Rightarrow> rtproc \<Rightarrow> bool" where
  "same_rt x y \<longleftrightarrow> rt_pri x = rt_pri y \<and> rt_procp x = rt_procp y"

lemma rt_inv_frame:
  assumes "rt_inv s Q" "disp_ok d Q'" "moves {} R (rdsp s) d" "same_rt x (rtprocs s t)"
  shows "rt_inv (s\<lparr>rdsp := d, rtprocs := (rtprocs s)(t := x)\<rparr>) Q'"
proof -
  note inv = rt_invD [OF assms(1)]
  have np: "npri d = npri (rdsp s)" "p_pri (procs d q) = p_pri (procs (rdsp s) q)" for q using assms(3) by (auto simp: moves_def)
  have "rtproc_ok (s\<lparr>rdsp := d\<rparr>) (((rtprocs s)(t := x)) u)" if "u \<in> set (rt_plist s)" for u
    using inv(4) [OF that] assms(4) np(2) by (cases "u = t") (simp_all add: rtproc_ok_def same_rt_def)
  then show ?thesis
    using inv assms(2,4) rt_list_ok_upd [of x s t d] by (simp add: rt_inv_def rt_cfg_dsp [OF np(1)] same_rt_def rtproc_ok_def)
qed

lemma rt_inv_core: "rt_inv s Q \<Longrightarrow> same_rt x (rtprocs s t) \<Longrightarrow> rt_inv (s\<lparr>rtprocs := (rtprocs s)(t := x)\<rparr>) Q"
  using rt_inv_frame [of s Q "rdsp s" Q "{}" x t] rt_invD(1) by simp

lemma moves_kpreempt [simp]: "moves S R d (kpreempt d') = moves S R d d'"
  by (simp add: moves_def kpreempt_def)

lemma disp_ok_kpreempt [simp]: "disp_ok (kpreempt d) Q = disp_ok d Q"
  by (simp add: kpreempt_def disp_ok_def queues_def counts_def runnable_def)

lemma kpreempt_sel [simp]: "procs (kpreempt d) = procs d" "curpri (kpreempt d) = curpri d" "runrun (kpreempt d) = runrun d + 1"
    "curproc (kpreempt d) = curproc d" "maxrunpri (kpreempt d) = maxrunpri d" "dispq (kpreempt d) = dispq d"
    "kprunrun (kpreempt d) = kprunrun d + 1"
  by (simp_all add: kpreempt_def)

lemma stores_kpreempt: "stores_pri f p g \<Longrightarrow> stores_pri (\<lambda>d. if b (f d) then kpreempt (f d) else f d) p g"
  by (auto simp: stores_pri_def kpreempt_def)

lemma flag_set: "(f OR RTBACKQ) AND RTBACKQ \<noteq> 0"
proof -
  have "bit ((f OR RTBACKQ) AND RTBACKQ) 1" by (simp add: bit_simps)
  then show ?thesis by auto
qed

lemma flag_clear: "(f AND NOT RTBACKQ) AND RTBACKQ = 0"
  by (rule bit_word_eqI) (auto simp only: bit_and_iff bit_not_iff bit_0_eq bot_apply bot_bool_def)

section \<open>Assigning a priority\<close>

lemma rt_setpri_ok:
  assumes "rt_inv_but t s Q" "rt_procp (rtprocs s t) = curproc (rdsp s) \<Longrightarrow> \<not> onq Q (rt_procp (rtprocs s t))"
  defines "p \<equiv> rt_procp (rtprocs s t)" and "g \<equiv> rt_globpri (rdpe s (rt_pri (rtprocs s t)))"
  shows "\<exists>d x. rt_setpri en s t = Some (s\<lparr>rdsp := d, rtprocs := (rtprocs s)(t := x)\<rparr>)
      \<and> rt_inv (s\<lparr>rdsp := d, rtprocs := (rtprocs s)(t := x)\<rparr>) (if onq Q p then requeue Q p (nat g) else Q)
      \<and> moves {p} {g} (rdsp s) d \<and> p_pri (procs d p) = g
      \<and> same_rt x (rtprocs s t) \<and> rt_pquantum x = rt_pquantum (rtprocs s t)
      \<and> (en \<and> p = curproc (rdsp s) \<and> g > maxrunpri (rdsp s) \<or> en \<and> p \<noteq> curproc (rdsp s) \<and> onq Q p \<longrightarrow> rt_timeleft x = rt_pquantum x)
      \<and> (p = curproc (rdsp s) \<and> g \<le> maxrunpri (rdsp s) \<or> p \<noteq> curproc (rdsp s) \<and> \<not> onq Q p \<longrightarrow> rt_flags x AND RTBACKQ \<noteq> 0)
      \<and> (p = curproc (rdsp s) \<longrightarrow> curpri d = g)
      \<and> runrun d = runrun (rdsp s) + (if p = curproc (rdsp s) \<and> g \<le> maxrunpri (rdsp s)
            \<or> p \<noteq> curproc (rdsp s) \<and> onq Q p \<and> g > curpri (rdsp s) then 1 else 0)"
proof -
  note but = assms(1) [unfolded rt_inv_but_def]
  let ?x0 = "rtprocs s t" and ?d0 = "rdsp s"
  have ok: "disp_ok ?d0 Q" and pk: "pri_ok ?d0 p" using but by (simp_all add: p_def)
  have cfg: "rt_cfg s" "0 \<le> rt_pri ?x0" "rt_pri ?x0 \<le> rt_maxpri s" using but by simp_all
  note e = rt_cfgD(1-3) [OF cfg]
  note fin = rt_but_finish [OF assms(1), folded p_def]
  show ?thesis
  proof (cases "p = curproc ?d0")
    case cur: True
    then have off: "\<not> onq Q p" using assms(2) by (simp add: p_def)
    let ?b = "(set_pri ?d0 p g)\<lparr>curpri := g\<rparr>"
    have bok: "disp_ok ?b Q" "moves {p} {g} ?d0 ?b" "p_pri (procs ?b p) = g"
      using disp_ok_set_pri [OF ok off] moves_set_pri [of p "{p}" g "{g}" ?d0] by (simp_all add: disp_ok_flags disp_simps)
    show ?thesis
    proof (cases "g > maxrunpri ?d0")
      case True
      let ?x = "if en then ?x0\<lparr>rt_timeleft := rt_pquantum ?x0\<rparr> else ?x0"
      have run: "rt_setpri en s t = Some (s\<lparr>rdsp := ?b, rtprocs := (rtprocs s)(t := ?x)\<rparr>)"
        using cur True e(1) by (simp add: rt_setpri_def upd_rt_def upd_rdsp_def Let_def p_def g_def disp_simps)
      have "rt_inv (s\<lparr>rdsp := ?b, rtprocs := (rtprocs s)(t := ?x)\<rparr>) Q"
        by (rule fin [OF bok(1,2)]) (use bok(3) in \<open>simp_all add: p_def g_def\<close>)
      with run off bok cur True show ?thesis
        by (intro exI [of _ ?b] exI [of _ ?x]) (simp add: same_rt_def, simp add: set_pri_def)
    next
      case False
      let ?x = "?x0\<lparr>rt_flags := rt_flags ?x0 OR RTBACKQ\<rparr>"
      have run: "rt_setpri en s t = Some (s\<lparr>rdsp := kpreempt ?b, rtprocs := (rtprocs s)(t := ?x)\<rparr>)"
        using cur False e(1) by (simp add: rt_setpri_def upd_rt_def upd_rdsp_def Let_def p_def g_def disp_simps)
      have "rt_inv (s\<lparr>rdsp := kpreempt ?b, rtprocs := (rtprocs s)(t := ?x)\<rparr>) Q"
        by (rule fin [of "kpreempt ?b" _ "{g}"]) (use bok in \<open>simp_all add: p_def g_def\<close>)
      with run off bok cur False flag_set show ?thesis
        by (intro exI [of _ "kpreempt ?b"] exI [of _ ?x]) (simp add: same_rt_def, simp add: set_pri_def)
    qed
  next
    case cur: False
    let ?f = "\<lambda>d. set_pri d p g" and ?r = "\<lambda>d. if g > curpri (set_pri d p g) then kpreempt (set_pri d p g) else set_pri d p g"
    have st: "stores_pri ?f p g" by (simp add: stores_pri_def)
    note sr = stores_kpreempt [OF st, of "\<lambda>d. g > curpri d"]
    obtain d1 where d1: "dispdeq ?d0 p = Some (onq Q p, d1)" "same_frame ?d0 d1" "disp_ok (?f d1) (removed Q p)"
        "\<exists>d3. setbackdq (?r d1) p = Some d3 \<and> disp_ok d3 (requeue Q p (nat g)) \<and> same_frame (?r d1) d3"
      using requeue_ok [OF ok pk, of g "{?f, ?r}"] e(2,3) st sr unfolding g_def by auto
    have mv: "moves {p} {g} ?d0 (?f d1)"
      by (rule moves_trans [OF same_frame_moves [OF d1(2)] moves_set_pri]) simp_all
    then have mr: "moves {p} {g} ?d0 (?r d1)" by auto
    have pri: "p_pri (procs (?f d1) p) = g" "p_pri (procs (?r d1) p) = g" by (auto simp: disp_simps)
    have cp: "curpri (?f d1) = curpri ?d0" "runrun (?f d1) = runrun ?d0"
      "runrun (?r d1) = runrun ?d0 + (if g > curpri ?d0 then 1 else 0)"
      using same_frameD(6,7) [OF d1(2)] by (auto simp: set_pri_def)
    show ?thesis
    proof (cases "onq Q p")
      case True
      from d1(4) obtain d3 where d3: "setbackdq (?r d1) p = Some d3" "disp_ok d3 (requeue Q p (nat g))" "same_frame (?r d1) d3" by blast
      let ?x = "if en then ?x0\<lparr>rt_timeleft := rt_pquantum ?x0\<rparr> else ?x0"
      have run: "rt_setpri en s t = Some (s\<lparr>rdsp := d3, rtprocs := (rtprocs s)(t := ?x)\<rparr>)"
        using cur True e(1) d1(1) d3(1)
        by (auto simp: rt_setpri_def upd_rt_def upd_rdsp_def Let_def p_def g_def split: if_splits)
      have m3: "moves {p} {g} ?d0 d3" by (rule moves_trans [OF mr same_frame_moves [OF d3(3)]])
      have p3: "p_pri (procs d3 p) = g" using same_frameD(2) [OF d3(3), of p] pri(2) by simp
      have "rt_inv (s\<lparr>rdsp := d3, rtprocs := (rtprocs s)(t := ?x)\<rparr>) (requeue Q p (nat g))"
        by (rule fin [OF d3(2) m3]) (use p3 in \<open>simp_all add: p_def g_def\<close>)
      with run m3 p3 True cur cp(3) same_frameD(7) [OF d3(3)] show ?thesis
        by (intro exI [of _ d3] exI [of _ ?x]) (simp add: same_rt_def)
    next
      case False
      let ?x = "?x0\<lparr>rt_flags := rt_flags ?x0 OR RTBACKQ\<rparr>"
      have run: "rt_setpri en s t = Some (s\<lparr>rdsp := ?f d1, rtprocs := (rtprocs s)(t := ?x)\<rparr>)"
        using cur False e(1) d1(1) by (simp add: rt_setpri_def upd_rt_def Let_def p_def g_def)
      have "rt_inv (s\<lparr>rdsp := ?f d1, rtprocs := (rtprocs s)(t := ?x)\<rparr>) (removed Q p)"
        by (rule fin [OF d1(3) mv]) (use pri in \<open>simp_all add: p_def g_def\<close>)
      with run mv pri(1) False cur cp flag_set show ?thesis
        by (intro exI [of _ "?f d1"] exI [of _ ?x]) (simp add: same_rt_def removed_id)
    qed
  qed
qed

section \<open>Queueing\<close>

definition rt_back :: "(nat \<Rightarrow> procp list) \<Rightarrow> rtsys \<Rightarrow> rtp \<Rightarrow> nat \<Rightarrow> procp list" where
  "rt_back Q s t = (let i = nat (p_pri (rt_proc s t)) in Q(i := Q i @ [rt_procp (rtprocs s t)]))"

definition rt_front :: "(nat \<Rightarrow> procp list) \<Rightarrow> rtsys \<Rightarrow> rtp \<Rightarrow> nat \<Rightarrow> procp list" where
  "rt_front Q s t = (let i = nat (p_pri (rt_proc s t)) in Q(i := rt_procp (rtprocs s t) # Q i))"

lemma rt_queue_ok:
  assumes "rt_inv s Q" "t \<in> set (rt_plist s)" "\<not> onq Q (rt_procp (rtprocs s t))" "same_rt x (rtprocs s t)"
  shows "\<exists>d. setbackdq (rdsp s) (rt_procp (rtprocs s t)) = Some d \<and> same_frame (rdsp s) d
      \<and> rt_inv (s\<lparr>rdsp := d, rtprocs := (rtprocs s)(t := x)\<rparr>) (rt_back Q s t)"
    and "\<exists>d. setfrontdq (rdsp s) (rt_procp (rtprocs s t)) = Some d \<and> same_frame (rdsp s) d
      \<and> rt_inv (s\<lparr>rdsp := d, rtprocs := (rtprocs s)(t := x)\<rparr>) (rt_front Q s t)"
proof -
  note inv = rt_invD [OF assms(1)]
  have r: "0 \<le> p_pri (rt_proc s t)" "p_pri (rt_proc s t) < int (npri (rdsp s))"
    using rtproc_okD(4) [OF inv(2) inv(4) [OF assms(2)]] by (simp_all add: pri_ok_def rt_proc_def)
  have fin: "rt_inv (s\<lparr>rdsp := d, rtprocs := (rtprocs s)(t := x)\<rparr>) Q'" if "same_frame (rdsp s) d" "disp_ok d Q'" for d Q'
    by (rule rt_inv_frame [OF assms(1) that(2) same_frame_moves [OF that(1)] assms(4)])
  show "\<exists>d. setbackdq (rdsp s) (rt_procp (rtprocs s t)) = Some d \<and> same_frame (rdsp s) d
      \<and> rt_inv (s\<lparr>rdsp := d, rtprocs := (rtprocs s)(t := x)\<rparr>) (rt_back Q s t)"
    using setbackdq_at [OF inv(1) assms(3) _ r] fin unfolding rt_back_def Let_def rt_proc_def by blast
  show "\<exists>d. setfrontdq (rdsp s) (rt_procp (rtprocs s t)) = Some d \<and> same_frame (rdsp s) d
      \<and> rt_inv (s\<lparr>rdsp := d, rtprocs := (rtprocs s)(t := x)\<rparr>) (rt_front Q s t)"
    using setfrontdq_at [OF inv(1) assms(3) _ r] fin unfolding rt_front_def Let_def rt_proc_def by blast
qed

text \<open>A process put on its queue by \<^verbatim>\<open>rt_wakeup\<close> or \<^verbatim>\<open>rt_setrun\<close>, or after its quantum.\<close>

definition refilled :: "rtproc \<Rightarrow> rtproc" where
  "refilled x = x\<lparr>rt_timeleft := rt_pquantum x, rt_flags := rt_flags x AND NOT RTBACKQ\<rparr>"

lemma rt_enqueue_ok:
  assumes "rt_inv s Q" "t \<in> set (rt_plist s)" "\<not> onq Q (rt_procp (rtprocs s t))"
  shows "\<exists>d. rt_enqueue s t = Some (s\<lparr>rdsp := d, rtprocs := (rtprocs s)(t := refilled (rtprocs s t))\<rparr>)
      \<and> rt_inv (s\<lparr>rdsp := d, rtprocs := (rtprocs s)(t := refilled (rtprocs s t))\<rparr>) (rt_back Q s t)
      \<and> moves {} {} (rdsp s) d
      \<and> runrun d = runrun (rdsp s) + (if p_pri (rt_proc s t) > curpri (rdsp s) then 1 else 0)
      \<and> kprunrun d = kprunrun (rdsp s) + (if p_pri (rt_proc s t) > curpri (rdsp s) then 1 else 0)"
proof -
  let ?p = "rt_procp (rtprocs s t)" and ?x = "refilled (rtprocs s t)"
  have core: "same_rt ?x (rtprocs s t)" by (simp add: refilled_def same_rt_def)
  obtain d where d: "setbackdq (rdsp s) ?p = Some d" "same_frame (rdsp s) d"
      "rt_inv (s\<lparr>rdsp := d, rtprocs := (rtprocs s)(t := ?x)\<rparr>) (rt_back Q s t)"
    using rt_queue_ok(1) [OF assms core] by blast
  note fr = same_frameD [OF d(2)]
  let ?d = "if p_pri (procs d ?p) > curpri d then kpreempt d else d"
  have run: "rt_enqueue s t = Some (s\<lparr>rdsp := ?d, rtprocs := (rtprocs s)(t := ?x)\<rparr>)"
    using d(1) by (simp add: rt_enqueue_def upd_rt_def Let_def refilled_def)
  have mv: "moves {} {} (rdsp s) ?d" using same_frame_moves [OF d(2), of "{}" "{}"] by auto
  have "disp_ok ?d (rt_back Q s t)" using rt_invD(1) [OF d(3)] by auto
  from rt_inv_frame [OF assms(1) this mv core] run mv fr show ?thesis
    by (intro exI [of _ ?d]) (auto simp: rt_proc_def)
qed

definition rt_goes_back :: "rtproc \<Rightarrow> bool" where
  "rt_goes_back x \<longleftrightarrow> rt_flags x AND RTBACKQ \<noteq> 0"

lemma ran_backq: "(f OR RTRAN) AND RTBACKQ = f AND RTBACKQ"
  by (simp add: bit_eq_iff bit_simps) (auto simp: bit_numeral_iff)

lemma rt_preempt_ok:
  assumes "rt_inv s Q" "t \<in> set (rt_plist s)" "\<not> onq Q (rt_procp (rtprocs s t))"
  shows "\<exists>d x. rt_preempt s t = Some (s\<lparr>rdsp := d, rtprocs := (rtprocs s)(t := x)\<rparr>)
      \<and> rt_inv (s\<lparr>rdsp := d, rtprocs := (rtprocs s)(t := x)\<rparr>) (if rt_goes_back (rtprocs s t) then rt_back Q s t else rt_front Q s t)
      \<and> same_frame (rdsp s) d \<and> same_rt x (rtprocs s t) \<and> rt_pquantum x = rt_pquantum (rtprocs s t)
      \<and> rt_timeleft x = (if rt_goes_back (rtprocs s t) then rt_pquantum x else rt_timeleft (rtprocs s t))
      \<and> rt_flags x AND RTBACKQ = 0"
proof -
  let ?p = "rt_procp (rtprocs s t)"
  define y where "y = (if ?p = curproc (rdsp s) then (rtprocs s t)\<lparr>rt_flags := rt_flags (rtprocs s t) OR RTRAN\<rparr> else rtprocs s t)"
  have y: "same_rt y (rtprocs s t)" "rt_pquantum y = rt_pquantum (rtprocs s t)" "rt_timeleft y = rt_timeleft (rtprocs s t)"
    "rt_goes_back y = rt_goes_back (rtprocs s t)" "rt_procp y = ?p"
    by (auto simp: y_def same_rt_def rt_goes_back_def ran_backq)
  have runb: "rt_preempt s t = Some (s\<lparr>rdsp := d, rtprocs := (rtprocs s)(t := refilled y)\<rparr>)"
    if "rt_goes_back y" "setbackdq (rdsp s) ?p = Some d" for d
    using that by (auto simp: rt_preempt_def upd_rt_def Let_def y_def refilled_def rt_goes_back_def)
  have runf: "rt_preempt s t = Some (s\<lparr>rdsp := d, rtprocs := (rtprocs s)(t := y)\<rparr>)"
    if "\<not> rt_goes_back y" "setfrontdq (rdsp s) ?p = Some d" for d
    using that by (auto simp: rt_preempt_def upd_rt_def Let_def y_def rt_goes_back_def)
  show ?thesis
  proof (cases "rt_goes_back y")
    case True
    have core: "same_rt (refilled y) (rtprocs s t)" using y(1) by (simp add: refilled_def same_rt_def)
    from rt_queue_ok(1) [OF assms core] obtain d where "setbackdq (rdsp s) ?p = Some d" "same_frame (rdsp s) d"
        "rt_inv (s\<lparr>rdsp := d, rtprocs := (rtprocs s)(t := refilled y)\<rparr>) (rt_back Q s t)" by blast
    with True runb core y(2,4) flag_clear show ?thesis
      by (intro exI [of _ d] exI [of _ "refilled y"]) (simp add: refilled_def)
  next
    case False
    from rt_queue_ok(2) [OF assms y(1)] obtain d where "setfrontdq (rdsp s) ?p = Some d" "same_frame (rdsp s) d"
        "rt_inv (s\<lparr>rdsp := d, rtprocs := (rtprocs s)(t := y)\<rparr>) (rt_front Q s t)" by blast
    with False runf y show ?thesis
      by (intro exI [of _ d] exI [of _ y]) (simp add: rt_goes_back_def)
  qed
qed

lemma rt_forkret_ok:
  assumes "rt_inv s Q" "ct \<in> set (rt_plist s)" "\<not> onq Q (rt_procp (rtprocs s ct))"
  shows "\<exists>d. rt_forkret s ct = Some (s\<lparr>rdsp := d\<rparr>) \<and> rt_inv (s\<lparr>rdsp := d\<rparr>) (rt_back Q s ct) \<and> same_frame (rdsp s) d"
  using rt_queue_ok(1) [OF assms, of "rtprocs s ct"] by (auto simp: rt_forkret_def same_rt_def)

section \<open>Class membership\<close>

lemma rt_exitclass_ok: "rt_inv s Q \<Longrightarrow> rt_inv (rt_exitclass s t) Q"
  using set_remove1_subset [of t "rt_plist s"] inj_on_subset
  by (fastforce simp: rt_exitclass_def rt_inv_def rt_list_ok_def distinct_remove1)

text \<open>A process that gets a class structure of its own, not in the class before.\<close>

definition rt_fresh :: "rtsys \<Rightarrow> rtp \<Rightarrow> procp \<Rightarrow> bool" where
  "rt_fresh s t p \<longleftrightarrow> t \<notin> set (rt_plist s) \<and> (\<forall>u\<in>set (rt_plist s). rt_procp (rtprocs s u) \<noteq> p)"

lemma rt_list_ok_add:
  assumes "rt_list_ok s" "rt_fresh s t (rt_procp x)"
  shows "rt_list_ok (s\<lparr>rtprocs := (rtprocs s)(t := x), rt_plist := t # rt_plist s\<rparr>)"
  using assms unfolding rt_list_ok_def rt_fresh_def inj_on_def by auto

lemma rt_inv_add:
  assumes "rt_inv s Q" "rt_fresh s t (rt_procp x)" "rtproc_ok s x"
  shows "rt_inv (s\<lparr>rtprocs := (rtprocs s)(t := x), rt_plist := t # rt_plist s\<rparr>) Q"
  using assms rt_list_ok_add [OF rt_invD(3) [OF assms(1)] assms(2)] by (auto simp: rt_inv_def rt_fresh_def)

lemma rt_inv_but_add:
  assumes "rt_inv s Q" "rt_fresh s t (rt_procp x)" "0 \<le> rt_pri x" "rt_pri x \<le> rt_maxpri s" "pri_ok (rdsp s) (rt_procp x)"
  shows "rt_inv_but t (s\<lparr>rtprocs := (rtprocs s)(t := x), rt_plist := t # rt_plist s\<rparr>) Q"
  using assms rt_list_ok_add [OF rt_invD(3) [OF assms(1)] assms(2)] by (auto simp: rt_inv_def rt_inv_but_def)

lemma rt_fork_ok:
  assumes "rt_inv s Q" "pt \<in> set (rt_plist s)" "rt_fresh s ct cp"
    and "p_pri (procs (rdsp s) cp) = p_pri (procs (rdsp s) (rt_procp (rtprocs s pt)))"
  shows "rt_inv (rt_fork s pt cp ct) Q"
proof -
  let ?p = "rtprocs s pt"
  let ?x = "\<lparr>rt_pquantum = rt_pquantum ?p, rt_timeleft = rt_pquantum ?p, rt_pri = rt_pri ?p,
      rt_flags = rt_flags ?p AND NOT RTBACKQ, rt_procp = cp\<rparr>"
  have "rtproc_ok s ?x" using rt_invD(4) [OF assms(1,2)] assms(4) by (simp add: rtproc_ok_def)
  with rt_inv_add [OF assms(1), of ct ?x] assms(3) show ?thesis by (simp add: rt_fork_def Let_def)
qed

section \<open>Loading a process\<close>

lemma rt_inv_dsp:
  assumes "rt_inv s Q" "disp_ok d Q'" "npri d = npri (rdsp s)" "\<And>q. p_pri (procs d q) = p_pri (procs (rdsp s) q)"
  shows "rt_inv (s\<lparr>rdsp := d\<rparr>) Q'"
  using assms rt_invD [OF assms(1)] by (simp add: rt_inv_def rt_cfg_dsp rtproc_ok_def rt_list_ok_def)

lemma disp_ok_set_flag:
  assumes "disp_ok d Q" "onq Q p \<Longrightarrow> schedulable ((procs d p)\<lparr>p_flag := f\<rparr>) = schedulable (procs d p)"
  shows "disp_ok (set_flag d p f) Q"
proof -
  have "schedulable (procs (set_flag d p f) x) = schedulable (procs d x)" if "x \<in> set (Q i)" for x i
    using that assms(2) by (cases "x = p") (auto simp: set_flag_def onq_def)
  then have "runnable (set_flag d p f) Q = runnable d Q"
    by (intro ext) (simp add: runnable_def cong: filter_cong)
  moreover have "counts (set_flag d p f) c = counts d c" for c by (simp add: counts_def set_flag_def)
  ultimately show ?thesis using assms(1) by (simp add: disp_ok_def queues_flag)
qed

lemma flag_or_mask:
  fixes f :: u32
  assumes "f AND SLOAD = 0"
  shows "(f OR SLOAD) AND SSYS = f AND SSYS" "(f OR SLOAD) AND (SLOAD OR SPROCIO) = SLOAD \<longleftrightarrow> f AND SPROCIO = 0"
    "f AND (SLOAD OR SPROCIO) = f AND SPROCIO" "f AND SPROCIO \<noteq> SLOAD"
proof -
  have d: "x AND (SLOAD OR SPROCIO) = (x AND SLOAD) OR (x AND SPROCIO)" for x :: u32 by (rule bit.conj_disj_distrib)
  show s: "f AND (SLOAD OR SPROCIO) = f AND SPROCIO" unfolding d assms by simp
  have e: "(f OR SLOAD) AND m = (f AND m) OR (SLOAD AND m)" for m by (rule bit.conj_disj_distrib2)
  show "(f OR SLOAD) AND SSYS = f AND SSYS" unfolding e by simp
  have "(f OR SLOAD) AND (SLOAD OR SPROCIO) = (f AND SPROCIO) OR SLOAD" unfolding e s by simp
  moreover have "(f AND SPROCIO) OR SLOAD = SLOAD \<longleftrightarrow> f AND SPROCIO = 0"
  proof
    assume h: "(f AND SPROCIO) OR SLOAD = SLOAD"
    have "f AND SPROCIO = ((f AND SPROCIO) OR SLOAD) AND SPROCIO" by (simp add: bit.conj_disj_distrib2 and.assoc)
    then show "f AND SPROCIO = 0" unfolding h by simp
  qed simp
  ultimately show "(f OR SLOAD) AND (SLOAD OR SPROCIO) = SLOAD \<longleftrightarrow> f AND SPROCIO = 0" by simp
  show "f AND SPROCIO \<noteq> SLOAD"
  proof
    assume h: "f AND SPROCIO = SLOAD"
    have "SPROCIO AND (f AND SPROCIO) = f AND SPROCIO" by (simp add: and.left_commute)
    then show False unfolding h by simp
  qed
qed

text \<open>
  Loading succeeds or reports why not. It counts the process as schedulable if it is on a queue and not
  held; an unloaded process that is runnable is on a queue.
\<close>

definition unloaded_ok :: "disp \<Rightarrow> (nat \<Rightarrow> procp list) \<Rightarrow> procp \<Rightarrow> bool" where
  "unloaded_ok d Q p \<longleftrightarrow> p_flag (procs d p) AND SLOAD = 0 \<longrightarrow>
     (onq Q p \<longleftrightarrow> p_stat (procs d p) = SRUN) \<and> p_flag (procs d p) AND SSYS = 0"

lemma rt_load_ok:
  assumes "rt_inv s Q" "unloaded_ok (rdsp s) Q pp"
  defines "p \<equiv> procs (rdsp s) pp"
  shows "(p_flag p AND SLOAD \<noteq> 0 \<longrightarrow> rt_load s pp memlow swapok = Some (Inr s))
    \<and> (p_flag p AND SLOAD = 0 \<and> (memlow \<or> p_flag p AND SUSWAP \<noteq> 0 \<or> \<not> swapok) \<longrightarrow>
        rt_load s pp memlow swapok = Some (Inl (if \<not> memlow \<and> p_flag p AND SUSWAP \<noteq> 0 then EAGAIN else ENOMEM)))
    \<and> (p_flag p AND SLOAD = 0 \<and> \<not> memlow \<and> p_flag p AND SUSWAP = 0 \<and> swapok \<longrightarrow>
        (\<exists>d. rt_load s pp memlow swapok = Some (Inr (s\<lparr>rdsp := d\<rparr>)) \<and> disp_ok d Q
          \<and> same_frame (set_flag (rdsp s) pp (p_flag p OR SLOAD)) d))"
proof (intro conjI impI; (elim conjE)?)
  assume h: "p_flag p AND SLOAD = 0" "\<not> memlow" "p_flag p AND SUSWAP = 0" "swapok"
  let ?f = "p_flag p OR SLOAD"
  let ?d = "set_flag (rdsp s) pp ?f"
  note ok = rt_invD(1) [OF assms(1)]
  note fl = flag_or_mask [OF h(1)]
  have q: "onq Q pp \<longleftrightarrow> p_stat p = SRUN" and sys: "p_flag p AND SSYS = 0"
    using assms(2) h(1) by (simp_all add: unloaded_ok_def p_def)
  have un: "\<not> schedulable p" using sys fl(3,4) by (simp add: schedulable_def)
  have sc: "schedulable (p\<lparr>p_flag := ?f\<rparr>) \<longleftrightarrow> p_flag p AND SPROCIO = 0" using sys fl(1,2) by (simp add: schedulable_def)
  let ?r = "if p_stat p = SRUN \<and> p_flag p AND (SLOAD OR SPROCIO) = 0 then dq_sruninc ?d (p_pri p) else Some ?d"
  have res: "\<exists>d. ?r = Some d \<and> disp_ok d Q \<and> same_frame ?d d"
  proof (cases "p_stat p = SRUN \<and> p_flag p AND SPROCIO = 0")
    case True
    then obtain i where i: "pp \<in> set (Q i)" using q by (auto simp: onq_def)
    have "schedulable ((procs (rdsp s) pp)\<lparr>p_flag := ?f\<rparr>) \<noteq> schedulable (procs (rdsp s) pp)"
      using True sc un unfolding p_def by simp
    from dq_srun_flag_change [OF ok i this] un True fl(3) obtain d where "dq_sruninc ?d (p_pri p) = Some d" "disp_ok d Q"
      unfolding p_def by auto
    with True fl(3) dq_sruninc_frame show ?thesis by auto
  next
    case False
    have "disp_ok ?d Q"
      by (rule disp_ok_set_flag [OF ok]) (use False q sc un in \<open>auto simp: p_def\<close>)
    with False fl(3) show ?thesis by auto
  qed
  have run: "rt_load s pp memlow swapok = do { d \<leftarrow> ?r; Some (Inr (s\<lparr>rdsp := d\<rparr>)) }"
    using h by (simp add: rt_load_def Let_def p_def)
  from res obtain d where d: "?r = Some d" "disp_ok d Q" "same_frame ?d d" by blast
  have "rt_load s pp memlow swapok = Some (Inr (s\<lparr>rdsp := d\<rparr>))" unfolding run d(1) by simp
  with d(2,3) show "\<exists>d. rt_load s pp memlow swapok = Some (Inr (s\<lparr>rdsp := d\<rparr>)) \<and> disp_ok d Q \<and> same_frame ?d d"
    by blast
qed (auto simp: rt_load_def Let_def p_def)

section \<open>Entering the class and changing parameters\<close>

text \<open>What an operation about the process \<open>p\<close> leaves alone: the other processes, and every process's state.\<close>

definition touches :: "procp \<Rightarrow> disp \<Rightarrow> disp \<Rightarrow> bool" where
  "touches p d d' \<longleftrightarrow> npri d' = npri d \<and> curproc d' = curproc d
     \<and> (\<forall>q. p_stat (procs d' q) = p_stat (procs d q)
          \<and> (q \<noteq> p \<longrightarrow> p_pri (procs d' q) = p_pri (procs d q) \<and> p_flag (procs d' q) = p_flag (procs d q)))"

lemma touches_refl [simp]: "touches p d d"
  by (simp add: touches_def)

lemma touches_trans: "touches p d d' \<Longrightarrow> touches p d' d'' \<Longrightarrow> touches p d d''"
  by (simp add: touches_def)

lemma moves_touches: "moves S R d d' \<Longrightarrow> S \<subseteq> {p} \<Longrightarrow> touches p d d'"
  unfolding moves_def touches_def by blast

lemma touches_flag: "touches p d (set_flag d p f)"
  by (auto simp: touches_def set_flag_def)

definition kparms_valid :: "rtsys \<Rightarrow> rtkparms \<Rightarrow> bool" where
  "kparms_valid s k \<longleftrightarrow> rk_pri k = RT_NOCHANGE \<or> 0 \<le> rk_pri k \<and> rk_pri k \<le> rt_maxpri s"

definition parms_pri :: "rtkparms option \<Rightarrow> int" where
  "parms_pri parms = (case parms of None \<Rightarrow> 0 | Some k \<Rightarrow> if rk_pri k = RT_NOCHANGE then 0 else rk_pri k)"

definition parms_quantum :: "rtsys \<Rightarrow> rtkparms option \<Rightarrow> int" where
  "parms_quantum s parms =
    (case parms of Some k \<Rightarrow> if rk_tqntm k \<in> {RT_TQDEF, RT_NOCHANGE} then rt_quantum (rdpe s (parms_pri parms)) else rk_tqntm k
     | None \<Rightarrow> rt_quantum (rdpe s 0))"

lemma parms_pri_range: "rt_cfg s \<Longrightarrow> (\<And>k. parms = Some k \<Longrightarrow> kparms_valid s k) \<Longrightarrow> 0 \<le> parms_pri parms \<and> parms_pri parms \<le> rt_maxpri s"
  by (auto simp: parms_pri_def kparms_valid_def rt_cfg_def split: option.split)

lemma rt_newproc_eq:
  assumes "rt_cfg s" "\<And>k. parms = Some k \<Longrightarrow> kparms_valid s k"
  shows "rt_newproc s parms pp x =
    Some (x\<lparr>rt_pri := parms_pri parms, rt_pquantum := parms_quantum s parms, rt_flags := 0, rt_procp := pp\<rparr>)"
proof -
  have "0 \<le> parms_pri parms" "parms_pri parms \<le> rt_maxpri s" using parms_pri_range [of s parms] assms by blast+
  from rt_cfgD(1) [OF assms(1) this] show ?thesis
    by (cases parms) (auto simp: rt_newproc_def parms_pri_def parms_quantum_def Let_def)
qed

text \<open>The error of \<^verbatim>\<open>rt_enterclass\<close>, in the order in which the code looks for one.\<close>

definition rt_enter_err :: "proc_t \<Rightarrow> bool \<Rightarrow> bool \<Rightarrow> rtp option \<Rightarrow> cred option \<Rightarrow> errno option" where
  "rt_enter_err p memlow swapok new reqcr =
    (if reqcr \<noteq> None \<and> cr_uid (the reqcr) \<noteq> 0 then Some EPERM
     else if p_flag p AND SLOAD = 0 \<and> memlow then Some ENOMEM
     else if p_flag p AND SLOAD = 0 \<and> p_flag p AND SUSWAP \<noteq> 0 then Some EAGAIN
     else if p_flag p AND SLOAD = 0 \<and> \<not> swapok then Some ENOMEM
     else if new = None then Some ENOMEM else None)"

lemma sload_set: "(f OR SLOAD) AND SLOAD \<noteq> 0"
proof -
  have "(f OR SLOAD) AND SLOAD = SLOAD" by (simp add: bit.conj_disj_distrib2)
  then show ?thesis by simp
qed

lemma rt_loaded:
  assumes "rt_inv s Q" "unloaded_ok (rdsp s) Q pp" "rt_load s pp memlow swapok = Some (Inr s1)"
  obtains d where "s1 = s\<lparr>rdsp := d\<rparr>" "rt_inv s1 Q" "touches pp (rdsp s) d" "p_pri (procs d pp) = p_pri (procs (rdsp s) pp)"
    "p_flag (procs d pp) AND SLOAD \<noteq> 0"
proof -
  let ?p = "procs (rdsp s) pp"
  note ld = rt_load_ok [OF assms(1,2), of memlow swapok]
  show ?thesis
  proof (cases "p_flag ?p AND SLOAD = 0")
    case False
    with ld assms(3) have "s1 = s" by simp
    with False assms(1) show ?thesis by (intro that [of "rdsp s"]) simp_all
  next
    case True
    with ld assms(3) have "\<not> memlow" "p_flag ?p AND SUSWAP = 0" "swapok" by (auto split: if_splits)
    with True ld assms(3) obtain d where d: "s1 = s\<lparr>rdsp := d\<rparr>" "disp_ok d Q"
      "same_frame (set_flag (rdsp s) pp (p_flag ?p OR SLOAD)) d" by auto
    note fr = same_frameD [OF d(3)]
    have pr: "p_pri (procs d q) = p_pri (procs (rdsp s) q)" "npri d = npri (rdsp s)" for q using fr by (auto simp: set_flag_def)
    have "touches pp (rdsp s) d"
      by (rule touches_trans [OF touches_flag moves_touches [OF same_frame_moves [OF d(3), of "{}" "{}"]]]) simp
    moreover have "p_flag (procs d pp) AND SLOAD \<noteq> 0" using fr(3) [of pp] sload_set by (simp add: set_flag_def)
    ultimately show ?thesis using d(1) rt_inv_dsp [OF assms(1) d(2) pr(2) pr(1)] pr(1) by (intro that [of d]) simp_all
  qed
qed

lemma onq_moved: "onq (if onq Q p then requeue Q p j else Q) q \<longleftrightarrow> onq Q q"
  by (simp add: onq_requeue)

lemma rt_setpri_obtain:
  assumes "rt_inv_but t s Q" "\<not> onq Q (curproc (rdsp s))"
  defines "p \<equiv> rt_procp (rtprocs s t)" and "g \<equiv> rt_globpri (rdpe s (rt_pri (rtprocs s t)))"
  obtains d x where "rt_setpri en s t = Some (s\<lparr>rdsp := d, rtprocs := (rtprocs s)(t := x)\<rparr>)"
    "rt_inv (s\<lparr>rdsp := d, rtprocs := (rtprocs s)(t := x)\<rparr>) (if onq Q p then requeue Q p (nat g) else Q)"
    "moves {p} {g} (rdsp s) d" "p_pri (procs d p) = g" "same_rt x (rtprocs s t)" "rt_pquantum x = rt_pquantum (rtprocs s t)"
proof -
  have off: "rt_procp (rtprocs s t) = curproc (rdsp s) \<Longrightarrow> \<not> onq Q (rt_procp (rtprocs s t))" using assms(2) by simp
  show ?thesis using that rt_setpri_ok [OF assms(1) off, of en] unfolding p_def g_def by blast
qed

lemma rt_enterclass_ok:
  assumes "rt_inv s Q" "unloaded_ok (rdsp s) Q pp" "pri_ok (rdsp s) pp" "\<not> onq Q (curproc (rdsp s))"
    and "\<And>t. new = Some t \<Longrightarrow> rt_fresh s t pp" "\<And>k. parms = Some k \<Longrightarrow> kparms_valid s k"
  shows "\<exists>s' Q'. rt_enterclass s parms pp memlow swapok new reqcr = Some (rt_enter_err (procs (rdsp s) pp) memlow swapok new reqcr, s')
     \<and> rt_inv s' Q' \<and> (\<forall>q. onq Q' q \<longleftrightarrow> onq Q q) \<and> touches pp (rdsp s) (rdsp s')
     \<and> rt_dptbl s' = rt_dptbl s \<and> rt_maxpri s' = rt_maxpri s \<and> rt_cid s' = rt_cid s
     \<and> (p_flag (procs (rdsp s') pp) = p_flag (procs (rdsp s) pp) \<or> p_flag (procs (rdsp s') pp) AND SLOAD \<noteq> 0)
     \<and> (if rt_enter_err (procs (rdsp s) pp) memlow swapok new reqcr = None
        then rt_plist s' = the new # rt_plist s \<and> (\<forall>u. u \<noteq> the new \<longrightarrow> rtprocs s' u = rtprocs s u)
          \<and> rt_procp (rtprocs s' (the new)) = pp \<and> rt_pri (rtprocs s' (the new)) = parms_pri parms
          \<and> rt_pquantum (rtprocs s' (the new)) = parms_quantum s parms
          \<and> p_pri (procs (rdsp s') pp) = rt_globpri (rdpe s (parms_pri parms))
          \<and> p_flag (procs (rdsp s') pp) AND SLOAD \<noteq> 0
        else rt_plist s' = rt_plist s \<and> rtprocs s' = rtprocs s \<and> p_pri (procs (rdsp s') pp) = p_pri (procs (rdsp s) pp))"
proof -
  let ?p = "procs (rdsp s) pp"
  let ?e = "rt_enter_err ?p memlow swapok new reqcr"
  note ld = rt_load_ok [OF assms(1,2), of memlow swapok]
  show ?thesis
  proof (cases "reqcr \<noteq> None \<and> \<not> suser (the reqcr)")
    case True
    then have "?e = Some EPERM" by (simp add: rt_enter_err_def suser_def)
    moreover have "rt_enterclass s parms pp memlow swapok new reqcr = Some (Some EPERM, s)" using True by (simp add: rt_enterclass_def)
    ultimately show ?thesis using assms(1) by (intro exI [of _ s] exI [of _ Q]) simp
  next
    case perm: False
    then have perm': "\<not> (reqcr \<noteq> None \<and> cr_uid (the reqcr) \<noteq> 0)" by (simp add: suser_def)
    show ?thesis
    proof (cases "rt_load s pp memlow swapok")
      case None
      then show ?thesis using ld by (cases "p_flag ?p AND SLOAD = 0 \<and> \<not> memlow \<and> p_flag ?p AND SUSWAP = 0 \<and> swapok") auto
    next
      case (Some r)
      show ?thesis
      proof (cases r)
        case (Inl e)
        then have "p_flag ?p AND SLOAD = 0" "memlow \<or> p_flag ?p AND SUSWAP \<noteq> 0 \<or> \<not> swapok" using Some ld by auto
        with Inl Some ld have "e = (if \<not> memlow \<and> p_flag ?p AND SUSWAP \<noteq> 0 then EAGAIN else ENOMEM)" by auto
        then have "?e = Some e" using \<open>p_flag ?p AND SLOAD = 0\<close> \<open>memlow \<or> _\<close> perm' unfolding rt_enter_err_def by auto
        moreover have "rt_enterclass s parms pp memlow swapok new reqcr = Some (Some e, s)" using perm Inl Some by (auto simp: rt_enterclass_def)
        ultimately show ?thesis using assms(1) by (intro exI [of _ s] exI [of _ Q]) simp
      next
        case (Inr s1)
        from rt_loaded [OF assms(1,2) Some [unfolded Inr]] obtain d where d: "s1 = s\<lparr>rdsp := d\<rparr>" "rt_inv s1 Q"
          "touches pp (rdsp s) d" "p_pri (procs d pp) = p_pri ?p" "p_flag (procs d pp) AND SLOAD \<noteq> 0" by blast
        have noerr: "?e = (if new = None then Some ENOMEM else None)"
          using perm' ld Some Inr unfolding rt_enter_err_def by (auto split: if_splits)
        show ?thesis
        proof (cases new)
          case None
          then have "rt_enterclass s parms pp memlow swapok new reqcr = Some (Some ENOMEM, s1)"
            using perm Inr Some by (auto simp: rt_enterclass_def)
          with noerr None d show ?thesis by (intro exI [of _ s1] exI [of _ Q]) simp
        next
          case new: (Some t)
          let ?x = "(rtprocs s t)\<lparr>rt_pri := parms_pri parms, rt_pquantum := parms_quantum s parms, rt_flags := 0, rt_procp := pp\<rparr>"
          let ?s2 = "s1\<lparr>rtprocs := (rtprocs s1)(t := ?x), rt_plist := t # rt_plist s1\<rparr>"
          have cfg: "rt_cfg s" using rt_invD(2) [OF assms(1)] .
          note rng = parms_pri_range [OF cfg assms(6)]
          have fresh: "rt_fresh s1 t (rt_procp ?x)" using assms(5) [OF new] d(1) by (simp add: rt_fresh_def)
          have np: "npri d = npri (rdsp s)" "curproc d = curproc (rdsp s)" using d(3) by (simp_all add: touches_def)
          have pk: "pri_ok (rdsp s1) (rt_procp ?x)" using assms(3) d(1,4) np by (simp add: pri_ok_def)
          have but: "rt_inv_but t ?s2 Q"
            by (rule rt_inv_but_add [OF d(2) fresh _ _ pk]) (use rng d(1) in simp_all)
          have off: "\<not> onq Q (curproc (rdsp ?s2))" using assms(4) d(1) np by simp
          have k: "kparms_valid s1 k = kparms_valid s k" for k using d(1) by (simp add: kparms_valid_def)
          have pq: "parms_quantum s1 parms = parms_quantum s parms" using d(1) by (auto simp: parms_quantum_def split: option.split)
          have nw: "rt_newproc s1 parms pp (rtprocs s1 t) = Some ?x"
            using rt_newproc_eq [OF rt_invD(2) [OF d(2)], of parms pp] assms(6) k pq d(1) by simp
          let ?g = "rt_globpri (rdpe s (parms_pri parms))" and ?Q = "\<lambda>g. if onq Q pp then requeue Q pp (nat g) else Q"
          have sel: "rtprocs ?s2 t = ?x" "rdsp ?s2 = d" "rdpe ?s2 = rdpe s" "rt_procp ?x = pp" "rt_pri ?x = parms_pri parms"
            "rt_pquantum ?x = parms_quantum s parms" using d(1) by simp_all
          from rt_setpri_obtain [OF but off, of True, unfolded sel] obtain d' x
            where sp: "rt_setpri True ?s2 t = Some (?s2\<lparr>rdsp := d', rtprocs := (rtprocs ?s2)(t := x)\<rparr>)"
            "rt_inv (?s2\<lparr>rdsp := d', rtprocs := (rtprocs ?s2)(t := x)\<rparr>) (?Q ?g)" "moves {pp} {?g} d d'" "p_pri (procs d' pp) = ?g"
            "same_rt x ?x" "rt_pquantum x = parms_quantum s parms" by metis
          have "rt_enterclass s parms pp memlow swapok new reqcr = Some (None, ?s2\<lparr>rdsp := d', rtprocs := (rtprocs ?s2)(t := x)\<rparr>)"
            using perm Inr Some new nw sp(1) by (auto simp: rt_enterclass_def)
          moreover have "touches pp (rdsp s) d'" using touches_trans [OF d(3) moves_touches [OF sp(3)]] by simp
          moreover have "p_flag (procs d' pp) AND SLOAD \<noteq> 0" using sp(3) d(5) by (simp add: moves_def)
          ultimately show ?thesis
            using noerr new sp d(1) by (intro exI [of _ "?s2\<lparr>rdsp := d', rtprocs := (rtprocs ?s2)(t := x)\<rparr>"] exI [of _ "?Q ?g"])
              (simp add: onq_moved same_rt_def)
        qed
      qed
    qed
  qed
qed

definition new_rtpri :: "rtproc \<Rightarrow> rtkparms \<Rightarrow> int" where
  "new_rtpri x k = (if rk_pri k = RT_NOCHANGE then rt_pri x else rk_pri k)"

definition new_quantum :: "rtsys \<Rightarrow> rtproc \<Rightarrow> rtkparms \<Rightarrow> int" where
  "new_quantum s x k =
    (if rk_tqntm k = RT_TQDEF then rt_quantum (rdpe s (new_rtpri x k))
     else if rk_tqntm k = RT_NOCHANGE then rt_pquantum x else rk_tqntm k)"

definition rt_denied :: "rtsys \<Rightarrow> int \<Rightarrow> cred option \<Rightarrow> bool" where
  "rt_denied s reqpcid reqcr \<longleftrightarrow> reqcr \<noteq> None \<and> reqpcid \<noteq> rt_cid s \<and> cr_uid (the reqcr) \<noteq> 0"

text \<open>What stays of the class's own state when only the structure of \<open>t\<close> changes.\<close>

definition same_but :: "rtp \<Rightarrow> rtsys \<Rightarrow> rtsys \<Rightarrow> bool" where
  "same_but t s s' \<longleftrightarrow> rt_plist s' = rt_plist s \<and> rt_dptbl s' = rt_dptbl s \<and> rt_maxpri s' = rt_maxpri s \<and> rt_cid s' = rt_cid s
     \<and> (\<forall>u. u \<noteq> t \<longrightarrow> rtprocs s' u = rtprocs s u) \<and> rt_procp (rtprocs s' t) = rt_procp (rtprocs s t)"

text \<open>The change of the quantum at the end of \<^verbatim>\<open>rt_parmsset\<close>.\<close>

definition set_quantum :: "rtsys \<Rightarrow> rtkparms \<Rightarrow> rtproc \<Rightarrow> rtproc" where
  "set_quantum s k x =
    (if rk_tqntm k = RT_TQINF then x\<lparr>rt_pquantum := RT_TQINF\<rparr>
     else if rk_tqntm k = RT_TQDEF then x\<lparr>rt_pquantum := rt_quantum (rdpe s (rt_pri x)), rt_timeleft := rt_quantum (rdpe s (rt_pri x))\<rparr>
     else if rk_tqntm k \<noteq> RT_NOCHANGE then x\<lparr>rt_pquantum := rk_tqntm k, rt_timeleft := rk_tqntm k\<rparr>
     else x)"

lemma upd_rt_same [simp]: "upd_rt s t (\<lambda>x. x) = s"
  by (simp add: upd_rt_def)

lemma rt_parmsset_quantum:
  assumes "rt_cfg s" "0 \<le> rt_pri (rtprocs s t)" "rt_pri (rtprocs s t) \<le> rt_maxpri s"
  shows "(if rk_tqntm k = RT_TQINF then Some (Inr (upd_rt s t (\<lambda>x. x\<lparr>rt_pquantum := RT_TQINF\<rparr>)))
       else if rk_tqntm k = RT_TQDEF then do {
         e \<leftarrow> ird (rt_dptbl s) (rt_pri (rtprocs s t));
         Some (Inr (upd_rt s t (\<lambda>x. x\<lparr>rt_pquantum := rt_quantum e, rt_timeleft := rt_quantum e\<rparr>))) }
       else if rk_tqntm k \<noteq> RT_NOCHANGE then
         Some (Inr (upd_rt s t (\<lambda>x. x\<lparr>rt_pquantum := rk_tqntm k, rt_timeleft := rk_tqntm k\<rparr>)))
       else Some (Inr s)) = Some (Inr (s\<lparr>rtprocs := (rtprocs s)(t := set_quantum s k (rtprocs s t))\<rparr>) :: errno + rtsys)"
  using rt_cfgD(1) [OF assms] by (simp add: set_quantum_def upd_rt_def)

lemma rt_parmsset_ok:
  assumes "rt_inv s Q" "t \<in> set (rt_plist s)" "kparms_valid s k" "\<not> onq Q (curproc (rdsp s))"
  shows "if rt_denied s reqpcid reqcr then rt_parmsset s k t reqpcid reqcr = Some (Inl EPERM)
    else \<exists>s' Q'. rt_parmsset s k t reqpcid reqcr = Some (Inr s') \<and> rt_inv s' Q' \<and> (\<forall>q. onq Q' q \<longleftrightarrow> onq Q q)
      \<and> touches (rt_procp (rtprocs s t)) (rdsp s) (rdsp s') \<and> same_but t s s'
      \<and> p_flag (procs (rdsp s') (rt_procp (rtprocs s t))) = p_flag (procs (rdsp s) (rt_procp (rtprocs s t)))
      \<and> rt_pri (rtprocs s' t) = new_rtpri (rtprocs s t) k \<and> rt_pquantum (rtprocs s' t) = new_quantum s (rtprocs s t) k
      \<and> p_pri (procs (rdsp s') (rt_procp (rtprocs s t))) = rt_globpri (rdpe s (new_rtpri (rtprocs s t) k))"
proof (cases "rt_denied s reqpcid reqcr")
  case True
  then show ?thesis by (simp add: rt_parmsset_def rt_denied_def suser_def)
next
  case False
  then have perm: "\<not> (reqcr \<noteq> None \<and> reqpcid \<noteq> rt_cid s \<and> \<not> suser (the reqcr))" by (simp add: rt_denied_def suser_def)
  note inv = rt_invD [OF assms(1)]
  let ?x0 = "rtprocs s t" and ?p = "rt_procp (rtprocs s t)"
  note xok = rtproc_okD [OF inv(2) inv(4) [OF assms(2)]]
  have "\<exists>s1 Q1. (if rk_pri k \<noteq> RT_NOCHANGE then rt_setpri False (upd_rt s t (\<lambda>x. x\<lparr>rt_pri := rk_pri k\<rparr>)) t else Some s) = Some s1
      \<and> rt_inv s1 Q1 \<and> (\<forall>q. onq Q1 q \<longleftrightarrow> onq Q q) \<and> moves {?p} UNIV (rdsp s) (rdsp s1) \<and> same_but t s s1
      \<and> rt_pri (rtprocs s1 t) = new_rtpri ?x0 k \<and> rt_pquantum (rtprocs s1 t) = rt_pquantum ?x0"
  proof (cases "rk_pri k = RT_NOCHANGE")
    case True
    then show ?thesis using assms(1) by (intro exI [of _ s] exI [of _ Q]) (simp add: same_but_def new_rtpri_def)
  next
    case ch: False
    let ?x = "?x0\<lparr>rt_pri := rk_pri k\<rparr>"
    let ?s = "s\<lparr>rtprocs := (rtprocs s)(t := ?x)\<rparr>"
    have but: "rt_inv_but t ?s Q"
      by (rule rt_inv_but_of [OF assms(1,2)]) (use assms(3) ch in \<open>simp_all add: kparms_valid_def\<close>)
    have off: "\<not> onq Q (curproc (rdsp ?s))" using assms(4) by simp
    have sel: "rtprocs ?s t = ?x" "rdsp ?s = rdsp s" "rt_procp ?x = ?p" by simp_all
    from rt_setpri_obtain [OF but off, of False, unfolded sel] obtain d x g j
      where sp: "rt_setpri False ?s t = Some (?s\<lparr>rdsp := d, rtprocs := (rtprocs ?s)(t := x)\<rparr>)"
        "rt_inv (?s\<lparr>rdsp := d, rtprocs := (rtprocs ?s)(t := x)\<rparr>) (if onq Q ?p then requeue Q ?p j else Q)" "moves {?p} {g} (rdsp s) d"
        "same_rt x ?x" "rt_pquantum x = rt_pquantum ?x" by metis
    have "moves {?p} UNIV (rdsp s) d" using moves_mono [OF sp(3)] by simp
    with sp ch show ?thesis
      by (intro exI [of _ "?s\<lparr>rdsp := d, rtprocs := (rtprocs ?s)(t := x)\<rparr>"] exI [of _ "if onq Q ?p then requeue Q ?p j else Q"])
        (simp add: upd_rt_def onq_moved same_but_def same_rt_def new_rtpri_def)
  qed
  then obtain s1 Q1 where s1: "(if rk_pri k \<noteq> RT_NOCHANGE then rt_setpri False (upd_rt s t (\<lambda>x. x\<lparr>rt_pri := rk_pri k\<rparr>)) t else Some s) = Some s1"
    "rt_inv s1 Q1" "\<forall>q. onq Q1 q \<longleftrightarrow> onq Q q" "moves {?p} UNIV (rdsp s) (rdsp s1)" "same_but t s s1"
    "rt_pri (rtprocs s1 t) = new_rtpri ?x0 k" "rt_pquantum (rtprocs s1 t) = rt_pquantum ?x0" by blast
  note i1 = rt_invD [OF s1(2)]
  have mem: "t \<in> set (rt_plist s1)" "rt_procp (rtprocs s1 t) = ?p" "rdpe s1 = rdpe s" using s1(5) assms(2) by (simp_all add: same_but_def rdpe_def fun_eq_iff)
  note x1 = rtproc_okD [OF i1(2) i1(4) [OF mem(1)]]
  define y where "y = set_quantum s1 k (rtprocs s1 t)"
  have y: "rt_pri y = new_rtpri ?x0 k" "rt_procp y = ?p" "rt_pquantum y = new_quantum s ?x0 k" "same_rt y (rtprocs s1 t)"
    using s1(6,7) mem(2,3) by (auto simp: y_def set_quantum_def new_quantum_def same_rt_def)
  let ?s' = "s1\<lparr>rtprocs := (rtprocs s1)(t := y)\<rparr>"
  have "rt_parmsset s k t reqpcid reqcr = Some (Inr ?s')"
    unfolding rt_parmsset_def if_not_P [OF perm] s1(1) bind.bind_lunit y_def using rt_parmsset_quantum [OF i1(2) x1(1,2), of k] .
  moreover have "rt_inv ?s' Q1" by (rule rt_inv_core [OF s1(2) y(4)])
  moreover have "touches ?p (rdsp s) (rdsp ?s')" using moves_touches [OF s1(4)] by simp
  moreover have "same_but t s ?s'" using s1(5) y(2) by (simp add: same_but_def)
  moreover have "p_flag (procs (rdsp s1) ?p) = p_flag (procs (rdsp s) ?p)" using s1(4) by (simp add: moves_def)
  moreover have "p_pri (procs (rdsp s1) ?p) = rt_globpri (rdpe s (new_rtpri ?x0 k))" using x1(3) s1(6) mem by simp
  ultimately show ?thesis
    using False s1(3) y(1,3) by (simp only: if_False) (intro exI [of _ ?s'] exI [of _ Q1], simp)
qed

section \<open>Ticks\<close>

lemma rt_tick_ok: "rt_inv s Q \<Longrightarrow> rt_inv (rt_tick s t) Q"
proof -
  assume inv: "rt_inv s Q"
  let ?t = "\<lambda>x. x\<lparr>rt_timeleft := s32 (rt_timeleft x - 1)\<rparr>" and ?b = "\<lambda>x. x\<lparr>rt_flags := rt_flags x OR RTBACKQ\<rparr>"
  have i1: "rt_inv (upd_rt s t ?t) Q" unfolding upd_rt_def by (rule rt_inv_core [OF inv]) (simp add: same_rt_def)
  have i2: "rt_inv (upd_rt (upd_rt s t ?t) t ?b) Q" unfolding upd_rt_def [of "upd_rt s t ?t"]
    by (rule rt_inv_core [OF i1]) (simp add: same_rt_def)
  have "rt_inv (upd_rdsp (upd_rt (upd_rt s t ?t) t ?b) kpreempt) Q"
    unfolding upd_rdsp_def by (rule rt_inv_dsp [OF i2]) (use rt_invD(1) [OF i2] in simp_all)
  with inv i1 show ?thesis by (simp add: rt_tick_def Let_def)
qed

text \<open>A finite quantum with \<open>n\<close> ticks left: the \<open>n\<close>-th tick, and no earlier one, asks for preemption.\<close>

lemma rt_tick_count:
  assumes "rt_pquantum (rtprocs s t) \<noteq> RT_TQINF" "rt_timeleft (rtprocs s t) = int n" "n < 2147483648" "k < n"
  shows "((\<lambda>s. rt_tick s t) ^^ k) s = upd_rt s t (\<lambda>x. x\<lparr>rt_timeleft := int (n - k)\<rparr>)"
  using assms(4)
proof (induction k)
  case 0
  have "upd_rt s t (\<lambda>x. x\<lparr>rt_timeleft := int n\<rparr>) = upd_rt s t (\<lambda>x. x)"
    unfolding upd_rt_def assms(2) [symmetric] by simp
  then show ?case by simp
next
  case (Suc k)
  have "s32 (int (n - k) - 1) = int (n - Suc k)" using Suc.prems assms(3) by (subst s32_id) auto
  with Suc assms(1) show ?case by (simp add: rt_tick_def upd_rt_def Let_def)
qed

end
