(* ===== verification/KClassFrame.thy ===== *)
theory KClassFrame
  imports KTs KRtInv
begin

text \<open>
  What an operation of the time-sharing or the real-time class leaves alone: the tables and the list of
  the class, the structures of its other processes, and every other process of the system. The two
  classes share the dispatcher; these lemmas are what each needs to know of the other. They need no
  invariant: they hold of every run of an operation.
\<close>

section \<open>Priorities of the dispatcher\<close>

lemma moves_after:
  "setbackdq d1 p = Some d2 \<Longrightarrow> moves S R d d1 \<Longrightarrow> moves S R d d2"
  "setfrontdq d1 p = Some d2 \<Longrightarrow> moves S R d d1 \<Longrightarrow> moves S R d d2"
  "dispdeq d1 p = Some (b, d2) \<Longrightarrow> moves S R d d1 \<Longrightarrow> moves S R d d2"
  by (rule moves_trans, assumption, rule queue_moves, assumption)+

lemma moves_set_after: "moves S R d d1 \<Longrightarrow> p \<in> S \<Longrightarrow> g \<in> R \<Longrightarrow> moves S R d (set_pri d1 p g)"
  using moves_trans moves_set_pri by blast

lemma ird_set: "ird xs k = Some x \<Longrightarrow> x \<in> set xs"
  by (auto simp: ird_def rd_Some_iff split: if_splits)

section \<open>The time-sharing class\<close>

text \<open>The priorities of the tables, and what is fixed between administrations.\<close>

definition ts_pris :: "tsys \<Rightarrow> int set" where
  "ts_pris s = ts_globpri ` set (ts_dptbl s) \<union> set (ts_kmdpris s)"

definition ts_conf :: "tsys \<Rightarrow> tsdpent list \<times> int list \<times> int list" where
  "ts_conf s = (ts_dptbl s, ts_kmdpris s, [ts_maxupri s, ts_maxumdpri s, ts_maxkmdpri s, ts_maxglobpri s, ts_cid s])"

definition ts_local :: "tsp set \<Rightarrow> tsys \<Rightarrow> tsys \<Rightarrow> bool" where
  "ts_local T s s' \<longleftrightarrow> moves ((\<lambda>t. ts_procp (tsprocs s t)) ` T) (ts_pris s) (dsp s) (dsp s') \<and> ts_conf s' = ts_conf s
     \<and> ts_plist s' = ts_plist s \<and> (\<forall>u. ts_procp (tsprocs s' u) = ts_procp (tsprocs s u))
     \<and> (\<forall>u. u \<notin> T \<longrightarrow> tsprocs s' u = tsprocs s u)"

lemma ts_pris_in: "ird (ts_dptbl s) k = Some e \<Longrightarrow> ts_globpri e \<in> ts_pris s" "ird (ts_kmdpris s) k = Some g \<Longrightarrow> g \<in> ts_pris s"
  by (auto simp: ts_pris_def dest: ird_set)

lemma ts_pris_conf: "ts_conf s' = ts_conf s \<Longrightarrow> ts_pris s' = ts_pris s"
  by (simp add: ts_conf_def ts_pris_def)

lemma ts_local_refl [simp]: "ts_local T s s"
  by (simp add: ts_local_def)

lemma ts_local_trans: "ts_local T s s1 \<Longrightarrow> ts_local T s1 s2 \<Longrightarrow> ts_local T s s2"
  unfolding ts_local_def using moves_trans [of _ _ "dsp s" "dsp s1" "dsp s2"] ts_pris_conf [of s1 s] by simp

lemma ts_local_mono: "ts_local T s s' \<Longrightarrow> T \<subseteq> T' \<Longrightarrow> ts_local T' s s'"
  unfolding ts_local_def using moves_mono [OF _ image_mono order_refl] by blast

lemma newumdpri_procp [simp]: "ts_procp (TS_NEWUMDPRI s x) = ts_procp x"
  by (simp add: TS_NEWUMDPRI_def Let_def)

lemmas ts_frame_defs = upd_ts_def upd_dsp_def ts_local_def ts_conf_def Let_def bind_eq_Some_conv

text \<open>The two kinds of steps an operation on the process of \<open>t\<close> is made of.\<close>

lemma ts_local_upd: "(\<And>x. ts_procp (f x) = ts_procp x) \<Longrightarrow> ts_local {t} s (upd_ts s t f)"
  by (simp add: ts_local_def upd_ts_def ts_conf_def)

lemma ts_local_dsp: "moves {ts_procp (tsprocs s t)} (ts_pris s) (dsp s) d \<Longrightarrow> ts_local {t} s (s\<lparr>dsp := d\<rparr>)"
  by (simp add: ts_local_def ts_conf_def)

lemma ts_local_step:
  assumes "moves {ts_procp (tsprocs s t)} (ts_pris s) (dsp s) d" "\<And>x. ts_procp (f x) = ts_procp x"
  shows "ts_local {t} s (upd_ts (s\<lparr>dsp := d\<rparr>) t f)"
  using ts_local_trans [OF ts_local_dsp [OF assms(1)] ts_local_upd [of f, OF assms(2)]] .

lemma ts_setumdpri_local:
  assumes "ts_setumdpri s t = Some s'"
  shows "ts_local {t} s s'"
proof -
  let ?p = "ts_procp (tsprocs s t)"
  from assms obtain e where e: "ird (ts_dptbl s) (ts_umdpri (tsprocs s t)) = Some e"
    by (auto simp: ts_setumdpri_def Let_def bind_eq_Some_conv)
  note set = moves_set_after [OF _ insertI1 ts_pris_in(1) [OF e], where d = "dsp s" and p = ?p]
  show ?thesis
  proof (cases "?p = curproc (dsp s)")
    case True
    let ?d = "(set_pri (dsp s) ?p (ts_globpri e))\<lparr>curpri := ts_globpri e\<rparr>"
    have m: "moves {?p} (ts_pris s) (dsp s) ?d" "moves {?p} (ts_pris s) (dsp s) (?d\<lparr>runrun := runrun ?d + 1\<rparr>)" using set by simp_all
    from assms True e show ?thesis
      using m by (auto simp: ts_setumdpri_def ts_local_def ts_conf_def Let_def upd_ts_def upd_dsp_def split: if_splits)
  next
    case False
    with assms e obtain w d where d: "dispdeq (dsp s) ?p = Some (w, d)" by (auto simp: ts_setumdpri_def Let_def bind_eq_Some_conv)
    let ?d = "set_pri d ?p (ts_globpri e)"
    define d2 where "d2 = (if ts_globpri e > curpri ?d then ?d\<lparr>runrun := runrun ?d + 1\<rparr> else ?d)"
    have m: "moves {?p} (ts_pris s) (dsp s) ?d" by (rule set, rule moves_after(3) [OF d], rule moves_refl)
    then have m2: "moves {?p} (ts_pris s) (dsp s) d2" by (simp add: d2_def)
    show ?thesis
    proof (cases w)
      case False
      with assms e d \<open>?p \<noteq> _\<close> have "s' = upd_ts (s\<lparr>dsp := ?d\<rparr>) t (\<lambda>x. x\<lparr>ts_flags := ts_flags x OR TSBACKQ\<rparr>)"
        by (simp add: ts_setumdpri_def Let_def)
      with ts_local_step [OF m] show ?thesis by simp
    next
      case True
      with assms e d \<open>?p \<noteq> _\<close> obtain d3 where d3: "setbackdq d2 ?p = Some d3"
        "s' = upd_ts (s\<lparr>dsp := d3\<rparr>) t (\<lambda>x. x\<lparr>ts_timeleft := ts_quantum e\<rparr>)"
        unfolding d2_def by (cases "ts_globpri e > curpri ?d") (auto simp: ts_setumdpri_def Let_def bind_eq_Some_conv upd_ts_def upd_dsp_def)
      with ts_local_step [OF moves_after(1) [OF d3(1) m2]] show ?thesis by simp
    qed
  qed
qed

lemma ts_wakeup_local: "ts_wakeup s t = Some s' \<Longrightarrow> ts_local {t} s s'"
  unfolding ts_wakeup_def
  by (auto simp: ts_frame_defs split: if_splits intro: queue_moves)

lemma ts_setrun_local: "ts_setrun s t = Some s' \<Longrightarrow> ts_local {t} s s'"
  unfolding ts_setrun_def
  by (auto simp: ts_frame_defs split: if_splits intro: queue_moves)

lemma ts_preempt_local: "ts_preempt s t = Some s' \<Longrightarrow> ts_local {t} s s'"
  unfolding ts_preempt_def
  by (auto simp: ts_frame_defs split: if_splits intro: queue_moves)

lemma ts_sleep_local: "ts_sleep s t k = Some s' \<Longrightarrow> ts_local {t} s s'"
  unfolding ts_sleep_def by (auto simp: ts_frame_defs intro!: moves_set_pri ts_pris_in)

lemma ts_trapret_local: "ts_trapret s t = Some s' \<Longrightarrow> ts_local {t} s s'"
  unfolding ts_trapret_def
  by (auto simp: ts_frame_defs split: if_splits intro!: moves_set_pri intro: ts_pris_in)

lemma ts_tick_local: "ts_tick s t = Some s' \<Longrightarrow> ts_local {t} s s'"
  unfolding ts_tick_def
  by (auto simp: ts_frame_defs split: if_splits; (rule moves_refl | erule moves_after | rule moves_set_after | erule ts_pris_in | simp)+)

lemma ts_update1_local:
  assumes "ts_update1 s t = Some s'"
  shows "ts_local {t} s s'"
proof -
  let ?p = "ts_procp (tsprocs s t)"
  let ?f = "\<lambda>x. x\<lparr>ts_dispwait := s16 (ts_dispwait x + 1)\<rparr>"
  consider "s' = s" | "s' = upd_ts s t ?f" | "ages s t" "s' \<noteq> upd_ts s t ?f"
    using assms by (cases "ages s t") (auto simp: ts_update1_idle)
  then show ?thesis
  proof cases
    case 2
    then show ?thesis using ts_local_upd [of ?f] by simp
  next
    case 3
    then have a: "ts_flags (tsprocs s t) AND TSKPRI = 0"
      "(p_stat (ts_proc s t) \<noteq> SRUN \<and> p_stat (ts_proc s t) \<noteq> SONPROC \<or> p_flag (ts_proc s t) AND SPROCIO \<noteq> 0) = False"
      by (auto simp: ages_def)
    let ?x = "\<lambda>e1. TS_NEWUMDPRI s ((?f (tsprocs s t))\<lparr>ts_cpupri := ts_lwait e1\<rparr>)"
    from assms 3(2) a obtain e1 w d e where r: "dispdeq (dsp s) ?p = Some (w, d)" "ird (ts_dptbl s) (ts_umdpri (?x e1)) = Some e"
      and e1: "ird (ts_dptbl s) (ts_cpupri (tsprocs s t)) = Some e1"
      by (auto simp: ts_update1_def Let_def upd_ts_def bind_eq_Some_conv split: if_split_asm)
    define d2 where "d2 = (if ?p = curproc d then (set_pri d ?p (ts_globpri e))\<lparr>curpri := ts_globpri e\<rparr> else set_pri d ?p (ts_globpri e))"
    have "moves {?p} (ts_pris s) (dsp s) (set_pri d ?p (ts_globpri e))"
      by (rule moves_set_after [OF moves_after(3) [OF r(1) moves_refl] insertI1 ts_pris_in(1) [OF r(2)]])
    then have m: "moves {?p} (ts_pris s) (dsp s) d2" by (cases "?p = curproc d") (simp_all add: d2_def)
    show ?thesis
    proof (cases w)
      case True
      with assms 3(2) a r e1 obtain d3 where "setbackdq d2 ?p = Some d3" "dsp s' = d3" "ts_conf s' = ts_conf s" "ts_plist s' = ts_plist s"
        "ts_procp (tsprocs s' t) = ?p" "\<forall>u. u \<noteq> t \<longrightarrow> tsprocs s' u = tsprocs s u"
        unfolding d2_def by (cases "?p = curproc d") (auto simp: ts_update1_def ts_conf_def Let_def upd_ts_def bind_eq_Some_conv split: if_split_asm)
      then show ?thesis using moves_after(1) m by (auto simp: ts_local_def) metis
    next
      case False
      with assms 3(2) a r e1 have "dsp s' = d2" "ts_conf s' = ts_conf s" "ts_plist s' = ts_plist s"
        "ts_procp (tsprocs s' t) = ?p" "\<forall>u. u \<noteq> t \<longrightarrow> tsprocs s' u = tsprocs s u"
        unfolding d2_def by (auto simp: ts_update1_def ts_conf_def Let_def upd_ts_def bind_eq_Some_conv split: if_split_asm)
      then show ?thesis using m by (auto simp: ts_local_def)
    qed
  qed simp
qed

lemma ts_update_list_local: "ts_update_list s ts = Some s' \<Longrightarrow> ts_local (set ts) s s'"
proof (induction ts arbitrary: s)
  case (Cons t ts)
  then obtain s1 where s1: "ts_update1 s t = Some s1" "ts_update_list s1 ts = Some s'" by (auto simp: bind_eq_Some_conv)
  have "ts_local (set (t # ts)) s s1" by (rule ts_local_mono [OF ts_update1_local [OF s1(1)]]) simp
  moreover have "ts_local (set (t # ts)) s1 s'" by (rule ts_local_mono [OF Cons.IH [OF s1(2)]]) auto
  ultimately show ?case by (rule ts_local_trans)
qed simp

lemma ts_update_local: "ts_update s = Some s' \<Longrightarrow> ts_local (set (ts_plist s)) s s'"
proof -
  assume "ts_update s = Some s'"
  then obtain s1 where s1: "ts_update_list s (ts_plist s) = Some s1"
    "s' = upd_dsp (s1\<lparr>ts_timeouts := ts_timeouts s1 + 1\<rparr>) (\<lambda>d. d\<lparr>runrun := runrun d + 1\<rparr>)"
    by (auto simp: ts_update_def bind_eq_Some_conv)
  from ts_update_list_local [OF s1(1)] show ?thesis unfolding s1(2) by (simp add: ts_local_def ts_conf_def upd_dsp_def)
qed

lemma set_or_later:
  "(if b then Some (Inl e) else if c then Some (Inr a) else g \<bind> (\<lambda>s. Some (Inr s))) = Some (Inr s') \<Longrightarrow> s' = a \<or> g = Some s'"
  by (auto simp: bind_eq_Some_conv split: if_splits)

lemma ts_parmsset_local:
  assumes "ts_parmsset s pa t reqcr = Some (Inr s')"
  shows "ts_local {t} s s'"
proof -
  let ?lim = "if par_uprilim pa = TS_NOCHANGE then ts_uprilim (tsprocs s t) else par_uprilim pa"
  let ?u = "if par_upri pa = TS_NOCHANGE then ts_upri (tsprocs s t) else par_upri pa"
  let ?u' = "if ?u > ?lim then ?lim else ?u" and ?n = "s8 (20 - cdiv (par_upri pa * 20) (ts_maxupri s))"
  let ?f1 = "\<lambda>x. TS_NEWUMDPRI s (x\<lparr>ts_uprilim := ?lim, ts_upri := ?u'\<rparr>)"
  let ?f2 = "\<lambda>x. x\<lparr>ts_nice := (if ?n = 40 then 39 else ?n)\<rparr>" and ?f3 = "\<lambda>x. x\<lparr>ts_dispwait := 0\<rparr>"
  let ?s2 = "upd_ts (upd_ts s t ?f1) t ?f2"
  have l2: "ts_local {t} s ?s2" by (rule ts_local_trans [OF ts_local_upd ts_local_upd]) simp_all
  have l3: "ts_local {t} s (upd_ts ?s2 t ?f3)" by (rule ts_local_trans [OF l2 ts_local_upd]) simp
  have mu: "ts_maxupri (upd_ts s t f) = ts_maxupri s" for f by (simp add: upd_ts_def)
  have "s' = ?s2 \<or> ts_setumdpri (upd_ts ?s2 t ?f3) t = Some s'"
    by (rule set_or_later [OF assms [unfolded ts_parmsset_def Let_def mu]])
  then show ?thesis using l2 ts_local_trans [OF l3 ts_setumdpri_local] by blast
qed

text \<open>\<^verbatim>\<open>ts_enterclass\<close> puts the new structure at the head of the list.\<close>

lemma ts_enterclass_local:
  assumes "ts_enterclass s parms pp (Some t) reqcr = Some (Inr s')"
  shows "moves {pp} (ts_pris s) (dsp s) (dsp s') \<and> ts_conf s' = ts_conf s \<and> ts_plist s' = t # ts_plist s
    \<and> ts_procp (tsprocs s' t) = pp \<and> (\<forall>u. u \<noteq> t \<longrightarrow> tsprocs s' u = tsprocs s u)"
proof -
  from assms obtain x s1 where x:
    "ts_setumdpri (s\<lparr>tsprocs := (tsprocs s)(t := x\<lparr>ts_dispwait := 0, ts_flags := 0, ts_procp := pp\<rparr>), ts_plist := t # ts_plist s\<rparr>) t = Some s1"
    "s' = (if tspexists s1 then s1 else s1\<lparr>ts_timeouts := ts_timeouts s1 + 1, tspexists := True\<rparr>)"
    unfolding ts_enterclass_def Let_def
    by (auto simp: bind_eq_Some_conv split: sum.splits split del: if_split)
  from ts_setumdpri_local [OF x(1)] x(2) show ?thesis
    by (auto simp: ts_local_def ts_conf_def ts_pris_def)
qed

lemma ts_exitclass_local: "dsp (ts_exitclass s t) = dsp s" "ts_conf (ts_exitclass s t) = ts_conf s" "tsprocs (ts_exitclass s t) = tsprocs s"
  by (simp_all add: ts_exitclass_def ts_conf_def)

section \<open>The real-time class\<close>

definition rt_pris :: "rtsys \<Rightarrow> int set" where
  "rt_pris s = rt_globpri ` set (rt_dptbl s)"

definition rt_conf :: "rtsys \<Rightarrow> rtdpent list \<times> int \<times> int" where
  "rt_conf s = (rt_dptbl s, rt_maxpri s, rt_cid s)"

definition rt_local :: "rtp \<Rightarrow> rtsys \<Rightarrow> rtsys \<Rightarrow> bool" where
  "rt_local t s s' \<longleftrightarrow> moves {rt_procp (rtprocs s t)} (rt_pris s) (rdsp s) (rdsp s') \<and> rt_conf s' = rt_conf s
     \<and> rt_plist s' = rt_plist s \<and> (\<forall>u. rt_procp (rtprocs s' u) = rt_procp (rtprocs s u))
     \<and> (\<forall>u. u \<noteq> t \<longrightarrow> rtprocs s' u = rtprocs s u)"

lemma rt_pris_in: "ird (rt_dptbl s) k = Some e \<Longrightarrow> rt_globpri e \<in> rt_pris s"
  by (auto simp: rt_pris_def dest: ird_set)

lemma rt_pris_conf: "rt_conf s' = rt_conf s \<Longrightarrow> rt_pris s' = rt_pris s"
  by (simp add: rt_conf_def rt_pris_def)

lemma rt_local_refl [simp]: "rt_local t s s"
  by (simp add: rt_local_def)

lemma rt_local_trans: "rt_local t s s1 \<Longrightarrow> rt_local t s1 s2 \<Longrightarrow> rt_local t s s2"
  unfolding rt_local_def using moves_trans [of _ _ "rdsp s" "rdsp s1" "rdsp s2"] rt_pris_conf [of s1 s] by simp

lemma rt_local_upd: "(\<And>x. rt_procp (f x) = rt_procp x) \<Longrightarrow> rt_local t s (upd_rt s t f)"
  by (simp add: rt_local_def upd_rt_def rt_conf_def)

lemma rt_local_dsp: "moves {rt_procp (rtprocs s t)} (rt_pris s) (rdsp s) d \<Longrightarrow> rt_local t s (s\<lparr>rdsp := d\<rparr>)"
  by (simp add: rt_local_def rt_conf_def)

lemma rt_local_kpreempt: "rt_local t s s1 \<Longrightarrow> rt_local t s (upd_rdsp s1 kpreempt)"
  by (simp add: rt_local_def rt_conf_def upd_rdsp_def)

lemmas rt_frame_defs = upd_rt_def upd_rdsp_def rt_local_def rt_conf_def Let_def bind_eq_Some_conv

lemma rt_enqueue_local: "rt_enqueue s t = Some s' \<Longrightarrow> rt_local t s s'"
  unfolding rt_enqueue_def
  by (auto simp: rt_frame_defs split: if_splits intro: queue_moves)

lemma rt_preempt_local: "rt_preempt s t = Some s' \<Longrightarrow> rt_local t s s'"
  unfolding rt_preempt_def
  by (auto simp: rt_frame_defs split: if_splits intro: queue_moves)

lemma rt_forkret_local: "rt_forkret s t = Some s' \<Longrightarrow> rt_local t s s'"
  unfolding rt_forkret_def
  by (auto simp: rt_frame_defs split: if_splits intro: queue_moves)

lemma rt_tick_local: "rt_local t s (rt_tick s t)"
  by (auto simp: rt_tick_def rt_frame_defs)

lemma rt_flags_local: "rt_local t s (rt_sleep s t)" "rt_local t s (rt_stop s t)"
  by (simp_all add: rt_sleep_def rt_stop_def rt_local_upd)

lemma rt_setpri_local:
  assumes "rt_setpri en s t = Some s'"
  shows "rt_local t s s'"
proof -
  let ?p = "rt_procp (rtprocs s t)"
  let ?fill = "\<lambda>s. if en then upd_rt s t (\<lambda>x. x\<lparr>rt_timeleft := rt_pquantum x\<rparr>) else s"
  let ?toback = "\<lambda>s. upd_rt s t (\<lambda>x. x\<lparr>rt_flags := rt_flags x OR RTBACKQ\<rparr>)"
  have fill: "rt_local t s1 (?fill s1)" and toback: "rt_local t s1 (?toback s1)" for s1 by (simp_all add: rt_local_upd)
  from assms obtain e where e: "ird (rt_dptbl s) (rt_pri (rtprocs s t)) = Some e"
    by (auto simp: rt_setpri_def Let_def bind_eq_Some_conv split: if_splits)
  show ?thesis
  proof (cases "?p = curproc (rdsp s)")
    case True
    let ?d = "(set_pri (rdsp s) ?p (rt_globpri e))\<lparr>curpri := rt_globpri e\<rparr>"
    have m: "rt_local t s (s\<lparr>rdsp := ?d\<rparr>)"
      by (rule rt_local_dsp) (use moves_set_after [OF moves_refl insertI1 rt_pris_in [OF e]] in simp)
    from assms True e have "s' = ?fill (s\<lparr>rdsp := ?d\<rparr>) \<or> s' = upd_rdsp (?toback (s\<lparr>rdsp := ?d\<rparr>)) kpreempt"
      by (auto simp: rt_setpri_def upd_rdsp_def Let_def split: if_split_asm)
    then show ?thesis using rt_local_trans [OF m fill] rt_local_kpreempt [OF rt_local_trans [OF m toback]] by blast
  next
    case False
    with assms e obtain w d where d: "dispdeq (rdsp s) ?p = Some (w, d)" by (auto simp: rt_setpri_def Let_def bind_eq_Some_conv)
    let ?s = "s\<lparr>rdsp := set_pri d ?p (rt_globpri e)\<rparr>"
    define s2 where "s2 = (if rt_globpri e > curpri (rdsp ?s) then upd_rdsp ?s kpreempt else ?s)"
    have m: "rt_local t s ?s"
      by (rule rt_local_dsp, rule moves_set_after [OF moves_after(3) [OF d moves_refl] insertI1 rt_pris_in [OF e]])
    have "rt_local t s s2" unfolding s2_def using m rt_local_kpreempt [OF m] by (cases "rt_globpri e > curpri (rdsp ?s)") simp_all
    then have m2: "rt_local t s (?fill s2)" by (rule rt_local_trans [OF _ fill])
    show ?thesis
    proof (cases w)
      case False
      with assms e d \<open>?p \<noteq> _\<close> have "s' = ?toback ?s" by (simp add: rt_setpri_def Let_def)
      with rt_local_trans [OF m toback] show ?thesis by simp
    next
      case True
      with assms e d \<open>?p \<noteq> _\<close> obtain d3 where d3: "setbackdq (rdsp (?fill s2)) ?p = Some d3" "s' = (?fill s2)\<lparr>rdsp := d3\<rparr>"
        unfolding s2_def rt_setpri_def Let_def by (auto simp: bind_eq_Some_conv simp del: upd_rdsp_def)
      have "rt_procp (rtprocs (?fill s2) t) = ?p" using m2 by (simp add: rt_local_def)
      then have "rt_local t (?fill s2) ((?fill s2)\<lparr>rdsp := d3\<rparr>)"
        using moves_after(1) [OF d3(1) moves_refl] by (intro rt_local_dsp) simp
      with rt_local_trans [OF m2] d3(2) show ?thesis by simp
    qed
  qed
qed

lemma rt_parmsset_local:
  assumes "rt_parmsset s k t reqpcid reqcr = Some (Inr s')"
  shows "rt_local t s s'"
proof -
  let ?s1 = "if rk_pri k \<noteq> RT_NOCHANGE then rt_setpri False (upd_rt s t (\<lambda>x. x\<lparr>rt_pri := rk_pri k\<rparr>)) t else Some s"
  have perm: "\<not> (reqcr \<noteq> None \<and> reqpcid \<noteq> rt_cid s \<and> \<not> suser (the reqcr))"
  proof
    assume "reqcr \<noteq> None \<and> reqpcid \<noteq> rt_cid s \<and> \<not> suser (the reqcr)"
    then have "rt_parmsset s k t reqpcid reqcr = Some (Inl EPERM)" unfolding rt_parmsset_def by (rule if_P)
    with assms show False by simp
  qed
  from assms obtain s1 where s1: "?s1 = Some s1" and
    set: "(if rk_tqntm k = RT_TQINF then Some (Inr (upd_rt s1 t (\<lambda>x. x\<lparr>rt_pquantum := RT_TQINF\<rparr>)))
       else if rk_tqntm k = RT_TQDEF then do {
         e \<leftarrow> ird (rt_dptbl s1) (rt_pri (rtprocs s1 t));
         Some (Inr (upd_rt s1 t (\<lambda>x. x\<lparr>rt_pquantum := rt_quantum e, rt_timeleft := rt_quantum e\<rparr>))) }
       else if rk_tqntm k \<noteq> RT_NOCHANGE then
         Some (Inr (upd_rt s1 t (\<lambda>x. x\<lparr>rt_pquantum := rk_tqntm k, rt_timeleft := rk_tqntm k\<rparr>)))
       else Some (Inr s1)) = Some (Inr s' :: errno + rtsys)"
    unfolding rt_parmsset_def if_not_P [OF perm] by (cases ?s1) simp_all
  have "rt_local t s s1"
    using s1 rt_local_trans [OF rt_local_upd rt_setpri_local, of "\<lambda>x. x\<lparr>rt_pri := rk_pri k\<rparr>"] by (auto split: if_splits)
  moreover have "rt_local t s1 s'" using set by (auto simp: bind_eq_Some_conv rt_local_upd split: if_split_asm)
  ultimately show ?thesis by (rule rt_local_trans)
qed

end
