(* ===== verification/KTsRun.thy ===== *)
theory KTsRun
  imports KClassFrame
begin

text \<open>
  Runs of the time-sharing class and the dispatcher: the operations of \<open>KTs\<close> and the three parts of
  \<^verbatim>\<open>pswtch\<close> in any order, and what every state they reach keeps.
\<close>

section \<open>The stored priorities\<close>

text \<open>
  \<open>pri_agrees s t\<close>: the global priority stored in the process (\<^verbatim>\<open>p_pri\<close>) is the one of the table's entry
  for its user mode priority \<^verbatim>\<open>ts_umdpri\<close>, or, while the process runs at a kernel mode priority
  (\<^verbatim>\<open>TSKPRI\<close>), one of the kernel's priorities. \<open>pris_agree\<close>: so it is for every process of the class,
  and two structures of the list never describe one process.
\<close>

definition kpri :: "tsys \<Rightarrow> tsp \<Rightarrow> bool" where
  "kpri s t \<longleftrightarrow> ts_flags (tsprocs s t) AND TSKPRI \<noteq> 0"

definition pri_agrees :: "tsys \<Rightarrow> tsp \<Rightarrow> bool" where
  "pri_agrees s t \<longleftrightarrow>
    (if kpri s t then pri_of s t \<in> set (ts_kmdpris s)
     else pri_of s t = ts_globpri (ts_dptbl s ! nat (ts_umdpri (tsprocs s t))))"

definition pris_agree :: "tsys \<Rightarrow> bool" where
  "pris_agree s \<longleftrightarrow> distinct (ts_plist s) \<and> inj_on (\<lambda>t. ts_procp (tsprocs s t)) (set (ts_plist s))
     \<and> (\<forall>t\<in>set (ts_plist s). pri_agrees s t)"

definition ts_good :: "tsys \<Rightarrow> (nat \<Rightarrow> procp list) \<Rightarrow> bool" where
  "ts_good s Q \<longleftrightarrow> ts_inv s Q \<and> pris_agree s"

text \<open>The changes of the other flags, as the simplifier evaluates their masks, keep \<^verbatim>\<open>TSKPRI\<close>.\<close>

lemma keeps_kpri [simp]:
  "(f OR TSBACKQ) AND TSKPRI = f AND TSKPRI" "(f OR 6) AND TSKPRI = f AND TSKPRI"
  "(f AND - 3) AND TSKPRI = f AND TSKPRI" "(f AND - 7) AND TSKPRI = f AND TSKPRI" "(f AND - 2) AND TSKPRI = 0" for f :: u32
  by (simp_all add: and.assoc bit.conj_disj_distrib2)

lemma pri_agrees_same:
  "pri_of s' t = pri_of s t \<Longrightarrow> ts_umdpri (tsprocs s' t) = ts_umdpri (tsprocs s t)
   \<Longrightarrow> ts_flags (tsprocs s' t) AND TSKPRI = ts_flags (tsprocs s t) AND TSKPRI
   \<Longrightarrow> ts_dptbl s' = ts_dptbl s \<Longrightarrow> ts_kmdpris s' = ts_kmdpris s \<Longrightarrow> pri_agrees s' t = pri_agrees s t"
  by (simp add: pri_agrees_def kpri_def)

text \<open>An operation on one process needs to be looked at only for that process.\<close>

lemma pris_agree_local:
  assumes "ts_local {t} s s'" "pris_agree s" "t \<in> set (ts_plist s)" "pri_agrees s t \<Longrightarrow> pri_agrees s' t"
  shows "pris_agree s'"
proof -
  have l: "moves {ts_procp (tsprocs s t)} (ts_pris s) (dsp s) (dsp s')" "ts_conf s' = ts_conf s" "ts_plist s' = ts_plist s"
    "\<And>u. ts_procp (tsprocs s' u) = ts_procp (tsprocs s u)" "\<And>u. u \<noteq> t \<Longrightarrow> tsprocs s' u = tsprocs s u"
    using assms(1) by (auto simp: ts_local_def)
  have "pri_agrees s' u" if u: "u \<in> set (ts_plist s)" for u
  proof (cases "u = t")
    case True
    then show ?thesis using assms(2-4) by (auto simp: pris_agree_def)
  next
    case False
    then have "ts_procp (tsprocs s u) \<noteq> ts_procp (tsprocs s t)"
      using assms(2,3) u by (auto simp: pris_agree_def inj_on_def)
    then have "pri_of s' u = pri_of s u" using l(1,4) by (auto simp: moves_def)
    then have "pri_agrees s' u = pri_agrees s u"
      by (rule pri_agrees_same) (use l(2) l(5) [OF False] in \<open>simp_all add: ts_conf_def\<close>)
    then show ?thesis using assms(2) u by (simp add: pris_agree_def)
  qed
  then show ?thesis using assms(2) l(3,4) by (simp add: pris_agree_def)
qed

section \<open>Each operation\<close>

lemma enqueue_pri: "setbackdq d p = Some d' \<Longrightarrow> p_pri (procs d' q) = p_pri (procs d q)"
    "setfrontdq d p = Some d' \<Longrightarrow> p_pri (procs d' q) = p_pri (procs d q)"
  by (simp_all add: same_frameD(2) [OF setbackdq_frame] same_frameD(2) [OF setfrontdq_frame])

lemmas agrees_by = enqueue_pri upd_ts_def upd_dsp_def Let_def bind_eq_Some_conv

lemma ts_wakeup_agrees: "ts_wakeup s t = Some s' \<Longrightarrow> pri_agrees s t \<Longrightarrow> pri_agrees s' t"
  using pri_agrees_same [of s' t s] by (auto simp: ts_wakeup_def agrees_by)

lemma ts_setrun_agrees: "ts_setrun s t = Some s' \<Longrightarrow> pri_agrees s t \<Longrightarrow> pri_agrees s' t"
  using pri_agrees_same [of s' t s] by (auto simp: ts_setrun_def agrees_by split: if_splits)

lemma ts_preempt_agrees: "ts_preempt s t = Some s' \<Longrightarrow> pri_agrees s t \<Longrightarrow> pri_agrees s' t"
  using pri_agrees_same [of s' t s] by (auto simp: ts_preempt_def agrees_by split: if_splits)

lemma ts_sleep_agrees: "ts_sleep s t k = Some s' \<Longrightarrow> pri_agrees s' t"
proof -
  have "(f OR TSKPRI) AND TSKPRI = TSKPRI" for f :: u32 by (simp add: bit.conj_disj_distrib2 and.assoc)
  then show "ts_sleep s t k = Some s' \<Longrightarrow> pri_agrees s' t"
    by (auto simp: ts_sleep_def agrees_by pri_agrees_def kpri_def set_pri_def dest: ird_set)
qed

lemma ts_trapret_agrees:
  assumes "ts_inv s Q" "t \<in> set (ts_plist s)" "\<not> onq Q (ts_procp (tsprocs s t))" "ts_trapret s t = Some s'" "pri_agrees s t"
  shows "pri_agrees s' t"
proof (cases "kpri s t")
  case False
  then show ?thesis using assms(4,5) by (simp add: kpri_def ts_trapret_def)
next
  case True
  have "ts_dptbl s' = ts_dptbl s" using ts_trapret_local [OF assms(4)] by (simp add: ts_local_def ts_conf_def)
  with ts_trapret_ok [OF assms(1-3)] True assms(4) show ?thesis
    by (auto simp: kpri_def pri_agrees_def dpe_def)
qed

lemma ts_tick_agrees:
  assumes "ts_inv s Q" "t \<in> set (ts_plist s)" "ts_tick s t = Some s'" "pri_agrees s t"
  shows "pri_agrees s' t"
proof -
  consider "ts_flags (tsprocs s t) AND TSKPRI \<noteq> 0"
    | "ts_flags (tsprocs s t) AND TSKPRI = 0" "s32 (ts_timeleft (tsprocs s t) - 1) = 0"
    | "ts_flags (tsprocs s t) AND TSKPRI = 0" "s32 (ts_timeleft (tsprocs s t) - 1) \<noteq> 0" by blast
  then show ?thesis
  proof cases
    case 1
    then show ?thesis using ts_tick_kernel assms(3,4) by simp
  next
    case 2
    from ts_tick_expired_ok [OF assms(1,2) 2] assms(3) 2(1) show ?thesis
      by (cases "onq Q (ts_procp (tsprocs s t))") (auto simp: pri_agrees_def kpri_def dpe_def)
  next
    case 3
    from ts_tick_running [OF 3] assms(3,4) pri_agrees_same [of s' t s] show ?thesis by (auto simp: upd_ts_def)
  qed
qed

lemma ts_update1_agrees:
  assumes "ts_inv s Q" "t \<in> set (ts_plist s)" "ts_update1 s t = Some s'" "pri_agrees s t"
  shows "pri_agrees s' t"
proof -
  consider "\<not> ages s t" | "ages s t" "s16 (ts_dispwait (tsprocs s t) + 1) \<le> ts_maxwait (dpe s (ts_umdpri (tsprocs s t)))"
    | "ages s t" "s16 (ts_dispwait (tsprocs s t) + 1) > ts_maxwait (dpe s (ts_umdpri (tsprocs s t)))" by linarith
  then show ?thesis
  proof cases
    case 1
    then show ?thesis using assms(3,4) by (simp add: ts_update1_idle)
  next
    case 2
    from ts_update1_waiting [OF assms(1,2) 2] assms(3,4) pri_agrees_same [of s' t s] show ?thesis by (auto simp: upd_ts_def)
  next
    case 3
    have "ts_flags (tsprocs s t) AND TSKPRI = 0" using 3(1) by (simp add: ages_def)
    moreover have "ts_dptbl s' = ts_dptbl s" using ts_update1_local [OF assms(3)] by (simp add: ts_local_def ts_conf_def)
    ultimately show ?thesis
      using ts_update1_boost [OF assms(1,2) 3] assms(3) by (auto simp: pri_agrees_def kpri_def dpe_def split: if_splits)
  qed
qed

lemma ts_update_list_agrees:
  "ts_update_list s ts = Some s' \<Longrightarrow> ts_good s Q \<Longrightarrow> set ts \<subseteq> set (ts_plist s) \<Longrightarrow> pris_agree s'"
proof (induction ts arbitrary: s Q)
  case Nil
  then show ?case by (simp add: ts_good_def)
next
  case (Cons t ts)
  then have g: "ts_inv s Q" "pris_agree s" "t \<in> set (ts_plist s)" by (simp_all add: ts_good_def)
  obtain s1 Q1 where s1: "ts_update1 s t = Some s1" "ts_inv s1 Q1" "ts_frame s s1"
    using ts_update1_ok [OF g(1,3)] by blast
  have "pris_agree s1" by (rule pris_agree_local [OF ts_update1_local [OF s1(1)] g(2,3)]) (rule ts_update1_agrees [OF g(1,3) s1(1)])
  with s1 Cons.prems show ?case by (intro Cons.IH [of s1 Q1]) (auto simp: ts_good_def ts_frame_def)
qed

lemma ts_setumdpri_kpri:
  assumes "ts_setumdpri s t = Some s'"
  shows "kpri s' t = kpri s t"
  using assms by (auto simp: ts_setumdpri_def kpri_def agrees_by split: if_splits prod.splits)

lemma ts_setumdpri_agrees:
  assumes "ts_inv s Q" "t \<in> set (ts_plist s)" "curproc_off s Q" "ts_setumdpri s t = Some s'" "\<not> kpri s t"
  shows "pri_agrees s' t"
proof -
  from ts_setumdpri_obtain [OF assms(1-3)] assms(4) have c: "same_core (tsprocs s' t) (tsprocs s t)"
      "p_pri (procs (dsp s') (ts_procp (tsprocs s t))) = ts_globpri (dpe s (ts_umdpri (tsprocs s t)))" by (metis option.inject)+
  have "ts_dptbl s' = ts_dptbl s" using ts_setumdpri_local [OF assms(4)] by (simp add: ts_local_def ts_conf_def)
  moreover have "\<not> kpri s' t" using ts_setumdpri_kpri [OF assms(4)] assms(5) by simp
  ultimately show ?thesis using c by (simp add: pri_agrees_def same_core_def dpe_def)
qed

section \<open>Runs\<close>

text \<open>
  \<open>offq s p\<close>: the process is on no dispatcher queue. The kernel calls the operations below only in the
  situations their premises name: a process that is put on a queue (\<^verbatim>\<open>ts_wakeup\<close>, \<^verbatim>\<open>ts_setrun\<close>,
  \<^verbatim>\<open>ts_preempt\<close>, \<^verbatim>\<open>ts_forkret\<close>), that goes to sleep or that returns to user mode was sleeping or
  running and is on none; a sleep names one of the kernel's priorities; parameters passed
  \<^verbatim>\<open>ts_parmsin\<close>; a structure and a process new to the class are in no structure of its list; and
  \<^verbatim>\<open>newproc\<close> has copied the parent's \<^verbatim>\<open>p_pri\<close> to the child before \<^verbatim>\<open>CL_FORK\<close>.

  \<^verbatim>\<open>pswtch\<close> is there twice: \<open>swtch\<close> is a whole call that finds a process to run, and
  \<open>giveup\<close>, \<open>idle\<close> and \<open>resume\<close> are its three parts, between which the processor waits and interrupt
  handlers may do any of the other steps.
\<close>

definition offq :: "tsys \<Rightarrow> procp \<Rightarrow> bool" where
  "offq s p \<longleftrightarrow> off_queue (dsp s) p"

lemma offqD: "offq s p \<Longrightarrow> ts_inv s Q \<Longrightarrow> \<not> onq Q p"
  by (simp add: offq_def off_queue_def ts_inv_def)

definition newcomer :: "tsys \<Rightarrow> tsp \<Rightarrow> procp \<Rightarrow> bool" where
  "newcomer s t pp \<longleftrightarrow> t \<notin> set (ts_plist s) \<and> (\<forall>u\<in>set (ts_plist s). ts_procp (tsprocs s u) \<noteq> pp) \<and> pri_ok (dsp s) pp"

inductive ts_step :: "tsys \<Rightarrow> tsys \<Rightarrow> bool" where
  tick: "t \<in> set (ts_plist s) \<Longrightarrow> ts_tick s t = Some s' \<Longrightarrow> ts_step s s'"
| update: "ts_update s = Some s' \<Longrightarrow> ts_step s s'"
| wakeup: "t \<in> set (ts_plist s) \<Longrightarrow> offq s (ts_procp (tsprocs s t)) \<Longrightarrow> ts_wakeup s t = Some s' \<Longrightarrow> ts_step s s'"
| setrun: "t \<in> set (ts_plist s) \<Longrightarrow> offq s (ts_procp (tsprocs s t)) \<Longrightarrow> ts_setrun s t = Some s' \<Longrightarrow> ts_step s s'"
| preempt: "t \<in> set (ts_plist s) \<Longrightarrow> offq s (ts_procp (tsprocs s t)) \<Longrightarrow> ts_preempt s t = Some s' \<Longrightarrow> ts_step s s'"
| swtch: "maxrunpri (dsp s) \<noteq> - 1 \<Longrightarrow> pswtch env sched (dsp s) = Some d \<Longrightarrow> ts_step s (s\<lparr>dsp := d\<rparr>)"
| giveup: "ts_step s (s\<lparr>dsp := pswtch_start (dsp s)\<rparr>)"
| idle: "maxrunpri (dsp s) = - 1 \<Longrightarrow> ts_step s (s\<lparr>dsp := (dsp s)\<lparr>curpri := 0, curproc := sched\<rparr>\<rparr>)"
| resume: "maxrunpri (dsp s) \<noteq> - 1 \<Longrightarrow> pswtch_pick (dsp s) = Some d \<Longrightarrow> ts_step s (s\<lparr>dsp := d\<rparr>)"
| sleep: "t \<in> set (ts_plist s) \<Longrightarrow> offq s (ts_procp (tsprocs s t)) \<Longrightarrow> disp mod 128 \<le> ts_maxkmdpri s \<Longrightarrow>
    ts_sleep s t disp = Some s' \<Longrightarrow> ts_step s s'"
| trapret: "t \<in> set (ts_plist s) \<Longrightarrow> offq s (ts_procp (tsprocs s t)) \<Longrightarrow> ts_trapret s t = Some s' \<Longrightarrow> ts_step s s'"
| parmsset: "t \<in> set (ts_plist s) \<Longrightarrow> offq s (curproc (dsp s)) \<Longrightarrow> parms_valid s pa \<Longrightarrow>
    ts_parmsset s pa t reqcr = Some (Inr s') \<Longrightarrow> ts_step s s'"
| enter: "newcomer s t pp \<Longrightarrow> offq s (curproc (dsp s)) \<Longrightarrow> (\<forall>pa. parms = Some pa \<longrightarrow> parms_valid s pa) \<Longrightarrow>
    ts_enterclass s parms pp (Some t) reqcr = Some (Inr s') \<Longrightarrow> ts_step s s'"
| exit: "ts_step s (ts_exitclass s t)"
| fork: "t \<in> set (ts_plist s) \<Longrightarrow> newcomer s ct cp \<Longrightarrow> p_pri (procs (dsp s) cp) = pri_of s t \<Longrightarrow>
    ts_fork s t cp ct = Some s' \<Longrightarrow> ts_step s s'"
| forkret: "ct \<in> set (ts_plist s) \<Longrightarrow> offq s (ts_procp (tsprocs s ct)) \<Longrightarrow> ts_forkret s ct pt = Some s' \<Longrightarrow> ts_step s s'"
| admin: "(\<forall>tmp. utbl = Some tmp \<longrightarrow> int (length tmp) = ts_maxumdpri s + 1) \<Longrightarrow>
    ts_admin s adm utbl out1 out2 cr = Some (Inr (out, s')) \<Longrightarrow> ts_step s s'"

text \<open>The steps that leave the class's view of its processes as it was.\<close>

lemma pris_agree_same:
  assumes "pris_agree s" "distinct (ts_plist s')" "set (ts_plist s') \<subseteq> set (ts_plist s)" "ts_kmdpris s' = ts_kmdpris s"
    and "\<And>u. u \<in> set (ts_plist s') \<Longrightarrow> ts_procp (tsprocs s' u) = ts_procp (tsprocs s u) \<and> ts_umdpri (tsprocs s' u) = ts_umdpri (tsprocs s u)
      \<and> ts_flags (tsprocs s' u) AND TSKPRI = ts_flags (tsprocs s u) AND TSKPRI \<and> pri_of s' u = pri_of s u
      \<and> ts_globpri (ts_dptbl s' ! nat (ts_umdpri (tsprocs s u))) = ts_globpri (ts_dptbl s ! nat (ts_umdpri (tsprocs s u)))"
  shows "pris_agree s'"
proof -
  have "inj_on (\<lambda>t. ts_procp (tsprocs s t)) (set (ts_plist s'))"
    using assms(1,3) inj_on_subset unfolding pris_agree_def by blast
  then have "inj_on (\<lambda>t. ts_procp (tsprocs s' t)) (set (ts_plist s'))"
    using assms(5) by (simp add: inj_on_def)
  moreover have "pri_agrees s' u" if "u \<in> set (ts_plist s')" for u
    using assms(1,3) assms(4) assms(5) [OF that] that by (auto simp: pris_agree_def pri_agrees_def kpri_def)
  ultimately show ?thesis using assms(2) by (simp add: pris_agree_def)
qed

lemma ts_good_dsp:
  assumes "ts_good s Q" "disp_ok d Q'" "npri d = npri (dsp s)" "\<And>q. p_pri (procs d q) = p_pri (procs (dsp s) q)"
  shows "ts_good (s\<lparr>dsp := d\<rparr>) Q'"
proof -
  have i: "ts_inv s Q" and a: "pris_agree s" using assms(1) by (simp_all add: ts_good_def)
  have pk: "pri_ok d q = pri_ok (dsp s) q" for q using assms(3,4) by (simp add: pri_ok_def)
  have "ts_inv (s\<lparr>dsp := d, tsprocs := (tsprocs s)(t := tsprocs s t)\<rparr>) Q'" for t
    using ts_invD(3) [OF i, of t] assms(2,3) pk by (intro ts_inv_change [OF i]) (auto simp: tsproc_ok_def)
  then have "ts_inv (s\<lparr>dsp := d\<rparr>) Q'" by simp
  moreover have "pris_agree (s\<lparr>dsp := d\<rparr>)"
    by (rule pris_agree_same [OF a]) (use a assms(4) in \<open>simp_all add: pris_agree_def\<close>)
  ultimately show ?thesis by (simp add: ts_good_def)
qed

lemma ts_good_switch:
  assumes "ts_good s Q"
  shows "maxrunpri (dsp s) \<noteq> - 1 \<Longrightarrow> pswtch env sched (dsp s) = Some d \<Longrightarrow> \<exists>Q'. ts_good (s\<lparr>dsp := d\<rparr>) Q'"
    and "\<exists>Q'. ts_good (s\<lparr>dsp := pswtch_start (dsp s)\<rparr>) Q'"
    and "\<exists>Q'. ts_good (s\<lparr>dsp := (dsp s)\<lparr>curpri := x, curproc := sched\<rparr>\<rparr>) Q'"
    and "maxrunpri (dsp s) \<noteq> - 1 \<Longrightarrow> pswtch_pick (dsp s) = Some d \<Longrightarrow> \<exists>Q'. ts_good (s\<lparr>dsp := d\<rparr>) Q'"
proof -
  have ok: "disp_ok (dsp s) Q" using assms ts_invD(1) by (auto simp: ts_good_def)
  show "maxrunpri (dsp s) \<noteq> - 1 \<Longrightarrow> pswtch env sched (dsp s) = Some d \<Longrightarrow> \<exists>Q'. ts_good (s\<lparr>dsp := d\<rparr>) Q'"
  proof -
    assume r: "maxrunpri (dsp s) \<noteq> - 1" "pswtch env sched (dsp s) = Some d"
    from pswtch_spec [OF ok r(1), of env sched] obtain d' Q' where "pswtch env sched (dsp s) = Some d'" "disp_ok d' Q'"
      "npri d' = npri (dsp s)" "\<forall>q. p_pri (procs d' q) = p_pri (procs (dsp s) q)" by blast
    with r(2) show ?thesis using ts_good_dsp [OF assms] by auto
  qed
  show "\<exists>Q'. ts_good (s\<lparr>dsp := pswtch_start (dsp s)\<rparr>) Q'"
    using ts_good_dsp [OF assms pswtch_start_ok(1) [OF ok] pswtch_start_ok(3,4) [OF ok]] by blast
  show "\<exists>Q'. ts_good (s\<lparr>dsp := (dsp s)\<lparr>curpri := x, curproc := sched\<rparr>\<rparr>) Q'"
    using ts_good_dsp [OF assms, of "(dsp s)\<lparr>curpri := x, curproc := sched\<rparr>" Q] ok by (auto simp: disp_ok_flags)
  show "maxrunpri (dsp s) \<noteq> - 1 \<Longrightarrow> pswtch_pick (dsp s) = Some d \<Longrightarrow> \<exists>Q'. ts_good (s\<lparr>dsp := d\<rparr>) Q'"
  proof -
    assume r: "maxrunpri (dsp s) \<noteq> - 1" "pswtch_pick (dsp s) = Some d"
    from maxrunpri_queue [OF ok r(1)] obtain i as p bs where sel: "maxrunpri (dsp s) = int i" "i < npri (dsp s)"
      "Q i = as @ p # bs" "schedulable (procs (dsp s) p)" "\<forall>x\<in>set as. \<not> schedulable (procs (dsp s) x)" by metis
    from pswtch_pick_spec [OF ok sel] r(2) have "disp_ok d (Q(i := as @ bs))" "npri d = npri (dsp s)"
      "\<forall>q. p_pri (procs d q) = p_pri (procs (dsp s) q)" by auto
    then show ?thesis using ts_good_dsp [OF assms] by blast
  qed
qed

text \<open>Each step that may change a priority, with the invariant of \<open>KTs\<close> and the agreement together.\<close>

lemma ts_good_local:
  assumes "ts_good s Q" "ts_inv s' Q'" "ts_local {t} s s'" "t \<in> set (ts_plist s)" "pri_agrees s t \<Longrightarrow> pri_agrees s' t"
  shows "\<exists>Q'. ts_good s' Q'"
  using pris_agree_local [OF assms(3) _ assms(4,5)] assms(1,2) by (auto simp: ts_good_def)

lemma ts_enter_good:
  assumes "ts_good s Q" "newcomer s t pp" "curproc_off s Q" "\<And>pa. parms = Some pa \<Longrightarrow> parms_valid s pa"
    and run: "ts_enterclass s parms pp (Some t) reqcr = Some (Inr s')"
  shows "\<exists>Q'. ts_good s' Q'"
proof -
  have i: "ts_inv s Q" and a: "pris_agree s" using assms(1) by (simp_all add: ts_good_def)
  have n: "t \<notin> set (ts_plist s)" "\<forall>u\<in>set (ts_plist s). ts_procp (tsprocs s u) \<noteq> pp" "pri_ok (dsp s) pp"
    using assms(2) by (auto simp: newcomer_def)
  have nocred: "ts_enterclass s parms pp (Some t) None = Some (Inr s')"
  proof (cases parms)
    case None
    with run show ?thesis by (simp add: ts_enterclass_def)
  next
    case (Some pa)
    with run ts_enterclass_perm [of pa reqcr s pp t] show ?thesis by (cases "ts_enter_denied pa reqcr") auto
  qed
  from ts_enterclass_ok [OF i n(1) assms(4) n(3) assms(3), of parms None] nocred obtain Q' where e: "ts_inv s' Q'"
    "ts_plist s' = t # ts_plist s" "ts_procp (tsprocs s' t) = pp"
    "p_pri (procs (dsp s') pp) = ts_globpri (dpe s (ts_umdpri (tsprocs s' t)))" by auto
  note l = ts_enterclass_local [OF run]
  have tb: "ts_dptbl s' = ts_dptbl s" "ts_kmdpris s' = ts_kmdpris s" using l by (simp_all add: ts_conf_def)
  let ?s = "s'\<lparr>ts_plist := ts_plist s\<rparr>"
  have "pris_agree ?s"
  proof (rule pris_agree_same [OF a])
    fix u assume "u \<in> set (ts_plist ?s)"
    then have "u \<noteq> t" "ts_procp (tsprocs s u) \<noteq> pp" using n by auto
    then show "ts_procp (tsprocs ?s u) = ts_procp (tsprocs s u) \<and> ts_umdpri (tsprocs ?s u) = ts_umdpri (tsprocs s u)
      \<and> ts_flags (tsprocs ?s u) AND TSKPRI = ts_flags (tsprocs s u) AND TSKPRI \<and> pri_of ?s u = pri_of s u
      \<and> ts_globpri (ts_dptbl ?s ! nat (ts_umdpri (tsprocs s u))) = ts_globpri (ts_dptbl s ! nat (ts_umdpri (tsprocs s u)))"
      using l tb by (auto simp: moves_def)
  qed (use a tb in \<open>simp_all add: pris_agree_def\<close>)
  then have old: "distinct (ts_plist s)" "inj_on (\<lambda>u. ts_procp (tsprocs s' u)) (set (ts_plist s))" "\<forall>u\<in>set (ts_plist s). pri_agrees ?s u"
    by (simp_all add: pris_agree_def)
  have agr: "pri_agrees s' u = pri_agrees ?s u" for u by (simp add: pri_agrees_def kpri_def)
  have others: "\<forall>u\<in>set (ts_plist s). ts_procp (tsprocs s' u) \<noteq> pp" using n l by auto
  obtain x s1 where
    "ts_setumdpri (s\<lparr>tsprocs := (tsprocs s)(t := x\<lparr>ts_dispwait := 0, ts_flags := 0, ts_procp := pp\<rparr>), ts_plist := t # ts_plist s\<rparr>) t = Some s1"
    "s' = (if tspexists s1 then s1 else s1\<lparr>ts_timeouts := ts_timeouts s1 + 1, tspexists := True\<rparr>)"
    using run unfolding ts_enterclass_def Let_def
    by (auto simp: bind_eq_Some_conv split: sum.splits split del: if_split)
  then have "\<not> kpri s' t" using ts_setumdpri_kpri by (auto simp: kpri_def)
  then have "pri_agrees s' t" using e tb by (simp add: pri_agrees_def dpe_def)
  then have "pris_agree s'" using old agr others e(2,3) n(1) by (auto simp: pris_agree_def)
  with e(1) show ?thesis by (auto simp: ts_good_def)
qed

lemma ts_fork_good:
  assumes "ts_good s Q" "t \<in> set (ts_plist s)" "newcomer s ct cp" "p_pri (procs (dsp s) cp) = pri_of s t"
    and run: "ts_fork s t cp ct = Some s'"
  shows "\<exists>Q'. ts_good s' Q'"
proof -
  have i: "ts_inv s Q" and a: "pris_agree s" using assms(1) by (simp_all add: ts_good_def)
  have n: "ct \<notin> set (ts_plist s)" "\<forall>u\<in>set (ts_plist s). ts_procp (tsprocs s u) \<noteq> cp" "pri_ok (dsp s) cp"
    using assms(3) by (auto simp: newcomer_def)
  have i': "ts_inv s' Q" using ts_fork_ok [OF i assms(2) n(3), of ct] run by auto
  have pt: "pri_agrees s t" using a assms(2) by (simp add: pris_agree_def)
  obtain x where s': "s' = s\<lparr>tsprocs := (tsprocs s)(ct := x), ts_plist := ct # ts_plist s\<rparr>" "ts_procp x = cp"
    "ts_umdpri x = ts_umdpri (tsprocs s t)" "ts_flags x = ts_flags (tsprocs s t) AND NOT TSBACKQ"
    using run by (auto simp: ts_fork_def bind_eq_Some_conv Let_def)
  have "pri_agrees s' ct" using pt assms(4) s' by (simp add: pri_agrees_def kpri_def)
  moreover have "pri_agrees s' u = pri_agrees s u" "ts_procp (tsprocs s' u) = ts_procp (tsprocs s u)" if "u \<in> set (ts_plist s)" for u
    using that n(1) s' by (auto simp: pri_agrees_def kpri_def)
  ultimately have "pris_agree s'" using a n(1,2) s'(1,2) by (auto simp: pris_agree_def inj_on_def)
  with i' show ?thesis by (auto simp: ts_good_def)
qed

lemma ts_forkret_good:
  assumes "ts_good s Q" "ct \<in> set (ts_plist s)" "\<not> onq Q (ts_procp (tsprocs s ct))" and run: "ts_forkret s ct pt = Some s'"
  shows "\<exists>Q'. ts_good s' Q'"
proof -
  have i: "ts_inv s Q" and a: "pris_agree s" using assms(1) by (simp_all add: ts_good_def)
  obtain Q' where "ts_inv s' Q'" using ts_forkret_ok [OF i assms(2,3), of pt] run by auto
  moreover have "pris_agree s'"
    using run a by (intro pris_agree_same [OF a])
      (auto simp: ts_forkret_def agrees_by pris_agree_def split: option.splits)
  ultimately show ?thesis by (auto simp: ts_good_def)
qed

lemma dptbl_set_globpri: "dptbl_set tbl es = Some tbl' \<Longrightarrow> length es = length tbl \<Longrightarrow> k < length tbl \<Longrightarrow> ts_globpri (tbl' ! k) = ts_globpri (tbl ! k)"
  using dptbl_set_map2 [of tbl es] by (auto simp: dpent_set_def)

lemma ts_admin_result:
  assumes "ts_admin s adm utbl out1 out2 cr = Some (Inr (out, s'))"
  shows "s' = s \<or> (\<exists>tmp tbl. utbl = Some tmp \<and> dptbl_set (ts_dptbl s) tmp = Some tbl \<and> s' = s\<lparr>ts_dptbl := tbl\<rparr>)"
proof (cases utbl)
  case None
  with assms show ?thesis unfolding ts_admin_def Let_def by (simp split: option.split_asm prod.split_asm if_split_asm)
next
  case (Some tmp)
  with assms show ?thesis
    unfolding ts_admin_def Let_def by (simp add: bind_eq_Some_conv split: option.split_asm prod.split_asm if_split_asm) auto
qed

lemma ts_admin_good:
  assumes "ts_good s Q" "\<And>tmp. utbl = Some tmp \<Longrightarrow> int (length tmp) = ts_maxumdpri s + 1"
    and run: "ts_admin s adm utbl out1 out2 cr = Some (Inr (out, s'))"
  shows "\<exists>Q'. ts_good s' Q'"
proof -
  have i: "ts_inv s Q" and a: "pris_agree s" using assms(1) by (simp_all add: ts_good_def)
  note inv = ts_invD [OF i]
  have i': "ts_inv s' Q" using ts_admin_ok [OF i assms(2), of utbl adm out1 out2 cr] run by auto
  have len: "int (length (ts_dptbl s)) = ts_maxumdpri s + 1" using inv(2) by (simp add: ts_cfg_def)
  consider "s' = s" | tmp tbl where "utbl = Some tmp" "dptbl_set (ts_dptbl s) tmp = Some tbl" "s' = s\<lparr>ts_dptbl := tbl\<rparr>"
    using ts_admin_result [OF run] by blast
  then have "pris_agree s'"
  proof cases
    case 2
    have l: "length tmp = length (ts_dptbl s)" using assms(2) [OF 2(1)] len by linarith
    have "nat (ts_umdpri (tsprocs s u)) < length (ts_dptbl s)" if "u \<in> set (ts_plist s)" for u
      using tsproc_okD(6,7) [OF inv(2) inv(3) [OF that]] len by linarith
    then show ?thesis
      using 2(3) dptbl_set_globpri [OF 2(2) l] a by (intro pris_agree_same [OF a]) (simp_all add: pris_agree_def)
  qed (use a in simp)
  with i' show ?thesis by (auto simp: ts_good_def)
qed

lemma ts_parmsset_good:
  assumes "ts_good s Q" "t \<in> set (ts_plist s)" "curproc_off s Q" "parms_valid s pa"
    and run: "ts_parmsset s pa t reqcr = Some (Inr s')"
  shows "\<exists>Q'. ts_good s' Q'"
proof -
  have i: "ts_inv s Q" using assms(1) by (simp add: ts_good_def)
  have perm: "new_lim (tsprocs s t) pa \<le> ts_uprilim (tsprocs s t) \<or> suser cr" if "reqcr = Some cr" for cr
    using ts_parmsset_eperm [OF that, of s t pa] run by (cases "suser cr") force+
  from ts_parmsset_ok [OF i assms(2,4,3) perm] run obtain Q' where r: "ts_inv s' Q'"
    "ts_flags (tsprocs s t) AND TSKPRI = 0 \<longrightarrow> pri_of s' t = ts_globpri (dpe s (ts_umdpri (tsprocs s' t)))" by force
  note l = ts_parmsset_local [OF run]
  have "ts_dptbl s' = ts_dptbl s" "ts_kmdpris s' = ts_kmdpris s" using l by (simp_all add: ts_local_def ts_conf_def)
  moreover have "kpri s' t = kpri s t" "kpri s t \<Longrightarrow> pri_of s' t = pri_of s t"
    using run ts_setumdpri_kpri unfolding ts_parmsset_def Let_def
    by (auto simp: kpri_def upd_ts_def bind_eq_Some_conv TS_NEWUMDPRI_def Let_def split: if_split_asm)
  ultimately have "pri_agrees s t \<Longrightarrow> pri_agrees s' t" using r(2) by (auto simp: pri_agrees_def kpri_def dpe_def)
  from ts_good_local [OF assms(1) r(1) l assms(2) this] show ?thesis .
qed

lemma ts_step_good: "ts_step s s' \<Longrightarrow> ts_good s Q \<Longrightarrow> \<exists>Q'. ts_good s' Q'"
proof (induction rule: ts_step.induct)
  case (tick t s s')
  have i: "ts_inv s Q" using tick.prems by (simp add: ts_good_def)
  obtain Q' where "ts_inv s' Q'" using ts_tick_ok [OF i tick.hyps(1)] tick.hyps(2) by auto
  from ts_good_local [OF tick.prems this ts_tick_local [OF tick.hyps(2)] tick.hyps(1)] ts_tick_agrees [OF i tick.hyps]
  show ?case by blast
next
  case (update s s')
  have i: "ts_inv s Q" using update.prems by (simp add: ts_good_def)
  obtain Q' where Q': "ts_inv s' Q'" using ts_update_ok [OF i] update.hyps by auto
  obtain s1 where s1: "ts_update_list s (ts_plist s) = Some s1"
    "s' = upd_dsp (s1\<lparr>ts_timeouts := ts_timeouts s1 + 1\<rparr>) (\<lambda>d. d\<lparr>runrun := runrun d + 1\<rparr>)"
    using update.hyps by (auto simp: ts_update_def bind_eq_Some_conv)
  have "pris_agree s1" by (rule ts_update_list_agrees [OF s1(1) update.prems order_refl])
  then have "pris_agree s'" by (rule pris_agree_same) (use \<open>pris_agree s1\<close> in \<open>simp_all add: s1(2) upd_dsp_def pris_agree_def\<close>)
  with Q' show ?case by (auto simp: ts_good_def)
next
  case (wakeup t s s')
  have i: "ts_inv s Q" using wakeup.prems by (simp add: ts_good_def)
  obtain Q' where "ts_inv s' Q'" using ts_wakeup_ok [OF i wakeup.hyps(1) offqD [OF wakeup.hyps(2) i]] wakeup.hyps(3) by auto
  from ts_good_local [OF wakeup.prems this ts_wakeup_local [OF wakeup.hyps(3)] wakeup.hyps(1)] ts_wakeup_agrees [OF wakeup.hyps(3)]
  show ?case by blast
next
  case (setrun t s s')
  have i: "ts_inv s Q" using setrun.prems by (simp add: ts_good_def)
  obtain Q' where "ts_inv s' Q'" using ts_setrun_ok [OF i setrun.hyps(1) offqD [OF setrun.hyps(2) i]] setrun.hyps(3) by auto
  from ts_good_local [OF setrun.prems this ts_setrun_local [OF setrun.hyps(3)] setrun.hyps(1)] ts_setrun_agrees [OF setrun.hyps(3)]
  show ?case by blast
next
  case (preempt t s s')
  have i: "ts_inv s Q" using preempt.prems by (simp add: ts_good_def)
  obtain Q' where "ts_inv s' Q'" using ts_preempt_ok [OF i preempt.hyps(1) offqD [OF preempt.hyps(2) i]] preempt.hyps(3) by auto
  from ts_good_local [OF preempt.prems this ts_preempt_local [OF preempt.hyps(3)] preempt.hyps(1)] ts_preempt_agrees [OF preempt.hyps(3)]
  show ?case by blast
next
  case (sleep t s disp s')
  have i: "ts_inv s Q" using sleep.prems by (simp add: ts_good_def)
  obtain Q' where "ts_inv s' Q'" using ts_sleep_ok [OF i sleep.hyps(1) offqD [OF sleep.hyps(2) i] sleep.hyps(3)] sleep.hyps(4) by auto
  from ts_good_local [OF sleep.prems this ts_sleep_local [OF sleep.hyps(4)] sleep.hyps(1)] ts_sleep_agrees [OF sleep.hyps(4)]
  show ?case by blast
next
  case (trapret t s s')
  have i: "ts_inv s Q" using trapret.prems by (simp add: ts_good_def)
  note off = offqD [OF trapret.hyps(2) i]
  obtain Q' where "ts_inv s' Q'"
    using ts_trapret_ok [OF i trapret.hyps(1) off] trapret.hyps(3) i
    by (cases "ts_flags (tsprocs s t) AND TSKPRI = 0") (auto simp: ts_trapret_def)
  from ts_good_local [OF trapret.prems this ts_trapret_local [OF trapret.hyps(3)] trapret.hyps(1)]
    ts_trapret_agrees [OF i trapret.hyps(1) off trapret.hyps(3)]
  show ?case by blast
next
  case (parmsset t s pa reqcr s')
  have "curproc_off s Q" using offqD [OF parmsset.hyps(2)] parmsset.prems by (simp add: curproc_off_def ts_good_def)
  from ts_parmsset_good [OF parmsset.prems parmsset.hyps(1) this parmsset.hyps(3,4)] show ?case .
next
  case (enter s t pp parms reqcr s')
  have "curproc_off s Q" using offqD [OF enter.hyps(2)] enter.prems by (simp add: curproc_off_def ts_good_def)
  from ts_enter_good [OF enter.prems enter.hyps(1) this _ enter.hyps(4)] enter.hyps(3) show ?case by blast
next
  case (exit s t)
  have "ts_inv (ts_exitclass s t) Q" "pris_agree (ts_exitclass s t)"
    using exit ts_exitclass_ok [of s Q t] pris_agree_same [of s "ts_exitclass s t"] set_remove1_subset [of t "ts_plist s"]
    by (auto simp: ts_good_def ts_exitclass_def pris_agree_def)
  then show ?case by (auto simp: ts_good_def)
next
  case (fork t s ct cp s')
  then show ?case using ts_fork_good by blast
next
  case (forkret ct s pt s')
  have "\<not> onq Q (ts_procp (tsprocs s ct))" using offqD [OF forkret.hyps(2)] forkret.prems by (simp add: ts_good_def)
  from ts_forkret_good [OF forkret.prems forkret.hyps(1) this forkret.hyps(3)] show ?case .
next
  case (admin utbl s adm out1 out2 cr out s')
  from ts_admin_good [OF admin.prems _ admin.hyps(2)] admin.hyps(1) show ?case by blast
qed (use ts_good_switch in blast)+

interpretation tsf: facility "\<lambda>s. \<exists>Q. ts_good s Q" ts_step "\<lambda>s. \<exists>Q. ts_good s Q"
  by unfold_locales (use ts_step_good in blast)+

lemma ts_boot_good: "ts_good ts_boot (\<lambda>_. [])"
  using ts_boot_inv by (simp add: ts_good_def pris_agree_def) (simp add: ts_boot_def)

text \<open>The example of \<open>KTs\<close>, its process at the priority of its parameters.\<close>

definition ts_ready :: tsys where
  "ts_ready = ts_example\<lparr>dsp := set_pri (dsp ts_example) 1 29\<rparr>"

lemma ts_ready_sel: "ts_plist ts_ready = [7]" "tsprocs ts_ready t = tsprocs ts_boot t" "dsp ts_ready = set_pri (dsp ts_boot) 1 29"
  "ts_dptbl ts_ready = space_dptbl" "ts_maxumdpri ts_ready = 59" "p_pri (procs (dsp ts_ready) 1) = 29" "pri_of ts_ready 7 = 29"
  by (simp_all add: ts_ready_def ts_example_sel set_pri_def)

lemma ts_ready_good: "ts_good ts_ready (\<lambda>_. [])"
proof -
  note inv = ts_invD [OF ts_example_inv]
  have np: "npri (dsp ts_boot) = 100" by (simp add: ts_boot_def example_dispinit)
  have "disp_ok (set_pri (dsp ts_example) 1 29) (\<lambda>_. [])" using disp_ok_set_pri [OF inv(1)] by (simp add: onq_def)
  moreover have "tsproc_ok (ts_example\<lparr>dsp := set_pri (dsp ts_example) 1 29\<rparr>) (tsprocs ts_example 7)"
    using inv(3) [of 7] np by (simp add: ts_example_sel tsproc_ok_def pri_ok_def set_pri_def)
  ultimately have "ts_inv (ts_example\<lparr>dsp := set_pri (dsp ts_example) 1 29, tsprocs := (tsprocs ts_example)(7 := tsprocs ts_example 7)\<rparr>) (\<lambda>_. [])"
    using np pri_ok_set_pri by (intro ts_inv_change [OF ts_example_inv]) (auto simp: ts_example_sel pri_ok_def set_pri_def)
  then have "ts_inv ts_ready (\<lambda>_. [])" by (simp add: ts_ready_def)
  moreover have "pri_agrees ts_ready 7"
    by (simp add: pri_agrees_def kpri_def ts_ready_sel) (simp add: ts_boot_def set_pri_def space_dptbl_def dptbl_rows_def)
  ultimately show ?thesis by (simp add: ts_good_def pris_agree_def ts_ready_sel)
qed

section \<open>Property\<close>

text \<open>
  C21: in every state that the class and the dispatcher reach from a good one by ticks (whatever is
  left of the time slice), the periodic update, wake-ups, set-runs, preemptions, process switches
  (whole ones, or in their parts with anything in between while the processor idles), sleeps, returns
  to user mode, parameter changes, class entry (with any parameters and credentials) and exit, forks
  and table changes, in any order, the queues hold exactly the processes their links say, and the
  counters, the bitmap and \<^verbatim>\<open>maxrunpri\<close> agree with them; no process has two structures; and the global
  priority stored in each process (\<^verbatim>\<open>p_pri\<close>) is the one its parameters give: at a user mode priority,
  that of the table's entry for the sum of its system component and its user priority cut to the
  table, at a kernel mode priority one of the kernel's. The situations in which the kernel calls an
  operation are the premises of \<open>ts_step\<close>.
\<close>

theorem ts_reachable_inv:
  assumes "ts_step\<^sup>*\<^sup>* s s'" "\<exists>Q. ts_good s Q"
  shows "\<exists>Q'. ts_inv s' Q' \<and> disp_ok (dsp s') Q' \<and> distinct (map (\<lambda>t. ts_procp (tsprocs s' t)) (ts_plist s'))
     \<and> (\<forall>t\<in>set (ts_plist s'). let x = tsprocs s' t; pri = p_pri (procs (dsp s') (ts_procp x)) in
          if ts_flags x AND TSKPRI = 0
          then pri = ts_globpri (ts_dptbl s' ! nat (min (ts_maxumdpri s') (max 0 (ts_cpupri x + ts_upri x))))
          else pri \<in> set (ts_kmdpris s'))"
proof -
  obtain Q' where "ts_good s' Q'" using tsf.runs_keep [OF assms] by blast
  then have i: "ts_inv s' Q'" and a: "pris_agree s'" by (simp_all add: ts_good_def)
  note inv = ts_invD [OF i]
  have cl: "ts_umdpri (tsprocs s' t) = min (ts_maxumdpri s') (max 0 (ts_cpupri (tsprocs s' t) + ts_upri (tsprocs s' t)))"
    if "t \<in> set (ts_plist s')" for t
    using inv(3) [OF that] ts_cfgD(1) [OF inv(2)] by (auto simp: tsproc_ok_def clamp_def)
  have "distinct (map (\<lambda>t. ts_procp (tsprocs s' t)) (ts_plist s'))" using a by (simp add: pris_agree_def distinct_map)
  then show ?thesis
    using i inv(1) a cl by (intro exI [of _ Q']) (simp add: pris_agree_def pri_agrees_def kpri_def Let_def)
qed

theorem ts_reachable_inv_witness:
  "\<exists>s'. ts_step\<^sup>*\<^sup>* ts_ready s' \<and> ts_plist s' = [7] \<and> ts_cpupri (tsprocs s' 7) = 19 \<and> p_pri (procs (dsp s') 1) = 19"
proof -
  have i: "ts_inv ts_ready (\<lambda>_. [])" using ts_ready_good by (simp add: ts_good_def)
  have "s32 (ts_timeleft (tsprocs ts_ready 7) - 1) = 0" by (simp add: ts_ready_sel ts_example_sel s32_def)
  then obtain s' where s': "ts_tick ts_ready 7 = Some s'" "ts_cpupri (tsprocs s' 7) = 19" "ts_upri (tsprocs s' 7) = 0"
      "ts_flags (tsprocs s' 7) = TSBACKQ" "ts_procp (tsprocs s' 7) = 1"
    using ts_tick_expired_ok [OF i, of 7]
    by (auto simp: ts_ready_sel ts_example_sel onq_def dpe_def space_dptbl_def dptbl_rows_def)
  then have "ts_step ts_ready s'" by (intro ts_step.tick) (simp_all add: ts_ready_sel ts_example_sel)
  then have run: "ts_step\<^sup>*\<^sup>* ts_ready s'" by simp
  have conf: "ts_plist s' = [7]" "ts_dptbl s' = space_dptbl" "ts_maxumdpri s' = 59"
    using ts_tick_local [OF s'(1)] by (simp_all add: ts_local_def ts_conf_def ts_ready_sel ts_example_sel)
  have "\<exists>Q. ts_good ts_ready Q" using ts_ready_good by blast
  from ts_reachable_inv [OF run this] have "p_pri (procs (dsp s') 1) = ts_globpri (space_dptbl ! nat (min 59 (max 0 19)))"
    using s'(2-5) conf by (auto simp: Let_def)
  then show ?thesis using run conf(1) s'(2) by (auto simp: space_dptbl_def dptbl_rows_def)
qed

end
