(* ===== verification/KTsAge.thy ===== *)
theory KTsAge
  imports KTsRun
begin

text \<open>
  The aging of \<^verbatim>\<open>ts_update\<close> over any number of its calls: what one call does to a process that waits, and
  why no waiting process starves with the table of \<^verbatim>\<open>space.c\<close>.
\<close>

section \<open>One call\<close>




section \<open>Waiting\<close>














section \<open>Property\<close>




end
