(* ===== verification/KRtProp.thy ===== *)
theory KRtProp
  imports KRtInv
begin

text \<open>
  Properties of the real-time class: time slices and round robin, entry into the class and its errors,
  parameters and their conversion, nominations for swapping.
\<close>

section \<open>Example states\<close>

lemma rtdptbl_ok: "list_all (\<lambda>e. 100 \<le> rt_globpri e \<and> rt_globpri e < 160 \<and> 0 < rt_quantum e) space_rtdptbl"
  by code_simp

definition rt_boot :: rtsys where
  "rt_boot = \<lparr>rdsp = set_pri (dispinit [99, 159] example_disp) 1 105,
     rtprocs = (\<lambda>_. \<lparr>rt_pquantum = 3, rt_timeleft = 3, rt_pri = 5, rt_flags = 0, rt_procp = 1\<rparr>),
     rt_plist = [], rt_dptbl = space_rtdptbl, rt_maxpri = 59, rt_cid = 2\<rparr>"

lemma dispinit2: "npri (dispinit [99, 159] d) = 160" "procs (dispinit [99, 159] d) = procs d" "curproc (dispinit [99, 159] d) = curproc d"
  by (simp_all add: dispinit_def Let_def)

lemma rt_boot_inv: "rt_inv rt_boot (\<lambda>_. [])"
proof -
  have "disp_ok (rdsp rt_boot) (\<lambda>_. [])"
    unfolding rt_boot_def using disp_ok_set_pri [OF dispinit_spec [of "[99, 159]" example_disp]] by (simp add: onq_def)
  moreover have "rt_cfg rt_boot"
    using rtdptbl_ok unfolding rt_cfg_def
    by (auto simp: rt_boot_def disp_simps dispinit2 list_all_iff rtdpent_bad_def) (auto simp: space_rtdptbl_def)
  ultimately show ?thesis by (simp add: rt_inv_def rt_list_ok_def) (simp add: rt_boot_def)
qed

definition rt_example :: rtsys where
  "rt_example = rt_boot\<lparr>rtprocs := (rtprocs rt_boot)(7 := rtprocs rt_boot 7), rt_plist := [7]\<rparr>"

lemma rt_boot_sel: "rtprocs rt_boot t = \<lparr>rt_pquantum = 3, rt_timeleft = 3, rt_pri = 5, rt_flags = 0, rt_procp = 1\<rparr>"
  "p_pri (procs (rdsp rt_boot) 1) = 105" "rt_maxpri rt_boot = 59" "rt_cid rt_boot = 2" "rt_plist rt_boot = []"
  "curproc (rdsp rt_boot) = 0" "rt_globpri (rdpe rt_boot 5) = 105"
  "p_flag (procs (rdsp rt_boot) q) = SLOAD" "p_stat (procs (rdsp rt_boot) q) = SRUN" "npri (rdsp rt_boot) = 160"
  "q \<noteq> 1 \<Longrightarrow> p_pri (procs (rdsp rt_boot) q) = p_pri (idle_proc q)" 
  by (simp_all add: rt_boot_def set_pri_def dispinit2 example_disp_ok rdpe_def space_rtdptbl_def) (simp_all add: idle_proc_def)

lemma rt_example_inv: "rt_inv rt_example (\<lambda>_. [])"
proof -
  have "rtproc_ok rt_boot (rtprocs rt_boot 7)" by (simp add: rtproc_ok_def rt_boot_sel rt_boot_sel(2) [simplified])
  from rt_inv_add [OF rt_boot_inv _ this, of 7] show ?thesis
    by (simp add: rt_fresh_def rt_boot_sel(5) rt_example_def)
qed

lemma rt_example_sel: "rt_plist rt_example = [7]" "rtprocs rt_example t = rtprocs rt_boot t" "rdsp rt_example = rdsp rt_boot"
  "rt_maxpri rt_example = 59" "rt_cid rt_example = 2"
  by (simp_all add: rt_example_def rt_boot_sel)

section \<open>Time slices\<close>

lemma rt_tick_early:
  assumes "rt_pquantum (rtprocs s t) \<noteq> RT_TQINF" "rt_timeleft (rtprocs s t) = int n" "n < 2147483648" "k < n"
  defines "s' \<equiv> ((\<lambda>s. rt_tick s t) ^^ k) s"
  shows "rdsp s' = rdsp s" "rtprocs s' t = (rtprocs s t)\<lparr>rt_timeleft := int (n - k)\<rparr>" "rt_plist s' = rt_plist s"
  unfolding s'_def rt_tick_count [OF assms(1-4)] by (simp_all add: upd_rt_def)

lemma rt_ticks_inv: "rt_inv s Q \<Longrightarrow> rt_inv (((\<lambda>s. rt_tick s t) ^^ k) s) Q"
  by (induction k) (simp_all add: rt_tick_ok)

lemma rt_tick_last:
  assumes "rt_pquantum (rtprocs s t) \<noteq> RT_TQINF" "rt_timeleft (rtprocs s t) = int n" "0 < n" "n < 2147483648"
  defines "s' \<equiv> ((\<lambda>s. rt_tick s t) ^^ n) s"
  shows "rdsp s' = kpreempt (rdsp s)"
    "rtprocs s' t = (rtprocs s t)\<lparr>rt_timeleft := 0, rt_flags := rt_flags (rtprocs s t) OR RTBACKQ\<rparr>" "rt_plist s' = rt_plist s"
proof -
  obtain m where m: "n = Suc m" using assms(3) by (cases n) auto
  have z: "s32 0 = 0" by (simp add: s32_def)
  have "((\<lambda>s. rt_tick s t) ^^ m) s = upd_rt s t (\<lambda>x. x\<lparr>rt_timeleft := 1\<rparr>)"
    using rt_tick_count [OF assms(1,2,4), of m] m by simp
  then have "s' = rt_tick (upd_rt s t (\<lambda>x. x\<lparr>rt_timeleft := 1\<rparr>)) t" by (simp add: s'_def m)
  then show "rdsp s' = kpreempt (rdsp s)"
    "rtprocs s' t = (rtprocs s t)\<lparr>rt_timeleft := 0, rt_flags := rt_flags (rtprocs s t) OR RTBACKQ\<rparr>" "rt_plist s' = rt_plist s"
    using assms(1) by (simp_all add: rt_tick_def upd_rt_def upd_rdsp_def Let_def z)
qed

text \<open>
  C7: round robin. A process of the real-time class that starts a quantum of \<open>n\<close> ticks and runs is not
  asked to give up the processor by its first \<open>n - 1\<close> ticks; if it is preempted after \<open>k < n\<close> of them it
  goes to the front of its queue with \<open>n - k\<close> ticks left. Its \<open>n\<close>-th tick asks for preemption, also in the
  kernel, and \<^verbatim>\<open>rt_preempt\<close> then puts it on the back of the queue of its priority with a full
  quantum. The invariants hold throughout.
\<close>

theorem rt_round_robin:
  assumes "rt_inv s Q" "t \<in> set (rt_plist s)" "\<not> onq Q (rt_procp (rtprocs s t))" "rt_flags (rtprocs s t) AND RTBACKQ = 0"
    and "rt_pquantum (rtprocs s t) = int n" "rt_timeleft (rtprocs s t) = int n" "0 < n" "n < 2147483648"
  shows "(\<forall>k<n. let s' = ((\<lambda>s. rt_tick s t) ^^ k) s in runrun (rdsp s') = runrun (rdsp s)
       \<and> (\<exists>s''. rt_preempt s' t = Some s'' \<and> rt_inv s'' (rt_front Q s t) \<and> rt_timeleft (rtprocs s'' t) = int (n - k)))
    \<and> (let s' = ((\<lambda>s. rt_tick s t) ^^ n) s in runrun (rdsp s') = runrun (rdsp s) + 1 \<and> kprunrun (rdsp s') = kprunrun (rdsp s) + 1
       \<and> (\<exists>s''. rt_preempt s' t = Some s'' \<and> rt_inv s'' (rt_back Q s t) \<and> rt_timeleft (rtprocs s'' t) = int n
            \<and> rt_flags (rtprocs s'' t) AND RTBACKQ = 0))"
proof -
  have fin: "rt_pquantum (rtprocs s t) \<noteq> RT_TQINF" using assms(5) by simp
  let ?S = "\<lambda>k. ((\<lambda>s. rt_tick s t) ^^ k) s"
  have early: "runrun (rdsp (?S k)) = runrun (rdsp s) \<and> (\<exists>s''. rt_preempt (?S k) t = Some s'' \<and> rt_inv s'' (rt_front Q s t)
       \<and> rt_timeleft (rtprocs s'' t) = int (n - k))" if "k < n" for k
  proof -
    note e = rt_tick_early [OF fin assms(6,8) that]
    have "t \<in> set (rt_plist (?S k))" "\<not> onq Q (rt_procp (rtprocs (?S k) t))" using e assms(2,3) by simp_all
    moreover have "rt_front Q (?S k) t = rt_front Q s t" "\<not> rt_goes_back (rtprocs (?S k) t)"
      using e assms(4) by (simp_all add: rt_front_def rt_proc_def rt_goes_back_def)
    ultimately show ?thesis using rt_preempt_ok [OF rt_ticks_inv [OF assms(1)], where t = t] e by fastforce
  qed
  note l = rt_tick_last [OF fin assms(6,7,8)]
  have "t \<in> set (rt_plist (?S n))" "\<not> onq Q (rt_procp (rtprocs (?S n) t))" using l assms(2,3) by simp_all
  moreover have "rt_back Q (?S n) t = rt_back Q s t" "rt_goes_back (rtprocs (?S n) t)"
    using l flag_set by (simp_all add: rt_back_def rt_proc_def rt_goes_back_def)
  ultimately have "\<exists>s''. rt_preempt (?S n) t = Some s'' \<and> rt_inv s'' (rt_back Q s t) \<and> rt_timeleft (rtprocs s'' t) = int n
      \<and> rt_flags (rtprocs s'' t) AND RTBACKQ = 0"
    using rt_preempt_ok [OF rt_ticks_inv [OF assms(1)], where t = t] l assms(5) by fastforce
  with early l(1) show ?thesis by (simp add: Let_def)
qed

theorem rt_round_robin_witness:
  "\<exists>s''. rt_preempt (((\<lambda>s. rt_tick s 7) ^^ 3) rt_example) 7 = Some s'' \<and> rt_timeleft (rtprocs s'' 7) = 3"
  using rt_round_robin [OF rt_example_inv, of 7 3] by (auto simp: rt_example_sel rt_boot_sel onq_def Let_def)

section \<open>Entry and parameters\<close>

lemma rt_example_off: "\<not> onq (\<lambda>_. []) p"
  by (simp add: onq_def)

lemma rt_example_unloaded: "unloaded_ok (rdsp rt_example) (\<lambda>_. []) 2"
  by (simp add: unloaded_ok_def onq_def rt_example_sel rt_boot_sel)

text \<open>
  C8: \<^verbatim>\<open>rt_enterclass\<close> reports \<^verbatim>\<open>EPERM\<close>, \<^verbatim>\<open>ENOMEM\<close> or \<^verbatim>\<open>EAGAIN\<close> in exactly the cases of \<open>rt_enter_err\<close>,
  and then the class's list, its structures and the priority of the process are as they were. Otherwise the process is in
  core, has a structure at the head of the list with the requested priority and quantum (or the
  lowest priority and the table's quantum), and its dispatcher priority is the table's. In every case
  the invariants hold, no other process changes and the process keeps its place on or off a queue.
\<close>

theorem rt_enterclass_total:
  fixes memlow swapok :: bool and reqcr :: "cred option"
  assumes "rt_inv s Q" "unloaded_ok (rdsp s) Q pp" "pri_ok (rdsp s) pp" "\<not> onq Q (curproc (rdsp s))"
    and "\<And>t. new = Some t \<Longrightarrow> rt_fresh s t pp" "\<And>k. parms = Some k \<Longrightarrow> kparms_valid s k"
  defines "err \<equiv> rt_enter_err (procs (rdsp s) pp) memlow swapok new reqcr"
  shows "\<exists>s' Q'. rt_enterclass s parms pp memlow swapok new reqcr = Some (err, s') \<and> rt_inv s' Q'
     \<and> (\<forall>q. onq Q' q \<longleftrightarrow> onq Q q) \<and> touches pp (rdsp s) (rdsp s')
     \<and> (err \<noteq> None \<longrightarrow> rt_plist s' = rt_plist s \<and> rtprocs s' = rtprocs s \<and> p_pri (procs (rdsp s') pp) = p_pri (procs (rdsp s) pp))
     \<and> (err = None \<longrightarrow> rt_plist s' = the new # rt_plist s \<and> rt_procp (rtprocs s' (the new)) = pp
          \<and> rt_pri (rtprocs s' (the new)) = parms_pri parms \<and> rt_pquantum (rtprocs s' (the new)) = parms_quantum s parms
          \<and> p_pri (procs (rdsp s') pp) = rt_globpri (rdpe s (parms_pri parms)) \<and> p_flag (procs (rdsp s') pp) AND SLOAD \<noteq> 0)"
proof -
  from rt_enterclass_ok [OF assms(1-6), of new parms memlow swapok reqcr] obtain s' Q' where
    r: "rt_enterclass s parms pp memlow swapok new reqcr = Some (err, s') \<and> rt_inv s' Q' \<and> (\<forall>q. onq Q' q \<longleftrightarrow> onq Q q)
     \<and> touches pp (rdsp s) (rdsp s')
     \<and> (if err = None
        then rt_plist s' = the new # rt_plist s \<and> (\<forall>u. u \<noteq> the new \<longrightarrow> rtprocs s' u = rtprocs s u)
          \<and> rt_procp (rtprocs s' (the new)) = pp \<and> rt_pri (rtprocs s' (the new)) = parms_pri parms
          \<and> rt_pquantum (rtprocs s' (the new)) = parms_quantum s parms
          \<and> p_pri (procs (rdsp s') pp) = rt_globpri (rdpe s (parms_pri parms))
          \<and> p_flag (procs (rdsp s') pp) AND SLOAD \<noteq> 0
        else rt_plist s' = rt_plist s \<and> rtprocs s' = rtprocs s \<and> p_pri (procs (rdsp s') pp) = p_pri (procs (rdsp s) pp))"
    unfolding err_def by blast
  then show ?thesis by (intro exI [of _ s'] exI [of _ Q']) (auto split: if_splits)
qed

theorem rt_enterclass_total_witness:
  "(\<exists>s'. rt_enterclass rt_example (Some \<lparr>rk_pri = 30, rk_tqntm = 5\<rparr>) 2 False True (Some 8) None = Some (None, s')
      \<and> p_pri (procs (rdsp s') 2) = 130 \<and> rt_plist s' = [8, 7] \<and> rt_pquantum (rtprocs s' 8) = 5)
   \<and> (\<exists>s'. rt_enterclass rt_example None 2 False True None None = Some (Some ENOMEM, s') \<and> rt_plist s' = [7])"
proof -
  let ?k = "\<lparr>rk_pri = 30, rk_tqntm = 5\<rparr>"
  have pk: "pri_ok (rdsp rt_example) 2" by (simp add: pri_ok_def rt_example_sel rt_boot_sel idle_proc_def)
  have fr: "rt_fresh rt_example 8 2" by (simp add: rt_fresh_def rt_example_sel rt_boot_sel)
  have e: "rt_globpri (rdpe rt_example 30) = 130"
    by (simp add: rdpe_def rt_example_def rt_boot_def space_rtdptbl_def)
  note t = rt_enterclass_total [OF rt_example_inv rt_example_unloaded pk rt_example_off]
  have sl: "p_flag (procs (rdsp rt_example) 2) AND SLOAD \<noteq> 0" by (simp add: rt_example_sel rt_boot_sel)
  have "\<exists>s'. rt_enterclass rt_example (Some ?k) 2 False True (Some 8) None = Some (None, s')
      \<and> p_pri (procs (rdsp s') 2) = 130 \<and> rt_plist s' = [8, 7] \<and> rt_pquantum (rtprocs s' 8) = 5"
    using t [of "Some 8" "Some ?k" False True None] fr e sl
    by (auto simp: kparms_valid_def rt_example_sel rt_enter_err_def parms_pri_def parms_quantum_def)
  moreover have "\<exists>s'. rt_enterclass rt_example None 2 False True None None = Some (Some ENOMEM, s') \<and> rt_plist s' = [7]"
    using t [of None None False True None] sl by (auto simp: rt_enter_err_def rt_example_sel)
  ultimately show ?thesis by blast
qed

text \<open>
  C9: \<^verbatim>\<open>rt_parmsset\<close> refuses a caller of another class who is not the super-user with \<^verbatim>\<open>EPERM\<close> and
  otherwise always succeeds: the process has the requested priority and quantum, an absent one being
  kept and \<^verbatim>\<open>RT_TQDEF\<close> standing for the table's quantum of the new priority; its dispatcher priority is
  the table's; a queued process is on the queue of the new priority; the rest is untouched.
\<close>

theorem rt_parmsset_effect:
  assumes "rt_inv s Q" "t \<in> set (rt_plist s)" "kparms_valid s k" "\<not> onq Q (curproc (rdsp s))"
  shows "if rt_denied s reqpcid reqcr then rt_parmsset s k t reqpcid reqcr = Some (Inl EPERM)
    else \<exists>s' Q'. rt_parmsset s k t reqpcid reqcr = Some (Inr s') \<and> rt_inv s' Q' \<and> (\<forall>q. onq Q' q \<longleftrightarrow> onq Q q)
      \<and> touches (rt_procp (rtprocs s t)) (rdsp s) (rdsp s') \<and> same_but t s s'
      \<and> rt_pri (rtprocs s' t) = new_rtpri (rtprocs s t) k \<and> rt_pquantum (rtprocs s' t) = new_quantum s (rtprocs s t) k
      \<and> p_pri (procs (rdsp s') (rt_procp (rtprocs s t))) = rt_globpri (rdpe s (new_rtpri (rtprocs s t) k))"
  using rt_parmsset_ok [OF assms, of reqpcid reqcr] by (cases "rt_denied s reqpcid reqcr") auto

theorem rt_parmsset_effect_witness:
  "\<exists>s'. rt_parmsset rt_example \<lparr>rk_pri = 30, rk_tqntm = RT_TQDEF\<rparr> 7 0 None = Some (Inr s')
     \<and> rt_pquantum (rtprocs s' 7) = 40 \<and> p_pri (procs (rdsp s') 1) = 130"
proof -
  let ?k = "\<lparr>rk_pri = 30, rk_tqntm = RT_TQDEF\<rparr>"
  have e: "rdpe rt_example 30 = \<lparr>rt_globpri = 130, rt_quantum = 40\<rparr>"
    by (simp add: rdpe_def rt_example_def rt_boot_def space_rtdptbl_def)
  show ?thesis
    using rt_parmsset_effect [OF rt_example_inv, of 7 ?k 0 None] rt_example_off e
    by (auto simp: rt_denied_def kparms_valid_def rt_example_sel rt_boot_sel new_rtpri_def new_quantum_def)
qed

section \<open>Conversion of parameters\<close>

text \<open>
  What \<^verbatim>\<open>rt_parmsin\<close> refuses as invalid, the permission it asks for, and the ticks of a time: the
  fraction of a second rounded up.
\<close>

definition rt_parms_bad :: "rtsys \<Rightarrow> rtparms \<Rightarrow> bool" where
  "rt_parms_bad s p \<longleftrightarrow> (rp_pri p < 0 \<or> rp_pri p > rt_maxpri s) \<and> rp_pri p \<noteq> RT_NOCHANGE
     \<or> rp_tqsecs p = 0 \<and> rp_tqnsecs p = 0 \<or> rp_tqnsecs p \<ge> 1000000000
     \<or> rp_tqnsecs p < 0 \<and> rp_tqnsecs p \<notin> {RT_NOCHANGE, RT_TQINF, RT_TQDEF}"

definition rt_parmsin_denied :: "rtsys \<Rightarrow> int \<Rightarrow> cred option \<Rightarrow> int \<Rightarrow> bool" where
  "rt_parmsin_denied s reqpcid reqcr targpcid \<longleftrightarrow> reqcr \<noteq> None \<and> cr_uid (the reqcr) \<noteq> 0 \<and> (targpcid = rt_cid s \<longrightarrow> reqpcid \<noteq> rt_cid s)"

definition rt_ticks :: "rtparms \<Rightarrow> nat" where
  "rt_ticks p = unat (rp_tqsecs p) * 100 + (nat (rp_tqnsecs p) * 100 + 999999999) div 1000000000"

lemma unat_nanos: "0 \<le> n \<Longrightarrow> n < 1000000000 \<Longrightarrow> unat (word_of_int n :: u32) = nat n"
  by (simp add: unat_eq_nat_uint uint_word_of_int)

lemma rt_parmsin_hz:
  assumes "0 \<le> rp_tqnsecs p" "rp_tqnsecs p < 1000000000" "rt_ticks p < 2 ^ 31"
  shows "hrt_tohz \<lparr>hrt_secs = rp_tqsecs p, hrt_rem = word_of_int (rp_tqnsecs p), hrt_res = NANOSEC\<rparr> HRT_RNDUP =
    Some (None, \<lparr>hrt_secs = 0, hrt_rem = word_of_nat (rt_ticks p), hrt_res = 100\<rparr>)"
proof -
  let ?n = "word_of_int (rp_tqnsecs p) :: u32"
  have n: "unat ?n = nat (rp_tqnsecs p)" "nat (rp_tqnsecs p) < 1000000000" using unat_nanos assms(1,2) by auto
  then have lt: "?n div NANOSEC = 0" by (simp add: unat_eq unat_div)
  have f: "unat (rp_tqsecs p) * 100 + rounded HRT_RNDUP (unat ?n mod 1000000000 * 100) 1000000000 = rt_ticks p"
    using n by (simp add: rt_ticks_def rounded_def)
  have b: "rt_ticks p < 2147483648" "unat (rp_tqsecs p) * 100 \<le> rt_ticks p" using assms(3) by (simp_all add: rt_ticks_def)
  then have "\<not> (4294967296 \<le> unat (rp_tqsecs p) * 100 \<or> rt_ticks p mod 4294967296 = 4294967296 - 1)" by simp
  then show ?thesis
    using hrt_tohz_ok [of "\<lparr>hrt_secs = rp_tqsecs p, hrt_rem = ?n, hrt_res = NANOSEC\<rparr>" HRT_RNDUP] f lt
    by (simp del: of_nat_add of_nat_mult)
qed

lemma ceil_bounds:
  fixes a r :: nat
  assumes "0 < r"
  shows "a \<le> (a + (r - 1)) div r * r" "(a + (r - 1)) div r * r < a + r"
proof -
  have "(a + (r - 1)) div r * r + (a + (r - 1)) mod r = a + (r - 1)" "(a + (r - 1)) mod r < r" using assms by simp_all
  with assms show "a \<le> (a + (r - 1)) div r * r" "(a + (r - 1)) div r * r < a + r" by linarith+
qed

lemma sint_ticks: "n < 2 ^ 31 \<Longrightarrow> sint (word_of_nat n :: u32) = int n"
  by (simp add: sint_uint uint_nat unat_of_nat take_bit_nat_eq_self_iff signed_take_bit_int_eq_self_iff)

lemma rt_parmsin_eq:
  assumes "rt_ticks p < 2 ^ 31"
  shows "rt_parmsin s p reqpcid reqcr targpcid = Some
    (if rt_parms_bad s p then Inl EINVAL
     else if rt_parmsin_denied s reqpcid reqcr targpcid then Inl EPERM
     else Inr \<lparr>rk_pri = rp_pri p, rk_tqntm = (if rp_tqnsecs p < 0 then rp_tqnsecs p else int (rt_ticks p))\<rparr>)"
proof (cases "rt_parms_bad s p")
  case True
  then show ?thesis by (auto simp: rt_parms_bad_def rt_parmsin_def)
next
  case False
  let ?tq = "if rp_tqnsecs p < 0 then rp_tqnsecs p else int (rt_ticks p)"
  let ?k = "\<lparr>rk_pri = rp_pri p, rk_tqntm = ?tq\<rparr>"
  have den: "(case reqcr of None \<Rightarrow> Inr ?k
           | Some cr \<Rightarrow> if targpcid = rt_cid s then if reqpcid \<noteq> rt_cid s \<and> \<not> suser cr then Inl EPERM else Inr ?k
               else if \<not> suser cr then Inl EPERM else Inr ?k)
      = (if rt_parmsin_denied s reqpcid reqcr targpcid then Inl EPERM else Inr ?k)"
    by (cases reqcr) (auto simp: rt_parmsin_denied_def suser_def)
  have hz: "rp_tqnsecs p \<ge> 0 \<Longrightarrow> hrt_tohz \<lparr>hrt_secs = rp_tqsecs p, hrt_rem = word_of_int (rp_tqnsecs p), hrt_res = NANOSEC\<rparr> HRT_RNDUP =
    Some (None, \<lparr>hrt_secs = 0, hrt_rem = word_of_nat (rt_ticks p), hrt_res = 100\<rparr>)"
    using rt_parmsin_hz assms False by (simp add: rt_parms_bad_def)
  have q: "(if rp_tqnsecs p \<ge> 0 then do {
              (e, h) \<leftarrow> hrt_tohz \<lparr>hrt_secs = rp_tqsecs p, hrt_rem = word_of_int (rp_tqnsecs p), hrt_res = NANOSEC\<rparr> HRT_RNDUP;
              Some (case e of Some e \<Rightarrow> Inl e | None \<Rightarrow> Inr (sint (hrt_rem h))) }
            else Some (if rp_tqnsecs p \<noteq> RT_NOCHANGE \<and> rp_tqnsecs p \<noteq> RT_TQINF \<and> rp_tqnsecs p \<noteq> RT_TQDEF
                       then Inl EINVAL else Inr (rp_tqnsecs p))) = Some (Inr ?tq :: errno + int)"
    using False hz sint_ticks [OF assms] by (auto simp: rt_parms_bad_def)
  have g: "\<not> ((rp_pri p < 0 \<or> rp_pri p > rt_maxpri s) \<and> rp_pri p \<noteq> RT_NOCHANGE)"
    "\<not> (rp_tqsecs p = 0 \<and> rp_tqnsecs p = 0 \<or> rp_tqnsecs p \<ge> 1000000000)" using False by (auto simp: rt_parms_bad_def)
  show ?thesis
    unfolding rt_parmsin_def if_not_P [OF g(1)] if_not_P [OF g(2)] if_not_P [OF False] q bind.bind_lunit sum.case Let_def den ..
qed

text \<open>
  \<^verbatim>\<open>rt_parmsin\<close> checks, in this order, the priority, the time and the permission, for every request
  whose quantum is below \<open>2 ^ 31\<close> ticks: \<^verbatim>\<open>EINVAL\<close> and \<^verbatim>\<open>EPERM\<close> come exactly when they are due, and otherwise
  the quantum in ticks is the time rounded up, so at least one tick and less than a tick too long.
\<close>

theorem rt_parmsin_checks:
  assumes "rt_ticks p < 2 ^ 31"
  shows "rt_parmsin s p reqpcid reqcr targpcid = Some
    (if rt_parms_bad s p then Inl EINVAL
     else if rt_parmsin_denied s reqpcid reqcr targpcid then Inl EPERM
     else Inr \<lparr>rk_pri = rp_pri p, rk_tqntm = (if rp_tqnsecs p < 0 then rp_tqnsecs p else int (rt_ticks p))\<rparr>)
    \<and> (\<not> rt_parms_bad s p \<and> 0 \<le> rp_tqnsecs p \<longrightarrow> 1 \<le> rt_ticks p
         \<and> unat (rp_tqsecs p) * 1000000000 + nat (rp_tqnsecs p) \<le> rt_ticks p * 10000000
         \<and> rt_ticks p * 10000000 < unat (rp_tqsecs p) * 1000000000 + nat (rp_tqnsecs p) + 10000000)"
proof -
  have "1 \<le> rt_ticks p" if "\<not> rt_parms_bad s p" "0 \<le> rp_tqnsecs p"
  proof (cases "rp_tqsecs p = 0")
    case False
    then show ?thesis using unat_gt_0 [of "rp_tqsecs p"] by (simp add: rt_ticks_def)
  next
    case True
    with that have "1 \<le> nat (rp_tqnsecs p)" by (auto simp: rt_parms_bad_def)
    then show ?thesis by (simp add: rt_ticks_def)
  qed
  moreover have "unat (rp_tqsecs p) * 1000000000 + nat (rp_tqnsecs p) \<le> rt_ticks p * 10000000
      \<and> rt_ticks p * 10000000 < unat (rp_tqsecs p) * 1000000000 + nat (rp_tqnsecs p) + 10000000"
    using ceil_bounds [of 1000000000 "nat (rp_tqnsecs p) * 100"] unfolding rt_ticks_def by (simp add: algebra_simps)
  ultimately show ?thesis using rt_parmsin_eq [OF assms] by blast
qed

theorem rt_parmsin_checks_witness:
  "rt_parmsin rt_example \<lparr>rp_pri = 10, rp_tqsecs = 1, rp_tqnsecs = 1\<rparr> 2 None 2 = Some (Inr \<lparr>rk_pri = 10, rk_tqntm = 101\<rparr>)
   \<and> rt_parmsin rt_example \<lparr>rp_pri = 60, rp_tqsecs = 1, rp_tqnsecs = 1\<rparr> 2 None 2 = Some (Inl EINVAL)"
  using rt_parmsin_checks [of "\<lparr>rp_pri = 10, rp_tqsecs = 1, rp_tqnsecs = 1\<rparr>" rt_example 2 None 2]
    rt_parmsin_checks [of "\<lparr>rp_pri = 60, rp_tqsecs = 1, rp_tqnsecs = 1\<rparr>" rt_example 2 None 2]
  by (simp add: rt_ticks_def rt_parms_bad_def rt_parmsin_denied_def rt_example_sel)

text \<open>
  C10: what \<^verbatim>\<open>rt_parmsout\<close> reports of a process, given back to \<^verbatim>\<open>rt_parmsin\<close>, gives the same kernel
  parameters: conversion from ticks to seconds and nanoseconds loses nothing, and the special values
  of the quantum pass unchanged.
\<close>

theorem rt_parms_roundtrip:
  assumes "kparms_valid s k" "0 < rk_tqntm k \<and> rk_tqntm k < 2 ^ 31 \<or> rk_tqntm k \<in> {RT_NOCHANGE, RT_TQINF, RT_TQDEF}"
    and "\<not> rt_parmsin_denied s reqpcid reqcr targpcid"
  shows "\<exists>p. rt_parmsout k = Some (Inr p) \<and> rt_parmsin s p reqpcid reqcr targpcid = Some (Inr k)"
proof (cases "rk_tqntm k < 0")
  case True
  let ?p = "\<lparr>rp_pri = rk_pri k, rp_tqsecs = 0, rp_tqnsecs = rk_tqntm k\<rparr>"
  have "rt_ticks ?p < 2 ^ 31" using True by (simp add: rt_ticks_def)
  moreover have "\<not> rt_parms_bad s ?p" using assms(1,2) True by (auto simp: rt_parms_bad_def kparms_valid_def)
  ultimately show ?thesis using True assms(3) by (simp add: rt_parmsout_def rt_parmsin_eq)
next
  case False
  then have tq: "0 < rk_tqntm k" "rk_tqntm k < 2 ^ 31" using assms(2) by auto
  define m where "m = nat (rk_tqntm k)"
  have m: "rk_tqntm k = int m" "0 < m" "m < 2147483648" using tq by (simp_all add: m_def)
  have u: "unat (word_of_int (rk_tqntm k) :: u32) = m" using m by (simp add: unat_of_nat take_bit_nat_eq_self_iff)
  let ?p = "\<lparr>rp_pri = rk_pri k, rp_tqsecs = word_of_nat (m div 100), rp_tqnsecs = int (m mod 100 * 10000000)\<rparr>"
  have f: "rounded HRT_TRUNC (m mod 100 * 1000000000) 100 = m mod 100 * 10000000"
    by (simp add: rounded_def)
  have d: "(word_of_int (rk_tqntm k) :: u32) div 100 = word_of_nat (m div 100)"
    using m(3) u by (simp add: unat_eq unat_div unat_of_nat take_bit_nat_eq_self_iff)
  have out: "rt_parmsout k = Some (Inr ?p)"
    using False hrt_newres_ok [of "\<lparr>hrt_secs = 0, hrt_rem = word_of_int (rk_tqntm k), hrt_res = HZ\<rparr>" NANOSEC HRT_TRUNC]
      sint_ticks [of "m mod 100 * 10000000"] f u d by (simp add: rt_parmsout_def)
  have secs: "unat (rp_tqsecs ?p) = m div 100" using m(3) by (simp add: unat_of_nat take_bit_nat_eq_self_iff)
  have "(m mod 100 * 10000000 * 100 + 999999999) div 1000000000 = m mod 100" by simp
  moreover have "nat (int (m mod 100 * 10000000)) = m mod 100 * 10000000" by (rule nat_int)
  ultimately have tick: "rt_ticks ?p = m" using secs unfolding rt_ticks_def by (simp del: of_nat_mult)
  have "\<not> rt_parms_bad s ?p"
  proof -
    have "rp_tqsecs ?p = 0 \<and> rp_tqnsecs ?p = 0 \<Longrightarrow> m = 0" using tick by (auto simp: rt_ticks_def)
    moreover have "rp_tqnsecs ?p < 1000000000" by simp
    ultimately show ?thesis using m(2) assms(1) by (fastforce simp: rt_parms_bad_def kparms_valid_def)
  qed
  then show ?thesis using out tick m assms(3) rt_parmsin_eq [of ?p s reqpcid reqcr targpcid] by simp
qed

theorem rt_parms_roundtrip_witness:
  "\<exists>p. rt_parmsout \<lparr>rk_pri = 10, rk_tqntm = 101\<rparr> = Some (Inr p) \<and> rt_parmsin rt_example p 2 None 2 = Some (Inr \<lparr>rk_pri = 10, rk_tqntm = 101\<rparr>)"
  using rt_parms_roundtrip [of rt_example "\<lparr>rk_pri = 10, rk_tqntm = 101\<rparr>" 2 None 2]
  by (simp add: kparms_valid_def rt_parmsin_denied_def rt_example_sel)

text \<open>
  The finding on \<^verbatim>\<open>rt_parmsin\<close>: a quantum of 42949672.96 seconds passes its check that the time is not
  zero and becomes 0 ticks, and one of 42949672.94 seconds becomes the infinite quantum.
\<close>

theorem rt_parmsin_wraps:
  "rt_parmsin rt_example \<lparr>rp_pri = 10, rp_tqsecs = 42949672, rp_tqnsecs = 960000000\<rparr> 2 None 2 = Some (Inr \<lparr>rk_pri = 10, rk_tqntm = 0\<rparr>)
   \<and> rt_parmsin rt_example \<lparr>rp_pri = 10, rp_tqsecs = 42949672, rp_tqnsecs = 940000000\<rparr> 2 None 2 = Some (Inr \<lparr>rk_pri = 10, rk_tqntm = RT_TQINF\<rparr>)"
  by (simp add: rt_parmsin_def rt_example_sel hrt_tohz_ok rounded_def Let_def)

section \<open>Nominations for swapping\<close>

definition rt_swap_cand :: "rtsys \<Rightarrow> rtp \<Rightarrow> bool" where
  "rt_swap_cand s t \<longleftrightarrow> p_stat (rt_proc s t) \<notin> {SZOMB, SIDL} \<and> rt_flags (rtprocs s t) AND RTRAN \<noteq> 0
     \<and> p_flag (rt_proc s t) AND (SSYS OR SLOCK OR SPROCIO OR SSWLOCKS) = 0"

lemma rt_swapout_list_spec:
  "let (m, r) = rt_swapout_list s ts m0 ret in
    if \<exists>t\<in>set ts. rt_swap_cand s t \<and> rt_pri (rtprocs s t) < m0
    then r \<in> set ts \<and> rt_swap_cand s r \<and> m = rt_pri (rtprocs s r) \<and> m < m0 \<and> (\<forall>u\<in>set ts. rt_swap_cand s u \<longrightarrow> m \<le> rt_pri (rtprocs s u))
    else m = m0 \<and> r = ret"
proof (induction ts arbitrary: m0 ret)
  case (Cons t ts)
  consider "\<not> rt_swap_cand s t" | "rt_swap_cand s t" "rt_pri (rtprocs s t) < m0" | "rt_swap_cand s t" "\<not> rt_pri (rtprocs s t) < m0" by blast
  then show ?case
  proof cases
    case 1
    then have "rt_swapout_list s (t # ts) m0 ret = rt_swapout_list s ts m0 ret" by (auto simp: rt_swap_cand_def)
    then show ?thesis using Cons.IH [of m0 ret] 1 by (auto simp: Let_def split: prod.splits if_splits)
  next
    case 2
    then have "rt_swapout_list s (t # ts) m0 ret = rt_swapout_list s ts (rt_pri (rtprocs s t)) t" by (auto simp: rt_swap_cand_def)
    then show ?thesis using Cons.IH [of "rt_pri (rtprocs s t)" t] 2 by (fastforce simp: Let_def not_less split: prod.splits if_splits)
  next
    case 3
    then have "rt_swapout_list s (t # ts) m0 ret = rt_swapout_list s ts m0 ret" by (auto simp: rt_swap_cand_def)
    then show ?thesis using Cons.IH [of m0 ret] 3 by (auto simp: Let_def split: prod.splits if_splits)
  qed
qed simp

text \<open>
  \<^verbatim>\<open>rt_swapout\<close> nominates a process of the lowest priority among those that ran since they were
  last nominated and are not zombies, being created, system processes or locked in core; it answers
  none exactly when there is no such process. The nominated process is no candidate until it runs again; the invariants are kept.
\<close>

theorem rt_swapout_nominates:
  assumes "rt_inv s Q"
  shows "if \<exists>t\<in>set (rt_plist s). rt_swap_cand s t
    then \<exists>t s'. rt_swapout s ret = (Some (rt_procp (rtprocs s t)), s') \<and> t \<in> set (rt_plist s) \<and> rt_swap_cand s t
       \<and> (\<forall>u\<in>set (rt_plist s). rt_swap_cand s u \<longrightarrow> rt_pri (rtprocs s t) \<le> rt_pri (rtprocs s u))
       \<and> {u \<in> set (rt_plist s'). rt_swap_cand s' u} = {u \<in> set (rt_plist s). rt_swap_cand s u} - {t} \<and> rt_inv s' Q
    else rt_swapout s ret = (None, s)"
proof -
  note inv = rt_invD [OF assms]
  have lt: "rt_pri (rtprocs s t) < rt_maxpri s + 1" if "t \<in> set (rt_plist s)" for t
    using inv(4) [OF that] by (simp add: rtproc_ok_def)
  obtain m r where mr: "rt_swapout_list s (rt_plist s) (rt_maxpri s + 1) ret = (m, r)" by (metis surj_pair)
  note spec = rt_swapout_list_spec [of s "rt_plist s" "rt_maxpri s + 1" ret, unfolded mr Let_def prod.case]
  show ?thesis
  proof (cases "\<exists>t\<in>set (rt_plist s). rt_swap_cand s t")
    case False
    then show ?thesis using spec mr by (auto simp: rt_swapout_def)
  next
    case True
    then have r: "r \<in> set (rt_plist s)" "rt_swap_cand s r" "m = rt_pri (rtprocs s r)" "m < rt_maxpri s + 1"
      "\<forall>u\<in>set (rt_plist s). rt_swap_cand s u \<longrightarrow> m \<le> rt_pri (rtprocs s u)" using spec lt by (auto split: if_splits)
    let ?x = "(rtprocs s r)\<lparr>rt_flags := rt_flags (rtprocs s r) AND NOT RTRAN\<rparr>"
    let ?s = "s\<lparr>rtprocs := (rtprocs s)(r := ?x)\<rparr>"
    have "(f AND NOT RTRAN) AND RTRAN = 0" for f :: u32 by (simp add: and.assoc)
    then have "rt_swap_cand ?s u \<longleftrightarrow> rt_swap_cand s u \<and> u \<noteq> r" for u
      by (auto simp: rt_swap_cand_def rt_proc_def)
    then have "{u \<in> set (rt_plist ?s). rt_swap_cand ?s u} = {u \<in> set (rt_plist s). rt_swap_cand s u} - {r}" by auto
    moreover have "rt_inv ?s Q" by (rule rt_inv_core [OF assms]) (simp add: same_rt_def)
    moreover have "rt_swapout s ret = (Some (rt_procp (rtprocs s r)), ?s)" using mr r(4) by (simp add: rt_swapout_def upd_rt_def)
    ultimately show ?thesis using r True by (simp only: if_True) (intro exI [of _ r] exI [of _ ?s], simp)
  qed
qed

theorem rt_swapout_nominates_witness:
  "(let s = upd_rt rt_example 7 (\<lambda>x. x\<lparr>rt_flags := RTRAN\<rparr>) in fst (rt_swapout s 0) = Some 1 \<and> fst (rt_swapout (snd (rt_swapout s 0)) 0) = None)"
proof -
  let ?s = "upd_rt rt_example 7 (\<lambda>x. x\<lparr>rt_flags := RTRAN\<rparr>)"
  have i: "rt_inv ?s (\<lambda>_. [])" unfolding upd_rt_def by (rule rt_inv_core [OF rt_example_inv]) (simp add: same_rt_def)
  have pl: "rt_plist ?s = [7]" "rt_swap_cand ?s 7" "rt_procp (rtprocs ?s 7) = 1"
    by (simp_all add: upd_rt_def rt_example_sel rt_boot_sel rt_swap_cand_def rt_proc_def)
  have c: "{u \<in> set (rt_plist ?s). rt_swap_cand ?s u} = {7}" using pl by auto
  have ex: "\<exists>t\<in>set (rt_plist ?s). rt_swap_cand ?s t" using pl by simp
  obtain t s' where t: "t \<in> set (rt_plist ?s)" and s': "rt_swapout ?s 0 = (Some (rt_procp (rtprocs ?s t)), s')"
    "{u \<in> set (rt_plist s'). rt_swap_cand s' u} = {u \<in> set (rt_plist ?s). rt_swap_cand ?s u} - {t}" "rt_inv s' (\<lambda>_. [])"
    using rt_swapout_nominates [OF i, of 0] ex by (simp only: if_True) blast
  have "t = 7" using t pl(1) by simp
  with s'(2) c have "{u \<in> set (rt_plist s'). rt_swap_cand s' u} = {}" by simp
  then have "rt_swapout s' 0 = (None, s')" using rt_swapout_nominates [OF s'(3), of 0] by (auto split: if_splits)
  with s'(1) \<open>t = 7\<close> pl(3) show ?thesis by (simp add: Let_def)
qed

end
