(* ===== verification/KProcset.thy ===== *)
theory KProcset
  imports KDisp
begin

text \<open>
  Sets of processes, \<^verbatim>\<open>uts/i386/os/procset.c\<close> and \<^verbatim>\<open>uts/i386/sys/procset.h\<close>: the description of a set that
  \<^verbatim>\<open>priocntl\<close>, \<^verbatim>\<open>sigsendset\<close> and \<^verbatim>\<open>waitid\<close> take, its check, membership, and \<^verbatim>\<open>dotoprocs\<close>, which calls a
  function for each member. What the code reads of a process is the record \<open>pattr\<close>; the state the
  called function changes is a type variable and \<open>attr\<close> reads the attributes of a process from it. The
  function called is an argument, with \<^const>\<open>None\<close> for undefined behaviour in it; the enumerations are
  integers, since the description comes from the user.
\<close>

section \<open>Data\<close>

record procset =
  p_op :: int
  p_lidtype :: int
  p_lid :: int
  p_ridtype :: int
  p_rid :: int

record pattr =
  pa_stat :: pstat
  pa_pid :: int
  pa_ppid :: int
  pa_pgrp :: int
  pa_sid :: int
  pa_cid :: int
  pa_uid :: int
  pa_gid :: int

abbreviation (input) P_PID :: int where "P_PID \<equiv> 0"
abbreviation (input) P_PPID :: int where "P_PPID \<equiv> 1"
abbreviation (input) P_PGID :: int where "P_PGID \<equiv> 2"
abbreviation (input) P_SID :: int where "P_SID \<equiv> 3"
abbreviation (input) P_CID :: int where "P_CID \<equiv> 4"
abbreviation (input) P_UID :: int where "P_UID \<equiv> 5"
abbreviation (input) P_GID :: int where "P_GID \<equiv> 6"
abbreviation (input) P_ALL :: int where "P_ALL \<equiv> 7"

abbreviation (input) POP_DIFF :: int where "POP_DIFF \<equiv> 0"
abbreviation (input) POP_AND :: int where "POP_AND \<equiv> 1"
abbreviation (input) POP_OR :: int where "POP_OR \<equiv> 2"
abbreviation (input) POP_XOR :: int where "POP_XOR \<equiv> 3"

abbreviation (input) P_MYID :: int where "P_MYID \<equiv> - 1"

definition setprocset :: "int \<Rightarrow> int \<Rightarrow> int \<Rightarrow> int \<Rightarrow> int \<Rightarrow> procset" where
  "setprocset pop ltype lid rtype rid = \<lparr>p_op = pop, p_lidtype = ltype, p_lid = lid, p_ridtype = rtype, p_rid = rid\<rparr>"

section \<open>Check and membership\<close>

definition idtype_ok :: "int \<Rightarrow> bool" where
  "idtype_ok t \<longleftrightarrow> t = P_PID \<or> t = P_PPID \<or> t = P_PGID \<or> t = P_SID \<or> t = P_CID \<or> t = P_UID \<or> t = P_GID \<or> t = P_ALL"

definition checkprocset :: "procset \<Rightarrow> errno option" where
  "checkprocset ps =
    (if \<not> idtype_ok (p_lidtype ps) then Some EINVAL
     else if \<not> idtype_ok (p_ridtype ps) then Some EINVAL
     else if p_op ps \<noteq> POP_DIFF \<and> p_op ps \<noteq> POP_AND \<and> p_op ps \<noteq> POP_OR \<and> p_op ps \<noteq> POP_XOR then Some EINVAL
     else None)"

text \<open>One operand of \<^verbatim>\<open>procinset\<close>; \<^const>\<open>None\<close> is the default case of its switch.\<close>

definition operand :: "pattr \<Rightarrow> int \<Rightarrow> int \<Rightarrow> bool option" where
  "operand a t i =
    (if t = P_PID then Some (pa_pid a = i)
     else if t = P_PPID then Some (pa_ppid a = i)
     else if t = P_PGID then Some (pa_pgrp a = i)
     else if t = P_SID then Some (pa_sid a = i)
     else if t = P_CID then Some (pa_cid a = i)
     else if t = P_UID then Some (pa_uid a = i)
     else if t = P_GID then Some (pa_gid a = i)
     else if t = P_ALL then Some True
     else None)"

definition procinset :: "pattr \<Rightarrow> procset \<Rightarrow> bool" where
  "procinset a ps =
    (if pa_cid a = 0 then False
     else case operand a (p_lidtype ps) (p_lid ps) of None \<Rightarrow> False
     | Some l \<Rightarrow>
       (case operand a (p_ridtype ps) (p_rid ps) of None \<Rightarrow> False
        | Some r \<Rightarrow>
          if p_op ps = POP_DIFF then l \<and> \<not> r
          else if p_op ps = POP_AND then l \<and> r
          else if p_op ps = POP_OR then l \<or> r
          else if p_op ps = POP_XOR then (l \<or> r) \<and> \<not> (l \<and> r)
          else False))"

definition cur_inset_only :: "pattr \<Rightarrow> procset \<Rightarrow> bool" where
  "cur_inset_only cur ps =
    (if p_lidtype ps = P_PID \<and> (p_lid ps = P_MYID \<or> p_lid ps = pa_pid cur) \<and> p_op ps = POP_AND \<and> p_ridtype ps = P_ALL then True
     else if p_ridtype ps = P_PID \<and> (p_rid ps = P_MYID \<or> p_rid ps = pa_pid cur) \<and> p_op ps = POP_AND \<and> p_lidtype ps = P_ALL then True
     else False)"

definition getmyid :: "pattr \<Rightarrow> int \<Rightarrow> int" where
  "getmyid a t =
    (if t = P_PID then pa_pid a
     else if t = P_PPID then pa_ppid a
     else if t = P_PGID then pa_pgrp a
     else if t = P_SID then pa_sid a
     else if t = P_CID then pa_cid a
     else if t = P_UID then pa_uid a
     else if t = P_GID then pa_gid a
     else if t = P_ALL then 0
     else - 1)"

section \<open>Visiting the members\<close>

text \<open>What the called function returns: zero, -1, or any other value, an error code.\<close>

datatype cbres = CbNext | CbStop | CbErr errno

type_synonym ('p, 'st) callback = "'p \<Rightarrow> 'st \<Rightarrow> (cbres \<times> 'st) option"

definition myids :: "pattr \<Rightarrow> procset \<Rightarrow> procset" where
  "myids cur ps =
    (let ps = (if p_lid ps = P_MYID then ps\<lparr>p_lid := getmyid cur (p_lidtype ps)\<rparr> else ps) in
     if p_rid ps = P_MYID then ps\<lparr>p_rid := getmyid cur (p_ridtype ps)\<rparr> else ps)"

text \<open>
  The loop over the active processes, with the number of members found and the last of them. \<^const>\<open>Inl\<close> is
  a return from within the loop.
\<close>

fun dotoprocs_loop ::
  "('st \<Rightarrow> 'p \<Rightarrow> pattr) \<Rightarrow> 'p \<Rightarrow> procset \<Rightarrow> ('p, 'st) callback option \<Rightarrow> 'p list \<Rightarrow> nat \<Rightarrow> 'p \<Rightarrow> 'st
    \<Rightarrow> ((errno option + nat \<times> 'p) \<times> 'st) option" where
  "dotoprocs_loop attr init ps funcp [] nfound lastprp st = Some (Inr (nfound, lastprp), st)"
| "dotoprocs_loop attr init ps funcp (prp # rest) nfound lastprp st =
    (if pa_stat (attr st prp) = SIDL \<or> pa_stat (attr st prp) = SZOMB
     then dotoprocs_loop attr init ps funcp rest nfound lastprp st
     else if procinset (attr st prp) ps then
       if funcp \<noteq> None \<and> prp \<noteq> init then do {
         (r, st) \<leftarrow> the funcp prp st;
         case r of CbStop \<Rightarrow> Some (Inl None, st)
         | CbErr e \<Rightarrow> Some (Inl (Some e), st)
         | CbNext \<Rightarrow> dotoprocs_loop attr init ps funcp rest (nfound + 1) prp st }
       else dotoprocs_loop attr init ps funcp rest (nfound + 1) prp st
     else dotoprocs_loop attr init ps funcp rest nfound lastprp st)"

text \<open>
  \<open>cur\<close> is the calling process, \<open>garbage\<close> the value of \<^verbatim>\<open>lastprp\<close> before it is set. The result is the
  error code, the set with the caller's identifiers filled in, and the state.
\<close>

definition dotoprocs ::
  "('st \<Rightarrow> 'p \<Rightarrow> pattr) \<Rightarrow> 'p list \<Rightarrow> 'p \<Rightarrow> 'p \<Rightarrow> 'p \<Rightarrow> procset \<Rightarrow> ('p, 'st) callback option \<Rightarrow> 'st
    \<Rightarrow> (errno option \<times> procset \<times> 'st) option" where
  "dotoprocs attr practive init cur garbage ps funcp st =
    (case checkprocset ps of Some e \<Rightarrow> Some (Some e, ps, st)
     | None \<Rightarrow> do {
         let ps = myids (attr st cur) ps;
         (r, st) \<leftarrow> dotoprocs_loop attr init ps funcp practive 0 garbage st;
         case r of Inl e \<Rightarrow> Some (e, ps, st)
         | Inr (nfound, lastprp) \<Rightarrow>
             if nfound = 0 then Some (Some ESRCH, ps, st)
             else if nfound = 1 \<and> lastprp = init \<and> funcp \<noteq> None then do {
               (r, st) \<leftarrow> the funcp lastprp st;
               Some (case r of CbErr e \<Rightarrow> Some e | _ \<Rightarrow> None, ps, st) }
             else Some (None, ps, st) })"

section \<open>Valid descriptions\<close>

lemma checkprocset_ok:
  "checkprocset ps = None \<longleftrightarrow> idtype_ok (p_lidtype ps) \<and> idtype_ok (p_ridtype ps) \<and> p_op ps \<in> {POP_DIFF, POP_AND, POP_OR, POP_XOR}"
  by (auto simp: checkprocset_def)

section \<open>dotoprocs visits the members\<close>

text \<open>The members among the active processes, and the calls on a list of processes up to the first that ends the search.\<close>

definition members :: "('st \<Rightarrow> 'p \<Rightarrow> pattr) \<Rightarrow> procset \<Rightarrow> 'p list \<Rightarrow> 'st \<Rightarrow> 'p list" where
  "members attr ps pl st = filter (\<lambda>p. pa_stat (attr st p) \<notin> {SIDL, SZOMB} \<and> procinset (attr st p) ps) pl"

fun visit :: "('p, 'st) callback \<Rightarrow> 'p list \<Rightarrow> 'st \<Rightarrow> (cbres \<times> 'st) option" where
  "visit f [] st = Some (CbNext, st)"
| "visit f (p # pl) st = do { (r, st) \<leftarrow> f p st; if r = CbNext then visit f pl st else Some (r, st) }"

definition cb_error :: "cbres \<Rightarrow> errno option" where
  "cb_error r = (case r of CbErr e \<Rightarrow> Some e | _ \<Rightarrow> None)"

text \<open>
  The contract between \<^verbatim>\<open>dotoprocs\<close> and the function it calls: the call for one process leaves the attributes
  of the others alone.
\<close>

locale procset_client =
  fixes attr :: "'st \<Rightarrow> 'p \<Rightarrow> pattr" and f :: "('p, 'st) callback"
  assumes call_local: "f p st = Some (r, st') \<Longrightarrow> q \<noteq> p \<Longrightarrow> attr st' q = attr st q"
begin

lemma members_after: "f p st = Some (r, st') \<Longrightarrow> p \<notin> set pl \<Longrightarrow> members attr ps pl st' = members attr ps pl st"
  unfolding members_def using call_local [of p st r st'] by (intro filter_cong) metis+

lemma loop_visits:
  assumes "distinct pl"
  shows "dotoprocs_loop attr init ps (Some f) pl n l st = do {
      (r, st') \<leftarrow> visit f (filter (\<lambda>p. p \<noteq> init) (members attr ps pl st)) st;
      Some (if r = CbNext
            then Inr (n + length (members attr ps pl st), if members attr ps pl st = [] then l else last (members attr ps pl st))
            else Inl (cb_error r), st') }"
  using assms
proof (induction pl arbitrary: n l st)
  case Nil
  then show ?case by (simp add: members_def)
next
  case (Cons p pl)
  let ?in = "pa_stat (attr st p) \<notin> {SIDL, SZOMB} \<and> procinset (attr st p) ps"
  show ?case
  proof (cases ?in)
    case False
    then have m: "members attr ps (p # pl) st = members attr ps pl st" by (auto simp: members_def)
    have d: "dotoprocs_loop attr init ps (Some f) (p # pl) n l st = dotoprocs_loop attr init ps (Some f) pl n l st"
      using False by auto
    show ?thesis unfolding m d by (rule Cons.IH) (use Cons.prems in simp)
  next
    case True
    then have m: "members attr ps (p # pl) st = p # members attr ps pl st" by (simp add: members_def)
    show ?thesis
    proof (cases "p = init \<or> f p st = None")
      case init: True
      show ?thesis
      proof (cases "p = init")
        case True
        then have d: "dotoprocs_loop attr init ps (Some f) (p # pl) n l st = dotoprocs_loop attr init ps (Some f) pl (n + 1) p st"
          using \<open>?in\<close> by auto
        have dis: "distinct pl" using Cons.prems by simp
        show ?thesis unfolding m d Cons.IH [OF dis, of "n + 1" p st] using True
          by (cases "visit f (filter (\<lambda>p. p \<noteq> init) (members attr ps pl st)) st") auto
      next
        case False
        with init \<open>?in\<close> m show ?thesis by simp
      qed
    next
      case False
      then obtain r st' where f: "p \<noteq> init" "f p st = Some (r, st')" by auto
      have ms: "members attr ps pl st' = members attr ps pl st" using members_after [OF f(2)] Cons.prems by simp
      have "dotoprocs_loop attr init ps (Some f) pl (n + 1) p st' = do {
          (r, st'') \<leftarrow> visit f (filter (\<lambda>p. p \<noteq> init) (members attr ps pl st)) st';
          Some (if r = CbNext
                then Inr (n + 1 + length (members attr ps pl st), if members attr ps pl st = [] then p else last (members attr ps pl st))
                else Inl (cb_error r), st'') }"
        using Cons.prems by (subst Cons.IH) (simp_all only: ms distinct.simps)
      moreover have "dotoprocs_loop attr init ps (Some f) (p # pl) n l st = (case r of CbStop \<Rightarrow> Some (Inl None, st')
          | CbErr e \<Rightarrow> Some (Inl (Some e), st') | CbNext \<Rightarrow> dotoprocs_loop attr init ps (Some f) pl (n + 1) p st')"
        using True f by (cases r) auto
      ultimately show ?thesis unfolding m using f
        by (cases r; cases "visit f (filter (\<lambda>p. p \<noteq> init) (members attr ps pl st)) st'") (auto simp: cb_error_def)
    qed
  qed
qed

lemma dotoprocs_eq:
  fixes st :: 'st and cur init garbage :: 'p
  assumes "distinct practive" "checkprocset ps = None"
  defines "ps' \<equiv> myids (attr st cur) ps"
  defines "ms \<equiv> members attr ps' practive st"
  shows "dotoprocs attr practive init cur garbage ps (Some f) st =
    (if ms = [] then Some (Some ESRCH, ps', st)
     else do { (r, st') \<leftarrow> visit f (if ms = [init] then [init] else filter (\<lambda>p. p \<noteq> init) ms) st; Some (cb_error r, ps', st') })"
proof -
  have d: "distinct ms" using assms(1) by (simp add: ms_def members_def)
  note l = loop_visits [OF assms(1), where ps = ps' and init = init and n = 0 and l = garbage and st = st, folded ms_def]
  have run: "dotoprocs attr practive init cur garbage ps (Some f) st = do {
         (r, st) \<leftarrow> dotoprocs_loop attr init ps' (Some f) practive 0 garbage st;
         case r of Inl e \<Rightarrow> Some (e, ps', st)
         | Inr (nfound, lastprp) \<Rightarrow>
             if nfound = 0 then Some (Some ESRCH, ps', st)
             else if nfound = 1 \<and> lastprp = init then do { (r, st) \<leftarrow> f lastprp st; Some (cb_error r, ps', st) }
             else Some (None, ps', st) }"
    using assms(2) by (cases "dotoprocs_loop attr init ps' (Some f) practive 0 garbage st")
      (auto simp: dotoprocs_def ps'_def [symmetric] cb_error_def split: sum.split)
  consider "ms = []" | "ms = [init]" | "ms \<noteq> []" "ms \<noteq> [init]" by blast
  then show ?thesis
  proof cases
    case 1
    then show ?thesis by (simp add: run l)
  next
    case 2
    have "f init st = None \<or> (\<exists>r st'. f init st = Some (r, st'))" by (cases "f init st") auto
    with 2 show ?thesis by (auto simp: run l)
  next
    case 3
    have "\<not> (length ms = 1 \<and> last ms = init)" using 3 by (cases ms) auto
    with 3 show ?thesis
      unfolding run l by (cases "visit f (filter (\<lambda>p. p \<noteq> init) ms) st") (auto simp: cb_error_def)
  qed
qed

end

text \<open>
  C5: \<^verbatim>\<open>dotoprocs\<close>. An invalid set is refused with \<^verbatim>\<open>EINVAL\<close> and a set without live members with \<^verbatim>\<open>ESRCH\<close>, and
  nothing is called. Otherwise the function is called for the members in the order of the list of active
  processes, once each and up to the first call that does not return zero, for the init process only if it is the only member;
  an error of a call is the result, and -1 ends the search without an error.
\<close>

theorem dotoprocs_visits:
  assumes "\<And>p q st r st'. f p st = Some (r, st') \<Longrightarrow> q \<noteq> p \<Longrightarrow> attr st' q = attr st q" "distinct practive"
  shows "dotoprocs attr practive init cur garbage ps (Some f) st =
    (if checkprocset ps \<noteq> None then Some (Some EINVAL, ps, st)
     else let ps' = myids (attr st cur) ps; ms = members attr ps' practive st in
       if ms = [] then Some (Some ESRCH, ps', st)
       else do { (r, st') \<leftarrow> visit f (if ms = [init] then [init] else filter (\<lambda>p. p \<noteq> init) ms) st; Some (cb_error r, ps', st') })"
proof (cases "checkprocset ps")
  case None
  have "procset_client attr f" by unfold_locales (use assms(1) in blast)
  from procset_client.dotoprocs_eq [OF this assms(2) None] None show ?thesis by (simp add: Let_def)
next
  case (Some e)
  then have "e = EINVAL" by (auto simp: checkprocset_def split: if_splits)
  with Some show ?thesis by (simp add: dotoprocs_def)
qed

text \<open>Four processes: init, two of user 10 in class 2, and one of the system class; the called function records its argument.\<close>

definition example_attr :: "nat \<Rightarrow> pattr" where
  "example_attr p = \<lparr>pa_stat = SRUN, pa_pid = int p, pa_ppid = 1, pa_pgrp = int p, pa_sid = 0, pa_cid = [0, 1, 2, 2] ! p,
     pa_uid = [0, 0, 10, 10] ! p, pa_gid = 3\<rparr>"

theorem dotoprocs_visits_witness:
  "dotoprocs (\<lambda>st. example_attr) [3, 2, 1, 0] 1 2 0 (setprocset POP_OR P_UID P_MYID P_PID 1) (Some (\<lambda>p st. Some (CbNext, st @ [p]))) [] =
     Some (None, setprocset POP_OR P_UID 10 P_PID 1, [3, 2])"
  using dotoprocs_visits [of "\<lambda>p st. Some (CbNext, st @ [p])" "\<lambda>st. example_attr" "[3, 2, 1, 0]" 1 2 0
      "setprocset POP_OR P_UID P_MYID P_PID 1" "[]"]
  by (simp add: checkprocset_ok idtype_ok_def setprocset_def myids_def getmyid_def members_def procinset_def operand_def
      example_attr_def cb_error_def)

section \<open>The quick check for the calling process\<close>

lemma filter_single: "distinct xs \<Longrightarrow> x \<in> set xs \<Longrightarrow> filter (\<lambda>y. y = x) xs = [x]"
  by (induction xs) (auto simp: filter_empty_conv)

text \<open>
  C6: \<^verbatim>\<open>cur_inset_only\<close> is sound: when it answers yes, the set is valid and, identifiers of live processes being unique, the
  calling process is its only live member, or it has none when the caller is in the system class.
\<close>

theorem cur_inset_only_sound:
  assumes "cur_inset_only (attr st cur) ps" "cur \<in> set practive" "distinct practive" "pa_stat (attr st cur) \<notin> {SIDL, SZOMB}"
    and "\<And>q. q \<in> set practive \<Longrightarrow> pa_pid (attr st q) = pa_pid (attr st cur) \<Longrightarrow> q = cur"
  shows "checkprocset ps = None \<and> members attr (myids (attr st cur) ps) practive st = (if pa_cid (attr st cur) = 0 then [] else [cur])"
proof -
  let ?ps = "myids (attr st cur) ps"
  have ok: "checkprocset ps = None" using assms(1) by (auto simp: cur_inset_only_def checkprocset_ok idtype_ok_def split: if_splits)
  have m: "procinset a ?ps \<longleftrightarrow> pa_cid a \<noteq> 0 \<and> pa_pid a = pa_pid (attr st cur)" for a
  proof -
    have f: "p_op ?ps = p_op ps" "p_lidtype ?ps = p_lidtype ps" "p_ridtype ?ps = p_ridtype ps"
      "p_lid ?ps = (if p_lid ps = P_MYID then getmyid (attr st cur) (p_lidtype ps) else p_lid ps)"
      "p_rid ?ps = (if p_rid ps = P_MYID then getmyid (attr st cur) (p_ridtype ps) else p_rid ps)" by (simp_all add: myids_def Let_def)
    consider "p_op ps = POP_AND" "p_lidtype ps = P_PID" "p_ridtype ps = P_ALL" "p_lid ?ps = pa_pid (attr st cur)"
      | "p_op ps = POP_AND" "p_lidtype ps = P_ALL" "p_ridtype ps = P_PID" "p_rid ?ps = pa_pid (attr st cur)"
      using assms(1) unfolding f cur_inset_only_def getmyid_def by (auto split: if_splits)
    then show ?thesis by cases (simp_all add: procinset_def operand_def f(1-3))
  qed
  have "pa_stat (attr st q) \<notin> {SIDL, SZOMB} \<and> procinset (attr st q) ?ps \<longleftrightarrow> q = cur \<and> pa_cid (attr st cur) \<noteq> 0" if "q \<in> set practive" for q
    using that assms(4,5) m by auto
  then have "members attr ?ps practive st = filter (\<lambda>q. q = cur \<and> pa_cid (attr st cur) \<noteq> 0) practive"
    unfolding members_def by (rule filter_cong [OF refl])
  also have "\<dots> = (if pa_cid (attr st cur) = 0 then [] else [cur])"
    using assms(2,3) by (simp add: filter_single)
  finally show ?thesis using ok by simp
qed

theorem cur_inset_only_sound_witness:
  "members (\<lambda>st. example_attr) (myids (example_attr 2) (setprocset POP_AND P_PID P_MYID P_ALL 0)) [3, 2, 1, 0] () = [2]"
  using cur_inset_only_sound [of "\<lambda>st. example_attr" "()" 2 "setprocset POP_AND P_PID P_MYID P_ALL 0" "[3, 2, 1, 0]"]
  by (auto simp: cur_inset_only_def setprocset_def example_attr_def)

end
