(* ===== verification/KClass.thy ===== *)
theory KClass
  imports KClassFrame KProcset
begin

text \<open>
  The class-independent part of scheduling: the class switch of \<^verbatim>\<open>uts/i386/sys/class.h\<close>, the wrappers at the end of
  \<^verbatim>\<open>uts/i386/disp/disp.c\<close>, the system class \<^verbatim>\<open>uts/i386/disp/sysclass.c\<close>, and the system calls \<^verbatim>\<open>priocntl\<close> and \<^verbatim>\<open>nice\<close>,
  \<^verbatim>\<open>uts/i386/disp/priocntl.c\<close>. The time-sharing and the real-time class share the dispatcher: it is the
  one of the time-sharing record, and \<open>rtv\<close> is the real-time class's view of it. Parameters are a buffer of
  bytes which each class reads as its own structure: \<open>upar\<close> is the user's buffer as both classes read it, and
  \<open>kparms\<close> the buffer once a class has put its kernel form there. What a process has of class-independent data is in \<open>cproc\<close>.
\<close>

section \<open>Data\<close>

datatype clfuncs = SysFuncs | TsFuncs | RtFuncs

record upar =
  up_ts :: tsparms
  up_rt :: rtparms

datatype kparms = KpTs tsparms | KpRt rtkparms

datatype oparms = OpTs tsparms | OpRt rtparms

datatype clinfo = TsInfo int | RtInfo int

record cproc =
  c_cid :: int
  c_clfuncs :: clfuncs
  c_clproc :: nat
  c_cred :: cred
  c_pid :: int
  c_ppid :: int
  c_pgrp :: int
  c_sid :: int

record csys =
  cts :: tsys
  crt :: rtsys
  cl_table :: "(string \<times> clfuncs) list"
  cprocs :: "procp \<Rightarrow> cproc"
  practive :: "procp list"
  proc_init :: procp
  ev_newpris :: "procp list"

text \<open>The answers of the memory allocator and the swapper to one call of \<^verbatim>\<open>cl_enterclass\<close>.\<close>

record clenv =
  e_memlow :: bool
  e_swapok :: bool
  e_new :: "nat option"

abbreviation (input) PC_CLNULL :: int where "PC_CLNULL \<equiv> - 1"

definition rtv :: "csys \<Rightarrow> rtsys" where
  "rtv s = (crt s)\<lparr>rdsp := dsp (cts s)\<rparr>"

definition put_rt :: "csys \<Rightarrow> rtsys \<Rightarrow> csys" where
  "put_rt s r = s\<lparr>cts := (cts s)\<lparr>dsp := rdsp r\<rparr>, crt := r\<rparr>"

definition put_ts :: "csys \<Rightarrow> tsys \<Rightarrow> csys" where
  "put_ts s t = s\<lparr>cts := t\<rparr>"

definition upd_cproc :: "csys \<Rightarrow> procp \<Rightarrow> (cproc \<Rightarrow> cproc) \<Rightarrow> csys" where
  "upd_cproc s p f = s\<lparr>cprocs := (cprocs s)(p := f (cprocs s p))\<rparr>"

definition nclass :: "csys \<Rightarrow> int" where
  "nclass s = int (length (cl_table s))"

definition cl_funcs :: "csys \<Rightarrow> int \<Rightarrow> clfuncs option" where
  "cl_funcs s cid = map_option snd (ird (cl_table s) cid)"

definition cattr :: "csys \<Rightarrow> procp \<Rightarrow> pattr" where
  "cattr s p = (let c = cprocs s p in
     \<lparr>pa_stat = p_stat (procs (dsp (cts s)) p), pa_pid = c_pid c, pa_ppid = c_ppid c, pa_pgrp = c_pgrp c, pa_sid = c_sid c,
      pa_cid = c_cid c, pa_uid = cr_uid (c_cred c), pa_gid = cr_gid (c_cred c)\<rparr>)"

section \<open>The system class\<close>

definition sys_fork :: "procp \<Rightarrow> procp" where
  "sys_fork cprocp = cprocp"

definition sys_forkret :: "disp \<Rightarrow> procp \<Rightarrow> disp option" where
  "sys_forkret d cprocp = setbackdq d cprocp"

definition sys_preempt :: "disp \<Rightarrow> procp \<Rightarrow> disp option" where
  "sys_preempt d pp = setfrontdq d pp"

definition sys_setrun :: "disp \<Rightarrow> procp \<Rightarrow> disp option" where
  "sys_setrun d pp = setbackdq d pp"

text \<open>\<open>maxsyspri\<close> is \<^verbatim>\<open>v.v_maxsyspri\<close>, which \<^verbatim>\<open>sys_init\<close> raises to \<^verbatim>\<open>PSLEP\<close>, 39, when it is below.\<close>

definition sys_init :: "int \<Rightarrow> int" where
  "sys_init maxsyspri = (if maxsyspri < 39 then 39 else maxsyspri)"

definition sys_sleep :: "int \<Rightarrow> disp \<Rightarrow> procp \<Rightarrow> int \<Rightarrow> disp" where
  "sys_sleep maxsyspri d pp k = set_pri d pp (maxsyspri - k mod 128)"

definition sys_wakeup :: "disp \<Rightarrow> procp \<Rightarrow> disp option" where
  "sys_wakeup d pp = setbackdq d pp"

section \<open>The class switch\<close>

text \<open>
  The system class answers \<^verbatim>\<open>ENOSYS\<close>. \<^const>\<open>None\<close> also stands for a class applied to a buffer that holds another
  class's parameters.
\<close>

definition CL_PARMSIN ::
  "csys \<Rightarrow> clfuncs \<Rightarrow> upar \<Rightarrow> int \<Rightarrow> cred option \<Rightarrow> int \<Rightarrow> nat \<Rightarrow> (errno + kparms) option" where
  "CL_PARMSIN s f u reqpcid reqcr targpcid targclp =
    (case f of SysFuncs \<Rightarrow> Some (Inl ENOSYS)
     | TsFuncs \<Rightarrow> Some (case ts_parmsin (cts s) (up_ts u) reqcr targpcid targclp of Some e \<Rightarrow> Inl e | None \<Rightarrow> Inr (KpTs (up_ts u)))
     | RtFuncs \<Rightarrow> do {
         r \<leftarrow> rt_parmsin (rtv s) (up_rt u) reqpcid reqcr targpcid;
         Some (case r of Inl e \<Rightarrow> Inl e | Inr k \<Rightarrow> Inr (KpRt k)) })"

definition CL_ENTERCLASS ::
  "csys \<Rightarrow> clfuncs \<Rightarrow> kparms \<Rightarrow> procp \<Rightarrow> clenv \<Rightarrow> cred option \<Rightarrow> (errno option \<times> csys) option" where
  "CL_ENTERCLASS s f k pp env reqcr =
    (case f of SysFuncs \<Rightarrow> Some (Some ENOSYS, s)
     | TsFuncs \<Rightarrow>
         (case k of KpTs pa \<Rightarrow> do {
            r \<leftarrow> ts_enterclass (cts s) (Some pa) pp (e_new env) reqcr;
            Some (case r of Inl e \<Rightarrow> (Some e, s) | Inr t \<Rightarrow> (None, put_ts s t)) }
          | KpRt _ \<Rightarrow> None)
     | RtFuncs \<Rightarrow>
         (case k of KpRt pa \<Rightarrow> do {
            (e, r) \<leftarrow> rt_enterclass (rtv s) (Some pa) pp (e_memlow env) (e_swapok env) (e_new env) reqcr;
            Some (e, put_rt s r) }
          | KpTs _ \<Rightarrow> None))"

definition CL_EXITCLASS :: "csys \<Rightarrow> clfuncs \<Rightarrow> nat \<Rightarrow> csys" where
  "CL_EXITCLASS s f clp =
    (case f of SysFuncs \<Rightarrow> s | TsFuncs \<Rightarrow> put_ts s (ts_exitclass (cts s) clp) | RtFuncs \<Rightarrow> put_rt s (rt_exitclass (rtv s) clp))"

definition CL_PARMSSET :: "csys \<Rightarrow> clfuncs \<Rightarrow> kparms \<Rightarrow> nat \<Rightarrow> int \<Rightarrow> cred option \<Rightarrow> (errno option \<times> csys) option" where
  "CL_PARMSSET s f k clp reqpcid reqcr =
    (case f of SysFuncs \<Rightarrow> Some (Some ENOSYS, s)
     | TsFuncs \<Rightarrow>
         (case k of KpTs pa \<Rightarrow> do {
            r \<leftarrow> ts_parmsset (cts s) pa clp reqcr;
            Some (case r of Inl e \<Rightarrow> (Some e, s) | Inr t \<Rightarrow> (None, put_ts s t)) }
          | KpRt _ \<Rightarrow> None)
     | RtFuncs \<Rightarrow>
         (case k of KpRt pa \<Rightarrow> do {
            r \<leftarrow> rt_parmsset (rtv s) pa clp reqpcid reqcr;
            Some (case r of Inl e \<Rightarrow> (Some e, s) | Inr r \<Rightarrow> (None, put_rt s r)) }
          | KpTs _ \<Rightarrow> None))"

text \<open>The system class writes nothing to the buffer, which is then \<^const>\<open>None\<close>.\<close>

definition CL_PARMSGET :: "csys \<Rightarrow> clfuncs \<Rightarrow> nat \<Rightarrow> kparms option" where
  "CL_PARMSGET s f clp =
    (case f of SysFuncs \<Rightarrow> None | TsFuncs \<Rightarrow> Some (KpTs (ts_parmsget (cts s) clp)) | RtFuncs \<Rightarrow> Some (KpRt (rt_parmsget (rtv s) clp)))"

definition CL_PARMSOUT :: "clfuncs \<Rightarrow> kparms option \<Rightarrow> (errno + oparms) option" where
  "CL_PARMSOUT f k =
    (case f of SysFuncs \<Rightarrow> Some (Inl ENOSYS)
     | TsFuncs \<Rightarrow> (case k of Some (KpTs pa) \<Rightarrow> Some (Inr (OpTs pa)) | _ \<Rightarrow> None)
     | RtFuncs \<Rightarrow>
         (case k of Some (KpRt pa) \<Rightarrow> do {
            r \<leftarrow> rt_parmsout pa;
            Some (case r of Inl e \<Rightarrow> Inl e | Inr p \<Rightarrow> Inr (OpRt p)) }
          | _ \<Rightarrow> None))"

text \<open>\<^verbatim>\<open>sys_nosys\<close> returns the number of \<^verbatim>\<open>ENOSYS\<close>.\<close>

definition CL_PROCCMP :: "csys \<Rightarrow> clfuncs \<Rightarrow> nat \<Rightarrow> nat \<Rightarrow> int" where
  "CL_PROCCMP s f clp1 clp2 =
    (case f of SysFuncs \<Rightarrow> 89 | TsFuncs \<Rightarrow> ts_proccmp (cts s) clp1 clp2 | RtFuncs \<Rightarrow> rt_proccmp (rtv s) clp1 clp2)"

definition CL_GETCLINFO :: "csys \<Rightarrow> clfuncs \<Rightarrow> errno + clinfo" where
  "CL_GETCLINFO s f =
    (case f of SysFuncs \<Rightarrow> Inl ENOSYS | TsFuncs \<Rightarrow> Inr (TsInfo (ts_getclinfo (cts s))) | RtFuncs \<Rightarrow> Inr (RtInfo (rt_getclinfo (rtv s))))"

text \<open>\<open>old\<close> is what the result had before; the system class does not write it.\<close>

definition CL_GETGLOBPRI :: "csys \<Rightarrow> clfuncs \<Rightarrow> kparms \<Rightarrow> int \<Rightarrow> int option" where
  "CL_GETGLOBPRI s f k old =
    (case f of SysFuncs \<Rightarrow> Some old
     | TsFuncs \<Rightarrow> (case k of KpTs pa \<Rightarrow> ts_getglobpri (cts s) pa | KpRt _ \<Rightarrow> None)
     | RtFuncs \<Rightarrow> (case k of KpRt pa \<Rightarrow> rt_getglobpri (rtv s) pa | KpTs _ \<Rightarrow> None))"

section \<open>The class-independent operations of the dispatcher\<close>

definition getglobpri :: "csys \<Rightarrow> int \<Rightarrow> kparms \<Rightarrow> int \<Rightarrow> int option" where
  "getglobpri s cid k old = do { f \<leftarrow> cl_funcs s cid; CL_GETGLOBPRI s f k old }"

definition parmsget :: "csys \<Rightarrow> procp \<Rightarrow> int \<times> kparms option" where
  "parmsget s pp = (let c = cprocs s pp in (c_cid c, CL_PARMSGET s (c_clfuncs c) (c_clproc c)))"

text \<open>
  \<open>req\<close> is the pair of the requesting and the target process, \<^const>\<open>None\<close> when one of the pointers is null; the class
  identifiers and the class structure are then not initialized, and \<open>garbage\<close>.
\<close>

definition parmsin :: "csys \<Rightarrow> int \<Rightarrow> upar \<Rightarrow> (procp \<times> procp) option \<Rightarrow> int \<Rightarrow> (errno + kparms) option" where
  "parmsin s cid u req garbage =
    (if cid \<ge> nclass s \<or> cid < 1 then Some (Inl EINVAL)
     else do {
       f \<leftarrow> cl_funcs s cid;
       (case req of
          None \<Rightarrow> CL_PARMSIN s f u garbage None garbage 0
        | Some (reqpp, targpp) \<Rightarrow> do {
            let r = cprocs s reqpp;
            let t = cprocs s targpp;
            res \<leftarrow> CL_PARMSIN s f u (c_cid r) (Some (c_cred r)) (c_cid t) (c_clproc t);
            case res of Inl e \<Rightarrow> Some (Inl e)
            | Inr k \<Rightarrow> Some (if \<not> hasprocperm (c_cred t) (c_cred r) then Inl EPERM else Inr k) }) })"

definition parmsout :: "csys \<Rightarrow> int \<Rightarrow> kparms option \<Rightarrow> (errno + oparms) option" where
  "parmsout s cid k = do { f \<leftarrow> cl_funcs s cid; CL_PARMSOUT f k }"

definition parmsset :: "csys \<Rightarrow> int \<Rightarrow> kparms \<Rightarrow> procp option \<Rightarrow> procp \<Rightarrow> clenv \<Rightarrow> int \<Rightarrow> (errno option \<times> csys) option" where
  "parmsset s cid k reqpp targpp env garbage =
    (let t = cprocs s targpp;
         reqcr = map_option (\<lambda>p. c_cred (cprocs s p)) reqpp;
         reqpcid = (case reqpp of None \<Rightarrow> garbage | Some p \<Rightarrow> c_cid (cprocs s p)) in
     if reqpp \<noteq> None \<and> \<not> hasprocperm (c_cred t) (the reqcr) then Some (Some EPERM, s)
     else if cid \<noteq> c_cid t then do {
       f \<leftarrow> cl_funcs s cid;
       (e, s) \<leftarrow> CL_ENTERCLASS s f k targpp env reqcr;
       case e of Some e \<Rightarrow> Some (Some e, s)
       | None \<Rightarrow> do {
           clproc \<leftarrow> e_new env;
           let s = CL_EXITCLASS s (c_clfuncs t) (c_clproc t);
           Some (None, upd_cproc s targpp (\<lambda>c. c\<lparr>c_cid := cid, c_clfuncs := f, c_clproc := clproc\<rparr>)) } }
     else CL_PARMSSET s (c_clfuncs t) k (c_clproc t) reqpcid reqcr)"

section \<open>Setting the parameters of a set of processes\<close>

text \<open>
  \<^verbatim>\<open>setparms\<close>, as a function called by \<^verbatim>\<open>dotoprocs\<close>: its state is the system and \<^verbatim>\<open>stp_error\<close>. \<open>env\<close> answers for the
  allocator and the swapper at each call.
\<close>

definition setparms ::
  "(csys \<Rightarrow> procp \<Rightarrow> clenv) \<Rightarrow> int \<Rightarrow> kparms \<Rightarrow> procp \<Rightarrow> procp \<Rightarrow> csys \<times> errno option \<Rightarrow> (cbres \<times> csys \<times> errno option) option" where
  "setparms env cid k cur targpp st = do {
     let (s, stp_error) = st;
     (e, s) \<leftarrow> parmsset s cid k (Some cur) targpp (env s targpp) 0;
     Some (case e of
         Some e \<Rightarrow> if e = EPERM then (CbNext, s, Some EPERM) else (CbErr e, s, stp_error)
       | None \<Rightarrow> (CbNext, s\<lparr>ev_newpris := ev_newpris s @ [targpp]\<rparr>, stp_error)) }"

text \<open>
  The case \<^verbatim>\<open>PC_SETPARMS\<close>. \<open>uparms\<close> and \<open>uset\<close> are what \<^verbatim>\<open>copyin\<close> reads, \<^const>\<open>None\<close> for a fault; \<open>cur\<close> is the calling process.
\<close>

definition pc_setparms ::
  "csys \<Rightarrow> procp \<Rightarrow> (csys \<Rightarrow> procp \<Rightarrow> clenv) \<Rightarrow> (int \<times> upar) option \<Rightarrow> procset option \<Rightarrow> (errno option \<times> csys) option" where
  "pc_setparms s cur env uparms uset =
    (case uparms of None \<Rightarrow> Some (Some EFAULT, s)
     | Some (cid, u) \<Rightarrow> do {
         r \<leftarrow> parmsin s cid u None 0;
         case r of Inl e \<Rightarrow> Some (Some e, s)
         | Inr k \<Rightarrow>
           (case uset of None \<Rightarrow> Some (Some EFAULT, s)
            | Some ps \<Rightarrow>
              if cur_inset_only (cattr s cur) ps then do {
                (e, s) \<leftarrow> parmsset s cid k (Some cur) cur (env s cur) 0;
                Some (e, if e = None then s\<lparr>ev_newpris := ev_newpris s @ [cur]\<rparr> else s) }
              else do {
                (e, _, s, stp_error) \<leftarrow> dotoprocs (\<lambda>st. cattr (fst st)) (practive s) (proc_init s) cur cur ps (Some (setparms env cid k cur)) (s, None);
                Some (if e = None \<and> stp_error \<noteq> None then stp_error else e, s) }) })"

section \<open>Getting the parameters of a process of a set\<close>

record pcmpargs =
  pcmp_cid :: int
  pcmp_cnt :: nat
  pcmp_retprocp :: "procp option"

definition proccmp :: "csys \<Rightarrow> procp \<Rightarrow> pcmpargs \<Rightarrow> (cbres \<times> pcmpargs) option" where
  "proccmp s pp a =
    (let c = cprocs s pp;
         a = a\<lparr>pcmp_cnt := pcmp_cnt a + 1\<rparr> in
     if pcmp_cid a \<noteq> PC_CLNULL \<and> c_cid c \<noteq> pcmp_cid a then Some (CbNext, a)
     else
       let a = (if pcmp_cid a = PC_CLNULL then a\<lparr>pcmp_cid := c_cid c\<rparr> else a) in
       case pcmp_retprocp a of None \<Rightarrow> Some (CbNext, a\<lparr>pcmp_retprocp := Some pp\<rparr>)
       | Some q \<Rightarrow>
           if CL_PROCCMP s (c_clfuncs c) (c_clproc c) (c_clproc (cprocs s q)) > 0 then Some (CbNext, a\<lparr>pcmp_retprocp := Some pp\<rparr>)
           else Some (CbNext, a))"

text \<open>The choice of the process, and the whole case \<^verbatim>\<open>PC_GETPARMS\<close>, which returns its identifier, class and parameters.\<close>

definition pc_select :: "csys \<Rightarrow> procp \<Rightarrow> int \<Rightarrow> procset \<Rightarrow> (errno + procp) option" where
  "pc_select s cur cid ps =
    (if cur_inset_only (cattr s cur) ps then
       if cid \<noteq> PC_CLNULL \<and> cid \<noteq> c_cid (cprocs s cur) then Some (Inl ESRCH) else Some (Inr cur)
     else do {
       (e, ps, a) \<leftarrow> dotoprocs (\<lambda>_. cattr s) (practive s) (proc_init s) cur cur ps (Some (proccmp s)) \<lparr>pcmp_cid = cid, pcmp_cnt = 0, pcmp_retprocp = None\<rparr>;
       case e of Some e \<Rightarrow> Some (Inl e)
       | None \<Rightarrow> do {
           let initpp = proc_init s;
           (_, a) \<leftarrow> (if procinset (cattr s initpp) ps \<and> pcmp_retprocp a \<noteq> Some initpp then proccmp s initpp a else Some (CbNext, a));
           Some (case pcmp_retprocp a of None \<Rightarrow> Inl ESRCH
             | Some p \<Rightarrow> if cid = PC_CLNULL \<and> pcmp_cnt a > 1 then Inl EINVAL else Inr p) } })"

definition pc_getparms ::
  "csys \<Rightarrow> procp \<Rightarrow> int option \<Rightarrow> procset option \<Rightarrow> bool \<Rightarrow> (errno + int \<times> int \<times> oparms) option" where
  "pc_getparms s cur ucid uset out =
    (case ucid of None \<Rightarrow> Some (Inl EFAULT)
     | Some cid \<Rightarrow>
       if cid \<ge> nclass s \<or> cid < 1 \<and> cid \<noteq> PC_CLNULL then Some (Inl EINVAL)
       else
         (case uset of None \<Rightarrow> Some (Inl EFAULT)
          | Some ps \<Rightarrow> do {
              r \<leftarrow> pc_select s cur cid ps;
              case r of Inl e \<Rightarrow> Some (Inl e)
              | Inr p \<Rightarrow> do {
                  let (cid, k) = parmsget s p;
                  r \<leftarrow> parmsout s cid k;
                  Some (case r of Inl e \<Rightarrow> Inl e
                    | Inr o' \<Rightarrow> if out then Inr (c_pid (cprocs s p), cid, o') else Inl EFAULT) } }))"

section \<open>Information about classes and administration\<close>

text \<open>
  The cases \<^verbatim>\<open>PC_GETCID\<close> and \<^verbatim>\<open>PC_GETCLINFO\<close>; the argument is \<^const>\<open>None\<close> for a null pointer, and the buffer in it
  \<^const>\<open>None\<close> for a fault. The result is what is copied out, with the number of classes as the value of the call.
\<close>

definition pc_info :: "csys \<Rightarrow> int \<Rightarrow> bool \<Rightarrow> (errno + (int \<times> string \<times> clinfo) option) option" where
  "pc_info s cid out = do {
     (nm, f) \<leftarrow> ird (cl_table s) cid;
     Some (case CL_GETCLINFO s f of Inl e \<Rightarrow> Inl e
       | Inr i \<Rightarrow> if out then Inr (Some (cid, nm, i)) else Inl EFAULT) }"

definition pc_getcid :: "csys \<Rightarrow> string option option \<Rightarrow> bool \<Rightarrow> (errno + (int \<times> string \<times> clinfo) option) option" where
  "pc_getcid s arg out =
    (case arg of None \<Rightarrow> Some (Inr None)
     | Some None \<Rightarrow> Some (Inl EFAULT)
     | Some (Some name) \<Rightarrow>
       (case getcid (map fst (cl_table s)) name of Inl e \<Rightarrow> Some (Inl e)
        | Inr cid \<Rightarrow> if cid = 0 then Some (Inl EINVAL) else pc_info s (int cid) out))"

definition pc_getclinfo :: "csys \<Rightarrow> int option option \<Rightarrow> bool \<Rightarrow> (errno + (int \<times> string \<times> clinfo) option) option" where
  "pc_getclinfo s arg out =
    (case arg of None \<Rightarrow> Some (Inr None)
     | Some None \<Rightarrow> Some (Inl EFAULT)
     | Some (Some cid) \<Rightarrow> if cid \<ge> nclass s \<or> cid < 1 then Some (Inl EINVAL) else pc_info s cid out)"

text \<open>What an administration request finds in the user's memory, and what it writes there.\<close>

record admreq =
  ad_cmd :: "(int \<times> int) option"
  ad_tstbl :: "tsdpent list option"
  ad_rttbl :: "rtdpent list option"
  ad_out1 :: bool
  ad_out2 :: bool

datatype admout = AdTs dpout | AdRt rtdpout

definition CL_ADMIN :: "csys \<Rightarrow> clfuncs \<Rightarrow> admreq \<Rightarrow> cred \<Rightarrow> (errno + admout \<times> csys) option" where
  "CL_ADMIN s f a reqcr =
    (case f of SysFuncs \<Rightarrow> Some (Inl ENOSYS)
     | TsFuncs \<Rightarrow> do {
         r \<leftarrow> ts_admin (cts s) (ad_cmd a) (ad_tstbl a) (ad_out1 a) (ad_out2 a) reqcr;
         Some (case r of Inl e \<Rightarrow> Inl e | Inr (x, t) \<Rightarrow> Inr (AdTs x, put_ts s t)) }
     | RtFuncs \<Rightarrow> do {
         r \<leftarrow> rt_admin (rtv s) (ad_cmd a) (ad_rttbl a) (ad_out1 a) (ad_out2 a) reqcr;
         Some (case r of Inl e \<Rightarrow> Inl e | Inr (x, t) \<Rightarrow> Inr (AdRt x, put_rt s t)) })"

definition pc_admin :: "csys \<Rightarrow> procp \<Rightarrow> int option \<Rightarrow> admreq \<Rightarrow> (errno + admout \<times> csys) option" where
  "pc_admin s cur ucid a =
    (case ucid of None \<Rightarrow> Some (Inl EFAULT)
     | Some cid \<Rightarrow>
       if cid \<ge> nclass s \<or> cid < 1 then Some (Inl EINVAL)
       else do { f \<leftarrow> cl_funcs s cid; CL_ADMIN s f a (c_cred (cprocs s cur)) })"

section \<open>The system calls\<close>

record priocntlargs =
  pc_version :: int
  pc_cmd :: int
  pc_psp :: "procset option"
  pc_clname :: "string option option"
  pc_infocid :: "int option option"
  pc_parms :: "(int \<times> upar) option"
  pc_admcid :: "int option"
  pc_adm :: admreq
  pc_outok :: bool

datatype pcresult = PcError errno | PcInfo int "(int \<times> string \<times> clinfo) option" | PcDone | PcParms int int oparms | PcAdmin admout

definition priocntlsys :: "csys \<Rightarrow> procp \<Rightarrow> (csys \<Rightarrow> procp \<Rightarrow> clenv) \<Rightarrow> priocntlargs \<Rightarrow> (pcresult \<times> csys) option" where
  "priocntlsys s cur env uap =
    (if pc_version uap \<noteq> 1 then Some (PcError EINVAL, s)
     else if pc_cmd uap = 0 then do {
       r \<leftarrow> pc_getcid s (pc_clname uap) (pc_outok uap);
       Some (case r of Inl e \<Rightarrow> (PcError e, s) | Inr i \<Rightarrow> (PcInfo (nclass s) i, s)) }
     else if pc_cmd uap = 1 then do {
       r \<leftarrow> pc_getclinfo s (pc_infocid uap) (pc_outok uap);
       Some (case r of Inl e \<Rightarrow> (PcError e, s) | Inr i \<Rightarrow> (PcInfo (nclass s) i, s)) }
     else if pc_cmd uap = 2 then do {
       (e, s) \<leftarrow> pc_setparms s cur env (pc_parms uap) (pc_psp uap);
       Some (case e of Some e \<Rightarrow> PcError e | None \<Rightarrow> PcDone, s) }
     else if pc_cmd uap = 3 then do {
       r \<leftarrow> pc_getparms s cur (map_option fst (pc_parms uap)) (pc_psp uap) (pc_outok uap);
       Some (case r of Inl e \<Rightarrow> (PcError e, s) | Inr (pid, cid, p) \<Rightarrow> (PcParms pid cid p, s)) }
     else if pc_cmd uap = 4 then do {
       r \<leftarrow> pc_admin s cur (pc_admcid uap) (pc_adm uap);
       Some (case r of Inl e \<Rightarrow> (PcError e, s) | Inr (x, s) \<Rightarrow> (PcAdmin x, s)) }
     else Some (PcError EINVAL, s))"

text \<open>\<^verbatim>\<open>donice\<close> and \<^verbatim>\<open>nice\<close>, without the exemption of virtual 8086 processes.\<close>

definition donice :: "csys \<Rightarrow> procp \<Rightarrow> cred \<Rightarrow> int \<Rightarrow> (errno + int \<times> csys) option" where
  "donice s pp cr incr = do {
     (nm, _) \<leftarrow> ird (cl_table s) (c_cid (cprocs s pp));
     if nm \<noteq> ''TS'' then Some (Inl EINVAL)
     else if (incr < 0 \<or> incr > 2 * NZERO) \<and> \<not> suser cr then Some (Inl EPERM)
     else do {
       (retval, t) \<leftarrow> ts_donice (cts s) (c_clproc (cprocs s pp)) incr;
       Some (Inr (retval, put_ts s t)) } }"

definition nice :: "csys \<Rightarrow> procp \<Rightarrow> int \<Rightarrow> (errno + int \<times> csys) option" where
  "nice s cur niceness = donice s cur (c_cred (cprocs s cur)) niceness"

end
