(* ===== verification/KClassInv.thy ===== *)
theory KClassInv
  imports KClass
begin

text \<open>
  The invariant of the system of scheduling classes, and what keeps it: operations of one class, seen by
  the other, and the change of parameters or of the class of a process by \<^verbatim>\<open>parmsset\<close>.
\<close>

section \<open>The invariant\<close>

text \<open>
  \<open>cl_cfg\<close>: class 0 is the system class, and the class identifiers of the two other classes are their positions in the
  table. \<open>in_class\<close>: the class data of a process is that of its class, and in the time-sharing or real-time
  class its structure is on the class's list and stands for it. \<open>lists_ok\<close>: the structures on
  the lists belong to active processes, each to one.
\<close>

definition cl_cfg :: "csys \<Rightarrow> bool" where
  "cl_cfg s \<longleftrightarrow> (\<forall>i<length (cl_table s). (snd (cl_table s ! i) = SysFuncs \<longleftrightarrow> i = 0)
     \<and> (snd (cl_table s ! i) = TsFuncs \<longleftrightarrow> int i = ts_cid (cts s)) \<and> (snd (cl_table s ! i) = RtFuncs \<longleftrightarrow> int i = rt_cid (crt s)))"

definition in_class :: "csys \<Rightarrow> procp \<Rightarrow> bool" where
  "in_class s p \<longleftrightarrow> cl_funcs s (c_cid (cprocs s p)) = Some (c_clfuncs (cprocs s p))
     \<and> (c_clfuncs (cprocs s p) = TsFuncs \<longrightarrow> c_clproc (cprocs s p) \<in> set (ts_plist (cts s))
          \<and> ts_procp (tsprocs (cts s) (c_clproc (cprocs s p))) = p)
     \<and> (c_clfuncs (cprocs s p) = RtFuncs \<longrightarrow> c_clproc (cprocs s p) \<in> set (rt_plist (crt s))
          \<and> rt_procp (rtprocs (crt s) (c_clproc (cprocs s p))) = p)"

definition owned :: "csys \<Rightarrow> clfuncs \<Rightarrow> nat \<Rightarrow> procp \<Rightarrow> bool" where
  "owned s f t p \<longleftrightarrow> p \<in> set (practive s) \<and> c_clfuncs (cprocs s p) = f \<and> c_clproc (cprocs s p) = t"

definition lists_ok :: "csys \<Rightarrow> bool" where
  "lists_ok s \<longleftrightarrow> distinct (practive s) \<and> distinct (ts_plist (cts s))
     \<and> (\<forall>t\<in>set (ts_plist (cts s)). owned s TsFuncs t (ts_procp (tsprocs (cts s) t)))
     \<and> (\<forall>t\<in>set (rt_plist (crt s)). owned s RtFuncs t (rt_procp (rtprocs (crt s) t)))"

definition ts_pri_ok :: "tsys \<Rightarrow> bool" where
  "ts_pri_ok s \<longleftrightarrow> (\<forall>t\<in>set (ts_plist s). p_pri (ts_proc s t) \<in> ts_pris s)"

definition class_inv :: "csys \<Rightarrow> (nat \<Rightarrow> procp list) \<Rightarrow> bool" where
  "class_inv s Q \<longleftrightarrow> ts_inv (cts s) Q \<and> rt_inv (rtv s) Q \<and> cl_cfg s \<and> lists_ok s \<and> ts_pri_ok (cts s)
     \<and> (\<forall>p\<in>set (practive s). in_class s p \<and> pri_ok (dsp (cts s)) p)"

text \<open>
  When parameters are changed the running process is on no queue, and a process that is not in core is on a queue exactly
  if it is runnable.
\<close>

definition calm :: "csys \<Rightarrow> (nat \<Rightarrow> procp list) \<Rightarrow> bool" where
  "calm s Q \<longleftrightarrow> \<not> onq Q (curproc (dsp (cts s))) \<and> (\<forall>p\<in>set (practive s). unloaded_ok (dsp (cts s)) Q p)"

lemma class_invD:
  assumes "class_inv s Q"
  shows "ts_inv (cts s) Q" "rt_inv (rtv s) Q" "cl_cfg s" "lists_ok s" "ts_pri_ok (cts s)"
    "p \<in> set (practive s) \<Longrightarrow> in_class s p" "p \<in> set (practive s) \<Longrightarrow> pri_ok (dsp (cts s)) p"
  using assms by (simp_all add: class_inv_def)

lemma lists_okD:
  assumes "lists_ok s"
  shows "t \<in> set (ts_plist (cts s)) \<Longrightarrow> owned s TsFuncs t (ts_procp (tsprocs (cts s) t))"
    "t \<in> set (rt_plist (crt s)) \<Longrightarrow> owned s RtFuncs t (rt_procp (rtprocs (crt s) t))"
    "distinct (ts_plist (cts s))" "distinct (practive s)"
  using assms by (simp_all add: lists_ok_def)

section \<open>Views of the state\<close>

lemma rtv_sel [simp]: "rdsp (rtv s) = dsp (cts s)" "rtprocs (rtv s) = rtprocs (crt s)" "rt_plist (rtv s) = rt_plist (crt s)"
    "rt_cid (rtv s) = rt_cid (crt s)" "rt_maxpri (rtv s) = rt_maxpri (crt s)" "rt_dptbl (rtv s) = rt_dptbl (crt s)"
  by (simp_all add: rtv_def)

lemma put_ts_sel [simp]: "cts (put_ts s t) = t" "crt (put_ts s t) = crt s" "cl_table (put_ts s t) = cl_table s"
    "cprocs (put_ts s t) = cprocs s" "practive (put_ts s t) = practive s" "proc_init (put_ts s t) = proc_init s"
    "ev_newpris (put_ts s t) = ev_newpris s" "rtv (put_ts s t) = (rtv s)\<lparr>rdsp := dsp t\<rparr>"
  by (simp_all add: put_ts_def rtv_def)

lemma put_rt_sel [simp]: "cts (put_rt s r) = (cts s)\<lparr>dsp := rdsp r\<rparr>" "crt (put_rt s r) = r" "cl_table (put_rt s r) = cl_table s"
    "cprocs (put_rt s r) = cprocs s" "practive (put_rt s r) = practive s" "proc_init (put_rt s r) = proc_init s"
    "ev_newpris (put_rt s r) = ev_newpris s" "rtv (put_rt s r) = r"
  by (simp_all add: put_rt_def rtv_def)

lemma upd_cproc_sel [simp]: "cts (upd_cproc s p f) = cts s" "crt (upd_cproc s p f) = crt s" "cl_table (upd_cproc s p f) = cl_table s"
    "cprocs (upd_cproc s p f) = (cprocs s)(p := f (cprocs s p))" "practive (upd_cproc s p f) = practive s"
    "proc_init (upd_cproc s p f) = proc_init s" "ev_newpris (upd_cproc s p f) = ev_newpris s" "rtv (upd_cproc s p f) = rtv s"
  by (simp_all add: upd_cproc_def rtv_def)

lemma cl_funcs_table: "cl_table s' = cl_table s \<Longrightarrow> cl_funcs s' = cl_funcs s"
  by (simp add: cl_funcs_def fun_eq_iff)

lemma cl_funcsD:
  assumes "cl_cfg s" "cl_funcs s c = Some f"
  shows "f = SysFuncs \<longleftrightarrow> c = 0" "f = TsFuncs \<longleftrightarrow> c = ts_cid (cts s)" "f = RtFuncs \<longleftrightarrow> c = rt_cid (crt s)" "0 \<le> c" "c < nclass s"
proof -
  obtain i where i: "c = int i" "i < length (cl_table s)" "f = snd (cl_table s ! i)"
    using assms(2) by (auto simp: cl_funcs_def ird_def rd_Some_iff split: if_splits intro!: that [of "nat c"])
  with assms(1) show "f = SysFuncs \<longleftrightarrow> c = 0" "f = TsFuncs \<longleftrightarrow> c = ts_cid (cts s)" "f = RtFuncs \<longleftrightarrow> c = rt_cid (crt s)" "0 \<le> c" "c < nclass s"
    by (auto simp: cl_cfg_def nclass_def)
qed

lemma cl_funcs_ex: "0 \<le> c \<Longrightarrow> c < nclass s \<Longrightarrow> \<exists>f. cl_funcs s c = Some f"
  by (simp add: cl_funcs_def nclass_def ird_def rd_in)

section \<open>An operation of one class, seen by the other\<close>

lemma ts_inv_other:
  assumes "ts_inv t Q" "disp_ok d Q'" "npri d = npri (dsp t)" "\<And>q. pri_ok (dsp t) q \<Longrightarrow> pri_ok d q"
  shows "ts_inv (t\<lparr>dsp := d\<rparr>) Q'"
proof -
  have "ts_inv (t\<lparr>dsp := d, tsprocs := (tsprocs t)(u := tsprocs t u)\<rparr>) Q'" for u
    using ts_invD(3) [OF assms(1), of u] assms(4) by (intro ts_inv_change [OF assms(1-3)]) (auto simp: tsproc_ok_def)
  then show ?thesis by simp
qed

lemma rt_inv_other:
  assumes "rt_inv r Q" "disp_ok d Q'" "npri d = npri (rdsp r)"
    and "\<And>t. t \<in> set (rt_plist r) \<Longrightarrow> p_pri (procs d (rt_procp (rtprocs r t))) = p_pri (procs (rdsp r) (rt_procp (rtprocs r t)))"
  shows "rt_inv (r\<lparr>rdsp := d\<rparr>) Q'"
  using assms rt_invD [OF assms(1)] by (simp add: rt_inv_def rt_cfg_dsp rtproc_ok_def rt_list_ok_def)

lemma ts_pris_range: "ts_cfg s \<Longrightarrow> g \<in> ts_pris s \<Longrightarrow> 0 \<le> g \<and> g < int (npri (dsp s))"
  by (auto simp: ts_pris_def ts_cfg_def dpent_ok_def)

lemma rt_pris_range: "rt_cfg s \<Longrightarrow> g \<in> rt_pris s \<Longrightarrow> 0 \<le> g \<and> g < int (npri (rdsp s))"
  by (auto simp: rt_pris_def rt_cfg_def)

lemma ts_pri_moves:
  assumes "ts_pri_ok s" "ts_local T s s'"
  shows "ts_pri_ok s'"
  using assms ts_pris_conf [of s' s] by (auto simp: ts_pri_ok_def ts_local_def ts_proc_def moves_def) metis

lemma not_both: "lists_ok s \<Longrightarrow> t \<in> set (ts_plist (cts s)) \<Longrightarrow> u \<in> set (rt_plist (crt s)) \<Longrightarrow>
    ts_procp (tsprocs (cts s) t) \<noteq> rt_procp (rtprocs (crt s) u)"
  by (auto simp: lists_ok_def owned_def)

text \<open>An operation of the time-sharing class on structures of its list.\<close>

lemma class_inv_ts:
  assumes "class_inv s Q" "ts_inv t Q'" "ts_local T (cts s) t" "T \<subseteq> set (ts_plist (cts s))"
  shows "class_inv (put_ts s t) Q'"
proof -
  note inv = class_invD [OF assms(1)]
  note cfg = ts_invD(2) [OF inv(1)]
  let ?S = "(\<lambda>t. ts_procp (tsprocs (cts s) t)) ` T"
  have m: "moves ?S (ts_pris (cts s)) (dsp (cts s)) (dsp t)" and tp: "ts_plist t = ts_plist (cts s)" "ts_cid t = ts_cid (cts s)"
    "\<And>u. ts_procp (tsprocs t u) = ts_procp (tsprocs (cts s) u)" using assms(3) by (simp_all add: ts_local_def ts_conf_def)
  have pk: "pri_ok (dsp (cts s)) q \<Longrightarrow> pri_ok (dsp t) q" for q
    using moves_pri_ok [OF m] ts_pris_range [OF cfg] by blast
  have "rt_inv ((rtv s)\<lparr>rdsp := dsp t\<rparr>) Q'"
  proof (rule rt_inv_other [OF inv(2) ts_invD(1) [OF assms(2)]])
    fix u assume "u \<in> set (rt_plist (rtv s))"
    then have "rt_procp (rtprocs (rtv s) u) \<notin> ?S" using not_both [OF inv(4)] assms(4) by fastforce
    then show "p_pri (procs (dsp t) (rt_procp (rtprocs (rtv s) u))) = p_pri (procs (rdsp (rtv s)) (rt_procp (rtprocs (rtv s) u)))"
      using m by (auto simp: moves_def)
  qed (use m in \<open>simp add: moves_def\<close>)
  moreover have "cl_cfg (put_ts s t)" using inv(3) tp(2) by (simp add: cl_cfg_def)
  moreover have "lists_ok (put_ts s t)" using inv(4) tp by (simp add: lists_ok_def owned_def)
  moreover have "ts_pri_ok t" by (rule ts_pri_moves [OF inv(5) assms(3)])
  moreover have "in_class (put_ts s t) p" if "p \<in> set (practive s)" for p
    using inv(6) [OF that] tp cl_funcs_table [of "put_ts s t" s] by (simp add: in_class_def)
  ultimately show ?thesis using assms(2) inv(7) pk by (simp add: class_inv_def)
qed

text \<open>An operation of the real-time class on a structure of its list.\<close>

lemma class_inv_rt:
  assumes "class_inv s Q" "rt_inv r Q'" "rt_local u (rtv s) r" "u \<in> set (rt_plist (crt s))"
  shows "class_inv (put_rt s r) Q'"
proof -
  note inv = class_invD [OF assms(1)]
  note cfg = rt_invD(2) [OF inv(2)]
  have m: "moves {rt_procp (rtprocs (crt s) u)} (rt_pris (rtv s)) (dsp (cts s)) (rdsp r)" and rp: "rt_plist r = rt_plist (crt s)"
    "rt_cid r = rt_cid (crt s)" "\<And>u. rt_procp (rtprocs r u) = rt_procp (rtprocs (crt s) u)"
    using assms(3) by (simp_all add: rt_local_def rt_conf_def)
  have pk: "pri_ok (dsp (cts s)) q \<Longrightarrow> pri_ok (rdsp r) q" for q
    using moves_pri_ok [OF m] rt_pris_range [OF cfg] by simp
  have np: "npri (rdsp r) = npri (dsp (cts s))" using m by (simp add: moves_def)
  have "ts_inv ((cts s)\<lparr>dsp := rdsp r\<rparr>) Q'" by (rule ts_inv_other [OF inv(1) rt_invD(1) [OF assms(2)] np pk])
  moreover have "ts_pri_ok ((cts s)\<lparr>dsp := rdsp r\<rparr>)"
  proof -
    have "p_pri (procs (rdsp r) (ts_procp (tsprocs (cts s) t))) = p_pri (ts_proc (cts s) t)" if "t \<in> set (ts_plist (cts s))" for t
      using not_both [OF inv(4) that assms(4)] m by (auto simp: moves_def ts_proc_def)
    then show ?thesis using inv(5) by (simp add: ts_pri_ok_def ts_proc_def ts_pris_def)
  qed
  moreover have "cl_cfg (put_rt s r)" using inv(3) rp(2) by (simp add: cl_cfg_def)
  moreover have "lists_ok (put_rt s r)" using inv(4) rp by (simp add: lists_ok_def owned_def)
  moreover have "in_class (put_rt s r) p" if "p \<in> set (practive s)" for p
    using inv(6) [OF that] rp cl_funcs_table [of "put_rt s r" s] by (simp add: in_class_def)
  ultimately show ?thesis using assms(2) inv(7) pk by (simp add: class_inv_def)
qed

end
