(* ===== verification/KClassSet.thy ===== *)
theory KClassSet
  imports KClassInv
begin

text \<open>
  \<^verbatim>\<open>parmsset\<close> under the invariant of \<open>KClassInv\<close>: it always returns, with one of four results; it keeps the
  invariant; and it touches only the process it is about. Then the walk over a set of processes.
\<close>

section \<open>Entering a class\<close>

lemma rt_load_touches:
  assumes "rt_load s pp memlow swapok = Some (Inr s1)"
  obtains d where "s1 = s\<lparr>rdsp := d\<rparr>" "touches pp (rdsp s) d"
proof (cases "p_flag (procs (rdsp s) pp) AND SLOAD = 0")
  case False
  with assms have "s1 = s" by (simp add: rt_load_def Let_def)
  then show ?thesis by (intro that [of "rdsp s"]) simp_all
next
  case True
  let ?d = "set_flag (rdsp s) pp (p_flag (procs (rdsp s) pp) OR SLOAD)"
  from assms True obtain d where d: "s1 = s\<lparr>rdsp := d\<rparr>" "d = ?d \<or> dq_sruninc ?d (p_pri (procs (rdsp s) pp)) = Some d"
    unfolding rt_load_def Let_def by (auto simp: bind_eq_Some_conv split: if_split_asm)
  have "touches pp (rdsp s) d"
    using d(2) touches_trans [OF touches_flag moves_touches [OF same_frame_moves [OF dq_sruninc_frame], of _ _ _ "{}"]] touches_flag by blast
  with d(1) show ?thesis by (rule that)
qed

lemma rt_enterclass_touches:
  assumes "rt_enterclass s parms pp memlow swapok new reqcr = Some (e, s')"
  shows "touches pp (rdsp s) (rdsp s')"
proof (cases "reqcr \<noteq> None \<and> \<not> suser (the reqcr)")
  case True
  then have "rt_enterclass s parms pp memlow swapok new reqcr = Some (Some EPERM, s)" unfolding rt_enterclass_def by (rule if_P)
  with assms show ?thesis by simp
next
  case False
  note run = assms [unfolded rt_enterclass_def if_not_P [OF False]]
  then obtain r where r: "rt_load s pp memlow swapok = Some r" by (cases "rt_load s pp memlow swapok") simp_all
  show ?thesis
  proof (cases r)
    case (Inl e')
    with run r show ?thesis by simp
  next
    case (Inr s1)
    obtain d where d: "s1 = s\<lparr>rdsp := d\<rparr>" "touches pp (rdsp s) d" using rt_load_touches r Inr by blast
    show ?thesis
    proof (cases new)
      case None
      with run r Inr have "s' = s1" by auto
      with d show ?thesis by simp
    next
      case (Some t)
      with run r Inr obtain x where x: "rt_newproc s1 parms pp (rtprocs s1 t) = Some x"
        "rt_setpri True (s1\<lparr>rtprocs := (rtprocs s1)(t := x), rt_plist := t # rt_plist s1\<rparr>) t = Some s'"
        by (auto simp: bind_eq_Some_conv)
      have "rt_procp x = pp" using x(1) by (auto simp: rt_newproc_def bind_eq_Some_conv)
      then obtain R where "moves {pp} R d (rdsp s')"
        using rt_setpri_local [OF x(2)] d(1) by (auto simp: rt_local_def)
      then have "touches pp d (rdsp s')" by (rule moves_touches) simp
      with d(2) show ?thesis by (rule touches_trans)
    qed
  qed
qed

section \<open>What the operations on classes leave alone\<close>

text \<open>No operation on classes changes the state of a process, and only \<^verbatim>\<open>parmsset\<close> the class data of one.\<close>

definition quiet :: "csys \<Rightarrow> csys \<Rightarrow> bool" where
  "quiet s s' \<longleftrightarrow> cprocs s' = cprocs s \<and> (\<forall>q. p_stat (procs (dsp (cts s')) q) = p_stat (procs (dsp (cts s)) q))"

lemma touches_quiet: "touches p (dsp (cts s)) (dsp (cts s')) \<Longrightarrow> cprocs s' = cprocs s \<Longrightarrow> quiet s s'"
  by (simp add: quiet_def touches_def)

lemma ts_enterclass_touches: "ts_enterclass s parms pp new reqcr = Some (Inr t) \<Longrightarrow> touches pp (dsp s) (dsp t)"
  using ts_enterclass_local [of s parms pp _ reqcr t] moves_touches [of "{pp}"]
  by (cases new) (simp add: ts_enterclass_def Let_def split: option.splits if_splits, blast)

lemma enterclass_quiet:
  assumes "CL_ENTERCLASS s f k pp env reqcr = Some (e, s')"
  shows "quiet s s'"
proof (cases f)
  case SysFuncs
  with assms show ?thesis by (simp add: CL_ENTERCLASS_def quiet_def)
next
  case TsFuncs
  with assms obtain pa r where r: "ts_enterclass (cts s) (Some pa) pp (e_new env) reqcr = Some r"
    "(e, s') = (case r of Inl e \<Rightarrow> (Some e, s) | Inr t \<Rightarrow> (None, put_ts s t))"
    by (auto simp: CL_ENTERCLASS_def bind_eq_Some_conv split: kparms.splits)
  then show ?thesis
    using ts_enterclass_touches [of "cts s" "Some pa" pp "e_new env" reqcr] by (cases r) (auto simp: quiet_def touches_def)
next
  case RtFuncs
  with assms obtain pa r where "rt_enterclass (rtv s) (Some pa) pp (e_memlow env) (e_swapok env) (e_new env) reqcr = Some (e, r)" "s' = put_rt s r"
    by (auto simp: CL_ENTERCLASS_def bind_eq_Some_conv split: kparms.splits)
  then show ?thesis using rt_enterclass_touches by (fastforce simp: quiet_def touches_def)
qed

lemma parmsset_quiet:
  assumes "CL_PARMSSET s f k clp reqpcid reqcr = Some (e, s')"
  shows "quiet s s'"
proof (cases f)
  case SysFuncs
  with assms show ?thesis by (simp add: CL_PARMSSET_def quiet_def)
next
  case TsFuncs
  with assms obtain pa r where r: "ts_parmsset (cts s) pa clp reqcr = Some r"
    "(e, s') = (case r of Inl e \<Rightarrow> (Some e, s) | Inr t \<Rightarrow> (None, put_ts s t))"
    by (auto simp: CL_PARMSSET_def bind_eq_Some_conv split: kparms.splits)
  then show ?thesis
    using ts_parmsset_local [of "cts s" pa clp reqcr] by (cases r) (auto simp: quiet_def ts_local_def moves_def)
next
  case RtFuncs
  with assms obtain pa r where r: "rt_parmsset (rtv s) pa clp reqpcid reqcr = Some r"
    "(e, s') = (case r of Inl e \<Rightarrow> (Some e, s) | Inr t \<Rightarrow> (None, put_rt s t))"
    by (auto simp: CL_PARMSSET_def bind_eq_Some_conv split: kparms.splits)
  then show ?thesis
    using rt_parmsset_local [of "rtv s" pa clp reqpcid reqcr] by (cases r) (auto simp: quiet_def rt_local_def moves_def)
qed

lemma exitclass_quiet: "quiet s (CL_EXITCLASS s f clp)"
  by (cases f) (simp_all add: CL_EXITCLASS_def quiet_def ts_exitclass_def rt_exitclass_def)

lemma parmsset_attr:
  assumes "parmsset s cid k reqpp targpp env g = Some (e, s')" "q \<noteq> targpp"
  shows "cattr s' q = cattr s q"
proof -
  have "(\<forall>q. q \<noteq> targpp \<longrightarrow> cprocs s' q = cprocs s q) \<and> (\<forall>q. p_stat (procs (dsp (cts s')) q) = p_stat (procs (dsp (cts s)) q))"
  proof (cases "reqpp \<noteq> None \<and> \<not> hasprocperm (c_cred (cprocs s targpp)) (the (map_option (\<lambda>p. c_cred (cprocs s p)) reqpp))")
    case True
    then have "parmsset s cid k reqpp targpp env g = Some (Some EPERM, s)" unfolding parmsset_def Let_def by (rule if_P)
    with assms(1) show ?thesis by simp
  next
    case False
    note run = assms(1) [unfolded parmsset_def Let_def if_not_P [OF False]]
    show ?thesis
    proof (cases "cid = c_cid (cprocs s targpp)")
      case True
      from run have "quiet s s'" unfolding if_not_P [OF not_not [THEN iffD2, OF True]] by (rule parmsset_quiet)
      then show ?thesis by (simp add: quiet_def)
    next
      case False
      from run obtain f e1 s1 where s1: "CL_ENTERCLASS s f k targpp env (map_option (\<lambda>p. c_cred (cprocs s p)) reqpp) = Some (e1, s1)"
        "(case e1 of Some e \<Rightarrow> Some (Some e, s1) | None \<Rightarrow> do {
           clproc \<leftarrow> e_new env;
           Some (None, upd_cproc (CL_EXITCLASS s1 (c_clfuncs (cprocs s targpp)) (c_clproc (cprocs s targpp))) targpp
             (\<lambda>c. c\<lparr>c_cid := cid, c_clfuncs := f, c_clproc := clproc\<rparr>)) }) = Some (e, s')"
        unfolding if_P [OF False] by (auto simp: bind_eq_Some_conv)
      then have s2: "s' = s1 \<or> (\<exists>fo co h. s' = upd_cproc (CL_EXITCLASS s1 fo co) targpp h)"
        by (cases e1) (auto simp: bind_eq_Some_conv)
      have "quiet s s1" by (rule enterclass_quiet [OF s1(1)])
      with s2 exitclass_quiet [of s1] show ?thesis by (auto simp: quiet_def)
    qed
  qed
  with assms(2) show ?thesis by (simp add: cattr_def)
qed

end
