(* ===== verification/KClassRun.thy ===== *)
theory KClassRun
  imports KClassSet
begin

text \<open>
  \<^verbatim>\<open>parmsset\<close> keeps the invariant of \<open>KClassInv\<close>: the change of parameters within a class, and the change of class,
  which enters the new class before it leaves the old one.
\<close>

section \<open>What is asked and what may change\<close>

definition parms_ok :: "csys \<Rightarrow> int \<Rightarrow> kparms \<Rightarrow> bool" where
  "parms_ok s cid k \<longleftrightarrow> 1 \<le> cid \<and> cid < nclass s
     \<and> (case k of KpTs pa \<Rightarrow> cl_funcs s cid = Some TsFuncs \<and> parms_valid (cts s) pa
        | KpRt pa \<Rightarrow> cl_funcs s cid = Some RtFuncs \<and> kparms_valid (rtv s) pa)"

definition new_ok :: "csys \<Rightarrow> clenv \<Rightarrow> bool" where
  "new_ok s env \<longleftrightarrow> (\<forall>n. e_new env = Some n \<longrightarrow> n \<notin> set (ts_plist (cts s)) \<and> n \<notin> set (rt_plist (crt s)))"

definition leaves :: "procp \<Rightarrow> csys \<Rightarrow> csys \<Rightarrow> bool" where
  "leaves p s s' \<longleftrightarrow> touches p (dsp (cts s)) (dsp (cts s'))
     \<and> (p_flag (procs (dsp (cts s')) p) = p_flag (procs (dsp (cts s)) p) \<or> p_flag (procs (dsp (cts s')) p) AND SLOAD \<noteq> 0)
     \<and> ts_conf (cts s') = ts_conf (cts s) \<and> rt_conf (crt s') = rt_conf (crt s)
     \<and> practive s' = practive s \<and> proc_init s' = proc_init s \<and> cl_table s' = cl_table s \<and> ev_newpris s' = ev_newpris s
     \<and> (\<forall>q. q \<noteq> p \<longrightarrow> cprocs s' q = cprocs s q)
     \<and> (\<exists>c f n. cprocs s' p = (cprocs s p)\<lparr>c_cid := c, c_clfuncs := f, c_clproc := n\<rparr>)"

lemma cproc_same: "\<exists>c f n. x = x\<lparr>c_cid := c, c_clfuncs := f, c_clproc := n\<rparr>"
  by (rule exI [of _ "c_cid x"], rule exI [of _ "c_clfuncs x"], rule exI [of _ "c_clproc x"]) simp

lemma leaves_refl [simp]: "leaves p s s"
  by (simp add: leaves_def cproc_same)

lemma calm_leaves:
  assumes "calm s Q" "leaves p s s'" "\<forall>q. onq Q' q \<longleftrightarrow> onq Q q"
  shows "calm s' Q'"
proof -
  have "unloaded_ok (dsp (cts s')) Q' q" if "unloaded_ok (dsp (cts s)) Q q" for q
    using assms(2,3) that by (cases "q = p") (auto simp: leaves_def touches_def unloaded_ok_def)
  with assms show ?thesis by (auto simp: calm_def leaves_def touches_def)
qed

section \<open>The state after a change of class\<close>

lemma class_inv_join:
  assumes inv: "class_inv s Q" and p: "p \<in> set (practive s)" and f: "cl_funcs s cid = Some f"
    and t: "ts_inv t Q'" "ts_conf t = ts_conf (cts s)" "distinct (ts_plist t)"
    and tl: "\<And>u. u \<in> set (ts_plist t) \<longleftrightarrow> u \<in> set (ts_plist (cts s)) \<and> \<not> owned s TsFuncs u p \<or> f = TsFuncs \<and> u = n"
    and tp: "\<And>u. ts_procp (tsprocs t u) = (if f = TsFuncs \<and> u = n then p else ts_procp (tsprocs (cts s) u))"
    and r: "rt_inv (r\<lparr>rdsp := dsp t\<rparr>) Q'" "rt_conf r = rt_conf (crt s)"
    and rl: "\<And>u. u \<in> set (rt_plist r) \<longleftrightarrow> u \<in> set (rt_plist (crt s)) \<and> \<not> owned s RtFuncs u p \<or> f = RtFuncs \<and> u = n"
    and rp: "\<And>u. rt_procp (rtprocs r u) = (if f = RtFuncs \<and> u = n then p else rt_procp (rtprocs (crt s) u))"
    and d: "touches p (dsp (cts s)) (dsp t)" "pri_ok (dsp t) p" "f = TsFuncs \<Longrightarrow> p_pri (procs (dsp t) p) \<in> ts_pris (cts s)"
    and n: "n \<notin> set (ts_plist (cts s))" "n \<notin> set (rt_plist (crt s))"
  shows "class_inv (s\<lparr>cts := t, crt := r, cprocs := (cprocs s)(p := (cprocs s p)\<lparr>c_cid := cid, c_clfuncs := f, c_clproc := n\<rparr>)\<rparr>) Q'"
    (is "class_inv ?s Q'")
proof -
  note i = class_invD [OF inv]
  note lo = lists_okD [OF i(4)]
  have cfg: "cl_cfg ?s" using i(3) t(2) r(2) by (simp add: cl_cfg_def ts_conf_def rt_conf_def)
  have pri: "p_pri (procs (dsp t) q) = p_pri (procs (dsp (cts s)) q)" "npri (dsp t) = npri (dsp (cts s))" if "q \<noteq> p" for q
    using d(1) that by (auto simp: touches_def)
  have v: "rtv ?s = r\<lparr>rdsp := dsp t\<rparr>" by (simp add: rtv_def)
  have own: "owned ?s g u q \<longleftrightarrow> (if q = p then p \<in> set (practive s) \<and> f = g \<and> n = u else owned s g u q)" for g u q
    by (auto simp: owned_def)
  have pr: "owned s TsFuncs u p \<longleftrightarrow> ts_procp (tsprocs (cts s) u) = p" if "u \<in> set (ts_plist (cts s))" for u
    using lo(1) [OF that] i(6) [OF p] by (auto simp: owned_def in_class_def)
  have pr': "owned s RtFuncs u p \<longleftrightarrow> rt_procp (rtprocs (crt s) u) = p" if "u \<in> set (rt_plist (crt s))" for u
    using lo(2) [OF that] i(6) [OF p] by (auto simp: owned_def in_class_def)
  have "lists_ok ?s"
    unfolding lists_ok_def
  proof (intro conjI ballI)
    fix u assume "u \<in> set (ts_plist (cts ?s))"
    then have "u \<in> set (ts_plist (cts s)) \<and> ts_procp (tsprocs (cts s) u) \<noteq> p \<or> f = TsFuncs \<and> u = n" using tl pr by auto
    then show "owned ?s TsFuncs u (ts_procp (tsprocs (cts ?s) u))" using lo(1) [of u] n(1) p by (auto simp: own tp)
  next
    fix u assume "u \<in> set (rt_plist (crt ?s))"
    then have "u \<in> set (rt_plist (crt s)) \<and> rt_procp (rtprocs (crt s) u) \<noteq> p \<or> f = RtFuncs \<and> u = n" using rl pr' by auto
    then show "owned ?s RtFuncs u (rt_procp (rtprocs (crt ?s) u))" using lo(2) [of u] n(2) p by (auto simp: own rp)
  qed (use lo(4) t(3) in auto)
  moreover have "ts_pri_ok t"
    unfolding ts_pri_ok_def
  proof
    fix u assume "u \<in> set (ts_plist t)"
    then have "u \<in> set (ts_plist (cts s)) \<and> ts_procp (tsprocs (cts s) u) \<noteq> p \<or> f = TsFuncs \<and> u = n" using tl pr by auto
    then show "p_pri (ts_proc t u) \<in> ts_pris t"
      using d(3) i(5) pri(1) n(1) by (auto simp: ts_pri_ok_def ts_proc_def tp ts_pris_conf [OF t(2)])
  qed
  moreover have "in_class ?s q" if q: "q \<in> set (practive s)" for q
  proof (cases "q = p")
    case True
    then show ?thesis using f tl rl by (auto simp: in_class_def cl_funcs_table [of ?s s] tp rp)
  next
    case False
    have q1: "q \<noteq> p \<Longrightarrow> owned s g u q \<Longrightarrow> g \<noteq> SysFuncs \<Longrightarrow> \<not> owned s g u p" for g u
      using i(6) [OF q] i(6) [OF p] by (cases g) (auto simp: owned_def in_class_def)
    have "owned s (c_clfuncs (cprocs s q)) (c_clproc (cprocs s q)) q" using q by (simp add: owned_def)
    then show ?thesis
      using False i(6) [OF q] q1 [OF False] n tl rl by (auto simp: in_class_def cl_funcs_table [of ?s s] tp rp)
  qed
  moreover have "pri_ok (dsp t) q" if "q \<in> set (practive s)" for q
    using i(7) [OF that] d(2) pri [of q] by (cases "q = p") (auto simp: pri_ok_def)
  ultimately show ?thesis using t(1) r(1) cfg by (simp add: class_inv_def v)
qed

text \<open>An attempt to enter the real-time class that fails may have loaded the process.\<close>

lemma class_inv_failed:
  assumes "class_inv s Q" "rt_inv r Q'" "rt_conf r = rt_conf (crt s)" "rt_plist r = rt_plist (crt s)" "rtprocs r = rtprocs (crt s)"
    and "touches p (dsp (cts s)) (rdsp r)" "p_pri (procs (rdsp r) p) = p_pri (procs (dsp (cts s)) p)"
  shows "class_inv (put_rt s r) Q'"
proof -
  note i = class_invD [OF assms(1)]
  have pri: "p_pri (procs (rdsp r) q) = p_pri (procs (dsp (cts s)) q)" "npri (rdsp r) = npri (dsp (cts s))" for q
    using assms(6,7) by (auto simp: touches_def)
  have "ts_inv ((cts s)\<lparr>dsp := rdsp r\<rparr>) Q'"
    by (rule ts_inv_other [OF i(1) rt_invD(1) [OF assms(2)]]) (simp_all add: pri pri_ok_def)
  moreover have "cl_cfg (put_rt s r)" using i(3) assms(3) by (simp add: cl_cfg_def rt_conf_def)
  moreover have "lists_ok (put_rt s r)" using i(4) assms(4,5) by (simp add: lists_ok_def owned_def)
  moreover have "ts_pri_ok ((cts s)\<lparr>dsp := rdsp r\<rparr>)" using i(5) by (simp add: ts_pri_ok_def ts_proc_def ts_pris_def pri)
  moreover have "in_class (put_rt s r) q" if "q \<in> set (practive s)" for q
    using i(6) [OF that] assms(4,5) cl_funcs_table [of "put_rt s r" s] by (simp add: in_class_def)
  ultimately show ?thesis using assms(2) i(7) by (simp add: class_inv_def pri pri_ok_def)
qed

section \<open>The result of parmsset\<close>

text \<open>
  Parameters that ask for definite values. \<open>set_done\<close>: the call returns and keeps the invariant and what it should leave alone;
  when it succeeds the process is in the class asked for and reading the parameters back gives those that
  were set, and when it fails the class and the priority of the process are as before.
\<close>

definition definite :: "kparms \<Rightarrow> bool" where
  "definite k = (case k of KpTs pa \<Rightarrow> par_uprilim pa \<noteq> TS_NOCHANGE \<and> par_upri pa \<noteq> TS_NOCHANGE \<and> par_upri pa \<le> par_uprilim pa
     | KpRt pa \<Rightarrow> rk_pri pa \<noteq> RT_NOCHANGE \<and> rk_tqntm pa \<noteq> RT_NOCHANGE \<and> rk_tqntm pa \<noteq> RT_TQDEF)"

definition set_done :: "csys \<Rightarrow> (nat \<Rightarrow> procp list) \<Rightarrow> procp \<Rightarrow> int \<Rightarrow> kparms \<Rightarrow> errno option \<Rightarrow> csys \<Rightarrow> (nat \<Rightarrow> procp list) \<Rightarrow> bool" where
  "set_done s Q p cid k e s' Q' \<longleftrightarrow> class_inv s' Q' \<and> (\<forall>q. onq Q' q \<longleftrightarrow> onq Q q) \<and> leaves p s s'
     \<and> e \<in> {None, Some EPERM, Some ENOMEM, Some EAGAIN}
     \<and> (\<forall>q\<in>set (practive s). q \<noteq> p \<longrightarrow> parmsget s' q = parmsget s q)
     \<and> (if e = None then c_cid (cprocs s' p) = cid \<and> (definite k \<longrightarrow> parmsget s' p = (cid, Some k))
        else cprocs s' = cprocs s \<and> p_pri (procs (dsp (cts s')) p) = p_pri (procs (dsp (cts s)) p) \<and> parmsget s' p = parmsget s p)"

lemma set_done_same: "class_inv s Q \<Longrightarrow> e \<in> {EPERM, ENOMEM, EAGAIN} \<Longrightarrow> set_done s Q p cid k (Some e) s Q"
  by (auto simp: set_done_def)

lemma ts_local_leaves:
  assumes "ts_local T (cts s) t" "(\<lambda>u. ts_procp (tsprocs (cts s) u)) ` T \<subseteq> {p}"
  shows "leaves p s (put_ts s t)"
proof -
  note m = assms(1) [unfolded ts_local_def]
  show ?thesis
    using moves_touches [OF conjunct1 [OF m] assms(2)] m by (auto simp: leaves_def cproc_same moves_def)
qed

lemma parmsget_other:
  assumes "class_inv s Q" "p \<in> set (practive s)"
    and "\<And>u. u \<in> set (ts_plist (cts s)) \<Longrightarrow> ts_procp (tsprocs (cts s) u) \<noteq> p \<Longrightarrow> tsprocs (cts s') u = tsprocs (cts s) u"
    and "\<And>u. u \<in> set (rt_plist (crt s)) \<Longrightarrow> rt_procp (rtprocs (crt s) u) \<noteq> p \<Longrightarrow> rtprocs (crt s') u = rtprocs (crt s) u"
    and "\<And>q. q \<noteq> p \<Longrightarrow> cprocs s' q = cprocs s q"
  shows "\<forall>q\<in>set (practive s). q \<noteq> p \<longrightarrow> parmsget s' q = parmsget s q"
proof (intro ballI impI)
  fix q assume q: "q \<in> set (practive s)" "q \<noteq> p"
  have "in_class s q" by (rule class_invD(6) [OF assms(1) q(1)])
  then show "parmsget s' q = parmsget s q"
    using assms(3,4) [of "c_clproc (cprocs s q)"] assms(5) [OF q(2)] q(2)
    by (cases "c_clfuncs (cprocs s q)")
      (simp_all add: parmsget_def CL_PARMSGET_def ts_parmsget_def rt_parmsget_def in_class_def)
qed

section \<open>New parameters in the same class\<close>

lemma ts_parmsset_done:
  assumes inv: "class_inv s Q" "calm s Q" and p: "p \<in> set (practive s)" "c_clfuncs (cprocs s p) = TsFuncs" "c_cid (cprocs s p) = cid"
    and pa: "parms_valid (cts s) pa"
  shows "\<exists>e s' Q'. CL_PARMSSET s TsFuncs (KpTs pa) (c_clproc (cprocs s p)) reqpcid reqcr = Some (e, s') \<and> set_done s Q p cid (KpTs pa) e s' Q'"
proof -
  note i = class_invD [OF inv(1)]
  let ?t = "c_clproc (cprocs s p)"
  have t: "?t \<in> set (ts_plist (cts s))" "ts_procp (tsprocs (cts s) ?t) = p" using i(6) [OF p(1)] p(2) by (simp_all add: in_class_def)
  show ?thesis
  proof (cases "\<exists>cr. reqcr = Some cr \<and> new_lim (tsprocs (cts s) ?t) pa > ts_uprilim (tsprocs (cts s) ?t) \<and> \<not> suser cr")
    case True
    then have "ts_parmsset (cts s) pa ?t reqcr = Some (Inl EPERM)" using ts_parmsset_eperm by blast
    then show ?thesis using set_done_same [OF inv(1), of EPERM] by (auto simp: CL_PARMSSET_def)
  next
    case False
    then have perm: "\<And>cr. reqcr = Some cr \<Longrightarrow> new_lim (tsprocs (cts s) ?t) pa \<le> ts_uprilim (tsprocs (cts s) ?t) \<or> suser cr" by auto
    have off: "curproc_off (cts s) Q" using inv(2) by (simp add: calm_def curproc_off_def)
    from ts_parmsset_ok [OF i(1) t(1) pa off perm] obtain t' Q' where r: "ts_parmsset (cts s) pa ?t reqcr = Some (Inr t')" "ts_inv t' Q'"
      "\<forall>q. onq Q' q \<longleftrightarrow> onq Q q" "ts_uprilim (tsprocs t' ?t) = new_lim (tsprocs (cts s) ?t) pa"
      "ts_upri (tsprocs t' ?t) = new_upri (tsprocs (cts s) ?t) pa" by blast
    note l = ts_parmsset_local [OF r(1)]
    have "class_inv (put_ts s t') Q'" by (rule class_inv_ts [OF inv(1) r(2) l]) (use t in simp)
    moreover have "definite (KpTs pa) \<Longrightarrow> parmsget (put_ts s t') p = (cid, Some (KpTs pa))"
      using r(4,5) p(2,3) by (simp add: parmsget_def CL_PARMSGET_def ts_parmsget_def definite_def new_lim_def new_upri_def)
    moreover have "\<forall>q\<in>set (practive s). q \<noteq> p \<longrightarrow> parmsget (put_ts s t') q = parmsget s q"
      by (rule parmsget_other [OF inv(1) p(1)]) (use l t(2) in \<open>force simp: ts_local_def\<close>)+
    ultimately have "set_done s Q p cid (KpTs pa) None (put_ts s t') Q'"
      using ts_local_leaves [OF l, of p] t(2) r(3) p(3) by (simp add: set_done_def)
    then show ?thesis using r(1) by (auto simp: CL_PARMSSET_def)
  qed
qed

lemma rt_parmsset_done:
  assumes inv: "class_inv s Q" "calm s Q" and p: "p \<in> set (practive s)" "c_clfuncs (cprocs s p) = RtFuncs" "c_cid (cprocs s p) = cid"
    and pa: "kparms_valid (rtv s) pa"
  shows "\<exists>e s' Q'. CL_PARMSSET s RtFuncs (KpRt pa) (c_clproc (cprocs s p)) reqpcid reqcr = Some (e, s') \<and> set_done s Q p cid (KpRt pa) e s' Q'"
proof -
  note i = class_invD [OF inv(1)]
  let ?t = "c_clproc (cprocs s p)"
  have t: "?t \<in> set (rt_plist (rtv s))" "rt_procp (rtprocs (rtv s) ?t) = p" using i(6) [OF p(1)] p(2) by (simp_all add: in_class_def)
  have off: "\<not> onq Q (curproc (rdsp (rtv s)))" using inv(2) by (simp add: calm_def)
  note ok = rt_parmsset_ok [OF i(2) t(1) pa off, of reqpcid reqcr]
  show ?thesis
  proof (cases "rt_denied (rtv s) reqpcid reqcr")
    case True
    then have "rt_parmsset (rtv s) pa ?t reqpcid reqcr = Some (Inl EPERM)" using ok by simp
    then show ?thesis using set_done_same [OF inv(1), of EPERM] by (auto simp: CL_PARMSSET_def)
  next
    case False
    with ok obtain r Q' where r: "rt_parmsset (rtv s) pa ?t reqpcid reqcr = Some (Inr r)" "rt_inv r Q'"
      "\<forall>q. onq Q' q \<longleftrightarrow> onq Q q" "touches p (rdsp (rtv s)) (rdsp r)"
      "p_flag (procs (rdsp r) p) = p_flag (procs (rdsp (rtv s)) p)"
      "rt_pri (rtprocs r ?t) = new_rtpri (rtprocs (rtv s) ?t) pa" "rt_pquantum (rtprocs r ?t) = new_quantum (rtv s) (rtprocs (rtv s) ?t) pa"
      unfolding t(2) by (auto simp: t(2))
    note l = rt_parmsset_local [OF r(1)]
    have "class_inv (put_rt s r) Q'" by (rule class_inv_rt [OF inv(1) r(2) l]) (use t in simp)
    moreover have "leaves p s (put_rt s r)"
      using r(4,5) l by (simp add: leaves_def cproc_same ts_conf_def rt_local_def) (simp add: rt_conf_def)
    moreover have "definite (KpRt pa) \<Longrightarrow> parmsget (put_rt s r) p = (cid, Some (KpRt pa))"
      using r(6,7) p(2,3) by (simp add: parmsget_def CL_PARMSGET_def rt_parmsget_def definite_def new_rtpri_def new_quantum_def)
    moreover have "\<forall>q\<in>set (practive s). q \<noteq> p \<longrightarrow> parmsget (put_rt s r) q = parmsget s q"
      by (rule parmsget_other [OF inv(1) p(1)]) (use l t(2) in \<open>force simp: rt_local_def\<close>)+
    ultimately have "set_done s Q p cid (KpRt pa) None (put_rt s r) Q'" using r(3) p(3) by (simp add: set_done_def)
    then show ?thesis using r(1) by (auto simp: CL_PARMSSET_def)
  qed
qed

section \<open>Change of class\<close>

text \<open>Leaving the old class and recording the new one, \<open>t\<close> and \<open>r\<close> being the classes after the new one is entered.\<close>

definition moved :: "csys \<Rightarrow> csys \<Rightarrow> procp \<Rightarrow> int \<Rightarrow> clfuncs \<Rightarrow> nat \<Rightarrow> csys" where
  "moved s s1 p cid f n = upd_cproc (CL_EXITCLASS s1 (c_clfuncs (cprocs s p)) (c_clproc (cprocs s p))) p
     (\<lambda>c. c\<lparr>c_cid := cid, c_clfuncs := f, c_clproc := n\<rparr>)"

lemma parmsset_change:
  assumes "reqpp = None \<or> hasprocperm (c_cred (cprocs s p)) (the (map_option (\<lambda>q. c_cred (cprocs s q)) reqpp))"
    and "cid \<noteq> c_cid (cprocs s p)" "cl_funcs s cid = Some f"
    and "CL_ENTERCLASS s f k p env (map_option (\<lambda>q. c_cred (cprocs s q)) reqpp) = Some (e, s1)" "e = None \<Longrightarrow> e_new env = Some n"
  shows "parmsset s cid k reqpp p env g = Some (e, if e = None then moved s s1 p cid f n else s1)"
proof -
  have n: "\<not> (reqpp \<noteq> None \<and> \<not> hasprocperm (c_cred (cprocs s p)) (the (map_option (\<lambda>q. c_cred (cprocs s q)) reqpp)))" using assms(1) by blast
  show ?thesis
    unfolding parmsset_def Let_def if_not_P [OF n] if_P [OF assms(2)] using assms(3-5) by (cases e) (simp_all add: moved_def)
qed

lemma to_ts_done:
  assumes inv: "class_inv s Q" "calm s Q" and p: "p \<in> set (practive s)" "c_cid (cprocs s p) \<noteq> cid"
    and k: "parms_ok s cid (KpTs pa)" and env: "new_ok s env"
  shows "\<exists>e s1 s' Q'. CL_ENTERCLASS s TsFuncs (KpTs pa) p env reqcr = Some (e, s1) \<and> (e = None \<longrightarrow> e_new env \<noteq> None)
    \<and> s' = (if e = None then moved s s1 p cid TsFuncs (the (e_new env)) else s1) \<and> set_done s Q p cid (KpTs pa) e s' Q'"
proof -
  note i = class_invD [OF inv(1)]
  have f: "cl_funcs s cid = Some TsFuncs" and pv: "parms_valid (cts s) pa" using k by (auto simp: parms_ok_def)
  have no: "e \<in> {EPERM, ENOMEM, EAGAIN} \<Longrightarrow> CL_ENTERCLASS s TsFuncs (KpTs pa) p env reqcr = Some (Some e, s) \<Longrightarrow> ?thesis" for e
    using set_done_same [OF inv(1)] by (intro exI [of _ "Some e"] exI [of _ s] exI [of _ Q]) simp
  have old: "c_clfuncs (cprocs s p) \<noteq> TsFuncs"
    using i(6) [OF p(1)] p(2) cl_funcsD(2) [OF i(3) f] cl_funcsD(2) [OF i(3), of "c_cid (cprocs s p)"] by (auto simp: in_class_def)
  show ?thesis
  proof (cases "e_new env")
    case None
    then show ?thesis by (intro no [of ENOMEM]) (simp_all add: CL_ENTERCLASS_def ts_enterclass_def)
  next
    case (Some n)
    then have n: "n \<notin> set (ts_plist (cts s))" "n \<notin> set (rt_plist (crt s))" using env by (auto simp: new_ok_def)
    show ?thesis
    proof (cases "ts_enter_denied pa reqcr")
      case True
      then show ?thesis by (intro no [of EPERM]) (simp_all add: CL_ENTERCLASS_def Some ts_enterclass_perm)
    next
      case False
      have off: "curproc_off (cts s) Q" using inv(2) by (simp add: calm_def curproc_off_def)
      obtain t Q' where t: "ts_enterclass (cts s) (Some pa) p (Some n) None = Some (Inr t)" "ts_inv t Q'" "\<forall>q. onq Q' q \<longleftrightarrow> onq Q q"
        "p_pri (procs (dsp t) p) = ts_globpri (dpe (cts s) (ts_umdpri (tsprocs t n)))"
        "same_core (tsprocs t n) (enter_proc (cts s) (Some pa) p n)"
        using ts_enterclass_ok [OF i(1) n(1), of "Some pa" p None] pv i(7) [OF p(1)] off by auto
      note l = ts_enterclass_local [OF t(1)]
      have en: "CL_ENTERCLASS s TsFuncs (KpTs pa) p env reqcr = Some (None, put_ts s t)"
        by (simp add: CL_ENTERCLASS_def Some ts_enterclass_perm(2) [OF False] t(1))
      let ?old = "c_clproc (cprocs s p)"
      let ?r = "if c_clfuncs (cprocs s p) = RtFuncs then rt_exitclass (rtv (put_ts s t)) ?old else crt s"
      let ?s = "s\<lparr>cts := t, crt := ?r, cprocs := (cprocs s)(p := (cprocs s p)\<lparr>c_cid := cid, c_clfuncs := TsFuncs, c_clproc := n\<rparr>)\<rparr>"
      have mv: "moved s (put_ts s t) p cid TsFuncs n = ?s"
        using old by (cases "c_clfuncs (cprocs s p)") (simp_all add: moved_def CL_EXITCLASS_def upd_cproc_def put_rt_def put_ts_def rtv_def rt_exitclass_def)
      have un: "ts_umdpri (tsprocs t n) = clamp (ts_maxumdpri (cts s)) (ts_cpupri (tsprocs t n) + ts_upri (tsprocs t n))"
        using ts_invD(3) [OF t(2), of n] l by (simp add: tsproc_ok_def ts_conf_def)
      then have pri: "p_pri (procs (dsp t) p) \<in> ts_pris (cts s)"
        using ts_cfgD(4) [OF ts_invD(2) [OF i(1)]] clamp_range [OF ts_cfgD(1) [OF ts_invD(2) [OF i(1)]]] ts_pris_in(1) unfolding t(4) by metis
      have np: "npri (dsp t) = npri (dsp (cts s))" using l by (simp add: moves_def)
      have tch: "touches p (dsp (cts s)) (dsp t)" using l moves_touches by blast
      have rt: "rt_inv (rt_exitclass (rtv s) u\<lparr>rdsp := dsp t\<rparr>) Q'" if "c_clfuncs (cprocs s p) = RtFuncs \<longrightarrow> u = ?old" "c_clfuncs (cprocs s p) \<noteq> RtFuncs \<longrightarrow> u \<notin> set (rt_plist (crt s))" for u
      proof (rule rt_inv_other [OF rt_exitclass_ok [OF i(2)] ts_invD(1) [OF t(2)]])
        fix v assume v: "v \<in> set (rt_plist (rt_exitclass (rtv s) u))"
        have "distinct (rt_plist (rtv s))" using rt_invD(3) [OF i(2)] by (simp add: rt_list_ok_def)
        then have "v \<in> set (rt_plist (crt s))" "v \<noteq> u" using v by (auto simp: rt_exitclass_def)
        then have "rt_procp (rtprocs (crt s) v) \<noteq> p" using lists_okD(2) [OF i(4)] that by (auto simp: owned_def)
        then show "p_pri (procs (dsp t) (rt_procp (rtprocs (rt_exitclass (rtv s) u) v))) = p_pri (procs (rdsp (rt_exitclass (rtv s) u)) (rt_procp (rtprocs (rt_exitclass (rtv s) u) v)))"
          using tch by (simp add: rt_exitclass_def touches_def)
      qed (simp add: np rt_exitclass_def)
      have rr: "rt_inv (?r\<lparr>rdsp := dsp t\<rparr>) Q'"
      proof (cases "c_clfuncs (cprocs s p) = RtFuncs")
        case True
        then show ?thesis using rt [of ?old] by (simp add: rt_exitclass_def rtv_def)
      next
        case False
        then show ?thesis using rt [of n] n(2) by (simp add: rt_exitclass_def rtv_def remove1_idem)
      qed
      have dist: "distinct (rt_plist (crt s))" using rt_invD(3) [OF i(2)] by (simp add: rt_list_ok_def)
      have "class_inv ?s Q'"
      proof (rule class_inv_join [OF inv(1) p(1) f t(2) _ _ _ _ rr])
        show "u \<in> set (ts_plist t) \<longleftrightarrow> u \<in> set (ts_plist (cts s)) \<and> \<not> owned s TsFuncs u p \<or> TsFuncs = TsFuncs \<and> u = n" for u
          using l old by (auto simp: owned_def)
        show "ts_procp (tsprocs t u) = (if TsFuncs = TsFuncs \<and> u = n then p else ts_procp (tsprocs (cts s) u))" for u using l by simp
        show "u \<in> set (rt_plist ?r) \<longleftrightarrow> u \<in> set (rt_plist (crt s)) \<and> \<not> owned s RtFuncs u p \<or> TsFuncs = RtFuncs \<and> u = n" for u
          using dist p(1) by (auto simp: owned_def rt_exitclass_def)
        show "rt_procp (rtprocs ?r u) = (if TsFuncs = RtFuncs \<and> u = n then p else rt_procp (rtprocs (crt s) u))" for u
          by (simp add: rt_exitclass_def)
        show "pri_ok (dsp t) p" using ts_pris_range [OF ts_invD(2) [OF i(1)] pri] np by (simp add: pri_ok_def)
      qed (use l n pri tch lists_okD(3) [OF i(4)] in \<open>simp_all add: rt_conf_def rt_exitclass_def\<close>)
      moreover have "leaves p s ?s"
        using l tch by (auto simp: leaves_def rt_conf_def rt_exitclass_def moves_def)
      moreover have "definite (KpTs pa) \<Longrightarrow> parmsget ?s p = (cid, Some (KpTs pa))"
        using t(5) by (simp add: parmsget_def CL_PARMSGET_def ts_parmsget_def definite_def same_core_def enter_proc_def TS_NEWUMDPRI_def Let_def)
      moreover have "\<forall>q\<in>set (practive s). q \<noteq> p \<longrightarrow> parmsget ?s q = parmsget s q"
        by (rule parmsget_other [OF inv(1) p(1)]) (use l n in \<open>auto simp: rt_exitclass_def\<close>)
      ultimately have "set_done s Q p cid (KpTs pa) None ?s Q'" using t(3) by (simp add: set_done_def)
      then show ?thesis using en mv Some by (intro exI [of _ None] exI [of _ "put_ts s t"] exI [of _ ?s] exI [of _ Q']) simp
    qed
  qed
qed

lemma to_rt_done:
  assumes inv: "class_inv s Q" "calm s Q" and p: "p \<in> set (practive s)" "c_cid (cprocs s p) \<noteq> cid"
    and k: "parms_ok s cid (KpRt pa)" and env: "new_ok s env"
  shows "\<exists>e s1 s' Q'. CL_ENTERCLASS s RtFuncs (KpRt pa) p env reqcr = Some (e, s1) \<and> (e = None \<longrightarrow> e_new env \<noteq> None)
    \<and> s' = (if e = None then moved s s1 p cid RtFuncs (the (e_new env)) else s1) \<and> set_done s Q p cid (KpRt pa) e s' Q'"
proof -
  note i = class_invD [OF inv(1)]
  have f: "cl_funcs s cid = Some RtFuncs" and pv: "kparms_valid (rtv s) pa" using k by (auto simp: parms_ok_def)
  have old: "c_clfuncs (cprocs s p) \<noteq> RtFuncs"
    using i(6) [OF p(1)] p(2) cl_funcsD(3) [OF i(3) f] cl_funcsD(3) [OF i(3), of "c_cid (cprocs s p)"] by (auto simp: in_class_def)
  have fresh: "rt_fresh (rtv s) n p" if "e_new env = Some n" for n
    using env that lists_okD(2) [OF i(4)] old by (auto simp: rt_fresh_def new_ok_def owned_def)
  let ?e = "rt_enter_err (procs (dsp (cts s)) p) (e_memlow env) (e_swapok env) (e_new env) reqcr"
  have un: "unloaded_ok (rdsp (rtv s)) Q p" "\<not> onq Q (curproc (rdsp (rtv s)))" "pri_ok (rdsp (rtv s)) p"
    using inv(2) p(1) i(7) [OF p(1)] by (simp_all add: calm_def)
  have pv': "\<And>k. Some pa = Some k \<Longrightarrow> kparms_valid (rtv s) k" using pv by simp
  have "\<exists>r Q'. rt_enterclass (rtv s) (Some pa) p (e_memlow env) (e_swapok env) (e_new env) reqcr
        = Some (rt_enter_err (procs (rdsp (rtv s)) p) (e_memlow env) (e_swapok env) (e_new env) reqcr, r)
     \<and> rt_inv r Q' \<and> (\<forall>q. onq Q' q \<longleftrightarrow> onq Q q) \<and> touches p (rdsp (rtv s)) (rdsp r)
     \<and> rt_dptbl r = rt_dptbl (rtv s) \<and> rt_maxpri r = rt_maxpri (rtv s) \<and> rt_cid r = rt_cid (rtv s)
     \<and> (p_flag (procs (rdsp r) p) = p_flag (procs (rdsp (rtv s)) p) \<or> p_flag (procs (rdsp r) p) AND SLOAD \<noteq> 0)
     \<and> (if rt_enter_err (procs (rdsp (rtv s)) p) (e_memlow env) (e_swapok env) (e_new env) reqcr = None
        then rt_plist r = the (e_new env) # rt_plist (rtv s) \<and> (\<forall>u. u \<noteq> the (e_new env) \<longrightarrow> rtprocs r u = rtprocs (rtv s) u)
          \<and> rt_procp (rtprocs r (the (e_new env))) = p \<and> rt_pri (rtprocs r (the (e_new env))) = parms_pri (Some pa)
          \<and> rt_pquantum (rtprocs r (the (e_new env))) = parms_quantum (rtv s) (Some pa)
          \<and> p_pri (procs (rdsp r) p) = rt_globpri (rdpe (rtv s) (parms_pri (Some pa)))
          \<and> p_flag (procs (rdsp r) p) AND SLOAD \<noteq> 0
        else rt_plist r = rt_plist (rtv s) \<and> rtprocs r = rtprocs (rtv s) \<and> p_pri (procs (rdsp r) p) = p_pri (procs (rdsp (rtv s)) p))"
    (is "\<exists>r Q'. ?full r Q'")
    by (rule rt_enterclass_ok [OF i(2) un(1,3,2) fresh pv'])
  then obtain r Q' where full: "?full r Q'" by blast
  then have r: "rt_enterclass (rtv s) (Some pa) p (e_memlow env) (e_swapok env) (e_new env) reqcr = Some (?e, r)"
    "rt_inv r Q'" "\<forall>q. onq Q' q \<longleftrightarrow> onq Q q" "touches p (dsp (cts s)) (rdsp r)" "rt_conf r = rt_conf (crt s)"
    "p_flag (procs (rdsp r) p) = p_flag (procs (dsp (cts s)) p) \<or> p_flag (procs (rdsp r) p) AND SLOAD \<noteq> 0"
    by (simp_all add: rt_conf_def)
  have en: "CL_ENTERCLASS s RtFuncs (KpRt pa) p env reqcr = Some (?e, put_rt s r)" by (simp add: CL_ENTERCLASS_def r(1))
  have lv: "leaves p s (put_rt s r)" using r(4-6) by (simp add: leaves_def cproc_same ts_conf_def)
  show ?thesis
  proof (cases "?e = None")
    case False
    with full have same: "rt_plist r = rt_plist (crt s)" "rtprocs r = rtprocs (crt s)" "p_pri (procs (rdsp r) p) = p_pri (procs (dsp (cts s)) p)" by simp_all
    have oth: "\<forall>q\<in>set (practive s). q \<noteq> p \<longrightarrow> parmsget (put_rt s r) q = parmsget s q"
      by (rule parmsget_other [OF inv(1) p(1)]) (use same in auto)
    have "?e \<in> {None, Some EPERM, Some ENOMEM, Some EAGAIN}" by (simp add: rt_enter_err_def)
    moreover have "parmsget (put_rt s r) p = parmsget s p"
      using same by (cases "c_clfuncs (cprocs s p)") (simp_all add: parmsget_def CL_PARMSGET_def ts_parmsget_def rt_parmsget_def)
    ultimately have "set_done s Q p cid (KpRt pa) ?e (put_rt s r) Q'"
      using class_inv_failed [OF inv(1) r(2,5) same(1,2) r(4) same(3)] lv r(3) same(3) oth False by (auto simp: set_done_def)
    then show ?thesis using en False by (intro exI [of _ ?e] exI [of _ "put_rt s r"] exI [of _ Q']) auto
  next
    case True
    then obtain n where n: "e_new env = Some n" by (auto simp: rt_enter_err_def split: if_splits)
    then have nn: "n \<notin> set (ts_plist (cts s))" "n \<notin> set (rt_plist (crt s))" using env by (auto simp: new_ok_def)
    have l: "rt_plist r = n # rt_plist (crt s)" "\<And>u. u \<noteq> n \<Longrightarrow> rtprocs r u = rtprocs (crt s) u" "rt_procp (rtprocs r n) = p"
      "rt_pri (rtprocs r n) = parms_pri (Some pa)" "rt_pquantum (rtprocs r n) = parms_quantum (rtv s) (Some pa)"
      "p_pri (procs (rdsp r) p) = rt_globpri (rdpe (rtv s) (parms_pri (Some pa)))"
      using full True n by auto
    let ?old = "c_clproc (cprocs s p)"
    let ?d = "(cts s)\<lparr>dsp := rdsp r\<rparr>"
    let ?t = "if c_clfuncs (cprocs s p) = TsFuncs then ts_exitclass ?d ?old else ?d"
    let ?s = "s\<lparr>cts := ?t, crt := r, cprocs := (cprocs s)(p := (cprocs s p)\<lparr>c_cid := cid, c_clfuncs := RtFuncs, c_clproc := n\<rparr>)\<rparr>"
    have mv: "moved s (put_rt s r) p cid RtFuncs n = ?s"
      using old by (cases "c_clfuncs (cprocs s p)") (simp_all add: moved_def CL_EXITCLASS_def upd_cproc_def put_rt_def put_ts_def ts_exitclass_def)
    have td: "dsp ?t = rdsp r" "ts_conf ?t = ts_conf (cts s)" "tsprocs ?t = tsprocs (cts s)" by (simp_all add: ts_exitclass_def ts_conf_def)
    have np: "npri (rdsp r) = npri (dsp (cts s))" using r(4) by (simp add: touches_def)
    have rng: "0 \<le> p_pri (procs (rdsp r) p) \<and> p_pri (procs (rdsp r) p) < int (npri (rdsp r))"
      using rt_cfgD(2,3) [OF rt_invD(2) [OF i(2)]] parms_pri_range [OF rt_invD(2) [OF i(2)], of "Some pa"] pv' np unfolding l(6) by simp
    then have pk: "pri_ok (rdsp r) p" by (simp add: pri_ok_def)
    have "pri_ok (dsp (cts s)) q \<Longrightarrow> pri_ok (rdsp r) q" for q
      using pk r(4) by (cases "q = p") (auto simp: pri_ok_def touches_def)
    then have "ts_inv ?d Q'" using ts_inv_other [OF i(1) rt_invD(1) [OF r(2)] np] by blast
    then have tt: "ts_inv ?t Q'" using ts_exitclass_ok by simp
    have rr: "rt_inv (r\<lparr>rdsp := dsp ?t\<rparr>) Q'" using r(2) by (simp add: td(1))
    have dist: "distinct (ts_plist (cts s))" by (rule lists_okD(3) [OF i(4)])
    have "class_inv ?s Q'"
    proof (rule class_inv_join [OF inv(1) p(1) f tt td(2) _ _ _ rr r(5)])
      show "u \<in> set (ts_plist ?t) \<longleftrightarrow> u \<in> set (ts_plist (cts s)) \<and> \<not> owned s TsFuncs u p \<or> RtFuncs = TsFuncs \<and> u = n" for u
        using dist p(1) by (auto simp: owned_def ts_exitclass_def)
      show "ts_procp (tsprocs ?t u) = (if RtFuncs = TsFuncs \<and> u = n then p else ts_procp (tsprocs (cts s) u))" for u
        by (simp add: ts_exitclass_def)
      show "u \<in> set (rt_plist r) \<longleftrightarrow> u \<in> set (rt_plist (crt s)) \<and> \<not> owned s RtFuncs u p \<or> RtFuncs = RtFuncs \<and> u = n" for u
        using l(1) old by (auto simp: owned_def)
      show "rt_procp (rtprocs r u) = (if RtFuncs = RtFuncs \<and> u = n then p else rt_procp (rtprocs (crt s) u))" for u
        using l(2) [of u] l(3) by (cases "u = n") simp_all
    qed (use nn pk r(4) dist in \<open>simp_all add: td(1) ts_exitclass_def\<close>)
    moreover have "leaves p s ?s"
      using r(4-6) td by (auto simp: leaves_def)
    moreover have "definite (KpRt pa) \<Longrightarrow> parmsget ?s p = (cid, Some (KpRt pa))"
      using l(4,5) by (simp add: parmsget_def CL_PARMSGET_def rt_parmsget_def definite_def parms_pri_def parms_quantum_def)
    moreover have "u \<in> set (rt_plist (crt s)) \<Longrightarrow> rtprocs r u = rtprocs (crt s) u" for u using l(2) [of u] nn(2) by auto
    then have "\<forall>q\<in>set (practive s). q \<noteq> p \<longrightarrow> parmsget ?s q = parmsget s q"
      by (intro parmsget_other [OF inv(1) p(1)]) (simp_all add: td(3))
    ultimately have "set_done s Q p cid (KpRt pa) None ?s Q'" using r(3) by (simp add: set_done_def)
    then show ?thesis using en mv n True by (intro exI [of _ None] exI [of _ "put_rt s r"] exI [of _ ?s] exI [of _ Q']) simp
  qed
qed

section \<open>parmsset\<close>

lemma parmsset_done:
  assumes inv: "class_inv s Q" "calm s Q" and p: "p \<in> set (practive s)" and k: "parms_ok s cid k" and env: "new_ok s env"
  shows "\<exists>e s' Q'. parmsset s cid k reqpp p env g = Some (e, s') \<and> set_done s Q p cid k e s' Q'
    \<and> (reqpp \<noteq> None \<and> \<not> hasprocperm (c_cred (cprocs s p)) (c_cred (cprocs s (the reqpp))) \<longrightarrow> e = Some EPERM \<and> s' = s)"
proof (cases "reqpp = None \<or> hasprocperm (c_cred (cprocs s p)) (the (map_option (\<lambda>q. c_cred (cprocs s q)) reqpp))")
  case False
  then have "reqpp \<noteq> None \<and> \<not> hasprocperm (c_cred (cprocs s p)) (the (map_option (\<lambda>q. c_cred (cprocs s q)) reqpp))" by simp
  then have "parmsset s cid k reqpp p env g = Some (Some EPERM, s)" unfolding parmsset_def Let_def by (rule if_P)
  then show ?thesis using set_done_same [OF inv(1), of EPERM] by auto
next
  case True
  note perm = True
  have noperm: "\<not> (reqpp \<noteq> None \<and> \<not> hasprocperm (c_cred (cprocs s p)) (the (map_option (\<lambda>q. c_cred (cprocs s q)) reqpp)))" using perm by blast
  have conc: ?thesis if "\<exists>e s' Q'. parmsset s cid k reqpp p env g = Some (e, s') \<and> set_done s Q p cid k e s' Q'"
    using that perm by (cases reqpp) auto
  note i = class_invD [OF inv(1)]
  show ?thesis
  proof (cases "cid = c_cid (cprocs s p)")
    case True
    have f: "cl_funcs s cid = Some (c_clfuncs (cprocs s p))" using i(6) [OF p] True by (simp add: in_class_def)
    have run: "parmsset s cid k reqpp p env g = CL_PARMSSET s (c_clfuncs (cprocs s p)) k (c_clproc (cprocs s p))
        (case reqpp of None \<Rightarrow> g | Some q \<Rightarrow> c_cid (cprocs s q)) (map_option (\<lambda>q. c_cred (cprocs s q)) reqpp)"
      unfolding parmsset_def Let_def if_not_P [OF noperm] if_not_P [OF not_not [THEN iffD2, OF True]] ..
    show ?thesis
    proof (cases k)
      case (KpTs pa)
      with k f have "c_clfuncs (cprocs s p) = TsFuncs" "parms_valid (cts s) pa" by (auto simp: parms_ok_def)
      then have "\<exists>e s' Q'. parmsset s cid k reqpp p env g = Some (e, s') \<and> set_done s Q p cid k e s' Q'"
        unfolding run by (simp only: KpTs ts_parmsset_done [OF inv p _ True [symmetric]])
      then show ?thesis by (rule conc)
    next
      case (KpRt pa)
      with k f have "c_clfuncs (cprocs s p) = RtFuncs" "kparms_valid (rtv s) pa" by (auto simp: parms_ok_def)
      then have "\<exists>e s' Q'. parmsset s cid k reqpp p env g = Some (e, s') \<and> set_done s Q p cid k e s' Q'"
        unfolding run by (simp only: KpRt rt_parmsset_done [OF inv p _ True [symmetric]])
      then show ?thesis by (rule conc)
    qed
  next
    case False
    obtain f where f: "cl_funcs s cid = Some f" "\<exists>e s1 s' Q'. CL_ENTERCLASS s f k p env (map_option (\<lambda>q. c_cred (cprocs s q)) reqpp) = Some (e, s1)
        \<and> (e = None \<longrightarrow> e_new env \<noteq> None) \<and> s' = (if e = None then moved s s1 p cid f (the (e_new env)) else s1) \<and> set_done s Q p cid k e s' Q'"
      using to_ts_done [OF inv p _ _ env, of cid] to_rt_done [OF inv p _ _ env, of cid] k False
      by (cases k) (auto simp: parms_ok_def)
    then show ?thesis
      using parmsset_change [OF perm False f(1), of k env] by - (rule conc, fastforce)
  qed
qed

end
