(* ===== verification/KClassProp.thy ===== *)
theory KClassProp
  imports KClassRun KRtProp
begin

text \<open>
  Properties of \<^verbatim>\<open>parmsset\<close> and of the cases \<^verbatim>\<open>PC_SETPARMS\<close> and \<^verbatim>\<open>PC_GETPARMS\<close> of \<^verbatim>\<open>priocntl\<close>. The last two interpret the
  contract of \<open>KProcset\<close> between \<^verbatim>\<open>dotoprocs\<close> and the function it calls.
\<close>

section \<open>The check of parameters\<close>

lemma rt_parmsin_valid:
  assumes "rt_parmsin s p c cr tc = Some (Inr k)"
  shows "kparms_valid s k"
proof (cases "(rp_pri p < 0 \<or> rp_pri p > rt_maxpri s) \<and> rp_pri p \<noteq> RT_NOCHANGE")
  case True
  then have "rt_parmsin s p c cr tc = Some (Inl EINVAL)" unfolding rt_parmsin_def by (rule if_P)
  with assms show ?thesis by simp
next
  case False
  from assms [unfolded rt_parmsin_def if_not_P [OF False]] obtain q where
    "(case q of Inl e \<Rightarrow> Some (Inl e)
       | Inr tq \<Rightarrow>
         let k = \<lparr>rk_pri = rp_pri p, rk_tqntm = tq\<rparr> in
         Some (case cr of None \<Rightarrow> Inr k
           | Some cr \<Rightarrow>
               if tc = rt_cid s then
                 if c \<noteq> rt_cid s \<and> \<not> suser cr then Inl EPERM else Inr k
               else if \<not> suser cr then Inl EPERM else Inr k)) = Some (Inr k)"
    by (auto simp only: bind_eq_Some_conv sum.inject option.inject split: if_split_asm)
  then have "rk_pri k = rp_pri p" by (cases q) (auto simp: Let_def split: option.splits if_splits)
  with False show ?thesis by (auto simp: kparms_valid_def)
qed

lemma hrt_tohz_returns: "hrt_res h \<noteq> 0 \<Longrightarrow> \<exists>e h'. hrt_tohz h rnd = Some (e, h')"
  by (auto simp: hrt_tohz_ok)

lemma rt_parmsin_returns: "\<exists>r. rt_parmsin s p c cr tc = Some r"
  using hrt_tohz_returns [of "\<lparr>hrt_secs = rp_tqsecs p, hrt_rem = word_of_int (rp_tqnsecs p), hrt_res = NANOSEC\<rparr>" HRT_RNDUP]
  by (auto simp: rt_parmsin_def Let_def split: sum.split)

lemma parmsin_ok:
  assumes "cl_cfg s"
  shows "\<exists>r. parmsin s cid u None g = Some r" and "parmsin s cid u None g = Some (Inr k) \<Longrightarrow> parms_ok s cid k"
proof -
  have "(\<exists>r. parmsin s cid u None g = Some r) \<and> (parmsin s cid u None g = Some (Inr k) \<longrightarrow> parms_ok s cid k)"
  proof (cases "cid \<ge> nclass s \<or> cid < 1")
    case True
    then show ?thesis by (auto simp: parmsin_def)
  next
    case False
    then obtain f where f: "cl_funcs s cid = Some f" using cl_funcs_ex [of cid s] by auto
    have "f \<noteq> SysFuncs" using cl_funcsD(1) [OF assms f] False by auto
    moreover obtain r where r: "rt_parmsin (rtv s) (up_rt u) g None g = Some r" using rt_parmsin_returns by blast
    ultimately show ?thesis
      using False f rt_parmsin_valid [of "rtv s" "up_rt u" g None g]
      by (cases f; cases r) (auto simp: parmsin_def CL_PARMSIN_def parms_ok_def dest!: ts_parmsin_valid split: option.splits)
  qed
  then show "\<exists>r. parmsin s cid u None g = Some r" "parmsin s cid u None g = Some (Inr k) \<Longrightarrow> parms_ok s cid k" by simp_all
qed

section \<open>Setting the parameters of the members of a set\<close>

definition permitted :: "csys \<Rightarrow> procp \<Rightarrow> procp \<Rightarrow> bool" where
  "permitted s cur q = hasprocperm (c_cred (cprocs s q)) (c_cred (cprocs s cur))"

definition untouched :: "csys \<Rightarrow> csys \<Rightarrow> procp \<Rightarrow> bool" where
  "untouched s s' q \<longleftrightarrow> cprocs s' q = cprocs s q \<and> p_pri (procs (dsp (cts s')) q) = p_pri (procs (dsp (cts s)) q) \<and> parmsget s' q = parmsget s q"

definition ident :: "cproc \<Rightarrow> cred \<times> int \<times> int \<times> int \<times> int" where
  "ident c = (c_cred c, c_pid c, c_ppid c, c_pgrp c, c_sid c)"

definition frozen :: "csys \<Rightarrow> csys \<Rightarrow> bool" where
  "frozen s s' \<longleftrightarrow> practive s' = practive s \<and> proc_init s' = proc_init s \<and> cl_table s' = cl_table s
     \<and> ts_conf (cts s') = ts_conf (cts s) \<and> rt_conf (crt s') = rt_conf (crt s)
     \<and> (\<forall>q. ident (cprocs s' q) = ident (cprocs s q))"

definition took :: "csys \<Rightarrow> procp \<Rightarrow> int \<Rightarrow> kparms \<Rightarrow> bool" where
  "took s q cid k \<longleftrightarrow> c_cid (cprocs s q) = cid \<and> (definite k \<longrightarrow> parmsget s q = (cid, Some k))"

lemma untouched_refl [simp]: "untouched s s q"
  by (simp add: untouched_def)

lemma untouched_trans: "untouched s s1 q \<Longrightarrow> untouched s1 s' q \<Longrightarrow> untouched s s' q"
  by (simp add: untouched_def)

lemma frozen_refl [simp]: "frozen s s"
  by (simp add: frozen_def)

lemma frozen_trans: "frozen s s1 \<Longrightarrow> frozen s1 s' \<Longrightarrow> frozen s s'"
  by (simp add: frozen_def)

lemma frozen_permitted: "frozen s s' \<Longrightarrow> permitted s' cur q = permitted s cur q"
  by (simp add: frozen_def ident_def permitted_def)

lemma leaves_frozen: "leaves p s s' \<Longrightarrow> frozen s s'"
  unfolding frozen_def
proof (intro conjI allI)
  fix q assume l: "leaves p s s'"
  then obtain c f n where "cprocs s' p = (cprocs s p)\<lparr>c_cid := c, c_clfuncs := f, c_clproc := n\<rparr>" by (auto simp: leaves_def)
  with l show "ident (cprocs s' q) = ident (cprocs s q)" by (cases "q = p") (simp_all add: leaves_def ident_def)
qed (simp_all add: leaves_def)

lemma parms_ok_frozen: "frozen s s' \<Longrightarrow> parms_ok s' cid k = parms_ok s cid k"
  using cl_funcs_table [of s' s]
  by (cases k) (auto simp: parms_ok_def frozen_def nclass_def parms_valid_def kparms_valid_def ts_conf_def rt_conf_def)

lemma ev_rtv [simp]: "rtv (s\<lparr>ev_newpris := e\<rparr>) = rtv s"
  by (simp add: rtv_def)

lemma ev_parmsget [simp]: "parmsget (s\<lparr>ev_newpris := e\<rparr>) q = parmsget s q"
  by (cases "c_clfuncs (cprocs s q)") (simp_all add: parmsget_def CL_PARMSGET_def)

lemma ev_sel:
  "class_inv (s\<lparr>ev_newpris := e\<rparr>) Q = class_inv s Q" "calm (s\<lparr>ev_newpris := e\<rparr>) Q = calm s Q"
  "frozen s0 (s\<lparr>ev_newpris := e\<rparr>) = frozen s0 s" "untouched s0 (s\<lparr>ev_newpris := e\<rparr>) q = untouched s0 s q"
  by (simp_all add: class_inv_def cl_cfg_def lists_ok_def owned_def in_class_def cl_funcs_def calm_def frozen_def untouched_def)

lemma took_untouched: "took s q cid k \<Longrightarrow> untouched s s' q \<Longrightarrow> took s' q cid k"
  by (simp add: took_def untouched_def)

lemma set_done_others:
  assumes "set_done s Q p cid k e s' Q'" "q \<in> set (practive s)" "q \<noteq> p"
  shows "untouched s s' q"
  using assms by (simp add: set_done_def untouched_def leaves_def touches_def)

text \<open>
  The walk over processes \<open>pl\<close>: \<open>walked\<close> is what holds of it however it ends. When no error ends it, every process
  either has the class asked for and, if they are definite, the parameters, or it is as it was and the caller is told so by \<^verbatim>\<open>EPERM\<close>.
\<close>

definition walked :: "csys \<Rightarrow> (nat \<Rightarrow> procp list) \<Rightarrow> procp \<Rightarrow> procp list \<Rightarrow> csys \<Rightarrow> (nat \<Rightarrow> procp list) \<Rightarrow> bool" where
  "walked s Q cur pl s' Q' \<longleftrightarrow> class_inv s' Q' \<and> calm s' Q' \<and> (\<forall>q. onq Q' q \<longleftrightarrow> onq Q q) \<and> frozen s s'
     \<and> (\<forall>q\<in>set (practive s). q \<notin> set pl \<or> \<not> permitted s cur q \<longrightarrow> untouched s s' q)"

lemma setparms_step:
  assumes "class_inv s Q" "calm s Q" "p \<in> set (practive s)" "parms_ok s cid k" "\<And>s p. new_ok s (env s p)"
  shows "\<exists>r s' se' Q'. setparms env cid k cur p (s, se) = Some (r, s', se') \<and> walked s Q cur [p] s' Q'
    \<and> (r = CbNext \<and> (took s' p cid k \<and> se' = se \<and> permitted s cur p \<or> untouched s s' p \<and> se' = Some EPERM) \<or> (r = CbErr ENOMEM \<or> r = CbErr EAGAIN) \<and> se' = se)"
proof -
  from parmsset_done [OF assms(1-4,5), of "Some cur" p 0] obtain e s1 Q1 where
    r: "parmsset s cid k (Some cur) p (env s p) 0 = Some (e, s1)" "set_done s Q p cid k e s1 Q1"
    "\<not> permitted s cur p \<Longrightarrow> e = Some EPERM \<and> s1 = s" by (auto simp: permitted_def)
  note d = r(2) [unfolded set_done_def]
  have c: "calm s1 Q1" using calm_leaves [OF assms(2)] d by blast
  have fr: "frozen s s1" using leaves_frozen d by blast
  have un: "untouched s s1 p" if "e \<noteq> None" using d that by (auto simp: untouched_def)
  have w: "walked s Q cur [p] s1 Q1"
    using d c fr set_done_others [OF r(2)] r(3) by (auto simp: walked_def)
  have wv: "walked s Q cur [p] (s1\<lparr>ev_newpris := x\<rparr>) Q1" for x using w by (simp add: walked_def ev_sel)
  from d consider "e = None" | "e = Some EPERM" | "e = Some ENOMEM" | "e = Some EAGAIN" by blast
  then show ?thesis
  proof cases
    case 1
    then have "took s1 p cid k" "permitted s cur p" using d r(3) by (auto simp: took_def)
    then show ?thesis using 1 r(1) wv by (intro exI conjI) (auto simp: setparms_def took_def)
  qed (use r(1) w un in \<open>auto simp: setparms_def\<close>)
qed

lemma visit_setparms:
  assumes "class_inv s Q" "calm s Q" "set pl \<subseteq> set (practive s)" "distinct pl" "parms_ok s cid k" "\<And>s p. new_ok s (env s p)"
  shows "\<exists>r s' se' Q'. visit (setparms env cid k cur) pl (s, se) = Some (r, s', se') \<and> walked s Q cur pl s' Q'
    \<and> (r = CbNext \<and> (\<forall>q\<in>set pl. took s' q cid k \<and> permitted s cur q \<or> untouched s s' q \<and> se' = Some EPERM)
         \<and> (se' = se \<or> se' = Some EPERM) \<or> r = CbErr ENOMEM \<or> r = CbErr EAGAIN)"
  using assms(1-5)
proof (induction pl arbitrary: s Q se)
  case Nil
  then show ?case by (auto simp: walked_def)
next
  case (Cons p pl)
  have p: "p \<in> set (practive s)" "p \<notin> set pl" "set pl \<subseteq> set (practive s)" "distinct pl" using Cons.prems(3,4) by auto
  from setparms_step [OF Cons.prems(1,2) p(1) Cons.prems(5), where env = env and cur = cur and se = se] assms(6) obtain r s1 se1 Q1 where
    st: "setparms env cid k cur p (s, se) = Some (r, s1, se1)" and w: "walked s Q cur [p] s1 Q1"
    and r: "r = CbNext \<and> (took s1 p cid k \<and> se1 = se \<and> permitted s cur p \<or> untouched s s1 p \<and> se1 = Some EPERM) \<or> r = CbErr ENOMEM \<or> r = CbErr EAGAIN" by blast
  note w' = w [unfolded walked_def]
  show ?case
  proof (cases "r = CbNext")
    case False
    have "walked s Q cur (p # pl) s1 Q1" using w by (auto simp: walked_def)
    then show ?thesis using False r st by auto
  next
    case True
    have pr: "practive s1 = practive s" using w' by (simp add: frozen_def)
    have prem: "class_inv s1 Q1" "calm s1 Q1" "set pl \<subseteq> set (practive s1)" "parms_ok s1 cid k"
      using w' p(3) Cons.prems(5) parms_ok_frozen [of s s1] by (simp_all add: pr)
    from Cons.IH [OF prem(1-3) p(4) prem(4), of se1] obtain r' s' se' Q' where
      v: "visit (setparms env cid k cur) pl (s1, se1) = Some (r', s', se')" and w1: "walked s1 Q1 cur pl s' Q'"
      and r': "r' = CbNext \<and> (\<forall>q\<in>set pl. took s' q cid k \<and> permitted s1 cur q \<or> untouched s1 s' q \<and> se' = Some EPERM)
         \<and> (se' = se1 \<or> se' = Some EPERM) \<or> r' = CbErr ENOMEM \<or> r' = CbErr EAGAIN" by blast
    have fr: "frozen s s1" using w' by blast
    note w1' = w1 [unfolded walked_def pr]
    have pm: "permitted s1 cur q = permitted s cur q" for q by (rule frozen_permitted [OF fr])
    have un1: "untouched s s1 q" if "q \<in> set (practive s)" "q \<noteq> p \<or> \<not> permitted s cur q" for q using w' that by auto
    have un2: "untouched s1 s' q" if "q \<in> set (practive s)" "q \<notin> set pl \<or> \<not> permitted s cur q" for q using w1' that by (auto simp: pm)
    have "walked s Q cur (p # pl) s' Q'"
      unfolding walked_def
    proof (intro conjI ballI impI)
      fix q assume "q \<in> set (practive s)" "q \<notin> set (p # pl) \<or> \<not> permitted s cur q"
      then show "untouched s s' q" using untouched_trans [OF un1 un2, of q] by auto
    qed (use w1' w' frozen_trans [OF fr] in auto)
    moreover have "(\<forall>q\<in>set (p # pl). took s' q cid k \<and> permitted s cur q \<or> untouched s s' q \<and> se' = Some EPERM) \<and> (se' = se \<or> se' = Some EPERM)"
      if n: "r' = CbNext"
    proof -
      have a: "took s1 p cid k \<and> se1 = se \<and> permitted s cur p \<or> untouched s s1 p \<and> se1 = Some EPERM" using r True by auto
      have b: "\<forall>q\<in>set pl. took s' q cid k \<and> permitted s1 cur q \<or> untouched s1 s' q \<and> se' = Some EPERM" "se' = se1 \<or> se' = Some EPERM" using r' n by auto
      have "untouched s1 s' p" using un2 p by blast
      then have "took s' p cid k \<and> permitted s cur p \<or> untouched s s' p \<and> se' = Some EPERM"
        using a b(2) took_untouched untouched_trans by blast
      moreover have "untouched s s1 q" if "q \<in> set pl" for q using un1 [of q] that p(2,3) by blast
      then have "\<forall>q\<in>set pl. took s' q cid k \<and> permitted s cur q \<or> untouched s s' q \<and> se' = Some EPERM"
        using b(1) untouched_trans pm by blast
      ultimately show ?thesis using a b(2) by auto
    qed
    ultimately show ?thesis using st v True r' by auto
  qed
qed

section \<open>An example system\<close>

text \<open>Three processes: init and 2 in the time-sharing class, 3 in the real-time class; 2 belongs to user 10, the others to root.\<close>

definition ex_cred :: "int \<Rightarrow> cred" where
  "ex_cred u = \<lparr>cr_ref = 1, cr_ngroups = 0, cr_uid = u, cr_gid = 1, cr_ruid = u, cr_rgid = 1, cr_suid = u, cr_sgid = 1, cr_groups = []\<rparr>"

definition cl_disp :: disp where
  "cl_disp = set_pri (dispinit [99, 159] example_disp) 3 105"

definition cl_example :: csys where
  "cl_example = \<lparr>cts = ts_boot\<lparr>dsp := cl_disp, tsprocs := (\<lambda>t. (tsprocs ts_boot t)\<lparr>ts_procp := t - 10\<rparr>), ts_plist := [12, 11]\<rparr>,
     crt = rt_boot\<lparr>rdsp := cl_disp, rtprocs := (\<lambda>t. (rtprocs rt_boot t)\<lparr>rt_procp := t - 20\<rparr>), rt_plist := [23]\<rparr>,
     cl_table = [(''SYS'', SysFuncs), (''TS'', TsFuncs), (''RT'', RtFuncs)],
     cprocs = (\<lambda>p. \<lparr>c_cid = (if p = 3 then 2 else 1), c_clfuncs = (if p = 3 then RtFuncs else TsFuncs), c_clproc = (if p = 3 then 23 else p + 10),
       c_cred = ex_cred (if p = 2 then 10 else 0), c_pid = int p, c_ppid = 1, c_pgrp = int p, c_sid = 0\<rparr>),
     practive = [3, 2, 1], proc_init = 1, ev_newpris = []\<rparr>"

lemma cl_disp_sel: "disp_ok cl_disp (\<lambda>_. [])" "npri cl_disp = 160" "curproc cl_disp = 0"
  "p_pri (procs cl_disp p) = (if p = 3 then 105 else int (p mod 2))" "p_flag (procs cl_disp p) = SLOAD" "p_stat (procs cl_disp p) = SRUN"
proof -
  show "disp_ok cl_disp (\<lambda>_. [])"
    unfolding cl_disp_def using disp_ok_set_pri [OF dispinit_spec [of "[99, 159]" example_disp]] by (simp add: onq_def)
qed (simp_all add: cl_disp_def set_pri_def dispinit2 example_disp_ok idle_proc_def)

lemma cl_example_sel:
  "dsp (cts cl_example) = cl_disp" "ts_plist (cts cl_example) = [12, 11]" "rt_plist (crt cl_example) = [23]" "practive cl_example = [3, 2, 1]"
  "ts_procp (tsprocs (cts cl_example) t) = t - 10" "rt_procp (rtprocs (crt cl_example) t) = t - 20" "rt_pri (rtprocs (crt cl_example) t) = 5"
  "ts_cid (cts cl_example) = 1" "rt_cid (crt cl_example) = 2" "cl_table cl_example = [(''SYS'', SysFuncs), (''TS'', TsFuncs), (''RT'', RtFuncs)]"
  "c_cid (cprocs cl_example p) = (if p = 3 then 2 else 1)" "c_clfuncs (cprocs cl_example p) = (if p = 3 then RtFuncs else TsFuncs)"
  "c_clproc (cprocs cl_example p) = (if p = 3 then 23 else p + 10)" "c_cred (cprocs cl_example p) = ex_cred (if p = 2 then 10 else 0)"
  "c_pid (cprocs cl_example p) = int p" "proc_init cl_example = 1" "rt_maxpri (crt cl_example) = 59" "ts_maxupri (cts cl_example) = 20"
  by (simp_all add: cl_example_def rt_boot_sel) (simp_all add: ts_boot_def rt_boot_def)

lemma cl_example_pris: "0 \<in> ts_pris (cts cl_example)" "1 \<in> ts_pris (cts cl_example)"
proof -
  have "ts_pris (cts cl_example) = ts_globpri ` set space_dptbl \<union> set space_kmdpris" by (simp add: ts_pris_def cl_example_def ts_boot_def)
  then show "0 \<in> ts_pris (cts cl_example)" "1 \<in> ts_pris (cts cl_example)" by (simp_all add: space_dptbl_def dptbl_rows_def)
qed

lemma cl_example_inv: "class_inv cl_example (\<lambda>_. [])"
proof -
  have "ts_inv (cts cl_example) (\<lambda>_. [])"
  proof -
    have "ts_cfg (cts cl_example)"
      by (simp add: ts_cfg_def cl_example_def ts_boot_def cl_disp_sel space_dptbl_def dptbl_rows_def space_kmdpris_def dpent_ok_def dpent_bad_def)
    moreover have "tsproc_ok (cts cl_example) (tsprocs (cts cl_example) t)" for t
      by (simp add: tsproc_ok_def cl_example_def ts_boot_def clamp_def pri_ok_def cl_disp_sel less_trans [OF mod_less_divisor])
    ultimately show ?thesis by (simp add: ts_inv_def cl_example_sel cl_disp_sel)
  qed
  moreover have "rt_inv (rtv cl_example) (\<lambda>_. [])"
  proof -
    have d: "rt_dptbl (crt cl_example) = rt_dptbl rt_boot" by (simp add: cl_example_def)
    have "rt_cfg (rtv cl_example)"
      using rt_invD(2) [OF rt_boot_inv] by (simp add: rt_cfg_def d cl_example_sel cl_disp_sel rt_boot_sel)
    moreover have "rtproc_ok (rtv cl_example) (rtprocs (rtv cl_example) 23)"
      using rt_boot_sel(7) by (simp add: rtproc_ok_def cl_example_sel cl_disp_sel rdpe_def d)
    ultimately show ?thesis by (simp add: rt_inv_def rt_list_ok_def cl_example_sel cl_disp_sel)
  qed
  moreover have "cl_cfg cl_example" unfolding cl_cfg_def cl_example_sel by (auto simp: less_Suc_eq)
  moreover have "lists_ok cl_example" by (simp add: lists_ok_def owned_def cl_example_sel)
  moreover have "ts_pri_ok (cts cl_example)"
    using cl_example_pris by (auto simp: ts_pri_ok_def ts_proc_def cl_example_sel cl_disp_sel)
  ultimately show ?thesis
    by (simp add: class_inv_def in_class_def cl_funcs_def ird_def rd_in pri_ok_def cl_example_sel cl_disp_sel)
qed

lemma cl_example_calm: "calm cl_example (\<lambda>_. [])"
  by (simp add: calm_def onq_def unloaded_ok_def cl_example_sel cl_disp_sel)

section \<open>Properties\<close>

text \<open>
  C1: \<^verbatim>\<open>parmsset\<close>, for parameters that \<^verbatim>\<open>parmsin\<close> lets pass. It returns, succeeds or fails with \<^verbatim>\<open>EPERM\<close>, \<^verbatim>\<open>ENOMEM\<close> or \<^verbatim>\<open>EAGAIN\<close>,
  and keeps the invariants of the dispatcher and of both classes. When it succeeds, the process is in the class
  asked for, on that class's list and no other, and \<^verbatim>\<open>parmsget\<close> reads back the parameters if they were definite; when it fails,
  the class, the parameters and the priority of the process are as before. No other process is
  touched, no process is put on or taken off a dispatcher queue for good, and a caller without permission over the process gets
  \<^verbatim>\<open>EPERM\<close> and changes nothing.
\<close>

theorem parmsset_correct:
  assumes "class_inv s Q" "calm s Q" "p \<in> set (practive s)" "parmsin s cid u None g = Some (Inr k)" "new_ok s env"
  shows "\<exists>e s' Q'. parmsset s cid k reqpp p env g' = Some (e, s') \<and> e \<in> {None, Some EPERM, Some ENOMEM, Some EAGAIN}
     \<and> class_inv s' Q' \<and> calm s' Q' \<and> (\<forall>q. onq Q' q \<longleftrightarrow> onq Q q)
     \<and> (if e = None then took s' p cid k else untouched s s' p) \<and> (\<forall>q\<in>set (practive s). q \<noteq> p \<longrightarrow> untouched s s' q)
     \<and> (reqpp \<noteq> None \<and> \<not> permitted s (the reqpp) p \<longrightarrow> e = Some EPERM \<and> s' = s)"
proof -
  have k: "parms_ok s cid k" by (rule parmsin_ok(2) [OF class_invD(3) [OF assms(1)] assms(4)])
  obtain e s' Q' where r: "parmsset s cid k reqpp p env g' = Some (e, s')" "set_done s Q p cid k e s' Q'"
    "reqpp \<noteq> None \<and> \<not> hasprocperm (c_cred (cprocs s p)) (c_cred (cprocs s (the reqpp))) \<longrightarrow> e = Some EPERM \<and> s' = s"
    using parmsset_done [OF assms(1-3) k assms(5), of reqpp g'] by blast
  note d = r(2) [unfolded set_done_def]
  have "calm s' Q'" using calm_leaves [OF assms(2)] d by blast
  moreover have "if e = None then took s' p cid k else untouched s s' p" using d by (auto simp: took_def untouched_def)
  ultimately show ?thesis
    using r d set_done_others [OF r(2)] by (intro exI [of _ e] exI [of _ s'] exI [of _ Q']) (simp add: permitted_def)
qed

text \<open>Root moves process 2 into the real-time class; process 2 may not set the parameters of init.\<close>

definition ex_rt :: upar where
  "ex_rt = \<lparr>up_ts = \<lparr>par_uprilim = 0, par_upri = 0\<rparr>, up_rt = \<lparr>rp_pri = 10, rp_tqsecs = 0, rp_tqnsecs = - 2\<rparr>\<rparr>"

definition ex_env :: clenv where
  "ex_env = \<lparr>e_memlow = False, e_swapok = True, e_new = Some 30\<rparr>"

lemma ex_parmsin: "parmsin cl_example 2 ex_rt None 0 = Some (Inr (KpRt \<lparr>rk_pri = 10, rk_tqntm = - 2\<rparr>))"
  by (simp add: parmsin_def nclass_def cl_example_sel cl_funcs_def ird_def rd_def CL_PARMSIN_def ex_rt_def rt_parmsin_def)

lemma ex_new_ok: "new_ok cl_example ex_env"
  by (simp add: new_ok_def ex_env_def cl_example_sel)

theorem parmsset_correct_witness:
  "(\<exists>e s' Q'. parmsset cl_example 2 (KpRt \<lparr>rk_pri = 10, rk_tqntm = - 2\<rparr>) (Some 1) 2 ex_env 0 = Some (e, s') \<and> class_inv s' Q'
      \<and> (if e = None then c_cid (cprocs s' 2) = 2 else c_cid (cprocs s' 2) = 1))
   \<and> parmsset cl_example 2 (KpRt \<lparr>rk_pri = 10, rk_tqntm = - 2\<rparr>) (Some 2) 1 ex_env 0 = Some (Some EPERM, cl_example)"
proof
  note c = parmsset_correct [OF cl_example_inv cl_example_calm _ ex_parmsin ex_new_ok, of _ _ 0]
  show "\<exists>e s' Q'. parmsset cl_example 2 (KpRt \<lparr>rk_pri = 10, rk_tqntm = - 2\<rparr>) (Some 1) 2 ex_env 0 = Some (e, s') \<and> class_inv s' Q'
      \<and> (if e = None then c_cid (cprocs s' 2) = 2 else c_cid (cprocs s' 2) = 1)"
    using c [of 2 "Some 1"] by (fastforce simp: cl_example_sel took_def untouched_def split: if_split_asm)
  have "\<not> permitted cl_example 2 1" by (simp add: permitted_def cl_example_sel hasprocperm_def ex_cred_def)
  then show "parmsset cl_example 2 (KpRt \<lparr>rk_pri = 10, rk_tqntm = - 2\<rparr>) (Some 2) 1 ex_env 0 = Some (Some EPERM, cl_example)"
    using c [of 1 "Some 2"] by (auto simp: cl_example_sel)
qed

end
