(* ===== verification/KPriocntl.thy ===== *)
theory KPriocntl
  imports KClassProp
begin

text \<open>
  The system call \<^verbatim>\<open>priocntl\<close> on a set of processes: the contract of \<open>KProcset\<close> between \<^verbatim>\<open>dotoprocs\<close> and the function it calls is
  interpreted on \<^verbatim>\<open>setparms\<close> and on \<^verbatim>\<open>proccmp\<close>, which gives the effect of \<^verbatim>\<open>PC_SETPARMS\<close> and the process that
  \<^verbatim>\<open>PC_GETPARMS\<close> selects. Last, what the two classes mean for the dispatcher: real-time processes run first.
\<close>

section \<open>PC_SETPARMS\<close>

lemma setparms_local:
  assumes "setparms env cid k cur p st = Some (r, st')" "q \<noteq> p"
  shows "cattr (fst st') q = cattr (fst st) q"
proof -
  obtain s se where st: "st = (s, se)" by (cases st)
  with assms(1) obtain e s1 where p: "parmsset s cid k (Some cur) p (env s p) 0 = Some (e, s1)"
    "(case e of Some e \<Rightarrow> if e = EPERM then (CbNext, s1, Some EPERM) else (CbErr e, s1, se)
       | None \<Rightarrow> (CbNext, s1\<lparr>ev_newpris := ev_newpris s1 @ [p]\<rparr>, se)) = (r, st')"
    by (auto simp: setparms_def bind_eq_Some_conv)
  then have "fst st' = s1 \<or> (\<exists>x. fst st' = s1\<lparr>ev_newpris := x\<rparr>)" by (cases e) (auto split: if_splits)
  have "cattr s1 q = cattr s q" by (rule parmsset_attr [OF p(1) assms(2)])
  with \<open>fst st' = s1 \<or> _\<close> st show ?thesis by (auto simp: cattr_def)
qed

interpretation sp: procset_client "\<lambda>st. cattr (fst st)" "setparms env cid k me" for env cid k me
  by unfold_locales (rule setparms_local)

text \<open>The processes that a request is for: the caller, the members, or init if it is the only member.\<close>

definition targets :: "csys \<Rightarrow> procp \<Rightarrow> procset \<Rightarrow> procp list" where
  "targets s cur ps =
    (if cur_inset_only (cattr s cur) ps then [cur]
     else let ms = members (\<lambda>_. cattr s) (myids (cattr s cur) ps) (practive s) () in
       if ms = [proc_init s] then ms else filter (\<lambda>p. p \<noteq> proc_init s) ms)"

lemma members_view: "members (\<lambda>st. cattr (fst st)) ps pl (s, x) = members (\<lambda>_. cattr s) ps pl ()"
  by (simp add: members_def)

lemma members_sub: "set (members attr ps pl st) \<subseteq> set pl"
  by (auto simp: members_def)

lemma targets_active:
  assumes "cur \<in> set (practive s)"
  shows "set (targets s cur ps) \<subseteq> set (practive s)"
  using assms members_sub [of "\<lambda>_. cattr s" "myids (cattr s cur) ps" "practive s" "()"] by (auto simp: targets_def Let_def)

lemma targets_distinct: "distinct (practive s) \<Longrightarrow> distinct (targets s cur ps)"
  by (auto simp: targets_def members_def Let_def)

lemma targets_empty:
  assumes "distinct (practive s)" "\<not> cur_inset_only (cattr s cur) ps"
  shows "targets s cur ps = [] \<longleftrightarrow> members (\<lambda>_. cattr s) (myids (cattr s cur) ps) (practive s) () = []"
proof -
  define ms where "ms = members (\<lambda>_. cattr s) (myids (cattr s cur) ps) (practive s) ()"
  have "distinct ms" using assms(1) by (simp add: ms_def members_def)
  then have "filter (\<lambda>p. p \<noteq> proc_init s) ms = [] \<Longrightarrow> ms = [] \<or> ms = [proc_init s]"
    by (cases ms; cases "tl ms") (auto split: if_splits)
  then show ?thesis using assms(2) by (auto simp: targets_def ms_def [symmetric] Let_def)
qed

lemma cur_inset_valid: "cur_inset_only a ps \<Longrightarrow> checkprocset ps = None"
  by (auto simp: cur_inset_only_def checkprocset_ok idtype_ok_def split: if_splits)

text \<open>The end of the case \<^verbatim>\<open>PC_SETPARMS\<close>, once the parameters and the set are read.\<close>

lemma pc_setparms_run:
  assumes "parmsin s cid u None 0 = Some (Inr k)" "distinct (practive s)" "\<not> cur_inset_only (cattr s cur) ps"
  shows "pc_setparms s cur env (Some (cid, u)) (Some ps) =
    (case checkprocset ps of Some e \<Rightarrow> Some (Some e, s)
     | None \<Rightarrow>
         if targets s cur ps = [] then Some (Some ESRCH, s)
         else do {
           (r, s', se) \<leftarrow> visit (setparms env cid k cur) (targets s cur ps) (s, None);
           Some (if cb_error r = None \<and> se \<noteq> None then se else cb_error r, s') })"
proof (cases "checkprocset ps")
  case (Some e)
  then show ?thesis using assms(1,3) by (simp add: pc_setparms_def dotoprocs_def)
next
  case None
  let ?ms = "members (\<lambda>_. cattr s) (myids (cattr s cur) ps) (practive s) ()"
  have t: "targets s cur ps = (if ?ms = [proc_init s] then [proc_init s] else filter (\<lambda>p. p \<noteq> proc_init s) ?ms)"
    using assms(3) by (simp add: targets_def Let_def)
  have "dotoprocs (\<lambda>st. cattr (fst st)) (practive s) (proc_init s) cur cur ps (Some (setparms env cid k cur)) (s, None) =
      (if ?ms = [] then Some (Some ESRCH, myids (cattr s cur) ps, (s, None))
       else do { (r, st') \<leftarrow> visit (setparms env cid k cur) (targets s cur ps) (s, None); Some (cb_error r, myids (cattr s cur) ps, st') })"
    using sp.dotoprocs_eq [OF assms(2) None, where env = env and cid = cid and k = k and me = cur and init = "proc_init s" and cur = cur and garbage = cur and st = "(s, None)"] by (simp add: members_view t)
  then show ?thesis
    using assms(1,3) None targets_empty [OF assms(2,3)]
    by (cases "visit (setparms env cid k cur) (targets s cur ps) (s, None)") (auto simp: pc_setparms_def)
qed

text \<open>
  C2: \<^verbatim>\<open>priocntl(PC_SETPARMS)\<close> with valid parameters. An invalid set gives \<^verbatim>\<open>EINVAL\<close> and one without live members \<^verbatim>\<open>ESRCH\<close>.
  Otherwise the call returns success, \<^verbatim>\<open>EPERM\<close>, or \<^verbatim>\<open>ENOMEM\<close> or \<^verbatim>\<open>EAGAIN\<close> when resources ran out on the way. With success every target got the
  class and parameters and the caller had permission over it; with \<^verbatim>\<open>EPERM\<close> every target got them or
  is exactly as before. In every case the processes outside the set and those over which the
  caller has no permission are untouched, and the invariants of dispatcher and classes hold.
\<close>

theorem pc_setparms_correct:
  assumes "class_inv s Q" "calm s Q" "cur \<in> set (practive s)" "parmsin s cid u None 0 = Some (Inr k)" "\<And>s p. new_ok s (env s p)"
  shows "\<exists>e s' Q'. pc_setparms s cur env (Some (cid, u)) (Some ps) = Some (e, s') \<and> class_inv s' Q' \<and> calm s' Q' \<and> frozen s s'
     \<and> (\<forall>q\<in>set (practive s). q \<notin> set (targets s cur ps) \<or> \<not> permitted s cur q \<longrightarrow> untouched s s' q)
     \<and> (if checkprocset ps \<noteq> None then e = Some EINVAL \<and> s' = s
        else if targets s cur ps = [] then e = Some ESRCH \<and> s' = s
        else e = None \<and> (\<forall>q\<in>set (targets s cur ps). took s' q cid k \<and> permitted s cur q)
          \<or> e = Some EPERM \<and> (\<forall>q\<in>set (targets s cur ps). took s' q cid k \<and> permitted s cur q \<or> untouched s s' q)
          \<or> e = Some ENOMEM \<or> e = Some EAGAIN)"
proof -
  note i = class_invD [OF assms(1)]
  have dist: "distinct (practive s)" by (rule lists_okD(4) [OF i(4)])
  have k: "parms_ok s cid k" by (rule parmsin_ok(2) [OF i(3) assms(4)])
  have same: "walked s Q cur pl s Q" for pl using assms(1,2) by (simp add: walked_def)
  show ?thesis
  proof (cases "cur_inset_only (cattr s cur) ps")
    case True
    then have t: "targets s cur ps = [cur]" by (simp add: targets_def)
    from parmsset_done [OF assms(1-3) k assms(5) [of s cur], of "Some cur" 0] obtain e s1 Q1 where
      r: "parmsset s cid k (Some cur) cur (env s cur) 0 = Some (e, s1)" "set_done s Q cur cid k e s1 Q1"
      "\<not> permitted s cur cur \<Longrightarrow> e = Some EPERM \<and> s1 = s" by (auto simp: permitted_def)
    note d = r(2) [unfolded set_done_def]
    have c: "calm s1 Q1" using calm_leaves [OF assms(2)] d by blast
    have fr: "frozen s s1" using leaves_frozen d by blast
    let ?s = "if e = None then s1\<lparr>ev_newpris := ev_newpris s1 @ [cur]\<rparr> else s1"
    have run: "pc_setparms s cur env (Some (cid, u)) (Some ps) = Some (e, ?s)"
      using True assms(4) r(1) by (simp add: pc_setparms_def)
    have un: "q \<in> set (practive s) \<Longrightarrow> q \<noteq> cur \<or> \<not> permitted s cur q \<Longrightarrow> untouched s s1 q" for q
      using set_done_others [OF r(2), of q] r(3) by (cases "q = cur") auto
    have inv: "class_inv ?s Q1" "calm ?s Q1" "frozen s ?s" using d c fr by (simp_all add: ev_sel)
    have "e = None \<Longrightarrow> took ?s cur cid k \<and> permitted s cur cur" "e \<noteq> None \<Longrightarrow> untouched s ?s cur"
      using d r(3) by (auto simp: took_def untouched_def)
    then show ?thesis
      using run inv un d cur_inset_valid [OF True]
      by (intro exI [of _ e] exI [of _ ?s] exI [of _ Q1]) (auto simp: t ev_sel)
  next
    case False
    note run = pc_setparms_run [OF assms(4) dist False, of env]
    show ?thesis
    proof (cases "checkprocset ps = None \<and> targets s cur ps \<noteq> []")
      case True
      have act: "set (targets s cur ps) \<subseteq> set (practive s)" by (rule targets_active [OF assms(3)])
      from visit_setparms [OF assms(1,2) act targets_distinct [OF dist] k, where env = env and cur = cur and se = None] assms(5)
      obtain r s' se' Q' where v: "visit (setparms env cid k cur) (targets s cur ps) (s, None) = Some (r, s', se')"
        "walked s Q cur (targets s cur ps) s' Q'"
        "r = CbNext \<and> (\<forall>q\<in>set (targets s cur ps). took s' q cid k \<and> permitted s cur q \<or> untouched s s' q \<and> se' = Some EPERM)
         \<and> (se' = None \<or> se' = Some EPERM) \<or> r = CbErr ENOMEM \<or> r = CbErr EAGAIN" by blast
      let ?e = "if cb_error r = None \<and> se' \<noteq> None then se' else cb_error r"
      have "pc_setparms s cur env (Some (cid, u)) (Some ps) = Some (?e, s')" using run v(1) True by simp
      moreover have "?e = None \<and> (\<forall>q\<in>set (targets s cur ps). took s' q cid k \<and> permitted s cur q)
          \<or> ?e = Some EPERM \<and> (\<forall>q\<in>set (targets s cur ps). took s' q cid k \<and> permitted s cur q \<or> untouched s s' q)
          \<or> ?e = Some ENOMEM \<or> ?e = Some EAGAIN"
        using v(3) by (elim disjE) (auto simp: cb_error_def)
      ultimately show ?thesis using v(2) True by (intro exI [of _ ?e] exI [of _ s'] exI [of _ Q']) (simp add: walked_def)
    next
      case no: False
      let ?e = "if checkprocset ps \<noteq> None then Some EINVAL else Some ESRCH"
      have "checkprocset ps = None \<or> checkprocset ps = Some EINVAL" by (simp add: checkprocset_def)
      then have "pc_setparms s cur env (Some (cid, u)) (Some ps) = Some (?e, s)" using run no by auto
      then show ?thesis using assms(1,2) no by (intro exI [of _ ?e] exI [of _ s] exI [of _ Q]) auto
    qed
  qed
qed

text \<open>Process 2, of user 10, asks for all processes to enter the real-time class: it has no permission over process 3.\<close>

definition ex_alloc :: "csys \<Rightarrow> procp \<Rightarrow> clenv" where
  "ex_alloc s p = \<lparr>e_memlow = False, e_swapok = True, e_new = Some (Suc (sum_list (ts_plist (cts s)) + sum_list (rt_plist (crt s))))\<rparr>"

lemma ex_alloc_ok: "new_ok s (ex_alloc s p)"
proof -
  have "u \<le> sum_list xs" if "u \<in> set xs" for u and xs :: "nat list" by (rule member_le_sum_list [OF that]) simp
  then have "u \<in> set (ts_plist (cts s)) \<Longrightarrow> u \<le> sum_list (ts_plist (cts s))" "u \<in> set (rt_plist (crt s)) \<Longrightarrow> u \<le> sum_list (rt_plist (crt s))" for u
    by blast+
  then show ?thesis by (fastforce simp: new_ok_def ex_alloc_def)
qed

definition ex_all :: procset where
  "ex_all = setprocset POP_AND P_ALL 0 P_ALL 0"

lemma ex_targets: "targets cl_example 2 ex_all = [3, 2]"
  by (simp add: targets_def cur_inset_only_def ex_all_def setprocset_def members_def cl_example_sel cattr_def cl_disp_sel procinset_def operand_def
      myids_def Let_def)

theorem pc_setparms_correct_witness:
  "\<exists>e s' Q'. pc_setparms cl_example 2 ex_alloc (Some (2, ex_rt)) (Some ex_all) = Some (e, s') \<and> class_inv s' Q'
     \<and> untouched cl_example s' 3 \<and> e \<in> {Some EPERM, Some ENOMEM, Some EAGAIN}"
proof -
  have act: "2 \<in> set (practive cl_example)" by (simp add: cl_example_sel)
  have perm: "\<not> permitted cl_example 2 3" by (simp add: permitted_def cl_example_sel hasprocperm_def ex_cred_def)
  have ok: "checkprocset ex_all = None" by (simp add: ex_all_def setprocset_def checkprocset_ok idtype_ok_def)
  show ?thesis
    using pc_setparms_correct [where env = ex_alloc and ps = ex_all, OF cl_example_inv cl_example_calm act ex_parmsin ex_alloc_ok] perm
    by (auto simp: ok ex_targets cl_example_sel(4))
qed

section \<open>PC_GETPARMS\<close>

text \<open>What the comparison of a class looks at.\<close>

definition crank :: "csys \<Rightarrow> procp \<Rightarrow> int" where
  "crank s p = (case c_clfuncs (cprocs s p) of SysFuncs \<Rightarrow> 0
     | TsFuncs \<Rightarrow> ts_upri (tsprocs (cts s) (c_clproc (cprocs s p))) | RtFuncs \<Rightarrow> rt_pri (rtprocs (crt s) (c_clproc (cprocs s p))))"

definition cmp_step :: "csys \<Rightarrow> procp \<Rightarrow> pcmpargs \<Rightarrow> pcmpargs" where
  "cmp_step s p a = snd (the (proccmp s p a))"

lemma proccmp_step: "proccmp s p a = Some (CbNext, cmp_step s p a)"
  by (auto simp: cmp_step_def proccmp_def Let_def split: option.split)

lemma proccmp_if: "(if c then proccmp s p a else Some (CbNext, a)) = Some (CbNext, if c then cmp_step s p a else a)"
  by (simp add: proccmp_step)

interpretation gp: procset_client "\<lambda>_. cattr s" "proccmp s" for s
  by unfold_locales simp

lemma visit_proccmp: "visit (proccmp s) pl a = Some (CbNext, fold (cmp_step s) pl a)"
  by (induction pl arbitrary: a) (simp_all add: proccmp_step)

text \<open>The state of the comparison after the processes \<open>L\<close>: the best one of the class so far.\<close>

definition best_of :: "csys \<Rightarrow> int \<Rightarrow> procp list \<Rightarrow> pcmpargs \<Rightarrow> bool" where
  "best_of s c L a \<longleftrightarrow> pcmp_cid a = c \<and> pcmp_cnt a = length L
     \<and> (case pcmp_retprocp a of None \<Rightarrow> \<forall>q\<in>set L. c_cid (cprocs s q) \<noteq> c
        | Some p \<Rightarrow> p \<in> set L \<and> c_cid (cprocs s p) = c \<and> (\<forall>q\<in>set L. c_cid (cprocs s q) = c \<longrightarrow> crank s q \<le> crank s p))"

lemma proccmp_rank:
  assumes "in_class s p" "in_class s q" "c_cid (cprocs s p) = c_cid (cprocs s q)" "c_clfuncs (cprocs s p) \<noteq> SysFuncs"
  shows "CL_PROCCMP s (c_clfuncs (cprocs s p)) (c_clproc (cprocs s p)) (c_clproc (cprocs s q)) = crank s p - crank s q"
proof -
  have "c_clfuncs (cprocs s q) = c_clfuncs (cprocs s p)" using assms(1-3) by (simp add: in_class_def)
  then show ?thesis
    using assms(4) by (cases "c_clfuncs (cprocs s p)") (simp_all add: CL_PROCCMP_def crank_def ts_proccmp_def rt_proccmp_def)
qed

lemma best_step:
  assumes "best_of s c L a" "c \<noteq> PC_CLNULL" "\<forall>q\<in>set (L @ [p]). in_class s q \<and> c_clfuncs (cprocs s q) \<noteq> SysFuncs"
  shows "best_of s c (L @ [p]) (cmp_step s p a)"
proof (cases "c_cid (cprocs s p) = c")
  case False
  then show ?thesis using assms(1,2) by (auto simp: best_of_def cmp_step_def proccmp_def Let_def split: option.splits)
next
  case True
  show ?thesis
  proof (cases "pcmp_retprocp a")
    case None
    then show ?thesis using assms(1,2) True by (auto simp: best_of_def cmp_step_def proccmp_def Let_def)
  next
    case (Some b)
    have b: "b \<in> set L" "c_cid (cprocs s b) = c" using assms(1) Some by (simp_all add: best_of_def)
    have "CL_PROCCMP s (c_clfuncs (cprocs s p)) (c_clproc (cprocs s p)) (c_clproc (cprocs s b)) = crank s p - crank s b"
      by (rule proccmp_rank) (use assms(3) b True in auto)
    then show ?thesis using assms(1,2) True Some by (auto simp: best_of_def cmp_step_def proccmp_def Let_def)
  qed
qed

lemma best_fold:
  assumes "best_of s c L a" "c \<noteq> PC_CLNULL" "\<forall>q\<in>set (L @ M). in_class s q \<and> c_clfuncs (cprocs s q) \<noteq> SysFuncs"
  shows "best_of s c (L @ M) (fold (cmp_step s) M a)"
  using assms
proof (induction M arbitrary: L a)
  case (Cons p M)
  have "best_of s c (L @ [p]) (cmp_step s p a)" by (rule best_step [OF Cons.prems(1,2)]) (use Cons.prems(3) in auto)
  from Cons.IH [OF this Cons.prems(2)] Cons.prems(3) show ?case by simp
qed simp

text \<open>From the start, with a class or, for a list that is not empty, without.\<close>

abbreviation pcmp0 :: "int \<Rightarrow> pcmpargs" where
  "pcmp0 cid \<equiv> \<lparr>pcmp_cid = cid, pcmp_cnt = 0, pcmp_retprocp = None\<rparr>"

lemma best_start:
  assumes "\<forall>q\<in>set L. in_class s q \<and> c_clfuncs (cprocs s q) \<noteq> SysFuncs \<and> c_cid (cprocs s q) \<noteq> PC_CLNULL" "L \<noteq> []"
  shows "best_of s (if cid = PC_CLNULL then c_cid (cprocs s (hd L)) else cid) L (fold (cmp_step s) L (pcmp0 cid))"
proof (cases "cid = PC_CLNULL")
  case False
  have "best_of s cid [] (pcmp0 cid)" by (simp add: best_of_def)
  from best_fold [OF this False, of L] assms False show ?thesis by simp
next
  case True
  obtain p M where L: "L = p # M" using assms(2) by (cases L) auto
  have "best_of s (c_cid (cprocs s p)) [p] (cmp_step s p (pcmp0 cid))"
    using True by (simp add: best_of_def cmp_step_def proccmp_def Let_def)
  from best_fold [OF this, of M] assms L True show ?thesis by simp
qed

lemma member_class:
  assumes "class_inv s Q" "q \<in> set (members (\<lambda>_. cattr s) ps (practive s) ())"
  shows "in_class s q \<and> c_clfuncs (cprocs s q) \<noteq> SysFuncs \<and> c_cid (cprocs s q) \<noteq> PC_CLNULL"
proof -
  note i = class_invD [OF assms(1)]
  have q: "q \<in> set (practive s)" "procinset (cattr s q) ps" using assms(2) by (auto simp: members_def)
  have "c_cid (cprocs s q) \<noteq> 0" using q(2) by (auto simp: procinset_def cattr_def Let_def split: if_splits)
  moreover have c: "in_class s q" by (rule i(6) [OF q(1)])
  ultimately show ?thesis using cl_funcsD(1,4) [OF i(3), of "c_cid (cprocs s q)"] by (auto simp: in_class_def)
qed

text \<open>The answer for the members \<open>ms\<close> of a set.\<close>

definition selected :: "csys \<Rightarrow> int \<Rightarrow> procp list \<Rightarrow> errno + procp \<Rightarrow> bool" where
  "selected s cid ms r = (case r of
       Inl e \<Rightarrow> e = ESRCH \<and> (if cid = PC_CLNULL then ms = [] else \<forall>q\<in>set ms. c_cid (cprocs s q) \<noteq> cid) \<or> e = EINVAL \<and> cid = PC_CLNULL \<and> length ms > 1
     | Inr p \<Rightarrow> if cid = PC_CLNULL then ms = [p]
         else p \<in> set ms \<and> c_cid (cprocs s p) = cid \<and> (\<forall>q\<in>set ms. c_cid (cprocs s q) = cid \<longrightarrow> crank s q \<le> crank s p))"

lemma best_selected:
  assumes "best_of s (if cid = PC_CLNULL then c else cid) L a" "set L = set ms" "length L = length ms" "ms \<noteq> []"
    and "cid = PC_CLNULL \<Longrightarrow> c = c_cid (cprocs s (hd L))"
  shows "selected s cid ms (case pcmp_retprocp a of None \<Rightarrow> Inl ESRCH | Some p \<Rightarrow> if cid = PC_CLNULL \<and> pcmp_cnt a > 1 then Inl EINVAL else Inr p)"
proof (cases "cid = PC_CLNULL")
  case False
  then show ?thesis using assms(1,2) by (auto simp: selected_def best_of_def split: option.splits)
next
  case True
  have "hd L \<in> set L" using assms(2,4) by (cases L) auto
  with True assms(1,5) obtain p where p: "pcmp_retprocp a = Some p" "p \<in> set L" "pcmp_cnt a = length L"
    by (auto simp: best_of_def split: option.splits)
  have "ms = [p]" if one: "\<not> length ms > 1"
  proof -
    obtain x where "ms = [x]" using one assms(4) by (cases ms; cases "tl ms") auto
    with p(2) assms(2) show ?thesis by simp
  qed
  then show ?thesis using True p assms(3) by (auto simp: selected_def)
qed

text \<open>
  C4: the process whose parameters \<^verbatim>\<open>priocntl(PC_GETPARMS)\<close> returns. Without a class it is the only member of the set, and \<^verbatim>\<open>EINVAL\<close>
  is returned if there are several; with a class it is a member of that class with the highest user priority, or
  real-time priority, among those of the class, and \<^verbatim>\<open>ESRCH\<close> is returned if there is none. The init
  process takes part although \<^verbatim>\<open>dotoprocs\<close> leaves it out.
\<close>

theorem pc_select_best:
  assumes "class_inv s Q" "\<not> cur_inset_only (cattr s cur) ps" "checkprocset ps = None"
    and "proc_init s \<in> set (practive s)" "pa_stat (cattr s (proc_init s)) \<notin> {SIDL, SZOMB}"
  shows "\<exists>r. pc_select s cur cid ps = Some r \<and> selected s cid (members (\<lambda>_. cattr s) (myids (cattr s cur) ps) (practive s) ()) r"
proof -
  let ?ps = "myids (cattr s cur) ps" and ?i = "proc_init s"
  define ms where "ms = members (\<lambda>_. cattr s) ?ps (practive s) ()"
  have mv: "members (\<lambda>_. cattr s) ?ps (practive s) a = ms" for a :: pcmpargs by (simp add: ms_def members_def)
  have dist: "distinct (practive s)" by (rule lists_okD(4) [OF class_invD(4) [OF assms(1)]])
  then have dm: "distinct ms" by (simp add: ms_def members_def)
  have mc: "\<And>q. q \<in> set ms \<Longrightarrow> in_class s q \<and> c_clfuncs (cprocs s q) \<noteq> SysFuncs \<and> c_cid (cprocs s q) \<noteq> PC_CLNULL"
    using member_class [OF assms(1)] by (simp add: ms_def)
  have im: "procinset (cattr s ?i) ?ps \<longleftrightarrow> ?i \<in> set ms" using assms(4,5) by (simp add: ms_def members_def)
  define L where "L = (if ms = [?i] then [?i] else filter (\<lambda>p. p \<noteq> ?i) ms)"
  define a where "a = fold (cmp_step s) L (pcmp0 cid)"
  have dp: "dotoprocs (\<lambda>_. cattr s) (practive s) ?i cur cur ps (Some (proccmp s)) (pcmp0 cid) =
      (if ms = [] then Some (Some ESRCH, ?ps, pcmp0 cid) else Some (None, ?ps, a))"
    using gp.dotoprocs_eq [OF dist assms(3), where s = s and cur = cur and init = ?i and garbage = cur and st = "pcmp0 cid"] by (simp add: mv visit_proccmp cb_error_def L_def a_def)
  show ?thesis
  proof (cases "ms = []")
    case True
    then have "pc_select s cur cid ps = Some (Inl ESRCH)" using assms(2) dp by (simp add: pc_select_def)
    moreover have "selected s cid ms (Inl ESRCH)" using True by (simp add: selected_def)
    ultimately show ?thesis by (simp add: ms_def)
  next
    case False
    have Lm: "set L \<subseteq> set ms" by (auto simp: L_def)
    have Ln: "L \<noteq> []" using False dm unfolding L_def by (cases ms; cases "tl ms") (auto split: if_splits)
    define c where "c = c_cid (cprocs s (hd L))"
    define cc where "cc = (if cid = PC_CLNULL then c else cid)"
    have best: "best_of s cc L a" unfolding cc_def c_def a_def by (rule best_start [OF _ Ln]) (use mc Lm in blast)
    have cn: "cc \<noteq> PC_CLNULL" using mc [OF subsetD [OF Lm hd_in_set [OF Ln]]] by (auto simp: cc_def c_def)
    let ?call = "procinset (cattr s ?i) ?ps \<and> pcmp_retprocp a \<noteq> Some ?i"
    let ?a = "if ?call then cmp_step s ?i a else a"
    let ?r = "case pcmp_retprocp ?a of None \<Rightarrow> Inl ESRCH | Some p \<Rightarrow> if cid = PC_CLNULL \<and> pcmp_cnt ?a > 1 then Inl EINVAL else Inr p"
    have run: "pc_select s cur cid ps = Some ?r"
      using assms(2) dp False by (simp add: pc_select_def proccmp_if Let_def)
    have sel: "selected s cid ms ?r" if b: "best_of s cc L' ?a" "set L' = set ms" "length L' = length ms" "hd L' = hd L" for L'
      by (rule best_selected [OF b(1) [unfolded cc_def] b(2,3) False]) (simp add: c_def b(4))
    have "selected s cid ms ?r"
    proof (cases "?i \<in> set ms")
      case False
      then have "L = ms" by (auto simp: L_def filter_id_conv)
      then show ?thesis using sel [of L] best im False by simp
    next
      case True
      show ?thesis
      proof (cases "ms = [?i]")
        case True
        then have L1: "L = [?i]" by (simp add: L_def)
        show ?thesis
        proof (cases "pcmp_retprocp a")
          case None
          moreover have "c = c_cid (cprocs s ?i)" by (simp add: c_def L1)
          ultimately have n: "cid \<noteq> PC_CLNULL" "c_cid (cprocs s ?i) \<noteq> cid" using best L1 by (auto simp: best_of_def cc_def)
          then have "pcmp_retprocp ?a = None" using None best by (auto simp: cmp_step_def proccmp_def best_of_def cc_def Let_def)
          then show ?thesis using n True by (simp add: selected_def)
        next
          case (Some p)
          then have "p = ?i" using best L1 by (simp add: best_of_def)
          then show ?thesis using sel [of L] best Some True L1 by simp
        qed
      next
        case many: False
        then have L1: "L = filter (\<lambda>p. p \<noteq> ?i) ms" by (simp add: L_def)
        have "pcmp_retprocp a \<noteq> Some ?i" using best L1 by (auto simp: best_of_def)
        then have call: "?call" using True im by simp
        have "best_of s cc (L @ [?i]) (cmp_step s ?i a)" by (rule best_step [OF best cn]) (use mc Lm True in auto)
        moreover have "set (L @ [?i]) = set ms" using True L1 by auto
        moreover have "length (L @ [?i]) = length ms"
          using calculation(2) dm L1 distinct_card [of "L @ [?i]"] distinct_card [of ms] by simp
        ultimately show ?thesis using sel [of "L @ [?i]"] call Ln by simp
      qed
    qed
    then show ?thesis using run by (auto simp: ms_def)
  qed
qed

theorem pc_select_best_witness:
  "pc_select cl_example 1 PC_CLNULL ex_all = Some (Inl EINVAL) \<and> pc_select cl_example 1 2 ex_all = Some (Inr 3)"
proof -
  have ps: "\<not> cur_inset_only (cattr cl_example 1) ex_all" "checkprocset ex_all = None"
    by (simp_all add: cur_inset_only_def ex_all_def setprocset_def checkprocset_ok idtype_ok_def)
  have ms: "members (\<lambda>_. cattr cl_example) (myids (cattr cl_example 1) ex_all) (practive cl_example) () = [3, 2, 1]"
    by (simp add: ex_all_def setprocset_def members_def cl_example_sel cattr_def cl_disp_sel procinset_def operand_def myids_def Let_def)
  note c = pc_select_best [OF cl_example_inv ps, unfolded ms, simplified cl_example_sel cattr_def cl_disp_sel Let_def]
  obtain r where r: "pc_select cl_example 1 PC_CLNULL ex_all = Some r" "selected cl_example PC_CLNULL [3, 2, 1] r"
    using c [of PC_CLNULL] by auto
  obtain r' where r': "pc_select cl_example 1 2 ex_all = Some r'" "selected cl_example 2 [3, 2, 1] r'"
    using c [of 2] by auto
  have "r = Inl EINVAL" using r(2) by (cases r) (simp_all add: selected_def)
  moreover have "r' = Inr 3" using r'(2) by (cases r') (auto simp: selected_def cl_example_sel)
  ultimately show ?thesis using r(1) r'(1) by simp
qed

section \<open>Real-time processes run first\<close>

text \<open>
  C3: if, as in the tables shipped, every global priority of the time-sharing class lies below every one of the real-time class, then
  as long as a real-time process that may run is queued, \<^verbatim>\<open>pswtch\<close> returns, gives the processor to a process of at least its priority, and never
  to a time-sharing process, whatever its user priority or how long it has waited.
\<close>

theorem rt_runs_first:
  assumes "class_inv s Q" "\<forall>g\<in>ts_pris (cts s). \<forall>h\<in>rt_pris (rtv s). g < h" "t \<in> set (rt_plist (crt s))"
    and "onq Q (rt_procp (rtprocs (crt s) t))" "schedulable (procs (dsp (cts s)) (rt_procp (rtprocs (crt s) t)))"
  shows "\<exists>d. pswtch wq sched (dsp (cts s)) = Some d
     \<and> p_pri (procs (dsp (cts s)) (rt_procp (rtprocs (crt s) t))) \<le> p_pri (procs d (curproc d))
     \<and> (\<forall>u\<in>set (ts_plist (cts s)). curproc d \<noteq> ts_procp (tsprocs (cts s) u))"
proof -
  let ?d = "dsp (cts s)" and ?p = "rt_procp (rtprocs (crt s) t)"
  note i = class_invD [OF assms(1)]
  have ok: "disp_ok ?d Q" by (rule ts_invD(1) [OF i(1)])
  obtain j where j: "?p \<in> set (Q j)" using assms(4) by (auto simp: onq_def)
  have pj: "p_pri (procs ?d ?p) = int j" "j < npri ?d" using queues_onq [OF disp_okD(1) [OF ok] j] by simp_all
  have "?p \<in> set (filter (\<lambda>p. schedulable (procs ?d p)) (Q j))" using j assms(5) by simp
  then have "0 < runnable ?d Q j" unfolding runnable_def by (rule length_pos_if_in_set)
  then have "j \<in> bits_of (dqactmap ?d)" using countsD(3) [OF disp_okD(2) [OF ok]] pj(2) by simp
  then have "maxrunpri ?d \<noteq> - 1" using countsD(5) [OF disp_okD(2) [OF ok]] by (auto simp: high_of_def)
  from pswtch_spec [OF ok this, of wq sched] obtain d k as c bs where r: "pswtch wq sched ?d = Some d" "Q k = as @ c # bs"
    "\<forall>j>k. \<forall>x\<in>set (Q j). \<not> schedulable (procs ?d x)" "curproc d = c" "\<forall>q. p_pri (procs d q) = p_pri (procs ?d q)" by blast
  have "j \<le> k" using r(3) j assms(5) by (meson not_le)
  moreover have ck: "p_pri (procs ?d c) = int k" using queues_onq [OF disp_okD(1) [OF ok], of c k] r(2) by simp
  ultimately have le: "p_pri (procs ?d ?p) \<le> p_pri (procs ?d c)" using pj(1) by simp
  have "rtproc_ok (rtv s) (rtprocs (crt s) t)" using rt_invD(4) [OF i(2)] assms(3) by simp
  then have rp: "p_pri (procs ?d ?p) \<in> rt_pris (rtv s)"
    using rt_cfgD(1) [OF rt_invD(2) [OF i(2)]] rt_pris_in [of "rtv s"] by (auto simp: rtproc_ok_def)
  have "c \<noteq> ts_procp (tsprocs (cts s) u)" if u: "u \<in> set (ts_plist (cts s))" for u
  proof -
    have "p_pri (ts_proc (cts s) u) \<in> ts_pris (cts s)" using i(5) u by (simp add: ts_pri_ok_def)
    with assms(2) rp le show ?thesis by (force simp: ts_proc_def)
  qed
  with r le show ?thesis by simp
qed

lemma shipped_priorities: "\<forall>g\<in>ts_pris (cts cl_example). \<forall>h\<in>rt_pris (rtv cl_example). g < h"
proof -
  have "\<forall>g\<in>ts_pris (cts cl_example). g < 100"
    by (auto simp: ts_pris_def cl_example_def ts_boot_def space_dptbl_def dptbl_rows_def space_kmdpris_def)
  moreover have "\<forall>h\<in>rt_pris (rtv cl_example). 100 \<le> h"
    by (auto simp: rt_pris_def rtv_def cl_example_def rt_boot_def space_rtdptbl_def)
  ultimately show ?thesis by fastforce
qed

theorem rt_runs_first_witness:
  "\<exists>d d'. setbackdq cl_disp 3 = Some d \<and> pswtch [] 0 d = Some d' \<and> 105 \<le> p_pri (procs d' (curproc d')) \<and> curproc d' \<noteq> 2"
proof -
  obtain d where d: "setbackdq cl_disp 3 = Some d" "disp_ok d ((\<lambda>_. [])(105 := [3]))" "same_frame cl_disp d"
    using dq.setback_ok [OF cl_disp_sel(1), of 3 105] by (auto simp: cl_disp_sel onq_def)
  let ?t = "(cts cl_example)\<lparr>dsp := d\<rparr>" and ?Q = "(\<lambda>_. [])(105 := [3])"
  have m: "moves {} (ts_pris (cts cl_example)) cl_disp d" by (rule same_frame_moves [OF d(3)])
  have "ts_inv ?t ?Q"
    by (rule ts_inv_other [OF class_invD(1) [OF cl_example_inv] d(2)]) (use m in \<open>auto simp: moves_def cl_example_sel pri_ok_def\<close>)
  moreover have "ts_local {} (cts cl_example) ?t" using m by (simp add: ts_local_def ts_conf_def cl_example_sel)
  ultimately have inv: "class_inv (put_ts cl_example ?t) ?Q" by (rule class_inv_ts [OF cl_example_inv _ _ empty_subsetI])
  have pris: "\<forall>g\<in>ts_pris (cts (put_ts cl_example ?t)). \<forall>h\<in>rt_pris (rtv (put_ts cl_example ?t)). g < h"
    using shipped_priorities by (simp add: ts_pris_def rt_pris_def)
  have fl: "schedulable (procs d 3)" "p_pri (procs d 3) = 105" using m by (auto simp: moves_def schedulable_def cl_disp_sel)
  from rt_runs_first [OF inv pris, of 23 "[]" 0] fl obtain d' where d': "pswtch [] 0 d = Some d'"
    "105 \<le> p_pri (procs d' (curproc d'))" "curproc d' \<noteq> 2"
    by (auto simp: cl_example_sel onq_def)
  with d(1) show ?thesis by auto
qed

end
