(* ===== verification/KRmap.thy ===== *)
theory KRmap
  imports KPrelude
begin

text \<open>
  Resource maps, \<^verbatim>\<open>uts/i386/os/malloc.c\<close>: the first-fit allocator of units (message segments,
  semaphores, swap, kernel virtual space) behind \<^verbatim>\<open>rmalloc\<close> and \<^verbatim>\<open>rmfree\<close>. A map is an array
  of \<^verbatim>\<open>struct map\<close>: its slot 0 holds the number of unused slots and the sleep flag, the slots
  from \<^verbatim>\<open>mapstart\<close> on hold the free regions in address order, ended by a slot of size 0.

  The operations work on the array slot by slot, as the code does. The lemmas relate them to the
  list of free regions and then to the set of free units; the locale \<open>unit_allocator\<close> states
  what the clients of a map (the semaphore and the message facility) rely on.
\<close>

section \<open>The map and its operations\<close>

record mapent =
  m_size :: nat
  m_addr :: nat

record rmap =
  mapsize :: nat
  mapwant :: nat
  mapents :: "mapent list"

text \<open>\<^verbatim>\<open>do { bp++; (bp-1)->m_addr = bp->m_addr; } while ((bp-1)->m_size = bp->m_size);\<close>\<close>

function rm_delete :: "mapent list \<Rightarrow> nat \<Rightarrow> mapent list option" where
  "rm_delete es b = do {
     e \<leftarrow> rd es (Suc b);
     let es' = es[b := e];
     if m_size e = 0 then Some es' else rm_delete es' (Suc b)
   }"
  by pat_completeness auto
termination
  by (relation "measure (\<lambda>(es, b). length es - b)") (auto simp: rd_Some_iff)

text \<open>The search of \<^verbatim>\<open>rmalloc\<close>: the slot of the first region that is large enough.\<close>

function rm_fit :: "mapent list \<Rightarrow> nat \<Rightarrow> nat \<Rightarrow> nat option option" where
  "rm_fit es i sz = do {
     e \<leftarrow> rd es i;
     if m_size e = 0 then Some None
     else if m_size e \<ge> sz then Some (Some i)
     else rm_fit es (Suc i) sz
   }"
  by pat_completeness auto
termination
  by (relation "measure (\<lambda>(es, i, sz). length es - i)") (auto simp: rd_Some_iff)

definition rmalloc :: "rmap \<Rightarrow> nat \<Rightarrow> (nat \<times> rmap) option" where
  "rmalloc mp sz =
     (if sz = 0 then Some (0, mp)
      else do {
        f \<leftarrow> rm_fit (mapents mp) 0 sz;
        case f of
          None \<Rightarrow> Some (0, mp)
        | Some b \<Rightarrow> do {
            e \<leftarrow> rd (mapents mp) b;
            let a = m_addr e;
            let e' = \<lparr>m_size = u32sub (m_size e) sz, m_addr = u32add a sz\<rparr>;
            let es = (mapents mp)[b := e'];
            if m_size e' = 0 then do {
              es' \<leftarrow> rm_delete es b;
              Some (a, mp\<lparr>mapents := es', mapsize := u32add (mapsize mp) 1\<rparr>)
            } else Some (a, mp\<lparr>mapents := es\<rparr>)
          }
      })"

text \<open>The search of \<^verbatim>\<open>rmfree\<close>: the first slot whose region starts after \<open>a\<close>, or the end.\<close>

function rm_after :: "mapent list \<Rightarrow> nat \<Rightarrow> nat \<Rightarrow> nat option" where
  "rm_after es i a = do {
     e \<leftarrow> rd es i;
     if m_addr e \<le> a \<and> m_size e \<noteq> 0 then rm_after es (Suc i) a else Some i
   }"
  by pat_completeness auto
termination
  by (relation "measure (\<lambda>(es, i, a). length es - i)") (auto simp: rd_Some_iff)

text \<open>
  \<^verbatim>\<open>while (bp->m_size) { bp++; (bp-1)->m_addr = bp->m_addr; (bp-1)->m_size = bp->m_size; }\<close>
\<close>

function rm_compress :: "mapent list \<Rightarrow> nat \<Rightarrow> mapent list option" where
  "rm_compress es b = do {
     e \<leftarrow> rd es b;
     if m_size e = 0 then Some es
     else do { e' \<leftarrow> rd es (Suc b); rm_compress (es[b := e']) (Suc b) }
   }"
  by pat_completeness auto
termination
  by (relation "measure (\<lambda>(es, b). length es - b)") (auto simp: rd_Some_iff)

text \<open>The swap loop that inserts \<open>(sz, a)\<close> at a slot and pushes the later slots up.\<close>

function rm_insert :: "mapent list \<Rightarrow> nat \<Rightarrow> nat \<Rightarrow> nat \<Rightarrow> mapent list option" where
  "rm_insert es b a sz = do {
     e \<leftarrow> rd es b;
     let es' = es[b := \<lparr>m_size = sz, m_addr = a\<rparr>];
     if m_size e = 0 then Some es' else rm_insert es' (Suc b) (m_addr e) (m_size e)
   }"
  by pat_completeness auto
termination
  by (relation "measure (\<lambda>(es, b, a, sz). length es - b)") (auto simp: rd_Some_iff)

text \<open>
  \<open>rm_wakeup\<close> is the end of \<^verbatim>\<open>rmfree\<close>: the flag is the call of \<^verbatim>\<open>wakeprocs\<close> on the map. A map
  whose slots are all in use loses the units, and the early return skips the wakeup.
\<close>

definition rm_wakeup :: "rmap \<Rightarrow> bool \<times> rmap" where
  "rm_wakeup mp = (if mapwant mp \<noteq> 0 then (True, mp\<lparr>mapwant := 0\<rparr>) else (False, mp))"

definition rmfree :: "rmap \<Rightarrow> nat \<Rightarrow> nat \<Rightarrow> (bool \<times> rmap) option" where
  "rmfree mp sz a =
     (if sz = 0 then Some (False, mp)
      else let es = mapents mp in do {
        b \<leftarrow> rm_after es 0 a;
        e \<leftarrow> rd es b;
        if b > 0 \<and> u32add (m_addr (es ! (b - 1))) (m_size (es ! (b - 1))) = a then do {
          let p = es ! (b - 1);
          let p' = p\<lparr>m_size := u32add (m_size p) sz\<rparr>;
          let es1 = es[b - 1 := p'];
          if m_addr e \<noteq> 0 \<and> u32add a sz = m_addr e then do {
            es2 \<leftarrow> rm_compress (es1[b - 1 := p'\<lparr>m_size := u32add (m_size p') (m_size e)\<rparr>]) b;
            Some (rm_wakeup (mp\<lparr>mapents := es2, mapsize := u32add (mapsize mp) 1\<rparr>))
          } else Some (rm_wakeup (mp\<lparr>mapents := es1\<rparr>))
        } else if u32add a sz = m_addr e \<and> m_size e \<noteq> 0 then
          Some (rm_wakeup (mp\<lparr>mapents := es[b := \<lparr>m_size = u32add (m_size e) sz,
                                                  m_addr = u32sub (m_addr e) sz\<rparr>]\<rparr>))
        else if mapsize mp = 0 then Some (False, mp)
        else do {
          es1 \<leftarrow> rm_insert es b a sz;
          Some (rm_wakeup (mp\<lparr>mapents := es1, mapsize := u32sub (mapsize mp) 1\<rparr>))
        }
      })"

text \<open>\<^verbatim>\<open>malloc\<close> and \<^verbatim>\<open>mfree\<close> are the old names of the two operations.\<close>

definition malloc :: "rmap \<Rightarrow> nat \<Rightarrow> (nat \<times> rmap) option" where
  "malloc mp sz = rmalloc mp sz"

definition mfree :: "rmap \<Rightarrow> nat \<Rightarrow> nat \<Rightarrow> (bool \<times> rmap) option" where
  "mfree mp sz a = rmfree mp sz a"

text \<open>\<^verbatim>\<open>mapinit(X, Y)\<close> on a zeroed array of \<open>Y\<close> slots, slot 0 included.\<close>

definition mapinit :: "nat \<Rightarrow> rmap" where
  "mapinit y = \<lparr>mapsize = u32sub y 2, mapwant = 0,
                mapents = replicate (y - 1) \<lparr>m_size = 0, m_addr = 0\<rparr>\<rparr>"

declare rm_delete.simps [simp del] rm_fit.simps [simp del] rm_after.simps [simp del]
  rm_compress.simps [simp del] rm_insert.simps [simp del]

section \<open>The array as a list of regions\<close>

abbreviation (input) endent :: mapent where
  "endent \<equiv> \<lparr>m_size = 0, m_addr = 0\<rparr>"

abbreviation zeros :: "nat \<Rightarrow> mapent list" where
  "zeros k \<equiv> replicate k \<lparr>m_size = 0, m_addr = 0\<rparr>"

definition region :: "mapent \<Rightarrow> nat set" where
  "region e = {m_addr e..<m_addr e + m_size e}"

definition units :: "mapent list \<Rightarrow> nat set" where
  "units es = (\<Union>e\<in>set es. region e)"

definition live :: "mapent list \<Rightarrow> bool" where
  "live es \<longleftrightarrow> (\<forall>e\<in>set es. 0 < m_size e \<and> 0 < m_addr e \<and> m_addr e + m_size e < 4294967296)
     \<and> sorted_wrt (\<lambda>x y. m_addr x + m_size x < m_addr y) es"

text \<open>The free regions of a map, and the set of its free units.\<close>

definition regions :: "rmap \<Rightarrow> mapent list" where
  "regions mp = takeWhile (\<lambda>e. m_size e \<noteq> 0) (mapents mp)"

definition free_units :: "rmap \<Rightarrow> nat set" where
  "free_units mp = units (regions mp)"

definition rm_inv :: "rmap \<Rightarrow> bool" where
  "rm_inv mp \<longleftrightarrow> mapents mp = regions mp @ zeros (Suc (mapsize mp)) \<and> live (regions mp)
     \<and> length (mapents mp) < 4294967296"

lemma regions_append:
  "live es \<Longrightarrow> regions (mp\<lparr>mapents := es @ zeros (Suc k)\<rparr>) = es"
  by (auto simp: regions_def live_def takeWhile_append2)

lemma rm_delete_eq:
  "\<forall>e\<in>set ys. m_size e \<noteq> 0 \<Longrightarrow>
   rm_delete (xs @ y # ys @ zeros (Suc k)) (length xs) = Some (xs @ ys @ zeros (Suc (Suc k)))"
proof (induction ys arbitrary: xs y)
  case Nil
  then show ?case by (simp add: rm_delete.simps [of _ "length xs"] rd_def nth_append list_update_append)
next
  case (Cons z zs)
  have "rm_delete (xs @ y # (z # zs) @ zeros (Suc k)) (length xs)
      = rm_delete ((xs @ [z]) @ z # zs @ zeros (Suc k)) (length (xs @ [z]))"
    using Cons.prems
    by (simp add: rm_delete.simps [of _ "length xs"] rd_def nth_append list_update_append)
  also have "\<dots> = Some ((xs @ [z]) @ zs @ zeros (Suc (Suc k)))"
    using Cons.prems by (intro Cons.IH) simp
  finally show ?case by simp
qed

lemma rm_compress_eq:
  "\<forall>e\<in>set ys. m_size e \<noteq> 0 \<Longrightarrow> m_size y \<noteq> 0 \<Longrightarrow>
   rm_compress (xs @ y # ys @ zeros (Suc k)) (length xs) = Some (xs @ ys @ zeros (Suc (Suc k)))"
proof (induction ys arbitrary: xs y)
  case Nil
  then show ?case
    by (simp add: rm_compress.simps [of _ "length xs"] rm_compress.simps [of _ "Suc (length xs)"]
        rd_def nth_append list_update_append)
next
  case (Cons z zs)
  have "rm_compress (xs @ y # (z # zs) @ zeros (Suc k)) (length xs)
      = rm_compress ((xs @ [z]) @ z # zs @ zeros (Suc k)) (length (xs @ [z]))"
    using Cons.prems
    by (simp add: rm_compress.simps [of _ "length xs"] rd_def nth_append list_update_append)
  also have "\<dots> = Some ((xs @ [z]) @ zs @ zeros (Suc (Suc k)))"
    using Cons.prems by (intro Cons.IH) auto
  finally show ?case by simp
qed

lemma rm_insert_eq:
  "\<forall>e\<in>set ys. m_size e \<noteq> 0 \<Longrightarrow>
   rm_insert (xs @ ys @ zeros (Suc k)) (length xs) a sz
     = Some (xs @ \<lparr>m_size = sz, m_addr = a\<rparr> # ys @ zeros k)"
proof (induction ys arbitrary: xs a sz)
  case Nil
  then show ?case
    by (simp add: rm_insert.simps [of _ "length xs"] rd_def nth_append list_update_append)
next
  case (Cons z zs)
  have "rm_insert (xs @ (z # zs) @ zeros (Suc k)) (length xs) a sz
      = rm_insert ((xs @ [\<lparr>m_size = sz, m_addr = a\<rparr>]) @ zs @ zeros (Suc k))
          (length (xs @ [\<lparr>m_size = sz, m_addr = a\<rparr>])) (m_addr z) (m_size z)"
    using Cons.prems
    by (simp add: rm_insert.simps [of _ "length xs"] rd_def nth_append list_update_append)
  also have "\<dots> = Some ((xs @ [\<lparr>m_size = sz, m_addr = a\<rparr>]) @
      \<lparr>m_size = m_size z, m_addr = m_addr z\<rparr> # zs @ zeros k)"
    using Cons.prems by (intro Cons.IH) simp
  finally show ?case by simp
qed

lemma rm_fit_eq:
  "\<forall>e\<in>set ys. m_size e \<noteq> 0 \<Longrightarrow>
   rm_fit (xs @ ys @ zeros (Suc k)) (length xs) sz
     = Some (if \<forall>e\<in>set ys. m_size e < sz then None
             else Some (length xs + length (takeWhile (\<lambda>e. m_size e < sz) ys)))"
proof (induction ys arbitrary: xs)
  case Nil
  then show ?case by (simp add: rm_fit.simps [of _ "length xs"] rd_def nth_append)
next
  case (Cons z zs)
  from Cons.IH [of "xs @ [z]"] Cons.prems show ?case
    by (simp add: rm_fit.simps [of _ "length xs"] rd_def nth_append)
qed

lemma rm_after_eq:
  "\<forall>e\<in>set ys. m_size e \<noteq> 0 \<Longrightarrow>
   rm_after (xs @ ys @ zeros (Suc k)) (length xs) a
     = Some (length xs + length (takeWhile (\<lambda>e. m_addr e \<le> a) ys))"
proof (induction ys arbitrary: xs)
  case Nil
  then show ?case by (simp add: rm_after.simps [of _ "length xs"] rd_def nth_append)
next
  case (Cons z zs)
  from Cons.IH [of "xs @ [z]"] Cons.prems show ?case
    by (simp add: rm_after.simps [of _ "length xs"] rd_def nth_append)
qed

lemma liveD: "live es \<Longrightarrow> e \<in> set es \<Longrightarrow> 0 < m_size e \<and> 0 < m_addr e \<and> m_addr e + m_size e < 4294967296"
  by (auto simp: live_def)

lemma live_append:
  "live (xs @ ys) \<longleftrightarrow> live xs \<and> live ys \<and> (\<forall>x\<in>set xs. \<forall>y\<in>set ys. m_addr x + m_size x < m_addr y)"
  by (auto simp: live_def sorted_wrt_append)

lemma live_Cons:
  "live (e # es) \<longleftrightarrow> 0 < m_size e \<and> 0 < m_addr e \<and> m_addr e + m_size e < 4294967296 \<and> live es
    \<and> (\<forall>y\<in>set es. m_addr e + m_size e < m_addr y)"
  by (auto simp: live_def)

lemma live_Nil [simp]: "live []"
  by (simp add: live_def)

lemma units_simps [simp]:
  "units [] = {}" "units (e # es) = region e \<union> units es" "units (xs @ ys) = units xs \<union> units ys"
  by (auto simp: units_def)

lemma rm_inv_regions:
  assumes "live es" "length (es @ zeros (Suc k)) < 4294967296"
  shows "rm_inv (mp\<lparr>mapents := es @ zeros (Suc k), mapsize := k\<rparr>)"
    "regions (mp\<lparr>mapents := es @ zeros (Suc k), mapsize := k\<rparr>) = es"
proof -
  have "takeWhile (\<lambda>e. m_size e \<noteq> 0) (es @ zeros (Suc k)) = es"
    using assms(1) by (simp add: takeWhile_append2 live_def)
  then have r: "regions (mp\<lparr>mapents := es @ zeros (Suc k), mapsize := k\<rparr>) = es"
    by (simp add: regions_def)
  then show "regions (mp\<lparr>mapents := es @ zeros (Suc k), mapsize := k\<rparr>) = es" .
  from r assms show "rm_inv (mp\<lparr>mapents := es @ zeros (Suc k), mapsize := k\<rparr>)"
    by (simp add: rm_inv_def)
qed

lemma rm_invD:
  assumes "rm_inv mp"
  shows "mapents mp = regions mp @ zeros (Suc (mapsize mp))" "live (regions mp)"
    "\<forall>e\<in>set (regions mp). m_size e \<noteq> 0" "length (regions mp) + mapsize mp < 4294967295"
proof -
  from assms show es: "mapents mp = regions mp @ zeros (Suc (mapsize mp))" and l: "live (regions mp)"
    by (simp_all add: rm_inv_def)
  from l show "\<forall>e\<in>set (regions mp). m_size e \<noteq> 0" by (auto dest: liveD)
  have "length (mapents mp) = length (regions mp) + Suc (mapsize mp)" by (subst es) simp
  moreover have "length (mapents mp) < 4294967296" using assms unfolding rm_inv_def by blast
  ultimately show "length (regions mp) + mapsize mp < 4294967295" by linarith
qed

lemma rmap_eta: "mp\<lparr>mapents := mapents mp, mapsize := mapsize mp\<rparr> = mp"
  by simp

lemma first_fit_split:
  assumes "\<not> (\<forall>e\<in>set es. m_size e < sz)"
  obtains xs e ys where "es = xs @ e # ys" "\<forall>x\<in>set xs. m_size x < sz" "sz \<le> m_size e"
    "length (takeWhile (\<lambda>e. m_size e < sz) es) = length xs"
proof -
  let ?P = "\<lambda>e. m_size e < sz"
  have "es = takeWhile ?P es @ dropWhile ?P es" by simp
  moreover obtain e ys where "dropWhile ?P es = e # ys"
    using assms by (metis dropWhile_eq_Nil_conv list.exhaust)
  moreover from this have "sz \<le> m_size e"
    by (metis dropWhile_eq_Cons_conv not_le)
  ultimately show thesis
    by (intro that [of "takeWhile ?P es" e ys]) (auto dest: set_takeWhileD)
qed

text \<open>What \<^verbatim>\<open>rmalloc\<close> does to the list of regions.\<close>

lemma rmalloc_regions:
  assumes inv: "rm_inv mp" and sz: "0 < sz"
  obtains (none) "rmalloc mp sz = Some (0, mp)" "\<forall>e\<in>set (regions mp). m_size e < sz"
  | (fit) xs e ys mp' where "regions mp = xs @ e # ys" "\<forall>x\<in>set xs. m_size x < sz" "sz \<le> m_size e"
      "rmalloc mp sz = Some (m_addr e, mp')" "rm_inv mp'" "mapwant mp' = mapwant mp"
      "regions mp' = xs @ (if m_size e = sz then [] else
         [\<lparr>m_size = m_size e - sz, m_addr = m_addr e + sz\<rparr>]) @ ys"
      "mapsize mp' = (if m_size e = sz then Suc (mapsize mp) else mapsize mp)"
proof (cases "\<forall>e\<in>set (regions mp). m_size e < sz")
  case True
  with rm_fit_eq [of "regions mp" "[]" "mapsize mp" sz] rm_invD(1,3) [OF inv] sz
  have "rmalloc mp sz = Some (0, mp)" by (simp add: rmalloc_def)
  with True show thesis by (rule none [rotated])
next
  case False
  then obtain xs e ys where r: "regions mp = xs @ e # ys" "\<forall>x\<in>set xs. m_size x < sz" "sz \<le> m_size e"
      "length (takeWhile (\<lambda>e. m_size e < sz) (regions mp)) = length xs"
    by (rule first_fit_split)
  let ?k = "mapsize mp" and ?e' = "\<lparr>m_size = m_size e - sz, m_addr = m_addr e + sz\<rparr>"
  note es = rm_invD(1) [OF inv, unfolded r(1)]
  have live: "live (xs @ e # ys)" using rm_invD(2) [OF inv] r(1) by simp
  then have e: "0 < m_addr e" "m_addr e + m_size e < 4294967296" by (auto simp: live_append live_Cons)
  have fits: "rm_fit (mapents mp) 0 sz = Some (Some (length xs))"
    using rm_fit_eq [of "regions mp" "[]" ?k sz] rm_invD(1,3) [OF inv] False r(4) by simp
  have rdb: "rd (mapents mp) (length xs) = Some e" unfolding es by (simp add: rd_def nth_append)
  have wrap: "u32sub (m_size e) sz = m_size e - sz" "u32add (m_addr e) sz = m_addr e + sz"
    using e r(3) by (auto intro!: u32sub_id u32add_id)
  have upd: "(mapents mp)[length xs := ?e'] = xs @ ?e' # ys @ zeros (Suc ?k)"
    unfolding es by (simp add: list_update_append)
  have len: "length (xs @ e # ys) + ?k < 4294967295" using rm_invD(4) [OF inv] unfolding r(1) .
  show thesis
  proof (cases "m_size e = sz")
    case True
    define mp' where "mp' = mp\<lparr>mapents := (xs @ ys) @ zeros (Suc (Suc ?k)), mapsize := Suc ?k\<rparr>"
    have "rm_delete (xs @ ?e' # ys @ zeros (Suc ?k)) (length xs) = Some ((xs @ ys) @ zeros (Suc (Suc ?k)))"
      using rm_delete_eq [of ys xs ?e' ?k] rm_invD(3) [OF inv] r(1) by simp
    then have alloc: "rmalloc mp sz = Some (m_addr e, mp')"
      using sz fits rdb wrap upd True len by (simp add: rmalloc_def Let_def u32add_id mp'_def)
    have "live (xs @ ys)" using live by (auto simp: live_append live_Cons)
    then have "rm_inv mp'" "regions mp' = xs @ ys"
      using rm_inv_regions [of "xs @ ys" "Suc ?k" mp] len by (simp_all add: mp'_def)
    moreover have "mapwant mp' = mapwant mp" "mapsize mp' = Suc ?k" by (simp_all add: mp'_def)
    ultimately show thesis using True by (intro fit [OF r(1-3) alloc]) simp_all
  next
    case False
    define mp' where "mp' = mp\<lparr>mapents := (xs @ ?e' # ys) @ zeros (Suc ?k), mapsize := ?k\<rparr>"
    have alloc: "rmalloc mp sz = Some (m_addr e, mp')"
      using sz fits rdb wrap upd False r(3) by (simp add: rmalloc_def Let_def mp'_def)
    have "live (xs @ ?e' # ys)"
      using live False r(3) sz by (fastforce simp: live_append live_Cons)
    then have "rm_inv mp'" "regions mp' = xs @ ?e' # ys"
      using rm_inv_regions [of "xs @ ?e' # ys" ?k mp] len by (simp_all add: mp'_def)
    moreover have "mapwant mp' = mapwant mp" "mapsize mp' = ?k" by (simp_all add: mp'_def)
    ultimately show thesis using False by (intro fit [OF r(1-3) alloc]) simp_all
  qed
qed

text \<open>The regions at or below \<open>a\<close> and the ones above it.\<close>

lemma split_at:
  assumes "live es"
  obtains L R where "es = L @ R" "\<forall>x\<in>set L. m_addr x \<le> a" "\<forall>y\<in>set R. a < m_addr y"
    "length (takeWhile (\<lambda>e. m_addr e \<le> a) es) = length L"
proof -
  let ?P = "\<lambda>e. m_addr e \<le> a"
  have es: "es = takeWhile ?P es @ dropWhile ?P es" by simp
  have "\<forall>y\<in>set (dropWhile ?P es). a < m_addr y"
  proof (cases "dropWhile ?P es")
    case (Cons r rs)
    then have "a < m_addr r" by (metis dropWhile_eq_Cons_conv not_le)
    moreover have "live (r # rs)" using assms es Cons by (metis live_append)
    ultimately show ?thesis using Cons by (auto simp: live_Cons)
  next
    case Nil
    then show ?thesis by (metis empty_iff list.set(1))
  qed
  then show thesis by (intro that [OF es]) (auto dest: set_takeWhileD)
qed

text \<open>The list of regions that freeing \<open>sz\<close> units at \<open>a\<close> leads to.\<close>

definition merged :: "mapent list \<Rightarrow> mapent list \<Rightarrow> nat \<Rightarrow> nat \<Rightarrow> mapent list" where
  "merged L R sz a =
     (if L \<noteq> [] \<and> m_addr (last L) + m_size (last L) = a then
        if R \<noteq> [] \<and> a + sz = m_addr (hd R) then
          butlast L @ \<lparr>m_size = m_size (last L) + sz + m_size (hd R), m_addr = m_addr (last L)\<rparr> # tl R
        else butlast L @ \<lparr>m_size = m_size (last L) + sz, m_addr = m_addr (last L)\<rparr> # R
      else if R \<noteq> [] \<and> a + sz = m_addr (hd R) then
        L @ \<lparr>m_size = m_size (hd R) + sz, m_addr = a\<rparr> # tl R
      else L @ \<lparr>m_size = sz, m_addr = a\<rparr> # R)"

definition around :: "mapent list \<Rightarrow> mapent list \<Rightarrow> nat \<Rightarrow> nat \<Rightarrow> bool" where
  "around L R sz a \<longleftrightarrow> live (L @ R) \<and> 0 < sz \<and> 0 < a \<and> a + sz < 4294967296
     \<and> (\<forall>x\<in>set L. m_addr x + m_size x \<le> a) \<and> (\<forall>y\<in>set R. a + sz \<le> m_addr y)"

lemma aroundI:
  assumes "live (L @ R)" "0 < sz" "0 < a" "a + sz < 4294967296" "\<forall>x\<in>set L. m_addr x \<le> a"
    "\<forall>y\<in>set R. a < m_addr y" "{a..<a + sz} \<inter> units (L @ R) = {}"
  shows "around L R sz a"
proof -
  have out: "u \<notin> region e" if "e \<in> set (L @ R)" "a \<le> u" "u < a + sz" for e u
    using assms(7) that by (auto simp: units_def)
  have "m_addr x + m_size x \<le> a" if "x \<in> set L" for x
    using out [of x a] assms(2,5) that by (force simp: region_def)
  moreover have "a + sz \<le> m_addr y" if "y \<in> set R" for y
    using out [of y "m_addr y"] assms(1,6) that
    by (force simp: region_def live_append dest: liveD)
  ultimately show ?thesis using assms by (simp add: around_def)
qed

text \<open>The four ways a freed region joins its neighbours.\<close>

lemma merged_cases:
  obtains (both) L' p r R' where "L = L' @ [p]" "R = r # R'" "m_addr p + m_size p = a" "a + sz = m_addr r"
      "merged L R sz a = L' @ \<lparr>m_size = m_size p + sz + m_size r, m_addr = m_addr p\<rparr> # R'"
  | (below) L' p where "L = L' @ [p]" "m_addr p + m_size p = a" "R = [] \<or> a + sz \<noteq> m_addr (hd R)"
      "merged L R sz a = L' @ \<lparr>m_size = m_size p + sz, m_addr = m_addr p\<rparr> # R"
  | (above) r R' where "R = r # R'" "L = [] \<or> m_addr (last L) + m_size (last L) \<noteq> a" "a + sz = m_addr r"
      "merged L R sz a = L @ \<lparr>m_size = m_size r + sz, m_addr = a\<rparr> # R'"
  | (alone) "L = [] \<or> m_addr (last L) + m_size (last L) \<noteq> a" "R = [] \<or> a + sz \<noteq> m_addr (hd R)"
      "merged L R sz a = L @ \<lparr>m_size = sz, m_addr = a\<rparr> # R"
proof (cases "L \<noteq> [] \<and> m_addr (last L) + m_size (last L) = a"; cases "R \<noteq> [] \<and> a + sz = m_addr (hd R)")
  assume *: "L \<noteq> [] \<and> m_addr (last L) + m_size (last L) = a" "R \<noteq> [] \<and> a + sz = m_addr (hd R)"
  then show thesis
    by (intro both [of "butlast L" "last L" "hd R" "tl R"]) (auto simp: merged_def)
next
  assume *: "L \<noteq> [] \<and> m_addr (last L) + m_size (last L) = a" "\<not> (R \<noteq> [] \<and> a + sz = m_addr (hd R))"
  then show thesis by (intro below [of "butlast L" "last L"]) (auto simp: merged_def)
next
  assume *: "\<not> (L \<noteq> [] \<and> m_addr (last L) + m_size (last L) = a)" "R \<noteq> [] \<and> a + sz = m_addr (hd R)"
  then show thesis by (intro above [of "hd R" "tl R"]) (auto simp: merged_def)
next
  assume *: "\<not> (L \<noteq> [] \<and> m_addr (last L) + m_size (last L) = a)" "\<not> (R \<noteq> [] \<and> a + sz = m_addr (hd R))"
  then show thesis by (intro alone) (auto simp: merged_def)
qed

lemma below_strict:
  assumes "around L R sz a" "L = [] \<or> m_addr (last L) + m_size (last L) \<noteq> a" "x \<in> set L"
  shows "m_addr x + m_size x < a"
proof -
  from assms(2,3) obtain L' p where L: "L = L' @ [p]" by (metis empty_iff list.set(1) rev_exhaust)
  with assms have p: "m_addr p + m_size p < a" "live (L' @ [p])"
    by (auto simp: around_def live_append live_Cons order.order_iff_strict)
  with assms(3) L show ?thesis by (auto simp: live_append live_Cons)
qed

lemma above_strict:
  assumes "around L R sz a" "R = [] \<or> a + sz \<noteq> m_addr (hd R)" "y \<in> set R"
  shows "a + sz < m_addr y"
proof -
  from assms(2,3) obtain r R' where R: "R = r # R'" by (cases R) auto
  with assms have p: "a + sz < m_addr r" "live (r # R')"
    by (auto simp: around_def live_append order.order_iff_strict)
  with assms(3) R show ?thesis by (auto simp: live_Cons)
qed

lemma live_merged:
  assumes "around L R sz a"
  shows "live (merged L R sz a)"
proof (cases L R a sz rule: merged_cases)
  case (both L' p r R')
  with assms show ?thesis by (fastforce simp: around_def live_append live_Cons)
next
  case (below L' p)
  with assms above_strict [OF assms below(3)] show ?thesis
    by (fastforce simp: around_def live_append live_Cons)
next
  case (above r R')
  with assms below_strict [OF assms above(2)] show ?thesis
    by (fastforce simp: around_def live_append live_Cons)
next
  case alone
  with assms below_strict [OF assms alone(1)] above_strict [OF assms alone(2)] show ?thesis
    by (fastforce simp: around_def live_append live_Cons)
qed

lemma units_merged:
  assumes "around L R sz a"
  shows "units (merged L R sz a) = units (L @ R) \<union> {a..<a + sz}"
  by (cases L R a sz rule: merged_cases) (auto simp: region_def)

lemma mapent_upd: "p\<lparr>m_size := v\<rparr> = \<lparr>m_size = v, m_addr = m_addr p\<rparr>" for p :: mapent
  by (cases p) simp

text \<open>The effect of \<^verbatim>\<open>rmfree\<close> before the wakeup: the freed region is merged in, or lost.\<close>

lemma rmfree_merged:
  assumes inv: "rm_inv mp" and reg: "regions mp = L @ R" and ar: "around L R sz a"
    and len: "length (takeWhile (\<lambda>e. m_addr e \<le> a) (regions mp)) = length L"
  shows "rmfree mp sz a =
    (if length (merged L R sz a) > length (L @ R) \<and> mapsize mp = 0 then Some (False, mp)
     else Some (rm_wakeup (mp\<lparr>mapents := merged L R sz a
            @ zeros (Suc (mapsize mp + length (L @ R) - length (merged L R sz a))),
          mapsize := mapsize mp + length (L @ R) - length (merged L R sz a)\<rparr>)))"
proof -
  let ?k = "mapsize mp"
  note es = rm_invD(1) [OF inv, unfolded reg]
  have nz: "\<forall>e\<in>set (L @ R). m_size e \<noteq> 0" using rm_invD(3) [OF inv] reg by simp
  have b: "rm_after (mapents mp) 0 a = Some (length L)"
    using rm_after_eq [of "regions mp" "[]" ?k a] rm_invD(1,3) [OF inv] len by simp
  have klen: "length (L @ R) + ?k < 4294967295" using rm_invD(4) [OF inv] unfolding reg .
  have sz: "0 < sz" "a + sz < 4294967296" using ar by (auto simp: around_def)
  have asz: "u32add a sz = a + sz" using sz by (intro u32add_id)
  have rl: "\<forall>e\<in>set (L @ R). m_addr e + m_size e < 4294967296 \<and> 0 < m_addr e"
    using ar by (auto simp: around_def dest: liveD)
  have adj: "length L > 0 \<and> u32add (m_addr ((L @ ys) ! (length L - 1))) (m_size ((L @ ys) ! (length L - 1))) = a
      \<longleftrightarrow> L \<noteq> [] \<and> m_addr (last L) + m_size (last L) = a" for ys
    using rl by (cases L rule: rev_cases) (auto simp: nth_append u32add_id)
  have e: "rd (L @ R @ zeros (Suc ?k)) (length L) = Some (hd (R @ zeros (Suc ?k)))"
    by (cases R) (simp_all add: rd_def nth_append)
  show ?thesis
  proof (cases L R a sz rule: merged_cases)
    case (both L' p r R')
    let ?e = "\<lparr>m_size = m_size p + sz + m_size r, m_addr = m_addr p\<rparr>"
    have "rm_compress (L' @ ?e # r # R' @ zeros (Suc ?k)) (Suc (length L'))
        = Some (L' @ ?e # R' @ zeros (Suc (Suc ?k)))"
      using rm_compress_eq [of R' r "L' @ [?e]" ?k] nz both(1,2) by simp
    moreover have "u32add (m_size p) sz = m_size p + sz" "m_addr r \<noteq> 0"
        "u32add (m_size p + sz) (m_size r) = m_size p + sz + m_size r" "u32add ?k (Suc 0) = Suc ?k"
        "u32add (m_addr p) (m_size p) = m_addr p + m_size p"
      using both(3,4) rl sz klen both(1,2) by (auto intro!: u32add_id u32add_Suc)
    ultimately show ?thesis
      using both(1-4) sz(1) b es asz unfolding both(5)
      by (simp add: rmfree_def Let_def rd_def nth_append list_update_append mapent_upd)
  next
    case (below L' p)
    have "u32add (m_size p) sz = m_size p + sz" "u32add (m_addr p) (m_size p) = m_addr p + m_size p"
      using below(1,2) rl sz by (auto intro!: u32add_id)
    moreover have "\<not> (m_addr (hd (R @ zeros (Suc ?k))) \<noteq> 0 \<and> a + sz = m_addr (hd (R @ zeros (Suc ?k))))"
      using below(3) by (cases R) auto
    ultimately show ?thesis
      using below(1,2) sz(1) b es asz e unfolding below(4)
      by (auto simp: rmfree_def Let_def nth_append list_update_append mapent_upd)
  next
    case (above r R')
    have "u32add (m_size r) sz = m_size r + sz" "u32sub (m_addr r) sz = a" "m_size r \<noteq> 0"
      using above(1,3) rl sz nz by (auto intro!: u32add_id simp: u32sub_id)
    then show ?thesis
      using adj [of "R @ zeros (Suc ?k)"] above(1-3) sz(1) b es asz e unfolding above(4)
      by (auto simp: rmfree_def Let_def list_update_append)
  next
    case alone
    have "\<not> (a + sz = m_addr (hd (R @ zeros (Suc ?k))) \<and> m_size (hd (R @ zeros (Suc ?k))) \<noteq> 0)"
      using alone(2) by (cases R) auto
    moreover have "?k = Suc k \<Longrightarrow> rm_insert (L @ R @ zeros (Suc ?k)) (length L) a sz
        = Some (L @ \<lparr>m_size = sz, m_addr = a\<rparr> # R @ zeros (Suc k))" for k
      using rm_insert_eq [of R L ?k a sz] nz by simp
    moreover have "?k = Suc k \<Longrightarrow> u32sub ?k 1 = k" for k using klen by (simp add: u32sub_id)
    ultimately show ?thesis
      using adj [of "R @ zeros (Suc ?k)"] alone(1) sz(1) b es asz e unfolding alone(3)
      by (cases ?k) (auto simp: rmfree_def Let_def)
  qed
qed

section \<open>The free units\<close>

lemma live_apart:
  "live es \<Longrightarrow> e \<in> set es \<Longrightarrow> f \<in> set es \<Longrightarrow>
   f = e \<or> m_addr e + m_size e < m_addr f \<or> m_addr f + m_size f < m_addr e"
  by (induction es) (auto simp: live_Cons)

lemma interval_in_region:
  assumes "live es" "{x..<x + sz} \<subseteq> units es" "0 < sz"
  obtains e where "e \<in> set es" "{x..<x + sz} \<subseteq> region e"
proof -
  from assms(2,3) obtain e where e: "e \<in> set es" "x \<in> region e" by (force simp: units_def)
  let ?u = "m_addr e + m_size e"
  have "?u \<notin> units es"
    using live_apart [OF assms(1) e(1)] by (force simp: units_def region_def)
  with assms(2) have "?u \<notin> {x..<x + sz}" by blast
  with e that show thesis by (auto simp: region_def)
qed

lemma fit_none:
  assumes "live es" "\<forall>e\<in>set es. m_size e < sz" "0 < sz"
  shows "\<not> {x..<x + sz} \<subseteq> units es"
proof
  assume "{x..<x + sz} \<subseteq> units es"
  with assms obtain e where "e \<in> set es" "{x..<x + sz} \<subseteq> region e" by (auto elim: interval_in_region)
  with assms(2,3) show False by (force simp: region_def)
qed

lemma fit_lowest:
  assumes "live (xs @ e # ys)" "\<forall>x\<in>set xs. m_size x < sz" "0 < sz" "x < m_addr e"
  shows "\<not> {x..<x + sz} \<subseteq> units (xs @ e # ys)"
proof
  assume "{x..<x + sz} \<subseteq> units (xs @ e # ys)"
  then obtain f where f: "f \<in> set (xs @ e # ys)" "{x..<x + sz} \<subseteq> region f"
    by (rule interval_in_region [OF assms(1) _ assms(3)])
  with assms(3) have "m_addr f \<le> x" "sz \<le> m_size f" by (auto simp: region_def)
  with f(1) assms show False by (fastforce simp: live_append live_Cons)
qed

lemma units_alloc:
  assumes "live (xs @ e # ys)" "sz \<le> m_size e"
  shows "units (xs @ (if m_size e = sz then [] else [\<lparr>m_size = m_size e - sz, m_addr = m_addr e + sz\<rparr>]) @ ys)
    = units (xs @ e # ys) - {m_addr e..<m_addr e + sz}"
proof -
  have "u \<notin> {m_addr e..<m_addr e + sz}" if "u \<in> units (xs @ ys)" for u
    using that assms by (fastforce simp: units_def region_def live_append live_Cons)
  then have "units (xs @ ys) \<inter> {m_addr e..<m_addr e + sz} = {}" by blast
  then show ?thesis using assms(2) by (auto simp: region_def)
qed

text \<open>A map of four slots with two regions in use, for the witnesses.\<close>

definition example_map :: rmap where
  "example_map = \<lparr>mapsize = 1, mapwant = 1,
     mapents = [\<lparr>m_size = 4, m_addr = 1\<rparr>, \<lparr>m_size = 10, m_addr = 20\<rparr>,
                \<lparr>m_size = 0, m_addr = 0\<rparr>, \<lparr>m_size = 0, m_addr = 0\<rparr>]\<rparr>"

lemma example_map_inv: "rm_inv example_map"
  by (simp add: rm_inv_def regions_def example_map_def live_def)

lemma example_map_rmalloc: "rmalloc example_map 7 = Some (20, example_map\<lparr>mapents :=
    [\<lparr>m_size = 4, m_addr = 1\<rparr>, \<lparr>m_size = 3, m_addr = 27\<rparr>,
     \<lparr>m_size = 0, m_addr = 0\<rparr>, \<lparr>m_size = 0, m_addr = 0\<rparr>]\<rparr>)"
  by (simp add: rmalloc_def example_map_def rm_fit.simps rd_def u32sub_def u32add_def)

lemma rmalloc_free_units:
  assumes "rm_inv mp" "0 < sz"
  shows "\<exists>a mp'. rmalloc mp sz = Some (a, mp') \<and> rm_inv mp' \<and> mapwant mp' = mapwant mp \<and>
    (if a = 0 then mp' = mp \<and> (\<forall>x. \<not> {x..<x + sz} \<subseteq> free_units mp)
     else {a..<a + sz} \<subseteq> free_units mp \<and> free_units mp' = free_units mp - {a..<a + sz}
       \<and> a + sz < 4294967296 \<and> (\<forall>x<a. \<not> {x..<x + sz} \<subseteq> free_units mp))"
  using assms
proof (cases rule: rmalloc_regions)
  case none
  with assms fit_none [OF rm_invD(2) [OF assms(1)]] show ?thesis by (simp add: free_units_def)
next
  case (fit xs e ys mp')
  have live: "live (xs @ e # ys)" using rm_invD(2) [OF assms(1)] fit(1) by simp
  then have e: "0 < m_addr e" "m_addr e + m_size e < 4294967296" by (auto simp: live_append live_Cons)
  have sub: "{m_addr e..<m_addr e + sz} \<subseteq> free_units mp"
    using fit(1,3) by (auto simp: free_units_def region_def)
  have "free_units mp' = free_units mp - {m_addr e..<m_addr e + sz}"
    using units_alloc [OF live fit(3)] fit(1,7) by (simp add: free_units_def)
  with fit e sub fit_lowest [OF live fit(2) assms(2)] show ?thesis
    by (auto simp: free_units_def)
qed

text \<open>
  C24: \<^verbatim>\<open>rmalloc\<close> on a well-formed map never leaves the array and keeps the map well-formed. It
  returns 0 and changes nothing exactly when no \<^verbatim>\<open>size\<close> consecutive units are free (the regions
  are always coalesced, so none is missed); otherwise it returns the lowest address at which
  \<^verbatim>\<open>size\<close> units are free and takes just those units out of the map.
\<close>

theorem rmalloc_correct:
  assumes "rm_inv mp" "0 < sz"
  shows "\<exists>a mp'. rmalloc mp sz = Some (a, mp') \<and> rm_inv mp' \<and> mapwant mp' = mapwant mp \<and>
    (if a = 0 then mp' = mp \<and> (\<forall>x. \<not> {x..<x + sz} \<subseteq> free_units mp)
     else {a..<a + sz} \<subseteq> free_units mp \<and> free_units mp' = free_units mp - {a..<a + sz}
       \<and> a + sz < 4294967296 \<and> (\<forall>x<a. \<not> {x..<x + sz} \<subseteq> free_units mp))"
  by (rule rmalloc_free_units [OF assms])

theorem rmalloc_correct_witness:
  "\<exists>mp'. rmalloc example_map 7 = Some (20, mp') \<and> free_units mp' = free_units example_map - {20..<27}"
  using rmalloc_correct [OF example_map_inv, of 7] example_map_rmalloc by auto

lemma rm_wakeup_inv:
  "rm_inv (snd (rm_wakeup mp)) = rm_inv mp" "regions (snd (rm_wakeup mp)) = regions mp"
  "mapents (snd (rm_wakeup mp)) = mapents mp" "mapsize (snd (rm_wakeup mp)) = mapsize mp"
  "mapwant (snd (rm_wakeup mp)) = 0" "fst (rm_wakeup mp) = (mapwant mp \<noteq> 0)"
  by (simp_all add: rm_wakeup_def rm_inv_def regions_def)

lemma rm_inv_eq:
  assumes "rm_inv m1" "rm_inv m2" "regions m1 = regions m2" "length (mapents m1) = length (mapents m2)"
    "mapwant m1 = mapwant m2"
  shows "m1 = (m2 :: rmap)"
proof -
  note es = rm_invD(1) [OF assms(1)] rm_invD(1) [OF assms(2)]
  have "length (mapents m1) = length (regions m1) + Suc (mapsize m1)"
    "length (mapents m2) = length (regions m2) + Suc (mapsize m2)"
    by (subst es(1), simp, subst es(2), simp)
  with assms(3,4) have "mapsize m1 = mapsize m2" by simp
  moreover from this es assms(3) have "mapents m1 = mapents m2" by metis
  ultimately show ?thesis using assms(5) by simp
qed

lemma length_merged: "length (merged L R sz a) \<le> Suc (length (L @ R))"
  by (cases L R a sz rule: merged_cases) auto

text \<open>The wakeup that ends \<^verbatim>\<open>rmfree\<close>, and what the whole operation leaves.\<close>

lemma rmfree_result:
  assumes inv: "rm_inv mp" and reg: "regions mp = L @ R" and ar: "around L R sz a"
    and len: "length (takeWhile (\<lambda>e. m_addr e \<le> a) (regions mp)) = length L"
    and room: "\<not> (length (merged L R sz a) > length (L @ R) \<and> mapsize mp = 0)"
  obtains mp' where "rmfree mp sz a = Some (mapwant mp \<noteq> 0, mp')" "rm_inv mp'"
    "regions mp' = merged L R sz a" "mapwant mp' = 0" "length (mapents mp') = length (mapents mp)"
proof -
  let ?m = "merged L R sz a"
  define k where "k = mapsize mp + length (L @ R) - length ?m"
  define mp1 where "mp1 = mp\<lparr>mapents := ?m @ zeros (Suc k), mapsize := k\<rparr>"
  have tot: "length ?m + k = length (L @ R) + mapsize mp"
    using room length_merged [of L R sz a] unfolding k_def by auto
  have "length (L @ R) + mapsize mp < 4294967295" using rm_invD(4) [OF inv] unfolding reg .
  with tot have "rm_inv mp1" "regions mp1 = ?m"
    using rm_inv_regions [OF live_merged [OF ar], of k mp] by (simp_all add: mp1_def)
  moreover have "length (mapents mp1) = length (mapents mp)"
    using tot rm_invD(1) [OF inv, unfolded reg] by (simp add: mp1_def)
  moreover have "mapwant mp1 = mapwant mp" by (simp add: mp1_def)
  moreover have "rmfree mp sz a = Some (rm_wakeup mp1)"
    using rmfree_merged [OF inv reg ar len] room unfolding mp1_def k_def by (simp only: if_False)
  ultimately show thesis
    by (intro that [of "snd (rm_wakeup mp1)"])
       (simp_all add: rm_wakeup_inv prod_eq_iff)
qed

lemma rmfree_free_units:
  assumes "rm_inv mp" "0 < sz" "0 < a" "a + sz < 4294967296" "{a..<a + sz} \<inter> free_units mp = {}"
  shows "\<exists>w mp'. rmfree mp sz a = Some (w, mp') \<and> rm_inv mp' \<and>
    (free_units mp' = free_units mp \<union> {a..<a + sz} \<and> w = (mapwant mp \<noteq> 0) \<and> mapwant mp' = 0
     \<or> mp' = mp \<and> \<not> w \<and> mapsize mp = 0 \<and> a - 1 \<notin> free_units mp \<and> a + sz \<notin> free_units mp)"
proof -
  obtain L R where LR: "regions mp = L @ R" "\<forall>x\<in>set L. m_addr x \<le> a" "\<forall>y\<in>set R. a < m_addr y"
      "length (takeWhile (\<lambda>e. m_addr e \<le> a) (regions mp)) = length L"
    using rm_invD(2) [OF assms(1)] by (rule split_at)
  have ar: "around L R sz a"
    using assms rm_invD(2) [OF assms(1)] LR by (intro aroundI) (simp_all add: free_units_def)
  show ?thesis
  proof (cases "length (merged L R sz a) > length (L @ R) \<and> mapsize mp = 0")
    case True
    then have "rmfree mp sz a = Some (False, mp)"
      using rmfree_merged [OF assms(1) LR(1) ar LR(4)] by simp
    moreover from True have alone: "L = [] \<or> m_addr (last L) + m_size (last L) \<noteq> a"
        "R = [] \<or> a + sz \<noteq> m_addr (hd R)"
      by (cases L R a sz rule: merged_cases; auto)+
    have "a - 1 \<notin> free_units mp" "a + sz \<notin> free_units mp"
      using below_strict [OF ar alone(1)] above_strict [OF ar alone(2)] LR(1,2,3) assms(2,3)
      by (fastforce simp: free_units_def units_def region_def)+
    ultimately show ?thesis using True assms(1) by blast
  next
    case False
    then show ?thesis
      using rmfree_result [OF assms(1) LR(1) ar LR(4) False] units_merged [OF ar] LR(1)
      by (metis free_units_def)
  qed
qed

text \<open>
  C18: \<^verbatim>\<open>rmfree\<close> of a region that is not free keeps the map well-formed, stays inside the array,
  and either makes exactly those units free and wakes the sleepers on the map if there are any, or,
  when every slot is in use and the region touches no free one, loses the units without waking
  anyone (the warning the kernel prints then is not represented).
\<close>

theorem rmfree_correct:
  assumes "rm_inv mp" "0 < sz" "0 < a" "a + sz < 4294967296" "{a..<a + sz} \<inter> free_units mp = {}"
  shows "\<exists>w mp'. rmfree mp sz a = Some (w, mp') \<and> rm_inv mp' \<and>
    (free_units mp' = free_units mp \<union> {a..<a + sz} \<and> w = (mapwant mp \<noteq> 0) \<and> mapwant mp' = 0
     \<or> mp' = mp \<and> \<not> w \<and> mapsize mp = 0 \<and> a - 1 \<notin> free_units mp \<and> a + sz \<notin> free_units mp)"
  by (rule rmfree_free_units [OF assms])

theorem rmfree_correct_witness:
  "\<exists>mp'. rmfree example_map 3 5 = Some (True, mp') \<and> rm_inv mp'
     \<and> free_units mp' = free_units example_map \<union> {5..<8}"
proof -
  have "{5..<5 + 3} \<inter> free_units example_map = {}"
    by (auto simp: free_units_def regions_def example_map_def region_def)
  with rmfree_correct [OF example_map_inv, of 3 5] show ?thesis
    by (auto simp: example_map_def)
qed

text \<open>
  Freeing a region right after it was allocated restores the map slot for slot (only the sleep
  flag is cleared), so allocation and release are inverse to each other.
\<close>

theorem rmalloc_rmfree_roundtrip:
  assumes "rm_inv mp" "0 < sz" "rmalloc mp sz = Some (a, mp')" "a \<noteq> 0"
  shows "rmfree mp' sz a = Some (mapwant mp \<noteq> 0, mp\<lparr>mapwant := 0\<rparr>)"
  using assms(1,2)
proof (cases rule: rmalloc_regions)
  case none
  with assms(3,4) show ?thesis by simp
next
  case (fit xs e ys mp2)
  have mp2: "mp2 = mp'" "a = m_addr e" using fit(4) assms(3) by auto
  have live: "live (xs @ e # ys)" using rm_invD(2) [OF assms(1)] fit(1) by simp
  let ?R = "(if m_size e = sz then [] else [\<lparr>m_size = m_size e - sz, m_addr = m_addr e + sz\<rparr>]) @ ys"
  have ar: "around xs ?R sz a"
    using live fit(3) assms(2) rm_invD(2) [OF fit(5)] unfolding fit(7) mp2(2)
    by (fastforce simp: around_def live_append live_Cons)
  have low: "\<forall>x\<in>set xs. m_addr x + m_size x < a" "\<forall>y\<in>set ?R. a < m_addr y"
    using live mp2(2) assms(2) by (auto simp: live_append live_Cons)
  have len: "length (takeWhile (\<lambda>e. m_addr e \<le> a) (regions mp')) = length xs"
    using takeWhile_split [of xs "\<lambda>e. m_addr e \<le> a" ?R] low fit(7) mp2(1) by fastforce
  have gap: "\<not> (xs \<noteq> [] \<and> m_addr (last xs) + m_size (last xs) = a)" using low(1) by force
  have rejoin: "merged xs ?R sz a = xs @ e # ys"
  proof (cases "m_size e = sz")
    case True
    then have "\<not> (ys \<noteq> [] \<and> a + sz = m_addr (hd ys))"
      using live mp2(2) by (cases ys) (auto simp: live_append live_Cons)
    with True gap mp2(2) show ?thesis by (simp only: merged_def if_True if_False append_Nil) auto
  next
    case False
    with gap fit(3) mp2(2) show ?thesis by (simp only: merged_def if_False) simp
  qed
  from fit(8) fit(3) rejoin have "\<not> (length (merged xs ?R sz a) > length (xs @ ?R) \<and> mapsize mp' = 0)"
    unfolding mp2(1) by (cases "m_size e = sz") auto
  with ar fit(5,6,7) len mp2(1) obtain mp3 where mp3: "rmfree mp' sz a = Some (mapwant mp' \<noteq> 0, mp3)"
      "rm_inv mp3" "regions mp3 = regions mp" "mapwant mp3 = 0" "length (mapents mp3) = length (mapents mp')"
    using rmfree_result [of mp' xs ?R sz a] rejoin fit(1) by metis
  have "length (mapents mp') = length (mapents mp)"
    using fit(1,7,8) fit(5) assms(1) mp2(1) by (auto simp: rm_invD(1) split: if_splits)
  then have "mp3 = mp\<lparr>mapwant := 0\<rparr>"
    using mp3(2-5) assms(1) by (intro rm_inv_eq) (simp_all add: rm_inv_def regions_def)
  with mp3(1) fit(6) mp2(1) show ?thesis by simp
qed

theorem rmalloc_rmfree_roundtrip_witness:
  "\<exists>mp'. rmalloc example_map 7 = Some (20, mp') \<and>
     rmfree mp' 7 20 = Some (True, example_map\<lparr>mapwant := 0\<rparr>)"
proof -
  have "mapwant example_map = 1" by (simp add: example_map_def)
  with rmalloc_rmfree_roundtrip [OF example_map_inv _ example_map_rmalloc] show ?thesis
    by (auto simp: example_map_rmalloc)
qed

lemma mapinit_inv:
  assumes "2 \<le> y" "y < 4294967296"
  shows "rm_inv (mapinit y)" "free_units (mapinit y) = {}" "mapsize (mapinit y) = y - 2"
    "mapwant (mapinit y) = 0"
proof -
  obtain k where y: "y = Suc (Suc k)" using assms(1) by (metis Suc_leD le_Suc_ex numeral_2_eq_2 add_Suc add_Suc_shift plus_1_eq_Suc Suc_1)
  have "u32sub y 2 = k" using assms y by (simp add: u32sub_id)
  then show "rm_inv (mapinit y)" "free_units (mapinit y) = {}" "mapsize (mapinit y) = y - 2"
      "mapwant (mapinit y) = 0"
    using assms(2) y by (simp_all add: mapinit_def rm_inv_def regions_def free_units_def)
qed

section \<open>The map as its clients see it\<close>

text \<open>
  The semaphore and message facilities rely on a resource map only for this: allocation takes
  units out of the free ones, or fails and changes nothing; release gives back at most the units
  released. Then a client that keeps a record of the regions it holds keeps them apart from each
  other and from the free units.
\<close>

definition span :: "nat \<times> nat \<Rightarrow> nat set" where
  "span h = {fst h..<fst h + snd h}"

locale unit_allocator =
  fixes alloc :: "'s \<Rightarrow> nat \<Rightarrow> (nat \<times> 's) option"
    and release :: "'s \<Rightarrow> nat \<Rightarrow> nat \<Rightarrow> (bool \<times> 's) option"
    and avail :: "'s \<Rightarrow> nat set"
    and inv :: "'s \<Rightarrow> bool"
  assumes alloc_ok: "inv s \<Longrightarrow> 0 < n \<Longrightarrow> \<exists>a s'. alloc s n = Some (a, s') \<and> inv s' \<and>
      (if a = 0 then s' = s else a + n < 4294967296 \<and> {a..<a + n} \<subseteq> avail s \<and> avail s' = avail s - {a..<a + n})"
    and release_ok: "inv s \<Longrightarrow> 0 < n \<Longrightarrow> 0 < a \<Longrightarrow> a + n < 4294967296 \<Longrightarrow> {a..<a + n} \<inter> avail s = {} \<Longrightarrow>
      \<exists>w s'. release s n a = Some (w, s') \<and> inv s' \<and> avail s \<subseteq> avail s' \<and> avail s' \<subseteq> avail s \<union> {a..<a + n}"
begin

definition holds :: "'s \<Rightarrow> (nat \<times> nat) set \<Rightarrow> bool" where
  "holds s H \<longleftrightarrow> inv s
     \<and> (\<forall>h\<in>H. 0 < fst h \<and> 0 < snd h \<and> fst h + snd h < 4294967296 \<and> span h \<inter> avail s = {})
     \<and> (\<forall>h\<in>H. \<forall>k\<in>H. h \<noteq> k \<longrightarrow> span h \<inter> span k = {})"

lemma holdsD:
  assumes "holds s H"
  shows "inv s" "h \<in> H \<Longrightarrow> 0 < fst h" "h \<in> H \<Longrightarrow> 0 < snd h" "h \<in> H \<Longrightarrow> fst h + snd h < 4294967296"
    "h \<in> H \<Longrightarrow> span h \<inter> avail s = {}" "h \<in> H \<Longrightarrow> k \<in> H \<Longrightarrow> h \<noteq> k \<Longrightarrow> span h \<inter> span k = {}"
  using assms unfolding holds_def by blast+

lemma holds_alloc:
  assumes "holds s H" "0 < n" "alloc s n = Some (a, s')"
  shows "if a = 0 then s' = s else holds s' (insert (a, n) H) \<and> (\<forall>h\<in>H. span (a, n) \<inter> span h = {})
    \<and> span (a, n) \<subseteq> avail s \<and> avail s' \<subseteq> avail s"
proof (cases "a = 0")
  case True
  with alloc_ok [OF holdsD(1) [OF assms(1)] assms(2)] assms(3) show ?thesis by auto
next
  case False
  from alloc_ok [OF holdsD(1) [OF assms(1)] assms(2)] assms(3) False
  have s': "inv s'" "a + n < 4294967296" "span (a, n) \<subseteq> avail s" "avail s' = avail s - span (a, n)"
    by (auto simp: span_def)
  have new: "span (a, n) \<inter> span h = {}" if "h \<in> H" for h
    using holdsD(5) [OF assms(1) that] s'(3) by blast
  have "holds s' (insert (a, n) H)"
    unfolding holds_def
  proof (intro conjI ballI impI)
    show "inv s'" by (rule s'(1))
    fix h assume h: "h \<in> insert (a, n) H"
    with False assms(1,2) s'(2) show "0 < fst h" "0 < snd h" "fst h + snd h < 4294967296"
      by (auto dest: holdsD)
    from h holdsD(5) [OF assms(1)] show "span h \<inter> avail s' = {}" unfolding s'(4) by blast
    fix k assume "k \<in> insert (a, n) H" "h \<noteq> k"
    with h new holdsD(6) [OF assms(1)] show "span h \<inter> span k = {}" by (metis Int_commute insertE)
  qed
  with False new s'(3,4) show ?thesis by auto
qed

lemma holds_release:
  assumes "holds s H" "h \<in> H"
  shows "\<exists>w s'. release s (snd h) (fst h) = Some (w, s') \<and> holds s' (H - {h}) \<and> avail s' \<subseteq> avail s \<union> span h"
proof -
  have "{fst h..<fst h + snd h} \<inter> avail s = {}" using holdsD(5) [OF assms] by (simp add: span_def)
  from release_ok [OF holdsD(1) [OF assms(1)] holdsD(3) [OF assms] holdsD(2) [OF assms]
      holdsD(4) [OF assms] this]
  obtain w s' where s': "release s (snd h) (fst h) = Some (w, s')" "inv s'"
      "avail s' \<subseteq> avail s \<union> span h" by (auto simp: span_def)
  have "span k \<inter> avail s' = {}" if "k \<in> H - {h}" for k
    using holdsD(5) [OF assms(1), of k] holdsD(6) [OF assms(1), of k h] assms(2) s'(3) that by blast
  then have "holds s' (H - {h})"
    unfolding holds_def using s'(2) holdsD [OF assms(1)] by simp
  with s'(1,3) show ?thesis by blast
qed

end

interpretation rm: unit_allocator rmalloc rmfree free_units rm_inv
proof
  fix mp :: rmap and n :: nat
  assume "rm_inv mp" "0 < n"
  from rmalloc_free_units [OF this]
  show "\<exists>a mp'. rmalloc mp n = Some (a, mp') \<and> rm_inv mp' \<and>
      (if a = 0 then mp' = mp else a + n < 4294967296 \<and> {a..<a + n} \<subseteq> free_units mp
        \<and> free_units mp' = free_units mp - {a..<a + n})"
    by (metis (no_types, lifting))
  fix a :: nat
  assume "0 < a" "a + n < 4294967296" "{a..<a + n} \<inter> free_units mp = {}"
  from rmfree_free_units [OF \<open>rm_inv mp\<close> \<open>0 < n\<close> this]
  show "\<exists>w mp'. rmfree mp n a = Some (w, mp') \<and> rm_inv mp' \<and> free_units mp \<subseteq> free_units mp'
      \<and> free_units mp' \<subseteq> free_units mp \<union> {a..<a + n}"
    by blast
qed

end
