(* ===== verification/KSem.thy ===== *)
theory KSem
  imports KRmap KCred "HOL-Library.Product_Lexorder"
begin

text \<open>
  System V semaphores, \<^verbatim>\<open>uts/i386/os/sem.c\<close>: identifiers and their permission structures, the
  semaphores of all sets in one array carved up by a resource map, adjust-on-exit entries per
  process, and the calls \<^verbatim>\<open>semget\<close>, \<^verbatim>\<open>semctl\<close> and \<^verbatim>\<open>semop\<close>.

  A \<^verbatim>\<open>struct sem_undo\<close> is known by its index in \<^verbatim>\<open>semu\<close>; the chain of active structures and the
  free chain, linked through \<^verbatim>\<open>un_np\<close>, are lists of indices; \<^verbatim>\<open>un_cnt\<close> is the length of the list
  of entries. \<^verbatim>\<open>wakeprocs\<close> is recorded in \<open>sem_waked\<close>, newest first, as the word slept on. What
  \<^verbatim>\<open>copyin\<close> reads is an argument, \<^const>\<open>None\<close> for a fault. \<^verbatim>\<open>sleep\<close> splits \<^verbatim>\<open>semop\<close>: one pass over the
  operations ends in a result or in the word to sleep on, and the code after the sleep is a function
  of its own, so that other processes' calls come in between.
\<close>

section \<open>Data\<close>

record sem =
  semval :: int
  sempid :: int
  semncnt :: int
  semzcnt :: int

record semid_ds =
  sem_perm :: ipc_perm
  sem_base :: nat
  sem_nsems :: nat
  sem_otime :: int
  sem_ctime :: int

record undo =
  un_aoe :: int
  un_num :: nat
  un_id :: int

record sembuf =
  sem_num :: nat
  sem_op :: int
  sem_flg :: u32

record seminfo_t =
  sim_semmap :: nat
  sim_semmni :: nat
  sim_semmns :: nat
  sim_semmnu :: nat
  sim_semmsl :: int
  sim_semopm :: nat
  sim_semume :: nat
  sim_semvmx :: int
  sim_semaem :: int

datatype semchan = NCnt nat | ZCnt nat

record semst =
  sema :: "semid_ds list"
  sems :: "sem list"
  semmap :: rmap
  semu_ent :: "nat \<Rightarrow> undo list"
  sem_undo :: "nat \<Rightarrow> nat option"
  semunp :: "nat list"
  semfup :: "nat list"
  seminfo :: seminfo_t
  sem_waked :: "semchan list"
  sem_sysinfo :: nat
  sem_now :: int

abbreviation SEM_A :: u32 where "SEM_A \<equiv> 0x80"
abbreviation SEM_R :: u32 where "SEM_R \<equiv> 0x100"
abbreviation SEM_UNDO :: u32 where "SEM_UNDO \<equiv> 0x1000"

section \<open>Adjust-on-exit entries\<close>

text \<open>The search loop of \<^verbatim>\<open>semaoe\<close>: the entries passed over, and those from the place found on.\<close>

fun un_split :: "int \<Rightarrow> nat \<Rightarrow> undo list \<Rightarrow> undo list \<times> undo list" where
  "un_split i n [] = ([], [])"
| "un_split i n (e # es) =
    (if un_id e < i \<or> un_id e = i \<and> un_num e < n then
       (let (pre, post) = un_split i n es in (e # pre, post))
     else ([], e # es))"

definition semaoe :: "semst \<Rightarrow> nat \<Rightarrow> int \<Rightarrow> int \<Rightarrow> nat \<Rightarrow> errno option \<times> semst" where
  "semaoe s slot v i n =
    (if v = 0 then (None, s)
     else if v > sim_semaem (seminfo s) \<or> v < - sim_semaem (seminfo s) then (Some ERANGE, s)
     else
       (let got = (case sem_undo s slot of
            Some up \<Rightarrow> Some (up, s)
          | None \<Rightarrow> (case semfup s of
                [] \<Rightarrow> None
              | up # fup \<Rightarrow> Some (up, s\<lparr>semfup := fup, sem_undo := (sem_undo s)(slot \<mapsto> up)\<rparr>))) in
        case got of None \<Rightarrow> (Some ENOSPC, s)
        | Some (up, s) \<Rightarrow>
          let ents = semu_ent s up; (pre, post) = un_split i n ents in
          case post of
            e # rest \<Rightarrow>
              if un_id e = i \<and> un_num e = n then
                let a = s16 (un_aoe e - v) in
                if a > sim_semaem (seminfo s) \<or> a < - sim_semaem (seminfo s) then
                  (Some ERANGE, s\<lparr>semu_ent := (semu_ent s)(up := pre @ e\<lparr>un_aoe := s16 (a + v)\<rparr> # rest)\<rparr>)
                else if a = 0 then
                  (None, s\<lparr>semu_ent := (semu_ent s)(up := pre @ rest),
                           semunp := (if pre @ rest = [] then remove1 up (semunp s) else semunp s)\<rparr>)
                else (None, s\<lparr>semu_ent := (semu_ent s)(up := pre @ e\<lparr>un_aoe := a\<rparr> # rest)\<rparr>)
              else if length ents \<ge> sim_semume (seminfo s) then (Some EINVAL, s)
              else (None, s\<lparr>semu_ent := (semu_ent s)(up := pre @ \<lparr>un_aoe = s16 (- v), un_num = n, un_id = i\<rparr> # post),
                            semunp := (if ents = [] then up # semunp s else semunp s)\<rparr>)
          | [] \<Rightarrow>
              if length ents \<ge> sim_semume (seminfo s) then (Some EINVAL, s)
              else (None, s\<lparr>semu_ent := (semu_ent s)(up := pre @ [\<lparr>un_aoe = s16 (- v), un_num = n, un_id = i\<rparr>]),
                            semunp := (if ents = [] then up # semunp s else semunp s)\<rparr>)))"

text \<open>
  \<^verbatim>\<open>semunrm\<close>: the loop over the entries of one structure, which stops at the first entry beyond the
  range, and the loop over the chain, which unlinks the structures it empties.
\<close>

fun un_remove :: "int \<Rightarrow> nat \<Rightarrow> nat \<Rightarrow> undo list \<Rightarrow> undo list" where
  "un_remove i low high [] = []"
| "un_remove i low high (e # es) =
    (if i < un_id e then e # es
     else if i > un_id e \<or> low > un_num e then e # un_remove i low high es
     else if high < un_num e then e # es
     else un_remove i low high es)"

fun semunrm_chain :: "int \<Rightarrow> nat \<Rightarrow> nat \<Rightarrow> (nat \<Rightarrow> undo list) \<Rightarrow> nat list \<Rightarrow> (nat \<Rightarrow> undo list) \<times> nat list" where
  "semunrm_chain i low high ent [] = (ent, [])"
| "semunrm_chain i low high ent (p # ps) =
    (let ent = ent(p := un_remove i low high (ent p)); (ent', ps') = semunrm_chain i low high ent ps
     in (ent', if ent p = [] then ps' else p # ps'))"

definition semunrm :: "semst \<Rightarrow> int \<Rightarrow> nat \<Rightarrow> nat \<Rightarrow> semst" where
  "semunrm s i low high =
    (let (ent, ps) = semunrm_chain i low high (semu_ent s) (semunp s) in s\<lparr>semu_ent := ent, semunp := ps\<rparr>)"

section \<open>Operations\<close>

definition set_sem :: "semst \<Rightarrow> nat \<Rightarrow> (sem \<Rightarrow> sem) \<Rightarrow> semst option" where
  "set_sem s k f = do { p \<leftarrow> rd (sems s) k; Some (s\<lparr>sems := (sems s)[k := f p]\<rparr>) }"

definition wake_n :: "nat \<Rightarrow> semst \<Rightarrow> semst option" where
  "wake_n k s = do {
     p \<leftarrow> rd (sems s) k;
     if semncnt p \<noteq> 0 then Some (s\<lparr>sems := (sems s)[k := p\<lparr>semncnt := 0\<rparr>], sem_waked := NCnt k # sem_waked s\<rparr>) else Some s }"

definition wake_z :: "nat \<Rightarrow> semst \<Rightarrow> semst option" where
  "wake_z k s = do {
     p \<leftarrow> rd (sems s) k;
     if semzcnt p \<noteq> 0 then Some (s\<lparr>sems := (sems s)[k := p\<lparr>semzcnt := 0\<rparr>], sem_waked := ZCnt k # sem_waked s\<rparr>) else Some s }"

text \<open>\<^verbatim>\<open>semundo\<close>, given the operations done, last one first.\<close>

fun semundo :: "semst \<Rightarrow> nat \<Rightarrow> int \<Rightarrow> nat \<Rightarrow> sembuf list \<Rightarrow> semst option" where
  "semundo s slot i base [] = Some s"
| "semundo s slot i base (op # ops) =
    (if sem_op op = 0 then semundo s slot i base ops
     else do {
       s \<leftarrow> set_sem s (base + sem_num op) (\<lambda>p. p\<lparr>semval := u16 (semval p - sem_op op)\<rparr>);
       let s = (if sem_flg op AND SEM_UNDO \<noteq> 0 then snd (semaoe s slot (s16 (- sem_op op)) i (sem_num op)) else s);
       semundo s slot i base ops })"

definition semconv :: "semst \<Rightarrow> int \<Rightarrow> nat option" where
  "semconv s i =
    (if i < 0 then None
     else let k = nat i mod sim_semmni (seminfo s) in
       if mode (sem_perm (sema s ! k)) AND IPC_ALLOC = 0
          \<or> nat i div sim_semmni (seminfo s) \<noteq> seq (sem_perm (sema s ! k))
       then None else Some k)"

text \<open>How one pass over the operations ends.\<close>

datatype semres = SDone | SErr errno | SWait semchan

text \<open>
  The loop of \<^verbatim>\<open>semop\<close>; \<open>did\<close> are the operations done, last one first. The word to sleep on has been
  counted when the result is \<^const>\<open>SWait\<close>.
\<close>

fun semop_loop :: "semst \<Rightarrow> nat \<Rightarrow> int \<Rightarrow> nat \<Rightarrow> sembuf list \<Rightarrow> sembuf list \<Rightarrow> (semres \<times> semst) option" where
  "semop_loop s slot i base did [] = Some (SDone, s)"
| "semop_loop s slot i base did (op # ops) =
    (let k = base + sem_num op in
     do {
       p \<leftarrow> rd (sems s) k;
       if sem_op op > 0 then
         if sem_op op + semval p > sim_semvmx (seminfo s) then do {
           s \<leftarrow> semundo s slot i base did; Some (SErr ERANGE, s) }
         else do {
           let (err, s) = (if sem_flg op AND SEM_UNDO \<noteq> 0 then semaoe s slot (sem_op op) i (sem_num op) else (None, s));
           case err of Some e \<Rightarrow> do { s \<leftarrow> semundo s slot i base did; Some (SErr e, s) }
           | None \<Rightarrow> do {
               s \<leftarrow> set_sem s k (\<lambda>p. p\<lparr>semval := u16 (semval p + sem_op op)\<rparr>);
               s \<leftarrow> wake_n k s;
               p \<leftarrow> rd (sems s) k;
               s \<leftarrow> if semval p = 0 then wake_z k s else Some s;
               semop_loop s slot i base (op # did) ops } }
       else if sem_op op < 0 then
         if semval p \<ge> - sem_op op then do {
           let (err, s) = (if sem_flg op AND SEM_UNDO \<noteq> 0 then semaoe s slot (sem_op op) i (sem_num op) else (None, s));
           case err of Some e \<Rightarrow> do { s \<leftarrow> semundo s slot i base did; Some (SErr e, s) }
           | None \<Rightarrow> do {
               s \<leftarrow> set_sem s k (\<lambda>p. p\<lparr>semval := u16 (semval p + sem_op op)\<rparr>);
               p \<leftarrow> rd (sems s) k;
               s \<leftarrow> if semval p = 0 then wake_z k s else Some s;
               semop_loop s slot i base (op # did) ops } }
         else do {
           s \<leftarrow> semundo s slot i base did;
           if sem_flg op AND IPC_NOWAIT \<noteq> 0 then Some (SErr EAGAIN, s)
           else do {
             s \<leftarrow> set_sem s k (\<lambda>p. p\<lparr>semncnt := u16 (semncnt p + 1)\<rparr>);
             Some (SWait (NCnt k), s) } }
       else if semval p \<noteq> 0 then do {
         s \<leftarrow> semundo s slot i base did;
         if sem_flg op AND IPC_NOWAIT \<noteq> 0 then Some (SErr EAGAIN, s)
         else do {
           s \<leftarrow> set_sem s k (\<lambda>p. p\<lparr>semzcnt := u16 (semzcnt p + 1)\<rparr>);
           Some (SWait (ZCnt k), s) } }
       else semop_loop s slot i base (op # did) ops })"

text \<open>The final update of \<^verbatim>\<open>sempid\<close>.\<close>

fun semop_pids :: "semst \<Rightarrow> int \<Rightarrow> nat \<Rightarrow> sembuf list \<Rightarrow> semst option" where
  "semop_pids s pid base [] = Some s"
| "semop_pids s pid base (op # ops) = do {
     s \<leftarrow> set_sem s (base + sem_num op) (\<lambda>p. p\<lparr>sempid := pid\<rparr>);
     semop_pids s pid base ops }"

text \<open>One pass from the label \<^verbatim>\<open>check\<close>.\<close>

definition semop_pass :: "semst \<Rightarrow> ucall \<Rightarrow> int \<Rightarrow> nat \<Rightarrow> sembuf list \<Rightarrow> (semres \<times> semst) option" where
  "semop_pass s u i k ops = do {
     let base = sem_base (sema s ! k);
     (r, s) \<leftarrow> semop_loop s (u_slot u) i base [] ops;
     case r of
       SDone \<Rightarrow> do {
         s \<leftarrow> semop_pids s (u_pid u) base ops;
         Some (SDone, s\<lparr>sema := (sema s)[k := (sema s ! k)\<lparr>sem_otime := sem_now s\<rparr>]\<rparr>) }
     | _ \<Rightarrow> Some (r, s) }"

fun semop_verify :: "semid_ds \<Rightarrow> cred \<Rightarrow> sembuf list \<Rightarrow> errno option option" where
  "semop_verify sp cr [] = Some None"
| "semop_verify sp cr (op # ops) = do {
     e \<leftarrow> ipcaccess (sem_perm sp) (if sem_op op \<noteq> 0 then SEM_A else SEM_R) cr;
     case e of Some x \<Rightarrow> Some (Some x)
     | None \<Rightarrow> if sem_num op \<ge> sem_nsems sp then Some (Some EFBIG) else semop_verify sp cr ops }"

definition semop :: "semst \<Rightarrow> ucall \<Rightarrow> int \<Rightarrow> nat \<Rightarrow> sembuf list option \<Rightarrow> (semres \<times> semst) option" where
  "semop s u i nsops uops = do {
     let s = s\<lparr>sem_sysinfo := sem_sysinfo s + 1\<rparr>;
     case semconv s i of None \<Rightarrow> Some (SErr EINVAL, s)
     | Some k \<Rightarrow>
         if nsops > sim_semopm (seminfo s) then Some (SErr E2BIG, s)
         else (case uops of None \<Rightarrow> Some (SErr EFAULT, s)
           | Some ops \<Rightarrow> do {
               e \<leftarrow> semop_verify (sema s ! k) (u_cred u) ops;
               case e of Some x \<Rightarrow> Some (SErr x, s) | None \<Rightarrow> semop_pass s u i k ops }) }"

text \<open>
  After the sleep: woken up, with the entry \<open>k\<close> found before the sleep and the operations copied in
  again, or interrupted by a signal.
\<close>

definition semop_again :: "semst \<Rightarrow> ucall \<Rightarrow> int \<Rightarrow> nat \<Rightarrow> sembuf list option \<Rightarrow> (semres \<times> semst) option" where
  "semop_again s u i k uops =
    (case semconv s i of None \<Rightarrow> Some (SErr EIDRM, s)
     | Some _ \<Rightarrow> (case uops of None \<Rightarrow> Some (SErr EFAULT, s) | Some ops \<Rightarrow> semop_pass s u i k ops))"

definition semop_intr :: "semst \<Rightarrow> semchan \<Rightarrow> (semres \<times> semst) option" where
  "semop_intr s ch =
    (case ch of
       NCnt k \<Rightarrow> do {
         p \<leftarrow> rd (sems s) k;
         s' \<leftarrow> set_sem s k (\<lambda>p. p\<lparr>semncnt := u16 (semncnt p - 1)\<rparr>);
         if semncnt p \<le> 1 then do {
           s' \<leftarrow> set_sem s' k (\<lambda>p. p\<lparr>semncnt := 0\<rparr>);
           Some (SErr EINTR, s'\<lparr>sem_waked := NCnt k # sem_waked s'\<rparr>) }
         else Some (SErr EINTR, s') }
     | ZCnt k \<Rightarrow> do {
         p \<leftarrow> rd (sems s) k;
         s' \<leftarrow> set_sem s k (\<lambda>p. p\<lparr>semzcnt := u16 (semzcnt p - 1)\<rparr>);
         if semzcnt p \<le> 1 then do {
           s' \<leftarrow> set_sem s' k (\<lambda>p. p\<lparr>semzcnt := 0\<rparr>);
           Some (SErr EINTR, s'\<lparr>sem_waked := ZCnt k # sem_waked s'\<rparr>) }
         else Some (SErr EINTR, s') })"

section \<open>semctl\<close>

text \<open>
  The commands, with what \<^verbatim>\<open>copyin\<close> reads for them: owner, group and mode for the two forms of
  \<^verbatim>\<open>IPC_SET\<close>, the value for \<^verbatim>\<open>SETVAL\<close>, the values for \<^verbatim>\<open>SETALL\<close>. \<open>out\<close> says which of the command's
  calls of \<^verbatim>\<open>copyout\<close> succeed.
\<close>

datatype semcmd = C_RMID | C_O_SET "(int \<times> int \<times> u32) option" | C_SET "(int \<times> int \<times> u32) option"
  | C_O_STAT | C_STAT | C_GETNCNT | C_GETPID | C_GETVAL | C_GETALL | C_GETZCNT
  | C_SETVAL int | C_SETALL "int list option" | C_OTHER

datatype semout = OVal int | ODs semid_ds | OVals "int list"

definition sem_owner :: "ipc_perm \<Rightarrow> cred \<Rightarrow> bool" where
  "sem_owner p cr \<longleftrightarrow> cr_uid cr = uid p \<or> cr_uid cr = cuid p \<or> suser cr"

fun sem_clear :: "semst \<Rightarrow> nat \<Rightarrow> nat \<Rightarrow> semst option" where
  "sem_clear s k 0 = Some s"
| "sem_clear s k (Suc n) = do {
     s \<leftarrow> set_sem s k (\<lambda>p. p\<lparr>semval := 0, sempid := 0\<rparr>);
     s \<leftarrow> wake_n k s;
     s \<leftarrow> wake_z k s;
     sem_clear s (Suc k) n }"

definition set_ds :: "semst \<Rightarrow> nat \<Rightarrow> (semid_ds \<Rightarrow> semid_ds) \<Rightarrow> semst" where
  "set_ds s k f = s\<lparr>sema := (sema s)[k := f (sema s ! k)]\<rparr>"

definition set_perm :: "(ipc_perm \<Rightarrow> ipc_perm) \<Rightarrow> semid_ds \<Rightarrow> semid_ds" where
  "set_perm f ds = ds\<lparr>sem_perm := f (sem_perm ds)\<rparr>"

definition semctl_rmid :: "semst \<Rightarrow> ucall \<Rightarrow> int \<Rightarrow> nat \<Rightarrow> (errno + (semout \<times> semst)) option" where
  "semctl_rmid s u i k =
    (let sp = sema s ! k in
     if \<not> sem_owner (sem_perm sp) (u_cred u) then Some (Inl EPERM)
     else do {
       let s = semunrm s i 0 (sem_nsems sp);
       s \<leftarrow> sem_clear s (sem_base sp) (sem_nsems sp);
       (_, m) \<leftarrow> rmfree (semmap s) (sem_nsems sp) (sem_base sp + 1);
       let s = s\<lparr>semmap := m\<rparr>;
       let s = set_ds s k (set_perm (\<lambda>p. p\<lparr>seq := (if i + int (sim_semmni (seminfo s)) > INT16_MAX then 0 else seq p + 1), mode := 0\<rparr>));
       Some (Inr (OVal 0, s)) })"

definition semctl_set :: "semst \<Rightarrow> ucall \<Rightarrow> nat \<Rightarrow> bool \<Rightarrow> (int \<times> int \<times> u32) option \<Rightarrow> (errno + (semout \<times> semst)) option" where
  "semctl_set s u k expanded arg =
    (let sp = sema s ! k in
     if \<not> sem_owner (sem_perm sp) (u_cred u) then Some (Inl EPERM)
     else (case arg of None \<Rightarrow> Some (Inl EFAULT)
       | Some (ui, gi, md) \<Rightarrow>
           if ui > MAXUID \<or> gi > MAXUID \<or> expanded \<and> (ui < 0 \<or> gi < 0) then Some (Inl EINVAL)
           else Some (Inr (OVal 0, set_ds s k (\<lambda>ds. (set_perm (\<lambda>p. p\<lparr>uid := ui, gid := gi, mode := md AND 0x1ff OR IPC_ALLOC\<rparr>) ds)
               \<lparr>sem_ctime := sem_now s\<rparr>)))))"

definition semctl_ostat :: "semst \<Rightarrow> ucall \<Rightarrow> nat \<Rightarrow> (nat \<Rightarrow> bool) \<Rightarrow> (errno + (semout \<times> semst)) option" where
  "semctl_ostat s u k out = do {
     let sp = sema s ! k;
     e \<leftarrow> ipcaccess (sem_perm sp) SEM_R (u_cred u);
     Some (case e of Some x \<Rightarrow> Inl x
       | None \<Rightarrow>
           if uid (sem_perm sp) > 65535 \<or> gid (sem_perm sp) > 65535 \<or> cuid (sem_perm sp) > 65535
              \<or> cgid (sem_perm sp) > 65535 \<or> seq (sem_perm sp) > 65535 then Inl EOVERFLOW
           else if out 0 then Inr (ODs (sp\<lparr>sem_base := 0\<rparr>), s) else Inl EFAULT) }"

definition semctl_stat :: "semst \<Rightarrow> ucall \<Rightarrow> nat \<Rightarrow> (nat \<Rightarrow> bool) \<Rightarrow> (errno + (semout \<times> semst)) option" where
  "semctl_stat s u k out = do {
     e \<leftarrow> ipcaccess (sem_perm (sema s ! k)) SEM_R (u_cred u);
     Some (case e of Some x \<Rightarrow> Inl x
       | None \<Rightarrow> if out 0 then Inr (ODs (sema s ! k), s) else Inl EFAULT) }"

text \<open>The four commands that read one member of one semaphore.\<close>

definition semctl_get :: "semst \<Rightarrow> ucall \<Rightarrow> nat \<Rightarrow> nat \<Rightarrow> (sem \<Rightarrow> int) \<Rightarrow> (errno + (semout \<times> semst)) option" where
  "semctl_get s u k semnum f = do {
     e \<leftarrow> ipcaccess (sem_perm (sema s ! k)) SEM_R (u_cred u);
     case e of Some x \<Rightarrow> Some (Inl x)
     | None \<Rightarrow>
         if semnum \<ge> sem_nsems (sema s ! k) then Some (Inl EINVAL)
         else do { p \<leftarrow> rd (sems s) (sem_base (sema s ! k) + semnum); Some (Inr (OVal (f p), s)) } }"

definition semctl_getall :: "semst \<Rightarrow> ucall \<Rightarrow> nat \<Rightarrow> (nat \<Rightarrow> bool) \<Rightarrow> (errno + (semout \<times> semst)) option" where
  "semctl_getall s u k out = do {
     let sp = sema s ! k;
     e \<leftarrow> ipcaccess (sem_perm sp) SEM_R (u_cred u);
     case e of Some x \<Rightarrow> Some (Inl x)
     | None \<Rightarrow>
         if sem_base sp + sem_nsems sp > length (sems s) then None
         else if list_all out [0..<sem_nsems sp]
         then Some (Inr (OVals (map semval (take (sem_nsems sp) (drop (sem_base sp) (sems s)))), s))
         else Some (Inl EFAULT) }"

text \<open>Storing a value in a semaphore and waking those who wait for it.\<close>

definition sem_store :: "semst \<Rightarrow> nat \<Rightarrow> int \<Rightarrow> int \<Rightarrow> semst option" where
  "sem_store s k v pid = do {
     s \<leftarrow> set_sem s k (\<lambda>p. p\<lparr>semval := u16 v\<rparr>);
     s \<leftarrow> if u16 v \<noteq> 0 then wake_n k s else wake_z k s;
     set_sem s k (\<lambda>p. p\<lparr>sempid := pid\<rparr>) }"

definition semctl_setval :: "semst \<Rightarrow> ucall \<Rightarrow> int \<Rightarrow> nat \<Rightarrow> nat \<Rightarrow> int \<Rightarrow> (errno + (semout \<times> semst)) option" where
  "semctl_setval s u i k semnum arg = do {
     let sp = sema s ! k;
     e \<leftarrow> ipcaccess (sem_perm sp) SEM_A (u_cred u);
     case e of Some x \<Rightarrow> Some (Inl x)
     | None \<Rightarrow>
         if semnum \<ge> sem_nsems sp then Some (Inl EINVAL)
         else if arg mod 4294967296 > sim_semvmx (seminfo s) then Some (Inl ERANGE)
         else do {
           s \<leftarrow> sem_store s (sem_base sp + semnum) arg (u_pid u);
           Some (Inr (OVal 0, semunrm s i semnum semnum)) } }"

fun sem_storeall :: "semst \<Rightarrow> nat \<Rightarrow> int list \<Rightarrow> int \<Rightarrow> semst option" where
  "sem_storeall s k [] pid = Some s"
| "sem_storeall s k (v # vs) pid = do { s \<leftarrow> sem_store s k v pid; sem_storeall s (Suc k) vs pid }"

definition semctl_setall :: "semst \<Rightarrow> ucall \<Rightarrow> int \<Rightarrow> nat \<Rightarrow> int list option \<Rightarrow> (errno + (semout \<times> semst)) option" where
  "semctl_setall s u i k arg = do {
     let sp = sema s ! k;
     e \<leftarrow> ipcaccess (sem_perm sp) SEM_A (u_cred u);
     case e of Some x \<Rightarrow> Some (Inl x)
     | None \<Rightarrow> (case arg of None \<Rightarrow> Some (Inl EFAULT)
         | Some vals \<Rightarrow>
             if list_ex (\<lambda>v. v > sim_semvmx (seminfo s)) vals then Some (Inl ERANGE)
             else do {
               let s = semunrm s i 0 (sem_nsems sp);
               s \<leftarrow> sem_storeall s (sem_base sp) vals (u_pid u);
               Some (Inr (OVal 0, s)) }) }"

definition semctl :: "semst \<Rightarrow> ucall \<Rightarrow> int \<Rightarrow> nat \<Rightarrow> semcmd \<Rightarrow> (nat \<Rightarrow> bool) \<Rightarrow> (errno + (semout \<times> semst)) option" where
  "semctl s u i semnum cmd out =
    (case semconv s i of None \<Rightarrow> Some (Inl EINVAL)
     | Some k \<Rightarrow>
       (case cmd of
          C_RMID \<Rightarrow> semctl_rmid s u i k
        | C_O_SET arg \<Rightarrow> semctl_set s u k False arg
        | C_SET arg \<Rightarrow> semctl_set s u k True arg
        | C_O_STAT \<Rightarrow> semctl_ostat s u k out
        | C_STAT \<Rightarrow> semctl_stat s u k out
        | C_GETNCNT \<Rightarrow> semctl_get s u k semnum semncnt
        | C_GETPID \<Rightarrow> semctl_get s u k semnum sempid
        | C_GETVAL \<Rightarrow> semctl_get s u k semnum semval
        | C_GETALL \<Rightarrow> semctl_getall s u k out
        | C_GETZCNT \<Rightarrow> semctl_get s u k semnum semzcnt
        | C_SETVAL arg \<Rightarrow> semctl_setval s u i k semnum arg
        | C_SETALL arg \<Rightarrow> semctl_setall s u i k arg
        | C_OTHER \<Rightarrow> Some (Inl EINVAL)))"

section \<open>Process exit, creation and initialization\<close>

text \<open>The loop of \<^verbatim>\<open>semexit\<close>, given the entries last one first.\<close>

fun semexit_ents :: "semst \<Rightarrow> undo list \<Rightarrow> semst option" where
  "semexit_ents s [] = Some s"
| "semexit_ents s (e # es) =
    (case semconv s (un_id e) of None \<Rightarrow> semexit_ents s es
     | Some k \<Rightarrow> do {
         let j = sem_base (sema s ! k) + un_num e;
         p \<leftarrow> rd (sems s) j;
         let v = semval p + un_aoe e;
         if v < 0 \<or> v > sim_semvmx (seminfo s) then semexit_ents s es
         else do {
           s \<leftarrow> set_sem s j (\<lambda>p. p\<lparr>semval := u16 v\<rparr>);
           s \<leftarrow> if v = 0 then wake_z j s else Some s;
           s \<leftarrow> if un_aoe e > 0 then wake_n j s else Some s;
           semexit_ents s es } })"

definition semexit :: "semst \<Rightarrow> nat \<Rightarrow> semst option" where
  "semexit s slot =
    (case sem_undo s slot of None \<Rightarrow> Some s
     | Some up \<Rightarrow> do {
         s \<leftarrow> (if semu_ent s up = [] then Some s
              else do {
                s \<leftarrow> semexit_ents s (rev (semu_ent s up));
                Some (s\<lparr>semu_ent := (semu_ent s)(up := []), semunp := remove1 up (semunp s)\<rparr>) });
         Some (s\<lparr>semfup := up # semfup s, sem_undo := (sem_undo s)(slot := None)\<rparr>) })"

definition put_perms :: "semid_ds list \<Rightarrow> ipc_perm list \<Rightarrow> semid_ds list" where
  "put_perms ds ps = map2 (\<lambda>d p. d\<lparr>sem_perm := p\<rparr>) ds ps"

definition semget :: "semst \<Rightarrow> ucall \<Rightarrow> int \<Rightarrow> int \<Rightarrow> u32 \<Rightarrow> ((errno + int) \<times> semst) option" where
  "semget s u ky nsems semflg =
    (case ipcget ky semflg (u_cred u) (map sem_perm (sema s)) of
       Inl e \<Rightarrow> Some (Inl e, s)
     | Inr (created, k, perms) \<Rightarrow>
         let s = s\<lparr>sema := put_perms (sema s) perms\<rparr>;
             fail = (\<lambda>e. Some (Inl e, set_ds s k (set_perm (\<lambda>p. p\<lparr>mode := 0\<rparr>))));
             ident = int (seq (sem_perm (sema s ! k)) * sim_semmni (seminfo s) + k) in
         if created then
           if nsems \<le> 0 \<or> nsems > sim_semmsl (seminfo s) then fail EINVAL
           else do {
             (a, m) \<leftarrow> rmalloc (semmap s) (nat nsems);
             if a = 0 then fail ENOSPC
             else Some (Inr ident, set_ds (s\<lparr>semmap := m\<rparr>) k (\<lambda>ds. ds\<lparr>sem_base := a - 1,
                    sem_nsems := nat (u16 nsems), sem_ctime := sem_now s, sem_otime := 0\<rparr>)) }
         else if nsems \<noteq> 0 \<and> (nsems < 0 \<or> int (sem_nsems (sema s ! k)) < nsems) then Some (Inl EINVAL, s)
         else Some (Inr ident, s))"

definition seminit :: "semst \<Rightarrow> semst option" where
  "seminit s = do {
     (_, m) \<leftarrow> rmfree (mapinit (sim_semmap (seminfo s))) (sim_semmns (seminfo s)) 1;
     Some (s\<lparr>semmap := m, semfup := [0..<sim_semmnu (seminfo s)]\<rparr>) }"

text \<open>The system call entry point.\<close>

datatype semcall = SemCtl int nat semcmd "nat \<Rightarrow> bool" | SemGet int int u32 | SemOp int nat "sembuf list option" | SemBad

datatype semsysres = RErr errno | ROut semout | RWait semchan

definition semsys :: "semst \<Rightarrow> ucall \<Rightarrow> semcall \<Rightarrow> (semsysres \<times> semst) option" where
  "semsys s u c =
    (case c of
       SemCtl i n cmd out \<Rightarrow> do {
         r \<leftarrow> semctl s u i n cmd out;
         Some (case r of Inl e \<Rightarrow> (RErr e, s) | Inr (v, s') \<Rightarrow> (ROut v, s')) }
     | SemGet ky n flg \<Rightarrow> do {
         (r, s) \<leftarrow> semget s u ky n flg;
         Some (case r of Inl e \<Rightarrow> RErr e | Inr v \<Rightarrow> ROut (OVal v), s) }
     | SemOp i n ops \<Rightarrow> do {
         (r, s) \<leftarrow> semop s u i n ops;
         Some (case r of SDone \<Rightarrow> ROut (OVal 0) | SErr e \<Rightarrow> RErr e | SWait ch \<Rightarrow> RWait ch, s) }
     | SemBad \<Rightarrow> Some (RErr EINVAL, s))"


section \<open>Entries as a table of adjustments\<close>

text \<open>
  The entries of one structure are a table from semaphores, given by identifier and number, to
  nonzero adjustments. \<open>aoe\<close> reads the table, \<open>put\<close> stores in it; a list that is sorted, as the
  search of \<^verbatim>\<open>semaoe\<close> needs it, is determined by the table it represents.
\<close>

definition uk :: "undo \<Rightarrow> int \<times> nat" where
  "uk e = (un_id e, un_num e)"

definition mk :: "int \<times> nat \<Rightarrow> int \<Rightarrow> undo" where
  "mk x a = \<lparr>un_aoe = a, un_num = snd x, un_id = fst x\<rparr>"

definition aoe :: "undo list \<Rightarrow> int \<times> nat \<Rightarrow> int" where
  "aoe es x = (case map_of (map (\<lambda>e. (uk e, un_aoe e)) es) x of None \<Rightarrow> 0 | Some a \<Rightarrow> a)"

definition put :: "undo list \<Rightarrow> int \<times> nat \<Rightarrow> int \<Rightarrow> undo list" where
  "put es x a = takeWhile (\<lambda>e. uk e < x) es @ (if a = 0 then [] else [mk x a]) @ dropWhile (\<lambda>e. uk e \<le> x) es"

definition tab_ok :: "undo list \<Rightarrow> bool" where
  "tab_ok es \<longleftrightarrow> sorted_wrt (<) (map uk es) \<and> (\<forall>e\<in>set es. un_aoe e \<noteq> 0)"

lemma mk_simps [simp]: "uk (mk x a) = x" "un_aoe (mk x a) = a"
  by (simp_all add: uk_def mk_def)

lemma mk_uk [simp]: "mk (uk e) (un_aoe e) = e" "e\<lparr>un_aoe := a\<rparr> = mk (uk e) a"
  by (simp_all add: uk_def mk_def)

lemma aoe_Nil [simp]: "aoe [] x = 0"
  by (simp add: aoe_def)

lemma aoe_Cons [simp]: "aoe (e # es) x = (if uk e = x then un_aoe e else aoe es x)"
  by (simp add: aoe_def)

lemma aoe_notin: "x \<notin> uk ` set es \<Longrightarrow> aoe es x = 0"
  by (induction es) auto

lemma aoe_append: "aoe (es @ fs) x = (if x \<in> uk ` set es then aoe es x else aoe fs x)"
  by (induction es) auto

lemma tab_ok_Nil [simp]: "tab_ok []"
  by (simp add: tab_ok_def)

lemma tab_ok_Cons: "tab_ok (e # es) \<longleftrightarrow> tab_ok es \<and> (\<forall>f\<in>set es. uk e < uk f) \<and> un_aoe e \<noteq> 0"
  by (auto simp: tab_ok_def)

lemma tab_ok_append:
  "tab_ok (es @ fs) \<longleftrightarrow> tab_ok es \<and> tab_ok fs \<and> (\<forall>e\<in>set es. \<forall>f\<in>set fs. uk e < uk f)"
  by (induction es) (auto simp: tab_ok_Cons)

lemma aoe_in: "tab_ok es \<Longrightarrow> e \<in> set es \<Longrightarrow> aoe es (uk e) = un_aoe e"
  by (induction es) (auto simp: tab_ok_Cons)

lemma tab_keys: "tab_ok es \<Longrightarrow> uk ` set es = {x. aoe es x \<noteq> 0}"
proof (intro equalityI subsetI)
  fix x assume "tab_ok es" "x \<in> uk ` set es"
  then show "x \<in> {x. aoe es x \<noteq> 0}" by (auto simp: aoe_in tab_ok_def)
next
  fix x assume "x \<in> {x. aoe es x \<noteq> 0}"
  then show "x \<in> uk ` set es" using aoe_notin by blast
qed

lemma tab_eqI:
  assumes "tab_ok es" "tab_ok fs" "aoe es = aoe fs"
  shows "es = fs"
proof -
  have "set (map uk es) = set (map uk fs)" using tab_keys [OF assms(1)] tab_keys [OF assms(2)] assms(3) by simp
  then have keys: "map uk es = map uk fs"
    using assms(1,2) by (simp add: tab_ok_def strict_sorted_equal)
  then have len: "length es = length fs" by (metis length_map)
  show ?thesis
  proof (rule nth_equalityI [OF len])
    fix i assume i: "i < length es"
    then have k: "uk (es ! i) = uk (fs ! i)" using arg_cong [OF keys, of "\<lambda>l. l ! i"] len by simp
    have "un_aoe (es ! i) = un_aoe (fs ! i)"
      using aoe_in [OF assms(1), of "es ! i"] aoe_in [OF assms(2), of "fs ! i"] i len k assms(3) by simp
    with k show "es ! i = fs ! i" by (metis mk_uk(1))
  qed
qed

text \<open>Where \<open>x\<close> has or would have its place in a sorted list.\<close>

lemma tab_place:
  assumes "tab_ok es"
  obtains pre post where "es = pre @ (if aoe es x = 0 then [] else [mk x (aoe es x)]) @ post"
    "\<forall>e\<in>set pre. uk e < x" "\<forall>e\<in>set post. x < uk e" "tab_ok pre" "tab_ok post"
  using assms
proof (induction es arbitrary: thesis)
  case Nil
  show ?case by (rule Nil.prems(1) [of "[]" "[]"]) simp_all
next
  case (Cons e es)
  then have ok: "tab_ok es" "\<forall>f\<in>set es. uk e < uk f" "un_aoe e \<noteq> 0" by (simp_all add: tab_ok_Cons)
  consider "uk e = x" | "x < uk e" | "uk e < x" by (metis linorder_less_linear)
  then show ?case
  proof cases
    case 1
    with ok show ?thesis by (intro Cons.prems(1) [of "[]" es]) auto
  next
    case 2
    with ok have all: "\<forall>f\<in>set (e # es). x < uk f" by auto
    then have "aoe (e # es) x = 0" by (intro aoe_notin) auto
    with all Cons.prems(2) show ?thesis by (intro Cons.prems(1) [of "[]" "e # es"]) auto
  next
    case 3
    obtain pre post where es: "es = pre @ (if aoe es x = 0 then [] else [mk x (aoe es x)]) @ post"
      "\<forall>e\<in>set pre. uk e < x" "\<forall>e\<in>set post. x < uk e" "tab_ok pre" "tab_ok post"
      using Cons.IH [OF _ ok(1)] by blast
    have "set pre \<subseteq> set es" by (subst es(1)) simp
    with 3 ok es show ?thesis
      by (intro Cons.prems(1) [of "e # pre" post]) (auto simp: tab_ok_Cons)
  qed
qed

lemma takeWhile_place: "\<forall>e\<in>set pre. uk e < x \<Longrightarrow> \<forall>e\<in>set post. \<not> uk e < x \<Longrightarrow> takeWhile (\<lambda>e. uk e < x) (pre @ post) = pre"
  by (rule takeWhile_split)

lemma dropWhile_place: "\<forall>e\<in>set pre. P e \<Longrightarrow> \<forall>e\<in>set post. \<not> P e \<Longrightarrow> dropWhile P (pre @ post) = post"
  by (induction pre) (auto simp: dropWhile_eq_self_iff hd_in_set)

lemma put_place:
  assumes "\<forall>e\<in>set pre. uk e < x" "\<forall>e\<in>set post. x < uk e"
  shows "put (pre @ (if b = 0 then [] else [mk x b]) @ post) x a = pre @ (if a = 0 then [] else [mk x a]) @ post"
proof -
  let ?mid = "if b = 0 then [] else [mk x b]"
  have "takeWhile (\<lambda>e. uk e < x) (pre @ ?mid @ post) = pre"
    using assms by (intro takeWhile_place) (auto dest: less_asym)
  moreover have "dropWhile (\<lambda>e. uk e \<le> x) ((pre @ ?mid) @ post) = post"
    using assms by (intro dropWhile_place) (auto simp: leD)
  ultimately show ?thesis by (simp add: put_def)
qed

lemma put_ok:
  assumes "tab_ok es"
  shows "tab_ok (put es x a)" "aoe (put es x a) = (aoe es)(x := a)"
    "length (put es x a) + (if aoe es x = 0 then 0 else 1) = length es + (if a = 0 then 0 else 1)"
proof -
  from tab_place [OF assms, of x] obtain pre post where
    es: "es = pre @ (if aoe es x = 0 then [] else [mk x (aoe es x)]) @ post"
    and side: "\<forall>e\<in>set pre. uk e < x" "\<forall>e\<in>set post. x < uk e" and ok: "tab_ok pre" "tab_ok post" by blast
  have put: "put es x a = pre @ (if a = 0 then [] else [mk x a]) @ post"
    using put_place [OF side, of "aoe es x" a] es by simp
  show "tab_ok (put es x a)"
    unfolding put using side ok by (auto simp: tab_ok_append tab_ok_Cons intro: less_trans)
  show "length (put es x a) + (if aoe es x = 0 then 0 else 1) = length es + (if a = 0 then 0 else 1)"
    unfolding put using arg_cong [OF es, of length] by simp
  have out: "x \<notin> uk ` set pre" "x \<notin> uk ` set post" using side by auto
  show "aoe (put es x a) = (aoe es)(x := a)"
  proof
    fix y
    have "aoe es y = aoe (pre @ (if aoe es x = 0 then [] else [mk x (aoe es x)]) @ post) y" using es by simp
    then show "aoe (put es x a) y = ((aoe es)(x := a)) y"
      unfolding put using out by (auto simp: aoe_append aoe_notin split: if_splits)
  qed
qed

lemma put_restore: "tab_ok es \<Longrightarrow> put (put es x a) x (aoe es x) = es"
  by (rule tab_eqI) (simp_all add: put_ok)

lemma put_same: "tab_ok es \<Longrightarrow> put es x (aoe es x) = es"
  by (rule tab_eqI) (simp_all add: put_ok)

lemma un_split_eq: "un_split i n es = (takeWhile (\<lambda>e. uk e < (i, n)) es, dropWhile (\<lambda>e. uk e < (i, n)) es)"
  by (induction es) (auto simp: uk_def split_def)


section \<open>The undo structures\<close>

text \<open>
  A process has at most one structure, no two processes share one, and a structure is on the free
  chain or belongs to a process or neither; the active chain holds exactly the structures with
  entries. The bound on \<^verbatim>\<open>semaem\<close> is the configured value: the difference of two adjustments then
  wraps only to values that the range check rejects.
\<close>

definition ents :: "semst \<Rightarrow> nat \<Rightarrow> undo list" where
  "ents s slot = (case sem_undo s slot of None \<Rightarrow> [] | Some up \<Rightarrow> semu_ent s up)"

definition tab_bound :: "seminfo_t \<Rightarrow> undo list \<Rightarrow> bool" where
  "tab_bound si es \<longleftrightarrow> tab_ok es \<and> length es \<le> sim_semume si \<and> (\<forall>e\<in>set es. \<bar>un_aoe e\<bar> \<le> sim_semaem si)"

definition un_inv :: "semst \<Rightarrow> bool" where
  "un_inv s \<longleftrightarrow> 0 \<le> sim_semaem (seminfo s) \<and> sim_semaem (seminfo s) \<le> 16384
     \<and> (\<forall>u. tab_bound (seminfo s) (semu_ent s u))
     \<and> (\<forall>p q u. sem_undo s p = Some u \<and> sem_undo s q = Some u \<longrightarrow> p = q)
     \<and> (\<forall>p u. sem_undo s p = Some u \<longrightarrow> u \<notin> set (semfup s))
     \<and> distinct (semfup s) \<and> distinct (semunp s)
     \<and> (\<forall>u. u \<in> set (semunp s) \<longleftrightarrow> semu_ent s u \<noteq> [])
     \<and> (\<forall>u. semu_ent s u \<noteq> [] \<longrightarrow> (\<exists>p. sem_undo s p = Some u))"

definition same_sems :: "semst \<Rightarrow> semst \<Rightarrow> bool" where
  "same_sems s s' \<longleftrightarrow> sema s' = sema s \<and> sems s' = sems s \<and> semmap s' = semmap s \<and> seminfo s' = seminfo s
     \<and> sem_waked s' = sem_waked s \<and> sem_sysinfo s' = sem_sysinfo s \<and> sem_now s' = sem_now s"

text \<open>When \<^verbatim>\<open>semaoe\<close> succeeds.\<close>

definition aoe_fits :: "semst \<Rightarrow> nat \<Rightarrow> int \<Rightarrow> int \<times> nat \<Rightarrow> bool" where
  "aoe_fits s slot v x \<longleftrightarrow> v = 0 \<or>
     (\<bar>v\<bar> \<le> sim_semaem (seminfo s) \<and> (sem_undo s slot \<noteq> None \<or> semfup s \<noteq> [])
      \<and> \<bar>aoe (ents s slot) x - v\<bar> \<le> sim_semaem (seminfo s)
      \<and> (aoe (ents s slot) x \<noteq> 0 \<or> length (ents s slot) < sim_semume (seminfo s)))"

lemma un_invD:
  assumes "un_inv s"
  shows "0 \<le> sim_semaem (seminfo s)" "sim_semaem (seminfo s) \<le> 16384" "tab_bound (seminfo s) (semu_ent s u)"
    "sem_undo s p = Some u \<Longrightarrow> sem_undo s q = Some u \<Longrightarrow> p = q"
    "sem_undo s p = Some u \<Longrightarrow> u \<notin> set (semfup s)" "distinct (semfup s)" "distinct (semunp s)"
    "u \<in> set (semunp s) \<longleftrightarrow> semu_ent s u \<noteq> []" "semu_ent s u \<noteq> [] \<Longrightarrow> \<exists>p. sem_undo s p = Some u"
  using assms unfolding un_inv_def by blast+

lemma ents_bound: "un_inv s \<Longrightarrow> tab_bound (seminfo s) (ents s slot)"
  by (cases "sem_undo s slot") (simp_all add: ents_def un_invD(3), simp add: tab_bound_def)

lemma aoe_bound:
  assumes "tab_bound si es" "0 \<le> sim_semaem si"
  shows "\<bar>aoe es x\<bar> \<le> sim_semaem si"
proof (cases "x \<in> uk ` set es")
  case True
  then show ?thesis using assms by (auto simp: tab_bound_def aoe_in)
next
  case False
  then show ?thesis using assms(2) by (simp add: aoe_notin)
qed

lemma tab_bound_put:
  assumes "tab_bound si es" "\<bar>a\<bar> \<le> sim_semaem si" "aoe es x \<noteq> 0 \<or> length es < sim_semume si"
  shows "tab_bound si (put es x a)"
proof -
  have ok: "tab_ok es" using assms(1) by (simp add: tab_bound_def)
  have "length (put es x a) \<le> sim_semume si"
    using put_ok(3) [OF ok, of x a] assms(1,3) by (auto simp: tab_bound_def split: if_splits)
  moreover have "\<bar>un_aoe e\<bar> \<le> sim_semaem si" if "e \<in> set (put es x a)" for e
    using that assms(1,2) by (auto simp: put_def tab_bound_def split: if_splits dest: set_takeWhileD set_dropWhileD)
  ultimately show ?thesis using put_ok(1) [OF ok] by (simp add: tab_bound_def)
qed

text \<open>The entry part of \<^verbatim>\<open>semaoe\<close>, as an operation on the table.\<close>

lemma s16_out:
  assumes "0 \<le> m" "m \<le> 16384" "\<bar>x\<bar> \<le> 2 * m"
  shows "s16 x > m \<or> s16 x < - m \<longleftrightarrow> \<bar>x\<bar> > m" "\<bar>x\<bar> \<le> m \<Longrightarrow> s16 x = x"
proof -
  show "\<bar>x\<bar> \<le> m \<Longrightarrow> s16 x = x" using assms by (intro s16_id) linarith+
  show "s16 x > m \<or> s16 x < - m \<longleftrightarrow> \<bar>x\<bar> > m"
  proof (cases "x = 32768")
    case True
    then show ?thesis using assms by (simp add: s16_def)
  next
    case False
    then have "s16 x = x" using assms by (intro s16_id) linarith+
    then show ?thesis by linarith
  qed
qed

lemma s16_back:
  assumes "- 32768 \<le> a" "a < 32768"
  shows "s16 (s16 (a - v) + v) = a"
  using assms by (simp add: s16_add_cong s16_id)


lemma un_split_place:
  assumes "\<forall>e\<in>set pre. uk e < (i, n)" "\<forall>e\<in>set post. (i, n) < uk e"
  shows "un_split i n (pre @ (if b = 0 then [] else [mk (i, n) b]) @ post) =
    (pre, (if b = 0 then [] else [mk (i, n) b]) @ post)"
proof -
  let ?post = "(if b = 0 then [] else [mk (i, n) b]) @ post"
  have out: "\<forall>e\<in>set ?post. \<not> uk e < (i, n)" using assms(2) by (auto dest: less_asym)
  show ?thesis
    using takeWhile_place [OF assms(1) out] dropWhile_place [OF assms(1) out] by (simp add: un_split_eq)
qed

text \<open>The structure \<^verbatim>\<open>semaoe\<close> works on, taken from the free chain for a process without one.\<close>

definition un_get :: "semst \<Rightarrow> nat \<Rightarrow> (nat \<times> semst) option" where
  "un_get s slot = (case sem_undo s slot of
      Some up \<Rightarrow> Some (up, s)
    | None \<Rightarrow> (case semfup s of [] \<Rightarrow> None
        | up # fup \<Rightarrow> Some (up, s\<lparr>semfup := fup, sem_undo := (sem_undo s)(slot \<mapsto> up)\<rparr>)))"

lemma un_get_inv:
  assumes "un_inv s" "un_get s slot = Some (up, s1)"
  shows "un_inv s1" "same_sems s s1" "ents s1 = ents s" "sem_undo s1 slot = Some up" "ents s slot = semu_ent s1 up"
    "seminfo s1 = seminfo s"
proof -
  have "un_inv s1 \<and> same_sems s s1 \<and> ents s1 = ents s \<and> sem_undo s1 slot = Some up \<and> seminfo s1 = seminfo s"
  proof (cases "sem_undo s slot")
    case (Some u)
    with assms show ?thesis by (auto simp: un_get_def same_sems_def)
  next
    case None
    with assms(2) obtain fup where fup: "semfup s = up # fup"
      and s1: "s1 = s\<lparr>semfup := fup, sem_undo := (sem_undo s)(slot \<mapsto> up)\<rparr>"
      by (auto simp: un_get_def split: list.splits)
    have new: "sem_undo s p \<noteq> Some up" for p using un_invD(5) [OF assms(1), of p up] fup by auto
    then have empty: "semu_ent s up = []" using un_invD(9) [OF assms(1), of up] by blast
    have "ents s1 = ents s" using None empty by (auto simp: s1 ents_def fun_eq_iff split: option.split)
    moreover have "un_inv s1"
      using assms(1) new fup None unfolding un_inv_def s1 by (auto split: if_splits) (metis option.inject option.distinct(1))+
    moreover have "same_sems s s1" by (simp add: same_sems_def s1)
    ultimately show ?thesis by (simp add: s1)
  qed
  then show "un_inv s1" "same_sems s s1" "ents s1 = ents s" "sem_undo s1 slot = Some up" "ents s slot = semu_ent s1 up"
    "seminfo s1 = seminfo s" by (auto simp: ents_def dest: fun_cong [of _ _ slot])
qed

lemma un_get_None: "un_get s slot = None \<longleftrightarrow> sem_undo s slot = None \<and> semfup s = []"
  by (auto simp: un_get_def split: option.splits list.splits)

text \<open>Storing new entries in a structure and keeping the active chain in step.\<close>

definition un_store :: "semst \<Rightarrow> nat \<Rightarrow> undo list \<Rightarrow> semst" where
  "un_store s up es = s\<lparr>semu_ent := (semu_ent s)(up := es),
     semunp := (if es = [] then remove1 up (semunp s) else if semu_ent s up = [] then up # semunp s else semunp s)\<rparr>"

lemma un_store_inv:
  assumes "un_inv s" "sem_undo s slot = Some up" "tab_bound (seminfo s) es"
  shows "un_inv (un_store s up es)" "ents (un_store s up es) = (ents s)(slot := es)" "same_sems s (un_store s up es)"
proof -
  have other: "p \<noteq> slot \<Longrightarrow> sem_undo s p \<noteq> Some up" for p using un_invD(4) [OF assms(1) _ assms(2)] by blast
  show "ents (un_store s up es) = (ents s)(slot := es)"
    using assms(2) other by (auto simp: fun_eq_iff ents_def un_store_def split: option.splits)
  show "same_sems s (un_store s up es)" by (simp add: same_sems_def un_store_def)
  note inv = un_invD [OF assms(1)]
  have chain: "u \<in> set (semunp (un_store s up es)) \<longleftrightarrow> semu_ent (un_store s up es) u \<noteq> []" for u
    using inv(7,8) by (auto simp: un_store_def distinct_remove1_set)
  have "distinct (semunp (un_store s up es))" using inv(7,8) by (simp add: un_store_def)
  moreover have "tab_bound (seminfo s) (semu_ent (un_store s up es) u)" for u using inv(3) assms(3) by (simp add: un_store_def)
  moreover have "\<exists>p. sem_undo s p = Some u" if "semu_ent (un_store s up es) u \<noteq> []" for u
    using that inv(9) [of u] assms(2) by (auto simp: un_store_def split: if_splits)
  moreover have "seminfo (un_store s up es) = seminfo s" "sem_undo (un_store s up es) = sem_undo s"
    "semfup (un_store s up es) = semfup s" by (simp_all add: un_store_def)
  ultimately show "un_inv (un_store s up es)"
    unfolding un_inv_def using chain inv by (metis (no_types))
qed

lemma same_sems_trans: "same_sems s s1 \<Longrightarrow> same_sems s1 s2 \<Longrightarrow> same_sems s s2"
  by (simp add: same_sems_def)

lemma same_sems_refl: "same_sems s s"
  by (simp add: same_sems_def)

text \<open>\<^verbatim>\<open>semaoe\<close> on a state with the invariant.\<close>

lemma semaoe_unfold:
  fixes i :: int and n :: nat
  assumes "un_inv s" "v \<noteq> 0" "\<bar>v\<bar> \<le> sim_semaem (seminfo s)" "un_get s slot = Some (up, s1)"
    and a_def: "a = aoe (ents s slot) (i, n) - v"
  shows "semaoe s slot v i n =
    (if \<bar>a\<bar> > sim_semaem (seminfo s) then (Some ERANGE, s1)
     else if aoe (ents s slot) (i, n) = 0 \<and> length (ents s slot) \<ge> sim_semume (seminfo s) then (Some EINVAL, s1)
     else (None, un_store s1 up (put (ents s slot) (i, n) a)))"
proof -
  let ?x = "(i, n)" and ?es = "ents s slot"
  note g = un_get_inv [OF assms(1,4)]
  note aem = un_invD(1,2) [OF assms(1)]
  have bound: "tab_bound (seminfo s) ?es" by (rule ents_bound [OF assms(1)])
  then have ok: "tab_ok ?es" by (simp add: tab_bound_def)
  obtain pre post where
    es: "?es = pre @ (if aoe ?es ?x = 0 then [] else [mk ?x (aoe ?es ?x)]) @ post"
    and side: "\<forall>e\<in>set pre. uk e < ?x" "\<forall>e\<in>set post. ?x < uk e" by (rule tab_place [OF ok, of ?x])
  have up: "semu_ent s1 up = ?es" "seminfo s1 = seminfo s" by (rule g(5) [symmetric], rule g(6))
  have sp: "un_split i n ?es = (pre, (if aoe ?es ?x = 0 then [] else [mk ?x (aoe ?es ?x)]) @ post)"
    by (rule trans [OF arg_cong [OF es, of "un_split i n"] un_split_place [OF side]])
  have put: "put ?es ?x b = pre @ (if b = 0 then [] else [mk ?x b]) @ post" for b
    using put_place [OF side, of "aoe ?es ?x" b] by (simp only: es [symmetric])
  have dec: "semaoe s slot v i n = (let (pre, post) = un_split i n (semu_ent s1 up) in
      (case post of
            e # rest \<Rightarrow>
              if un_id e = i \<and> un_num e = n then
                let a = s16 (un_aoe e - v) in
                if a > sim_semaem (seminfo s1) \<or> a < - sim_semaem (seminfo s1) then
                  (Some ERANGE, s1\<lparr>semu_ent := (semu_ent s1)(up := pre @ e\<lparr>un_aoe := s16 (a + v)\<rparr> # rest)\<rparr>)
                else if a = 0 then
                  (None, s1\<lparr>semu_ent := (semu_ent s1)(up := pre @ rest),
                           semunp := (if pre @ rest = [] then remove1 up (semunp s1) else semunp s1)\<rparr>)
                else (None, s1\<lparr>semu_ent := (semu_ent s1)(up := pre @ e\<lparr>un_aoe := a\<rparr> # rest)\<rparr>)
              else if length (semu_ent s1 up) \<ge> sim_semume (seminfo s1) then (Some EINVAL, s1)
              else (None, s1\<lparr>semu_ent := (semu_ent s1)(up := pre @ \<lparr>un_aoe = s16 (- v), un_num = n, un_id = i\<rparr> # post),
                            semunp := (if semu_ent s1 up = [] then up # semunp s1 else semunp s1)\<rparr>)
          | [] \<Rightarrow>
              if length (semu_ent s1 up) \<ge> sim_semume (seminfo s1) then (Some EINVAL, s1)
              else (None, s1\<lparr>semu_ent := (semu_ent s1)(up := pre @ [\<lparr>un_aoe = s16 (- v), un_num = n, un_id = i\<rparr>]),
                            semunp := (if semu_ent s1 up = [] then up # semunp s1 else semunp s1)\<rparr>)))"
    using assms(2-4) unfolding semaoe_def un_get_def by (auto simp: Let_def split: option.splits list.splits)
  show ?thesis
  proof (cases "aoe ?es ?x = 0")
    case True
    have a: "a = - v" "s16 (- v) = - v" "\<not> \<bar>a\<bar> > sim_semaem (seminfo s)"
      using True assms(3) aem by (simp_all add: a_def s16_id)
    have mk: "\<lparr>un_aoe = - v, un_num = n, un_id = i\<rparr> = mk ?x (- v)" by (simp add: mk_def)
    show ?thesis
    proof (cases post)
      case Nil
      show ?thesis using True a assms(2) unfolding dec up sp put un_store_def Nil by (simp add: mk cong: if_cong)
    next
      case (Cons e rest)
      have notfound: "(un_id e = i \<and> un_num e = n) = False" using side(2) Cons by (auto simp: uk_def)
      show ?thesis
        using True a assms(2) unfolding dec up sp put un_store_def Cons
        by (simp add: mk notfound del: de_Morgan_conj cong: if_cong)
    qed
  next
    case False
    have abs: "\<bar>a\<bar> \<le> 2 * sim_semaem (seminfo s)" and av: "\<bar>aoe ?es ?x\<bar> \<le> sim_semaem (seminfo s)"
      using aoe_bound [OF bound aem(1), of ?x] assms(3) by (auto simp: a_def)
    have rng: "s16 a > sim_semaem (seminfo s) \<or> s16 a < - sim_semaem (seminfo s) \<longleftrightarrow> \<bar>a\<bar> > sim_semaem (seminfo s)"
      "\<bar>a\<bar> \<le> sim_semaem (seminfo s) \<Longrightarrow> s16 a = a" using s16_out [OF aem abs] by blast+
    have old: "s16 (s16 a + v) = aoe ?es ?x" unfolding a_def using av aem by (intro s16_back) linarith+
    have ne: "?es \<noteq> []" using False by auto
    have id: "un_id (mk ?x b) = i" "un_num (mk ?x b) = n" for b by (simp_all add: mk_def)
    have same: "s1\<lparr>semu_ent := (semu_ent s1)(up := ?es)\<rparr> = s1" using up(1) by (simp add: fun_upd_idem)
    have es': "pre @ mk ?x (aoe ?es ?x) # post = ?es" using es False by simp
    show ?thesis
    proof (cases "\<bar>a\<bar> > sim_semaem (seminfo s)")
      case True
      then show ?thesis unfolding dec up sp using False rng(1) by (simp add: Let_def id a_def [symmetric] old es' same)
    next
      case in_range: False
      then have "\<not> (s16 a > sim_semaem (seminfo s) \<or> s16 a < - sim_semaem (seminfo s))" "s16 a = a" using rng by auto
      then show ?thesis unfolding dec up sp put un_store_def using False in_range ne
        by (simp add: Let_def id a_def [symmetric] up del: fun_upd_apply)
    qed
  qed
qed


lemma semaoe_spec:
  assumes "un_inv s"
  shows "\<exists>r s'. semaoe s slot v i n = (r, s') \<and> un_inv s' \<and> same_sems s s' \<and> (r = None \<longleftrightarrow> aoe_fits s slot v (i, n))
    \<and> ents s' = (if r = None then (ents s)(slot := put (ents s slot) (i, n) (aoe (ents s slot) (i, n) - v)) else ents s)
    \<and> (sem_undo s slot \<noteq> None \<longrightarrow> sem_undo s' slot \<noteq> None) \<and> (r = None \<and> v \<noteq> 0 \<longrightarrow> sem_undo s' slot \<noteq> None)"
proof -
  let ?x = "(i, n)"
  have tab: "tab_ok (ents s slot)" using ents_bound [OF assms] by (simp add: tab_bound_def)
  consider "v = 0" | "v \<noteq> 0" "\<bar>v\<bar> > sim_semaem (seminfo s)" | "v \<noteq> 0" "\<bar>v\<bar> \<le> sim_semaem (seminfo s)" "un_get s slot = None"
    | up s1 where "v \<noteq> 0" "\<bar>v\<bar> \<le> sim_semaem (seminfo s)" "un_get s slot = Some (up, s1)"
    by (metis linorder_not_le option.exhaust prod.exhaust)
  then show ?thesis
  proof cases
    case 1
    then show ?thesis using assms put_same [OF tab, of ?x]
      by (simp add: semaoe_def aoe_fits_def same_sems_refl fun_upd_idem)
  next
    case 2
    then have "semaoe s slot v i n = (Some ERANGE, s)" by (auto simp: semaoe_def)
    with 2 assms show ?thesis by (simp add: aoe_fits_def same_sems_refl)
  next
    case 3
    then have "semaoe s slot v i n = (Some ENOSPC, s)" by (auto simp: semaoe_def un_get_None)
    with 3 assms show ?thesis by (simp add: aoe_fits_def same_sems_refl un_get_None)
  next
    case (4 up s1)
    note g = un_get_inv [OF assms 4(3)]
    have has: "sem_undo s slot \<noteq> None \<or> semfup s \<noteq> []" using 4(3) un_get_None [of s slot] by auto
    note eq = semaoe_unfold [OF assms 4 refl, where i = i and n = n]
    show ?thesis
    proof (cases "aoe_fits s slot v ?x")
      case True
      with 4(1) have fit: "\<bar>aoe (ents s slot) ?x - v\<bar> \<le> sim_semaem (seminfo s)"
        "aoe (ents s slot) ?x \<noteq> 0 \<or> length (ents s slot) < sim_semume (seminfo s)" by (auto simp: aoe_fits_def)
      let ?es = "put (ents s slot) ?x (aoe (ents s slot) ?x - v)"
      have ok: "semaoe s slot v i n = (None, un_store s1 up ?es)" unfolding eq using fit by auto
      have "tab_bound (seminfo s1) ?es" using tab_bound_put [OF ents_bound [OF assms] fit] by (simp add: g(6))
      note st = un_store_inv [OF g(1,4) this]
      have "sem_undo (un_store s1 up ?es) slot \<noteq> None" using g(4) by (simp add: un_store_def)
      then show ?thesis unfolding ok using True st g(2,3) same_sems_trans by auto
    next
      case False
      with has 4(1,2) have "\<bar>aoe (ents s slot) ?x - v\<bar> > sim_semaem (seminfo s) \<or>
          aoe (ents s slot) ?x = 0 \<and> length (ents s slot) \<ge> sim_semume (seminfo s)" by (auto simp: aoe_fits_def)
      then obtain e where "semaoe s slot v i n = (Some e, s1)" unfolding eq by (metis (mono_tags))
      then show ?thesis using False g by simp
    qed
  qed
qed

section \<open>One pass of semop\<close>

text \<open>
  \<open>vals\<close> are the values of all semaphores. \<open>undoes\<close> says that \<^verbatim>\<open>semundo\<close> of the operations done
  leads back to the values and adjustments of \<open>s0\<close>; it is carried through the loop, so that every
  way out of the loop other than success restores them.
\<close>

definition vals :: "semst \<Rightarrow> int list" where
  "vals s = map semval (sems s)"

definition rest_of :: "semst \<Rightarrow> semst \<Rightarrow> bool" where
  "rest_of s s' \<longleftrightarrow> sema s' = sema s \<and> semmap s' = semmap s \<and> seminfo s' = seminfo s \<and> sem_now s' = sem_now s
     \<and> sem_sysinfo s' = sem_sysinfo s \<and> map sempid (sems s') = map sempid (sems s)"

definition waits :: "semst \<Rightarrow> (int \<times> int) list" where
  "waits s = map (\<lambda>p. (semncnt p, semzcnt p)) (sems s)"

definition alike :: "nat \<Rightarrow> semst \<Rightarrow> semst \<Rightarrow> bool" where
  "alike slot s t \<longleftrightarrow> vals t = vals s \<and> ents t = ents s \<and> seminfo t = seminfo s
     \<and> (sem_undo s slot \<noteq> None \<longrightarrow> sem_undo t slot \<noteq> None)"

definition undoes :: "nat \<Rightarrow> int \<Rightarrow> nat \<Rightarrow> sembuf list \<Rightarrow> semst \<Rightarrow> semst \<Rightarrow> bool" where
  "undoes slot i base did s s0 \<longleftrightarrow> (\<forall>t. un_inv t \<and> alike slot s t \<longrightarrow>
     (\<exists>t'. semundo t slot i base did = Some t' \<and> un_inv t' \<and> vals t' = vals s0 \<and> ents t' = ents s0
       \<and> rest_of t t' \<and> waits t' = waits t \<and> sem_waked t' = sem_waked t))"

definition val_ok :: "semst \<Rightarrow> bool" where
  "val_ok s \<longleftrightarrow> 0 \<le> sim_semvmx (seminfo s) \<and> sim_semvmx (seminfo s) \<le> 65535
     \<and> (\<forall>v\<in>set (vals s). 0 \<le> v \<and> v \<le> sim_semvmx (seminfo s))"

abbreviation undo_flag :: "sembuf \<Rightarrow> bool" where
  "undo_flag op \<equiv> sem_flg op AND SEM_UNDO \<noteq> 0"

definition adjusted :: "(nat \<Rightarrow> undo list) \<Rightarrow> nat \<Rightarrow> int \<times> nat \<Rightarrow> int \<Rightarrow> nat \<Rightarrow> undo list" where
  "adjusted E slot x v = E(slot := put (E slot) x (aoe (E slot) x - v))"

text \<open>What an operation that can be done does.\<close>

definition did_op :: "nat \<Rightarrow> int \<Rightarrow> nat \<Rightarrow> sembuf \<Rightarrow> semst \<Rightarrow> semst \<Rightarrow> bool" where
  "did_op slot i base op s s1 \<longleftrightarrow> (let k = base + sem_num op; v = sem_op op in
     un_inv s1 \<and> rest_of s s1 \<and> k < length (vals s)
     \<and> 0 \<le> vals s ! k + v \<and> vals s ! k + v \<le> sim_semvmx (seminfo s)
     \<and> vals s1 = (vals s)[k := vals s ! k + v]
     \<and> ents s1 = (if undo_flag op then adjusted (ents s) slot (i, sem_num op) v else ents s)
     \<and> (undo_flag op \<longrightarrow> aoe_fits s slot v (i, sem_num op))
     \<and> (undo_flag op \<and> v \<noteq> 0 \<longrightarrow> sem_undo s1 slot \<noteq> None)
     \<and> (sem_undo s slot \<noteq> None \<longrightarrow> sem_undo s1 slot \<noteq> None))"

lemma vals_length [simp]: "length (vals s) = length (sems s)"
  by (simp add: vals_def)

lemma set_sem_in: "k < length (sems s) \<Longrightarrow> set_sem s k f = Some (s\<lparr>sems := (sems s)[k := f (sems s ! k)]\<rparr>)"
  by (simp add: set_sem_def rd_in)

lemma ents_sems [simp]: "ents (s\<lparr>sems := x\<rparr>) = ents s" "un_inv (s\<lparr>sems := x\<rparr>) = un_inv s"
    "ents (s\<lparr>sem_waked := w\<rparr>) = ents s" "un_inv (s\<lparr>sem_waked := w\<rparr>) = un_inv s"
  by (simp_all add: ents_def un_inv_def fun_eq_iff cong: option.case_cong)


lemma vals_upd: "k < length (sems s) \<Longrightarrow> vals (s\<lparr>sems := (sems s)[k := p]\<rparr>) = (vals s)[k := semval p]"
  by (simp add: vals_def map_update)

lemma vals_nth: "k < length (sems s) \<Longrightarrow> vals s ! k = semval (sems s ! k)"
  by (simp add: vals_def)

lemma map_upd_same: "k < length xs \<Longrightarrow> f y = f (xs ! k) \<Longrightarrow> map f (xs[k := y]) = map f xs"
  by (simp add: map_update list_update_same_conv)

lemma same_sems_view:
  assumes "same_sems s s'"
  shows "vals s' = vals s" "waits s' = waits s" "rest_of s s'" "sem_waked s' = sem_waked s" "seminfo s' = seminfo s" "sems s' = sems s"
  using assms by (simp_all add: same_sems_def vals_def waits_def rest_of_def)

lemma rest_of_trans: "rest_of s s1 \<Longrightarrow> rest_of s1 s2 \<Longrightarrow> rest_of s s2"
  by (simp add: rest_of_def)

lemma rest_of_refl [simp]: "rest_of s s"
  by (simp add: rest_of_def)

lemma undoes_Nil: "undoes slot i base [] s s"
  by (simp add: undoes_def alike_def)

lemma adjusted_back:
  assumes "tab_ok (E slot)"
  shows "adjusted (adjusted E slot x v) slot x (- v) = E" "adjusted E slot x 0 = E"
  using assms put_restore [OF assms, of x "aoe (E slot) x - v"] put_same [OF assms, of x]
  by (simp_all add: adjusted_def put_ok fun_upd_idem)

lemma ents_tab: "un_inv s \<Longrightarrow> tab_ok (ents s slot)"
  using ents_bound by (simp add: tab_bound_def)

text \<open>An adjustment can always be taken back.\<close>

lemma aoe_fits_back:
  assumes "un_inv s" "aoe_fits s slot v x" "v \<noteq> 0" "ents t = adjusted (ents s) slot x v"
    "seminfo t = seminfo s" "sem_undo t slot \<noteq> None"
  shows "aoe_fits t slot (- v) x"
proof -
  let ?es = "ents s slot"
  note b = ents_bound [OF assms(1), of slot]
  have tab: "tab_ok ?es" by (rule ents_tab [OF assms(1)])
  have t: "ents t slot = put ?es x (aoe ?es x - v)" using assms(4) by (simp add: adjusted_def)
  have "\<bar>aoe ?es x\<bar> \<le> sim_semaem (seminfo s)" using aoe_bound [OF b un_invD(1) [OF assms(1)]] .
  moreover have "length (ents t slot) < sim_semume (seminfo s)" if "aoe ?es x - v = 0"
    using put_ok(3) [OF tab, of x "aoe ?es x - v"] that assms(3) b unfolding t by (simp add: tab_bound_def)
  ultimately show ?thesis
    using assms(2,3,5,6) unfolding aoe_fits_def by (auto simp: t put_ok(2) [OF tab])
qed

lemma undoes_Cons:
  assumes "undoes slot i base did s s0" "un_inv s" "val_ok s" "did_op slot i base op s s1"
  shows "undoes slot i base (op # did) s1 s0"
  unfolding undoes_def
proof (intro allI impI, elim conjE)
  fix t assume t: "un_inv t" "alike slot s1 t"
  let ?k = "base + sem_num op" and ?v = "sem_op op" and ?x = "(i, sem_num op)"
  note d = assms(4) [unfolded did_op_def Let_def]
  have k: "?k < length (sems s)" using d by simp
  then have lt: "?k < length (sems t)" using t(2) d by (metis alike_def length_list_update vals_length)
  let ?goal = "\<exists>t'. semundo t slot i base (op # did) = Some t' \<and> un_inv t' \<and> vals t' = vals s0 \<and> ents t' = ents s0
       \<and> rest_of t t' \<and> waits t' = waits t \<and> sem_waked t' = sem_waked t"
  have via: ?goal if "alike slot s t1" "un_inv t1" "semundo t slot i base (op # did) = semundo t1 slot i base did"
    "rest_of t t1" "waits t1 = waits t" "sem_waked t1 = sem_waked t" for t1
  proof -
    from assms(1) that(1,2) obtain t' where "semundo t1 slot i base did = Some t'" "un_inv t'" "vals t' = vals s0"
      "ents t' = ents s0" "rest_of t1 t'" "waits t' = waits t1" "sem_waked t' = sem_waked t1"
      unfolding undoes_def by blast
    with that show ?thesis using rest_of_trans [of t t1 t'] by auto
  qed
  show ?goal
  proof (cases "?v = 0")
    case True
    have "vals s1 = vals s" "ents s1 = ents s"
      using d True by (simp_all add: adjusted_back(2) [OF ents_tab [OF assms(2)]])
    then have "alike slot s t" using t(2) d by (simp add: alike_def rest_of_def)
    then show ?thesis using True t(1) via [of t] by simp
  next
    case False
    let ?p = "(sems t ! ?k)\<lparr>semval := u16 (semval (sems t ! ?k) - ?v)\<rparr>"
    define t1 where "t1 = t\<lparr>sems := (sems t)[?k := ?p]\<rparr>"
    have vt: "vals t = (vals s)[?k := vals s ! ?k + ?v]" using t(2) d by (simp add: alike_def)
    have "vals s ! ?k \<in> set (vals s)" using k by simp
    then have "u16 (vals s ! ?k) = vals s ! ?k" using assms(3) by (intro u16_id) (force simp: val_ok_def)+
    moreover have "semval (sems t ! ?k) = vals s ! ?k + ?v" using vals_nth [OF lt] k by (simp add: vt)
    ultimately have v1: "vals t1 = vals s" using lt k by (simp add: t1_def vals_upd vt)
    have r1: "rest_of t t1" "waits t1 = waits t" "sem_waked t1 = sem_waked t" "un_inv t1" "ents t1 = ents s1"
      "seminfo t1 = seminfo s" "sem_undo t1 = sem_undo t"
      using lt t d by (simp_all add: t1_def rest_of_def waits_def map_upd_same alike_def)
    have st: "set_sem t ?k (\<lambda>p. p\<lparr>semval := u16 (semval p - ?v)\<rparr>) = Some t1" using lt by (simp add: set_sem_in t1_def)
    show ?thesis
    proof (cases "undo_flag op")
      case noundo: False
      then have "alike slot s t1" using v1 r1 t(2) d by (simp add: alike_def)
      then show ?thesis using False noundo st r1 via [of t1] by simp
    next
      case undo: True
      have fits: "aoe_fits s slot ?v ?x" "ents s1 = adjusted (ents s) slot ?x ?v" using d undo by simp_all
      have some: "sem_undo t1 slot \<noteq> None" using d undo False t(2) r1(7) by (simp add: alike_def)
      have "\<bar>?v\<bar> \<le> 16384" using fits(1) False un_invD(2) [OF assms(2)] by (auto simp: aoe_fits_def)
      then have s16v: "s16 (- ?v) = - ?v" by (intro s16_id) linarith+
      have fits1: "aoe_fits t1 slot (- ?v) ?x"
        using aoe_fits_back [OF assms(2) fits(1) False, of t1] r1 some fits(2) by simp
      from semaoe_spec [OF r1(4), of slot "- ?v" i "sem_num op"] fits1 obtain t2 where
        t2: "semaoe t1 slot (- ?v) i (sem_num op) = (None, t2)" "un_inv t2" "same_sems t1 t2"
          "ents t2 = adjusted (ents t1) slot ?x (- ?v)" "sem_undo t2 slot \<noteq> None"
        using some by (auto simp: adjusted_def)
      have "ents t2 = ents s" using t2(4) r1(5) fits(2) adjusted_back(1) [OF ents_tab [OF assms(2)]] by simp
      then have "alike slot s t2" using same_sems_view [OF t2(3)] v1 r1(6) t2(5) by (simp add: alike_def)
      moreover have "semundo t slot i base (op # did) = semundo t2 slot i base did" using False undo st s16v t2(1) by simp
      moreover have "rest_of t t2" "waits t2 = waits t" "sem_waked t2 = sem_waked t"
        using rest_of_trans [OF r1(1) same_sems_view(3) [OF t2(3)]] same_sems_view(2,4) [OF t2(3)] r1(2,3) by simp_all
      ultimately show ?thesis using via t2(2) by blast
    qed
  qed
qed


text \<open>
  The sum of the operations on semaphore \<open>j\<close>, why an operation cannot be done after those in \<open>pre\<close>,
  and the wakeups of one operation and of several.
\<close>

definition tot :: "nat \<Rightarrow> sembuf list \<Rightarrow> nat \<Rightarrow> int" where
  "tot base ops j = sum_list (map sem_op (filter (\<lambda>op. base + sem_num op = j) ops))"

definition blocks :: "semst \<Rightarrow> nat \<Rightarrow> sembuf list \<Rightarrow> sembuf \<Rightarrow> semchan \<Rightarrow> bool" where
  "blocks s0 base pre op ch \<longleftrightarrow> (let k = base + sem_num op; w = vals s0 ! k + tot base pre k in
     sem_op op < 0 \<and> w + sem_op op < 0 \<and> ch = NCnt k \<or> sem_op op = 0 \<and> w \<noteq> 0 \<and> ch = ZCnt k)"

definition refused :: "semst \<Rightarrow> nat \<Rightarrow> sembuf list \<Rightarrow> sembuf \<Rightarrow> errno \<Rightarrow> bool" where
  "refused s0 base pre op e \<longleftrightarrow> (let k = base + sem_num op; w = vals s0 ! k + tot base pre k in
     e = EAGAIN \<and> sem_flg op AND IPC_NOWAIT \<noteq> 0 \<and> (\<exists>ch. blocks s0 base pre op ch)
     \<or> e = ERANGE \<and> sem_op op > 0 \<and> w + sem_op op > sim_semvmx (seminfo s0)
     \<or> e \<in> {ERANGE, ENOSPC, EINVAL} \<and> undo_flag op)"

definition ncnt :: "semst \<Rightarrow> nat \<Rightarrow> int" where
  "ncnt s j = semncnt (sems s ! j)"

definition zcnt :: "semst \<Rightarrow> nat \<Rightarrow> int" where
  "zcnt s j = semzcnt (sems s ! j)"

definition wakes :: "nat \<Rightarrow> sembuf \<Rightarrow> semst \<Rightarrow> semst \<Rightarrow> bool" where
  "wakes base op s s1 \<longleftrightarrow> set (sem_waked s) \<subseteq> set (sem_waked s1) \<and> (\<forall>j<length (sems s). let k = base + sem_num op in
     ncnt s1 j = (if j = k \<and> sem_op op > 0 then 0 else ncnt s j) \<and> (ncnt s1 j \<noteq> ncnt s j \<longrightarrow> NCnt j \<in> set (sem_waked s1))
     \<and> zcnt s1 j = (if j = k \<and> sem_op op \<noteq> 0 \<and> vals s1 ! j = 0 then 0 else zcnt s j)
     \<and> (zcnt s1 j \<noteq> zcnt s j \<longrightarrow> ZCnt j \<in> set (sem_waked s1)))"

definition woken :: "nat \<Rightarrow> sembuf list \<Rightarrow> semst \<Rightarrow> semst \<Rightarrow> bool" where
  "woken base did s0 s \<longleftrightarrow> (\<forall>j<length (sems s0).
     (ncnt s j = ncnt s0 j \<or> ncnt s j = 0 \<and> NCnt j \<in> set (sem_waked s))
     \<and> (zcnt s j = zcnt s0 j \<or> zcnt s j = 0 \<and> ZCnt j \<in> set (sem_waked s))
     \<and> ((\<exists>op\<in>set did. base + sem_num op = j \<and> sem_op op > 0) \<longrightarrow> ncnt s j = 0)
     \<and> (vals s ! j = 0 \<longrightarrow> vals s0 ! j = 0 \<or> zcnt s j = 0))"

definition progress :: "nat \<Rightarrow> int \<Rightarrow> nat \<Rightarrow> sembuf list \<Rightarrow> semst \<Rightarrow> semst \<Rightarrow> bool" where
  "progress slot i base did s0 s \<longleftrightarrow> un_inv s \<and> val_ok s \<and> rest_of s0 s
     \<and> length (sems s) = length (sems s0)
     \<and> (\<forall>j<length (sems s0). vals s ! j = vals s0 ! j + tot base did j)
     \<and> (\<forall>q x. aoe (ents s q) x = aoe (ents s0 q) x -
          (if q = slot \<and> fst x = i then tot 0 (filter undo_flag did) (snd x) else 0))
     \<and> woken base did s0 s"

lemma tot_simps [simp]:
  "tot base [] j = 0" "tot base (op # ops) j = (if base + sem_num op = j then sem_op op else 0) + tot base ops j"
  by (simp_all add: tot_def)

lemma tot_append: "tot base (xs @ ys) j = tot base xs j + tot base ys j"
  by (simp add: tot_def)

lemma tot_rev: "tot base (rev ops) j = tot base ops j"
  by (induction ops) (simp_all add: tot_append)

lemma progress_refl: "un_inv s \<Longrightarrow> val_ok s \<Longrightarrow> progress slot i base [] s s"
  by (simp add: progress_def woken_def)

lemma val_ok_upd:
  assumes "val_ok s" "vals s1 = (vals s)[k := v]" "0 \<le> v" "v \<le> sim_semvmx (seminfo s)" "seminfo s1 = seminfo s"
  shows "val_ok s1"
  using assms set_update_subset_insert [of "vals s" k v] unfolding val_ok_def by (auto dest: subsetD)

lemma woken_step:
  assumes "woken base did s0 s" "wakes base op s s1" "length (sems s) = length (sems s0)" "base + sem_num op < length (sems s)"
    "vals s1 = (vals s)[base + sem_num op := vals s ! (base + sem_num op) + sem_op op]"
  shows "woken base (op # did) s0 s1"
  unfolding woken_def
proof (intro allI impI)
  fix j assume j: "j < length (sems s0)"
  let ?k = "base + sem_num op"
  have w: "(ncnt s j = ncnt s0 j \<or> ncnt s j = 0 \<and> NCnt j \<in> set (sem_waked s))"
    "(zcnt s j = zcnt s0 j \<or> zcnt s j = 0 \<and> ZCnt j \<in> set (sem_waked s))"
    "(\<exists>op\<in>set did. base + sem_num op = j \<and> sem_op op > 0) \<longrightarrow> ncnt s j = 0"
    "vals s ! j = 0 \<longrightarrow> vals s0 ! j = 0 \<or> zcnt s j = 0"
    using assms(1) j unfolding woken_def by blast+
  have k: "set (sem_waked s) \<subseteq> set (sem_waked s1)"
    "ncnt s1 j = (if j = ?k \<and> sem_op op > 0 then 0 else ncnt s j)" "ncnt s1 j \<noteq> ncnt s j \<longrightarrow> NCnt j \<in> set (sem_waked s1)"
    "zcnt s1 j = (if j = ?k \<and> sem_op op \<noteq> 0 \<and> vals s1 ! j = 0 then 0 else zcnt s j)"
    "zcnt s1 j \<noteq> zcnt s j \<longrightarrow> ZCnt j \<in> set (sem_waked s1)"
    using assms(2,3) j unfolding wakes_def Let_def by simp_all
  have v: "vals s1 ! j = (if j = ?k then vals s ! j + sem_op op else vals s ! j)"
    using assms(3-5) j by (simp add: nth_upd)
  show "(ncnt s1 j = ncnt s0 j \<or> ncnt s1 j = 0 \<and> NCnt j \<in> set (sem_waked s1))
     \<and> (zcnt s1 j = zcnt s0 j \<or> zcnt s1 j = 0 \<and> ZCnt j \<in> set (sem_waked s1))
     \<and> ((\<exists>op\<in>set (op # did). base + sem_num op = j \<and> sem_op op > 0) \<longrightarrow> ncnt s1 j = 0)
     \<and> (vals s1 ! j = 0 \<longrightarrow> vals s0 ! j = 0 \<or> zcnt s1 j = 0)"
  proof (intro conjI)
    show "ncnt s1 j = ncnt s0 j \<or> ncnt s1 j = 0 \<and> NCnt j \<in> set (sem_waked s1)"
      using w(1) k(1-3) by (cases "ncnt s1 j = ncnt s j") (auto split: if_splits)
    show "zcnt s1 j = zcnt s0 j \<or> zcnt s1 j = 0 \<and> ZCnt j \<in> set (sem_waked s1)"
      using w(2) k(1,4,5) by (cases "zcnt s1 j = zcnt s j") (auto split: if_splits)
    show "(\<exists>op\<in>set (op # did). base + sem_num op = j \<and> sem_op op > 0) \<longrightarrow> ncnt s1 j = 0"
      using w(3) k(2) by auto
    show "vals s1 ! j = 0 \<longrightarrow> vals s0 ! j = 0 \<or> zcnt s1 j = 0"
      using w(4) k(4) v by (auto split: if_splits)
  qed
qed

lemma progress_step:
  assumes "progress slot i base did s0 s" "did_op slot i base op s s1" "wakes base op s s1"
  shows "progress slot i base (op # did) s0 s1"
proof -
  let ?k = "base + sem_num op" and ?v = "sem_op op"
  note p = assms(1) [unfolded progress_def] and d = assms(2) [unfolded did_op_def Let_def]
  have len: "length (sems s1) = length (sems s)" using d by (metis length_list_update vals_length)
  have "vals s1 ! j = vals s0 ! j + tot base (op # did) j" if "j < length (sems s0)" for j
    using that p d by (simp add: nth_upd)
  moreover have "aoe (ents s1 q) x = aoe (ents s0 q) x -
        (if q = slot \<and> fst x = i then tot 0 (filter undo_flag (op # did)) (snd x) else 0)" for q x
  proof -
    have old: "aoe (ents s q) x = aoe (ents s0 q) x - (if q = slot \<and> fst x = i then tot 0 (filter undo_flag did) (snd x) else 0)" for q x
      using p by blast
    have "un_inv s" and new: "ents s1 = (if undo_flag op then adjusted (ents s) slot (i, sem_num op) ?v else ents s)"
      using p d by blast+
    from put_ok(2) [OF ents_tab [OF this(1)]] show ?thesis
      by (cases x) (auto simp: new adjusted_def old)
  qed
  moreover have "woken base (op # did) s0 s1" using p d by (intro woken_step [OF _ assms(3)]) simp_all
  moreover have "val_ok s1"
    by (rule val_ok_upd [of s s1 ?k "vals s ! ?k + ?v"]) (use d p in \<open>blast | simp add: rest_of_def\<close>)+
  moreover have "rest_of s0 s1" using p d rest_of_trans by blast
  ultimately show ?thesis unfolding progress_def using p d len by simp
qed


text \<open>The call of \<^verbatim>\<open>semaoe\<close> in the loop, and the wakeups.\<close>

lemma sem_try_spec:
  assumes "un_inv s"
  obtains r t where "(if undo_flag op then semaoe s slot (sem_op op) i (sem_num op) else (None, s)) = (r, t)"
    "un_inv t" "same_sems s t" "sem_undo s slot \<noteq> None \<longrightarrow> sem_undo t slot \<noteq> None"
    "r \<noteq> None \<longrightarrow> ents t = ents s \<and> undo_flag op"
    "r = None \<longrightarrow> ents t = (if undo_flag op then adjusted (ents s) slot (i, sem_num op) (sem_op op) else ents s)
      \<and> (undo_flag op \<longrightarrow> aoe_fits s slot (sem_op op) (i, sem_num op))
      \<and> (undo_flag op \<and> sem_op op \<noteq> 0 \<longrightarrow> sem_undo t slot \<noteq> None)"
proof (cases "undo_flag op")
  case True
  from semaoe_spec [OF assms, of slot "sem_op op" i "sem_num op"] obtain r t where
    "semaoe s slot (sem_op op) i (sem_num op) = (r, t)" "un_inv t" "same_sems s t"
    "r = None \<longleftrightarrow> aoe_fits s slot (sem_op op) (i, sem_num op)"
    "ents t = (if r = None then (ents s)(slot := put (ents s slot) (i, sem_num op) (aoe (ents s slot) (i, sem_num op) - sem_op op)) else ents s)"
    "sem_undo s slot \<noteq> None \<longrightarrow> sem_undo t slot \<noteq> None" "r = None \<and> sem_op op \<noteq> 0 \<longrightarrow> sem_undo t slot \<noteq> None"
    by blast
  with True show ?thesis by (intro that [of r t]) (simp_all add: adjusted_def)
next
  case False
  with assms show ?thesis by (intro that [of None s]) (simp_all add: same_sems_refl)
qed

definition quiet :: "semst \<Rightarrow> semst \<Rightarrow> bool" where
  "quiet s s' \<longleftrightarrow> vals s' = vals s \<and> ents s' = ents s \<and> un_inv s' = un_inv s \<and> rest_of s s' \<and> sem_undo s' = sem_undo s
     \<and> length (sems s') = length (sems s) \<and> set (sem_waked s) \<subseteq> set (sem_waked s')"

lemma quiet_trans: "quiet s t \<Longrightarrow> quiet t u \<Longrightarrow> quiet s u"
  unfolding quiet_def using rest_of_trans by auto

lemma quiet_sem:
  assumes "k < length (sems s)" "semval p = semval (sems s ! k)" "sempid p = sempid (sems s ! k)" "set (sem_waked s) \<subseteq> set w"
  shows "quiet s (s\<lparr>sems := (sems s)[k := p], sem_waked := w\<rparr>)"
  using assms by (simp add: quiet_def vals_def rest_of_def map_upd_same ents_def fun_eq_iff un_inv_def cong: option.case_cong)

lemma wake_n_spec:
  assumes "k < length (sems s)"
  obtains s' where "wake_n k s = Some s'" "quiet s s'" "\<And>j. j < length (sems s) \<Longrightarrow> ncnt s' j = (if j = k then 0 else ncnt s j)"
    "\<And>j. j < length (sems s) \<Longrightarrow> zcnt s' j = zcnt s j" "ncnt s k \<noteq> 0 \<Longrightarrow> NCnt k \<in> set (sem_waked s')"
proof (cases "semncnt (sems s ! k) = 0")
  case True
  with assms that [of s] show ?thesis by (auto simp: wake_n_def rd_in quiet_def ncnt_def)
next
  case False
  with assms show ?thesis
    by (intro that [OF _ quiet_sem [of k s "(sems s ! k)\<lparr>semncnt := 0\<rparr>" "NCnt k # sem_waked s"]])
       (auto simp: wake_n_def rd_in ncnt_def zcnt_def nth_upd)
qed

lemma wake_z_spec:
  assumes "k < length (sems s)"
  obtains s' where "wake_z k s = Some s'" "quiet s s'" "\<And>j. j < length (sems s) \<Longrightarrow> zcnt s' j = (if j = k then 0 else zcnt s j)"
    "\<And>j. j < length (sems s) \<Longrightarrow> ncnt s' j = ncnt s j" "zcnt s k \<noteq> 0 \<Longrightarrow> ZCnt k \<in> set (sem_waked s')"
proof (cases "semzcnt (sems s ! k) = 0")
  case True
  with assms that [of s] show ?thesis by (auto simp: wake_z_def rd_in quiet_def zcnt_def)
next
  case False
  with assms show ?thesis
    by (intro that [OF _ quiet_sem [of k s "(sems s ! k)\<lparr>semzcnt := 0\<rparr>" "ZCnt k # sem_waked s"]])
       (auto simp: wake_z_def rd_in ncnt_def zcnt_def nth_upd)
qed

text \<open>Storing the new value and waking, as the two branches of the loop do it.\<close>

lemma sem_apply:
  assumes "k < length (sems t)" "0 \<le> vals t ! k + v" "vals t ! k + v < 65536"
  obtains s1 where "\<forall>f. (do {
      s \<leftarrow> set_sem t k (\<lambda>p. p\<lparr>semval := u16 (semval p + v)\<rparr>);
      s \<leftarrow> if up then wake_n k s else Some s;
      p \<leftarrow> rd (sems s) k;
      s \<leftarrow> if semval p = 0 then wake_z k s else Some s;
      f s }) = f s1"
    "vals s1 = (vals t)[k := vals t ! k + v]" "ents s1 = ents t" "un_inv s1 = un_inv t" "rest_of t s1" "sem_undo s1 = sem_undo t"
    "set (sem_waked t) \<subseteq> set (sem_waked s1)"
    "\<forall>j<length (sems t). ncnt s1 j = (if j = k \<and> up then 0 else ncnt t j) \<and> (ncnt s1 j \<noteq> ncnt t j \<longrightarrow> NCnt j \<in> set (sem_waked s1))"
    "\<forall>j<length (sems t). zcnt s1 j = (if j = k \<and> vals s1 ! j = 0 then 0 else zcnt t j) \<and> (zcnt s1 j \<noteq> zcnt t j \<longrightarrow> ZCnt j \<in> set (sem_waked s1))"
proof -
  define t1 where "t1 = t\<lparr>sems := (sems t)[k := (sems t ! k)\<lparr>semval := vals t ! k + v\<rparr>]\<rparr>"
  have set: "set_sem t k (\<lambda>p. p\<lparr>semval := u16 (semval p + v)\<rparr>) = Some t1"
    using assms by (simp add: set_sem_in t1_def vals_nth u16_id)
  have t1: "k < length (sems t1)" "length (sems t1) = length (sems t)" "vals t1 = (vals t)[k := vals t ! k + v]" "ents t1 = ents t" "un_inv t1 = un_inv t"
    "rest_of t t1" "sem_undo t1 = sem_undo t" "sem_waked t1 = sem_waked t"
    using assms by (simp_all add: t1_def vals_upd rest_of_def map_upd_same)
  have c1: "ncnt t1 j = ncnt t j" "zcnt t1 j = zcnt t j" if "j < length (sems t)" for j
    using that by (auto simp: t1_def ncnt_def zcnt_def nth_upd)
  obtain t2 where t2: "(if up then wake_n k t1 else Some t1) = Some t2" "quiet t1 t2"
    "\<And>j. j < length (sems t) \<Longrightarrow> ncnt t2 j = (if j = k \<and> up then 0 else ncnt t1 j)"
    "\<And>j. j < length (sems t) \<Longrightarrow> zcnt t2 j = zcnt t1 j" "up \<Longrightarrow> ncnt t1 k \<noteq> 0 \<Longrightarrow> NCnt k \<in> set (sem_waked t2)"
  proof (cases up)
    case True
    from wake_n_spec [OF t1(1)] obtain t2 where "wake_n k t1 = Some t2" "quiet t1 t2"
      "\<And>j. j < length (sems t1) \<Longrightarrow> ncnt t2 j = (if j = k then 0 else ncnt t1 j)"
      "\<And>j. j < length (sems t1) \<Longrightarrow> zcnt t2 j = zcnt t1 j" "ncnt t1 k \<noteq> 0 \<Longrightarrow> NCnt k \<in> set (sem_waked t2)" by blast
    with True t1(2) show ?thesis by (intro that [of t2]) simp_all
  next
    case False
    then show ?thesis by (intro that [of t1]) (simp_all add: quiet_def)
  qed
  have k2: "k < length (sems t2)" "length (sems t2) = length (sems t)" using t2(2) t1(1,2) by (simp_all add: quiet_def)
  obtain s1 where s1: "(if semval (sems t2 ! k) = 0 then wake_z k t2 else Some t2) = Some s1" "quiet t2 s1"
    "\<And>j. j < length (sems t) \<Longrightarrow> zcnt s1 j = (if j = k \<and> vals t2 ! k = 0 then 0 else zcnt t2 j)"
    "\<And>j. j < length (sems t) \<Longrightarrow> ncnt s1 j = ncnt t2 j" "vals t2 ! k = 0 \<Longrightarrow> zcnt t2 k \<noteq> 0 \<Longrightarrow> ZCnt k \<in> set (sem_waked s1)"
  proof (cases "semval (sems t2 ! k) = 0")
    case True
    from wake_z_spec [OF k2(1)] obtain s1 where "wake_z k t2 = Some s1" "quiet t2 s1"
      "\<And>j. j < length (sems t2) \<Longrightarrow> zcnt s1 j = (if j = k then 0 else zcnt t2 j)"
      "\<And>j. j < length (sems t2) \<Longrightarrow> ncnt s1 j = ncnt t2 j" "zcnt t2 k \<noteq> 0 \<Longrightarrow> ZCnt k \<in> set (sem_waked s1)" by blast
    with True k2 show ?thesis by (intro that [of s1]) (simp_all add: vals_nth)
  next
    case False
    then show ?thesis using k2 by (intro that [of t2]) (simp_all add: quiet_def vals_nth)
  qed
  have q: "quiet t1 s1" using quiet_trans [OF t2(2) s1(2)] .
  have sub: "set (sem_waked t2) \<subseteq> set (sem_waked s1)" using s1(2) by (simp add: quiet_def)
  show ?thesis
  proof (rule that [of s1])
    show "\<forall>f. (do {
      s \<leftarrow> set_sem t k (\<lambda>p. p\<lparr>semval := u16 (semval p + v)\<rparr>);
      s \<leftarrow> if up then wake_n k s else Some s;
      p \<leftarrow> rd (sems s) k;
      s \<leftarrow> if semval p = 0 then wake_z k s else Some s;
      f s }) = f s1"
      using set t2(1) s1(1) k2(1) by (simp add: rd_in)
    show "vals s1 = (vals t)[k := vals t ! k + v]" "ents s1 = ents t" "un_inv s1 = un_inv t" "rest_of t s1" "sem_undo s1 = sem_undo t"
      "set (sem_waked t) \<subseteq> set (sem_waked s1)"
      using q t1 rest_of_trans [OF t1(6)] by (simp_all add: quiet_def)
    show "\<forall>j<length (sems t). ncnt s1 j = (if j = k \<and> up then 0 else ncnt t j) \<and> (ncnt s1 j \<noteq> ncnt t j \<longrightarrow> NCnt j \<in> set (sem_waked s1))"
      using s1(4) t2(3,5) c1(1) sub by (auto split: if_splits)
    have "vals s1 = vals t2" using s1(2) by (simp add: quiet_def)
    then show "\<forall>j<length (sems t). zcnt s1 j = (if j = k \<and> vals s1 ! j = 0 then 0 else zcnt t j) \<and> (zcnt s1 j \<noteq> zcnt t j \<longrightarrow> ZCnt j \<in> set (sem_waked s1))"
      using s1(3,5) t2(4) c1(2) by (auto split: if_splits)
  qed
qed


text \<open>The loop: it never fails, and ends with all operations done or with none.\<close>

lemma semundo_back:
  assumes "undoes slot i base did s s0" "un_inv t" "alike slot s t" "rest_of s0 t"
  obtains t' where "semundo t slot i base did = Some t'" "un_inv t'" "vals t' = vals s0" "ents t' = ents s0" "rest_of s0 t'"
    "waits t' = waits t" "sem_waked t' = sem_waked t"
  using assms rest_of_trans unfolding undoes_def by blast

lemma alike_refl: "alike slot s s"
  by (simp add: alike_def)

lemma did_opI:
  assumes "un_inv t" "same_sems s t" "sem_undo s slot \<noteq> None \<longrightarrow> sem_undo t slot \<noteq> None"
    "ents t = (if undo_flag op then adjusted (ents s) slot (i, sem_num op) (sem_op op) else ents s)"
    "undo_flag op \<longrightarrow> aoe_fits s slot (sem_op op) (i, sem_num op)" "undo_flag op \<and> sem_op op \<noteq> 0 \<longrightarrow> sem_undo t slot \<noteq> None"
    "base + sem_num op < length (sems s)" "0 \<le> vals s ! (base + sem_num op) + sem_op op"
    "vals s ! (base + sem_num op) + sem_op op \<le> sim_semvmx (seminfo s)"
    "vals s1 = (vals t)[base + sem_num op := vals t ! (base + sem_num op) + sem_op op]" "ents s1 = ents t" "un_inv s1 = un_inv t"
    "rest_of t s1" "sem_undo s1 = sem_undo t"
  shows "did_op slot i base op s s1"
  unfolding did_op_def Let_def using assms rest_of_trans [OF same_sems_view(3) [OF assms(2)] assms(13)] same_sems_view(1) [OF assms(2)]
  by simp

lemma did_op_zero:
  assumes "un_inv s" "sem_op op = 0" "base + sem_num op < length (sems s)" "val_ok s"
  shows "did_op slot i base op s s" "wakes base op s s"
proof -
  have "vals s ! (base + sem_num op) \<in> set (vals s)" using assms(3) by simp
  then have "0 \<le> vals s ! (base + sem_num op)" "vals s ! (base + sem_num op) \<le> sim_semvmx (seminfo s)" using assms(4) unfolding val_ok_def by blast+
  with assms show "did_op slot i base op s s"
    by (simp add: did_op_def adjusted_back(2) [OF ents_tab] aoe_fits_def)
  show "wakes base op s s" using assms(2) by (simp add: wakes_def)
qed

definition unchanged :: "semst \<Rightarrow> semst \<Rightarrow> bool" where
  "unchanged s0 s \<longleftrightarrow> un_inv s \<and> vals s = vals s0 \<and> ents s = ents s0 \<and> rest_of s0 s"

definition counted :: "semst \<Rightarrow> semst \<Rightarrow> semchan \<Rightarrow> bool" where
  "counted s0 s ch \<longleftrightarrow> (case ch of
      NCnt k \<Rightarrow> ncnt s k = u16 (ncnt s0 k + 1) \<or> ncnt s k = 1
    | ZCnt k \<Rightarrow> zcnt s k = u16 (zcnt s0 k + 1) \<or> zcnt s k = 1)"

definition loop_result :: "nat \<Rightarrow> int \<Rightarrow> nat \<Rightarrow> sembuf list \<Rightarrow> sembuf list \<Rightarrow> semst \<Rightarrow> semres \<Rightarrow> semst \<Rightarrow> bool" where
  "loop_result slot i base did ops s0 r s' \<longleftrightarrow> (case r of
      SDone \<Rightarrow> progress slot i base (rev ops @ did) s0 s'
    | SErr e \<Rightarrow> unchanged s0 s' \<and> (\<exists>pre op post. ops = pre @ op # post \<and> refused s0 base (rev pre @ did) op e)
    | SWait ch \<Rightarrow> unchanged s0 s' \<and> counted s0 s' ch
        \<and> (\<exists>pre op post. ops = pre @ op # post \<and> sem_flg op AND IPC_NOWAIT = 0 \<and> blocks s0 base (rev pre @ did) op ch))"

lemma loop_result_Cons:
  assumes "loop_result slot i base (op # did) ops s0 r s'"
  shows "loop_result slot i base did (op # ops) s0 r s'"
proof (cases r)
  case SDone
  with assms show ?thesis by (simp add: loop_result_def)
next
  case (SErr e)
  with assms obtain pre op' post where "unchanged s0 s'" "ops = pre @ op' # post" "refused s0 base (rev pre @ op # did) op' e"
    by (auto simp: loop_result_def)
  with SErr show ?thesis by (simp add: loop_result_def) (rule exI [of _ "op # pre"], simp)
next
  case (SWait ch)
  with assms obtain pre op' post where "unchanged s0 s'" "counted s0 s' ch" "ops = pre @ op' # post"
    "sem_flg op' AND IPC_NOWAIT = 0" "blocks s0 base (rev pre @ op # did) op' ch"
    by (auto simp: loop_result_def)
  with SWait show ?thesis by (simp add: loop_result_def) (rule exI [of _ "op # pre"], simp)
qed

lemma loop_result_stop:
  "unchanged s0 s' \<Longrightarrow> refused s0 base did op e \<Longrightarrow> loop_result slot i base did (op # ops) s0 (SErr e) s'"
  "unchanged s0 s' \<Longrightarrow> counted s0 s' ch \<Longrightarrow> sem_flg op AND IPC_NOWAIT = 0 \<Longrightarrow> blocks s0 base did op ch \<Longrightarrow>
     loop_result slot i base did (op # ops) s0 (SWait ch) s'"
  by (auto simp: loop_result_def intro: exI [of _ "[]"])


lemma semaoe_errors:
  assumes "semaoe s slot v i n = (Some e, s')"
  shows "e \<in> {ERANGE, ENOSPC, EINVAL}"
  using assms unfolding semaoe_def Let_def
  by (auto split: if_splits option.splits list.splits prod.splits)

text \<open>The branches in which an operation is done.\<close>

lemma loop_apply:
  assumes "progress slot i base did s0 s" "undoes slot i base did s s0" "base + sem_num op < length (sems s0)" "sem_op op \<noteq> 0"
    "0 \<le> vals s ! (base + sem_num op) + sem_op op" "vals s ! (base + sem_num op) + sem_op op \<le> sim_semvmx (seminfo s)"
  defines "k \<equiv> base + sem_num op"
  shows "(\<exists>e t t'. (if undo_flag op then semaoe s slot (sem_op op) i (sem_num op) else (None, s)) = (Some e, t)
        \<and> semundo t slot i base did = Some t' \<and> unchanged s0 t' \<and> refused s0 base did op e)
    \<or> (\<exists>t s1. (if undo_flag op then semaoe s slot (sem_op op) i (sem_num op) else (None, s)) = (None, t)
        \<and> (\<forall>f :: semst \<Rightarrow> (semres \<times> semst) option. (do {
            s \<leftarrow> set_sem t k (\<lambda>p. p\<lparr>semval := u16 (semval p + sem_op op)\<rparr>);
            s \<leftarrow> if sem_op op > 0 then wake_n k s else Some s;
            p \<leftarrow> rd (sems s) k;
            s \<leftarrow> if semval p = 0 then wake_z k s else Some s;
            f s }) = f s1)
        \<and> progress slot i base (op # did) s0 s1 \<and> undoes slot i base (op # did) s1 s0)"
proof -
  note p = assms(1) [unfolded progress_def]
  have inv: "un_inv s" "val_ok s" "rest_of s0 s" and len: "k < length (sems s)" using p assms(3) by (simp_all add: k_def)
  obtain r t where t: "(if undo_flag op then semaoe s slot (sem_op op) i (sem_num op) else (None, s)) = (r, t)"
    "un_inv t" "same_sems s t" "sem_undo s slot \<noteq> None \<longrightarrow> sem_undo t slot \<noteq> None"
    "r \<noteq> None \<longrightarrow> ents t = ents s \<and> undo_flag op"
    "r = None \<longrightarrow> ents t = (if undo_flag op then adjusted (ents s) slot (i, sem_num op) (sem_op op) else ents s)
      \<and> (undo_flag op \<longrightarrow> aoe_fits s slot (sem_op op) (i, sem_num op))
      \<and> (undo_flag op \<and> sem_op op \<noteq> 0 \<longrightarrow> sem_undo t slot \<noteq> None)"
    by (rule sem_try_spec [OF inv(1), of op slot i])
  note v = same_sems_view [OF t(3)]
  show ?thesis
  proof (cases r)
    case (Some e)
    have "e \<in> {ERANGE, ENOSPC, EINVAL}" using t(1) t(5) Some by (intro semaoe_errors) auto
    then have ref: "refused s0 base did op e" using t(5) Some by (simp add: refused_def)
    have "alike slot s t" using t v Some by (simp add: alike_def)
    from semundo_back [OF assms(2) t(2) this rest_of_trans [OF inv(3) v(3)]]
    obtain t' where "semundo t slot i base did = Some t'" "unchanged s0 t'" unfolding unchanged_def by blast
    with t(1) Some ref show ?thesis by blast
  next
    case None
    have b: "k < length (sems t)" "0 \<le> vals t ! k + sem_op op" "vals t ! k + sem_op op < 65536"
      using len v assms(5,6) inv(2) by (simp_all add: k_def val_ok_def)
    obtain s1 where s1: "\<forall>f :: semst \<Rightarrow> (semres \<times> semst) option. (do {
        s \<leftarrow> set_sem t k (\<lambda>p. p\<lparr>semval := u16 (semval p + sem_op op)\<rparr>);
        s \<leftarrow> if sem_op op > 0 then wake_n k s else Some s;
        p \<leftarrow> rd (sems s) k;
        s \<leftarrow> if semval p = 0 then wake_z k s else Some s;
        f s }) = f s1"
      "vals s1 = (vals t)[k := vals t ! k + sem_op op]" "ents s1 = ents t" "un_inv s1 = un_inv t" "rest_of t s1" "sem_undo s1 = sem_undo t"
      "set (sem_waked t) \<subseteq> set (sem_waked s1)"
      "\<forall>j<length (sems t). ncnt s1 j = (if j = k \<and> sem_op op > 0 then 0 else ncnt t j) \<and> (ncnt s1 j \<noteq> ncnt t j \<longrightarrow> NCnt j \<in> set (sem_waked s1))"
      "\<forall>j<length (sems t). zcnt s1 j = (if j = k \<and> vals s1 ! j = 0 then 0 else zcnt t j) \<and> (zcnt s1 j \<noteq> zcnt t j \<longrightarrow> ZCnt j \<in> set (sem_waked s1))"
      by (rule sem_apply [OF b, where up = "sem_op op > 0" and 'a = "semres \<times> semst"])
    have "did_op slot i base op s s1"
      by (rule did_opI [where t = t]) (use t None s1(2-6) assms(5,6) len in \<open>simp_all add: k_def\<close>)
    moreover have cnt: "ncnt t = ncnt s" "zcnt t = zcnt s" by (simp_all add: fun_eq_iff ncnt_def zcnt_def v(6))
    have "wakes base op s s1" unfolding wakes_def Let_def k_def [symmetric]
      using s1(7-9) assms(4) unfolding v(4,6) cnt by auto
    ultimately have "progress slot i base (op # did) s0 s1" "undoes slot i base (op # did) s1 s0"
      using progress_step [OF assms(1)] undoes_Cons [OF assms(2) inv(1,2)] by blast+
    with t(1) None s1(1) show ?thesis by blast
  qed
qed


text \<open>The branches in which the process has to wait.\<close>

lemma loop_wait:
  assumes "progress slot i base did s0 s" "undoes slot i base did s s0" "blocks s0 base did op ch"
    "base + sem_num op < length (sems s0)"
  shows "\<exists>t. semundo s slot i base did = Some t \<and> unchanged s0 t
    \<and> (ch = NCnt (base + sem_num op) \<longrightarrow> (\<exists>t'. set_sem t (base + sem_num op) (\<lambda>p. p\<lparr>semncnt := u16 (semncnt p + 1)\<rparr>) = Some t'
       \<and> unchanged s0 t' \<and> counted s0 t' ch))
    \<and> (ch = ZCnt (base + sem_num op) \<longrightarrow> (\<exists>t'. set_sem t (base + sem_num op) (\<lambda>p. p\<lparr>semzcnt := u16 (semzcnt p + 1)\<rparr>) = Some t'
       \<and> unchanged s0 t' \<and> counted s0 t' ch))"
proof -
  let ?k = "base + sem_num op"
  note p = assms(1) [unfolded progress_def]
  from p have sp: "un_inv s" "rest_of s0 s" by blast+
  obtain t where t: "semundo s slot i base did = Some t" "un_inv t" "vals t = vals s0" "ents t = ents s0" "rest_of s0 t"
    "waits t = waits s" "sem_waked t = sem_waked s"
    by (rule semundo_back [OF assms(2) sp(1) alike_refl sp(2)])
  have len: "?k < length (sems t)" using t(3) assms(4) by (metis vals_length)
  then have ks: "?k < length (sems s)" using p assms(4) by simp
  have un: "unchanged s0 t" using t by (simp add: unchanged_def)
  have "waits t ! ?k = waits s ! ?k" using t(6) by simp
  then have cnt: "semncnt (sems t ! ?k) = ncnt s ?k" "semzcnt (sems t ! ?k) = zcnt s ?k"
    using len ks by (simp_all add: waits_def ncnt_def zcnt_def)
  have w: "ncnt s ?k = ncnt s0 ?k \<or> ncnt s ?k = 0" "zcnt s ?k = zcnt s0 ?k \<or> zcnt s ?k = 0"
    using p assms(4) unfolding woken_def by blast+
  have keep: "unchanged s0 (t\<lparr>sems := (sems t)[?k := q]\<rparr>)" if "semval q = semval (sems t ! ?k)" "sempid q = sempid (sems t ! ?k)" for q
    using un that len by (auto simp: unchanged_def vals_def rest_of_def map_upd_same)
  show ?thesis
  proof (rule exI [of _ t], intro conjI impI)
    show "semundo s slot i base did = Some t" "unchanged s0 t" by (fact t(1) un)+
    show "\<exists>t'. set_sem t ?k (\<lambda>p. p\<lparr>semncnt := u16 (semncnt p + 1)\<rparr>) = Some t' \<and> unchanged s0 t' \<and> counted s0 t' ch" if "ch = NCnt ?k"
      using that len keep w(1) by (auto simp: set_sem_in counted_def ncnt_def [of "t\<lparr>sems := _\<rparr>"] cnt u16_def)
    show "\<exists>t'. set_sem t ?k (\<lambda>p. p\<lparr>semzcnt := u16 (semzcnt p + 1)\<rparr>) = Some t' \<and> unchanged s0 t' \<and> counted s0 t' ch" if "ch = ZCnt ?k"
      using that len keep w(2) by (auto simp: set_sem_in counted_def zcnt_def [of "t\<lparr>sems := _\<rparr>"] cnt u16_def)
  qed
qed

lemma semop_loop_spec:
  assumes "progress slot i base did s0 s" "undoes slot i base did s s0" "\<forall>op\<in>set ops. base + sem_num op < length (sems s0)"
  shows "\<exists>r s'. semop_loop s slot i base did ops = Some (r, s') \<and> loop_result slot i base did ops s0 r s'"
  using assms
proof (induction ops arbitrary: s did)
  case Nil
  then show ?case by (simp add: loop_result_def)
next
  case (Cons op ops)
  let ?k = "base + sem_num op" and ?v = "sem_op op"
  have k0: "?k < length (sems s0)" using Cons.prems(3) by simp
  note p = Cons.prems(1) [unfolded progress_def]
  have k: "?k < length (sems s)" and w: "semval (sems s ! ?k) = vals s0 ! ?k + tot base did ?k" and info: "seminfo s = seminfo s0"
    and inv: "un_inv s" "val_ok s"
    using p k0 by (auto simp: vals_nth [symmetric] rest_of_def)
  have vk: "vals s ! ?k = semval (sems s ! ?k)" "0 \<le> semval (sems s ! ?k)" "semval (sems s ! ?k) \<le> sim_semvmx (seminfo s)"
    using k inv(2) by (auto simp: vals_def val_ok_def)
  have step: ?case if "progress slot i base (op # did) s0 s1" "undoes slot i base (op # did) s1 s0"
    "semop_loop s slot i base did (op # ops) = semop_loop s1 slot i base (op # did) ops" for s1
  proof -
    from Cons.IH [OF that(1,2)] Cons.prems(3) obtain r s' where
      "semop_loop s1 slot i base (op # did) ops = Some (r, s')" "loop_result slot i base (op # did) ops s0 r s'" by auto
    with that(3) show ?thesis using loop_result_Cons by metis
  qed
  have stop: ?case if "semop_loop s slot i base did (op # ops) = Some (SErr e, t)" "unchanged s0 t" "refused s0 base did op e" for e t
    using that loop_result_stop(1) by blast
  have wait: ?case if "semop_loop s slot i base did (op # ops) = Some (SWait ch, t)" "unchanged s0 t" "counted s0 t ch"
    "sem_flg op AND IPC_NOWAIT = 0" "blocks s0 base did op ch" for ch t
    using that loop_result_stop(2) by blast
  consider (big) "?v > 0" "?v + semval (sems s ! ?k) > sim_semvmx (seminfo s)"
    | (fits) "?v \<noteq> 0" "0 \<le> vals s ! ?k + ?v" "vals s ! ?k + ?v \<le> sim_semvmx (seminfo s)"
    | (small) "?v < 0" "semval (sems s ! ?k) + ?v < 0" | (nonzero) "?v = 0" "semval (sems s ! ?k) \<noteq> 0"
    | (zero) "?v = 0" "semval (sems s ! ?k) = 0"
    using vk by linarith
  then show ?case
  proof cases
    case big
    have "rest_of s0 s" using p by blast
    from semundo_back [OF Cons.prems(2) inv(1) alike_refl this]
    obtain t where t: "semundo s slot i base did = Some t" "unchanged s0 t" unfolding unchanged_def by metis
    show ?thesis
      by (rule stop [of ERANGE t]) (use big t k w info in \<open>auto simp: rd_in refused_def\<close>)
  next
    case fits
    from loop_apply [OF Cons.prems(1,2) k0 fits] show ?thesis
    proof (elim disjE exE conjE)
      fix e t t'
      assume a: "(if undo_flag op then semaoe s slot ?v i (sem_num op) else (None, s)) = (Some e, t)"
        "semundo t slot i base did = Some t'" "unchanged s0 t'" "refused s0 base did op e"
      show ?thesis by (rule stop [OF _ a(3,4)]) (use fits vk k a(1,2) in \<open>auto simp: rd_in Let_def\<close>)
    next
      fix t s1
      assume a: "(if undo_flag op then semaoe s slot ?v i (sem_num op) else (None, s)) = (None, t)"
        "\<forall>f :: semst \<Rightarrow> (semres \<times> semst) option. (do {
            s \<leftarrow> set_sem t ?k (\<lambda>p. p\<lparr>semval := u16 (semval p + ?v)\<rparr>);
            s \<leftarrow> if ?v > 0 then wake_n ?k s else Some s;
            p \<leftarrow> rd (sems s) ?k;
            s \<leftarrow> if semval p = 0 then wake_z ?k s else Some s;
            f s }) = f s1"
        "progress slot i base (op # did) s0 s1" "undoes slot i base (op # did) s1 s0"
      note eq = spec [OF a(2), of "\<lambda>s. semop_loop s slot i base (op # did) ops"]
      show ?thesis
      proof (rule step [OF a(3,4)], cases "?v > 0")
        case True
        with fits vk k a(1) eq show "semop_loop s slot i base did (op # ops) = semop_loop s1 slot i base (op # did) ops"
          by (simp add: rd_in)
      next
        case False
        with fits vk k a(1) eq show "semop_loop s slot i base did (op # ops) = semop_loop s1 slot i base (op # did) ops"
          by (simp add: rd_in)
      qed
    qed
  next
    case small
    then have b: "blocks s0 base did op (NCnt ?k)" using w by (simp add: blocks_def)
    obtain t where t: "semundo s slot i base did = Some t" "unchanged s0 t"
      "\<exists>t'. set_sem t ?k (\<lambda>p. p\<lparr>semncnt := u16 (semncnt p + 1)\<rparr>) = Some t' \<and> unchanged s0 t' \<and> counted s0 t' (NCnt ?k)"
      using loop_wait [OF Cons.prems(1,2) b k0] by (elim exE conjE) simp
    show ?thesis
    proof (cases "sem_flg op AND IPC_NOWAIT = 0")
      case True
      from t(3) obtain t' where t': "set_sem t ?k (\<lambda>p. p\<lparr>semncnt := u16 (semncnt p + 1)\<rparr>) = Some t'" "unchanged s0 t'" "counted s0 t' (NCnt ?k)" by blast
      show ?thesis by (rule wait [OF _ t'(2,3) True b]) (use small k t(1) t'(1) True in \<open>simp add: rd_in\<close>)
    next
      case False
      show ?thesis by (rule stop [OF _ t(2), of EAGAIN]) (use small k t(1) False b in \<open>auto simp: rd_in refused_def\<close>)
    qed
  next
    case nonzero
    then have b: "blocks s0 base did op (ZCnt ?k)" using w by (simp add: blocks_def)
    obtain t where t: "semundo s slot i base did = Some t" "unchanged s0 t"
      "\<exists>t'. set_sem t ?k (\<lambda>p. p\<lparr>semzcnt := u16 (semzcnt p + 1)\<rparr>) = Some t' \<and> unchanged s0 t' \<and> counted s0 t' (ZCnt ?k)"
      using loop_wait [OF Cons.prems(1,2) b k0] by (elim exE conjE) simp
    show ?thesis
    proof (cases "sem_flg op AND IPC_NOWAIT = 0")
      case True
      from t(3) obtain t' where t': "set_sem t ?k (\<lambda>p. p\<lparr>semzcnt := u16 (semzcnt p + 1)\<rparr>) = Some t'" "unchanged s0 t'" "counted s0 t' (ZCnt ?k)" by blast
      show ?thesis by (rule wait [OF _ t'(2,3) True b]) (use nonzero k t(1) t'(1) True in \<open>simp add: rd_in\<close>)
    next
      case False
      show ?thesis by (rule stop [OF _ t(2), of EAGAIN]) (use nonzero k t(1) False b in \<open>auto simp: rd_in refused_def\<close>)
    qed
  next
    case zero
    note z = did_op_zero [OF inv(1) zero(1) k inv(2)]
    show ?thesis
      by (rule step [OF progress_step [OF Cons.prems(1) z] undoes_Cons [OF Cons.prems(2) inv z(1)]])
         (use zero k in \<open>simp add: rd_in\<close>)
  qed
qed


lemma semop_pids_spec:
  assumes "\<forall>op\<in>set ops. base + sem_num op < length (sems s)"
  shows "\<exists>s'. semop_pids s pid base ops = Some s' \<and> vals s' = vals s \<and> ents s' = ents s \<and> un_inv s' = un_inv s \<and> waits s' = waits s
    \<and> sema s' = sema s \<and> semmap s' = semmap s \<and> seminfo s' = seminfo s \<and> sem_now s' = sem_now s \<and> sem_waked s' = sem_waked s
    \<and> (\<forall>j<length (sems s). sempid (sems s' ! j) = (if \<exists>op\<in>set ops. base + sem_num op = j then pid else sempid (sems s ! j)))"
  using assms
proof (induction ops arbitrary: s)
  case Nil
  then show ?case by simp
next
  case (Cons op ops)
  let ?k = "base + sem_num op"
  define t where "t = s\<lparr>sems := (sems s)[?k := (sems s ! ?k)\<lparr>sempid := pid\<rparr>]\<rparr>"
  have k: "?k < length (sems s)" using Cons.prems by simp
  have st: "semop_pids s pid base (op # ops) = semop_pids t pid base ops" using k by (simp add: set_sem_in t_def)
  have t: "vals t = vals s" "ents t = ents s" "un_inv t = un_inv s" "waits t = waits s" "sema t = sema s" "semmap t = semmap s"
    "seminfo t = seminfo s" "sem_now t = sem_now s" "sem_waked t = sem_waked s" "length (sems t) = length (sems s)"
    using k by (simp_all add: t_def vals_def waits_def map_upd_same)
  have pid: "sempid (sems t ! j) = (if j = ?k then pid else sempid (sems s ! j))" if "j < length (sems s)" for j
    using that by (simp add: t_def nth_upd)
  from Cons.IH [of t] Cons.prems t(10) obtain s' where s': "semop_pids t pid base ops = Some s'" "vals s' = vals t" "ents s' = ents t"
    "un_inv s' = un_inv t" "waits s' = waits t" "sema s' = sema t" "semmap s' = semmap t" "seminfo s' = seminfo t" "sem_now s' = sem_now t"
    "sem_waked s' = sem_waked t"
    "\<forall>j<length (sems t). sempid (sems s' ! j) = (if \<exists>op\<in>set ops. base + sem_num op = j then pid else sempid (sems t ! j))"
    by auto
  then show ?case unfolding st using t pid by auto
qed

text \<open>A pass as a whole.\<close>

definition pass_done :: "ucall \<Rightarrow> int \<Rightarrow> nat \<Rightarrow> sembuf list \<Rightarrow> semst \<Rightarrow> semst \<Rightarrow> bool" where
  "pass_done u i base ops s s' \<longleftrightarrow>
     (\<forall>j<length (sems s). vals s' ! j = vals s ! j + tot base ops j)
     \<and> (\<forall>q x. aoe (ents s' q) x = aoe (ents s q) x -
          (if q = u_slot u \<and> fst x = i then tot 0 (filter undo_flag ops) (snd x) else 0))
     \<and> woken base ops s s'
     \<and> (\<forall>op\<in>set ops. sempid (sems s' ! (base + sem_num op)) = u_pid u)"

definition pass_result :: "ucall \<Rightarrow> int \<Rightarrow> nat \<Rightarrow> sembuf list \<Rightarrow> semst \<Rightarrow> semres \<Rightarrow> semst \<Rightarrow> bool" where
  "pass_result u i base ops s r s' \<longleftrightarrow> (case r of
      SDone \<Rightarrow> pass_done u i base ops s s'
    | SErr e \<Rightarrow> vals s' = vals s \<and> ents s' = ents s
        \<and> (\<exists>pre op post. ops = pre @ op # post \<and> refused s base pre op e)
    | SWait ch \<Rightarrow> vals s' = vals s \<and> ents s' = ents s \<and> counted s s' ch
        \<and> (\<exists>pre op post. ops = pre @ op # post \<and> sem_flg op AND IPC_NOWAIT = 0 \<and> blocks s base pre op ch))"

lemma rev_ops: "blocks s base (rev pre) op ch = blocks s base pre op ch" "refused s base (rev pre) op e = refused s base pre op e"
    "woken base (rev ops) s s' = woken base ops s s'"
  by (simp_all add: blocks_def refused_def woken_def tot_rev)

lemma val_ok_same: "vals s' = vals s \<Longrightarrow> seminfo s' = seminfo s \<Longrightarrow> val_ok s' = val_ok s"
  by (simp add: val_ok_def)

lemma woken_same:
  assumes "woken base ops s0 s" "vals s' = vals s" "waits s' = waits s" "sem_waked s' = sem_waked s" "length (sems s) = length (sems s0)"
  shows "woken base ops s0 s'"
proof -
  have len: "length (sems s') = length (sems s)" using assms(2) by (metis vals_length)
  have "ncnt s' j = ncnt s j" "zcnt s' j = zcnt s j" if "j < length (sems s0)" for j
    using arg_cong [OF assms(3), of "\<lambda>w. w ! j"] that len assms(5) by (simp_all add: waits_def ncnt_def zcnt_def)
  then show ?thesis using assms(1,2,4) by (simp add: woken_def)
qed

lemma semop_pass_spec:
  assumes "un_inv s" "val_ok s" "\<forall>op\<in>set ops. sem_base (sema s ! k) + sem_num op < length (sems s)"
  shows "\<exists>r s'. semop_pass s u i k ops = Some (r, s') \<and> pass_result u i (sem_base (sema s ! k)) ops s r s'
    \<and> un_inv s' \<and> val_ok s' \<and> seminfo s' = seminfo s \<and> semmap s' = semmap s \<and> length (sems s') = length (sems s)
    \<and> (\<exists>t. sema s' = (sema s)[k := (sema s ! k)\<lparr>sem_otime := t\<rparr>])"
proof -
  let ?base = "sem_base (sema s ! k)"
  obtain r t where loop: "semop_loop s (u_slot u) i ?base [] ops = Some (r, t)" and res: "loop_result (u_slot u) i ?base [] ops s r t"
    using semop_loop_spec [OF progress_refl [OF assms(1,2)] undoes_Nil assms(3)] by blast
  have same: "\<exists>x. sema s = (sema s)[k := (sema s ! k)\<lparr>sem_otime := x\<rparr>]"
    by (rule exI [of _ "sem_otime (sema s ! k)"]) simp
  have keep: "un_inv t \<and> val_ok t \<and> seminfo t = seminfo s \<and> semmap t = semmap s \<and> length (sems t) = length (sems s) \<and> sema t = sema s
      \<and> vals t = vals s \<and> ents t = ents s" if "unchanged s t"
    using that assms(2) vals_length [of t] vals_length [of s] by (auto simp: unchanged_def rest_of_def val_ok_def simp del: vals_length)
  show ?thesis
  proof (cases r)
    case SDone
    then have p: "progress (u_slot u) i ?base (rev ops) s t" using res by (simp add: loop_result_def)
    then have t: "un_inv t" "val_ok t" "rest_of s t" "length (sems t) = length (sems s)" "woken ?base ops s t"
      "\<forall>j<length (sems s). vals t ! j = vals s ! j + tot ?base ops j"
      "\<forall>q x. aoe (ents t q) x = aoe (ents s q) x - (if q = u_slot u \<and> fst x = i then tot 0 (filter undo_flag ops) (snd x) else 0)"
      by (simp_all add: progress_def rev_ops tot_rev rev_filter [symmetric])
    from semop_pids_spec [of ops ?base t "u_pid u"] assms(3) t(4) obtain t' where
      t': "semop_pids t (u_pid u) ?base ops = Some t'" "vals t' = vals t" "ents t' = ents t" "un_inv t' = un_inv t" "waits t' = waits t"
        "sema t' = sema t" "semmap t' = semmap t" "seminfo t' = seminfo t" "sem_now t' = sem_now t" "sem_waked t' = sem_waked t"
        "\<forall>j<length (sems t). sempid (sems t' ! j) = (if \<exists>op\<in>set ops. ?base + sem_num op = j then u_pid u else sempid (sems t ! j))"
      by auto
    define s' where "s' = t'\<lparr>sema := (sema t')[k := (sema t' ! k)\<lparr>sem_otime := sem_now t'\<rparr>]\<rparr>"
    have run: "semop_pass s u i k ops = Some (SDone, s')"
      using loop SDone t'(1) by (simp add: semop_pass_def s'_def)
    have s': "vals s' = vals t" "ents s' = ents t" "un_inv s'" "waits s' = waits t" "sems s' = sems t'" "sem_waked s' = sem_waked t"
      "semmap s' = semmap s" "seminfo s' = seminfo s" "sema s' = (sema s)[k := (sema s ! k)\<lparr>sem_otime := sem_now t'\<rparr>]"
      using t(1,3) t' by (simp_all add: s'_def vals_def waits_def ents_def un_inv_def fun_eq_iff rest_of_def cong: option.case_cong)
    have "woken ?base ops s s'" using woken_same [OF t(5) s'(1,4,6) t(4)] .
    moreover have "\<forall>op\<in>set ops. sempid (sems s' ! (?base + sem_num op)) = u_pid u" using t'(11) assms(3) t(4) s'(5) by auto
    ultimately have "pass_done u i ?base ops s s'" using t(6,7) s'(1,2) by (simp add: pass_done_def)
    moreover have "val_ok s'" using val_ok_same [OF s'(1)] t(2,3) s'(8) by (simp add: rest_of_def)
    moreover have "length (sems s') = length (sems s)" using s'(1) t(4) by (metis vals_length)
    ultimately show ?thesis unfolding run using s' by (auto simp: pass_result_def)
  next
    case (SErr e)
    then have run: "semop_pass s u i k ops = Some (SErr e, t)" using loop by (simp add: semop_pass_def)
    from res SErr have "unchanged s t" "\<exists>pre op post. ops = pre @ op # post \<and> refused s ?base pre op e"
      by (auto simp: loop_result_def rev_ops)
    then show ?thesis unfolding run using keep same by (simp add: pass_result_def)
  next
    case (SWait ch)
    then have run: "semop_pass s u i k ops = Some (SWait ch, t)" using loop by (simp add: semop_pass_def)
    from res SWait have "unchanged s t" "counted s t ch"
      "\<exists>pre op post. ops = pre @ op # post \<and> sem_flg op AND IPC_NOWAIT = 0 \<and> blocks s ?base pre op ch"
      by (auto simp: loop_result_def rev_ops)
    then show ?thesis unfolding run using keep same by (simp add: pass_result_def)
  qed
qed

end
