(* ===== verification/KSemSys.thy ===== *)
theory KSemSys
  imports KSem
begin

text \<open>
  The semaphore facility as a whole: the invariant that ties together the identifiers, the array of
  semaphores carved up by the resource map, and the adjust-on-exit entries; that every system call,
  every wakeup, signal and process exit keeps it and returns; and the properties of the calls that
  rest on it.
\<close>

section \<open>The invariant\<close>

text \<open>
  What identifies a set: whether its entry is in use, the sequence number, the key and the region
  of the array of semaphores.
\<close>

definition core :: "semid_ds \<Rightarrow> bool \<times> nat \<times> int \<times> nat \<times> nat" where
  "core ds = (allocd (sem_perm ds), seq (sem_perm ds), key (sem_perm ds), sem_base ds, sem_nsems ds)"

definition sregion :: "semid_ds \<Rightarrow> nat \<times> nat" where
  "sregion ds = (sem_base ds + 1, sem_nsems ds)"

definition slive :: "semid_ds list \<Rightarrow> nat set" where
  "slive tab = {k. k < length tab \<and> allocd (sem_perm (tab ! k))}"

definition tab_inv :: "seminfo_t \<Rightarrow> semid_ds list \<Rightarrow> rmap \<Rightarrow> nat \<Rightarrow> bool" where
  "tab_inv si tab m n \<longleftrightarrow> 0 < length tab \<and> length tab = sim_semmni si \<and> sim_semmni si \<le> 32768
     \<and> n = sim_semmns si \<and> n < 4294967295 \<and> sim_semmsl si \<le> 65535
     \<and> keys_unique (map sem_perm tab)
     \<and> rm.holds m ((\<lambda>k. sregion (tab ! k)) ` slive tab)
     \<and> inj_on (\<lambda>k. sregion (tab ! k)) (slive tab)
     \<and> (\<forall>k\<in>slive tab. sem_base (tab ! k) + sem_nsems (tab ! k) \<le> n)
     \<and> free_units m \<subseteq> {1..n}
     \<and> (\<forall>k<length tab. seq (sem_perm (tab ! k)) * sim_semmni si + k \<le> 32767)"

definition ents_live :: "semst \<Rightarrow> bool" where
  "ents_live s \<longleftrightarrow> (\<forall>q. \<forall>e\<in>set (ents s q). \<exists>k. semconv s (un_id e) = Some k \<and> un_num e < sem_nsems (sema s ! k))"

text \<open>
  \<open>sem_ok L\<close> is the invariant of the facility. Its last conjunct, that the adjustments are about semaphores of existing sets, depends on
  the processes that are woken giving operations within the set again, since the code does not check them a second time; \<open>L\<close> says
  whether they do.
\<close>

definition sem_ok :: "bool \<Rightarrow> semst \<Rightarrow> bool" where
  "sem_ok L s \<longleftrightarrow> tab_inv (seminfo s) (sema s) (semmap s) (length (sems s)) \<and> un_inv s \<and> val_ok s \<and> (L \<longrightarrow> ents_live s)"

abbreviation sem_inv :: "semst \<Rightarrow> bool" where
  "sem_inv \<equiv> sem_ok True"

lemma sem_okD:
  assumes "sem_ok L s"
  shows "tab_inv (seminfo s) (sema s) (semmap s) (length (sems s))" "un_inv s" "val_ok s" "L \<Longrightarrow> ents_live s"
  using assms by (simp_all add: sem_ok_def)

lemma tab_invD:
  assumes "tab_inv si tab m n"
  shows "0 < length tab" "length tab = sim_semmni si" "sim_semmni si \<le> 32768" "n = sim_semmns si" "n < 4294967295" "sim_semmsl si \<le> 65535"
    "keys_unique (map sem_perm tab)" "rm.holds m ((\<lambda>k. sregion (tab ! k)) ` slive tab)"
    "inj_on (\<lambda>k. sregion (tab ! k)) (slive tab)" "k \<in> slive tab \<Longrightarrow> sem_base (tab ! k) + sem_nsems (tab ! k) \<le> n"
    "free_units m \<subseteq> {1..n}" "k < length tab \<Longrightarrow> seq (sem_perm (tab ! k)) * sim_semmni si + k \<le> 32767"
  using assms unfolding tab_inv_def by blast+

lemma coreD:
  assumes "core d = core e"
  shows "allocd (sem_perm d) = allocd (sem_perm e)" "seq (sem_perm d) = seq (sem_perm e)" "key (sem_perm d) = key (sem_perm e)"
    "sem_base d = sem_base e" "sem_nsems d = sem_nsems e" "sregion d = sregion e"
  using assms by (simp_all add: core_def sregion_def)

lemma map_coreD:
  assumes "map core tab' = map core tab"
  shows "length tab' = length tab" "k < length tab \<Longrightarrow> core (tab' ! k) = core (tab ! k)"
  using arg_cong [OF assms, of length] arg_cong [OF assms, of "\<lambda>l. l ! k"] by auto

lemma slive_core: "map core tab' = map core tab \<Longrightarrow> slive tab' = slive tab"
  unfolding slive_def by (rule Collect_cong) (metis coreD(1) map_coreD)

lemma tab_inv_core:
  assumes "tab_inv si tab m n" "map core tab' = map core tab"
  shows "tab_inv si tab' m n"
proof -
  note c = map_coreD [OF assms(2)]
  note e = coreD [OF c(2)]
  have live: "slive tab' = slive tab" by (rule slive_core [OF assms(2)])
  have reg: "sregion (tab' ! k) = sregion (tab ! k)" if "k \<in> slive tab" for k using that e(6) by (simp add: slive_def)
  have "keys_unique (map sem_perm tab')" using tab_invD(7) [OF assms(1)] c(1) e unfolding keys_unique_def by simp
  moreover have "(\<lambda>k. sregion (tab' ! k)) ` slive tab = (\<lambda>k. sregion (tab ! k)) ` slive tab" using reg by (intro image_cong) auto
  moreover have "inj_on (\<lambda>k. sregion (tab' ! k)) (slive tab)" using tab_invD(9) [OF assms(1)] reg by (simp add: inj_on_def)
  moreover have "sem_base (tab' ! k) + sem_nsems (tab' ! k) \<le> n" if "k \<in> slive tab" for k
    using tab_invD(10) [OF assms(1) that] that e by (simp add: slive_def)
  ultimately show ?thesis using tab_invD [OF assms(1)] c(1) e(2) unfolding tab_inv_def live by simp
qed

text \<open>Identifiers.\<close>

lemma semconv_iff:
  assumes "tab_inv (seminfo s) (sema s) m n"
  shows "semconv s i = Some k \<longleftrightarrow> k \<in> slive (sema s) \<and> i = int (seq (sem_perm (sema s ! k)) * sim_semmni (seminfo s) + k)"
proof -
  let ?n = "sim_semmni (seminfo s)"
  have n: "0 < ?n" "length (sema s) = ?n" using tab_invD(1,2) [OF assms] by auto
  show ?thesis
  proof
    assume c: "semconv s i = Some k"
    then have d: "0 \<le> i" "k = nat i mod ?n" "allocd (sem_perm (sema s ! k))" "nat i div ?n = seq (sem_perm (sema s ! k))"
      by (auto simp: semconv_def Let_def allocd_def split: if_splits)
    then have "nat i = seq (sem_perm (sema s ! k)) * ?n + k" by (metis div_mult_mod_eq)
    then have "i = int (seq (sem_perm (sema s ! k)) * ?n + k)" using d(1) by linarith
    moreover have "k < length (sema s)" using d(2) n by simp
    ultimately show "k \<in> slive (sema s) \<and> i = int (seq (sem_perm (sema s ! k)) * ?n + k)" using d(3) by (simp add: slive_def)
  next
    assume c: "k \<in> slive (sema s) \<and> i = int (seq (sem_perm (sema s ! k)) * ?n + k)"
    then have "nat i mod ?n = k" "nat i div ?n = seq (sem_perm (sema s ! k))" "0 \<le> i" using n
      by (auto simp: slive_def nat_int simp del: of_nat_add of_nat_mult)
    then show "semconv s i = Some k" using c by (auto simp: semconv_def slive_def allocd_def)
  qed
qed

lemma semconv_core:
  assumes "map core (sema s') = map core (sema s)" "seminfo s' = seminfo s" "tab_inv (seminfo s) (sema s) m n"
  shows "semconv s' i = semconv s i"
proof -
  have t: "tab_inv (seminfo s') (sema s') m n" unfolding assms(2) by (rule tab_inv_core [OF assms(3,1)])
  have live: "slive (sema s') = slive (sema s)" by (rule slive_core [OF assms(1)])
  have "seq (sem_perm (sema s' ! k)) = seq (sem_perm (sema s ! k))" if "k \<in> slive (sema s)" for k
    using that coreD(2) [OF map_coreD(2) [OF assms(1)]] by (simp add: slive_def)
  then have "semconv s' i = Some k \<longleftrightarrow> semconv s i = Some k" for k
    unfolding semconv_iff [OF t] semconv_iff [OF assms(3)] live assms(2) by auto
  then show ?thesis by (metis option.exhaust)
qed

text \<open>Steps that leave the sets as they are.\<close>

lemma sem_inv_same:
  assumes "sem_ok L s" "map core (sema s') = map core (sema s)" "seminfo s' = seminfo s" "semmap s' = semmap s"
    "length (sems s') = length (sems s)" "un_inv s'" "val_ok s'"
    "\<And>q e. L \<Longrightarrow> e \<in> set (ents s' q) \<Longrightarrow> (\<exists>f\<in>set (ents s q). uk f = uk e) \<or> (\<exists>k. semconv s (un_id e) = Some k \<and> un_num e < sem_nsems (sema s ! k))"
  shows "sem_ok L s'"
proof -
  note i = sem_okD [OF assms(1)]
  have t: "tab_inv (seminfo s') (sema s') (semmap s') (length (sems s'))"
    using tab_inv_core [OF i(1) assms(2)] assms(3-5) by simp
  have "\<exists>k. semconv s' (un_id e) = Some k \<and> un_num e < sem_nsems (sema s' ! k)" if L and e: "e \<in> set (ents s' q)" for q e
  proof -
    from assms(8) [OF \<open>L\<close> e] i(4) [OF \<open>L\<close>] obtain k where k: "semconv s (un_id e) = Some k" "un_num e < sem_nsems (sema s ! k)"
      unfolding ents_live_def by (metis prod.inject uk_def)
    have "k < length (sema s)" using k(1) by (simp add: semconv_iff [OF i(1)] slive_def)
    then show ?thesis using k semconv_core [OF assms(2,3) i(1)] coreD(5) [OF map_coreD(2) [OF assms(2)]] by auto
  qed
  with t assms(6,7) show ?thesis by (simp add: sem_ok_def ents_live_def)
qed

lemma core_upd: "core d = core (tab ! k) \<Longrightarrow> map core (tab[k := d]) = map core tab"
  by (metis list_update_id map_update)


section \<open>Removing entries\<close>

text \<open>
  \<^verbatim>\<open>semunrm\<close> leaves each loop at the first entry beyond the range; because the entries are sorted this
  removes exactly the entries in the range, from every structure.
\<close>

abbreviation in_range :: "int \<Rightarrow> nat \<Rightarrow> nat \<Rightarrow> undo \<Rightarrow> bool" where
  "in_range i low high e \<equiv> un_id e = i \<and> low \<le> un_num e \<and> un_num e \<le> high"

lemma un_remove_filter:
  assumes "tab_ok es"
  shows "un_remove i low high es = filter (\<lambda>e. \<not> in_range i low high e) es"
  using assms
proof (induction es)
  case Nil
  then show ?case by simp
next
  case (Cons e es)
  then have ok: "tab_ok es" "\<forall>f\<in>set es. uk e < uk f" by (simp_all add: tab_ok_Cons)
  have beyond: "filter (\<lambda>e. \<not> in_range i low high e) es = es" if "i < un_id e \<or> i = un_id e \<and> high < un_num e"
    using ok(2) that by (auto simp: filter_id_conv uk_def)
  show ?case using Cons.IH [OF ok(1)] beyond by auto
qed

lemma semunrm_chain_spec:
  assumes "distinct ps"
  shows "semunrm_chain i low high ent ps =
    (\<lambda>u. if u \<in> set ps then un_remove i low high (ent u) else ent u, filter (\<lambda>p. un_remove i low high (ent p) \<noteq> []) ps)"
  using assms
proof (induction ps arbitrary: ent)
  case Nil
  then show ?case by simp
next
  case (Cons p ps)
  let ?ent = "ent(p := un_remove i low high (ent p))"
  have tail: "semunrm_chain i low high ?ent ps = (\<lambda>u. if u \<in> set ps then un_remove i low high (?ent u) else ?ent u,
      filter (\<lambda>p. un_remove i low high (?ent p) \<noteq> []) ps)" using Cons by simp
  have same: "filter (\<lambda>p. un_remove i low high (?ent p) \<noteq> []) ps = filter (\<lambda>p. un_remove i low high (ent p) \<noteq> []) ps"
    using Cons.prems by (intro filter_cong) auto
  show ?case unfolding semunrm_chain.simps Let_def tail prod.case same using Cons.prems by (auto simp: fun_eq_iff)
qed

lemma tab_bound_filter: "tab_bound si es \<Longrightarrow> tab_bound si (filter P es)"
  by (auto simp: tab_bound_def tab_ok_def sorted_wrt_map sorted_wrt_filter intro: order_trans [OF length_filter_le])

lemma semunrm_spec:
  assumes "un_inv s"
  shows "un_inv (semunrm s i low high)" "same_sems s (semunrm s i low high)"
    "ents (semunrm s i low high) = (\<lambda>q. filter (\<lambda>e. \<not> in_range i low high e) (ents s q))"
proof -
  note inv = un_invD [OF assms]
  have rm: "un_remove i low high (semu_ent s u) = filter (\<lambda>e. \<not> in_range i low high e) (semu_ent s u)" for u
    using inv(3) [of u] by (intro un_remove_filter) (simp add: tab_bound_def)
  have ent: "(\<lambda>u. if u \<in> set (semunp s) then un_remove i low high (semu_ent s u) else semu_ent s u) =
      (\<lambda>u. filter (\<lambda>e. \<not> in_range i low high e) (semu_ent s u))" using inv(8) by (auto simp: fun_eq_iff rm)
  have eq: "semunrm s i low high = s\<lparr>semu_ent := (\<lambda>u. filter (\<lambda>e. \<not> in_range i low high e) (semu_ent s u)),
      semunp := filter (\<lambda>p. filter (\<lambda>e. \<not> in_range i low high e) (semu_ent s p) \<noteq> []) (semunp s)\<rparr>"
    unfolding semunrm_def semunrm_chain_spec [OF inv(7)] ent unfolding rm by simp
  show "same_sems s (semunrm s i low high)" by (simp add: eq same_sems_def)
  show "ents (semunrm s i low high) = (\<lambda>q. filter (\<lambda>e. \<not> in_range i low high e) (ents s q))"
    by (auto simp: eq ents_def fun_eq_iff split: option.splits)
  have ne: "filter P (semu_ent s u) \<noteq> [] \<Longrightarrow> semu_ent s u \<noteq> []" for P u by auto
  show "un_inv (semunrm s i low high)"
    unfolding un_inv_def eq using inv tab_bound_filter ne by (simp add: disj_commute) (metis (no_types, lifting) filter.simps(1))
qed

section \<open>Storing values\<close>

text \<open>Steps that change only the semaphores themselves.\<close>

definition steady :: "semst \<Rightarrow> semst \<Rightarrow> bool" where
  "steady s s' \<longleftrightarrow> sema s' = sema s \<and> semmap s' = semmap s \<and> seminfo s' = seminfo s \<and> sem_now s' = sem_now s
     \<and> ents s' = ents s \<and> un_inv s' = un_inv s
     \<and> sem_undo s' = sem_undo s \<and> semfup s' = semfup s \<and> semunp s' = semunp s \<and> semu_ent s' = semu_ent s
     \<and> length (sems s') = length (sems s) \<and> set (sem_waked s) \<subseteq> set (sem_waked s')"

lemma steady_refl [simp]: "steady s s"
  by (simp add: steady_def)

lemma steady_trans: "steady s t \<Longrightarrow> steady t u \<Longrightarrow> steady s u"
  unfolding steady_def by auto

lemma set_sem_steady:
  assumes "k < length (sems s)"
  obtains s' where "set_sem s k f = Some s'" "steady s s'" "vals s' = (vals s)[k := semval (f (sems s ! k))]"
    "sems s' = (sems s)[k := f (sems s ! k)]"
  using assms by (intro that [of "s\<lparr>sems := (sems s)[k := f (sems s ! k)]\<rparr>"])
    (simp_all add: set_sem_in vals_upd steady_def)

lemma wake_steady:
  assumes "k < length (sems s)"
  shows "\<exists>s'. wake_n k s = Some s' \<and> steady s s' \<and> vals s' = vals s"
    "\<exists>s'. wake_z k s = Some s' \<and> steady s s' \<and> vals s' = vals s"
  using assms quiet_sem [of k s "(sems s ! k)\<lparr>semncnt := 0\<rparr>" "NCnt k # sem_waked s"] quiet_sem [of k s "(sems s ! k)\<lparr>semzcnt := 0\<rparr>" "ZCnt k # sem_waked s"]
  by (auto simp: wake_n_def wake_z_def rd_in steady_def quiet_def)

lemma sem_store_spec:
  assumes "k < length (sems s)"
  shows "\<exists>s'. sem_store s k v pid = Some s' \<and> steady s s' \<and> vals s' = (vals s)[k := u16 v]"
proof -
  obtain s1 where s1: "set_sem s k (\<lambda>p. p\<lparr>semval := u16 v\<rparr>) = Some s1" "steady s s1" "vals s1 = (vals s)[k := u16 v]"
    using set_sem_steady [OF assms, of "\<lambda>p. p\<lparr>semval := u16 v\<rparr>"] by auto
  have k1: "k < length (sems s1)" using s1(2) assms by (simp add: steady_def)
  obtain s2 where s2: "(if u16 v \<noteq> 0 then wake_n k s1 else wake_z k s1) = Some s2" "steady s1 s2" "vals s2 = vals s1"
    using wake_steady [OF k1] by (cases "u16 v = 0") auto
  have k2: "k < length (sems s2)" using s2(2) k1 by (simp add: steady_def)
  obtain s3 where s3: "set_sem s2 k (\<lambda>p. p\<lparr>sempid := pid\<rparr>) = Some s3" "steady s2 s3" "vals s3 = vals s2"
  proof (rule set_sem_steady [OF k2, of "\<lambda>p. p\<lparr>sempid := pid\<rparr>"])
    fix s3 assume a: "set_sem s2 k (\<lambda>p. p\<lparr>sempid := pid\<rparr>) = Some s3" "steady s2 s3"
      "vals s3 = (vals s2)[k := semval ((sems s2 ! k)\<lparr>sempid := pid\<rparr>)]"
    have "vals s3 = vals s2" unfolding a(3) by (simp add: vals_nth [OF k2, symmetric])
    with a(1,2) show thesis by (rule that)
  qed
  have "sem_store s k v pid = Some s3" using s1(1) s2(1) s3(1) by (simp add: sem_store_def)
  then show ?thesis using s1 s2 s3 steady_trans by metis
qed

lemma sem_storeall_spec:
  assumes "k + length vs \<le> length (sems s)"
  shows "\<exists>s'. sem_storeall s k vs pid = Some s' \<and> steady s s'
    \<and> (\<forall>j<length (sems s). vals s' ! j = (if k \<le> j \<and> j < k + length vs then u16 (vs ! (j - k)) else vals s ! j))"
  using assms
proof (induction vs arbitrary: s k)
  case Nil
  then show ?case by simp
next
  case (Cons v vs)
  have k: "k < length (sems s)" using Cons.prems by simp
  from sem_store_spec [OF k] obtain s1 where s1: "sem_store s k v pid = Some s1" "steady s s1" "vals s1 = (vals s)[k := u16 v]" by blast
  have len: "length (sems s1) = length (sems s)" using s1(2) by (simp add: steady_def)
  from Cons.IH [of "Suc k" s1] Cons.prems len obtain s' where s': "sem_storeall s1 (Suc k) vs pid = Some s'" "steady s1 s'"
    "\<forall>j<length (sems s). vals s' ! j = (if Suc k \<le> j \<and> j < Suc k + length vs then u16 (vs ! (j - Suc k)) else vals s1 ! j)" by auto
  have "vals s' ! j = (if k \<le> j \<and> j < k + length (v # vs) then u16 ((v # vs) ! (j - k)) else vals s ! j)" if "j < length (sems s)" for j
    using s'(3) s1(3) that by (auto simp: nth_upd nth_Cons' le_Suc_eq Suc_le_eq)
  moreover have "sem_storeall s k (v # vs) pid = Some s'" using s1(1) s'(1) by simp
  ultimately show ?case using steady_trans [OF s1(2) s'(2)] by blast
qed

lemma sem_clear_spec:
  assumes "k + n \<le> length (sems s)"
  shows "\<exists>s'. sem_clear s k n = Some s' \<and> steady s s'
    \<and> (\<forall>j<length (sems s). vals s' ! j = (if k \<le> j \<and> j < k + n then 0 else vals s ! j))"
  using assms
proof (induction n arbitrary: s k)
  case 0
  then show ?case by simp
next
  case (Suc n)
  have k: "k < length (sems s)" using Suc.prems by simp
  obtain s1 where s1: "set_sem s k (\<lambda>p. p\<lparr>semval := 0, sempid := 0\<rparr>) = Some s1" "steady s s1" "vals s1 = (vals s)[k := 0]"
    using set_sem_steady [OF k, of "\<lambda>p. p\<lparr>semval := 0, sempid := 0\<rparr>"] by auto
  have k1: "k < length (sems s1)" using s1(2) k by (simp add: steady_def)
  obtain s2 where s2: "wake_n k s1 = Some s2" "steady s1 s2" "vals s2 = vals s1" using wake_steady(1) [OF k1] by blast
  have k2: "k < length (sems s2)" using s2(2) k1 by (simp add: steady_def)
  obtain s3 where s3: "wake_z k s2 = Some s3" "steady s2 s3" "vals s3 = vals s2" using wake_steady(2) [OF k2] by blast
  have st: "steady s s3" using s1(2) s2(2) s3(2) steady_trans by blast
  then have len: "length (sems s3) = length (sems s)" by (simp add: steady_def)
  from Suc.IH [of "Suc k" s3] Suc.prems len obtain s' where s': "sem_clear s3 (Suc k) n = Some s'" "steady s3 s'"
    "\<forall>j<length (sems s). vals s' ! j = (if Suc k \<le> j \<and> j < Suc k + n then 0 else vals s3 ! j)" by auto
  have "vals s' ! j = (if k \<le> j \<and> j < k + Suc n then 0 else vals s ! j)" if "j < length (sems s)" for j
    using s'(3) s1(3) s2(3) s3(3) that by (auto simp: nth_upd le_Suc_eq Suc_le_eq)
  moreover have "sem_clear s k (Suc n) = Some s'" using s1(1) s2(1) s3(1) s'(1) by simp
  ultimately show ?case using steady_trans [OF st s'(2)] by blast
qed


section \<open>Removing and creating sets\<close>

lemma steady_inv:
  assumes "sem_ok L s" "steady s s'" "val_ok s'"
  shows "sem_ok L s'"
  by (rule sem_inv_same [OF assms(1)]) (use assms sem_okD(2) [OF assms(1)] in \<open>auto simp: steady_def\<close>)

lemma slive_upd: "k < length tab \<Longrightarrow> slive (tab[k := d]) = (if allocd (sem_perm d) then insert k (slive tab) else slive tab - {k})"
  by (auto simp: slive_def nth_list_update)

lemma tab_inv_drop:
  assumes "tab_inv si tab m n" "k < length tab" "\<not> allocd (sem_perm d)" "seq (sem_perm d) * sim_semmni si + k \<le> 32767"
    "rm.holds m' ((\<lambda>k. sregion (tab ! k)) ` (slive tab - {k}))" "free_units m' \<subseteq> {1..n}"
  shows "tab_inv si (tab[k := d]) m' n"
proof -
  have live: "slive (tab[k := d]) = slive tab - {k}" using slive_upd [OF assms(2)] assms(3) by simp
  have other: "k' \<in> slive tab - {k} \<Longrightarrow> tab[k := d] ! k' = tab ! k'" for k' by simp
  have im: "(\<lambda>k'. sregion (tab[k := d] ! k')) ` (slive tab - {k}) = (\<lambda>k. sregion (tab ! k)) ` (slive tab - {k})"
    using other by (intro image_cong) auto
  have "keys_unique (map sem_perm (tab[k := d]))"
    using keys_unique_upd [OF tab_invD(7) [OF assms(1)] assms(3), of k] by (simp add: map_update)
  moreover have "inj_on (\<lambda>k'. sregion (tab[k := d] ! k')) (slive tab - {k})"
    using tab_invD(9) [OF assms(1)] other by (auto simp: inj_on_def)
  moreover have "\<forall>k'<length tab. seq (sem_perm (tab[k := d] ! k')) * sim_semmni si + k' \<le> 32767"
    using tab_invD(12) [OF assms(1)] assms(4) by (auto simp: nth_upd split: if_splits)
  moreover have "\<forall>k'\<in>slive tab - {k}. sem_base (tab[k := d] ! k') + sem_nsems (tab[k := d] ! k') \<le> n"
    using tab_invD(10) [OF assms(1)] by simp
  ultimately show ?thesis using tab_invD(1-6) [OF assms(1)] assms(5,6) unfolding tab_inv_def live im by simp
qed

lemma tab_inv_add:
  assumes "tab_inv si tab m n" "k < length tab" "k \<notin> slive tab" "allocd (sem_perm d)" "seq (sem_perm d) = seq (sem_perm (tab ! k))"
    "keys_unique (map sem_perm (tab[k := d]))" "sem_base d + sem_nsems d \<le> n" "0 < sem_nsems d"
    "rm.holds m' (insert (sregion d) ((\<lambda>k. sregion (tab ! k)) ` slive tab))" "free_units m' \<subseteq> free_units m"
    "\<forall>h\<in>(\<lambda>k. sregion (tab ! k)) ` slive tab. span (sregion d) \<inter> span h = {}"
  shows "tab_inv si (tab[k := d]) m' n"
proof -
  have live: "slive (tab[k := d]) = insert k (slive tab)" using slive_upd [OF assms(2)] assms(4) by simp
  have other: "k' \<in> slive tab \<Longrightarrow> tab[k := d] ! k' = tab ! k'" for k' using assms(3) by (metis nth_list_update_neq)
  have im: "(\<lambda>k'. sregion (tab[k := d] ! k')) ` insert k (slive tab) = insert (sregion d) ((\<lambda>k. sregion (tab ! k)) ` slive tab)"
    using other assms(2) by (auto simp: image_iff)
  have "sregion d \<notin> (\<lambda>k. sregion (tab ! k)) ` slive tab"
    using assms(8,11) by (force simp: span_def sregion_def)
  then have "inj_on (\<lambda>k'. sregion (tab[k := d] ! k')) (insert k (slive tab))"
    using tab_invD(9) [OF assms(1)] other assms(2) by (auto simp: inj_on_def image_iff)
  moreover have "\<forall>k'<length tab. seq (sem_perm (tab[k := d] ! k')) * sim_semmni si + k' \<le> 32767"
    using tab_invD(12) [OF assms(1)] assms(2,5) by (auto simp: nth_upd split: if_splits)
  moreover have "\<forall>k'\<in>insert k (slive tab). sem_base (tab[k := d] ! k') + sem_nsems (tab[k := d] ! k') \<le> n"
    using tab_invD(10) [OF assms(1)] assms(2,7) other by simp
  ultimately show ?thesis using tab_invD(1-6,11) [OF assms(1)] assms(6,9,10) unfolding tab_inv_def live im by auto
qed

text \<open>Entries of identifiers other than that of set \<open>k\<close> stay live when entry \<open>k\<close> changes.\<close>

lemma semconv_upd:
  assumes "tab_inv (seminfo s) (sema s) m n" "tab_inv (seminfo s) ((sema s)[k := d]) m' n'" "sema s' = (sema s)[k := d]" "seminfo s' = seminfo s"
    "semconv s i = Some j" "j \<noteq> k"
  shows "semconv s' i = Some j" "sema s' ! j = sema s ! j"
proof -
  have t: "tab_inv (seminfo s') (sema s') m' n'" using assms(2-4) by simp
  show eq: "sema s' ! j = sema s ! j" using assms(3,6) by simp
  have "j \<in> slive (sema s')" using assms(3,5,6) by (auto simp: semconv_iff [OF assms(1)] slive_def)
  then show "semconv s' i = Some j" using assms(4,5) eq by (simp add: semconv_iff [OF t] semconv_iff [OF assms(1)])
qed

lemma semctl_rmid_spec:
  assumes "sem_ok L s" "semconv s i = Some k" "sem_owner (sem_perm (sema s ! k)) (u_cred u)"
  shows "\<exists>s'. semctl_rmid s u i k = Some (Inr (OVal 0, s')) \<and> sem_ok L s' \<and> semconv s' i = None
    \<and> (L \<longrightarrow> (\<forall>q e. e \<in> set (ents s' q) \<longleftrightarrow> e \<in> set (ents s q) \<and> un_id e \<noteq> i))
    \<and> (\<forall>j<length (sems s). vals s' ! j = (if j + 1 \<in> span (sregion (sema s ! k)) then 0 else vals s ! j))
    \<and> (\<forall>i' j. i' \<noteq> i \<and> semconv s i' = Some j \<longrightarrow> semconv s' i' = Some j \<and> sema s' ! j = sema s ! j)"
proof -
  let ?sp = "sema s ! k" and ?n = "length (sems s)" and ?R = "\<lambda>k. sregion (sema s ! k)"
  note inv = sem_okD [OF assms(1)]
  have k: "k \<in> slive (sema s)" and i: "i = int (seq (sem_perm ?sp) * sim_semmni (seminfo s) + k)"
    using assms(2) by (simp_all add: semconv_iff [OF inv(1)])
  define s1 where "s1 = semunrm s i 0 (sem_nsems ?sp)"
  note r = semunrm_spec [OF inv(2), of i 0 "sem_nsems ?sp", folded s1_def]
  note r1 = r(2) [unfolded same_sems_def]
  have "sem_base ?sp + sem_nsems ?sp \<le> length (sems s1)" using tab_invD(10) [OF inv(1) k] r1 by simp
  from sem_clear_spec [OF this] r1 obtain s2 where s2: "sem_clear s1 (sem_base ?sp) (sem_nsems ?sp) = Some s2" "steady s1 s2"
    "\<forall>j<?n. vals s2 ! j = (if sem_base ?sp \<le> j \<and> j < sem_base ?sp + sem_nsems ?sp then 0 else vals s1 ! j)" by auto
  have "?R k \<in> ?R ` slive (sema s)" using k by blast
  from rm.holds_release [OF tab_invD(8) [OF inv(1)] this] obtain w m where m: "rmfree (semmap s) (sem_nsems ?sp) (sem_base ?sp + 1) = Some (w, m)"
    "rm.holds m (?R ` slive (sema s) - {?R k})" "free_units m \<subseteq> free_units (semmap s) \<union> span (?R k)" by (auto simp: sregion_def)
  define d where "d = set_perm (\<lambda>p. p\<lparr>seq := (if i + int (sim_semmni (seminfo s)) > INT16_MAX then 0 else seq p + 1), mode := 0\<rparr>) ?sp"
  define s' where "s' = s2\<lparr>semmap := m, sema := (sema s)[k := d]\<rparr>"
  have st: "sema s2 = sema s" "semmap s2 = semmap s" "seminfo s2 = seminfo s" "ents s2 = ents s1" "un_inv s2" "length (sems s2) = ?n"
    using s2(2) r(1) r1 by (simp_all add: steady_def)
  have run: "semctl_rmid s u i k = Some (Inr (OVal 0, s'))"
    using assms(3) s2(1) m(1) st(1-3) by (simp add: semctl_rmid_def s1_def s'_def set_ds_def d_def Let_def)
  have klen: "k < length (sema s)" using k by (simp add: slive_def)
  have d: "\<not> allocd (sem_perm d)" by (simp add: d_def set_perm_def allocd_def)
  have "Suc (seq (sem_perm ?sp)) * sim_semmni (seminfo s) + k \<le> 32767" if "\<not> i + int (sim_semmni (seminfo s)) > INT16_MAX"
    using that unfolding i by (simp add: add.commute add.left_commute flip: of_nat_mult of_nat_add)
  then have dseq: "seq (sem_perm d) * sim_semmni (seminfo s) + k \<le> 32767"
    using tab_invD(2,3) [OF inv(1)] klen by (auto simp: d_def set_perm_def)
  have "?R ` slive (sema s) - {?R k} = ?R ` (slive (sema s) - {k})" using tab_invD(9) [OF inv(1)] k by (auto simp: inj_on_def)
  then have holds: "rm.holds m (?R ` (slive (sema s) - {k}))" using m(2) by simp
  have "span (?R k) \<subseteq> {1..?n}" using tab_invD(10) [OF inv(1) k] by (auto simp: span_def sregion_def)
  then have "free_units m \<subseteq> {1..?n}" using m(3) tab_invD(11) [OF inv(1)] by blast
  from tab_inv_drop [OF inv(1) klen d dseq holds this] have t: "tab_inv (seminfo s) ((sema s)[k := d]) m ?n" .
  have fields: "sema s' = (sema s)[k := d]" "seminfo s' = seminfo s" "semmap s' = m" "length (sems s') = ?n" "vals s' = vals s2" "un_inv s'"
    "ents s' = ents s1" using st by (simp_all add: s'_def vals_def un_inv_def ents_def fun_eq_iff cong: option.case_cong)
  have t': "tab_inv (seminfo s') (sema s') (semmap s') (length (sems s'))" using t fields by simp
  have other: "j \<noteq> k" if "i' \<noteq> i" "semconv s i' = Some j" for i' j using that i by (auto simp: semconv_iff [OF inv(1)])
  have keep: "semconv s' i' = Some j \<and> sema s' ! j = sema s ! j" if "i' \<noteq> i" "semconv s i' = Some j" for i' j
    using semconv_upd [OF inv(1) t fields(1,2) that(2) other [OF that]] by blast
  have ents: "e \<in> set (ents s' q) \<longleftrightarrow> e \<in> set (ents s q) \<and> un_id e \<noteq> i" if L for q e
  proof -
    have "un_num e \<le> sem_nsems ?sp" if "e \<in> set (ents s q)" "un_id e = i" using inv(4) [OF \<open>L\<close>] that assms(2) by (fastforce simp: ents_live_def)
    then show ?thesis using fields(7) r(3) by auto
  qed
  have "\<exists>j. semconv s' (un_id e) = Some j \<and> un_num e < sem_nsems (sema s' ! j)" if L "e \<in> set (ents s' q)" for q e
  proof -
    from that ents have e: "e \<in> set (ents s q)" "un_id e \<noteq> i" by auto
    then obtain j where "semconv s (un_id e) = Some j" "un_num e < sem_nsems (sema s ! j)" using inv(4) [OF \<open>L\<close>] by (auto simp: ents_live_def)
    with keep [OF e(2)] show ?thesis by auto
  qed
  then have "L \<longrightarrow> ents_live s'" by (simp add: ents_live_def)
  moreover have v: "vals s' ! j = (if j + 1 \<in> span (?R k) then 0 else vals s ! j)" if "j < ?n" for j
    using s2(3) that fields(5) same_sems_view(1) [OF r(2)] by (auto simp: span_def sregion_def)
  moreover have "val_ok s'"
  proof -
    have "0 \<le> x \<and> x \<le> sim_semvmx (seminfo s)" if "x \<in> set (vals s')" for x
    proof -
      from that obtain j where "j < ?n" "x = vals s' ! j" using fields(4) by (metis in_set_conv_nth vals_length)
      with v inv(3) show ?thesis by (auto simp: val_ok_def)
    qed
    then show ?thesis using inv(3) fields(2) by (simp add: val_ok_def)
  qed
  ultimately have "sem_ok L s'" using t' fields(6) by (simp add: sem_ok_def)
  moreover have "semconv s' i = None"
  proof (rule ccontr)
    assume "semconv s' i \<noteq> None"
    then obtain j where j: "j \<in> slive (sema s')" "i = int (seq (sem_perm (sema s' ! j)) * sim_semmni (seminfo s) + j)"
      using fields(2) by (auto simp: semconv_iff [OF t'])
    have "j \<noteq> k" "j < sim_semmni (seminfo s)" using j(1) d klen fields(1) tab_invD(2) [OF inv(1)] by (auto simp: slive_def)
    moreover have "k < sim_semmni (seminfo s)" using klen tab_invD(2) [OF inv(1)] by simp
    ultimately show False using i j(2) by (metis mod_less mod_mult_self3 of_nat_eq_iff)
  qed
  ultimately show ?thesis using run ents v keep by blast
qed


section \<open>The commands of semctl\<close>

text \<open>\<^verbatim>\<open>SETALL\<close> copies in one unsigned 16-bit value for each semaphore of the set.\<close>

definition cmd_ok :: "semst \<Rightarrow> int \<Rightarrow> semcmd \<Rightarrow> bool" where
  "cmd_ok s i cmd \<longleftrightarrow> (case cmd of
      C_SETALL (Some vs) \<Rightarrow> (\<forall>v\<in>set vs. 0 \<le> v \<and> v \<le> 65535) \<and> (\<forall>k. semconv s i = Some k \<longrightarrow> length vs = sem_nsems (sema s ! k))
    | _ \<Rightarrow> True)"

lemma val_okI:
  assumes "val_ok s" "seminfo s' = seminfo s" "length (sems s') = length (sems s)"
    "\<And>j. j < length (sems s) \<Longrightarrow> vals s' ! j = vals s ! j \<or> 0 \<le> vals s' ! j \<and> vals s' ! j \<le> sim_semvmx (seminfo s)"
  shows "val_ok s'"
proof -
  have "0 \<le> x \<and> x \<le> sim_semvmx (seminfo s)" if "x \<in> set (vals s')" for x
  proof -
    from that obtain j where j: "j < length (sems s)" "x = vals s' ! j" using assms(3) by (metis in_set_conv_nth vals_length)
    moreover have "0 \<le> vals s ! j \<and> vals s ! j \<le> sim_semvmx (seminfo s)" using j(1) assms(1) by (simp add: val_ok_def)
    ultimately show ?thesis using assms(4) [OF j(1)] by auto
  qed
  then show ?thesis using assms(1,2) by (simp add: val_ok_def)
qed

lemma semunrm_inv:
  assumes "sem_ok L s"
  shows "sem_ok L (semunrm s i low high)" "vals (semunrm s i low high) = vals s" "sema (semunrm s i low high) = sema s"
    "seminfo (semunrm s i low high) = seminfo s" "sems (semunrm s i low high) = sems s"
proof -
  note r = semunrm_spec [OF sem_okD(2) [OF assms], of i low high]
  note v = same_sems_view [OF r(2)] and f = r(2) [unfolded same_sems_def]
  have "val_ok (semunrm s i low high)" using val_ok_same [OF v(1,5)] sem_okD(3) [OF assms] by simp
  then show "sem_ok L (semunrm s i low high)" by (intro sem_inv_same [OF assms]) (use f r in auto)
  show "vals (semunrm s i low high) = vals s" "sema (semunrm s i low high) = sema s"
    "seminfo (semunrm s i low high) = seminfo s" "sems (semunrm s i low high) = sems s" using v f by simp_all
qed

lemma sem_index:
  assumes "sem_ok L s" "semconv s i = Some k" "n < sem_nsems (sema s ! k)"
  shows "sem_base (sema s ! k) + n < length (sems s)"
proof -
  have "k \<in> slive (sema s)" using assms(2) by (simp add: semconv_iff [OF sem_okD(1) [OF assms(1)]])
  then show ?thesis using tab_invD(10) [OF sem_okD(1) [OF assms(1)]] assms(3) by fastforce
qed

lemma semctl_set_spec:
  assumes "sem_ok L s" "semconv s i = Some k"
  shows "\<exists>r. semctl_set s u k b arg = Some r \<and> (case r of Inl _ \<Rightarrow> True | Inr (v, s') \<Rightarrow> sem_ok L s')"
proof -
  note inv = sem_okD [OF assms(1)]
  have k: "k \<in> slive (sema s)" using assms(2) by (simp add: semconv_iff [OF inv(1)])
  have "sem_ok L (set_ds s k (\<lambda>ds. (set_perm (\<lambda>p. p\<lparr>uid := ui, gid := gi, mode := md AND 0x1ff OR IPC_ALLOC\<rparr>) ds)\<lparr>sem_ctime := sem_now s\<rparr>))"
    (is "sem_ok L ?s'") for ui gi md
  proof -
    have "(md AND 0x1ff OR IPC_ALLOC) AND IPC_ALLOC \<noteq> (0 :: u32)"
      unfolding and_nonzero_iff by (rule exI [of _ 15]) (simp add: bit_simps)
    then have "core ((set_perm (\<lambda>p. p\<lparr>uid := ui, gid := gi, mode := md AND 0x1ff OR IPC_ALLOC\<rparr>) (sema s ! k))\<lparr>sem_ctime := sem_now s\<rparr>) = core (sema s ! k)"
      using k by (simp add: core_def set_perm_def allocd_def slive_def)
    then have "map core (sema ?s') = map core (sema s)" unfolding set_ds_def by (simp add: core_upd)
    then show ?thesis
      by (rule sem_inv_same [OF assms(1)])
         (use inv in \<open>auto simp: set_ds_def un_inv_def val_ok_def vals_def ents_def cong: option.case_cong\<close>)
  qed
  then show ?thesis by (auto simp: semctl_set_def Let_def split: option.splits)
qed

lemma semctl_setval_spec:
  assumes "sem_ok L s" "semconv s i = Some k" "cred_ok (u_cred u)"
  shows "\<exists>r. semctl_setval s u i k semnum arg = Some r \<and> (case r of Inl _ \<Rightarrow> True | Inr (v, s') \<Rightarrow> sem_ok L s'
    \<and> vals s' = (vals s)[sem_base (sema s ! k) + semnum := u16 arg] \<and> u16 arg \<le> sim_semvmx (seminfo s)
    \<and> (\<forall>q. ents s' q = filter (\<lambda>e. \<not> in_range i semnum semnum e) (ents s q)))"
proof -
  let ?sp = "sema s ! k"
  note inv = sem_okD [OF assms(1)]
  obtain e where e: "ipcaccess (sem_perm ?sp) SEM_A (u_cred u) = Some e" using ipcaccess_total [OF assms(3)] by blast
  show ?thesis
  proof (cases "e = None \<and> semnum < sem_nsems ?sp \<and> arg mod 4294967296 \<le> sim_semvmx (seminfo s)")
    case True
    from sem_store_spec [OF sem_index [OF assms(1,2)]] True obtain s1 where
      s1: "sem_store s (sem_base ?sp + semnum) arg (u_pid u) = Some s1" "steady s s1" "vals s1 = (vals s)[sem_base ?sp + semnum := u16 arg]" by blast
    have "arg mod 65536 = arg mod 4294967296 mod 65536" by (simp add: mod_mod_cancel)
    also have "\<dots> = arg mod 4294967296" using True inv(3) by (intro mod_pos_pos_trivial) (auto simp: val_ok_def)
    finally have u: "u16 arg \<le> sim_semvmx (seminfo s)" "0 \<le> u16 arg" using True by (simp_all add: u16_def)
    have f: "seminfo s1 = seminfo s" "ents s1 = ents s" "un_inv s1" using s1(2) inv(2) by (simp_all add: steady_def)
    have "val_ok s1" by (rule val_ok_upd [OF inv(3) s1(3) u(2,1) f(1)])
    then have i1: "sem_ok L s1" by (rule steady_inv [OF assms(1) s1(2)])
    have "semctl_setval s u i k semnum arg = Some (Inr (OVal 0, semunrm s1 i semnum semnum))"
      using e True s1(1) by (simp add: semctl_setval_def Let_def)
    then show ?thesis using semunrm_inv [OF i1, of i semnum semnum] s1(3) u(1) semunrm_spec(3) [OF f(3)] f(2) by simp
  next
    case False
    then show ?thesis using e by (auto simp: semctl_setval_def Let_def split: option.splits)
  qed
qed

lemma semctl_setall_spec:
  assumes "sem_ok L s" "semconv s i = Some k" "cred_ok (u_cred u)" "cmd_ok s i (C_SETALL arg)"
  shows "\<exists>r. semctl_setall s u i k arg = Some r \<and> (case r of Inl _ \<Rightarrow> True | Inr (v, s') \<Rightarrow> sem_ok L s'
    \<and> (\<exists>vs. arg = Some vs \<and> length vs = sem_nsems (sema s ! k) \<and> (\<forall>j<length (sems s). vals s' ! j =
        (if sem_base (sema s ! k) \<le> j \<and> j < sem_base (sema s ! k) + length vs then vs ! (j - sem_base (sema s ! k)) else vals s ! j)))
    \<and> (L \<longrightarrow> (\<forall>q. ents s' q = filter (\<lambda>e. un_id e \<noteq> i) (ents s q))))"
proof -
  let ?sp = "sema s ! k"
  note inv = sem_okD [OF assms(1)]
  obtain e where e: "ipcaccess (sem_perm ?sp) SEM_A (u_cred u) = Some e" using ipcaccess_total [OF assms(3)] by blast
  show ?thesis
  proof (cases "e = None \<and> (\<exists>vs. arg = Some vs \<and> \<not> list_ex (\<lambda>v. v > sim_semvmx (seminfo s)) vs)")
    case True
    then obtain vs where vs: "arg = Some vs" "\<forall>v\<in>set vs. v \<le> sim_semvmx (seminfo s)" by (auto simp: list_ex_iff not_less)
    have len: "length vs = sem_nsems ?sp" and rng: "\<forall>v\<in>set vs. 0 \<le> v \<and> v \<le> 65535"
      using assms(2,4) vs(1) by (simp_all add: cmd_ok_def)
    define s1 where "s1 = semunrm s i 0 (sem_nsems ?sp)"
    note r = semunrm_inv [OF assms(1), of i 0 "sem_nsems ?sp", folded s1_def]
    have k: "k \<in> slive (sema s)" using assms(2) by (simp add: semconv_iff [OF inv(1)])
    have "sem_base ?sp + length vs \<le> length (sems s1)" using tab_invD(10) [OF inv(1) k] r(5) len by simp
    from sem_storeall_spec [OF this] r(5) obtain s2 where s2: "sem_storeall s1 (sem_base ?sp) vs (u_pid u) = Some s2" "steady s1 s2"
      "\<forall>j<length (sems s). vals s2 ! j = (if sem_base ?sp \<le> j \<and> j < sem_base ?sp + length vs then u16 (vs ! (j - sem_base ?sp)) else vals s1 ! j)" by metis
    have nth: "0 \<le> vs ! j \<and> vs ! j \<le> sim_semvmx (seminfo s) \<and> u16 (vs ! j) = vs ! j" if "j < length vs" for j
    proof -
      have "0 \<le> vs ! j" "vs ! j < 65536" "vs ! j \<le> sim_semvmx (seminfo s)" using vs(2) rng nth_mem [OF that] by force+
      then show ?thesis by (simp add: u16_id)
    qed
    have v2: "vals s2 ! j = (if sem_base ?sp \<le> j \<and> j < sem_base ?sp + length vs then vs ! (j - sem_base ?sp) else vals s ! j)"
      if "j < length (sems s)" for j using s2(3) nth r(2) that by auto
    have f: "seminfo s2 = seminfo s1" "length (sems s2) = length (sems s1)" "ents s2 = ents s1" using s2(2) by (simp_all add: steady_def)
    have "val_ok s2" by (rule val_okI [OF inv(3)]) (use f r v2 nth in auto)
    then have "sem_ok L s2" by (rule steady_inv [OF r(1) s2(2)])
    moreover have "semctl_setall s u i k arg = Some (Inr (OVal 0, s2))"
      using e True vs(1) s2(1) by (simp add: semctl_setall_def Let_def s1_def)
    moreover have "ents s2 q = filter (\<lambda>e. un_id e \<noteq> i) (ents s q)" if L for q
    proof -
      have "un_num x \<le> sem_nsems ?sp" if "x \<in> set (ents s q)" "un_id x = i" for x
        using inv(4) [OF \<open>L\<close>] that assms(2) by (fastforce simp: ents_live_def)
      then show ?thesis unfolding f(3) s1_def semunrm_spec(3) [OF inv(2)] by (intro filter_cong) auto
    qed
    ultimately show ?thesis using vs(1) len v2 by simp
  next
    case False
    then show ?thesis using e by (auto simp: semctl_setall_def Let_def split: option.splits)
  qed
qed

lemma semctl_spec:
  assumes "sem_ok L s" "cred_ok (u_cred u)" "cmd_ok s i cmd"
  shows "\<exists>r. semctl s u i semnum cmd out = Some r \<and> (case r of Inl _ \<Rightarrow> True | Inr (v, s') \<Rightarrow> sem_ok L s')"
proof (cases "semconv s i")
  case None
  then show ?thesis by (simp add: semctl_def)
next
  case (Some k)
  note inv = sem_okD [OF assms(1)]
  obtain er where er: "ipcaccess (sem_perm (sema s ! k)) SEM_R (u_cred u) = Some er" using ipcaccess_total [OF assms(2)] by blast
  have get: "\<exists>r. semctl_get s u k semnum f = Some r \<and> (case r of Inl _ \<Rightarrow> True | Inr (v, s') \<Rightarrow> sem_ok L s')" for f
    using er sem_index [OF assms(1) Some, of semnum] assms(1) by (cases er) (auto simp: semctl_get_def rd_in)
  have live: "sem_base (sema s ! k) + sem_nsems (sema s ! k) \<le> length (sems s)"
    using tab_invD(10) [OF inv(1)] Some by (auto simp: semconv_iff [OF inv(1)])
  show ?thesis
  proof (cases cmd)
    case C_RMID
    then show ?thesis using semctl_rmid_spec [OF assms(1) Some, of u] Some
      by (cases "sem_owner (sem_perm (sema s ! k)) (u_cred u)") (auto simp: semctl_def semctl_rmid_def Let_def)
  next
    case C_GETALL
    then show ?thesis using er live assms(1) Some by (cases er) (auto simp: semctl_def semctl_getall_def Let_def)
  next
    case (C_SETVAL arg)
    then show ?thesis using semctl_setval_spec [OF assms(1) Some assms(2), of semnum arg] Some
      by (auto simp: semctl_def split: sum.splits)
  next
    case (C_SETALL arg)
    then show ?thesis using semctl_setall_spec [OF assms(1) Some assms(2), of arg] assms(3) Some
      by (auto simp: semctl_def split: sum.splits)
  qed (use Some get semctl_set_spec [OF assms(1) Some] er assms(1) in
    \<open>auto simp: semctl_def semctl_ostat_def semctl_stat_def Let_def split: option.splits\<close>)
qed


section \<open>semget\<close>

lemma put_perms_upd:
  assumes "length ps = length ds" "\<forall>j. j \<noteq> k \<longrightarrow> ps ! j = map sem_perm ds ! j" "k < length ds"
  shows "put_perms ds ps = ds[k := (ds ! k)\<lparr>sem_perm := ps ! k\<rparr>]"
proof (rule nth_equalityI)
  fix j assume "j < length (put_perms ds ps)"
  then have "j < length ds" using assms(1) by (simp add: put_perms_def)
  then show "put_perms ds ps ! j = ds[k := (ds ! k)\<lparr>sem_perm := ps ! k\<rparr>] ! j" using assms by (auto simp: put_perms_def nth_list_update)
qed (simp add: put_perms_def assms(1))

lemma put_perms_same: "put_perms ds (map sem_perm ds) = ds"
  by (rule nth_equalityI) (simp_all add: put_perms_def)

text \<open>A state whose table changed in an entry that was not in use.\<close>

lemma sem_inv_entry:
  assumes "sem_ok L s" "k < length (sema s)" "k \<notin> slive (sema s)" "tab_inv (seminfo s) ((sema s)[k := d]) m (length (sems s))"
  shows "sem_ok L (s\<lparr>semmap := m, sema := (sema s)[k := d]\<rparr>)" (is "sem_ok L ?s'")
proof -
  note inv = sem_okD [OF assms(1)]
  have f: "ents ?s' = ents s" "un_inv ?s'" "val_ok ?s'"
    using inv by (simp_all add: ents_def fun_eq_iff un_inv_def val_ok_def vals_def cong: option.case_cong)
  have "\<exists>j. semconv ?s' (un_id e) = Some j \<and> un_num e < sem_nsems (sema ?s' ! j)" if L "e \<in> set (ents s q)" for e q
  proof -
    from that inv(4) [OF \<open>L\<close>] obtain j where j: "semconv s (un_id e) = Some j" "un_num e < sem_nsems (sema s ! j)" by (auto simp: ents_live_def)
    then have "j \<noteq> k" using assms(3) by (auto simp: semconv_iff [OF inv(1)])
    from semconv_upd [OF inv(1) assms(4) _ _ j(1) this, of ?s'] j(2) show ?thesis by simp
  qed
  then show ?thesis using assms(4) f by (simp add: sem_ok_def ents_live_def)
qed

lemma semget_spec:
  assumes "sem_ok L s"
  shows "\<exists>r s'. semget s u ky nsems flg = Some (r, s') \<and> sem_ok L s' \<and> vals s' = vals s \<and> ents s' = ents s
    \<and> (case r of Inl _ \<Rightarrow> slive (sema s') = slive (sema s)
       | Inr i \<Rightarrow> \<exists>k. semconv s' i = Some k \<and> 0 \<le> i \<and> i \<le> 32767 \<and> nsems \<le> int (sem_nsems (sema s' ! k)) \<and> key (sem_perm (sema s' ! k)) = ky
           \<and> (k \<notin> slive (sema s) \<longrightarrow> int (sem_nsems (sema s' ! k)) = nsems
                \<and> (\<forall>j\<in>slive (sema s). span (sregion (sema s' ! k)) \<inter> span (sregion (sema s ! j)) = {})))
    \<and> (\<forall>j\<in>slive (sema s). sema s' ! j = sema s ! j)"
proof -
  note inv = sem_okD [OF assms] and tab = tab_invD [OF sem_okD(1) [OF assms]]
  let ?tab = "sema s" and ?si = "seminfo s" and ?n = "length (sems s)" and ?R = "\<lambda>k. sregion (sema s ! k)"
  note ig = ipcget_spec [OF tab(7), of ky flg "u_cred u"]
  show ?thesis
  proof (cases "ipcget ky flg (u_cred u) (map sem_perm ?tab)")
    case (Inl e)
    then show ?thesis using assms by (simp add: semget_def)
  next
    case (Inr x)
    obtain created k ps where x: "x = (created, k, ps)" by (cases x)
    have g: "k < length ?tab" "keys_unique ps" "length ps = length ?tab" "allocd (ps ! k)" "key (ps ! k) = ky"
      "\<forall>j. j \<noteq> k \<longrightarrow> ps ! j = map sem_perm ?tab ! j" "seq (ps ! k) = seq (sem_perm (?tab ! k))"
      "created \<Longrightarrow> k \<notin> slive ?tab" "\<not> created \<Longrightarrow> ps = map sem_perm ?tab"
      using ig by (auto simp: Inr x slive_def)
    have bnd: "seq (sem_perm (?tab ! k)) * sim_semmni ?si + k \<le> 32767" by (rule tab(12) [OF g(1)])
    show ?thesis
    proof (cases created)
      case False
      have kl: "k \<in> slive ?tab" using g(1,4) g(9) [OF False] by (simp add: slive_def)
      have sid: "s\<lparr>sema := ?tab\<rparr> = s" by simp
      let ?i = "int (seq (sem_perm (?tab ! k)) * sim_semmni ?si + k)"
      have "semconv s ?i = Some k" by (simp only: semconv_iff [OF inv(1)]) (simp add: kl)
      moreover have "key (sem_perm (?tab ! k)) = ky" using g(1,5) g(9) [OF False] by simp
      moreover have "semget s u ky nsems flg = Some (if nsems \<noteq> 0 \<and> (nsems < 0 \<or> int (sem_nsems (?tab ! k)) < nsems) then Inl EINVAL else Inr ?i, s)"
        unfolding semget_def Inr x using False g(9) [OF False] by (simp add: put_perms_same Let_def)
      ultimately show ?thesis using assms kl bnd by (auto simp flip: of_nat_mult of_nat_add)
    next
      case True
      have kn: "k \<notin> slive ?tab" by (rule g(8) [OF True])
      define d where "d = (?tab ! k)\<lparr>sem_perm := ps ! k\<rparr>"
      have pp: "put_perms ?tab ps = ?tab[k := d]" unfolding d_def by (rule put_perms_upd [OF g(3,6,1)])
      define s1 where "s1 = s\<lparr>sema := ?tab[k := d]\<rparr>"
      define d0 where "d0 = set_perm (\<lambda>p. p\<lparr>mode := 0\<rparr>) d"
      let ?fail = "s\<lparr>semmap := semmap s, sema := ?tab[k := d0]\<rparr>"
      have d0: "\<not> allocd (sem_perm d0)" "seq (sem_perm d0) = seq (sem_perm (?tab ! k))"
        by (simp_all add: d0_def d_def set_perm_def allocd_def g(7))
      have "tab_inv ?si (?tab[k := d0]) (semmap s) ?n"
        by (rule tab_inv_drop [OF inv(1) g(1) d0(1)]) (use bnd d0(2) tab(8,11) kn in simp_all)
      then have ff: "sem_ok L ?fail" by (rule sem_inv_entry [OF assms g(1) kn])
      have fl: "slive (?tab[k := d0]) = slive ?tab" using slive_upd [OF g(1), of d0] d0(1) kn by simp
      have fs: "set_ds s1 k (set_perm (\<lambda>p. p\<lparr>mode := 0\<rparr>)) = ?fail"
        using g(1) by (simp add: set_ds_def s1_def d0_def)
      have other: "j \<in> slive ?tab \<Longrightarrow> ?tab[k := e] ! j = ?tab ! j" for j e using kn by (metis nth_list_update_neq)
      have fv: "vals ?fail = vals s" "ents ?fail = ents s" by (simp_all add: vals_def ents_def fun_eq_iff cong: option.case_cong)
      have failed: ?thesis if "semget s u ky nsems flg = Some (Inl e, ?fail)" for e
        unfolding that using ff fv fl other by simp
      let ?i = "int (seq (sem_perm d) * sim_semmni ?si + k)"
      have run: "semget s u ky nsems flg =
          (if nsems \<le> 0 \<or> nsems > sim_semmsl ?si then Some (Inl EINVAL, ?fail)
           else do { (a, m) \<leftarrow> rmalloc (semmap s) (nat nsems);
             if a = 0 then Some (Inl ENOSPC, ?fail)
             else Some (Inr ?i, s\<lparr>semmap := m, sema := ?tab[k := d\<lparr>sem_base := a - 1, sem_nsems := nat (u16 nsems), sem_ctime := sem_now s, sem_otime := 0\<rparr>]\<rparr>) })"
        unfolding semget_def Inr x using True g(1) fs by (simp add: pp Let_def s1_def set_ds_def cong: if_cong)
      show ?thesis
      proof (cases "nsems \<le> 0 \<or> nsems > sim_semmsl ?si")
        case True
        then show ?thesis using failed [of EINVAL] run by simp
      next
        case ok: False
        then have n: "0 < nat nsems" "u16 nsems = nsems" using tab(6) by (auto intro: u16_id)
        from rm.alloc_ok [OF rm.holdsD(1) [OF tab(8)] n(1)] obtain a m where am: "rmalloc (semmap s) (nat nsems) = Some (a, m)" by blast
        show ?thesis
        proof (cases "a = 0")
          case True
          then show ?thesis using failed [of ENOSPC] run am ok by simp
        next
          case False
          from rm.holds_alloc [OF tab(8) n(1) am] False have h: "rm.holds m (insert (a, nat nsems) (?R ` slive ?tab))"
            "\<forall>h\<in>?R ` slive ?tab. span (a, nat nsems) \<inter> span h = {}" "span (a, nat nsems) \<subseteq> free_units (semmap s)" "free_units m \<subseteq> free_units (semmap s)"
            by simp_all
          define d1 where "d1 = d\<lparr>sem_base := a - 1, sem_nsems := nat (u16 nsems), sem_ctime := sem_now s, sem_otime := 0\<rparr>"
          have reg: "sregion d1 = (a, nat nsems)" using False n(2) by (simp add: d1_def sregion_def)
          have "a + nat nsems - 1 \<in> span (a, nat nsems)" using n(1) by (auto simp: span_def)
          then have "a + nat nsems - 1 \<in> {1..?n}" using h(3) tab(11) by blast
          then have le: "sem_base d1 + sem_nsems d1 \<le> ?n" using False n by (auto simp: d1_def)
          have ps: "map sem_perm (?tab[k := d1]) = ps"
            using g(1,3,6) by (intro nth_equalityI) (auto simp: map_update d1_def d_def nth_list_update)
          have t: "tab_inv ?si (?tab[k := d1]) m ?n"
            by (rule tab_inv_add [OF inv(1) g(1) kn]) (use g h le reg n ps in \<open>simp_all add: d1_def d_def\<close>)
          let ?s' = "s\<lparr>semmap := m, sema := ?tab[k := d1]\<rparr>"
          have res: "semget s u ky nsems flg = Some (Inr ?i, ?s')" using run ok am False by (simp add: d1_def)
          have i': "sem_ok L ?s'" by (rule sem_inv_entry [OF assms g(1) kn t])
          have "k \<in> slive (sema ?s')" using g(1,4) by (simp add: slive_def d1_def d_def)
          moreover have "sema ?s' ! k = d1" using g(1) by simp
          ultimately have "semconv ?s' ?i = Some k" by (simp only: semconv_iff [OF sem_okD(1) [OF i']]) (simp add: d1_def)
          moreover have "?i \<le> 32767" using bnd g(7) by (simp add: d_def flip: of_nat_mult of_nat_add)
          moreover have "int (sem_nsems d1) = nsems" "key (sem_perm d1) = ky" using n g(5) by (simp_all add: d1_def d_def)
          moreover have "vals ?s' = vals s" "ents ?s' = ents s" by (simp_all add: vals_def ents_def fun_eq_iff cong: option.case_cong)
          ultimately show ?thesis unfolding res using i' other kn h(2) reg g(1) by auto
        qed
      qed
    qed
  qed
qed


section \<open>semop\<close>

lemma sum_list_nonzero_exists: "sum_list xs \<noteq> (0 :: int) \<Longrightarrow> \<exists>x\<in>set xs. x \<noteq> 0"
  by (induction xs) auto

lemma semop_verify_total:
  assumes "cred_ok cr"
  shows "\<exists>e. semop_verify sp cr ops = Some e \<and> (e = None \<longrightarrow> (\<forall>op\<in>set ops. sem_num op < sem_nsems sp))"
proof (induction ops)
  case Nil
  then show ?case by simp
next
  case (Cons op ops)
  obtain e where e: "ipcaccess (sem_perm sp) (if sem_op op \<noteq> 0 then SEM_A else SEM_R) cr = Some e"
    using ipcaccess_total [OF assms] by blast
  show ?case using Cons e by (cases e) auto
qed

text \<open>A pass keeps the invariant when the operations stay inside the array, and inside the set for its last part.\<close>

lemma semop_pass_inv:
  assumes "sem_ok L s" "semconv s i = Some k"
    "\<forall>op\<in>set ops. sem_base (sema s ! k) + sem_num op < length (sems s) \<and> (L \<longrightarrow> sem_num op < sem_nsems (sema s ! k))"
  shows "\<exists>r s'. semop_pass s u i k ops = Some (r, s') \<and> sem_ok L s' \<and> pass_result u i (sem_base (sema s ! k)) ops s r s'
    \<and> semmap s' = semmap s \<and> map core (sema s') = map core (sema s)"
proof -
  note inv = sem_okD [OF assms(1)]
  have "\<forall>op\<in>set ops. sem_base (sema s ! k) + sem_num op < length (sems s)" using assms(3) by blast
  from semop_pass_spec [OF inv(2,3) this, of u i] obtain r s' t where p: "semop_pass s u i k ops = Some (r, s')"
    "pass_result u i (sem_base (sema s ! k)) ops s r s'" "un_inv s'" "val_ok s'" "seminfo s' = seminfo s" "semmap s' = semmap s"
    "length (sems s') = length (sems s)" "sema s' = (sema s)[k := (sema s ! k)\<lparr>sem_otime := t\<rparr>]" by blast
  have c: "map core (sema s') = map core (sema s)" unfolding p(8) by (rule core_upd) (simp add: core_def)
  have "sem_ok L s'"
  proof (rule sem_inv_same [OF assms(1) c p(5,6,7,3,4)])
    fix q e assume L and e: "e \<in> set (ents s' q)"
    have nz: "aoe (ents s' q) (uk e) \<noteq> 0" using tab_keys [OF ents_tab [OF p(3), of q]] e by blast
    show "(\<exists>f\<in>set (ents s q). uk f = uk e) \<or> (\<exists>k. semconv s (un_id e) = Some k \<and> un_num e < sem_nsems (sema s ! k))"
    proof (cases "aoe (ents s q) (uk e) = 0")
      case False
      then show ?thesis using tab_keys [OF ents_tab [OF inv(2), of q]] by (metis (mono_tags, lifting) image_iff mem_Collect_eq)
    next
      case True
      with nz p(2) have "r = SDone" by (auto simp: pass_result_def split: semres.splits)
      with p(2) have "pass_done u i (sem_base (sema s ! k)) ops s s'" by (simp add: pass_result_def)
      then have "aoe (ents s' q) (uk e) = aoe (ents s q) (uk e) -
          (if q = u_slot u \<and> fst (uk e) = i then tot 0 (filter undo_flag ops) (snd (uk e)) else 0)"
        unfolding pass_done_def by blast
      with nz True have "fst (uk e) = i" "tot 0 (filter undo_flag ops) (snd (uk e)) \<noteq> 0" by (auto split: if_splits)
      then have "un_id e = i" "\<exists>op\<in>set ops. sem_num op = un_num e"
        by (auto simp: uk_def tot_def filter_empty_conv dest!: sum_list_nonzero_exists)
      then show ?thesis using assms(2,3) \<open>L\<close> by auto
    qed
  qed
  then show ?thesis using p c by blast
qed

lemma semop_spec:
  assumes "sem_ok L s" "cred_ok (u_cred u)"
  shows "\<exists>r s'. semop s u i n uops = Some (r, s') \<and> sem_ok L s' \<and> map core (sema s') = map core (sema s) \<and> semmap s' = semmap s
    \<and> (r \<noteq> SDone \<longrightarrow> vals s' = vals s \<and> ents s' = ents s)
    \<and> (r = SDone \<longrightarrow> (\<exists>k ops. semconv s i = Some k \<and> uops = Some ops \<and> pass_done u i (sem_base (sema s ! k)) ops s s'))
    \<and> (\<forall>ch. r = SWait ch \<longrightarrow> (\<exists>k ops pre op post. semconv s i = Some k \<and> uops = Some ops \<and> ops = pre @ op # post \<and> counted s s' ch
         \<and> sem_flg op AND IPC_NOWAIT = 0 \<and> blocks s (sem_base (sema s ! k)) pre op ch))"
proof -
  define t where "t = s\<lparr>sem_sysinfo := sem_sysinfo s + 1\<rparr>"
  have f: "sema t = sema s" "semmap t = semmap s" "sems t = sems s" "seminfo t = seminfo s" "ents t = ents s" "vals t = vals s"
      "un_inv t = un_inv s" "semconv t = semconv s" "sem_waked t = sem_waked s" "ncnt t = ncnt s" "zcnt t = zcnt s"
    by (simp_all add: t_def ents_def vals_def un_inv_def fun_eq_iff semconv_def ncnt_def zcnt_def cong: option.case_cong)
  have it: "sem_ok L t" using assms(1) f unfolding sem_ok_def ents_live_def val_ok_def by simp
  have idle: ?thesis if "semop s u i n uops = Some (SErr e, t)" for e
    unfolding that using it f by simp
  have eq: "semop s u i n uops = (case semconv s i of None \<Rightarrow> Some (SErr EINVAL, t)
     | Some k \<Rightarrow>
         if n > sim_semopm (seminfo s) then Some (SErr E2BIG, t)
         else (case uops of None \<Rightarrow> Some (SErr EFAULT, t)
           | Some ops \<Rightarrow> do {
               e \<leftarrow> semop_verify (sema s ! k) (u_cred u) ops;
               case e of Some x \<Rightarrow> Some (SErr x, t) | None \<Rightarrow> semop_pass t u i k ops }))"
    unfolding semop_def Let_def t_def [symmetric] f by (rule refl)
  show ?thesis
  proof (cases "semconv s i")
    case None
    then show ?thesis by (intro idle [of EINVAL]) (subst eq, simp)
  next
    case (Some k)
    show ?thesis
    proof (cases "n > sim_semopm (seminfo s)")
      case True
      then show ?thesis using Some by (intro idle [of E2BIG]) (subst eq, simp)
    next
      case False
      show ?thesis
      proof (cases uops)
        case None
        then show ?thesis using Some False by (intro idle [of EFAULT]) (subst eq, simp)
      next
        case ops: (Some ops)
        obtain e where e: "semop_verify (sema s ! k) (u_cred u) ops = Some e" "e = None \<Longrightarrow> \<forall>op\<in>set ops. sem_num op < sem_nsems (sema s ! k)"
          using semop_verify_total [OF assms(2)] by blast
        show ?thesis
        proof (cases e)
          case (Some x)
          then show ?thesis using \<open>semconv s i = Some k\<close> False ops e by (intro idle [of x]) (subst eq, simp)
        next
          case None
          have "\<forall>op\<in>set ops. sem_base (sema t ! k) + sem_num op < length (sems t) \<and> (L \<longrightarrow> sem_num op < sem_nsems (sema t ! k))"
            using sem_index [OF assms(1) Some] e(2) [OF None] f by simp
          from semop_pass_inv [OF it _ this, of i u] Some f obtain r s' where
            p: "semop_pass t u i k ops = Some (r, s')" "sem_ok L s'" "pass_result u i (sem_base (sema s ! k)) ops t r s'"
            "semmap s' = semmap s" "map core (sema s') = map core (sema s)" by auto
          have run: "semop s u i n uops = Some (r, s')"
            using Some False ops e(1) None p(1) by (subst eq) simp
          have eqs: "pass_done u i b ops t s' = pass_done u i b ops s s'" "counted t s' ch = counted s s' ch" "blocks t b pre op ch = blocks s b pre op ch" for b ch pre op
            using f by (simp_all add: pass_done_def counted_def blocks_def woken_def cong: semchan.case_cong)
          show ?thesis unfolding run using p(2-5) Some ops f eqs by (cases r) (auto simp: pass_result_def)
        qed
      qed
    qed
  qed
qed

lemma semop_again_spec:
  assumes "sem_ok L s" "\<And>ops k. uops = Some ops \<Longrightarrow> semconv s i = Some k \<Longrightarrow>
      \<forall>op\<in>set ops. sem_base (sema s ! k) + sem_num op < length (sems s) \<and> (L \<longrightarrow> sem_num op < sem_nsems (sema s ! k))"
    "k = nat i mod sim_semmni (seminfo s)"
  shows "\<exists>r s'. semop_again s u i k uops = Some (r, s') \<and> sem_ok L s' \<and> (r \<noteq> SDone \<longrightarrow> vals s' = vals s \<and> ents s' = ents s)"
proof (cases "semconv s i")
  case None
  then show ?thesis using assms(1) by (simp add: semop_again_def)
next
  case (Some j)
  then have j: "j = k" using assms(3) by (auto simp: semconv_def Let_def split: if_splits)
  show ?thesis
  proof (cases uops)
    case None
    then show ?thesis using assms(1) Some by (simp add: semop_again_def)
  next
    case ops: (Some ops)
    from semop_pass_inv [OF assms(1) Some assms(2) [OF ops Some], of u] j obtain r s' where
      "semop_pass s u i k ops = Some (r, s')" "sem_ok L s'" "pass_result u i (sem_base (sema s ! k)) ops s r s'" by blast
    then show ?thesis using Some ops by (cases r) (auto simp: semop_again_def pass_result_def)
  qed
qed

lemma semop_intr_spec:
  assumes "sem_ok L s" "case ch of NCnt k \<Rightarrow> k < length (sems s) | ZCnt k \<Rightarrow> k < length (sems s)"
  shows "\<exists>s'. semop_intr s ch = Some (SErr EINTR, s') \<and> sem_ok L s' \<and> vals s' = vals s \<and> ents s' = ents s"
proof -
  have one: "\<exists>s'. (if b then Some (SErr EINTR, t\<lparr>sems := (sems t)[k := q'], sem_waked := c # sem_waked t\<rparr>)
       else Some (SErr EINTR, t\<lparr>sems := (sems t)[k := q]\<rparr>)) = Some (SErr EINTR, s') \<and> sem_ok L s' \<and> vals s' = vals t \<and> ents s' = ents t"
    if "k < length (sems t)" "semval q = semval (sems t ! k)" "semval q' = semval (sems t ! k)" "sem_ok L t" for b k q q' c t
  proof -
    have k: "k < length (sems t)" "steady t (t\<lparr>sems := (sems t)[k := q]\<rparr>)" "steady t (t\<lparr>sems := (sems t)[k := q'], sem_waked := c # sem_waked t\<rparr>)"
      using that(1) by (auto simp: steady_def ents_def un_inv_def fun_eq_iff cong: option.case_cong)
    have v: "vals (t\<lparr>sems := (sems t)[k := q]\<rparr>) = vals t" "vals (t\<lparr>sems := (sems t)[k := q'], sem_waked := c # sem_waked t\<rparr>) = vals t"
      using that(1-3) by (simp_all add: vals_def map_upd_same)
    have "val_ok (t\<lparr>sems := (sems t)[k := q]\<rparr>)" "val_ok (t\<lparr>sems := (sems t)[k := q'], sem_waked := c # sem_waked t\<rparr>)"
      using val_ok_same [OF v(1)] val_ok_same [OF v(2)] sem_okD(3) [OF that(4)] by simp_all
    then show ?thesis using steady_inv [OF that(4) k(2)] steady_inv [OF that(4) k(3)] v k by (auto simp: steady_def)
  qed
  show ?thesis
  proof (cases ch)
    case (NCnt k)
    then have k: "k < length (sems s)" using assms(2) by simp
    show ?thesis
      using one [OF k, of "(sems s ! k)\<lparr>semncnt := u16 (semncnt (sems s ! k) - 1)\<rparr>" "(sems s ! k)\<lparr>semncnt := 0\<rparr>" "semncnt (sems s ! k) \<le> 1" ch] assms(1) NCnt k
      by (simp add: semop_intr_def rd_in set_sem_in split: if_splits)
  next
    case (ZCnt k)
    then have k: "k < length (sems s)" using assms(2) by simp
    show ?thesis
      using one [OF k, of "(sems s ! k)\<lparr>semzcnt := u16 (semzcnt (sems s ! k) - 1)\<rparr>" "(sems s ! k)\<lparr>semzcnt := 0\<rparr>" "semzcnt (sems s ! k) \<le> 1" ch] assms(1) ZCnt k
      by (simp add: semop_intr_def rd_in set_sem_in split: if_splits)
  qed
qed


section \<open>Process exit\<close>

text \<open>
  What \<^verbatim>\<open>semexit\<close> makes of the value \<open>v\<close> of a semaphore for an adjustment \<open>a\<close>: the sum, unless it leaves
  the range.
\<close>

definition adjust :: "int \<Rightarrow> int \<Rightarrow> int \<Rightarrow> int" where
  "adjust vmx v a = (if 0 \<le> v + a \<and> v + a \<le> vmx then v + a else v)"

definition sem_at :: "semst \<Rightarrow> int \<times> nat \<Rightarrow> nat" where
  "sem_at s x = sem_base (sema s ! (nat (fst x) mod sim_semmni (seminfo s))) + snd x"

lemma sem_at_conv: "semconv s i = Some k \<Longrightarrow> sem_at s (i, n) = sem_base (sema s ! k) + n"
  by (auto simp: sem_at_def semconv_def Let_def split: if_splits)

lemma semexit_one:
  assumes "sem_ok L s" "semconv s (un_id e) = Some k" "sem_base (sema s ! k) + un_num e < length (sems s)"
  shows "\<exists>s'. semexit_ents s (e # es) = semexit_ents s' es \<and> steady s s' \<and> sem_ok L s'
    \<and> vals s' = (vals s)[sem_at s (uk e) := adjust (sim_semvmx (seminfo s)) (vals s ! sem_at s (uk e)) (un_aoe e)]"
proof -
  let ?j = "sem_base (sema s ! k) + un_num e" and ?vmx = "sim_semvmx (seminfo s)"
  note inv = sem_okD [OF assms(1)]
  note j = assms(3)
  have at: "sem_at s (uk e) = ?j" using sem_at_conv [OF assms(2)] by (simp add: uk_def)
  have v: "vals s ! ?j = semval (sems s ! ?j)" using vals_nth [OF j] .
  show ?thesis
  proof (cases "0 \<le> semval (sems s ! ?j) + un_aoe e \<and> semval (sems s ! ?j) + un_aoe e \<le> ?vmx")
    case False
    then have "semexit_ents s (e # es) = semexit_ents s es" using assms(2) j by (auto simp: rd_in not_le)
    moreover have "adjust ?vmx (vals s ! ?j) (un_aoe e) = vals s ! ?j" using False unfolding adjust_def v by (rule if_not_P)
    then have "vals s = (vals s)[?j := adjust ?vmx (vals s ! ?j) (un_aoe e)]" by simp
    ultimately show ?thesis using assms(1) at by auto
  next
    case True
    let ?v = "semval (sems s ! ?j) + un_aoe e"
    have u: "u16 ?v = ?v" using True inv(3) by (intro u16_id) (auto simp: val_ok_def)
    obtain s1 where s1: "set_sem s ?j (\<lambda>p. p\<lparr>semval := u16 ?v\<rparr>) = Some s1" "steady s s1" "vals s1 = (vals s)[?j := ?v]"
      using set_sem_steady [OF j, of "\<lambda>p. p\<lparr>semval := u16 ?v\<rparr>"] u by auto
    have j1: "?j < length (sems s1)" using s1(2) j by (simp add: steady_def)
    obtain s2 where s2: "(if ?v = 0 then wake_z ?j s1 else Some s1) = Some s2" "steady s1 s2" "vals s2 = vals s1"
      using wake_steady(2) [OF j1] by (cases "?v = 0") auto
    have j2: "?j < length (sems s2)" using s2(2) j1 by (simp add: steady_def)
    obtain s3 where s3: "(if un_aoe e > 0 then wake_n ?j s2 else Some s2) = Some s3" "steady s2 s3" "vals s3 = vals s2"
      using wake_steady(1) [OF j2] by (cases "un_aoe e > 0") auto
    have st: "steady s s3" using steady_trans [OF steady_trans [OF s1(2) s2(2)] s3(2)] .
    have v3: "vals s3 = (vals s)[?j := adjust ?vmx (vals s ! ?j) (un_aoe e)]" using s1(3) s2(3) s3(3) True by (simp add: adjust_def v)
    have "val_ok s3" by (rule val_ok_upd [OF inv(3) v3]) (use True st in \<open>auto simp: adjust_def v steady_def\<close>)
    then have "sem_ok L s3" by (rule steady_inv [OF assms(1) st])
    moreover have "semexit_ents s (e # es) = semexit_ents s3 es"
      using assms(2) j True s1(1) s2(1) s3(1) by (simp add: rd_in not_less Let_def)
    ultimately show ?thesis using st v3 at by auto
  qed
qed

lemma steady_conv: "steady s s' \<Longrightarrow> semconv s' = semconv s" "steady s s' \<Longrightarrow> sem_at s' = sem_at s"
  by (simp_all add: fun_eq_iff steady_def semconv_def sem_at_def)

lemma semexit_ents_spec:
  assumes "sem_ok L s" "\<forall>e\<in>set es. \<exists>k. semconv s (un_id e) = Some k \<and> un_num e < sem_nsems (sema s ! k)"
    "distinct (map (\<lambda>e. sem_at s (uk e)) es)"
  shows "\<exists>s'. semexit_ents s es = Some s' \<and> steady s s' \<and> sem_ok L s'
    \<and> (\<forall>e\<in>set es. vals s' ! sem_at s (uk e) = adjust (sim_semvmx (seminfo s)) (vals s ! sem_at s (uk e)) (un_aoe e))
    \<and> (\<forall>j. j \<notin> (\<lambda>e. sem_at s (uk e)) ` set es \<longrightarrow> vals s' ! j = vals s ! j)"
  using assms
proof (induction es arbitrary: s)
  case Nil
  then show ?case by simp
next
  case (Cons e es)
  then obtain k where k: "semconv s (un_id e) = Some k" "un_num e < sem_nsems (sema s ! k)" by auto
  let ?at = "sem_at s (uk e)"
  from semexit_one [OF Cons.prems(1) k(1) sem_index [OF Cons.prems(1) k], of es] obtain s1 where s1: "semexit_ents s (e # es) = semexit_ents s1 es" "steady s s1" "sem_ok L s1"
    "vals s1 = (vals s)[?at := adjust (sim_semvmx (seminfo s)) (vals s ! ?at) (un_aoe e)]" by blast
  note c = steady_conv [OF s1(2)]
  have f: "sema s1 = sema s" "seminfo s1 = seminfo s" using s1(2) by (simp_all add: steady_def)
  have "?at < length (vals s)" using sem_index [OF Cons.prems(1) k] sem_at_conv [OF k(1)] by (simp add: uk_def)
  then have here: "vals s1 ! ?at = adjust (sim_semvmx (seminfo s)) (vals s ! ?at) (un_aoe e)"
    and there: "\<And>j. j \<noteq> ?at \<Longrightarrow> vals s1 ! j = vals s ! j" using s1(4) by simp_all
  have "\<forall>e\<in>set es. \<exists>k. semconv s1 (un_id e) = Some k \<and> un_num e < sem_nsems (sema s1 ! k)" "distinct (map (\<lambda>e. sem_at s1 (uk e)) es)"
    using Cons.prems(2,3) c f by simp_all
  from Cons.IH [OF s1(3) this] obtain s' where s': "semexit_ents s1 es = Some s'" "steady s1 s'" "sem_ok L s'"
    "\<forall>e\<in>set es. vals s' ! sem_at s (uk e) = adjust (sim_semvmx (seminfo s)) (vals s1 ! sem_at s (uk e)) (un_aoe e)"
    "\<forall>j. j \<notin> (\<lambda>e. sem_at s (uk e)) ` set es \<longrightarrow> vals s' ! j = vals s1 ! j" unfolding c(2) f(2) by blast
  have new: "?at \<notin> (\<lambda>e. sem_at s (uk e)) ` set es" using Cons.prems(3) by auto
  have "vals s' ! sem_at s (uk x) = adjust (sim_semvmx (seminfo s)) (vals s ! sem_at s (uk x)) (un_aoe x)" if "x \<in> set (e # es)" for x
  proof (cases "x = e")
    case True
    then show ?thesis using s'(5) new here by auto
  next
    case False
    then have x: "x \<in> set es" using that by simp
    then have "sem_at s (uk x) \<noteq> ?at" using new by (metis imageI)
    with x show ?thesis using s'(4) there by auto
  qed
  moreover have "vals s' ! j = vals s ! j" if "j \<notin> (\<lambda>e. sem_at s (uk e)) ` set (e # es)" for j
    using that s'(5) there by auto
  ultimately show ?case using s1(1) s'(1,3) steady_trans [OF s1(2) s'(2)] by auto
qed

text \<open>Different entries of one process are about different semaphores.\<close>

lemma sem_at_inj:
  assumes "sem_ok L s" "semconv s i = Some k" "n < sem_nsems (sema s ! k)" "semconv s i' = Some k'" "n' < sem_nsems (sema s ! k')"
    "sem_at s (i, n) = sem_at s (i', n')"
  shows "(i, n) = (i', n')"
proof -
  note inv = sem_okD [OF assms(1)]
  note tab = tab_invD [OF inv(1)]
  let ?R = "\<lambda>k. sregion (sema s ! k)"
  have live: "k \<in> slive (sema s)" "k' \<in> slive (sema s)" using assms(2,4) by (simp_all add: semconv_iff [OF inv(1)])
  have at: "sem_base (sema s ! k) + n = sem_base (sema s ! k') + n'" using assms(6) sem_at_conv [OF assms(2)] sem_at_conv [OF assms(4)] by simp
  then have mem: "sem_base (sema s ! k) + n + 1 \<in> span (?R k)" "sem_base (sema s ! k) + n + 1 \<in> span (?R k')"
    using assms(3,5) by (auto simp: span_def sregion_def)
  have "k = k'"
  proof (rule ccontr)
    assume "k \<noteq> k'"
    then have "?R k \<noteq> ?R k'" using tab(9) live by (auto simp: inj_on_def)
    then have "span (?R k) \<inter> span (?R k') = {}" using rm.holdsD(6) [OF tab(8)] live by blast
    with mem show False by blast
  qed
  then show ?thesis using assms(2,4) at by (simp add: semconv_iff [OF inv(1)])
qed

text \<open>The undo structure is given back when the adjustments have been made.\<close>

lemma semexit_finish:
  assumes "sem_ok L s" "sem_undo s slot = Some up" "semexit_ents s (rev (semu_ent s up)) = Some s1" "steady s s1" "sem_ok L s1"
  shows "\<exists>s'. semexit s slot = Some s' \<and> sem_ok L s' \<and> sem_undo s' slot = None \<and> ents s' = (ents s)(slot := []) \<and> vals s' = vals s1"
proof -
  let ?es = "semu_ent s up"
  note inv = sem_okD [OF assms(1)] and Some = assms(2) and s1 = assms(3-5)
  note st = s1(2) [unfolded steady_def]
  define s2 where "s2 = un_store s1 up []"
  define s' where "s' = s2\<lparr>semfup := up # semfup s2, sem_undo := (sem_undo s2)(slot := None)\<rparr>"
  have up1: "sem_undo s1 slot = Some up" using st Some by simp
  have b: "tab_bound (seminfo s1) []" using inv(2) by (simp add: tab_bound_def)
  note r = un_store_inv [OF sem_okD(2) [OF s1(3)] up1 b, folded s2_def]
  have und: "sem_undo s2 = sem_undo s" "semfup s2 = semfup s" "semu_ent s2 up = []" using st by (simp_all add: s2_def un_store_def)
  have run: "semexit s slot = Some s'"
  proof (cases "?es = []")
    case True
    then have "s1 = s" using s1(1) by simp
    moreover have "up \<notin> set (semunp s)" using un_invD(8) [OF inv(2)] True by blast
    ultimately have "s2 = s" using True by (simp add: s2_def un_store_def fun_upd_idem remove1_idem)
    then show ?thesis using True Some by (simp add: semexit_def s'_def)
  next
    case False
    then show ?thesis using Some s1(1) by (simp add: semexit_def s'_def s2_def un_store_def)
  qed
  have inj: "sem_undo s q = Some up \<Longrightarrow> q = slot" for q using un_invD(4) [OF inv(2)] Some by blast
  have e': "ents s' = (ents s)(slot := [])"
  proof -
    have "ents s' = (ents s2)(slot := [])" by (auto simp: s'_def ents_def fun_eq_iff split: option.split)
    then show ?thesis using r(2) st by simp
  qed
  have notfree: "up \<notin> set (semfup s)" using un_invD(5) [OF inv(2) Some] .
  note i2 = un_invD [OF r(1)]
  have "un_inv s'"
    unfolding un_inv_def
  proof (intro conjI allI impI)
    fix u assume "semu_ent s' u \<noteq> []"
    then have "semu_ent s2 u \<noteq> []" "u \<noteq> up" using und(3) by (auto simp: s'_def)
    then obtain q where "sem_undo s2 q = Some u" using i2(9) by blast
    then show "\<exists>q. sem_undo s' q = Some u" using \<open>u \<noteq> up\<close> und(1) Some by (intro exI [of _ q]) (auto simp: s'_def)
  next
    fix q u assume "sem_undo s' q = Some u"
    then have "q \<noteq> slot" "sem_undo s q = Some u" by (auto simp: s'_def und(1) split: if_splits)
    then show "u \<notin> set (semfup s')" using inj un_invD(5) [OF inv(2), of q u] by (auto simp: s'_def und(2))
  next
    fix p q u assume "sem_undo s' p = Some u \<and> sem_undo s' q = Some u"
    then show "p = q" using i2(4) [of p u q] by (auto simp: s'_def split: if_splits)
  qed (use i2 notfree und in \<open>auto simp: s'_def\<close>)
  moreover have v: "vals s' = vals s1" "sema s' = sema s1" "seminfo s' = seminfo s1" "semmap s' = semmap s1" "sems s' = sems s1"
    by (simp_all add: s'_def s2_def un_store_def vals_def)
  moreover have "val_ok s'" using val_ok_same [OF v(1,3)] sem_okD(3) [OF s1(3)] by simp
  ultimately have "sem_ok L s'"
    by (intro sem_inv_same [OF s1(3)]) (use e' st in \<open>auto split: if_splits\<close>)
  moreover have "sem_undo s' slot = None" by (simp add: s'_def)
  ultimately show ?thesis using run e' v(1) by blast
qed

lemma semexit_spec:
  assumes "sem_ok True s"
  shows "\<exists>s'. semexit s slot = Some s' \<and> sem_ok True s' \<and> sem_undo s' slot = None \<and> ents s' = (ents s)(slot := [])
    \<and> (\<forall>e\<in>set (ents s slot). vals s' ! sem_at s (uk e) = adjust (sim_semvmx (seminfo s)) (vals s ! sem_at s (uk e)) (un_aoe e))
    \<and> (\<forall>j. j \<notin> (\<lambda>e. sem_at s (uk e)) ` set (ents s slot) \<longrightarrow> vals s' ! j = vals s ! j)"
proof (cases "sem_undo s slot")
  case None
  then have "ents s slot = []" by (simp add: ents_def)
  with None assms show ?thesis by (simp add: semexit_def fun_upd_idem)
next
  case (Some up)
  note inv = sem_okD [OF assms]
  have es: "ents s slot = semu_ent s up" using Some by (simp add: ents_def)
  let ?es = "semu_ent s up"
  have live: "\<forall>e\<in>set (rev ?es). \<exists>k. semconv s (un_id e) = Some k \<and> un_num e < sem_nsems (sema s ! k)"
    using inv(4) [OF TrueI] unfolding ents_live_def set_rev es [symmetric] by blast
  have "tab_ok ?es" using ents_tab [OF inv(2), of slot] es by simp
  then have dk: "distinct (map uk ?es)" by (simp add: tab_ok_def strict_sorted_iff)
  have "inj_on (sem_at s) (uk ` set ?es)"
  proof (rule inj_onI)
    fix x y assume "x \<in> uk ` set ?es" "y \<in> uk ` set ?es" and eq: "sem_at s x = sem_at s y"
    then obtain e f where e: "e \<in> set ?es" "x = uk e" and f: "f \<in> set ?es" "y = uk f" by auto
    from e(1) f(1) live obtain k k' where "semconv s (un_id e) = Some k" "un_num e < sem_nsems (sema s ! k)"
      "semconv s (un_id f) = Some k'" "un_num f < sem_nsems (sema s ! k')" by (auto simp del: in_set_conv_nth) blast
    from sem_at_inj [OF assms this] eq show "x = y" by (simp add: e f uk_def)
  qed
  with dk have "distinct (map (sem_at s) (map uk ?es))" by (simp only: distinct_map) simp
  then have dist: "distinct (map (\<lambda>e. sem_at s (uk e)) (rev ?es))" by (simp add: rev_map [symmetric] comp_def)
  from semexit_ents_spec [OF assms live dist] obtain s1 where s1: "semexit_ents s (rev ?es) = Some s1" "steady s s1" "sem_ok True s1"
    "\<forall>e\<in>set ?es. vals s1 ! sem_at s (uk e) = adjust (sim_semvmx (seminfo s)) (vals s ! sem_at s (uk e)) (un_aoe e)"
    "\<forall>j. j \<notin> (\<lambda>e. sem_at s (uk e)) ` set ?es \<longrightarrow> vals s1 ! j = vals s ! j" by (auto simp del: in_set_conv_nth)
  from semexit_finish [OF assms Some s1(1-3)] show ?thesis using s1(4,5) es by auto
qed

text \<open>The same for any adjustments, when the call returns.\<close>

lemma semexit_ents_any:
  assumes "semexit_ents s es = Some s'" "sem_ok L s"
  shows "steady s s' \<and> sem_ok L s'"
  using assms
proof (induction es arbitrary: s)
  case Nil
  then show ?case by simp
next
  case (Cons e es)
  show ?case
  proof (cases "semconv s (un_id e)")
    case None
    then show ?thesis using Cons by simp
  next
    case (Some k)
    have j: "sem_base (sema s ! k) + un_num e < length (sems s)" 
    proof (rule ccontr)
      assume "\<not> sem_base (sema s ! k) + un_num e < length (sems s)"
      then have "semexit_ents s (e # es) = None" using Some by (simp add: rd_def Let_def)
      with Cons.prems(1) show False by simp
    qed
    obtain s1 where "semexit_ents s (e # es) = semexit_ents s1 es" "steady s s1" "sem_ok L s1"
      using semexit_one [OF Cons.prems(2) Some j] by blast
    then show ?thesis using Cons.IH [of s1] Cons.prems(1) steady_trans [of s s1 s'] by simp
  qed
qed

lemma semexit_any:
  assumes "sem_ok L s" "semexit s slot = Some s'"
  shows "sem_ok L s'"
proof (cases "sem_undo s slot")
  case None
  then show ?thesis using assms by (simp add: semexit_def)
next
  case (Some up)
  show ?thesis
  proof (cases "semexit_ents s (rev (semu_ent s up))")
    case None
    moreover from this have "semu_ent s up \<noteq> []" by auto
    ultimately show ?thesis using Some assms(2) by (simp add: semexit_def)
  next
    case s1: (Some s1)
    note a = semexit_ents_any [OF s1 assms(1)]
    show ?thesis using semexit_finish [OF assms(1) Some s1 conjunct1 [OF a] conjunct2 [OF a]] assms(2) by auto
  qed
qed

section \<open>A pass over any operations\<close>

text \<open>
  A pass that returns has looked only at operations inside the array: it ends as it does for those up to the one it stopped at.
\<close>

lemma set_sem_length: "set_sem s k f = Some s' \<Longrightarrow> length (sems s') = length (sems s)"
  by (auto simp: set_sem_def bind_eq_Some_conv split: if_splits option.splits)

lemma wake_length: "wake_n k s = Some s' \<Longrightarrow> length (sems s') = length (sems s)" "wake_z k s = Some s' \<Longrightarrow> length (sems s') = length (sems s)"
  by (auto simp: wake_n_def wake_z_def bind_eq_Some_conv dest: set_sem_length split: if_splits option.splits)

lemma semaoe_sems: "semaoe s slot v i n = (e, s') \<Longrightarrow> sems s' = sems s"
  by (auto simp: semaoe_def Let_def split: if_splits option.splits list.splits prod.splits)

definition aoe_step :: "semst \<Rightarrow> nat \<Rightarrow> int \<Rightarrow> sembuf \<Rightarrow> errno option \<times> semst" where
  "aoe_step s slot i op = (if sem_flg op AND SEM_UNDO \<noteq> 0 then semaoe s slot (sem_op op) i (sem_num op) else (None, s))"

lemma aoe_step_sems: "aoe_step s slot i op = (e, s') \<Longrightarrow> length (sems s') = length (sems s)"
  by (auto simp: aoe_step_def dest: semaoe_sems split: if_splits)

text \<open>One operation ends the pass, whatever comes after it, or the pass goes on with the others.\<close>

lemma loop_split:
  shows "\<not> base + sem_num op < length (sems s) \<and> (\<forall>ops. semop_loop s slot i base did (op # ops) = None)
    \<or> base + sem_num op < length (sems s) \<and>
      ((\<exists>s1. length (sems s1) = length (sems s) \<and> (\<forall>ops. semop_loop s slot i base did (op # ops) = semop_loop s1 slot i base (op # did) ops))
       \<or> (\<exists>x. (\<forall>ops. semop_loop s slot i base did (op # ops) = x) \<and> (\<forall>t. x \<noteq> Some (SDone, t))))"
proof (cases "base + sem_num op < length (sems s)")
  case False
  then show ?thesis by (simp add: rd_def Let_def)
next
  case True
  let ?k = "base + sem_num op" and ?p = "sems s ! (base + sem_num op)"
  obtain e s1 where a: "aoe_step s slot i op = (e, s1)" by (cases "aoe_step s slot i op")
  have up: "semop_loop s slot i base did (op # ops) =
      (if sem_op op > 0 then
         if sem_op op + semval ?p > sim_semvmx (seminfo s) then do { s \<leftarrow> semundo s slot i base did; Some (SErr ERANGE, s) }
         else (case e of Some e \<Rightarrow> do { s \<leftarrow> semundo s1 slot i base did; Some (SErr e, s) }
           | None \<Rightarrow> do {
               s \<leftarrow> set_sem s1 ?k (\<lambda>p. p\<lparr>semval := u16 (semval p + sem_op op)\<rparr>);
               s \<leftarrow> wake_n ?k s;
               p \<leftarrow> rd (sems s) ?k;
               s \<leftarrow> if semval p = 0 then wake_z ?k s else Some s;
               semop_loop s slot i base (op # did) ops })
       else if sem_op op < 0 then
         if semval ?p \<ge> - sem_op op then
           (case e of Some e \<Rightarrow> do { s \<leftarrow> semundo s1 slot i base did; Some (SErr e, s) }
           | None \<Rightarrow> do {
               s \<leftarrow> set_sem s1 ?k (\<lambda>p. p\<lparr>semval := u16 (semval p + sem_op op)\<rparr>);
               p \<leftarrow> rd (sems s) ?k;
               s \<leftarrow> if semval p = 0 then wake_z ?k s else Some s;
               semop_loop s slot i base (op # did) ops })
         else do {
           s \<leftarrow> semundo s slot i base did;
           if sem_flg op AND IPC_NOWAIT \<noteq> 0 then Some (SErr EAGAIN, s)
           else do { s \<leftarrow> set_sem s ?k (\<lambda>p. p\<lparr>semncnt := u16 (semncnt p + 1)\<rparr>); Some (SWait (NCnt ?k), s) } }
       else if semval ?p \<noteq> 0 then do {
         s \<leftarrow> semundo s slot i base did;
         if sem_flg op AND IPC_NOWAIT \<noteq> 0 then Some (SErr EAGAIN, s)
         else do { s \<leftarrow> set_sem s ?k (\<lambda>p. p\<lparr>semzcnt := u16 (semzcnt p + 1)\<rparr>); Some (SWait (ZCnt ?k), s) } }
       else semop_loop s slot i base (op # did) ops)" for ops
    using True a unfolding semop_loop.simps Let_def aoe_step_def [symmetric] by (simp add: rd_in cong: if_cong)
  have k1: "?k < length (sems s1)" using True aoe_step_sems [OF a] by simp
  obtain s2 where s2: "set_sem s1 ?k (\<lambda>p. p\<lparr>semval := u16 (semval p + sem_op op)\<rparr>) = Some s2" using set_sem_in [OF k1] by blast
  have k2: "?k < length (sems s2)" "length (sems s2) = length (sems s)" using set_sem_length [OF s2] k1 aoe_step_sems [OF a] by simp_all
  obtain s3 where s3: "wake_n ?k s2 = Some s3" using wake_steady(1) [OF k2(1)] by blast
  have k3: "?k < length (sems s3)" "length (sems s3) = length (sems s)" using wake_length(1) [OF s3] k2 by simp_all
  obtain s4 where s4: "(if semval (sems s3 ! ?k) = 0 then wake_z ?k s3 else Some s3) = Some s4" "length (sems s4) = length (sems s)"
    using wake_steady(2) [OF k3(1)] wake_length(2) [of ?k s3] k3(2) by (cases "semval (sems s3 ! ?k) = 0") auto
  obtain s5 where s5: "(if semval (sems s2 ! ?k) = 0 then wake_z ?k s2 else Some s2) = Some s5" "length (sems s5) = length (sems s)"
    using wake_steady(2) [OF k2(1)] wake_length(2) [of ?k s2] k2(2) by (cases "semval (sems s2 ! ?k) = 0") auto
  note go = s2 s3 s4(1) s5(1) rd_in [OF k3(1)] rd_in [OF k2(1)]
  let ?L = "\<lambda>ops. semop_loop s slot i base did (op # ops)"
  let ?goes = "\<exists>s1. length (sems s1) = length (sems s) \<and> (\<forall>ops. ?L ops = semop_loop s1 slot i base (op # did) ops)"
  let ?stops = "\<exists>x. (\<forall>ops. ?L ops = x) \<and> (\<forall>t. x \<noteq> Some (SDone, t))"
  have fails: ?stops if "\<And>ops. ?L ops = do { s \<leftarrow> semundo t slot i base did; Some (SErr e, s) }" for t e
    using that by (intro exI [of _ "do { s \<leftarrow> semundo t slot i base did; Some (SErr e, s) }"]) (auto simp: bind_eq_Some_conv)
  have sleeps: ?stops if "\<And>ops. ?L ops = do { s \<leftarrow> semundo s slot i base did;
      if sem_flg op AND IPC_NOWAIT \<noteq> 0 then Some (SErr EAGAIN, s) else do { s \<leftarrow> set_sem s ?k f; Some (SWait ch, s) } }" for f ch
    using that by (intro exI [of _ "do { s \<leftarrow> semundo s slot i base did;
      if sem_flg op AND IPC_NOWAIT \<noteq> 0 then Some (SErr EAGAIN, s) else do { s \<leftarrow> set_sem s ?k f; Some (SWait ch, s) } }"])
      (auto simp: bind_eq_Some_conv split: if_splits)
  consider (over) "sem_op op > 0" "sem_op op + semval ?p > sim_semvmx (seminfo s)"
    | (aoe) x where "e = Some x" "sem_op op > 0 \<and> \<not> sem_op op + semval ?p > sim_semvmx (seminfo s) \<or> sem_op op < 0 \<and> semval ?p \<ge> - sem_op op"
    | (incr) "e = None" "sem_op op > 0" "\<not> sem_op op + semval ?p > sim_semvmx (seminfo s)"
    | (down) "e = None" "sem_op op < 0" "semval ?p \<ge> - sem_op op"
    | (low) "sem_op op < 0" "\<not> semval ?p \<ge> - sem_op op"
    | (zero) "sem_op op = 0" "semval ?p = 0" | (nonzero) "sem_op op = 0" "semval ?p \<noteq> 0" by (cases e) force+
  then have "?goes \<or> ?stops"
  proof cases
    case over
    then show ?thesis by (intro disjI2 fails [of s ERANGE]) (simp add: up del: semop_loop.simps)
  next
    case aoe
    then show ?thesis by (intro disjI2 fails [of s1 x]) (auto simp: up simp del: semop_loop.simps)
  next
    case incr
    then show ?thesis using s4(2) by (intro disjI1 exI [of _ s4] conjI allI) (simp_all add: up go del: semop_loop.simps)
  next
    case down
    then show ?thesis using s5(2) by (intro disjI1 exI [of _ s5] conjI allI) (simp_all add: up go del: semop_loop.simps)
  next
    case low
    then show ?thesis by (intro disjI2 sleeps [of "\<lambda>p. p\<lparr>semncnt := u16 (semncnt p + 1)\<rparr>" "NCnt ?k"]) (simp add: up del: semop_loop.simps)
  next
    case zero
    then show ?thesis by (intro disjI1 exI [of _ s] conjI allI) (simp_all add: up del: semop_loop.simps)
  next
    case nonzero
    then show ?thesis by (intro disjI2 sleeps [of "\<lambda>p. p\<lparr>semzcnt := u16 (semzcnt p + 1)\<rparr>" "ZCnt ?k"]) (simp add: up del: semop_loop.simps)
  qed
  with True show ?thesis by blast
qed

lemma semop_loop_prefix:
  assumes "semop_loop s slot i base did ops = Some (r, s')"
  shows "\<exists>pre. (\<forall>op\<in>set pre. base + sem_num op < length (sems s)) \<and> semop_loop s slot i base did pre = Some (r, s') \<and> (r = SDone \<longrightarrow> pre = ops)"
  using assms
proof (induction ops arbitrary: s did)
  case Nil
  then show ?case by (intro exI [of _ "[]"]) simp
next
  case (Cons op ops)
  from loop_split [of base op s slot i did] Cons.prems have k: "base + sem_num op < length (sems s)"
    and c: "(\<exists>s1. length (sems s1) = length (sems s) \<and> (\<forall>ops. semop_loop s slot i base did (op # ops) = semop_loop s1 slot i base (op # did) ops))
       \<or> (\<exists>x. (\<forall>ops. semop_loop s slot i base did (op # ops) = x) \<and> (\<forall>t. x \<noteq> Some (SDone, t)))" by fastforce+
  from c show ?case
  proof
    assume "\<exists>s1. length (sems s1) = length (sems s) \<and> (\<forall>ops. semop_loop s slot i base did (op # ops) = semop_loop s1 slot i base (op # did) ops)"
    then obtain s1 where s1: "length (sems s1) = length (sems s)" "\<And>ops. semop_loop s slot i base did (op # ops) = semop_loop s1 slot i base (op # did) ops" by blast
    from Cons.IH [of s1 "op # did"] Cons.prems s1(2) obtain pre where
      "\<forall>op\<in>set pre. base + sem_num op < length (sems s1)" "semop_loop s1 slot i base (op # did) pre = Some (r, s')" "r = SDone \<longrightarrow> pre = ops" by auto
    then show ?thesis using k s1 by (intro exI [of _ "op # pre"]) simp
  next
    assume "\<exists>x. (\<forall>ops. semop_loop s slot i base did (op # ops) = x) \<and> (\<forall>t. x \<noteq> Some (SDone, t))"
    then obtain x where x: "\<And>ops. semop_loop s slot i base did (op # ops) = x" "\<And>t. x \<noteq> Some (SDone, t)" by blast
    then have "semop_loop s slot i base did [op] = Some (r, s')" "r \<noteq> SDone" using Cons.prems by auto
    then show ?thesis using k by (intro exI [of _ "[op]"]) simp
  qed
qed

lemma semop_pass_any:
  assumes "sem_ok False s" "semconv s i = Some k" "semop_pass s u i k ops = Some (r, s')"
  shows "sem_ok False s'"
proof -
  let ?base = "sem_base (sema s ! k)"
  obtain r1 s1 where l: "semop_loop s (u_slot u) i ?base [] ops = Some (r1, s1)"
    using assms(3) by (cases "semop_loop s (u_slot u) i ?base [] ops") (auto simp: semop_pass_def)
  from semop_loop_prefix [OF l] obtain pre where pre: "\<forall>op\<in>set pre. ?base + sem_num op < length (sems s)"
    "semop_loop s (u_slot u) i ?base [] pre = Some (r1, s1)" "r1 = SDone \<longrightarrow> pre = ops" by blast
  have "semop_pass s u i k pre = semop_pass s u i k ops" using l pre(2,3) by (cases r1) (simp_all add: semop_pass_def)
  then show ?thesis using semop_pass_inv [OF assms(1,2), of pre u] pre(1) assms(3) by auto
qed

lemma semop_again_any:
  assumes "sem_ok False s" "k = nat i mod sim_semmni (seminfo s)" "semop_again s u i k uops = Some (r, s')"
  shows "sem_ok False s'"
proof (cases "semconv s i")
  case None
  then show ?thesis using assms(1,3) by (simp add: semop_again_def)
next
  case (Some j)
  then have j: "j = k" using assms(2) by (auto simp: semconv_def Let_def split: if_splits)
  show ?thesis using semop_pass_any [OF assms(1) Some] assms(1,3) Some j
    by (auto simp: semop_again_def split: option.splits)
qed

text \<open>The word a process is put to sleep on is that of a semaphore of the array.\<close>

definition chan_in :: "semst \<Rightarrow> semchan \<Rightarrow> bool" where
  "chan_in s ch \<longleftrightarrow> (case ch of NCnt k \<Rightarrow> k < length (sems s) | ZCnt k \<Rightarrow> k < length (sems s))"

lemma semop_pass_waits:
  assumes "sem_ok L s" "semop_pass s u i k ops = Some (SWait ch, s')"
  shows "chan_in s' ch"
proof -
  let ?base = "sem_base (sema s ! k)"
  obtain r1 s1 where l: "semop_loop s (u_slot u) i ?base [] ops = Some (r1, s1)"
    using assms(2) by (cases "semop_loop s (u_slot u) i ?base [] ops") (auto simp: semop_pass_def)
  from semop_loop_prefix [OF l] obtain pre where pre: "\<forall>op\<in>set pre. ?base + sem_num op < length (sems s)"
    "semop_loop s (u_slot u) i ?base [] pre = Some (r1, s1)" "r1 = SDone \<longrightarrow> pre = ops" by blast
  have eq: "semop_pass s u i k pre = Some (SWait ch, s')"
    using l pre(2,3) assms(2) by (cases r1) (simp_all add: semop_pass_def)
  from semop_pass_spec [OF sem_okD(2,3) [OF assms(1)] pre(1), of u i] eq obtain xs op ys where
    op: "pre = xs @ op # ys" "blocks s ?base xs op ch" "length (sems s') = length (sems s)" by (auto simp: pass_result_def)
  then have "?base + sem_num op < length (sems s)" using pre(1) by simp
  then show ?thesis using op(2,3) by (auto simp: blocks_def chan_in_def Let_def)
qed

lemma semop_waits:
  assumes "sem_ok L s" "semop s u i n uops = Some (SWait ch, s')"
  shows "chan_in s' ch"
proof -
  define t where "t = s\<lparr>sem_sysinfo := sem_sysinfo s + 1\<rparr>"
  have f: "sema t = sema s" "semmap t = semmap s" "sems t = sems s" "seminfo t = seminfo s" "ents t = ents s" "vals t = vals s"
      "un_inv t = un_inv s" "semconv t = semconv s"
    by (simp_all add: t_def ents_def vals_def un_inv_def fun_eq_iff semconv_def cong: option.case_cong)
  have "sem_ok L t" using assms(1) f unfolding sem_ok_def ents_live_def val_ok_def by simp
  moreover obtain k ops where "semop_pass t u i k ops = Some (SWait ch, s')"
    using assms(2) by (auto simp: semop_def t_def Let_def bind_eq_Some_conv split: option.splits if_splits)
  ultimately show ?thesis by (rule semop_pass_waits)
qed

lemma semop_again_waits:
  assumes "sem_ok L s" "semop_again s u i k uops = Some (SWait ch, s')"
  shows "chan_in s' ch"
  using assms semop_pass_waits [OF assms(1)] by (auto simp: semop_again_def split: option.splits)

lemma semsys_waits: "sem_ok L s \<Longrightarrow> semsys s u c = Some (RWait ch, s') \<Longrightarrow> chan_in s' ch"
  by (auto simp: semsys_def dest: semop_waits split: semcall.splits semres.splits sum.splits option.splits Option.bind_splits)

section \<open>The facility as a transition system\<close>

definition call_ok :: "semst \<Rightarrow> semcall \<Rightarrow> bool" where
  "call_ok s c \<longleftrightarrow> (case c of SemCtl i n cmd out \<Rightarrow> cmd_ok s i cmd | _ \<Rightarrow> True)"

lemma semsys_spec:
  assumes "sem_ok L s" "cred_ok (u_cred u)" "call_ok s c"
  shows "\<exists>r s'. semsys s u c = Some (r, s') \<and> sem_ok L s'"
proof (cases c)
  case (SemCtl i n cmd out)
  then have "cmd_ok s i cmd" using assms(3) by (simp add: call_ok_def)
  from semctl_spec [OF assms(1,2) this, of n out] obtain r where r: "semctl s u i n cmd out = Some r"
    "case r of Inl _ \<Rightarrow> True | Inr (v, s') \<Rightarrow> sem_ok L s'" by blast
  show ?thesis
  proof (cases r)
    case (Inl e)
    then show ?thesis using r assms(1) SemCtl by (simp add: semsys_def)
  next
    case (Inr x)
    obtain v s' where x: "x = (v, s')" by (cases x)
    then show ?thesis using r Inr SemCtl by (simp add: semsys_def)
  qed
next
  case (SemGet ky n flg)
  from semget_spec [OF assms(1), of u ky n flg] obtain r s' where "semget s u ky n flg = Some (r, s')" "sem_ok L s'" by blast
  then show ?thesis using SemGet by (simp add: semsys_def)
next
  case (SemOp i n ops)
  from semop_spec [OF assms(1,2), of i n ops] obtain r s' where "semop s u i n ops = Some (r, s')" "sem_ok L s'" by blast
  then show ?thesis using SemOp by (simp add: semsys_def)
next
  case SemBad
  then show ?thesis using assms(1) by (simp add: semsys_def)
qed

text \<open>
  The steps: a system call, a process that was woken and tries again, one interrupted by a signal,
  a process that exits, and the clock. A process that tries again copies its operations in a second
  time, whatever is in its memory by then, and the code does not check them. With \<open>L\<close> the step requires that
  they still name semaphores of the set.
\<close>

inductive sem_step :: "bool \<Rightarrow> semst \<Rightarrow> semst \<Rightarrow> bool" for L where
  call: "cred_ok (u_cred u) \<Longrightarrow> call_ok s c \<Longrightarrow> semsys s u c = Some (r, s') \<Longrightarrow> sem_step L s s'"
| again: "k = nat i mod sim_semmni (seminfo s) \<Longrightarrow>
    (\<And>ops j. L \<Longrightarrow> uops = Some ops \<Longrightarrow> semconv s i = Some j \<Longrightarrow> \<forall>op\<in>set ops. sem_num op < sem_nsems (sema s ! j)) \<Longrightarrow>
    semop_again s u i k uops = Some (r, s') \<Longrightarrow> sem_step L s s'"
| intr: "chan_in s ch \<Longrightarrow>
    semop_intr s ch = Some (r, s') \<Longrightarrow> sem_step L s s'"
| exit: "semexit s slot = Some s' \<Longrightarrow> sem_step L s s'"
| clock: "sem_step L s (s\<lparr>sem_now := t\<rparr>)"

lemma sem_step_inv: "sem_step L s s' \<Longrightarrow> sem_ok L s \<Longrightarrow> sem_ok L s'"
proof (induction rule: sem_step.induct)
  case (call u s c r s')
  then show ?case using semsys_spec [of L s u c] by auto
next
  case (again k i s uops u r s')
  show ?case
  proof (cases L)
    case False
    then show ?thesis using semop_again_any again by auto
  next
    case True
    then have "\<forall>op\<in>set ops. sem_base (sema s ! k) + sem_num op < length (sems s) \<and> (L \<longrightarrow> sem_num op < sem_nsems (sema s ! k))"
      if "uops = Some ops" "semconv s i = Some k" for ops k
      using again.hyps(2) [OF True that] sem_index [OF again.prems that(2)] by blast
    then show ?thesis using semop_again_spec [of L s uops i k u] again by auto
  qed
next
  case (intr s ch r s')
  then show ?case using semop_intr_spec [of L s ch] unfolding chan_in_def by auto
next
  case (exit s slot s')
  then show ?case using semexit_any by blast
next
  case (clock s t)
  have "un_inv (s\<lparr>sem_now := t\<rparr>)" "val_ok (s\<lparr>sem_now := t\<rparr>)" "ents (s\<lparr>sem_now := t\<rparr>) = ents s"
    using sem_okD(2,3) [OF clock] by (simp_all add: un_inv_def val_ok_def vals_def ents_def fun_eq_iff cong: option.case_cong)
  then show ?case by (intro sem_inv_same [OF clock]) auto
qed

text \<open>The tables at boot, before \<^verbatim>\<open>seminit\<close>: all zero, with the configured sizes.\<close>

definition sem_boot :: "semst \<Rightarrow> bool" where
  "sem_boot s \<longleftrightarrow> (let si = seminfo s in
     0 < sim_semmni si \<and> sim_semmni si \<le> 32768 \<and> 0 < sim_semmns si \<and> sim_semmns si < 4294967295 \<and> sim_semmsl si \<le> 65535
     \<and> 2 \<le> sim_semmap si \<and> sim_semmap si < 4294967296
     \<and> 0 \<le> sim_semvmx si \<and> sim_semvmx si \<le> 65535 \<and> 0 \<le> sim_semaem si \<and> sim_semaem si \<le> 16384
     \<and> length (sema s) = sim_semmni si \<and> (\<forall>ds\<in>set (sema s). mode (sem_perm ds) = 0 \<and> seq (sem_perm ds) = 0)
     \<and> length (sems s) = sim_semmns si \<and> (\<forall>v\<in>set (vals s). v = 0)
     \<and> sem_undo s = (\<lambda>_. None) \<and> semu_ent s = (\<lambda>_. []) \<and> semunp s = [])"

lemma seminit_spec:
  assumes "sem_boot s"
  shows "\<exists>s'. seminit s = Some s' \<and> sem_inv s'"
proof -
  let ?si = "seminfo s"
  note b = assms [unfolded sem_boot_def Let_def]
  have mi: "rm_inv (mapinit (sim_semmap ?si))" "free_units (mapinit (sim_semmap ?si)) = {}"
    using mapinit_inv [of "sim_semmap ?si"] b by auto
  from rm.release_ok [OF mi(1), of "sim_semmns ?si" 1] b mi(2) obtain w m where
    m: "rmfree (mapinit (sim_semmap ?si)) (sim_semmns ?si) 1 = Some (w, m)" "rm_inv m" "free_units m \<subseteq> {1..<1 + sim_semmns ?si}" by auto
  define s' where "s' = s\<lparr>semmap := m, semfup := [0..<sim_semmnu ?si]\<rparr>"
  have run: "seminit s = Some s'" using m(1) by (simp add: seminit_def s'_def)
  have none: "slive (sema s) = {}" using b by (auto simp: slive_def allocd_def)
  have "tab_inv (seminfo s') (sema s') (semmap s') (length (sems s'))"
    unfolding tab_inv_def using b m(2,3) none
    by (auto simp: s'_def rm.holds_def keys_unique_def allocd_def)
  moreover have "un_inv s'" using b by (simp add: s'_def un_inv_def tab_bound_def)
  moreover have "val_ok s'" using b by (simp add: s'_def val_ok_def vals_def)
  moreover have "ents_live s'" using b by (simp add: s'_def ents_live_def ents_def)
  ultimately show ?thesis using run by (simp add: sem_ok_def)
qed


section \<open>An example state\<close>

text \<open>
  Two identifiers and four semaphores with values up to 10. Set 0, identifier 0, has the first two
  semaphores; entry 1, used before and now identifier 7, has the third; the fourth is free. The
  process in slot 3 has an adjustment of 2 for the semaphore of identifier 7.
\<close>

definition sem_ex_info :: seminfo_t where
  "sem_ex_info = \<lparr>sim_semmap = 6, sim_semmni = 2, sim_semmns = 4, sim_semmnu = 2, sim_semmsl = 3, sim_semopm = 5,
     sim_semume = 2, sim_semvmx = 10, sim_semaem = 10\<rparr>"

definition sem_ex_ds :: "u32 \<Rightarrow> nat \<Rightarrow> int \<Rightarrow> nat \<Rightarrow> nat \<Rightarrow> semid_ds" where
  "sem_ex_ds md sq ky b n = \<lparr>sem_perm = \<lparr>uid = 101, gid = 20, cuid = 101, cgid = 20, mode = md, seq = sq, key = ky\<rparr>,
     sem_base = b, sem_nsems = n, sem_otime = 0, sem_ctime = 0\<rparr>"

definition sem_ex_sem :: "int \<Rightarrow> int \<Rightarrow> sem" where
  "sem_ex_sem v nc = \<lparr>semval = v, sempid = 0, semncnt = nc, semzcnt = 0\<rparr>"

definition sem_ex_boot :: semst where
  "sem_ex_boot = \<lparr>sema = replicate 2 (sem_ex_ds 0 0 0 0 0), sems = replicate 4 (sem_ex_sem 0 0), semmap = mapinit 6,
     semu_ent = (\<lambda>_. []), sem_undo = (\<lambda>_. None), semunp = [], semfup = [], seminfo = sem_ex_info,
     sem_waked = [], sem_sysinfo = 0, sem_now = 100\<rparr>"

definition sem_ex :: semst where
  "sem_ex = \<lparr>sema = [sem_ex_ds 0x81b6 0 5 0 2, sem_ex_ds 0x81b6 3 6 2 1],
     sems = [sem_ex_sem 4 0, sem_ex_sem 0 1, sem_ex_sem 1 0, sem_ex_sem 0 0],
     semmap = \<lparr>mapsize = 1, mapwant = 0, mapents = [\<lparr>m_size = 1, m_addr = 4\<rparr>, \<lparr>m_size = 0, m_addr = 0\<rparr>, \<lparr>m_size = 0, m_addr = 0\<rparr>]\<rparr>,
     semu_ent = (\<lambda>_. [])(0 := [\<lparr>un_aoe = 2, un_num = 0, un_id = 7\<rparr>]), sem_undo = (\<lambda>_. None)(3 := Some 0),
     semunp = [0], semfup = [1], seminfo = sem_ex_info, sem_waked = [], sem_sysinfo = 0, sem_now = 100\<rparr>"

definition sem_ex_u :: "nat \<Rightarrow> ucall" where
  "sem_ex_u slot = \<lparr>u_slot = slot, u_pid = 77, u_cred = example_cred 101\<rparr>"

definition sem_ex_op :: "nat \<Rightarrow> int \<Rightarrow> u32 \<Rightarrow> sembuf" where
  "sem_ex_op n v flg = \<lparr>sem_num = n, sem_op = v, sem_flg = flg\<rparr>"

lemma sem_ex_booted: "sem_boot sem_ex_boot"
  by (simp add: sem_boot_def sem_ex_boot_def sem_ex_info_def vals_def sem_ex_ds_def sem_ex_sem_def)

lemma sem_ex_cred: "cred_ok (u_cred (sem_ex_u slot))"
  by (simp add: cred_ok_def sem_ex_u_def example_cred_def)

lemma sem_ex_slive: "slive (sema sem_ex) = {0, 1}"
  by (auto simp: slive_def sem_ex_def sem_ex_ds_def allocd_def less_Suc_eq)

lemma sem_ex_tab: "tab_inv (seminfo sem_ex) (sema sem_ex) (semmap sem_ex) 4"
proof -
  have f: "free_units (semmap sem_ex) = {4}" "rm_inv (semmap sem_ex)"
    by (auto simp: sem_ex_def free_units_def rm_inv_def regions_def live_def units_def region_def)
  show ?thesis
    unfolding tab_inv_def sem_ex_slive rm.holds_def f(1) using f(2)
    by (auto simp: sem_ex_def sem_ex_info_def sem_ex_ds_def sregion_def span_def keys_unique_def less_Suc_eq)
qed

lemma sem_ex_vals: "vals sem_ex = [4, 0, 1, 0]"
  by (simp add: vals_def sem_ex_def sem_ex_sem_def)

lemma sem_ex_conv: "semconv sem_ex 0 = Some 0" "semconv sem_ex 7 = Some 1"
  by (simp_all add: semconv_def sem_ex_def sem_ex_info_def sem_ex_ds_def)

lemma sem_ex_ents: "ents sem_ex = (\<lambda>_. [])(3 := [\<lparr>un_aoe = 2, un_num = 0, un_id = 7\<rparr>])"
  by (auto simp: ents_def sem_ex_def fun_eq_iff)

lemma sem_ex_inv: "sem_inv sem_ex"
proof -
  have "un_inv sem_ex" by (auto simp: un_inv_def sem_ex_def sem_ex_info_def tab_bound_def tab_ok_def split: if_splits)
  moreover have "val_ok sem_ex" unfolding val_ok_def sem_ex_vals by (simp add: sem_ex_def sem_ex_info_def)
  moreover have "sem_nsems (sema sem_ex ! 1) = 1" by (simp add: sem_ex_def sem_ex_ds_def)
  then have "ents_live sem_ex" unfolding ents_live_def sem_ex_ents using sem_ex_conv by auto
  moreover have "length (sems sem_ex) = 4" by (simp add: sem_ex_def)
  ultimately show ?thesis using sem_ex_tab by (simp add: sem_ok_def)
qed

section \<open>Properties\<close>

text \<open>
  C14: \<^verbatim>\<open>semop\<close> is all or nothing. In every state of the facility and for every argument the call
  returns. If it succeeds, every semaphore has changed by the sum of the operations on it, and the
  adjustments of the calling process by the opposite of the sum of the operations with
  \<^verbatim>\<open>SEM_UNDO\<close>, no other process's adjustments having changed; if it fails or has to wait, all values and
  all adjustments of all processes are what they were, whatever operations had been done before.
\<close>

theorem semop_all_or_nothing:
  assumes "sem_inv s" "cred_ok (u_cred u)"
  shows "\<exists>r s'. semop s u i n uops = Some (r, s') \<and> sem_inv s' \<and>
    (if r = SDone then \<exists>k ops. semconv s i = Some k \<and> uops = Some ops
        \<and> (\<forall>j<length (sems s). vals s' ! j = vals s ! j + tot (sem_base (sema s ! k)) ops j)
        \<and> (\<forall>q x. aoe (ents s' q) x = aoe (ents s q) x -
             (if q = u_slot u \<and> fst x = i then tot 0 (filter undo_flag ops) (snd x) else 0))
     else vals s' = vals s \<and> ents s' = ents s)"
proof -
  obtain r s' where r: "semop s u i n uops = Some (r, s')" "sem_inv s'" "r \<noteq> SDone \<longrightarrow> vals s' = vals s \<and> ents s' = ents s"
    "r = SDone \<longrightarrow> (\<exists>k ops. semconv s i = Some k \<and> uops = Some ops \<and> pass_done u i (sem_base (sema s ! k)) ops s s')"
    using semop_spec [OF assms, of i n uops] by blast
  then show ?thesis unfolding pass_done_def by (cases "r = SDone") auto
qed

theorem semop_all_or_nothing_witness:
  "\<exists>s'. semop sem_ex (sem_ex_u 3) 0 2 (Some [sem_ex_op 0 3 0x1000, sem_ex_op 1 (- 1) 0x800]) = Some (SErr EAGAIN, s')
     \<and> vals s' = [4, 0, 1, 0] \<and> aoe (ents s' 3) (0, 0) = 0"
proof -
  have r: "map_option fst (semop sem_ex (sem_ex_u 3) 0 2 (Some [sem_ex_op 0 3 0x1000, sem_ex_op 1 (- 1) 0x800])) = Some (SErr EAGAIN)"
    by code_simp
  with semop_all_or_nothing [OF sem_ex_inv sem_ex_cred, of 3 0 2 "Some [sem_ex_op 0 3 0x1000, sem_ex_op 1 (- 1) 0x800]"] sem_ex_vals sem_ex_ents
  show ?thesis by (auto simp: uk_def)
qed


text \<open>
  \<^verbatim>\<open>semop\<close> puts a process to sleep only when it has to: the word slept on belongs to an operation
  without \<^verbatim>\<open>IPC_NOWAIT\<close> that the operations before it leave impossible, a decrement below zero or a
  wait for zero on a value that is not; and the process has been counted among the sleepers.
\<close>

theorem semop_waits_only_if:
  assumes "sem_inv s" "cred_ok (u_cred u)" "semop s u i n uops = Some (SWait ch, s')"
  shows "\<exists>k pre op post. semconv s i = Some k \<and> uops = Some (pre @ op # post) \<and> sem_flg op AND IPC_NOWAIT = 0
    \<and> blocks s (sem_base (sema s ! k)) pre op ch \<and> counted s s' ch"
  using semop_spec [OF assms(1,2), of i n uops] assms(3) by auto

theorem semop_waits_only_if_witness:
  "\<exists>s'. semop sem_ex (sem_ex_u 3) 0 2 (Some [sem_ex_op 0 3 0, sem_ex_op 1 (- 1) 0]) = Some (SWait (NCnt 1), s')
     \<and> counted sem_ex s' (NCnt 1)"
proof -
  have "map_option fst (semop sem_ex (sem_ex_u 3) 0 2 (Some [sem_ex_op 0 3 0, sem_ex_op 1 (- 1) 0])) = Some (SWait (NCnt 1))"
    by code_simp
  then obtain s' where r: "semop sem_ex (sem_ex_u 3) 0 2 (Some [sem_ex_op 0 3 0, sem_ex_op 1 (- 1) 0]) = Some (SWait (NCnt 1), s')"
    by auto
  with semop_waits_only_if [OF sem_ex_inv sem_ex_cred r] show ?thesis by auto
qed

text \<open>
  No wakeup is lost. When \<^verbatim>\<open>semop\<close> succeeds, nobody is left counted as waiting for a semaphore that
  an operation incremented, nor as waiting for zero on one that became zero; and whoever was counted
  there before has been woken.
\<close>

theorem semop_wakes:
  assumes "sem_inv s" "cred_ok (u_cred u)" "semop s u i n (Some ops) = Some (SDone, s')" "semconv s i = Some k" "j < length (sems s)"
  shows "((\<exists>op\<in>set ops. sem_base (sema s ! k) + sem_num op = j \<and> sem_op op > 0) \<longrightarrow>
      ncnt s' j = 0 \<and> (ncnt s j \<noteq> 0 \<longrightarrow> NCnt j \<in> set (sem_waked s')))
    \<and> (vals s ! j \<noteq> 0 \<and> vals s' ! j = 0 \<longrightarrow> zcnt s' j = 0 \<and> (zcnt s j \<noteq> 0 \<longrightarrow> ZCnt j \<in> set (sem_waked s')))"
proof -
  have "pass_done u i (sem_base (sema s ! k)) ops s s'" using semop_spec [OF assms(1,2), of i n "Some ops"] assms(3,4) by auto
  then have "woken (sem_base (sema s ! k)) ops s s'" by (simp add: pass_done_def)
  then have w: "ncnt s' j = ncnt s j \<or> ncnt s' j = 0 \<and> NCnt j \<in> set (sem_waked s')"
     "zcnt s' j = zcnt s j \<or> zcnt s' j = 0 \<and> ZCnt j \<in> set (sem_waked s')"
     "(\<exists>op\<in>set ops. sem_base (sema s ! k) + sem_num op = j \<and> sem_op op > 0) \<longrightarrow> ncnt s' j = 0"
     "vals s' ! j = 0 \<longrightarrow> vals s ! j = 0 \<or> zcnt s' j = 0"
    using assms(5) unfolding woken_def by blast+
  show ?thesis
  proof (intro conjI impI)
    assume "\<exists>op\<in>set ops. sem_base (sema s ! k) + sem_num op = j \<and> sem_op op > 0"
    then show "ncnt s' j = 0" using w(3) by simp
    then show "NCnt j \<in> set (sem_waked s')" if "ncnt s j \<noteq> 0" using w(1) that by simp
  next
    assume v: "vals s ! j \<noteq> 0 \<and> vals s' ! j = 0"
    then show "zcnt s' j = 0" using w(4) by simp
    then show "ZCnt j \<in> set (sem_waked s')" if "zcnt s j \<noteq> 0" using w(2) that by simp
  qed
qed

theorem semop_wakes_witness:
  "\<exists>s'. semop sem_ex (sem_ex_u 3) 0 1 (Some [sem_ex_op 1 2 0]) = Some (SDone, s') \<and> ncnt sem_ex 1 = 1
     \<and> ncnt s' 1 = 0 \<and> NCnt 1 \<in> set (sem_waked s')"
proof -
  have "map_option fst (semop sem_ex (sem_ex_u 3) 0 1 (Some [sem_ex_op 1 2 0])) = Some SDone" by code_simp
  then obtain s' where r: "semop sem_ex (sem_ex_u 3) 0 1 (Some [sem_ex_op 1 2 0]) = Some (SDone, s')" by auto
  have "ncnt sem_ex 1 = 1" "1 < length (sems sem_ex)" "sem_base (sema sem_ex ! 0) = 0"
    by (simp_all add: ncnt_def sem_ex_def sem_ex_sem_def sem_ex_ds_def)
  with semop_wakes [OF sem_ex_inv sem_ex_cred r sem_ex_conv(1), of 1] r show ?thesis by (simp add: sem_ex_op_def)
qed

text \<open>
  \<^verbatim>\<open>semexit\<close>. When a process exits, each semaphore it has an adjustment for changes by that
  adjustment, unless the sum leaves the range of values, in which case it keeps its value; all other
  semaphores are untouched, the process's entries are gone and its undo structure is free.
\<close>

theorem semexit_adjusts:
  assumes "sem_inv s"
  shows "\<exists>s'. semexit s slot = Some s' \<and> sem_inv s' \<and> sem_undo s' slot = None \<and> ents s' = (ents s)(slot := [])
    \<and> (\<forall>e\<in>set (ents s slot). vals s' ! sem_at s (uk e) = adjust (sim_semvmx (seminfo s)) (vals s ! sem_at s (uk e)) (un_aoe e))
    \<and> (\<forall>j. j \<notin> (\<lambda>e. sem_at s (uk e)) ` set (ents s slot) \<longrightarrow> vals s' ! j = vals s ! j)"
  by (rule semexit_spec [OF assms])

theorem semexit_adjusts_witness:
  "\<exists>s'. semexit sem_ex 3 = Some s' \<and> sem_inv s' \<and> vals s' ! 2 = 3 \<and> vals s' ! 0 = 4 \<and> ents s' 3 = []"
proof -
  have "sem_at sem_ex (7, 0) = 2" using sem_at_conv [OF sem_ex_conv(2), of 0] by (simp add: sem_ex_def sem_ex_ds_def)
  moreover have "sim_semvmx (seminfo sem_ex) = 10" by (simp add: sem_ex_def sem_ex_info_def)
  ultimately show ?thesis
    using semexit_adjusts [OF sem_ex_inv, of 3] sem_ex_vals by (auto simp: sem_ex_ents uk_def adjust_def)
qed

text \<open>
  Removing a set with \<^verbatim>\<open>IPC_RMID\<close> retires its identifier: afterwards it names nothing, no process
  has an adjustment for it, its semaphores are zero and free, and every other identifier still names
  the set it named.
\<close>

theorem semctl_rmid_retires:
  assumes "sem_inv s" "semconv s i = Some k" "sem_owner (sem_perm (sema s ! k)) (u_cred u)"
  shows "\<exists>s'. semctl s u i n C_RMID out = Some (Inr (OVal 0, s')) \<and> sem_inv s' \<and> semconv s' i = None
    \<and> (\<forall>q e. e \<in> set (ents s' q) \<longleftrightarrow> e \<in> set (ents s q) \<and> un_id e \<noteq> i)
    \<and> (\<forall>j<length (sems s). vals s' ! j = (if j + 1 \<in> span (sregion (sema s ! k)) then 0 else vals s ! j))
    \<and> (\<forall>i' j. i' \<noteq> i \<and> semconv s i' = Some j \<longrightarrow> semconv s' i' = Some j \<and> sema s' ! j = sema s ! j)"
  using semctl_rmid_spec [OF assms] assms(2) by (simp add: semctl_def)

theorem semctl_rmid_retires_witness:
  "\<exists>s'. semctl sem_ex (sem_ex_u 3) 7 0 C_RMID (\<lambda>_. True) = Some (Inr (OVal 0, s')) \<and> semconv s' 7 = None
     \<and> ents s' 3 = [] \<and> vals s' ! 2 = 0 \<and> semconv s' 0 = Some 0"
proof -
  have "sem_owner (sem_perm (sema sem_ex ! 1)) (u_cred (sem_ex_u 3))"
    by (simp add: sem_owner_def sem_ex_def sem_ex_ds_def sem_ex_u_def example_cred_def)
  from semctl_rmid_retires [OF sem_ex_inv sem_ex_conv(2) this, of 0 "\<lambda>_. True"] show ?thesis
  proof (elim exE conjE)
    fix s'
    assume r: "semctl sem_ex (sem_ex_u 3) 7 0 C_RMID (\<lambda>_. True) = Some (Inr (OVal 0, s'))" "semconv s' 7 = None"
      "\<forall>q e. e \<in> set (ents s' q) \<longleftrightarrow> e \<in> set (ents sem_ex q) \<and> un_id e \<noteq> 7"
      "\<forall>j<length (sems sem_ex). vals s' ! j = (if j + 1 \<in> span (sregion (sema sem_ex ! 1)) then 0 else vals sem_ex ! j)"
      "\<forall>i' j. i' \<noteq> 7 \<and> semconv sem_ex i' = Some j \<longrightarrow> semconv s' i' = Some j \<and> sema s' ! j = sema sem_ex ! j"
    have "e \<notin> set (ents s' 3)" for e using r(3) [rule_format, of e 3] by (auto simp: sem_ex_ents)
    then have "ents s' 3 = []" by (metis hd_in_set)
    moreover have "vals s' ! 2 = 0" using spec [OF r(4), of 2] by (simp add: sem_ex_def sem_ex_ds_def span_def sregion_def)
    moreover have "semconv s' 0 = Some 0" using r(5) sem_ex_conv(1) by fastforce
    ultimately show ?thesis using r(1,2) by simp
  qed
qed

text \<open>
  \<^verbatim>\<open>semget\<close> returns for every argument and keeps the values of all semaphores, all adjustments and
  all existing sets. The identifier it returns names, until it is removed, a set with the key asked
  for and at least as many semaphores as asked for, and it fits in 15 bits; a new set has exactly
  that many and shares no semaphore with another set.
\<close>

theorem semget_correct:
  assumes "sem_inv s"
  shows "\<exists>r s'. semget s u ky nsems flg = Some (r, s') \<and> sem_inv s' \<and> vals s' = vals s \<and> ents s' = ents s
    \<and> (\<forall>j\<in>slive (sema s). sema s' ! j = sema s ! j)
    \<and> (case r of Inl _ \<Rightarrow> slive (sema s') = slive (sema s)
       | Inr i \<Rightarrow> \<exists>k. semconv s' i = Some k \<and> 0 \<le> i \<and> i \<le> 32767 \<and> nsems \<le> int (sem_nsems (sema s' ! k)) \<and> key (sem_perm (sema s' ! k)) = ky
           \<and> (k \<notin> slive (sema s) \<longrightarrow> int (sem_nsems (sema s' ! k)) = nsems
                \<and> (\<forall>j\<in>slive (sema s). span (sregion (sema s' ! k)) \<inter> span (sregion (sema s ! j)) = {})))"
  using semget_spec [OF assms, of u ky nsems flg] by blast

theorem semget_correct_witness:
  "\<exists>r s'. semget sem_ex (sem_ex_u 3) 5 2 0 = Some (r, s') \<and> sem_inv s' \<and> vals s' = [4, 0, 1, 0]"
  using semget_correct [OF sem_ex_inv, of "sem_ex_u 3" 5 2 0] sem_ex_vals by auto

text \<open>
  \<^verbatim>\<open>semunrm\<close>, whose loops stop at the first entry beyond the range and which takes emptied
  structures off the chain while walking it, removes from every process exactly the entries of the
  identifier and range given, and keeps the undo structures well formed.
\<close>

theorem semunrm_exact:
  assumes "un_inv s"
  shows "un_inv (semunrm s i low high) \<and>
    (\<forall>q. ents (semunrm s i low high) q = filter (\<lambda>e. \<not> (un_id e = i \<and> low \<le> un_num e \<and> un_num e \<le> high)) (ents s q))"
  using semunrm_spec [OF assms, of i low high] by simp

theorem semunrm_exact_witness:
  "ents (semunrm sem_ex 7 0 0) 3 = [] \<and> ents (semunrm sem_ex 7 1 1) 3 = ents sem_ex 3"
  using semunrm_exact [OF sem_okD(2) [OF sem_ex_inv], of 7 0 0] semunrm_exact [OF sem_okD(2) [OF sem_ex_inv], of 7 1 1]
  by (simp add: sem_ex_ents)

interpretation semf: facility "\<lambda>s. \<exists>s0. sem_boot s0 \<and> seminit s0 = Some s" "sem_step L" "sem_ok L" for L
proof unfold_locales
  show "sem_ok L s" if "\<exists>s0. sem_boot s0 \<and> seminit s0 = Some s" for s
    using that seminit_spec by (fastforce simp: sem_ok_def)
qed (rule sem_step_inv)

text \<open>
  C25: every state that system calls, wakeups, signals, exits and the clock lead to from the booted
  facility satisfies the invariant: the sets are apart from each other and from the free units, the
  values are within 0 and \<^verbatim>\<open>semvmx\<close>, every adjustment is within \<^verbatim>\<open>semaem\<close>, no undo structure is shared or free and in use,
  and identifiers fit in 15 bits. A process that was woken may have any operations in its memory when they are copied in again. When these
  always name semaphores of the set (\<open>L\<close>; the code does not check it), every adjustment is also about a semaphore of an existing set.
\<close>

theorem sem_reachable_inv:
  assumes "sem_boot s0" "seminit s0 = Some s1" "(sem_step L)\<^sup>*\<^sup>* s1 s"
  shows "tab_inv (seminfo s) (sema s) (semmap s) (length (sems s)) \<and> un_inv s \<and> val_ok s \<and> (L \<longrightarrow> ents_live s)"
  using semf.reached [OF assms(3)] assms(1,2) unfolding sem_ok_def by blast

theorem sem_reachable_inv_witness:
  "\<exists>s1. seminit sem_ex_boot = Some s1 \<and> val_ok (s1\<lparr>sem_now := 200\<rparr>) \<and> ents_live (s1\<lparr>sem_now := 200\<rparr>)"
proof -
  obtain s1 where s1: "seminit sem_ex_boot = Some s1" using seminit_spec [OF sem_ex_booted] by blast
  have "(sem_step True)\<^sup>*\<^sup>* s1 (s1\<lparr>sem_now := 200\<rparr>)" using sem_step.clock by blast
  from sem_reachable_inv [OF sem_ex_booted s1 this] s1 show ?thesis by blast
qed

text \<open>
  C37: from every such state every system call of the facility returns with a result or an error, or puts the process to sleep on a word
  of the array, and nothing outside the tables is read or written on the way. \<^verbatim>\<open>copyin\<close> delivers as many values as \<^verbatim>\<open>SETALL\<close> asks for.
  The same holds of what \<^verbatim>\<open>semop\<close> does after the sleep: when a signal ended it, and, when the process was woken, provided that the operations
  copied in again give semaphores of the array (and of the set, for the last part of the invariant). The code checks this only before the
  sleep; \<open>semop_again_unchecked\<close> shows what happens otherwise.
\<close>

theorem semsys_returns:
  assumes "sem_ok L s" "cred_ok (u_cred u)"
  shows "(call_ok s c \<longrightarrow> (\<exists>r s'. semsys s u c = Some (r, s') \<and> sem_ok L s' \<and> (\<forall>ch. r = RWait ch \<longrightarrow> chan_in s' ch)))
    \<and> (chan_in s ch \<longrightarrow> (\<exists>s'. semop_intr s ch = Some (SErr EINTR, s') \<and> sem_ok L s'))
    \<and> (k = nat i mod sim_semmni (seminfo s)
         \<and> (\<forall>ops j. uops = Some ops \<and> semconv s i = Some j \<longrightarrow>
              (\<forall>op\<in>set ops. sem_base (sema s ! j) + sem_num op < length (sems s) \<and> (L \<longrightarrow> sem_num op < sem_nsems (sema s ! j)))) \<longrightarrow>
       (\<exists>r s'. semop_again s u i k uops = Some (r, s') \<and> sem_ok L s' \<and> (\<forall>ch. r = SWait ch \<longrightarrow> chan_in s' ch)))"
proof (intro conjI impI; (elim conjE)?)
  assume "call_ok s c"
  then show "\<exists>r s'. semsys s u c = Some (r, s') \<and> sem_ok L s' \<and> (\<forall>ch. r = RWait ch \<longrightarrow> chan_in s' ch)"
    using semsys_spec [OF assms] semsys_waits [OF assms(1)] by blast
next
  assume "chan_in s ch"
  then show "\<exists>s'. semop_intr s ch = Some (SErr EINTR, s') \<and> sem_ok L s'"
    using semop_intr_spec [OF assms(1)] unfolding chan_in_def by blast
next
  assume k: "k = nat i mod sim_semmni (seminfo s)"
    and ops: "\<forall>ops j. uops = Some ops \<and> semconv s i = Some j \<longrightarrow>
      (\<forall>op\<in>set ops. sem_base (sema s ! j) + sem_num op < length (sems s) \<and> (L \<longrightarrow> sem_num op < sem_nsems (sema s ! j)))"
  obtain r s' where "semop_again s u i k uops = Some (r, s')" "sem_ok L s'"
    using semop_again_spec [OF assms(1) _ k, of uops u] ops by blast
  then show "\<exists>r s'. semop_again s u i k uops = Some (r, s') \<and> sem_ok L s' \<and> (\<forall>ch. r = SWait ch \<longrightarrow> chan_in s' ch)"
    using semop_again_waits [OF assms(1)] by blast
qed

theorem semsys_returns_witness:
  "(\<exists>r s'. semsys sem_ex (sem_ex_u 3) (SemCtl 0 1 (C_SETALL (Some [9, 0])) (\<lambda>_. True)) = Some (r, s') \<and> sem_inv s')
    \<and> (\<exists>r s'. semop_again sem_ex (sem_ex_u 3) 0 0 (Some [sem_ex_op 1 2 0]) = Some (r, s') \<and> sem_inv s')"
proof -
  have n: "sem_nsems (sema sem_ex ! 0) = 2" "sem_base (sema sem_ex ! 0) = 0" "length (sems sem_ex) = 4" "sim_semmni (seminfo sem_ex) \<noteq> 0"
    by (simp_all add: sem_ex_def sem_ex_ds_def sem_ex_info_def)
  then have c: "call_ok sem_ex (SemCtl 0 1 (C_SETALL (Some [9, 0])) (\<lambda>_. True))" by (simp add: call_ok_def cmd_ok_def sem_ex_conv)
  have a: "\<exists>r s'. semsys sem_ex (sem_ex_u 3) (SemCtl 0 1 (C_SETALL (Some [9, 0])) (\<lambda>_. True)) = Some (r, s') \<and> sem_inv s'"
    using mp [OF conjunct1 [OF semsys_returns [OF sem_ex_inv sem_ex_cred [of 3]]] c] by blast
  have o: "0 = nat 0 mod sim_semmni (seminfo sem_ex) \<and> (\<forall>ops j. Some [sem_ex_op 1 2 0] = Some ops \<and> semconv sem_ex 0 = Some j \<longrightarrow>
      (\<forall>op\<in>set ops. sem_base (sema sem_ex ! j) + sem_num op < length (sems sem_ex) \<and> (True \<longrightarrow> sem_num op < sem_nsems (sema sem_ex ! j))))"
    using n by (auto simp: sem_ex_conv sem_ex_op_def)
  have b: "\<exists>r s'. semop_again sem_ex (sem_ex_u 3) 0 0 (Some [sem_ex_op 1 2 0]) = Some (r, s') \<and> sem_inv s'"
    using mp [OF conjunct2 [OF conjunct2 [OF semsys_returns [OF sem_ex_inv sem_ex_cred [of 3]]]] o] by blast
  show ?thesis by (intro conjI a b)
qed

section \<open>Operations copied in after a sleep\<close>

text \<open>
  A process that was woken copies its operations in again, \<^verbatim>\<open>sem.c\<close> line 659, but the check of the
  semaphore numbers, lines 638 to 644, is not repeated. If another thread of control changed the
  buffer meanwhile, the operation below, number 2 of a set of two, is done on the semaphore of
  another set.
\<close>

theorem semop_again_unchecked:
  "sem_nsems (sema sem_ex ! 0) = 2
   \<and> map_option (\<lambda>(r, s'). (r, vals s')) (semop_again sem_ex (sem_ex_u 5) 0 0 (Some [sem_ex_op 2 6 0])) = Some (SDone, [4, 0, 7, 0])"
proof
  show "sem_nsems (sema sem_ex ! 0) = 2" by (simp add: sem_ex_def sem_ex_ds_def)
  show "map_option (\<lambda>(r, s'). (r, vals s')) (semop_again sem_ex (sem_ex_u 5) 0 0 (Some [sem_ex_op 2 6 0])) = Some (SDone, [4, 0, 7, 0])"
    by code_simp
qed

end
