(* ===== verification/KMsg.thy ===== *)
theory KMsg
  imports KRmap KChain KCred
begin

text \<open>
  System V messages, \<^verbatim>\<open>uts/i386/os/msg.c\<close>: queues of message headers linked through \<^verbatim>\<open>msg_next\<close>, a
  chain of free headers, and one buffer for the texts of all messages, carved up by a resource map
  in segments of \<^verbatim>\<open>msgssz\<close> bytes.

  A header is known by its index in \<^verbatim>\<open>msgh\<close>; the buffer is a function from offsets to bytes.
  \<^verbatim>\<open>wakeprocs\<close> is recorded in \<open>msg_waked\<close>, newest first, as the word slept on. A queue is locked while a
  call works on it, because \<^verbatim>\<open>copyin\<close> and \<^verbatim>\<open>copyout\<close> may sleep. \<^verbatim>\<open>msgsnd\<close> and \<^verbatim>\<open>msgrcv\<close> are modelled as the
  sections between two points at which they let go of the processor: a section ends with the result
  of the call, with the word to sleep on, or with the values of the local variables that the next
  section starts from. \<^verbatim>\<open>msgsnd\<close> takes a header and text space and then copies the text in, which may
  sleep with the queue locked and the header and space belonging to no queue; so the copy starts a
  section of its own. The other sections change nothing before their last \<^verbatim>\<open>copyout\<close>.
\<close>

section \<open>Data\<close>

record msg_t =
  msg_next :: "nat option"
  msg_type :: int
  msg_ts :: nat
  msg_spot :: int

record msqid_ds =
  msg_perm :: ipc_perm
  msg_first :: "nat option"
  msg_last :: "nat option"
  msg_cbytes :: nat
  msg_qnum :: nat
  msg_qbytes :: nat
  msg_lspid :: int
  msg_lrpid :: int
  msg_stime :: int
  msg_rtime :: int
  msg_ctime :: int

record msginfo_t =
  msi_msgmap :: nat
  msi_msgmax :: int
  msi_msgmnb :: nat
  msi_msgmni :: nat
  msi_msgssz :: nat
  msi_msgtql :: nat
  msi_msgseg :: nat

datatype msgchan = WQueue nat | WQnum nat | WFree | WMap | WLock nat

record msgst =
  msgque :: "msqid_ds list"
  msgh :: "nat \<Rightarrow> msg_t"
  msgfp :: "nat option"
  msgmap :: rmap
  msglock :: "bool list"
  mbuf :: "nat \<Rightarrow> nat"
  msginfo :: msginfo_t
  msg_waked :: "msgchan list"
  msg_sysinfo :: nat
  msg_now :: int

abbreviation MSG_R :: u32 where "MSG_R \<equiv> 0x100"
abbreviation MSG_W :: u32 where "MSG_W \<equiv> 0x80"
abbreviation MSG_RWAIT :: u32 where "MSG_RWAIT \<equiv> 0x200"
abbreviation MSG_WWAIT :: u32 where "MSG_WWAIT \<equiv> 0x400"
abbreviation MSG_NOERROR :: u32 where "MSG_NOERROR \<equiv> 0x1000"

section \<open>Helpers\<close>

definition btoq :: "msginfo_t \<Rightarrow> nat \<Rightarrow> nat" where
  "btoq mi x = (x + msi_msgssz mi - 1) div msi_msgssz mi"

definition set_q :: "msgst \<Rightarrow> nat \<Rightarrow> (msqid_ds \<Rightarrow> msqid_ds) \<Rightarrow> msgst" where
  "set_q s k f = s\<lparr>msgque := (msgque s)[k := f (msgque s ! k)]\<rparr>"

definition set_qmode :: "(u32 \<Rightarrow> u32) \<Rightarrow> msqid_ds \<Rightarrow> msqid_ds" where
  "set_qmode f q = q\<lparr>msg_perm := (msg_perm q)\<lparr>mode := f (mode (msg_perm q))\<rparr>\<rparr>"

definition set_next :: "msgst \<Rightarrow> nat \<Rightarrow> nat option \<Rightarrow> msgst" where
  "set_next s m v = s\<lparr>msgh := (msgh s)(m := (msgh s m)\<lparr>msg_next := v\<rparr>)\<rparr>"

definition mwake :: "msgchan \<Rightarrow> msgst \<Rightarrow> msgst" where
  "mwake ch s = s\<lparr>msg_waked := ch # msg_waked s\<rparr>"

definition unlock :: "nat \<Rightarrow> msgst \<Rightarrow> msgst" where
  "unlock k s = mwake (WLock k) (s\<lparr>msglock := (msglock s)[k := False]\<rparr>)"

text \<open>Freeing a header, the same in \<^verbatim>\<open>msgfree\<close> and \<^verbatim>\<open>msgsnd\<close>.\<close>

definition hdr_free :: "nat \<Rightarrow> msgst \<Rightarrow> msgst" where
  "hdr_free m s = (let s1 = set_next s m (msgfp s); s2 = (if msgfp s = None then mwake WFree s1 else s1) in s2\<lparr>msgfp := Some m\<rparr>)"

definition map_free :: "msgst \<Rightarrow> nat \<Rightarrow> nat \<Rightarrow> msgst option" where
  "map_free s n a = do {
     (w, m) \<leftarrow> rmfree (msgmap s) n a;
     let s1 = s\<lparr>msgmap := m\<rparr>;
     Some (if w then mwake WMap s1 else s1) }"

definition msgfree :: "msgst \<Rightarrow> nat \<Rightarrow> nat option \<Rightarrow> nat \<Rightarrow> msgst option" where
  "msgfree s k pmp mp = do {
     let nx = msg_next (msgh s mp);
     let s = (case pmp of None \<Rightarrow> set_q s k (\<lambda>q. q\<lparr>msg_first := nx\<rparr>) | Some p \<Rightarrow> set_next s p nx);
     let s = (if msg_next (msgh s mp) = None then set_q s k (\<lambda>q. q\<lparr>msg_last := pmp\<rparr>) else s);
     let s = set_q s k (\<lambda>q. q\<lparr>msg_qnum := u32sub (msg_qnum q) 1\<rparr>);
     let s = (if mode (msg_perm (msgque s ! k)) AND MSG_WWAIT \<noteq> 0
              then mwake (WQueue k) (set_q s k (set_qmode (\<lambda>m. m AND NOT MSG_WWAIT))) else s);
     s \<leftarrow> (if msg_ts (msgh s mp) \<noteq> 0
          then map_free s (btoq (msginfo s) (msg_ts (msgh s mp))) (nat (msg_spot (msgh s mp) + 1)) else Some s);
     Some (hdr_free mp s) }"

text \<open>
  \<^verbatim>\<open>msgconv\<close>: the queue is found and locked, there is none, or the process sleeps until the lock is
  released and starts again.
\<close>

datatype convres = CGot nat | CInval | CBusy nat

definition msgconv :: "msgst \<Rightarrow> int \<Rightarrow> convres \<times> msgst" where
  "msgconv s i =
    (if i < 0 then (CInval, s)
     else let k = nat i mod msi_msgmni (msginfo s); p = msg_perm (msgque s ! k) in
       if msglock s ! k then (CBusy k, s)
       else if mode p AND IPC_ALLOC = 0 \<or> nat i div msi_msgmni (msginfo s) \<noteq> seq p
       then (CInval, mwake (WLock k) s)
       else (CGot k, s\<lparr>msglock := (msglock s)[k := True]\<rparr>))"

section \<open>msgctl\<close>

text \<open>How a section ends.\<close>

datatype msgout = MZero | MDs msqid_ds | MId int | MText int "nat list"

datatype msgres = MErr errno | MVal msgout | MSleep msgchan | MNext nat | MHold nat nat

datatype msgcmd = MC_RMID | MC_O_SET "(int \<times> int \<times> u32 \<times> nat) option" | MC_SET "(int \<times> int \<times> u32 \<times> nat) option"
  | MC_O_STAT bool | MC_STAT bool | MC_OTHER

partial_function (option) msg_flush :: "msgst \<Rightarrow> nat \<Rightarrow> msgst option" where
  "msg_flush s k =
     (case msg_first (msgque s ! k) of None \<Rightarrow> Some s
      | Some m \<Rightarrow> do { s \<leftarrow> msgfree s k None m; msg_flush s k })"

definition msg_owner :: "ipc_perm \<Rightarrow> cred \<Rightarrow> bool" where
  "msg_owner p cr \<longleftrightarrow> cr_uid cr = uid p \<or> cr_uid cr = cuid p \<or> suser cr"

definition msgctl_rmid :: "msgst \<Rightarrow> ucall \<Rightarrow> int \<Rightarrow> nat \<Rightarrow> (msgres \<times> msgst) option" where
  "msgctl_rmid s u i k =
    (if \<not> msg_owner (msg_perm (msgque s ! k)) (u_cred u) then Some (MErr EPERM, s)
     else do {
       s \<leftarrow> msg_flush s k;
       let s = set_q s k (\<lambda>q. q\<lparr>msg_cbytes := 0, msg_perm := (msg_perm q)\<lparr>seq :=
           (if i + int (msi_msgmni (msginfo s)) > INT16_MAX then 0 else seq (msg_perm q) + 1)\<rparr>\<rparr>);
       let md = mode (msg_perm (msgque s ! k));
       let s = (if md AND MSG_RWAIT \<noteq> 0 then mwake (WQnum k) s else s);
       let s = (if md AND MSG_WWAIT \<noteq> 0 then mwake (WQueue k) s else s);
       Some (MVal MZero, set_q s k (set_qmode (\<lambda>_. 0))) })"

definition msgctl_set :: "msgst \<Rightarrow> ucall \<Rightarrow> nat \<Rightarrow> bool \<Rightarrow> (int \<times> int \<times> u32 \<times> nat) option \<Rightarrow> msgres \<times> msgst" where
  "msgctl_set s u k expanded arg =
    (let q = msgque s ! k in
     if \<not> msg_owner (msg_perm q) (u_cred u) then (MErr EPERM, s)
     else (case arg of None \<Rightarrow> (MErr EFAULT, s)
       | Some (ui, gi, md, qb) \<Rightarrow>
           if qb > msg_qbytes q \<and> \<not> suser (u_cred u) then (MErr EPERM, s)
           else if ui > MAXUID \<or> gi > MAXUID \<or> expanded \<and> (ui < 0 \<or> gi < 0) then (MErr EINVAL, s)
           else (MVal MZero, set_q s k (\<lambda>q. q\<lparr>msg_perm := (msg_perm q)\<lparr>uid := ui, gid := gi,
                  mode := mode (msg_perm q) AND NOT 0x1ff OR md AND 0x1ff\<rparr>, msg_qbytes := qb, msg_ctime := msg_now s\<rparr>))))"

definition msgctl_stat :: "msgst \<Rightarrow> ucall \<Rightarrow> nat \<Rightarrow> bool \<Rightarrow> bool \<Rightarrow> (msgres \<times> msgst) option" where
  "msgctl_stat s u k old out = do {
     let q = msgque s ! k;
     e \<leftarrow> ipcaccess (msg_perm q) MSG_R (u_cred u);
     Some (case e of Some x \<Rightarrow> (MErr x, s)
       | None \<Rightarrow>
           if old \<and> (uid (msg_perm q) > 65535 \<or> gid (msg_perm q) > 65535 \<or> cuid (msg_perm q) > 65535
                \<or> cgid (msg_perm q) > 65535 \<or> seq (msg_perm q) > 65535 \<or> msg_cbytes q > 65535
                \<or> msg_qnum q > 65535 \<or> msg_qbytes q > 65535 \<or> msg_lspid q > 32767 \<or> msg_lrpid q > 32767)
           then (MErr EOVERFLOW, s)
           else if out then (MVal (MDs (if old then q\<lparr>msg_first := None, msg_last := None\<rparr> else q)), s)
           else (MErr EFAULT, s)) }"

definition msgctl :: "msgst \<Rightarrow> ucall \<Rightarrow> int \<Rightarrow> msgcmd \<Rightarrow> (msgres \<times> msgst) option" where
  "msgctl s u i cmd =
    (case msgconv s i of
       (CInval, s) \<Rightarrow> Some (MErr EINVAL, s)
     | (CBusy k, s) \<Rightarrow> Some (MSleep (WLock k), s)
     | (CGot k, s) \<Rightarrow> do {
         (r, s) \<leftarrow> (case cmd of
             MC_RMID \<Rightarrow> msgctl_rmid s u i k
           | MC_O_SET arg \<Rightarrow> Some (msgctl_set s u k False arg)
           | MC_SET arg \<Rightarrow> Some (msgctl_set s u k True arg)
           | MC_O_STAT out \<Rightarrow> msgctl_stat s u k True out
           | MC_STAT out \<Rightarrow> msgctl_stat s u k False out
           | MC_OTHER \<Rightarrow> Some (MErr EINVAL, s));
         Some (r, unlock k s) })"

section \<open>msgget and initialization\<close>

definition put_mperms :: "msqid_ds list \<Rightarrow> ipc_perm list \<Rightarrow> msqid_ds list" where
  "put_mperms ds ps = map2 (\<lambda>d p. d\<lparr>msg_perm := p\<rparr>) ds ps"

definition msgget :: "msgst \<Rightarrow> ucall \<Rightarrow> int \<Rightarrow> u32 \<Rightarrow> msgres \<times> msgst" where
  "msgget s u ky flg =
    (case ipcget ky flg (u_cred u) (map msg_perm (msgque s)) of
       Inl e \<Rightarrow> (MErr e, s)
     | Inr (created, k, perms) \<Rightarrow>
         let s = s\<lparr>msgque := put_mperms (msgque s) perms\<rparr>;
             s = (if created then set_q s k (\<lambda>q. q\<lparr>msg_first := None, msg_last := None, msg_qnum := 0,
                    msg_qbytes := msi_msgmnb (msginfo s) mod 65536, msg_lspid := 0, msg_lrpid := 0,
                    msg_stime := 0, msg_rtime := 0, msg_ctime := msg_now s\<rparr>) else s) in
         (MVal (MId (int (seq (msg_perm (msgque s ! k)) * msi_msgmni (msginfo s) + k))), s))"

text \<open>\<open>kseg\<close> says whether the memory for the buffer could be allocated.\<close>

definition msginit :: "msgst \<Rightarrow> bool \<Rightarrow> msgst option" where
  "msginit s kseg = do {
     let s = (if kseg then s else s\<lparr>msginfo := (msginfo s)\<lparr>msi_msgseg := 0\<rparr>\<rparr>);
     (_, m) \<leftarrow> rmfree (mapinit (msi_msgmap (msginfo s))) (msi_msgseg (msginfo s)) 1;
     Some (s\<lparr>msgmap := m, msgfp := Some 0,
             msgh := (\<lambda>j. if Suc j < msi_msgtql (msginfo s) then (msgh s j)\<lparr>msg_next := Some (Suc j)\<rparr> else msgh s j)\<rparr>) }"

section \<open>msgrcv\<close>

text \<open>Up to the label \<^verbatim>\<open>findmsg\<close>.\<close>

definition msgrcv_check :: "msgst \<Rightarrow> ucall \<Rightarrow> int \<Rightarrow> int \<Rightarrow> (msgres \<times> msgst) option" where
  "msgrcv_check s u i msgsz =
    (case msgconv s i of
       (CInval, s) \<Rightarrow> Some (MErr EINVAL, s)
     | (CBusy k, s) \<Rightarrow> Some (MSleep (WLock k), s)
     | (CGot k, s) \<Rightarrow> do {
         e \<leftarrow> ipcaccess (msg_perm (msgque s ! k)) MSG_R (u_cred u);
         Some (case e of Some x \<Rightarrow> MErr x | None \<Rightarrow> if msgsz < 0 then MErr EINVAL else MNext k, unlock k s) })"

text \<open>The search loop, from \<open>mp\<close> with predecessor \<open>pmp\<close>; \<open>smp\<close> and \<open>spmp\<close> are the best so far.\<close>

partial_function (option) msg_find ::
  "(nat \<Rightarrow> msg_t) \<Rightarrow> int \<Rightarrow> nat option \<Rightarrow> nat option \<Rightarrow> nat option \<Rightarrow> nat option \<Rightarrow> (nat option \<times> nat option) option" where
  "msg_find h typ pmp mp smp spmp =
     (case mp of None \<Rightarrow> Some (smp, spmp)
      | Some m \<Rightarrow>
          if typ > 0 then
            if typ \<noteq> msg_type (h m) then msg_find h typ mp (msg_next (h m)) smp spmp
            else Some (mp, pmp)
          else if msg_type (h m) \<le> s32 (- typ) then
            if (case smp of None \<Rightarrow> False | Some b \<Rightarrow> msg_type (h b) \<le> msg_type (h m))
            then msg_find h typ mp (msg_next (h m)) smp spmp
            else msg_find h typ mp (msg_next (h m)) mp pmp
          else msg_find h typ mp (msg_next (h m)) smp spmp)"

definition text_at :: "msgst \<Rightarrow> nat \<Rightarrow> nat \<Rightarrow> nat list" where
  "text_at s spot n = map (\<lambda>j. mbuf s (msi_msgssz (msginfo s) * spot + j)) [0..<n]"

text \<open>
  From the label \<^verbatim>\<open>findmsg\<close>; \<open>out1\<close> and \<open>out2\<close> say whether the two calls of \<^verbatim>\<open>copyout\<close> succeed. The
  value is the type and the text copied out.
\<close>

definition msgrcv_find :: "msgst \<Rightarrow> ucall \<Rightarrow> int \<Rightarrow> nat \<Rightarrow> nat \<Rightarrow> int \<Rightarrow> u32 \<Rightarrow> bool \<Rightarrow> bool \<Rightarrow> (msgres \<times> msgst) option" where
  "msgrcv_find s u i k msgsz typ flg out1 out2 =
    (case msgconv s i of
       (CInval, s) \<Rightarrow> Some (MErr EIDRM, s)
     | (CBusy k, s) \<Rightarrow> Some (MSleep (WLock k), s)
     | (CGot k1, s) \<Rightarrow>
         if k1 \<noteq> k then Some (MErr EIDRM, unlock k1 s)
         else do {
           let fst = msg_first (msgque s ! k);
           (smp, spmp) \<leftarrow> (if typ = 0 then Some (fst, None) else msg_find (msgh s) typ None fst None None);
           case smp of
             Some m \<Rightarrow>
               let h = msgh s m in
               if msgsz < msg_ts h \<and> flg AND MSG_NOERROR = 0 then Some (MErr E2BIG, unlock k s)
               else if \<not> out1 then Some (MErr EFAULT, unlock k s)
               else
                 let sz = (if msgsz < msg_ts h then msgsz else msg_ts h) in
                 if sz \<noteq> 0 \<and> \<not> out2 then Some (MErr EFAULT, unlock k s)
                 else do {
                   let v = MText (msg_type h) (text_at s (nat (msg_spot h)) sz);
                   let s = set_q s k (\<lambda>q. q\<lparr>msg_cbytes := u32sub (msg_cbytes q) (msg_ts h), msg_lrpid := u_pid u, msg_rtime := msg_now s\<rparr>);
                   s \<leftarrow> msgfree s k spmp m;
                   Some (MVal v, unlock k s) }
           | None \<Rightarrow>
               if flg AND IPC_NOWAIT \<noteq> 0 then Some (MErr ENOMSG, unlock k s)
               else Some (MSleep (WQnum k), unlock k (set_q s k (set_qmode (\<lambda>m. m OR MSG_RWAIT)))) })"

section \<open>msgsnd\<close>

text \<open>Up to the label \<^verbatim>\<open>getres\<close>; \<open>typ\<close> is the type that \<^verbatim>\<open>copyin\<close> reads, \<^const>\<open>None\<close> for a fault.\<close>

definition msgsnd_check :: "msgst \<Rightarrow> ucall \<Rightarrow> int \<Rightarrow> int \<Rightarrow> int option \<Rightarrow> (msgres \<times> msgst) option" where
  "msgsnd_check s u i msgsz typ =
    (case msgconv s i of
       (CInval, s) \<Rightarrow> Some (MErr EINVAL, s)
     | (CBusy k, s) \<Rightarrow> Some (MSleep (WLock k), s)
     | (CGot k, s) \<Rightarrow> do {
         e \<leftarrow> ipcaccess (msg_perm (msgque s ! k)) MSG_W (u_cred u);
         Some (case e of Some x \<Rightarrow> MErr x
           | None \<Rightarrow> if msgsz < 0 \<or> msgsz > msi_msgmax (msginfo s) then MErr EINVAL
               else (case typ of None \<Rightarrow> MErr EFAULT | Some t \<Rightarrow> if t < 1 then MErr EINVAL else MNext k), unlock k s) })"

text \<open>
  From the label \<^verbatim>\<open>getres\<close> to the copy of the text. When header and space are there the section ends
  with the queue locked; \<^const>\<open>MHold\<close> gives the header and the value of \<^verbatim>\<open>spot\<close> that \<^verbatim>\<open>rmalloc\<close> returned,
  0 when the text is empty.
\<close>

definition msgsnd_getres :: "msgst \<Rightarrow> int \<Rightarrow> nat \<Rightarrow> nat \<Rightarrow> u32 \<Rightarrow> (msgres \<times> msgst) option" where
  "msgsnd_getres s i k cnt flg =
    (case msgconv s i of
       (CInval, s) \<Rightarrow> Some (MErr EIDRM, s)
     | (CBusy k, s) \<Rightarrow> Some (MSleep (WLock k), s)
     | (CGot k1, s) \<Rightarrow>
         let wait = (flg AND IPC_NOWAIT = 0) in
         if k1 \<noteq> k then Some (MErr EIDRM, unlock k1 s)
         else if u32add cnt (msg_cbytes (msgque s ! k)) > msg_qbytes (msgque s ! k) then
           if wait then Some (MSleep (WQueue k), unlock k (set_q s k (set_qmode (\<lambda>m. m OR MSG_WWAIT))))
           else Some (MErr EAGAIN, unlock k s)
         else (case msgfp s of
             None \<Rightarrow> if wait then Some (MSleep WFree, unlock k s) else Some (MErr EAGAIN, unlock k s)
           | Some mp \<Rightarrow> do {
               let s = s\<lparr>msgfp := msg_next (msgh s mp)\<rparr>;
               (spot, m) \<leftarrow> (if cnt \<noteq> 0 then rmalloc (msgmap s) (btoq (msginfo s) cnt) else Some (0, msgmap s));
               let s = s\<lparr>msgmap := m\<rparr>;
               if cnt \<noteq> 0 \<and> spot = 0 then
                 if wait then
                   Some (MSleep WMap, unlock k (hdr_free mp (s\<lparr>msgmap := (msgmap s)\<lparr>mapwant := u32add (mapwant (msgmap s)) 1\<rparr>\<rparr>)))
                 else Some (MErr EAGAIN, unlock k (hdr_free mp s))
               else Some (MHold mp spot, s) }))"

text \<open>The code after a sleep that a signal interrupted, by the word slept on.\<close>

definition msgsnd_intr :: "msgst \<Rightarrow> int \<Rightarrow> nat \<Rightarrow> msgchan \<Rightarrow> msgres \<times> msgst" where
  "msgsnd_intr s i k ch =
    (case msgconv s i of
       (CInval, s) \<Rightarrow> (MErr EINVAL, s)
     | (CBusy k, s) \<Rightarrow> (MSleep (WLock k), s)
     | (CGot k1, s) \<Rightarrow>
         if k1 \<noteq> k then (MErr EINTR, unlock k1 s)
         else if ch = WQueue k
         then (MErr EINTR, unlock k (mwake (WQueue k) (set_q s k (set_qmode (\<lambda>m. m AND NOT MSG_WWAIT)))))
         else (MErr EINTR, unlock k s))"

text \<open>The copy of the text and the rest: \<open>txt\<close> are the bytes \<^verbatim>\<open>copyin\<close> reads, \<^const>\<open>None\<close> for a fault.\<close>

definition msg_link :: "msgst \<Rightarrow> nat \<Rightarrow> nat \<Rightarrow> msgst" where
  "msg_link s k mp = (case msg_last (msgque s ! k) of
      None \<Rightarrow> set_q s k (\<lambda>q. q\<lparr>msg_first := Some mp, msg_last := Some mp\<rparr>)
    | Some l \<Rightarrow> set_q (set_next s l (Some mp)) k (\<lambda>q. q\<lparr>msg_last := Some mp\<rparr>))"

definition buf_write :: "(nat \<Rightarrow> nat) \<Rightarrow> nat \<Rightarrow> nat list \<Rightarrow> nat \<Rightarrow> nat" where
  "buf_write b a txt = (\<lambda>j. if a \<le> j \<and> j < a + length txt then txt ! (j - a) else b j)"

definition msgsnd_put :: "msgst \<Rightarrow> ucall \<Rightarrow> nat \<Rightarrow> nat \<Rightarrow> nat \<Rightarrow> nat \<Rightarrow> int \<Rightarrow> nat list option \<Rightarrow> (msgres \<times> msgst) option" where
  "msgsnd_put s u k mp spot cnt typ txt =
    (if cnt \<noteq> 0 \<and> txt = None then do {
       s \<leftarrow> map_free s (btoq (msginfo s) cnt) (spot - 1 + 1);
       Some (MErr EFAULT, unlock k (hdr_free mp s)) }
     else
       let s = (if cnt \<noteq> 0 then s\<lparr>mbuf := buf_write (mbuf s) (msi_msgssz (msginfo s) * (spot - 1)) (the txt)\<rparr> else s);
           s = set_q s k (\<lambda>q. q\<lparr>msg_qnum := u32add (msg_qnum q) 1, msg_cbytes := u32add (msg_cbytes q) cnt,
                 msg_lspid := u_pid u, msg_stime := msg_now s\<rparr>);
           s = s\<lparr>msgh := (msgh s)(mp := \<lparr>msg_next = None, msg_type = typ, msg_ts = cnt mod 65536,
                 msg_spot = s16 (if cnt \<noteq> 0 then int spot - 1 else - 1)\<rparr>)\<rparr>;
           s = msg_link s k mp;
           s = (if mode (msg_perm (msgque s ! k)) AND MSG_RWAIT \<noteq> 0
                then mwake (WQnum k) (set_q s k (set_qmode (\<lambda>m. m AND NOT MSG_RWAIT))) else s) in
       Some (MVal MZero, unlock k s))"

section \<open>The system call entry point\<close>

datatype msgcall = MsgGet int u32 | MsgCtl int msgcmd | MsgRcv int int | MsgSnd int int "int option" | MsgBad

text \<open>\<^verbatim>\<open>msgrcv\<close> and \<^verbatim>\<open>msgsnd\<close> start with their first section.\<close>

definition msgsys :: "msgst \<Rightarrow> ucall \<Rightarrow> msgcall \<Rightarrow> (msgres \<times> msgst) option" where
  "msgsys s u c =
    (case c of
       MsgGet ky flg \<Rightarrow> Some (msgget s u ky flg)
     | MsgCtl i cmd \<Rightarrow> msgctl s u i cmd
     | MsgRcv i msgsz \<Rightarrow> msgrcv_check (s\<lparr>msg_sysinfo := msg_sysinfo s + 1\<rparr>) u i msgsz
     | MsgSnd i msgsz typ \<Rightarrow> msgsnd_check (s\<lparr>msg_sysinfo := msg_sysinfo s + 1\<rparr>) u i msgsz typ
     | MsgBad \<Rightarrow> Some (MErr EINVAL, s))"


section \<open>The invariant\<close>

text \<open>
  The ghost state says which headers each queue and the free chain hold, whom a header belongs to
  (the free chain, a queue, or the call that has queue \<open>k\<close> locked and is about to copy a text in), and
  which units of the resource map are held for a header. \<open>held k\<close> are the local variables of the call
  that has queue \<open>k\<close> locked: the header, the value of \<^verbatim>\<open>spot\<close> and the size of the text.
\<close>

datatype owner = ONone | OFree | OQ nat | OHold nat

record mghost =
  gq :: "nat \<Rightarrow> nat list"
  gf :: "nat list"
  own :: "nat \<Rightarrow> owner"
  gr :: "nat \<Rightarrow> (nat \<times> nat) option"

type_synonym mheld = "nat \<Rightarrow> (nat \<times> nat \<times> nat) option"

abbreviation nx :: "msgst \<Rightarrow> nat \<Rightarrow> nat option" where
  "nx s m \<equiv> msg_next (msgh s m)"

definition mtext :: "msgst \<Rightarrow> nat \<Rightarrow> nat list" where
  "mtext s m = text_at s (nat (msg_spot (msgh s m))) (msg_ts (msgh s m))"

text \<open>The queue as its users see it: types and texts in order.\<close>

definition absq :: "msgst \<Rightarrow> mghost \<Rightarrow> nat \<Rightarrow> (int \<times> nat list) list" where
  "absq s g k = map (\<lambda>m. (msg_type (msgh s m), mtext s m)) (gq g k)"

definition mcfg :: "msginfo_t \<Rightarrow> bool" where
  "mcfg mi \<longleftrightarrow> 0 < msi_msgmni mi \<and> msi_msgmni mi \<le> 32768 \<and> 0 < msi_msgssz mi \<and> msi_msgseg mi < 32768
     \<and> msi_msgmax mi \<le> 65535 \<and> msi_msgtql mi \<le> 65536"

definition mtab :: "msginfo_t \<Rightarrow> msqid_ds list \<Rightarrow> bool" where
  "mtab mi qs \<longleftrightarrow> length qs = msi_msgmni mi \<and> keys_unique (map msg_perm qs)
     \<and> (\<forall>k<length qs. seq (msg_perm (qs ! k)) * msi_msgmni mi + k \<le> 32767)"

definition mlists :: "msgst \<Rightarrow> mghost \<Rightarrow> bool" where
  "mlists s g \<longleftrightarrow> (\<forall>k<length (msgque s). chain (nx s) (msg_first (msgque s ! k)) (gq g k)
       \<and> msg_last (msgque s ! k) = last_of (gq g k) \<and> msg_qnum (msgque s ! k) = length (gq g k)
       \<and> (\<not> allocd (msg_perm (msgque s ! k)) \<longrightarrow> gq g k = []))
     \<and> chain (nx s) (msgfp s) (gf g)
     \<and> (\<forall>m. own g m = OFree \<longleftrightarrow> m \<in> set (gf g))
     \<and> (\<forall>k<length (msgque s). \<forall>m. own g m = OQ k \<longleftrightarrow> m \<in> set (gq g k))
     \<and> (\<forall>m. own g m \<noteq> ONone \<longleftrightarrow> m < msi_msgtql (msginfo s))
     \<and> (\<forall>m k. own g m = OQ k \<longrightarrow> k < length (msgque s) \<and> msg_ts (msgh s m) \<le> 65535)"

definition mregs :: "msgst \<Rightarrow> mghost \<Rightarrow> bool" where
  "mregs s g \<longleftrightarrow> rm.holds (msgmap s) (ran (gr g)) \<and> free_units (msgmap s) \<subseteq> {1..msi_msgseg (msginfo s)}
     \<and> (\<forall>m m' r. gr g m = Some r \<and> gr g m' = Some r \<longrightarrow> m = m')
     \<and> (\<forall>m r. gr g m = Some r \<longrightarrow> fst r + snd r \<le> msi_msgseg (msginfo s) + 1)
     \<and> (\<forall>m. own g m = OFree \<or> own g m = ONone \<longrightarrow> gr g m = None)
     \<and> (\<forall>m k. own g m = OQ k \<longrightarrow> gr g m = (if msg_ts (msgh s m) = 0 then None
          else Some (nat (msg_spot (msgh s m)) + 1, btoq (msginfo s) (msg_ts (msgh s m)))) \<and> (msg_ts (msgh s m) \<noteq> 0 \<longrightarrow> 0 \<le> msg_spot (msgh s m)))"

definition mholds :: "msgst \<Rightarrow> mghost \<Rightarrow> mheld \<Rightarrow> bool" where
  "mholds s g held \<longleftrightarrow> length (msglock s) = length (msgque s) \<and>
     (\<forall>k mp sp c. held k = Some (mp, sp, c) \<longrightarrow> k < length (msgque s) \<and> msglock s ! k \<and> allocd (msg_perm (msgque s ! k))
       \<and> own g mp = OHold k \<and> gr g mp = (if c = 0 then None else Some (sp, btoq (msginfo s) c)) \<and> c \<le> 65535)
     \<and> (\<forall>k m. own g m = OHold k \<longrightarrow> (\<exists>sp c. held k = Some (m, sp, c)))"

definition cbytes_ok :: "msgst \<Rightarrow> mghost \<Rightarrow> bool" where
  "cbytes_ok s g \<longleftrightarrow> (\<forall>k<length (msgque s). msg_cbytes (msgque s ! k) = sum_list (map (\<lambda>m. msg_ts (msgh s m)) (gq g k)))"

definition minv0 :: "msgst \<Rightarrow> mghost \<Rightarrow> mheld \<Rightarrow> bool" where
  "minv0 s g held \<longleftrightarrow> mcfg (msginfo s) \<and> mtab (msginfo s) (msgque s) \<and> mlists s g \<and> mregs s g \<and> mholds s g held"

definition minv :: "msgst \<Rightarrow> mghost \<Rightarrow> mheld \<Rightarrow> bool" where
  "minv s g held \<longleftrightarrow> minv0 s g held \<and> cbytes_ok s g"

lemma mlistsD:
  assumes "mlists s g"
  shows "k < length (msgque s) \<Longrightarrow> chain (nx s) (msg_first (msgque s ! k)) (gq g k)"
    "k < length (msgque s) \<Longrightarrow> msg_last (msgque s ! k) = last_of (gq g k)"
    "k < length (msgque s) \<Longrightarrow> msg_qnum (msgque s ! k) = length (gq g k)"
    "k < length (msgque s) \<Longrightarrow> \<not> allocd (msg_perm (msgque s ! k)) \<Longrightarrow> gq g k = []"
    "chain (nx s) (msgfp s) (gf g)" "own g m = OFree \<longleftrightarrow> m \<in> set (gf g)"
    "k < length (msgque s) \<Longrightarrow> own g m = OQ k \<longleftrightarrow> m \<in> set (gq g k)"
    "own g m \<noteq> ONone \<longleftrightarrow> m < msi_msgtql (msginfo s)"
    "own g m = OQ k \<Longrightarrow> k < length (msgque s) \<and> msg_ts (msgh s m) \<le> 65535"
  using assms unfolding mlists_def by blast+

lemma mregsD:
  assumes "mregs s g"
  shows "rm.holds (msgmap s) (ran (gr g))" "free_units (msgmap s) \<subseteq> {1..msi_msgseg (msginfo s)}"
    "gr g m = Some r \<Longrightarrow> gr g m' = Some r \<Longrightarrow> m = m'" "gr g m = Some r \<Longrightarrow> fst r + snd r \<le> msi_msgseg (msginfo s) + 1"
    "own g m = OFree \<or> own g m = ONone \<Longrightarrow> gr g m = None"
    "own g m = OQ k \<Longrightarrow> gr g m = (if msg_ts (msgh s m) = 0 then None
          else Some (nat (msg_spot (msgh s m)) + 1, btoq (msginfo s) (msg_ts (msgh s m))))"
    "own g m = OQ k \<Longrightarrow> msg_ts (msgh s m) \<noteq> 0 \<Longrightarrow> 0 \<le> msg_spot (msgh s m)"
  using assms unfolding mregs_def by blast+

lemma mholdsD:
  assumes "mholds s g held"
  shows "length (msglock s) = length (msgque s)" "held k = Some (mp, sp, c) \<Longrightarrow> k < length (msgque s)"
    "held k = Some (mp, sp, c) \<Longrightarrow> msglock s ! k" "held k = Some (mp, sp, c) \<Longrightarrow> allocd (msg_perm (msgque s ! k))"
    "held k = Some (mp, sp, c) \<Longrightarrow> own g mp = OHold k" "held k = Some (mp, sp, c) \<Longrightarrow> gr g mp = (if c = 0 then None else Some (sp, btoq (msginfo s) c))"
    "held k = Some (mp, sp, c) \<Longrightarrow> c \<le> 65535" "own g mp = OHold k \<Longrightarrow> \<exists>sp c. held k = Some (mp, sp, c)"
  using assms unfolding mholds_def by blast+

lemma minv0D:
  assumes "minv0 s g held"
  shows "mcfg (msginfo s)" "mtab (msginfo s) (msgque s)" "mlists s g" "mregs s g" "mholds s g held" "length (msgque s) = msi_msgmni (msginfo s)"
  using assms by (simp_all add: minv0_def mtab_def)

lemma mcfgD: "mcfg mi \<Longrightarrow> 0 < msi_msgmni mi" "mcfg mi \<Longrightarrow> 0 < msi_msgssz mi" "mcfg mi \<Longrightarrow> msi_msgseg mi < 32768" "mcfg mi \<Longrightarrow> msi_msgtql mi \<le> 65536"
    "mcfg mi \<Longrightarrow> msi_msgmni mi \<le> 32768" "mcfg mi \<Longrightarrow> msi_msgmax mi \<le> 65535"
  by (simp_all add: mcfg_def)

lemma btoq_pos: "0 < msi_msgssz mi \<Longrightarrow> 0 < n \<Longrightarrow> 0 < btoq mi n"
  by (auto simp: btoq_def div_greater_zero_iff)

lemma btoq_covers: "0 < msi_msgssz mi \<Longrightarrow> n \<le> msi_msgssz mi * btoq mi n"
proof -
  assume p: "0 < msi_msgssz mi"
  let ?z = "msi_msgssz mi" and ?y = "n + msi_msgssz mi - 1"
  have "?z * (?y div ?z) + ?y mod ?z = ?y" by (rule mult_div_mod_eq)
  moreover have "?y mod ?z < ?z" using p by simp
  ultimately show "n \<le> ?z * btoq mi n" using p unfolding btoq_def by linarith
qed

lemma gq_length:
  assumes "mlists s g" "k < length (msgque s)"
  shows "length (gq g k) \<le> msi_msgtql (msginfo s)" "distinct (gq g k)"
proof -
  show d: "distinct (gq g k)" using chain_distinct [OF mlistsD(1) [OF assms]] .
  have "m < msi_msgtql (msginfo s)" if "m \<in> set (gq g k)" for m
    using that mlistsD(7) [OF assms, of m] mlistsD(8) [OF assms(1), of m] by simp
  then have "set (gq g k) \<subseteq> {..<msi_msgtql (msginfo s)}" by auto
  from card_mono [OF _ this] show "length (gq g k) \<le> msi_msgtql (msginfo s)" using distinct_card [OF d] by simp
qed

section \<open>Field projections\<close>

named_theorems msg_simps \<open>field projections of the updates\<close>

lemma set_q_simps [msg_simps]:
  "msgque (set_q s k f) = (msgque s)[k := f (msgque s ! k)]" "msgh (set_q s k f) = msgh s" "msgfp (set_q s k f) = msgfp s"
  "msgmap (set_q s k f) = msgmap s" "msglock (set_q s k f) = msglock s" "mbuf (set_q s k f) = mbuf s" "msginfo (set_q s k f) = msginfo s"
  "msg_now (set_q s k f) = msg_now s" "msg_waked (set_q s k f) = msg_waked s"
  by (simp_all add: set_q_def)

lemma set_next_simps [msg_simps]:
  "msgque (set_next s m v) = msgque s" "msgh (set_next s m v) = (msgh s)(m := (msgh s m)\<lparr>msg_next := v\<rparr>)" "msgfp (set_next s m v) = msgfp s"
  "msgmap (set_next s m v) = msgmap s" "msglock (set_next s m v) = msglock s" "mbuf (set_next s m v) = mbuf s" "msginfo (set_next s m v) = msginfo s"
  "msg_now (set_next s m v) = msg_now s" "msg_waked (set_next s m v) = msg_waked s"
  by (simp_all add: set_next_def)

lemma mwake_simps [msg_simps]:
  "msgque (mwake c s) = msgque s" "msgh (mwake c s) = msgh s" "msgfp (mwake c s) = msgfp s"
  "msgmap (mwake c s) = msgmap s" "msglock (mwake c s) = msglock s" "mbuf (mwake c s) = mbuf s" "msginfo (mwake c s) = msginfo s"
  "msg_now (mwake c s) = msg_now s" "msg_waked (mwake c s) = c # msg_waked s"
  by (simp_all add: mwake_def)

lemma unlock_simps [msg_simps]:
  "msgque (unlock k s) = msgque s" "msgh (unlock k s) = msgh s" "msgfp (unlock k s) = msgfp s"
  "msgmap (unlock k s) = msgmap s" "msglock (unlock k s) = (msglock s)[k := False]" "mbuf (unlock k s) = mbuf s" "msginfo (unlock k s) = msginfo s"
  "msg_now (unlock k s) = msg_now s" "msg_waked (unlock k s) = WLock k # msg_waked s"
  by (simp_all add: unlock_def msg_simps)

lemma hdr_free_simps [msg_simps]:
  "msgque (hdr_free m s) = msgque s" "msgh (hdr_free m s) = (msgh s)(m := (msgh s m)\<lparr>msg_next := msgfp s\<rparr>)" "msgfp (hdr_free m s) = Some m"
  "msgmap (hdr_free m s) = msgmap s" "msglock (hdr_free m s) = msglock s" "mbuf (hdr_free m s) = mbuf s" "msginfo (hdr_free m s) = msginfo s"
  "msg_now (hdr_free m s) = msg_now s" "set (msg_waked s) \<subseteq> set (msg_waked (hdr_free m s))"
  by (auto simp: hdr_free_def Let_def msg_simps)

lemma set_qmode_simps [msg_simps]:
  "msg_first (set_qmode f q) = msg_first q" "msg_last (set_qmode f q) = msg_last q" "msg_qnum (set_qmode f q) = msg_qnum q"
  "msg_cbytes (set_qmode f q) = msg_cbytes q" "msg_qbytes (set_qmode f q) = msg_qbytes q"
  "seq (msg_perm (set_qmode f q)) = seq (msg_perm q)" "key (msg_perm (set_qmode f q)) = key (msg_perm q)"
  "mode (msg_perm (set_qmode f q)) = f (mode (msg_perm q))"
  by (simp_all add: set_qmode_def)


lemma allocd_bit: "allocd p \<longleftrightarrow> bit (mode p) 15"
proof -
  have "IPC_ALLOC = push_bit 15 1" by (simp add: push_bit_eq_mult)
  then have "allocd p \<longleftrightarrow> push_bit 15 1 AND mode p \<noteq> 0" by (simp only: allocd_def and.commute)
  then show ?thesis by (simp only: and_single_bit) simp
qed

lemma qmode_allocd [msg_simps]:
  "allocd (msg_perm (set_qmode (\<lambda>m. m OR MSG_RWAIT) q)) = allocd (msg_perm q)"
  "allocd (msg_perm (set_qmode (\<lambda>m. m OR MSG_WWAIT) q)) = allocd (msg_perm q)"
  "allocd (msg_perm (set_qmode (\<lambda>m. m AND NOT MSG_RWAIT) q)) = allocd (msg_perm q)"
  "allocd (msg_perm (set_qmode (\<lambda>m. m AND NOT MSG_WWAIT) q)) = allocd (msg_perm q)"
  by (simp_all add: allocd_bit msg_simps bit_simps)

section \<open>Changes that leave the lists alone\<close>

definition qcore :: "msqid_ds \<Rightarrow> nat option \<times> nat option \<times> nat \<times> bool \<times> nat \<times> int" where
  "qcore q = (msg_first q, msg_last q, msg_qnum q, allocd (msg_perm q), seq (msg_perm q), key (msg_perm q))"

lemma map_qcoreD:
  assumes "map qcore qs' = map qcore qs"
  shows "length qs' = length qs" "k < length qs \<Longrightarrow> qcore (qs' ! k) = qcore (qs ! k)"
  using arg_cong [OF assms, of length] arg_cong [OF assms, of "\<lambda>l. l ! k"] by auto

lemma qcoreD:
  assumes "qcore p = qcore q"
  shows "msg_first p = msg_first q" "msg_last p = msg_last q" "msg_qnum p = msg_qnum q"
    "allocd (msg_perm p) = allocd (msg_perm q)" "seq (msg_perm p) = seq (msg_perm q)" "key (msg_perm p) = key (msg_perm q)"
  using assms by (simp_all add: qcore_def)

lemma qcore_upd: "qcore q = qcore (qs ! k) \<Longrightarrow> map qcore (qs[k := q]) = map qcore qs"
  by (metis list_update_id map_update)

lemma minv0_same:
  assumes "minv0 s g held" "msgh s' = msgh s" "msgfp s' = msgfp s" "msgmap s' = msgmap s" "msginfo s' = msginfo s"
    "map qcore (msgque s') = map qcore (msgque s)" "length (msglock s') = length (msglock s)"
    "\<And>k. held k \<noteq> None \<Longrightarrow> msglock s ! k \<Longrightarrow> msglock s' ! k"
  shows "minv0 s' g held"
proof -
  note i = minv0D [OF assms(1)] and c = map_qcoreD [OF assms(6)]
  note e = qcoreD [OF c(2)]
  have "keys_unique (map msg_perm (msgque s'))" using i(2) c(1) e unfolding keys_unique_def mtab_def by simp
  then have "mtab (msginfo s') (msgque s')" using i(2) c(1) e assms(5) by (simp add: mtab_def)
  moreover have "mlists s' g" using i(3) c(1) e assms(2,3,5) by (simp add: mlists_def) blast
  moreover have "mregs s' g" using i(4) assms(2,4,5) by (simp add: mregs_def)
  moreover have "mholds s' g held"
    unfolding mholds_def
  proof (intro conjI allI impI)
    show "length (msglock s') = length (msgque s')" using mholdsD(1) [OF i(5)] assms(7) c(1) by simp
    fix k mp sp c'
    assume h: "held k = Some (mp, sp, c')"
    note d = mholdsD(2-7) [OF i(5) h]
    show "k < length (msgque s')" "own g mp = OHold k" "c' \<le> 65535" using d c(1) by simp_all
    show "msglock s' ! k" using assms(8) [of k] h d(2) by simp
    show "allocd (msg_perm (msgque s' ! k))" using e(4) [OF d(1)] d(3) by simp
    show "gr g mp = (if c' = 0 then None else Some (sp, btoq (msginfo s') c'))" using d(5) assms(5) by simp
  qed (rule mholdsD(8) [OF i(5)])
  ultimately show ?thesis using i(1) assms(5) by (simp add: minv0_def)
qed

lemma text_at_same: "mbuf s' = mbuf s \<Longrightarrow> msginfo s' = msginfo s \<Longrightarrow> text_at s' = text_at s"
  by (simp add: text_at_def fun_eq_iff)

lemma absq_same: "msgh s' = msgh s \<Longrightarrow> mbuf s' = mbuf s \<Longrightarrow> msginfo s' = msginfo s \<Longrightarrow> absq s' g k = absq s g k"
  using text_at_same [of s' s] by (simp add: absq_def mtext_def)

lemma cbytes_ok_same:
  assumes "cbytes_ok s g" "msgh s' = msgh s" "length (msgque s') = length (msgque s)"
    "\<And>k. k < length (msgque s) \<Longrightarrow> msg_cbytes (msgque s' ! k) = msg_cbytes (msgque s ! k)"
  shows "cbytes_ok s' g"
  using assms by (simp add: cbytes_ok_def)

lemma unlock_inv:
  assumes "minv0 s g held" "held k = None"
  shows "minv0 (unlock k s) g held"
proof (rule minv0_same [OF assms(1)])
  fix j assume "held j \<noteq> None" "msglock s ! j"
  moreover from this assms(2) have "k \<noteq> j" by auto
  ultimately show "msglock (unlock k s) ! j" by (simp add: msg_simps)
qed (simp_all add: msg_simps)

end
