(* ===== verification/KMsgSys.thy ===== *)
theory KMsgSys
  imports KMsg
begin

text \<open>
  What each section of the message calls does to the lists of headers, to the text space and to the
  queues as their users see them. \<open>minv s g held\<close> is the invariant of theory \<open>KMsg\<close>; a specification lemma
  \<open>X_spec\<close> says that section \<open>X\<close> returns, keeps the invariant and has the effect stated. \<open>still\<close> is the
  effect of a section that fails or waits, \<open>sent\<close>, \<open>rcv_result\<close> and \<open>retired\<close> those of sending, receiving
  and removing a queue.
\<close>

section \<open>Freeing a message\<close>

definition gfree :: "mghost \<Rightarrow> nat \<Rightarrow> nat list \<Rightarrow> nat \<Rightarrow> mghost" where
  "gfree g k ms m = g\<lparr>gq := (gq g)(k := ms), gf := m # gf g, own := (own g)(m := OFree), gr := (gr g)(m := None)\<rparr>"

lemma ran_upd_None:
  assumes "f m = Some r" "\<And>m'. f m' = Some r \<Longrightarrow> m' = m"
  shows "ran (f(m := None)) = ran f - {r}"
proof (intro equalityI subsetI)
  fix x assume "x \<in> ran (f(m := None))"
  then obtain a where "(f(m := None)) a = Some x" by (auto simp: ran_def)
  then have "a \<noteq> m" "f a = Some x" by (auto split: if_splits)
  with assms(2) [of a] show "x \<in> ran f - {r}" by (auto intro: ranI)
next
  fix x assume "x \<in> ran f - {r}"
  then obtain a where a: "f a = Some x" "x \<noteq> r" by (auto simp: ran_def)
  then have "(f(m := None)) a = Some x" using assms(1) by auto
  then show "x \<in> ran (f(m := None))" by (rule ranI)
qed

definition mapstep :: "msgst \<Rightarrow> msgst \<Rightarrow> bool" where
  "mapstep s s' \<longleftrightarrow> msgque s' = msgque s \<and> msgh s' = msgh s \<and> msgfp s' = msgfp s \<and> msglock s' = msglock s \<and> mbuf s' = mbuf s
     \<and> msginfo s' = msginfo s \<and> msg_now s' = msg_now s \<and> set (msg_waked s) \<subseteq> set (msg_waked s')"

lemma map_free_holds:
  assumes "mregs s g" "gr g m = Some (a, n)"
  shows "\<exists>s1. map_free s n a = Some s1 \<and> mapstep s s1
    \<and> rm.holds (msgmap s1) (ran ((gr g)(m := None))) \<and> free_units (msgmap s1) \<subseteq> {1..msi_msgseg (msginfo s)}"
proof -
  have "(a, n) \<in> ran (gr g)" using assms(2) by (auto simp: ran_def)
  from rm.holds_release [OF mregsD(1) [OF assms(1)] this] obtain w mp where
    r: "rmfree (msgmap s) n a = Some (w, mp)" "rm.holds mp (ran (gr g) - {(a, n)})" "free_units mp \<subseteq> free_units (msgmap s) \<union> span (a, n)" by auto
  have "0 < a" using rm.holdsD(2) [OF mregsD(1) [OF assms(1)], of "(a, n)"] assms(2) by (auto simp: ran_def)
  then have "span (a, n) \<subseteq> {1..msi_msgseg (msginfo s)}" using mregsD(4) [OF assms] by (auto simp: span_def)
  then have "free_units mp \<subseteq> {1..msi_msgseg (msginfo s)}" using r(3) mregsD(2) [OF assms(1)] by blast
  moreover have "ran ((gr g)(m := None)) = ran (gr g) - {(a, n)}"
    using ran_upd_None [of "gr g" m "(a, n)"] assms(2) mregsD(3) [OF assms(1)] by blast
  ultimately show ?thesis using r(1,2)
    by (intro exI [of _ "if w then mwake WMap (s\<lparr>msgmap := mp\<rparr>) else s\<lparr>msgmap := mp\<rparr>"])
      (auto simp: map_free_def msg_simps mapstep_def Let_def)
qed


text \<open>
  \<^verbatim>\<open>msgfree\<close> takes a message off its queue and gives its header and its text space back; it changes no
  other message and nothing else of the queues.
\<close>

definition freed :: "msgst \<Rightarrow> msgst \<Rightarrow> nat \<Rightarrow> nat \<Rightarrow> bool" where
  "freed s s' k m \<longleftrightarrow> msglock s' = msglock s \<and> mbuf s' = mbuf s \<and> msginfo s' = msginfo s \<and> msg_now s' = msg_now s
     \<and> length (msgque s') = length (msgque s)
     \<and> (\<forall>j. j \<noteq> k \<longrightarrow> msgque s' ! j = msgque s ! j)
     \<and> (\<forall>m. msg_type (msgh s' m) = msg_type (msgh s m) \<and> msg_ts (msgh s' m) = msg_ts (msgh s m) \<and> msg_spot (msgh s' m) = msg_spot (msgh s m))
     \<and> allocd (msg_perm (msgque s' ! k)) = allocd (msg_perm (msgque s ! k))
     \<and> seq (msg_perm (msgque s' ! k)) = seq (msg_perm (msgque s ! k)) \<and> key (msg_perm (msgque s' ! k)) = key (msg_perm (msgque s ! k))
     \<and> uid (msg_perm (msgque s' ! k)) = uid (msg_perm (msgque s ! k)) \<and> cuid (msg_perm (msgque s' ! k)) = cuid (msg_perm (msgque s ! k))
     \<and> mode (msg_perm (msgque s' ! k)) = mode (msg_perm (msgque s ! k)) AND NOT MSG_WWAIT
     \<and> msg_cbytes (msgque s' ! k) = msg_cbytes (msgque s ! k)
     \<and> (mode (msg_perm (msgque s ! k)) AND MSG_WWAIT \<noteq> 0 \<longrightarrow> WQueue k \<in> set (msg_waked s'))
     \<and> (msgfp s = None \<longrightarrow> WFree \<in> set (msg_waked s')) \<and> set (msg_waked s) \<subseteq> set (msg_waked s')"


lemma and_not_zero: "(w :: u32) AND v = 0 \<Longrightarrow> w AND NOT v = w"
proof (rule bit_eqI)
  fix n assume z: "w AND v = 0" and "possible_bit TYPE(32 word) n"
  have "bit (w AND v) n \<longleftrightarrow> bit w n \<and> bit v n" by (rule bit_and_iff)
  then have "\<not> (bit w n \<and> bit v n)" using z by simp
  then show "bit (w AND NOT v) n \<longleftrightarrow> bit w n" using \<open>possible_bit TYPE(32 word) n\<close> by (auto simp: bit_simps)
qed

definition unlinked :: "(nat \<Rightarrow> 'a option) \<Rightarrow> nat option \<Rightarrow> 'a option \<Rightarrow> nat \<Rightarrow> 'a option" where
  "unlinked f p v = (case p of None \<Rightarrow> f | Some a \<Rightarrow> f(a := v))"

lemma chain_unlinked:
  assumes "chain nxt f (xs @ m # ys)"
  shows "chain (unlinked nxt (last_of xs) (nxt m)) (if xs = [] then nxt m else f) (xs @ ys)"
proof (cases xs rule: rev_cases)
  case Nil
  with assms show ?thesis by (simp add: chain_simps unlinked_def)
next
  case (snoc zs p)
  with chain_unlink [of nxt f zs p m ys] assms show ?thesis by (simp add: chain_simps unlinked_def)
qed

definition qunlinked :: "msqid_ds \<Rightarrow> nat option \<Rightarrow> nat option \<Rightarrow> msqid_ds" where
  "qunlinked q pmp nxt = (let q1 = q\<lparr>msg_first := (if pmp = None then nxt else msg_first q), msg_last := (if nxt = None then pmp else msg_last q),
      msg_qnum := u32sub (msg_qnum q) 1\<rparr> in set_qmode (\<lambda>m. m AND NOT MSG_WWAIT) q1)"

lemma msgfree_unlinks:
  assumes "k < length (msgque s)" "pmp \<noteq> Some m"
  shows "\<exists>s5. msgfree s k pmp m = (do {
      s6 \<leftarrow> (if msg_ts (msgh s m) \<noteq> 0 then map_free s5 (btoq (msginfo s) (msg_ts (msgh s m))) (nat (msg_spot (msgh s m) + 1)) else Some s5);
      Some (hdr_free m s6) })
    \<and> msgque s5 = (msgque s)[k := qunlinked (msgque s ! k) pmp (nx s m)]
    \<and> msgh s5 = (case pmp of None \<Rightarrow> msgh s | Some p \<Rightarrow> (msgh s)(p := (msgh s p)\<lparr>msg_next := nx s m\<rparr>))
    \<and> msgfp s5 = msgfp s \<and> msgmap s5 = msgmap s \<and> msglock s5 = msglock s \<and> mbuf s5 = mbuf s \<and> msginfo s5 = msginfo s \<and> msg_now s5 = msg_now s
    \<and> set (msg_waked s) \<subseteq> set (msg_waked s5)
    \<and> (mode (msg_perm (msgque s ! k)) AND MSG_WWAIT \<noteq> 0 \<longrightarrow> WQueue k \<in> set (msg_waked s5))"
proof -
  define s1 where "s1 = (case pmp of None \<Rightarrow> set_q s k (\<lambda>q. q\<lparr>msg_first := nx s m\<rparr>) | Some p \<Rightarrow> set_next s p (nx s m))"
  define s2 where "s2 = (if msg_next (msgh s1 m) = None then set_q s1 k (\<lambda>q. q\<lparr>msg_last := pmp\<rparr>) else s1)"
  define s3 where "s3 = set_q s2 k (\<lambda>q. q\<lparr>msg_qnum := u32sub (msg_qnum q) 1\<rparr>)"
  define s4 where "s4 = (if mode (msg_perm (msgque s3 ! k)) AND MSG_WWAIT \<noteq> 0
              then mwake (WQueue k) (set_q s3 k (set_qmode (\<lambda>m. m AND NOT MSG_WWAIT))) else s3)"
  have h1: "msgh s1 = (case pmp of None \<Rightarrow> msgh s | Some p \<Rightarrow> (msgh s)(p := (msgh s p)\<lparr>msg_next := nx s m\<rparr>))"
    by (simp add: s1_def msg_simps split: option.split)
  then have m1: "msgh s1 m = msgh s m" using assms(2) by (simp split: option.split)
  have q3: "msgque s3 ! k = (msgque s ! k)\<lparr>msg_first := (if pmp = None then nx s m else msg_first (msgque s ! k)),
      msg_last := (if nx s m = None then pmp else msg_last (msgque s ! k)), msg_qnum := u32sub (msg_qnum (msgque s ! k)) 1\<rparr>"
    using assms(1) m1 by (cases pmp; cases "nx s m") (simp_all add: s3_def s2_def s1_def msg_simps)
  have l3: "msgque s3 = (msgque s)[k := msgque s3 ! k]"
    using assms(1) by (simp add: s3_def s2_def s1_def msg_simps split: option.split)
  have q4: "msgque s4 = (msgque s)[k := qunlinked (msgque s ! k) pmp (nx s m)]"
  proof (cases "mode (msg_perm (msgque s ! k)) AND MSG_WWAIT = 0")
    case True
    then have "qunlinked (msgque s ! k) pmp (nx s m) = msgque s3 ! k"
      using and_not_zero [OF True] by (simp add: qunlinked_def q3 set_qmode_def)
    then show ?thesis using True l3 q3 by (simp add: s4_def)
  next
    case False
    then show ?thesis using l3 q3 assms(1) by (simp add: s4_def msg_simps qunlinked_def)
  qed
  have r: "msgh s4 = msgh s1" "msgfp s4 = msgfp s" "msgmap s4 = msgmap s" "msglock s4 = msglock s" "mbuf s4 = mbuf s" "msginfo s4 = msginfo s"
    "msg_now s4 = msg_now s" "set (msg_waked s) \<subseteq> set (msg_waked s4)"
    by (auto simp: s4_def s3_def s2_def s1_def msg_simps split: option.split)
  have w: "mode (msg_perm (msgque s ! k)) AND MSG_WWAIT \<noteq> 0 \<longrightarrow> WQueue k \<in> set (msg_waked s4)"
    using q3 by (simp add: s4_def msg_simps)
  have "msgfree s k pmp m = (do {
      s6 \<leftarrow> (if msg_ts (msgh s4 m) \<noteq> 0 then map_free s4 (btoq (msginfo s4) (msg_ts (msgh s4 m))) (nat (msg_spot (msgh s4 m) + 1)) else Some s4);
      Some (hdr_free m s6) })"
    unfolding msgfree_def Let_def s4_def s3_def s2_def s1_def by simp
  then show ?thesis using q4 r w h1 m1 by (intro exI [of _ s4]) simp
qed


lemma qunlinked_simps [msg_simps]:
  "msg_first (qunlinked q p v) = (if p = None then v else msg_first q)" "msg_last (qunlinked q p v) = (if v = None then p else msg_last q)"
  "msg_qnum (qunlinked q p v) = u32sub (msg_qnum q) 1" "msg_cbytes (qunlinked q p v) = msg_cbytes q" "msg_qbytes (qunlinked q p v) = msg_qbytes q"
  "seq (msg_perm (qunlinked q p v)) = seq (msg_perm q)" "key (msg_perm (qunlinked q p v)) = key (msg_perm q)"
  "uid (msg_perm (qunlinked q p v)) = uid (msg_perm q)" "cuid (msg_perm (qunlinked q p v)) = cuid (msg_perm q)"
  "mode (msg_perm (qunlinked q p v)) = mode (msg_perm q) AND NOT MSG_WWAIT"
  by (simp_all add: qunlinked_def Let_def msg_simps) (simp_all add: set_qmode_def)

lemma qunlinked_allocd [msg_simps]: "allocd (msg_perm (qunlinked q p v)) = allocd (msg_perm q)"
  unfolding qunlinked_def Let_def qmode_allocd by simp

lemma gfree_simps [msg_simps]:
  "gq (gfree g k ms m) = (gq g)(k := ms)" "gf (gfree g k ms m) = m # gf g" "own (gfree g k ms m) = (own g)(m := OFree)"
  "gr (gfree g k ms m) = (gr g)(m := None)"
  by (simp_all add: gfree_def)

lemma mtab_upd:
  assumes "mtab mi qs" "k < length qs" "seq (msg_perm q) = seq (msg_perm (qs ! k))" "key (msg_perm q) = key (msg_perm (qs ! k))"
    "allocd (msg_perm q) = allocd (msg_perm (qs ! k))"
  shows "mtab mi (qs[k := q])"
proof -
  have "keys_unique (map msg_perm (qs[k := q]))"
    using assms unfolding mtab_def keys_unique_def by (auto simp: nth_upd nth_list_update)
  then show ?thesis using assms by (simp add: mtab_def nth_upd)
qed

lemma mlists_free:
  assumes "mlists s g" "k < length (msgque s)" "gq g k = xs @ m # ys" "length (gq g k) < 4294967296"
    "msgque s' = (msgque s)[k := qunlinked (msgque s ! k) (last_of xs) (nx s m)]"
    "nx s' = (unlinked (nx s) (last_of xs) (nx s m))(m := msgfp s)" "msgfp s' = Some m" "msginfo s' = msginfo s"
    "\<And>m. msg_ts (msgh s' m) = msg_ts (msgh s m)"
  shows "mlists s' (gfree g k (xs @ ys) m)"
proof -
  note l = mlistsD [OF assms(1)]
  have ch: "chain (nx s) (msg_first (msgque s ! k)) (xs @ m # ys)" using l(1) [OF assms(2)] assms(3) by simp
  have dist: "distinct (xs @ m # ys)" using chain_distinct [OF ch] .
  have nxt: "nx s m = None \<longleftrightarrow> ys = []" using chain_next_None [OF ch] .
  have pm: "own g p = OQ k" if "last_of xs = Some p" for p using l(7) [OF assms(2), of p] last_of_Some [OF that] assms(3) by auto
  have own: "own g m = OQ k" using l(7) [OF assms(2), of m] assms(3) by simp
  have other: "chain (nx s') a zs = chain (nx s) a zs" if "m \<notin> set zs" "\<And>p. last_of xs = Some p \<Longrightarrow> p \<notin> set zs" for a zs
    using that by (cases "last_of xs") (simp_all add: assms(6) unlinked_def chain_simps)
  have this_q: "chain (nx s') (if xs = [] then nx s m else msg_first (msgque s ! k)) (xs @ ys)"
    using chain_unlinked [OF ch] dist by (simp add: assms(6) chain_simps)
  show ?thesis
    unfolding mlists_def msg_simps assms(5,7,8)
  proof (intro conjI allI impI; (unfold length_list_update)?)
    fix j assume j: "j < length (msgque s)"
    let ?q' = "(msgque s)[k := qunlinked (msgque s ! k) (last_of xs) (nx s m)] ! j"
    have oj: "m \<notin> set (gq g j)" "\<And>p. last_of xs = Some p \<Longrightarrow> p \<notin> set (gq g j)" if "j \<noteq> k"
      using l(7) [OF j] own pm that by (metis owner.inject(1))+
    show "chain (nx s') (msg_first ?q') (((gq g)(k := xs @ ys)) j)"
      using j this_q other [of "gq g j" "msg_first (msgque s ! j)"] oj l(1) [OF j] by (auto simp: nth_upd msg_simps chain_simps)
    show "msg_last ?q' = last_of (((gq g)(k := xs @ ys)) j)"
      using j nxt l(2) [OF j] assms(3) by (cases "ys = []") (auto simp: nth_upd msg_simps chain_simps)
    have "u32sub (length (gq g k)) 1 = length (xs @ ys)" using assms(3,4) by (subst u32sub_id) simp_all
    then show "msg_qnum ?q' = length (((gq g)(k := xs @ ys)) j)" using j l(3) [OF j] by (auto simp: nth_upd msg_simps)
    assume "\<not> allocd (msg_perm ?q')"
    then show "((gq g)(k := xs @ ys)) j = []" using j l(4) [OF j] assms(3) by (auto simp: nth_upd msg_simps split: if_splits)
  next
    have "m \<notin> set (gf g)" "\<And>p. last_of xs = Some p \<Longrightarrow> p \<notin> set (gf g)" using l(6) own pm by (metis owner.distinct)+
    then show "chain (nx s') (Some m) (m # gf g)" using other [of "gf g" "msgfp s"] l(5) by (simp add: chain_simps assms(6))
  next
    fix m' show "((own g)(m := OFree)) m' = OFree \<longleftrightarrow> m' \<in> set (m # gf g)" using l(6) [of m'] by auto
  next
    fix j m' assume j: "j < length (msgque s)"
    show "((own g)(m := OFree)) m' = OQ j \<longleftrightarrow> m' \<in> set (((gq g)(k := xs @ ys)) j)"
      using l(7) [OF j, of m'] dist own assms(3) l(7) [OF j, of m] by (cases "j = k"; cases "m' = m") auto
  next
    fix m' show "((own g)(m := OFree)) m' \<noteq> ONone \<longleftrightarrow> m' < msi_msgtql (msginfo s)"
      using l(8) [of m'] l(8) [of m] own by (cases "m' = m") auto
  next
    fix m' j assume "((own g)(m := OFree)) m' = OQ j"
    then have "own g m' = OQ j" by (auto split: if_splits)
    from l(9) [OF this] show "j < length (msgque s)" "msg_ts (msgh s' m') \<le> 65535" by (simp_all add: assms(9))
  qed
qed


definition same_hdrs :: "msgst \<Rightarrow> msgst \<Rightarrow> bool" where
  "same_hdrs s s' \<longleftrightarrow> (\<forall>m. msg_type (msgh s' m) = msg_type (msgh s m) \<and> msg_ts (msgh s' m) = msg_ts (msgh s m)
      \<and> msg_spot (msgh s' m) = msg_spot (msgh s m))"

lemma mregs_free:
  assumes "mregs s g" "rm.holds (msgmap s') (ran ((gr g)(m := None)))" "free_units (msgmap s') \<subseteq> {1..msi_msgseg (msginfo s)}"
    "msginfo s' = msginfo s" "same_hdrs s s'"
  shows "mregs s' (gfree g j ms m)"
  unfolding mregs_def msg_simps assms(4)
proof (intro conjI allI impI)
  note r = mregsD [OF assms(1)]
  show "rm.holds (msgmap s') (ran ((gr g)(m := None)))" "free_units (msgmap s') \<subseteq> {1..msi_msgseg (msginfo s)}" by fact+
  show "a = b" if "((gr g)(m := None)) a = Some x \<and> ((gr g)(m := None)) b = Some x" for a b x using that r(3) [of a x b] by (auto split: if_splits)
  show "fst x + snd x \<le> msi_msgseg (msginfo s) + 1" if "((gr g)(m := None)) a = Some x" for a x using that r(4) [of a x] by (auto split: if_splits)
  show "((gr g)(m := None)) a = None" if "((own g)(m := OFree)) a = OFree \<or> ((own g)(m := OFree)) a = ONone" for a
    using that r(5) [of a] by (auto split: if_splits)
  fix a i assume "((own g)(m := OFree)) a = OQ i"
  then have "a \<noteq> m" "own g a = OQ i" by (auto split: if_splits)
  with r(6,7) [of a i] assms(5)
  show "((gr g)(m := None)) a = (if msg_ts (msgh s' a) = 0 then None else Some (nat (msg_spot (msgh s' a)) + 1, btoq (msginfo s) (msg_ts (msgh s' a))))"
    "msg_ts (msgh s' a) \<noteq> 0 \<Longrightarrow> 0 \<le> msg_spot (msgh s' a)" by (simp_all add: same_hdrs_def)
qed

lemma mholds_free:
  assumes "mholds s g held" "\<And>j. held' j = (if own g m = OHold j then None else held j)" "msginfo s' = msginfo s" "length (msgque s') = length (msgque s)" "msglock s' = msglock s"
    "\<And>j. allocd (msg_perm (msgque s' ! j)) = allocd (msg_perm (msgque s ! j))"
  shows "mholds s' (gfree g i ms m) held'"
  unfolding mholds_def msg_simps assms(3,4,5,6)
proof (intro conjI allI impI)
  show "length (msglock s) = length (msgque s)" by (rule mholdsD(1) [OF assms(1)])
  fix j mp sp c assume "held' j = Some (mp, sp, c)"
  then have h: "own g m \<noteq> OHold j" "held j = Some (mp, sp, c)" using assms(2) [of j] by (auto split: if_splits)
  note d = mholdsD(2-7) [OF assms(1) h(2)]
  have "mp \<noteq> m" using d(4) h(1) by auto
  with d show "j < length (msgque s)" "msglock s ! j" "allocd (msg_perm (msgque s ! j))" "((own g)(m := OFree)) mp = OHold j"
    "((gr g)(m := None)) mp = (if c = 0 then None else Some (sp, btoq (msginfo s) c))" "c \<le> 65535" by simp_all
next
  fix j a assume "((own g)(m := OFree)) a = OHold j"
  then have a: "a \<noteq> m" "own g a = OHold j" by (auto split: if_splits)
  then have "own g m \<noteq> OHold j" using mholdsD(8) [OF assms(1), of a j] mholdsD(8) [OF assms(1), of m j] by auto
  then show "\<exists>sp c. held' j = Some (a, sp, c)" using mholdsD(8) [OF assms(1) a(2)] assms(2) [of j] by simp
qed

text \<open>The text space of a message in a queue, given back.\<close>

lemma text_free:
  assumes "mregs s g" "own g m = OQ k" "msgmap s5 = msgmap s" "msginfo s5 = msginfo s"
  shows "\<exists>s6. (if msg_ts (msgh s m) \<noteq> 0 then map_free s5 (btoq (msginfo s) (msg_ts (msgh s m))) (nat (msg_spot (msgh s m) + 1)) else Some s5) = Some s6
    \<and> mapstep s5 s6 \<and> rm.holds (msgmap s6) (ran ((gr g)(m := None))) \<and> free_units (msgmap s6) \<subseteq> {1..msi_msgseg (msginfo s)}"
proof (cases "msg_ts (msgh s m) = 0")
  case True
  then have "(gr g)(m := None) = gr g" using mregsD(6) [OF assms(1,2)] by (simp add: fun_eq_iff)
  then show ?thesis using True mregsD(1,2) [OF assms(1)] assms(3) by (intro exI [of _ s5]) (simp add: mapstep_def)
next
  case False
  let ?a = "nat (msg_spot (msgh s m) + 1)" and ?n = "btoq (msginfo s) (msg_ts (msgh s m))"
  have "gr g m = Some (?a, ?n)" using mregsD(6) [OF assms(1,2)] mregsD(7) [OF assms(1,2) False] False by (simp add: nat_add_distrib)
  from map_free_holds [OF assms(1) this] obtain s1 where
    "map_free s ?n ?a = Some s1" "rm.holds (msgmap s1) (ran ((gr g)(m := None)))" "free_units (msgmap s1) \<subseteq> {1..msi_msgseg (msginfo s)}" by auto
  then show ?thesis using False assms(3,4) by (auto simp: map_free_def mapstep_def Let_def msg_simps split: option.splits bind_splits)
qed

lemma gq_short:
  assumes "minv0 s g held" "k < length (msgque s)"
  shows "length (gq g k) < 4294967296"
  using gq_length(1) [OF minv0D(3) [OF assms(1)] assms(2)] mcfgD(4) [OF minv0D(1) [OF assms(1)]] by simp

lemma msgfree_spec:
  assumes "minv0 s g held" "k < length (msgque s)" "gq g k = xs @ m # ys"
  shows "\<exists>s'. msgfree s k (last_of xs) m = Some s' \<and> minv0 s' (gfree g k (xs @ ys) m) held \<and> freed s s' k m"
proof -
  note i = minv0D [OF assms(1)]
  have own: "own g m = OQ k" using mlistsD(7) [OF i(3) assms(2), of m] assms(3) by simp
  have "distinct (xs @ m # ys)" using gq_length(2) [OF i(3) assms(2)] assms(3) by simp
  then have pm: "last_of xs \<noteq> Some m" using last_of_Some [of xs m] by auto
  from msgfree_unlinks [OF assms(2) pm] obtain s5 where s5:
    "msgfree s k (last_of xs) m = (do {
      s6 \<leftarrow> (if msg_ts (msgh s m) \<noteq> 0 then map_free s5 (btoq (msginfo s) (msg_ts (msgh s m))) (nat (msg_spot (msgh s m) + 1)) else Some s5);
      Some (hdr_free m s6) })" "msgque s5 = (msgque s)[k := qunlinked (msgque s ! k) (last_of xs) (nx s m)]"
    "msgh s5 = (case last_of xs of None \<Rightarrow> msgh s | Some p \<Rightarrow> (msgh s)(p := (msgh s p)\<lparr>msg_next := nx s m\<rparr>))"
    "msgfp s5 = msgfp s" "msgmap s5 = msgmap s" "msglock s5 = msglock s" "mbuf s5 = mbuf s" "msginfo s5 = msginfo s" "msg_now s5 = msg_now s"
    "set (msg_waked s) \<subseteq> set (msg_waked s5)" "mode (msg_perm (msgque s ! k)) AND MSG_WWAIT \<noteq> 0 \<longrightarrow> WQueue k \<in> set (msg_waked s5)"
    by (elim exE conjE) simp
  from text_free [OF i(4) own s5(5,8)] obtain s6 where s6:
    "(if msg_ts (msgh s m) \<noteq> 0 then map_free s5 (btoq (msginfo s) (msg_ts (msgh s m))) (nat (msg_spot (msgh s m) + 1)) else Some s5) = Some s6"
    "mapstep s5 s6" "rm.holds (msgmap s6) (ran ((gr g)(m := None)))" "free_units (msgmap s6) \<subseteq> {1..msi_msgseg (msginfo s)}" by blast
  define s' where "s' = hdr_free m s6"
  have r: "msgfree s k (last_of xs) m = Some s'" using s5(1) s6(1) by (simp add: s'_def)
  have f: "msgque s' = (msgque s)[k := qunlinked (msgque s ! k) (last_of xs) (nx s m)]" "msgfp s' = Some m" "msglock s' = msglock s" "mbuf s' = mbuf s"
    "msginfo s' = msginfo s" "msg_now s' = msg_now s" "msgmap s' = msgmap s6"
    using s5 s6(2) by (simp_all add: s'_def mapstep_def msg_simps)
  have w: "set (msg_waked s5) \<subseteq> set (msg_waked s')" using s6(2) hdr_free_simps(9) [of s6 m] unfolding s'_def mapstep_def by blast
  have h: "msgh s' = (msgh s5)(m := (msgh s5 m)\<lparr>msg_next := msgfp s\<rparr>)" using s5(4) s6(2) by (simp add: s'_def mapstep_def msg_simps)
  have sh: "same_hdrs s s'" by (simp add: same_hdrs_def h s5(3) split: option.split)
  have n: "nx s' = (unlinked (nx s) (last_of xs) (nx s m))(m := msgfp s)"
    by (simp add: h s5(3) unlinked_def fun_eq_iff split: option.split)
  have al: "allocd (msg_perm (msgque s' ! j)) = allocd (msg_perm (msgque s ! j))" for j
    by (cases "j = k") (simp_all add: f(1) assms(2) msg_simps)
  have "mlists s' (gfree g k (xs @ ys) m)"
    using sh by (intro mlists_free [OF i(3) assms(2,3) gq_short [OF assms(1,2)] f(1) n f(2,5)]) (simp add: same_hdrs_def)
  moreover have "mregs s' (gfree g k (xs @ ys) m)" using mregs_free [OF i(4), of s'] s6(3,4) f(5,7) sh by simp
  moreover have "mholds s' (gfree g k (xs @ ys) m) held" using mholds_free [OF i(5), of held m s'] own f al by simp
  moreover have "mtab (msginfo s') (msgque s')" using mtab_upd [OF i(2) assms(2)] f by (simp add: msg_simps)
  ultimately have "minv0 s' (gfree g k (xs @ ys) m) held" using i(1) f(5) by (simp add: minv0_def)
  moreover have "msgfp s = None \<longrightarrow> WFree \<in> set (msg_waked s')"
    using s5(4) s6(2) by (simp add: s'_def mapstep_def hdr_free_def Let_def msg_simps)
  then have "freed s s' k m" using f w sh assms(2) s5(10,11) by (auto simp: freed_def same_hdrs_def msg_simps)
  ultimately show ?thesis using r by blast
qed


section \<open>Removing a queue\<close>

lemma freedD:
  assumes "freed s s' k m"
  shows "msglock s' = msglock s" "mbuf s' = mbuf s" "msginfo s' = msginfo s" "msg_now s' = msg_now s" "length (msgque s') = length (msgque s)"
    "j \<noteq> k \<Longrightarrow> msgque s' ! j = msgque s ! j" "msg_type (msgh s' a) = msg_type (msgh s a)" "msg_ts (msgh s' a) = msg_ts (msgh s a)"
    "msg_spot (msgh s' a) = msg_spot (msgh s a)" "mtext s' a = mtext s a" "set (msg_waked s) \<subseteq> set (msg_waked s')"
    "mode (msg_perm (msgque s ! k)) AND MSG_WWAIT \<noteq> 0 \<Longrightarrow> WQueue k \<in> set (msg_waked s')"
    "mode (msg_perm (msgque s' ! k)) = mode (msg_perm (msgque s ! k)) AND NOT MSG_WWAIT"
    "msg_cbytes (msgque s' ! k) = msg_cbytes (msgque s ! k)"
    "allocd (msg_perm (msgque s' ! j)) = allocd (msg_perm (msgque s ! j))" "seq (msg_perm (msgque s' ! j)) = seq (msg_perm (msgque s ! j))"
proof -
  show b: "mbuf s' = mbuf s" "msginfo s' = msginfo s" and h: "msg_type (msgh s' a) = msg_type (msgh s a)" "msg_ts (msgh s' a) = msg_ts (msgh s a)"
    "msg_spot (msgh s' a) = msg_spot (msgh s a)" for a using assms unfolding freed_def by blast+
  show "mtext s' a = mtext s a" by (simp add: mtext_def text_at_def b h)
  show "allocd (msg_perm (msgque s' ! j)) = allocd (msg_perm (msgque s ! j))" "seq (msg_perm (msgque s' ! j)) = seq (msg_perm (msgque s ! j))"
    using assms by (cases "j = k"; simp add: freed_def)+
qed (use assms in \<open>simp_all add: freed_def\<close>)

lemma freed_absq:
  assumes "freed s s' k m"
  shows "absq s' (gfree g k ms m) j = map (\<lambda>m. (msg_type (msgh s m), mtext s m)) (((gq g)(k := ms)) j)"
  by (simp add: absq_def msg_simps freedD(7,10) [OF assms])

text \<open>What \<^verbatim>\<open>msgctl\<close> leaves of the other queues and of the buffer when it empties queue \<open>k\<close>.\<close>

definition flushed :: "msgst \<Rightarrow> mghost \<Rightarrow> msgst \<Rightarrow> mghost \<Rightarrow> nat \<Rightarrow> bool" where
  "flushed s g s' g' k \<longleftrightarrow> gq g' = (gq g)(k := []) \<and> gf g' = rev (gq g k) @ gf g \<and> msglock s' = msglock s \<and> msginfo s' = msginfo s \<and> msg_now s' = msg_now s
     \<and> length (msgque s') = length (msgque s) \<and> (\<forall>j. j \<noteq> k \<longrightarrow> msgque s' ! j = msgque s ! j \<and> absq s' g' j = absq s g j)
     \<and> (\<forall>m. msg_ts (msgh s' m) = msg_ts (msgh s m)) \<and> (\<forall>j. seq (msg_perm (msgque s' ! j)) = seq (msg_perm (msgque s ! j)))
     \<and> (mode (msg_perm (msgque s ! k)) AND MSG_RWAIT = mode (msg_perm (msgque s' ! k)) AND MSG_RWAIT)
     \<and> (mode (msg_perm (msgque s ! k)) AND MSG_WWAIT \<noteq> 0 \<longrightarrow> WQueue k \<in> set (msg_waked s') \<or> mode (msg_perm (msgque s' ! k)) AND MSG_WWAIT \<noteq> 0)
     \<and> set (msg_waked s) \<subseteq> set (msg_waked s')"

lemma rwait_wwait: "(w :: u32) AND NOT MSG_WWAIT AND MSG_RWAIT = w AND MSG_RWAIT"
  by (rule bit_word_eqI) (auto simp: bit_simps)

lemma flushed_step:
  assumes f: "freed s s1 k m" and r: "flushed s1 (gfree g k ys m) s' g' k" and q: "gq g k = m # ys"
  shows "flushed s g s' g' k"
proof -
  have "absq s1 (gfree g k ys m) j = absq s g j" if "j \<noteq> k" for j using freed_absq [OF f] that by (simp add: absq_def)
  moreover have "mode (msg_perm (msgque s ! k)) AND MSG_RWAIT = mode (msg_perm (msgque s1 ! k)) AND MSG_RWAIT"
    unfolding freedD(13) [OF f] using rwait_wwait by (simp add: and.assoc)
  ultimately show ?thesis using r q freedD(1,3,4,5,6,8,11,12,16) [OF f] unfolding flushed_def msg_simps by auto
qed

lemma msg_flush_spec:
  assumes "minv0 s g held" "k < length (msgque s)"
  shows "\<exists>s' g'. msg_flush s k = Some s' \<and> minv0 s' g' held \<and> flushed s g s' g' k"
  using assms
proof (induction "gq g k" arbitrary: s g)
  case Nil
  have "msg_first (msgque s ! k) = None"
    using mlistsD(1) [OF minv0D(3) [OF Nil.prems(1)] Nil.prems(2)] Nil.hyps by (simp add: chain_simps)
  then have "msg_flush s k = Some s" by (subst msg_flush.simps) simp
  moreover have "gq g = (gq g)(k := [])" using Nil.hyps by (simp add: fun_eq_iff)
  ultimately show ?case using Nil.prems Nil.hyps by (intro exI [of _ s] exI [of _ g]) (simp add: flushed_def)
next
  case (Cons m ys)
  have f: "msg_first (msgque s ! k) = Some m"
    using mlistsD(1) [OF minv0D(3) [OF Cons.prems(1)] Cons.prems(2)] Cons.hyps(2) [symmetric] by (simp add: chain_simps)
  from msgfree_spec [OF Cons.prems, of "[]" m ys] Cons.hyps(2) obtain s1 where
    s1: "msgfree s k None m = Some s1" "minv0 s1 (gfree g k ys m) held" "freed s s1 k m" by (auto simp: chain_simps)
  from Cons.hyps(1) [of "gfree g k ys m" s1] s1(2) Cons.prems(2) freedD(5) [OF s1(3)]
  obtain s' g' where s': "msg_flush s1 k = Some s'" "minv0 s' g' held" "flushed s1 (gfree g k ys m) s' g' k" by (auto simp: msg_simps)
  have "msg_flush s k = Some s'" using f s1(1) s'(1) by (subst msg_flush.simps) simp
  then show ?case using s'(2) flushed_step [OF s1(3) s'(3) Cons.hyps(2) [symmetric]] by blast
qed


lemma minvD: "minv s g held \<Longrightarrow> minv0 s g held" "minv s g held \<Longrightarrow> cbytes_ok s g"
  by (simp_all add: minv_def)

text \<open>Nothing but locks and wakeups.\<close>

definition calm :: "msgst \<Rightarrow> msgst \<Rightarrow> bool" where
  "calm s s' \<longleftrightarrow> msgque s' = msgque s \<and> msgh s' = msgh s \<and> msgfp s' = msgfp s \<and> msgmap s' = msgmap s \<and> mbuf s' = mbuf s
     \<and> msginfo s' = msginfo s \<and> msg_now s' = msg_now s"

lemma calmD:
  assumes "calm s s'"
  shows "msgque s' = msgque s" "msgh s' = msgh s" "msgfp s' = msgfp s" "msgmap s' = msgmap s" "mbuf s' = mbuf s"
    "msginfo s' = msginfo s" "msg_now s' = msg_now s" "absq s' g k = absq s g k"
  using assms absq_same [of s' s] by (simp_all add: calm_def)

lemma calm_minv:
  assumes "minv s g held" "calm s s'" "length (msglock s') = length (msglock s)" "\<And>k. held k \<noteq> None \<Longrightarrow> msglock s ! k \<Longrightarrow> msglock s' ! k"
  shows "minv s' g held"
  using minv0_same [OF minvD(1) [OF assms(1)], of s'] cbytes_ok_same [OF minvD(2) [OF assms(1)], of s'] assms(3,4) calmD [OF assms(2)]
  by (simp add: minv_def)

lemma unlock_calm: "calm s (unlock k s)"
  by (simp add: calm_def msg_simps)

lemma unlock_minv: "minv s g held \<Longrightarrow> held k = None \<Longrightarrow> minv (unlock k s) g held"
proof (rule calm_minv [OF _ unlock_calm])
  fix j assume "held k = None" "held j \<noteq> None" "msglock s ! j"
  then show "msglock (unlock k s) ! j" by (cases "j = k") (simp_all add: msg_simps)
qed (simp_all add: msg_simps)

lemma lock_keeps: "xs ! k \<Longrightarrow> xs[a := True] ! k"
  by (cases "k = a"; cases "a < length xs") (simp_all add: list_update_beyond)

lemma msgconv_spec:
  assumes "minv s g held" "msgconv s i = (r, s')"
  shows "minv s' g held" "calm s s'" "set (msg_waked s) \<subseteq> set (msg_waked s')"
    and "r = CGot k \<Longrightarrow> k < length (msgque s) \<and> allocd (msg_perm (msgque s ! k)) \<and> held k = None
        \<and> i = int (seq (msg_perm (msgque s ! k)) * msi_msgmni (msginfo s) + k) \<and> s' = s\<lparr>msglock := (msglock s)[k := True]\<rparr>"
proof -
  note i0 = minv0D [OF minvD(1) [OF assms(1)]]
  let ?mni = "msi_msgmni (msginfo s)"
  have pos: "0 < ?mni" using mcfgD(1) [OF i0(1)] .
  show c: "calm s s'" "set (msg_waked s) \<subseteq> set (msg_waked s')"
    using assms(2) by (auto simp: msgconv_def Let_def calm_def msg_simps split: if_splits)
  have "length (msglock s') = length (msglock s)" "\<And>k. msglock s ! k \<Longrightarrow> msglock s' ! k"
    using assms(2) by (auto simp: msgconv_def Let_def msg_simps lock_keeps split: if_splits)
  then show "minv s' g held" using calm_minv [OF assms(1) c(1)] by blast
  assume "r = CGot k"
  then have k: "0 \<le> i" "k = nat i mod ?mni" "\<not> msglock s ! k" "mode (msg_perm (msgque s ! k)) AND IPC_ALLOC \<noteq> 0"
    "nat i div ?mni = seq (msg_perm (msgque s ! k))" "s' = s\<lparr>msglock := (msglock s)[k := True]\<rparr>"
    using assms(2) by (auto simp: msgconv_def Let_def split: if_splits)
  have "held k = None"
  proof (rule ccontr)
    assume "held k \<noteq> None"
    then obtain a b c where "held k = Some (a, b, c)" by (metis not_None_eq prod_cases3)
    from mholdsD(3) [OF i0(5) this] k(3) show False by simp
  qed
  moreover have "k < length (msgque s)" using pos k(2) i0(6) by simp
  moreover have "nat i = seq (msg_perm (msgque s ! k)) * ?mni + k" using k(2,5) div_mult_mod_eq [of "nat i" ?mni] by simp
  then have "i = int (seq (msg_perm (msgque s ! k)) * ?mni + k)" using k(1) by linarith
  ultimately show "k < length (msgque s) \<and> allocd (msg_perm (msgque s ! k)) \<and> held k = None
        \<and> i = int (seq (msg_perm (msgque s ! k)) * ?mni + k) \<and> s' = s\<lparr>msglock := (msglock s)[k := True]\<rparr>" using k(4,6) by (simp add: allocd_def)
qed

lemma mlists_table:
  assumes "mlists s g" "length (msgque s') = length (msgque s)" "msgh s' = msgh s" "msgfp s' = msgfp s" "msginfo s' = msginfo s"
    "\<And>j. j < length (msgque s) \<Longrightarrow> msg_first (msgque s' ! j) = msg_first (msgque s ! j)"
    "\<And>j. j < length (msgque s) \<Longrightarrow> msg_last (msgque s' ! j) = msg_last (msgque s ! j)"
    "\<And>j. j < length (msgque s) \<Longrightarrow> msg_qnum (msgque s' ! j) = msg_qnum (msgque s ! j)"
    "\<And>j. j < length (msgque s) \<Longrightarrow> gq g j = [] \<or> allocd (msg_perm (msgque s' ! j)) = allocd (msg_perm (msgque s ! j))"
  shows "mlists s' g"
  unfolding mlists_def assms(2-5)
proof (intro conjI allI impI)
  note l = mlistsD [OF assms(1)]
  fix j assume j: "j < length (msgque s)"
  show "chain (nx s) (msg_first (msgque s' ! j)) (gq g j)" "msg_last (msgque s' ! j) = last_of (gq g j)"
    "msg_qnum (msgque s' ! j) = length (gq g j)" using l(1-3) [OF j] assms(6-8) [OF j] by simp_all
  show "gq g j = []" if "\<not> allocd (msg_perm (msgque s' ! j))" using that l(4) [OF j] assms(9) [OF j] by auto
  show "own g m = OQ j \<longleftrightarrow> m \<in> set (gq g j)" for m using l(7) [OF j] .
qed (use mlistsD [OF assms(1)] in blast)+

lemma minv0_entry:
  assumes "minv0 s g held" "k < length (msgque s)" "gq g k = []" "held k = None" "msgque s' = (msgque s)[k := q]"
    "msg_first q = msg_first (msgque s ! k)" "msg_last q = msg_last (msgque s ! k)" "msg_qnum q = msg_qnum (msgque s ! k)"
    "mtab (msginfo s) ((msgque s)[k := q])"
    "msgh s' = msgh s" "msgfp s' = msgfp s" "msgmap s' = msgmap s" "msginfo s' = msginfo s" "msglock s' = msglock s"
  shows "minv0 s' g held"
proof -
  note i = minv0D [OF assms(1)]
  have qj: "msgque s' ! j = (if j = k then q else msgque s ! j)" if "j < length (msgque s)" for j using that by (simp add: assms(5))
  have len: "length (msgque s') = length (msgque s)" by (simp add: assms(5))
  have "mlists s' g" using mlists_table [OF i(3) len] assms(3,6-8,10,11,13) qj by simp
  moreover have "mregs s' g" using i(4) assms(10,12,13) by (simp add: mregs_def)
  moreover have "mholds s' g held"
    unfolding mholds_def len assms(13,14)
  proof (intro conjI allI impI)
    show "length (msglock s) = length (msgque s)" by (rule mholdsD(1) [OF i(5)])
    fix j mp sp c assume h: "held j = Some (mp, sp, c)"
    note d = mholdsD(2-7) [OF i(5) h]
    have "j \<noteq> k" using h assms(4) by auto
    with d show "j < length (msgque s)" "msglock s ! j" "allocd (msg_perm (msgque s' ! j))" "own g mp = OHold j"
      "gr g mp = (if c = 0 then None else Some (sp, btoq (msginfo s) c))" "c \<le> 65535" by (simp_all add: qj)
  qed (rule mholdsD(8) [OF i(5)])
  ultimately show ?thesis using i(1) assms(5,9,13) by (simp add: minv0_def)
qed

lemma mtab_retire:
  assumes "mtab mi qs" "k < length qs" "\<not> allocd (msg_perm q)" "seq (msg_perm q) * msi_msgmni mi + k \<le> 32767"
  shows "mtab mi (qs[k := q])"
  using assms keys_unique_upd [of "map msg_perm qs" "msg_perm q" k] by (simp add: mtab_def map_update nth_upd)

definition rmid_seq :: "msgst \<Rightarrow> int \<Rightarrow> nat \<Rightarrow> nat" where
  "rmid_seq s i n = (if i + int (msi_msgmni (msginfo s)) > INT16_MAX then 0 else n + 1)"

lemma rmid_seq_fits:
  assumes "i = int (n * msi_msgmni (msginfo s) + k)" "k < msi_msgmni (msginfo s)" "msi_msgmni (msginfo s) \<le> 32768"
  shows "rmid_seq s i n * msi_msgmni (msginfo s) + k \<le> 32767"
proof (cases "i + int (msi_msgmni (msginfo s)) > INT16_MAX")
  case True
  then show ?thesis using assms(2,3) by (simp add: rmid_seq_def)
next
  case False
  then have "n * msi_msgmni (msginfo s) + k + msi_msgmni (msginfo s) \<le> 32767" using assms(1) by linarith
  then show ?thesis using False by (simp add: rmid_seq_def)
qed

lemma msgctl_rmid_spec:
  assumes "minv s g held" "k < length (msgque s)" "held k = None" "msg_owner (msg_perm (msgque s ! k)) (u_cred u)"
    "i = int (seq (msg_perm (msgque s ! k)) * msi_msgmni (msginfo s) + k)"
  shows "\<exists>s' g'. msgctl_rmid s u i k = Some (MVal MZero, s') \<and> minv s' g' held \<and> gq g' = (gq g)(k := []) \<and> gf g' = rev (gq g k) @ gf g
    \<and> (\<forall>j. j \<noteq> k \<longrightarrow> msgque s' ! j = msgque s ! j \<and> absq s' g' j = absq s g j) \<and> mode (msg_perm (msgque s' ! k)) = 0
    \<and> length (msgque s') = length (msgque s) \<and> msginfo s' = msginfo s \<and> msglock s' = msglock s \<and> msg_now s' = msg_now s \<and> set (msg_waked s) \<subseteq> set (msg_waked s')
    \<and> (mode (msg_perm (msgque s ! k)) AND MSG_RWAIT \<noteq> 0 \<longrightarrow> WQnum k \<in> set (msg_waked s'))
    \<and> (mode (msg_perm (msgque s ! k)) AND MSG_WWAIT \<noteq> 0 \<longrightarrow> WQueue k \<in> set (msg_waked s'))"
proof -
  note i0 = minv0D [OF minvD(1) [OF assms(1)]]
  from msg_flush_spec [OF minvD(1) [OF assms(1)] assms(2)] obtain s1 g1 where
    s1: "msg_flush s k = Some s1" "minv0 s1 g1 held" "flushed s g s1 g1 k" by blast
  have f: "gq g1 = (gq g)(k := [])" "gf g1 = rev (gq g k) @ gf g" "msglock s1 = msglock s" "msginfo s1 = msginfo s" "msg_now s1 = msg_now s"
    "length (msgque s1) = length (msgque s)" "\<And>j. j \<noteq> k \<Longrightarrow> msgque s1 ! j = msgque s ! j \<and> absq s1 g1 j = absq s g j"
    "\<And>m. msg_ts (msgh s1 m) = msg_ts (msgh s m)" "\<And>j. seq (msg_perm (msgque s1 ! j)) = seq (msg_perm (msgque s ! j))"
    "mode (msg_perm (msgque s ! k)) AND MSG_RWAIT = mode (msg_perm (msgque s1 ! k)) AND MSG_RWAIT"
    "mode (msg_perm (msgque s ! k)) AND MSG_WWAIT \<noteq> 0 \<longrightarrow> WQueue k \<in> set (msg_waked s1) \<or> mode (msg_perm (msgque s1 ! k)) AND MSG_WWAIT \<noteq> 0"
    "set (msg_waked s) \<subseteq> set (msg_waked s1)"
    using s1(3) unfolding flushed_def by blast+
  let ?q = "msgque s1 ! k"
  let ?q2 = "?q\<lparr>msg_cbytes := 0, msg_perm := (msg_perm ?q)\<lparr>seq := rmid_seq s1 i (seq (msg_perm ?q))\<rparr>\<rparr>"
  let ?q3 = "set_qmode (\<lambda>_. 0) ?q2"
  define ws where "ws = (if mode (msg_perm ?q) AND MSG_WWAIT \<noteq> 0 then [WQueue k] else []) @ (if mode (msg_perm ?q) AND MSG_RWAIT \<noteq> 0 then [WQnum k] else [])"
  define s' where "s' = s1\<lparr>msgque := (msgque s1)[k := ?q3], msg_waked := ws @ msg_waked s1\<rparr>"
  have r: "msgctl_rmid s u i k = Some (MVal MZero, s')"
    using assms(2,4) s1(1) f(6)
    by (simp add: msgctl_rmid_def Let_def s'_def ws_def set_q_def mwake_def rmid_seq_def set_qmode_def)
  have "rmid_seq s1 i (seq (msg_perm ?q)) * msi_msgmni (msginfo s1) + k \<le> 32767"
    using rmid_seq_fits [of i "seq (msg_perm ?q)" s1 k] assms(2,5) f(4,9) i0(6) mcfgD(5) [OF i0(1)] by simp
  then have "mtab (msginfo s1) ((msgque s1)[k := ?q3])"
    using assms(2) f(6) by (intro mtab_retire [OF minv0D(2) [OF s1(2)]]) (simp_all add: set_qmode_def allocd_def)
  then have "minv0 s' g1 held"
    using assms(2,3) f(1,6) by (intro minv0_entry [OF s1(2), of k s' ?q3]) (simp_all add: s'_def set_qmode_def)
  moreover have "cbytes_ok s' g1"
    using minvD(2) [OF assms(1)] f(1,6-8) by (simp add: cbytes_ok_def s'_def nth_upd msg_simps)
  ultimately have "minv s' g1 held" by (simp add: minv_def)
  moreover have "\<And>j. j \<noteq> k \<Longrightarrow> msgque s' ! j = msgque s ! j \<and> absq s' g1 j = absq s g j"
    using f(7) absq_same [of s' s1] by (simp add: s'_def)
  moreover have "mode (msg_perm (msgque s' ! k)) = 0" using assms(2) f(6) by (simp add: s'_def msg_simps)
  ultimately show ?thesis using r f(1-6,10-12) by (intro exI [of _ s'] exI [of _ g1]) (auto simp: s'_def ws_def)
qed


section \<open>Taking resources for a message\<close>

definition gtake :: "mghost \<Rightarrow> nat \<Rightarrow> nat \<Rightarrow> (nat \<times> nat) option \<Rightarrow> mghost" where
  "gtake g k mp r = g\<lparr>gf := tl (gf g), own := (own g)(mp := OHold k), gr := (gr g)(mp := r)\<rparr>"

lemma gtake_simps [msg_simps]:
  "gq (gtake g k mp r) = gq g" "gf (gtake g k mp r) = tl (gf g)" "own (gtake g k mp r) = (own g)(mp := OHold k)" "gr (gtake g k mp r) = (gr g)(mp := r)"
  by (simp_all add: gtake_def)

lemma fp_head:
  assumes "mlists s g" "msgfp s = Some mp"
  shows "gf g = mp # tl (gf g)" "own g mp = OFree" "mp \<notin> set (tl (gf g))" "chain (nx s) (nx s mp) (tl (gf g))"
proof -
  have c: "chain (nx s) (Some mp) (gf g)" using mlistsD(5) [OF assms(1)] assms(2) by simp
  then show h: "gf g = mp # tl (gf g)" by (cases "gf g") (simp_all add: chain_simps)
  then show "own g mp = OFree" using mlistsD(6) [OF assms(1), of mp] by (metis list.set_intros(1))
  show "mp \<notin> set (tl (gf g))" using chain_distinct [OF c] h by (metis distinct.simps(2))
  show "chain (nx s) (nx s mp) (tl (gf g))" using c h by (metis chain_pop)
qed

lemma mlists_take:
  assumes "mlists s g" "msgfp s = Some mp" "msgque s' = msgque s" "msgh s' = msgh s" "msgfp s' = nx s mp" "msginfo s' = msginfo s"
  shows "mlists s' (gtake g k mp r)"
  unfolding mlists_def assms(3-6) msg_simps
proof (intro conjI allI impI)
  note l = mlistsD [OF assms(1)] and h = fp_head [OF assms(1,2)]
  fix j assume j: "j < length (msgque s)"
  show "chain (nx s) (msg_first (msgque s ! j)) (gq g j)" "msg_last (msgque s ! j) = last_of (gq g j)"
    "msg_qnum (msgque s ! j) = length (gq g j)" "\<not> allocd (msg_perm (msgque s ! j)) \<Longrightarrow> gq g j = []" using l(1-4) [OF j] by simp_all
  show "((own g)(mp := OHold k)) m = OQ j \<longleftrightarrow> m \<in> set (gq g j)" for m using l(7) [OF j, of m] h(2) by auto
next
  note l = mlistsD [OF assms(1)] and h = fp_head [OF assms(1,2)]
  show "chain (nx s) (nx s mp) (tl (gf g))" by (rule h(4))
  show "((own g)(mp := OHold k)) m = OFree \<longleftrightarrow> m \<in> set (tl (gf g))" for m
    using l(6) [of m] h(1,3) by (cases "m = mp") (simp, metis fun_upd_other set_ConsD list.set_intros(2))
  show "((own g)(mp := OHold k)) m \<noteq> ONone \<longleftrightarrow> m < msi_msgtql (msginfo s)" for m
    using l(8) [of m] h(2) by (cases "m = mp") simp_all
  fix m j assume "((own g)(mp := OHold k)) m = OQ j"
  then have "own g m = OQ j" by (auto split: if_splits)
  from l(9) [OF this] show "j < length (msgque s)" "msg_ts (msgh s m) \<le> 65535" by simp_all
qed

lemma ran_upd_Some: "f a = None \<Longrightarrow> ran (f(a := Some v)) = insert v (ran f)"
  by (rule ran_map_upd)

lemma mregs_take:
  assumes "mregs s g" "mlists s g" "msgfp s = Some mp" "0 < n" "rmalloc (msgmap s) n = Some (a, m')" "a \<noteq> 0"
    "msgmap s' = m'" "msgh s' = msgh s" "msginfo s' = msginfo s"
  shows "mregs s' (gtake g k mp (Some (a, n)))"
  unfolding mregs_def assms(7-9) msg_simps
proof (intro conjI allI impI)
  note r = mregsD [OF assms(1)] and h = fp_head [OF assms(2,3)]
  have gn: "gr g mp = None" using r(5) [of mp] h(2) by simp
  have al: "rm.holds m' (insert (a, n) (ran (gr g)))" "\<And>x. x \<in> ran (gr g) \<Longrightarrow> span (a, n) \<inter> span x = {}"
    "span (a, n) \<subseteq> free_units (msgmap s)" "free_units m' \<subseteq> free_units (msgmap s)"
    using rm.holds_alloc [OF r(1) assms(4,5)] assms(6) by simp_all
  show "rm.holds m' (ran ((gr g)(mp \<mapsto> (a, n))))" using al(1) by (simp add: ran_upd_Some gn)
  show "free_units m' \<subseteq> {1..msi_msgseg (msginfo s)}" using al(4) r(2) by blast
  have new: "gr g m \<noteq> Some (a, n)" for m
  proof
    assume "gr g m = Some (a, n)"
    then have "span (a, n) \<inter> span (a, n) = {}" by (intro al(2) ranI)
    then show False using assms(4) by (simp add: span_def)
  qed
  show "m = m2" if "((gr g)(mp \<mapsto> (a, n))) m = Some x \<and> ((gr g)(mp \<mapsto> (a, n))) m2 = Some x" for m m2 x
    using that new r(3) [of m x m2] by (auto split: if_splits)
  have "a + n \<le> msi_msgseg (msginfo s) + 1"
  proof -
    have "a + n - 1 \<in> span (a, n)" using assms(4) by (auto simp: span_def)
    then have "a + n - 1 \<in> {1..msi_msgseg (msginfo s)}" using al(3) r(2) by blast
    then show ?thesis unfolding atLeastAtMost_iff by linarith
  qed
  then show "fst x + snd x \<le> msi_msgseg (msginfo s) + 1" if "((gr g)(mp \<mapsto> (a, n))) m = Some x" for m x
    using that r(4) [of m x] by (auto split: if_splits)
  show "((gr g)(mp \<mapsto> (a, n))) m = None" if "((own g)(mp := OHold k)) m = OFree \<or> ((own g)(mp := OHold k)) m = ONone" for m
    using that r(5) [of m] by (auto split: if_splits)
  fix m j assume "((own g)(mp := OHold k)) m = OQ j"
  then have "m \<noteq> mp" "own g m = OQ j" by (auto split: if_splits)
  then show "((gr g)(mp \<mapsto> (a, n))) m = (if msg_ts (msgh s m) = 0 then None else Some (nat (msg_spot (msgh s m)) + 1, btoq (msginfo s) (msg_ts (msgh s m))))"
    "msg_ts (msgh s m) \<noteq> 0 \<Longrightarrow> 0 \<le> msg_spot (msgh s m)" using r(6,7) [of m j] by simp_all
qed


lemma mregs_take0:
  assumes "mregs s g" "mlists s g" "msgfp s = Some mp" "msgmap s' = msgmap s" "msgh s' = msgh s" "msginfo s' = msginfo s"
  shows "mregs s' (gtake g k mp None)"
proof -
  note r = mregsD [OF assms(1)] and h = fp_head [OF assms(2,3)]
  have e: "(gr g)(mp := None) = gr g" using r(5) [of mp] h(2) by (simp add: fun_eq_iff)
  show ?thesis
    unfolding mregs_def assms(4-6) msg_simps e
  proof (intro conjI allI impI)
    show "gr g m = None" if "((own g)(mp := OHold k)) m = OFree \<or> ((own g)(mp := OHold k)) m = ONone" for m
      using that r(5) [of m] by (auto split: if_splits)
    fix m j assume "((own g)(mp := OHold k)) m = OQ j"
    then have "own g m = OQ j" by (auto split: if_splits)
    then show "gr g m = (if msg_ts (msgh s m) = 0 then None else Some (nat (msg_spot (msgh s m)) + 1, btoq (msginfo s) (msg_ts (msgh s m))))"
      "msg_ts (msgh s m) \<noteq> 0 \<Longrightarrow> 0 \<le> msg_spot (msgh s m)" using r(6,7) [of m j] by simp_all
  qed (use r(1,2,3,4) in blast)+
qed

lemma mholds_take:
  assumes "mholds s g held" "mlists s g" "msgfp s = Some mp" "held k = None" "k < length (msgque s)" "msglock s' ! k" "allocd (msg_perm (msgque s ! k))"
    "c \<le> 65535" "r = (if c = 0 then None else Some (sp, btoq (msginfo s) c))" "msgque s' = msgque s" "msginfo s' = msginfo s" "msglock s' = msglock s"
  shows "mholds s' (gtake g k mp r) (held(k \<mapsto> (mp, sp, c)))"
  unfolding mholds_def assms(10-12) msg_simps
proof (intro conjI allI impI)
  show "length (msglock s) = length (msgque s)" by (rule mholdsD(1) [OF assms(1)])
  fix j mp' sp' c' assume h: "(held(k \<mapsto> (mp, sp, c))) j = Some (mp', sp', c')"
  have "mp' = mp \<and> sp' = sp \<and> c' = c \<and> j = k \<or> j \<noteq> k \<and> mp' \<noteq> mp \<and> held j = Some (mp', sp', c')"
    using h mholdsD(5) [OF assms(1), of j mp' sp' c'] fp_head(2) [OF assms(2,3)] by (cases "j = k") auto
  then show "j < length (msgque s)" "msglock s ! j" "allocd (msg_perm (msgque s ! j))" "((own g)(mp := OHold k)) mp' = OHold j"
      "((gr g)(mp := r)) mp' = (if c' = 0 then None else Some (sp', btoq (msginfo s) c'))" "c' \<le> 65535"
    using mholdsD(2-7) [OF assms(1), of j mp' sp' c'] assms(5-9,12) by auto
next
  fix j a assume "((own g)(mp := OHold k)) a = OHold j"
  then show "\<exists>sp' c'. (held(k \<mapsto> (mp, sp, c))) j = Some (a, sp', c')"
    using mholdsD(8) [OF assms(1), of a j] assms(4) by (cases "a = mp") auto
qed

text \<open>
  Taking a header and, unless the text is empty, the units for the text: both come from what is free,
  and the call that holds the queue owns them.
\<close>

lemma hold_spec:
  assumes "minv s g held" "held k = None" "k < length (msgque s)" "msglock s ! k" "allocd (msg_perm (msgque s ! k))" "c \<le> 65535" "msgfp s = Some mp"
    "(if c \<noteq> 0 then rmalloc (msgmap s) (btoq (msginfo s) c) else Some (0, msgmap s)) = Some (sp, m)" "\<not> (c \<noteq> 0 \<and> sp = 0)"
    "s' = s\<lparr>msgfp := msg_next (msgh s mp), msgmap := m\<rparr>"
  shows "\<exists>r. minv s' (gtake g k mp r) (held(k \<mapsto> (mp, sp, c)))"
proof -
  note i = minv0D [OF minvD(1) [OF assms(1)]]
  define r where "r = (if c = 0 then None else Some (sp, btoq (msginfo s) c))"
  have "mlists s' (gtake g k mp r)" by (rule mlists_take [OF i(3) assms(7)]) (simp_all add: assms(10))
  moreover have "mregs s' (gtake g k mp r)"
  proof (cases "c = 0")
    case True
    then have "msgmap s' = msgmap s" "msgh s' = msgh s" "msginfo s' = msginfo s" using assms(8) by (auto simp: assms(10))
    from mregs_take0 [OF i(4,3) assms(7) this] True show ?thesis by (simp add: r_def)
  next
    case False
    have "0 < btoq (msginfo s) c" using False mcfgD(2) [OF i(1)] by (simp add: btoq_pos)
    from mregs_take [OF i(4,3) assms(7) this, of sp m s'] False assms(8,9,10) show ?thesis by (simp add: r_def)
  qed
  moreover have "mholds s' (gtake g k mp r) (held(k \<mapsto> (mp, sp, c)))"
    by (rule mholds_take [OF i(5,3) assms(7,2,3) _ assms(5,6) r_def]) (simp_all add: assms(4,10))
  ultimately have "minv0 s' (gtake g k mp r) (held(k \<mapsto> (mp, sp, c)))" using i(1,2) by (simp add: minv0_def assms(10))
  moreover have "cbytes_ok s' (gtake g k mp r)" using minvD(2) [OF assms(1)] by (simp add: cbytes_ok_def assms(10) msg_simps)
  ultimately show ?thesis unfolding minv_def by blast
qed

text \<open>A process that has to wait for text space puts the header back where it was.\<close>

lemma putback_minv:
  assumes "minv s g held" "msgfp s = Some mp" "msgmap s1 = (msgmap s)\<lparr>mapwant := w\<rparr>" "msgque s1 = msgque s" "msgh s1 = msgh s" "msgfp s1 = nx s mp"
    "msglock s1 = msglock s" "mbuf s1 = mbuf s" "msginfo s1 = msginfo s"
  shows "minv (hdr_free mp s1) g held \<and> absq (hdr_free mp s1) g = absq s g"
proof -
  note i = minv0D [OF minvD(1) [OF assms(1)]]
  have h: "msgh (hdr_free mp s1) = msgh s" "msgfp (hdr_free mp s1) = msgfp s" using assms(2,5,6) by (simp_all add: msg_simps)
  have "mregs (hdr_free mp s1) g"
    using i(4) h(1) assms(3,9) unfolding mregs_def rm.holds_def by (simp add: msg_simps rm_inv_def free_units_def regions_def)
  moreover have "mlists (hdr_free mp s1) g" using mlists_table [OF i(3)] h assms(4,9) by (simp add: msg_simps)
  moreover have "mholds (hdr_free mp s1) g held" using i(5) assms(4,7,9) unfolding mholds_def by (simp add: msg_simps)
  moreover have "cbytes_ok (hdr_free mp s1) g" using minvD(2) [OF assms(1)] h(1) assms(4) unfolding cbytes_ok_def by (simp add: msg_simps)
  moreover have "absq (hdr_free mp s1) g = absq s g" using absq_same [of "hdr_free mp s1" s g] h(1) assms(8,9) by (simp add: fun_eq_iff msg_simps)
  ultimately show ?thesis using i(1,2) assms(4,9) by (simp add: minv_def minv0_def msg_simps)
qed


text \<open>Changes of one entry of \<^verbatim>\<open>msgque\<close> that leave its list and its identity alone.\<close>

lemma set_q_minv:
  assumes "minv s g held" "qcore (f (msgque s ! k)) = qcore (msgque s ! k)" "msg_cbytes (f (msgque s ! k)) = msg_cbytes (msgque s ! k)"
  shows "minv (set_q s k f) g held \<and> absq (set_q s k f) g = absq s g"
proof -
  have "minv0 (set_q s k f) g held"
    by (rule minv0_same [OF minvD(1) [OF assms(1)]]) (simp_all add: msg_simps qcore_upd [OF assms(2)])
  moreover have "cbytes_ok (set_q s k f) g"
    by (rule cbytes_ok_same [OF minvD(2) [OF assms(1)]]) (simp_all add: msg_simps nth_upd assms(3))
  moreover have "absq (set_q s k f) g = absq s g" using absq_same [of "set_q s k f" s g] by (simp add: fun_eq_iff msg_simps)
  ultimately show ?thesis by (simp add: minv_def)
qed

lemma qmode_core:
  "qcore (set_qmode (\<lambda>m. m OR MSG_RWAIT) q) = qcore q" "qcore (set_qmode (\<lambda>m. m OR MSG_WWAIT) q) = qcore q"
  "qcore (set_qmode (\<lambda>m. m AND NOT MSG_RWAIT) q) = qcore q" "qcore (set_qmode (\<lambda>m. m AND NOT MSG_WWAIT) q) = qcore q"
  unfolding qcore_def set_qmode_simps(1-7) qmode_allocd by simp_all

lemma sum_list_le: "(\<And>x. x \<in> set xs \<Longrightarrow> f x \<le> (b :: nat)) \<Longrightarrow> sum_list (map f xs) \<le> length xs * b"
proof (induction xs)
  case (Cons x xs)
  have "f x \<le> b" using Cons.prems by simp
  moreover have "sum_list (map f xs) \<le> length xs * b" using Cons by simp
  ultimately show ?case by simp
qed simp

lemma cbytes_bound:
  assumes "minv s g held" "k < length (msgque s)"
  shows "msg_cbytes (msgque s ! k) \<le> 4294901760"
proof -
  note i = minv0D [OF minvD(1) [OF assms(1)]]
  have "msg_cbytes (msgque s ! k) = sum_list (map (\<lambda>m. msg_ts (msgh s m)) (gq g k))" using minvD(2) [OF assms(1)] assms(2) by (simp add: cbytes_ok_def)
  also have "\<dots> \<le> length (gq g k) * 65535"
    using mlistsD(7) [OF i(3) assms(2)] mlistsD(9) [OF i(3)] by (intro sum_list_le) blast
  also have "\<dots> \<le> 65536 * 65535" using gq_length(1) [OF i(3) assms(2)] mcfgD(4) [OF i(1)] by (intro mult_right_mono) simp_all
  finally show ?thesis by simp
qed

lemma mwake_calm: "calm s (mwake c s)"
  by (simp add: calm_def msg_simps)

lemma mwake_minv: "minv s g held \<Longrightarrow> minv (mwake c s) g held"
  by (rule calm_minv [OF _ mwake_calm]) (simp_all add: msg_simps)

text \<open>How a section that waits or fails leaves the queues.\<close>

definition still :: "msgst \<Rightarrow> mghost \<Rightarrow> mheld \<Rightarrow> msgst \<Rightarrow> bool" where
  "still s g held s' \<longleftrightarrow> minv s' g held \<and> absq s' g = absq s g"

lemma still_refl: "minv s g held \<Longrightarrow> still s g held s"
  by (simp add: still_def)

lemma still_unlock: "still s g held s1 \<Longrightarrow> held k = None \<Longrightarrow> still s g held (unlock k s1)"
  using unlock_minv calmD(8) [OF unlock_calm] by (simp add: still_def fun_eq_iff)

lemma still_mwake: "still s g held s1 \<Longrightarrow> still s g held (mwake c s1)"
  using mwake_minv calmD(8) [OF mwake_calm] by (simp add: still_def fun_eq_iff)

lemma still_set_q:
  assumes "still s g held s1" "qcore (f (msgque s1 ! k)) = qcore (msgque s1 ! k)" "msg_cbytes (f (msgque s1 ! k)) = msg_cbytes (msgque s1 ! k)"
  shows "still s g held (set_q s1 k f)"
  using set_q_minv [of s1 g held f k] assms by (simp add: still_def)

lemma still_conv: "minv s g held \<Longrightarrow> msgconv s i = (r, s') \<Longrightarrow> still s g held s'"
  using msgconv_spec(1,2) [of s g held i r s'] calmD(8) [of s s' g] by (auto simp: still_def fun_eq_iff)

lemmas still_intros = still_refl still_unlock still_mwake still_set_q still_conv

lemma still_qmode:
  assumes "still s g held s1"
  shows "still s g held (set_q s1 k (set_qmode (\<lambda>m. m OR MSG_RWAIT)))" "still s g held (set_q s1 k (set_qmode (\<lambda>m. m OR MSG_WWAIT)))"
    "still s g held (set_q s1 k (set_qmode (\<lambda>m. m AND NOT MSG_RWAIT)))" "still s g held (set_q s1 k (set_qmode (\<lambda>m. m AND NOT MSG_WWAIT)))"
  using assms by (intro still_set_q qmode_core; simp add: msg_simps)+


definition got_res :: "msgst \<Rightarrow> mghost \<Rightarrow> mheld \<Rightarrow> nat \<Rightarrow> nat \<Rightarrow> nat \<Rightarrow> nat \<Rightarrow> msgst \<Rightarrow> bool" where
  "got_res s g held k cnt mp sp s' \<longleftrightarrow> k < length (msgque s) \<and> held k = None \<and> msgfp s = Some mp \<and> msgque s' = msgque s
     \<and> cnt + msg_cbytes (msgque s ! k) \<le> msg_qbytes (msgque s ! k)
     \<and> (\<exists>r. minv s' (gtake g k mp r) (held(k \<mapsto> (mp, sp, cnt)))) \<and> absq s' g = absq s g"

lemma msgsnd_getres_spec:
  assumes "minv s g held" "cnt \<le> 65535"
  shows "\<exists>r s'. msgsnd_getres s i k cnt flg = Some (r, s') \<and>
    (case r of MHold mp sp \<Rightarrow> got_res s g held k cnt mp sp s'
     | MSleep ch \<Rightarrow> still s g held s' \<and> (fst (msgconv s i) \<noteq> CGot k \<or> flg AND IPC_NOWAIT = 0)
     | MErr e \<Rightarrow> still s g held s' \<and> (e = EIDRM \<and> fst (msgconv s i) \<noteq> CGot k \<or> e = EAGAIN \<and> flg AND IPC_NOWAIT \<noteq> 0) | _ \<Rightarrow> False)"
proof -
  obtain c s1 where c: "msgconv s i = (c, s1)" by fastforce
  note v = msgconv_spec [OF assms(1) c] and st = still_conv [OF assms(1) c]
  note q = calmD [OF v(2)]
  show ?thesis
  proof (cases c)
    case CInval
    then show ?thesis using c st by (simp add: msgsnd_getres_def)
  next
    case (CBusy j)
    then show ?thesis using c st by (simp add: msgsnd_getres_def)
  next
    case (CGot k1)
    note d = v(4) [OF CGot]
    then have h: "held k1 = None" by simp
    then have u: "still s g held x \<Longrightarrow> still s g held (unlock k1 x)" for x using still_unlock [of s g held x k1] by blast
    let ?full = "u32add cnt (msg_cbytes (msgque s1 ! k)) > msg_qbytes (msgque s1 ! k)"
    consider (other) "k1 \<noteq> k" | (full) "k1 = k" "?full" | (nohdr) "k1 = k" "\<not> ?full" "msgfp s1 = None"
      | (hdr) mp where "k1 = k" "\<not> ?full" "msgfp s1 = Some mp" by (cases "msgfp s1") auto
    then show ?thesis
    proof cases
      case other
      then show ?thesis using c CGot u [OF st] by (simp add: msgsnd_getres_def)
    next
      case full
      then show ?thesis using c CGot u [OF st] u [OF still_qmode(2) [OF st, of k]] by (simp add: msgsnd_getres_def)
    next
      case nohdr
      then show ?thesis using c CGot u [OF st] by (simp add: msgsnd_getres_def)
    next
      case hdr
      have fits: "cnt + msg_cbytes (msgque s ! k) \<le> msg_qbytes (msgque s ! k)"
        using hdr(1,2) cbytes_bound [OF assms(1), of k] d assms(2) q(1) by (simp add: u32add_id)
      obtain sp m where al: "(if cnt \<noteq> 0 then rmalloc (msgmap s1) (btoq (msginfo s1) cnt) else Some (0, msgmap s1)) = Some (sp, m)"
        and z: "sp = 0 \<Longrightarrow> m = msgmap s1"
      proof (cases "cnt = 0")
        case False
        note i1 = minv0D [OF minvD(1) [OF v(1)]]
        have "0 < btoq (msginfo s1) cnt" using False mcfgD(2) [OF i1(1)] by (simp add: btoq_pos)
        from rm.alloc_ok [OF rm.holdsD(1) [OF mregsD(1) [OF i1(4)]] this] obtain a m where
          "rmalloc (msgmap s1) (btoq (msginfo s1) cnt) = Some (a, m)" "a = 0 \<Longrightarrow> m = msgmap s1" by auto
        with False show thesis by (intro that [of a m]) simp_all
      qed (use that in simp)
      let ?s2 = "s1\<lparr>msgfp := msg_next (msgh s1 mp), msgmap := m\<rparr>"
      show ?thesis
      proof (cases "cnt \<noteq> 0 \<and> sp = 0")
        case True
        define w where "w = (if flg AND IPC_NOWAIT = 0 then u32add (mapwant m) 1 else mapwant m)"
        have "still s g held (hdr_free mp (?s2\<lparr>msgmap := m\<lparr>mapwant := w\<rparr>\<rparr>))"
          using putback_minv [OF v(1) hdr(3), of "?s2\<lparr>msgmap := m\<lparr>mapwant := w\<rparr>\<rparr>" w] z True st by (simp add: still_def)
        from u [OF this] show ?thesis
          using c CGot hdr al True by (auto simp: msgsnd_getres_def Let_def w_def)
      next
        case False
        have "msglock s1 ! k" "allocd (msg_perm (msgque s1 ! k))" "k < length (msgque s1)" "held k = None"
          using d hdr(1) q(1) mholdsD(1) [OF minv0D(5) [OF minvD(1) [OF assms(1)]]] by auto
        from hold_spec [OF v(1) this(4,3,1,2) assms(2) hdr(3) al False refl] fits d hdr(1,3) q
        have "got_res s g held k cnt mp sp ?s2" using absq_same [of ?s2 s g] by (auto simp: got_res_def fun_eq_iff)
        moreover have "msgsnd_getres s i k cnt flg = Some (MHold mp sp, ?s2)"
          using c CGot hdr al False by (cases "cnt = 0") (auto simp: msgsnd_getres_def Let_def)
        ultimately show ?thesis by (intro exI [of _ "MHold mp sp"] exI [of _ ?s2]) simp
      qed
    qed
  qed
qed


section \<open>Putting the message on the queue\<close>

definition gput :: "mghost \<Rightarrow> nat \<Rightarrow> nat \<Rightarrow> mghost" where
  "gput g k mp = g\<lparr>gq := (gq g)(k := gq g k @ [mp]), own := (own g)(mp := OQ k)\<rparr>"

lemma gput_simps [msg_simps]:
  "gq (gput g k mp) = (gq g)(k := gq g k @ [mp])" "gf (gput g k mp) = gf g" "own (gput g k mp) = (own g)(mp := OQ k)" "gr (gput g k mp) = gr g"
  by (simp_all add: gput_def)

text \<open>A text in the units of one region does not touch the bytes of another.\<close>

lemma unit_of_byte:
  assumes "0 < (z :: nat)" "z * a \<le> x" "x < z * (a + n)"
  shows "a \<le> x div z" "x div z < a + n"
  using assms less_mult_imp_div_less [of x "a + n" z] div_le_mono [of "z * a" x z] by (simp_all add: mult.commute)

lemma write_elsewhere:
  assumes "0 < msi_msgssz (msginfo s)" "0 < a" "span (a, btoq (msginfo s) (length txt)) \<inter> span (b + 1, btoq (msginfo s) n) = {}"
    "s' = s\<lparr>mbuf := buf_write (mbuf s) (msi_msgssz (msginfo s) * (a - 1)) txt\<rparr>"
  shows "text_at s' b n = text_at s b n"
  unfolding text_at_def
proof (rule map_cong [OF refl])
  fix j assume "j \<in> set [0..<n]"
  let ?z = "msi_msgssz (msginfo s)" and ?mi = "msginfo s"
  let ?x = "?z * b + j"
  have "?x < ?z * (b + btoq ?mi n)" using \<open>j \<in> set [0..<n]\<close> btoq_covers [OF assms(1), of n] by (simp add: distrib_left)
  from unit_of_byte [OF assms(1) _ this] have in_b: "?x div ?z + 1 \<in> span (b + 1, btoq ?mi n)" by (simp add: span_def)
  have "\<not> (?z * (a - 1) \<le> ?x \<and> ?x < ?z * (a - 1) + length txt)"
  proof
    assume w: "?z * (a - 1) \<le> ?x \<and> ?x < ?z * (a - 1) + length txt"
    then have "?x < ?z * (a - 1 + btoq ?mi (length txt))" using btoq_covers [OF assms(1), of "length txt"] by (simp add: distrib_left)
    from unit_of_byte [OF assms(1) _ this] w have "?x div ?z + 1 \<in> span (a, btoq ?mi (length txt))" using assms(2) by (auto simp: span_def)
    with in_b assms(3) show False by blast
  qed
  then have "buf_write (mbuf s) (?z * (a - 1)) txt ?x = mbuf s ?x" by (auto simp: buf_write_def)
  then show "mbuf s' (msi_msgssz (msginfo s') * b + j) = mbuf s (msi_msgssz (msginfo s) * b + j)" by (simp add: assms(4))
qed

lemma write_here:
  assumes "s' = s\<lparr>mbuf := buf_write (mbuf s) (msi_msgssz (msginfo s) * b) txt\<rparr>"
  shows "text_at s' b (length txt) = txt"
  by (rule nth_equalityI) (simp_all add: text_at_def assms buf_write_def)

lemma mlists_put:
  assumes "mlists s g" "k < length (msgque s)" "allocd (msg_perm (msgque s ! k))" "own g mp = OHold k" "length (gq g k) + 1 < 4294967296"
    "nx s' = (case last_of (gq g k) of None \<Rightarrow> (nx s)(mp := None) | Some l \<Rightarrow> (nx s)(mp := None, l := Some mp))" "msgfp s' = msgfp s" "msginfo s' = msginfo s"
    "msgque s' = (msgque s)[k := q]" "msg_first q = (if gq g k = [] then Some mp else msg_first (msgque s ! k))" "msg_last q = Some mp"
    "msg_qnum q = u32add (msg_qnum (msgque s ! k)) 1" "allocd (msg_perm q)" "msg_ts (msgh s' mp) \<le> 65535" "\<And>m. m \<noteq> mp \<Longrightarrow> msg_ts (msgh s' m) = msg_ts (msgh s m)"
  shows "mlists s' (gput g k mp)"
proof -
  note l = mlistsD [OF assms(1)]
  have lo: "own g a = OQ k" if "last_of (gq g k) = Some a" for a using l(7) [OF assms(2), of a] last_of_Some [OF that] by auto
  have other: "chain (nx s') a zs = chain (nx s) a zs" if "mp \<notin> set zs" "\<And>p. last_of (gq g k) = Some p \<Longrightarrow> p \<notin> set zs" for a zs
    using that by (cases "last_of (gq g k)") (simp_all add: assms(6) chain_simps)
  have nin: "mp \<notin> set (gq g j)" if "j < length (msgque s)" for j using l(7) [OF that, of mp] assms(4) by simp
  have here: "chain (nx s') (msg_first q) (gq g k @ [mp])"
  proof (cases "gq g k" rule: rev_cases)
    case Nil
    then show ?thesis by (simp add: assms(6,10) chain_simps)
  next
    case (snoc ys a)
    then show ?thesis using chain_push_back(2) [OF l(1) [OF assms(2)] nin [OF assms(2)] snoc] by (simp add: assms(6,10) chain_simps)
  qed
  show ?thesis
    unfolding mlists_def msg_simps assms(7-9)
  proof (intro conjI allI impI; (unfold length_list_update)?)
    fix j assume j: "j < length (msgque s)"
    have oj: "p \<notin> set (gq g j)" if "j \<noteq> k" "last_of (gq g k) = Some p" for p using l(7) [OF j, of p] lo that by auto
    show "chain (nx s') (msg_first ((msgque s)[k := q] ! j)) (((gq g)(k := gq g k @ [mp])) j)"
      using j here other [of "gq g j" "msg_first (msgque s ! j)"] oj nin [OF j] l(1) [OF j] by (auto simp: nth_upd)
    show "msg_last ((msgque s)[k := q] ! j) = last_of (((gq g)(k := gq g k @ [mp])) j)"
      using j l(2) [OF j] assms(11) by (auto simp: nth_upd chain_simps)
    show "msg_qnum ((msgque s)[k := q] ! j) = length (((gq g)(k := gq g k @ [mp])) j)"
      using j l(3) [OF j] assms(5,12) by (auto simp: nth_upd u32add_id)
    show "((gq g)(k := gq g k @ [mp])) j = []" if "\<not> allocd (msg_perm ((msgque s)[k := q] ! j))"
      using that j l(4) [OF j] assms(13) by (auto simp: nth_upd split: if_splits)
    show "((own g)(mp := OQ k)) m = OQ j \<longleftrightarrow> m \<in> set (((gq g)(k := gq g k @ [mp])) j)" for m
      using l(7) [OF j, of m] nin [OF j] assms(4) by (cases "j = k"; cases "m = mp") auto
  next
    have "mp \<notin> set (gf g)" "\<And>p. last_of (gq g k) = Some p \<Longrightarrow> p \<notin> set (gf g)" using l(6) assms(4) lo by (metis owner.distinct)+
    then show "chain (nx s') (msgfp s) (gf g)" using other l(5) by simp
    show "((own g)(mp := OQ k)) m = OFree \<longleftrightarrow> m \<in> set (gf g)" for m using l(6) [of m] assms(4) l(6) [of mp] by auto
    show "((own g)(mp := OQ k)) m \<noteq> ONone \<longleftrightarrow> m < msi_msgtql (msginfo s)" for m using l(8) [of m] assms(4) by (cases "m = mp") simp_all
    fix m j assume "((own g)(mp := OQ k)) m = OQ j"
    then show "j < length (msgque s)" "msg_ts (msgh s' m) \<le> 65535" using l(9) [of m j] assms(2,14,15) by (cases "m = mp"; simp)+
  qed
qed


definition qlinked :: "msqid_ds \<Rightarrow> nat \<Rightarrow> nat \<Rightarrow> int \<Rightarrow> int \<Rightarrow> msqid_ds" where
  "qlinked q mp cnt pid now = set_qmode (\<lambda>m. m AND NOT MSG_RWAIT) (q\<lparr>msg_qnum := u32add (msg_qnum q) 1, msg_cbytes := u32add (msg_cbytes q) cnt, msg_lspid := pid, msg_stime := now,
     msg_first := (if msg_last q = None then Some mp else msg_first q), msg_last := Some mp\<rparr>)"

lemma qlinked_simps [msg_simps]:
  "msg_first (qlinked q mp c p t) = (if msg_last q = None then Some mp else msg_first q)" "msg_last (qlinked q mp c p t) = Some mp"
  "msg_qnum (qlinked q mp c p t) = u32add (msg_qnum q) 1" "msg_cbytes (qlinked q mp c p t) = u32add (msg_cbytes q) c" "msg_qbytes (qlinked q mp c p t) = msg_qbytes q"
  "seq (msg_perm (qlinked q mp c p t)) = seq (msg_perm q)" "key (msg_perm (qlinked q mp c p t)) = key (msg_perm q)"
  by (simp_all add: qlinked_def Let_def msg_simps)

lemma qlinked_allocd [msg_simps]: "allocd (msg_perm (qlinked q mp c p t)) = allocd (msg_perm q)"
  unfolding qlinked_def Let_def qmode_allocd by simp

definition new_hdr :: "int \<Rightarrow> nat \<Rightarrow> nat \<Rightarrow> msg_t" where
  "new_hdr typ cnt spot = \<lparr>msg_next = None, msg_type = typ, msg_ts = cnt mod 65536, msg_spot = s16 (if cnt \<noteq> 0 then int spot - 1 else - 1)\<rparr>"

lemma msgsnd_put_links:
  assumes "k < length (msgque s)" "cnt \<noteq> 0 \<longrightarrow> txt \<noteq> None" "msg_last (msgque s ! k) \<noteq> Some mp"
  shows "\<exists>s1. msgsnd_put s u k mp spot cnt typ txt = Some (MVal MZero, unlock k s1)
    \<and> msgque s1 = (msgque s)[k := qlinked (msgque s ! k) mp cnt (u_pid u) (msg_now s)]
    \<and> msgh s1 = (case msg_last (msgque s ! k) of None \<Rightarrow> (msgh s)(mp := new_hdr typ cnt spot)
        | Some l \<Rightarrow> (msgh s)(mp := new_hdr typ cnt spot, l := (msgh s l)\<lparr>msg_next := Some mp\<rparr>))
    \<and> msgfp s1 = msgfp s \<and> msgmap s1 = msgmap s \<and> msglock s1 = msglock s \<and> msginfo s1 = msginfo s \<and> msg_now s1 = msg_now s
    \<and> mbuf s1 = (if cnt \<noteq> 0 then buf_write (mbuf s) (msi_msgssz (msginfo s) * (spot - 1)) (the txt) else mbuf s)
    \<and> (mode (msg_perm (msgque s ! k)) AND MSG_RWAIT \<noteq> 0 \<longrightarrow> WQnum k \<in> set (msg_waked s1)) \<and> set (msg_waked s) \<subseteq> set (msg_waked s1)"
proof -
  define s1 where "s1 = (if cnt \<noteq> 0 then s\<lparr>mbuf := buf_write (mbuf s) (msi_msgssz (msginfo s) * (spot - 1)) (the txt)\<rparr> else s)"
  define s2 where "s2 = set_q s1 k (\<lambda>q. q\<lparr>msg_qnum := u32add (msg_qnum q) 1, msg_cbytes := u32add (msg_cbytes q) cnt, msg_lspid := u_pid u, msg_stime := msg_now s1\<rparr>)"
  define s3 where "s3 = s2\<lparr>msgh := (msgh s2)(mp := new_hdr typ cnt spot)\<rparr>"
  define s4 where "s4 = msg_link s3 k mp"
  define s5 where "s5 = (if mode (msg_perm (msgque s4 ! k)) AND MSG_RWAIT \<noteq> 0
                then mwake (WQnum k) (set_q s4 k (set_qmode (\<lambda>m. m AND NOT MSG_RWAIT))) else s4)"
  have r: "msgsnd_put s u k mp spot cnt typ txt = Some (MVal MZero, unlock k s5)"
    using assms(2) unfolding msgsnd_put_def Let_def s5_def s4_def s3_def s2_def s1_def new_hdr_def by auto
  let ?q = "msgque s ! k"
  have f1: "msgque s1 = msgque s" "msgh s1 = msgh s" "msgfp s1 = msgfp s" "msgmap s1 = msgmap s" "msglock s1 = msglock s" "msginfo s1 = msginfo s" "msg_now s1 = msg_now s"
    "msg_waked s1 = msg_waked s" "mbuf s1 = (if cnt \<noteq> 0 then buf_write (mbuf s) (msi_msgssz (msginfo s) * (spot - 1)) (the txt) else mbuf s)"
    by (simp_all add: s1_def)
  have q4: "msgque s4 = (msgque s)[k := ?q\<lparr>msg_qnum := u32add (msg_qnum ?q) 1, msg_cbytes := u32add (msg_cbytes ?q) cnt, msg_lspid := u_pid u, msg_stime := msg_now s,
      msg_first := (if msg_last ?q = None then Some mp else msg_first ?q), msg_last := Some mp\<rparr>]"
    using assms(1) by (cases "msg_last ?q") (simp_all add: s4_def s3_def s2_def msg_link_def msg_simps f1)
  have q5: "msgque s5 = (msgque s)[k := qlinked ?q mp cnt (u_pid u) (msg_now s)]"
  proof (cases "mode (msg_perm ?q) AND MSG_RWAIT = 0")
    case True
    from and_not_zero [OF this] have "msgque s4 = (msgque s)[k := qlinked ?q mp cnt (u_pid u) (msg_now s)]"
      by (simp add: q4 qlinked_def set_qmode_def)
    moreover have "s5 = s4" using True q4 assms(1) by (simp add: s5_def)
    ultimately show ?thesis by simp
  next
    case False
    then show ?thesis using assms(1) by (simp add: s5_def q4 msg_simps qlinked_def)
  qed
  have h5: "msgh s5 = (case msg_last ?q of None \<Rightarrow> (msgh s)(mp := new_hdr typ cnt spot)
        | Some l \<Rightarrow> (msgh s)(mp := new_hdr typ cnt spot, l := (msgh s l)\<lparr>msg_next := Some mp\<rparr>))"
    using assms(1,3) by (cases "msg_last ?q") (simp_all add: s5_def s4_def s3_def s2_def msg_link_def msg_simps f1)
  have "msgfp s5 = msgfp s1 \<and> msgmap s5 = msgmap s1 \<and> msglock s5 = msglock s1 \<and> msginfo s5 = msginfo s1 \<and> msg_now s5 = msg_now s1 \<and> mbuf s5 = mbuf s1
     \<and> set (msg_waked s1) \<subseteq> set (msg_waked s5)"
    by (auto simp: s5_def s4_def s3_def s2_def msg_link_def msg_simps split: option.split)
  moreover have "mode (msg_perm ?q) AND MSG_RWAIT \<noteq> 0 \<longrightarrow> WQnum k \<in> set (msg_waked s5)"
    using assms(1) by (simp add: s5_def q4 msg_simps)
  ultimately show ?thesis using r q5 h5 f1 by (intro exI [of _ s5]) simp
qed


text \<open>
  What the section that ends \<^verbatim>\<open>msgsnd\<close> does to the queues: the message is the last of its queue, the
  other messages are as they were.
\<close>

definition sent :: "msgst \<Rightarrow> mghost \<Rightarrow> msgst \<Rightarrow> mghost \<Rightarrow> nat \<Rightarrow> int \<times> nat list \<Rightarrow> bool" where
  "sent s g s' g' k x \<longleftrightarrow> absq s' g' k = absq s g k @ [x] \<and> (\<forall>j. j \<noteq> k \<and> j < length (msgque s) \<longrightarrow> absq s' g' j = absq s g j)"

lemma put_regs:
  assumes "mregs s g" "mholds s g held" "held k = Some (mp, sp, cnt)" "msi_msgseg (msginfo s) < 32768"
    "msgmap s' = msgmap s" "msginfo s' = msginfo s" "msg_ts (msgh s' mp) = cnt" "msg_spot (msgh s' mp) = s16 (if cnt \<noteq> 0 then int sp - 1 else - 1)"
    "\<And>m. m \<noteq> mp \<Longrightarrow> msg_ts (msgh s' m) = msg_ts (msgh s m) \<and> msg_spot (msgh s' m) = msg_spot (msgh s m)"
  shows "mregs s' (gput g k mp)" "cnt \<noteq> 0 \<Longrightarrow> 0 < sp \<and> msg_spot (msgh s' mp) = int (sp - 1)"
proof -
  note r = mregsD [OF assms(1)] and h = mholdsD(2-7) [OF assms(2,3)]
  show sp: "0 < sp \<and> msg_spot (msgh s' mp) = int (sp - 1)" if "cnt \<noteq> 0"
  proof -
    have gm: "gr g mp = Some (sp, btoq (msginfo s) cnt)" using h(5) that by simp
    then have "0 < sp" using rm.holdsD(2) [OF r(1) ranI [of "gr g" mp]] by auto
    moreover have "sp \<le> msi_msgseg (msginfo s) + 1" using r(4) [OF gm] by simp
    ultimately show ?thesis using assms(4,8) that by (simp add: s16_id of_nat_diff)
  qed
  show "mregs s' (gput g k mp)"
    unfolding mregs_def assms(5,6) msg_simps
  proof (intro conjI allI impI)
    show "gr g m = None" if "((own g)(mp := OQ k)) m = OFree \<or> ((own g)(mp := OQ k)) m = ONone" for m
      using that r(5) [of m] by (auto split: if_splits)
    fix m j assume o: "((own g)(mp := OQ k)) m = OQ j"
    show "gr g m = (if msg_ts (msgh s' m) = 0 then None else Some (nat (msg_spot (msgh s' m)) + 1, btoq (msginfo s) (msg_ts (msgh s' m))))"
      using o r(6) [of m j] assms(7,9) sp h(5) by (cases "m = mp") auto
    show "0 \<le> msg_spot (msgh s' m)" if "msg_ts (msgh s' m) \<noteq> 0" using o that r(7) [of m j] assms(7,9) sp by (cases "m = mp") auto
  qed (use r(1-4) in blast)+
qed

lemma put_holds:
  assumes "mholds s g held" "held k = Some (mp, sp, cnt)" "msglock s' = msglock s" "msginfo s' = msginfo s" "length (msgque s') = length (msgque s)"
    "\<And>j. allocd (msg_perm (msgque s' ! j)) = allocd (msg_perm (msgque s ! j))"
  shows "mholds s' (gput g k mp) (held(k := None))"
  unfolding mholds_def assms(3-6) msg_simps
proof (intro conjI allI impI)
  show "length (msglock s) = length (msgque s)" by (rule mholdsD(1) [OF assms(1)])
  fix j mp' sp' c' assume "(held(k := None)) j = Some (mp', sp', c')"
  then have h: "j \<noteq> k" "held j = Some (mp', sp', c')" by (auto split: if_splits)
  note d = mholdsD(2-7) [OF assms(1) h(2)]
  have "mp' \<noteq> mp" using d(4) mholdsD(5) [OF assms(1,2)] h(1) by auto
  with d show "j < length (msgque s)" "msglock s ! j" "allocd (msg_perm (msgque s ! j))" "((own g)(mp := OQ k)) mp' = OHold j"
      "gr g mp' = (if c' = 0 then None else Some (sp', btoq (msginfo s) c'))" "c' \<le> 65535" by simp_all
next
  fix j a assume "((own g)(mp := OQ k)) a = OHold j"
  then have "a \<noteq> mp" "own g a = OHold j" by (auto split: if_splits)
  then show "\<exists>sp c. (held(k := None)) j = Some (a, sp, c)" using mholdsD(8) [OF assms(1), of a j] assms(2) by auto
qed

lemma put_texts:
  assumes "mregs s g" "mholds s g held" "held k = Some (mp, sp, cnt)" "0 < msi_msgssz (msginfo s)" "own g m = OQ j" "cnt \<noteq> 0 \<longrightarrow> length txt = cnt"
    "mbuf s' = (if cnt \<noteq> 0 then buf_write (mbuf s) (msi_msgssz (msginfo s) * (sp - 1)) txt else mbuf s)" "msginfo s' = msginfo s"
    "msg_ts (msgh s' m) = msg_ts (msgh s m)" "msg_spot (msgh s' m) = msg_spot (msgh s m)"
  shows "mtext s' m = mtext s m"
proof -
  note r = mregsD [OF assms(1)] and h = mholdsD(2-7) [OF assms(2,3)]
  let ?b = "nat (msg_spot (msgh s m))" and ?n = "msg_ts (msgh s m)"
  let ?s1 = "s\<lparr>mbuf := buf_write (mbuf s) (msi_msgssz (msginfo s) * (sp - 1)) txt\<rparr>"
  have "text_at s' ?b ?n = text_at s ?b ?n"
  proof (cases "cnt = 0 \<or> ?n = 0")
    case True
    then show ?thesis using assms(7,8) by (auto simp: text_at_def)
  next
    case False
    then have gm: "gr g m = Some (?b + 1, btoq (msginfo s) ?n)" and gp: "gr g mp = Some (sp, btoq (msginfo s) cnt)" using r(6) [OF assms(5)] h(5) by simp_all
    have "m \<noteq> mp" using assms(5) h(4) by auto
    then have "(sp, btoq (msginfo s) cnt) \<noteq> (?b + 1, btoq (msginfo s) ?n)" using r(3) [OF gp] gm by auto
    then have "span (sp, btoq (msginfo s) cnt) \<inter> span (?b + 1, btoq (msginfo s) ?n) = {}"
      using rm.holdsD(6) [OF r(1) ranI [of "gr g", OF gp] ranI [of "gr g", OF gm]] by blast
    moreover have "0 < sp" using rm.holdsD(2) [OF r(1) ranI [of "gr g", OF gp]] by simp
    ultimately have "text_at ?s1 ?b ?n = text_at s ?b ?n"
      using False assms(6) by (intro write_elsewhere [OF assms(4), of sp "txt"]) simp_all
    moreover have "text_at s' ?b ?n = text_at ?s1 ?b ?n" using False assms(7,8) by (simp add: text_at_def)
    ultimately show ?thesis by simp
  qed
  then show ?thesis by (simp add: mtext_def assms(9,10))
qed


lemma put_abs:
  assumes "mlists s g" "k < length (msgque s)" "msg_type (msgh s' mp) = typ" "mtext s' mp = x"
    "\<And>m. m \<noteq> mp \<Longrightarrow> msg_type (msgh s' m) = msg_type (msgh s m)" "\<And>m j. own g m = OQ j \<Longrightarrow> mtext s' m = mtext s m" "own g mp = OHold k"
  shows "sent s g s' (gput g k mp) k (typ, x)"
proof -
  have "map (\<lambda>m. (msg_type (msgh s' m), mtext s' m)) (gq g j) = map (\<lambda>m. (msg_type (msgh s m), mtext s m)) (gq g j)" if "j < length (msgque s)" for j
  proof (rule map_cong [OF refl])
    fix m assume "m \<in> set (gq g j)"
    then have "own g m = OQ j" using mlistsD(7) [OF assms(1) that] by simp
    moreover from this assms(7) have "m \<noteq> mp" by auto
    ultimately show "(msg_type (msgh s' m), mtext s' m) = (msg_type (msgh s m), mtext s m)" using assms(5,6) by simp
  qed
  then show ?thesis using assms(2-4) unfolding sent_def absq_def msg_simps by simp blast
qed

lemma put_cbytes:
  assumes "minv s g held" "k < length (msgque s)" "own g mp = OHold k" "cnt \<le> 65535" "msgque s' = (msgque s)[k := q]"
    "msg_cbytes q = u32add (msg_cbytes (msgque s ! k)) cnt" "msg_ts (msgh s' mp) = cnt" "\<And>m. m \<noteq> mp \<Longrightarrow> msg_ts (msgh s' m) = msg_ts (msgh s m)"
  shows "cbytes_ok s' (gput g k mp)"
proof -
  note i = minv0D [OF minvD(1) [OF assms(1)]]
  have e: "sum_list (map (\<lambda>m. msg_ts (msgh s' m)) (gq g j)) = sum_list (map (\<lambda>m. msg_ts (msgh s m)) (gq g j))" if "j < length (msgque s)" for j
  proof (rule arg_cong [OF map_cong [OF refl]])
    fix m assume "m \<in> set (gq g j)"
    then have "own g m = OQ j" using mlistsD(7) [OF i(3) that] by simp
    then show "msg_ts (msgh s' m) = msg_ts (msgh s m)" using assms(3,8) by (cases "m = mp") auto
  qed
  have "u32add (msg_cbytes (msgque s ! k)) cnt = msg_cbytes (msgque s ! k) + cnt"
    using cbytes_bound [OF assms(1,2)] assms(4) by (simp add: u32add_id)
  then show ?thesis using minvD(2) [OF assms(1)] assms(2,5-7) e by (simp add: cbytes_ok_def nth_upd msg_simps)
qed

lemma msgsnd_put_spec:
  assumes "minv s g held" "held k = Some (mp, sp, cnt)" "cnt \<noteq> 0 \<longrightarrow> (\<exists>x. txt = Some x \<and> length x = cnt)"
  shows "\<exists>s' g'. msgsnd_put s u k mp sp cnt typ txt = Some (MVal MZero, s') \<and> minv s' g' (held(k := None))
    \<and> sent s g s' g' k (typ, if cnt = 0 then [] else the txt)
    \<and> msg_cbytes (msgque s' ! k) = msg_cbytes (msgque s ! k) + cnt \<and> msg_qbytes (msgque s' ! k) = msg_qbytes (msgque s ! k)
    \<and> (mode (msg_perm (msgque s ! k)) AND MSG_RWAIT \<noteq> 0 \<longrightarrow> WQnum k \<in> set (msg_waked s'))"
proof -
  note i = minv0D [OF minvD(1) [OF assms(1)]]
  note h = mholdsD(2-7) [OF i(5) assms(2)]
  have "own g l = OQ k" if "msg_last (msgque s ! k) = Some l" for l
    using mlistsD(2) [OF i(3) h(1)] mlistsD(7) [OF i(3) h(1), of l] last_of_Some [of "gq g k" l] that by auto
  then have lm: "msg_last (msgque s ! k) \<noteq> Some mp" using h(4) by auto
  from msgsnd_put_links [OF h(1) _ lm, of cnt "txt" u sp "typ"] assms(3) obtain s1 where s1:
    "msgsnd_put s u k mp sp cnt typ txt = Some (MVal MZero, unlock k s1)"
    "msgque s1 = (msgque s)[k := qlinked (msgque s ! k) mp cnt (u_pid u) (msg_now s)]"
    "msgh s1 = (case msg_last (msgque s ! k) of None \<Rightarrow> (msgh s)(mp := new_hdr typ cnt sp)
        | Some l \<Rightarrow> (msgh s)(mp := new_hdr typ cnt sp, l := (msgh s l)\<lparr>msg_next := Some mp\<rparr>))"
    "msgfp s1 = msgfp s" "msgmap s1 = msgmap s" "msglock s1 = msglock s" "msginfo s1 = msginfo s"
    "mbuf s1 = (if cnt \<noteq> 0 then buf_write (mbuf s) (msi_msgssz (msginfo s) * (sp - 1)) (the txt) else mbuf s)"
    "mode (msg_perm (msgque s ! k)) AND MSG_RWAIT \<noteq> 0 \<longrightarrow> WQnum k \<in> set (msg_waked s1)" by auto
  let ?g = "gput g k mp"
  have hm: "msgh s1 mp = new_hdr typ cnt sp" using lm by (simp add: s1(3) split: option.split)
  have ho: "msg_ts (msgh s1 m) = msg_ts (msgh s m) \<and> msg_spot (msgh s1 m) = msg_spot (msgh s m)" "msg_type (msgh s1 m) = msg_type (msgh s m)" if "m \<noteq> mp" for m
    using that by (simp_all add: s1(3) split: option.split)
  have ts: "msg_ts (msgh s1 mp) = cnt" "msg_spot (msgh s1 mp) = s16 (if cnt \<noteq> 0 then int sp - 1 else - 1)" "msg_type (msgh s1 mp) = typ"
    using hm h(6) by (simp_all add: new_hdr_def)
  have nxt: "nx s1 = (case last_of (gq g k) of None \<Rightarrow> (nx s)(mp := None) | Some l \<Rightarrow> (nx s)(mp := None, l := Some mp))"
    by (simp add: s1(3) new_hdr_def mlistsD(2) [OF i(3) h(1)] fun_eq_iff split: option.split)
  have tot: "length (gq g k) + 1 < 4294967296" using gq_length(1) [OF i(3) h(1)] mcfgD(4) [OF i(1)] by simp
  have "mlists s1 ?g"
    using s1(4,7) h(3,6) ts(1) ho mlistsD(2) [OF i(3) h(1)]
    by (intro mlists_put [OF i(3) h(1,3,4) tot nxt _ _ s1(2)]) (simp_all add: msg_simps chain_simps)
  moreover have "mregs s1 ?g" using put_regs(1) [OF i(4,5) assms(2) mcfgD(3) [OF i(1)] s1(5,7) ts(1,2)] ho(1) by blast
  moreover have al: "allocd (msg_perm (msgque s1 ! j)) = allocd (msg_perm (msgque s ! j))" for j
    using h(1) by (cases "j = k") (simp_all add: s1(2) msg_simps)
  then have "mholds s1 ?g (held(k := None))" using put_holds [OF i(5) assms(2) s1(6,7)] s1(2) by simp
  moreover have "mtab (msginfo s1) (msgque s1)" using mtab_upd [OF i(2) h(1)] s1(2,7) by (simp add: msg_simps)
  moreover have "cbytes_ok s1 ?g"
    using ho(1) by (intro put_cbytes [OF assms(1) h(1,4,6) s1(2) _ ts(1)]) (simp_all add: msg_simps)
  ultimately have "minv s1 ?g (held(k := None))" using i(1) s1(7) by (simp add: minv_def minv0_def)
  then have inv: "minv (unlock k s1) ?g (held(k := None))" by (rule unlock_minv) simp
  have z: "0 < msi_msgssz (msginfo s)" using mcfgD(2) [OF i(1)] .
  have "mtext s1 mp = (if cnt = 0 then [] else the txt)"
  proof (cases "cnt = 0")
    case True
    then show ?thesis using ts(1) by (simp add: mtext_def text_at_def)
  next
    case False
    have "nat (msg_spot (msgh s1 mp)) = sp - 1" using put_regs(2) [OF i(4,5) assms(2) mcfgD(3) [OF i(1)] s1(5,7) ts(1,2)] ho(1) False by simp
    moreover have "length (the txt) = cnt" using assms(3) False by auto
    ultimately show ?thesis
      using False ts(1) s1(7,8) write_here [OF refl, of s "sp - 1" "the txt"] by (simp add: mtext_def text_at_def)
  qed
  moreover have "mtext s1 m = mtext s m" if "own g m = OQ j" for m j
  proof -
    have "m \<noteq> mp" using that h(4) by auto
    then show ?thesis using assms(3) ho(1) by (intro put_texts [OF i(4,5) assms(2) z that _ s1(8,7)]) auto
  qed
  ultimately have "sent s g s1 ?g k (typ, if cnt = 0 then [] else the txt)"
    using ts(3) ho(2) h(4) by (intro put_abs [OF i(3) h(1)]) auto
  then have "sent s g (unlock k s1) ?g k (typ, if cnt = 0 then [] else the txt)" using calmD(8) [OF unlock_calm] by (simp add: sent_def)
  moreover have "msg_cbytes (msgque s1 ! k) = msg_cbytes (msgque s ! k) + cnt" "msg_qbytes (msgque s1 ! k) = msg_qbytes (msgque s ! k)"
    using s1(2) h(1,6) cbytes_bound [OF assms(1) h(1)] by (simp_all add: msg_simps u32add_id)
  ultimately show ?thesis using s1(1,9) inv by (intro exI [of _ "unlock k s1"] exI [of _ ?g]) (simp add: msg_simps)
qed


section \<open>A text that cannot be read\<close>

lemma mlists_release:
  assumes "mlists s g" "own g mp = OHold k" "nx s' = (nx s)(mp := msgfp s)" "msgfp s' = Some mp" "msgque s' = msgque s" "msginfo s' = msginfo s"
    "\<And>m. msg_ts (msgh s' m) = msg_ts (msgh s m)"
  shows "mlists s' (gfree g k (gq g k) mp)"
  unfolding mlists_def assms(4-7) msg_simps fun_upd_triv
proof (intro conjI allI impI)
  note l = mlistsD [OF assms(1)]
  have other: "chain (nx s') a zs = chain (nx s) a zs" if "mp \<notin> set zs" for a zs using that by (simp add: assms(3) chain_simps)
  show "chain (nx s') (Some mp) (mp # gf g)"
    using other [of "gf g" "msgfp s"] l(5) l(6) [of mp] assms(2) by (simp add: chain_simps assms(3))
  show "((own g)(mp := OFree)) m = OFree \<longleftrightarrow> m \<in> set (mp # gf g)" for m using l(6) [of m] by auto
  show "((own g)(mp := OFree)) m \<noteq> ONone \<longleftrightarrow> m < msi_msgtql (msginfo s)" for m using l(8) [of m] assms(2) by (cases "m = mp") simp_all
  fix j assume j: "j < length (msgque s)"
  have "mp \<notin> set (gq g j)" using l(7) [OF j, of mp] assms(2) by simp
  then show "chain (nx s') (msg_first (msgque s ! j)) (gq g j)" using other l(1) [OF j] by simp
  show "msg_last (msgque s ! j) = last_of (gq g j)" "msg_qnum (msgque s ! j) = length (gq g j)"
    "\<not> allocd (msg_perm (msgque s ! j)) \<Longrightarrow> gq g j = []" using l(2-4) [OF j] by simp_all
  show "((own g)(mp := OFree)) m = OQ j \<longleftrightarrow> m \<in> set (gq g j)" for m using l(7) [OF j, of m] assms(2) by (cases "m = mp") auto
next
  fix m j assume "((own g)(mp := OFree)) m = OQ j"
  then have "own g m = OQ j" by (auto split: if_splits)
  from mlistsD(9) [OF assms(1) this] show "j < length (msgque s)" "msg_ts (msgh s m) \<le> 65535" by simp_all
qed

lemma msgsnd_fault_spec:
  assumes "minv s g held" "held k = Some (mp, sp, cnt)" "cnt \<noteq> 0"
  shows "\<exists>s' g'. msgsnd_put s u k mp sp cnt typ None = Some (MErr EFAULT, s') \<and> minv s' g' (held(k := None)) \<and> gq g' = gq g \<and> gf g' = mp # gf g
    \<and> gr g' = (gr g)(mp := None) \<and> absq s' g' = absq s g \<and> msgque s' = msgque s"
proof -
  note i = minv0D [OF minvD(1) [OF assms(1)]]
  note h = mholdsD(2-7) [OF i(5) assms(2)]
  have gm: "gr g mp = Some (sp, btoq (msginfo s) cnt)" using h(5) assms(3) by simp
  from map_free_holds [OF i(4) gm] obtain s1 where s1: "map_free s (btoq (msginfo s) cnt) sp = Some s1" "mapstep s s1"
    "rm.holds (msgmap s1) (ran ((gr g)(mp := None)))" "free_units (msgmap s1) \<subseteq> {1..msi_msgseg (msginfo s)}" by blast
  have "0 < sp" using rm.holdsD(2) [OF mregsD(1) [OF i(4)] ranI [of "gr g", OF gm]] by simp
  then have e: "sp - 1 + 1 = sp" by simp
  define s2 where "s2 = hdr_free mp s1"
  have r: "msgsnd_put s u k mp sp cnt typ None = Some (MErr EFAULT, unlock k s2)"
    unfolding msgsnd_put_def e using assms(3) s1(1) by (simp add: s2_def)
  have f: "msgque s2 = msgque s" "msgfp s2 = Some mp" "msglock s2 = msglock s" "mbuf s2 = mbuf s" "msginfo s2 = msginfo s"
    "msgmap s2 = msgmap s1" "msgh s2 = (msgh s)(mp := (msgh s mp)\<lparr>msg_next := msgfp s\<rparr>)"
    using s1(2) by (simp_all add: s2_def mapstep_def msg_simps)
  have sh: "same_hdrs s s2" by (simp add: same_hdrs_def f(7))
  let ?g = "gfree g k (gq g k) mp"
  have ts: "msg_ts (msgh s2 m) = msg_ts (msgh s m)" for m by (simp add: f(7))
  have "mlists s2 ?g" by (rule mlists_release [OF i(3) h(4) _ f(2,1,5) ts]) (simp add: f(7) fun_eq_iff)
  moreover have "mregs s2 ?g" using mregs_free [OF i(4), of s2] s1(3,4) f(5,6) sh by simp
  moreover have "mholds s2 ?g (held(k := None))"
    using h(4) f by (intro mholds_free [OF i(5)]) auto
  moreover have "mtab (msginfo s2) (msgque s2)" using i(2) f by simp
  moreover have "cbytes_ok s2 ?g" using minvD(2) [OF assms(1)] f(1) ts by (simp add: cbytes_ok_def msg_simps)
  ultimately have "minv s2 ?g (held(k := None))" using i(1) f(5) by (simp add: minv_def minv0_def)
  then have "minv (unlock k s2) ?g (held(k := None))" by (rule unlock_minv) simp
  moreover have "absq (unlock k s2) ?g = absq s g"
    using sh f(4,5) by (simp add: absq_def mtext_def text_at_def same_hdrs_def fun_eq_iff msg_simps)
  ultimately show ?thesis using r f(1) by (intro exI [of _ "unlock k s2"] exI [of _ ?g]) (simp add: msg_simps)
qed

section \<open>Choosing the message to receive\<close>

text \<open>
  The message that \<^verbatim>\<open>msgrcv\<close> takes, as the manual describes it: type 0 the first message, a positive
  type the first message of that type, a negative type the first of the messages of the lowest type
  that is not above its absolute value.
\<close>

definition eligible :: "int \<Rightarrow> int \<Rightarrow> bool" where
  "eligible typ t \<longleftrightarrow> (if typ = 0 then True else if 0 < typ then t = typ else t \<le> - typ)"

definition rank :: "int \<Rightarrow> int \<Rightarrow> int" where
  "rank typ t = (if typ < 0 then t else 0)"

text \<open>\<open>n\<close> is the place of the message to take in a queue with the types \<open>ts\<close>.\<close>

definition selects :: "int \<Rightarrow> int list \<Rightarrow> nat \<Rightarrow> bool" where
  "selects typ ts n \<longleftrightarrow> n < length ts \<and> eligible typ (ts ! n)
     \<and> (\<forall>j<length ts. eligible typ (ts ! j) \<longrightarrow> rank typ (ts ! n) \<le> rank typ (ts ! j))
     \<and> (\<forall>j<n. eligible typ (ts ! j) \<longrightarrow> rank typ (ts ! n) < rank typ (ts ! j))"


lemma selects_snoc:
  assumes "selects typ ts n" "\<not> eligible typ t \<or> rank typ (ts ! n) \<le> rank typ t"
  shows "selects typ (ts @ [t]) n"
  using assms by (auto simp: selects_def nth_append less_Suc_eq)

lemma selects_last:
  assumes "eligible typ t" "\<And>j. j < length ts \<Longrightarrow> eligible typ (ts ! j) \<Longrightarrow> rank typ t < rank typ (ts ! j)"
  shows "selects typ (ts @ [t]) (length ts)"
  using assms by (auto simp: selects_def nth_append less_Suc_eq intro: less_imp_le)

lemma selects_first:
  assumes "0 \<le> typ" "eligible typ t" "\<And>j. j < length ts \<Longrightarrow> \<not> eligible typ (ts ! j)"
  shows "selects typ (ts @ t # us) (length ts)"
  using assms by (auto simp: selects_def nth_append rank_def)

lemma selects_unique:
  assumes "selects typ ts n" "selects typ ts m"
  shows "n = m"
proof (rule linorder_cases [of n m])
  assume "n < m"
  then show ?thesis using assms by (force simp: selects_def)
next
  assume "m < n"
  then show ?thesis using assms by (force simp: selects_def)
qed

text \<open>What the search has found in the part \<open>ps\<close> of the queue it has seen.\<close>

definition found :: "(nat \<Rightarrow> msg_t) \<Rightarrow> int \<Rightarrow> nat list \<Rightarrow> nat option \<Rightarrow> nat option \<Rightarrow> bool" where
  "found h typ ps smp spmp \<longleftrightarrow> (case smp of None \<Rightarrow> spmp = None \<and> (\<forall>m\<in>set ps. \<not> eligible typ (msg_type (h m)))
     | Some b \<Rightarrow> \<exists>n. n < length ps \<and> ps ! n = b \<and> spmp = last_of (take n ps) \<and> selects typ (map (\<lambda>m. msg_type (h m)) ps) n)"

lemma found_skip:
  assumes "found h typ ps smp spmp" "\<not> eligible typ (msg_type (h m)) \<or> (\<exists>b. smp = Some b \<and> rank typ (msg_type (h b)) \<le> rank typ (msg_type (h m)))"
  shows "found h typ (ps @ [m]) smp spmp"
proof (cases smp)
  case None
  then show ?thesis using assms by (auto simp: found_def)
next
  case (Some b)
  then obtain n where n: "n < length ps" "ps ! n = b" "spmp = last_of (take n ps)" "selects typ (map (\<lambda>m. msg_type (h m)) ps) n"
    using assms(1) by (auto simp: found_def)
  have "selects typ (map (\<lambda>m. msg_type (h m)) ps @ [msg_type (h m)]) n"
    by (rule selects_snoc [OF n(4)]) (use assms(2) Some n(1,2) in auto)
  then show ?thesis using n Some by (auto simp: found_def nth_append intro!: exI [of _ n])
qed

lemma found_take:
  assumes "found h typ ps smp spmp" "eligible typ (msg_type (h m))" "smp = None \<or> (\<exists>b. smp = Some b \<and> rank typ (msg_type (h m)) < rank typ (msg_type (h b)))"
  shows "found h typ (ps @ [m]) (Some m) (last_of ps)"
proof -
  let ?ts = "map (\<lambda>m. msg_type (h m)) ps"
  have "rank typ (msg_type (h m)) < rank typ (?ts ! j)" if "j < length ?ts" "eligible typ (?ts ! j)" for j
  proof (cases smp)
    case None
    then show ?thesis using assms(1) that by (auto simp: found_def)
  next
    case (Some b)
    then obtain n where "n < length ps" "ps ! n = b" "selects typ ?ts n" using assms(1) by (auto simp: found_def)
    then have "rank typ (msg_type (h b)) \<le> rank typ (?ts ! j)" using that unfolding selects_def by (metis length_map nth_map)
    then show ?thesis using assms(3) Some by auto
  qed
  from selects_last [OF assms(2) this] show ?thesis by (auto simp: found_def intro!: exI [of _ "length ps"])
qed

lemma msg_find_spec:
  assumes "chain (\<lambda>m. msg_next (h m)) mp qs" "found h typ ps smp spmp" "typ \<noteq> 0" "0 < typ \<longrightarrow> smp = None" "- 2147483648 < typ" "typ < 2147483648"
  shows "\<exists>a b. msg_find h typ (last_of ps) mp smp spmp = Some (a, b) \<and> found h typ (ps @ qs) a b"
  using assms
proof (induction qs arbitrary: ps mp smp spmp)
  case Nil
  then have "mp = None" by (simp add: chain_simps)
  then show ?case using Nil.prems(2) by (subst msg_find.simps) simp
next
  case (Cons m qs)
  from Cons.prems(1) have m: "mp = Some m" "chain (\<lambda>m. msg_next (h m)) (msg_next (h m)) qs" by (simp_all add: chain_simps)
  have neg: "s32 (- typ) = - typ" using Cons.prems(5,6) by (simp add: s32_id)
  note step = msg_find.simps [of h "typ" "last_of ps" mp smp spmp]
  have lm: "mp = last_of (ps @ [m])" using m(1) by (simp add: chain_simps)
  have go: ?case if "msg_find h typ (last_of ps) mp smp spmp = msg_find h typ mp (msg_next (h m)) a b" "found h typ (ps @ [m]) a b" "0 < typ \<longrightarrow> a = None" for a b
    using Cons.IH [OF m(2) that(2) Cons.prems(3) that(3) Cons.prems(5,6)] that(1) lm by simp
  show ?case
  proof (cases "0 < typ")
    case True
    show ?thesis
    proof (cases "msg_type (h m) = typ")
      case eq: True
      have "selects typ (map (\<lambda>m. msg_type (h m)) ps @ msg_type (h m) # map (\<lambda>m. msg_type (h m)) qs) (length ps)"
        using True eq Cons.prems(2,4) selects_first [of "typ" "msg_type (h m)" "map (\<lambda>m. msg_type (h m)) ps"]
        by (auto simp: found_def eligible_def)
      then have "found h typ (ps @ m # qs) mp (last_of ps)" by (auto simp: found_def m(1) intro!: exI [of _ "length ps"])
      then show ?thesis using True eq m(1) step by simp
    next
      case False
      then show ?thesis using True m(1) step Cons.prems(2,4) found_skip [of h "typ" ps smp spmp m] by (intro go [of smp spmp]) (auto simp: eligible_def)
    qed
  next
    case False
    then have neg_typ: "typ < 0" using Cons.prems(3) by simp
    consider (no) "\<not> msg_type (h m) \<le> - typ" | (worse) b where "msg_type (h m) \<le> - typ" "smp = Some b" "msg_type (h b) \<le> msg_type (h m)"
      | (better) "msg_type (h m) \<le> - typ" "smp = None \<or> (\<exists>b. smp = Some b \<and> msg_type (h m) < msg_type (h b))" by (cases smp) force+
    then show ?thesis
    proof cases
      case no
      then show ?thesis using neg_typ False neg m(1) step found_skip [OF Cons.prems(2), of m] by (intro go [of smp spmp]) (auto simp: eligible_def)
    next
      case worse
      then show ?thesis using neg_typ False neg m(1) step found_skip [OF Cons.prems(2), of m] by (intro go [of smp spmp]) (auto simp: rank_def)
    next
      case better
      then have "found h typ (ps @ [m]) mp (last_of ps)"
        using neg_typ m(1) found_take [OF Cons.prems(2), of m] by (auto simp: eligible_def rank_def)
      then show ?thesis using better neg_typ False neg m(1) step by (intro go [of mp "last_of ps"]) (auto split: option.split)
    qed
  qed
qed


section \<open>Receiving\<close>

text \<open>The choice that \<^verbatim>\<open>msgrcv\<close> makes on queue \<open>k\<close>.\<close>

definition msg_choice :: "msgst \<Rightarrow> nat \<Rightarrow> int \<Rightarrow> (nat option \<times> nat option) option" where
  "msg_choice s k typ = (if typ = 0 then Some (msg_first (msgque s ! k), None) else msg_find (msgh s) typ None (msg_first (msgque s ! k)) None None)"

lemma msg_choice_spec:
  assumes "minv0 s g held" "k < length (msgque s)" "- 2147483648 < typ" "typ < 2147483648"
  shows "\<exists>a b. msg_choice s k typ = Some (a, b) \<and> found (msgh s) typ (gq g k) a b"
proof -
  have ch: "chain (nx s) (msg_first (msgque s ! k)) (gq g k)" using mlistsD(1) [OF minv0D(3) [OF assms(1)] assms(2)] .
  show ?thesis
  proof (cases "typ = 0")
    case True
    have "found (msgh s) typ (gq g k) (msg_first (msgque s ! k)) None"
      using ch True by (cases "gq g k") (auto simp: chain_simps found_def selects_def eligible_def rank_def)
    then show ?thesis using True by (simp add: msg_choice_def)
  next
    case False
    have "found (msgh s) typ [] None None" by (simp add: found_def)
    from msg_find_spec [OF ch this False _ assms(3,4)] False show ?thesis by (simp add: msg_choice_def chain_simps)
  qed
qed

text \<open>The queue with its message number \<open>n\<close> taken out.\<close>

definition drop_nth :: "nat \<Rightarrow> 'a list \<Rightarrow> 'a list" where
  "drop_nth n xs = take n xs @ drop (Suc n) xs"

lemma drop_nth_map: "map f (drop_nth n xs) = drop_nth n (map f xs)"
  by (simp add: drop_nth_def take_map drop_map)

lemma sum_drop_nth: "n < length xs \<Longrightarrow> sum_list (map f (drop_nth n xs)) + f (xs ! n) = (sum_list (map f xs) :: nat)"
proof -
  assume "n < length xs"
  then have "xs = take n xs @ xs ! n # drop (Suc n) xs" by (rule id_take_nth_drop)
  then have "sum_list (map f xs) = sum_list (map f (take n xs @ xs ! n # drop (Suc n) xs))" by simp
  then show ?thesis by (simp add: drop_nth_def)
qed

lemma length_mtext: "length (mtext s m) = msg_ts (msgh s m)"
  by (simp add: mtext_def text_at_def)

lemma take_text: "n \<le> msg_ts (msgh s m) \<Longrightarrow> text_at s (nat (msg_spot (msgh s m))) n = take n (mtext s m)"
  by (simp add: mtext_def text_at_def take_map)

text \<open>Taking message number \<open>n\<close> off a queue: the accounting and \<^verbatim>\<open>msgfree\<close>.\<close>

lemma take_off:
  assumes "minv s g held" "k < length (msgque s)" "n < length (gq g k)" "gq g k ! n = m"
    "s1 = set_q s k (\<lambda>q. q\<lparr>msg_cbytes := u32sub (msg_cbytes q) (msg_ts (msgh s m)), msg_lrpid := p, msg_rtime := msg_now s\<rparr>)"
  shows "\<exists>s2. msgfree s1 k (last_of (take n (gq g k))) m = Some s2 \<and> minv s2 (gfree g k (drop_nth n (gq g k)) m) held
    \<and> absq s2 (gfree g k (drop_nth n (gq g k)) m) = (absq s g)(k := drop_nth n (absq s g k)) \<and> msglock s2 = msglock s
    \<and> msg_cbytes (msgque s2 ! k) + msg_ts (msgh s m) = msg_cbytes (msgque s ! k)
    \<and> (mode (msg_perm (msgque s ! k)) AND MSG_WWAIT \<noteq> 0 \<longrightarrow> WQueue k \<in> set (msg_waked s2))"
proof -
  let ?ms = "drop_nth n (gq g k)"
  have "minv0 s1 g held"
    by (rule minv0_same [OF minvD(1) [OF assms(1)]]) (simp_all add: assms(5) msg_simps qcore_upd qcore_def)
  moreover have "gq g k = take n (gq g k) @ m # drop (Suc n) (gq g k)" using id_take_nth_drop [OF assms(3)] assms(4) by simp
  ultimately obtain s2 where s2: "msgfree s1 k (last_of (take n (gq g k))) m = Some s2" "minv0 s2 (gfree g k ?ms m) held" "freed s1 s2 k m"
    using msgfree_spec [of s1 g held k "take n (gq g k)" m "drop (Suc n) (gq g k)"] assms(2,5) by (auto simp: drop_nth_def msg_simps)
  note f = freedD [OF s2(3)]
  have same: "msgh s1 = msgh s" "mtext s1 = mtext s" by (simp_all add: assms(5) msg_simps mtext_def text_at_def fun_eq_iff)
  have ab: "absq s2 (gfree g k ?ms m) = (absq s g)(k := drop_nth n (absq s g k))"
    using freed_absq [OF s2(3)] by (simp add: fun_eq_iff same absq_def drop_nth_map)
  have cb: "msg_cbytes (msgque s ! j) = sum_list (map (\<lambda>m. msg_ts (msgh s m)) (gq g j))" if "j < length (msgque s)" for j
    using minvD(2) [OF assms(1)] that by (simp add: cbytes_ok_def)
  have sm: "sum_list (map (\<lambda>m. msg_ts (msgh s m)) ?ms) + msg_ts (msgh s m) = msg_cbytes (msgque s ! k)"
    using sum_drop_nth [OF assms(3), of "\<lambda>m. msg_ts (msgh s m)"] assms(4) cb [OF assms(2)] by simp
  have "msg_cbytes (msgque s1 ! k) = msg_cbytes (msgque s ! k) - msg_ts (msgh s m)"
    using assms(2) sm cbytes_bound [OF assms(1,2)] by (simp add: assms(5) msg_simps u32sub_id)
  then have ck: "msg_cbytes (msgque s2 ! k) = sum_list (map (\<lambda>m. msg_ts (msgh s m)) ?ms)" using f(14) sm by simp
  have "cbytes_ok s2 (gfree g k ?ms m)"
    unfolding cbytes_ok_def
  proof (intro allI impI)
    fix j assume "j < length (msgque s2)"
    then have j: "j < length (msgque s)" using f(5) assms(5) by (simp add: msg_simps)
    show "msg_cbytes (msgque s2 ! j) = sum_list (map (\<lambda>m. msg_ts (msgh s2 m)) (gq (gfree g k ?ms m) j))"
    proof (cases "j = k")
      case True
      then show ?thesis using ck f(8) same(1) by (simp add: msg_simps)
    next
      case False
      then show ?thesis using cb [OF j] f(6) [OF False] f(8) same(1) by (simp add: msg_simps assms(5))
    qed
  qed
  then have "minv s2 (gfree g k ?ms m) held" using s2(2) by (simp add: minv_def)
  moreover have "mode (msg_perm (msgque s ! k)) AND MSG_WWAIT \<noteq> 0 \<longrightarrow> WQueue k \<in> set (msg_waked s2)"
    using f(12) assms(2) by (simp add: assms(5) msg_simps)
  moreover have "msglock s2 = msglock s" using f(1) by (simp add: assms(5) msg_simps)
  ultimately show ?thesis using s2(1) ab ck sm by simp
qed


definition nothing_for :: "int \<Rightarrow> (int \<times> nat list) list \<Rightarrow> bool" where
  "nothing_for typ q \<longleftrightarrow> (\<forall>x\<in>set q. \<not> eligible typ (fst x))"

definition rcv_result :: "msgst \<Rightarrow> mghost \<Rightarrow> mheld \<Rightarrow> int \<Rightarrow> nat \<Rightarrow> nat \<Rightarrow> int \<Rightarrow> u32 \<Rightarrow> bool \<Rightarrow> msgres \<Rightarrow> msgst \<Rightarrow> bool" where
  "rcv_result s g held i k msgsz typ flg out r s' \<longleftrightarrow> (case r of
     MVal v \<Rightarrow> (\<exists>n g'. selects typ (map fst (absq s g k)) n \<and> v = MText (fst (absq s g k ! n)) (take msgsz (snd (absq s g k ! n)))
        \<and> (length (snd (absq s g k ! n)) \<le> msgsz \<or> flg AND MSG_NOERROR \<noteq> 0)
        \<and> minv s' g' held \<and> absq s' g' = (absq s g)(k := drop_nth n (absq s g k))
        \<and> (mode (msg_perm (msgque s ! k)) AND MSG_WWAIT \<noteq> 0 \<longrightarrow> WQueue k \<in> set (msg_waked s')))
   | MSleep ch \<Rightarrow> still s g held s' \<and> (fst (msgconv s i) \<noteq> CGot k \<or> ch = WQnum k \<and> nothing_for typ (absq s g k) \<and> flg AND IPC_NOWAIT = 0
        \<and> mode (msg_perm (msgque s' ! k)) AND MSG_RWAIT \<noteq> 0)
   | MErr e \<Rightarrow> still s g held s' \<and> (e = EIDRM \<and> fst (msgconv s i) \<noteq> CGot k \<or> e = EFAULT \<and> \<not> out
        \<or> e = ENOMSG \<and> nothing_for typ (absq s g k) \<and> flg AND IPC_NOWAIT \<noteq> 0
        \<or> e = E2BIG \<and> flg AND MSG_NOERROR = 0 \<and> (\<exists>n. selects typ (map fst (absq s g k)) n \<and> msgsz < length (snd (absq s g k ! n))))
   | _ \<Rightarrow> False)"

lemma found_Some:
  assumes "found (msgh s) typ (gq g k) (Some m) b"
  shows "\<exists>n. n < length (gq g k) \<and> gq g k ! n = m \<and> b = last_of (take n (gq g k)) \<and> selects typ (map fst (absq s g k)) n
    \<and> absq s g k ! n = (msg_type (msgh s m), mtext s m)"
  using assms by (auto simp: found_def absq_def o_def)

lemma found_None: "found (msgh s) typ (gq g k) None b \<Longrightarrow> nothing_for typ (absq s g k)"
  by (auto simp: found_def absq_def nothing_for_def)

lemma rwait_set: "(w OR MSG_RWAIT) AND MSG_RWAIT \<noteq> (0 :: u32)"
proof
  assume "(w OR MSG_RWAIT) AND MSG_RWAIT = 0"
  moreover have "bit ((w OR MSG_RWAIT) AND MSG_RWAIT) 9" by (simp add: bit_simps)
  ultimately show False by simp
qed

lemma msgrcv_find_unfold:
  assumes "msgconv s i = (CGot k, s1)"
  shows "msgrcv_find s u i k msgsz typ flg out1 out2 = do {
     (smp, spmp) \<leftarrow> msg_choice s1 k typ;
     case smp of
       Some m \<Rightarrow>
         let h = msgh s1 m in
         if msgsz < msg_ts h \<and> flg AND MSG_NOERROR = 0 then Some (MErr E2BIG, unlock k s1)
         else if \<not> out1 then Some (MErr EFAULT, unlock k s1)
         else
           let sz = (if msgsz < msg_ts h then msgsz else msg_ts h) in
           if sz \<noteq> 0 \<and> \<not> out2 then Some (MErr EFAULT, unlock k s1)
           else do {
             let v = MText (msg_type h) (text_at s1 (nat (msg_spot h)) sz);
             let s2 = set_q s1 k (\<lambda>q. q\<lparr>msg_cbytes := u32sub (msg_cbytes q) (msg_ts h), msg_lrpid := u_pid u, msg_rtime := msg_now s1\<rparr>);
             s3 \<leftarrow> msgfree s2 k spmp m;
             Some (MVal v, unlock k s3) }
     | None \<Rightarrow>
         if flg AND IPC_NOWAIT \<noteq> 0 then Some (MErr ENOMSG, unlock k s1)
         else Some (MSleep (WQnum k), unlock k (set_q s1 k (set_qmode (\<lambda>m. m OR MSG_RWAIT)))) }"
  using assms by (simp add: msgrcv_find_def msg_choice_def Let_def cong: option.case_cong)

lemma msgrcv_find_spec:
  assumes "minv s g held" "- 2147483648 < typ" "typ < 2147483648"
  shows "\<exists>r s'. msgrcv_find s u i k msgsz typ flg out1 out2 = Some (r, s') \<and> rcv_result s g held i k msgsz typ flg (out1 \<and> out2) r s'"
proof -
  obtain c s1 where c: "msgconv s i = (c, s1)" by fastforce
  note v = msgconv_spec [OF assms(1) c] and st = still_conv [OF assms(1) c]
  note q = calmD [OF v(2)]
  show ?thesis
  proof (cases c)
    case CInval
    then show ?thesis using c st by (simp add: msgrcv_find_def rcv_result_def)
  next
    case (CBusy j)
    then show ?thesis using c st by (simp add: msgrcv_find_def rcv_result_def)
  next
    case (CGot k1)
    note d = v(4) [OF CGot]
    then have u: "still s g held x \<Longrightarrow> still s g held (unlock k1 x)" for x using still_unlock [of s g held x k1] by blast
    show ?thesis
    proof (cases "k1 = k")
      case False
      then show ?thesis using c CGot u [OF st] by (simp add: msgrcv_find_def rcv_result_def)
    next
      case True
      note eq = msgrcv_find_unfold [OF c [unfolded CGot True], of u msgsz "typ" flg out1 out2]
      have kl: "k < length (msgque s1)" using d True q(1) by simp
      have ab: "absq s1 g k = absq s g k" using q(8) .
      from msg_choice_spec [OF minvD(1) [OF v(1)] kl assms(2,3)] obtain a b where
        ch: "msg_choice s1 k typ = Some (a, b)" "found (msgh s1) typ (gq g k) a b" by blast
      show ?thesis
      proof (cases a)
        case None
        have no: "nothing_for typ (absq s g k)" using found_None ch(2) None ab by metis
        show ?thesis
        proof (cases "flg AND IPC_NOWAIT = 0")
          case w: True
          have "mode (msg_perm (msgque (set_q s1 k (set_qmode (\<lambda>m. m OR MSG_RWAIT))) ! k)) AND MSG_RWAIT \<noteq> 0"
            using kl rwait_set by (simp add: msg_simps)
          then show ?thesis using eq ch(1) None w no u [OF still_qmode(1) [OF st, of k]] True by (simp add: rcv_result_def msg_simps)
        next
          case False
          then show ?thesis using eq ch(1) None no u [OF st] True by (simp add: rcv_result_def)
        qed
      next
        case (Some m)
        from found_Some [OF ch(2) [unfolded Some]] obtain n where n: "n < length (gq g k)" "gq g k ! n = m" "b = last_of (take n (gq g k))"
          "selects typ (map fst (absq s g k)) n" "absq s g k ! n = (msg_type (msgh s1 m), mtext s1 m)" unfolding ab by blast
        let ?ts = "msg_ts (msgh s1 m)" and ?sz = "if msgsz < msg_ts (msgh s1 m) then msgsz else msg_ts (msgh s1 m)"
        consider (big) "msgsz < ?ts \<and> flg AND MSG_NOERROR = 0" | (fault) "\<not> (msgsz < ?ts \<and> flg AND MSG_NOERROR = 0)" "\<not> out1 \<or> (?sz \<noteq> 0 \<and> \<not> out2)"
          | (take) "\<not> (msgsz < ?ts \<and> flg AND MSG_NOERROR = 0)" "out1" "\<not> (?sz \<noteq> 0 \<and> \<not> out2)" by blast
        then show ?thesis
        proof cases
          case big
          then show ?thesis using eq ch(1) Some u [OF st] True n(4,5) by (auto simp: rcv_result_def length_mtext)
        next
          case fault
          then have "msgrcv_find s u i k msgsz typ flg out1 out2 = Some (MErr EFAULT, unlock k s1)" using eq ch(1) Some by (auto simp: Let_def)
          then show ?thesis using u [OF st] True fault by (auto simp: rcv_result_def)
        next
          case take
          from take_off [OF v(1) kl n(1,2) refl, of "u_pid u"] obtain s2 where s2:
            "msgfree (set_q s1 k (\<lambda>q. q\<lparr>msg_cbytes := u32sub (msg_cbytes q) ?ts, msg_lrpid := u_pid u, msg_rtime := msg_now s1\<rparr>)) k (last_of (take n (gq g k))) m = Some s2"
            "minv s2 (gfree g k (drop_nth n (gq g k)) m) held"
            "absq s2 (gfree g k (drop_nth n (gq g k)) m) = (absq s1 g)(k := drop_nth n (absq s1 g k))"
            "mode (msg_perm (msgque s1 ! k)) AND MSG_WWAIT \<noteq> 0 \<longrightarrow> WQueue k \<in> set (msg_waked s2)" by (elim exE conjE) simp
          have sz: "?sz \<le> ?ts" by simp
          have tx: "text_at s1 (nat (msg_spot (msgh s1 m))) ?sz = take msgsz (mtext s1 m)"
            unfolding take_text [OF sz] by (simp add: length_mtext)
          have r: "msgrcv_find s u i k msgsz typ flg out1 out2 = Some (MVal (MText (msg_type (msgh s1 m)) (take msgsz (mtext s1 m))), unlock k s2)"
            using eq ch(1) Some take s2(1) n(3) unfolding tx [symmetric] by (simp add: Let_def)
          have "minv (unlock k s2) (gfree g k (drop_nth n (gq g k)) m) held" using unlock_minv [OF s2(2)] d True by simp
          moreover have "absq (unlock k s2) (gfree g k (drop_nth n (gq g k)) m) = (absq s g)(k := drop_nth n (absq s g k))"
            using s2(3) calmD(8) [OF unlock_calm] q(8) by (simp add: fun_eq_iff)
          ultimately have "rcv_result s g held i k msgsz typ flg (out1 \<and> out2) (MVal (MText (msg_type (msgh s1 m)) (take msgsz (mtext s1 m)))) (unlock k s2)"
            using n(4,5) take(1) s2(4) q(1) unfolding rcv_result_def
            by (simp only: msgres.case) (intro exI [of _ n] exI [of _ "gfree g k (drop_nth n (gq g k)) m"], auto simp: length_mtext msg_simps)
          then show ?thesis using r by blast
        qed
      qed
    qed
  qed
qed


section \<open>msgget\<close>

lemma put_mperms_upd:
  assumes "length ps = length ds" "\<forall>j. j \<noteq> k \<longrightarrow> ps ! j = map msg_perm ds ! j" "k < length ds"
  shows "put_mperms ds ps = ds[k := (ds ! k)\<lparr>msg_perm := ps ! k\<rparr>]"
proof (rule nth_equalityI)
  fix j assume "j < length (put_mperms ds ps)"
  then have "j < length ds" using assms(1) by (simp add: put_mperms_def)
  then show "put_mperms ds ps ! j = ds[k := (ds ! k)\<lparr>msg_perm := ps ! k\<rparr>] ! j" using assms by (auto simp: put_mperms_def nth_list_update)
qed (simp add: put_mperms_def assms(1))

lemma put_mperms_same: "put_mperms ds (map msg_perm ds) = ds"
  by (rule nth_equalityI) (simp_all add: put_mperms_def)

lemma unalloc_empty:
  assumes "minv0 s g held" "k < length (msgque s)" "\<not> allocd (msg_perm (msgque s ! k))"
  shows "gq g k = []" "held k = None" "msg_first (msgque s ! k) = None" "msg_last (msgque s ! k) = None" "msg_qnum (msgque s ! k) = 0"
proof -
  note i = minv0D [OF assms(1)]
  show e: "gq g k = []" by (rule mlistsD(4) [OF i(3) assms(2,3)])
  show "held k = None"
  proof (rule ccontr)
    assume "held k \<noteq> None"
    then obtain a b c where "held k = Some (a, b, c)" by (metis not_None_eq prod_cases3)
    from mholdsD(4) [OF i(5) this] assms(3) show False by simp
  qed
  show "msg_first (msgque s ! k) = None" "msg_last (msgque s ! k) = None" "msg_qnum (msgque s ! k) = 0"
    using mlistsD(1-3) [OF i(3) assms(2)] e by (simp_all add: chain_simps)
qed

definition conv_to :: "msgst \<Rightarrow> int \<Rightarrow> nat \<Rightarrow> bool" where
  "conv_to s i k \<longleftrightarrow> k < length (msgque s) \<and> allocd (msg_perm (msgque s ! k)) \<and> i = int (seq (msg_perm (msgque s ! k)) * msi_msgmni (msginfo s) + k)"

lemma conv_to_conv:
  assumes "conv_to s i k" "length (msgque s) = msi_msgmni (msginfo s)"
  shows "fst (msgconv s i) = (if msglock s ! k then CBusy k else CGot k)"
proof -
  have n: "nat i = seq (msg_perm (msgque s ! k)) * msi_msgmni (msginfo s) + k" "\<not> i < 0" using assms(1) by (auto simp: conv_to_def simp flip: of_nat_mult of_nat_add)
  then have "nat i mod msi_msgmni (msginfo s) = k" "nat i div msi_msgmni (msginfo s) = seq (msg_perm (msgque s ! k))"
    using assms by (auto simp: conv_to_def)
  then show ?thesis using n(2) assms(1) by (simp add: msgconv_def Let_def conv_to_def allocd_def)
qed

lemma msgget_spec:
  assumes "minv s g held"
  shows "\<exists>r s'. msgget s u ky flg = (r, s') \<and> still s g held s' \<and> msglock s' = msglock s \<and> msginfo s' = msginfo s
    \<and> (case r of MErr _ \<Rightarrow> s' = s
       | MVal (MId i) \<Rightarrow> \<exists>k. conv_to s' i k \<and> i \<le> 32767 \<and> key (msg_perm (msgque s' ! k)) = ky
           \<and> (\<not> allocd (msg_perm (msgque s ! k)) \<longrightarrow> absq s' g k = [] \<and> uid (msg_perm (msgque s' ! k)) = cr_uid (u_cred u)
                \<and> msg_qbytes (msgque s' ! k) = msi_msgmnb (msginfo s) mod 65536)
           \<and> (allocd (msg_perm (msgque s ! k)) \<longrightarrow> s' = s)
       | _ \<Rightarrow> False)"
proof -
  note i0 = minv0D [OF minvD(1) [OF assms]]
  have ku: "keys_unique (map msg_perm (msgque s))" using i0(2) by (simp add: mtab_def)
  note ig = ipcget_spec [OF ku, of ky flg "u_cred u"]
  show ?thesis
  proof (cases "ipcget ky flg (u_cred u) (map msg_perm (msgque s))")
    case (Inl e)
    then show ?thesis using still_refl [OF assms] by (simp add: msgget_def)
  next
    case (Inr x)
    obtain created k ps where x: "x = (created, k, ps)" by (cases x)
    have g: "k < length (msgque s)" "keys_unique ps" "length ps = length (msgque s)" "allocd (ps ! k)" "key (ps ! k) = ky"
      "\<forall>j. j \<noteq> k \<longrightarrow> ps ! j = map msg_perm (msgque s) ! j" "seq (ps ! k) = seq (msg_perm (msgque s ! k))"
      "created \<Longrightarrow> \<not> allocd (msg_perm (msgque s ! k)) \<and> uid (ps ! k) = cr_uid (u_cred u)" "\<not> created \<Longrightarrow> ps = map msg_perm (msgque s)"
      using ig by (auto simp: Inr x)
    have bnd: "seq (msg_perm (msgque s ! k)) * msi_msgmni (msginfo s) + k \<le> 32767" using i0(2) g(1) by (simp add: mtab_def)
    let ?i = "int (seq (msg_perm (msgque s ! k)) * msi_msgmni (msginfo s) + k)"
    have bi: "?i \<le> 32767" using bnd by linarith
    show ?thesis
    proof (cases created)
      case False
      have al: "allocd (msg_perm (msgque s ! k))" "key (msg_perm (msgque s ! k)) = ky" using g(1,4,5) g(9) [OF False] by simp_all
      then have "conv_to s ?i k" using g(1) by (simp add: conv_to_def)
      moreover have "msgget s u ky flg = (MVal (MId ?i), s)" unfolding msgget_def Inr x using False g(9) [OF False] by (simp add: put_mperms_same Let_def)
      ultimately show ?thesis using still_refl [OF assms] al bi by auto
    next
      case True
      note na = g(8) [OF True]
      note ue = unalloc_empty [OF minvD(1) [OF assms] g(1) conjunct1 [OF na]]
      define q where "q = (msgque s ! k)\<lparr>msg_perm := ps ! k, msg_first := None, msg_last := None, msg_qnum := 0,
                    msg_qbytes := msi_msgmnb (msginfo s) mod 65536, msg_lspid := 0, msg_lrpid := 0,
                    msg_stime := 0, msg_rtime := 0, msg_ctime := msg_now s\<rparr>"
      define s' where "s' = s\<lparr>msgque := (msgque s)[k := q]\<rparr>"
      have run: "msgget s u ky flg = (MVal (MId ?i), s')"
        unfolding msgget_def Inr x using True g(1,7) put_mperms_upd [OF g(3,6,1)] by (simp add: set_q_def s'_def q_def Let_def)
      have "map msg_perm ((msgque s)[k := q]) = ps"
        using g(1,3,6) by (intro nth_equalityI) (auto simp: q_def nth_list_update)
      then have "mtab (msginfo s) ((msgque s)[k := q])" using i0(2) g(1,2,7) by (simp add: mtab_def nth_upd q_def)
      then have "minv0 s' g held"
        using ue by (intro minv0_entry [OF minvD(1) [OF assms] g(1) ue(1,2), of s' q]) (simp_all add: s'_def q_def)
      moreover have "cbytes_ok s' g" by (rule cbytes_ok_same [OF minvD(2) [OF assms]]) (simp_all add: s'_def nth_upd q_def)
      moreover have ab: "absq s' g = absq s g" using absq_same [of s' s g] by (simp add: s'_def fun_eq_iff)
      ultimately have "still s g held s'" by (simp add: still_def minv_def)
      moreover have "conv_to s' ?i k" using g(1,4,7) by (simp add: conv_to_def s'_def q_def)
      moreover have "absq s' g k = []" using ab ue(1) by (simp add: absq_def)
      ultimately show ?thesis using run bi na g(1,5) by (auto simp: s'_def q_def)
    qed
  qed
qed


section \<open>The other calls\<close>

lemma mode_set_allocd: "allocd (p\<lparr>uid := a, gid := b, mode := mode p AND NOT 0x1ff OR md AND 0x1ff\<rparr>) = allocd p"
  by (simp add: allocd_bit bit_simps)

lemma msgctl_set_spec:
  assumes "minv s g held" "msgctl_set s u k x arg = (r, s')"
  shows "still s g held s'"
proof -
  have st: "still s g held s" by (rule still_refl [OF assms(1)])
  show ?thesis
  proof (cases "s' = s")
    case False
    then obtain ui gi md qb where "s' = set_q s k (\<lambda>q. q\<lparr>msg_perm := (msg_perm q)\<lparr>uid := ui, gid := gi,
                  mode := mode (msg_perm q) AND NOT 0x1ff OR md AND 0x1ff\<rparr>, msg_qbytes := qb, msg_ctime := msg_now s\<rparr>)"
      using assms(2) by (auto simp: msgctl_set_def Let_def split: if_splits option.splits)
    then show ?thesis using still_set_q [OF st] mode_set_allocd by (simp add: qcore_def)
  qed (use st in simp)
qed

lemma msgctl_stat_spec:
  assumes "cred_ok (u_cred u)"
  shows "\<exists>r. msgctl_stat s u k old out = Some (r, s)"
  using ipcaccess_total [OF assms, of "msg_perm (msgque s ! k)" MSG_R] by (auto simp: msgctl_stat_def Let_def split: option.split)

text \<open>What \<^verbatim>\<open>msgctl\<close> with \<^verbatim>\<open>IPC_RMID\<close> does to queue \<open>k\<close>.\<close>

definition retired :: "msgst \<Rightarrow> mghost \<Rightarrow> mheld \<Rightarrow> int \<Rightarrow> nat \<Rightarrow> msgst \<Rightarrow> bool" where
  "retired s g held i k s' \<longleftrightarrow> (\<exists>g'. minv s' g' held \<and> absq s' g' = (absq s g)(k := []) \<and> gf g' = rev (gq g k) @ gf g)
     \<and> fst (msgconv s' i) = CInval \<and> (\<forall>j. j \<noteq> k \<longrightarrow> msgque s' ! j = msgque s ! j) \<and> msginfo s' = msginfo s
     \<and> (mode (msg_perm (msgque s ! k)) AND MSG_RWAIT \<noteq> 0 \<longrightarrow> WQnum k \<in> set (msg_waked s'))
     \<and> (mode (msg_perm (msgque s ! k)) AND MSG_WWAIT \<noteq> 0 \<longrightarrow> WQueue k \<in> set (msg_waked s'))"

lemma rmid_retires:
  assumes "minv s g held" "msgconv s i = (CGot k, s1)" "msg_owner (msg_perm (msgque s ! k)) (u_cred u)"
  shows "\<exists>s'. msgctl_rmid s1 u i k = Some (MVal MZero, s') \<and> retired s g held i k (unlock k s')"
proof -
  note v = msgconv_spec [OF assms(1,2)]
  note d = v(4) [OF refl] and q = calmD [OF v(2)]
  from msgctl_rmid_spec [OF v(1), of k u i] d assms(3) q obtain s' g' where s':
    "msgctl_rmid s1 u i k = Some (MVal MZero, s')" "minv s' g' held" "gq g' = (gq g)(k := [])" "gf g' = rev (gq g k) @ gf g"
    "\<And>j. j \<noteq> k \<Longrightarrow> msgque s' ! j = msgque s ! j \<and> absq s' g' j = absq s g j" "mode (msg_perm (msgque s' ! k)) = 0" "length (msgque s') = length (msgque s)"
    "msginfo s' = msginfo s" "msglock s' = msglock s1"
    "mode (msg_perm (msgque s ! k)) AND MSG_RWAIT \<noteq> 0 \<longrightarrow> WQnum k \<in> set (msg_waked s')"
    "mode (msg_perm (msgque s ! k)) AND MSG_WWAIT \<noteq> 0 \<longrightarrow> WQueue k \<in> set (msg_waked s')" by auto
  have "minv (unlock k s') g' held" using unlock_minv [OF s'(2)] d by simp
  moreover have "absq (unlock k s') g' = (absq s g)(k := [])"
    using s'(3,5) calmD(8) [OF unlock_calm] by (auto simp: fun_eq_iff absq_def)
  moreover have "nat i mod msi_msgmni (msginfo s) = k"
  proof -
    have "nat i = seq (msg_perm (msgque s ! k)) * msi_msgmni (msginfo s) + k" using d by (simp flip: of_nat_mult of_nat_add)
    moreover have "k < msi_msgmni (msginfo s)" using d minv0D(6) [OF minvD(1) [OF assms(1)]] by simp
    ultimately show ?thesis by simp
  qed
  then have "fst (msgconv (unlock k s') i) = CInval"
    using s'(6,8,9) d mholdsD(1) [OF minv0D(5) [OF minvD(1) [OF assms(1)]]] by (simp add: msgconv_def Let_def msg_simps)
  ultimately show ?thesis
    using s' by (intro exI [of _ s']) (auto simp: retired_def msg_simps)
qed

definition ctl_result :: "msgst \<Rightarrow> mghost \<Rightarrow> mheld \<Rightarrow> int \<Rightarrow> msgcmd \<Rightarrow> msgst \<Rightarrow> bool" where
  "ctl_result s g held i cmd s' \<longleftrightarrow> still s g held s' \<or> cmd = MC_RMID \<and> (\<exists>k. retired s g held i k s')"

lemma msgctl_spec:
  assumes "minv s g held" "cred_ok (u_cred u)"
  shows "\<exists>r s'. msgctl s u i cmd = Some (r, s') \<and> ctl_result s g held i cmd s'"
proof -
  obtain c s1 where c: "msgconv s i = (c, s1)" by fastforce
  note v = msgconv_spec [OF assms(1) c] and st = still_conv [OF assms(1) c]
  show ?thesis
  proof (cases c)
    case (CGot k)
    note d = v(4) [OF CGot] and q = calmD [OF v(2)]
    then have u: "still s g held x \<Longrightarrow> still s g held (unlock k x)" for x using still_unlock [of s g held x k] by blast
    have trans: "still s g held x" if "still s1 g held x" for x using that st by (simp add: still_def)
    show ?thesis
    proof (cases "cmd = MC_RMID \<and> msg_owner (msg_perm (msgque s ! k)) (u_cred u)")
      case True
      then show ?thesis using rmid_retires [OF assms(1) c [unfolded CGot], of u] c CGot by (auto simp: msgctl_def ctl_result_def)
    next
      case False
      have "\<exists>r x. (case cmd of
             MC_RMID \<Rightarrow> msgctl_rmid s1 u i k
           | MC_O_SET arg \<Rightarrow> Some (msgctl_set s1 u k False arg)
           | MC_SET arg \<Rightarrow> Some (msgctl_set s1 u k True arg)
           | MC_O_STAT out \<Rightarrow> msgctl_stat s1 u k True out
           | MC_STAT out \<Rightarrow> msgctl_stat s1 u k False out
           | MC_OTHER \<Rightarrow> Some (MErr EINVAL, s1)) = Some (r, x) \<and> still s g held x"
      proof (cases cmd)
        case MC_RMID
        then show ?thesis using False st q(1) by (simp add: msgctl_rmid_def)
      next
        case (MC_O_SET arg)
        obtain r x where "msgctl_set s1 u k False arg = (r, x)" by fastforce
        then show ?thesis using MC_O_SET msgctl_set_spec [OF v(1)] trans by simp
      next
        case (MC_SET arg)
        obtain r x where "msgctl_set s1 u k True arg = (r, x)" by fastforce
        then show ?thesis using MC_SET msgctl_set_spec [OF v(1)] trans by simp
      next
        case (MC_O_STAT out)
        then show ?thesis using msgctl_stat_spec [OF assms(2), of s1 k True out] st by auto
      next
        case (MC_STAT out)
        then show ?thesis using msgctl_stat_spec [OF assms(2), of s1 k False out] st by auto
      qed (use st in simp)
      then show ?thesis using c CGot u by (auto simp: msgctl_def ctl_result_def)
    qed
  qed (use c st in \<open>simp_all add: msgctl_def ctl_result_def\<close>)
qed

lemma msgrcv_check_spec:
  assumes "minv s g held" "cred_ok (u_cred u)"
  shows "\<exists>r s'. msgrcv_check s u i n = Some (r, s') \<and> still s g held s'"
proof -
  obtain c s1 where c: "msgconv s i = (c, s1)" by fastforce
  note v = msgconv_spec [OF assms(1) c] and st = still_conv [OF assms(1) c]
  show ?thesis
  proof (cases c)
    case (CGot k)
    then have "still s g held (unlock k s1)" using still_unlock [OF st] v(4) by blast
    then show ?thesis using c CGot ipcaccess_total [OF assms(2), of "msg_perm (msgque s1 ! k)" MSG_R] by (auto simp: msgrcv_check_def)
  qed (use c st in \<open>simp_all add: msgrcv_check_def\<close>)
qed

lemma msgsnd_check_spec:
  assumes "minv s g held" "cred_ok (u_cred u)"
  shows "\<exists>r s'. msgsnd_check s u i n typ = Some (r, s') \<and> still s g held s' \<and> (\<forall>k. r = MNext k \<longrightarrow> 0 \<le> n \<and> n \<le> msi_msgmax (msginfo s))"
proof -
  obtain c s1 where c: "msgconv s i = (c, s1)" by fastforce
  note v = msgconv_spec [OF assms(1) c] and st = still_conv [OF assms(1) c]
  show ?thesis
  proof (cases c)
    case (CGot k)
    then have "still s g held (unlock k s1)" using still_unlock [OF st] v(4) by blast
    moreover from ipcaccess_total [OF assms(2)] obtain e where e: "ipcaccess (msg_perm (msgque s1 ! k)) MSG_W (u_cred u) = Some e" by blast
    define r where "r = (case e of Some x \<Rightarrow> MErr x
           | None \<Rightarrow> if n < 0 \<or> n > msi_msgmax (msginfo s) then MErr EINVAL
               else (case typ of None \<Rightarrow> MErr EFAULT | Some t \<Rightarrow> if t < 1 then MErr EINVAL else MNext k))"
    have "msgsnd_check s u i n typ = Some (r, unlock k s1)" using c CGot e calmD(6) [OF v(2)] by (simp add: msgsnd_check_def r_def)
    moreover have "r = MNext j \<longrightarrow> 0 \<le> n \<and> n \<le> msi_msgmax (msginfo s)" for j by (auto simp: r_def split: option.splits if_splits)
    ultimately show ?thesis by blast
  qed (use c st in \<open>simp_all add: msgsnd_check_def\<close>)
qed

lemma msgsnd_intr_spec:
  assumes "minv s g held" "msgsnd_intr s i k ch = (r, s')"
  shows "still s g held s'"
proof -
  obtain c s1 where c: "msgconv s i = (c, s1)" by fastforce
  note v = msgconv_spec [OF assms(1) c] and st = still_conv [OF assms(1) c]
  show ?thesis
  proof (cases c)
    case (CGot k1)
    note d = v(4) [OF CGot]
    then have u: "still s g held x \<Longrightarrow> still s g held (unlock k1 x)" for x using still_unlock [of s g held x k1] by blast
    have "still s g held (mwake (WQueue k) (set_q s1 k (set_qmode (\<lambda>m. m AND NOT MSG_WWAIT))))"
      by (rule still_mwake [OF still_qmode(4) [OF st]])
    from u [OF this] u [OF st] show ?thesis using assms(2) c CGot by (auto simp: msgsnd_intr_def split: if_splits)
  qed (use c st assms(2) in \<open>simp_all add: msgsnd_intr_def\<close>)
qed

end
