(* ===== verification/KMsgRun.thy ===== *)
theory KMsgRun
  imports KMsgSys
begin

text \<open>
  The message system as a whole: initialization, the steps that processes take between two points at
  which they let go of the processor, and the properties of the calls.
\<close>

section \<open>Initialization\<close>

lemma chain_upt:
  assumes "\<And>j. j < n \<Longrightarrow> f j = (if Suc j < n then Some (Suc j) else None)" "i < n"
  shows "chain f (Some i) [i..<n]"
  using assms(2)
proof (induction "n - i" arbitrary: i)
  case 0
  then show ?case by simp
next
  case (Suc d)
  show ?case
  proof (cases "Suc i < n")
    case True
    then have "chain f (Some (Suc i)) [Suc i..<n]" using Suc.hyps(1) [of "Suc i"] Suc.hyps(2) by simp
    moreover have "[i..<n] = i # [Suc i..<n]" using Suc.prems by (simp add: upt_conv_Cons)
    ultimately show ?thesis using assms(1) [of i] Suc.prems True by (simp add: chain_simps)
  next
    case False
    then have "[i..<n] = [i]" using Suc.prems by (simp add: upt_conv_Cons)
    then show ?thesis using assms(1) [of i] Suc.prems False by (simp add: chain_simps)
  qed
qed

text \<open>The tables at boot: all zero, with the configured sizes.\<close>

definition msg_boot :: "msgst \<Rightarrow> bool" where
  "msg_boot s \<longleftrightarrow> mcfg (msginfo s) \<and> 2 \<le> msi_msgmap (msginfo s) \<and> msi_msgmap (msginfo s) < 4294967296 \<and> 0 < msi_msgtql (msginfo s)
     \<and> length (msgque s) = msi_msgmni (msginfo s)
     \<and> (\<forall>q\<in>set (msgque s). mode (msg_perm q) = 0 \<and> seq (msg_perm q) = 0 \<and> msg_first q = None \<and> msg_last q = None \<and> msg_qnum q = 0 \<and> msg_cbytes q = 0)
     \<and> (\<forall>m<msi_msgtql (msginfo s). msg_next (msgh s m) = None) \<and> msglock s = replicate (msi_msgmni (msginfo s)) False"

definition ghost0 :: "nat \<Rightarrow> mghost" where
  "ghost0 n = \<lparr>gq = (\<lambda>_. []), gf = [0..<n], own = (\<lambda>m. if m < n then OFree else ONone), gr = (\<lambda>_. None)\<rparr>"

lemma map_start:
  assumes "2 \<le> y" "y < 4294967296" "n < 32768"
  shows "\<exists>w m. rmfree (mapinit y) n 1 = Some (w, m) \<and> rm.holds m {} \<and> free_units m \<subseteq> {1..n}"
proof (cases "n = 0")
  case True
  then show ?thesis using mapinit_inv [OF assms(1,2)] by (auto simp: rmfree_def rm.holds_def)
next
  case False
  from rm.release_ok [OF mapinit_inv(1) [OF assms(1,2)], of n 1] False assms mapinit_inv(2) [OF assms(1,2)] show ?thesis
    by (fastforce simp: rm.holds_def)
qed

lemma msginit_spec:
  assumes "msg_boot s"
  shows "\<exists>s'. msginit s kseg = Some s' \<and> minv s' (ghost0 (msi_msgtql (msginfo s'))) (\<lambda>_. None)"
proof -
  note b = assms [unfolded msg_boot_def]
  define s1 where "s1 = (if kseg then s else s\<lparr>msginfo := (msginfo s)\<lparr>msi_msgseg := 0\<rparr>\<rparr>)"
  let ?mi = "msginfo s1" and ?n = "msi_msgtql (msginfo s1)"
  have cfg: "mcfg ?mi" using b by (simp add: s1_def mcfg_def)
  have same: "msi_msgmap ?mi = msi_msgmap (msginfo s)" "?n = msi_msgtql (msginfo s)" "msi_msgmni ?mi = msi_msgmni (msginfo s)" "msgque s1 = msgque s"
    "msgh s1 = msgh s" "msglock s1 = msglock s" by (simp_all add: s1_def)
  obtain w m where m: "rmfree (mapinit (msi_msgmap ?mi)) (msi_msgseg ?mi) 1 = Some (w, m)" "rm.holds m {}" "free_units m \<subseteq> {1..msi_msgseg ?mi}"
    using map_start [of "msi_msgmap ?mi" "msi_msgseg ?mi"] b same(1) mcfgD(3) [OF cfg] by auto
  define s' where "s' = s1\<lparr>msgmap := m, msgfp := Some 0,
             msgh := (\<lambda>j. if Suc j < ?n then (msgh s1 j)\<lparr>msg_next := Some (Suc j)\<rparr> else msgh s1 j)\<rparr>"
  have run: "msginit s kseg = Some s'" using m(1) unfolding msginit_def Let_def s1_def [symmetric] by (simp add: s'_def)
  have q: "\<And>k. k < length (msgque s) \<Longrightarrow> mode (msg_perm (msgque s ! k)) = 0 \<and> seq (msg_perm (msgque s ! k)) = 0 \<and> msg_first (msgque s ! k) = None
      \<and> msg_last (msgque s ! k) = None \<and> msg_qnum (msgque s ! k) = 0 \<and> msg_cbytes (msgque s ! k) = 0" using b nth_mem by blast
  have "chain (nx s') (Some 0) [0..<?n]" by (rule chain_upt) (use b same in \<open>simp_all add: s'_def\<close>)
  then have "mlists s' (ghost0 ?n)" using q same by (auto simp: mlists_def ghost0_def s'_def chain_simps)
  moreover have "mregs s' (ghost0 ?n)" using m(2,3) by (simp add: mregs_def ghost0_def s'_def)
  moreover have "mtab (msginfo s') (msgque s')"
    using b q same mcfgD(5) [OF cfg] by (fastforce simp: mtab_def s'_def keys_unique_def allocd_def)
  moreover have "mholds s' (ghost0 ?n) (\<lambda>_. None)" using b same by (simp add: mholds_def s'_def ghost0_def)
  moreover have "cbytes_ok s' (ghost0 ?n)" using q same by (simp add: cbytes_ok_def ghost0_def s'_def)
  ultimately have "minv s' (ghost0 ?n) (\<lambda>_. None)" using cfg by (simp add: minv_def minv0_def s'_def)
  moreover have "?n = msi_msgtql (msginfo s')" by (simp add: s'_def)
  ultimately show ?thesis using run by auto
qed

section \<open>Steps\<close>

text \<open>
  A step is a system call up to its result or its first sleep, or a later section of \<^verbatim>\<open>msgsnd\<close> or \<^verbatim>\<open>msgrcv\<close>;
  \<open>held\<close> says which calls have taken a header and are about to copy their text in. The text that
  \<^verbatim>\<open>copyin\<close> delivers has the length asked for, and a \<^verbatim>\<open>long\<close> other than the least one is negated
  without overflow.
\<close>

inductive msg_step :: "msgst \<Rightarrow> mheld \<Rightarrow> msgst \<Rightarrow> mheld \<Rightarrow> bool" where
  call: "cred_ok (u_cred u) \<Longrightarrow> msgsys s u c = Some (r, s') \<Longrightarrow> msg_step s held s' held"
| getres: "cnt \<le> nat (msi_msgmax (msginfo s)) \<Longrightarrow> msgsnd_getres s i k cnt flg = Some (MHold mp sp, s') \<Longrightarrow> msg_step s held s' (held(k \<mapsto> (mp, sp, cnt)))"
| nores: "cnt \<le> nat (msi_msgmax (msginfo s)) \<Longrightarrow> msgsnd_getres s i k cnt flg = Some (r, s') \<Longrightarrow> (\<forall>mp sp. r \<noteq> MHold mp sp) \<Longrightarrow> msg_step s held s' held"
| put: "held k = Some (mp, sp, cnt) \<Longrightarrow> (\<forall>x. txt = Some x \<longrightarrow> length x = cnt) \<Longrightarrow> msgsnd_put s u k mp sp cnt typ txt = Some (r, s') \<Longrightarrow>
    msg_step s held s' (held(k := None))"
| intr: "msgsnd_intr s i k ch = (r, s') \<Longrightarrow> msg_step s held s' held"
| rcv: "- 2147483648 < typ \<Longrightarrow> typ < 2147483648 \<Longrightarrow> msgrcv_find s u i k n typ flg out1 out2 = Some (r, s') \<Longrightarrow> msg_step s held s' held"
| clock: "msg_step s held (s\<lparr>msg_now := t\<rparr>) held"

lemma calm_sysinfo: "minv s g held \<Longrightarrow> minv (s\<lparr>msg_sysinfo := n\<rparr>) g held"
  by (rule calm_minv) (simp_all add: calm_def)

lemma msgsys_spec:
  assumes "minv s g held" "cred_ok (u_cred u)"
  shows "\<exists>r s' g'. msgsys s u c = Some (r, s') \<and> minv s' g' held"
proof (cases c)
  case (MsgGet ky flg)
  then show ?thesis using msgget_spec [OF assms(1), of u ky flg] by (auto simp: msgsys_def still_def)
next
  case (MsgCtl i cmd)
  from msgctl_spec [OF assms, of i cmd] obtain r s' where "msgctl s u i cmd = Some (r, s')" "ctl_result s g held i cmd s'" by blast
  moreover from this have "\<exists>g'. minv s' g' held" unfolding ctl_result_def still_def retired_def by blast
  ultimately show ?thesis using MsgCtl by (auto simp: msgsys_def)
next
  case (MsgRcv i n)
  then show ?thesis using msgrcv_check_spec [OF calm_sysinfo [OF assms(1)] assms(2), of "msg_sysinfo s + 1" i n] by (auto simp: msgsys_def still_def)
next
  case (MsgSnd i n t)
  then show ?thesis using msgsnd_check_spec [OF calm_sysinfo [OF assms(1)] assms(2), of "msg_sysinfo s + 1" i n t] by (auto simp: msgsys_def still_def)
next
  case MsgBad
  then show ?thesis using assms(1) by (auto simp: msgsys_def)
qed

lemma msgmax_fits: "minv s g held \<Longrightarrow> cnt \<le> nat (msi_msgmax (msginfo s)) \<Longrightarrow> cnt \<le> 65535"
  using mcfgD(6) [OF minv0D(1) [OF minvD(1)]] by fastforce

lemma msg_step_inv: "msg_step s held s' held' \<Longrightarrow> minv s g held \<Longrightarrow> \<exists>g'. minv s' g' held'"
proof (induction rule: msg_step.induct)
  case (call u s c r s' held)
  then show ?case using msgsys_spec [of s g held u c] by auto
next
  case (getres cnt s i k flg mp sp s' held)
  from msgsnd_getres_spec [OF getres.prems msgmax_fits [OF getres.prems getres.hyps(1)], of i k flg] getres.hyps(2)
  have "got_res s g held k cnt mp sp s'" by auto
  then show ?case unfolding got_res_def by blast
next
  case (nores cnt s i k flg r s' held)
  then show ?case using msgsnd_getres_spec [OF nores.prems msgmax_fits [OF nores.prems nores.hyps(1)], of i k flg]
    by (cases r) (auto simp: still_def)
next
  case (put held k mp sp cnt "txt" s u "typ" r s')
  show ?case
  proof (cases "cnt \<noteq> 0 \<and> txt = None")
    case True
    then obtain s2 g' where "msgsnd_put s u k mp sp cnt typ None = Some (MErr EFAULT, s2)" "minv s2 g' (held(k := None))"
      using msgsnd_fault_spec [OF put.prems put.hyps(1), of u "typ"] by blast
    then have "minv s' g' (held(k := None))" using True put.hyps(3) by simp
    then show ?thesis by blast
  next
    case False
    then have "cnt \<noteq> 0 \<longrightarrow> (\<exists>x. txt = Some x \<and> length x = cnt)" using put.hyps(2) by auto
    from msgsnd_put_spec [OF put.prems put.hyps(1) this, of u "typ"] obtain s2 g' where
      "msgsnd_put s u k mp sp cnt typ txt = Some (MVal MZero, s2)" "minv s2 g' (held(k := None))" by blast
    then have "minv s' g' (held(k := None))" using put.hyps(3) by simp
    then show ?thesis by blast
  qed
next
  case (intr s i k ch r s' held)
  then show ?case using msgsnd_intr_spec [OF intr.prems intr.hyps] by (auto simp: still_def)
next
  case (rcv "typ" s u i k n flg out1 out2 r s' held)
  from msgrcv_find_spec [OF rcv.prems rcv.hyps(1,2), of u i k n flg out1 out2] rcv.hyps(3)
  have "rcv_result s g held i k n typ flg (out1 \<and> out2) r s'" by auto
  then show ?case by (cases r) (auto simp: rcv_result_def still_def)
next
  case (clock s held t)
  have "minv0 (s\<lparr>msg_now := t\<rparr>) g held" by (rule minv0_same [OF minvD(1) [OF clock]]) simp_all
  moreover have "cbytes_ok (s\<lparr>msg_now := t\<rparr>) g" by (rule cbytes_ok_same [OF minvD(2) [OF clock]]) simp_all
  ultimately show ?case by (auto simp: minv_def)
qed


section \<open>An example state\<close>

text \<open>
  Two queue entries, four headers and eight units of four bytes. Queue 0, identifier 0, has a message
  of type 2 with five bytes, in units 1 and 2, and one of type 1 with one byte, in unit 3. In
  \<open>msg_ex1\<close> a sender has the queue locked and has taken header 2 and unit 4 for three bytes.
\<close>

definition msg_ex_info :: msginfo_t where
  "msg_ex_info = \<lparr>msi_msgmap = 4, msi_msgmax = 16, msi_msgmnb = 32, msi_msgmni = 2, msi_msgssz = 4, msi_msgtql = 4, msi_msgseg = 8\<rparr>"

definition msg_ex_q :: "u32 \<Rightarrow> int \<Rightarrow> nat option \<Rightarrow> nat option \<Rightarrow> nat \<Rightarrow> nat \<Rightarrow> msqid_ds" where
  "msg_ex_q md ky f l c n = \<lparr>msg_perm = \<lparr>uid = 101, gid = 20, cuid = 101, cgid = 20, mode = md, seq = 0, key = ky\<rparr>,
     msg_first = f, msg_last = l, msg_cbytes = c, msg_qnum = n, msg_qbytes = 32, msg_lspid = 0, msg_lrpid = 0, msg_stime = 0, msg_rtime = 0, msg_ctime = 0\<rparr>"

definition msg_ex_h :: "nat option \<Rightarrow> int \<Rightarrow> nat \<Rightarrow> int \<Rightarrow> msg_t" where
  "msg_ex_h nxt t n sp = \<lparr>msg_next = nxt, msg_type = t, msg_ts = n, msg_spot = sp\<rparr>"

definition msg_ex_map :: "nat \<Rightarrow> nat \<Rightarrow> rmap" where
  "msg_ex_map n a = \<lparr>mapsize = 1, mapwant = 0, mapents = [\<lparr>m_size = n, m_addr = a\<rparr>, \<lparr>m_size = 0, m_addr = 0\<rparr>, \<lparr>m_size = 0, m_addr = 0\<rparr>]\<rparr>"

definition msg_ex :: msgst where
  "msg_ex = \<lparr>msgque = [msg_ex_q 0x85b6 5 (Some 0) (Some 1) 6 2, msg_ex_q 0 0 None None 0 0],
     msgh = (\<lambda>_. msg_ex_h None 0 0 0)(0 := msg_ex_h (Some 1) 2 5 0, 1 := msg_ex_h None 1 1 2, 2 := msg_ex_h (Some 3) 0 0 0, 3 := msg_ex_h None 0 0 0),
     msgfp = Some 2, msgmap = msg_ex_map 5 4, msglock = [False, False],
     mbuf = (\<lambda>_. 0)(0 := 7, 1 := 8, 2 := 9, 3 := 1, 4 := 2, 8 := 5), msginfo = msg_ex_info, msg_waked = [], msg_sysinfo = 0, msg_now = 100\<rparr>"

definition msg_ex1 :: msgst where
  "msg_ex1 = msg_ex\<lparr>msgfp := Some 3, msgmap := msg_ex_map 4 5, msglock := [True, False]\<rparr>"

definition msg_ex_g :: mghost where
  "msg_ex_g = \<lparr>gq = (\<lambda>_. [])(0 := [0, 1]), gf = [2, 3], own = (\<lambda>m. if m < 2 then OQ 0 else if m < 4 then OFree else ONone),
     gr = (\<lambda>_. None)(0 := Some (1, 2), 1 := Some (3, 1))\<rparr>"

definition msg_ex1_g :: mghost where
  "msg_ex1_g = gtake msg_ex_g 0 2 (Some (4, 1))"

definition msg_ex1_held :: mheld where
  "msg_ex1_held = (\<lambda>_. None)(0 := Some (2, 4, 3))"

definition msg_ex_u :: ucall where
  "msg_ex_u = \<lparr>u_slot = 3, u_pid = 77, u_cred = example_cred 101\<rparr>"

lemma msg_ex_cred: "cred_ok (u_cred msg_ex_u)"
  by (simp add: cred_ok_def msg_ex_u_def example_cred_def)

lemmas msg_ex_simps = msg_ex_def msg_ex_info_def msg_ex_q_def msg_ex_h_def

lemma ex_map_inv: "0 < n \<Longrightarrow> 0 < a \<Longrightarrow> a + n < 4294967296 \<Longrightarrow> rm_inv (msg_ex_map n a) \<and> free_units (msg_ex_map n a) = {a..<a + n}"
  by (auto simp: rm_inv_def msg_ex_map_def regions_def free_units_def units_def region_def live_def)

lemma less_two: "(k :: nat) < 2 \<longleftrightarrow> k = 0 \<or> k = 1"
  by auto

lemma msg_ex_lists: "mlists msg_ex msg_ex_g"
  by (auto simp: mlists_def msg_ex_simps msg_ex_g_def less_two allocd_def chain_simps split: if_splits)

lemma msg_ex_regs: "mregs msg_ex msg_ex_g"
proof -
  have r: "ran (gr msg_ex_g) = {(1, 2), (3, 1)}" by (auto simp: msg_ex_g_def ran_def split: if_splits)
  have m: "rm_inv (msg_ex_map 5 4)" "free_units (msg_ex_map 5 4) = {4..<9}" using ex_map_inv [of 5 4] by simp_all
  have "rm.holds (msg_ex_map 5 4) {(1, 2), (3, 1)}" using m by (auto simp: rm.holds_def span_def)
  then show ?thesis unfolding mregs_def r using m(2)
    by (auto simp: msg_ex_simps msg_ex_g_def btoq_def less_two split: if_splits)
qed

lemma msg_ex_inv: "minv msg_ex msg_ex_g (\<lambda>_. None)"
proof -
  have "mcfg (msginfo msg_ex)" by (simp add: mcfg_def msg_ex_simps)
  moreover have "mtab (msginfo msg_ex) (msgque msg_ex)" by (auto simp: mtab_def keys_unique_def msg_ex_simps less_two allocd_def nth_Cons')
  moreover have "mholds msg_ex msg_ex_g (\<lambda>_. None)" by (simp add: mholds_def msg_ex_simps msg_ex_g_def)
  moreover have "cbytes_ok msg_ex msg_ex_g" by (auto simp: cbytes_ok_def msg_ex_simps msg_ex_g_def less_two)
  ultimately show ?thesis using msg_ex_lists msg_ex_regs by (simp add: minv_def minv0_def)
qed


lemma msg_ex1_inv: "minv msg_ex1 msg_ex1_g msg_ex1_held"
proof -
  note i = minv0D [OF minvD(1) [OF msg_ex_inv]]
  have "mlists msg_ex1 msg_ex1_g" unfolding msg_ex1_g_def by (rule mlists_take [OF i(3)]) (simp_all add: msg_ex1_def msg_ex_simps)
  moreover have "mregs msg_ex1 msg_ex1_g"
  proof -
    have r: "ran (gr msg_ex1_g) = {(1, 2), (3, 1), (4, 1)}" by (auto simp: msg_ex1_g_def msg_ex_g_def gtake_def ran_map_upd)
    have m: "rm_inv (msg_ex_map 4 5)" "free_units (msg_ex_map 4 5) = {5..<9}" using ex_map_inv [of 4 5] by simp_all
    have "rm.holds (msg_ex_map 4 5) {(1, 2), (3, 1), (4, 1)}" using m by (auto simp: rm.holds_def span_def)
    then show ?thesis unfolding mregs_def r using m(2)
      by (auto simp: msg_ex1_def msg_ex_simps msg_ex1_g_def msg_ex_g_def gtake_def btoq_def less_two split: if_splits)
  qed
  moreover have "mholds msg_ex1 msg_ex1_g msg_ex1_held"
    by (auto simp: mholds_def msg_ex1_held_def msg_ex1_def msg_ex_simps msg_ex1_g_def msg_ex_g_def gtake_def btoq_def allocd_def split: if_splits)
  moreover have "cbytes_ok msg_ex1 msg_ex1_g" using minvD(2) [OF msg_ex_inv] by (simp add: cbytes_ok_def msg_ex1_def msg_ex1_g_def msg_simps)
  ultimately show ?thesis using i(1,2) by (simp add: minv_def minv0_def msg_ex1_def)
qed

lemma msg_ex_abs: "absq msg_ex msg_ex_g 0 = [(2, [7, 8, 9, 1, 2]), (1, [5])]" "absq msg_ex1 msg_ex1_g 0 = [(2, [7, 8, 9, 1, 2]), (1, [5])]"
  by (simp_all add: absq_def mtext_def text_at_def msg_ex1_g_def msg_ex_g_def msg_simps msg_ex1_def msg_ex_simps upt_rec)

lemma msg_ex_conv: "msgconv msg_ex 0 = (CGot 0, msg_ex\<lparr>msglock := [True, False]\<rparr>)"
  by (simp add: msgconv_def msg_ex_simps)

lemma msg_ex_select: "selects (- 2) [2, 1] 1" "selects 2 [2, 1] 0"
  by (auto simp: selects_def eligible_def rank_def less_Suc_eq)

section \<open>Properties\<close>

text \<open>
  C19: the last section of \<^verbatim>\<open>msgsnd\<close>. A call that holds a header and text space for \<open>cnt\<close> bytes puts its
  message, with its type and exactly the bytes copied in, at the end of its queue; the texts, types
  and order of all other messages, on this and on every other queue, stay as they are, the count of
  bytes grows by \<open>cnt\<close>, and receivers that wait for a message are woken.
\<close>

theorem msgsnd_appends:
  assumes "minv s g held" "held k = Some (mp, sp, cnt)" "cnt \<noteq> 0 \<longrightarrow> (\<exists>x. txt = Some x \<and> length x = cnt)"
  shows "\<exists>s' g'. msgsnd_put s u k mp sp cnt typ txt = Some (MVal MZero, s') \<and> minv s' g' (held(k := None))
    \<and> absq s' g' k = absq s g k @ [(typ, if cnt = 0 then [] else the txt)]
    \<and> (\<forall>j. j \<noteq> k \<and> j < length (msgque s) \<longrightarrow> absq s' g' j = absq s g j)
    \<and> msg_cbytes (msgque s' ! k) = msg_cbytes (msgque s ! k) + cnt
    \<and> (mode (msg_perm (msgque s ! k)) AND MSG_RWAIT \<noteq> 0 \<longrightarrow> WQnum k \<in> set (msg_waked s'))"
proof -
  from msgsnd_put_spec [OF assms, of u "typ"] obtain s' g' where "msgsnd_put s u k mp sp cnt typ txt = Some (MVal MZero, s')"
    "minv s' g' (held(k := None))" "sent s g s' g' k (typ, if cnt = 0 then [] else the txt)"
    "msg_cbytes (msgque s' ! k) = msg_cbytes (msgque s ! k) + cnt"
    "mode (msg_perm (msgque s ! k)) AND MSG_RWAIT \<noteq> 0 \<longrightarrow> WQnum k \<in> set (msg_waked s')" by blast
  then show ?thesis unfolding sent_def by blast
qed

theorem msgsnd_appends_witness:
  "\<exists>s' g'. msgsnd_put msg_ex1 msg_ex_u 0 2 4 3 9 (Some [3, 4, 5]) = Some (MVal MZero, s') \<and> minv s' g' (\<lambda>_. None)
     \<and> absq s' g' 0 = [(2, [7, 8, 9, 1, 2]), (1, [5]), (9, [3, 4, 5])] \<and> msg_cbytes (msgque s' ! 0) = 9"
proof -
  have h: "msg_ex1_held 0 = Some (2, 4, 3)" "msg_ex1_held(0 := None) = (\<lambda>_. None)" by (simp_all add: msg_ex1_held_def)
  have c: "msg_cbytes (msgque msg_ex1 ! 0) = 6" by (simp add: msg_ex1_def msg_ex_simps)
  from msgsnd_appends [OF msg_ex1_inv h(1), of "Some [3, 4, 5]" msg_ex_u 9] obtain s' g' where
    "msgsnd_put msg_ex1 msg_ex_u 0 2 4 3 9 (Some [3, 4, 5]) = Some (MVal MZero, s')" "minv s' g' (\<lambda>_. None)"
    "absq s' g' 0 = [(2, [7, 8, 9, 1, 2]), (1, [5]), (9, [3, 4, 5])]" "msg_cbytes (msgque s' ! 0) = 6 + 3"
    unfolding h(2) msg_ex_abs(2) c by auto
  then show ?thesis by auto
qed

text \<open>
  A text that cannot be copied in. The header goes back on the free chain, its text space is no
  longer held, and every queue is as it was.
\<close>

theorem msgsnd_fault_releases:
  assumes "minv s g held" "held k = Some (mp, sp, cnt)" "cnt \<noteq> 0"
  shows "\<exists>s' g'. msgsnd_put s u k mp sp cnt typ None = Some (MErr EFAULT, s') \<and> minv s' g' (held(k := None)) \<and> gf g' = mp # gf g
    \<and> gr g' = (gr g)(mp := None) \<and> absq s' g' = absq s g \<and> msgque s' = msgque s"
  using msgsnd_fault_spec [OF assms] by blast

theorem msgsnd_fault_releases_witness:
  "\<exists>s' g'. msgsnd_put msg_ex1 msg_ex_u 0 2 4 3 9 None = Some (MErr EFAULT, s') \<and> minv s' g' (\<lambda>_. None) \<and> gf g' = [2, 3]
     \<and> absq s' g' 0 = [(2, [7, 8, 9, 1, 2]), (1, [5])]"
proof -
  have h: "msg_ex1_held 0 = Some (2, 4, 3)" "msg_ex1_held(0 := None) = (\<lambda>_. None)" by (simp_all add: msg_ex1_held_def)
  have f: "gf msg_ex1_g = [3]" by (simp add: msg_ex1_g_def msg_ex_g_def msg_simps)
  from msgsnd_fault_releases [OF msg_ex1_inv h(1), of msg_ex_u 9] obtain s' g' where
    "msgsnd_put msg_ex1 msg_ex_u 0 2 4 3 9 None = Some (MErr EFAULT, s')" "minv s' g' (\<lambda>_. None)" "gf g' = [2, 3]" "absq s' g' = absq msg_ex1 msg_ex1_g"
    unfolding h(2) f by auto
  then show ?thesis using msg_ex_abs(2) by auto
qed


lemma nothing_selects: "nothing_for typ q \<Longrightarrow> \<not> selects typ (map fst q) n"
  by (auto simp: nothing_for_def selects_def)

text \<open>
  C17: \<^verbatim>\<open>msgrcv\<close> takes the right message. When the queue is there and not locked, the user's buffer can be
  written, and there is a message that the type argument selects (the first one for type 0, the
  first of the type for a positive type, the first of the lowest type up to its absolute value for a
  negative one) whose text fits or may be cut off, then the call returns its type and its text, cut
  to the size asked for; exactly this message is gone and everything else is as it was; and senders
  that wait for room on the queue are woken.
\<close>

theorem msgrcv_takes:
  assumes "minv s g held" "fst (msgconv s i) = CGot k" "- 2147483648 < typ" "typ < 2147483648" "selects typ (map fst (absq s g k)) n"
    "length (snd (absq s g k ! n)) \<le> msgsz \<or> flg AND MSG_NOERROR \<noteq> 0"
  shows "\<exists>s' g'. msgrcv_find s u i k msgsz typ flg True True = Some (MVal (MText (fst (absq s g k ! n)) (take msgsz (snd (absq s g k ! n)))), s')
    \<and> minv s' g' held \<and> absq s' g' = (absq s g)(k := drop_nth n (absq s g k))
    \<and> (mode (msg_perm (msgque s ! k)) AND MSG_WWAIT \<noteq> 0 \<longrightarrow> WQueue k \<in> set (msg_waked s'))"
proof -
  from msgrcv_find_spec [OF assms(1,3,4), of u i k msgsz flg True True] obtain r s' where
    r: "msgrcv_find s u i k msgsz typ flg True True = Some (r, s')" "rcv_result s g held i k msgsz typ flg True r s'" by auto
  have u: "m = n" if "selects typ (map fst (absq s g k)) m" for m by (rule selects_unique [OF that assms(5)])
  have no: "\<not> nothing_for typ (absq s g k)" using nothing_selects assms(5) by blast
  show ?thesis
  proof (cases r)
    case (MVal v)
    then show ?thesis using r u unfolding rcv_result_def by (simp only: msgres.case) blast
  next
    case (MErr e)
    then have False using r(2) no assms(2,6) u unfolding rcv_result_def by auto
    then show ?thesis ..
  qed (use r(2) no assms(2) in \<open>auto simp: rcv_result_def\<close>)
qed

theorem msgrcv_takes_witness:
  "\<exists>s' g'. msgrcv_find msg_ex msg_ex_u 0 0 10 (- 2) 0 True True = Some (MVal (MText 1 [5]), s') \<and> minv s' g' (\<lambda>_. None)
     \<and> absq s' g' 0 = [(2, [7, 8, 9, 1, 2])] \<and> WQueue 0 \<in> set (msg_waked s')"
proof -
  have w: "mode (msg_perm (msgque msg_ex ! 0)) AND MSG_WWAIT \<noteq> 0" by (simp add: msg_ex_simps)
  from msgrcv_takes [OF msg_ex_inv, of 0 0 "- 2" 1 10 0 msg_ex_u] obtain s' g' where
    "msgrcv_find msg_ex msg_ex_u 0 0 10 (- 2) 0 True True = Some (MVal (MText 1 [5]), s')" "minv s' g' (\<lambda>_. None)"
    "absq s' g' = (absq msg_ex msg_ex_g)(0 := drop_nth 1 (absq msg_ex msg_ex_g 0))" "WQueue 0 \<in> set (msg_waked s')"
    using w msg_ex_select(1) by (auto simp: msg_ex_conv msg_ex_abs(1))
  then show ?thesis by (auto simp: msg_ex_abs(1) drop_nth_def)
qed

text \<open>
  A receiver for whom there is nothing. With \<^verbatim>\<open>IPC_NOWAIT\<close> the call fails with \<^verbatim>\<open>ENOMSG\<close>; without, it
  sleeps on the queue's count of messages with \<^verbatim>\<open>MSG_RWAIT\<close> set, so that the next \<^verbatim>\<open>msgsnd\<close> wakes it. No queue
  has changed.
\<close>

theorem msgrcv_nothing:
  assumes "minv s g held" "fst (msgconv s i) = CGot k" "- 2147483648 < typ" "typ < 2147483648" "\<forall>x\<in>set (absq s g k). \<not> eligible typ (fst x)"
  shows "\<exists>r s'. msgrcv_find s u i k msgsz typ flg True True = Some (r, s') \<and> minv s' g held \<and> absq s' g = absq s g
    \<and> (if flg AND IPC_NOWAIT \<noteq> 0 then r = MErr ENOMSG else r = MSleep (WQnum k) \<and> mode (msg_perm (msgque s' ! k)) AND MSG_RWAIT \<noteq> 0)"
proof -
  from msgrcv_find_spec [OF assms(1,3,4), of u i k msgsz flg True True] obtain r s' where
    r: "msgrcv_find s u i k msgsz typ flg True True = Some (r, s')" "rcv_result s g held i k msgsz typ flg True r s'" by auto
  have "nothing_for typ (absq s g k)" using assms(5) by (simp add: nothing_for_def)
  from nothing_selects [OF this] r(2) assms(2) have "minv s' g held \<and> absq s' g = absq s g
      \<and> (if flg AND IPC_NOWAIT \<noteq> 0 then r = MErr ENOMSG else r = MSleep (WQnum k) \<and> mode (msg_perm (msgque s' ! k)) AND MSG_RWAIT \<noteq> 0)"
    unfolding rcv_result_def still_def by (cases r) auto
  then show ?thesis using r(1) by blast
qed

theorem msgrcv_nothing_witness:
  "\<exists>s'. msgrcv_find msg_ex msg_ex_u 0 0 10 7 0 True True = Some (MSleep (WQnum 0), s') \<and> absq s' msg_ex_g 0 = [(2, [7, 8, 9, 1, 2]), (1, [5])]"
proof -
  have "\<forall>x\<in>set (absq msg_ex msg_ex_g 0). \<not> eligible 7 (fst x)" by (simp add: msg_ex_abs(1) eligible_def)
  from msgrcv_nothing [OF msg_ex_inv _ _ _ this, of 0 msg_ex_u 10 0] show ?thesis by (auto simp: msg_ex_conv msg_ex_abs(1))
qed

text \<open>
  The resources of a message. \<^verbatim>\<open>msgsnd\<close> takes a header and text space only when the message fits under
  the queue's limit, with no wrap-around in the sum; otherwise it waits or, with \<^verbatim>\<open>IPC_NOWAIT\<close>, fails with
  \<^verbatim>\<open>EAGAIN\<close>, and no queue changes.
\<close>

theorem msgsnd_respects_limit:
  assumes "minv s g held" "cnt \<le> 65535" "fst (msgconv s i) = CGot k"
  shows "\<exists>r s'. msgsnd_getres s i k cnt flg = Some (r, s') \<and> absq s' g = absq s g \<and>
    (case r of MHold mp sp \<Rightarrow> cnt + sum_list (map (length \<circ> snd) (absq s g k)) \<le> msg_qbytes (msgque s ! k) \<and> hd (gf g) = mp
         \<and> (\<exists>g'. minv s' g' (held(k \<mapsto> (mp, sp, cnt))) \<and> gf g' = tl (gf g))
     | MErr e \<Rightarrow> e = EAGAIN \<and> flg AND IPC_NOWAIT \<noteq> 0 \<and> minv s' g held
     | MSleep ch \<Rightarrow> flg AND IPC_NOWAIT = 0 \<and> minv s' g held | _ \<Rightarrow> False)"
proof -
  from msgsnd_getres_spec [OF assms(1,2), of i k flg] obtain r s' where r: "msgsnd_getres s i k cnt flg = Some (r, s')"
    "case r of MHold mp sp \<Rightarrow> got_res s g held k cnt mp sp s'
     | MSleep ch \<Rightarrow> still s g held s' \<and> (fst (msgconv s i) \<noteq> CGot k \<or> flg AND IPC_NOWAIT = 0)
     | MErr e \<Rightarrow> still s g held s' \<and> (e = EIDRM \<and> fst (msgconv s i) \<noteq> CGot k \<or> e = EAGAIN \<and> flg AND IPC_NOWAIT \<noteq> 0) | _ \<Rightarrow> False" by blast
  show ?thesis
  proof (cases r)
    case (MHold mp sp)
    then have g: "got_res s g held k cnt mp sp s'" using r(2) by simp
    then have "msg_cbytes (msgque s ! k) = sum_list (map (length \<circ> snd) (absq s g k))"
      using minvD(2) [OF assms(1)] by (simp add: got_res_def cbytes_ok_def absq_def length_mtext o_def)
    moreover have "hd (gf g) = mp"
      using g fp_head(1) [OF minv0D(3) [OF minvD(1) [OF assms(1)]], of mp] by (metis got_res_def list.sel(1))
    moreover have "\<exists>g'. minv s' g' (held(k \<mapsto> (mp, sp, cnt))) \<and> gf g' = tl (gf g)" using g gtake_simps(2) unfolding got_res_def by blast
    ultimately show ?thesis using g r(1) MHold by (simp add: got_res_def)
  qed (use r assms(3) in \<open>auto simp: still_def\<close>)
qed


theorem msgsnd_respects_limit_witness:
  "\<exists>r s'. msgsnd_getres msg_ex 0 0 27 0x800 = Some (r, s') \<and> r = MErr EAGAIN \<and> absq s' msg_ex_g 0 = [(2, [7, 8, 9, 1, 2]), (1, [5])]"
proof -
  have "fst (msgconv msg_ex 0) = CGot 0" by (simp add: msg_ex_conv)
  moreover obtain s' where "msgsnd_getres msg_ex 0 0 27 0x800 = Some (MErr EAGAIN, s')"
    by (simp add: msgsnd_getres_def msg_ex_conv u32add_id) (simp add: msg_ex_simps u32add_id)
  ultimately show ?thesis using msgsnd_respects_limit [OF msg_ex_inv, of 27 0 0 "0x800"] by (auto simp: msg_ex_abs(1))
qed

text \<open>
  Removing a queue. \<^verbatim>\<open>IPC_RMID\<close> by the owner empties the queue, giving all its headers back to the free
  chain and their texts back to the map; the identifier names nothing afterwards, receivers and
  senders that wait on it are woken, and every other queue is as it was.
\<close>

theorem msgctl_rmid_empties:
  assumes "minv s g held" "msgconv s i = (CGot k, s1)" "msg_owner (msg_perm (msgque s ! k)) (u_cred u)"
  shows "\<exists>s' g'. msgctl s u i MC_RMID = Some (MVal MZero, s') \<and> minv s' g' held \<and> absq s' g' = (absq s g)(k := []) \<and> gf g' = rev (gq g k) @ gf g
    \<and> fst (msgconv s' i) = CInval \<and> (\<forall>j. j \<noteq> k \<longrightarrow> msgque s' ! j = msgque s ! j)
    \<and> (mode (msg_perm (msgque s ! k)) AND MSG_RWAIT \<noteq> 0 \<longrightarrow> WQnum k \<in> set (msg_waked s'))
    \<and> (mode (msg_perm (msgque s ! k)) AND MSG_WWAIT \<noteq> 0 \<longrightarrow> WQueue k \<in> set (msg_waked s'))"
proof -
  from rmid_retires [OF assms] obtain s' where s': "msgctl_rmid s1 u i k = Some (MVal MZero, s')" "retired s g held i k (unlock k s')" by blast
  have "msgctl s u i MC_RMID = Some (MVal MZero, unlock k s')" using assms(2) s'(1) by (simp add: msgctl_def)
  then show ?thesis using s'(2) unfolding retired_def by blast
qed

theorem msgctl_rmid_empties_witness:
  "\<exists>s' g'. msgctl msg_ex msg_ex_u 0 MC_RMID = Some (MVal MZero, s') \<and> minv s' g' (\<lambda>_. None) \<and> absq s' g' 0 = [] \<and> gf g' = [1, 0, 2, 3]
     \<and> fst (msgconv s' 0) = CInval"
proof -
  have "msg_owner (msg_perm (msgque msg_ex ! 0)) (u_cred msg_ex_u)"
    by (simp add: msg_owner_def msg_ex_simps msg_ex_u_def example_cred_def)
  from msgctl_rmid_empties [OF msg_ex_inv msg_ex_conv this] obtain s' g' where
    "msgctl msg_ex msg_ex_u 0 MC_RMID = Some (MVal MZero, s')" "minv s' g' (\<lambda>_. None)" "absq s' g' = (absq msg_ex msg_ex_g)(0 := [])"
    "gf g' = rev (gq msg_ex_g 0) @ gf msg_ex_g" "fst (msgconv s' 0) = CInval" by blast
  moreover from this(4) have "gf g' = [1, 0, 2, 3]" by (simp add: msg_ex_g_def)
  ultimately show ?thesis by auto
qed

text \<open>
  \<^verbatim>\<open>msgget\<close> returns an error and changes nothing, or an identifier of at most 15 bits that names a queue
  with the key: the one there is, unchanged, or a new one that is empty, belongs to the caller and has
  the configured limit. The messages on all queues are as they were.
\<close>

theorem msgget_correct:
  assumes "minv s g held"
  shows "\<exists>r s'. msgget s u ky flg = (r, s') \<and> minv s' g held \<and> absq s' g = absq s g
    \<and> (case r of MErr _ \<Rightarrow> s' = s
       | MVal (MId i) \<Rightarrow> \<exists>k. 0 \<le> i \<and> i \<le> 32767 \<and> fst (msgconv s' i) = (if msglock s ! k then CBusy k else CGot k) \<and> key (msg_perm (msgque s' ! k)) = ky
           \<and> (if allocd (msg_perm (msgque s ! k)) then s' = s
              else absq s' g k = [] \<and> uid (msg_perm (msgque s' ! k)) = cr_uid (u_cred u) \<and> msg_qbytes (msgque s' ! k) = msi_msgmnb (msginfo s) mod 65536)
       | _ \<Rightarrow> False)"
proof -
  from msgget_spec [OF assms, of u ky flg] obtain r s' where r: "msgget s u ky flg = (r, s')" "still s g held s'" "msglock s' = msglock s" "msginfo s' = msginfo s"
    "case r of MErr _ \<Rightarrow> s' = s
       | MVal (MId i) \<Rightarrow> \<exists>k. conv_to s' i k \<and> i \<le> 32767 \<and> key (msg_perm (msgque s' ! k)) = ky
           \<and> (\<not> allocd (msg_perm (msgque s ! k)) \<longrightarrow> absq s' g k = [] \<and> uid (msg_perm (msgque s' ! k)) = cr_uid (u_cred u)
                \<and> msg_qbytes (msgque s' ! k) = msi_msgmnb (msginfo s) mod 65536)
           \<and> (allocd (msg_perm (msgque s ! k)) \<longrightarrow> s' = s)
       | _ \<Rightarrow> False" by blast
  have "length (msgque s') = msi_msgmni (msginfo s')" using r(2) minv0D(6) minvD(1) unfolding still_def by blast
  note cv = conv_to_conv [OF _ this]
  have nn: "0 \<le> i" if "conv_to s' i k" for i k using that by (simp add: conv_to_def)
  show ?thesis
  proof (cases r)
    case (MVal v)
    then show ?thesis using r cv nn unfolding still_def by (cases v) fastforce+
  qed (use r in \<open>auto simp: still_def\<close>)
qed

theorem msgget_correct_witness:
  "\<exists>s'. msgget msg_ex msg_ex_u 0 0x1b6 = (MVal (MId 1), s') \<and> minv s' msg_ex_g (\<lambda>_. None)"
proof -
  have "fst (msgget msg_ex msg_ex_u 0 0x1b6) = MVal (MId 1)"
    by (simp add: msgget_def ipcget_def ipc_init_def put_mperms_def set_q_def msg_ex_simps Let_def)
  then show ?thesis using msgget_correct [OF msg_ex_inv, of msg_ex_u 0 "0x1b6"] by auto
qed

interpretation msgf: facility "\<lambda>(s, h). h = (\<lambda>_. None) \<and> (\<exists>s0 kseg. msg_boot s0 \<and> msginit s0 kseg = Some s)"
  "\<lambda>(s, h) (s', h'). msg_step s h s' h'" "\<lambda>(s, h). \<exists>g. minv s g h"
proof unfold_locales
  show "case t of (s, h) \<Rightarrow> \<exists>g. minv s g h" if t: "case t of (s, h) \<Rightarrow> h = (\<lambda>_. None) \<and> (\<exists>s0 kseg. msg_boot s0 \<and> msginit s0 kseg = Some s)" for t
  proof -
    obtain s0 kseg where b: "msg_boot s0" "msginit s0 kseg = Some (fst t)" "snd t = (\<lambda>_. None)" using t by (auto simp: case_prod_unfold)
    then show ?thesis using msginit_spec [OF b(1), of kseg] by (auto simp: case_prod_unfold)
  qed
  show "case u of (s, h) \<Rightarrow> \<exists>g. minv s g h"
    if "(case t of (s, h) \<Rightarrow> \<lambda>(s', h'). msg_step s h s' h') u" "case t of (s, h) \<Rightarrow> \<exists>g. minv s g h" for t u
    using that msg_step_inv by (cases t; cases u) auto
qed

text \<open>Every header is in exactly one place.\<close>

definition one_place :: "msgst \<Rightarrow> (nat \<Rightarrow> nat list) \<Rightarrow> nat list \<Rightarrow> mheld \<Rightarrow> bool" where
  "one_place s qs fs held \<longleftrightarrow> (let n = length (msgque s) in
     (\<forall>m. m < msi_msgtql (msginfo s) \<longleftrightarrow> m \<in> set fs \<or> (\<exists>k<n. m \<in> set (qs k)) \<or> (\<exists>k sp c. held k = Some (m, sp, c)))
     \<and> distinct fs \<and> (\<forall>k<n. distinct (qs k) \<and> set (qs k) \<inter> set fs = {} \<and> (\<forall>j<n. j \<noteq> k \<longrightarrow> set (qs k) \<inter> set (qs j) = {}))
     \<and> (\<forall>k m sp c. held k = Some (m, sp, c) \<longrightarrow> m \<notin> set fs \<and> (\<forall>j<n. m \<notin> set (qs j)) \<and> (\<forall>j sp' c'. held j = Some (m, sp', c') \<longrightarrow> j = k)))"

lemma minv_one_place:
  assumes "minv s g held"
  shows "one_place s (gq g) (gf g) held"
proof -
  note i = minv0D [OF minvD(1) [OF assms]]
  note l = mlistsD [OF i(3)] and h = mholdsD [OF i(5)]
  have free: "m \<in> set (gf g) \<longleftrightarrow> own g m = OFree" for m using l(6) by simp
  have queue: "m \<in> set (gq g k) \<longleftrightarrow> own g m = OQ k" if "k < length (msgque s)" for m k using l(7) [OF that] by simp
  have call: "(\<exists>sp c. held k = Some (m, sp, c)) \<longleftrightarrow> own g m = OHold k" for m k using h(5,8) by blast
  have some: "(\<exists>k<length (msgque s). m \<in> set (gq g k)) \<longleftrightarrow> (\<exists>k. own g m = OQ k)" for m using queue l(9) by blast
  have all: "m < msi_msgtql (msginfo s) \<longleftrightarrow> m \<in> set (gf g) \<or> (\<exists>k<length (msgque s). m \<in> set (gq g k)) \<or> (\<exists>k sp c. held k = Some (m, sp, c))" for m
    unfolding l(8) [symmetric, of m] free some call by (cases "own g m") simp_all
  have held: "m \<notin> set (gf g) \<and> (\<forall>j<length (msgque s). m \<notin> set (gq g j)) \<and> (\<forall>j sp' c'. held j = Some (m, sp', c') \<longrightarrow> j = k)"
    if "held k = Some (m, sp, c)" for k m sp c
  proof (intro conjI allI impI)
    note o = h(5) [OF that]
    show "m \<notin> set (gf g)" using o free by simp
    show "m \<notin> set (gq g j)" if "j < length (msgque s)" for j using o queue [OF that] by simp
    show "j = k" if "held j = Some (m, sp', c')" for j sp' c' using o h(5) [OF that] by simp
  qed
  have q: "distinct (gq g k) \<and> set (gq g k) \<inter> set (gf g) = {} \<and> (\<forall>j<length (msgque s). j \<noteq> k \<longrightarrow> set (gq g k) \<inter> set (gq g j) = {})"
    if k: "k < length (msgque s)" for k
  proof (intro conjI allI impI)
    show "distinct (gq g k)" by (rule gq_length(2) [OF i(3) k])
    show "set (gq g k) \<inter> set (gf g) = {}" using free queue [OF k] by auto
    show "set (gq g k) \<inter> set (gq g j) = {}" if "j < length (msgque s)" "j \<noteq> k" for j using queue [OF k] queue [OF that(1)] that(2) by auto
  qed
  show ?thesis unfolding one_place_def Let_def using all held q chain_distinct [OF l(5)] by blast
qed

text \<open>
  C22: every state that the facility reaches from its initialization, by any interleaving of system
  calls and of the later sections of \<^verbatim>\<open>msgsnd\<close> and \<^verbatim>\<open>msgrcv\<close> (with a type other than the least \<^verbatim>\<open>long\<close>), satisfies the invariant:
  no header is lost and none is in two places, each of the \<^verbatim>\<open>msgtql\<close> headers is on exactly one of the queues, the free chain and the calls
  that are copying a text in, where the lists are those one meets following the pointers; texts do not overlap; each queue counts its
  messages and bytes correctly; and identifiers fit in 15 bits.
\<close>

theorem msg_reachable_inv:
  assumes "msg_boot s0" "msginit s0 kseg = Some s1" "(\<lambda>(s, h) (s', h'). msg_step s h s' h')\<^sup>*\<^sup>* (s1, \<lambda>_. None) (s, held)"
  shows "\<exists>g. minv s g held \<and> one_place s (gq g) (gf g) held \<and> chain (nx s) (msgfp s) (gf g)
    \<and> (\<forall>k<length (msgque s). chain (nx s) (msg_first (msgque s ! k)) (gq g k) \<and> msg_qnum (msgque s ! k) = length (gq g k)
         \<and> msg_cbytes (msgque s ! k) = sum_list (map (\<lambda>m. msg_ts (msgh s m)) (gq g k)))"
proof -
  obtain g where g: "minv s g held" using msgf.reached [OF assms(3)] assms(1,2) by auto
  note l = mlistsD [OF minv0D(3) [OF minvD(1) [OF g]]]
  show ?thesis using g minv_one_place [OF g] l(1,3,5) minvD(2) [OF g] unfolding cbytes_ok_def by blast
qed

definition msg_ex_boot :: msgst where
  "msg_ex_boot = msg_ex\<lparr>msgque := replicate 2 (msg_ex_q 0 0 None None 0 0), msgh := (\<lambda>_. msg_ex_h None 0 0 0), msgfp := None\<rparr>"

lemma msg_ex_booted: "msg_boot msg_ex_boot"
  by (simp add: msg_boot_def msg_ex_boot_def msg_ex_simps mcfg_def numeral_2_eq_2)

theorem msg_reachable_inv_witness:
  "\<exists>s1 r s g. msginit msg_ex_boot True = Some s1 \<and> msgsys s1 msg_ex_u (MsgGet 5 0x3b6) = Some (r, s) \<and> minv s g (\<lambda>_. None)"
proof -
  obtain s1 where s1: "msginit msg_ex_boot True = Some s1" using msginit_spec [OF msg_ex_booted] by blast
  obtain r s where r: "msgsys s1 msg_ex_u (MsgGet 5 0x3b6) = Some (r, s)" by (cases "msgget s1 msg_ex_u 5 0x3b6") (simp add: msgsys_def)
  have "(\<lambda>(s, h) (s', h'). msg_step s h s' h')\<^sup>*\<^sup>* (s1, \<lambda>_. None) (s, \<lambda>_. None)" using msg_step.call [OF msg_ex_cred r, of "\<lambda>_. None"] by auto
  from msg_reachable_inv [OF msg_ex_booted s1 this] s1 r show ?thesis by blast
qed

text \<open>
  Every call of the facility returns up to its first sleep, and so do the later sections: the
  search of a queue and the loop that empties one end, and no lookup leaves its table.
\<close>

theorem msgsys_returns:
  assumes "minv s g held" "cred_ok (u_cred u)"
  shows "(\<exists>r s'. msgsys s u c = Some (r, s')) \<and> (\<forall>cnt\<le>65535. \<exists>r s'. msgsnd_getres s i k cnt flg = Some (r, s'))
    \<and> (\<forall>typ. - 2147483648 < typ \<and> typ < 2147483648 \<longrightarrow> (\<exists>r s'. msgrcv_find s u i k n typ flg out1 out2 = Some (r, s')))"
  using msgsys_spec [OF assms, of c] msgsnd_getres_spec [OF assms(1), of _ i k flg] msgrcv_find_spec [OF assms(1), of _ u i k n flg out1 out2] by blast

theorem msgsys_returns_witness:
  "\<exists>r s'. msgsys msg_ex msg_ex_u (MsgCtl 0 MC_RMID) = Some (r, s')"
  using msgsys_returns [OF msg_ex_inv msg_ex_cred] by blast


section \<open>Two oddities of the code\<close>

text \<open>
  \<^verbatim>\<open>msgrcv\<close> negates its type argument, \<^verbatim>\<open>msg.c\<close> line 441. The least \<^verbatim>\<open>long\<close> is its own negation, so with
  this argument the search finds none of the messages that any smaller absolute value finds.
\<close>

lemma msgrcv_least_type:
  "msg_find (msgh msg_ex) (- 2147483648) None (Some 0) None None = Some (None, None)
   \<and> msg_find (msgh msg_ex) (- 2147483647) None (Some 0) None None = Some (Some 1, Some 0)"
  by (simp add: msg_find.simps msg_ex_simps s32_def)

text \<open>
  A sender that waits for room on a queue sleeps until a message is taken off or the queue is removed.
  \<^verbatim>\<open>IPC_SET\<close> may raise the limit of bytes, \<^verbatim>\<open>msg.c\<close> lines 229 and 257, but it wakes nobody: the sender
  goes on sleeping although its message would fit.
\<close>

lemma msgctl_set_wakes_nobody:
  assumes "msgctl_set s u k x arg = (r, s')"
  shows "msg_waked s' = msg_waked s"
  using assms by (auto simp: msgctl_set_def Let_def set_q_simps split: if_splits option.splits)

end
