(* ===== verification/KFlock.thy ===== *)
theory KFlock
  imports KPrelude
begin

text \<open>
  File and record locks, \<^verbatim>\<open>uts/i386/os/flock.c\<close>: per file a list of the locked regions in order of their
  starts, and one list of the requests that sleep.

  A doubly linked list of \<^verbatim>\<open>struct filock\<close> is the list of its structures in order, and a pointer to a
  structure of it is its place in the list; \<open>fl_addr\<close> is the address of the structure, the word that
  processes sleep on. The member \<^verbatim>\<open>l_end\<close> is the member \<^verbatim>\<open>l_len\<close> under another name, and the flag \<^verbatim>\<open>wakeflg\<close> of
  a lock shares its word with \<^verbatim>\<open>blk.sysid\<close> of a sleeping request. Each answer of \<^verbatim>\<open>kmem_zalloc\<close> and \<^verbatim>\<open>VOP_GETATTR\<close> is
  an argument, as are the XENIX compatibility flags of the process.
\<close>

section \<open>Data\<close>

record flock =
  l_type :: int
  l_whence :: int
  l_start :: int
  l_len :: int
  l_sysid :: int
  l_pid :: int

abbreviation l_end :: "flock \<Rightarrow> int" where "l_end \<equiv> l_len"

record filock =
  fset :: flock
  wakeflg :: int
  blk_pid :: int
  fl_addr :: nat

record flst =
  filocks :: "nat \<Rightarrow> filock list"
  sleeplcks :: "filock list"
  reccnt :: int
  rectot :: int
  t_flckrec :: int
  fl_waked :: "nat list"

abbreviation F_RDLCK :: int where "F_RDLCK \<equiv> 1"
abbreviation F_WRLCK :: int where "F_WRLCK \<equiv> 2"
abbreviation F_UNLCK :: int where "F_UNLCK \<equiv> 3"
abbreviation MAXEND :: int where "MAXEND \<equiv> 2147483647"
abbreviation INOFLCK :: u32 where "INOFLCK \<equiv> 1"
abbreviation SETFLCK :: u32 where "SETFLCK \<equiv> 2"
abbreviation SLPFLCK :: u32 where "SLPFLCK \<equiv> 4"
abbreviation RCMDLCK :: u32 where "RCMDLCK \<equiv> 8"
abbreviation FREAD :: u32 where "FREAD \<equiv> 1"
abbreviation FWRITE :: u32 where "FWRITE \<equiv> 2"

record xenix =
  virtual_xout :: bool
  isfcntl :: bool
  islocking :: bool
  pre_sv :: bool

definition SAMEOWNER :: "flock \<Rightarrow> flock \<Rightarrow> bool" where
  "SAMEOWNER a b \<longleftrightarrow> l_pid a = l_pid b \<and> l_sysid a = l_sysid b"

section \<open>Lists of locks\<close>

text \<open>\<^verbatim>\<open>insflck\<close>: after the structure at place \<open>p\<close>, or in front; \<open>new\<close> is the address \<^verbatim>\<open>kmem_zalloc\<close> returns.\<close>

definition ins_after :: "'a list \<Rightarrow> nat option \<Rightarrow> 'a \<Rightarrow> 'a list" where
  "ins_after ls p n = (case p of None \<Rightarrow> n # ls | Some i \<Rightarrow> take (Suc i) ls @ n # drop (Suc i) ls)"

definition insflck :: "flst \<Rightarrow> filock list \<Rightarrow> flock \<Rightarrow> nat option \<Rightarrow> nat option \<Rightarrow> (flst \<times> filock list) option" where
  "insflck s ls d p new =
    (if reccnt s \<ge> t_flckrec s then None
     else case new of None \<Rightarrow> None
       | Some a \<Rightarrow> Some (s\<lparr>reccnt := reccnt s + 1, rectot := rectot s + 1\<rparr>,
           ins_after ls p \<lparr>fset = d, wakeflg = 0, blk_pid = 0, fl_addr = a\<rparr>))"

definition WAKEUP :: "flst \<Rightarrow> filock \<Rightarrow> flst \<times> filock" where
  "WAKEUP s f = (if wakeflg f \<noteq> 0 then (s\<lparr>fl_waked := fl_addr f # fl_waked s\<rparr>, f\<lparr>wakeflg := 0\<rparr>) else (s, f))"

definition del_at :: "'a list \<Rightarrow> nat \<Rightarrow> 'a list" where
  "del_at ls i = take i ls @ drop (Suc i) ls"

definition delflck :: "flst \<Rightarrow> filock list \<Rightarrow> nat \<Rightarrow> flst \<times> filock list" where
  "delflck s ls i = (let s = fst (WAKEUP s (ls ! i)) in (s\<lparr>reccnt := reccnt s - 1\<rparr>, del_at ls i))"

datatype spos = S_BEFORE | S_START | S_MIDDLE | S_END | S_AFTER
datatype epos = E_BEFORE | E_START | E_MIDDLE | E_END | E_AFTER

definition regflck :: "flock \<Rightarrow> flock \<Rightarrow> spos \<times> epos" where
  "regflck ld f =
    (let e = (if l_end ld < l_end f then
                if l_end ld = l_start f - 1 then E_START
                else if l_end ld < l_start f then E_BEFORE else E_MIDDLE
              else if l_end ld = l_end f then E_END else E_AFTER) in
     if l_start ld > l_start f then
       if l_start ld - 1 = l_end f then (S_END, E_AFTER)
       else if l_start ld > l_end f then (S_AFTER, E_AFTER)
       else (S_MIDDLE, e)
     else if l_start ld = l_start f then (S_START, e)
     else (S_BEFORE, e))"

section \<open>flckadj\<close>

text \<open>The variables of \<^verbatim>\<open>flckadj\<close>: the list, \<^verbatim>\<open>insrtp\<close> and \<^verbatim>\<open>*ld\<close>.\<close>

record adj =
  a_fl :: flst
  a_ls :: "filock list"
  a_ins :: "nat option"
  a_ld :: flock

datatype adjres = ANext adj nat | AStop adj | ARet "errno option" adj

definition adj_del :: "adj \<Rightarrow> nat \<Rightarrow> adj" where
  "adj_del a i = (let (s, ls) = delflck (a_fl a) (a_ls a) i in a\<lparr>a_fl := s, a_ls := ls\<rparr>)"

text \<open>\<^verbatim>\<open>flp->set.l_end = ld->l_start - 1; WAKEUP(flp); insrtp = flp;\<close>\<close>

definition adj_cut :: "adj \<Rightarrow> nat \<Rightarrow> adj" where
  "adj_cut a i =
    (let f = a_ls a ! i;
         (s, f) = WAKEUP (a_fl a) (f\<lparr>fset := (fset f)\<lparr>l_len := l_start (a_ld a) - 1\<rparr>\<rparr>) in
     a\<lparr>a_fl := s, a_ls := (a_ls a)[i := f], a_ins := Some i\<rparr>)"

text \<open>The last structure from place \<open>j\<close> on that starts before \<open>x\<close>, \<open>r\<close> if there is none.\<close>

function adv :: "filock list \<Rightarrow> nat \<Rightarrow> int \<Rightarrow> nat \<Rightarrow> nat" where
  "adv ls j x r = (if j < length ls \<and> l_start (fset (ls ! j)) < x then adv ls (Suc j) x j else r)"
  by pat_completeness auto
termination
  by (relation "measure (\<lambda>(ls, j, x, r). length ls - j)") auto

text \<open>The piece of the lock at place \<open>i\<close> after the end of the request.\<close>

definition adj_split :: "adj \<Rightarrow> nat \<Rightarrow> nat option \<Rightarrow> adj option" where
  "adj_split a i new =
    (let f = a_ls a ! i; td = (fset f)\<lparr>l_start := l_end (a_ld a) + 1\<rparr> in
     case insflck (a_fl a) (a_ls a) td (Some (adv (a_ls a) i (l_start td) i)) new of
       None \<Rightarrow> None | Some (s, ls) \<Rightarrow> Some (a\<lparr>a_fl := s, a_ls := ls\<rparr>))"

definition adj_middle :: "adj \<Rightarrow> nat \<Rightarrow> nat option \<Rightarrow> adj option" where
  "adj_middle a i new =
    (if l_type (a_ld a) = l_type (fset (a_ls a ! i)) then Some (a\<lparr>a_ld := (a_ld a)\<lparr>l_len := l_end (fset (a_ls a ! i))\<rparr>\<rparr>)
     else adj_split a i new)"

definition flckadj_step :: "adj \<Rightarrow> nat \<Rightarrow> nat option \<Rightarrow> adjres" where
  "flckadj_step a i new =
    (let f = fset (a_ls a ! i); ld = a_ld a; same = (l_type ld = l_type f);
         prev = (if i = 0 then None else Some (i - 1)) in
     if \<not> SAMEOWNER f ld then ANext a (Suc i)
     else case regflck ld f of
       (S_BEFORE, E_BEFORE) \<Rightarrow> AStop a
     | (S_BEFORE, E_START) \<Rightarrow> AStop (if same then adj_del (a\<lparr>a_ld := ld\<lparr>l_len := l_end f\<rparr>\<rparr>) i else a)
     | (S_START, E_END) \<Rightarrow> if same then ARet None a else ANext (adj_del (a\<lparr>a_ins := prev\<rparr>) i) i
     | (S_START, E_AFTER) \<Rightarrow> ANext (adj_del (a\<lparr>a_ins := prev\<rparr>) i) i
     | (S_BEFORE, E_END) \<Rightarrow> if same then AStop (adj_del a i) else ANext (adj_del a i) i
     | (S_BEFORE, E_AFTER) \<Rightarrow> ANext (adj_del a i) i
     | (S_START, E_MIDDLE) \<Rightarrow>
         if same then ARet None (a\<lparr>a_ins := prev\<rparr>)
         else (case adj_middle (a\<lparr>a_ins := prev\<rparr>) i new of
             None \<Rightarrow> ARet (Some ENOLCK) (a\<lparr>a_ins := prev\<rparr>) | Some a \<Rightarrow> AStop (adj_del a i))
     | (S_MIDDLE, E_MIDDLE) \<Rightarrow>
         if same then ARet None a
         else (case adj_middle a i new of None \<Rightarrow> ARet (Some ENOLCK) a | Some a \<Rightarrow> AStop (adj_cut a i))
     | (S_BEFORE, E_MIDDLE) \<Rightarrow>
         (case adj_middle a i new of None \<Rightarrow> ARet (Some ENOLCK) a | Some a \<Rightarrow> AStop (adj_del a i))
     | (S_MIDDLE, E_END) \<Rightarrow> if same then ARet None a else ANext (adj_cut a i) (Suc i)
     | (S_MIDDLE, E_AFTER) \<Rightarrow>
         if same then ANext (adj_del (a\<lparr>a_ld := ld\<lparr>l_start := l_start f\<rparr>, a_ins := prev\<rparr>) i) i
         else ANext (adj_cut a i) (Suc i)
     | (S_END, E_AFTER) \<Rightarrow>
         if same then ANext (adj_del (a\<lparr>a_ld := ld\<lparr>l_start := l_start f\<rparr>, a_ins := prev\<rparr>) i) i
         else ANext a (Suc i)
     | (S_AFTER, E_AFTER) \<Rightarrow> ANext (a\<lparr>a_ins := Some i\<rparr>) (Suc i)
     | _ \<Rightarrow> ANext a (Suc i))"

lemma adj_simps [simp]:
  "a_ls (adj_del a i) = del_at (a_ls a) i" "a_ins (adj_del a i) = a_ins a" "a_ld (adj_del a i) = a_ld a"
  "length (a_ls (adj_cut a i)) = length (a_ls a)" "a_ins (adj_cut a i) = Some i" "a_ld (adj_cut a i) = a_ld a"
  by (auto simp: adj_del_def adj_cut_def delflck_def WAKEUP_def Let_def split: prod.splits)

lemma flckadj_step_decreases:
  assumes "i < length (a_ls a)" "flckadj_step a i new = ANext b j"
  shows "length (a_ls b) - j < length (a_ls a) - i"
  using assms by (auto simp: flckadj_step_def Let_def del_at_def split: if_splits spos.splits epos.splits option.splits prod.splits)

function flckadj_scan :: "adj \<Rightarrow> nat \<Rightarrow> nat option \<Rightarrow> adjres" where
  "flckadj_scan a i new =
    (if i < length (a_ls a) then
       (case flckadj_step a i new of ANext b j \<Rightarrow> flckadj_scan b j new | r \<Rightarrow> r)
     else AStop a)"
  by pat_completeness auto
termination
  by (relation "measure (\<lambda>(a, i, new). length (a_ls a) - i)") (auto dest: flckadj_step_decreases)

text \<open>\<open>new1\<close> and \<open>new2\<close> are the answers of \<^verbatim>\<open>kmem_zalloc\<close> for the piece after the request and for the request.\<close>

definition flckadj :: "flst \<Rightarrow> filock list \<Rightarrow> nat option \<Rightarrow> flock \<Rightarrow> nat option \<Rightarrow> nat option \<Rightarrow> errno option \<times> flst \<times> filock list \<times> flock" where
  "flckadj s ls ins ld new1 new2 =
    (case flckadj_scan \<lparr>a_fl = s, a_ls = ls, a_ins = ins, a_ld = ld\<rparr> (case ins of None \<Rightarrow> 0 | Some i \<Rightarrow> i) new1 of
       ARet e a \<Rightarrow> (e, a_fl a, a_ls a, a_ld a)
     | ANext a _ \<Rightarrow> (None, a_fl a, a_ls a, a_ld a)
     | AStop a \<Rightarrow>
         if l_type (a_ld a) = F_UNLCK then (None, a_fl a, a_ls a, a_ld a)
         else (case insflck (a_fl a) (a_ls a) (a_ld a) (map_option (\<lambda>k. adv (a_ls a) k (l_start (a_ld a)) k) (a_ins a)) new2 of
             None \<Rightarrow> (Some ENOLCK, a_fl a, a_ls a, a_ld a)
           | Some (s, ls) \<Rightarrow> (None, s, ls, a_ld a)))"

section \<open>blocked\<close>

definition conflict :: "xenix \<Rightarrow> flock \<Rightarrow> flock \<Rightarrow> bool" where
  "conflict x ld f \<longleftrightarrow> l_start ld \<le> l_end f \<and> (l_type f = F_WRLCK
     \<or> ((virtual_xout x \<and> isfcntl x \<and> l_type ld = F_UNLCK \<or> pre_sv x) \<and> islocking x)
     \<or> l_type f = F_RDLCK \<and> l_type ld = F_WRLCK)"

text \<open>The two loops, from place \<open>i\<close>; the values are the blocking lock and \<^verbatim>\<open>*insrt\<close>.\<close>

fun blocked2 :: "xenix \<Rightarrow> flock \<Rightarrow> nat \<Rightarrow> filock list \<Rightarrow> nat option" where
  "blocked2 x ld i [] = None"
| "blocked2 x ld i (f # fs) =
    (if l_end ld < l_start (fset f) then None
     else if conflict x ld (fset f) \<and> \<not> SAMEOWNER (fset f) ld then Some i
     else blocked2 x ld (Suc i) fs)"

fun blocked1 :: "xenix \<Rightarrow> flock \<Rightarrow> nat \<Rightarrow> nat option \<Rightarrow> filock list \<Rightarrow> nat option \<times> nat option" where
  "blocked1 x ld i ins [] = (None, ins)"
| "blocked1 x ld i ins (f # fs) =
    (if \<not> l_start (fset f) < l_start ld then (blocked2 x ld i (f # fs), ins)
     else if SAMEOWNER (fset f) ld then
       if l_start ld - 1 \<le> l_end (fset f) then (blocked2 x ld i (f # fs), Some i)
       else blocked1 x ld (Suc i) (Some i) fs
     else if conflict x ld (fset f) then (Some i, Some i)
     else blocked1 x ld (Suc i) (Some i) fs)"

definition blocked :: "xenix \<Rightarrow> filock list \<Rightarrow> flock \<Rightarrow> nat option \<times> nat option" where
  "blocked x ls ld = blocked1 x ld 0 None ls"

section \<open>Deadlock detection\<close>

definition sleeper :: "filock list \<Rightarrow> int \<times> int \<Rightarrow> (int \<times> int) option" where
  "sleeper ss w = map_option (\<lambda>f. (blk_pid f, wakeflg f)) (List.find (\<lambda>f. (l_pid (fset f), l_sysid (fset f)) = w) ss)"

partial_function (option) deadflck_from :: "filock list \<Rightarrow> int \<times> int \<Rightarrow> int \<times> int \<Rightarrow> bool option" where
  "deadflck_from ss blk me =
    (if blk = me then Some True
     else case sleeper ss blk of None \<Rightarrow> Some False | Some b \<Rightarrow> deadflck_from ss b me)"

declare deadflck_from.simps [code]

definition deadflck :: "flst \<Rightarrow> flock \<Rightarrow> flock \<Rightarrow> bool option" where
  "deadflck s f ld = deadflck_from (sleeplcks s) (l_pid f, l_sysid f) (l_pid ld, l_sysid ld)"


section \<open>Requests\<close>

text \<open>\<open>attr\<close> is what \<^verbatim>\<open>VOP_GETATTR\<close> returns: an error or the size of the file.\<close>

definition convoff :: "errno + int \<Rightarrow> flock \<Rightarrow> int \<Rightarrow> int \<Rightarrow> errno option \<times> flock" where
  "convoff attr ld whence offset =
    (case attr of Inl e \<Rightarrow> (Some e, ld)
     | Inr va_size \<Rightarrow>
         if l_whence ld \<noteq> 0 \<and> l_whence ld \<noteq> 1 \<and> l_whence ld \<noteq> 2 then (Some EINVAL, ld)
         else
           let ld = ld\<lparr>l_start := s32 (l_start ld + (if l_whence ld = 1 then offset else if l_whence ld = 2 then va_size else 0))\<rparr> in
           if l_start ld < 0 then (Some EINVAL, ld)
           else if whence \<noteq> 0 \<and> whence \<noteq> 1 \<and> whence \<noteq> 2 then (Some EINVAL, ld)
           else (None, ld\<lparr>l_start := s32 (l_start ld - (if whence = 1 then offset else if whence = 2 then va_size else 0)),
                          l_whence := s16 whence\<rparr>))"

text \<open>\<^verbatim>\<open>reclock\<close> before its loop: an error with the request as it is then, or the request with its end and relative to the start of the file.\<close>

definition reclock_start :: "xenix \<Rightarrow> flock \<Rightarrow> u32 \<Rightarrow> u32 \<Rightarrow> int \<Rightarrow> errno + int \<Rightarrow> (errno \<times> flock) + flock" where
  "reclock_start x ld cmd flag offset attr =
    (if \<not> pre_sv x \<and> (cmd AND SETFLCK \<noteq> 0 \<or> virtual_xout x \<and> isfcntl x \<or> islocking x)
        \<and> (l_type ld = F_RDLCK \<and> flag AND FREAD = 0 \<or> l_type ld = F_WRLCK \<and> flag AND FWRITE = 0)
     then Inl (if virtual_xout x \<or> islocking x then EINVAL else EBADF, ld)
     else (case convoff attr ld 0 offset of
         (Some e, ld) \<Rightarrow> Inl (e, ld)
       | (None, ld) \<Rightarrow>
           if l_len ld < 0 then Inl (EINVAL, ld)
           else let ld = ld\<lparr>l_len := (if l_len ld = 0 then MAXEND else s32 (l_len ld + (l_start ld - 1)))\<rparr> in
             if l_start ld > l_end ld then Inl (EINVAL, ld) else Inr ld))"

text \<open>Removing the sleeping requests that this one covers, one after the other.\<close>

definition slp_match :: "flock \<Rightarrow> filock \<Rightarrow> bool" where
  "slp_match ld f \<longleftrightarrow> l_whence (fset f) = l_whence ld \<and> l_start (fset f) \<ge> l_start ld \<and> l_len (fset f) \<le> l_len ld
     \<and> l_sysid (fset f) = l_sysid ld \<and> l_pid (fset f) = l_pid ld"

definition find_at :: "('a \<Rightarrow> bool) \<Rightarrow> 'a list \<Rightarrow> nat option" where
  "find_at P xs = (let i = length (takeWhile (\<lambda>x. \<not> P x) xs) in if i < length xs then Some i else None)"

definition del_sleeper :: "flst \<Rightarrow> nat \<Rightarrow> flst" where
  "del_sleeper s i = (let (s', ls) = delflck s (sleeplcks s) i in s'\<lparr>sleeplcks := ls\<rparr>)"

lemma del_sleeper_list [simp]: "sleeplcks (del_sleeper s i) = del_at (sleeplcks s) i"
  by (simp add: del_sleeper_def delflck_def Let_def)

function cleanslp :: "flst \<Rightarrow> flock \<Rightarrow> flst" where
  "cleanslp s ld = (case find_at (slp_match ld) (sleeplcks s) of None \<Rightarrow> s | Some i \<Rightarrow> cleanslp (del_sleeper s i) ld)"
  by pat_completeness auto
termination
  by (relation "measure (\<lambda>(s, ld). length (sleeplcks s))") (auto simp: find_at_def Let_def del_at_def split: if_splits)

text \<open>
  One round of the loop of \<^verbatim>\<open>reclock\<close> on file \<open>vp\<close>: it is done, or the process sleeps on a lock with its own
  entry among the sleepers. \<open>new1\<close> and \<open>new2\<close> are the answers of \<^verbatim>\<open>kmem_zalloc\<close>.
\<close>

datatype lockres = LDone "errno option" flock | LSleep nat nat flock | LLoop

definition put_sleeper :: "flst \<Rightarrow> flock \<Rightarrow> flock \<Rightarrow> nat option \<Rightarrow> flst option" where
  "put_sleeper s ld found new =
    (case insflck s (sleeplcks s) ld None new of None \<Rightarrow> None
     | Some (s, ls) \<Rightarrow> Some (s\<lparr>sleeplcks := (hd ls)\<lparr>wakeflg := l_sysid found, blk_pid := l_pid found\<rparr> # tl ls\<rparr>))"

definition reclock_adj :: "flst \<Rightarrow> nat \<Rightarrow> nat option \<Rightarrow> flock \<Rightarrow> nat option \<Rightarrow> nat option \<Rightarrow> errno option \<times> flock \<times> flst" where
  "reclock_adj s vp ins ld new1 new2 =
    (let (e, s, ls, ld) = flckadj s (filocks s vp) ins ld new1 new2 in (e, ld, s\<lparr>filocks := (filocks s)(vp := ls)\<rparr>))"

definition reclock_round :: "xenix \<Rightarrow> flst \<Rightarrow> nat \<Rightarrow> flock \<Rightarrow> u32 \<Rightarrow> nat option \<Rightarrow> nat option \<Rightarrow> lockres \<times> flst" where
  "reclock_round x s vp ld cmd new1 new2 =
    (if l_type ld = F_RDLCK \<or> l_type ld = F_WRLCK then
       (case blocked x (filocks s vp) ld of
          (None, ins) \<Rightarrow>
            let (e, ld, s) = (if cmd AND SETFLCK \<noteq> 0 then reclock_adj s vp ins ld new1 new2 else (None, ld\<lparr>l_type := F_UNLCK\<rparr>, s)) in
            (LDone e ld, if cmd AND (RCMDLCK OR SLPFLCK) = RCMDLCK OR SLPFLCK then cleanslp s ld else s)
        | (Some j, _) \<Rightarrow>
            let found = filocks s vp ! j in
            if cmd AND SLPFLCK \<noteq> 0 then
              (case deadflck s (fset found) ld of
                 None \<Rightarrow> (LLoop, s)
               | Some True \<Rightarrow> (LDone (Some EDEADLK) ld, s)
               | Some False \<Rightarrow>
                   if cmd AND RCMDLCK \<noteq> 0 then
                     if \<exists>f\<in>set (sleeplcks s). l_type (fset f) = l_type ld \<and> l_whence (fset f) = l_whence ld \<and> l_start (fset f) = l_start ld
                          \<and> l_len (fset f) = l_len ld \<and> l_sysid (fset f) = l_sysid ld \<and> l_pid (fset f) = l_pid ld
                          \<and> wakeflg f = l_sysid (fset found) \<and> blk_pid f = l_pid (fset found)
                     then (LDone (Some EINTR) ld, s)
                     else (case put_sleeper s ld (fset found) new1 of
                         None \<Rightarrow> (LDone (Some ENOLCK) ld, s) | Some s \<Rightarrow> (LDone (Some EINTR) ld, s))
                   else (case put_sleeper s ld (fset found) new1 of
                       None \<Rightarrow> (LDone (Some ENOLCK) ld, s)
                     | Some s \<Rightarrow> (LSleep (fl_addr found) (the new1) ld,
                         s\<lparr>filocks := (filocks s)(vp := (filocks s vp)[j := found\<lparr>wakeflg := wakeflg found + 1\<rparr>])\<rparr>)))
            else if cmd AND SETFLCK \<noteq> 0 then (LDone (Some EAGAIN) ld, s)
            else (LDone None (fset found), s))
     else if l_type ld = F_UNLCK then
       let (e, ld, s) =
           (if cmd AND SETFLCK \<noteq> 0 then reclock_adj s vp (if filocks s vp = [] then None else Some 0) ld new1 new2
            else if virtual_xout x \<and> isfcntl x
              then (case blocked x (filocks s vp) ld of (Some j, _) \<Rightarrow> (None, fset (filocks s vp ! j), s) | (None, _) \<Rightarrow> (None, ld, s))
            else (None, ld, s)) in
       (LDone e ld, if cmd AND RCMDLCK \<noteq> 0 then cleanslp s ld else s)
     else (LDone (Some EINVAL) ld, s))"

text \<open>After the sleep: the entry among the sleepers is removed; without a signal the loop goes round again.\<close>

definition reclock_woken :: "flst \<Rightarrow> nat \<Rightarrow> flst" where
  "reclock_woken s sf =
    (case find_at (\<lambda>f. fl_addr f = sf) (sleeplcks s) of None \<Rightarrow> s
     | Some i \<Rightarrow> del_sleeper (s\<lparr>sleeplcks := (sleeplcks s)[i := (sleeplcks s ! i)\<lparr>wakeflg := 0, blk_pid := 0\<rparr>]\<rparr>) i)"

text \<open>After the loop the request is given its length back; the result of the conversion is not looked at.\<close>

definition reclock_end :: "errno + int \<Rightarrow> flock \<Rightarrow> int \<Rightarrow> int \<Rightarrow> flock" where
  "reclock_end attr ld whence offset =
    snd (convoff attr (ld\<lparr>l_len := (if l_end ld = MAXEND then 0 else s32 (l_len ld - (l_start ld - 1)))\<rparr>) whence offset)"

text \<open>A whole call that does not sleep.\<close>

definition reclock :: "xenix \<Rightarrow> flst \<Rightarrow> nat \<Rightarrow> flock \<Rightarrow> u32 \<Rightarrow> u32 \<Rightarrow> int \<Rightarrow> errno + int \<Rightarrow> errno + int \<Rightarrow> nat option \<Rightarrow> nat option \<Rightarrow> lockres \<times> flst" where
  "reclock x s vp ld cmd flag offset attr1 attr2 new1 new2 =
    (case reclock_start x ld cmd flag offset attr1 of
       Inl (e, ld) \<Rightarrow> (LDone (Some e) ld, s)
     | Inr ld1 \<Rightarrow>
         (case reclock_round x s vp ld1 cmd new1 new2 of
            (LDone e ld2, s) \<Rightarrow> (LDone e (reclock_end attr2 ld2 (l_whence ld) offset), s)
          | r \<Rightarrow> r))"

text \<open>\<^verbatim>\<open>chklock\<close>: the errno it returns when the call of \<^verbatim>\<open>reclock\<close> does not sleep.\<close>

definition chklock_req :: "xenix \<Rightarrow> u32 \<Rightarrow> int \<Rightarrow> int \<Rightarrow> int \<Rightarrow> int \<Rightarrow> flock" where
  "chklock_req x iomode offset len epid sysid =
    \<lparr>l_type = (if iomode AND FWRITE \<noteq> 0 then F_WRLCK else F_RDLCK), l_whence = 0, l_start = offset,
     l_len = (if len = 0 \<and> (virtual_xout x \<or> islocking x) then 1 else len), l_sysid = sysid, l_pid = epid\<rparr>"

definition chklock :: "xenix \<Rightarrow> flst \<Rightarrow> nat \<Rightarrow> u32 \<Rightarrow> int \<Rightarrow> int \<Rightarrow> u32 \<Rightarrow> int \<Rightarrow> int \<Rightarrow> errno + int \<Rightarrow> errno + int \<Rightarrow> nat option \<Rightarrow> (errno option + lockres) \<times> flst" where
  "chklock x s vp iomode offset len fmode epid sysid attr1 attr2 new1 =
    (let cmd = (if fmode AND (0x04 OR 0x80) \<noteq> 0 then INOFLCK else INOFLCK OR SLPFLCK) in
     case reclock x s vp (chklock_req x iomode offset len epid sysid) cmd 0 offset attr1 attr2 new1 None of
       (LDone i bf, s) \<Rightarrow>
         (let error = (if i \<noteq> None then i else if l_type bf \<noteq> F_UNLCK then Some EAGAIN else None) in
          (Inl (if pre_sv x \<and> error = Some EAGAIN then Some EACCES else error), s))
     | (r, s) \<Rightarrow> (Inr r, s))"

text \<open>\<^verbatim>\<open>cleanlocks\<close>, from place \<open>i\<close> on; \<^verbatim>\<open>IGN_PID\<close> is -1.\<close>

function cleanlocks_from :: "flst \<Rightarrow> filock list \<Rightarrow> nat \<Rightarrow> int \<Rightarrow> int \<Rightarrow> flst \<times> filock list" where
  "cleanlocks_from s ls i pid sysid =
    (if i < length ls then
       if (l_pid (fset (ls ! i)) = pid \<or> pid = - 1) \<and> l_sysid (fset (ls ! i)) = sysid
       then (let (s, ls) = delflck s ls i in cleanlocks_from s ls i pid sysid)
       else cleanlocks_from s ls (Suc i) pid sysid
     else (s, ls))"
  by pat_completeness auto
termination
  by (relation "measure (\<lambda>(s, ls, i, pid, sysid). length ls - i)") (auto simp: delflck_def Let_def del_at_def)

definition cleanlocks :: "flst \<Rightarrow> nat \<Rightarrow> int \<Rightarrow> int \<Rightarrow> flst" where
  "cleanlocks s vp pid sysid = (let (s, ls) = cleanlocks_from s (filocks s vp) 0 pid sysid in s\<lparr>filocks := (filocks s)(vp := ls)\<rparr>)"

end
