(* ===== verification/KFlockAdj.thy ===== *)
theory KFlockAdj
  imports KFlock
begin

text \<open>
  What \<^verbatim>\<open>flckadj\<close> of \<^verbatim>\<open>uts/i386/os/flock.c\<close> does to the locked bytes. A list of locks stands for the predicate
  \<open>locked\<close>: which process has which type of lock on which byte. The scan keeps \<open>adj_inv\<close>: what the list and the
  grown request together stand for does not change while locks are absorbed, shortened and split.
\<close>

section \<open>Which bytes are locked\<close>

abbreviation st :: "filock \<Rightarrow> int" where "st f \<equiv> l_start (fset f)"
abbreviation en :: "filock \<Rightarrow> int" where "en f \<equiv> l_end (fset f)"

definition fowner :: "flock \<Rightarrow> int \<times> int" where
  "fowner d = (l_pid d, l_sysid d)"

lemma same_owner: "SAMEOWNER a b \<longleftrightarrow> fowner a = fowner b"
  by (auto simp: SAMEOWNER_def fowner_def)

text \<open>\<open>locked ls w t x\<close>: process \<open>w\<close> has a lock of type \<open>t\<close> on byte \<open>x\<close>.\<close>

definition covers :: "filock \<Rightarrow> int \<times> int \<Rightarrow> int \<Rightarrow> int \<Rightarrow> bool" where
  "covers f w t x \<longleftrightarrow> fowner (fset f) = w \<and> l_type (fset f) = t \<and> st f \<le> x \<and> x \<le> en f"

definition locked :: "filock list \<Rightarrow> int \<times> int \<Rightarrow> int \<Rightarrow> int \<Rightarrow> bool" where
  "locked ls w t x \<longleftrightarrow> (\<exists>f\<in>set ls. covers f w t x)"

lemma locked_simps [simp]:
  "locked [] w t x = False" "locked (f # ls) w t x \<longleftrightarrow> covers f w t x \<or> locked ls w t x"
  "locked (xs @ ys) w t x \<longleftrightarrow> locked xs w t x \<or> locked ys w t x"
  by (auto simp: locked_def)

text \<open>The list is in order of the starts, and the locks of one process do not overlap.\<close>

definition ahead :: "filock \<Rightarrow> filock \<Rightarrow> bool" where
  "ahead f g \<longleftrightarrow> st f \<le> st g \<and> (fowner (fset f) = fowner (fset g) \<longrightarrow> en f < st g)"

definition fl_ok :: "flock \<Rightarrow> bool" where
  "fl_ok d \<longleftrightarrow> 0 \<le> l_start d \<and> l_start d \<le> l_end d \<and> l_end d \<le> MAXEND \<and> (l_type d = F_RDLCK \<or> l_type d = F_WRLCK)"

definition fl_wf :: "filock list \<Rightarrow> bool" where
  "fl_wf ls \<longleftrightarrow> sorted_wrt ahead ls \<and> (\<forall>f\<in>set ls. fl_ok (fset f))"

lemma fl_wf_parts: "fl_wf (xs @ f # ys) \<longleftrightarrow> fl_wf (xs @ ys) \<and> fl_ok (fset f) \<and> (\<forall>g\<in>set xs. ahead g f) \<and> (\<forall>g\<in>set ys. ahead f g)"
  by (auto simp: fl_wf_def sorted_wrt_append)

lemma locked_unique:
  assumes "fl_wf ls" "f \<in> set ls" "st f \<le> x" "x \<le> en f"
  shows "locked ls (fowner (fset f)) t x \<longleftrightarrow> t = l_type (fset f)"
proof -
  obtain xs ys where ls: "ls = xs @ f # ys" using split_list [OF assms(2)] by blast
  with assms(1) have "\<forall>g\<in>set xs. ahead g f" "\<forall>g\<in>set ys. ahead f g" by (simp_all add: fl_wf_parts)
  then have "\<not> covers g (fowner (fset f)) t x" if "g \<in> set xs \<union> set ys" for g
    using that assms(3,4) by (fastforce simp: covers_def ahead_def)
  then have "\<not> locked xs (fowner (fset f)) t x" "\<not> locked ys (fowner (fset f)) t x" by (auto simp: locked_def)
  then show ?thesis using assms(3,4) by (auto simp: ls covers_def)
qed

lemma fl_wf_insert:
  assumes "fl_wf (xs @ ys)" "fl_ok (fset n)" "\<And>g. g \<in> set xs \<Longrightarrow> st g \<le> st n" "\<And>g. g \<in> set ys \<Longrightarrow> st n \<le> st g"
    "\<And>g. g \<in> set xs \<union> set ys \<Longrightarrow> fowner (fset g) = fowner (fset n) \<Longrightarrow> en g < st n \<or> en n < st g"
  shows "fl_wf (xs @ n # ys)"
proof -
  have ok: "fl_ok (fset g)" if "g \<in> set xs \<union> set ys" for g using assms(1) that by (auto simp: fl_wf_def)
  have "ahead g n" if "g \<in> set xs" for g
    using assms(2,3) assms(5) [of g] that by (fastforce simp: ahead_def fl_ok_def)
  moreover have "ahead n g" if "g \<in> set ys" for g
    using assms(2,4) assms(5) [of g] ok [of g] that by (fastforce simp: ahead_def fl_ok_def)
  ultimately show ?thesis using assms(1,2) by (simp add: fl_wf_parts)
qed

section \<open>Where a lock goes\<close>

declare adv.simps [simp del]

lemma adv_spec:
  assumes "sorted_wrt ahead ls" "k < length ls" "st (ls ! k) \<le> x"
  shows "\<exists>p q. drop (Suc k) ls = p @ q \<and> adv ls k x k = k + length p \<and> (\<forall>g\<in>set p. st g < x) \<and> (\<forall>g\<in>set q. x \<le> st g)"
  using assms(2,3)
proof (induction "length ls - k" arbitrary: k)
  case 0
  then show ?case by simp
next
  case (Suc n)
  have srt: "st (ls ! i) \<le> st (ls ! j)" if "i < j" "j < length ls" for i j
    using assms(1) that by (auto simp: sorted_wrt_iff_nth_less ahead_def)
  show ?case
  proof (cases "st (ls ! k) < x")
    case False
    then have "adv ls k x k = k" by (subst adv.simps) simp
    moreover have "x \<le> st g" if "g \<in> set (drop (Suc k) ls)" for g
    proof -
      from that obtain j where "j < length (drop (Suc k) ls)" "g = drop (Suc k) ls ! j" by (auto simp: in_set_conv_nth)
      then show ?thesis using srt [of k "Suc k + j"] False by (simp add: less_diff_conv add.commute)
    qed
    ultimately show ?thesis by (intro exI [of _ "[]"] exI [of _ "drop (Suc k) ls"]) simp
  next
    case True
    then have step: "adv ls k x k = adv ls (Suc k) x k" using Suc.prems(1) by (subst adv.simps) simp
    show ?thesis
    proof (cases "Suc k < length ls \<and> st (ls ! Suc k) < x")
      case go: True
      then have "\<exists>p q. drop (Suc (Suc k)) ls = p @ q \<and> adv ls (Suc k) x (Suc k) = Suc k + length p
          \<and> (\<forall>g\<in>set p. st g < x) \<and> (\<forall>g\<in>set q. x \<le> st g)"
        using Suc.hyps(2) by (intro Suc.hyps(1)) auto
      then obtain p q where pq: "drop (Suc (Suc k)) ls = p @ q" "adv ls (Suc k) x (Suc k) = Suc k + length p"
        "\<forall>g\<in>set p. st g < x" "\<forall>g\<in>set q. x \<le> st g" by blast
      have "drop (Suc k) ls = (ls ! Suc k # p) @ q" using pq(1) go by (metis Cons_nth_drop_Suc append_Cons)
      moreover have "adv ls (Suc k) x k = adv ls (Suc k) x (Suc k)" using go by (subst (1 2) adv.simps) simp
      ultimately show ?thesis using pq(2-4) step go by (intro exI [of _ "ls ! Suc k # p"] exI [of _ q]) simp
    next
      case False
      then have "adv ls (Suc k) x k = k" by (subst adv.simps) auto
      moreover have "x \<le> st g" if "g \<in> set (drop (Suc k) ls)" for g
      proof -
        from that obtain j where j: "j < length (drop (Suc k) ls)" "g = drop (Suc k) ls ! j" by (auto simp: in_set_conv_nth)
        then have "x \<le> st (ls ! Suc k)" using False by (cases "Suc k < length ls") auto
        then show ?thesis using srt [of "Suc k" "Suc k + j"] j by (cases j) (simp_all add: less_diff_conv add.commute)
      qed
      ultimately show ?thesis using step by (intro exI [of _ "[]"] exI [of _ "drop (Suc k) ls"]) simp
    qed
  qed
qed

lemma ins_adv:
  assumes "sorted_wrt ahead ls" "k < length ls" "st (ls ! k) \<le> x"
  shows "\<exists>p q. ls = take (Suc k) ls @ p @ q \<and> ins_after ls (Some (adv ls k x k)) n = take (Suc k) ls @ p @ n # q
    \<and> (\<forall>g\<in>set p. st g < x) \<and> (\<forall>g\<in>set q. x \<le> st g)"
proof -
  from adv_spec [OF assms] obtain p q where pq: "drop (Suc k) ls = p @ q" "adv ls k x k = k + length p" "\<forall>g\<in>set p. st g < x" "\<forall>g\<in>set q. x \<le> st g"
    by blast
  have ls: "ls = take (Suc k) ls @ p @ q" using pq(1) by (metis append_take_drop_id)
  have "take (Suc (k + length p)) ls = take (Suc k) ls @ p" "drop (Suc (k + length p)) ls = q"
    using assms(2) by (subst ls; simp)+
  then show ?thesis using ls pq by (intro exI [of _ p] exI [of _ q]) (simp add: ins_after_def)
qed

section \<open>What a request does to the locked bytes\<close>

text \<open>The bytes of the request get its type, and no lock if it is an unlock; every other byte keeps its locks.\<close>

definition relocked :: "filock list \<Rightarrow> flock \<Rightarrow> int \<times> int \<Rightarrow> int \<Rightarrow> int \<Rightarrow> bool" where
  "relocked ls d w t x \<longleftrightarrow>
    (if w = fowner d \<and> l_start d \<le> x \<and> x \<le> l_end d then t = l_type d \<and> t \<noteq> F_UNLCK else locked ls w t x)"

definition req_ok :: "flock \<Rightarrow> bool" where
  "req_ok d \<longleftrightarrow> 0 \<le> l_start d \<and> l_start d \<le> l_end d \<and> l_end d \<le> MAXEND
     \<and> (l_type d = F_RDLCK \<or> l_type d = F_WRLCK \<or> l_type d = F_UNLCK)"

lemma fl_ok_req: "fl_ok d \<longleftrightarrow> req_ok d \<and> l_type d \<noteq> F_UNLCK"
  by (auto simp: fl_ok_def req_ok_def)

lemma relocked_cong:
  assumes "\<And>w t x. \<not> (w = fowner d \<and> l_start d \<le> x \<and> x \<le> l_end d) \<Longrightarrow> locked ls' w t x = locked ls w t x"
  shows "relocked ls' d = relocked ls d"
  using assms by (auto simp: relocked_def fun_eq_iff)

text \<open>A lock that lies within the request, or has its type and adjoins or overlaps it, goes into it.\<close>

lemma relocked_absorb:
  assumes "fl_wf (xs @ f # ys)" "fowner (fset f) = fowner d" "fowner d' = fowner d" "l_type d' = l_type d"
    "\<And>x. l_start d' \<le> x \<and> x \<le> l_end d' \<longleftrightarrow> l_start d \<le> x \<and> x \<le> l_end d \<or> st f \<le> x \<and> x \<le> en f"
    "l_type (fset f) = l_type d \<or> l_start d \<le> st f \<and> en f \<le> l_end d"
  shows "relocked (xs @ ys) d' = relocked (xs @ f # ys) d"
proof (intro ext)
  fix w t x
  have ty: "l_type (fset f) \<noteq> F_UNLCK" using assms(1) by (auto simp: fl_wf_parts fl_ok_def)
  show "relocked (xs @ ys) d' w t x = relocked (xs @ f # ys) d w t x"
  proof (cases "w = fowner d \<and> st f \<le> x \<and> x \<le> en f")
    case True
    then have "locked (xs @ f # ys) w t x \<longleftrightarrow> t = l_type (fset f)"
      using locked_unique [OF assms(1), of f x t] assms(2) by simp
    then show ?thesis using True assms(3-6) ty by (auto simp: relocked_def)
  next
    case False
    then have "covers f w t x = False" using assms(2) by (auto simp: covers_def)
    then show ?thesis using False assms(3-5) by (auto simp: relocked_def)
  qed
qed

text \<open>A request within a lock of its type changes nothing, nor does an unlock where nothing is locked.\<close>

lemma relocked_inside:
  assumes "fl_wf ls" "f \<in> set ls" "fowner (fset f) = fowner d" "l_type (fset f) = l_type d" "st f \<le> l_start d" "l_end d \<le> en f"
  shows "relocked ls d = locked ls"
proof (intro ext)
  fix w t x
  have "l_type d \<noteq> F_UNLCK" using assms(1,2,4) by (auto simp: fl_wf_def fl_ok_def)
  then show "relocked ls d w t x = locked ls w t x"
    using locked_unique [OF assms(1,2), of x t] assms(3-6) by (auto simp: relocked_def)
qed

definition clear :: "filock list \<Rightarrow> flock \<Rightarrow> bool" where
  "clear ls d \<longleftrightarrow> (\<forall>g\<in>set ls. fowner (fset g) = fowner d \<longrightarrow> en g < l_start d \<or> l_end d < st g)"

lemma clear_unlocked: "clear ls d \<Longrightarrow> l_start d \<le> x \<Longrightarrow> x \<le> l_end d \<Longrightarrow> \<not> locked ls (fowner d) t x"
  by (fastforce simp: clear_def locked_def covers_def)

lemma relocked_clear:
  assumes "clear ls d" "l_type d = F_UNLCK"
  shows "relocked ls d = locked ls"
  using clear_unlocked [OF assms(1)] assms(2) by (auto simp: relocked_def fun_eq_iff)

lemma relocked_insert:
  assumes "clear (xs @ ys) (fset n)" "l_type (fset n) \<noteq> F_UNLCK"
  shows "locked (xs @ n # ys) = relocked (xs @ ys) (fset n)"
proof (intro ext)
  fix w t x
  show "locked (xs @ n # ys) w t x = relocked (xs @ ys) (fset n) w t x"
    using clear_unlocked [OF assms(1), of x t] assms(2) by (auto simp: relocked_def covers_def)
qed

text \<open>Shortening a lock to what lies before the request.\<close>

lemma fl_wf_cut:
  assumes "fl_wf (xs @ f # ys)" "st f \<le> e" "e \<le> en f"
    "st f' = st f" "en f' = e" "fowner (fset f') = fowner (fset f)" "l_type (fset f') = l_type (fset f)"
  shows "fl_wf (xs @ f' # ys)"
  using assms by (fastforce simp: fl_wf_parts ahead_def fl_ok_def)

lemma covers_cut:
  assumes "st f' = st f" "en f' = e" "fowner (fset f') = fowner (fset f)" "l_type (fset f') = l_type (fset f)" "e \<le> en f"
  shows "covers f' w t x \<longleftrightarrow> covers f w t x \<and> x \<le> e"
  using assms by (auto simp: covers_def)

section \<open>The invariant of the scan\<close>

text \<open>
  \<open>adj_rel\<close>: what the adjusted list \<open>ls\<close> and the grown request \<open>d\<close> promise is what the list \<open>ls0\<close> and the
  request \<open>d0\<close> at the start of the call promised, and no byte is locked that was not.
\<close>

definition adj_rel :: "filock list \<Rightarrow> flock \<Rightarrow> filock list \<Rightarrow> flock \<Rightarrow> bool" where
  "adj_rel ls0 d0 ls d \<longleftrightarrow> fl_wf ls \<and> req_ok d \<and> fowner d = fowner d0 \<and> l_type d = l_type d0
     \<and> relocked ls d = relocked ls0 d0 \<and> (\<forall>w t x. locked ls w t x \<longrightarrow> locked ls0 w t x)"

definition ins_ok :: "filock list \<Rightarrow> nat option \<Rightarrow> nat \<Rightarrow> flock \<Rightarrow> bool" where
  "ins_ok ls p i d \<longleftrightarrow> l_type d = F_UNLCK
     \<or> (case p of None \<Rightarrow> \<forall>g\<in>set ls. l_start d \<le> st g | Some k \<Rightarrow> k \<le> i \<and> k < length ls \<and> st (ls ! k) \<le> l_start d)"

definition past :: "filock list \<Rightarrow> flock \<Rightarrow> bool" where
  "past xs d \<longleftrightarrow> (\<forall>g\<in>set xs. fowner (fset g) = fowner d \<longrightarrow> en g < l_start d)"

definition adj_inv :: "filock list \<Rightarrow> flock \<Rightarrow> adj \<Rightarrow> nat \<Rightarrow> bool" where
  "adj_inv ls0 d0 a i \<longleftrightarrow> adj_rel ls0 d0 (a_ls a) (a_ld a) \<and> i \<le> length (a_ls a)
     \<and> past (take i (a_ls a)) (a_ld a) \<and> ins_ok (a_ls a) (a_ins a) i (a_ld a)"

definition adj_stop :: "filock list \<Rightarrow> flock \<Rightarrow> adj \<Rightarrow> bool" where
  "adj_stop ls0 d0 a \<longleftrightarrow> adj_rel ls0 d0 (a_ls a) (a_ld a) \<and> clear (a_ls a) (a_ld a) \<and> ins_ok (a_ls a) (a_ins a) (length (a_ls a)) (a_ld a)"

fun adj_post :: "filock list \<Rightarrow> flock \<Rightarrow> adjres \<Rightarrow> bool" where
  "adj_post ls0 d0 (ANext b j) = adj_inv ls0 d0 b j"
| "adj_post ls0 d0 (AStop b) = adj_stop ls0 d0 b"
| "adj_post ls0 d0 (ARet None b) \<longleftrightarrow> fl_wf (a_ls b) \<and> locked (a_ls b) = relocked ls0 d0"
| "adj_post ls0 d0 (ARet (Some e) b) \<longleftrightarrow> e = ENOLCK \<and> adj_rel ls0 d0 (a_ls b) (a_ld b)"

lemma regflck_cases:
  assumes "l_start d \<le> l_end d" "l_start f \<le> l_end f"
  obtains
    (before) "regflck d f = (S_BEFORE, E_BEFORE)" "l_end d < l_start f"
  | (adjoins) "regflck d f = (S_BEFORE, E_START)" "l_end d + 1 = l_start f"
  | (head) "regflck d f = (S_BEFORE, E_MIDDLE)" "l_start d < l_start f" "l_start f \<le> l_end d" "l_end d < l_end f"
  | (within) "regflck d f = (S_BEFORE, E_END)" "l_start d < l_start f" "l_end d = l_end f"
  | (over) "regflck d f = (S_BEFORE, E_AFTER)" "l_start d < l_start f" "l_end f < l_end d"
  | (shead) "regflck d f = (S_START, E_MIDDLE)" "l_start d = l_start f" "l_end d < l_end f"
  | (equal) "regflck d f = (S_START, E_END)" "l_start d = l_start f" "l_end d = l_end f"
  | (sover) "regflck d f = (S_START, E_AFTER)" "l_start d = l_start f" "l_end f < l_end d"
  | (mid) "regflck d f = (S_MIDDLE, E_MIDDLE)" "l_start f < l_start d" "l_end d < l_end f"
  | (mend) "regflck d f = (S_MIDDLE, E_END)" "l_start f < l_start d" "l_end d = l_end f"
  | (mover) "regflck d f = (S_MIDDLE, E_AFTER)" "l_start f < l_start d" "l_start d \<le> l_end f" "l_end f < l_end d"
  | (follows) "regflck d f = (S_END, E_AFTER)" "l_end f + 1 = l_start d"
  | (after) "regflck d f = (S_AFTER, E_AFTER)" "l_end f < l_start d"
proof (cases "l_start d" "l_start f" rule: linorder_cases)
  case less
  then show ?thesis using assms before adjoins head within over
    by (cases "l_end d" "l_end f" rule: linorder_cases; cases "l_end d + 1" "l_start f" rule: linorder_cases) (simp_all add: regflck_def Let_def)
next
  case equal
  then show ?thesis using assms shead that(7) sover
    by (cases "l_end d" "l_end f" rule: linorder_cases) (simp_all add: regflck_def Let_def)
next
  case greater
  then show ?thesis using assms mid mend mover follows after
    by (cases "l_end d" "l_end f" rule: linorder_cases; cases "l_end f + 1" "l_start d" rule: linorder_cases) (simp_all add: regflck_def Let_def)
qed

subsection \<open>Deleting a lock\<close>

lemma adj_rel_del:
  assumes "adj_rel ls0 d0 (xs @ f # ys) d" "fowner (fset f) = fowner d" "fowner d' = fowner d" "l_type d' = l_type d" "req_ok d'"
    "\<And>x. l_start d' \<le> x \<and> x \<le> l_end d' \<longleftrightarrow> l_start d \<le> x \<and> x \<le> l_end d \<or> st f \<le> x \<and> x \<le> en f"
    "l_type (fset f) = l_type d \<or> l_start d \<le> st f \<and> en f \<le> l_end d"
  shows "adj_rel ls0 d0 (xs @ ys) d'"
proof -
  have wf: "fl_wf (xs @ f # ys)" using assms(1) by (simp add: adj_rel_def)
  then have "relocked (xs @ ys) d' = relocked (xs @ f # ys) d" by (rule relocked_absorb [OF _ assms(2-4,6,7)])
  then show ?thesis using assms(1,3,4,5) wf by (auto simp: adj_rel_def fl_wf_parts)
qed

lemma clear_rest:
  assumes "fl_wf (xs @ f # ys)" "fowner (fset f) = fowner d" "past xs d" "l_end d \<le> en f"
  shows "clear (xs @ ys) d"
  using assms by (fastforce simp: clear_def past_def fl_wf_parts ahead_def)

lemma past_own:
  assumes "fl_wf (xs @ f # ys)" "fowner (fset f) = fowner d" "l_start d = st f"
  shows "past xs d"
  using assms by (fastforce simp: past_def fl_wf_parts ahead_def)

lemma ins_ok_keep:
  assumes "ins_ok (xs @ f # ys) p (length xs) d" "l_start d < st f" "l_start d' = l_start d" "l_type d' = l_type d"
    "\<And>g. g \<in> set zs \<Longrightarrow> l_start d \<le> st g"
  shows "ins_ok (xs @ zs) p (length xs) d'"
  using assms by (auto simp: ins_ok_def nth_append split: option.splits if_splits)

lemma ins_ok_prev:
  assumes "\<And>g. g \<in> set xs \<Longrightarrow> st g \<le> l_start d" "\<And>g. g \<in> set ys \<Longrightarrow> l_start d \<le> st g"
  shows "ins_ok (xs @ ys) (if length xs = 0 then None else Some (length xs - 1)) (length xs) d"
  using assms by (cases xs rule: rev_cases) (auto simp: ins_ok_def nth_append)

lemma ins_ok_mono: "ins_ok ls p i d \<Longrightarrow> i \<le> j \<Longrightarrow> ins_ok ls p j d"
  by (auto simp: ins_ok_def split: option.splits)

subsection \<open>Shortening and splitting a lock\<close>

lemma adj_cut_list:
  assumes "a_ls a = xs @ f # ys"
  obtains f' where "a_ls (adj_cut a (length xs)) = xs @ f' # ys" "st f' = st f" "en f' = l_start (a_ld a) - 1"
    "fowner (fset f') = fowner (fset f)" "l_type (fset f') = l_type (fset f)"
proof
  let ?f = "snd (WAKEUP (a_fl a) (f\<lparr>fset := (fset f)\<lparr>l_len := l_start (a_ld a) - 1\<rparr>\<rparr>))"
  show "a_ls (adj_cut a (length xs)) = xs @ ?f # ys"
    using assms by (simp add: adj_cut_def Let_def case_prod_unfold)
  show "st ?f = st f" "en ?f = l_start (a_ld a) - 1" "fowner (fset ?f) = fowner (fset f)" "l_type (fset ?f) = l_type (fset f)"
    by (simp_all add: WAKEUP_def fowner_def)
qed

lemma adj_rel_cut:
  assumes "adj_rel ls0 d0 (xs @ f # ys) d" "fowner (fset f) = fowner d" "st f < l_start d" "l_start d \<le> en f" "en f \<le> l_end d"
    and c: "st f' = st f" "en f' = l_start d - 1" "fowner (fset f') = fowner (fset f)" "l_type (fset f') = l_type (fset f)"
  shows "adj_rel ls0 d0 (xs @ f' # ys) d"
proof -
  have cv: "covers f' w t x \<longleftrightarrow> covers f w t x \<and> x \<le> l_start d - 1" for w t x
    by (rule covers_cut [OF c]) (use assms(4) in simp)
  have "fl_wf (xs @ f' # ys)"
    using assms(1,3,4) by (intro fl_wf_cut [OF _ _ _ c]) (auto simp: adj_rel_def)
  moreover have "relocked (xs @ f' # ys) d = relocked (xs @ f # ys) d"
  proof (rule relocked_cong)
    show "locked (xs @ f' # ys) w t x = locked (xs @ f # ys) w t x" if "\<not> (w = fowner d \<and> l_start d \<le> x \<and> x \<le> l_end d)" for w t x
    proof -
      have "covers f w t x \<longrightarrow> x \<le> l_start d - 1" using that assms(2,5) by (auto simp: covers_def)
      then show ?thesis using cv [of w t x] by auto
    qed
  qed
  ultimately show ?thesis using assms(1) by (auto simp: adj_rel_def cv)
qed

lemma adj_split_list:
  assumes "a_ls a = xs @ f # ys" "fl_wf (a_ls a)" "st f \<le> l_end (a_ld a)" "adj_split a (length xs) new = Some b"
  obtains p q n where "ys = p @ q" "a_ls b = xs @ f # p @ n # q" "a_ins b = a_ins a" "a_ld b = a_ld a"
    "st n = l_end (a_ld a) + 1" "en n = en f" "fowner (fset n) = fowner (fset f)" "l_type (fset n) = l_type (fset f)"
    "\<And>g. g \<in> set p \<Longrightarrow> st g < st n" "\<And>g. g \<in> set q \<Longrightarrow> st n \<le> st g"
proof -
  let ?x = "l_end (a_ld a) + 1" and ?k = "length xs"
  from assms(4,1) obtain s' ad where b: "b = a\<lparr>a_fl := s', a_ls := ins_after (a_ls a) (Some (adv (a_ls a) ?k ?x ?k))
      \<lparr>fset = (fset f)\<lparr>l_start := ?x\<rparr>, wakeflg = 0, blk_pid = 0, fl_addr = ad\<rparr>\<rparr>"
    by (auto simp: adj_split_def insflck_def Let_def split: option.splits if_splits)
  let ?n = "\<lparr>fset = (fset f)\<lparr>l_start := ?x\<rparr>, wakeflg = 0, blk_pid = 0, fl_addr = ad\<rparr>"
  have "sorted_wrt ahead (a_ls a)" "?k < length (a_ls a)" "st (a_ls a ! ?k) \<le> ?x"
    using assms(1-3) by (simp_all add: fl_wf_def)
  from ins_adv [OF this, of ?n] obtain p q where pq: "a_ls a = take (Suc ?k) (a_ls a) @ p @ q"
    "ins_after (a_ls a) (Some (adv (a_ls a) ?k ?x ?k)) ?n = take (Suc ?k) (a_ls a) @ p @ ?n # q"
    "\<forall>g\<in>set p. st g < ?x" "\<forall>g\<in>set q. ?x \<le> st g" by blast
  show ?thesis
  proof (rule that [of p q ?n])
    show "ys = p @ q" using pq(1) assms(1) by simp
    show "a_ls b = xs @ f # p @ ?n # q" using pq(2) assms(1) by (simp add: b)
  qed (use pq(3,4) in \<open>auto simp: b fowner_def\<close>)
qed

lemma adj_rel_split:
  assumes r: "adj_rel ls0 d0 (xs @ f # p @ q) d" and "fowner (fset f) = fowner d" "st f \<le> l_end d" "l_end d < en f" "past xs d"
    and n: "st n = l_end d + 1" "en n = en f" "fowner (fset n) = fowner (fset f)" "l_type (fset n) = l_type (fset f)"
    and pq: "\<And>g. g \<in> set p \<Longrightarrow> st g < st n" "\<And>g. g \<in> set q \<Longrightarrow> st n \<le> st g"
    and R: "fl_wf (xs @ R @ p @ q)" "\<And>g. g \<in> set R \<Longrightarrow> st g \<le> st f \<and> en g < l_start d"
      "\<And>w t x. locked R w t x \<longleftrightarrow> covers f w t x \<and> x < l_start d"
  shows "adj_rel ls0 d0 (xs @ R @ p @ n # q) d \<and> clear (xs @ R @ p @ n # q) d"
proof -
  from r have wf: "fl_wf (xs @ f # p @ q)" and d: "l_start d \<le> l_end d" by (auto simp: adj_rel_def req_ok_def)
  then have f: "fl_ok (fset f)" "\<And>g. g \<in> set xs \<Longrightarrow> ahead g f" "\<And>g. g \<in> set (p @ q) \<Longrightarrow> ahead f g"
    by (simp_all add: fl_wf_parts)
  have "fl_wf ((xs @ R @ p) @ n # q)"
  proof (rule fl_wf_insert)
    show "fl_ok (fset n)" using f(1) assms(3,4) n by (auto simp: fl_ok_def)
    show "en g < st n \<or> en n < st g" if "g \<in> set (xs @ R @ p) \<union> set q" "fowner (fset g) = fowner (fset n)" for g
      using that f(2) [of g] f(3) [of g] R(2) [of g] n d assms(3) by (auto simp: ahead_def)
    show "st g \<le> st n" if "g \<in> set (xs @ R @ p)" for g
      using that f(2) [of g] R(2) [of g] pq(1) [of g] n assms(3) by (auto simp: ahead_def)
  qed (use R pq in simp_all)
  moreover have "covers n w t x \<longleftrightarrow> covers f w t x \<and> l_end d < x" for w t x
    using n assms(3) by (auto simp: covers_def)
  then have L: "locked (xs @ R @ p @ n # q) w t x \<longleftrightarrow> locked xs w t x \<or> locked (p @ q) w t x \<or> covers f w t x \<and> (x < l_start d \<or> l_end d < x)" for w t x
    using R(3) [of w t x] by auto
  then have "relocked (xs @ R @ p @ n # q) d = relocked (xs @ f # p @ q) d"
    using assms(2) by (intro relocked_cong) (auto simp: covers_def)
  moreover have "clear (xs @ R @ p @ n # q) d"
    using assms(2,4,5) f(3) R(2) n(1) by (fastforce simp: clear_def past_def ahead_def)
  ultimately show ?thesis using r L by (auto simp: adj_rel_def)
qed

subsection \<open>One step of the scan\<close>

lemma del_at_mid [simp]: "del_at (xs @ f # ys) (length xs) = xs @ ys"
  by (simp add: del_at_def)

definition absorbs :: "filock \<Rightarrow> flock \<Rightarrow> flock \<Rightarrow> bool" where
  "absorbs f d d' \<longleftrightarrow> fowner (fset f) = fowner d \<and> fowner d' = fowner d \<and> l_type d' = l_type d
     \<and> l_start d' = min (l_start d) (st f) \<and> l_end d' = max (l_end d) (en f)
     \<and> st f \<le> l_end d + 1 \<and> l_start d \<le> en f + 1
     \<and> (l_type (fset f) = l_type d \<or> l_start d \<le> st f \<and> en f \<le> l_end d)"

lemma absorbs_rel:
  assumes "adj_rel ls0 d0 (xs @ f # ys) d" "absorbs f d d'"
  shows "adj_rel ls0 d0 (xs @ ys) d'"
proof (rule adj_rel_del [OF assms(1)])
  have b: "0 \<le> l_start d" "l_start d \<le> l_end d" "l_end d \<le> MAXEND" "0 \<le> st f" "st f \<le> en f" "en f \<le> MAXEND"
    using assms(1) by (auto simp: adj_rel_def req_ok_def fl_wf_parts fl_ok_def)
  show "l_start d' \<le> x \<and> x \<le> l_end d' \<longleftrightarrow> l_start d \<le> x \<and> x \<le> l_end d \<or> st f \<le> x \<and> x \<le> en f" for x
    using assms(2) b by (auto simp: absorbs_def min_def max_def)
  show "req_ok d'" using assms b by (auto simp: absorbs_def req_ok_def adj_rel_def min_def max_def)
qed (use assms(2) in \<open>auto simp: absorbs_def\<close>)

lemma absorbs_past:
  assumes "fl_wf (xs @ f # ys)" "past xs d" "absorbs f d d'"
  shows "past xs d'"
  using assms(3,2) assms(1) [unfolded fl_wf_parts] by (fastforce simp: absorbs_def past_def ahead_def min_def)

lemma del_next:
  assumes "adj_rel ls0 d0 (xs @ f # ys) d" "past xs d" "absorbs f d (a_ld b)" "a_ls b = xs @ f # ys"
    "ins_ok (xs @ ys) (a_ins b) (length xs) (a_ld b)"
  shows "adj_inv ls0 d0 (adj_del b (length xs)) (length xs)"
  using absorbs_rel [OF assms(1,3)] absorbs_past [OF _ assms(2,3)] assms(1,4,5) by (auto simp: adj_inv_def adj_rel_def)

lemma del_stop:
  assumes "adj_rel ls0 d0 (xs @ f # ys) d" "past xs d" "absorbs f d (a_ld b)" "a_ls b = xs @ f # ys"
    "ins_ok (xs @ ys) (a_ins b) (length xs) (a_ld b)" "l_end d \<le> en f"
  shows "adj_stop ls0 d0 (adj_del b (length xs))"
proof -
  have wf: "fl_wf (xs @ f # ys)" using assms(1) by (simp add: adj_rel_def)
  have "clear (xs @ ys) (a_ld b)"
    by (rule clear_rest [OF wf _ absorbs_past [OF wf assms(2,3)]]) (use assms(3,6) in \<open>auto simp: absorbs_def\<close>)
  then show ?thesis using absorbs_rel [OF assms(1,3)] assms(4,5) ins_ok_mono by (auto simp: adj_stop_def)
qed

lemma skip_next:
  assumes "adj_inv ls0 d0 a (length xs)" "a_ls a = xs @ f # ys" "fowner (fset f) = fowner (a_ld a) \<Longrightarrow> en f < l_start (a_ld a)"
  shows "adj_inv ls0 d0 a (Suc (length xs))"
  using assms by (auto simp: adj_inv_def past_def intro: ins_ok_mono)

lemma cut_next:
  assumes "adj_inv ls0 d0 a (length xs)" "a_ls a = xs @ f # ys" "fowner (fset f) = fowner (a_ld a)"
    "st f < l_start (a_ld a)" "l_start (a_ld a) \<le> en f" "en f \<le> l_end (a_ld a)"
  shows "adj_inv ls0 d0 (adj_cut a (length xs)) (Suc (length xs))"
proof -
  obtain f' where f': "a_ls (adj_cut a (length xs)) = xs @ f' # ys" "st f' = st f" "en f' = l_start (a_ld a) - 1"
    "fowner (fset f') = fowner (fset f)" "l_type (fset f') = l_type (fset f)"
    using adj_cut_list [OF assms(2)] .
  have "adj_rel ls0 d0 (xs @ f' # ys) (a_ld a)"
    by (rule adj_rel_cut [OF _ assms(3-6) f'(2-5)]) (use assms(1,2) in \<open>simp add: adj_inv_def\<close>)
  then show ?thesis using assms(1,2,4) f' by (auto simp: adj_inv_def past_def ins_ok_def)
qed

lemma split_del_stop:
  assumes "adj_rel ls0 d0 (xs @ f # ys) (a_ld a)" "past xs (a_ld a)" "a_ls a = xs @ f # ys" "fowner (fset f) = fowner (a_ld a)"
    "l_start (a_ld a) \<le> st f" "st f \<le> l_end (a_ld a)" "l_end (a_ld a) < en f" "adj_split a (length xs) new = Some b"
    "\<And>zs. (\<And>g. g \<in> set zs \<Longrightarrow> l_start (a_ld a) \<le> st g) \<Longrightarrow> ins_ok (xs @ zs) (a_ins a) (length xs) (a_ld a)"
  shows "adj_stop ls0 d0 (adj_del b (length xs))"
proof -
  have wf: "fl_wf (a_ls a)" using assms(1,3) by (simp add: adj_rel_def)
  obtain p q n where n: "ys = p @ q" "a_ls b = xs @ f # p @ n # q" "a_ins b = a_ins a" "a_ld b = a_ld a"
    "st n = l_end (a_ld a) + 1" "en n = en f" "fowner (fset n) = fowner (fset f)" "l_type (fset n) = l_type (fset f)"
    "\<And>g. g \<in> set p \<Longrightarrow> st g < st n" "\<And>g. g \<in> set q \<Longrightarrow> st n \<le> st g"
    using adj_split_list [OF assms(3) wf assms(6,8)] by metis
  have "adj_rel ls0 d0 (xs @ [] @ p @ n # q) (a_ld a) \<and> clear (xs @ [] @ p @ n # q) (a_ld a)"
    by (rule adj_rel_split [OF assms(1) [unfolded n(1)] assms(4,6,7,2) n(5-10)])
       (use wf assms(3,5) n(1) in \<open>auto simp: fl_wf_parts covers_def\<close>)
  moreover have "ins_ok (xs @ p @ n # q) (a_ins a) (length xs) (a_ld a)"
  proof (rule assms(9))
    show "l_start (a_ld a) \<le> st g" if "g \<in> set (p @ n # q)" for g
    proof (cases "g = n")
      case False
      then have "st f \<le> st g" using that wf n(1) assms(3) by (auto simp: fl_wf_parts ahead_def)
      then show ?thesis using assms(5) by simp
    qed (use n(5) assms(5,6) in simp)
  qed
  ultimately show ?thesis using n(2-4) ins_ok_mono by (auto simp: adj_stop_def)
qed

lemma split_cut_stop:
  assumes "adj_rel ls0 d0 (xs @ f # ys) (a_ld a)" "past xs (a_ld a)" "a_ls a = xs @ f # ys" "fowner (fset f) = fowner (a_ld a)"
    "st f < l_start (a_ld a)" "l_end (a_ld a) < en f" "adj_split a (length xs) new = Some b"
  shows "adj_stop ls0 d0 (adj_cut b (length xs))"
proof -
  have wf: "fl_wf (a_ls a)" and le: "st f \<le> l_end (a_ld a)" "l_start (a_ld a) \<le> l_end (a_ld a)"
    using assms(1,3,5) by (auto simp: adj_rel_def req_ok_def)
  obtain p q n where n: "ys = p @ q" "a_ls b = xs @ f # p @ n # q" "a_ins b = a_ins a" "a_ld b = a_ld a"
    "st n = l_end (a_ld a) + 1" "en n = en f" "fowner (fset n) = fowner (fset f)" "l_type (fset n) = l_type (fset f)"
    "\<And>g. g \<in> set p \<Longrightarrow> st g < st n" "\<And>g. g \<in> set q \<Longrightarrow> st n \<le> st g"
    using adj_split_list [OF assms(3) wf le(1) assms(7)] by metis
  obtain f' where f': "a_ls (adj_cut b (length xs)) = xs @ f' # p @ n # q" "st f' = st f" "en f' = l_start (a_ld b) - 1"
    "fowner (fset f') = fowner (fset f)" "l_type (fset f') = l_type (fset f)"
    using adj_cut_list [OF n(2)] .
  have cv: "covers f' w t x \<longleftrightarrow> covers f w t x \<and> x \<le> l_start (a_ld a) - 1" for w t x
    using covers_cut [OF f'(2-5), of w t x] n(4) le assms(6) by simp
  have R: "fl_wf (xs @ [f'] @ p @ q)"
    using fl_wf_cut [of xs f "p @ q" "l_start (a_ld a) - 1" f'] wf assms(3,5,6) le n(1,4) f'(2-5) by simp
  have "adj_rel ls0 d0 (xs @ [f'] @ p @ n # q) (a_ld a) \<and> clear (xs @ [f'] @ p @ n # q) (a_ld a)"
    by (rule adj_rel_split [OF assms(1) [unfolded n(1)] assms(4) le(1) assms(6,2) n(5-10) R]) (use f' n(4) in \<open>auto simp: cv\<close>)
  then show ?thesis using f'(1,2) n(4) assms(5) by (auto simp: adj_stop_def ins_ok_def)
qed

text \<open>The error of the split is the only one.\<close>

lemma adj_middle_split: "l_type (a_ld a) \<noteq> l_type (fset (a_ls a ! i)) \<Longrightarrow> adj_middle a i new = adj_split a i new"
  by (simp add: adj_middle_def)

lemma stop_here:
  assumes "adj_inv ls0 d0 a (length xs)" "a_ls a = xs @ f # ys" "fowner (fset f) = fowner (a_ld a)" "l_end (a_ld a) < st f"
  shows "adj_stop ls0 d0 a"
proof -
  have i: "adj_rel ls0 d0 (xs @ f # ys) (a_ld a)" "past xs (a_ld a)" "ins_ok (a_ls a) (a_ins a) (length xs) (a_ld a)"
    using assms(1,2) by (simp_all add: adj_inv_def)
  then have "fl_wf (xs @ f # ys)" by (simp add: adj_rel_def)
  then have "clear (a_ls a) (a_ld a)"
    using i(2) assms(2-4) by (fastforce simp: clear_def past_def fl_wf_parts ahead_def fl_ok_def)
  then show ?thesis using i assms(2) ins_ok_mono [OF i(3), of "length (a_ls a)"] by (simp add: adj_stop_def)
qed

text \<open>The steps of the scan on a lock of the process, by where the request starts and ends.\<close>

lemma own_facts:
  assumes "adj_inv ls0 d0 a (length xs)" "a_ls a = xs @ f # ys"
  shows "adj_rel ls0 d0 (xs @ f # ys) (a_ld a)" "past xs (a_ld a)" "ins_ok (xs @ f # ys) (a_ins a) (length xs) (a_ld a)"
    "fl_wf (xs @ f # ys)" "l_start (a_ld a) \<le> l_end (a_ld a)" "st f \<le> en f"
    "g \<in> set xs \<Longrightarrow> st g \<le> st f" "g \<in> set ys \<Longrightarrow> st f \<le> st g"
proof -
  show i: "adj_rel ls0 d0 (xs @ f # ys) (a_ld a)" "past xs (a_ld a)" "ins_ok (xs @ f # ys) (a_ins a) (length xs) (a_ld a)"
    using assms by (simp_all add: adj_inv_def)
  show w: "fl_wf (xs @ f # ys)" and "l_start (a_ld a) \<le> l_end (a_ld a)" using i(1) by (simp_all add: adj_rel_def req_ok_def)
  show "st f \<le> en f" "g \<in> set xs \<Longrightarrow> st g \<le> st f" "g \<in> set ys \<Longrightarrow> st f \<le> st g"
    using w by (simp_all add: fl_wf_parts fl_ok_def ahead_def)
qed

lemma step_before:
  assumes "adj_inv ls0 d0 a (length xs)" "a_ls a = xs @ f # ys" "fowner (fset f) = fowner (a_ld a)" "l_start (a_ld a) < st f"
  shows "adj_post ls0 d0 (flckadj_step a (length xs) new)"
proof -
  let ?d = "a_ld a" and ?i = "length xs"
  note i = own_facts [OF assms(1,2)] and step = flckadj_step_def same_owner assms(3) assms(2) Let_def
  have grow: "?d\<lparr>l_len := en f\<rparr> = ?d" if "l_end ?d = en f" using that by simp
  have keep: "ins_ok (xs @ zs) (a_ins a) ?i d'" if "l_start d' = l_start ?d" "l_type d' = l_type ?d" "\<And>g. g \<in> set zs \<Longrightarrow> l_start ?d \<le> st g" for d' zs
    using ins_ok_keep [OF i(3) assms(4) that] .
  have ys: "l_start ?d \<le> st g" if "g \<in> set ys" for g using i(8) [OF that] assms(4) by simp
  from i(5,6) show ?thesis
  proof (cases rule: regflck_cases)
    case before
    then show ?thesis using stop_here [OF assms(1-3)] by (simp add: step)
  next
    case adjoins
    then show ?thesis using stop_here [OF assms(1-3)] assms(3,4) i(6) keep ys
        del_stop [OF i(1,2), of "a\<lparr>a_ld := ?d\<lparr>l_len := en f\<rparr>\<rparr>"]
      by (simp add: step absorbs_def fowner_def)
  next
    case head
    show ?thesis
    proof (cases "l_type ?d = l_type (fset f)")
      case True
      then show ?thesis using head assms(2-4) keep ys del_stop [OF i(1,2), of "a\<lparr>a_ld := ?d\<lparr>l_len := en f\<rparr>\<rparr>"]
        by (simp add: step absorbs_def fowner_def adj_middle_def)
    next
      case False
      then show ?thesis using head assms i(1) keep split_del_stop [OF i(1,2) assms(2,3)]
        by (auto simp: step adj_middle_def split: option.split)
    qed
  next
    case within
    then show ?thesis using assms(2-4) i(6) keep ys del_stop [OF i(1,2), of a] del_next [OF i(1,2), of a]
      by (simp add: step absorbs_def)
  next
    case over
    then show ?thesis using assms(2-4) i(6) keep ys del_next [OF i(1,2), of a] by (simp add: step absorbs_def)
  qed (use assms(4) i(5,6) in simp_all)
qed

lemma step_start:
  assumes "adj_inv ls0 d0 a (length xs)" "a_ls a = xs @ f # ys" "fowner (fset f) = fowner (a_ld a)" "l_start (a_ld a) = st f"
  shows "adj_post ls0 d0 (flckadj_step a (length xs) new)"
proof -
  define pr where "pr = (if length xs = 0 then None else Some (length xs - 1))"
  let ?d = "a_ld a" and ?i = "length xs" and ?b = "a\<lparr>a_ins := pr\<rparr>"
  note i = own_facts [OF assms(1,2)] and unf = flckadj_step_def Let_def pr_def [symmetric] and step = same_owner assms(3) assms(2)
  have P: "relocked (xs @ f # ys) ?d = relocked ls0 d0" using i(1) by (simp add: adj_rel_def)
  have pr: "ins_ok (xs @ zs) pr ?i ?d" if "\<And>g. g \<in> set zs \<Longrightarrow> st f \<le> st g" for zs
    using ins_ok_prev [of xs ?d zs] i(7) that assms(4) unfolding pr_def by simp
  have inside: "locked (xs @ f # ys) = relocked ls0 d0" if "l_type ?d = l_type (fset f)" "l_end ?d \<le> en f"
    using relocked_inside [OF i(4), of f ?d] that assms(3,4) P by simp
  from i(5,6) show ?thesis
  proof (cases rule: regflck_cases)
    case shead
    then show ?thesis unfolding unf
      using inside assms(3,4) i(1,2,4,5) pr split_del_stop [of ls0 d0 xs f ys ?b]
      by (cases "l_type ?d = l_type (fset f)") (auto simp: step adj_middle_def split: option.split)
  next
    case equal
    then show ?thesis unfolding unf
      using assms(3) inside i pr [of ys] del_next [OF i(1,2), of ?b] by (simp add: step absorbs_def)
  next
    case sover
    then show ?thesis unfolding unf
      using assms(3) i pr [of ys] del_next [OF i(1,2), of ?b] by (simp add: step absorbs_def)
  qed (use assms(4) i(5,6) in simp_all)
qed

lemma step_middle:
  assumes "adj_inv ls0 d0 a (length xs)" "a_ls a = xs @ f # ys" "fowner (fset f) = fowner (a_ld a)" "st f < l_start (a_ld a)"
  shows "adj_post ls0 d0 (flckadj_step a (length xs) new)"
proof -
  define pr where "pr = (if length xs = 0 then None else Some (length xs - 1))"
  let ?d = "a_ld a" and ?i = "length xs" and ?b = "a\<lparr>a_ld := (a_ld a)\<lparr>l_start := st f\<rparr>, a_ins := pr\<rparr>"
  note i = own_facts [OF assms(1,2)] and unf = flckadj_step_def Let_def pr_def [symmetric] and step = same_owner assms(3) assms(2)
  have P: "relocked (xs @ f # ys) ?d = relocked ls0 d0" using i(1) by (simp add: adj_rel_def)
  have b: "a_ls ?b = xs @ f # ys" "ins_ok (xs @ ys) (a_ins ?b) ?i (a_ld ?b)"
    using ins_ok_prev [of xs "a_ld ?b" ys] i(7,8) assms(2) unfolding pr_def by auto
  have merge: "adj_inv ls0 d0 (adj_del ?b ?i) ?i" if "l_type ?d = l_type (fset f)" "l_start ?d \<le> en f + 1" "en f < l_end ?d"
    by (rule del_next [OF i(1,2) _ b]) (use that assms(3,4) i(6) in \<open>auto simp: absorbs_def fowner_def\<close>)
  have inside: "locked (xs @ f # ys) = relocked ls0 d0" if "l_type ?d = l_type (fset f)" "l_end ?d \<le> en f"
    using relocked_inside [OF i(4), of f ?d] that assms(3,4) P by simp
  from i(5,6) show ?thesis
  proof (cases rule: regflck_cases)
    case mid
    then show ?thesis unfolding unf
      using inside assms(1-4) i(1,4) split_cut_stop [OF i(1,2) assms(2,3)] by (auto simp: step adj_middle_def split: option.split)
  next
    case mend
    then show ?thesis unfolding unf using inside i cut_next [OF assms(1-4)] by (simp add: step)
  next
    case mover
    then show ?thesis unfolding unf using merge cut_next [OF assms(1-4)] by (simp add: step)
  next
    case follows
    then show ?thesis unfolding unf using merge i(5) skip_next [OF assms(1,2)] by (simp add: step)
  next
    case after
    then show ?thesis unfolding unf
      using assms(1-4) i(1-3) by (auto simp: step adj_inv_def past_def ins_ok_def)
  qed (use assms(4) i(5,6) in simp_all)
qed

lemma flckadj_step_post:
  assumes "adj_inv ls0 d0 a (length xs)" "a_ls a = xs @ f # ys"
  shows "adj_post ls0 d0 (flckadj_step a (length xs) new)"
proof (cases "fowner (fset f) = fowner (a_ld a)")
  case False
  then show ?thesis using skip_next [OF assms] assms(2) by (simp add: flckadj_step_def same_owner Let_def)
next
  case True
  then show ?thesis
    using step_before [OF assms True] step_start [OF assms True] step_middle [OF assms True] by (meson linorder_less_linear)
qed

section \<open>flckadj\<close>

declare flckadj_scan.simps [simp del]

lemma adj_inv_end:
  assumes "adj_inv ls0 d0 a i" "\<not> i < length (a_ls a)"
  shows "adj_stop ls0 d0 a"
proof -
  have i: "i = length (a_ls a)" using assms by (simp add: adj_inv_def)
  then have "past (a_ls a) (a_ld a)" using assms(1) by (simp add: adj_inv_def)
  then have "clear (a_ls a) (a_ld a)" by (auto simp: past_def clear_def)
  then show ?thesis using assms(1) i by (simp add: adj_inv_def adj_stop_def)
qed

lemma flckadj_scan_post:
  assumes "adj_inv ls0 d0 a i"
  shows "adj_post ls0 d0 (flckadj_scan a i new) \<and> (\<forall>b j. flckadj_scan a i new \<noteq> ANext b j)"
  using assms
proof (induction a i new rule: flckadj_scan.induct)
  case (1 a i new)
  show ?case
  proof (cases "i < length (a_ls a)")
    case False
    then show ?thesis using adj_inv_end [OF 1(2)] by (simp add: flckadj_scan.simps [of a i])
  next
    case True
    then have ls: "a_ls a = take i (a_ls a) @ a_ls a ! i # drop (Suc i) (a_ls a)" by (simp add: id_take_nth_drop)
    have len: "length (take i (a_ls a)) = i" using True by simp
    have "adj_post ls0 d0 (flckadj_step a i new)"
      using flckadj_step_post [of ls0 d0 a "take i (a_ls a)", OF _ ls] 1(2) unfolding len by blast
    then show ?thesis using True 1(1) [OF True] by (cases "flckadj_step a i new") (auto simp: flckadj_scan.simps [of a i])
  qed
qed

text \<open>
  Where the scan may begin: every lock of the process before it ends before the request, and it starts no later
  than the request. An unlock may begin at the head of the list.
\<close>

definition scan_from :: "filock list \<Rightarrow> nat option \<Rightarrow> flock \<Rightarrow> bool" where
  "scan_from ls p d \<longleftrightarrow> (case p of None \<Rightarrow> l_type d = F_UNLCK \<or> (\<forall>g\<in>set ls. l_start d \<le> st g)
     | Some k \<Rightarrow> k \<le> length ls \<and> past (take k ls) d \<and> (l_type d = F_UNLCK \<or> k < length ls \<and> st (ls ! k) \<le> l_start d))"

lemma scan_from_inv:
  assumes "fl_wf ls" "req_ok d" "scan_from ls p d"
  shows "adj_inv ls d \<lparr>a_fl = s, a_ls = ls, a_ins = p, a_ld = d\<rparr> (case p of None \<Rightarrow> 0 | Some k \<Rightarrow> k)"
  using assms by (auto simp: adj_inv_def adj_rel_def scan_from_def past_def ins_ok_def split: option.splits)

text \<open>The insertion of the request at the end.\<close>

lemma insert_request:
  assumes "fl_wf ls" "req_ok d" "l_type d \<noteq> F_UNLCK" "clear ls d" "ins_ok ls p i d"
    "insflck s ls d (map_option (\<lambda>k. adv ls k (l_start d) k) p) new = Some (s', ls')"
  shows "fl_wf ls' \<and> locked ls' = relocked ls d"
proof -
  from assms(6) obtain n where n: "ls' = ins_after ls (map_option (\<lambda>k. adv ls k (l_start d) k) p) n" "fset n = d"
    by (auto simp: insflck_def split: if_splits option.splits)
  have "\<exists>xs ys. ls = xs @ ys \<and> ls' = xs @ n # ys \<and> (\<forall>g\<in>set xs. st g \<le> l_start d) \<and> (\<forall>g\<in>set ys. l_start d \<le> st g)"
  proof (cases p)
    case None
    then show ?thesis using assms(3,5) n(1) by (intro exI [of _ "[]"] exI [of _ ls]) (simp add: ins_after_def ins_ok_def)
  next
    case (Some k)
    then have k: "k < length ls" "st (ls ! k) \<le> l_start d" using assms(3,5) by (auto simp: ins_ok_def)
    have srt: "sorted_wrt ahead ls" using assms(1) by (simp add: fl_wf_def)
    from ins_adv [OF srt k, of n] obtain p' q where q: "ls = take (Suc k) ls @ p' @ q" "ls' = take (Suc k) ls @ p' @ n # q"
      "\<forall>g\<in>set p'. st g < l_start d" "\<forall>g\<in>set q. l_start d \<le> st g" using n(1) Some by auto
    have "st g \<le> l_start d" if "g \<in> set (take (Suc k) ls)" for g
    proof -
      from that obtain j where "j \<le> k" "g = ls ! j" using k(1) by (auto simp: in_set_conv_nth less_Suc_eq_le)
      then show ?thesis using sorted_wrt_nth_less [OF srt, of j k] k by (cases "j = k") (auto simp: ahead_def)
    qed
    then show ?thesis using q by (intro exI [of _ "take (Suc k) ls @ p'"] exI [of _ q]) (auto intro: less_imp_le)
  qed
  then obtain xs ys where xy: "ls = xs @ ys" "ls' = xs @ n # ys" "\<forall>g\<in>set xs. st g \<le> l_start d" "\<forall>g\<in>set ys. l_start d \<le> st g" by blast
  have "fl_wf ls'" unfolding xy(2)
    by (rule fl_wf_insert) (use assms(1-4) xy n(2) in \<open>auto simp: fl_ok_req clear_def\<close>)
  moreover have "locked ls' = relocked ls d"
    using relocked_insert [of xs ys n] assms(3,4) xy(1,2) n(2) by simp
  ultimately show ?thesis ..
qed

lemma flckadj_spec:
  assumes "fl_wf ls" "req_ok d" "scan_from ls p d" "flckadj s ls p d new1 new2 = (e, s', ls', d')"
  shows "fl_wf ls' \<and> (if e = None then locked ls' = relocked ls d
    else e = Some ENOLCK \<and> (\<forall>w t x. locked ls' w t x \<longrightarrow> locked ls w t x) \<and> (\<forall>w t x. w \<noteq> fowner d \<longrightarrow> locked ls' w t x = locked ls w t x))"
proof -
  have fail: "fl_wf m \<and> (\<forall>w t x. locked m w t x \<longrightarrow> locked ls w t x) \<and> (\<forall>w t x. w \<noteq> fowner d \<longrightarrow> locked m w t x = locked ls w t x)"
    if "adj_rel ls d m g" for m g
  proof -
    have r: "relocked m g w t x = relocked ls d w t x" "fowner g = fowner d" for w t x using that by (simp_all add: adj_rel_def)
    have "locked m w t x = locked ls w t x" if "w \<noteq> fowner d" for w t x using r(1) [of w t x] r(2) that by (simp add: relocked_def)
    then show ?thesis using that by (simp add: adj_rel_def)
  qed
  let ?r = "flckadj_scan \<lparr>a_fl = s, a_ls = ls, a_ins = p, a_ld = d\<rparr> (case p of None \<Rightarrow> 0 | Some k \<Rightarrow> k) new1"
  have r: "adj_post ls d ?r" "\<forall>b j. ?r \<noteq> ANext b j"
    using flckadj_scan_post [OF scan_from_inv [OF assms(1-3)], of s new1] by blast+
  show ?thesis
  proof (cases ?r)
    case (ARet e2 a)
    then show ?thesis using r(1) assms(4) fail by (cases e2) (auto simp: flckadj_def)
  next
    case (AStop a)
    then have a: "adj_rel ls d (a_ls a) (a_ld a)" "clear (a_ls a) (a_ld a)" "ins_ok (a_ls a) (a_ins a) (length (a_ls a)) (a_ld a)"
      using r(1) by (auto simp: adj_stop_def)
    then have rel: "fl_wf (a_ls a)" "req_ok (a_ld a)" "relocked (a_ls a) (a_ld a) = relocked ls d" by (auto simp: adj_rel_def)
    show ?thesis
      using AStop assms(4) fail [OF a(1)] rel relocked_clear [OF a(2)] insert_request [OF rel(1,2) _ a(2,3)]
      by (auto simp: flckadj_def split: if_splits option.splits)
  qed (use r(2) in blast)
qed

section \<open>Room in the table\<close>

text \<open>The scan makes at most one new lock, and only as its last step.\<close>

lemma fl_counts [simp]:
  "reccnt (a_fl (adj_del a i)) = reccnt (a_fl a) - 1" "t_flckrec (a_fl (adj_del a i)) = t_flckrec (a_fl a)"
  "reccnt (a_fl (adj_cut a i)) = reccnt (a_fl a)" "t_flckrec (a_fl (adj_cut a i)) = t_flckrec (a_fl a)"
  by (simp_all add: adj_del_def adj_cut_def delflck_def WAKEUP_def Let_def case_prod_unfold)

lemma adj_split_counts:
  assumes "adj_split a i (Some ad) = r" "reccnt (a_fl a) < t_flckrec (a_fl a)"
  shows "\<exists>b. r = Some b \<and> reccnt (a_fl b) = reccnt (a_fl a) + 1 \<and> t_flckrec (a_fl b) = t_flckrec (a_fl a)"
  using assms by (auto simp: adj_split_def insflck_def Let_def)

definition has_room :: "int \<Rightarrow> int \<Rightarrow> adjres \<Rightarrow> bool" where
  "has_room n t r \<longleftrightarrow> (case r of ANext b _ \<Rightarrow> reccnt (a_fl b) \<le> n \<and> t_flckrec (a_fl b) = t
     | AStop b \<Rightarrow> reccnt (a_fl b) \<le> n + 1 \<and> t_flckrec (a_fl b) = t | ARet e b \<Rightarrow> e = None)"

lemma flckadj_step_room:
  assumes "reccnt (a_fl a) < t_flckrec (a_fl a)"
  shows "has_room (reccnt (a_fl a)) (t_flckrec (a_fl a)) (flckadj_step a i (Some ad))"
proof -
  have sp: "\<exists>b. adj_split c i (Some ad) = Some b \<and> reccnt (a_fl b) = reccnt (a_fl a) + 1 \<and> t_flckrec (a_fl b) = t_flckrec (a_fl a)"
    if "a_fl c = a_fl a" for c using adj_split_counts [OF refl, of c i ad] assms that by simp
  have mid: "\<exists>b. adj_middle c i (Some ad) = Some b \<and> reccnt (a_fl b) \<le> reccnt (a_fl a) + 1 \<and> t_flckrec (a_fl b) = t_flckrec (a_fl a)"
    if "a_fl c = a_fl a" for c using sp [OF that] that by (auto simp: adj_middle_def)
  define pr where "pr = (if i = 0 then None else Some (i - 1))"
  obtain b c where "adj_middle a i (Some ad) = Some b" "reccnt (a_fl b) \<le> reccnt (a_fl a) + 1" "t_flckrec (a_fl b) = t_flckrec (a_fl a)"
    "adj_middle (a\<lparr>a_ins := pr\<rparr>) i (Some ad) = Some c" "reccnt (a_fl c) \<le> reccnt (a_fl a) + 1" "t_flckrec (a_fl c) = t_flckrec (a_fl a)"
    using mid [of a] mid [of "a\<lparr>a_ins := pr\<rparr>"] by auto
  then show ?thesis unfolding flckadj_step_def Let_def pr_def [symmetric]
    by (auto simp: has_room_def split: spos.split epos.split prod.split)
qed

lemma flckadj_scan_room:
  assumes "reccnt (a_fl a) \<le> n" "t_flckrec (a_fl a) = t" "n < t"
  shows "has_room n t (flckadj_scan a i (Some ad))"
  using assms
proof (induction a i "Some ad" rule: flckadj_scan.induct)
  case (1 a i)
  show ?case
  proof (cases "i < length (a_ls a)")
    case False
    then show ?thesis using 1(2,3) by (simp add: flckadj_scan.simps [of a i] has_room_def)
  next
    case True
    have "has_room n t (flckadj_step a i (Some ad))"
      using flckadj_step_room [of a i ad] 1(2-4) by (auto simp: has_room_def split: adjres.splits)
    then show ?thesis using True 1(1) [OF True] 1(4)
      by (cases "flckadj_step a i (Some ad)") (auto simp: flckadj_scan.simps [of a i] has_room_def)
  qed
qed

lemma flckadj_room:
  assumes "reccnt s + 1 < t_flckrec s"
  shows "fst (flckadj s ls p d (Some ad1) (Some ad2)) = None"
  using flckadj_scan_room [of "\<lparr>a_fl = s, a_ls = ls, a_ins = p, a_ld = d\<rparr>" "reccnt s" "t_flckrec s" "case p of None \<Rightarrow> 0 | Some k \<Rightarrow> k" ad1] assms
  by (auto simp: flckadj_def insflck_def has_room_def split: adjres.splits)

end
