(* ===== verification/KFlockRun.thy ===== *)
theory KFlockRun
  imports KFlockAdj
begin

text \<open>
  The calls of \<^verbatim>\<open>uts/i386/os/flock.c\<close> and their runs: \<^verbatim>\<open>blocked\<close> finds the first lock in the way, every reachable state keeps
  write locks exclusive (\<open>fl_inv\<close>), \<^verbatim>\<open>deadflck\<close> follows the processes that wait for each other, and whoever sleeps
  on a lock that goes away is woken.
\<close>

section \<open>blocked\<close>

text \<open>The locks that stand in the way of a request.\<close>

definition clash :: "xenix \<Rightarrow> flock \<Rightarrow> filock \<Rightarrow> bool" where
  "clash x ld f \<longleftrightarrow> conflict x ld (fset f) \<and> \<not> SAMEOWNER (fset f) ld \<and> st f \<le> l_end ld"

lemma find_at_simps [simp]:
  "find_at P [] = None"
  "find_at P (y # ys) = (if P y then Some 0 else map_option Suc (find_at P ys))"
  by (simp_all add: find_at_def Let_def)

lemma find_at_Some: "find_at P ys = Some j \<Longrightarrow> j < length ys \<and> P (ys ! j) \<and> (\<forall>k<j. \<not> P (ys ! k))"
proof (induction ys arbitrary: j)
  case (Cons y ys)
  then show ?case by (cases j) (auto simp: less_Suc_eq_0_disj split: if_splits)
qed simp

lemma find_at_None: "find_at P ys = None \<longleftrightarrow> (\<forall>y\<in>set ys. \<not> P y)"
  by (induction ys) auto

lemma plus_Suc: "(+) (Suc i) = (\<lambda>k. Suc (i + k))"
  by auto

lemma blocked2_find:
  assumes "sorted_wrt ahead fs"
  shows "blocked2 x ld i fs = map_option (\<lambda>k. i + k) (find_at (clash x ld) fs)"
  using assms
proof (induction fs arbitrary: i)
  case (Cons f fs)
  have "find_at (clash x ld) fs = None" if "l_end ld < st f"
    using Cons.prems that by (force simp: find_at_None clash_def ahead_def)
  then show ?case using Cons.IH [of "Suc i"] Cons.prems by (auto simp: clash_def [of x ld f] option.map_comp comp_def plus_Suc)
qed simp

lemma blocked1_find:
  assumes "sorted_wrt ahead fs" "l_start ld \<le> l_end ld"
  shows "fst (blocked1 x ld i p fs) = map_option (\<lambda>k. i + k) (find_at (clash x ld) fs)"
  using assms(1)
proof (induction fs arbitrary: i p)
  case (Cons f fs)
  then show ?case using Cons.IH [of "Suc i" "Some i"] assms(2) blocked2_find [OF Cons.prems, of x ld i]
    by (auto simp: clash_def [of x ld f] option.map_comp comp_def plus_Suc)
qed simp

lemma blocked1_from:
  assumes "fl_wf (xs @ fs)" "l_start ld \<le> l_end ld" "past xs ld" "\<And>g. g \<in> set xs \<Longrightarrow> st g < l_start ld"
    "blocked1 x ld (length xs) (if xs = [] then None else Some (length xs - 1)) fs = (None, p)"
  shows "scan_from (xs @ fs) p ld"
  using assms
proof (induction fs arbitrary: xs)
  case Nil
  then show ?case by (cases xs rule: rev_cases) (auto simp: scan_from_def past_def nth_append less_imp_le)
next
  case (Cons f fs)
  have ys: "st f \<le> st g" if "g \<in> set fs" for g using Cons.prems(1) that by (simp add: fl_wf_parts ahead_def)
  consider (stop) "\<not> st f < l_start ld" | (here) "st f < l_start ld" "SAMEOWNER (fset f) ld" "l_start ld - 1 \<le> en f"
    | (on) "st f < l_start ld" "blocked1 x ld (Suc (length xs)) (Some (length xs)) fs = (None, p)" "fowner (fset f) = fowner ld \<Longrightarrow> en f < l_start ld"
    using Cons.prems(5) by (auto simp: same_owner split: if_splits)
  then show ?case
  proof cases
    case stop
    then have "p = (if xs = [] then None else Some (length xs - 1))" using Cons.prems(5) by simp
    then show ?thesis using Cons.prems(3,4) stop ys
      by (cases xs rule: rev_cases) (force simp: scan_from_def past_def nth_append)+
  next
    case here
    then have "p = Some (length xs)" using Cons.prems(5) by simp
    then show ?thesis using Cons.prems(3) here by (simp add: scan_from_def)
  next
    case on
    then have "scan_from ((xs @ [f]) @ fs) p ld"
      using Cons.prems by (intro Cons.IH) (auto simp: past_def)
    then show ?thesis by simp
  qed
qed

lemma blocked_spec:
  assumes "fl_wf ls" "l_start ld \<le> l_end ld"
  shows "fst (blocked x ls ld) = find_at (clash x ld) ls"
  using blocked1_find [OF _ assms(2), of ls x 0 None] assms(1)
  by (cases "find_at (clash x ld) ls") (auto simp: blocked_def fl_wf_def)

lemma blocked_from:
  assumes "fl_wf ls" "l_start ld \<le> l_end ld" "blocked x ls ld = (None, p)"
  shows "scan_from ls p ld"
  using blocked1_from [of "[]" ls ld x p] assms by (simp add: blocked_def past_def)

section \<open>Exclusion\<close>

text \<open>A byte with a write lock of one process has no lock of another.\<close>

definition excl :: "filock list \<Rightarrow> bool" where
  "excl ls \<longleftrightarrow> (\<forall>w v t x. locked ls w F_WRLCK x \<and> locked ls v t x \<longrightarrow> v = w)"

lemma excl_mono: "excl ls \<Longrightarrow> (\<And>w t x. locked ls' w t x \<Longrightarrow> locked ls w t x) \<Longrightarrow> excl ls'"
  unfolding excl_def by blast

lemma locked_types: "fl_wf ls \<Longrightarrow> locked ls w t x \<Longrightarrow> t = F_RDLCK \<or> t = F_WRLCK"
  by (auto simp: locked_def covers_def fl_wf_def fl_ok_def)

lemma no_clash:
  assumes "fl_wf ls" "\<And>f. f \<in> set ls \<Longrightarrow> \<not> clash x ld f" "locked ls w t y" "w \<noteq> fowner ld" "l_start ld \<le> y" "y \<le> l_end ld"
  shows "t = F_RDLCK \<and> l_type ld \<noteq> F_WRLCK"
proof -
  from assms(3) obtain f where f: "f \<in> set ls" "covers f w t y" by (auto simp: locked_def)
  then have "\<not> conflict x ld (fset f)" "l_start ld \<le> en f"
    using assms(2) [OF f(1)] assms(4-6) by (auto simp: clash_def covers_def same_owner)
  then show ?thesis using f locked_types [OF assms(1,3)] by (auto simp: conflict_def covers_def)
qed

lemma excl_relocked:
  assumes "fl_wf ls" "excl ls" "\<And>f. f \<in> set ls \<Longrightarrow> \<not> clash x ld f" "locked ls' = relocked ls ld"
  shows "excl ls'"
  unfolding excl_def
proof (intro allI impI, elim conjE)
  fix w v t y
  assume l: "locked ls' w F_WRLCK y" "locked ls' v t y"
  show "v = w"
  proof (cases "l_start ld \<le> y \<and> y \<le> l_end ld")
    case False
    then have "locked ls w F_WRLCK y" "locked ls v t y" using l by (auto simp: assms(4) relocked_def)
    then show ?thesis using assms(2) unfolding excl_def by blast
  next
    case True
    then have n: "t' = F_RDLCK \<and> l_type ld \<noteq> F_WRLCK" if "locked ls u t' y" "u \<noteq> fowner ld" for u t'
      using no_clash [OF assms(1,3) that] by blast
    show ?thesis
      using l True n [of w F_WRLCK] n [of v t] by (auto simp: assms(4) relocked_def split: if_splits)
  qed
qed

lemma excl_unlocked:
  assumes "excl ls" "l_type ld = F_UNLCK" "locked ls' = relocked ls ld"
  shows "excl ls'"
  by (rule excl_mono [OF assms(1)]) (use assms(2,3) in \<open>auto simp: relocked_def split: if_splits\<close>)

lemma fset_wf:
  assumes "map fset ls = map fset ls'"
  shows "fl_wf ls = fl_wf ls' \<and> locked ls = locked ls'"
proof -
  define R where "R d e \<longleftrightarrow> l_start d \<le> l_start e \<and> (fowner d = fowner e \<longrightarrow> l_end d < l_start e)" for d e
  have w: "fl_wf m \<longleftrightarrow> sorted_wrt R (map fset m) \<and> (\<forall>d\<in>set (map fset m). fl_ok d)" for m
    by (simp add: fl_wf_def sorted_wrt_map ahead_def [abs_def] R_def [abs_def])
  have l: "locked m w t x \<longleftrightarrow> (\<exists>d\<in>set (map fset m). fowner d = w \<and> l_type d = t \<and> l_start d \<le> x \<and> x \<le> l_end d)" for m w t x
    by (auto simp: locked_def covers_def)
  have "locked ls = locked ls'" by (intro ext) (simp only: l assms)
  then show ?thesis by (simp only: w assms)
qed

definition fl_inv :: "flst \<Rightarrow> bool" where
  "fl_inv s \<longleftrightarrow> (\<forall>vp. fl_wf (filocks s vp) \<and> excl (filocks s vp))"

definition in_range :: "flock \<Rightarrow> bool" where
  "in_range d \<longleftrightarrow> 0 \<le> l_start d \<and> l_start d \<le> l_end d \<and> l_end d \<le> MAXEND"

lemma convoff_start:
  assumes "convoff attr ld 0 offset = (None, d)"
  shows "0 \<le> l_start d \<and> l_type d = l_type ld \<and> fowner d = fowner ld \<and> l_len d = l_len ld"
proof -
  have "s32 (s32 z) = s32 z" for z by (simp add: s32_def)
  then show ?thesis using assms
    by (auto simp: convoff_def Let_def fowner_def not_less split: sum.splits if_splits)
qed

lemma reclock_start_range:
  assumes "reclock_start x ld cmd flag offset attr = Inr d"
  shows "in_range d \<and> l_type d = l_type ld \<and> fowner d = fowner ld"
proof -
  have s: "s32 z \<le> MAXEND" for z by (simp add: s32_def)
  obtain c where c: "convoff attr ld 0 offset = (None, c)" "d = c\<lparr>l_len := (if l_len c = 0 then MAXEND else s32 (l_len c + (l_start c - 1)))\<rparr>"
    "l_start d \<le> l_end d"
    using assms by (auto simp: reclock_start_def Let_def split: if_splits option.splits prod.splits)
  show ?thesis using convoff_start [OF c(1)] c(2,3) s by (auto simp: in_range_def fowner_def)
qed

section \<open>One round of reclock\<close>

lemma del_sleeper_filocks [simp]: "filocks (del_sleeper s i) = filocks s"
  by (simp add: del_sleeper_def delflck_def WAKEUP_def Let_def)

declare cleanslp.simps [simp del]

lemma cleanslp_filocks [simp]: "filocks (cleanslp s ld) = filocks s"
  by (induction s ld rule: cleanslp.induct) (simp add: cleanslp.simps split: option.split)

lemma insflck_filocks: "insflck s ls d p new = Some (s', ls') \<Longrightarrow> filocks s' = filocks s \<and> sleeplcks s' = sleeplcks s"
  by (auto simp: insflck_def split: if_splits option.splits)

lemma put_sleeper_filocks: "put_sleeper s ld found new = Some s' \<Longrightarrow> filocks s' = filocks s"
  by (auto simp: put_sleeper_def dest: insflck_filocks split: option.splits)

lemma reclock_woken_filocks [simp]: "filocks (reclock_woken s sf) = filocks s"
  by (simp add: reclock_woken_def split: option.split)

text \<open>The lists of a state before and after: the same locks, but for the flags that somebody sleeps on them.\<close>

definition same_locks :: "flst \<Rightarrow> flst \<Rightarrow> bool" where
  "same_locks s s' \<longleftrightarrow> (\<forall>vp. map fset (filocks s' vp) = map fset (filocks s vp))"

lemma same_locks_inv: "same_locks s s' \<Longrightarrow> fl_inv s \<Longrightarrow> fl_inv s'"
  unfolding same_locks_def fl_inv_def excl_def by (metis fset_wf)

lemma same_locksI: "filocks s' = filocks s \<Longrightarrow> same_locks s s'"
  by (simp add: same_locks_def)

lemma adj_filocks [simp]: "filocks (a_fl (adj_del a i)) = filocks (a_fl a)" "filocks (a_fl (adj_cut a i)) = filocks (a_fl a)"
  "sleeplcks (a_fl (adj_del a i)) = sleeplcks (a_fl a)" "sleeplcks (a_fl (adj_cut a i)) = sleeplcks (a_fl a)"
  by (simp_all add: adj_del_def adj_cut_def delflck_def WAKEUP_def Let_def case_prod_unfold)

text \<open>A round either leaves the locks alone or adjusts them for a request that nothing blocks.\<close>

lemma reclock_round_cases:
  assumes "reclock_round x s vp ld cmd new1 new2 = (r, s')"
  obtains (same) "same_locks s s'"
  | (lock) p e d s1 where "l_type ld = F_RDLCK \<or> l_type ld = F_WRLCK" "blocked x (filocks s vp) ld = (None, p)"
      "reclock_adj s vp p ld new1 new2 = (e, d, s1)" "filocks s' = filocks s1"
  | (unlock) e d s1 where "l_type ld = F_UNLCK"
      "reclock_adj s vp (if filocks s vp = [] then None else Some 0) ld new1 new2 = (e, d, s1)" "filocks s' = filocks s1"
proof (cases "l_type ld = F_RDLCK \<or> l_type ld = F_WRLCK")
  case rw: True
  obtain b p where b: "blocked x (filocks s vp) ld = (b, p)" by force
  show ?thesis
  proof (cases b)
    case None
    obtain e d s1 where a: "reclock_adj s vp p ld new1 new2 = (e, d, s1)" by (metis prod_cases3)
    show ?thesis
    proof (cases "cmd AND SETFLCK = 0")
      case True
      then have "filocks s' = filocks s" using assms rw b None by (auto simp: reclock_round_def split: if_splits)
      then show ?thesis using same same_locksI by blast
    next
      case False
      then have "filocks s' = filocks s1" using assms rw b None a by (auto simp: reclock_round_def split: if_splits)
      then show ?thesis using lock [OF rw _ a] b None by blast
    qed
  next
    case (Some j)
    have "map fset ((filocks s vp)[j := (filocks s vp ! j)\<lparr>wakeflg := w\<rparr>]) = map fset (filocks s vp)" for w
      by (cases "j < length (filocks s vp)") (simp_all add: map_update list_update_beyond map_update [symmetric] list_update_same_conv)
    then have "same_locks s s'" using assms rw b Some
      by (auto simp: reclock_round_def Let_def same_locks_def put_sleeper_filocks split: if_splits option.splits bool.splits)
    then show ?thesis by (rule same)
  qed
next
  case nrw: False
  show ?thesis
  proof (cases "l_type ld = F_UNLCK \<and> cmd AND SETFLCK \<noteq> 0")
    case True
    obtain e d s1 where a: "reclock_adj s vp (if filocks s vp = [] then None else Some 0) ld new1 new2 = (e, d, s1)" by (metis prod_cases3)
    then have "filocks s' = filocks s1" using assms nrw True by (auto simp: reclock_round_def split: if_splits)
    then show ?thesis using unlock a True by blast
  next
    case False
    then have "filocks s' = filocks s" using assms nrw
      by (auto simp: reclock_round_def Let_def split: if_splits option.splits prod.splits)
    then show ?thesis using same same_locksI by blast
  qed
qed

fun res_fl :: "adjres \<Rightarrow> flst" where
  "res_fl (ANext b j) = a_fl b" | "res_fl (AStop b) = a_fl b" | "res_fl (ARet e b) = a_fl b"

lemma adj_middle_filocks: "adj_middle a i new = Some b \<Longrightarrow> filocks (a_fl b) = filocks (a_fl a) \<and> sleeplcks (a_fl b) = sleeplcks (a_fl a)"
  by (auto simp: adj_middle_def adj_split_def Let_def dest: insflck_filocks split: if_splits option.splits)

lemma flckadj_step_filocks: "filocks (res_fl (flckadj_step a i new)) = filocks (a_fl a) \<and> sleeplcks (res_fl (flckadj_step a i new)) = sleeplcks (a_fl a)"
proof -
  define pr where "pr = (if i = 0 then None else Some (i - 1))"
  show ?thesis unfolding flckadj_step_def Let_def pr_def [symmetric]
    by (auto simp: adj_middle_filocks split: spos.split epos.split prod.split option.split)
qed

lemma flckadj_scan_filocks: "filocks (res_fl (flckadj_scan a i new)) = filocks (a_fl a) \<and> sleeplcks (res_fl (flckadj_scan a i new)) = sleeplcks (a_fl a)"
proof (induction a i new rule: flckadj_scan.induct)
  case (1 a i new)
  then show ?case using flckadj_step_filocks [of a i new]
    by (cases "flckadj_step a i new") (auto simp: flckadj_scan.simps [of a i])
qed

lemma flckadj_filocks:
  assumes "flckadj s ls p d new1 new2 = (e, s', ls', d')"
  shows "filocks s' = filocks s \<and> sleeplcks s' = sleeplcks s"
  using assms flckadj_scan_filocks [of "\<lparr>a_fl = s, a_ls = ls, a_ins = p, a_ld = d\<rparr>" "case p of None \<Rightarrow> 0 | Some i \<Rightarrow> i" new1]
  by (auto simp: flckadj_def dest: insflck_filocks split: adjres.splits if_splits option.splits)

lemma reclock_adj_spec:
  assumes "reclock_adj s vp p ld new1 new2 = (e, d, s1)"
  obtains s' ls' where "flckadj s (filocks s vp) p ld new1 new2 = (e, s', ls', d)" "filocks s1 = (filocks s)(vp := ls')" "sleeplcks s1 = sleeplcks s"
proof -
  obtain e' s' ls' d' where f: "flckadj s (filocks s vp) p ld new1 new2 = (e', s', ls', d')" by (metis prod_cases4)
  then have "filocks s1 = (filocks s)(vp := ls')" "sleeplcks s1 = sleeplcks s" using assms flckadj_filocks [OF f] by (auto simp: reclock_adj_def)
  then show ?thesis using that f assms by (auto simp: reclock_adj_def)
qed

lemma scan_from_head: "l_type d = F_UNLCK \<Longrightarrow> scan_from ls (if ls = [] then None else Some 0) d"
  by (simp add: scan_from_def past_def)

lemma reclock_round_inv:
  assumes "fl_inv s" "in_range ld" "reclock_round x s vp ld cmd new1 new2 = (r, s')"
  shows "fl_inv s'"
  using assms(3)
proof (cases rule: reclock_round_cases)
  case same
  then show ?thesis using same_locks_inv assms(1) by blast
next
  case (lock p e d s1)
  from lock(3) obtain s2 ls' where a: "flckadj s (filocks s vp) p ld new1 new2 = (e, s2, ls', d)" "filocks s1 = (filocks s)(vp := ls')"
    by (rule reclock_adj_spec)
  have wf: "fl_wf (filocks s vp)" "excl (filocks s vp)" and le: "l_start ld \<le> l_end ld" and rq: "req_ok ld"
    using assms(1,2) lock(1) by (auto simp: fl_inv_def in_range_def req_ok_def)
  have nc: "\<not> clash x ld f" if "f \<in> set (filocks s vp)" for f
    using blocked_spec [OF wf(1) le, of x] lock(2) that find_at_None [of "clash x ld" "filocks s vp"] by simp
  have "fl_wf ls' \<and> excl ls'"
    using flckadj_spec [OF wf(1) rq blocked_from [OF wf(1) le lock(2)] a(1)] excl_relocked [OF wf nc] excl_mono [OF wf(2)]
    by (auto split: if_splits)
  then show ?thesis using assms(1) a(2) lock(4) by (simp add: fl_inv_def)
next
  case (unlock e d s1)
  let ?p = "if filocks s vp = [] then None else Some 0"
  from unlock(2) obtain s2 ls' where a: "flckadj s (filocks s vp) ?p ld new1 new2 = (e, s2, ls', d)" "filocks s1 = (filocks s)(vp := ls')"
    by (rule reclock_adj_spec)
  have wf: "fl_wf (filocks s vp)" "excl (filocks s vp)" and rq: "req_ok ld"
    using assms(1,2) unlock(1) by (auto simp: fl_inv_def in_range_def req_ok_def)
  have "fl_wf ls' \<and> excl ls'"
    using flckadj_spec [OF wf(1) rq scan_from_head [OF unlock(1)] a(1)] excl_unlocked [OF wf(2) unlock(1)] excl_mono [OF wf(2)]
    by (auto split: if_splits)
  then show ?thesis using assms(1) a(2) unlock(3) by (simp add: fl_inv_def)
qed

section \<open>cleanlocks\<close>

definition left_by :: "int \<Rightarrow> int \<Rightarrow> filock \<Rightarrow> bool" where
  "left_by pid sysid f \<longleftrightarrow> (l_pid (fset f) = pid \<or> pid = - 1) \<and> l_sysid (fset f) = sysid"

declare cleanlocks_from.simps [simp del]

lemma cleanlocks_from_list:
  assumes "\<And>f. f \<in> set (take i ls) \<Longrightarrow> \<not> left_by pid sysid f"
  shows "snd (cleanlocks_from s ls i pid sysid) = filter (\<lambda>f. \<not> left_by pid sysid f) ls
    \<and> filocks (fst (cleanlocks_from s ls i pid sysid)) = filocks s"
  using assms
proof (induction s ls i pid sysid rule: cleanlocks_from.induct)
  case (1 s ls i pid sysid)
  show ?case
  proof (cases "i < length ls")
    case False
    then show ?thesis using 1(3) by (simp add: cleanlocks_from.simps [of s ls i] filter_id_conv)
  next
    case True
    then have ls: "ls = take i ls @ ls ! i # drop (Suc i) ls" by (simp add: id_take_nth_drop)
    show ?thesis
    proof (cases "left_by pid sysid (ls ! i)")
      case g: True
      obtain s' ls' where d: "delflck s ls i = (s', ls')" by force
      then have d': "ls' = take i ls @ drop (Suc i) ls" "filocks s' = filocks s"
        by (auto simp: delflck_def del_at_def WAKEUP_def Let_def split: if_splits)
      have "filter (\<lambda>f. \<not> left_by pid sysid f) ls' = filter (\<lambda>f. \<not> left_by pid sysid f) ls"
        using g d'(1) by (subst ls) simp
      then show ?thesis using True g d d' 1(1) [OF True _ d [symmetric]] 1(3)
        by (simp add: cleanlocks_from.simps [of s ls i] left_by_def)
    next
      case False
      have "\<not> left_by pid sysid f" if "f \<in> set (take (Suc i) ls)" for f
        using that 1(3) False True by (auto simp: take_Suc_conv_app_nth)
      then show ?thesis using True False 1(2) [OF True] by (auto simp: cleanlocks_from.simps [of s ls i] left_by_def)
    qed
  qed
qed

lemma cleanlocks_list:
  "filocks (cleanlocks s vp pid sysid) = (filocks s)(vp := filter (\<lambda>f. \<not> left_by pid sysid f) (filocks s vp))"
  using cleanlocks_from_list [of 0 "filocks s vp" pid sysid s] by (auto simp: cleanlocks_def Let_def case_prod_unfold)

lemma fl_wf_filter: "fl_wf ls \<Longrightarrow> fl_wf (filter P ls)"
  by (auto simp: fl_wf_def sorted_wrt_filter)

lemma excl_filter: "excl ls \<Longrightarrow> excl (filter P ls)"
  by (erule excl_mono) (auto simp: locked_def)

lemma cleanlocks_inv: "fl_inv s \<Longrightarrow> fl_inv (cleanlocks s vp pid sysid)"
  by (simp add: fl_inv_def cleanlocks_list fl_wf_filter excl_filter)

section \<open>Runs\<close>

text \<open>
  What can happen to the locks: a process, fresh or woken, makes a round of the loop of \<^verbatim>\<open>reclock\<close> with a request that
  has passed the checks before the loop; a process that slept removes its entry among the sleepers; the locks of a process are cleaned up.
\<close>

inductive flock_step :: "flst \<Rightarrow> flst \<Rightarrow> bool" where
  round: "reclock_start x ld cmd flag offset attr = Inr d \<Longrightarrow> reclock_round x s vp d cmd new1 new2 = (r, s') \<Longrightarrow> flock_step s s'"
| woken: "flock_step s (reclock_woken s sf)"
| clean: "flock_step s (cleanlocks s vp pid sysid)"

inductive flock_run :: "flst \<Rightarrow> flst \<Rightarrow> bool" for s0 where
  start: "flock_run s0 s0"
| step: "flock_run s0 s \<Longrightarrow> flock_step s s' \<Longrightarrow> flock_run s0 s'"

definition no_locks :: "flst \<Rightarrow> bool" where
  "no_locks s \<longleftrightarrow> filocks s = (\<lambda>vp. []) \<and> sleeplcks s = []"

lemma fl_inv_init: "no_locks s \<Longrightarrow> fl_inv s"
  by (simp add: fl_inv_def no_locks_def fl_wf_def excl_def)

lemma fl_inv_step:
  assumes "flock_step s s'" "fl_inv s"
  shows "fl_inv s'"
  using assms
proof cases
  case (round x ld cmd flag offset attr d vp new1 new2 r)
  then show ?thesis using reclock_round_inv [OF assms(2)] reclock_start_range by blast
next
  case (woken sf)
  then show ?thesis using assms(2) by (simp add: fl_inv_def)
next
  case (clean vp pid sysid)
  then show ?thesis using cleanlocks_inv [OF assms(2)] by simp
qed

lemma flock_run_inv: "flock_run s0 s \<Longrightarrow> fl_inv s0 \<Longrightarrow> fl_inv s"
  by (induction rule: flock_run.induct) (auto intro: fl_inv_step)

section \<open>Deadlock detection\<close>

definition waits :: "filock list \<Rightarrow> ((int \<times> int) \<times> (int \<times> int)) set" where
  "waits ss = {(w, v). sleeper ss w = Some v}"

text \<open>What a result says of the processes that wait for each other.\<close>

definition chain_res :: "filock list \<Rightarrow> int \<times> int \<Rightarrow> int \<times> int \<Rightarrow> bool \<Rightarrow> bool" where
  "chain_res ss b me r \<longleftrightarrow> (if r then (b, me) \<in> (waits ss)\<^sup>*
     else (b, me) \<notin> (waits ss)\<^sup>* \<and> (\<exists>c. (b, c) \<in> (waits ss)\<^sup>* \<and> sleeper ss c = None))"

lemma waits_reach: "sleeper ss b = Some v \<Longrightarrow> (b, c) \<in> (waits ss)\<^sup>* \<longleftrightarrow> b = c \<or> (v, c) \<in> (waits ss)\<^sup>*"
  by (auto simp: waits_def elim: converse_rtranclE intro: converse_rtrancl_into_rtrancl)

lemma waits_end: "sleeper ss b = None \<Longrightarrow> (b, c) \<in> (waits ss)\<^sup>* \<longleftrightarrow> b = c"
  by (auto simp: waits_def elim: converse_rtranclE)

lemma chain_res_step:
  assumes "b \<noteq> me" "sleeper ss b = Some v"
  shows "chain_res ss b me r \<longleftrightarrow> chain_res ss v me r"
  using assms by (auto simp: chain_res_def waits_reach [OF assms(2)])

lemma deadflck_from_sound:
  assumes "deadflck_from ss b me = Some r"
  shows "chain_res ss b me r"
  using assms
proof (rule deadflck_from.raw_induct [where P = chain_res, rotated])
  fix f ss b me r
  assume ih: "\<And>ss b me r. f ss b me = Some r \<Longrightarrow> chain_res ss b me r"
    and r: "(if b = me then Some True else case sleeper ss b of None \<Rightarrow> Some False | Some v \<Rightarrow> f ss v me) = Some r"
  show "chain_res ss b me r"
  proof (cases "b = me")
    case True
    then show ?thesis using r by (simp add: chain_res_def)
  next
    case False
    show ?thesis
    proof (cases "sleeper ss b")
      case None
      then show ?thesis using r False waits_end [OF None] by (auto simp: chain_res_def)
    next
      case (Some v)
      then show ?thesis using r False ih [of ss v me r] chain_res_step [OF False Some] by simp
    qed
  qed
qed

lemma deadflck_from_complete:
  assumes "(b, c) \<in> (waits ss)\<^sup>*" "c = me \<or> sleeper ss c = None"
  shows "\<exists>r. deadflck_from ss b me = Some r"
  using assms
proof (induction rule: converse_rtrancl_induct)
  case base
  then show ?case by (subst deadflck_from.simps) auto
next
  case (step b v)
  then have "sleeper ss b = Some v" by (simp add: waits_def)
  then show ?case using step by (subst deadflck_from.simps) auto
qed

lemma deadflck_from_iff: "deadflck_from ss b me = Some r \<longleftrightarrow> chain_res ss b me r"
proof
  assume c: "chain_res ss b me r"
  then have "\<exists>r. deadflck_from ss b me = Some r"
    using deadflck_from_complete [of b _ ss me] by (auto simp: chain_res_def split: if_splits)
  then obtain q where q: "deadflck_from ss b me = Some q" by blast
  then have "chain_res ss b me q" by (rule deadflck_from_sound)
  with c q show "deadflck_from ss b me = Some r" by (auto simp: chain_res_def split: if_splits)
qed (rule deadflck_from_sound)

text \<open>
  Requests of this machine: a process has at most one sleeping request, and none when it makes a new one.
\<close>

definition sleep_ok :: "filock list \<Rightarrow> bool" where
  "sleep_ok ss \<longleftrightarrow> distinct (map (fowner \<circ> fset) ss) \<and> acyclic (waits ss)"

lemma sleeper_Cons:
  "sleeper (f # ss) w = (if fowner (fset f) = w then Some (blk_pid f, wakeflg f) else sleeper ss w)"
  by (simp add: sleeper_def fowner_def)

lemma sleeper_None: "w \<notin> fowner ` fset ` set ss \<Longrightarrow> sleeper ss w = None"
  by (induction ss) (auto simp: sleeper_Cons, simp add: sleeper_def)

lemma waits_Cons:
  assumes "fowner (fset f) \<notin> fowner ` fset ` set ss"
  shows "waits (f # ss) = insert (fowner (fset f), (blk_pid f, wakeflg f)) (waits ss)"
  using sleeper_None [OF assms] by (auto simp: waits_def sleeper_Cons split: if_splits)

lemma waits_sub:
  assumes "distinct (map (fowner \<circ> fset) (xs @ f # ys))"
  shows "waits (xs @ ys) \<subseteq> waits (xs @ f # ys)"
  using assms
proof (induction xs)
  case Nil
  then show ?case using waits_Cons [of f ys] by (auto simp: image_image)
next
  case (Cons g xs)
  then show ?case by (auto simp: subset_iff waits_def sleeper_Cons split: if_splits)
qed

lemma sleep_ok_del:
  assumes "sleep_ok ss" "i < length ss"
  shows "sleep_ok (del_at ss i)"
proof -
  have ss: "ss = take i ss @ ss ! i # drop (Suc i) ss" using assms(2) by (simp add: id_take_nth_drop)
  have d: "distinct (map (fowner \<circ> fset) (take i ss @ ss ! i # drop (Suc i) ss))" using assms(1) ss by (simp add: sleep_ok_def)
  have "acyclic (waits (del_at ss i))"
    by (rule acyclic_subset [of "waits ss"]) (use assms(1) waits_sub [OF d] ss in \<open>simp_all add: sleep_ok_def del_at_def\<close>)
  then show ?thesis using d by (simp add: sleep_ok_def del_at_def)
qed

lemma acyclic_ends:
  assumes "acyclic (waits ss)"
  shows "\<exists>c. (b, c) \<in> (waits ss)\<^sup>* \<and> sleeper ss c = None"
proof -
  have "Domain (waits ss) \<subseteq> fowner ` fset ` set ss" using sleeper_None by (fastforce simp: waits_def)
  moreover have "waits ss \<subseteq> (\<lambda>w. (w, the (sleeper ss w))) ` Domain (waits ss)" by (auto simp: waits_def image_def)
  ultimately have "finite (waits ss)" by (meson List.finite_set finite_imageI finite_subset)
  then have "wf ((waits ss)\<inverse>)" using assms by (simp add: finite_acyclic_wf_converse)
  then show ?thesis
  proof (induction b)
    case (less b)
    show ?case
    proof (cases "sleeper ss b")
      case (Some v)
      then have "(b, v) \<in> waits ss" by (simp add: waits_def)
      then show ?thesis using less [of v] by (meson converse_iff converse_rtrancl_into_rtrancl)
    qed blast
  qed
qed

lemma deadflck_returns: "acyclic (waits (sleeplcks s)) \<Longrightarrow> deadflck s f ld \<noteq> None"
  using acyclic_ends [of "sleeplcks s" "fowner f"] deadflck_from_complete [of "fowner f" _ "sleeplcks s"]
  by (fastforce simp: deadflck_def fowner_def)

lemma reclock_adj_sleepers: "reclock_adj s vp p ld new1 new2 = (e, d, s1) \<Longrightarrow> sleeplcks s1 = sleeplcks s"
  by (erule reclock_adj_spec)

text \<open>A round for a process of this machine puts at most one entry among the sleepers.\<close>

lemma reclock_round_sleepers:
  assumes "reclock_round x s vp ld cmd new1 new2 = (r, s')" "cmd AND RCMDLCK = 0"
  shows "sleeplcks s' = sleeplcks s \<or> (\<exists>n found. sleeplcks s' = n # sleeplcks s \<and> fset n = ld
    \<and> (blk_pid n, wakeflg n) = fowner found \<and> deadflck s found ld = Some False)"
proof -
  have c: "cmd AND (RCMDLCK OR SLPFLCK) \<noteq> RCMDLCK OR SLPFLCK"
  proof
    assume "cmd AND (RCMDLCK OR SLPFLCK) = RCMDLCK OR SLPFLCK"
    then have "(cmd AND (RCMDLCK OR SLPFLCK)) AND RCMDLCK = RCMDLCK" by simp
    moreover have "(cmd AND (RCMDLCK OR SLPFLCK)) AND RCMDLCK = cmd AND RCMDLCK" by (simp add: and.assoc)
    ultimately show False using assms(2) by simp
  qed
  define R where "R l \<longleftrightarrow> (\<exists>n found. l = n # sleeplcks s \<and> fset n = ld
    \<and> (blk_pid n, wakeflg n) = fowner found \<and> deadflck s found ld = Some False)" for l
  have put: "R (sleeplcks s1)" if "put_sleeper s ld f new1 = Some s1" "deadflck s f ld = Some False" for f s1
  proof -
    from that(1) have "\<exists>n. sleeplcks s1 = n # sleeplcks s \<and> fset n = ld \<and> (blk_pid n, wakeflg n) = fowner f"
      by (auto simp: put_sleeper_def insflck_def ins_after_def fowner_def split: option.splits if_splits)
    then show ?thesis using that(2) unfolding R_def by blast
  qed
  have "sleeplcks s' = sleeplcks s \<or> R (sleeplcks s')" using assms c
    by (auto simp: reclock_round_def Let_def dest: put reclock_adj_sleepers split: if_splits option.splits bool.splits prod.splits)
  then show ?thesis unfolding R_def .
qed

lemma sleep_ok_round:
  assumes "reclock_round x s vp ld cmd new1 new2 = (r, s')" "cmd AND RCMDLCK = 0" "fowner ld \<notin> fowner ` fset ` set (sleeplcks s)"
    "sleep_ok (sleeplcks s)"
  shows "sleep_ok (sleeplcks s')"
  using reclock_round_sleepers [OF assms(1,2)]
proof (elim disjE exE conjE)
  fix n found
  assume n: "sleeplcks s' = n # sleeplcks s" "fset n = ld" "(blk_pid n, wakeflg n) = fowner found" "deadflck s found ld = Some False"
  then have "(fowner found, fowner ld) \<notin> (waits (sleeplcks s))\<^sup>*"
    using deadflck_from_sound [of "sleeplcks s" "fowner found" "fowner ld" False] by (simp add: deadflck_def fowner_def chain_res_def)
  moreover have "waits (sleeplcks s') = insert (fowner ld, fowner found) (waits (sleeplcks s))"
    using waits_Cons [of n "sleeplcks s"] n assms(3) by simp
  ultimately show ?thesis using assms(3,4) n(1,2) by (auto simp: sleep_ok_def acyclic_insert image_image)
qed (use assms(4) in simp)

lemma sleep_ok_woken:
  assumes "sleep_ok (sleeplcks s)"
  shows "sleep_ok (sleeplcks (reclock_woken s sf))"
proof (cases "find_at (\<lambda>f. fl_addr f = sf) (sleeplcks s)")
  case None
  then show ?thesis using assms by (simp add: reclock_woken_def)
next
  case (Some i)
  then have "i < length (sleeplcks s)" using find_at_Some by blast
  then show ?thesis using Some sleep_ok_del [OF assms] by (simp add: reclock_woken_def del_at_def)
qed

lemma cleanlocks_from_sleepers: "sleeplcks (fst (cleanlocks_from s ls i pid sysid)) = sleeplcks s"
proof (induction s ls i pid sysid rule: cleanlocks_from.induct)
  case (1 s ls i pid sysid)
  have "sleeplcks (fst (delflck s ls i)) = sleeplcks s" by (simp add: delflck_def WAKEUP_def Let_def)
  then show ?case using 1 by (auto simp: cleanlocks_from.simps [of s ls i] Let_def split: prod.split)
qed

inductive local_step :: "flst \<Rightarrow> flst \<Rightarrow> bool" where
  round: "reclock_start x ld cmd flag offset attr = Inr d \<Longrightarrow> cmd AND RCMDLCK = 0
    \<Longrightarrow> fowner d \<notin> fowner ` fset ` set (sleeplcks s) \<Longrightarrow> reclock_round x s vp d cmd new1 new2 = (r, s') \<Longrightarrow> local_step s s'"
| woken: "local_step s (reclock_woken s sf)"
| clean: "local_step s (cleanlocks s vp pid sysid)"

inductive local_run :: "flst \<Rightarrow> flst \<Rightarrow> bool" for s0 where
  start: "local_run s0 s0"
| step: "local_run s0 s \<Longrightarrow> local_step s s' \<Longrightarrow> local_run s0 s'"

lemma local_run_sleep_ok:
  assumes "local_run s0 s" "no_locks s0"
  shows "sleep_ok (sleeplcks s)"
  using assms(1)
proof induction
  case start
  then show ?case using assms(2) by (simp add: no_locks_def sleep_ok_def waits_def sleeper_def acyclic_def)
next
  case (step s s')
  from step(2) step(3) show ?case
  proof cases
    case (clean vp pid sysid)
    then show ?thesis using step(3) by (simp add: cleanlocks_def Let_def case_prod_unfold cleanlocks_from_sleepers)
  qed (auto intro: sleep_ok_round sleep_ok_woken)
qed

section \<open>Wake-ups\<close>

text \<open>A lock that somebody sleeps on is still there, or its sleepers have been woken.\<close>

definition woke :: "filock list \<Rightarrow> flst \<Rightarrow> filock list \<Rightarrow> flst \<Rightarrow> bool" where
  "woke ls s ls' s' \<longleftrightarrow> set (fl_waked s) \<subseteq> set (fl_waked s')
     \<and> (\<forall>f\<in>set ls. wakeflg f \<noteq> 0 \<longrightarrow> f \<in> set ls' \<or> fl_addr f \<in> set (fl_waked s'))"

lemma woke_refl [simp]: "woke ls s ls s"
  by (simp add: woke_def)

lemma woke_trans: "woke ls s ls1 s1 \<Longrightarrow> woke ls1 s1 ls2 s2 \<Longrightarrow> woke ls s ls2 s2"
  unfolding woke_def by blast

lemma set_split: "i < length ls \<Longrightarrow> f \<in> set ls \<Longrightarrow> f = ls ! i \<or> f \<in> set (take i ls) \<or> f \<in> set (drop (Suc i) ls)"
  by (metis Un_iff id_take_nth_drop list.set_intros(1) set_ConsD set_append)

lemma woke_del: "i < length (a_ls a) \<Longrightarrow> woke (a_ls a) (a_fl a) (a_ls (adj_del a i)) (a_fl (adj_del a i))"
  using set_split [of i "a_ls a"]
  by (auto simp: woke_def adj_del_def delflck_def WAKEUP_def del_at_def Let_def)

lemma woke_cut: "i < length (a_ls a) \<Longrightarrow> woke (a_ls a) (a_fl a) (a_ls (adj_cut a i)) (a_fl (adj_cut a i))"
  using set_split [of i "a_ls a"]
  by (auto simp: woke_def adj_cut_def WAKEUP_def upd_conv_take_nth_drop Let_def)

lemma woke_ins: "insflck s ls d p new = Some (s', ls') \<Longrightarrow> woke ls s ls' s' \<and> length ls \<le> length ls'"
  using set_append [of "take k ls" "drop k ls" for k]
  by (auto simp: woke_def insflck_def ins_after_def append_take_drop_id split: if_splits option.splits)

lemma woke_middle: "adj_middle a i new = Some b \<Longrightarrow> woke (a_ls a) (a_fl a) (a_ls b) (a_fl b) \<and> length (a_ls a) \<le> length (a_ls b)"
  by (auto simp: adj_middle_def adj_split_def Let_def dest: woke_ins split: if_splits option.splits)

fun res_ls :: "adjres \<Rightarrow> filock list" where
  "res_ls (ANext b j) = a_ls b" | "res_ls (AStop b) = a_ls b" | "res_ls (ARet e b) = a_ls b"

lemma flckadj_step_woke:
  assumes "i < length (a_ls a)"
  shows "woke (a_ls a) (a_fl a) (res_ls (flckadj_step a i new)) (res_fl (flckadj_step a i new))"
proof -
  have del: "woke (a_ls a) (a_fl a) (del_at (a_ls a) i) (a_fl (adj_del c i))" if "a_ls c = a_ls a" "a_fl c = a_fl a" for c
    using woke_del [of i c] assms that by simp
  have mid: "woke (a_ls a) (a_fl a) (del_at (a_ls b) i) (a_fl (adj_del b i)) \<and> woke (a_ls a) (a_fl a) (a_ls (adj_cut b i)) (a_fl (adj_cut b i))"
    if "adj_middle c i new = Some b" "a_ls c = a_ls a" "a_fl c = a_fl a" for b c
    using woke_middle [OF that(1)] that(2,3) assms woke_del [of i b] woke_cut [of i b] by (auto intro: woke_trans)
  define pr where "pr = (if i = 0 then None else Some (i - 1))"
  show ?thesis unfolding flckadj_step_def Let_def pr_def [symmetric]
    using woke_cut [OF assms] by (auto simp: del dest: mid split: spos.split epos.split prod.split option.split)
qed

lemma flckadj_scan_woke: "woke (a_ls a) (a_fl a) (res_ls (flckadj_scan a i new)) (res_fl (flckadj_scan a i new))"
proof (induction a i new rule: flckadj_scan.induct)
  case (1 a i new)
  show ?case
  proof (cases "i < length (a_ls a)")
    case True
    then show ?thesis using flckadj_step_woke [OF True, of new] 1 [OF True]
      by (cases "flckadj_step a i new") (auto simp: flckadj_scan.simps [of a i] intro: woke_trans)
  qed (simp add: flckadj_scan.simps [of a i])
qed

lemma flckadj_woke:
  assumes "flckadj s ls p d new1 new2 = (e, s', ls', d')"
  shows "woke ls s ls' s'"
proof -
  have w: "woke ls s (res_ls r) (res_fl r)" if "r = flckadj_scan \<lparr>a_fl = s, a_ls = ls, a_ins = p, a_ld = d\<rparr> (case p of None \<Rightarrow> 0 | Some i \<Rightarrow> i) new1" for r
    using flckadj_scan_woke [of "\<lparr>a_fl = s, a_ls = ls, a_ins = p, a_ld = d\<rparr>"] that by simp
  show ?thesis using assms w [OF refl]
    by (auto simp: flckadj_def dest: woke_ins intro: woke_trans split: adjres.splits if_splits option.splits)
qed

section \<open>Setting a lock\<close>

lemma reclock_round_sets:
  assumes "fl_inv s" "in_range d" "cmd AND SETFLCK \<noteq> 0" "reclock_round x s vp d cmd new1 new2 = (LDone None d', s')"
  obtains p s1 ls' d1 where "fl_wf (filocks s vp)" "req_ok d" "scan_from (filocks s vp) p d"
    "flckadj s (filocks s vp) p d new1 new2 = (None, s1, ls', d1)" "filocks s' = (filocks s)(vp := ls')"
proof (cases "l_type d = F_RDLCK \<or> l_type d = F_WRLCK")
  case rw: True
  have wf: "fl_wf (filocks s vp)" and le: "l_start d \<le> l_end d" and rq: "req_ok d"
    using assms(1,2) rw by (auto simp: fl_inv_def in_range_def req_ok_def)
  obtain b p where b: "blocked x (filocks s vp) d = (b, p)" by force
  have n: "b = None"
    using assms(3,4) rw b by (auto simp: reclock_round_def Let_def split: if_splits option.splits bool.splits)
  obtain e d1 s1 where a: "reclock_adj s vp p d new1 new2 = (e, d1, s1)" by (metis prod_cases3)
  then have e: "e = None" "filocks s' = filocks s1" using assms(3,4) rw b n by (auto simp: reclock_round_def split: if_splits)
  from a show ?thesis
    by (rule reclock_adj_spec) (use that [OF wf rq blocked_from [OF wf le, of x p]] b n e in auto)
next
  case False
  then have t: "l_type d = F_UNLCK" using assms(4) by (auto simp: reclock_round_def split: if_splits)
  have wf: "fl_wf (filocks s vp)" and rq: "req_ok d"
    using assms(1,2) t by (auto simp: fl_inv_def in_range_def req_ok_def)
  let ?p = "if filocks s vp = [] then None else Some 0"
  obtain e d1 s1 where a: "reclock_adj s vp ?p d new1 new2 = (e, d1, s1)" by (metis prod_cases3)
  then have e: "e = None" "filocks s' = filocks s1" using assms(3,4) t by (auto simp: reclock_round_def split: if_splits)
  from a show ?thesis
    by (rule reclock_adj_spec) (use that [OF wf rq scan_from_head [OF t]] e in auto)
qed

end
