(* ===== verification/KFlockProp.thy ===== *)
theory KFlockProp
  imports KFlockRun
begin

text \<open>
  The properties of the file and record locks of \<^verbatim>\<open>uts/i386/os/flock.c\<close>, with an example state, and two states that
  show where the code does not do what it means to.
\<close>

section \<open>Example\<close>

definition unix :: xenix where
  "unix = \<lparr>virtual_xout = False, isfcntl = False, islocking = False, pre_sv = False\<rparr>"

definition req :: "int \<Rightarrow> int \<Rightarrow> int \<Rightarrow> int \<Rightarrow> flock" where
  "req pid t a n = \<lparr>l_type = t, l_whence = 0, l_start = a, l_len = n, l_sysid = 0, l_pid = pid\<rparr>"

definition lk :: "int \<Rightarrow> int \<Rightarrow> int \<Rightarrow> int \<Rightarrow> int \<Rightarrow> nat \<Rightarrow> filock" where
  "lk pid t a b w ad = \<lparr>fset = req pid t a b, wakeflg = w, blk_pid = 0, fl_addr = ad\<rparr>"

text \<open>Processes 1 and 2 both read bytes 0 to 9, and somebody sleeps on the lock of process 1.\<close>

definition ex_list :: "filock list" where
  "ex_list = [lk 1 F_RDLCK 0 9 1 100, lk 2 F_RDLCK 0 4 0 101]"

definition ex_fl :: flst where
  "ex_fl = \<lparr>filocks = (\<lambda>vp. []), sleeplcks = [], reccnt = 0, rectot = 0, t_flckrec = 10, fl_waked = []\<rparr>"

definition ex_st :: flst where
  "ex_st = ex_fl\<lparr>filocks := (filocks ex_fl)(0 := ex_list), reccnt := 2\<rparr>"

lemma ex_list_wf: "fl_wf ex_list"
  by (simp add: fl_wf_def ex_list_def lk_def req_def ahead_def fl_ok_def fowner_def)

lemma ex_st_inv: "fl_inv ex_st"
proof -
  have "excl ex_list" by (auto simp: excl_def locked_def ex_list_def lk_def req_def covers_def)
  then show ?thesis using ex_list_wf by (simp add: fl_inv_def ex_st_def ex_fl_def excl_def fl_wf_def)
qed

definition ex_round :: "lockres \<times> flst" where
  "ex_round = reclock_round unix ex_st 0 (req 1 F_WRLCK 5 9) (SETFLCK OR SLPFLCK) (Some 102) (Some 103)"

lemma ex_round_res: "fst ex_round = LDone None (req 1 F_WRLCK 5 9)"
  by code_simp

lemma ex_round_locks: "filocks (snd ex_round) 0 = [lk 1 F_RDLCK 0 4 0 100, lk 2 F_RDLCK 0 4 0 101, lk 1 F_WRLCK 5 9 0 103]"
  by code_simp

lemma ex_req: "reclock_start unix (req 1 F_WRLCK 5 5) (SETFLCK OR SLPFLCK) (FREAD OR FWRITE) 0 (Inr 100) = Inr (req 1 F_WRLCK 5 9)"
  by code_simp

text \<open>
  C15: A request that sets or removes a lock and returns 0 gives exactly the bytes of the request the type of the request (none when it is an
  unlock) for the process of the request; every other byte and every other process keeps its locks, and so does every other file.
\<close>

theorem reclock_sets:
  assumes "fl_inv s" "reclock_start x ld cmd flag offset attr = Inr d" "cmd AND SETFLCK \<noteq> 0"
    "reclock_round x s vp d cmd new1 new2 = (LDone None d', s')"
  shows "(\<forall>w t y. locked (filocks s' vp) w t y \<longleftrightarrow>
      (if w = fowner ld \<and> l_start d \<le> y \<and> y \<le> l_end d then t = l_type ld \<and> t \<noteq> F_UNLCK else locked (filocks s vp) w t y))
    \<and> (\<forall>vq. vq \<noteq> vp \<longrightarrow> filocks s' vq = filocks s vq)"
proof -
  have d: "in_range d" "l_type d = l_type ld" "fowner d = fowner ld" using reclock_start_range [OF assms(2)] by auto
  obtain p s1 ls' d1 where a: "fl_wf (filocks s vp)" "req_ok d" "scan_from (filocks s vp) p d"
    "flckadj s (filocks s vp) p d new1 new2 = (None, s1, ls', d1)" "filocks s' = (filocks s)(vp := ls')"
    by (rule reclock_round_sets [OF assms(1) d(1) assms(3,4)])
  have "locked ls' = relocked (filocks s vp) d" using flckadj_spec [OF a(1-4)] by simp
  then show ?thesis using a(5) d(2,3) by (simp add: relocked_def)
qed

theorem reclock_sets_witness:
  "locked (filocks (snd ex_round) 0) (1, 0) F_WRLCK 7 \<and> \<not> locked (filocks (snd ex_round) 0) (1, 0) F_RDLCK 7
    \<and> locked (filocks (snd ex_round) 0) (1, 0) F_RDLCK 3"
proof -
  have r: "reclock_round unix ex_st 0 (req 1 F_WRLCK 5 9) (SETFLCK OR SLPFLCK) (Some 102) (Some 103) = (LDone None (req 1 F_WRLCK 5 9), snd ex_round)"
    using ex_round_res by (simp add: ex_round_def prod_eq_iff)
  have "(SETFLCK OR SLPFLCK) AND SETFLCK \<noteq> (0 :: u32)" by code_simp
  note reclock_sets [OF ex_st_inv ex_req this r]
  then show ?thesis
    by (simp add: fowner_def req_def ex_st_def ex_list_def lk_def covers_def)
qed

text \<open>
  C23: In every state that the calls can reach from a system without locks, no byte of a file that one process has a write lock on
  carries a lock of another process, and the locks of one process do not overlap.
\<close>

theorem flock_exclusion:
  assumes "flock_run s0 s" "no_locks s0"
  shows "fl_wf (filocks s vp) \<and> (locked (filocks s vp) w F_WRLCK y \<and> locked (filocks s vp) v t y \<longrightarrow> v = w)"
proof -
  have "fl_inv s" using flock_run_inv [OF assms(1) fl_inv_init [OF assms(2)]] .
  then show ?thesis unfolding fl_inv_def excl_def by blast
qed

definition ex_lock :: "flst \<Rightarrow> flock \<Rightarrow> u32 \<Rightarrow> nat \<Rightarrow> flst" where
  "ex_lock s d cmd n = snd (reclock_round unix s 0 (d\<lparr>l_len := l_start d + l_len d - 1\<rparr>) cmd (Some n) (Some (n + 1)))"

lemma ex_lock_step:
  assumes "reclock_start unix d cmd (FREAD OR FWRITE) 0 (Inr 100) = Inr (d\<lparr>l_len := l_start d + l_len d - 1\<rparr>)" "flock_run s0 s"
  shows "flock_run s0 (ex_lock s d cmd n)"
  using flock_run.step [OF assms(2) flock_step.round [OF assms(1), of s 0 "Some n" "Some (n + 1)"]] by (metis ex_lock_def prod.collapse)

lemma ex_fl_empty: "no_locks ex_fl"
  by (simp add: no_locks_def ex_fl_def)

theorem flock_exclusion_witness:
  "flock_run ex_fl (ex_lock ex_fl (req 1 F_WRLCK 5 5) SETFLCK 7)
    \<and> locked (filocks (ex_lock ex_fl (req 1 F_WRLCK 5 5) SETFLCK 7) 0) (1, 0) F_WRLCK 6
    \<and> \<not> locked (filocks (ex_lock ex_fl (req 1 F_WRLCK 5 5) SETFLCK 7) 0) (2, 0) F_RDLCK 6"
proof -
  have run: "flock_run ex_fl (ex_lock ex_fl (req 1 F_WRLCK 5 5) SETFLCK 7)"
    by (rule ex_lock_step) (code_simp, rule flock_run.start)
  have l: "locked (filocks (ex_lock ex_fl (req 1 F_WRLCK 5 5) SETFLCK 7) 0) (1, 0) F_WRLCK 6"
    by code_simp
  show ?thesis using run l flock_exclusion [OF run ex_fl_empty, of 0 "(1, 0)" 6 "(2, 0)" F_RDLCK] by auto
qed

text \<open>
  Who waits for whom, read off all the sleeping requests: the owner of the request waits for the owner of the lock that was
  in its way, which its entry names. It does not matter in which order the entries are, or which one \<^verbatim>\<open>deadflck\<close> finds.
\<close>

definition waits_for :: "filock list \<Rightarrow> ((int \<times> int) \<times> (int \<times> int)) set" where
  "waits_for ss = {((l_pid (fset f), l_sysid (fset f)), (blk_pid f, wakeflg f)) | f. f \<in> set ss}"

lemma sleeper_distinct:
  "distinct (map (fowner \<circ> fset) ss) \<Longrightarrow> sleeper ss w = Some v \<longleftrightarrow> (\<exists>f\<in>set ss. fowner (fset f) = w \<and> v = (blk_pid f, wakeflg f))"
proof (induction ss)
  case Nil
  then show ?case by (simp add: sleeper_def)
next
  case (Cons f ss)
  then show ?case by (auto simp: sleeper_Cons image_iff)
qed

lemma waits_for_waits: "distinct (map (fowner \<circ> fset) ss) \<Longrightarrow> waits_for ss = waits ss"
  by (auto simp: waits_for_def waits_def sleeper_distinct fowner_def)

lemma deadflck_local:
  assumes "local_run s0 s" "no_locks s0"
  shows "deadflck s f ld = Some ((fowner f, fowner ld) \<in> (waits_for (sleeplcks s))\<^sup>*)"
proof -
  have ok: "distinct (map (fowner \<circ> fset) (sleeplcks s))" "acyclic (waits (sleeplcks s))"
    using local_run_sleep_ok [OF assms] by (simp_all add: sleep_ok_def)
  obtain r where r: "deadflck s f ld = Some r" using deadflck_returns [OF ok(2)] by blast
  then have "chain_res (sleeplcks s) (fowner f) (fowner ld) r"
    using deadflck_from_iff [of "sleeplcks s" "fowner f" "fowner ld" r] by (simp add: deadflck_def fowner_def)
  then show ?thesis unfolding waits_for_waits [OF ok(1)] r by (auto simp: chain_res_def split: if_splits)
qed

text \<open>
  C34: Deadlock detection is exact as long as only processes of this machine ask, each with no other request asleep. Call a process
  waiting for another when one of the sleeping requests, whichever, is its own and names a lock of the other. Then \<^verbatim>\<open>deadflck\<close>
  returns, with yes exactly when the owner of the blocking lock waits, over any number of processes, for the process of the
  request, and a request that is willing to sleep and meets a lock is refused with \<^verbatim>\<open>EDEADLK\<close> in exactly this case.
\<close>

theorem deadflck_exact:
  assumes "local_run s0 s" "no_locks s0"
  shows "deadflck s f ld = Some ((fowner f, fowner ld) \<in> (waits_for (sleeplcks s))\<^sup>*)
    \<and> (blocked x (filocks s vp) ld = (Some j, p) \<and> l_type ld \<in> {F_RDLCK, F_WRLCK} \<and> cmd AND SLPFLCK \<noteq> 0 \<longrightarrow>
         (fst (reclock_round x s vp ld cmd new1 new2) = LDone (Some EDEADLK) ld
            \<longleftrightarrow> (fowner (fset (filocks s vp ! j)), fowner ld) \<in> (waits_for (sleeplcks s))\<^sup>*))"
proof -
  note d = deadflck_local [OF assms]
  have "fst (reclock_round x s vp ld cmd new1 new2) = LDone (Some EDEADLK) ld
      \<longleftrightarrow> (fowner (fset (filocks s vp ! j)), fowner ld) \<in> (waits_for (sleeplcks s))\<^sup>*"
    if "blocked x (filocks s vp) ld = (Some j, p)" "l_type ld \<in> {F_RDLCK, F_WRLCK}" "cmd AND SLPFLCK \<noteq> 0"
    using that by (auto simp: reclock_round_def Let_def d split: option.split bool.split)
  with d show ?thesis by blast
qed

lemma ex_local_step:
  assumes "reclock_start unix d cmd (FREAD OR FWRITE) 0 (Inr 100) = Inr (d\<lparr>l_len := l_start d + l_len d - 1\<rparr>)" "local_run s0 s"
    "cmd AND RCMDLCK = 0" "sleeplcks s = []"
  shows "local_run s0 (ex_lock s d cmd n)"
proof -
  have "local_step s (ex_lock s d cmd n)"
    by (rule local_step.round [OF assms(1,3), of _ 0 "Some n" "Some (n + 1)" "fst (reclock_round unix s 0 (d\<lparr>l_len := l_start d + l_len d - 1\<rparr>) cmd (Some n) (Some (n + 1)))"])
       (simp_all add: ex_lock_def assms(4))
  then show ?thesis by (rule local_run.step [OF assms(2)])
qed

lemma ex_local_run: "local_run ex_fl (ex_lock (ex_lock ex_fl (req 1 F_WRLCK 5 5) SETFLCK 7) (req 2 F_WRLCK 0 8) (SETFLCK OR SLPFLCK) 9)"
proof -
  have "local_run ex_fl (ex_lock ex_fl (req 1 F_WRLCK 5 5) SETFLCK 7)"
    by (rule ex_local_step) (code_simp, rule local_run.start, code_simp, simp add: ex_fl_def)
  then show ?thesis by (rule ex_local_step [rotated]) code_simp+
qed

theorem deadflck_exact_witness:
  "let s = ex_lock (ex_lock ex_fl (req 1 F_WRLCK 5 5) SETFLCK 7) (req 2 F_WRLCK 0 8) (SETFLCK OR SLPFLCK) 9 in
   deadflck s (req 2 F_WRLCK 20 9) (req 1 F_WRLCK 20 9) = Some True \<and> deadflck s (req 1 F_WRLCK 5 9) (req 3 F_WRLCK 0 9) = Some False
     \<and> fst (reclock_round unix s 0 (req 3 F_WRLCK 0 9) (SETFLCK OR SLPFLCK) (Some 11) (Some 12)) \<noteq> LDone (Some EDEADLK) (req 3 F_WRLCK 0 9)"
proof -
  let ?t = "ex_lock (ex_lock ex_fl (req 1 F_WRLCK 5 5) SETFLCK 7) (req 2 F_WRLCK 0 8) (SETFLCK OR SLPFLCK) 9"
  have "map fset (sleeplcks ?t) = [req 2 F_WRLCK 0 7]" "map blk_pid (sleeplcks ?t) = [1]" "map wakeflg (sleeplcks ?t) = [0]" by code_simp+
  then obtain f where "sleeplcks ?t = [f]" "fset f = req 2 F_WRLCK 0 7" "blk_pid f = 1" "wakeflg f = 0" by (auto simp: map_eq_Cons_conv)
  then have w: "waits_for (sleeplcks ?t) = {((2, 0), (1, 0))}" by (simp add: waits_for_def req_def)
  have r: "((1, 0), (3, 0)) \<notin> {((2 :: int, 0 :: int), (1 :: int, 0 :: int))}\<^sup>*"
  proof
    assume "((1, 0), (3, 0)) \<in> {((2 :: int, 0 :: int), (1 :: int, 0 :: int))}\<^sup>*"
    then show False by (rule converse_rtranclE) simp_all
  qed
  have l: "map fset (filocks ?t 0) = [req 1 F_WRLCK 5 9]" by code_simp
  have b: "fst (blocked unix (filocks ?t 0) (req 3 F_WRLCK 0 9)) = Some 0" by code_simp
  obtain g where g: "filocks ?t 0 = [g]" "fset g = req 1 F_WRLCK 5 9" using l by auto
  obtain p where p: "blocked unix (filocks ?t 0) (req 3 F_WRLCK 0 9) = (Some 0, p)" using b by (cases "blocked unix (filocks ?t 0) (req 3 F_WRLCK 0 9)") simp
  have c: "(SETFLCK OR SLPFLCK) AND SLPFLCK \<noteq> (0 :: u32)" by code_simp
  note ex = deadflck_exact [OF ex_local_run ex_fl_empty, unfolded w]
  have own: "fowner (req pid ty i n) = (pid, 0)" for pid ty i n by (simp add: fowner_def req_def)
  have "deadflck ?t (req 2 F_WRLCK 20 9) (req 1 F_WRLCK 20 9) = Some True"
    unfolding conjunct1 [OF ex] own by (simp add: r_into_rtrancl)
  moreover have "deadflck ?t (req 1 F_WRLCK 5 9) (req 3 F_WRLCK 0 9) = Some False"
    unfolding conjunct1 [OF ex] own using r by simp
  moreover have "fst (reclock_round unix ?t 0 (req 3 F_WRLCK 0 9) (SETFLCK OR SLPFLCK) (Some 11) (Some 12)) \<noteq> LDone (Some EDEADLK) (req 3 F_WRLCK 0 9)"
  proof -
    have ty: "l_type (req 3 F_WRLCK 0 9) \<in> {F_RDLCK, F_WRLCK}" by (simp add: req_def)
    have f: "fowner (fset (filocks ?t 0 ! 0)) = (1, 0)" by (simp only: g nth_Cons_0 own)
    note conjunct2 [OF ex [of "req 1 F_WRLCK 5 9" "req 3 F_WRLCK 0 9" unix 0 0 p "SETFLCK OR SLPFLCK" "Some 11" "Some 12"],
        rule_format, OF conjI [OF p conjI [OF ty c]], unfolded f own]
    with r show ?thesis by blast
  qed
  ultimately show ?thesis by (simp add: Let_def)
qed

lemma reclock_round_loops:
  assumes "reclock_round x s vp d cmd new1 new2 = (LLoop, s')"
  shows "\<exists>f. deadflck s f d = None"
proof -
  obtain b p where b: "blocked x (filocks s vp) d = (b, p)" by force
  obtain e d1 s1 where a: "reclock_adj s vp p d new1 new2 = (e, d1, s1)" by (metis prod_cases3)
  obtain e2 d2 s2 where a2: "reclock_adj s vp (if filocks s vp = [] then None else Some 0) d new1 new2 = (e2, d2, s2)" by (metis prod_cases3)
  show ?thesis using assms b a a2
    by (auto simp: reclock_round_def Let_def split: if_splits option.splits bool.splits)
qed

text \<open>
  C38: As long as only processes of this machine ask, each with no other request asleep, no processes wait for each other in a circle and no round of
  a request loops in the search for a deadlock.
\<close>

theorem local_never_loops:
  assumes "local_run s0 s" "no_locks s0"
  shows "acyclic (waits (sleeplcks s)) \<and> fst (reclock_round x s vp d cmd new1 new2) \<noteq> LLoop"
proof -
  have a: "acyclic (waits (sleeplcks s))" using local_run_sleep_ok [OF assms] by (simp add: sleep_ok_def)
  have "deadflck s f ld \<noteq> None" for f ld by (rule deadflck_returns [OF a])
  then have "fst (reclock_round x s vp d cmd new1 new2) \<noteq> LLoop"
    using reclock_round_loops [of x s vp d cmd new1 new2 "snd (reclock_round x s vp d cmd new1 new2)"] by (metis prod.collapse)
  with a show ?thesis ..
qed

theorem local_never_loops_witness:
  "let s = ex_lock (ex_lock ex_fl (req 1 F_WRLCK 5 5) SETFLCK 7) (req 2 F_WRLCK 0 8) (SETFLCK OR SLPFLCK) 9 in
   map fset (sleeplcks s) = [req 2 F_WRLCK 0 7]
     \<and> fst (reclock_round unix s 0 (req 1 F_WRLCK 0 4) (SETFLCK OR SLPFLCK) (Some 11) (Some 12)) \<noteq> LLoop"
proof -
  let ?t = "ex_lock (ex_lock ex_fl (req 1 F_WRLCK 5 5) SETFLCK 7) (req 2 F_WRLCK 0 8) (SETFLCK OR SLPFLCK) 9"
  note r = ex_local_run
  have "map fset (sleeplcks ?t) = [req 2 F_WRLCK 0 7]" by code_simp
  with local_never_loops [OF r ex_fl_empty, of unix 0 "req 1 F_WRLCK 0 4" "SETFLCK OR SLPFLCK" "Some 11" "Some 12"]
  show ?thesis unfolding Let_def by blast
qed

text \<open>
  C36: Whatever a request does to the locks of a file, a lock that some process sleeps on is afterwards in the list unchanged, or the
  processes that sleep on it have been woken.
\<close>

theorem flckadj_wakes:
  assumes "flckadj s ls p d new1 new2 = (e, s', ls', d')" "f \<in> set ls" "wakeflg f \<noteq> 0"
  shows "f \<in> set ls' \<or> fl_addr f \<in> set (fl_waked s')"
  using flckadj_woke [OF assms(1)] assms(2,3) by (auto simp: woke_def)

definition ex_adj :: "errno option \<times> flst \<times> filock list \<times> flock" where
  "ex_adj = flckadj ex_st ex_list (Some 0) (req 1 F_WRLCK 5 9) (Some 102) (Some 103)"

theorem flckadj_wakes_witness: "lk 1 F_RDLCK 0 9 1 100 \<notin> set (fst (snd (snd ex_adj))) \<and> 100 \<in> set (fl_waked (fst (snd ex_adj)))"
proof -
  have n: "lk 1 F_RDLCK 0 9 1 100 \<notin> set (fst (snd (snd ex_adj)))" by code_simp
  have "flckadj ex_st ex_list (Some 0) (req 1 F_WRLCK 5 9) (Some 102) (Some 103)
      = (fst ex_adj, fst (snd ex_adj), fst (snd (snd ex_adj)), snd (snd (snd ex_adj)))" by (simp add: ex_adj_def)
  from flckadj_wakes [OF this, of "lk 1 F_RDLCK 0 9 1 100"] n show ?thesis by (simp add: ex_list_def lk_def)
qed





text \<open>
  Cleaning up after a process removes from the list of the file exactly the locks of that process on that system, or of every process of the
  system, and keeps the others in order.
\<close>

theorem cleanlocks_exact:
  "filocks (cleanlocks s vp pid sysid) = (filocks s)(vp := filter (\<lambda>f. \<not> ((l_pid (fset f) = pid \<or> pid = - 1) \<and> l_sysid (fset f) = sysid)) (filocks s vp))"
  using cleanlocks_list [of s vp pid sysid] by (simp add: left_by_def)

text \<open>
  With two free entries in the table of locks and memory for them, setting or removing a lock does not fail.
\<close>

theorem flckadj_succeeds:
  assumes "reccnt s + 1 < t_flckrec s"
  shows "fst (flckadj s ls p d (Some ad1) (Some ad2)) = None"
  by (rule flckadj_room [OF assms])

theorem flckadj_succeeds_witness: "fst ex_adj = None"
  unfolding ex_adj_def by (rule flckadj_succeeds) (simp add: ex_st_def ex_fl_def)

section \<open>Two surprises\<close>

definition ex_full :: flst where
  "ex_full = ex_fl\<lparr>filocks := (filocks ex_fl)(0 := [lk 1 F_RDLCK 0 9 0 100]), reccnt := 1, t_flckrec := 1\<rparr>"

text \<open>
  When the table of locks is full, a request that fails with ENOLCK can have taken away a lock that the process had: with a read lock on
  bytes 0 to 9, asking for a write lock on bytes 5 to 9 fails, and bytes 5 to 9 are no longer locked.
\<close>

theorem enolck_loses_lock:
  "fst (reclock_round unix ex_full 0 (req 1 F_WRLCK 5 9) SETFLCK (Some 101) (Some 102)) = LDone (Some ENOLCK) (req 1 F_WRLCK 5 9)
    \<and> locked (filocks ex_full 0) (1, 0) F_RDLCK 5
    \<and> (\<forall>t. \<not> locked (filocks (snd (reclock_round unix ex_full 0 (req 1 F_WRLCK 5 9) SETFLCK (Some 101) (Some 102))) 0) (1, 0) t 5)"
proof -
  have "filocks (snd (reclock_round unix ex_full 0 (req 1 F_WRLCK 5 9) SETFLCK (Some 101) (Some 102))) 0 = [lk 1 F_RDLCK 0 4 0 100]"
    by code_simp
  moreover have "fst (reclock_round unix ex_full 0 (req 1 F_WRLCK 5 9) SETFLCK (Some 101) (Some 102)) = LDone (Some ENOLCK) (req 1 F_WRLCK 5 9)"
    by code_simp
  ultimately show ?thesis by (simp add: ex_full_def covers_def lk_def req_def fowner_def)
qed

text \<open>
  Four remote processes. 1 asks for the byte of 2 and then for the byte of 3; 2 asks for the byte of 1; 3 unlocks and 1 gets that byte.
  Now 1 and 2 wait for each other.
\<close>

abbreviation REMOTE :: u32 where "REMOTE \<equiv> SETFLCK OR SLPFLCK OR RCMDLCK"

definition ex_ring :: flst where
  "ex_ring =
    (let s = ex_lock ex_fl (req 2 F_WRLCK 0 1) REMOTE 10;
         s = ex_lock s (req 3 F_WRLCK 2 1) REMOTE 12;
         s = ex_lock s (req 1 F_WRLCK 4 1) REMOTE 14;
         s = ex_lock s (req 1 F_WRLCK 0 1) REMOTE 16;
         s = ex_lock s (req 1 F_WRLCK 2 1) REMOTE 18;
         s = ex_lock s (req 2 F_WRLCK 4 1) REMOTE 20;
         s = ex_lock s (req 3 F_UNLCK 2 1) REMOTE 22 in
     ex_lock s (req 1 F_WRLCK 2 1) REMOTE 24)"

lemma ex_ring_run: "flock_run ex_fl ex_ring"
  unfolding ex_ring_def Let_def by (intro ex_lock_step flock_run.start; code_simp)

lemma ex_ring_waits: "sleeper (sleeplcks ex_ring) (1, 0) = Some (2, 0)" "sleeper (sleeplcks ex_ring) (2, 0) = Some (1, 0)"
  by code_simp+

lemma ex_ring_closed: "((1, 0), c) \<in> (waits (sleeplcks ex_ring))\<^sup>* \<Longrightarrow> c = (1, 0) \<or> c = (2, 0)"
  by (induction rule: rtrancl_induct) (auto simp: waits_def ex_ring_waits)

lemma ex_ring_loops: "deadflck_from (sleeplcks ex_ring) (1, 0) (4, 0) = None"
proof -
  have "\<not> chain_res (sleeplcks ex_ring) (1, 0) (4, 0) r" for r
    using ex_ring_closed ex_ring_waits by (fastforce simp: chain_res_def split: if_splits)
  then show ?thesis using deadflck_from_iff by (meson option.exhaust)
qed

text \<open>
  C40: Requests of remote processes can lead to a state in which two processes wait for each other among the sleepers; a third process that asks
  for a lock of one of them then stays in the search for a deadlock forever.
\<close>

theorem remote_requests_loop:
  "flock_run ex_fl ex_ring \<and> no_locks ex_fl
    \<and> fst (reclock_round unix ex_ring 0 (req 4 F_WRLCK 4 4) (SETFLCK OR SLPFLCK) (Some 30) (Some 31)) = LLoop"
proof -
  obtain j p where b: "blocked unix (filocks ex_ring 0) (req 4 F_WRLCK 4 4) = (Some j, p)" "fowner (fset (filocks ex_ring 0 ! j)) = (1, 0)"
  proof
    show "blocked unix (filocks ex_ring 0) (req 4 F_WRLCK 4 4) = (Some 2, Some 1)" by code_simp
    show "fowner (fset (filocks ex_ring 0 ! 2)) = (1, 0)" by code_simp
  qed
  have "deadflck ex_ring (fset (filocks ex_ring 0 ! j)) (req 4 F_WRLCK 4 4) = None"
    using ex_ring_loops b(2) by (simp add: deadflck_def fowner_def req_def)
  moreover have "(SETFLCK OR SLPFLCK) AND SLPFLCK \<noteq> (0 :: u32)" by code_simp
  ultimately have "fst (reclock_round unix ex_ring 0 (req 4 F_WRLCK 4 4) (SETFLCK OR SLPFLCK) (Some 30) (Some 31)) = LLoop"
    using b(1) by (simp add: reclock_round_def Let_def req_def)
  then show ?thesis using ex_ring_run ex_fl_empty by blast
qed

end
