(* ===== verification/KPid.thy ===== *)
theory KPid
  imports KChain KCred
begin

text \<open>
  Process identifiers, process groups and sessions: \<^verbatim>\<open>uts/i386/os/pid.c\<close>, \<^verbatim>\<open>os/pgrp.c\<close>, \<^verbatim>\<open>os/session.c\<close>, the system call
  \<^verbatim>\<open>setpgrp\<close> of \<^verbatim>\<open>os/scalls.c\<close>, and the parts of \<^verbatim>\<open>newproc\<close>, \<^verbatim>\<open>exit\<close> and \<^verbatim>\<open>freeproc\<close> that tie a process to its family.

  The structures \<^verbatim>\<open>struct pid\<close>, \<^verbatim>\<open>proc_t\<close> and \<^verbatim>\<open>sess_t\<close> live in tables from addresses; an address that \<^verbatim>\<open>kmem_free\<close> has taken
  back maps to \<^const>\<open>None\<close>, so an operation that follows a null or a stale pointer is \<^const>\<open>None\<close>. The lists linked
  through \<^verbatim>\<open>pid_link\<close>, \<^verbatim>\<open>p_next\<close>, \<^verbatim>\<open>p_pglink\<close> and \<^verbatim>\<open>p_sibling\<close> are the lists of their structures in order; the free entries of
  \<^verbatim>\<open>procdir\<close> are linked by index. What \<^verbatim>\<open>kmem_zalloc\<close> returns is an argument. \<^verbatim>\<open>psignal\<close> is recorded in \<open>posted\<close>.
\<close>

section \<open>Data\<close>

record pident =
  pid_prinactive :: bool
  pid_pgorphaned :: bool
  pid_ref :: nat
  pid_prslot :: nat
  pid_id :: int
  pid_pglink :: "nat list"

record prc =
  p_stat :: int
  p_whystop :: int
  p_flag :: u32
  p_uid :: int
  p_opid :: int
  p_opgrp :: int
  p_pidp :: "nat option"
  p_pgidp :: "nat option"
  p_sessp :: "nat option"
  p_parent :: "nat option"
  p_child :: "nat list"

record sess =
  s_ref :: int
  s_mode :: u32
  s_uid :: int
  s_gid :: int
  s_ctime :: int
  s_dev :: int
  s_vp :: "nat option"
  s_sidp :: "nat option"
  s_cred :: "nat option"

datatype procent = PeProc nat | PeNext "nat option"

record pidsys =
  pidt :: "nat \<Rightarrow> pident option"
  prt :: "nat \<Rightarrow> prc option"
  sst :: "nat \<Rightarrow> sess option"
  pidhash :: "nat \<Rightarrow> nat list"
  practive :: "nat list"
  procdir :: "procent list"
  procentfree :: "nat option"
  nproc :: nat
  mpid :: int
  minpid :: int
  v_proc :: nat
  v_maxup :: int
  procovf :: int
  posted :: "(nat \<times> int) list"
  pid_waked :: "nat option list"

abbreviation (input) SIDL :: int where "SIDL \<equiv> 5"
abbreviation (input) SSTOP :: int where "SSTOP \<equiv> 4"
abbreviation (input) PR_JOBCONTROL :: int where "PR_JOBCONTROL \<equiv> 5"
abbreviation (input) STRC :: u32 where "STRC \<equiv> 0x2"
abbreviation (input) SEXECED :: u32 where "SEXECED \<equiv> 0x100000"
abbreviation (input) SIGHUP :: int where "SIGHUP \<equiv> 1"
abbreviation (input) SIGKILL :: int where "SIGKILL \<equiv> 9"
abbreviation (input) SIGCONT :: int where "SIGCONT \<equiv> 25"
abbreviation (input) NP_FAILOK :: u32 where "NP_FAILOK \<equiv> 0x1"
abbreviation (input) NP_NOLAST :: u32 where "NP_NOLAST \<equiv> 0x2"
abbreviation (input) MAXPID :: int where "MAXPID \<equiv> 30000"
abbreviation (input) NODEV :: int where "NODEV \<equiv> - 1"
abbreviation (input) VSGID :: u32 where "VSGID \<equiv> 0x400"

definition upd_pid :: "pidsys \<Rightarrow> nat \<Rightarrow> (pident \<Rightarrow> pident) \<Rightarrow> pidsys option" where
  "upd_pid s a f = do { x \<leftarrow> pidt s a; Some (s\<lparr>pidt := (pidt s)(a \<mapsto> f x)\<rparr>) }"

definition upd_prc :: "pidsys \<Rightarrow> nat \<Rightarrow> (prc \<Rightarrow> prc) \<Rightarrow> pidsys option" where
  "upd_prc s p f = do { x \<leftarrow> prt s p; Some (s\<lparr>prt := (prt s)(p \<mapsto> f x)\<rparr>) }"

definition upd_sess :: "pidsys \<Rightarrow> nat \<Rightarrow> (sess \<Rightarrow> sess) \<Rightarrow> pidsys option" where
  "upd_sess s a f = do { x \<leftarrow> sst s a; Some (s\<lparr>sst := (sst s)(a \<mapsto> f x)\<rparr>) }"

text \<open>Taking \<open>x\<close> off a linked list: the structures before it are read; a list without it ends in a null pointer.\<close>

fun unlink :: "(nat \<Rightarrow> bool) \<Rightarrow> nat \<Rightarrow> nat list \<Rightarrow> nat list option" where
  "unlink live x [] = None"
| "unlink live x (y # ys) =
    (if y = x then Some ys else if live y then map_option ((#) y) (unlink live x ys) else None)"

section \<open>pid.c\<close>

definition hashpid :: "int \<Rightarrow> nat" where
  "hashpid pid = nat (pid mod 64)"

fun pid_lookup_in :: "pidsys \<Rightarrow> int \<Rightarrow> nat list \<Rightarrow> nat option option" where
  "pid_lookup_in s pid [] = Some None"
| "pid_lookup_in s pid (a # as) = do { x \<leftarrow> pidt s a; if pid_id x = pid then Some (Some a) else pid_lookup_in s pid as }"

definition pid_lookup :: "pidsys \<Rightarrow> int \<Rightarrow> nat option option" where
  "pid_lookup s pid = pid_lookup_in s pid (pidhash s (hashpid pid))"

definition pid_setmin :: "pidsys \<Rightarrow> pidsys" where
  "pid_setmin s = s\<lparr>minpid := mpid s + 1\<rparr>"

text \<open>\<^verbatim>\<open>PID_HOLD\<close> and \<^verbatim>\<open>PID_RELE\<close>; the count is a field of six bits.\<close>

definition PID_HOLD :: "pidsys \<Rightarrow> nat \<Rightarrow> pidsys option" where
  "PID_HOLD s a = upd_pid s a (\<lambda>x. x\<lparr>pid_ref := (pid_ref x + 1) mod 64\<rparr>)"

definition pid_rele :: "pidsys \<Rightarrow> nat \<Rightarrow> pidsys option" where
  "pid_rele s a = do {
     x \<leftarrow> pidt s a;
     l \<leftarrow> unlink (\<lambda>b. pidt s b \<noteq> None) a (pidhash s (hashpid (pid_id x)));
     Some (s\<lparr>pidhash := (pidhash s)(hashpid (pid_id x) := l), pidt := (pidt s)(a := None)\<rparr>) }"

definition PID_RELE :: "pidsys \<Rightarrow> nat \<Rightarrow> pidsys option" where
  "PID_RELE s a = do { x \<leftarrow> pidt s a; if pid_ref x > 1 then upd_pid s a (\<lambda>x. x\<lparr>pid_ref := pid_ref x - 1\<rparr>) else pid_rele s a }"

partial_function (option) next_pid :: "pidsys \<Rightarrow> int \<Rightarrow> int option" where
  "next_pid s m = do {
     let m = (if m + 1 = MAXPID then minpid s else m + 1);
     r \<leftarrow> pid_lookup s m;
     if r = None then Some m else next_pid s m }"

declare next_pid.simps [code]

definition prc0 :: prc where
  "prc0 = \<lparr>p_stat = 0, p_whystop = 0, p_flag = 0, p_uid = 0, p_opid = 0, p_opgrp = 0, p_pidp = None, p_pgidp = None,
     p_sessp = None, p_parent = None, p_child = []\<rparr>"

datatype passign = PFail | PPanic | PNew int nat

text \<open>The limits that \<^verbatim>\<open>pid_assign\<close> checks first; \<open>u_uid\<close> and \<open>u_ruid\<close> are those of the caller.\<close>

definition pid_room :: "pidsys \<Rightarrow> u32 \<Rightarrow> int \<Rightarrow> int \<Rightarrow> bool" where
  "pid_room s cond u_uid u_ruid \<longleftrightarrow>
    \<not> (nproc s = v_proc s \<or> int (nproc s) \<ge> int (v_proc s) - 1 \<and> cond AND NP_NOLAST \<noteq> 0)
    \<and> \<not> (u_uid \<noteq> 0 \<and> u_ruid \<noteq> 0 \<and> int (length (filter (\<lambda>p. map_option p_uid (prt s p) = Some u_ruid) (practive s))) \<ge> v_maxup s)"

definition pid_assign :: "pidsys \<Rightarrow> u32 \<Rightarrow> int \<Rightarrow> int \<Rightarrow> nat option \<Rightarrow> nat option \<Rightarrow> (passign \<times> pidsys) option" where
  "pid_assign s cond u_uid u_ruid newp newpid =
    (if \<not> pid_room s cond u_uid u_ruid then Some (PFail, if nproc s = v_proc s then s\<lparr>procovf := procovf s + 1\<rparr> else s)
     else case (newp, newpid) of
       (Some prp, Some pidp) \<Rightarrow> do {
         m \<leftarrow> next_pid s (mpid s);
         pep \<leftarrow> procentfree s;
         e \<leftarrow> rd (procdir s) pep;
         nxt \<leftarrow> (case e of PeNext n \<Rightarrow> Some n | PeProc _ \<Rightarrow> None);
         Some (PNew m prp, s\<lparr>mpid := m, procentfree := nxt, procdir := (procdir s)[pep := PeProc prp],
           pidt := (pidt s)(pidp \<mapsto> \<lparr>pid_prinactive = False, pid_pgorphaned = False, pid_ref = 1, pid_prslot = pep, pid_id = m, pid_pglink = []\<rparr>),
           pidhash := (pidhash s)(hashpid m := pidp # pidhash s (hashpid m)),
           prt := (prt s)(prp \<mapsto> prc0\<lparr>p_stat := SIDL, p_opid := m, p_pidp := Some pidp\<rparr>),
           practive := prp # practive s, nproc := nproc s + 1\<rparr>) }
     | _ \<Rightarrow> Some (if cond AND NP_FAILOK = 0 then PPanic else PFail, s))"

definition prfind :: "pidsys \<Rightarrow> int \<Rightarrow> nat option option" where
  "prfind s pid = do {
     r \<leftarrow> pid_lookup s pid;
     case r of None \<Rightarrow> Some None
     | Some a \<Rightarrow> do {
         x \<leftarrow> pidt s a;
         if pid_prinactive x then Some None
         else do { e \<leftarrow> rd (procdir s) (pid_prslot x); case e of PeProc p \<Rightarrow> Some (Some p) | PeNext _ \<Rightarrow> None } } }"

definition pgfind :: "pidsys \<Rightarrow> int \<Rightarrow> nat option option" where
  "pgfind s pgid = do {
     r \<leftarrow> pid_lookup s pgid;
     case r of None \<Rightarrow> Some None
     | Some a \<Rightarrow> do { x \<leftarrow> pidt s a; Some (case pid_pglink x of [] \<Rightarrow> None | p # _ \<Rightarrow> Some p) } }"

definition pid_entry :: "pidsys \<Rightarrow> nat \<Rightarrow> nat option option" where
  "pid_entry s slot = do {
     e \<leftarrow> rd (procdir s) slot;
     case e of PeNext _ \<Rightarrow> Some None
     | PeProc p \<Rightarrow> do { x \<leftarrow> prt s p; Some (if p_stat x = SIDL then None else Some p) } }"

text \<open>\<^verbatim>\<open>proc_sched\<close>, \<^verbatim>\<open>pid0\<close> and \<^verbatim>\<open>session0\<close> have address 0.\<close>

definition pid_init :: "nat \<Rightarrow> int \<Rightarrow> prc \<Rightarrow> pidsys" where
  "pid_init n maxup sched =
    \<lparr>pidt = [0 \<mapsto> \<lparr>pid_prinactive = False, pid_pgorphaned = True, pid_ref = 3, pid_prslot = 0, pid_id = 0, pid_pglink = [0]\<rparr>],
     prt = [0 \<mapsto> sched\<lparr>p_pidp := Some 0, p_pgidp := Some 0, p_sessp := Some 0\<rparr>],
     sst = [0 \<mapsto> \<lparr>s_ref = 1, s_mode = 0x16D, s_uid = 0, s_gid = 0, s_ctime = 0, s_dev = NODEV, s_vp = None, s_sidp = Some 0, s_cred = None\<rparr>],
     pidhash = (\<lambda>h. if h = 0 then [0] else []), practive = [0],
     procdir = PeProc 0 # map (\<lambda>i. PeNext (if i + 1 < n then Some (i + 1) else None)) [1..<n],
     procentfree = Some 1, nproc = 1, mpid = 0, minpid = 0, v_proc = n, v_maxup = maxup, procovf = 0, posted = [], pid_waked = []\<rparr>"

section \<open>pgrp.c\<close>

definition pglinked :: "pidsys \<Rightarrow> nat \<Rightarrow> bool option" where
  "pglinked s c = do {
     cp \<leftarrow> prt s c;
     case p_parent cp of None \<Rightarrow> Some False
     | Some q \<Rightarrow> do { pp \<leftarrow> prt s q; Some (p_pgidp pp \<noteq> p_pgidp cp \<and> p_sessp pp = p_sessp cp) } }"

fun any_linked :: "pidsys \<Rightarrow> nat list \<Rightarrow> bool option" where
  "any_linked s [] = Some False"
| "any_linked s (m # ms) = do { l \<leftarrow> pglinked s m; if l then Some True else any_linked s ms }"

definition pgsignal :: "pidsys \<Rightarrow> nat \<Rightarrow> int \<Rightarrow> pidsys option" where
  "pgsignal s a sig = do {
     x \<leftarrow> pidt s a;
     if list_all (\<lambda>p. prt s p \<noteq> None) (pid_pglink x) then Some (s\<lparr>posted := posted s @ map (\<lambda>p. (p, sig)) (pid_pglink x)\<rparr>) else None }"

definition signal :: "pidsys \<Rightarrow> int \<Rightarrow> int \<Rightarrow> pidsys option" where
  "signal s pgid sig =
    (if pgid = 0 then Some s
     else do { r \<leftarrow> pid_lookup s pgid; case r of None \<Rightarrow> Some s | Some a \<Rightarrow> pgsignal s a sig })"

definition prsignal :: "pidsys \<Rightarrow> nat \<Rightarrow> int \<Rightarrow> pidsys option" where
  "prsignal s a sig = do {
     x \<leftarrow> pidt s a;
     if pid_prinactive x then Some s
     else do { e \<leftarrow> rd (procdir s) (pid_prslot x);
       case e of PeProc p \<Rightarrow> if prt s p = None then None else Some (s\<lparr>posted := posted s @ [(p, sig)]\<rparr>) | PeNext _ \<Rightarrow> None } }"

definition pgjoin :: "pidsys \<Rightarrow> nat \<Rightarrow> nat \<Rightarrow> pidsys option" where
  "pgjoin s p a = do {
     g \<leftarrow> pidt s a;
     s \<leftarrow> upd_pid s a (\<lambda>x. x\<lparr>pid_pglink := p # pid_pglink x\<rparr>);
     s \<leftarrow> upd_prc s p (\<lambda>x. x\<lparr>p_pgidp := Some a, p_opgrp := (if pid_id g \<le> 32767 then pid_id g else - 1)\<rparr>);
     if pid_pglink g = [] then do {
       s \<leftarrow> PID_HOLD s a;
       l \<leftarrow> pglinked s p;
       upd_pid s a (\<lambda>x. x\<lparr>pid_pgorphaned := \<not> l\<rparr>) }
     else if pid_pgorphaned g then do {
       l \<leftarrow> pglinked s p;
       if l then upd_pid s a (\<lambda>x. x\<lparr>pid_pgorphaned := False\<rparr>) else Some s }
     else Some s }"

definition pgexit :: "pidsys \<Rightarrow> nat \<Rightarrow> pidsys option" where
  "pgexit s p = do {
     x \<leftarrow> prt s p;
     a \<leftarrow> p_pgidp x;
     g \<leftarrow> pidt s a;
     l \<leftarrow> unlink (\<lambda>q. prt s q \<noteq> None) p (pid_pglink g);
     s \<leftarrow> upd_pid s a (\<lambda>x. x\<lparr>pid_pglink := l\<rparr>);
     s \<leftarrow> upd_prc s p (\<lambda>x. x\<lparr>p_pgidp := None, p_opgrp := 0\<rparr>);
     if l = [] then PID_RELE s a
     else if \<not> pid_pgorphaned g then do {
       b \<leftarrow> any_linked s l;
       if b then Some s else upd_pid s a (\<lambda>x. x\<lparr>pid_pgorphaned := True\<rparr>) }
     else Some s }"

text \<open>The loop of \<^verbatim>\<open>pgdetach\<close> over the members of a group, \<open>n\<close> of which were stopped so far.\<close>

fun detach_scan :: "pidsys \<Rightarrow> nat \<Rightarrow> nat \<Rightarrow> nat \<Rightarrow> nat list \<Rightarrow> pidsys option" where
  "detach_scan s pp a n [] = None"
| "detach_scan s pp a n (m # ms) = do {
     x \<leftarrow> prt s m;
     l \<leftarrow> (if m \<noteq> pp \<and> p_parent x \<noteq> Some pp then pglinked s m else Some False);
     if l then Some s
     else let n = (if p_stat x = SSTOP \<and> p_whystop x = PR_JOBCONTROL then n + 1 else n) in
       if ms = [] then do {
         s \<leftarrow> upd_pid s a (\<lambda>x. x\<lparr>pid_pgorphaned := True\<rparr>);
         if n \<noteq> 0 then do { s \<leftarrow> pgsignal s a SIGHUP; pgsignal s a SIGCONT } else Some s }
       else detach_scan s pp a n ms }"

fun pgdetach_from :: "pidsys \<Rightarrow> nat \<Rightarrow> nat list \<Rightarrow> pidsys option" where
  "pgdetach_from s pp [] = Some s"
| "pgdetach_from s pp (c # cs) = do {
     x \<leftarrow> prt s c;
     a \<leftarrow> p_pgidp x;
     g \<leftarrow> pidt s a;
     s \<leftarrow> (if pid_pgorphaned g then Some s else detach_scan s pp a 0 (pid_pglink g));
     pgdetach_from s pp cs }"

definition pgdetach :: "pidsys \<Rightarrow> nat \<Rightarrow> pidsys option" where
  "pgdetach s pp = do { x \<leftarrow> prt s pp; pgdetach_from s pp (p_child x) }"

fun other_member :: "pidsys \<Rightarrow> int \<Rightarrow> nat list \<Rightarrow> bool option" where
  "other_member s pgid [] = Some False"
| "other_member s pgid (p # ps) = do {
     x \<leftarrow> prt s p;
     a \<leftarrow> p_pidp x;
     g \<leftarrow> pidt s a;
     if pid_id g \<noteq> pgid then Some True else other_member s pgid ps }"

definition pgmembers :: "pidsys \<Rightarrow> int \<Rightarrow> bool option" where
  "pgmembers s pgid = do {
     r \<leftarrow> pid_lookup s pgid;
     case r of None \<Rightarrow> Some False | Some a \<Rightarrow> do { x \<leftarrow> pidt s a; other_member s pgid (pid_pglink x) } }"

section \<open>session.c\<close>

definition SESS_HOLD :: "pidsys \<Rightarrow> nat \<Rightarrow> pidsys option" where
  "SESS_HOLD s a = upd_sess s a (\<lambda>x. x\<lparr>s_ref := s16 (s_ref x + 1)\<rparr>)"

definition sess_rele :: "pidsys \<Rightarrow> nat \<Rightarrow> pidsys option" where
  "sess_rele s a = do {
     x \<leftarrow> sst s a;
     i \<leftarrow> s_sidp x;
     s \<leftarrow> PID_RELE s i;
     Some (s\<lparr>sst := (sst s)(a := None)\<rparr>) }"

definition SESS_RELE :: "pidsys \<Rightarrow> nat \<Rightarrow> pidsys option" where
  "SESS_RELE s a = do {
     s \<leftarrow> upd_sess s a (\<lambda>x. x\<lparr>s_ref := s16 (s_ref x - 1)\<rparr>);
     x \<leftarrow> sst s a;
     if s_ref x > 0 then Some s else sess_rele s a }"

text \<open>
  \<^verbatim>\<open>sess_create\<close> by process \<open>p\<close>, up to the allocation of the new session, which may sleep, and after it.
\<close>

definition sess_create1 :: "pidsys \<Rightarrow> nat \<Rightarrow> pidsys option" where
  "sess_create1 s p = do {
     s \<leftarrow> pgexit s p;
     x \<leftarrow> prt s p;
     a \<leftarrow> p_sessp x;
     SESS_RELE s a }"

definition sess_create2 :: "pidsys \<Rightarrow> nat \<Rightarrow> nat \<Rightarrow> pidsys option" where
  "sess_create2 s p new = do {
     x \<leftarrow> prt s p;
     let s = s\<lparr>sst := (sst s)(new \<mapsto> \<lparr>s_ref = 1, s_mode = 0, s_uid = 0, s_gid = 0, s_ctime = 0, s_dev = NODEV, s_vp = None,
       s_sidp = p_pidp x, s_cred = None\<rparr>)\<rparr>;
     s \<leftarrow> upd_prc s p (\<lambda>x. x\<lparr>p_sessp := Some new\<rparr>);
     i \<leftarrow> p_pidp x;
     s \<leftarrow> pgjoin s p i;
     PID_HOLD s i }"

definition sess_create :: "pidsys \<Rightarrow> nat \<Rightarrow> nat \<Rightarrow> pidsys option" where
  "sess_create s p new = do { s \<leftarrow> sess_create1 s p; sess_create2 s p new }"

definition cttydev :: "pidsys \<Rightarrow> nat \<Rightarrow> int option" where
  "cttydev s p = do { x \<leftarrow> prt s p; a \<leftarrow> p_sessp x; z \<leftarrow> sst s a; Some (if s_vp z = None then NODEV else s_dev z) }"

text \<open>\<open>crp\<close> is the address of the credentials \<open>cr\<close> of the process, \<open>rdev\<close> the device of vnode \<open>vp\<close>, \<open>cmask\<close> the mask of the process if it can be read.\<close>

definition alloctty :: "pidsys \<Rightarrow> credtab \<Rightarrow> nat \<Rightarrow> nat \<Rightarrow> int \<Rightarrow> nat \<Rightarrow> int \<Rightarrow> u32 option \<Rightarrow> (pidsys \<times> credtab) option" where
  "alloctty s t p vp rdev crp now cmask = do {
     x \<leftarrow> prt s p;
     a \<leftarrow> p_sessp x;
     z0 \<leftarrow> sst s 0;
     s \<leftarrow> upd_sess s a (\<lambda>z. z\<lparr>s_vp := Some vp, s_dev := rdev, s_cred := Some crp, s_uid := cr_uid (creds t crp), s_ctime := now,
       s_gid := (if s_mode z0 AND VSGID \<noteq> 0 then s_gid z0 else cr_gid (creds t crp)),
       s_mode := (case cmask of None \<Rightarrow> 0x1B6 | Some m \<Rightarrow> 0x1B6 AND NOT m)\<rparr>);
     Some (s, crhold t crp) }"

definition hascttyperm :: "sess \<Rightarrow> cred \<Rightarrow> u32 \<Rightarrow> bool option" where
  "hascttyperm z cr m =
    (if cr_uid cr = 0 then Some True
     else do {
       m \<leftarrow> (if cr_uid cr = s_uid z then Some m
             else do { g \<leftarrow> groupmember (s_gid z) cr; Some (if g then drop_bit 3 m else drop_bit 6 m) });
       Some (s_mode z AND m = m) })"

section \<open>setpgrp\<close>

definition pidno :: "pidsys \<Rightarrow> nat option \<Rightarrow> int option" where
  "pidno s r = do { a \<leftarrow> r; x \<leftarrow> pidt s a; Some (pid_id x) }"

definition sidno :: "pidsys \<Rightarrow> nat option \<Rightarrow> int option" where
  "sidno s r = do { a \<leftarrow> r; z \<leftarrow> sst s a; pidno s (s_sidp z) }"

fun find_child :: "pidsys \<Rightarrow> int \<Rightarrow> nat list \<Rightarrow> nat option option" where
  "find_child s pid [] = Some None"
| "find_child s pid (c # cs) = do { x \<leftarrow> prt s c; i \<leftarrow> pidno s (p_pidp x); if i = pid then Some (Some c) else find_child s pid cs }"

text \<open>\<^verbatim>\<open>setpgid\<close>: the process meant, then its new group.\<close>

definition setpgid_target :: "pidsys \<Rightarrow> nat \<Rightarrow> int \<Rightarrow> (errno + nat \<times> int) option" where
  "setpgid_target s p pid = do {
     x \<leftarrow> prt s p;
     me \<leftarrow> pidno s (p_pidp x);
     if pid = 0 then Some (Inr (p, me))
     else if pid < 0 \<or> pid \<ge> MAXPID then Some (Inl EINVAL)
     else if pid = me then Some (Inr (p, pid))
     else do {
       r \<leftarrow> find_child s pid (p_child x);
       case r of None \<Rightarrow> Some (Inl ESRCH)
       | Some c \<Rightarrow> do {
           y \<leftarrow> prt s c;
           Some (if p_flag y AND SEXECED \<noteq> 0 then Inl EACCES
                 else if p_sessp y \<noteq> p_sessp x then Inl EPERM else Inr (c, pid)) } } }"

definition setpgid_move :: "pidsys \<Rightarrow> nat \<Rightarrow> int \<Rightarrow> int \<Rightarrow> ((errno + int) \<times> pidsys) option" where
  "setpgid_move s p pid arg = do {
     x \<leftarrow> prt s p;
     sid \<leftarrow> sidno s (p_sessp x);
     if sid = pid then Some (Inl EPERM, s)
     else do {
       me \<leftarrow> pidno s (p_pidp x);
       if arg \<noteq> 0 \<and> (arg < 0 \<or> arg \<ge> MAXPID) then Some (Inl EINVAL, s)
       else do {
         let pgid = (if arg = 0 then me else arg);
         cur \<leftarrow> pidno s (p_pgidp x);
         if cur = pgid then Some (Inr 0, s)
         else if me = pgid then do {
           s \<leftarrow> pgexit s p;
           a \<leftarrow> p_pidp x;
           s \<leftarrow> pgjoin s p a;
           Some (Inr 0, s\<lparr>pid_waked := p_parent x # pid_waked s\<rparr>) }
         else do {
           r \<leftarrow> pgfind s pgid;
           case r of None \<Rightarrow> Some (Inl EPERM, s)
           | Some q \<Rightarrow> do {
               y \<leftarrow> prt s q;
               if p_sessp y \<noteq> p_sessp x then Some (Inl EPERM, s)
               else do {
                 s \<leftarrow> pgexit s p;
                 y \<leftarrow> prt s q;
                 a \<leftarrow> p_pgidp y;
                 s \<leftarrow> pgjoin s p a;
                 Some (Inr 0, s\<lparr>pid_waked := p_parent x # pid_waked s\<rparr>) } } } } } }"

definition setpgrp :: "pidsys \<Rightarrow> nat \<Rightarrow> int \<Rightarrow> int \<Rightarrow> int \<Rightarrow> nat \<Rightarrow> ((errno + int) \<times> pidsys) option" where
  "setpgrp s p flag pid pgid new = do {
     x \<leftarrow> prt s p;
     me \<leftarrow> pidno s (p_pidp x);
     if flag = 1 then do {
       sp \<leftarrow> p_sessp x;
       z \<leftarrow> sst s sp;
       m \<leftarrow> (if s_sidp z \<noteq> p_pidp x then pgmembers s me else Some True);
       s \<leftarrow> (if s_sidp z \<noteq> p_pidp x \<and> \<not> m then sess_create s p new else Some s);
       x \<leftarrow> prt s p;
       r \<leftarrow> sidno s (p_sessp x);
       Some (Inr r, s) }
     else if flag = 3 then do {
       m \<leftarrow> (if p_pgidp x = p_pidp x then Some True else pgmembers s me);
       if m then Some (Inl EPERM, s)
       else do {
         s \<leftarrow> sess_create s p new;
         x \<leftarrow> prt s p;
         r \<leftarrow> sidno s (p_sessp x);
         Some (Inr r, s) } }
     else if flag = 5 then do {
       t \<leftarrow> setpgid_target s p pid;
       case t of Inl e \<Rightarrow> Some (Inl e, s) | Inr (q, i) \<Rightarrow> setpgid_move s q i pgid }
     else if flag = 0 then do { r \<leftarrow> pidno s (p_pgidp x); Some (Inr r, s) }
     else if flag = 2 \<or> flag = 4 then
       if pid < 0 \<or> pid \<ge> MAXPID then Some (Inl EINVAL, s)
       else do {
         q \<leftarrow> (if pid \<noteq> 0 \<and> me \<noteq> pid then prfind s pid else Some (Some p));
         case q of None \<Rightarrow> Some (Inl ESRCH, s)
         | Some q \<Rightarrow> do {
             y \<leftarrow> prt s q;
             r \<leftarrow> (if flag = 2 then sidno s (p_sessp y) else pidno s (p_pgidp y));
             Some (Inr r, s) } }
     else Some (Inr 0, s) }"

section \<open>Processes come and go\<close>

definition pid_exit :: "pidsys \<Rightarrow> nat \<Rightarrow> pidsys option" where
  "pid_exit s p = do {
     s \<leftarrow> pgexit s p;
     x \<leftarrow> prt s p;
     sp \<leftarrow> p_sessp x;
     s \<leftarrow> SESS_RELE s sp;
     a \<leftarrow> p_pidp x;
     g \<leftarrow> pidt s a;
     s \<leftarrow> upd_pid s a (\<lambda>x. x\<lparr>pid_prinactive := True\<rparr>);
     d \<leftarrow> wr (procdir s) (pid_prslot g) (PeNext (procentfree s));
     let s = s\<lparr>procdir := d, procentfree := Some (pid_prslot g)\<rparr>;
     s \<leftarrow> PID_RELE s a;
     l \<leftarrow> unlink (\<lambda>q. prt s q \<noteq> None) p (practive s);
     Some (s\<lparr>practive := l, prt := (prt s)(p := None), nproc := nproc s - 1\<rparr>) }"

text \<open>\<^verbatim>\<open>newproc\<close> gives the child the session and the group of the parent, later the place in the family.\<close>

definition newproc_join :: "pidsys \<Rightarrow> nat \<Rightarrow> nat \<Rightarrow> pidsys option" where
  "newproc_join s pp cp = do {
     x \<leftarrow> prt s pp;
     a \<leftarrow> p_sessp x;
     s \<leftarrow> upd_prc s cp (\<lambda>c. c\<lparr>p_uid := p_uid x, p_sessp := Some a\<rparr>);
     s \<leftarrow> SESS_HOLD s a;
     g \<leftarrow> p_pgidp x;
     pgjoin s cp g }"

definition newproc_tie :: "pidsys \<Rightarrow> nat \<Rightarrow> nat \<Rightarrow> pidsys option" where
  "newproc_tie s pp cp = do {
     s \<leftarrow> upd_prc s cp (\<lambda>c. c\<lparr>p_parent := Some pp\<rparr>);
     upd_prc s pp (\<lambda>x. x\<lparr>p_child := cp # p_child x\<rparr>) }"

text \<open>\<^verbatim>\<open>exit\<close> gives the children of \<open>p\<close> to process \<open>init\<close>.\<close>

fun reparent :: "pidsys \<Rightarrow> nat \<Rightarrow> nat list \<Rightarrow> pidsys option" where
  "reparent s init [] = Some s"
| "reparent s init (c # cs) = do {
     x \<leftarrow> prt s c;
     s \<leftarrow> upd_prc s c (\<lambda>x. x\<lparr>p_parent := Some init\<rparr>);
     reparent (if p_flag x AND STRC \<noteq> 0 then s\<lparr>posted := posted s @ [(c, SIGKILL)]\<rparr> else s) init cs }"

definition exit_children :: "pidsys \<Rightarrow> nat \<Rightarrow> nat \<Rightarrow> pidsys option" where
  "exit_children s p init = do {
     x \<leftarrow> prt s p;
     if p_child x = [] then Some s
     else do {
       s \<leftarrow> pgdetach s p;
       s \<leftarrow> reparent s init (p_child x);
       s \<leftarrow> upd_prc s init (\<lambda>y. y\<lparr>p_child := p_child x @ p_child y\<rparr>);
       upd_prc s p (\<lambda>y. y\<lparr>p_child := []\<rparr>) } }"

definition freeproc :: "pidsys \<Rightarrow> nat \<Rightarrow> pidsys option" where
  "freeproc s p = do {
     x \<leftarrow> prt s p;
     q \<leftarrow> p_parent x;
     y \<leftarrow> prt s q;
     l \<leftarrow> unlink (\<lambda>c. prt s c \<noteq> None) p (p_child y);
     s \<leftarrow> upd_prc s q (\<lambda>y. y\<lparr>p_child := l\<rparr>);
     pid_exit s p }"

text \<open>
  What \<^verbatim>\<open>newproc\<close> does to these tables. The licence check, the scheduling class and the copy of the address space may fail: \<open>out\<close> says
  which of them does. The new process is then removed again.
\<close>

datatype forkout = Unlicensed | NoClass | NoCopy | ForkOK

text \<open>The end of a fork that failed: the entry of the new process is freed.\<close>

definition newproc_fail :: "pidsys \<Rightarrow> nat \<Rightarrow> (passign \<times> pidsys) option" where
  "newproc_fail s cp = do { s \<leftarrow> pid_exit s cp; Some (PFail, s) }"

text \<open>
  A failed copy. Without \<^verbatim>\<open>NP_FAILOK\<close> it is a panic. Otherwise the new process is taken off its parent's list, wherever it is on it, before
  its entry is freed.
\<close>

definition newproc_nocopy :: "pidsys \<Rightarrow> nat \<Rightarrow> u32 \<Rightarrow> (passign \<times> pidsys) option" where
  "newproc_nocopy s cp cond =
    (if cond AND NP_FAILOK = 0 then Some (PPanic, s)
     else do {
       x \<leftarrow> prt s cp;
       q \<leftarrow> p_parent x;
       y \<leftarrow> prt s q;
       l \<leftarrow> unlink (\<lambda>c. prt s c \<noteq> None) cp (p_child y);
       s \<leftarrow> upd_prc s q (\<lambda>y. y\<lparr>p_child := l\<rparr>);
       newproc_fail s cp })"

lemma newproc_nocopy_freeproc:
  "newproc_nocopy s cp cond = (if cond AND NP_FAILOK = 0 then Some (PPanic, s) else do { s \<leftarrow> freeproc s cp; Some (PFail, s) })"
  by (simp add: newproc_nocopy_def newproc_fail_def freeproc_def)

definition newproc :: "pidsys \<Rightarrow> nat \<Rightarrow> u32 \<Rightarrow> int \<Rightarrow> int \<Rightarrow> nat option \<Rightarrow> nat option \<Rightarrow> forkout \<Rightarrow> (passign \<times> pidsys) option" where
  "newproc s pp cond u_uid u_ruid newp newpid out = do {
     (r, s) \<leftarrow> pid_assign s cond u_uid u_ruid newp newpid;
     case r of PNew i cp \<Rightarrow>
       if out = Unlicensed then newproc_fail s cp
       else do {
         s \<leftarrow> newproc_join s pp cp;
         if out = NoClass then newproc_fail s cp
         else do {
           s \<leftarrow> newproc_tie s pp cp;
           if out = NoCopy then newproc_nocopy s cp cond else Some (r, s) } }
     | _ \<Rightarrow> Some (if cond AND NP_FAILOK = 0 then PPanic else r, s) }"

end
