(* ===== verification/KPidInv.thy ===== *)
theory KPidInv
  imports KPid
begin

text \<open>
  The invariant of process identifiers, groups and sessions, and what each routine does to it. It is a conjunction of
  predicates over the tables. In the middle of a routine, \<open>e\<close> is by how much the counts differ from the references, \<open>D\<close> the set of
  processes that have left their group or session, and \<open>X\<close> the set of those that their parent no longer lists.
\<close>

section \<open>Who refers to whom\<close>

type_synonym pidtab = "nat \<Rightarrow> pident option"
type_synonym prctab = "nat \<Rightarrow> prc option"
type_synonym sesstab = "nat \<Rightarrow> sess option"

definition owner :: "prctab \<Rightarrow> nat \<Rightarrow> nat \<Rightarrow> bool" where
  "owner P a p \<longleftrightarrow> (\<exists>x. P p = Some x \<and> p_pidp x = Some a)"

definition mem :: "prctab \<Rightarrow> nat \<Rightarrow> nat \<Rightarrow> bool" where
  "mem P a p \<longleftrightarrow> (\<exists>x. P p = Some x \<and> p_pgidp x = Some a)"

definition insess :: "prctab \<Rightarrow> nat \<Rightarrow> nat \<Rightarrow> bool" where
  "insess P z p \<longleftrightarrow> (\<exists>x. P p = Some x \<and> p_sessp x = Some z)"

definition sid :: "sesstab \<Rightarrow> nat \<Rightarrow> nat \<Rightarrow> bool" where
  "sid S z a \<longleftrightarrow> (\<exists>w. S z = Some w \<and> s_sidp w = Some a)"

lemma refer_upd [simp]:
  "owner (P(p \<mapsto> x)) a q \<longleftrightarrow> (if q = p then p_pidp x = Some a else owner P a q)"
  "mem (P(p \<mapsto> x)) a q \<longleftrightarrow> (if q = p then p_pgidp x = Some a else mem P a q)"
  "insess (P(p \<mapsto> x)) a q \<longleftrightarrow> (if q = p then p_sessp x = Some a else insess P a q)"
  "sid (S(z \<mapsto> w)) y a \<longleftrightarrow> (if y = z then s_sidp w = Some a else sid S y a)"
  "owner (P(p := None)) a q \<longleftrightarrow> q \<noteq> p \<and> owner P a q"
  "mem (P(p := None)) a q \<longleftrightarrow> q \<noteq> p \<and> mem P a q"
  "insess (P(p := None)) a q \<longleftrightarrow> q \<noteq> p \<and> insess P a q"
  "sid (S(z := None)) y a \<longleftrightarrow> y \<noteq> z \<and> sid S y a"
  by (auto simp: owner_def mem_def insess_def sid_def)

definition refs :: "prctab \<Rightarrow> sesstab \<Rightarrow> nat \<Rightarrow> nat" where
  "refs P S a = of_bool (\<exists>p. owner P a p) + of_bool (\<exists>p. mem P a p) + of_bool (\<exists>z. sid S z a)"

lemma refs_le: "refs P S a \<le> 3"
  by (simp add: refs_def)

text \<open>One order for the updates of the tables.\<close>

lemma upd_order [simp]:
  fixes s :: pidsys
  shows "s\<lparr>prt := P, pidt := T\<rparr> = s\<lparr>pidt := T, prt := P\<rparr>"
    "s\<lparr>prt := P, pidhash := h\<rparr> = s\<lparr>pidhash := h, prt := P\<rparr>"
    "s\<lparr>pidhash := h, pidt := T\<rparr> = s\<lparr>pidt := T, pidhash := h\<rparr>"
    "s\<lparr>sst := S, pidt := T\<rparr> = s\<lparr>pidt := T, sst := S\<rparr>"
    "s\<lparr>sst := S, pidhash := h\<rparr> = s\<lparr>pidhash := h, sst := S\<rparr>"
    "s\<lparr>sst := S, prt := P\<rparr> = s\<lparr>prt := P, sst := S\<rparr>"
  by (cases s; simp)+

section \<open>The invariant\<close>

definition act_ok :: "prctab \<Rightarrow> nat list \<Rightarrow> nat \<Rightarrow> bool" where
  "act_ok P act n \<longleftrightarrow> distinct act \<and> set act = dom P \<and> n = length act"

definition own_ok :: "pidtab \<Rightarrow> prctab \<Rightarrow> procent list \<Rightarrow> bool" where
  "own_ok T P d \<longleftrightarrow> (\<forall>p x. P p = Some x \<longrightarrow> (\<exists>a g. p_pidp x = Some a \<and> T a = Some g
     \<and> pid_prslot g < length d \<and> d ! pid_prslot g = PeProc p))"

definition inact_ok :: "pidtab \<Rightarrow> prctab \<Rightarrow> bool" where
  "inact_ok T P \<longleftrightarrow> (\<forall>a g. T a = Some g \<longrightarrow> (pid_prinactive g \<longleftrightarrow> \<not> (\<exists>p. owner P a p)))"

definition hash_ok :: "pidtab \<Rightarrow> (nat \<Rightarrow> nat list) \<Rightarrow> bool" where
  "hash_ok T h \<longleftrightarrow> (\<forall>k. distinct (h k)) \<and> (\<forall>k a. a \<in> set (h k) \<longleftrightarrow> (\<exists>g. T a = Some g \<and> hashpid (pid_id g) = k))
     \<and> (\<forall>a b g g'. T a = Some g \<and> T b = Some g' \<and> pid_id g = pid_id g' \<longrightarrow> a = b)"

definition grp_ok :: "(nat \<Rightarrow> int) \<Rightarrow> pidtab \<Rightarrow> prctab \<Rightarrow> sesstab \<Rightarrow> bool" where
  "grp_ok e T P S \<longleftrightarrow> (\<forall>a g. T a = Some g \<longrightarrow> distinct (pid_pglink g) \<and> set (pid_pglink g) = {p. mem P a p}
       \<and> int (pid_ref g) = int (refs P S a) + e a \<and> 0 < pid_ref g)
     \<and> (\<forall>a p. mem P a p \<longrightarrow> a \<in> dom T) \<and> (\<forall>a z. sid S z a \<longrightarrow> a \<in> dom T)"

definition sess_ok :: "nat set \<Rightarrow> prctab \<Rightarrow> sesstab \<Rightarrow> bool" where
  "sess_ok D P S \<longleftrightarrow> (\<forall>z w. S z = Some w \<longrightarrow> (\<exists>a. s_sidp w = Some a) \<and> s_ref w = int (card {p. insess P z p}) \<and> (\<exists>p. insess P z p))
     \<and> (\<forall>z p. insess P z p \<longrightarrow> z \<in> dom S)
     \<and> (\<forall>z y a. sid S z a \<and> sid S y a \<longrightarrow> y = z)
     \<and> (\<forall>z a p. sid S z a \<and> owner P a p \<and> p \<notin> D \<longrightarrow> insess P z p \<and> mem P a p)"

definition full_ok :: "nat set \<Rightarrow> prctab \<Rightarrow> bool" where
  "full_ok D P \<longleftrightarrow> (\<forall>p x. P p = Some x \<and> p \<notin> D \<longrightarrow> p_pgidp x \<noteq> None \<and> p_sessp x \<noteq> None)"

definition fam_ok :: "nat set \<Rightarrow> prctab \<Rightarrow> bool" where
  "fam_ok X P \<longleftrightarrow> (\<forall>p x q. P p = Some x \<and> p_parent x = Some q \<longrightarrow> q \<in> dom P)
     \<and> (\<forall>q y. P q = Some y \<longrightarrow> distinct (p_child y) \<and> set (p_child y) = {p. p \<notin> X \<and> (\<exists>x. P p = Some x \<and> p_parent x = Some q)})"

fun free_next :: "procent list \<Rightarrow> nat \<Rightarrow> nat option" where
  "free_next d i = (if i < length d then (case d ! i of PeNext n \<Rightarrow> n | PeProc _ \<Rightarrow> None) else None)"

definition slot_ok :: "procent list \<Rightarrow> nat option \<Rightarrow> nat \<Rightarrow> nat \<Rightarrow> bool" where
  "slot_ok d f n v \<longleftrightarrow> length d = v \<and> (\<exists>fs. chain (free_next d) f fs \<and> (\<forall>i\<in>set fs. i < v \<and> (\<exists>m. d ! i = PeNext m)) \<and> length fs + n = v)"

definition pid_ok :: "nat set \<Rightarrow> nat set \<Rightarrow> (nat \<Rightarrow> int) \<Rightarrow> pidsys \<Rightarrow> bool" where
  "pid_ok X D e s \<longleftrightarrow> act_ok (prt s) (practive s) (nproc s) \<and> own_ok (pidt s) (prt s) (procdir s) \<and> inact_ok (pidt s) (prt s)
     \<and> hash_ok (pidt s) (pidhash s) \<and> grp_ok e (pidt s) (prt s) (sst s) \<and> sess_ok D (prt s) (sst s) \<and> full_ok D (prt s)
     \<and> fam_ok X (prt s) \<and> slot_ok (procdir s) (procentfree s) (nproc s) (v_proc s)"

lemmas pid_ok_defs = pid_ok_def act_ok_def own_ok_def inact_ok_def hash_ok_def grp_ok_def sess_ok_def full_ok_def fam_ok_def slot_ok_def

definition pid_inv :: "pidsys \<Rightarrow> bool" where
  "pid_inv s \<longleftrightarrow> pid_ok {} {} (\<lambda>a. 0) s \<and> 3 * int (v_proc s) < MAXPID - minpid s \<and> 0 \<le> minpid s \<and> minpid s < MAXPID \<and> minpid s \<le> mpid s + 1 \<and> mpid s < MAXPID"

section \<open>Lists\<close>

lemma unlink_spec:
  assumes "x \<in> set ys" "\<And>y. y \<in> set ys \<Longrightarrow> live y" "distinct ys"
  shows "unlink live x ys = Some (remove1 x ys)"
  using assms by (induction ys) auto

lemma pid_lookup_in_spec:
  assumes "\<And>a. a \<in> set as \<Longrightarrow> pidt s a \<noteq> None"
  shows "pid_lookup_in s pid as = Some (List.find (\<lambda>a. map_option pid_id (pidt s a) = Some pid) as)"
  using assms
proof (induction as)
  case (Cons a as)
  then obtain g where "pidt s a = Some g" by fastforce
  then show ?case using Cons by simp
qed simp

lemma pid_lookup_spec:
  assumes "hash_ok (pidt s) (pidhash s)"
  shows "\<exists>r. pid_lookup s pid = Some r
    \<and> (case r of None \<Rightarrow> \<forall>a g. pidt s a = Some g \<longrightarrow> pid_id g \<noteq> pid | Some a \<Rightarrow> \<exists>g. pidt s a = Some g \<and> pid_id g = pid)"
proof -
  let ?as = "pidhash s (hashpid pid)" and ?P = "\<lambda>a. map_option pid_id (pidt s a) = Some pid"
  have as: "a \<in> set ?as \<longleftrightarrow> (\<exists>g. pidt s a = Some g \<and> hashpid (pid_id g) = hashpid pid)" for a
    using assms by (simp add: hash_ok_def)
  have r: "pid_lookup s pid = Some (List.find ?P ?as)"
    unfolding pid_lookup_def by (rule pid_lookup_in_spec) (use as in auto)
  show ?thesis
  proof (cases "List.find ?P ?as")
    case None
    then have "\<forall>a\<in>set ?as. \<not> ?P a" by (auto simp: find_None_iff)
    then have "pid_id g \<noteq> pid" if "pidt s a = Some g" for a g using that as by fastforce
    then show ?thesis using r None by auto
  next
    case (Some a)
    then have "?P a" by (auto simp: find_Some_iff)
    then show ?thesis using r Some by auto
  qed
qed

section \<open>Updates of the tables\<close>

lemma own_upd:
  assumes "own_ok T P d" "T a = Some g" "pid_prslot g' = pid_prslot g"
  shows "own_ok (T(a \<mapsto> g')) P d"
  unfolding own_ok_def
proof (intro allI impI)
  fix p x assume "P p = Some x"
  then obtain b y where "p_pidp x = Some b" "T b = Some y" "pid_prslot y < length d" "d ! pid_prslot y = PeProc p"
    using assms(1) unfolding own_ok_def by blast
  then show "\<exists>b y. p_pidp x = Some b \<and> (T(a \<mapsto> g')) b = Some y \<and> pid_prslot y < length d \<and> d ! pid_prslot y = PeProc p"
    using assms(2,3) by (cases "b = a") auto
qed

lemma inact_upd:
  assumes "inact_ok T P" "T a = Some g" "pid_prinactive g' = pid_prinactive g"
  shows "inact_ok (T(a \<mapsto> g')) P"
  using assms by (auto simp: inact_ok_def)

lemma own_pid:
  assumes "own_ok T P d" "P p = Some x"
  obtains a g where "p_pidp x = Some a" "T a = Some g" "pid_prslot g < length d" "d ! pid_prslot g = PeProc p"
  using assms unfolding own_ok_def by blast

text \<open>The hash table depends on the identifiers only.\<close>

lemma hash_ok_ids:
  "hash_ok T h \<longleftrightarrow> (\<forall>k. distinct (h k)) \<and> (\<forall>k a. a \<in> set (h k) \<longleftrightarrow> (\<exists>i. map_option pid_id (T a) = Some i \<and> hashpid i = k))
     \<and> (\<forall>a b i. map_option pid_id (T a) = Some i \<and> map_option pid_id (T b) = Some i \<longrightarrow> a = b)"
  unfolding hash_ok_def by (auto simp: map_option_eq_Some)

lemma hash_upd:
  assumes "hash_ok T h" "T a = Some g" "pid_id g' = pid_id g"
  shows "hash_ok (T(a \<mapsto> g')) h"
proof -
  have eq: "map_option pid_id ((T(a \<mapsto> g')) b) = map_option pid_id (T b)" for b using assms(2,3) by simp
  show ?thesis using assms(1) unfolding hash_ok_ids eq .
qed

lemma own_prc:
  assumes "own_ok T P d" "P p = Some x" "p_pidp x' = p_pidp x"
  shows "own_ok T (P(p \<mapsto> x')) d"
  using assms by (auto simp: own_ok_def)

lemma owner_prc: "P p = Some x \<Longrightarrow> p_pidp x' = p_pidp x \<Longrightarrow> owner (P(p \<mapsto> x')) = owner P"
  by (auto simp: owner_def fun_eq_iff)

lemma inact_prc: "inact_ok T P \<Longrightarrow> P p = Some x \<Longrightarrow> p_pidp x' = p_pidp x \<Longrightarrow> inact_ok T (P(p \<mapsto> x'))"
  by (simp only: inact_ok_def owner_prc)

lemma act_prc: "act_ok P act n \<Longrightarrow> P p = Some x \<Longrightarrow> act_ok (P(p \<mapsto> x')) act n"
  by (auto simp: act_ok_def)

lemma fam_prc:
  assumes "fam_ok X P" "P p = Some x" "p_parent x' = p_parent x" "p_child x' = p_child x"
  shows "fam_ok X (P(p \<mapsto> x'))"
proof -
  have "(\<exists>y. (P(p \<mapsto> x')) r = Some y \<and> p_parent y = Some q) \<longleftrightarrow> (\<exists>y. P r = Some y \<and> p_parent y = Some q)" for r q
    using assms(2,3) by auto
  then show ?thesis using assms unfolding fam_ok_def by (auto split: if_splits)
qed

text \<open>A change of a \<^verbatim>\<open>struct pid\<close> that keeps its identity, and a change of a process that keeps its identity and its family.\<close>

lemma pid_ok_pid:
  assumes "pid_ok X D e s" "pidt s a = Some g" "pid_prslot g' = pid_prslot g" "pid_prinactive g' = pid_prinactive g" "pid_id g' = pid_id g"
    "grp_ok e' ((pidt s)(a \<mapsto> g')) (prt s) (sst s)"
  shows "pid_ok X D e' (s\<lparr>pidt := (pidt s)(a \<mapsto> g')\<rparr>)"
proof -
  note ok = assms(1) [unfolded pid_ok_def]
  have "own_ok ((pidt s)(a \<mapsto> g')) (prt s) (procdir s)" using ok own_upd [of "pidt s" "prt s" "procdir s" a g g'] assms(2,3) by blast
  moreover have "inact_ok ((pidt s)(a \<mapsto> g')) (prt s)" using ok inact_upd [of "pidt s" "prt s" a g g'] assms(2,4) by blast
  moreover have "hash_ok ((pidt s)(a \<mapsto> g')) (pidhash s)" using ok hash_upd [of "pidt s" "pidhash s" a g g'] assms(2,5) by blast
  ultimately show ?thesis using ok assms(6) by (simp add: pid_ok_def)
qed

lemma pid_ok_flag:
  assumes "pid_ok X D e s" "pidt s a = Some g"
  shows "pid_ok X D e (s\<lparr>pidt := (pidt s)(a \<mapsto> g\<lparr>pid_pgorphaned := b\<rparr>)\<rparr>)"
  by (rule pid_ok_pid [OF assms]) (use assms in \<open>auto simp: pid_ok_def grp_ok_def\<close>)

lemma pid_hold_ok:
  assumes "pid_ok X D e s" "pidt s a = Some g" "e a < 60"
  shows "PID_HOLD s a = Some (s\<lparr>pidt := (pidt s)(a \<mapsto> g\<lparr>pid_ref := pid_ref g + 1\<rparr>)\<rparr>)"
    and "pid_ok X D (e(a := e a + 1)) (s\<lparr>pidt := (pidt s)(a \<mapsto> g\<lparr>pid_ref := pid_ref g + 1\<rparr>)\<rparr>)"
proof -
  have r: "int (pid_ref g) = int (refs (prt s) (sst s) a) + e a" using assms(1,2) by (auto simp: pid_ok_def grp_ok_def)
  then have "pid_ref g + 1 < 64" using refs_le [of "prt s" "sst s" a] assms(3) by linarith
  then show "PID_HOLD s a = Some (s\<lparr>pidt := (pidt s)(a \<mapsto> g\<lparr>pid_ref := pid_ref g + 1\<rparr>)\<rparr>)"
    using assms(2) by (simp add: PID_HOLD_def upd_pid_def)
  show "pid_ok X D (e(a := e a + 1)) (s\<lparr>pidt := (pidt s)(a \<mapsto> g\<lparr>pid_ref := pid_ref g + 1\<rparr>)\<rparr>)"
    by (rule pid_ok_pid [OF assms(1,2)]) (use assms(1,2) r in \<open>auto simp: pid_ok_def grp_ok_def\<close>)
qed

subsection \<open>Giving up a reference\<close>

text \<open>\<^verbatim>\<open>PID_RELE\<close> reads and writes the table of identifiers and its hash lists only.\<close>

definition rele_tab :: "pidtab \<Rightarrow> (nat \<Rightarrow> nat list) \<Rightarrow> nat \<Rightarrow> (pidtab \<times> (nat \<Rightarrow> nat list)) option" where
  "rele_tab T h a = do {
     x \<leftarrow> T a;
     if pid_ref x > 1 then Some (T(a \<mapsto> x\<lparr>pid_ref := pid_ref x - 1\<rparr>), h)
     else do { l \<leftarrow> unlink (\<lambda>b. T b \<noteq> None) a (h (hashpid (pid_id x))); Some (T(a := None), h(hashpid (pid_id x) := l)) } }"

lemma PID_RELE_tab: "PID_RELE s a = map_option (\<lambda>(T, h). s\<lparr>pidt := T, pidhash := h\<rparr>) (rele_tab (pidt s) (pidhash s) a)"
  by (simp add: PID_RELE_def pid_rele_def upd_pid_def rele_tab_def split: option.split bind_split)

lemma hash_del:
  assumes "hash_ok T h" "T a = Some g"
  shows "hash_ok (T(a := None)) (h(hashpid (pid_id g) := remove1 a (h (hashpid (pid_id g)))))"
proof -
  have d: "distinct (h k)" and m: "b \<in> set (h k) \<longleftrightarrow> (\<exists>g. T b = Some g \<and> hashpid (pid_id g) = k)" for b k
    using assms(1) by (simp_all add: hash_ok_def)
  have "b \<in> set ((h(hashpid (pid_id g) := remove1 a (h (hashpid (pid_id g))))) k) \<longleftrightarrow> (\<exists>g. (T(a := None)) b = Some g \<and> hashpid (pid_id g) = k)" for b k
    using d m assms(2) by (cases "b = a") auto
  then show ?thesis using assms(1) d unfolding hash_ok_def by auto
qed

lemma pid_rele_ok:
  assumes "pid_ok X D e s" "pidt s a = Some g" "0 < e a"
  obtains T h where "rele_tab (pidt s) (pidhash s) a = Some (T, h)" "pid_ok X D (e(a := e a - 1)) (s\<lparr>pidt := T, pidhash := h\<rparr>)"
    "\<And>b. b \<noteq> a \<Longrightarrow> T b = pidt s b" "0 < refs (prt s) (sst s) a \<or> 1 < e a \<Longrightarrow> T a = Some (g\<lparr>pid_ref := pid_ref g - 1\<rparr>)"
proof -
  note ok = assms(1) [unfolded pid_ok_def]
  have r: "int (pid_ref g) = int (refs (prt s) (sst s) a) + e a" using ok assms(2) by (auto simp: grp_ok_def)
  show ?thesis
  proof (cases "pid_ref g > 1")
    case True
    then have "rele_tab (pidt s) (pidhash s) a = Some ((pidt s)(a \<mapsto> g\<lparr>pid_ref := pid_ref g - 1\<rparr>), pidhash s)"
      using assms(2) by (simp add: rele_tab_def)
    moreover have "pid_ok X D (e(a := e a - 1)) (s\<lparr>pidt := (pidt s)(a \<mapsto> g\<lparr>pid_ref := pid_ref g - 1\<rparr>)\<rparr>)"
      by (rule pid_ok_pid [OF assms(1,2)]) (use ok assms(2) r True in \<open>auto simp: grp_ok_def\<close>)
    ultimately show ?thesis by (intro that [of "(pidt s)(a \<mapsto> g\<lparr>pid_ref := pid_ref g - 1\<rparr>)" "pidhash s"]) auto
  next
    case False
    then have z: "refs (prt s) (sst s) a = 0" "e a = 1" "pid_ref g = 1" using r assms(3) by linarith+
    then have no: "\<not> owner (prt s) a p" "\<not> mem (prt s) a p" "\<not> sid (sst s) y a" for p y
      by (auto simp: refs_def of_bool_def split: if_splits)
    have hm: "a \<in> set (pidhash s (hashpid (pid_id g)))" "\<And>b. b \<in> set (pidhash s (hashpid (pid_id g))) \<Longrightarrow> pidt s b \<noteq> None"
      "distinct (pidhash s (hashpid (pid_id g)))" using ok assms(2) by (auto simp: hash_ok_def)
    let ?T = "(pidt s)(a := None)" and ?h = "(pidhash s)(hashpid (pid_id g) := remove1 a (pidhash s (hashpid (pid_id g))))"
    have "rele_tab (pidt s) (pidhash s) a = Some (?T, ?h)"
      using assms(2) z(3) unlink_spec [OF hm] by (simp add: rele_tab_def)
    moreover have "pid_ok X D (e(a := e a - 1)) (s\<lparr>pidt := ?T, pidhash := ?h\<rparr>)"
    proof -
      have "own_ok ?T (prt s) (procdir s)" using ok no(1) by (fastforce simp: own_ok_def owner_def)
      moreover have "inact_ok ?T (prt s)" using ok by (auto simp: inact_ok_def)
      moreover have "grp_ok (e(a := e a - 1)) ?T (prt s) (sst s)" using ok no by (auto simp: grp_ok_def)
      ultimately show ?thesis using ok hash_del [of "pidt s" "pidhash s" a g] assms(2) by (simp add: pid_ok_def)
    qed
    ultimately show ?thesis using z by (intro that [of ?T ?h]) auto
  qed
qed

subsection \<open>Leaving and joining a group\<close>

lemma pglinked_ok:
  assumes "fam_ok X (prt s)" "prt s p \<noteq> None"
  shows "pglinked s p \<noteq> None"
proof -
  obtain x where x: "prt s p = Some x" using assms(2) by blast
  have "q \<in> dom (prt s)" if "p_parent x = Some q" for q using assms(1) x that unfolding fam_ok_def by blast
  then show ?thesis using x by (cases "p_parent x") (auto simp: pglinked_def)
qed

lemma any_linked_ok: "fam_ok X (prt s) \<Longrightarrow> (\<And>p. p \<in> set ps \<Longrightarrow> prt s p \<noteq> None) \<Longrightarrow> any_linked s ps \<noteq> None"
proof (induction ps)
  case (Cons p ps)
  then obtain l where "pglinked s p = Some l" using pglinked_ok [of X s p] by auto
  then show ?case using Cons by (cases l) auto
qed simp

text \<open>A process that changes its group or its session only.\<close>

definition same_self :: "prc \<Rightarrow> prc \<Rightarrow> bool" where
  "same_self x x' \<longleftrightarrow> p_pidp x' = p_pidp x \<and> p_parent x' = p_parent x \<and> p_child x' = p_child x"

lemma pid_ok_prc:
  assumes "pid_ok X D e s" "prt s p = Some x" "same_self x x'" "own_ok T (prt s) (procdir s)" "inact_ok T (prt s)" "hash_ok T (pidhash s)"
    "grp_ok e' T ((prt s)(p \<mapsto> x')) S" "sess_ok D' ((prt s)(p \<mapsto> x')) S" "full_ok D' ((prt s)(p \<mapsto> x'))"
  shows "pid_ok X D' e' (s\<lparr>pidt := T, prt := (prt s)(p \<mapsto> x'), sst := S\<rparr>)"
proof -
  note ok = assms(1) [unfolded pid_ok_def] and ss = assms(3) [unfolded same_self_def]
  have "act_ok ((prt s)(p \<mapsto> x')) (practive s) (nproc s)" using ok act_prc assms(2) by blast
  moreover have "own_ok T ((prt s)(p \<mapsto> x')) (procdir s)" using own_prc [OF assms(4,2)] ss by blast
  moreover have "inact_ok T ((prt s)(p \<mapsto> x'))" using inact_prc [OF assms(5,2)] ss by blast
  moreover have "fam_ok X ((prt s)(p \<mapsto> x'))" using ok fam_prc [of X "prt s" p x x'] assms(2) ss by blast
  ultimately show ?thesis using ok assms(6-9) by (simp add: pid_ok_def)
qed

text \<open>The counts after a change that concerns one identifier.\<close>

lemma grp_change:
  assumes "grp_ok e T P S"
    and oth: "\<And>b. b \<noteq> a \<Longrightarrow> refs P' S' b = refs P S b" "\<And>b q. b \<noteq> a \<Longrightarrow> mem P' b q = mem P b q" "\<And>b. b \<noteq> a \<Longrightarrow> e' b = e b"
      "\<And>b z. b \<noteq> a \<Longrightarrow> sid S' z b \<Longrightarrow> sid S z b"
    and at: "distinct (pid_pglink g')" "set (pid_pglink g') = {q. mem P' a q}" "int (pid_ref g') = int (refs P' S' a) + e' a" "0 < pid_ref g'"
  shows "grp_ok e' (T(a \<mapsto> g')) P' S'"
proof -
  have "distinct (pid_pglink h) \<and> set (pid_pglink h) = {p. mem P' b p} \<and> int (pid_ref h) = int (refs P' S' b) + e' b \<and> 0 < pid_ref h"
    if "(T(a \<mapsto> g')) b = Some h" for b h
  proof (cases "b = a")
    case False
    then show ?thesis using that assms(1) oth(1,3) [OF False] oth(2) [OF False] by (simp add: grp_ok_def)
  qed (use that at in simp)
  moreover have "b \<in> dom (T(a \<mapsto> g'))" if "mem P' b q \<or> sid S' z b" for b q z
  proof (cases "b = a")
    case False
    then have "mem P b q \<or> sid S z b" using that oth(2) [OF False] oth(4) [OF False] by blast
    then show ?thesis using assms(1) unfolding grp_ok_def by auto
  qed simp
  ultimately show ?thesis unfolding grp_ok_def by blast
qed

lemma leave_group:
  assumes "pid_ok X D e s" "prt s p = Some x" "p_pgidp x = Some a" "pidt s a = Some g"
    and x': "same_self x x'" "p_sessp x' = p_sessp x" "p_pgidp x' = None"
    and g': "g' = g\<lparr>pid_pglink := remove1 p (pid_pglink g)\<rparr>"
  shows "pid_ok X (insert p D) (if pid_pglink g' = [] then e(a := e a + 1) else e) (s\<lparr>pidt := (pidt s)(a \<mapsto> g'), prt := (prt s)(p \<mapsto> x')\<rparr>)"
proof -
  note ok = assms(1) [unfolded pid_ok_def]
  let ?P = "(prt s)(p \<mapsto> x')" and ?T = "(pidt s)(a \<mapsto> g')"
  have gl: "distinct (pid_pglink g)" "set (pid_pglink g) = {q. mem (prt s) a q}" using ok assms(4) by (auto simp: grp_ok_def)
  have set': "set (pid_pglink g') = {q. mem ?P a q}" using gl x'(3) by (auto simp: g')
  have "mem (prt s) a p" using assms(2,3) by (simp add: mem_def)
  moreover have ow: "owner ?P = owner (prt s)" using owner_prc [of "prt s" p x x'] assms(2) x'(1) by (simp add: same_self_def)
  moreover have "(\<exists>q. mem ?P a q) \<longleftrightarrow> pid_pglink g' \<noteq> []" using set' by (metis empty_Collect_eq set_empty)
  ultimately have ra: "int (refs (prt s) (sst s) a) = int (refs ?P (sst s) a) + (if pid_pglink g' = [] then 1 else 0)"
    by (auto simp: refs_def)
  have mb: "mem ?P b q \<longleftrightarrow> mem (prt s) b q" if "b \<noteq> a" for b q using that assms(2,3) x'(3) by (auto simp: mem_def)
  have rb: "refs ?P (sst s) b = refs (prt s) (sst s) b" if "b \<noteq> a" for b
    using ow mb [OF that] by (simp add: refs_def del: refer_upd)
  have "grp_ok (if pid_pglink g' = [] then e(a := e a + 1) else e) ?T ?P (sst s)"
  proof (rule grp_change [of e "pidt s" "prt s" "sst s"])
    have "int (pid_ref g) = int (refs (prt s) (sst s) a) + e a" "0 < pid_ref g" using ok assms(4) by (auto simp: grp_ok_def)
    then show "int (pid_ref g') = int (refs ?P (sst s) a) + (if pid_pglink g' = [] then e(a := e a + 1) else e) a" "0 < pid_ref g'"
      using ra by (auto simp: g')
  qed (use ok gl(1) set' rb mb in \<open>simp_all add: g' del: refer_upd\<close>)
  moreover have "sess_ok (insert p D) ?P (sst s)"
  proof -
    have isq: "insess ?P = insess (prt s)" using assms(2) x'(2) by (auto simp: insess_def fun_eq_iff)
    have m: "mem ?P b q \<longleftrightarrow> mem (prt s) b q" if "q \<noteq> p" for b q using that by simp
    show ?thesis using ok m unfolding sess_ok_def isq ow by (metis insert_iff)
  qed
  moreover have "full_ok (insert p D) ?P" using ok by (auto simp: full_ok_def)
  moreover have "own_ok ?T (prt s) (procdir s)" "inact_ok ?T (prt s)" "hash_ok ?T (pidhash s)"
    using ok assms(4) own_upd [of "pidt s" "prt s" "procdir s" a g g'] inact_upd [of "pidt s" "prt s" a g g'] hash_upd [of "pidt s" "pidhash s" a g g']
    by (simp_all add: g')
  ultimately show ?thesis using pid_ok_prc [OF assms(1,2) x'(1), of ?T _ "sst s"] by simp
qed

lemma enter_group:
  assumes "pid_ok X D e s" "prt s p = Some x" "p_pgidp x = None" "pidt s a = Some g" "p \<in> D"
    and x': "same_self x x'" "p_sessp x' = p_sessp x" "p_pgidp x' = Some a"
    and g': "g' = g\<lparr>pid_pglink := p # pid_pglink g\<rparr>"
  shows "pid_ok X D (if pid_pglink g = [] then e(a := e a - 1) else e) (s\<lparr>pidt := (pidt s)(a \<mapsto> g'), prt := (prt s)(p \<mapsto> x')\<rparr>)"
proof -
  note ok = assms(1) [unfolded pid_ok_def]
  let ?P = "(prt s)(p \<mapsto> x')" and ?T = "(pidt s)(a \<mapsto> g')"
  have gl: "distinct (pid_pglink g)" "set (pid_pglink g) = {q. mem (prt s) a q}" using ok assms(4) by (auto simp: grp_ok_def)
  have np: "p \<notin> set (pid_pglink g)" using gl(2) assms(2,3) by (simp add: mem_def)
  have set': "set (pid_pglink g') = {q. mem ?P a q}" using gl np x'(3) by (auto simp: g')
  have ow: "owner ?P = owner (prt s)" using owner_prc [of "prt s" p x x'] assms(2) x'(1) by (simp add: same_self_def)
  have "(\<exists>q. mem (prt s) a q) \<longleftrightarrow> pid_pglink g \<noteq> []" using gl(2) by (metis empty_Collect_eq set_empty)
  moreover have "mem ?P a p" using x'(3) by simp
  ultimately have ra: "int (refs ?P (sst s) a) = int (refs (prt s) (sst s) a) + (if pid_pglink g = [] then 1 else 0)"
    using ow by (auto simp: refs_def simp del: refer_upd)
  have mb: "mem ?P b q \<longleftrightarrow> mem (prt s) b q" if "b \<noteq> a" for b q using that assms(2,3) x'(3) by (auto simp: mem_def)
  have rb: "refs ?P (sst s) b = refs (prt s) (sst s) b" if "b \<noteq> a" for b
    using ow mb [OF that] by (simp add: refs_def del: refer_upd)
  have "grp_ok (if pid_pglink g = [] then e(a := e a - 1) else e) ?T ?P (sst s)"
  proof (rule grp_change [of e "pidt s" "prt s" "sst s"])
    have "int (pid_ref g) = int (refs (prt s) (sst s) a) + e a" "0 < pid_ref g" using ok assms(4) by (auto simp: grp_ok_def)
    then show "int (pid_ref g') = int (refs ?P (sst s) a) + (if pid_pglink g = [] then e(a := e a - 1) else e) a" "0 < pid_ref g'"
      using ra by (auto simp: g')
  qed (use ok gl(1) np set' rb mb in \<open>simp_all add: g' del: refer_upd\<close>)
  moreover have "sess_ok D ?P (sst s)"
  proof -
    have isq: "insess ?P = insess (prt s)" using assms(2) x'(2) by (auto simp: insess_def fun_eq_iff)
    have m: "mem ?P b q \<longleftrightarrow> mem (prt s) b q" if "q \<noteq> p" for b q using that by simp
    show ?thesis using ok m assms(5) unfolding sess_ok_def isq ow by metis
  qed
  moreover have "full_ok D ?P" using ok assms(5) by (auto simp: full_ok_def)
  moreover have "own_ok ?T (prt s) (procdir s)" "inact_ok ?T (prt s)" "hash_ok ?T (pidhash s)"
    using ok assms(4) own_upd [of "pidt s" "prt s" "procdir s" a g g'] inact_upd [of "pidt s" "prt s" a g g'] hash_upd [of "pidt s" "pidhash s" a g g']
    by (simp_all add: g')
  ultimately show ?thesis using pid_ok_prc [OF assms(1,2) x'(1), of ?T _ "sst s"] by simp
qed

text \<open>The routines.\<close>

lemma pgexit_ok:
  assumes "pid_ok X D e s" "prt s p = Some x" "p_pgidp x = Some a" "0 \<le> e a"
  obtains T h where "pgexit s p = Some (s\<lparr>pidt := T, pidhash := h, prt := (prt s)(p \<mapsto> x\<lparr>p_pgidp := None, p_opgrp := 0\<rparr>)\<rparr>)"
    "pid_ok X (insert p D) e (s\<lparr>pidt := T, pidhash := h, prt := (prt s)(p \<mapsto> x\<lparr>p_pgidp := None, p_opgrp := 0\<rparr>)\<rparr>)"
proof -
  note ok = assms(1) [unfolded pid_ok_def]
  have m: "mem (prt s) a p" using assms(2,3) by (simp add: mem_def)
  then obtain g where g: "pidt s a = Some g" using ok unfolding grp_ok_def by blast
  have gl: "distinct (pid_pglink g)" "set (pid_pglink g) = {q. mem (prt s) a q}" using ok g by (auto simp: grp_ok_def)
  define g' x' where "g' = g\<lparr>pid_pglink := remove1 p (pid_pglink g)\<rparr>" and "x' = x\<lparr>p_pgidp := None, p_opgrp := 0\<rparr>"
  let ?s = "s\<lparr>pidt := (pidt s)(a \<mapsto> g'), prt := (prt s)(p \<mapsto> x')\<rparr>"
  have u: "unlink (\<lambda>q. prt s q \<noteq> None) p (pid_pglink g) = Some (remove1 p (pid_pglink g))"
    by (rule unlink_spec) (use gl m in \<open>auto simp: mem_def\<close>)
  have lv: "pid_ok X (insert p D) (if pid_pglink g' = [] then e(a := e a + 1) else e) ?s"
    by (rule leave_group [OF assms(1-3) g]) (simp_all add: x'_def g'_def same_self_def)
  show ?thesis
  proof (cases "pid_pglink g' = []")
    case True
    have step: "pgexit s p = PID_RELE ?s a"
      using assms(2,3) g u True by (simp add: pgexit_def upd_pid_def upd_prc_def g'_def x'_def)
    have lv': "pid_ok X (insert p D) (e(a := e a + 1)) ?s" using lv True by simp
    obtain T h where "rele_tab (pidt ?s) (pidhash ?s) a = Some (T, h)" "pid_ok X (insert p D) e (?s\<lparr>pidt := T, pidhash := h\<rparr>)"
      by (rule pid_rele_ok [OF lv', of a g']) (use assms(4) in auto)
    then show ?thesis using step that [of h T] by (simp add: PID_RELE_tab x'_def)
  next
    case False
    have live: "prt ?s q \<noteq> None" if "q \<in> set (pid_pglink g')" for q
      using that gl by (auto simp: g'_def mem_def)
    have "fam_ok X (prt ?s)" using lv by (simp add: pid_ok_def)
    from any_linked_ok [OF this live] obtain b where b: "any_linked ?s (pid_pglink g') = Some b" by blast
    define T where "T = (if \<not> pid_pgorphaned g \<and> \<not> b then (pidt s)(a \<mapsto> g'\<lparr>pid_pgorphaned := True\<rparr>) else (pidt s)(a \<mapsto> g'))"
    have "pgexit s p = Some (?s\<lparr>pidt := T\<rparr>)"
      using assms(2,3) g u False b [unfolded g'_def x'_def]
      by (simp add: pgexit_def upd_pid_def upd_prc_def g'_def x'_def T_def)
    moreover have "pid_ok X (insert p D) e (?s\<lparr>pidt := T\<rparr>)"
      using lv False pid_ok_flag [OF lv, of a g' True] by (auto simp: T_def)
    ultimately show ?thesis using that [of "pidhash s" T] by (simp add: x'_def)
  qed
qed

lemma pgjoin_ok:
  assumes "pid_ok X D e s" "prt s p = Some x" "p_pgidp x = None" "pidt s a = Some g" "p \<in> D" "e a < 60"
  obtains T x' where "pgjoin s p a = Some (s\<lparr>pidt := T, prt := (prt s)(p \<mapsto> x')\<rparr>)" "pid_ok X D e (s\<lparr>pidt := T, prt := (prt s)(p \<mapsto> x')\<rparr>)"
    "same_self x x'" "p_sessp x' = p_sessp x" "p_pgidp x' = Some a" "p_flag x' = p_flag x"
    "\<And>b. T b = None \<longleftrightarrow> pidt s b = None"
proof -
  define g' x' where "g' = g\<lparr>pid_pglink := p # pid_pglink g\<rparr>" and "x' = x\<lparr>p_pgidp := Some a, p_opgrp := (if pid_id g \<le> 32767 then pid_id g else - 1)\<rparr>"
  let ?s = "s\<lparr>pidt := (pidt s)(a \<mapsto> g'), prt := (prt s)(p \<mapsto> x')\<rparr>"
  have x': "same_self x x'" "p_sessp x' = p_sessp x" "p_pgidp x' = Some a" "p_flag x' = p_flag x" by (simp_all add: x'_def same_self_def)
  have en: "pid_ok X D (if pid_pglink g = [] then e(a := e a - 1) else e) ?s"
    by (rule enter_group [OF assms(1-5)]) (simp_all add: x' g'_def)
  have fam: "fam_ok X (prt ?s)" using en by (simp add: pid_ok_def)
  have "\<exists>T. pgjoin s p a = Some (?s\<lparr>pidt := T\<rparr>) \<and> pid_ok X D e (?s\<lparr>pidt := T\<rparr>) \<and> (\<forall>b. T b = None \<longleftrightarrow> pidt s b = None)"
  proof (cases "pid_pglink g = []")
    case True
    then have en': "pid_ok X D (e(a := e a - 1)) ?s" using en by simp
    define g2 where "g2 = g'\<lparr>pid_ref := pid_ref g' + 1\<rparr>"
    let ?s2 = "?s\<lparr>pidt := (pidt ?s)(a \<mapsto> g2)\<rparr>"
    have h: "PID_HOLD ?s a = Some ?s2" using pid_hold_ok(1) [OF en', of a g'] assms(6) by (simp add: g2_def)
    have ok2: "pid_ok X D e ?s2" using pid_hold_ok(2) [OF en', of a g'] assms(6) by (simp add: g2_def)
    obtain l where l: "pglinked ?s2 p = Some l" using pglinked_ok [of X ?s2 p] fam by auto
    have "pgjoin s p a = Some (?s2\<lparr>pidt := (pidt ?s2)(a \<mapsto> g2\<lparr>pid_pgorphaned := \<not> l\<rparr>)\<rparr>)"
      using assms(2,4) True h [unfolded g'_def x'_def] l [unfolded g'_def x'_def]
      by (simp add: pgjoin_def upd_pid_def upd_prc_def g'_def x'_def)
    moreover have "pid_ok X D e (?s2\<lparr>pidt := (pidt ?s2)(a \<mapsto> g2\<lparr>pid_pgorphaned := \<not> l\<rparr>)\<rparr>)"
      by (rule pid_ok_flag [OF ok2]) simp
    ultimately show ?thesis using assms(4) by (intro exI [of _ "(pidt ?s2)(a \<mapsto> g2\<lparr>pid_pgorphaned := \<not> l\<rparr>)"]) auto
  next
    case False
    then have en': "pid_ok X D e ?s" using en by simp
    obtain l where l: "pglinked ?s p = Some l" using pglinked_ok [of X ?s p] fam by auto
    define T where "T = (if pid_pgorphaned g \<and> l then (pidt s)(a \<mapsto> g'\<lparr>pid_pgorphaned := False\<rparr>) else (pidt s)(a \<mapsto> g'))"
    have "pgjoin s p a = Some (?s\<lparr>pidt := T\<rparr>)"
      using assms(2,4) False l [unfolded g'_def x'_def] by (simp add: pgjoin_def upd_pid_def upd_prc_def g'_def x'_def T_def)
    moreover have "pid_ok X D e (?s\<lparr>pidt := T\<rparr>)" using en' pid_ok_flag [OF en', of a g' False] by (auto simp: T_def)
    ultimately show ?thesis using assms(4) by (intro exI [of _ T]) (auto simp: T_def)
  qed
  then obtain T where "pgjoin s p a = Some (?s\<lparr>pidt := T\<rparr>)" "pid_ok X D e (?s\<lparr>pidt := T\<rparr>)" "\<And>b. T b = None \<longleftrightarrow> pidt s b = None" by blast
  then show ?thesis using that [of x' T] x' by simp
qed

subsection \<open>Leaving and founding a session\<close>

lemma finite_insess: "finite (dom P) \<Longrightarrow> finite {p. insess P z p}"
  by (rule finite_subset [of _ "dom P"]) (auto simp: insess_def)

lemma act_finite: "act_ok P act n \<Longrightarrow> finite (dom P)"
  unfolding act_ok_def by (metis List.finite_set)

lemma act_card: "act_ok P act n \<Longrightarrow> card {p. insess P z p} \<le> n"
proof -
  assume a: "act_ok P act n"
  have "{p. insess P z p} \<subseteq> set act" using a by (auto simp: act_ok_def insess_def)
  then have "card {p. insess P z p} \<le> card (set act)" by (rule card_mono [OF List.finite_set])
  then show ?thesis using a distinct_card [of act] by (metis act_ok_def)
qed

lemma insess_drop:
  assumes "P p = Some x" "p_sessp x = Some z" "p_sessp x' = None"
  shows "{q. insess (P(p \<mapsto> x')) y q} = (if y = z then {q. insess P z q} - {p} else {q. insess P y q})"
  using assms by (auto simp: insess_def)

lemma leave_session:
  assumes "pid_ok X D e s" "prt s p = Some x" "p_sessp x = Some z" "nproc s \<le> 30000" "\<And>a. 0 \<le> e a" "p \<in> D"
    and x': "same_self x x'" "p_pgidp x' = p_pgidp x" "p_sessp x' = None"
  obtains T h S where "SESS_RELE s z = Some (s\<lparr>pidt := T, pidhash := h, sst := S\<rparr>)"
    "pid_ok X D e (s\<lparr>pidt := T, pidhash := h, prt := (prt s)(p \<mapsto> x'), sst := S\<rparr>)"
    "\<And>y. y \<noteq> z \<Longrightarrow> S y = sst s y" "\<And>y b. sid S y b \<Longrightarrow> sid (sst s) y b"
proof -
  note ok = assms(1) [unfolded pid_ok_def]
  let ?P = "(prt s)(p \<mapsto> x')"
  have fin: "finite {q. insess (prt s) z q}" using ok act_finite finite_insess by blast
  have pz: "p \<in> {q. insess (prt s) z q}" using assms(2,3) by (simp add: insess_def)
  then obtain w a where w: "sst s z = Some w" "s_sidp w = Some a" "s_ref w = int (card {q. insess (prt s) z q})"
    using ok unfolding sess_ok_def by blast
  have small: "s16 (s_ref w - 1) = s_ref w - 1" "card {q. insess (prt s) z q} > 0"
    using w(3) act_card [of "prt s" "practive s" "nproc s" z] ok assms(4) fin pz card_gt_0_iff by (auto simp: wrap_simps)
  have drop: "{q. insess ?P y q} = (if y = z then {q. insess (prt s) z q} - {p} else {q. insess (prt s) y q})" for y
    by (rule insess_drop) (use assms(2,3) x'(3) in simp_all)
  then have dz: "card {q. insess ?P z q} = card {q. insess (prt s) z q} - 1" using fin pz by simp
  have ow: "owner ?P = owner (prt s)" using owner_prc [of "prt s" p x x'] assms(2) x'(1) by (simp add: same_self_def)
  have mm: "mem ?P = mem (prt s)" using assms(2) x'(2) by (auto simp: mem_def fun_eq_iff)
  have so: "sess_ok D ?P S" if S: "S z = (if card {q. insess (prt s) z q} = 1 then None else Some (w\<lparr>s_ref := s_ref w - 1\<rparr>))" "\<And>y. y \<noteq> z \<Longrightarrow> S y = sst s y" for S
  proof -
    have sidS: "sid S y b \<Longrightarrow> sid (sst s) y b" for y b using S w by (cases "y = z") (auto simp: sid_def split: if_splits)
    have "(\<exists>a. s_sidp v = Some a) \<and> s_ref v = int (card {q. insess ?P y q}) \<and> (\<exists>q. insess ?P y q)" if "S y = Some v" for y v
    proof (cases "y = z")
      case True
      then have "v = w\<lparr>s_ref := s_ref w - 1\<rparr>" "card {q. insess (prt s) z q} \<noteq> 1" using that S(1) by (auto split: if_splits)
      moreover have "{q. insess ?P z q} \<noteq> {}" using dz small(2) calculation(2) by (metis Suc_pred card.empty One_nat_def)
      ultimately show ?thesis using True w dz small(2) by auto
    next
      case False
      then have "sst s y = Some v" using that S(2) by simp
      then have v: "(\<exists>a. s_sidp v = Some a) \<and> s_ref v = int (card {q. insess (prt s) y q}) \<and> {q. insess (prt s) y q} \<noteq> {}"
        using ok unfolding sess_ok_def by blast
      have eq: "{q. insess (prt s) y q} = {q. insess ?P y q}" using drop [of y] False by simp
      show ?thesis using v unfolding eq by blast
    qed
    moreover have "y \<in> dom S" if "insess ?P y q" for y q
    proof (cases "y = z")
      case True
      then have "q \<in> {q. insess ?P z q}" using that by simp
      then have "card {q. insess (prt s) z q} \<noteq> 1" using drop [of z] dz fin pz by (metis Diff_iff card_1_singletonE insertE singletonD singletonI empty_iff)
      then show ?thesis using True S(1) by auto
    next
      case False
      then have "insess (prt s) y q" using that drop [of y] by auto
      then have "y \<in> dom (sst s)" using ok unfolding sess_ok_def by blast
      then show ?thesis using S(2) [OF False] by auto
    qed
    moreover have "insess ?P y q \<and> mem ?P b q" if "sid S y b" "owner ?P b q" "q \<notin> D" for y b q
    proof -
      have "insess (prt s) y q \<and> mem (prt s) b q" using that sidS ow ok unfolding sess_ok_def by metis
      then show ?thesis using that(3) assms(6) mm by (auto simp del: refer_upd simp: insess_def)
    qed
    moreover have "u = y" if "sid S y b" "sid S u b" for y u b using that sidS ok unfolding sess_ok_def by blast
    ultimately show ?thesis unfolding sess_ok_def by blast
  qed
  have full: "full_ok D ?P" using ok assms(6) by (auto simp: full_ok_def)
  have done1: "pid_ok X D e' (s\<lparr>prt := ?P, sst := S\<rparr>)" if "grp_ok e' (pidt s) ?P S" "sess_ok D ?P S" for e' S
    using pid_ok_prc [OF assms(1,2) x'(1), of "pidt s" e' S D] ok that full by simp
  have gr: "grp_ok e' (pidt s) ?P S" if "\<And>b. int (refs ?P S b) + e' b = int (refs (prt s) (sst s) b) + e b" "\<And>y b. sid S y b \<Longrightarrow> sid (sst s) y b" for e' S
    using ok that(2) unfolding grp_ok_def mm that(1) by blast
  show ?thesis
  proof (cases "card {q. insess (prt s) z q} = 1")
    case False
    let ?S = "(sst s)(z \<mapsto> w\<lparr>s_ref := s_ref w - 1\<rparr>)"
    have sids: "sid ?S = sid (sst s)" using w(1) by (auto simp: sid_def fun_eq_iff)
    have "SESS_RELE s z = Some (s\<lparr>sst := ?S\<rparr>)"
      using w small False by (simp add: SESS_RELE_def upd_sess_def)
    moreover have "pid_ok X D e (s\<lparr>prt := ?P, sst := ?S\<rparr>)"
      by (rule done1 [OF gr so]) (use False sids ow mm in \<open>simp_all add: refs_def del: refer_upd\<close>)
    ultimately show ?thesis using that [of ?S "pidhash s" "pidt s"] sids by simp
  next
    case True
    let ?S = "(sst s)(z := None)"
    have za: "sid (sst s) z a" using w by (simp add: sid_def)
    have only: "y = z" if "sid (sst s) y a" for y using ok za that unfolding sess_ok_def by blast
    have r: "int (refs ?P ?S b) + (e(a := e a + 1)) b = int (refs (prt s) (sst s) b) + e b" for b
    proof (cases "b = a")
      case True
      have "\<not> sid ?S y a" for y using only [of y] by auto
      then have "\<not> (\<exists>y. sid ?S y a)" "\<exists>y. sid (sst s) y a" using za by blast+
      then show ?thesis using True ow mm by (simp add: refs_def del: refer_upd)
    next
      case False
      then have "sid ?S y b = sid (sst s) y b" for y using w by (auto simp: sid_def)
      then show ?thesis using False ow mm by (simp add: refs_def del: refer_upd)
    qed
    have ok2: "pid_ok X D (e(a := e a + 1)) (s\<lparr>prt := ?P, sst := ?S\<rparr>)"
      by (rule done1 [OF gr [OF r] so]) (use True in \<open>simp_all\<close>)
    obtain g where g: "pidt s a = Some g" using ok za unfolding grp_ok_def by blast
    obtain T h where t: "rele_tab (pidt s) (pidhash s) a = Some (T, h)" "pid_ok X D e (s\<lparr>pidt := T, pidhash := h, prt := ?P, sst := ?S\<rparr>)"
      by (rule pid_rele_ok [OF ok2, of a g]) (use g assms(5) [of a] in auto)
    have "SESS_RELE s z = Some (s\<lparr>pidt := T, pidhash := h, sst := ?S\<rparr>)"
      using w small True t(1) by (simp add: SESS_RELE_def sess_rele_def upd_sess_def PID_RELE_tab)
    then show ?thesis using that [of ?S h T] t(2) by simp
  qed
qed

lemma found_session:
  assumes "pid_ok X D e s" "prt s p = Some x" "p_sessp x = None" "p_pidp x = Some a" "sst s new = None" "p \<in> D"
    and free: "\<And>z. \<not> sid (sst s) z a"
    and x': "same_self x x'" "p_pgidp x' = p_pgidp x" "p_sessp x' = Some new"
    and w: "s_ref w = 1" "s_sidp w = Some a"
  shows "pid_ok X D (e(a := e a - 1)) (s\<lparr>prt := (prt s)(p \<mapsto> x'), sst := (sst s)(new \<mapsto> w)\<rparr>)"
proof -
  note ok = assms(1) [unfolded pid_ok_def]
  let ?P = "(prt s)(p \<mapsto> x')" and ?S = "(sst s)(new \<mapsto> w)"
  have ow: "owner ?P = owner (prt s)" using owner_prc [of "prt s" p x x'] assms(2) x'(1) by (simp add: same_self_def)
  have mm: "mem ?P = mem (prt s)" using assms(2) x'(2) by (auto simp: mem_def fun_eq_iff)
  obtain g where g: "pidt s a = Some g" using ok own_pid [of "pidt s" "prt s" "procdir s" p x] assms(2,4) by auto
  have nn: "\<not> insess (prt s) new q" for q using ok assms(5) unfolding sess_ok_def by blast
  have ins: "{q. insess ?P y q} = (if y = new then {p} else {q. insess (prt s) y q})" for y
    using assms(2,3) x'(3) nn by (auto simp: insess_def)
  have sids: "sid ?S y b \<longleftrightarrow> y = new \<and> b = a \<or> y \<noteq> new \<and> sid (sst s) y b" for y b using w(2) by auto
  have nsid: "\<not> sid (sst s) new b" for b using assms(5) by (simp add: sid_def)
  have "int (refs ?P ?S b) + (e(a := e a - 1)) b = int (refs (prt s) (sst s) b) + e b" for b
  proof (cases "b = a")
    case True
    have "\<exists>y. sid ?S y a" using sids by blast
    then show ?thesis using True free ow mm by (simp add: refs_def del: refer_upd)
  next
    case False
    then have "sid ?S y b = sid (sst s) y b" for y using sids nsid by blast
    then show ?thesis using False ow mm by (simp add: refs_def del: refer_upd)
  qed
  then have "grp_ok (e(a := e a - 1)) (pidt s) ?P ?S"
    using ok sids g unfolding grp_ok_def mm by auto
  moreover have "sess_ok D ?P ?S"
  proof -
    have "(\<exists>b. s_sidp v = Some b) \<and> s_ref v = int (card {q. insess ?P y q}) \<and> (\<exists>q. insess ?P y q)" if "?S y = Some v" for y v
    proof (cases "y = new")
      case True
      then show ?thesis using that w ins [of new] x'(3) by auto
    next
      case False
      then have v: "(\<exists>a. s_sidp v = Some a) \<and> s_ref v = int (card {q. insess (prt s) y q}) \<and> {q. insess (prt s) y q} \<noteq> {}"
        using ok that unfolding sess_ok_def by auto
      have eq: "{q. insess (prt s) y q} = {q. insess ?P y q}" using ins [of y] False by simp
      show ?thesis using v unfolding eq by blast
    qed
    moreover have "y \<in> dom ?S" if "insess ?P y q" for y q
    proof (cases "y = new")
      case False
      then have "insess (prt s) y q" using that ins [of y] by auto
      then show ?thesis using ok unfolding sess_ok_def by auto
    qed simp
    moreover have "insess ?P y q \<and> mem ?P b q" if "sid ?S y b" "owner ?P b q" "q \<notin> D" for y b q
    proof -
      have "q \<noteq> p" using that(3) assms(6) by blast
      have "y \<noteq> new"
      proof
        assume "y = new"
        then have "b = a" using that(1) sids by blast
        then have "owner (prt s) a q" using that(2) ow by simp
        moreover have "owner (prt s) a p" using assms(2,4) by (simp add: owner_def)
        ultimately have "q = p" using ok unfolding own_ok_def owner_def by (metis option.inject procent.inject(1))
        then show False using \<open>q \<noteq> p\<close> by blast
      qed
      then have "insess (prt s) y q \<and> mem (prt s) b q" using that sids ow ok unfolding sess_ok_def by metis
      then show ?thesis using \<open>q \<noteq> p\<close> by simp
    qed
    moreover have "u = y" if "sid ?S y b" "sid ?S u b" for y u b using that sids free nsid ok unfolding sess_ok_def by metis
    ultimately show ?thesis unfolding sess_ok_def by blast
  qed
  moreover have "full_ok D ?P" using ok assms(6) by (auto simp: full_ok_def)
  ultimately show ?thesis using pid_ok_prc [OF assms(1,2) x'(1), of "pidt s" _ ?S D] ok by simp
qed

text \<open>A process that has a group and a session again.\<close>

lemma pid_ok_settled:
  assumes "pid_ok X (insert p D) e s" "prt s p = Some x" "p_pgidp x \<noteq> None" "p_sessp x = Some z"
    and lead: "\<And>y a. sid (sst s) y a \<Longrightarrow> p_pidp x = Some a \<Longrightarrow> y = z \<and> p_pgidp x = Some a"
  shows "pid_ok X D e s"
proof -
  note ok = assms(1) [unfolded pid_ok_def]
  have "p_pgidp y \<noteq> None \<and> p_sessp y \<noteq> None" if "prt s q = Some y" "q \<notin> D" for q y
    using ok assms(2-4) that unfolding full_ok_def by (cases "q = p") auto
  then have "full_ok D (prt s)" unfolding full_ok_def by blast
  moreover have "insess (prt s) y q \<and> mem (prt s) a q" if "sid (sst s) y a" "owner (prt s) a q" "q \<notin> D" for y a q
  proof (cases "q = p")
    case True
    then show ?thesis using that lead assms(2,4) by (auto simp: owner_def insess_def mem_def)
  next
    case False
    then show ?thesis using that ok unfolding sess_ok_def by blast
  qed
  then have "sess_ok D (prt s) (sst s)" using ok unfolding sess_ok_def by blast
  ultimately show ?thesis using ok by (simp add: pid_ok_def)
qed

lemma leader_unique:
  assumes "own_ok T P d" "owner P a p" "owner P a q"
  shows "q = p"
  using assms unfolding own_ok_def owner_def by (metis option.inject procent.inject(1))

subsection \<open>sess\_create\<close>

lemma sess_create_ok:
  assumes "pid_ok {} {} (\<lambda>a. 0) s" "prt s p = Some x" "p_pidp x = Some a" "\<And>z. \<not> sid (sst s) z a" "sst s new = None" "nproc s \<le> 30000"
  obtains T h x' S w where "sess_create s p new = Some (s\<lparr>pidt := T, pidhash := h, prt := (prt s)(p \<mapsto> x'), sst := S(new \<mapsto> w)\<rparr>)"
    "pid_ok {} {} (\<lambda>a. 0) (s\<lparr>pidt := T, pidhash := h, prt := (prt s)(p \<mapsto> x'), sst := S(new \<mapsto> w)\<rparr>)"
    "same_self x x'" "p_sessp x' = Some new" "p_pgidp x' = Some a" "s_sidp w = Some a"
proof -
  note ok = assms(1) [unfolded pid_ok_def]
  obtain b z where b: "p_pgidp x = Some b" "p_sessp x = Some z" using ok assms(2) unfolding full_ok_def by blast
  define x1 where "x1 = x\<lparr>p_pgidp := None, p_opgrp := 0\<rparr>"
  obtain T1 h1 where s1: "pgexit s p = Some (s\<lparr>pidt := T1, pidhash := h1, prt := (prt s)(p \<mapsto> x1)\<rparr>)"
    "pid_ok {} {p} (\<lambda>a. 0) (s\<lparr>pidt := T1, pidhash := h1, prt := (prt s)(p \<mapsto> x1)\<rparr>)"
    by (rule pgexit_ok [OF assms(1,2) b(1)]) (auto simp: x1_def)
  let ?s1 = "s\<lparr>pidt := T1, pidhash := h1, prt := (prt s)(p \<mapsto> x1)\<rparr>"
  define x2 x3 where "x2 = x1\<lparr>p_sessp := None\<rparr>" and "x3 = x1\<lparr>p_sessp := Some new\<rparr>"
  obtain T2 h2 S where s2: "SESS_RELE ?s1 z = Some (?s1\<lparr>pidt := T2, pidhash := h2, sst := S\<rparr>)"
    "pid_ok {} {p} (\<lambda>a. 0) (?s1\<lparr>pidt := T2, pidhash := h2, prt := (prt ?s1)(p \<mapsto> x2), sst := S\<rparr>)"
    "\<And>y. y \<noteq> z \<Longrightarrow> S y = sst ?s1 y" "\<And>y b. sid S y b \<Longrightarrow> sid (sst ?s1) y b"
    by (rule leave_session [OF s1(2), of p x1 z x2]) (use assms(6) b(2) in \<open>auto simp: x1_def x2_def same_self_def\<close>)
  define w :: sess where "w = \<lparr>s_ref = 1, s_mode = 0, s_uid = 0, s_gid = 0, s_ctime = 0, s_dev = NODEV, s_vp = None, s_sidp = Some a, s_cred = None\<rparr>"
  let ?g = "s\<lparr>pidt := T2, pidhash := h2, prt := (prt s)(p \<mapsto> x2), sst := S\<rparr>"
  let ?s3 = "s\<lparr>pidt := T2, pidhash := h2, prt := (prt s)(p \<mapsto> x3), sst := S(new \<mapsto> w)\<rparr>"
  have zn: "new \<noteq> z" using ok assms(2,5) b(2) unfolding sess_ok_def insess_def by (metis domIff)
  have g: "pid_ok {} {p} (\<lambda>a. 0) ?g" using s2(2) by simp
  have s3: "pid_ok {} {p} ((\<lambda>a. 0)(a := - 1)) ?s3"
    using found_session [OF g, of p x2 a new x3 w] s2(3) [OF zn] s2(4) assms(3-5) by (auto simp: x1_def x2_def x3_def same_self_def w_def)
  obtain ga where ga: "T2 a = Some ga" using own_pid [of T2 "(prt s)(p \<mapsto> x3)" "procdir s" p x3] s3 assms(3) by (auto simp: pid_ok_def x1_def x3_def)
  obtain T4 x4 where s4: "pgjoin ?s3 p a = Some (?s3\<lparr>pidt := T4, prt := (prt ?s3)(p \<mapsto> x4)\<rparr>)"
    "pid_ok {} {p} ((\<lambda>a. 0)(a := - 1)) (?s3\<lparr>pidt := T4, prt := (prt ?s3)(p \<mapsto> x4)\<rparr>)"
    "same_self x3 x4" "p_sessp x4 = p_sessp x3" "p_pgidp x4 = Some a" "\<And>b. T4 b = None \<longleftrightarrow> T2 b = None"
    by (rule pgjoin_ok [OF s3, of p x3 a ga]) (use ga in \<open>auto simp: x1_def x3_def\<close>)
  let ?s4 = "s\<lparr>pidt := T4, pidhash := h2, prt := (prt s)(p \<mapsto> x4), sst := S(new \<mapsto> w)\<rparr>"
  obtain g4 where g4: "T4 a = Some g4" using s4(6) [of a] ga by auto
  have ok4: "pid_ok {} {p} ((\<lambda>a. 0)(a := - 1)) ?s4" using s4(2) by simp
  let ?T = "T4(a \<mapsto> g4\<lparr>pid_ref := pid_ref g4 + 1\<rparr>)"
  have h5: "PID_HOLD ?s4 a = Some (s\<lparr>pidt := ?T, pidhash := h2, prt := (prt s)(p \<mapsto> x4), sst := S(new \<mapsto> w)\<rparr>)"
    using pid_hold_ok(1) [OF ok4, of a g4] g4 by simp
  have ok5: "pid_ok {} {p} (\<lambda>a. 0) (s\<lparr>pidt := ?T, pidhash := h2, prt := (prt s)(p \<mapsto> x4), sst := S(new \<mapsto> w)\<rparr>)"
    using pid_hold_ok(2) [OF ok4, of a g4] g4 fun_upd_idem [of "\<lambda>a. 0 :: int" a 0] by simp
  have x4: "same_self x x4" "p_sessp x4 = Some new" using s4(3,4) by (auto simp: same_self_def x3_def x1_def)
  have ok6: "pid_ok {} {} (\<lambda>a. 0) (s\<lparr>pidt := ?T, pidhash := h2, prt := (prt s)(p \<mapsto> x4), sst := S(new \<mapsto> w)\<rparr>)"
    by (rule pid_ok_settled [OF ok5, of x4 new]) (use x4 s4(5) s2(4) assms(3,4) in \<open>auto simp: same_self_def w_def split: if_splits\<close>)
  have "sess_create s p new = Some (s\<lparr>pidt := ?T, pidhash := h2, prt := (prt s)(p \<mapsto> x4), sst := S(new \<mapsto> w)\<rparr>)"
    using s1(1) s2(1) s4(1) h5 b assms(3) by (simp add: sess_create_def sess_create1_def sess_create2_def upd_prc_def x1_def x3_def w_def)
  then show ?thesis using that ok6 x4 s4(5) by (simp add: w_def)
qed

end
