(* ===== verification/KPidCalls.thy ===== *)
theory KPidCalls
  imports KPidInv
begin

text \<open>
  The system call \<^verbatim>\<open>setpgrp\<close> on states that satisfy the invariant: it follows no null and no stale pointer, keeps the invariant,
  and changes the group or the session of one process.
\<close>

section \<open>Reading\<close>

lemma pid_ok_waked [simp]: "pid_ok X D e (s\<lparr>pid_waked := w\<rparr>) = pid_ok X D e s"
  by (simp add: pid_ok_def)

lemma pid_inv_ok: "pid_inv s \<Longrightarrow> pid_ok {} {} (\<lambda>a. 0) s"
  by (simp add: pid_inv_def)

lemma pid_inv_nproc: "pid_inv s \<Longrightarrow> nproc s \<le> 30000"
  by (auto simp: pid_inv_def pid_ok_def slot_ok_def)

text \<open>What a process refers to.\<close>

lemma pid_ok_own:
  assumes "pid_ok X D e s" "prt s p = Some x"
  obtains a g where "p_pidp x = Some a" "pidt s a = Some g" "pid_prslot g < length (procdir s)" "procdir s ! pid_prslot g = PeProc p"
  using assms own_pid [of "pidt s" "prt s" "procdir s" p x] unfolding pid_ok_def by blast

lemma pid_inv_prc:
  assumes "pid_ok X D e s" "prt s p = Some x" "p \<notin> D"
  obtains a g b h z w c k where "p_pidp x = Some a" "pidt s a = Some g" "p_pgidp x = Some b" "pidt s b = Some h"
    "p_sessp x = Some z" "sst s z = Some w" "s_sidp w = Some c" "pidt s c = Some k"
proof -
  note ok = assms(1) [unfolded pid_ok_def]
  obtain a g where a: "p_pidp x = Some a" "pidt s a = Some g" by (rule pid_ok_own [OF assms(1,2)])
  obtain b z where b: "p_pgidp x = Some b" "p_sessp x = Some z" using ok assms(2,3) unfolding full_ok_def by blast
  have "mem (prt s) b p" "insess (prt s) z p" using assms(2) b by (simp_all add: mem_def insess_def)
  then obtain h w where h: "pidt s b = Some h" "sst s z = Some w" using ok unfolding grp_ok_def sess_ok_def by blast
  then obtain c where c: "s_sidp w = Some c" using ok unfolding sess_ok_def by blast
  then have "sid (sst s) z c" using h by (simp add: sid_def)
  then obtain k where "pidt s c = Some k" using ok unfolding grp_ok_def by blast
  then show ?thesis using that a b h c by blast
qed

lemma pidno_inj:
  assumes "hash_ok (pidt s) (pidhash s)" "pidno s (Some a) = Some i" "pidno s (Some b) = Some i"
  shows "b = a"
  using assms unfolding hash_ok_def pidno_def by (auto simp: bind_eq_Some_conv)

lemma other_member_spec:
  assumes "\<And>p. p \<in> set ps \<Longrightarrow> \<exists>x. prt s p = Some x \<and> pidno s (p_pidp x) \<noteq> None"
  shows "other_member s i ps = Some (\<exists>p\<in>set ps. \<exists>x. prt s p = Some x \<and> pidno s (p_pidp x) \<noteq> Some i)"
  using assms
proof (induction ps)
  case (Cons p ps)
  obtain x a g where x: "prt s p = Some x" "p_pidp x = Some a" "pidt s a = Some g"
    using Cons.prems [of p] by (auto simp: pidno_def bind_eq_Some_conv)
  have "other_member s i ps = Some (\<exists>p\<in>set ps. \<exists>x. prt s p = Some x \<and> pidno s (p_pidp x) \<noteq> Some i)"
    by (rule Cons.IH) (use Cons.prems in auto)
  then show ?case using x by (auto simp: pidno_def)
qed simp

lemma members_live:
  assumes "pid_ok X D e s" "pidt s a = Some g" "p \<in> set (pid_pglink g)"
  shows "\<exists>x. prt s p = Some x \<and> p_pgidp x = Some a \<and> pidno s (p_pidp x) \<noteq> None"
proof -
  note ok = assms(1) [unfolded pid_ok_def]
  have "mem (prt s) a p" using ok assms(2,3) unfolding grp_ok_def by blast
  then obtain x where x: "prt s p = Some x" "p_pgidp x = Some a" by (auto simp: mem_def)
  obtain c h where "p_pidp x = Some c" "pidt s c = Some h" by (rule pid_ok_own [OF assms(1) x(1)])
  then show ?thesis using x by (simp add: pidno_def)
qed

text \<open>\<^verbatim>\<open>pgmembers\<close>: does the group hold a process other than the one whose identifier it has?\<close>

lemma pgmembers_spec:
  assumes "pid_ok X D e s" "pidno s (Some a) = Some i"
  shows "pgmembers s i = Some (\<exists>q x. prt s q = Some x \<and> p_pgidp x = Some a \<and> p_pidp x \<noteq> Some a)"
proof -
  note ok = assms(1) [unfolded pid_ok_def]
  obtain g where g: "pidt s a = Some g" "pid_id g = i" using assms(2) by (auto simp: pidno_def bind_eq_Some_conv)
  have l: "pid_lookup s i = Some (Some a)"
  proof -
    obtain r where r: "pid_lookup s i = Some r"
      "case r of None \<Rightarrow> \<forall>a g. pidt s a = Some g \<longrightarrow> pid_id g \<noteq> i | Some a \<Rightarrow> \<exists>g. pidt s a = Some g \<and> pid_id g = i"
      using pid_lookup_spec [of s i] ok by blast
    then obtain b h where "r = Some b" "pidt s b = Some h" "pid_id h = i" using g by (cases r) auto
    then have "b = a" using pidno_inj [of s a i b] ok g by (simp add: pidno_def)
    then show ?thesis using r \<open>r = Some b\<close> by simp
  qed
  have m: "set (pid_pglink g) = {q. mem (prt s) a q}" using ok g unfolding grp_ok_def by blast
  have ids: "pidno s (p_pidp x) \<noteq> Some i \<longleftrightarrow> p_pidp x \<noteq> Some a" if h: "prt s q = Some x" for q x
  proof -
    obtain c where "p_pidp x = Some c" by (rule pid_ok_own [OF assms(1) h])
    then show ?thesis using pidno_inj [of s a i c] ok assms(2) by auto
  qed
  have "pgmembers s i = other_member s i (pid_pglink g)" using l g by (simp add: pgmembers_def)
  also have "\<dots> = Some (\<exists>q\<in>set (pid_pglink g). \<exists>x. prt s q = Some x \<and> pidno s (p_pidp x) \<noteq> Some i)"
    by (rule other_member_spec) (use members_live [OF assms(1) g(1)] in blast)
  also have "\<dots> = Some (\<exists>q x. prt s q = Some x \<and> p_pgidp x = Some a \<and> p_pidp x \<noteq> Some a)"
    unfolding m using ids by (auto simp: mem_def) blast
  finally show ?thesis .
qed

lemma prfind_spec:
  assumes "pid_ok X D e s"
  shows "\<exists>r. prfind s i = Some r \<and> (\<forall>p. r = Some p \<longleftrightarrow> (\<exists>x. prt s p = Some x \<and> pidno s (p_pidp x) = Some i))"
proof -
  note ok = assms(1) [unfolded pid_ok_def]
  obtain r where r: "pid_lookup s i = Some r"
    "case r of None \<Rightarrow> \<forall>a g. pidt s a = Some g \<longrightarrow> pid_id g \<noteq> i | Some a \<Rightarrow> \<exists>g. pidt s a = Some g \<and> pid_id g = i"
    using pid_lookup_spec [of s i] ok by blast
  show ?thesis
  proof (cases r)
    case None
    then show ?thesis using r by (auto simp: prfind_def pidno_def bind_eq_Some_conv)
  next
    case (Some a)
    then obtain g where g: "pidt s a = Some g" "pid_id g = i" using r(2) by auto
    have uniq: "pidno s (p_pidp x) = Some i \<longleftrightarrow> p_pidp x = Some a" for x :: prc
      using ok g unfolding hash_ok_def pidno_def by (auto simp: bind_eq_Some_conv)
    show ?thesis
    proof (cases "pid_prinactive g")
      case True
      then have "\<not> owner (prt s) a p" for p using ok g unfolding inact_ok_def by blast
      then show ?thesis using True r(1) Some g uniq by (auto simp: prfind_def owner_def)
    next
      case False
      then obtain p where p: "owner (prt s) a p" using ok g unfolding inact_ok_def by blast
      then obtain x where x: "prt s p = Some x" "p_pidp x = Some a" by (auto simp: owner_def)
      obtain c h where "p_pidp x = Some c" "pidt s c = Some h" "pid_prslot h < length (procdir s)" "procdir s ! pid_prslot h = PeProc p"
        by (rule pid_ok_own [OF assms x(1)])
      then have "pid_prslot g < length (procdir s)" "procdir s ! pid_prslot g = PeProc p" using x(2) g(1) by simp_all
      then have "prfind s i = Some (Some p)" using False r(1) Some g by (simp add: prfind_def rd_def)
      moreover have "q = p" if "owner (prt s) a q" for q using leader_unique [of "pidt s" "prt s" "procdir s"] ok p that by blast
      ultimately show ?thesis using uniq x by (auto simp: owner_def)
    qed
  qed
qed

lemma pgfind_spec:
  assumes "pid_ok X D e s"
  shows "\<exists>r. pgfind s i = Some r \<and> (case r of None \<Rightarrow> \<forall>q x. prt s q = Some x \<longrightarrow> pidno s (p_pgidp x) \<noteq> Some i
    | Some q \<Rightarrow> \<exists>x. prt s q = Some x \<and> pidno s (p_pgidp x) = Some i)"
proof -
  note ok = assms(1) [unfolded pid_ok_def]
  obtain r where r: "pid_lookup s i = Some r"
    "case r of None \<Rightarrow> \<forall>a g. pidt s a = Some g \<longrightarrow> pid_id g \<noteq> i | Some a \<Rightarrow> \<exists>g. pidt s a = Some g \<and> pid_id g = i"
    using pid_lookup_spec [of s i] ok by blast
  show ?thesis
  proof (cases r)
    case None
    then show ?thesis using r by (auto simp: pgfind_def pidno_def bind_eq_Some_conv)
  next
    case (Some a)
    then obtain g where g: "pidt s a = Some g" "pid_id g = i" using r(2) by auto
    have uniq: "pidno s (p_pgidp x) = Some i \<longleftrightarrow> p_pgidp x = Some a" for x :: prc
      using ok g unfolding hash_ok_def pidno_def by (auto simp: bind_eq_Some_conv)
    have m: "set (pid_pglink g) = {q. mem (prt s) a q}" using ok g unfolding grp_ok_def by blast
    show ?thesis
    proof (cases "pid_pglink g")
      case Nil
      then have "\<not> mem (prt s) a q" for q using m by auto
      then show ?thesis using r(1) Some g Nil uniq by (auto simp: pgfind_def mem_def)
    next
      case (Cons q qs)
      then have "mem (prt s) a q" using m by auto
      then show ?thesis using r(1) Some g Cons uniq by (auto simp: pgfind_def mem_def)
    qed
  qed
qed

section \<open>Identifiers stay\<close>

text \<open>No routine changes the number in a \<^verbatim>\<open>struct pid\<close> that it leaves in the table.\<close>

definition ids_le :: "pidtab \<Rightarrow> pidtab \<Rightarrow> bool" where
  "ids_le T' T \<longleftrightarrow> (\<forall>a g. T' a = Some g \<longrightarrow> (\<exists>h. T a = Some h \<and> pid_id h = pid_id g))"

lemma ids_le_refl [simp]: "ids_le T T"
  by (simp add: ids_le_def)

lemma ids_le_trans: "ids_le T2 T1 \<Longrightarrow> ids_le T1 T \<Longrightarrow> ids_le T2 T"
  unfolding ids_le_def by metis

lemma ids_le_pidno: "ids_le T' (pidt s) \<Longrightarrow> T' = pidt s' \<Longrightarrow> pidt s' a \<noteq> None \<Longrightarrow> pidno s' (Some a) = pidno s (Some a)"
  unfolding ids_le_def pidno_def by fastforce

lemma upd_pid_ids: "upd_pid s a f = Some s' \<Longrightarrow> (\<And>x. pid_id (f x) = pid_id x) \<Longrightarrow> ids_le (pidt s') (pidt s)"
  by (auto simp: upd_pid_def ids_le_def bind_eq_Some_conv split: if_splits)

lemma upd_prc_ids: "upd_prc s a f = Some s' \<Longrightarrow> pidt s' = pidt s"
  by (auto simp: upd_prc_def bind_eq_Some_conv)

lemma PID_HOLD_ids: "PID_HOLD s a = Some s' \<Longrightarrow> ids_le (pidt s') (pidt s)"
  unfolding PID_HOLD_def by (erule upd_pid_ids) simp

lemma PID_RELE_ids: "PID_RELE s a = Some s' \<Longrightarrow> ids_le (pidt s') (pidt s)"
  by (auto simp: PID_RELE_def pid_rele_def upd_pid_def ids_le_def bind_eq_Some_conv split: if_splits)

lemma pgexit_ids:
  assumes "pgexit s p = Some s'"
  shows "ids_le (pidt s') (pidt s)"
proof -
  obtain a l s1 s2 where u: "upd_pid s a (\<lambda>x. x\<lparr>pid_pglink := l\<rparr>) = Some s1" "upd_prc s1 p (\<lambda>x. x\<lparr>p_pgidp := None, p_opgrp := 0\<rparr>) = Some s2"
    "PID_RELE s2 a = Some s' \<or> s' = s2 \<or> upd_pid s2 a (\<lambda>x. x\<lparr>pid_pgorphaned := True\<rparr>) = Some s'"
    using assms by (auto simp: pgexit_def bind_eq_Some_conv split: if_splits)
  have "ids_le (pidt s1) (pidt s)" by (rule upd_pid_ids [OF u(1)]) simp
  moreover have "ids_le (pidt s') (pidt s2)" using u(3) PID_RELE_ids upd_pid_ids by fastforce
  ultimately show ?thesis using ids_le_trans upd_prc_ids [OF u(2)] by metis
qed

lemma pgjoin_ids:
  assumes "pgjoin s p a = Some s'"
  shows "ids_le (pidt s') (pidt s)"
proof -
  obtain g where g: "pidt s a = Some g" using assms by (auto simp: pgjoin_def bind_eq_Some_conv)
  define f :: "prc \<Rightarrow> prc" where "f = (\<lambda>x. x\<lparr>p_pgidp := Some a, p_opgrp := (if pid_id g \<le> 32767 then pid_id g else - 1)\<rparr>)"
  obtain s1 where u1: "upd_pid s a (\<lambda>x. x\<lparr>pid_pglink := p # pid_pglink x\<rparr>) = Some s1"
    using assms by (auto simp: pgjoin_def bind_eq_Some_conv)
  obtain s2 where u2: "upd_prc s1 p f = Some s2" using assms g u1 by (auto simp: pgjoin_def bind_eq_Some_conv f_def)
  note u = u1 u2
  have rest: "(if pid_pglink g = [] then do { s \<leftarrow> PID_HOLD s2 a; l \<leftarrow> pglinked s p; upd_pid s a (\<lambda>x. x\<lparr>pid_pgorphaned := \<not> l\<rparr>) }
     else if pid_pgorphaned g then do { l \<leftarrow> pglinked s2 p; if l then upd_pid s2 a (\<lambda>x. x\<lparr>pid_pgorphaned := False\<rparr>) else Some s2 } else Some s2) = Some s'"
    using assms g u by (simp add: pgjoin_def f_def)
  then have "s' = s2 \<or> upd_pid s2 a (\<lambda>x. x\<lparr>pid_pgorphaned := False\<rparr>) = Some s'
      \<or> (\<exists>s3 l. PID_HOLD s2 a = Some s3 \<and> upd_pid s3 a (\<lambda>x. x\<lparr>pid_pgorphaned := l\<rparr>) = Some s')"
    by (auto simp: bind_eq_Some_conv split: if_splits)
  note u = u this
  have "ids_le (pidt s1) (pidt s)" by (rule upd_pid_ids [OF u(1)]) simp
  moreover have fl: "ids_le (pidt s') (pidt s3)" if "upd_pid s3 a (\<lambda>x. x\<lparr>pid_pgorphaned := l\<rparr>) = Some s'" for s3 l
    by (rule upd_pid_ids [OF that]) simp
  then have "ids_le (pidt s') (pidt s2)" using u(3) ids_le_trans PID_HOLD_ids by (metis ids_le_refl)
  ultimately show ?thesis using ids_le_trans upd_prc_ids [OF u(2)] by metis
qed

lemma SESS_RELE_ids:
  assumes "SESS_RELE s z = Some s'"
  shows "ids_le (pidt s') (pidt s)"
proof -
  obtain s1 where s1: "upd_sess s z (\<lambda>x. x\<lparr>s_ref := s16 (s_ref x - 1)\<rparr>) = Some s1" "s' = s1 \<or> sess_rele s1 z = Some s'"
    using assms by (auto simp: SESS_RELE_def bind_eq_Some_conv split: if_splits)
  have "pidt s1 = pidt s" using s1(1) by (auto simp: upd_sess_def bind_eq_Some_conv)
  moreover have "ids_le (pidt s') (pidt s1)" using s1(2) PID_RELE_ids by (auto simp: sess_rele_def bind_eq_Some_conv)
  ultimately show ?thesis by simp
qed

section \<open>setpgid\<close>

lemma find_child_spec:
  assumes "\<And>c. c \<in> set cs \<Longrightarrow> \<exists>x. prt s c = Some x \<and> pidno s (p_pidp x) \<noteq> None"
  shows "\<exists>r. find_child s i cs = Some r \<and> (\<forall>c. r = Some c \<longrightarrow> c \<in> set cs \<and> (\<exists>x. prt s c = Some x \<and> pidno s (p_pidp x) = Some i))"
  using assms
proof (induction cs)
  case (Cons c cs)
  obtain x j where x: "prt s c = Some x" "pidno s (p_pidp x) = Some j" using Cons.prems [of c] by auto
  show ?case
  proof (cases "j = i")
    case False
    have "\<exists>r. find_child s i cs = Some r \<and> (\<forall>c. r = Some c \<longrightarrow> c \<in> set cs \<and> (\<exists>x. prt s c = Some x \<and> pidno s (p_pidp x) = Some i))"
      by (rule Cons.IH) (use Cons.prems in auto)
    then show ?thesis using x False by auto
  qed (use x in auto)
qed simp

text \<open>A process changes its group: the state after \<^verbatim>\<open>pgexit\<close> and \<^verbatim>\<open>pgjoin\<close>.\<close>

lemma change_group:
  assumes "pid_ok {} {} (\<lambda>a. 0) s" "prt s p = Some x" "p_pgidp x = Some b" "p_pidp x = Some o1" "\<And>y. \<not> sid (sst s) y o1"
    and live: "a \<noteq> b" "a = o1 \<or> (\<exists>q. mem (prt s) a q)"
  obtains T1 h1 T x' where
    "pgexit s p = Some (s\<lparr>pidt := T1, pidhash := h1, prt := (prt s)(p \<mapsto> x\<lparr>p_pgidp := None, p_opgrp := 0\<rparr>)\<rparr>)"
    "pgjoin (s\<lparr>pidt := T1, pidhash := h1, prt := (prt s)(p \<mapsto> x\<lparr>p_pgidp := None, p_opgrp := 0\<rparr>)\<rparr>) p a
      = Some (s\<lparr>pidt := T, pidhash := h1, prt := (prt s)(p \<mapsto> x')\<rparr>)"
    "pid_ok {} {} (\<lambda>a. 0) (s\<lparr>pidt := T, pidhash := h1, prt := (prt s)(p \<mapsto> x')\<rparr>)"
    "same_self x x'" "p_sessp x' = p_sessp x" "p_pgidp x' = Some a"
proof -
  note ok = assms(1) [unfolded pid_ok_def]
  define x1 where "x1 = x\<lparr>p_pgidp := None, p_opgrp := 0\<rparr>"
  obtain T1 h1 where s1: "pgexit s p = Some (s\<lparr>pidt := T1, pidhash := h1, prt := (prt s)(p \<mapsto> x1)\<rparr>)"
    "pid_ok {} {p} (\<lambda>a. 0) (s\<lparr>pidt := T1, pidhash := h1, prt := (prt s)(p \<mapsto> x1)\<rparr>)"
    by (rule pgexit_ok [OF assms(1-3)]) (auto simp: x1_def)
  let ?s1 = "s\<lparr>pidt := T1, pidhash := h1, prt := (prt s)(p \<mapsto> x1)\<rparr>"
  obtain g where g: "T1 a = Some g"
  proof (cases "a = o1")
    case True
    have "prt ?s1 p = Some x1" by simp
    then show ?thesis by (rule pid_ok_own [OF s1(2)]) (use True assms(4) that in \<open>auto simp: x1_def\<close>)
  next
    case False
    then obtain q where "mem (prt s) a q" using live(2) by blast
    then have "mem (prt ?s1) a q" using live(1) assms(2,3) by (auto simp: mem_def)
    then have "a \<in> dom (pidt ?s1)" using s1(2) unfolding pid_ok_def grp_ok_def by blast
    then show ?thesis using that by auto
  qed
  obtain T x' where s2: "pgjoin ?s1 p a = Some (?s1\<lparr>pidt := T, prt := (prt ?s1)(p \<mapsto> x')\<rparr>)"
    "pid_ok {} {p} (\<lambda>a. 0) (?s1\<lparr>pidt := T, prt := (prt ?s1)(p \<mapsto> x')\<rparr>)"
    "same_self x1 x'" "p_sessp x' = p_sessp x1" "p_pgidp x' = Some a"
    by (rule pgjoin_ok [OF s1(2), of p x1 a g]) (use g in \<open>auto simp: x1_def\<close>)
  have x': "same_self x x'" "p_sessp x' = p_sessp x" using s2(3,4) by (simp_all add: same_self_def x1_def)
  obtain z where z: "p_sessp x = Some z" using ok assms(2) unfolding full_ok_def by blast
  have ok2: "pid_ok {} {p} (\<lambda>a. 0) (s\<lparr>pidt := T, pidhash := h1, prt := (prt s)(p \<mapsto> x')\<rparr>)" using s2(2) by simp
  have "pid_ok {} {} (\<lambda>a. 0) (s\<lparr>pidt := T, pidhash := h1, prt := (prt s)(p \<mapsto> x')\<rparr>)"
    by (rule pid_ok_settled [OF ok2, of x' z]) (use x' s2(5) z assms(4,5) in \<open>auto simp: same_self_def\<close>)
  then show ?thesis using that [of h1 T1 x' T] s1(1) s2(1,5) x' by (simp add: x1_def)
qed

lemma pid_inv_upd:
  assumes "pid_inv s" "pid_ok {} {} (\<lambda>a. 0) s'" "v_proc s' = v_proc s" "minpid s' = minpid s" "mpid s' = mpid s"
  shows "pid_inv s'"
  using assms by (simp add: pid_inv_def)

text \<open>A process keeps its session and moves to its own group or to one of a process of its session.\<close>

definition regroup :: "prctab \<Rightarrow> nat \<Rightarrow> prc \<Rightarrow> prc \<Rightarrow> bool" where
  "regroup P p x x' \<longleftrightarrow> same_self x x' \<and> p_sessp x' = p_sessp x
     \<and> (p_pgidp x' = p_pgidp x \<or> p_pgidp x' = p_pidp x \<or> (\<exists>q y. P q = Some y \<and> q \<noteq> p \<and> p_sessp y = p_sessp x \<and> p_pgidp y = p_pgidp x'))"

text \<open>A process whose session has another identifier than its own leads no session.\<close>

lemma not_leader:
  assumes "pid_ok X D e s" "prt s p = Some x" "p \<notin> D" "p_pidp x = Some a" "p_sessp x = Some z" "sst s z = Some w" "s_sidp w \<noteq> Some a"
  shows "\<not> sid (sst s) y a"
proof
  assume y: "sid (sst s) y a"
  moreover have "owner (prt s) a p" using assms(2,4) by (simp add: owner_def)
  ultimately have "insess (prt s) y p" using assms(1,3) unfolding pid_ok_def sess_ok_def by blast
  then have "y = z" using assms(2,5) by (simp add: insess_def)
  then show False using y assms(6,7) by (simp add: sid_def)
qed

lemma regroup_run:
  assumes "pid_inv s" "prt s p = Some x" "p_pgidp x = Some b" "p_pidp x = Some a" "\<And>y. \<not> sid (sst s) y a"
    and aim: "c \<noteq> b" "c = a \<or> (\<exists>q y. prt s q = Some y \<and> q \<noteq> p \<and> p_sessp y = p_sessp x \<and> p_pgidp y = Some c)" "pidno s (Some c) = Some i"
  obtains s1 s2 where "pgexit s p = Some s1" "pgjoin s1 p c = Some s2" "\<forall>q. q \<noteq> p \<longrightarrow> prt s1 q = prt s q"
    "pid_inv s2" "sst s2 = sst s" "\<exists>x'. prt s2 = (prt s)(p \<mapsto> x') \<and> regroup (prt s) p x x' \<and> pidno s2 (p_pgidp x') = Some i"
proof -
  have lv: "c = a \<or> (\<exists>q. mem (prt s) c q)" using aim(2) by (auto simp: mem_def)
  obtain T1 h1 T x' where s1: "pgexit s p = Some (s\<lparr>pidt := T1, pidhash := h1, prt := (prt s)(p \<mapsto> x\<lparr>p_pgidp := None, p_opgrp := 0\<rparr>)\<rparr>)"
    "pgjoin (s\<lparr>pidt := T1, pidhash := h1, prt := (prt s)(p \<mapsto> x\<lparr>p_pgidp := None, p_opgrp := 0\<rparr>)\<rparr>) p c
      = Some (s\<lparr>pidt := T, pidhash := h1, prt := (prt s)(p \<mapsto> x')\<rparr>)"
    "pid_ok {} {} (\<lambda>a. 0) (s\<lparr>pidt := T, pidhash := h1, prt := (prt s)(p \<mapsto> x')\<rparr>)"
    "same_self x x'" "p_sessp x' = p_sessp x" "p_pgidp x' = Some c"
    by (rule change_group [OF pid_inv_ok [OF assms(1)] assms(2-5) aim(1) lv])
  let ?s2 = "s\<lparr>pidt := T, pidhash := h1, prt := (prt s)(p \<mapsto> x')\<rparr>"
  have "ids_le T (pidt s)" using ids_le_trans [OF pgjoin_ids [OF s1(2)]] pgexit_ids [OF s1(1)] by simp
  moreover have "mem ((prt s)(p \<mapsto> x')) c p" using s1(6) by simp
  then have "pidt ?s2 c \<noteq> None" using s1(3) by (auto simp: pid_ok_def grp_ok_def simp del: refer_upd)
  ultimately have "pidno ?s2 (p_pgidp x') = Some i" using ids_le_pidno [of T s ?s2 c] aim(3) s1(6) by simp
  moreover have "regroup (prt s) p x x'" using s1(4-6) aim(2) assms(4) unfolding regroup_def by metis
  moreover have "pid_inv ?s2" by (rule pid_inv_upd [OF assms(1) s1(3)]) simp_all
  ultimately show ?thesis using that [OF s1(1,2)] by simp blast
qed

lemma pid_inv_waked [simp]: "pid_inv (s\<lparr>pid_waked := w\<rparr>) = pid_inv s" "pidno (s\<lparr>pid_waked := w\<rparr>) = pidno s"
  by (simp_all add: pid_inv_def pidno_def fun_eq_iff)

text \<open>What a process that is not the leader of its session may expect from \<^verbatim>\<open>setpgid\<close>.\<close>

definition moved :: "pidsys \<Rightarrow> nat \<Rightarrow> prc \<Rightarrow> int \<Rightarrow> pidsys \<Rightarrow> bool" where
  "moved s p x i s' \<longleftrightarrow> pid_inv s' \<and> sst s' = sst s \<and> (\<exists>x'. prt s' = (prt s)(p \<mapsto> x') \<and> regroup (prt s) p x x' \<and> pidno s' (p_pgidp x') = Some i)"

lemma setpgid_move_ok:
  assumes "pid_inv s" "prt s p = Some x" "pidno s (p_pidp x) = Some me"
  shows "\<exists>r s'. setpgid_move s p me arg = Some (r, s') \<and> (case r of Inl e \<Rightarrow> s' = s | Inr v \<Rightarrow> moved s p x (if arg = 0 then me else arg) s')"
proof -
  note ok = pid_inv_ok [OF assms(1)]
  obtain a g b h z w c k where x: "p_pidp x = Some a" "pidt s a = Some g" "p_pgidp x = Some b" "pidt s b = Some h"
    "p_sessp x = Some z" "sst s z = Some w" "s_sidp w = Some c" "pidt s c = Some k"
    by (rule pid_inv_prc [OF ok assms(2)]) auto
  have me: "pid_id g = me" using assms(3) x by (simp add: pidno_def)
  let ?i = "if arg = 0 then me else arg"
  show ?thesis
  proof (cases "pid_id k = me \<or> arg \<noteq> 0 \<and> (arg < 0 \<or> arg \<ge> MAXPID)")
    case True
    then have "\<exists>e. setpgid_move s p me arg = Some (Inl e, s)"
      using assms(2) x by (auto simp: setpgid_move_def sidno_def pidno_def)
    then show ?thesis by auto
  next
    case False
    note guard = False
    have nl: "\<not> sid (sst s) y a" for y
      by (rule not_leader [OF ok assms(2) _ x(1,5,6)]) (use x(2,7,8) me guard in auto)
    consider "pid_id h = ?i" | "pid_id h \<noteq> ?i" "me = ?i" | "pid_id h \<noteq> ?i" "arg \<noteq> 0" "me \<noteq> arg" by fastforce
    then show ?thesis
    proof cases
      case 1
      then have "setpgid_move s p me arg = Some (Inr 0, s)"
        using guard assms(2) x me by (auto simp: setpgid_move_def sidno_def pidno_def)
      moreover have "moved s p x ?i s" using assms(1,2) x 1
        by (auto simp: moved_def pidno_def regroup_def same_self_def fun_upd_idem_iff intro!: exI [of _ x])
      ultimately show ?thesis by simp
    next
      case 2
      have ab: "a \<noteq> b" "pidno s (Some a) = Some ?i" using 2 x me by (auto simp: pidno_def)
      obtain s1 s2 where run: "pgexit s p = Some s1" "pgjoin s1 p a = Some s2" "pid_inv s2" "sst s2 = sst s"
        "\<exists>x'. prt s2 = (prt s)(p \<mapsto> x') \<and> regroup (prt s) p x x' \<and> pidno s2 (p_pgidp x') = Some ?i"
        by (rule regroup_run [OF assms(1,2) x(3,1) nl ab(1) _ ab(2)]) auto
      have "setpgid_move s p me arg = Some (Inr 0, s2\<lparr>pid_waked := p_parent x # pid_waked s2\<rparr>)"
        using run(1,2) guard 2 assms(2) x me by (auto simp: setpgid_move_def sidno_def pidno_def)
      then show ?thesis using run(3-5) by (simp add: moved_def)
    next
      case 3
      obtain r where r: "pgfind s arg = Some r" "case r of None \<Rightarrow> \<forall>q x. prt s q = Some x \<longrightarrow> pidno s (p_pgidp x) \<noteq> Some arg
          | Some q \<Rightarrow> \<exists>x. prt s q = Some x \<and> pidno s (p_pgidp x) = Some arg" using pgfind_spec [OF ok] by blast
      have start: "setpgid_move s p me arg = (case r of None \<Rightarrow> Some (Inl EPERM, s)
         | Some q \<Rightarrow> do {
             y \<leftarrow> prt s q;
             if p_sessp y \<noteq> Some z then Some (Inl EPERM, s)
             else do {
               s \<leftarrow> pgexit s p;
               y \<leftarrow> prt s q;
               a \<leftarrow> p_pgidp y;
               s \<leftarrow> pgjoin s p a;
               Some (Inr 0, s\<lparr>pid_waked := p_parent x # pid_waked s\<rparr>) } })"
        using guard 3 r(1) assms(2) x me by (simp add: setpgid_move_def sidno_def pidno_def)
      show ?thesis
      proof (cases r)
        case (Some q)
        then obtain y d where y: "prt s q = Some y" "p_pgidp y = Some d" "pidno s (Some d) = Some arg"
          using r(2) by (auto simp: pidno_def bind_eq_Some_conv)
        show ?thesis
        proof (cases "p_sessp y = Some z")
          case True
          have db: "d \<noteq> b" using 3 x(4) y(3) by (auto simp: pidno_def)
          then have qp: "q \<noteq> p" using y assms(2) x(3) by auto
          have aim: "d = a \<or> (\<exists>q y. prt s q = Some y \<and> q \<noteq> p \<and> p_sessp y = p_sessp x \<and> p_pgidp y = Some d)"
            using y qp True x(5) by auto
          obtain s1 s2 where run: "pgexit s p = Some s1" "pgjoin s1 p d = Some s2" "\<forall>q. q \<noteq> p \<longrightarrow> prt s1 q = prt s q" "pid_inv s2" "sst s2 = sst s"
            "\<exists>x'. prt s2 = (prt s)(p \<mapsto> x') \<and> regroup (prt s) p x x' \<and> pidno s2 (p_pgidp x') = Some arg"
            by (rule regroup_run [OF assms(1,2) x(3,1) nl db aim y(3)])
          show ?thesis unfolding start using Some y True run(1,2) run(3) [rule_format, OF qp] run(4-6) 3 by (simp add: moved_def)
        qed (use start Some y in simp)
      qed (use start in simp)
    qed
  qed
qed

lemma setpgid_target_ok:
  assumes "pid_inv s" "prt s p = Some x"
  shows "\<exists>t. setpgid_target s p pid = Some t \<and> (\<forall>q i. t = Inr (q, i) \<longrightarrow> (q = p \<or> q \<in> set (p_child x))
    \<and> (\<exists>y. prt s q = Some y \<and> pidno s (p_pidp y) = Some i \<and> p_sessp y = p_sessp x \<and> (pid = 0 \<and> q = p \<or> pid = i)))"
proof -
  note ok = pid_inv_ok [OF assms(1)]
  obtain a g where a: "p_pidp x = Some a" "pidt s a = Some g" by (rule pid_ok_own [OF ok assms(2)])
  have ch: "\<exists>y. prt s c = Some y \<and> pidno s (p_pidp y) \<noteq> None" if c: "c \<in> set (p_child x)" for c
  proof -
    obtain y where y: "prt s c = Some y" using ok assms(2) c unfolding pid_ok_def fam_ok_def by blast
    obtain b k where "p_pidp y = Some b" "pidt s b = Some k" by (rule pid_ok_own [OF ok y])
    then show ?thesis using y by (simp add: pidno_def)
  qed
  show ?thesis
  proof (cases "pid = 0 \<or> pid < 0 \<or> pid \<ge> MAXPID \<or> pid = pid_id g")
    case True
    then show ?thesis using assms(2) a by (auto simp: setpgid_target_def pidno_def)
  next
    case False
    obtain r where r: "find_child s pid (p_child x) = Some r"
      "\<forall>c. r = Some c \<longrightarrow> c \<in> set (p_child x) \<and> (\<exists>y. prt s c = Some y \<and> pidno s (p_pidp y) = Some pid)"
      using find_child_spec [of "p_child x" s pid] ch by blast
    then show ?thesis using False assms(2) a by (cases r) (auto simp: setpgid_target_def pidno_def)
  qed
qed

section \<open>setsid\<close>

lemma sess_create_ids:
  assumes "sess_create s p new = Some s'"
  shows "ids_le (pidt s') (pidt s)"
proof -
  obtain s1 z s2 x w s3 i s4 where u: "pgexit s p = Some s1" "SESS_RELE s1 z = Some s2"
    "upd_prc (s2\<lparr>sst := (sst s2)(new \<mapsto> w)\<rparr>) p (\<lambda>x. x\<lparr>p_sessp := Some new\<rparr>) = Some s3" "pgjoin s3 p i = Some s4" "PID_HOLD s4 i = Some s'"
    using assms by (auto simp: sess_create_def sess_create1_def sess_create2_def bind_eq_Some_conv)
  have "ids_le (pidt s') (pidt s3)" using PID_HOLD_ids [OF u(5)] pgjoin_ids [OF u(4)] ids_le_trans by blast
  moreover have "pidt s3 = pidt s2" using upd_prc_ids [OF u(3)] by simp
  moreover have "ids_le (pidt s2) (pidt s)" using SESS_RELE_ids [OF u(2)] pgexit_ids [OF u(1)] ids_le_trans by blast
  ultimately show ?thesis using ids_le_trans by metis
qed

definition founded :: "pidsys \<Rightarrow> nat \<Rightarrow> prc \<Rightarrow> nat \<Rightarrow> pidsys \<Rightarrow> bool" where
  "founded s p x new s' \<longleftrightarrow> pid_inv s' \<and> (\<exists>x'. prt s' = (prt s)(p \<mapsto> x') \<and> same_self x x' \<and> p_pgidp x' = p_pidp x \<and> p_sessp x' = Some new)
     \<and> sidno s' (Some new) = pidno s (p_pidp x) \<and> pidno s' (p_pidp x) = pidno s (p_pidp x)"

lemma setsid_ok:
  assumes "pid_inv s" "prt s p = Some x" "p_pidp x = Some a" "\<And>z. \<not> sid (sst s) z a" "sst s new = None"
  obtains s' where "sess_create s p new = Some s'" "founded s p x new s'"
proof -
  obtain T h x' S w where r: "sess_create s p new = Some (s\<lparr>pidt := T, pidhash := h, prt := (prt s)(p \<mapsto> x'), sst := S(new \<mapsto> w)\<rparr>)"
    "pid_ok {} {} (\<lambda>a. 0) (s\<lparr>pidt := T, pidhash := h, prt := (prt s)(p \<mapsto> x'), sst := S(new \<mapsto> w)\<rparr>)"
    "same_self x x'" "p_sessp x' = Some new" "p_pgidp x' = Some a" "s_sidp w = Some a"
    by (rule sess_create_ok [OF pid_inv_ok [OF assms(1)] assms(2-5) pid_inv_nproc [OF assms(1)]])
  let ?s' = "s\<lparr>pidt := T, pidhash := h, prt := (prt s)(p \<mapsto> x'), sst := S(new \<mapsto> w)\<rparr>"
  have "pid_inv ?s'" by (rule pid_inv_upd [OF assms(1) r(2)]) simp_all
  moreover have "mem ((prt s)(p \<mapsto> x')) a p" using r(5) by simp
  then have "pidt ?s' a \<noteq> None" using r(2) by (auto simp: pid_ok_def grp_ok_def simp del: refer_upd)
  then have "pidno ?s' (Some a) = pidno s (Some a)" using ids_le_pidno [OF sess_create_ids [OF r(1)], of ?s' a] by simp
  moreover have "sidno ?s' (Some new) = pidno ?s' (Some a)" using r(6) by (simp add: sidno_def)
  ultimately have "founded s p x new ?s'" unfolding founded_def using r(3-5) assms(3) by auto
  then show ?thesis using that [OF r(1)] by blast
qed

section \<open>The system call\<close>

text \<open>A process other than \<open>p\<close> is in the group that bears the identifier \<open>a\<close> of \<open>p\<close>.\<close>

definition shared :: "prctab \<Rightarrow> nat \<Rightarrow> bool" where
  "shared P a \<longleftrightarrow> (\<exists>q y. P q = Some y \<and> p_pgidp y = Some a \<and> p_pidp y \<noteq> Some a)"

lemma founded_result:
  assumes "founded s p x new s'" "pidno s (p_pidp x) = Some me"
  shows "(do { x \<leftarrow> prt s' p; r \<leftarrow> sidno s' (p_sessp x); Some (Inr r :: errno + int, s') }) = Some (Inr me, s')"
  using assms by (auto simp: founded_def)

lemma setpgrp_setsid:
  assumes "pid_inv s" "prt s p = Some x" "p_pidp x = Some a" "pidno s (Some a) = Some me" "sst s new = None"
  shows "if p_pgidp x = Some a \<or> shared (prt s) a then setpgrp s p 3 pid pgid new = Some (Inl EPERM, s)
    else \<exists>s'. setpgrp s p 3 pid pgid new = Some (Inr me, s') \<and> founded s p x new s'"
proof -
  note ok = pid_inv_ok [OF assms(1)]
  have m: "pgmembers s me = Some (shared (prt s) a)" unfolding shared_def by (rule pgmembers_spec [OF ok assms(4)])
  show ?thesis
  proof (cases "p_pgidp x = Some a \<or> shared (prt s) a")
    case True
    then show ?thesis using assms(2-4) m by (auto simp: setpgrp_def)
  next
    case False
    have nl: "\<not> sid (sst s) z a" for z
    proof
      assume "sid (sst s) z a"
      moreover have "owner (prt s) a p" using assms(2,3) by (simp add: owner_def)
      ultimately have "mem (prt s) a p" using ok unfolding pid_ok_def sess_ok_def by blast
      then show False using False assms(2) by (simp add: mem_def)
    qed
    obtain s' where s': "sess_create s p new = Some s'" "founded s p x new s'" by (rule setsid_ok [OF assms(1-3) nl assms(5)])
    then show ?thesis using False assms(2-4) m founded_result [OF s'(2), of me] by (simp add: setpgrp_def)
  qed
qed

lemma setpgrp_setpgrp:
  assumes "pid_inv s" "prt s p = Some x" "p_pidp x = Some a" "pidno s (Some a) = Some me" "sst s new = None"
    and z: "p_sessp x = Some z" "sst s z = Some w" "sidno s (Some z) = Some si"
  shows "if s_sidp w = Some a \<or> shared (prt s) a then setpgrp s p 1 pid pgid new = Some (Inr si, s)
    else \<exists>s'. setpgrp s p 1 pid pgid new = Some (Inr me, s') \<and> founded s p x new s'"
proof -
  note ok = pid_inv_ok [OF assms(1)]
  have m: "pgmembers s me = Some (shared (prt s) a)" unfolding shared_def by (rule pgmembers_spec [OF ok assms(4)])
  show ?thesis
  proof (cases "s_sidp w = Some a \<or> shared (prt s) a")
    case True
    then show ?thesis using assms(2-4) z m by (auto simp: setpgrp_def)
  next
    case False
    have nl: "\<not> sid (sst s) y a" for y by (rule not_leader [OF ok assms(2) _ assms(3) z(1,2)]) (use False in auto)
    obtain s' where s': "sess_create s p new = Some s'" "founded s p x new s'" by (rule setsid_ok [OF assms(1-3) nl assms(5)])
    then show ?thesis using False assms(2-4) z m founded_result [OF s'(2), of me] by (simp add: setpgrp_def)
  qed
qed

lemma setpgrp_setpgid:
  assumes "pid_inv s" "prt s p = Some x"
  shows "\<exists>r s'. setpgrp s p 5 pid pgid new = Some (r, s') \<and> (case r of Inl e \<Rightarrow> s' = s
    | Inr v \<Rightarrow> \<exists>q y i. (q = p \<or> q \<in> set (p_child x)) \<and> prt s q = Some y \<and> pidno s (p_pidp y) = Some i \<and> p_sessp y = p_sessp x
        \<and> (pid = 0 \<and> q = p \<or> pid = i) \<and> moved s q y (if pgid = 0 then i else pgid) s')"
proof -
  note ok = pid_inv_ok [OF assms(1)]
  obtain a g where a: "p_pidp x = Some a" "pidt s a = Some g" by (rule pid_ok_own [OF ok assms(2)])
  obtain t where t: "setpgid_target s p pid = Some t" "\<forall>q i. t = Inr (q, i) \<longrightarrow> (q = p \<or> q \<in> set (p_child x))
    \<and> (\<exists>y. prt s q = Some y \<and> pidno s (p_pidp y) = Some i \<and> p_sessp y = p_sessp x \<and> (pid = 0 \<and> q = p \<or> pid = i))"
    using setpgid_target_ok [OF assms] by blast
  have run: "setpgrp s p 5 pid pgid new = (case t of Inl e \<Rightarrow> Some (Inl e, s) | Inr (q, i) \<Rightarrow> setpgid_move s q i pgid)"
    using assms(2) a t(1) by (simp add: setpgrp_def pidno_def)
  show ?thesis
  proof (cases t)
    case (Inr qi)
    then obtain q i y where q: "t = Inr (q, i)" "q = p \<or> q \<in> set (p_child x)" "prt s q = Some y" "pidno s (p_pidp y) = Some i"
      "p_sessp y = p_sessp x" "pid = 0 \<and> q = p \<or> pid = i" using t(2) by (cases qi) blast
    obtain r s' where r: "setpgid_move s q i pgid = Some (r, s')" "case r of Inl e \<Rightarrow> s' = s | Inr v \<Rightarrow> moved s q y (if pgid = 0 then i else pgid) s'"
      using setpgid_move_ok [OF assms(1) q(3,4)] by blast
    have "setpgrp s p 5 pid pgid new = Some (r, s')" using run q(1) r(1) by simp
    moreover have "case r of Inl e \<Rightarrow> s' = s
      | Inr v \<Rightarrow> \<exists>q y i. (q = p \<or> q \<in> set (p_child x)) \<and> prt s q = Some y \<and> pidno s (p_pidp y) = Some i \<and> p_sessp y = p_sessp x
        \<and> (pid = 0 \<and> q = p \<or> pid = i) \<and> moved s q y (if pgid = 0 then i else pgid) s'"
    proof (cases r)
      case (Inr v)
      then have "moved s q y (if pgid = 0 then i else pgid) s'" using r(2) by simp
      then show ?thesis unfolding Inr sum.case using q(2-6) by (intro exI [of _ q] exI [of _ y] exI [of _ i] conjI)
    qed (use r(2) in simp)
    ultimately show ?thesis by blast
  qed (use run in simp)
qed

text \<open>The flags that only read.\<close>

lemma setpgrp_read:
  assumes "pid_inv s" "prt s p = Some x" "flag \<notin> {1, 3, 5}"
  shows "\<exists>r. setpgrp s p flag pid pgid new = Some (r, s)"
proof -
  note ok = pid_inv_ok [OF assms(1)]
  have rd: "\<exists>i j. pidno s (p_pidp y) = Some i \<and> pidno s (p_pgidp y) = Some j \<and> (\<exists>k. sidno s (p_sessp y) = Some k)" if y: "prt s q = Some y" for q y
  proof -
    obtain a g b h z w c k where "p_pidp y = Some a" "pidt s a = Some g" "p_pgidp y = Some b" "pidt s b = Some h"
      "p_sessp y = Some z" "sst s z = Some w" "s_sidp w = Some c" "pidt s c = Some k" by (rule pid_inv_prc [OF ok y]) auto
    then show ?thesis by (simp add: pidno_def sidno_def)
  qed
  obtain i j where x: "pidno s (p_pidp x) = Some i" "pidno s (p_pgidp x) = Some j" using rd [OF assms(2)] by blast
  show ?thesis
  proof (cases "(flag = 2 \<or> flag = 4) \<and> 0 \<le> pid \<and> pid < MAXPID")
    case True
    obtain r where r: "prfind s pid = Some r" "\<forall>q. r = Some q \<longleftrightarrow> (\<exists>y. prt s q = Some y \<and> pidno s (p_pidp y) = Some pid)"
      using prfind_spec [OF ok] by blast
    define t where "t = (if pid \<noteq> 0 \<and> i \<noteq> pid then r else Some p)"
    have run: "setpgrp s p flag pid pgid new = (case t of None \<Rightarrow> Some (Inl ESRCH, s)
         | Some q \<Rightarrow> do { y \<leftarrow> prt s q; r \<leftarrow> (if flag = 2 then sidno s (p_sessp y) else pidno s (p_pgidp y)); Some (Inr r, s) })"
      using True assms(2) x r(1) by (auto simp: setpgrp_def t_def)
    show ?thesis
    proof (cases t)
      case (Some q)
      then have "prt s q \<noteq> None" using r(2) assms(2) by (auto simp: t_def split: if_splits)
      then obtain y where y: "prt s q = Some y" by blast
      obtain k l where "pidno s (p_pgidp y) = Some k" "sidno s (p_sessp y) = Some l" using rd [OF y] by blast
      then show ?thesis using run Some y by simp
    qed (use run in simp)
  next
    case False
    then show ?thesis using assms(2,3) x by (auto simp: setpgrp_def)
  qed
qed

theorem setpgrp_total:
  assumes "pid_inv s" "prt s p = Some x" "sst s new = None"
  shows "\<exists>r s'. setpgrp s p flag pid pgid new = Some (r, s') \<and> pid_inv s'
    \<and> (s' = s \<or> (\<exists>q y i. prt s q = Some y \<and> moved s q y i s') \<or> (\<exists>a. p_pidp x = Some a \<and> \<not> shared (prt s) a \<and> founded s p x new s'))"
proof -
  note ok = pid_inv_ok [OF assms(1)]
  obtain a g b h z w c k where x: "p_pidp x = Some a" "pidt s a = Some g" "p_pgidp x = Some b" "pidt s b = Some h"
    "p_sessp x = Some z" "sst s z = Some w" "s_sidp w = Some c" "pidt s c = Some k" by (rule pid_inv_prc [OF ok assms(2)]) auto
  have me: "pidno s (Some a) = Some (pid_id g)" "sidno s (Some z) = Some (pid_id k)" using x by (simp_all add: pidno_def sidno_def)
  consider "flag = 1" | "flag = 3" | "flag = 5" | "flag \<notin> {1, 3, 5}" by blast
  then show ?thesis
  proof cases
    case 1
    then show ?thesis using setpgrp_setpgrp [OF assms(1,2) x(1) me(1) assms(3) x(5,6) me(2), of pid pgid] assms(1) x(1)
      by (auto simp: founded_def split: if_splits)
  next
    case 2
    then show ?thesis using setpgrp_setsid [OF assms(1,2) x(1) me(1) assms(3), of pid pgid] assms(1) x(1)
      by (auto simp: founded_def split: if_splits)
  next
    case 3
    obtain r s' where r: "setpgrp s p 5 pid pgid new = Some (r, s')" "case r of Inl e \<Rightarrow> s' = s
      | Inr v \<Rightarrow> \<exists>q y i. (q = p \<or> q \<in> set (p_child x)) \<and> prt s q = Some y \<and> pidno s (p_pidp y) = Some i \<and> p_sessp y = p_sessp x
          \<and> (pid = 0 \<and> q = p \<or> pid = i) \<and> moved s q y (if pgid = 0 then i else pgid) s'" using setpgrp_setpgid [OF assms(1,2)] by blast
    have "s' = s \<or> (\<exists>q y i. prt s q = Some y \<and> moved s q y i s')" using r(2) by (cases r) auto
    moreover have "pid_inv s'" using calculation assms(1) by (auto simp: moved_def)
    ultimately show ?thesis using r(1) 3 by auto
  next
    case 4
    then show ?thesis using setpgrp_read [OF assms(1,2) 4, of pid pgid new] assms(1) by blast
  qed
qed

end
