(* ===== verification/KPidLife.thy ===== *)
theory KPidLife
  imports KPidCalls
begin

text \<open>
  Processes are created and go: the search for a free identifier ends, \<^verbatim>\<open>newproc\<close>, \<^verbatim>\<open>exit\<close> and \<^verbatim>\<open>freeproc\<close> keep the invariant.
\<close>

section \<open>The search for a free identifier\<close>

lemma next_pid_step:
  assumes "hash_ok (pidt s) (pidhash s)"
  shows "next_pid s m = (let m = (if m + 1 = MAXPID then minpid s else m + 1) in
    if \<exists>a g. pidt s a = Some g \<and> pid_id g = m then next_pid s m else Some m)"
proof -
  define k where "k = (if m + 1 = MAXPID then minpid s else m + 1)"
  obtain r where "pid_lookup s k = Some r"
    "case r of None \<Rightarrow> \<forall>a g. pidt s a = Some g \<longrightarrow> pid_id g \<noteq> k | Some a \<Rightarrow> \<exists>g. pidt s a = Some g \<and> pid_id g = k"
    using pid_lookup_spec [OF assms] by blast
  then show ?thesis unfolding next_pid.simps [of s m] Let_def k_def [symmetric] by (cases r) auto
qed

text \<open>From \<open>m\<close> the search meets every identifier from \<open>minpid\<close> up to \<^verbatim>\<open>MAXPID\<close>; \<open>f\<close> is one that is free.\<close>

lemma next_pid_returns:
  assumes "hash_ok (pidt s) (pidhash s)" "minpid s - 1 \<le> m" "m < MAXPID" "minpid s \<le> f" "f < MAXPID" "\<And>a g. pidt s a = Some g \<Longrightarrow> pid_id g \<noteq> f"
  shows "\<exists>i. next_pid s m = Some i \<and> minpid s \<le> i \<and> i < MAXPID \<and> (\<forall>a g. pidt s a = Some g \<longrightarrow> pid_id g \<noteq> i)"
  using assms(2,3)
proof (induction "nat (if m < f then f - m else MAXPID - m + f - minpid s)" arbitrary: m rule: less_induct)
  case less
  define k where "k = (if m + 1 = MAXPID then minpid s else m + 1)"
  have k: "minpid s \<le> k" "k < MAXPID" using less.prems assms(4,5) by (auto simp: k_def)
  show ?case
  proof (cases "\<exists>a g. pidt s a = Some g \<and> pid_id g = k")
    case True
    then have "k \<noteq> f" using assms(6) by blast
    then have "nat (if k < f then f - k else MAXPID - k + f - minpid s) < nat (if m < f then f - m else MAXPID - m + f - minpid s)"
      using less.prems assms(4,5) by (auto simp: k_def)
    from less.hyps [OF this] show ?thesis using k True next_pid_step [OF assms(1), of m] by (simp add: Let_def k_def)
  next
    case False
    then show ?thesis using k next_pid_step [OF assms(1), of m] by (auto simp: Let_def k_def)
  qed
qed

text \<open>Every identifier in the table belongs to a process, to a group with a member or to a session with a member.\<close>

definition named_by :: "pidsys \<Rightarrow> nat \<Rightarrow> nat set" where
  "named_by s p = (case prt s p of None \<Rightarrow> {} | Some x \<Rightarrow> set_option (p_pidp x) \<union> set_option (p_pgidp x)
     \<union> (case p_sessp x of None \<Rightarrow> {} | Some z \<Rightarrow> (case sst s z of None \<Rightarrow> {} | Some w \<Rightarrow> set_option (s_sidp w))))"

lemma set_option_card: "finite (set_option r)" "card (set_option r) \<le> 1"
  by (cases r; simp)+

lemma named_by_card: "finite (named_by s p)" "card (named_by s p) \<le> 3"
proof -
  have c: "card (A \<union> B \<union> C) \<le> 3" if "card A \<le> 1" "card B \<le> 1" "card C \<le> 1" for A B C :: "nat set"
    using that card_Un_le [of A B] card_Un_le [of "A \<union> B" C] by linarith
  show "finite (named_by s p)" by (auto simp: named_by_def set_option_card split: option.split)
  show "card (named_by s p) \<le> 3"
  proof (cases "prt s p")
    case (Some x)
    have "card (case p_sessp x of None \<Rightarrow> {} | Some z \<Rightarrow> (case sst s z of None \<Rightarrow> {} | Some w \<Rightarrow> set_option (s_sidp w))) \<le> 1"
      using set_option_card(2) by (auto split: option.split)
    then show ?thesis unfolding named_by_def Some option.case by (intro c set_option_card)
  qed (simp add: named_by_def)
qed

lemma pids_named:
  assumes "pid_ok X D (\<lambda>a. 0) s"
  shows "dom (pidt s) \<subseteq> (\<Union>p\<in>set (practive s). named_by s p)"
proof
  note ok = assms [unfolded pid_ok_def]
  fix a assume "a \<in> dom (pidt s)"
  then obtain g where g: "pidt s a = Some g" by blast
  then have "int (pid_ref g) = int (refs (prt s) (sst s) a) + 0 \<and> 0 < pid_ref g" using ok unfolding grp_ok_def by blast
  then have "0 < refs (prt s) (sst s) a" by simp
  then consider p where "owner (prt s) a p" | p where "mem (prt s) a p" | z where "sid (sst s) z a"
    by (auto simp: refs_def split: if_splits)
  then obtain p where "prt s p \<noteq> None" "a \<in> named_by s p"
  proof cases
    case (1 p)
    then show ?thesis using that [of p] by (auto simp: owner_def named_by_def)
  next
    case (2 p)
    then show ?thesis using that [of p] by (auto simp: mem_def named_by_def)
  next
    case (3 z)
    then obtain w where w: "sst s z = Some w" "s_sidp w = Some a" by (auto simp: sid_def)
    then obtain p where "insess (prt s) z p" using ok unfolding sess_ok_def by blast
    then show ?thesis using that [of p] w by (auto simp: insess_def named_by_def)
  qed
  then show "a \<in> (\<Union>p\<in>set (practive s). named_by s p)" using ok by (auto simp: act_ok_def)
qed

lemma pids_bound:
  assumes "pid_ok X D (\<lambda>a. 0) s"
  shows "finite (dom (pidt s))" "card (dom (pidt s)) \<le> 3 * nproc s"
proof -
  let ?U = "\<Union>p\<in>set (practive s). named_by s p"
  have f: "finite ?U" using named_by_card by blast
  show "finite (dom (pidt s))" using finite_subset [OF pids_named [OF assms] f] .
  have "card (dom (pidt s)) \<le> card ?U" by (rule card_mono [OF f pids_named [OF assms]])
  also have "\<dots> \<le> (\<Sum>p\<in>set (practive s). card (named_by s p))" by (rule card_UN_le) simp
  also have "\<dots> \<le> (\<Sum>p\<in>set (practive s). 3)" by (rule sum_mono) (rule named_by_card)
  also have "\<dots> = 3 * nproc s" using assms distinct_card [of "practive s"] by (simp add: pid_ok_def act_ok_def)
  finally show "card (dom (pidt s)) \<le> 3 * nproc s" .
qed

lemma free_id:
  assumes "pid_ok X D (\<lambda>a. 0) s" "3 * int (nproc s) < MAXPID - minpid s"
  obtains f where "minpid s \<le> f" "f < MAXPID" "\<forall>a g. pidt s a = Some g \<longrightarrow> pid_id g \<noteq> f"
proof -
  let ?I = "(\<lambda>a. pid_id (the (pidt s a))) ` dom (pidt s)"
  have "card ?I \<le> 3 * nproc s" using card_image_le [OF pids_bound(1) [OF assms(1)]] pids_bound(2) [OF assms(1)] le_trans by blast
  also have "\<dots> < card {minpid s..<MAXPID}" using assms(2) by simp
  finally have "\<not> {minpid s..<MAXPID} \<subseteq> ?I" using card_mono [OF finite_imageI [OF pids_bound(1) [OF assms(1)]]] by (meson not_less)
  then obtain f where "f \<in> {minpid s..<MAXPID}" "f \<notin> ?I" by blast
  moreover have "pid_id g \<noteq> f" if "pidt s a = Some g" for a g using that calculation(2) by force
  ultimately show ?thesis by (intro that [of f]) auto
qed

section \<open>Entries of the process directory\<close>

lemma slot_take:
  assumes "slot_ok d (Some i) n v"
  obtains m where "i < length d" "d ! i = PeNext m" "slot_ok (d[i := PeProc p]) m (n + 1) v"
proof -
  obtain fs where fs: "chain (free_next d) (Some i) fs" "\<forall>j\<in>set fs. j < v \<and> (\<exists>m. d ! j = PeNext m)" "length fs + n = v" "length d = v"
    using assms unfolding slot_ok_def by blast
  then obtain gs where gs: "fs = i # gs" by (cases fs) (auto simp: chain_simps)
  then obtain m where m: "d ! i = PeNext m" "i < v" using fs(2) by auto
  have "i \<notin> set gs" using chain_distinct [OF fs(1)] gs by simp
  moreover have "free_next d i = m" using m fs(4) by simp
  then have "chain (free_next d) m gs" using fs(1) gs by (simp add: chain_simps del: free_next.simps)
  then have "chain (free_next (d[i := PeProc p])) m gs"
    using chain_cong [of gs "free_next d" "free_next (d[i := PeProc p])" m] calculation by (metis free_next.simps length_list_update nth_list_update_neq)
  ultimately have "slot_ok (d[i := PeProc p]) m (n + 1) v" unfolding slot_ok_def using fs gs by (intro conjI exI [of _ gs]) (auto simp: nth_list_update)
  then show ?thesis using that m fs(4) by blast
qed

lemma slot_put:
  assumes "slot_ok d f n v" "i < length d" "d ! i = PeProc p" "0 < n"
  shows "slot_ok (d[i := PeNext f]) (Some i) (n - 1) v"
proof -
  obtain fs where fs: "chain (free_next d) f fs" "\<forall>j\<in>set fs. j < v \<and> (\<exists>m. d ! j = PeNext m)" "length fs + n = v" "length d = v"
    using assms(1) unfolding slot_ok_def by blast
  have ni: "i \<notin> set fs" using fs(2) assms(3) by auto
  then have "chain (free_next (d[i := PeNext f])) f fs"
    using fs(1) chain_cong [of fs "free_next d" "free_next (d[i := PeNext f])" f] by (metis free_next.simps length_list_update nth_list_update_neq)
  then have "chain (free_next (d[i := PeNext f])) (Some i) (i # fs)" using assms(2) by (simp add: chain_simps)
  then show ?thesis unfolding slot_ok_def using fs assms(2,4) ni by (intro conjI exI [of _ "i # fs"]) (auto simp: nth_list_update)
qed

lemma slot_some: "slot_ok d f n v \<Longrightarrow> n < v \<Longrightarrow> \<exists>i. f = Some i"
  unfolding slot_ok_def by (cases f) (auto simp: chain_simps)

section \<open>newproc\<close>

text \<open>A new \<^verbatim>\<open>struct pid\<close> and a new process that has it.\<close>

lemma hash_new:
  assumes "hash_ok T h" "T a = None" "\<And>b k. T b = Some k \<Longrightarrow> pid_id k \<noteq> pid_id g"
  shows "hash_ok (T(a \<mapsto> g)) (h(hashpid (pid_id g) := a # h (hashpid (pid_id g))))"
proof -
  have d: "distinct (h k)" and m: "b \<in> set (h k) \<longleftrightarrow> (\<exists>g. T b = Some g \<and> hashpid (pid_id g) = k)" for b k
    using assms(1) by (simp_all add: hash_ok_def)
  have "distinct ((h(hashpid (pid_id g) := a # h (hashpid (pid_id g)))) k)" for k using d m assms(2) by auto
  moreover have "b \<in> set ((h(hashpid (pid_id g) := a # h (hashpid (pid_id g)))) k) \<longleftrightarrow> (\<exists>k'. (T(a \<mapsto> g)) b = Some k' \<and> hashpid (pid_id k') = k)" for b k
    using m assms(2) by auto
  moreover have "b = c" if "(T(a \<mapsto> g)) b = Some k" "(T(a \<mapsto> g)) c = Some k'" "pid_id k = pid_id k'" for b c k k'
    using that assms(1,3) unfolding hash_ok_def by (metis fun_upd_apply option.inject)
  ultimately show ?thesis unfolding hash_ok_def by blast
qed

lemma pid_ok_born:
  assumes "pid_ok {} {} (\<lambda>a. 0) s" "prt s p = None" "pidt s a = None" "i < length (procdir s)" "procdir s ! i = PeNext m"
    and sl: "slot_ok ((procdir s)[i := PeProc p]) m (nproc s + 1) (v_proc s)"
    and g: "g = \<lparr>pid_prinactive = False, pid_pgorphaned = False, pid_ref = 1, pid_prslot = i, pid_id = k, pid_pglink = []\<rparr>"
    and new: "\<And>b h. pidt s b = Some h \<Longrightarrow> pid_id h \<noteq> k"
    and x: "p_pidp x = Some a" "p_pgidp x = None" "p_sessp x = None" "p_parent x = None" "p_child x = []"
  shows "pid_ok {} {p} (\<lambda>a. 0) (s\<lparr>mpid := k, procentfree := m, procdir := (procdir s)[i := PeProc p], pidt := (pidt s)(a \<mapsto> g),
    pidhash := (pidhash s)(hashpid k := a # pidhash s (hashpid k)), prt := (prt s)(p \<mapsto> x), practive := p # practive s, nproc := nproc s + 1\<rparr>)"
proof -
  note ok = assms(1) [unfolded pid_ok_def]
  let ?P = "(prt s)(p \<mapsto> x)" and ?T = "(pidt s)(a \<mapsto> g)"
  have na: "\<not> owner (prt s) a q" for q
  proof
    assume "owner (prt s) a q"
    then obtain y where y: "prt s q = Some y" "p_pidp y = Some a" by (auto simp: owner_def)
    show False by (rule pid_ok_own [OF assms(1) y(1)]) (use y(2) assms(3) in auto)
  qed
  have nm: "\<not> mem (prt s) a q" "\<not> sid (sst s) y a" for q y using ok assms(3) unfolding grp_ok_def by blast+
  note na = na nm
  have mm: "mem ?P = mem (prt s)" "insess ?P = insess (prt s)" using assms(2) x by (auto simp: mem_def insess_def fun_eq_iff)
  have ow: "owner ?P b q \<longleftrightarrow> (if b = a then q = p else owner (prt s) b q)" for b q
    using na assms(2) x(1) by (auto simp: owner_def)
  have "act_ok ?P (p # practive s) (nproc s + 1)" using ok assms(2) by (auto simp: act_ok_def)
  moreover have "own_ok ?T ?P ((procdir s)[i := PeProc p])"
    unfolding own_ok_def
  proof (intro allI impI)
    fix q y assume y: "?P q = Some y"
    show "\<exists>b h. p_pidp y = Some b \<and> ?T b = Some h \<and> pid_prslot h < length ((procdir s)[i := PeProc p]) \<and> (procdir s)[i := PeProc p] ! pid_prslot h = PeProc q"
    proof (cases "q = p")
      case False
      then obtain b h where b: "p_pidp y = Some b" "pidt s b = Some h" "pid_prslot h < length (procdir s)" "procdir s ! pid_prslot h = PeProc q"
        using y own_pid [of "pidt s" "prt s" "procdir s" q y] ok by auto
      then have "b \<noteq> a" "pid_prslot h \<noteq> i" using assms(3,5) by auto
      then show ?thesis using b by auto
    qed (use y x g assms(4) in auto)
  qed
  moreover have "inact_ok ?T ?P" using ok g ow unfolding inact_ok_def by auto
  moreover have "hash_ok ?T ((pidhash s)(hashpid k := a # pidhash s (hashpid k)))"
    using hash_new [of "pidt s" "pidhash s" a g] ok assms(3) new g by simp
  moreover have "grp_ok (\<lambda>a. 0) ?T ?P (sst s)"
  proof (rule grp_change [of "\<lambda>a. 0" "pidt s" "prt s" "sst s"])
    show "refs ?P (sst s) b = refs (prt s) (sst s) b" if "b \<noteq> a" for b using that ow mm by (simp add: refs_def del: refer_upd)
    show "int (pid_ref g) = int (refs ?P (sst s) a) + 0" using ow mm na by (simp add: refs_def g del: refer_upd)
  qed (use ok g mm na in auto)
  moreover have "sess_ok {p} ?P (sst s)" using ok ow na unfolding sess_ok_def mm by (metis empty_iff singletonI)
  moreover have "full_ok {p} ?P" using ok by (auto simp: full_ok_def)
  moreover have "fam_ok {} ?P" using ok assms(2) x(4,5) unfolding fam_ok_def by (auto; blast)
  ultimately show ?thesis using sl by (simp add: pid_ok_def)
qed

lemma pid_assign_ok:
  assumes "pid_inv s" "pid_room s cond u_uid u_ruid" "prt s prp = None" "pidt s pidp = None" "3 * int (nproc s) < MAXPID - minpid s"
  obtains k x s' where "pid_assign s cond u_uid u_ruid (Some prp) (Some pidp) = Some (PNew k prp, s')"
    "minpid s \<le> k" "k < MAXPID" "\<forall>a g. pidt s a = Some g \<longrightarrow> pid_id g \<noteq> k"
    "pid_ok {} {prp} (\<lambda>a. 0) s'" "prt s' = (prt s)(prp \<mapsto> x)" "sst s' = sst s" "nproc s' = nproc s + 1" "v_proc s' = v_proc s" "minpid s' = minpid s" "mpid s' = k"
    "x = prc0\<lparr>p_stat := SIDL, p_opid := k, p_pidp := Some pidp\<rparr>" "pidno s' (Some pidp) = Some k" "\<forall>a. a \<noteq> pidp \<longrightarrow> pidt s' a = pidt s a"
proof -
  note ok = pid_inv_ok [OF assms(1)]
  note ok' = ok [unfolded pid_ok_def]
  obtain f where f: "minpid s \<le> f" "f < MAXPID" "\<forall>a g. pidt s a = Some g \<longrightarrow> pid_id g \<noteq> f" by (rule free_id [OF ok assms(5)])
  obtain k where k: "next_pid s (mpid s) = Some k" "minpid s \<le> k" "k < MAXPID" "\<forall>a g. pidt s a = Some g \<longrightarrow> pid_id g \<noteq> k"
    using next_pid_returns [of s "mpid s" f] ok' f assms(1) unfolding pid_inv_def by auto
  have sl: "slot_ok (procdir s) (procentfree s) (nproc s) (v_proc s)" using ok' by blast
  have "nproc s < v_proc s" using assms(2) sl by (auto simp: pid_room_def slot_ok_def)
  then obtain i where i: "procentfree s = Some i" using slot_some [OF sl] by blast
  obtain m where m: "i < length (procdir s)" "procdir s ! i = PeNext m" "slot_ok ((procdir s)[i := PeProc prp]) m (nproc s + 1) (v_proc s)"
    using slot_take [OF sl [unfolded i]] by blast
  define g x where "g = \<lparr>pid_prinactive = False, pid_pgorphaned = False, pid_ref = 1, pid_prslot = i, pid_id = k, pid_pglink = []\<rparr>"
    and "x = prc0\<lparr>p_stat := SIDL, p_opid := k, p_pidp := Some pidp\<rparr>"
  let ?s = "s\<lparr>mpid := k, procentfree := m, procdir := (procdir s)[i := PeProc prp], pidt := (pidt s)(pidp \<mapsto> g),
    pidhash := (pidhash s)(hashpid k := pidp # pidhash s (hashpid k)), prt := (prt s)(prp \<mapsto> x), practive := prp # practive s, nproc := nproc s + 1\<rparr>"
  have "pid_assign s cond u_uid u_ruid (Some prp) (Some pidp) = Some (PNew k prp, ?s)"
    using assms(2) k(1) i m(1,2) by (simp add: pid_assign_def rd_def g_def x_def)
  moreover have "pid_ok {} {prp} (\<lambda>a. 0) ?s"
    by (rule pid_ok_born [OF ok assms(3,4) m g_def]) (use k(4) in \<open>auto simp: x_def prc0_def\<close>)
  ultimately show ?thesis using k by (intro that [of k ?s x]) (auto simp: x_def g_def pidno_def)
qed

lemma enter_session:
  assumes "pid_ok X D e s" "prt s p = Some x" "p_sessp x = None" "p \<in> D" "sst s z = Some w" "nproc s \<le> 30000"
    and x': "same_self x x'" "p_pgidp x' = p_pgidp x" "p_sessp x' = Some z"
  shows "SESS_HOLD s z = Some (s\<lparr>sst := (sst s)(z \<mapsto> w\<lparr>s_ref := s_ref w + 1\<rparr>)\<rparr>)"
    and "pid_ok X D e (s\<lparr>prt := (prt s)(p \<mapsto> x'), sst := (sst s)(z \<mapsto> w\<lparr>s_ref := s_ref w + 1\<rparr>)\<rparr>)"
proof -
  note ok = assms(1) [unfolded pid_ok_def]
  let ?P = "(prt s)(p \<mapsto> x')" and ?S = "(sst s)(z \<mapsto> w\<lparr>s_ref := s_ref w + 1\<rparr>)"
  have w: "s_ref w = int (card {q. insess (prt s) z q})" "\<exists>a. s_sidp w = Some a" using ok assms(5) unfolding sess_ok_def by blast+
  have "card {q. insess (prt s) z q} \<le> 30000" using act_card [of "prt s" "practive s" "nproc s" z] ok assms(6) by simp
  then show "SESS_HOLD s z = Some (s\<lparr>sst := ?S\<rparr>)" using assms(5) w by (simp add: SESS_HOLD_def upd_sess_def wrap_simps)
  have ow: "owner ?P = owner (prt s)" using owner_prc [of "prt s" p x x'] assms(2) x'(1) by (simp add: same_self_def)
  have mm: "mem ?P = mem (prt s)" using assms(2) x'(2) by (auto simp: mem_def fun_eq_iff)
  have sids: "sid ?S = sid (sst s)" using assms(5) by (auto simp: sid_def fun_eq_iff)
  have ins: "{q. insess ?P y q} = (if y = z then insert p {q. insess (prt s) z q} else {q. insess (prt s) y q})" for y
    using assms(2,3) x'(3) by (auto simp: insess_def)
  have fin: "finite {q. insess (prt s) y q}" for y using ok act_finite finite_insess by blast
  have np: "p \<notin> {q. insess (prt s) z q}" using assms(2,3) by (simp add: insess_def)
  have "sess_ok D ?P ?S"
  proof -
    have "(\<exists>b. s_sidp v = Some b) \<and> s_ref v = int (card {q. insess ?P y q}) \<and> (\<exists>q. insess ?P y q)" if v: "?S y = Some v" for y v
    proof (cases "y = z")
      case True
      then show ?thesis using v w fin np ins [of z] x'(3) by auto
    next
      case False
      then have v: "(\<exists>a. s_sidp v = Some a) \<and> s_ref v = int (card {q. insess (prt s) y q}) \<and> {q. insess (prt s) y q} \<noteq> {}"
        using ok v unfolding sess_ok_def by auto
      have eq: "{q. insess (prt s) y q} = {q. insess ?P y q}" using ins [of y] False by simp
      show ?thesis using v unfolding eq by blast
    qed
    moreover have "y \<in> dom ?S" if "insess ?P y q" for y q
    proof (cases "y = z")
      case False
      then have "insess (prt s) y q" using that ins [of y] by auto
      then show ?thesis using ok unfolding sess_ok_def by auto
    qed simp
    moreover have "insess ?P y q \<and> mem ?P b q" if "sid ?S y b" "owner ?P b q" "q \<notin> D" for y b q
    proof -
      have "insess (prt s) y q \<and> mem (prt s) b q" using that sids ow ok unfolding sess_ok_def by metis
      moreover have "q \<noteq> p" using that(3) assms(4) by blast
      ultimately show ?thesis by simp
    qed
    ultimately show ?thesis using ok unfolding sess_ok_def sids by blast
  qed
  moreover have "grp_ok e (pidt s) ?P ?S"
  proof -
    have "refs ?P ?S = refs (prt s) (sst s)" using ow mm sids by (simp add: refs_def fun_eq_iff del: refer_upd)
    then show ?thesis using ok unfolding grp_ok_def mm sids by simp
  qed
  moreover have "full_ok D ?P" using ok assms(4) by (auto simp: full_ok_def)
  ultimately show "pid_ok X D e (s\<lparr>prt := ?P, sst := ?S\<rparr>)" using pid_ok_prc [OF assms(1,2) x'(1), of "pidt s" e ?S D] ok by simp
qed

text \<open>A change of the family only.\<close>

definition same_ids :: "prctab \<Rightarrow> prctab \<Rightarrow> bool" where
  "same_ids P P' \<longleftrightarrow> dom P' = dom P
     \<and> (\<forall>p x x'. P p = Some x \<and> P' p = Some x' \<longrightarrow> p_pidp x' = p_pidp x \<and> p_pgidp x' = p_pgidp x \<and> p_sessp x' = p_sessp x)"

lemma same_ids_refl [simp]: "same_ids P P"
  by (auto simp: same_ids_def)

lemma same_ids_upd: "P p = Some x \<Longrightarrow> p_pidp x' = p_pidp x \<Longrightarrow> p_pgidp x' = p_pgidp x \<Longrightarrow> p_sessp x' = p_sessp x \<Longrightarrow> same_ids P (P(p \<mapsto> x'))"
  by (auto simp: same_ids_def split: if_splits)

lemma same_ids_sym: "same_ids P P' \<Longrightarrow> same_ids P' P"
  unfolding same_ids_def by metis

lemma same_idsD:
  assumes "same_ids P P'" "P' p = Some x'"
  obtains x where "P p = Some x" "p_pidp x = p_pidp x'" "p_pgidp x = p_pgidp x'" "p_sessp x = p_sessp x'"
proof -
  have "p \<in> dom P" using assms unfolding same_ids_def by blast
  then obtain x where "P p = Some x" by blast
  then show ?thesis using that assms unfolding same_ids_def by metis
qed

lemma same_ids_trans: "same_ids P P' \<Longrightarrow> same_ids P' P'' \<Longrightarrow> same_ids P P''"
proof -
  assume a: "same_ids P P'" "same_ids P' P''"
  have "p_pidp z = p_pidp x \<and> p_pgidp z = p_pgidp x \<and> p_sessp z = p_sessp x" if x: "P p = Some x" "P'' p = Some z" for p x z
  proof -
    obtain y where "P' p = Some y" "p_pidp y = p_pidp z" "p_pgidp y = p_pgidp z" "p_sessp y = p_sessp z" by (rule same_idsD [OF a(2) x(2)])
    then show ?thesis using a(1) x(1) unfolding same_ids_def by metis
  qed
  then show ?thesis using a unfolding same_ids_def by blast
qed

lemma same_ids_imp:
  assumes "same_ids P P'"
  shows "owner P' a p \<Longrightarrow> owner P a p" "mem P' a p \<Longrightarrow> mem P a p" "insess P' a p \<Longrightarrow> insess P a p"
  unfolding owner_def mem_def insess_def by (metis same_idsD [OF assms])+

lemma same_ids_refer:
  assumes "same_ids P P'"
  shows "owner P' = owner P" "mem P' = mem P" "insess P' = insess P" "dom P' = dom P"
  using same_ids_imp [OF assms] same_ids_imp [OF same_ids_sym [OF assms]] assms
  by (auto simp: fun_eq_iff same_ids_def)

lemma pid_ok_family:
  assumes "pid_ok X D e s" "same_ids (prt s) P'" "fam_ok X' P'"
  shows "pid_ok X' D e (s\<lparr>prt := P'\<rparr>)"
proof -
  note ok = assms(1) [unfolded pid_ok_def] and r = same_ids_refer [OF assms(2)]
  have "own_ok (pidt s) P' (procdir s)" unfolding own_ok_def
  proof (intro allI impI)
    fix p x assume p: "P' p = Some x"
    obtain y where "prt s p = Some y" "p_pidp y = p_pidp x" by (rule same_idsD [OF assms(2) p])
    then show "\<exists>a g. p_pidp x = Some a \<and> pidt s a = Some g \<and> pid_prslot g < length (procdir s) \<and> procdir s ! pid_prslot g = PeProc p"
      using ok unfolding own_ok_def by metis
  qed
  moreover have "full_ok D P'" unfolding full_ok_def
  proof (intro allI impI)
    fix p x assume p: "P' p = Some x \<and> p \<notin> D"
    then have p': "P' p = Some x" by blast
    obtain y where "prt s p = Some y" "p_pgidp y = p_pgidp x" "p_sessp y = p_sessp x" by (rule same_idsD [OF assms(2) p'])
    then show "p_pgidp x \<noteq> None \<and> p_sessp x \<noteq> None" using ok p unfolding full_ok_def by metis
  qed
  moreover have "act_ok P' (practive s) (nproc s)" using ok unfolding act_ok_def r by blast
  moreover have "inact_ok (pidt s) P'" using ok unfolding inact_ok_def r by blast
  moreover have "grp_ok e (pidt s) P' (sst s)" using ok unfolding grp_ok_def refs_def r by blast
  moreover have "sess_ok D P' (sst s)" using ok unfolding sess_ok_def r by blast
  ultimately show ?thesis using ok assms(3) by (simp add: pid_ok_def)
qed

lemma fam_tie:
  assumes "fam_ok {} P" "P c = Some x" "p_parent x = None" "P q = Some y" "c \<noteq> q"
  shows "fam_ok {} (P(c \<mapsto> x\<lparr>p_parent := Some q\<rparr>, q \<mapsto> y\<lparr>p_child := c # p_child y\<rparr>))"
proof -
  let ?P = "P(c \<mapsto> x\<lparr>p_parent := Some q\<rparr>, q \<mapsto> y\<lparr>p_child := c # p_child y\<rparr>)"
  have par: "(\<exists>v. ?P p = Some v \<and> p_parent v = Some r) \<longleftrightarrow> p = c \<and> r = q \<or> (\<exists>v. P p = Some v \<and> p_parent v = Some r)" for p r
    using assms(2-5) by auto
  have ch: "distinct (p_child v)" "set (p_child v) = {p. \<exists>u. P p = Some u \<and> p_parent u = Some r}" if "P r = Some v" for r v
    using assms(1) that by (simp_all add: fam_ok_def)
  have nc: "c \<notin> set (p_child v)" if "P r = Some v" for r v using ch(2) [OF that] assms(2,3) by auto
  have "distinct (p_child v) \<and> set (p_child v) = {p. p \<notin> {} \<and> (\<exists>u. ?P p = Some u \<and> p_parent u = Some r)}" if v: "?P r = Some v" for r v
  proof -
    consider "r = q" "v = y\<lparr>p_child := c # p_child y\<rparr>" | "r \<noteq> q" "r = c" "v = x\<lparr>p_parent := Some q\<rparr>" | "r \<noteq> q" "P r = Some v"
      using v by (metis fun_upd_apply option.inject)
    then show ?thesis unfolding par
    proof cases
      case 1
      then show "distinct (p_child v) \<and> set (p_child v) = {p. p \<notin> {} \<and> (p = c \<and> r = q \<or> (\<exists>u. P p = Some u \<and> p_parent u = Some r))}"
        using ch [OF assms(4)] nc [OF assms(4)] by auto
    next
      case 2
      then show "distinct (p_child v) \<and> set (p_child v) = {p. p \<notin> {} \<and> (p = c \<and> r = q \<or> (\<exists>u. P p = Some u \<and> p_parent u = Some r))}"
        using ch [OF assms(2)] by auto
    next
      case 3
      then show "distinct (p_child v) \<and> set (p_child v) = {p. p \<notin> {} \<and> (p = c \<and> r = q \<or> (\<exists>u. P p = Some u \<and> p_parent u = Some r))}"
        using ch [OF 3(2)] by auto
    qed
  qed
  moreover have "r \<in> dom ?P" if "?P p = Some v" "p_parent v = Some r" for p v r
  proof -
    have "p = c \<and> r = q \<or> (\<exists>v. P p = Some v \<and> p_parent v = Some r)" using par that by blast
    then have "r \<in> dom P" using assms(1,4) unfolding fam_ok_def by blast
    then show ?thesis by auto
  qed
  ultimately show ?thesis unfolding fam_ok_def by blast
qed

text \<open>The child of process \<open>pp\<close>.\<close>

definition child_of :: "nat \<Rightarrow> prc \<Rightarrow> nat \<Rightarrow> prc \<Rightarrow> bool" where
  "child_of pp x a c \<longleftrightarrow> p_pidp c = Some a \<and> p_pgidp c = p_pgidp x \<and> p_sessp c = p_sessp x \<and> p_parent c = Some pp \<and> p_child c = []"

lemma SESS_HOLD_frame: "SESS_HOLD (s\<lparr>prt := P\<rparr>) z = map_option (\<lambda>s'. s'\<lparr>prt := P\<rparr>) (SESS_HOLD s z)"
  by (cases "sst s z") (simp_all add: SESS_HOLD_def upd_sess_def)

lemma newproc_join_ok:
  assumes "pid_ok {} {cp} (\<lambda>a. 0) s" "prt s pp = Some x" "pp \<noteq> cp" "prt s cp = Some c" "nproc s \<le> 30000"
    and c: "p_pidp c = Some a" "p_pgidp c = None" "p_sessp c = None" "\<And>y. \<not> sid (sst s) y a"
  obtains T S c' where "newproc_join s pp cp = Some (s\<lparr>pidt := T, prt := (prt s)(cp \<mapsto> c'), sst := S\<rparr>)"
    "pid_ok {} {} (\<lambda>a. 0) (s\<lparr>pidt := T, prt := (prt s)(cp \<mapsto> c'), sst := S\<rparr>)"
    "same_self c c'" "p_pgidp c' = p_pgidp x" "p_sessp c' = p_sessp x" "ids_le T (pidt s)"
proof -
  obtain ap gp b h z w d k where x: "p_pidp x = Some ap" "pidt s ap = Some gp" "p_pgidp x = Some b" "pidt s b = Some h"
    "p_sessp x = Some z" "sst s z = Some w" "s_sidp w = Some d" "pidt s d = Some k"
    by (rule pid_inv_prc [OF assms(1,2)]) (use assms(3) in auto)
  define c1 S where "c1 = c\<lparr>p_uid := p_uid x, p_sessp := Some z\<rparr>" and "S = (sst s)(z \<mapsto> w\<lparr>s_ref := s_ref w + 1\<rparr>)"
  let ?s1 = "s\<lparr>prt := (prt s)(cp \<mapsto> c1), sst := S\<rparr>"
  have ok1: "pid_ok {} {cp} (\<lambda>a. 0) ?s1" unfolding S_def
    by (rule enter_session(2) [OF assms(1,4) c(3) _ x(6) assms(5)]) (simp_all add: c1_def same_self_def)
  have "SESS_HOLD s z = Some (s\<lparr>sst := S\<rparr>)" unfolding S_def
    by (rule enter_session(1) [OF assms(1,4) c(3) _ x(6) assms(5), of c1]) (simp_all add: c1_def same_self_def)
  then have hold: "SESS_HOLD (s\<lparr>prt := (prt s)(cp \<mapsto> c1)\<rparr>) z = Some ?s1" by (simp add: SESS_HOLD_frame)
  obtain T c' where j: "pgjoin ?s1 cp b = Some (?s1\<lparr>pidt := T, prt := (prt ?s1)(cp \<mapsto> c')\<rparr>)"
    "pid_ok {} {cp} (\<lambda>a. 0) (?s1\<lparr>pidt := T, prt := (prt ?s1)(cp \<mapsto> c')\<rparr>)"
    "same_self c1 c'" "p_sessp c' = p_sessp c1" "p_pgidp c' = Some b"
    by (rule pgjoin_ok [OF ok1, of cp c1 b h]) (use x(4) c(2) in \<open>auto simp: c1_def\<close>)
  let ?s2 = "s\<lparr>pidt := T, prt := (prt s)(cp \<mapsto> c'), sst := S\<rparr>"
  have ok2: "pid_ok {} {cp} (\<lambda>a. 0) ?s2" using j(2) by simp
  have sids: "sid S = sid (sst s)" using x(6) by (auto simp: sid_def fun_eq_iff S_def)
  have cc: "same_self c c'" "p_sessp c' = Some z" using j(3,4) by (simp_all add: same_self_def c1_def)
  have "pid_ok {} {} (\<lambda>a. 0) ?s2"
    by (rule pid_ok_settled [OF ok2, of c' z]) (use cc j(5) c(1,4) sids in \<open>auto simp: same_self_def\<close>)
  moreover have "newproc_join s pp cp = Some ?s2"
    using assms(2-4) x hold j(1) by (simp add: newproc_join_def upd_prc_def c1_def)
  moreover have "ids_le T (pidt s)" using pgjoin_ids [OF j(1)] by simp
  ultimately show ?thesis using that [of S c' T] cc j(5) x by simp
qed

lemma newproc_run:
  assumes "pid_inv s" "prt s pp = Some x" "pid_room s cond u_uid u_ruid" "prt s prp = None" "pidt s pidp = None" "3 * int (nproc s) < MAXPID - minpid s"
  obtains k s1 s2 s3 c' c2 where "pid_assign s cond u_uid u_ruid (Some prp) (Some pidp) = Some (PNew k prp, s1)"
    "newproc_join s1 pp prp = Some s2" "newproc_tie s2 pp prp = Some s3"
    "pid_inv s2" "prt s2 = (prt s)(prp \<mapsto> c')" "p_child c' = []" "p_parent c' = None"
    "pid_inv s3" "prt s3 = (prt s)(prp \<mapsto> c2, pp \<mapsto> x\<lparr>p_child := prp # p_child x\<rparr>)" "child_of pp x pidp c2"
    "minpid s \<le> k" "k < MAXPID" "\<forall>a g. pidt s a = Some g \<longrightarrow> pid_id g \<noteq> k" "pidno s3 (Some pidp) = Some k"
proof -
  have ne: "pp \<noteq> prp" using assms(2,4) by auto
  obtain k c s1 where s1: "pid_assign s cond u_uid u_ruid (Some prp) (Some pidp) = Some (PNew k prp, s1)"
    "minpid s \<le> k" "k < MAXPID" "\<forall>a g. pidt s a = Some g \<longrightarrow> pid_id g \<noteq> k"
    "pid_ok {} {prp} (\<lambda>a. 0) s1" "prt s1 = (prt s)(prp \<mapsto> c)" "sst s1 = sst s" "nproc s1 = nproc s + 1" "v_proc s1 = v_proc s" "minpid s1 = minpid s" "mpid s1 = k"
    "c = prc0\<lparr>p_stat := SIDL, p_opid := k, p_pidp := Some pidp\<rparr>" "pidno s1 (Some pidp) = Some k"
    by (rule pid_assign_ok [OF assms(1,3-6)])
  have small: "nproc s1 \<le> 30000" using s1(5,9) assms(1) by (auto simp: pid_ok_def slot_ok_def pid_inv_def)
  have nos: "\<not> sid (sst s) y pidp" for y using pid_inv_ok [OF assms(1)] assms(5) unfolding pid_ok_def grp_ok_def by blast
  obtain T S c' where j: "newproc_join s1 pp prp = Some (s1\<lparr>pidt := T, prt := (prt s1)(prp \<mapsto> c'), sst := S\<rparr>)"
    "pid_ok {} {} (\<lambda>a. 0) (s1\<lparr>pidt := T, prt := (prt s1)(prp \<mapsto> c'), sst := S\<rparr>)"
    "same_self c c'" "p_pgidp c' = p_pgidp x" "p_sessp c' = p_sessp x" "ids_le T (pidt s1)"
    by (rule newproc_join_ok [OF s1(5) _ ne _ small, of x c pidp]) (use s1(6,7,12) assms(2) ne nos in \<open>auto simp: prc0_def\<close>)
  define P c2 where "P = (prt s)(prp \<mapsto> c')" and "c2 = c'\<lparr>p_parent := Some pp\<rparr>"
  let ?s2 = "s1\<lparr>pidt := T, prt := P, sst := S\<rparr>"
  have ok2: "pid_ok {} {} (\<lambda>a. 0) ?s2" using j(2) s1(6) by (simp add: P_def)
  have c': "p_parent c' = None" "p_pidp c' = Some pidp" "p_child c' = []" using j(3) s1(12) by (simp_all add: same_self_def prc0_def)
  let ?P = "P(prp \<mapsto> c2, pp \<mapsto> x\<lparr>p_child := prp # p_child x\<rparr>)"
  have Pp: "P prp = Some c'" "P pp = Some x" using ne assms(2) by (simp_all add: P_def)
  have "fam_ok {} ?P" unfolding c2_def by (rule fam_tie) (use ok2 Pp ne c'(1) in \<open>auto simp: pid_ok_def\<close>)
  moreover have "same_ids P ?P"
    by (rule same_ids_trans [of P "P(prp \<mapsto> c2)"]; rule same_ids_upd) (use Pp ne in \<open>simp_all add: c2_def\<close>)
  ultimately have ok3: "pid_ok {} {} (\<lambda>a. 0) (?s2\<lparr>prt := ?P\<rparr>)" using pid_ok_family [OF ok2] by simp
  have tie: "newproc_tie ?s2 pp prp = Some (?s2\<lparr>prt := ?P\<rparr>)" using Pp ne by (simp add: newproc_tie_def upd_prc_def c2_def)
  have join: "newproc_join s1 pp prp = Some ?s2" using j(1) s1(6) by (simp add: P_def)
  have inv2: "pid_inv ?s2" using ok2 s1(2,3,9-11) assms(1) by (simp add: pid_inv_def)
  have "pid_inv (?s2\<lparr>prt := ?P\<rparr>)" using ok3 s1(2,3,9-11) assms(1) by (simp add: pid_inv_def)
  moreover have "T pidp \<noteq> None"
    by (rule pid_ok_own [OF ok2, of prp c']) (use Pp c' in auto)
  then have "pidno (?s2\<lparr>prt := ?P\<rparr>) (Some pidp) = Some k" using ids_le_pidno [OF j(6), of "?s2\<lparr>prt := ?P\<rparr>" pidp] s1(13) by simp
  moreover have "child_of pp x pidp c2" using c' j(4,5) by (simp add: child_of_def c2_def)
  moreover have "?P = (prt s)(prp \<mapsto> c2, pp \<mapsto> x\<lparr>p_child := prp # p_child x\<rparr>)" by (simp add: P_def)
  ultimately show ?thesis
    by (intro that [OF s1(1) join tie inv2]) (use s1(2-4) c' in \<open>simp_all add: P_def\<close>)
qed

end
