(* ===== verification/KPidExit.thy ===== *)
theory KPidExit
  imports KPidLife
begin

text \<open>
  Processes go: \<^verbatim>\<open>exit\<close> gives the children to process \<open>init\<close>, \<^verbatim>\<open>freeproc\<close> and \<^verbatim>\<open>pid_exit\<close> take the process out of every table.
\<close>

section \<open>exit\<close>

lemma pid_ok_posted [simp]: "pid_ok X D e (s\<lparr>posted := w\<rparr>) = pid_ok X D e s"
  by (simp add: pid_ok_def)

lemma posted_order [simp]:
  fixes s :: pidsys
  shows "s\<lparr>posted := w, pidt := T\<rparr> = s\<lparr>pidt := T, posted := w\<rparr>" "s\<lparr>posted := w, prt := P\<rparr> = s\<lparr>prt := P, posted := w\<rparr>"
  by (cases s; simp)+

lemma pgsignal_ok:
  assumes "pid_ok X D e s" "pidt s a = Some g"
  shows "pgsignal s a sig = Some (s\<lparr>posted := posted s @ map (\<lambda>p. (p, sig)) (pid_pglink g)\<rparr>)"
proof -
  have "list_all (\<lambda>p. prt s p \<noteq> None) (pid_pglink g)" using members_live [OF assms] by (fastforce simp: list_all_iff)
  then show ?thesis using assms(2) by (simp add: pgsignal_def)
qed

text \<open>\<^verbatim>\<open>pgdetach\<close> marks groups as orphaned and posts signals, nothing else.\<close>

lemma detach_scan_ok:
  assumes "pid_ok X D e s" "pidt s a = Some g" "\<And>m. m \<in> set ms \<Longrightarrow> prt s m \<noteq> None" "ms \<noteq> []"
  shows "\<exists>T w. detach_scan s pp a n ms = Some (s\<lparr>pidt := T, posted := w\<rparr>) \<and> pid_ok X D e (s\<lparr>pidt := T\<rparr>)"
  using assms(3,4)
proof (induction ms arbitrary: n)
  case (Cons m ms)
  obtain x where x: "prt s m = Some x" using Cons.prems(1) [of m] by auto
  have "pglinked s m \<noteq> None" by (rule pglinked_ok) (use assms(1) x in \<open>auto simp: pid_ok_def\<close>)
  then obtain l0 where "pglinked s m = Some l0" by blast
  then obtain l where l: "(if m \<noteq> pp \<and> p_parent x \<noteq> Some pp then pglinked s m else Some False) = Some l" by (metis (full_types))
  define k where "k = (if p_stat x = SSTOP \<and> p_whystop x = PR_JOBCONTROL then n + 1 else n)"
  show ?case
  proof (cases "l \<or> ms \<noteq> []")
    case True
    then consider "l" | "\<not> l" "ms \<noteq> []" by blast
    then show ?thesis
    proof cases
      case 1
      then show ?thesis using x l assms(1) by (intro exI [of _ "pidt s"] exI [of _ "posted s"]) (simp del: if_split_asm)
    next
      case 2
      have "detach_scan s pp a n (m # ms) = detach_scan s pp a k ms" using x l 2 by (simp add: k_def Let_def)
      then show ?thesis using Cons.IH [of k] Cons.prems 2 by simp
    qed
  next
    case False
    let ?g = "g\<lparr>pid_pgorphaned := True\<rparr>"
    let ?s = "s\<lparr>pidt := (pidt s)(a \<mapsto> ?g)\<rparr>"
    have ok: "pid_ok X D e ?s" by (rule pid_ok_flag [OF assms(1,2)])
    have ga: "pidt ?s a = Some ?g" by simp
    have "detach_scan s pp a n (m # ms) = (if k \<noteq> 0 then do { s \<leftarrow> pgsignal ?s a SIGHUP; pgsignal s a SIGCONT } else Some ?s)"
      using x l False assms(2) by (simp add: k_def Let_def upd_pid_def)
    also have "\<dots> = Some (?s\<lparr>posted := posted s @ (if k \<noteq> 0 then map (\<lambda>p. (p, SIGHUP)) (pid_pglink g) @ map (\<lambda>p. (p, SIGCONT)) (pid_pglink g) else [])\<rparr>)"
      using pgsignal_ok [OF ok ga, of SIGHUP] pgsignal_ok [of X D e "?s\<lparr>posted := v\<rparr>" a ?g SIGCONT for v] ok by simp
    finally show ?thesis using ok by blast
  qed
qed simp

lemma pgdetach_from_ok:
  assumes "pid_ok {} {} e s" "\<And>c. c \<in> set cs \<Longrightarrow> prt s c \<noteq> None"
  shows "\<exists>T w. pgdetach_from s pp cs = Some (s\<lparr>pidt := T, posted := w\<rparr>) \<and> pid_ok {} {} e (s\<lparr>pidt := T\<rparr>)"
  using assms
proof (induction cs arbitrary: s)
  case Nil
  then show ?case by (intro exI [of _ "pidt s"] exI [of _ "posted s"]) simp
next
  case (Cons c cs)
  obtain x where x: "prt s c = Some x" using Cons.prems(2) [of c] by auto
  obtain b h where b: "p_pgidp x = Some b" "pidt s b = Some h" by (rule pid_inv_prc [OF Cons.prems(1) x]) auto
  have m: "set (pid_pglink h) = {p. mem (prt s) b p}" using Cons.prems(1) b(2) unfolding pid_ok_def grp_ok_def by blast
  have ne: "pid_pglink h \<noteq> []" using m x b(1) by (auto simp: mem_def)
  have live: "prt s q \<noteq> None" if "q \<in> set (pid_pglink h)" for q using that m by (auto simp: mem_def)
  obtain T w where s1: "detach_scan s pp b 0 (pid_pglink h) = Some (s\<lparr>pidt := T, posted := w\<rparr>)" "pid_ok {} {} e (s\<lparr>pidt := T\<rparr>)"
    using detach_scan_ok [OF Cons.prems(1) b(2) live ne] by blast
  define s' where "s' = (if pid_pgorphaned h then s else s\<lparr>pidt := T, posted := w\<rparr>)"
  have ok': "pid_ok {} {} e s'" using s1(2) Cons.prems(1) by (simp add: s'_def)
  have pr: "prt s' = prt s" by (simp add: s'_def)
  obtain T' w' where r: "pgdetach_from s' pp cs = Some (s'\<lparr>pidt := T', posted := w'\<rparr>)" "pid_ok {} {} e (s'\<lparr>pidt := T'\<rparr>)"
    using Cons.IH [OF ok'] Cons.prems(2) pr by (metis list.set_intros(2))
  have "pgdetach_from s pp (c # cs) = pgdetach_from s' pp cs" using x b s1(1) by (simp add: s'_def)
  moreover have "s'\<lparr>pidt := T', posted := w'\<rparr> = s\<lparr>pidt := T', posted := w'\<rparr>" "pid_ok {} {} e (s'\<lparr>pidt := T'\<rparr>) = pid_ok {} {} e (s\<lparr>pidt := T'\<rparr>)"
    by (simp_all add: s'_def)
  ultimately show ?case using r by auto
qed

definition given :: "nat \<Rightarrow> nat list \<Rightarrow> prctab \<Rightarrow> prctab" where
  "given init cs P = (\<lambda>q. if q \<in> set cs then map_option (\<lambda>x. x\<lparr>p_parent := Some init\<rparr>) (P q) else P q)"

lemma reparent_ok:
  assumes "\<And>c. c \<in> set cs \<Longrightarrow> prt s c \<noteq> None"
  shows "\<exists>w. reparent s init cs = Some (s\<lparr>prt := given init cs (prt s), posted := w\<rparr>)"
  using assms
proof (induction cs arbitrary: s)
  case Nil
  then show ?case by (intro exI [of _ "posted s"]) (simp add: given_def)
next
  case (Cons c cs)
  obtain x where x: "prt s c = Some x" using Cons.prems [of c] by auto
  define v where "v = (if p_flag x AND STRC \<noteq> 0 then posted s @ [(c, SIGKILL)] else posted s)"
  define s' where "s' = s\<lparr>prt := (prt s)(c \<mapsto> x\<lparr>p_parent := Some init\<rparr>), posted := v\<rparr>"
  have run: "reparent s init (c # cs) = reparent s' init cs" using x by (simp add: s'_def v_def upd_prc_def)
  have "prt s' q \<noteq> None" if "q \<in> set cs" for q using that Cons.prems [of q] by (auto simp: s'_def)
  then obtain w where w: "reparent s' init cs = Some (s'\<lparr>prt := given init cs (prt s'), posted := w\<rparr>)" using Cons.IH [of s'] by blast
  have "given init cs (prt s') = given init (c # cs) (prt s)" using x by (auto simp: s'_def given_def fun_eq_iff)
  then have "s'\<lparr>prt := given init cs (prt s'), posted := w\<rparr> = s\<lparr>prt := given init (c # cs) (prt s), posted := w\<rparr>" by (simp add: s'_def)
  then show ?case using run w by metis
qed

lemma fam_give:
  assumes "fam_ok {} P" "P p = Some x" "P init = Some y0" "init \<noteq> p"
    and P1: "P1 = given init (p_child x) P"
    and y: "P1 init = Some y" and x1: "P1 p = Some x1"
  shows "fam_ok {} (P1(init \<mapsto> y\<lparr>p_child := p_child x @ p_child y\<rparr>, p \<mapsto> x1\<lparr>p_child := []\<rparr>))"
proof -
  let ?P = "P1(init \<mapsto> y\<lparr>p_child := p_child x @ p_child y\<rparr>, p \<mapsto> x1\<lparr>p_child := []\<rparr>)"
  have ch: "distinct (p_child v)" "set (p_child v) = {q. \<exists>u. P q = Some u \<and> p_parent u = Some r}" if "P r = Some v" for r v
    using assms(1) that by (simp_all add: fam_ok_def)
  have same: "p_parent v = p_parent u" if "P1 q = Some u" "?P q = Some v" for q u v
    using that y x1 assms(4) by (auto split: if_splits)
  have dom: "?P q = None \<longleftrightarrow> P q = None" "P1 q = None \<longleftrightarrow> P q = None" for q using y x1 assms(2,3) by (auto simp: P1 given_def)
  have par1: "(\<exists>v. P1 q = Some v \<and> p_parent v = Some r) \<longleftrightarrow>
      (if q \<in> set (p_child x) then r = init else (\<exists>v. P q = Some v \<and> p_parent v = Some r))" for q r
    using ch(2) [OF assms(2)] by (auto simp: P1 given_def)
  have par: "(\<exists>v. ?P q = Some v \<and> p_parent v = Some r) \<longleftrightarrow>
      (if q \<in> set (p_child x) then r = init else (\<exists>v. P q = Some v \<and> p_parent v = Some r))" for q r
    unfolding par1 [symmetric] using same [of q] dom [of q] by (metis not_None_eq)
  have child: "p_child u = p_child v" if "P q = Some u" "P1 q = Some v" for q u v using that by (auto simp: P1 given_def split: if_splits)
  have goal: "distinct (p_child v) \<and> set (p_child v) = {q. if q \<in> set (p_child x) then r = init else (\<exists>u. P q = Some u \<and> p_parent u = Some r)}"
    if v: "?P r = Some v" for r v
  proof -
    consider "r = p" "v = x1\<lparr>p_child := []\<rparr>" | "r = init" "v = y\<lparr>p_child := p_child x @ p_child y\<rparr>" | "r \<noteq> p" "r \<noteq> init" "P1 r = Some v"
      using v by (metis fun_upd_apply option.inject)
    then show ?thesis
    proof cases
      case 1
      then show ?thesis using ch [OF assms(2)] assms(4) by auto
    next
      case 2
      have "p_child y0 = p_child y" by (rule child [OF assms(3) y])
      then show ?thesis using 2 ch [OF assms(2)] ch [OF assms(3)] assms(4) by auto
    next
      case 3
      then obtain u where u: "P r = Some u" using dom(2) [of r] by (metis not_None_eq)
      have "p_child u = p_child v" by (rule child [OF u 3(3)])
      moreover have "q \<notin> set (p_child x)" if "P q = Some t" "p_parent t = Some r" for q t
        using that ch(2) [OF assms(2)] 3(1) by auto
      ultimately show ?thesis using 3 ch [OF u] by auto
    qed
  qed
  have "r \<in> dom ?P" if "?P q = Some v" "p_parent v = Some r" for q v r
  proof -
    have "r = init \<or> (\<exists>v. P q = Some v \<and> p_parent v = Some r)" using par [of q r] that by (auto split: if_splits)
    then have "P r \<noteq> None" using assms(1,3) unfolding fam_ok_def by blast
    then show ?thesis using dom(1) [of r] by auto
  qed
  moreover have "distinct (p_child v) \<and> set (p_child v) = {q. q \<notin> {} \<and> (\<exists>u. ?P q = Some u \<and> p_parent u = Some r)}" if "?P r = Some v" for r v
    using goal [OF that] unfolding par by simp
  ultimately show ?thesis unfolding fam_ok_def by blast
qed

lemma exit_children_ok:
  assumes "pid_inv s" "prt s p = Some x" "prt s init = Some y" "init \<noteq> p"
  shows "\<exists>s' x'. exit_children s p init = Some s' \<and> pid_inv s' \<and> same_ids (prt s) (prt s') \<and> prt s' p = Some x' \<and> p_child x' = []
    \<and> sst s' = sst s"
proof (cases "p_child x = []")
  case True
  then show ?thesis using assms by (simp add: exit_children_def)
next
  case False
  note ok = pid_inv_ok [OF assms(1)]
  have live: "prt s c \<noteq> None" if "c \<in> set (p_child x)" for c using that ok assms(2) unfolding pid_ok_def fam_ok_def by blast
  obtain T w where s1: "pgdetach_from s p (p_child x) = Some (s\<lparr>pidt := T, posted := w\<rparr>)" "pid_ok {} {} (\<lambda>a. 0) (s\<lparr>pidt := T\<rparr>)"
    using pgdetach_from_ok [OF ok live, of "p_child x" p] by blast
  let ?s1 = "s\<lparr>pidt := T, posted := w\<rparr>"
  define P1 where "P1 = given init (p_child x) (prt s)"
  obtain w2 where s2: "reparent ?s1 init (p_child x) = Some (?s1\<lparr>prt := P1, posted := w2\<rparr>)"
    using reparent_ok [of "p_child x" ?s1 init] live by (auto simp: P1_def [symmetric])
  have "P1 init \<noteq> None" "P1 p \<noteq> None" using assms(2,3) by (simp_all add: P1_def given_def)
  then obtain y1 x1 where q: "P1 init = Some y1" "P1 p = Some x1" by blast
  let ?P = "P1(init \<mapsto> y1\<lparr>p_child := p_child x @ p_child y1\<rparr>, p \<mapsto> x1\<lparr>p_child := []\<rparr>)"
  have "same_ids (prt s) P1" by (auto simp: same_ids_def P1_def given_def split: if_splits)
  moreover have "same_ids P1 (P1(init \<mapsto> y1\<lparr>p_child := p_child x @ p_child y1\<rparr>))" by (rule same_ids_upd [of P1 init y1]) (use q(1) in simp_all)
  moreover have "same_ids (P1(init \<mapsto> y1\<lparr>p_child := p_child x @ p_child y1\<rparr>)) ?P" by (rule same_ids_upd [of _ p x1]) (use q(2) assms(4) in simp_all)
  ultimately have ids: "same_ids (prt s) ?P" using same_ids_trans by blast
  have "fam_ok {} ?P" by (rule fam_give [OF _ assms(2-4) P1_def q]) (use ok in \<open>simp add: pid_ok_def\<close>)
  then have "pid_ok {} {} (\<lambda>a. 0) (s\<lparr>pidt := T, prt := ?P\<rparr>)" using pid_ok_family [OF s1(2)] ids by simp
  moreover have "exit_children s p init = Some (s\<lparr>pidt := T, prt := ?P, posted := w2\<rparr>)"
    using False assms(2,4) s1(1) s2 q by (simp add: exit_children_def pgdetach_def upd_prc_def)
  moreover have "pid_inv (s\<lparr>pidt := T, prt := ?P, posted := w2\<rparr>)" by (rule pid_inv_upd [OF assms(1)]) (use calculation(1) in simp_all)
  ultimately show ?thesis using ids by auto
qed

section \<open>freeproc\<close>

text \<open>The last reference of a process that has left its group, its session and its family.\<close>

lemma fam_bury:
  assumes "fam_ok {p} P" "P p = Some x" "p_child x = []"
  shows "fam_ok {} (P(p := None))"
proof -
  have ch: "distinct (p_child v)" "set (p_child v) = {q. q \<notin> {p} \<and> (\<exists>u. P q = Some u \<and> p_parent u = Some r)}" if "P r = Some v" for r v
    using assms(1) that by (simp_all add: fam_ok_def)
  have "distinct (p_child v) \<and> set (p_child v) = {q. q \<notin> {} \<and> (\<exists>u. (P(p := None)) q = Some u \<and> p_parent u = Some r)}" if v: "(P(p := None)) r = Some v" for r v
    using v ch [of r v] by (auto split: if_splits)
  moreover have "r \<in> dom (P(p := None))" if "(P(p := None)) q = Some v" "p_parent v = Some r" for q v r
  proof -
    have q: "q \<noteq> p" "P q = Some v" using that(1) by (auto split: if_splits)
    then have "r \<noteq> p" using ch(2) [OF assms(2)] assms(3) that(2) by auto
    moreover have "r \<in> dom P" using assms(1) q(2) that(2) unfolding fam_ok_def by blast
    ultimately show ?thesis by auto
  qed
  ultimately show ?thesis unfolding fam_ok_def by blast
qed

lemma pid_ok_bury:
  assumes "pid_ok {p} {p} (\<lambda>a. 0) s" "prt s p = Some x" "p_pgidp x = None" "p_sessp x = None" "p_child x = []" "p_pidp x = Some a" "pidt s a = Some g"
  shows "pid_ok {} {} ((\<lambda>a. 0)(a := 1)) (s\<lparr>pidt := (pidt s)(a \<mapsto> g\<lparr>pid_prinactive := True\<rparr>), prt := (prt s)(p := None),
    practive := remove1 p (practive s), procdir := (procdir s)[pid_prslot g := PeNext (procentfree s)], procentfree := Some (pid_prslot g), nproc := nproc s - 1\<rparr>)"
proof -
  note ok = assms(1) [unfolded pid_ok_def]
  let ?P = "(prt s)(p := None)" and ?g = "g\<lparr>pid_prinactive := True\<rparr>" and ?d = "(procdir s)[pid_prslot g := PeNext (procentfree s)]"
  let ?T = "(pidt s)(a \<mapsto> ?g)"
  have sl: "pid_prslot g < length (procdir s)" "procdir s ! pid_prslot g = PeProc p"
    by (rule pid_ok_own [OF assms(1,2)], use assms(6,7) in simp)+
  have ow: "owner ?P b q \<longleftrightarrow> (b \<noteq> a \<and> owner (prt s) b q)" for b q
  proof -
    have pa: "owner (prt s) b p \<longleftrightarrow> b = a" for b using assms(2,6) by (auto simp: owner_def)
    have "q = p" if "owner (prt s) a q" using leader_unique [of "pidt s" "prt s" "procdir s" a p q] ok pa that by blast
    then have "q \<noteq> p \<and> owner (prt s) b q \<longleftrightarrow> b \<noteq> a \<and> owner (prt s) b q" using pa by blast
    then show ?thesis unfolding refer_upd .
  qed
  have mm: "mem ?P = mem (prt s)" "insess ?P = insess (prt s)" using assms(2-4) by (auto simp: mem_def insess_def fun_eq_iff)
  have "act_ok ?P (remove1 p (practive s)) (nproc s - 1)"
    using ok assms(2) by (auto simp: act_ok_def length_remove1)
  moreover have "own_ok ?T ?P ?d"
    unfolding own_ok_def
  proof (intro allI impI)
    fix q y assume y: "?P q = Some y"
    then have q: "q \<noteq> p" "prt s q = Some y" by (auto split: if_splits)
    obtain b h where b: "p_pidp y = Some b" "pidt s b = Some h" "pid_prslot h < length (procdir s)" "procdir s ! pid_prslot h = PeProc q"
      by (rule pid_ok_own [OF assms(1) q(2)])
    then have "pid_prslot h \<noteq> pid_prslot g" using sl(2) q(1) by auto
    then have "b \<noteq> a" using b(2) assms(7) by auto
    then show "\<exists>b h. p_pidp y = Some b \<and> ?T b = Some h \<and> pid_prslot h < length ?d \<and> ?d ! pid_prslot h = PeProc q"
      using b \<open>pid_prslot h \<noteq> pid_prslot g\<close> by auto
  qed
  moreover have "inact_ok ?T ?P" using ok ow unfolding inact_ok_def by auto
  moreover have "hash_ok ?T (pidhash s)" using ok hash_upd [of "pidt s" "pidhash s" a g ?g] assms(7) by simp
  moreover have "grp_ok ((\<lambda>a. 0)(a := 1)) ?T ?P (sst s)"
  proof (rule grp_change [of "\<lambda>a. 0" "pidt s" "prt s" "sst s"])
    show "refs ?P (sst s) b = refs (prt s) (sst s) b" if "b \<noteq> a" for b using that ow mm by (simp add: refs_def del: refer_upd)
    have g: "distinct (pid_pglink g)" "set (pid_pglink g) = {q. mem (prt s) a q}" "int (pid_ref g) = int (refs (prt s) (sst s) a) + 0" "0 < pid_ref g"
      using ok assms(7) unfolding grp_ok_def by blast+
    have "owner (prt s) a p" using assms(2,6) by (simp add: owner_def)
    then have "refs (prt s) (sst s) a = refs ?P (sst s) a + 1" using ow mm by (auto simp: refs_def simp del: refer_upd)
    then show "int (pid_ref ?g) = int (refs ?P (sst s) a) + ((\<lambda>a. 0)(a := 1)) a" using g(3) by simp
    show "distinct (pid_pglink ?g)" "set (pid_pglink ?g) = {q. mem ?P a q}" "0 < pid_ref ?g" using g mm by simp_all
  qed (use ok mm in auto)
  moreover have "sess_ok {} ?P (sst s)"
  proof -
    have "insess (prt s) y q \<and> mem (prt s) b q" if "sid (sst s) y b" "owner ?P b q" for y b q
    proof -
      have "q \<notin> {p}" "owner (prt s) b q" using that(2) by auto
      then show ?thesis using ok that(1) unfolding sess_ok_def by blast
    qed
    then show ?thesis using ok unfolding sess_ok_def mm by blast
  qed
  moreover have "full_ok {} ?P" using ok by (auto simp: full_ok_def)
  moreover have "fam_ok {} ?P" by (rule fam_bury) (use ok assms(2,5) in auto)
  moreover have "slot_ok ?d (Some (pid_prslot g)) (nproc s - 1) (v_proc s)"
    by (rule slot_put [OF _ sl]) (use ok assms(2) in \<open>auto simp: act_ok_def\<close>)
  ultimately show ?thesis by (simp add: pid_ok_def)
qed

lemma pid_exit_ok:
  assumes "pid_ok {p} {} (\<lambda>a. 0) s" "prt s p = Some x" "p_child x = []" "nproc s \<le> 30000"
  shows "\<exists>s'. pid_exit s p = Some s' \<and> pid_ok {} {} (\<lambda>a. 0) s' \<and> prt s' = (prt s)(p := None)
    \<and> v_proc s' = v_proc s \<and> minpid s' = minpid s \<and> mpid s' = mpid s"
proof -
  obtain a g0 b h z w c k where x: "p_pidp x = Some a" "pidt s a = Some g0" "p_pgidp x = Some b" "pidt s b = Some h"
    "p_sessp x = Some z" "sst s z = Some w" "s_sidp w = Some c" "pidt s c = Some k" by (rule pid_inv_prc [OF assms(1,2)]) auto
  define x1 x2 where "x1 = x\<lparr>p_pgidp := None, p_opgrp := 0\<rparr>" and "x2 = x\<lparr>p_pgidp := None, p_opgrp := 0, p_sessp := None\<rparr>"
  obtain T1 h1 where s1: "pgexit s p = Some (s\<lparr>pidt := T1, pidhash := h1, prt := (prt s)(p \<mapsto> x1)\<rparr>)"
    "pid_ok {p} {p} (\<lambda>a. 0) (s\<lparr>pidt := T1, pidhash := h1, prt := (prt s)(p \<mapsto> x1)\<rparr>)"
    by (rule pgexit_ok [OF assms(1,2) x(3)]) (auto simp: x1_def)
  let ?s1 = "s\<lparr>pidt := T1, pidhash := h1, prt := (prt s)(p \<mapsto> x1)\<rparr>"
  obtain T2 h2 S where s2: "SESS_RELE ?s1 z = Some (?s1\<lparr>pidt := T2, pidhash := h2, sst := S\<rparr>)"
    "pid_ok {p} {p} (\<lambda>a. 0) (?s1\<lparr>pidt := T2, pidhash := h2, prt := (prt ?s1)(p \<mapsto> x2), sst := S\<rparr>)"
    by (rule leave_session [OF s1(2), of p x1 z x2]) (use assms(4) x(5) in \<open>auto simp: x1_def x2_def same_self_def\<close>)
  let ?g = "s\<lparr>pidt := T2, pidhash := h2, prt := (prt s)(p \<mapsto> x2), sst := S\<rparr>"
  have ok2: "pid_ok {p} {p} (\<lambda>a. 0) ?g" using s2(2) by simp
  have "prt ?g p = Some x2" by simp
  then obtain g where g: "T2 a = Some g" "pid_prslot g < length (procdir s)"
    by (rule pid_ok_own [OF ok2]) (use x(1) in \<open>auto simp: x2_def\<close>)
  define T3 where "T3 = T2(a \<mapsto> g\<lparr>pid_prinactive := True\<rparr>)"
  define d where "d = (procdir s)[pid_prslot g := PeNext (procentfree s)]"
  let ?s3 = "s\<lparr>pidt := T3, pidhash := h2, prt := (prt s)(p := None), sst := S, practive := remove1 p (practive s), procdir := d,
    procentfree := Some (pid_prslot g), nproc := nproc s - 1\<rparr>"
  have ok3: "pid_ok {} {} ((\<lambda>a. 0)(a := 1)) ?s3"
    using pid_ok_bury [OF ok2, of x2 a g] x(1) assms(3) g(1) by (simp add: T3_def d_def x2_def)
  obtain T h where r: "rele_tab T3 h2 a = Some (T, h)" "pid_ok {} {} (\<lambda>a. 0) (?s3\<lparr>pidt := T, pidhash := h\<rparr>)"
    by (rule pid_rele_ok [OF ok3, of a "g\<lparr>pid_prinactive := True\<rparr>"]) (use fun_upd_idem [of "\<lambda>a. 0 :: int" a 0] in \<open>simp_all add: T3_def\<close>)
  have act: "distinct (practive s)" "set (practive s) = dom (prt s)" using assms(1) by (simp_all add: pid_ok_def act_ok_def)
  have u: "unlink (\<lambda>q. q \<noteq> p \<longrightarrow> (\<exists>y. prt s q = Some y)) p (practive s) = Some (remove1 p (practive s))"
    by (rule unlink_spec) (use act assms(2) in auto)
  let ?s' = "s\<lparr>sst := S, procdir := d, procentfree := Some (pid_prslot g), pidt := T, pidhash := h, practive := remove1 p (practive s),
    prt := (prt s)(p := None), nproc := nproc s - 1\<rparr>"
  have "pid_exit s p = Some ?s'"
    using s1(1) s2(1) x(1,5) g r(1) u
    by (simp add: pid_exit_def upd_pid_def wr_def PID_RELE_tab T3_def d_def x1_def)
  moreover have "pid_ok {} {} (\<lambda>a. 0) ?s'" using r(2) by (simp add: pid_ok_def)
  ultimately show ?thesis by simp
qed

lemma fam_drop:
  assumes "fam_ok {} P" "P p = Some x" "p_parent x = Some q" "P q = Some y"
  shows "fam_ok {p} (P(q \<mapsto> y\<lparr>p_child := remove1 p (p_child y)\<rparr>))"
proof -
  let ?P = "P(q \<mapsto> y\<lparr>p_child := remove1 p (p_child y)\<rparr>)"
  have ch: "distinct (p_child v)" "set (p_child v) = {c. \<exists>u. P c = Some u \<and> p_parent u = Some r}" if "P r = Some v" for r v
    using assms(1) that by (simp_all add: fam_ok_def)
  have par: "(\<exists>v. ?P c = Some v \<and> p_parent v = Some r) \<longleftrightarrow> (\<exists>v. P c = Some v \<and> p_parent v = Some r)" for c r
    using assms(4) by auto
  have "distinct (p_child v) \<and> set (p_child v) = {c. c \<notin> {p} \<and> (\<exists>u. ?P c = Some u \<and> p_parent u = Some r)}" if v: "?P r = Some v" for r v
  proof (cases "r = q")
    case True
    then show ?thesis using v ch [OF assms(4)] unfolding par by auto
  next
    case False
    then have r: "P r = Some v" using v by simp
    have "p \<notin> set (p_child v)" using ch(2) [OF r] assms(2,3) False by auto
    then show ?thesis using ch [OF r] unfolding par by auto
  qed
  moreover have "r \<in> dom ?P" if "?P c = Some v" "p_parent v = Some r" for c v r
  proof -
    have "\<exists>v. P c = Some v \<and> p_parent v = Some r" using par that by blast
    then have "r \<in> dom P" using assms(1) unfolding fam_ok_def by blast
    then show ?thesis by auto
  qed
  ultimately show ?thesis unfolding fam_ok_def by blast
qed

lemma freeproc_exact:
  assumes "pid_inv s" "prt s p = Some x" "p_child x = []" "p_parent x = Some q"
  obtains s' y where "freeproc s p = Some s'" "pid_inv s'" "prt s q = Some y" "q \<noteq> p"
    "prt s' = (prt s)(q \<mapsto> y\<lparr>p_child := remove1 p (p_child y)\<rparr>, p := None)"
proof -
  note ok = pid_inv_ok [OF assms(1)]
  have fam: "fam_ok {} (prt s)" using ok by (simp add: pid_ok_def)
  then obtain y where y: "prt s q = Some y" using assms(2,4) unfolding fam_ok_def by blast
  have ch: "distinct (p_child y)" "set (p_child y) = {c. \<exists>u. prt s c = Some u \<and> p_parent u = Some q}" using fam y by (simp_all add: fam_ok_def)
  have qp: "q \<noteq> p" using ch(2) y assms(2-4) by auto
  have u: "unlink (\<lambda>c. prt s c \<noteq> None) p (p_child y) = Some (remove1 p (p_child y))"
    by (rule unlink_spec) (use ch assms(2,4) in auto)
  let ?P = "(prt s)(q \<mapsto> y\<lparr>p_child := remove1 p (p_child y)\<rparr>)"
  have ids: "same_ids (prt s) ?P" by (rule same_ids_upd [of _ q y]) (use y in simp_all)
  have ok1: "pid_ok {p} {} (\<lambda>a. 0) (s\<lparr>prt := ?P\<rparr>)" by (rule pid_ok_family [OF ok ids fam_drop [OF fam assms(2,4) y]])
  obtain s' where s': "pid_exit (s\<lparr>prt := ?P\<rparr>) p = Some s'" "pid_ok {} {} (\<lambda>a. 0) s'" "prt s' = ?P(p := None)"
    "v_proc s' = v_proc s" "minpid s' = minpid s" "mpid s' = mpid s"
    using pid_exit_ok [OF ok1, of x] assms(2,3) qp pid_inv_nproc [OF assms(1)] by auto
  have "freeproc s p = Some s'" using assms(2,4) y u s'(1) by (simp add: freeproc_def upd_prc_def)
  moreover have "pid_inv s'" by (rule pid_inv_upd [OF assms(1) s'(2,4-6)])
  ultimately show ?thesis using that y qp s'(3) by blast
qed

lemma freeproc_ok:
  assumes "pid_inv s" "prt s p = Some x" "p_child x = []" "p_parent x = Some q"
  shows "\<exists>s' P. freeproc s p = Some s' \<and> pid_inv s' \<and> same_ids (prt s) P \<and> prt s' = P(p := None)"
proof -
  obtain s' y where s': "freeproc s p = Some s'" "pid_inv s'" "prt s q = Some y"
    "prt s' = (prt s)(q \<mapsto> y\<lparr>p_child := remove1 p (p_child y)\<rparr>, p := None)" by (rule freeproc_exact [OF assms])
  have "same_ids (prt s) ((prt s)(q \<mapsto> y\<lparr>p_child := remove1 p (p_child y)\<rparr>))" by (rule same_ids_upd [of _ q y]) (use s'(3) in simp_all)
  with s' show ?thesis by blast
qed

section \<open>Groups and sessions\<close>

text \<open>The members of a group, and the process whose identifier it has, are in one session.\<close>

definition one_sess :: "prctab \<Rightarrow> bool" where
  "one_sess P \<longleftrightarrow> (\<forall>a p q x y. P p = Some x \<and> P q = Some y \<and> p_pgidp x = Some a \<and> (p_pgidp y = Some a \<or> p_pidp y = Some a) \<longrightarrow> p_sessp y = p_sessp x)"

lemma one_sessI: "(\<And>a p q x y. P p = Some x \<Longrightarrow> P q = Some y \<Longrightarrow> p_pgidp x = Some a \<Longrightarrow> p_pgidp y = Some a \<or> p_pidp y = Some a \<Longrightarrow> p_sessp y = p_sessp x) \<Longrightarrow> one_sess P"
  unfolding one_sess_def by blast

lemma one_sessD: "one_sess P \<Longrightarrow> P p = Some x \<Longrightarrow> P q = Some y \<Longrightarrow> p_pgidp x = Some a \<Longrightarrow> p_pgidp y = Some a \<or> p_pidp y = Some a \<Longrightarrow> p_sessp y = p_sessp x"
  unfolding one_sess_def by blast

lemma one_sess_ids:
  assumes "one_sess P" "same_ids P P'"
  shows "one_sess P'"
proof (rule one_sessI)
  fix a p q x y
  assume h: "P' p = Some x" "P' q = Some y" "p_pgidp x = Some a" "p_pgidp y = Some a \<or> p_pidp y = Some a"
  obtain x0 where x0: "P p = Some x0" "p_pidp x0 = p_pidp x" "p_pgidp x0 = p_pgidp x" "p_sessp x0 = p_sessp x" by (rule same_idsD [OF assms(2) h(1)])
  obtain y0 where y0: "P q = Some y0" "p_pidp y0 = p_pidp y" "p_pgidp y0 = p_pgidp y" "p_sessp y0 = p_sessp y" by (rule same_idsD [OF assms(2) h(2)])
  show "p_sessp y = p_sessp x" using one_sessD [OF assms(1) x0(1) y0(1), of a] x0 y0 h by simp
qed

lemma one_sess_del: "one_sess P \<Longrightarrow> one_sess (P(p := None))"
  unfolding one_sess_def by (auto split: if_splits)

text \<open>A process takes a new place; every other process that its group concerns is in its session.\<close>

lemma one_sess_upd:
  assumes "one_sess P"
    and grp: "\<And>q y a. q \<noteq> p \<Longrightarrow> P q = Some y \<Longrightarrow> p_pgidp x' = Some a \<Longrightarrow> p_pgidp y = Some a \<or> p_pidp y = Some a \<Longrightarrow> p_sessp y = p_sessp x'"
    and own: "\<And>q y a. q \<noteq> p \<Longrightarrow> P q = Some y \<Longrightarrow> p_pgidp y = Some a \<Longrightarrow> p_pidp x' = Some a \<Longrightarrow> p_sessp y = p_sessp x'"
  shows "one_sess (P(p \<mapsto> x'))"
proof (rule one_sessI)
  fix a r q x y
  assume h: "(P(p \<mapsto> x')) r = Some x" "(P(p \<mapsto> x')) q = Some y" "p_pgidp x = Some a" "p_pgidp y = Some a \<or> p_pidp y = Some a"
  consider "r = p" "q = p" | "r = p" "q \<noteq> p" | "r \<noteq> p" "q = p" | "r \<noteq> p" "q \<noteq> p" by blast
  then show "p_sessp y = p_sessp x"
  proof cases
    case 1
    then show ?thesis using h by simp
  next
    case 2
    then show ?thesis using h grp [of q y a] by auto
  next
    case 3
    then show ?thesis using h grp [of r x a] own [of r x a] by auto
  next
    case 4
    then show ?thesis using h one_sessD [OF assms(1), of r x q y a] by simp
  qed
qed

lemma one_sess_regroup:
  assumes "one_sess P" "P p = Some x" "regroup P p x x'" and uniq: "\<And>q y. P q = Some y \<Longrightarrow> p_pidp y = p_pidp x \<Longrightarrow> q = p"
  shows "one_sess (P(p \<mapsto> x'))"
proof (rule one_sess_upd [OF assms(1)])
  have s: "p_sessp x' = p_sessp x" "p_pidp x' = p_pidp x" using assms(3) by (simp_all add: regroup_def same_self_def)
  show "p_sessp y = p_sessp x'" if h: "P q = Some y" "p_pgidp y = Some a" "p_pidp x' = Some a" for q y a
    using one_sessD [OF assms(1) h(1) assms(2), of a] h s by simp
  show "p_sessp y = p_sessp x'" if h: "P q = Some y" "p_pgidp x' = Some a" "p_pgidp y = Some a \<or> p_pidp y = Some a" "q \<noteq> p" for q y a
  proof -
    consider "p_pgidp x = Some a" | "p_pidp x = Some a" | r z where "P r = Some z" "p_sessp z = p_sessp x" "p_pgidp z = Some a"
      using assms(3) h(2) unfolding regroup_def by metis
    then show ?thesis
    proof cases
      case 1
      then show ?thesis using one_sessD [OF assms(1,2) h(1), of a] h s by simp
    next
      case 2
      then show ?thesis using one_sessD [OF assms(1) h(1) assms(2), of a] h(3,4) uniq [OF h(1)] s by auto
    next
      case (3 r z)
      then show ?thesis using one_sessD [OF assms(1) 3(1) h(1), of a] h s by simp
    qed
  qed
qed

lemma pid_unique:
  assumes "pid_ok X D e s" "prt s p = Some x" "prt s q = Some y" "p_pidp y = p_pidp x"
  shows "q = p"
proof -
  obtain a g where a: "p_pidp x = Some a" "pidt s a = Some g" by (rule pid_ok_own [OF assms(1,2)])
  have "owner (prt s) a p" "owner (prt s) a q" using assms(2-4) a by (auto simp: owner_def)
  then show ?thesis using leader_unique [of "pidt s" "prt s" "procdir s"] assms(1) unfolding pid_ok_def by blast
qed

lemma one_sess_moved:
  assumes "pid_inv s" "one_sess (prt s)" "prt s p = Some x" "moved s p x i s'"
  shows "one_sess (prt s')"
proof -
  obtain x' where x': "prt s' = (prt s)(p \<mapsto> x')" "regroup (prt s) p x x'" using assms(4) by (auto simp: moved_def)
  show ?thesis unfolding x'(1) by (rule one_sess_regroup [OF assms(2,3) x'(2)]) (rule pid_unique [OF pid_inv_ok [OF assms(1)] assms(3)])
qed

lemma one_sess_founded:
  assumes "pid_inv s" "one_sess (prt s)" "prt s p = Some x" "p_pidp x = Some a" "\<not> shared (prt s) a" "founded s p x new s'"
  shows "one_sess (prt s')"
proof -
  obtain x' where x': "prt s' = (prt s)(p \<mapsto> x')" "same_self x x'" "p_pgidp x' = Some a" using assms(4,6) by (auto simp: founded_def)
  have uniq: "q = p" if "prt s q = Some y" "p_pidp y = Some a" for q y
    using pid_unique [OF pid_inv_ok [OF assms(1)] assms(3) that(1)] that(2) assms(4) by simp
  have "p_pidp y = Some a" if "prt s q = Some y" "p_pgidp y = Some a" for q y using that assms(5) unfolding shared_def by blast
  then have none: "q = p" if "prt s q = Some y" "p_pgidp y = Some a \<or> p_pidp y = Some a" for q y using that uniq by blast
  show ?thesis unfolding x'(1)
    by (rule one_sess_upd [OF assms(2)]) (use none x' assms(4) in \<open>auto simp: same_self_def\<close>)
qed

lemma one_sess_born:
  assumes "one_sess P" "P pp = Some x" "P c = None" "child_of pp x a y" "\<And>q z. P q = Some z \<Longrightarrow> p_pgidp z \<noteq> Some a"
  shows "one_sess (P(c \<mapsto> y, pp \<mapsto> x\<lparr>p_child := l\<rparr>))"
proof -
  have y: "p_pidp y = Some a" "p_pgidp y = p_pgidp x" "p_sessp y = p_sessp x" using assms(4) by (simp_all add: child_of_def)
  have "one_sess (P(c \<mapsto> y))"
  proof (rule one_sess_upd [OF assms(1)])
    show "p_sessp z = p_sessp y" if "P q = Some z" "p_pgidp y = Some b" "p_pgidp z = Some b \<or> p_pidp z = Some b" for q z b
      using one_sessD [OF assms(1,2) that(1), of b] that y by simp
    show "p_sessp z = p_sessp y" if "P q = Some z" "p_pgidp z = Some b" "p_pidp y = Some b" for q z b
      using assms(5) [OF that(1)] that y by simp
  qed
  moreover have "same_ids (P(c \<mapsto> y)) (P(c \<mapsto> y, pp \<mapsto> x\<lparr>p_child := l\<rparr>))"
    by (rule same_ids_upd [of _ pp x]) (use assms(2,3) in auto)
  ultimately show ?thesis by (rule one_sess_ids)
qed

section \<open>Reachable states\<close>

text \<open>
  The operations in any order: \<open>setpgrp\<close> with any arguments, \<open>newproc\<close> whether it succeeds or not, \<open>exit\<close> of a process other than
  \<open>init\<close>, \<open>freeproc\<close> of a process that has no children any more, and \<open>pid_setmin\<close>. The allocator returns addresses not in use.
  Each operation is one step; for \<^verbatim>\<open>setpgrp\<close> this means that the allocation of \<^verbatim>\<open>sess_create\<close> finds memory without sleeping. The state in
  which a process sleeps there, between \<open>sess_create1\<close> and \<open>sess_create2\<close>, does not satisfy the invariant (the process is in no group).
\<close>

inductive pid_step :: "pidsys \<Rightarrow> pidsys \<Rightarrow> bool" where
  st_setpgrp: "prt s p \<noteq> None \<Longrightarrow> sst s new = None \<Longrightarrow> setpgrp s p flag pid pgid new = Some (r, s') \<Longrightarrow> pid_step s s'"
| st_newproc: "prt s pp \<noteq> None \<Longrightarrow> (\<And>a. newp = Some a \<Longrightarrow> prt s a = None) \<Longrightarrow> (\<And>a. newpid = Some a \<Longrightarrow> pidt s a = None) \<Longrightarrow>
    newproc s pp cond u_uid u_ruid newp newpid out = Some (r, s') \<Longrightarrow> pid_step s s'"
| st_exit: "prt s p \<noteq> None \<Longrightarrow> prt s init \<noteq> None \<Longrightarrow> init \<noteq> p \<Longrightarrow> exit_children s p init = Some s' \<Longrightarrow> pid_step s s'"
| st_freeproc: "prt s p = Some x \<Longrightarrow> p_child x = [] \<Longrightarrow> freeproc s p = Some s' \<Longrightarrow> pid_step s s'"
| st_setmin: "3 * int (v_proc s) < MAXPID - (mpid s + 1) \<Longrightarrow> pid_step s (pid_setmin s)"

definition pid_state :: "pidsys \<Rightarrow> bool" where
  "pid_state s \<longleftrightarrow> pid_inv s \<and> one_sess (prt s)"

lemma room_bound: "pid_inv s \<Longrightarrow> 3 * int (nproc s) < MAXPID - minpid s"
  by (auto simp: pid_inv_def pid_ok_def slot_ok_def)

lemma newproc_fails:
  assumes "pid_assign s cond u_uid u_ruid newp newpid = Some (r, s1)" "\<And>k p. r \<noteq> PNew k p"
  shows "\<exists>r'. newproc s pp cond u_uid u_ruid newp newpid out = Some (r', s1)"
  using assms by (cases r) (auto simp: newproc_def)

lemma pid_assign_cases:
  "(\<exists>r s1. pid_assign s cond u_uid u_ruid newp newpid = Some (r, s1) \<and> (\<forall>k p. r \<noteq> PNew k p) \<and> (s1 = s \<or> s1 = s\<lparr>procovf := procovf s + 1\<rparr>))
   \<or> pid_room s cond u_uid u_ruid \<and> newp \<noteq> None \<and> newpid \<noteq> None"
  by (cases newp; cases newpid) (auto simp: pid_assign_def)

text \<open>A process that is in no family yet may be removed by \<^verbatim>\<open>pid_exit\<close> at once.\<close>

lemma fam_alone: "fam_ok {} P \<Longrightarrow> P p = Some x \<Longrightarrow> p_parent x = None \<Longrightarrow> fam_ok {p} P"
  unfolding fam_ok_def by auto

lemma pid_exit_alone:
  assumes "pid_inv s" "prt s p = Some x" "p_child x = []" "p_parent x = None"
  obtains s' where "pid_exit s p = Some s'" "pid_inv s'" "prt s' = (prt s)(p := None)"
proof -
  note ok = pid_inv_ok [OF assms(1)]
  have "fam_ok {p} (prt s)" using fam_alone [of "prt s" p x] ok assms(2,4) by (simp add: pid_ok_def)
  then have "pid_ok {p} {} (\<lambda>a. 0) s" using ok by (simp add: pid_ok_def)
  then obtain s' where "pid_exit s p = Some s'" "pid_ok {} {} (\<lambda>a. 0) s'" "prt s' = (prt s)(p := None)"
    "v_proc s' = v_proc s" "minpid s' = minpid s" "mpid s' = mpid s" using pid_exit_ok [OF _ assms(2,3) pid_inv_nproc [OF assms(1)]] by blast
  then show ?thesis using that pid_inv_upd [OF assms(1)] by blast
qed

text \<open>Every outcome of \<^verbatim>\<open>newproc\<close> other than the refused licence.\<close>

lemma newproc_outcomes:
  assumes "pid_state s" "prt s pp = Some x" "pid_room s cond u_uid u_ruid" "prt s prp = None" "pidt s a = None" "out \<noteq> Unlicensed"
  shows "\<exists>r s'. newproc s pp cond u_uid u_ruid (Some prp) (Some a) out = Some (r, s') \<and> pid_state s'"
proof -
  have inv: "pid_inv s" "one_sess (prt s)" using assms(1) by (simp_all add: pid_state_def)
  obtain k s1 s2 s3 c' c2 where n: "pid_assign s cond u_uid u_ruid (Some prp) (Some a) = Some (PNew k prp, s1)"
    "newproc_join s1 pp prp = Some s2" "newproc_tie s2 pp prp = Some s3"
    "pid_inv s2" "prt s2 = (prt s)(prp \<mapsto> c')" "p_child c' = []" "p_parent c' = None"
    "pid_inv s3" "prt s3 = (prt s)(prp \<mapsto> c2, pp \<mapsto> x\<lparr>p_child := prp # p_child x\<rparr>)" "child_of pp x a c2"
    by (rule newproc_run [OF inv(1) assms(2-5) room_bound [OF inv(1)]])
  have "\<not> mem (prt s) a q" for q using pid_inv_ok [OF inv(1)] assms(5) unfolding pid_ok_def grp_ok_def by blast
  then have one: "one_sess (prt s3)" unfolding n(9) by (intro one_sess_born [OF inv(2) assms(2,4) n(10)]) (auto simp: mem_def)
  have ne: "pp \<noteq> prp" using assms(2,4) by auto
  show ?thesis
  proof (cases out)
    case NoClass
    have p2: "prt s2 prp = Some c'" using n(5) by simp
    obtain s' where s': "pid_exit s2 prp = Some s'" "pid_inv s'" "prt s' = (prt s2)(prp := None)"
      by (rule pid_exit_alone [OF n(4) p2 n(6,7)])
    moreover have "prt s' = prt s" using s'(3) n(5) assms(4) by (simp add: fun_upd_idem)
    ultimately show ?thesis using NoClass n(1,2) inv(2) by (simp add: newproc_def newproc_fail_def pid_state_def)
  next
    case NoCopy
    have c2: "prt s3 prp = Some c2" "p_child c2 = []" "p_parent c2 = Some pp" using n(9,10) ne by (simp_all add: child_of_def)
    obtain s' P where "freeproc s3 prp = Some s'" "pid_inv s'" "same_ids (prt s3) P" "prt s' = P(prp := None)"
      using freeproc_ok [OF n(8) c2] by blast
    then have "freeproc s3 prp = Some s'" "pid_state s'" using one_sess_del [OF one_sess_ids [OF one]] by (simp_all add: pid_state_def)
    moreover have "pid_state s3" using n(8) one by (simp add: pid_state_def)
    ultimately show ?thesis using NoCopy n(1-3) by (auto simp: newproc_def newproc_nocopy_freeproc)
  next
    case ForkOK
    then show ?thesis using n(1-3,8) one by (simp add: newproc_def pid_state_def)
  qed (use assms(6) in simp)
qed

lemma newproc_unlicensed:
  assumes "pid_assign s cond u_uid u_ruid newp newpid = Some (PNew k p, s1)"
  shows "newproc s pp cond u_uid u_ruid newp newpid Unlicensed = None"
proof -
  have "\<exists>x. prt s1 p = Some x \<and> p_pgidp x = None"
    using assms by (auto simp: pid_assign_def prc0_def bind_eq_Some_conv split: if_splits option.splits)
  then have "pid_exit s1 p = None" by (auto simp: pid_exit_def pgexit_def)
  then show ?thesis using assms by (simp add: newproc_def newproc_fail_def)
qed

lemma pid_step_newproc:
  assumes "pid_state s" "prt s pp \<noteq> None" "\<And>a. newp = Some a \<Longrightarrow> prt s a = None" "\<And>a. newpid = Some a \<Longrightarrow> pidt s a = None"
    "newproc s pp cond u_uid u_ruid newp newpid out = Some (r, s')"
  shows "pid_state s'"
proof -
  have inv: "pid_inv s" using assms(1) by (simp add: pid_state_def)
  consider r1 s1 where "pid_assign s cond u_uid u_ruid newp newpid = Some (r1, s1)" "\<forall>k p. r1 \<noteq> PNew k p" "s1 = s \<or> s1 = s\<lparr>procovf := procovf s + 1\<rparr>"
    | prp a where "pid_room s cond u_uid u_ruid" "newp = Some prp" "newpid = Some a"
    using pid_assign_cases [of s cond u_uid u_ruid newp newpid] by blast
  then show ?thesis
  proof cases
    case (1 r1 s1)
    then have "s' = s1" using assms(5) newproc_fails [OF 1(1), of pp out] by auto
    then show ?thesis using 1(3) assms(1) by (auto simp: pid_state_def pid_inv_def pid_ok_def)
  next
    case (2 prp a)
    obtain x where x: "prt s pp = Some x" using assms(2) by blast
    have fresh: "prt s prp = None" "pidt s a = None" using assms(3,4) 2(2,3) by simp_all
    obtain k s1 where "pid_assign s cond u_uid u_ruid (Some prp) (Some a) = Some (PNew k prp, s1)"
      by (rule pid_assign_ok [OF inv 2(1) fresh room_bound [OF inv]])
    then have "out \<noteq> Unlicensed" using assms(5) 2(2,3) newproc_unlicensed [of s cond u_uid u_ruid newp newpid k prp s1 pp] by auto
    then show ?thesis using newproc_outcomes [OF assms(1) x 2(1) fresh, of out] assms(5) 2(2,3) by auto
  qed
qed

lemma pid_step_state:
  assumes "pid_step s s'" "pid_state s"
  shows "pid_state s'"
  using assms
proof (induction rule: pid_step.induct)
  case (st_setpgrp s p new flag pid pgid r s')
  then have inv: "pid_inv s" "one_sess (prt s)" by (simp_all add: pid_state_def)
  obtain x where x: "prt s p = Some x" using st_setpgrp.hyps(1) by blast
  have "pid_inv s'" "s' = s \<or> (\<exists>q y i. prt s q = Some y \<and> moved s q y i s') \<or> (\<exists>a. p_pidp x = Some a \<and> \<not> shared (prt s) a \<and> founded s p x new s')"
    using setpgrp_total [OF inv(1) x st_setpgrp.hyps(2), of flag pid pgid] st_setpgrp.hyps(3) by auto
  moreover have "one_sess (prt s')"
    using calculation(2) inv(2) one_sess_moved [OF inv] one_sess_founded [OF inv x] by blast
  ultimately show ?case by (simp add: pid_state_def)
next
  case (st_newproc s pp newp newpid cond u_uid u_ruid out r s')
  then show ?case using pid_step_newproc by blast
next
  case (st_exit s p init s')
  then have inv: "pid_inv s" "one_sess (prt s)" by (simp_all add: pid_state_def)
  obtain x y where x: "prt s p = Some x" "prt s init = Some y" using st_exit.hyps(1,2) by blast
  have "pid_inv s'" "same_ids (prt s) (prt s')" using exit_children_ok [OF inv(1) x st_exit.hyps(3)] st_exit.hyps(4) by auto
  then show ?case using one_sess_ids [OF inv(2)] by (simp add: pid_state_def)
next
  case (st_freeproc s p x s')
  then have inv: "pid_inv s" "one_sess (prt s)" by (simp_all add: pid_state_def)
  obtain q where q: "p_parent x = Some q" using st_freeproc.hyps(1,3) by (cases "p_parent x") (auto simp: freeproc_def)
  obtain P where "pid_inv s'" "same_ids (prt s) P" "prt s' = P(p := None)"
    using freeproc_ok [OF inv(1) st_freeproc.hyps(1,2) q] st_freeproc.hyps(3) by auto
  then show ?case using one_sess_del [OF one_sess_ids [OF inv(2)]] by (simp add: pid_state_def)
next
  case (st_setmin s)
  then show ?case by (auto simp: pid_state_def pid_inv_def pid_setmin_def pid_ok_def)
qed

lemma pid_init_state:
  assumes "2 \<le> n" "3 * int n < MAXPID" "p_parent sched = None" "p_child sched = []"
  shows "pid_state (pid_init n maxup sched)"
proof -
  let ?s = "pid_init n maxup sched"
  let ?d = "procdir ?s"
  have len: "length ?d = n" using assms(1) by (simp add: pid_init_def)
  have nxt: "?d ! i = PeNext (if i + 1 < n then Some (i + 1) else None)" if "1 \<le> i" "i < n" for i
    using that assms(1) by (auto simp: pid_init_def nth_Cons' simp del: upt_Suc)
  have ch: "chain (free_next ?d) (if i < n then Some i else None) [i..<n]" if "1 \<le> i" "i \<le> n" for i
    using that
  proof (induction "n - i" arbitrary: i)
    case (Suc k)
    then have i: "i < n" by simp
    then have "chain (free_next ?d) (if i + 1 < n then Some (i + 1) else None) [i + 1..<n]" using Suc.hyps(1) [of "i + 1"] Suc.hyps(2) Suc.prems by simp
    moreover have "free_next ?d i = (if i + 1 < n then Some (i + 1) else None)" using nxt [of i] Suc.prems i len by simp
    ultimately show ?case using i by (simp add: upt_conv_Cons chain_simps del: free_next.simps)
  qed (simp add: chain_simps)
  have "slot_ok ?d (procentfree ?s) (nproc ?s) (v_proc ?s)" unfolding slot_ok_def
    using ch [of 1] assms(1) len nxt by (intro conjI exI [of _ "[1..<n]"]) (auto simp: pid_init_def simp del: upt_Suc)
  moreover have "act_ok (prt ?s) (practive ?s) (nproc ?s)" by (auto simp: act_ok_def pid_init_def)
  moreover have "own_ok (pidt ?s) (prt ?s) ?d" by (auto simp: own_ok_def pid_init_def split: if_splits)
  moreover have "inact_ok (pidt ?s) (prt ?s)" by (auto simp: inact_ok_def owner_def pid_init_def split: if_splits)
  moreover have "hash_ok (pidt ?s) (pidhash ?s)" by (auto simp: hash_ok_def hashpid_def pid_init_def split: if_splits)
  moreover have "grp_ok (\<lambda>a. 0) (pidt ?s) (prt ?s) (sst ?s)" by (auto simp: grp_ok_def refs_def owner_def mem_def sid_def pid_init_def split: if_splits)
  moreover have "sess_ok {} (prt ?s) (sst ?s)" by (auto simp: sess_ok_def owner_def mem_def insess_def sid_def pid_init_def split: if_splits)
  moreover have "full_ok {} (prt ?s)" by (auto simp: full_ok_def pid_init_def split: if_splits)
  moreover have "fam_ok {} (prt ?s)" using assms(3,4) by (auto simp: fam_ok_def pid_init_def split: if_splits)
  ultimately have "pid_ok {} {} (\<lambda>a. 0) ?s" by (simp add: pid_ok_def)
  then have "pid_inv ?s" using assms(2) by (simp add: pid_inv_def pid_init_def)
  moreover have "one_sess (prt ?s)" by (auto simp: one_sess_def pid_init_def split: if_splits)
  ultimately show ?thesis by (simp add: pid_state_def)
qed

text \<open>The states that the system reaches after \<open>pid_init\<close> with a table of \<open>n\<close> processes.\<close>

definition pid_reach :: "nat \<Rightarrow> pidsys \<Rightarrow> bool" where
  "pid_reach n s \<longleftrightarrow> (\<exists>maxup sched. 2 \<le> n \<and> 3 * int n < MAXPID \<and> p_parent sched = None \<and> p_child sched = []
     \<and> pid_step\<^sup>*\<^sup>* (pid_init n maxup sched) s)"

interpretation pidf: facility "\<lambda>s. \<exists>n maxup sched. 2 \<le> n \<and> 3 * int n < MAXPID \<and> p_parent sched = None \<and> p_child sched = [] \<and> s = pid_init n maxup sched"
  pid_step pid_state
proof unfold_locales
  show "pid_state s" if "\<exists>n maxup sched. 2 \<le> n \<and> 3 * int n < MAXPID \<and> p_parent sched = None \<and> p_child sched = [] \<and> s = pid_init n maxup sched" for s
    using that pid_init_state by blast
qed (rule pid_step_state)

lemma pid_reach_state:
  assumes "pid_reach n s"
  shows "pid_state s"
proof -
  obtain maxup sched where h: "2 \<le> n" "3 * int n < MAXPID" "p_parent sched = None" "p_child sched = []" "pid_step\<^sup>*\<^sup>* (pid_init n maxup sched) s"
    using assms unfolding pid_reach_def by blast
  then show ?thesis by (intro pidf.reached [OF h(5)]) blast
qed

end
