(* ===== verification/KPidProp.thy ===== *)
theory KPidProp
  imports KPidExit
begin

text \<open>
  The properties of process identifiers, groups and sessions, over the states that the system reaches.
\<close>

section \<open>A boot and a first child\<close>

definition pid_boot :: pidsys where
  "pid_boot = pid_init 10 5 prc0"

lemma boot_reach: "pid_reach 10 pid_boot"
  unfolding pid_reach_def pid_boot_def by (intro exI [of _ 5] exI [of _ prc0]) (simp add: prc0_def)

lemma boot_facts:
  "prt pid_boot 0 = Some (prc0\<lparr>p_pidp := Some 0, p_pgidp := Some 0, p_sessp := Some 0\<rparr>)" "prt pid_boot 1 = None" "pidt pid_boot 1 = None" "sst pid_boot 1 = None"
  "pid_room pid_boot 0 0 0" "pidno pid_boot (Some 0) = Some 0" "minpid pid_boot = 0"
  by (simp_all add: pid_boot_def pid_init_def pid_room_def pidno_def)

lemma boot_inv: "pid_inv pid_boot"
  using pid_reach_state [OF boot_reach] by (simp add: pid_state_def)

lemma reach_step: "pid_reach n s \<Longrightarrow> pid_step s s' \<Longrightarrow> pid_reach n s'"
  unfolding pid_reach_def by (meson rtranclp.rtrancl_into_rtrancl)

lemma newproc_forks:
  assumes "pid_inv s" "prt s pp = Some x" "pid_room s cond u_uid u_ruid" "prt s prp = None" "pidt s a = None"
  obtains k s' c where "newproc s pp cond u_uid u_ruid (Some prp) (Some a) ForkOK = Some (PNew k prp, s')" "pid_inv s'"
    "prt s' = (prt s)(prp \<mapsto> c, pp \<mapsto> x\<lparr>p_child := prp # p_child x\<rparr>)" "child_of pp x a c"
    "minpid s \<le> k" "k < MAXPID" "\<forall>b g. pidt s b = Some g \<longrightarrow> pid_id g \<noteq> k" "pidno s' (Some a) = Some k"
proof -
  obtain k s1 s2 s3 c' c2 where n: "pid_assign s cond u_uid u_ruid (Some prp) (Some a) = Some (PNew k prp, s1)"
    "newproc_join s1 pp prp = Some s2" "newproc_tie s2 pp prp = Some s3"
    "pid_inv s2" "prt s2 = (prt s)(prp \<mapsto> c')" "p_child c' = []" "p_parent c' = None"
    "pid_inv s3" "prt s3 = (prt s)(prp \<mapsto> c2, pp \<mapsto> x\<lparr>p_child := prp # p_child x\<rparr>)" "child_of pp x a c2"
    "minpid s \<le> k" "k < MAXPID" "\<forall>b g. pidt s b = Some g \<longrightarrow> pid_id g \<noteq> k" "pidno s3 (Some a) = Some k"
    by (rule newproc_run [OF assms room_bound [OF assms(1)]])
  have "newproc s pp cond u_uid u_ruid (Some prp) (Some a) ForkOK = Some (PNew k prp, s3)" using n(1-3) by (simp add: newproc_def)
  then show ?thesis by (rule that [OF _ n(8-14)])
qed

text \<open>The process that \<open>sched\<close> creates at address 1.\<close>

lemma boot_child:
  obtains s c where "pid_reach 10 s" "prt s 1 = Some c" "child_of 0 (the (prt pid_boot 0)) 1 c" "sst s 1 = None"
    "prt s 0 = Some ((the (prt pid_boot 0))\<lparr>p_child := [1]\<rparr>)" "\<forall>q y. prt s q = Some y \<longrightarrow> p_pgidp y = Some 0"
proof -
  obtain k s c where n: "newproc pid_boot 0 0 0 0 (Some 1) (Some 1) ForkOK = Some (PNew k 1, s)" "pid_inv s"
    "prt s = (prt pid_boot)(1 \<mapsto> c, 0 \<mapsto> (prc0\<lparr>p_pidp := Some 0, p_pgidp := Some 0, p_sessp := Some 0\<rparr>)\<lparr>p_child := 1 # p_child (prc0\<lparr>p_pidp := Some 0, p_pgidp := Some 0, p_sessp := Some 0\<rparr>)\<rparr>)"
    "child_of 0 (prc0\<lparr>p_pidp := Some 0, p_pgidp := Some 0, p_sessp := Some 0\<rparr>) 1 c"
    by (rule newproc_forks [OF boot_inv boot_facts(1,5,2,3)])
  have "pid_step pid_boot s" by (rule st_newproc [OF _ _ _ n(1)]) (use boot_facts in auto)
  then have "pid_reach 10 s" by (rule reach_step [OF boot_reach])
  moreover have "sst s 1 = None"
  proof (rule ccontr)
    assume "sst s 1 \<noteq> None"
    then obtain p where "insess (prt s) 1 p" using pid_inv_ok [OF n(2)] unfolding pid_ok_def sess_ok_def by blast
    then show False using n(3,4) by (auto simp: insess_def child_of_def pid_boot_def pid_init_def split: if_splits)
  qed
  moreover have "\<forall>q y. prt s q = Some y \<longrightarrow> p_pgidp y = Some 0"
    using n(3,4) by (auto simp: child_of_def pid_boot_def pid_init_def split: if_splits)
  ultimately show ?thesis using n boot_facts(1) by (intro that [of s c]) (auto simp: prc0_def)
qed

section \<open>Properties\<close>

text \<open>
  C16: In every reachable state the count of a \<^verbatim>\<open>struct pid\<close> is exactly the number of its three possible users: the process that has this
  identifier, the group of that name when it has a member, and the session of that name. Its list is the list of the members of the
  group, each once, and no two structures have the same identifier. So a structure is released by the last of its users and never before.
\<close>

theorem pid_counts_exact:
  assumes "pid_reach n s" "pidt s a = Some g"
  shows "pid_ref g = of_bool (\<exists>p x. prt s p = Some x \<and> p_pidp x = Some a) + of_bool (\<exists>p x. prt s p = Some x \<and> p_pgidp x = Some a)
      + of_bool (\<exists>z w. sst s z = Some w \<and> s_sidp w = Some a)
    \<and> 0 < pid_ref g \<and> distinct (pid_pglink g) \<and> set (pid_pglink g) = {p. \<exists>x. prt s p = Some x \<and> p_pgidp x = Some a}
    \<and> (\<forall>b h. pidt s b = Some h \<and> pid_id h = pid_id g \<longrightarrow> b = a)"
proof -
  have ok: "pid_ok {} {} (\<lambda>a. 0) s" using pid_reach_state [OF assms(1)] by (simp add: pid_state_def pid_inv_def)
  have r: "int (pid_ref g) = int (refs (prt s) (sst s) a) + 0" "0 < pid_ref g" "distinct (pid_pglink g)" "set (pid_pglink g) = {p. mem (prt s) a p}"
    using ok assms(2) unfolding pid_ok_def grp_ok_def by blast+
  moreover have "pid_ref g = refs (prt s) (sst s) a" using r(1) by simp
  moreover have "b = a" if "pidt s b = Some h" "pid_id h = pid_id g" for b h using ok assms(2) that unfolding pid_ok_def hash_ok_def by blast
  ultimately show ?thesis unfolding refs_def owner_def mem_def sid_def by blast
qed

theorem pid_counts_exact_witness: "pid_reach 10 pid_boot \<and> (\<exists>g. pidt pid_boot 0 = Some g \<and> pid_ref g = 3 \<and> pid_pglink g = [0] \<and> 0 < pid_ref g)"
proof -
  obtain g where g: "pidt pid_boot 0 = Some g" "pid_ref g = 3" "pid_pglink g = [0]" by (simp add: pid_boot_def pid_init_def)
  then show ?thesis using pid_counts_exact [OF boot_reach g(1)] boot_reach by blast
qed

text \<open>
  C20: A process group never spans two sessions: in every reachable state all members of a group are in the same session, and so is the
  process whose identifier names the group, whatever \<^verbatim>\<open>setpgid\<close>, \<^verbatim>\<open>setsid\<close>, \<^verbatim>\<open>setpgrp\<close>, \<^verbatim>\<open>fork\<close> and \<^verbatim>\<open>exit\<close> were called before.
\<close>

theorem groups_within_sessions:
  assumes "pid_reach n s" "prt s p = Some x" "prt s q = Some y" "p_pgidp x = Some a" "p_pgidp y = Some a \<or> p_pidp y = Some a"
  shows "p_sessp y = p_sessp x"
  using pid_reach_state [OF assms(1)] one_sessD [OF _ assms(2-5)] by (simp add: pid_state_def)

theorem groups_within_sessions_witness:
  "\<exists>s x y. pid_reach 10 s \<and> prt s 0 = Some x \<and> prt s 1 = Some y \<and> p_pgidp x = Some 0 \<and> p_pgidp y = Some 0 \<and> p_sessp y = p_sessp x"
proof -
  obtain s c where s: "pid_reach 10 s" "prt s 1 = Some c" "child_of 0 (the (prt pid_boot 0)) 1 c" "prt s 0 = Some ((the (prt pid_boot 0))\<lparr>p_child := [1]\<rparr>)"
    by (rule boot_child)
  have g: "p_pgidp ((the (prt pid_boot 0))\<lparr>p_child := [1]\<rparr>) = Some 0" "p_pgidp c = Some 0" using s(3) boot_facts(1) by (simp_all add: child_of_def)
  have "p_sessp c = p_sessp ((the (prt pid_boot 0))\<lparr>p_child := [1]\<rparr>)" by (rule groups_within_sessions [OF s(1,4,2) g(1)]) (simp add: g(2))
  then show ?thesis using s g by blast
qed

text \<open>
  C26: When the limits leave room and the allocator has memory, \<^verbatim>\<open>newproc\<close> returns: the search for an identifier ends. The identifier is
  in the range of \<^verbatim>\<open>minpid\<close> to \<^verbatim>\<open>MAXPID\<close> and names no process and no group that exists; afterwards \<^verbatim>\<open>prfind\<close> finds the child by it. The child
  has the group and the session of its parent, which is first in the parent's list of children; every other process is as before.
\<close>

theorem newproc_fresh:
  assumes "pid_reach n s" "prt s pp = Some x" "pid_room s cond u_uid u_ruid" "prt s prp = None" "pidt s a = None"
  shows "\<exists>k s' c. newproc s pp cond u_uid u_ruid (Some prp) (Some a) ForkOK = Some (PNew k prp, s')
    \<and> minpid s \<le> k \<and> k < MAXPID \<and> prfind s k = Some None \<and> pgfind s k = Some None \<and> prfind s' k = Some (Some prp)
    \<and> prt s' = (prt s)(prp \<mapsto> c, pp \<mapsto> x\<lparr>p_child := prp # p_child x\<rparr>)
    \<and> p_pgidp c = p_pgidp x \<and> p_sessp c = p_sessp x \<and> p_parent c = Some pp \<and> p_child c = []"
proof -
  have inv: "pid_inv s" using pid_reach_state [OF assms(1)] by (simp add: pid_state_def)
  obtain k s' c where n: "newproc s pp cond u_uid u_ruid (Some prp) (Some a) ForkOK = Some (PNew k prp, s')" "pid_inv s'"
    "prt s' = (prt s)(prp \<mapsto> c, pp \<mapsto> x\<lparr>p_child := prp # p_child x\<rparr>)" "child_of pp x a c"
    "minpid s \<le> k" "k < MAXPID" "\<forall>b g. pidt s b = Some g \<longrightarrow> pid_id g \<noteq> k" "pidno s' (Some a) = Some k"
    by (rule newproc_forks [OF inv assms(2-5)])
  have no: "pidno s r \<noteq> Some k" for r using n(7) by (auto simp: pidno_def bind_eq_Some_conv)
  have "prfind s k = Some None" using prfind_spec [OF pid_inv_ok [OF inv], of k] no by (metis option.exhaust)
  moreover have "pgfind s k = Some None" using pgfind_spec [OF pid_inv_ok [OF inv], of k] no by (auto split: option.splits)
  moreover have "prt s' prp = Some c" "pidno s' (p_pidp c) = Some k" using n(3,4,8) assms(2,4) by (auto simp: child_of_def)
  then have "prfind s' k = Some (Some prp)" using prfind_spec [OF pid_inv_ok [OF n(2)], of k] by metis
  ultimately show ?thesis using n(1,3-6) unfolding child_of_def by blast
qed

theorem newproc_fresh_witness:
  "\<exists>k s'. newproc pid_boot 0 0 0 0 (Some 1) (Some 1) ForkOK = Some (PNew k 1, s') \<and> 0 \<le> k \<and> k < MAXPID \<and> prfind s' k = Some (Some 1)"
  using newproc_fresh [OF boot_reach boot_facts(1,5,2,3)] boot_facts(7) by auto

text \<open>
  \<^verbatim>\<open>sess_create\<close> may sleep for memory when the process has left its group already: \<^verbatim>\<open>getpgid\<close> of that process by another one then follows a
  null pointer.
\<close>

lemma SESS_RELE_prt: "SESS_RELE s z = Some s' \<Longrightarrow> prt s' = prt s"
  by (auto simp: SESS_RELE_def sess_rele_def upd_sess_def PID_RELE_tab bind_eq_Some_conv split: if_splits prod.splits)

lemma getpgid_during_setsid:
  assumes "pid_inv s" "prt s p = Some x" "sess_create1 s p = Some s1"
    and q: "prt s1 q = Some y" "pidno s1 (p_pidp y) = Some me" "prfind s1 i = Some (Some p)" "i \<noteq> 0" "i \<noteq> me" "0 \<le> i" "i < MAXPID"
  shows "setpgrp s1 q 4 i pgid new = None"
proof -
  obtain s0 x0 z where s0: "pgexit s p = Some s0" "prt s0 p = Some x0" "SESS_RELE s0 z = Some s1"
    using assms(3) by (auto simp: sess_create1_def bind_eq_Some_conv)
  obtain b where b: "p_pgidp x = Some b" by (rule pid_inv_prc [OF pid_inv_ok [OF assms(1)] assms(2)]) auto
  have "\<exists>x1. prt s0 p = Some x1 \<and> p_pgidp x1 = None"
    by (rule pgexit_ok [OF pid_inv_ok [OF assms(1)] assms(2) b]) (use s0(1) in auto)
  then obtain x1 where x1: "prt s1 p = Some x1" "p_pgidp x1 = None" using SESS_RELE_prt [OF s0(3)] by auto
  have "pidno s1 None = None" by (simp add: pidno_def)
  then show ?thesis using q x1 by (simp add: setpgrp_def)
qed

text \<open>
  C27: Which operations follow a null or a stale pointer. In every state that the operations reach when each runs to its end, \<^verbatim>\<open>setpgrp\<close> with any
  arguments returns, so does the part of \<^verbatim>\<open>exit\<close> that gives the children away, for a process other than \<open>init\<close>, and \<^verbatim>\<open>freeproc\<close> for a process
  that has a parent and no children. Here \<^verbatim>\<open>sess_create\<close> runs to its end when \<^verbatim>\<open>kmem_zalloc\<close> has the memory at hand. When it sleeps for memory
  instead, the process has left its group already and the state is outside: the call is cut there (\<open>sess_create1\<close> is the part before), and
  \<^verbatim>\<open>getpgid\<close> of the sleeping process by another one follows a null pointer.
\<close>

theorem pid_calls_return:
  assumes "pid_reach n s" "prt s p = Some x" "sst s new = None"
  shows "(\<exists>r s'. setpgrp s p flag pid pgid new = Some (r, s'))
    \<and> (prt s init \<noteq> None \<and> init \<noteq> p \<longrightarrow> (\<exists>s' x'. exit_children s p init = Some s' \<and> prt s' p = Some x' \<and> p_child x' = []))
    \<and> (p_child x = [] \<and> p_parent x \<noteq> None \<longrightarrow> (\<exists>s'. freeproc s p = Some s' \<and> prt s' p = None \<and> dom (prt s') = dom (prt s) - {p}))
    \<and> (\<forall>s1 q y me i. sess_create1 s p = Some s1 \<and> prt s1 q = Some y \<and> pidno s1 (p_pidp y) = Some me
         \<and> prfind s1 i = Some (Some p) \<and> i \<noteq> me \<and> 0 < i \<and> i < MAXPID \<longrightarrow> setpgrp s1 q 4 i pgid new = None)"
proof -
  have inv: "pid_inv s" using pid_reach_state [OF assms(1)] by (simp add: pid_state_def)
  have fr: "\<exists>s'. freeproc s p = Some s' \<and> prt s' p = None \<and> dom (prt s') = dom (prt s) - {p}" if h: "p_child x = []" "p_parent x = Some q" for q
  proof -
    obtain s' P where "freeproc s p = Some s'" "same_ids (prt s) P" "prt s' = P(p := None)" using freeproc_ok [OF inv assms(2) h] by blast
    then show ?thesis using same_ids_refer(4) by auto
  qed
  show ?thesis
  proof (intro conjI allI impI; (elim conjE)?)
    show "\<exists>r s'. setpgrp s p flag pid pgid new = Some (r, s')" using setpgrp_total [OF inv assms(2,3)] by blast
  next
    assume "prt s init \<noteq> None" "init \<noteq> p"
    then show "\<exists>s' x'. exit_children s p init = Some s' \<and> prt s' p = Some x' \<and> p_child x' = []"
      using exit_children_ok [OF inv assms(2)] by blast
  next
    assume "p_child x = []" "p_parent x \<noteq> None"
    then show "\<exists>s'. freeproc s p = Some s' \<and> prt s' p = None \<and> dom (prt s') = dom (prt s) - {p}" using fr by blast
  next
    fix s1 q y me i
    assume h: "sess_create1 s p = Some s1" "prt s1 q = Some y" "pidno s1 (p_pidp y) = Some me" "prfind s1 i = Some (Some p)" "i \<noteq> me" "0 < i" "i < MAXPID"
    show "setpgrp s1 q 4 i pgid new = None"
      by (rule getpgid_during_setsid [OF inv assms(2) h(1-4) _ h(5) _ h(7)]) (use h(6) in simp_all)
  qed
qed

definition ex_kid :: pidsys where
  "ex_kid = snd (the (newproc pid_boot 0 0 0 0 (Some 1) (Some 1) ForkOK))"

lemma ex_kid_fork: "newproc pid_boot 0 0 0 0 (Some 1) (Some 1) ForkOK = Some (PNew 1 1, ex_kid)"
proof -
  have "map_option fst (newproc pid_boot 0 0 0 0 (Some 1) (Some 1) ForkOK) = Some (PNew 1 1)" by code_simp
  then show ?thesis by (auto simp: ex_kid_def)
qed

lemma ex_kid_reach: "pid_reach 10 ex_kid"
proof -
  have "pid_step pid_boot ex_kid" by (rule st_newproc [OF _ _ _ ex_kid_fork]) (use boot_facts in auto)
  then show ?thesis by (rule reach_step [OF boot_reach])
qed

text \<open>The child frees its entry; or it calls \<^verbatim>\<open>setsid\<close>, sleeps for memory, and the parent asks for its group.\<close>

theorem pid_calls_return_witness:
  "(\<exists>s'. freeproc ex_kid 1 = Some s' \<and> prt s' 1 = None) \<and> (\<exists>s1. sess_create1 ex_kid 1 = Some s1 \<and> setpgrp s1 0 4 1 0 1 = None)"
proof -
  have "map_option p_child (prt ex_kid 1) = Some []" "map_option p_parent (prt ex_kid 1) = Some (Some 0)" by code_simp+
  then obtain x where x: "prt ex_kid 1 = Some x" "p_child x = []" "p_parent x = Some 0" by auto
  have "map_option s_ref (sst ex_kid 1) = None" by code_simp
  then have n: "sst ex_kid 1 = None" by simp
  have "sess_create1 ex_kid 1 \<noteq> None" by code_simp
  then obtain s1 where s1: "sess_create1 ex_kid 1 = Some s1" by blast
  have "map_option (\<lambda>s. prfind s 1) (sess_create1 ex_kid 1) = Some (Some (Some 1))" by code_simp
  then have f: "prfind s1 1 = Some (Some 1)" by (simp add: s1 del: One_nat_def)
  have "map_option (\<lambda>s. map_option (\<lambda>y. pidno s (p_pidp y)) (prt s 0)) (sess_create1 ex_kid 1) = Some (Some (Some 0))" by code_simp
  then obtain y where y: "prt s1 0 = Some y" "pidno s1 (p_pidp y) = Some 0" by (auto simp: s1 simp del: One_nat_def)
  note all = pid_calls_return [OF ex_kid_reach x(1) n]
  have "setpgrp s1 0 4 1 0 1 = None" using conjunct2 [OF conjunct2 [OF conjunct2 [OF all]]] s1 y f by fastforce
  moreover have "\<exists>s'. freeproc ex_kid 1 = Some s' \<and> prt s' 1 = None" using conjunct1 [OF conjunct2 [OF conjunct2 [OF all]]] x(2,3) by blast
  ultimately show ?thesis using s1 by blast
qed

text \<open>
  \<^verbatim>\<open>setsid\<close>: it fails with \<^verbatim>\<open>EPERM\<close>, and changes nothing, if the process is in the group of its own name or another process is. Otherwise
  it returns the identifier of the process, which is then the only member of a new session and of a group, both named after it; no
  other process changes.
\<close>

theorem setsid_correct:
  assumes "pid_reach n s" "prt s p = Some x" "p_pidp x = Some a" "pidno s (Some a) = Some me" "sst s new = None"
  shows "if p_pgidp x = Some a \<or> (\<exists>q y. q \<noteq> p \<and> prt s q = Some y \<and> p_pgidp y = Some a) then setpgrp s p 3 pid pgid new = Some (Inl EPERM, s)
    else \<exists>s' x'. setpgrp s p 3 pid pgid new = Some (Inr me, s') \<and> prt s' = (prt s)(p \<mapsto> x')
      \<and> p_pidp x' = Some a \<and> p_pgidp x' = Some a \<and> p_sessp x' = Some new \<and> p_parent x' = p_parent x \<and> p_child x' = p_child x
      \<and> sidno s' (Some new) = Some me \<and> pidno s' (Some a) = Some me
      \<and> (\<forall>q y. prt s' q = Some y \<and> (p_sessp y = Some new \<or> p_pgidp y = Some a) \<longrightarrow> q = p)"
proof -
  have inv: "pid_inv s" using pid_reach_state [OF assms(1)] by (simp add: pid_state_def)
  note ok = pid_inv_ok [OF inv]
  have sh: "p_pgidp x = Some a \<or> shared (prt s) a \<longleftrightarrow> p_pgidp x = Some a \<or> (\<exists>q y. q \<noteq> p \<and> prt s q = Some y \<and> p_pgidp y = Some a)"
    unfolding shared_def using pid_unique [OF ok assms(2)] assms(2,3) by (metis option.inject)
  have ns: "p_sessp y \<noteq> Some new" if "prt s q = Some y" for q y
    using ok that assms(5) unfolding pid_ok_def sess_ok_def insess_def by blast
  show ?thesis
  proof (cases "p_pgidp x = Some a \<or> (\<exists>q y. q \<noteq> p \<and> prt s q = Some y \<and> p_pgidp y = Some a)")
    case True
    then show ?thesis using setpgrp_setsid [OF inv assms(2-5), of pid pgid] sh by (simp only: if_True)
  next
    case False
    then obtain s' where s': "setpgrp s p 3 pid pgid new = Some (Inr me, s')" "founded s p x new s'"
      using setpgrp_setsid [OF inv assms(2-5), of pid pgid] unfolding sh by (auto simp only: if_False)
    then obtain x' where x': "prt s' = (prt s)(p \<mapsto> x')" "same_self x x'" "p_pgidp x' = Some a" "p_sessp x' = Some new"
      using assms(3) by (auto simp: founded_def)
    have "q = p" if "prt s' q = Some y" "p_sessp y = Some new \<or> p_pgidp y = Some a" for q y
      using that ns [of q y] False x'(1) by (auto split: if_splits)
    moreover have "sidno s' (Some new) = Some me" "pidno s' (Some a) = Some me" using s'(2) assms(3,4) by (simp_all add: founded_def)
    moreover have "p_pidp x' = Some a" "p_parent x' = p_parent x" "p_child x' = p_child x" using x'(2) assms(3) by (simp_all add: same_self_def)
    ultimately show ?thesis unfolding if_not_P [OF False] using s'(1) x'(1,3,4) by blast
  qed
qed

theorem setsid_correct_witness: "\<exists>s s' me x. pid_reach 10 s \<and> setpgrp s 1 3 0 0 1 = Some (Inr me, s') \<and> prt s' 1 = Some x \<and> p_sessp x = Some 1"
proof -
  obtain s c where s: "pid_reach 10 s" "prt s 1 = Some c" "child_of 0 (the (prt pid_boot 0)) 1 c" "sst s 1 = None" "\<forall>q y. prt s q = Some y \<longrightarrow> p_pgidp y = Some 0"
    by (rule boot_child)
  have c: "p_pidp c = Some 1" using s(3) by (simp add: child_of_def)
  have "pid_ok {} {} (\<lambda>a. 0) s" using pid_reach_state [OF s(1)] by (simp add: pid_state_def pid_inv_def)
  then obtain g where "pidt s 1 = Some g" by (rule pid_ok_own [OF _ s(2)]) (use c in auto)
  then obtain me where me: "pidno s (Some 1) = Some me" by (simp add: pidno_def)
  have no: "\<not> (p_pgidp c = Some 1 \<or> (\<exists>q y. q \<noteq> 1 \<and> prt s q = Some y \<and> p_pgidp y = Some 1))" using s(2,5) by auto
  obtain s' x' where "setpgrp s 1 3 0 0 1 = Some (Inr me, s')" "prt s' = (prt s)(1 \<mapsto> x')" "p_sessp x' = Some 1"
    using setsid_correct [OF s(1,2) c me s(4), of 0 0] unfolding if_not_P [OF no] by blast
  then show ?thesis using s(1) by auto
qed

text \<open>
  C33: \<^verbatim>\<open>setpgid\<close>: when it fails nothing changes. When it succeeds, the process meant is the caller or a child of the caller in the same session;
  afterwards the name of its group is the one that was asked for, its session and its family are as before, and no other process changes.
  The group is its own, the one it was in, or one that has another member, which is in its session.
\<close>

theorem setpgid_correct:
  assumes "pid_reach n s" "prt s p = Some x"
  shows "\<exists>r s'. setpgrp s p 5 pid pgid new = Some (r, s') \<and> (case r of Inl e \<Rightarrow> s' = s
    | Inr v \<Rightarrow> \<exists>q y i y'. (q = p \<or> q \<in> set (p_child x)) \<and> prt s q = Some y \<and> pidno s (p_pidp y) = Some i \<and> (pid = 0 \<and> q = p \<or> pid = i)
        \<and> p_sessp y = p_sessp x \<and> prt s' = (prt s)(q \<mapsto> y') \<and> sst s' = sst s
        \<and> p_sessp y' = p_sessp y \<and> p_pidp y' = p_pidp y \<and> p_parent y' = p_parent y \<and> p_child y' = p_child y
        \<and> pidno s' (p_pgidp y') = Some (if pgid = 0 then i else pgid)
        \<and> (p_pgidp y' = p_pgidp y \<or> p_pgidp y' = p_pidp y \<or> (\<exists>r z. prt s r = Some z \<and> r \<noteq> q \<and> p_sessp z = p_sessp y \<and> p_pgidp z = p_pgidp y')))"
proof -
  have inv: "pid_inv s" using pid_reach_state [OF assms(1)] by (simp add: pid_state_def)
  obtain r s' where r: "setpgrp s p 5 pid pgid new = Some (r, s')" "case r of Inl e \<Rightarrow> s' = s
    | Inr v \<Rightarrow> \<exists>q y i. (q = p \<or> q \<in> set (p_child x)) \<and> prt s q = Some y \<and> pidno s (p_pidp y) = Some i \<and> p_sessp y = p_sessp x
        \<and> (pid = 0 \<and> q = p \<or> pid = i) \<and> moved s q y (if pgid = 0 then i else pgid) s'"
    using setpgrp_setpgid [OF inv assms(2)] by blast
  show ?thesis
  proof (cases r)
    case (Inl e)
    then show ?thesis using r by (intro exI [of _ r] exI [of _ s']) simp
  next
    case (Inr v)
    then show ?thesis using r unfolding moved_def regroup_def same_self_def
      by (intro exI [of _ r] exI [of _ s'] conjI) (simp_all only: sum.case, blast)
  qed
qed

theorem setpgid_correct_witness: "\<exists>r s'. setpgrp pid_boot 0 5 0 0 1 = Some (r, s') \<and> (case r of Inl e \<Rightarrow> s' = pid_boot | Inr v \<Rightarrow> sst s' = sst pid_boot)"
  using setpgid_correct [OF boot_reach boot_facts(1), of 0 0 1] by (fastforce split: sum.splits)

text \<open>
  In every reachable state \<^verbatim>\<open>prfind\<close> returns the process that has the identifier, and a null pointer exactly when no process has it, even
  when a group or a session of that name outlives its process; \<^verbatim>\<open>pgfind\<close> returns a member of the group of that name exactly when it has one.
\<close>

theorem prfind_correct:
  assumes "pid_reach n s"
  shows "(\<exists>r. prfind s i = Some r \<and> (\<forall>p. r = Some p \<longleftrightarrow> (\<exists>x. prt s p = Some x \<and> pidno s (p_pidp x) = Some i)))
    \<and> (\<exists>r. pgfind s i = Some r \<and> (case r of None \<Rightarrow> \<forall>q x. prt s q = Some x \<longrightarrow> pidno s (p_pgidp x) \<noteq> Some i
        | Some q \<Rightarrow> \<exists>x. prt s q = Some x \<and> pidno s (p_pgidp x) = Some i))"
  using pid_reach_state [OF assms] prfind_spec [of "{}" "{}" "\<lambda>a. 0" s i] pgfind_spec [of "{}" "{}" "\<lambda>a. 0" s i] by (simp add: pid_state_def pid_inv_def)

theorem prfind_correct_witness: "prfind pid_boot 0 = Some (Some 0)"
proof -
  have "\<exists>x. prt pid_boot 0 = Some x \<and> pidno pid_boot (p_pidp x) = Some 0" using boot_facts(1,6) by simp
  then show ?thesis using prfind_correct [OF boot_reach, of 0] by metis
qed

text \<open>
  C39: A fork that the user limit refuses goes wrong: \<^verbatim>\<open>newproc\<close> calls \<^verbatim>\<open>pid_exit\<close> before the child has a group and a session, and \<^verbatim>\<open>pgexit\<close> follows the
  null \<^verbatim>\<open>p_pgidp\<close>. The other two failures, of the scheduling class and of the copy (which is a panic without \<^verbatim>\<open>NP_FAILOK\<close>), return with the
  error and leave a state in which every process is as it was before the fork, the family of the parent included, and the child is gone.
\<close>

theorem fork_failure_paths:
  assumes "pid_reach n s" "prt s pp = Some x" "pid_room s cond u_uid u_ruid" "prt s prp = None" "pidt s a = None"
  shows "newproc s pp cond u_uid u_ruid (Some prp) (Some a) Unlicensed = None
    \<and> (\<exists>s'. newproc s pp cond u_uid u_ruid (Some prp) (Some a) NoClass = Some (PFail, s') \<and> prt s' = prt s)
    \<and> (\<exists>s'. newproc s pp cond u_uid u_ruid (Some prp) (Some a) NoCopy = Some (if cond AND NP_FAILOK = 0 then PPanic else PFail, s')
         \<and> (cond AND NP_FAILOK \<noteq> 0 \<longrightarrow> prt s' = prt s))"
proof -
  have inv: "pid_inv s" using pid_reach_state [OF assms(1)] by (simp add: pid_state_def)
  obtain k s1 s2 s3 c' c2 where n: "pid_assign s cond u_uid u_ruid (Some prp) (Some a) = Some (PNew k prp, s1)"
    "newproc_join s1 pp prp = Some s2" "newproc_tie s2 pp prp = Some s3" "pid_inv s2" "prt s2 = (prt s)(prp \<mapsto> c')" "p_child c' = []" "p_parent c' = None"
    "pid_inv s3" "prt s3 = (prt s)(prp \<mapsto> c2, pp \<mapsto> x\<lparr>p_child := prp # p_child x\<rparr>)" "child_of pp x a c2"
    by (rule newproc_run [OF inv assms(2-5) room_bound [OF inv]])
  have ne: "pp \<noteq> prp" using assms(2,4) by auto
  have c2: "prt s3 prp = Some c2" "p_child c2 = []" "p_parent c2 = Some pp" using n(9,10) ne by (simp_all add: child_of_def)
  obtain s' y where s': "freeproc s3 prp = Some s'" "prt s3 pp = Some y" "prt s' = (prt s3)(pp \<mapsto> y\<lparr>p_child := remove1 prp (p_child y)\<rparr>, prp := None)"
    by (rule freeproc_exact [OF n(8) c2])
  have y: "y\<lparr>p_child := remove1 prp (p_child y)\<rparr> = x" using s'(2) n(9) by auto
  have nocopy: "prt s' = prt s" using s'(3) n(9) assms(2,4) ne unfolding y by auto
  have p2: "prt s2 prp = Some c'" using n(5) by simp
  obtain t where t: "pid_exit s2 prp = Some t" "prt t = (prt s2)(prp := None)" by (rule pid_exit_alone [OF n(4) p2 n(6,7)])
  have noclass: "prt t = prt s" using t(2) n(5) assms(4) by (simp add: fun_upd_idem)
  have "newproc s pp cond u_uid u_ruid (Some prp) (Some a) NoClass = Some (PFail, t)"
    using n(1,2) t(1) by (simp add: newproc_def newproc_fail_def)
  moreover have "newproc s pp cond u_uid u_ruid (Some prp) (Some a) NoCopy =
      (if cond AND NP_FAILOK = 0 then Some (PPanic, s3) else Some (PFail, s'))"
    using n(1-3) s'(1) by (simp add: newproc_def newproc_nocopy_freeproc)
  ultimately show ?thesis using newproc_unlicensed [OF n(1)] nocopy noclass by simp
qed

theorem fork_failure_paths_witness:
  "newproc pid_boot 0 0 0 0 (Some 1) (Some 1) Unlicensed = None
    \<and> (\<exists>s'. newproc pid_boot 0 0 0 0 (Some 1) (Some 1) NoClass = Some (PFail, s') \<and> prt s' = prt pid_boot)"
  using fork_failure_paths [OF boot_reach boot_facts(1,5,2,3)] by blast

end
