(* ===== verification/Spec2Isabelle.thy ===== *)
theory Spec2Isabelle
  imports KTsAge KRtProp KProcset KPriocntl KSemSys KMsgRun KFlockProp KPidProp
begin

text \<open>
  A verification development for core services of the UNIX System V Release 4 kernel for the i386,
  \<^verbatim>\<open>src/uts/i386\<close>: process scheduling with its classes and system calls, resource allocation, credentials, two of the System V
  interprocess communication facilities, file and record locks, and process identifiers, groups and sessions.

  \<^bold>\<open>The program.\<close> The dispatcher (\<^verbatim>\<open>disp/disp.c\<close>) keeps the runnable processes on one queue per global
  priority and chooses the next one to run; it finds the highest queue with the bitmap routines
  (\<^verbatim>\<open>os/bitmap.c\<close>). A scheduling class decides on priorities; the time-sharing class (\<^verbatim>\<open>disp/ts.c\<close>) is
  called on clock ticks, wakeups, returns to user mode and once a second, and calls the dispatcher to
  move processes between queues. The real-time class (\<^verbatim>\<open>disp/rt.c\<close>) has fixed priorities and time quanta, which it converts with the high-resolution
  time of \<^verbatim>\<open>io/hrtimers.c\<close> and its double-long arithmetic; the system class is \<^verbatim>\<open>disp/sysclass.c\<close>. \<^verbatim>\<open>priocntl\<close> and \<^verbatim>\<open>nice\<close>
  (\<^verbatim>\<open>disp/priocntl.c\<close>) set and get the class and parameters of a set of processes (\<^verbatim>\<open>os/procset.c\<close>) through the class
  switch of \<^verbatim>\<open>sys/class.h\<close>. Resource maps (\<^verbatim>\<open>os/malloc.c\<close>) hand out units of an array; the
  semaphores (\<^verbatim>\<open>os/sem.c\<close>) and the texts of messages (\<^verbatim>\<open>os/msg.c\<close>) are allocated from them. Both
  facilities find their objects by key and check access with \<^verbatim>\<open>os/ipc.c\<close>, which tests the credentials of
  \<^verbatim>\<open>os/cred.c\<close>. File and record locks (\<^verbatim>\<open>os/flock.c\<close>) are kept per file in order of their starts; \<^verbatim>\<open>fcntl\<close> and,
  for mandatory locks, every read and write call them. A process has an identifier, a process group and a session
  (\<^verbatim>\<open>os/pid.c\<close>, \<^verbatim>\<open>os/pgrp.c\<close>, \<^verbatim>\<open>os/session.c\<close>), whose names are counted references to one kind of structure; \<^verbatim>\<open>fork\<close>, \<^verbatim>\<open>exit\<close> and
  the system call \<^verbatim>\<open>setpgrp\<close> (with \<^verbatim>\<open>setsid\<close> and \<^verbatim>\<open>setpgid\<close>) change them.

  \<^bold>\<open>The theories.\<close>
  \<^item> \<open>KPrelude\<close>: C integers and their wrap-around, array reads and writes that may fail, error numbers,
    generic lemmas, and the locale \<open>facility\<close> (initial states, steps, an invariant), which the semaphores, the messages,
    the time-sharing class and the process identifiers interpret. \<open>KChain\<close>: linked lists in memory, for dispatcher queues and message queues.
  \<^item> \<open>KBitmap\<close> (\<^verbatim>\<open>bt_availbit\<close>, \<^verbatim>\<open>bt_gethighbit\<close>, \<^verbatim>\<open>bt_range\<close>, \<^verbatim>\<open>BT_TEST\<close>, \<^verbatim>\<open>BT_SET\<close>, \<^verbatim>\<open>BT_CLEAR\<close>): each search returns
    what its specification over bit positions says and stays inside the map.
  \<^item> \<open>KRmap\<close> (\<^verbatim>\<open>rmalloc\<close>, \<^verbatim>\<open>rmfree\<close>, \<^verbatim>\<open>malloc\<close>, \<^verbatim>\<open>mfree\<close>, \<^verbatim>\<open>mapinit\<close>): the slots stay sorted and coalesced; allocation
    and release are refined to the set of free units. The locale \<open>unit_allocator\<close> states what the clients
    rely on (regions held are apart from each other and from the free units) and is interpreted on
    \<^verbatim>\<open>rmalloc\<close> and \<^verbatim>\<open>rmfree\<close> as \<open>rm\<close>.
  \<^item> \<open>KDisp\<close> (\<^verbatim>\<open>dispinit\<close>, \<^verbatim>\<open>setbackdq\<close>, \<^verbatim>\<open>setfrontdq\<close>, \<^verbatim>\<open>dispdeq\<close>, \<^verbatim>\<open>dq_sruninc\<close>, \<^verbatim>\<open>dq_srundec\<close>, \<^verbatim>\<open>pswtch\<close>, \<^verbatim>\<open>getcid\<close>,
    \<^verbatim>\<open>preempt\<close>): the pointers, counters, bitmap and \<^verbatim>\<open>maxrunpri\<close> implement one list per priority; the process
    chosen is the first of the highest priority that may run. The locale \<open>dispatcher\<close> is the interface
    that a scheduling class uses.
  \<^item> \<open>KTs\<close> (every operation of \<^verbatim>\<open>ts.c\<close>, the tables of \<^verbatim>\<open>master.d/ts/space.c\<close>): the model, and for each operation that
    it keeps the dispatcher invariant and the class's own and never indexes outside its tables. \<open>KTsRun\<close>: runs of the
    operations and of \<^verbatim>\<open>pswtch\<close>, whole or in its three parts with other steps while the processor idles; the global
    priority stored in every process stays the one its parameters give. \<open>KTsAge\<close>: with the shipped table a process that
    only waits is at the top level, and on the queue of that priority, after 54 calls of \<^verbatim>\<open>ts_update\<close>.
  \<^item> \<open>KQueue\<close>: moving processes between dispatcher queues, for both classes. \<open>KDl\<close> (\<^verbatim>\<open>ladd\<close>, \<^verbatim>\<open>lsub\<close>, \<^verbatim>\<open>lsign\<close>, \<^verbatim>\<open>lshiftl\<close>, \<^verbatim>\<open>lmul\<close>,
    \<^verbatim>\<open>ldivide\<close>): double-long arithmetic is arithmetic of 64-bit numbers. \<open>KHrt\<close> (\<^verbatim>\<open>hrt_newres\<close>, \<^verbatim>\<open>hrt_convert\<close>, \<^verbatim>\<open>hrt_tohz\<close>): conversion of
    times between resolutions, exact with the rounding asked for, and where the overflow check fails.
  \<^item> \<open>KRt\<close>, \<open>KRtInv\<close>, \<open>KRtProp\<close> (every operation of \<^verbatim>\<open>rt.c\<close>, the table of \<^verbatim>\<open>master.d/rt/space.c\<close>): the model; the
    invariant, by which the global priority of each process is that of its real-time priority, and its preservation; round-robin, entering
    the class, parameters and their round trip, and the choice of a process to swap out.
  \<^item> \<open>KProcset\<close> (every routine of \<^verbatim>\<open>procset.c\<close>): which descriptions of sets are valid, when one holds at most the caller, and whom \<^verbatim>\<open>dotoprocs\<close> calls its
    function for. The locale \<open>procset_client\<close> is the contract of that function.
  \<^item> \<open>KClass\<close> (\<^verbatim>\<open>class.h\<close>, \<^verbatim>\<open>sysclass.c\<close>, \<^verbatim>\<open>priocntl.c\<close>, \<^verbatim>\<open>parmsin\<close>, \<^verbatim>\<open>parmsset\<close> and their companions of \<^verbatim>\<open>disp.c\<close>): the model, with one
    dispatcher under both classes. \<open>KClassFrame\<close>: what an operation of a class may change; \<open>KClassInv\<close>: the
    invariant of the whole (each process in one class, on that class's list only); \<open>KClassSet\<close>, \<open>KClassRun\<close>: its preservation by a
    change of parameters or class; \<open>KClassProp\<close>: \<^verbatim>\<open>parmsset\<close> and the walk over a set; \<open>KPriocntl\<close>: the interpretations of
    \<open>procset_client\<close> as \<open>sp\<close> and \<open>gp\<close>, \<^verbatim>\<open>PC_SETPARMS\<close>, \<^verbatim>\<open>PC_GETPARMS\<close>, and that real-time processes run first.
  \<^item> \<open>KCred\<close> (\<^verbatim>\<open>cred.c\<close>, \<^verbatim>\<open>ipc.c\<close>): reference counts, the access check, lookup and creation by key.
  \<^item> \<open>KSem\<close>, \<open>KSemSys\<close> (every routine of \<^verbatim>\<open>sem.c\<close>): \<open>KSem\<close> holds the model and the algebra of the
    adjust-on-exit tables, up to the specification of one pass of \<^verbatim>\<open>semop\<close> over its operations; \<open>KSemSys\<close>
    the invariant of the facility, its steps and the properties of the calls. A pass of \<^verbatim>\<open>semop\<close> after a sleep reads the
    operations again and does not check the semaphore numbers again; the steps allow any, and what still holds then
    (\<open>sem_ok False\<close>) is proved beside the full invariant (\<open>sem_ok True\<close>), which needs the numbers to be unchanged.
  \<^item> \<open>KMsg\<close>, \<open>KMsgSys\<close>, \<open>KMsgRun\<close> (every routine of \<^verbatim>\<open>msg.c\<close>): \<open>KMsg\<close> holds the model and the invariant,
    \<open>KMsgSys\<close> one specification lemma per section of a call, \<open>KMsgRun\<close> initialization, steps and
    properties. Queues of headers and texts in a shared buffer are refined to lists of types and texts; every header is
    in exactly one place, the free list, a queue or a call in progress (\<open>one_place\<close>).
  \<^item> \<open>KFlock\<close>, \<open>KFlockAdj\<close>, \<open>KFlockRun\<close>, \<open>KFlockProp\<close> (every routine of \<^verbatim>\<open>flock.c\<close>): \<open>KFlock\<close> holds the model; \<open>KFlockAdj\<close>
    refines the adjustment of a list of locks to the predicate which process has which lock on which
    byte; \<open>KFlockRun\<close> has the search for a lock in the way, the steps of the calls, the exclusion of write
    locks, deadlock detection and wake-ups; \<open>KFlockProp\<close> the properties (deadlock detection against the relation \<open>waits_for\<close>,
    read off the sleeping entries and not from the code's lookup), and two reachable states in which the code goes wrong.
  \<^item> \<open>KPid\<close>, \<open>KPidInv\<close>, \<open>KPidCalls\<close>, \<open>KPidLife\<close>, \<open>KPidExit\<close>, \<open>KPidProp\<close> (every routine of \<^verbatim>\<open>pid.c\<close> and \<^verbatim>\<open>pgrp.c\<close>, \<^verbatim>\<open>session.c\<close> but for
    \<^verbatim>\<open>freectty\<close> and \<^verbatim>\<open>realloctty\<close>, \<^verbatim>\<open>setpgrp\<close> of \<^verbatim>\<open>scalls.c\<close>, the part of \<^verbatim>\<open>newproc\<close>, \<^verbatim>\<open>exit\<close> and \<^verbatim>\<open>freeproc\<close> that concerns these
    tables): \<open>KPid\<close> holds the model; \<open>KPidInv\<close> the invariant, with the slack by which counts and references differ
    in the middle of a routine, and its preservation by the primitives; \<open>KPidCalls\<close> the system call; \<open>KPidLife\<close> the search
    for a free identifier and the creation of a process; \<open>KPidExit\<close> its end and the reachable states; \<open>KPidProp\<close> the
    properties: exact counts, groups within one session, fresh identifiers, no stale pointer, \<^verbatim>\<open>setsid\<close> and \<^verbatim>\<open>setpgid\<close>.

  \<^bold>\<open>How the model corresponds to the code.\<close> A structure is a record with the source's members, a global
  table a component of the state record of its theory, and each function a definition of the same
  name; parts of a long function that are definitions of their own have its name as a prefix. A
  pointer into a table is an index or an address, the null pointer \<^const>\<open>None\<close>. The result of an access
  outside a table is \<^const>\<open>None\<close>, so a theorem that a call returns \<^const>\<open>Some\<close> is also one that it stays
  inside its tables. Error returns are values (\<open>Inl e\<close>, \<open>MErr e\<close>, \<open>SErr e\<close>). What \<^verbatim>\<open>copyin\<close> reads and whether
  \<^verbatim>\<open>copyout\<close> succeeds are arguments, as are the answers of the memory allocator; \<^verbatim>\<open>hrestime\<close> is a component of
  the state that a clock step changes. \<^verbatim>\<open>wakeprocs\<close> is recorded in a list of the words slept on.
  \<^verbatim>\<open>splhi\<close> and the absence of preemption inside the kernel make each routine one atomic step up to the
  points at which it sleeps; there the model of the routine is cut in two, and steps of other processes
  may come in between (\<open>sem_step\<close>, \<open>msg_step\<close>, \<open>flock_step\<close>). The one exception is \<^verbatim>\<open>sess_create\<close>, a single step of \<open>pid_step\<close>
  although its allocation may sleep; what another process meets meanwhile is part of \<open>pid_calls_return\<close>.

  \<^bold>\<open>Loops.\<close> Loops over lists and arrays are structural or have a measure; loops along pointers
  (\<^verbatim>\<open>dispdeq\<close>, \<^verbatim>\<open>pswtch\<close>, the search and the removal of messages, the chain of sleepers in
  \<^verbatim>\<open>deadflck\<close>) and the search for a free process identifier are partial functions whose value
  \<^const>\<open>None\<close> means that they do not end, and the theorems about them say that they do, or in the case of
  \<^verbatim>\<open>deadflck\<close> exactly when they do. No fuel is used.

  \<^bold>\<open>Assumptions on the configuration\<close> are conjuncts of the invariants (\<open>mcfg\<close>, \<open>sem_boot\<close>, \<open>msg_boot\<close>, the class's
  table conditions): at least one identifier and one unit, identifiers within 15 bits, at most 32767
  message segments (as \<^verbatim>\<open>sys/msg.h\<close> demands), fewer processes than a third of the identifiers (a process uses at most
  three), values within their C types.

  \<^bold>\<open>Not modelled.\<close> The hardware context switch, XENIX support and the 80386 errata workaround at the end of
  \<^verbatim>\<open>pswtch\<close> and \<^verbatim>\<open>preempt\<close>; the lock of the user block in \<^verbatim>\<open>rt_enterclass\<close>; the exemption of virtual 8086 processes in
  \<^verbatim>\<open>donice\<close>; the lists of alarms of the high-resolution timers. Shared memory, the rest of process and signal
  management, virtual memory, file systems, STREAMS, networking and device drivers are not modelled or depend on
  hardware; commands, libraries and the other machine architectures are outside the kernel core.
\<close>

end
